(* ===== verification/Flash_Prelude.thy ===== *)
theory Flash_Prelude
  imports Main "HOL-Library.Signed_Division"
begin

text \<open>
  The vocabulary shared by the models of the flash simulator (src/WiscKey/Flash).

  \<^item> Programs: a C function that reads and writes the simulator's global variables is a
    value of type \<open>('s, 'a) prog\<close>: it maps the state of the globals to an error or to a
    result and the new state.  An array access outside the array, an integer division by
    zero, a signed overflow, the use of a variable without a value and a call of \<open>exit\<close> are
    the errors; \<open>Out_Of_Fuel\<close> marks a
    loop of the source that was cut off by the model's fuel.
  \<^item> Arrays: a C array is a list, indexed by an \<open>int\<close> as the source indexes it.
  \<^item> Reasoning: \<open>wp m Q s\<close> says that \<open>m\<close> started in \<open>s\<close> runs into no error and ends with a
    result and a state that satisfy \<open>Q\<close>.  The collection \<open>wp\<close> holds one equation for
    each program constructor, so that \<open>simp add: wp\<close> computes weakest preconditions.
\<close>

named_theorems wp
  \<open>weakest precondition of each program constructor\<close>

named_theorems wpx
  \<open>the same with a condition on the errors\<close>

section \<open>Errors and programs\<close>

datatype error =
    Out_Of_Bounds
  | Exit_With int
  | Div_By_Zero
  | Signed_Overflow
  | Out_Of_Fuel
  | Undefined_Value

type_synonym ('s, 'a) prog = "'s \<Rightarrow> error + ('a \<times> 's)"

definition returnM :: "'a \<Rightarrow> ('s, 'a) prog" where
  "returnM x = (\<lambda>s. Inr (x, s))"

definition failM :: "error \<Rightarrow> ('s, 'a) prog" where
  "failM e = (\<lambda>s. Inl e)"

definition bindM :: "('s, 'a) prog \<Rightarrow> ('a \<Rightarrow> ('s, 'b) prog) \<Rightarrow> ('s, 'b) prog" where
  "bindM m f = (\<lambda>s. case m s of Inl e \<Rightarrow> Inl e | Inr (x, s') \<Rightarrow> f x s')"

definition thenM :: "('s, 'a) prog \<Rightarrow> ('s, 'b) prog \<Rightarrow> ('s, 'b) prog" where
  "thenM m k = bindM m (\<lambda>_. k)"

definition getM :: "('s \<Rightarrow> 'a) \<Rightarrow> ('s, 'a) prog" where
  "getM f = (\<lambda>s. Inr (f s, s))"

definition modM :: "('s \<Rightarrow> 's) \<Rightarrow> ('s, unit) prog" where
  "modM f = (\<lambda>s. Inr ((), f s))"

definition whenM :: "bool \<Rightarrow> ('s, unit) prog \<Rightarrow> ('s, unit) prog" where
  "whenM b m = (if b then m else returnM ())"

text \<open>A sequence of statements, one after the other.\<close>

primrec blockM :: "('s, unit) prog list \<Rightarrow> ('s, unit) prog" where
  "blockM [] = returnM ()"
| "blockM (m # ms) = thenM m (blockM ms)"

section \<open>Arrays\<close>

definition inb :: "'a list \<Rightarrow> int \<Rightarrow> bool" where
  "inb xs i \<longleftrightarrow> 0 \<le> i \<and> i < int (length xs)"

definition at :: "'a list \<Rightarrow> int \<Rightarrow> 'a" where
  "at xs i = xs ! nat i"

definition upd :: "'a list \<Rightarrow> int \<Rightarrow> 'a \<Rightarrow> 'a list" where
  "upd xs i v = xs[nat i := v]"

text \<open>
  Reading and writing an element of an array that is a field of the state: \<open>f\<close> is the
  field's selector and \<open>u\<close> its update function.
\<close>

definition rd :: "('s \<Rightarrow> 'a list) \<Rightarrow> int \<Rightarrow> ('s, 'a) prog" where
  "rd f i = (\<lambda>s. if inb (f s) i then Inr (at (f s) i, s) else Inl Out_Of_Bounds)"

definition wr ::
  "('s \<Rightarrow> 'a list) \<Rightarrow> (('a list \<Rightarrow> 'a list) \<Rightarrow> 's \<Rightarrow> 's) \<Rightarrow> int \<Rightarrow> 'a \<Rightarrow> ('s, unit) prog" where
  "wr f u i v = (\<lambda>s. if inb (f s) i then Inr ((), u (\<lambda>a. upd a i v) s) else Inl Out_Of_Bounds)"

definition inc ::
  "('s \<Rightarrow> int list) \<Rightarrow> ((int list \<Rightarrow> int list) \<Rightarrow> 's \<Rightarrow> 's) \<Rightarrow> int \<Rightarrow> int \<Rightarrow> ('s, unit) prog" where
  "inc f u i d = bindM (rd f i) (\<lambda>x. wr f u i (x + d))"

definition at2 :: "'a list list \<Rightarrow> int \<Rightarrow> int \<Rightarrow> 'a" where
  "at2 xss i j = at (at xss i) j"

definition upd2 :: "'a list list \<Rightarrow> int \<Rightarrow> int \<Rightarrow> 'a \<Rightarrow> 'a list list" where
  "upd2 xss i j v = upd xss i (upd (at xss i) j v)"

definition inb2 :: "'a list list \<Rightarrow> int \<Rightarrow> int \<Rightarrow> bool" where
  "inb2 xss i j \<longleftrightarrow> inb xss i \<and> inb (at xss i) j"

definition rd2 :: "('s \<Rightarrow> 'a list list) \<Rightarrow> int \<Rightarrow> int \<Rightarrow> ('s, 'a) prog" where
  "rd2 f i j = (\<lambda>s. if inb2 (f s) i j then Inr (at2 (f s) i j, s) else Inl Out_Of_Bounds)"

definition wr2 ::
  "('s \<Rightarrow> 'a list list) \<Rightarrow> (('a list list \<Rightarrow> 'a list list) \<Rightarrow> 's \<Rightarrow> 's) \<Rightarrow>
     int \<Rightarrow> int \<Rightarrow> 'a \<Rightarrow> ('s, unit) prog" where
  "wr2 f u i j v =
     (\<lambda>s. if inb2 (f s) i j then Inr ((), u (\<lambda>a. upd2 a i j v) s) else Inl Out_Of_Bounds)"

section \<open>C arithmetic\<close>

text \<open>
  Integer division and remainder of C truncate towards zero; a zero divisor is an error.
  \<open>int32\<close> is the range of the source's \<open>int\<close>; an arithmetic result outside it is a
  signed overflow.
\<close>

definition divM :: "int \<Rightarrow> int \<Rightarrow> ('s, int) prog" where
  "divM a b = (if b = 0 then failM Div_By_Zero else returnM (a sdiv b))"

definition modulM :: "int \<Rightarrow> int \<Rightarrow> ('s, int) prog" where
  "modulM a b = (if b = 0 then failM Div_By_Zero else returnM (a smod b))"

definition INT_MAX :: int where
  "INT_MAX = 2147483647"

definition int32 :: "int \<Rightarrow> bool" where
  "int32 x \<longleftrightarrow> - INT_MAX - 1 \<le> x \<and> x \<le> INT_MAX"

definition chkM :: "int \<Rightarrow> ('s, int) prog" where
  "chkM x = (if int32 x then returnM x else failM Signed_Overflow)"

text \<open>
  Single precision, for the places where the source computes with \<open>float\<close>: \<open>float_div n d\<close> is
  the quotient of \<open>0 \<le> n\<close> and \<open>0 < d\<close> rounded to 24 significant bits (ties to even) and then
  truncated to an integer.  \<open>float_exp\<close> and \<open>float_shift\<close> find by how many bits the quotient
  exceeds, or falls short of, the 24 bits; 64 steps cover the quotients of the source.
\<close>

fun float_exp :: "nat \<Rightarrow> int \<Rightarrow> int \<Rightarrow> nat" where
  "float_exp 0 n d = 0"
| "float_exp (Suc k) n d = (if n < 16777216 * d then 0 else Suc (float_exp k n (2 * d)))"

fun float_shift :: "nat \<Rightarrow> int \<Rightarrow> int \<Rightarrow> nat" where
  "float_shift 0 n d = 0"
| "float_shift (Suc k) n d = (if 8388608 * d \<le> n then 0 else Suc (float_shift k (2 * n) d))"

definition round_even :: "int \<Rightarrow> int \<Rightarrow> int" where
  "round_even n d =
     (let q = n div d; r = n mod d
      in if 2 * r < d \<or> (2 * r = d \<and> even q) then q else q + 1)"

definition float_div :: "int \<Rightarrow> int \<Rightarrow> int" where
  "float_div n d =
     (if n < 16777216 * d
      then let k = float_shift 64 n d in round_even (n * 2 ^ k) d div 2 ^ k
      else let k = float_exp 64 n d in round_even n (d * 2 ^ k) * 2 ^ k)"

section \<open>Loops\<close>

text \<open>\<open>for(i=lo; i<hi; i++) body(i)\<close>, where the body changes neither \<open>i\<close> nor the bound.\<close>

fun forN :: "nat \<Rightarrow> int \<Rightarrow> (int \<Rightarrow> ('s, unit) prog) \<Rightarrow> ('s, unit) prog" where
  "forN 0 i body = returnM ()"
| "forN (Suc n) i body = thenM (body i) (forN n (i + 1) body)"

definition forM :: "int \<Rightarrow> int \<Rightarrow> (int \<Rightarrow> ('s, unit) prog) \<Rightarrow> ('s, unit) prog" where
  "forM lo hi body = forN (nat (hi - lo)) lo body"

text \<open>\<open>while(test) body\<close> with at most \<open>fuel\<close> evaluations of the test.\<close>

fun whileM :: "nat \<Rightarrow> ('s, bool) prog \<Rightarrow> ('s, unit) prog \<Rightarrow> ('s, unit) prog" where
  "whileM 0 test body = failM Out_Of_Fuel"
| "whileM (Suc n) test body =
     bindM test (\<lambda>t. if t then thenM body (whileM n test body) else returnM ())"

section \<open>Weakest preconditions\<close>

definition wp :: "('s, 'a) prog \<Rightarrow> ('a \<Rightarrow> 's \<Rightarrow> bool) \<Rightarrow> 's \<Rightarrow> bool" where
  "wp m Q s \<longleftrightarrow> (case m s of Inl e \<Rightarrow> False | Inr (x, s') \<Rightarrow> Q x s')"

lemma wp_returnM [wp]: "wp (returnM x) Q = Q x"
  by (simp add: wp_def returnM_def fun_eq_iff)

lemma wp_failM [wp]: "wp (failM e) Q = (\<lambda>s. False)"
  by (simp add: wp_def failM_def fun_eq_iff)

lemma wp_bindM [wp]: "wp (bindM m f) Q = wp m (\<lambda>x. wp (f x) Q)"
  by (simp add: wp_def bindM_def fun_eq_iff split: sum.splits)

lemma wp_thenM [wp]: "wp (thenM m k) Q = wp m (\<lambda>_. wp k Q)"
  by (simp add: thenM_def wp_bindM)

lemma wp_getM [wp]: "wp (getM f) Q = (\<lambda>s. Q (f s) s)"
  by (simp add: wp_def getM_def fun_eq_iff)

lemma wp_modM [wp]: "wp (modM f) Q = (\<lambda>s. Q () (f s))"
  by (simp add: wp_def modM_def fun_eq_iff)

lemma wp_if [wp]: "wp (if b then m else k) Q = (\<lambda>s. if b then wp m Q s else wp k Q s)"
  by simp

lemma wp_whenM [wp]: "wp (whenM b m) Q = (\<lambda>s. if b then wp m Q s else Q () s)"
  by (simp add: whenM_def wp_returnM)

lemma wp_blockM_Nil [wp]: "wp (blockM []) Q = Q ()"
  by (simp add: wp_returnM)

lemma wp_blockM_Cons [wp]: "wp (blockM (m # ms)) Q = wp m (\<lambda>_. wp (blockM ms) Q)"
  by (simp add: wp_thenM)

lemma wp_rd [wp]: "wp (rd f i) Q = (\<lambda>s. inb (f s) i \<and> Q (at (f s) i) s)"
  by (simp add: wp_def rd_def fun_eq_iff)

lemma wp_wr [wp]: "wp (wr f u i v) Q = (\<lambda>s. inb (f s) i \<and> Q () (u (\<lambda>a. upd a i v) s))"
  by (simp add: wp_def wr_def fun_eq_iff)

lemma wp_inc [wp]:
  "wp (inc f u i d) Q = (\<lambda>s. inb (f s) i \<and> Q () (u (\<lambda>a. upd a i (at (f s) i + d)) s))"
  by (auto simp: inc_def wp fun_eq_iff)

lemma wp_rd2 [wp]: "wp (rd2 f i j) Q = (\<lambda>s. inb2 (f s) i j \<and> Q (at2 (f s) i j) s)"
  by (simp add: wp_def rd2_def fun_eq_iff)

lemma wp_wr2 [wp]:
  "wp (wr2 f u i j v) Q = (\<lambda>s. inb2 (f s) i j \<and> Q () (u (\<lambda>a. upd2 a i j v) s))"
  by (simp add: wp_def wr2_def fun_eq_iff)

lemma wp_divM [wp]: "wp (divM a b) Q = (\<lambda>s. b \<noteq> 0 \<and> Q (a sdiv b) s)"
  by (simp add: divM_def wp fun_eq_iff)

lemma wp_modulM [wp]: "wp (modulM a b) Q = (\<lambda>s. b \<noteq> 0 \<and> Q (a smod b) s)"
  by (simp add: modulM_def wp fun_eq_iff)

lemma wp_chkM [wp]: "wp (chkM x) Q = (\<lambda>s. int32 x \<and> Q x s)"
  by (simp add: chkM_def wp fun_eq_iff)

declare blockM.simps [simp del]

lemma wp_mono:
  assumes "wp m P s" and "\<And>x s'. P x s' \<Longrightarrow> Q x s'"
  shows "wp m Q s"
  using assms by (auto simp: wp_def split: sum.splits)

lemma wp_conj: "wp m P s \<Longrightarrow> wp m Q s \<Longrightarrow> wp m (\<lambda>x s'. P x s' \<and> Q x s') s"
  by (auto simp: wp_def split: sum.splits)

lemma wp_result: "wp m Q s \<longleftrightarrow> (\<exists>x s'. m s = Inr (x, s') \<and> Q x s')"
  by (auto simp: wp_def split: sum.splits)

lemma wp_resultD:
  assumes "wp m Q s" and "m s = Inr (x, s')"
  shows "Q x s'"
  using assms by (simp add: wp_def)

text \<open>Loop rules: a loop with its bound, and a loop with fuel and a measure.\<close>

lemma wp_forN:
  assumes "I i s"
    and "\<And>k t. i \<le> k \<Longrightarrow> k < i + int n \<Longrightarrow> I k t \<Longrightarrow> wp (body k) (\<lambda>_. I (k + 1)) t"
    and "\<And>t. I (i + int n) t \<Longrightarrow> Q () t"
  shows "wp (forN n i body) Q s"
  using assms
proof (induction n arbitrary: i s)
  case 0
  then show ?case by (simp add: wp if_bool_eq_conj)
next
  case (Suc n)
  have "wp (body i) (\<lambda>_. I (i + 1)) s"
    using Suc.prems(1) Suc.prems(2) by simp
  moreover have "wp (forN n (i + 1) body) Q t" if "I (i + 1) t" for t
    using that Suc.prems(2,3) by (intro Suc.IH) (simp_all add: ac_simps)
  ultimately show ?case by (auto simp: wp elim: wp_mono)
qed

lemma wp_forM:
  assumes "I lo s" and "lo \<le> hi"
    and "\<And>k t. lo \<le> k \<Longrightarrow> k < hi \<Longrightarrow> I k t \<Longrightarrow> wp (body k) (\<lambda>_. I (k + 1)) t"
    and "\<And>t. I hi t \<Longrightarrow> Q () t"
  shows "wp (forM lo hi body) Q s"
  unfolding forM_def
  by (rule wp_forN [where I = I]) (use assms in simp_all)

lemma wp_whileM:
  fixes \<mu> :: "'s \<Rightarrow> nat"
  assumes "I s" and "\<mu> s < n"
    and "\<And>t. I t \<Longrightarrow>
      wp test (\<lambda>b t'. if b then wp body (\<lambda>_ u. I u \<and> \<mu> u < \<mu> t) t' else Q () t') t"
  shows "wp (whileM n test body) Q s"
  using assms(1,2)
proof (induction n arbitrary: s)
  case 0
  then show ?case by simp
next
  case (Suc n)
  have "wp test (\<lambda>b t'. if b then wp body (\<lambda>_ u. I u \<and> \<mu> u < \<mu> s) t' else Q () t') s"
    using assms(3) Suc.prems(1) by blast
  then have "wp test (\<lambda>b t'. if b then wp body (\<lambda>_. wp (whileM n test body) Q) t' else Q () t') s"
  proof (rule wp_mono)
    fix b t'
    assume "if b then wp body (\<lambda>_ u. I u \<and> \<mu> u < \<mu> s) t' else Q () t'"
    then show "if b then wp body (\<lambda>_. wp (whileM n test body) Q) t' else Q () t'"
      using Suc by (auto elim!: wp_mono)
  qed
  then show ?case by (simp add: wp if_bool_eq_conj)
qed

section \<open>Outcomes with errors\<close>

text \<open>
  \<open>wpx m Q E s\<close>: a normal end of \<open>m\<close> satisfies \<open>Q\<close> and an error of \<open>m\<close> satisfies \<open>E\<close>.
  It states which errors a program can run into.
\<close>

definition wpx :: "('s, 'a) prog \<Rightarrow> ('a \<Rightarrow> 's \<Rightarrow> bool) \<Rightarrow> (error \<Rightarrow> bool) \<Rightarrow> 's \<Rightarrow> bool" where
  "wpx m Q E s \<longleftrightarrow> (case m s of Inl e \<Rightarrow> E e | Inr (x, s') \<Rightarrow> Q x s')"

lemma wpx_returnM [wpx]: "wpx (returnM x) Q E = Q x"
  by (simp add: wpx_def returnM_def fun_eq_iff)

lemma wpx_failM [wpx]: "wpx (failM e) Q E = (\<lambda>s. E e)"
  by (simp add: wpx_def failM_def fun_eq_iff)

lemma wpx_bindM [wpx]: "wpx (bindM m f) Q E = wpx m (\<lambda>x. wpx (f x) Q E) E"
  by (simp add: wpx_def bindM_def fun_eq_iff split: sum.splits)

lemma wpx_thenM [wpx]: "wpx (thenM m k) Q E = wpx m (\<lambda>_. wpx k Q E) E"
  by (simp add: thenM_def wpx_bindM)

lemma wpx_getM [wpx]: "wpx (getM f) Q E = (\<lambda>s. Q (f s) s)"
  by (simp add: wpx_def getM_def fun_eq_iff)

lemma wpx_modM [wpx]: "wpx (modM f) Q E = (\<lambda>s. Q () (f s))"
  by (simp add: wpx_def modM_def fun_eq_iff)

lemma wpx_if [wpx]: "wpx (if b then m else k) Q E = (\<lambda>s. if b then wpx m Q E s else wpx k Q E s)"
  by simp

lemma wpx_whenM [wpx]: "wpx (whenM b m) Q E = (\<lambda>s. if b then wpx m Q E s else Q () s)"
  by (simp add: whenM_def wpx_returnM)

lemma wpx_blockM_Nil [wpx]: "wpx (blockM []) Q E = Q ()"
  by (simp add: blockM.simps wpx_returnM)

lemma wpx_blockM_Cons [wpx]: "wpx (blockM (m # ms)) Q E = wpx m (\<lambda>_. wpx (blockM ms) Q E) E"
  by (simp add: blockM.simps wpx_thenM)

lemma wpx_rd [wpx]:
  "wpx (rd f i) Q E = (\<lambda>s. if inb (f s) i then Q (at (f s) i) s else E Out_Of_Bounds)"
  by (simp add: wpx_def rd_def fun_eq_iff)

lemma wpx_wr [wpx]:
  "wpx (wr f u i v) Q E =
     (\<lambda>s. if inb (f s) i then Q () (u (\<lambda>a. upd a i v) s) else E Out_Of_Bounds)"
  by (simp add: wpx_def wr_def fun_eq_iff)

lemma wpx_inc [wpx]:
  "wpx (inc f u i d) Q E =
     (\<lambda>s. if inb (f s) i then Q () (u (\<lambda>a. upd a i (at (f s) i + d)) s) else E Out_Of_Bounds)"
  by (auto simp: inc_def wpx fun_eq_iff)

lemma wpx_rd2 [wpx]:
  "wpx (rd2 f i j) Q E = (\<lambda>s. if inb2 (f s) i j then Q (at2 (f s) i j) s else E Out_Of_Bounds)"
  by (simp add: wpx_def rd2_def fun_eq_iff)

lemma wpx_wr2 [wpx]:
  "wpx (wr2 f u i j v) Q E =
     (\<lambda>s. if inb2 (f s) i j then Q () (u (\<lambda>a. upd2 a i j v) s) else E Out_Of_Bounds)"
  by (simp add: wpx_def wr2_def fun_eq_iff)

lemma wpx_divM [wpx]: "wpx (divM a b) Q E = (\<lambda>s. if b = 0 then E Div_By_Zero else Q (a sdiv b) s)"
  by (simp add: divM_def wpx fun_eq_iff)

lemma wpx_modulM [wpx]: "wpx (modulM a b) Q E = (\<lambda>s. if b = 0 then E Div_By_Zero else Q (a smod b) s)"
  by (simp add: modulM_def wpx fun_eq_iff)

lemma wpx_chkM [wpx]: "wpx (chkM x) Q E = (\<lambda>s. if int32 x then Q x s else E Signed_Overflow)"
  by (simp add: chkM_def wpx fun_eq_iff)

lemma wpx_mono:
  assumes "wpx m P E s" and "\<And>x s'. P x s' \<Longrightarrow> Q x s'" and "\<And>e. E e \<Longrightarrow> F e"
  shows "wpx m Q F s"
  using assms by (auto simp: wpx_def split: sum.splits)

section \<open>Lemmas on arrays\<close>

lemma length_upd [simp]: "length (upd xs i v) = length xs"
  by (simp add: upd_def)

lemma inb_upd [simp]: "inb (upd xs j v) i = inb xs i"
  by (simp add: inb_def)

lemma at_upd_eq [simp]: "inb xs i \<Longrightarrow> at (upd xs i v) i = v"
  by (auto simp: at_def upd_def inb_def)

lemma at_upd_neq [simp]: "i \<noteq> j \<Longrightarrow> 0 \<le> i \<Longrightarrow> 0 \<le> j \<Longrightarrow> at (upd xs i v) j = at xs j"
  by (auto simp: at_def upd_def)

lemma at_upd: "inb xs i \<Longrightarrow> 0 \<le> j \<Longrightarrow> at (upd xs i v) j = (if i = j then v else at xs j)"
  by (auto simp: inb_def)

lemma at_in_set: "inb xs i \<Longrightarrow> at xs i \<in> set xs"
  by (auto simp: inb_def at_def)

lemma in_set_at: "x \<in> set xs \<longleftrightarrow> (\<exists>i. inb xs i \<and> at xs i = x)"
proof
  assume "x \<in> set xs"
  then obtain n where "n < length xs" "xs ! n = x" by (auto simp: in_set_conv_nth)
  then have "inb xs (int n) \<and> at xs (int n) = x" by (simp add: inb_def at_def)
  then show "\<exists>i. inb xs i \<and> at xs i = x" by blast
qed (auto simp: at_in_set)

lemma list_eq_at: "length xs = length ys \<Longrightarrow> (\<And>i. inb xs i \<Longrightarrow> at xs i = at ys i) \<Longrightarrow> xs = ys"
proof (rule nth_equalityI)
  fix n
  assume *: "\<And>i. inb xs i \<Longrightarrow> at xs i = at ys i" "n < length xs"
  then show "xs ! n = ys ! n" using *(1) [of "int n"] by (simp add: inb_def at_def)
qed

lemma inb_nonneg: "inb xs i \<Longrightarrow> 0 \<le> i"
  by (simp add: inb_def)

lemma at_replicate [simp]: "0 \<le> i \<Longrightarrow> i < int n \<Longrightarrow> at (replicate n x) i = x"
  by (simp add: at_def)

lemma inb_replicate [simp]: "inb (replicate n x) i \<longleftrightarrow> 0 \<le> i \<and> i < int n"
  by (simp add: inb_def)

lemma at2_upd2_eq [simp]: "inb2 xss i j \<Longrightarrow> at2 (upd2 xss i j v) i j = v"
  by (simp add: at2_def upd2_def inb2_def)

lemma at2_upd2:
  "inb2 xss i j \<Longrightarrow> 0 \<le> i' \<Longrightarrow> 0 \<le> j' \<Longrightarrow>
     at2 (upd2 xss i j v) i' j' = (if i = i' \<and> j = j' then v else at2 xss i' j')"
  by (auto simp: at2_def upd2_def inb2_def at_upd)

lemma length_upd2 [simp]: "length (upd2 xss i j v) = length xss"
  by (simp add: upd2_def)

lemma inb2_upd2 [simp]: "inb2 xss i j \<Longrightarrow> inb2 (upd2 xss i j v) i' j' = inb2 xss i' j'"
  by (auto simp: inb2_def upd2_def at_upd inb_nonneg split: if_splits)

lemma at_upd2:
  "inb2 xss i j \<Longrightarrow> 0 \<le> b \<Longrightarrow>
     at (upd2 xss i j v) b = (if b = i then upd (at xss i) j v else at xss b)"
  by (auto simp: upd2_def inb2_def at_upd)

section \<open>Lemmas on C arithmetic\<close>

lemma sdiv_nonneg [simp]: "0 \<le> a \<Longrightarrow> 0 < b \<Longrightarrow> a sdiv b = a div b" for a b :: int
  by (cases "a = 0") (auto simp: signed_divide_int_def sgn_if)

lemma smod_nonneg [simp]: "0 \<le> a \<Longrightarrow> 0 < b \<Longrightarrow> a smod b = a mod b" for a b :: int
  by (cases "a = 0") (auto simp: signed_modulo_int_def sgn_if minus_div_mult_eq_mod)

lemma div_less_mult:
  fixes b c d :: int
  assumes "b < c * d" "0 < d"
  shows "b div d < c"
proof -
  have "b div d * d \<le> b"
    using div_mult_mod_eq [of b d] pos_mod_sign [of d b] assms(2) by linarith
  with assms have "b div d * d < c * d" by linarith
  with assms(2) show ?thesis by simp
qed

section \<open>Counting the elements of an array\<close>

definition cnt :: "('a \<Rightarrow> bool) \<Rightarrow> 'a list \<Rightarrow> int" where
  "cnt P xs = int (length (filter P xs))"

lemma cnt_nonneg [simp]: "0 \<le> cnt P xs"
  by (simp add: cnt_def)

lemma cnt_le_length: "cnt P xs \<le> int (length xs)"
  by (simp add: cnt_def)

lemma cnt_upd:
  assumes "inb xs i"
  shows "cnt P (upd xs i v) = cnt P xs - of_bool (P (at xs i)) + of_bool (P v)"
proof -
  have n: "nat i < length xs" using assms by (auto simp: inb_def)
  have "cnt P xs = cnt P (take (nat i) xs @ xs ! nat i # drop (Suc (nat i)) xs)"
    using id_take_nth_drop [OF n] by simp
  also have "\<dots> = cnt P (take (nat i) xs) + of_bool (P (xs ! nat i)) + cnt P (drop (Suc (nat i)) xs)"
    by (simp add: cnt_def)
  finally have "cnt P xs =
      cnt P (take (nat i) xs) + of_bool (P (xs ! nat i)) + cnt P (drop (Suc (nat i)) xs)" .
  moreover have "cnt P (upd xs i v) =
      cnt P (take (nat i) xs) + of_bool (P v) + cnt P (drop (Suc (nat i)) xs)"
    using n by (simp add: cnt_def upd_def upd_conv_take_nth_drop)
  ultimately show ?thesis by (simp add: at_def)
qed

lemma cnt_pos_iff: "0 < cnt P xs \<longleftrightarrow> (\<exists>i. inb xs i \<and> P (at xs i))"
proof -
  have "0 < cnt P xs \<longleftrightarrow> (\<exists>x\<in>set xs. P x)"
    by (auto simp: cnt_def filter_empty_conv)
  then show ?thesis by (metis in_set_at)
qed

lemma cnt_eq_0_iff: "cnt P xs = 0 \<longleftrightarrow> (\<forall>i. inb xs i \<longrightarrow> \<not> P (at xs i))"
  using cnt_pos_iff [of P xs] cnt_nonneg [of P xs] by (metis less_le)

lemma cnt_replicate: "cnt P (replicate n x) = (if P x then int n else 0)"
  by (simp add: cnt_def)

end
