(* ===== verification/Flash_Memory.thy ===== *)
theory Flash_Memory
  imports Flash_Prelude
begin

text \<open>
  The flash memory of the simulator (flash.h, flash.c): its global variables as a record, the
  access-time macros, the page counters and the free block list.  The free block list is a
  singly linked list threaded through the array \<open>FreeBlockList\<close>, taken from at its head and
  extended at its tail; \<open>fbl s xs\<close> says that the state \<open>s\<close> holds the list \<open>xs\<close>.

  The record is open: the globals of a translation layer extend it, so that its functions call
  the functions of this theory directly.
\<close>

section \<open>Global variables\<close>

record Statistics_t =
  TotalBlockEraseCount :: int
  TotalLivePageCopyings :: int
  TotalWriteRequestCount :: int
  TotalReadRequestCount :: int
  TotalWriteRequestTime :: int
  TotalReadRequestTime :: int
  TotalWritePageCount :: int
  TotalReadPageCount :: int
  TotalVBTReferenceCnt :: int
  TotalVPTReferenceCnt :: int
  TotalParityCheckReferenceCnt :: int
  TotalVBTMissCnt :: int
  TotalVPTMissCnt :: int
  TotalParityCheckMissCnt :: int
  TotalWriteSubPageCount :: int
  TotalReadSubPageCount :: int
  TotalLiveSubPageCopyings :: int
  FailedWriteOperation :: int
  FailedReadOperation :: int

text \<open>The parameters of the device, which only the initialisation changes.\<close>

record geometry =
  FlashSize :: int
  ChipNumber :: int
  ChipSize :: int
  BlockSize :: int
  BlocksPerChip :: int
  PageSize :: int
  SubPageSize :: int
  PageSpareSize :: int
  PageToLBARatio :: int
  MaxLBA :: int
  MaxCluster :: int
  MaxBlock :: int
  MaxPage :: int
  MaxSubPage :: int
  BadBlocksPerChip :: int
  EraseBlockTime :: int
  WritePageTime :: int
  ReadPageTime :: int
  SerialAccessTime :: int
  AccessSRAM :: int
  InitialPercentage :: int
  LeastBlocksInFreeBlockList :: int

text \<open>
  The mutable globals.  \<open>rand_seq\<close> and \<open>rand_pos\<close> stand for the generator behind the C
  library's \<open>rand\<close>: the sequence it will deliver and the position reached.
\<close>

record flash = geometry +
  FreeBlockList :: "int list"
  FreeBlockListHead :: int
  FreeBlockListTail :: int
  BlocksInFreeBlockList :: int
  BlocksInFreeBlockListArray :: "int list"
  FlashMemory :: "int list list"
  BadBlockCnt :: int
  BadBlockCntArray :: "int list"
  MaxBlockEraseCnt :: int
  BlockEraseCnt :: "int list"
  ChipEraseCnt :: "int list"
  InvalidPageCnt :: "int list"
  ValidPageCnt :: "int list"
  FreePageCnt :: "int list"
  InvalidSubPageCnt :: "int list"
  ValidSubPageCnt :: "int list"
  FreeSubPageCnt :: "int list"
  AccessedLogicalPages :: int
  AccessedLogicalPageMap :: "bool list"
  SystemFailFlg :: bool
  AccessStatistics :: Statistics_t
  rand_seq :: "nat \<Rightarrow> int"
  rand_pos :: nat

abbreviation (input) FBL_POINT_TO_NULL :: int where "FBL_POINT_TO_NULL \<equiv> - 1"
abbreviation (input) FBL_NOT_IN_LIST :: int where "FBL_NOT_IN_LIST \<equiv> - 2"
abbreviation (input) FREE_PAGE :: int where "FREE_PAGE \<equiv> - 1"
abbreviation (input) INVALID_PAGE :: int where "INVALID_PAGE \<equiv> - 2"
abbreviation (input) BAD_BLOCK :: int where "BAD_BLOCK \<equiv> - 3"
abbreviation (input) VALID_PAGE :: int where "VALID_PAGE \<equiv> - 4"
abbreviation (input) LBA_SIZE :: int where "LBA_SIZE \<equiv> 512"

datatype AccessType_t = ReadType | WriteType

section \<open>Access times and statistics\<close>

definition TIME_TRANSFER_PAGE :: "'a geometry_scheme \<Rightarrow> int" where
  "TIME_TRANSFER_PAGE s = SerialAccessTime s * (PageSpareSize s + PageSize s)"

definition TIME_TRANSFER_SPARE_PAGE :: "'a geometry_scheme \<Rightarrow> int" where
  "TIME_TRANSFER_SPARE_PAGE s = SerialAccessTime s * PageSpareSize s"

definition TIME_READ_PAGE :: "'a geometry_scheme \<Rightarrow> int" where
  "TIME_READ_PAGE s = ReadPageTime s + TIME_TRANSFER_PAGE s"

definition TIME_READ_SPARE_PAGE :: "'a geometry_scheme \<Rightarrow> int" where
  "TIME_READ_SPARE_PAGE s = ReadPageTime s + TIME_TRANSFER_SPARE_PAGE s"

definition TIME_WRITE_PAGE :: "'a geometry_scheme \<Rightarrow> int" where
  "TIME_WRITE_PAGE s = WritePageTime s + TIME_TRANSFER_PAGE s"

definition TIME_ERASE_BLOCK :: "'a geometry_scheme \<Rightarrow> int" where
  "TIME_ERASE_BLOCK s = EraseBlockTime s"

text \<open>An update of \<open>AccessStatistics\<close>.\<close>

definition stat :: "(Statistics_t \<Rightarrow> Statistics_t) \<Rightarrow> ('a flash_scheme, unit) prog" where
  "stat u = modM (AccessStatistics_update u)"

text \<open>Time charged to write and to read requests.\<close>

definition write_time :: "('a flash_scheme \<Rightarrow> int) \<Rightarrow> ('a flash_scheme, unit) prog" where
  "write_time f = bindM (getM f) (\<lambda>t. stat (TotalWriteRequestTime_update (\<lambda>x. x + t)))"

definition read_time :: "('a flash_scheme \<Rightarrow> int) \<Rightarrow> ('a flash_scheme, unit) prog" where
  "read_time f = bindM (getM f) (\<lambda>t. stat (TotalReadRequestTime_update (\<lambda>x. x + t)))"

definition zero_statistics :: Statistics_t where
  "zero_statistics = \<lparr>TotalBlockEraseCount = 0, TotalLivePageCopyings = 0,
     TotalWriteRequestCount = 0, TotalReadRequestCount = 0, TotalWriteRequestTime = 0,
     TotalReadRequestTime = 0, TotalWritePageCount = 0, TotalReadPageCount = 0,
     TotalVBTReferenceCnt = 0, TotalVPTReferenceCnt = 0, TotalParityCheckReferenceCnt = 0,
     TotalVBTMissCnt = 0, TotalVPTMissCnt = 0, TotalParityCheckMissCnt = 0,
     TotalWriteSubPageCount = 0, TotalReadSubPageCount = 0, TotalLiveSubPageCopyings = 0,
     FailedWriteOperation = 0, FailedReadOperation = 0\<rparr>"

definition ResetStatisticVariable :: "('a flash_scheme, unit) prog" where
  "ResetStatisticVariable = modM (AccessStatistics_update (\<lambda>_. zero_statistics))"

definition SetSystemFail :: "('a flash_scheme, unit) prog" where
  "SetSystemFail = modM (SystemFailFlg_update (\<lambda>_. True))"

definition IsSystemFail :: "('a flash_scheme, bool) prog" where
  "IsSystemFail = getM SystemFailFlg"

text \<open>The C library's \<open>rand\<close>.\<close>

definition RAND_MAX :: int where
  "RAND_MAX = 2147483647"

definition randM :: "('a flash_scheme, int) prog" where
  "randM = bindM (getM (\<lambda>s. rand_seq s (rand_pos s))) (\<lambda>r.
     thenM (modM (rand_pos_update Suc)) (returnM r))"

text \<open>
  The threshold \<open>(int)((float)InitialPercentage * RAND_MAX / 100)\<close> with which the translation
  layers choose their initial data: \<open>RAND_MAX\<close> becomes \<open>2^31\<close> in single precision, the product
  is exact, the quotient is rounded; a value outside \<open>int\<close> is an overflow.
\<close>

definition BlockMaxRandomValue :: "int \<Rightarrow> ('a flash_scheme, int) prog" where
  "BlockMaxRandomValue p = chkM (sgn p * float_div (\<bar>p\<bar> * 2147483648) 100)"

section \<open>Page counters\<close>

text \<open>A counter that becomes negative makes the source print a message and go on.\<close>

definition FreePageCount :: "int \<Rightarrow> int \<Rightarrow> ('a flash_scheme, unit) prog" where
  "FreePageCount blockNum num = inc FreePageCnt FreePageCnt_update blockNum num"

definition VaildPageCount :: "int \<Rightarrow> int \<Rightarrow> ('a flash_scheme, unit) prog" where
  "VaildPageCount blockNum num = inc ValidPageCnt ValidPageCnt_update blockNum num"

definition InvaildPageCount :: "int \<Rightarrow> int \<Rightarrow> ('a flash_scheme, unit) prog" where
  "InvaildPageCount blockNum num = inc InvalidPageCnt InvalidPageCnt_update blockNum num"

definition FreeSubPageCount :: "int \<Rightarrow> int \<Rightarrow> ('a flash_scheme, unit) prog" where
  "FreeSubPageCount blockNum num = inc FreeSubPageCnt FreeSubPageCnt_update blockNum num"

definition VaildSubPageCount :: "int \<Rightarrow> int \<Rightarrow> ('a flash_scheme, unit) prog" where
  "VaildSubPageCount blockNum num = inc ValidSubPageCnt ValidSubPageCnt_update blockNum num"

definition InvaildSubPageCount :: "int \<Rightarrow> int \<Rightarrow> ('a flash_scheme, unit) prog" where
  "InvaildSubPageCount blockNum num = inc InvalidSubPageCnt InvalidSubPageCnt_update blockNum num"

section \<open>The free block list\<close>

definition SetLeastBlocksInFBL :: "int \<Rightarrow> ('a flash_scheme, unit) prog" where
  "SetLeastBlocksInFBL n = modM (LeastBlocksInFreeBlockList_update (\<lambda>_. n))"

definition LeastFreeBlocksInFBL :: "'a geometry_scheme \<Rightarrow> int" where
  "LeastFreeBlocksInFBL s = LeastBlocksInFreeBlockList s"

text \<open>
  The statements that take the block at the head of the list, which the source repeats in both
  branches of \<open>GetFreeBlock\<close> and in \<open>GetFreeBlockFromChipWithoutChecking\<close>.  The test of the
  block number, with the extra disjunct \<open>over\<close> that the last function adds, comes after the
  block number was used as an index.
\<close>

definition fetch_head_block :: "bool \<Rightarrow> ('a flash_scheme, int) prog" where
  "fetch_head_block over =
     bindM (getM FreeBlockListHead) (\<lambda>block.
     bindM (rd FreeBlockList block) (\<lambda>nxt.
     thenM (blockM
       [modM (FreeBlockListHead_update (\<lambda>_. nxt)),
        wr FreeBlockList FreeBlockList_update block FBL_NOT_IN_LIST,
        bindM (getM MaxBlock) (\<lambda>mb.
          whenM (block > mb \<or> block < 0 \<or> over) (failM (Exit_With 1))),
        modM (BlocksInFreeBlockList_update (\<lambda>n. n - 1)),
        bindM (getM BlocksPerChip) (\<lambda>bpc. bindM (divM block bpc) (\<lambda>chip.
          inc BlocksInFreeBlockListArray BlocksInFreeBlockListArray_update chip (- 1))),
        bindM (getM MaxPage) (\<lambda>mp. wr FreePageCnt FreePageCnt_update block mp),
        wr InvalidPageCnt InvalidPageCnt_update block 0,
        wr ValidPageCnt ValidPageCnt_update block 0,
        bindM (getM (\<lambda>s. MaxSubPage s * MaxPage s)) (\<lambda>n.
          wr FreeSubPageCnt FreeSubPageCnt_update block n),
        wr InvalidSubPageCnt InvalidSubPageCnt_update block 0,
        wr ValidSubPageCnt ValidSubPageCnt_update block 0])
     (returnM block)))"

definition GetFreeBlock :: "bool \<Rightarrow> ('a flash_scheme, int) prog" where
  "GetFreeBlock fromGcRequest =
     (if fromGcRequest then fetch_head_block False
      else bindM (getM (\<lambda>s. BlocksInFreeBlockList s > LeastFreeBlocksInFBL s)) (\<lambda>enough.
        if enough then fetch_head_block False else returnM (- 1)))"

definition PutFreeBlock :: "int \<Rightarrow> ('a flash_scheme, unit) prog" where
  "PutFreeBlock BlockID = blockM
     [bindM (getM FreeBlockListTail) (\<lambda>tail. wr FreeBlockList FreeBlockList_update tail BlockID),
      modM (FreeBlockListTail_update (\<lambda>_. BlockID)),
      bindM (getM FreeBlockListTail) (\<lambda>tail.
        wr FreeBlockList FreeBlockList_update tail FBL_POINT_TO_NULL),
      modM (BlocksInFreeBlockList_update (\<lambda>n. n + 1)),
      bindM (getM BlocksPerChip) (\<lambda>bpc. bindM (divM BlockID bpc) (\<lambda>chip.
        inc BlocksInFreeBlockListArray BlocksInFreeBlockListArray_update chip 1))]"

text \<open>
  The loop of \<open>GetFreeBlockFromChipWithoutChecking\<close>; \<open>n\<close> is the value of the counter \<open>cnt\<close>
  before the iteration.  The source leaves the loop through \<open>exit\<close> once \<open>cnt\<close> exceeds
  \<open>MaxBlock\<close>, so \<open>nat MaxBlock + 2\<close> iterations are enough.
\<close>

fun chip_loop :: "nat \<Rightarrow> int \<Rightarrow> int \<Rightarrow> ('a flash_scheme, int) prog" where
  "chip_loop 0 n chip = failM Out_Of_Fuel"
| "chip_loop (Suc fuel) n chip =
     bindM (getM MaxBlock) (\<lambda>mb.
     bindM (fetch_head_block (n + 1 > mb)) (\<lambda>block.
     bindM (getM BlocksPerChip) (\<lambda>bpc.
     bindM (divM block bpc) (\<lambda>c.
       if c \<noteq> chip then thenM (PutFreeBlock block) (chip_loop fuel (n + 1) chip)
       else returnM block))))"

definition GetFreeBlockFromChipWithoutChecking :: "int \<Rightarrow> ('a flash_scheme, int) prog" where
  "GetFreeBlockFromChipWithoutChecking chip =
     bindM (getM MaxBlock) (\<lambda>mb. chip_loop (nat mb + 2) 0 chip)"

text \<open>The test shared by the two functions below, for one chip.\<close>

definition chip_has_enough :: "int \<Rightarrow> ('a flash_scheme, bool) prog" where
  "chip_has_enough chip =
     bindM (rd BlocksInFreeBlockListArray chip) (\<lambda>n.
     bindM (getM LeastFreeBlocksInFBL) (\<lambda>least.
     bindM (getM ChipNumber) (\<lambda>chips.
     bindM (divM least chips) (\<lambda>share. returnM (n > share)))))"

definition GetFreeBlockFromChip :: "int \<Rightarrow> ('a flash_scheme, int) prog" where
  "GetFreeBlockFromChip chip =
     bindM (chip_has_enough chip) (\<lambda>enough.
       if enough then GetFreeBlockFromChipWithoutChecking chip else returnM (- 1))"

definition CheckFreeBlock :: "('a flash_scheme, int) prog" where
  "CheckFreeBlock = getM (\<lambda>s.
     if BlocksInFreeBlockList s > LeastFreeBlocksInFBL s then FreeBlockListHead s else - 1)"

definition CheckFreeBlockFromChip :: "int \<Rightarrow> ('a flash_scheme, int) prog" where
  "CheckFreeBlockFromChip chip =
     bindM (chip_has_enough chip) (\<lambda>enough.
       if enough then getM FreeBlockListHead else returnM (- 1))"

definition SetMaxLBA :: "int \<Rightarrow> ('a flash_scheme, unit) prog" where
  "SetMaxLBA m = blockM
     [modM (MaxLBA_update (\<lambda>_. m)),
      bindM (getM MaxLBA) (\<lambda>l. bindM (getM PageToLBARatio) (\<lambda>r.
        bindM (divM l r) (\<lambda>c. modM (MaxCluster_update (\<lambda>_. c)))))]"

definition GetMaxLBA :: "('a flash_scheme, int) prog" where
  "GetMaxLBA = getM MaxLBA"

section \<open>The list held by the array\<close>

text \<open>
  \<open>linked fl xs\<close>: each block of \<open>xs\<close> points to the next one in the array \<open>fl\<close> and the last
  one to NULL.
\<close>

primrec linked :: "int list \<Rightarrow> int list \<Rightarrow> bool" where
  "linked fl [] \<longleftrightarrow> True"
| "linked fl (x # xs) \<longleftrightarrow>
     at fl x = (case xs of [] \<Rightarrow> FBL_POINT_TO_NULL | y # _ \<Rightarrow> y) \<and> linked fl xs"

text \<open>The number of blocks of a list on a chip.\<close>

definition on_chip :: "int \<Rightarrow> int \<Rightarrow> int list \<Rightarrow> int" where
  "on_chip bpc c xs = cnt (\<lambda>b. b div bpc = c) xs"

text \<open>
  The arrays have the sizes that \<open>InitializeFlashMemory\<close> allocates, and every block lies on
  a chip.
\<close>

definition sized :: "'a flash_scheme \<Rightarrow> bool" where
  "sized s \<longleftrightarrow>
     0 < BlocksPerChip s \<and> 0 < MaxPage s \<and> 0 < ChipNumber s \<and>
     MaxBlock s \<le> ChipNumber s * BlocksPerChip s \<and>
     int (length (FreeBlockList s)) = MaxBlock s \<and>
     int (length (BlocksInFreeBlockListArray s)) = ChipNumber s \<and>
     int (length (FreePageCnt s)) = MaxBlock s \<and>
     int (length (InvalidPageCnt s)) = MaxBlock s \<and>
     int (length (ValidPageCnt s)) = MaxBlock s \<and>
     int (length (FreeSubPageCnt s)) = MaxBlock s \<and>
     int (length (InvalidSubPageCnt s)) = MaxBlock s \<and>
     int (length (ValidSubPageCnt s)) = MaxBlock s \<and>
     int (length (BlockEraseCnt s)) = MaxBlock s"

definition fbl :: "'a flash_scheme \<Rightarrow> int list \<Rightarrow> bool" where
  "fbl s xs \<longleftrightarrow>
     sized s \<and> xs \<noteq> [] \<and> distinct xs \<and> (\<forall>b \<in> set xs. 0 \<le> b \<and> b < MaxBlock s) \<and>
     linked (FreeBlockList s) xs \<and>
     FreeBlockListHead s = hd xs \<and> FreeBlockListTail s = last xs \<and>
     BlocksInFreeBlockList s = int (length xs) \<and>
     (\<forall>c. 0 \<le> c \<and> c < ChipNumber s \<longrightarrow>
        at (BlocksInFreeBlockListArray s) c = on_chip (BlocksPerChip s) c xs)"

text \<open>The state after the block at the head of the list was taken.\<close>

definition unlinked :: "int \<Rightarrow> int \<Rightarrow> 'a flash_scheme \<Rightarrow> 'a flash_scheme" where
  "unlinked b nxt s =
     ValidSubPageCnt_update (\<lambda>a. upd a b 0)
    (InvalidSubPageCnt_update (\<lambda>a. upd a b 0)
    (FreeSubPageCnt_update (\<lambda>a. upd a b (MaxSubPage s * MaxPage s))
    (ValidPageCnt_update (\<lambda>a. upd a b 0)
    (InvalidPageCnt_update (\<lambda>a. upd a b 0)
    (FreePageCnt_update (\<lambda>a. upd a b (MaxPage s))
    (BlocksInFreeBlockListArray_update (\<lambda>a. upd a (b div BlocksPerChip s)
       (at (BlocksInFreeBlockListArray s) (b div BlocksPerChip s) - 1))
    (BlocksInFreeBlockList_update (\<lambda>n. n - 1)
    (FreeBlockList_update (\<lambda>a. upd a b FBL_NOT_IN_LIST)
    (FreeBlockListHead_update (\<lambda>_. nxt) s)))))))))"

text \<open>The state after a block was appended.\<close>

definition appended :: "int \<Rightarrow> 'a flash_scheme \<Rightarrow> 'a flash_scheme" where
  "appended b s =
     BlocksInFreeBlockListArray_update (\<lambda>a. upd a (b div BlocksPerChip s)
       (at (BlocksInFreeBlockListArray s) (b div BlocksPerChip s) + 1))
    (BlocksInFreeBlockList_update (\<lambda>n. n + 1)
    (FreeBlockList_update (\<lambda>a. upd a b FBL_POINT_TO_NULL)
    (FreeBlockListTail_update (\<lambda>_. b)
    (FreeBlockList_update (\<lambda>a. upd a (FreeBlockListTail s) b) s))))"

lemma linked_upd_notin:
  "b \<notin> set xs \<Longrightarrow> 0 \<le> b \<Longrightarrow> \<forall>x \<in> set xs. 0 \<le> x \<Longrightarrow> linked (upd fl b v) xs = linked fl xs"
  by (induction xs) auto

lemma linked_append:
  assumes "linked fl xs" "xs \<noteq> []" "distinct xs" "\<forall>x \<in> set xs. inb fl x"
    and "inb fl b" "b \<notin> set xs"
  shows "linked (upd (upd fl (last xs) b) b FBL_POINT_TO_NULL) (xs @ [b])"
  using assms
proof (induction xs)
  case (Cons x xs)
  show ?case
  proof (cases xs)
    case Nil
    with Cons.prems show ?thesis by (auto simp: inb_nonneg)
  next
    case (Cons y ys)
    then have "linked (upd (upd fl (last xs) b) b FBL_POINT_TO_NULL) (xs @ [b])"
      using Cons.prems by (intro Cons.IH) auto
    moreover have "at (upd (upd fl (last xs) b) b FBL_POINT_TO_NULL) x = at fl x"
    proof -
      have "x \<noteq> last xs" using Cons.prems(3) Cons by auto
      moreover have "last xs \<in> set xs" using Cons by simp
      ultimately show ?thesis using Cons.prems by (auto simp: inb_nonneg)
    qed
    ultimately show ?thesis using Cons.prems Cons by simp
  qed
qed simp

lemma on_chip_Cons: "on_chip bpc c (x # xs) = of_bool (x div bpc = c) + on_chip bpc c xs"
  by (simp add: on_chip_def cnt_def)

lemma on_chip_snoc: "on_chip bpc c (xs @ [x]) = on_chip bpc c xs + of_bool (x div bpc = c)"
  by (simp add: on_chip_def cnt_def)

lemma chip_of_block:
  assumes "sized s" "0 \<le> b" "b < MaxBlock s"
  shows "0 \<le> b div BlocksPerChip s" "b div BlocksPerChip s < ChipNumber s"
proof -
  have "b < ChipNumber s * BlocksPerChip s" using assms by (simp add: sized_def)
  then show "b div BlocksPerChip s < ChipNumber s"
    using assms(1) by (simp add: sized_def div_less_mult)
  show "0 \<le> b div BlocksPerChip s" using assms by (simp add: sized_def pos_imp_zdiv_nonneg_iff)
qed

text \<open>What the functions do on a state that holds the list \<open>xs\<close>.\<close>

lemma sized_inb:
  assumes "sized s" "0 \<le> b" "b < MaxBlock s"
  shows "inb (FreeBlockList s) b" "inb (FreePageCnt s) b" "inb (InvalidPageCnt s) b"
    "inb (ValidPageCnt s) b" "inb (FreeSubPageCnt s) b" "inb (InvalidSubPageCnt s) b"
    "inb (ValidSubPageCnt s) b" "inb (BlockEraseCnt s) b"
    "inb (BlocksInFreeBlockListArray s) (b div BlocksPerChip s)"
    "b sdiv BlocksPerChip s = b div BlocksPerChip s" "BlocksPerChip s \<noteq> 0"
  using assms chip_of_block [OF assms] by (auto simp: sized_def inb_def)

lemma fbl_block: "fbl s xs \<Longrightarrow> b \<in> set xs \<Longrightarrow> 0 \<le> b \<and> b < MaxBlock s"
  by (simp add: fbl_def)

lemma wp_fetch_head_block:
  assumes "fbl s (b # xs)" "\<not> over"
  shows "wp (fetch_head_block over) Q s =
    Q b (unlinked b (case xs of [] \<Rightarrow> FBL_POINT_TO_NULL | y # _ \<Rightarrow> y) s)"
proof -
  have sz: "sized s" and b: "0 \<le> b" "b < MaxBlock s" using assms by (auto simp: fbl_def)
  have hd: "FreeBlockListHead s = b"
    and nx: "at (FreeBlockList s) b = (case xs of [] \<Rightarrow> FBL_POINT_TO_NULL | y # _ \<Rightarrow> y)"
    using assms by (auto simp: fbl_def)
  show ?thesis
    using assms(2) b
    by (simp add: fetch_head_block_def wp hd nx sized_inb [OF sz b] unlinked_def)
qed

lemma fbl_unlinked:
  assumes "fbl s (b # y # ys)"
  shows "fbl (unlinked b y s) (y # ys)"
proof -
  have b: "0 \<le> b" "b < MaxBlock s" and sz: "sized s" using assms by (auto simp: fbl_def)
  have "at (upd (BlocksInFreeBlockListArray s) (b div BlocksPerChip s)
      (at (BlocksInFreeBlockListArray s) (b div BlocksPerChip s) - 1)) c
    = on_chip (BlocksPerChip s) c (y # ys)" if "0 \<le> c" "c < ChipNumber s" for c
    using assms that chip_of_block [OF sz b] sz
    by (simp add: fbl_def at_upd inb_def sized_def on_chip_Cons)
  then show ?thesis
    using assms b sz
    by (auto simp: fbl_def unlinked_def sized_def linked_upd_notin)
qed

lemma wp_PutFreeBlock:
  assumes "fbl s xs" "0 \<le> b" "b < MaxBlock s"
  shows "wp (PutFreeBlock b) Q s = Q () (appended b s)"
proof -
  have sz: "sized s" and tl: "FreeBlockListTail s \<in> set xs" using assms by (auto simp: fbl_def)
  note lt = fbl_block [OF assms(1) tl]
  show ?thesis
    by (simp add: PutFreeBlock_def wp appended_def sized_inb [OF sz assms(2,3)]
        sized_inb [OF sz conjunct1 [OF lt] conjunct2 [OF lt]])
qed

lemma fbl_appended:
  assumes "fbl s xs" "0 \<le> b" "b < MaxBlock s" "b \<notin> set xs"
  shows "fbl (appended b s) (xs @ [b])"
proof -
  have sz: "sized s" using assms by (simp add: fbl_def)
  have "at (upd (BlocksInFreeBlockListArray s) (b div BlocksPerChip s)
      (at (BlocksInFreeBlockListArray s) (b div BlocksPerChip s) + 1)) c
    = on_chip (BlocksPerChip s) c (xs @ [b])" if "0 \<le> c" "c < ChipNumber s" for c
    using assms that chip_of_block [OF sz assms(2,3)] sz
    by (simp add: fbl_def at_upd inb_def sized_def on_chip_snoc)
  moreover have "linked (upd (upd (FreeBlockList s) (last xs) b) b FBL_POINT_TO_NULL) (xs @ [b])"
    using assms by (intro linked_append) (auto simp: fbl_def sized_def inb_def)
  ultimately show ?thesis
    using assms sz by (auto simp: fbl_def appended_def sized_def)
qed

lemma wp_GetFreeBlock:
  assumes "fbl s (b # y # ys)" "gc \<or> LeastFreeBlocksInFBL s < BlocksInFreeBlockList s"
  shows "wp (GetFreeBlock gc) Q s = Q b (unlinked b y s)"
  using assms by (auto simp: GetFreeBlock_def wp wp_fetch_head_block)

lemma GetFreeBlock_refuses:
  assumes "BlocksInFreeBlockList s \<le> LeastFreeBlocksInFBL s"
  shows "GetFreeBlock False s = Inr (- 1, s)"
  using assms by (simp add: GetFreeBlock_def bindM_def getM_def returnM_def)

section \<open>A pool of blocks\<close>

text \<open>
  The contract of the free block list for its clients: taking a block delivers the one that
  has been in the pool longest, giving a block back puts it behind all others, and neither
  changes the parameters \<open>env\<close> of the device.  A pool that would become empty promises
  nothing: the source does not handle it.
\<close>

locale block_pool =
  fixes pool :: "'s \<Rightarrow> int list \<Rightarrow> bool"
    and env :: "'s \<Rightarrow> 'e"
    and valid :: "'e \<Rightarrow> int \<Rightarrow> bool"
    and take_block :: "('s, int) prog"
    and give_block :: "int \<Rightarrow> ('s, unit) prog"
  assumes take_block:
      "pool s (b # c # bs) \<Longrightarrow> wp take_block (\<lambda>r t. r = b \<and> pool t (c # bs) \<and> env t = env s) s"
    and give_block:
      "pool s bs \<Longrightarrow> valid (env s) b \<Longrightarrow> b \<notin> set bs \<Longrightarrow>
         wp (give_block b) (\<lambda>_ t. pool t (bs @ [b]) \<and> env t = env s) s"
    and pool_valid: "pool s bs \<Longrightarrow> b \<in> set bs \<Longrightarrow> valid (env s) b"
    and pool_distinct: "pool s bs \<Longrightarrow> distinct bs"
begin

lemma rotate:
  assumes "pool s (b # c # bs)"
  shows "wp (bindM take_block give_block)
    (\<lambda>_ t. pool t (c # bs @ [b]) \<and> env t = env s) s"
proof -
  have b: "valid (env s) b" "b \<notin> set (c # bs)"
    using pool_valid [OF assms] pool_distinct [OF assms] by auto
  have "wp (give_block b) (\<lambda>_ t. pool t (c # bs @ [b]) \<and> env t = env s) t"
    if "pool t (c # bs)" "env t = env s" for t
    using give_block [OF that(1), of b] b that(2) by simp
  then show ?thesis
    unfolding wp_bindM by (rule_tac wp_mono [OF take_block [OF assms]]) auto
qed

lemma give_many:
  assumes "pool s bs" "distinct (bs @ cs)" "\<forall>c \<in> set cs. valid (env s) c"
  shows "wp (blockM (map give_block cs)) (\<lambda>_ t. pool t (bs @ cs) \<and> env t = env s) s"
  using assms
proof (induction cs arbitrary: s bs)
  case Nil
  then show ?case by (simp add: wp)
next
  case (Cons c cs)
  have "wp (give_block c) (\<lambda>_ t. pool t (bs @ [c]) \<and> env t = env s) s"
    using Cons.prems by (intro give_block) auto
  moreover have "wp (blockM (map give_block cs)) (\<lambda>_ u. pool u (bs @ c # cs) \<and> env u = env s) t"
    if "pool t (bs @ [c])" "env t = env s" for t
    using Cons.IH [OF that(1)] Cons.prems that by simp
  ultimately show ?case
    unfolding list.map wp_blockM_Cons by (auto elim: wp_mono)
qed

text \<open>A block given back to a pool of \<open>n\<close> blocks is delivered after \<open>n\<close> others.\<close>

lemma fifo:
  assumes "pool s (bs @ [b])" "length bs = n" "0 < n"
  shows "wp (forM 0 (int n) (\<lambda>_. bindM take_block give_block))
    (\<lambda>_ t. pool t (b # bs) \<and> env t = env s) s"
proof (rule wp_forM [where I = "\<lambda>i t. pool t (drop (nat i) bs @ b # take (nat i) bs) \<and> env t = env s"])
  fix k t
  assume k: "0 \<le> k" "k < int n"
    and I: "pool t (drop (nat k) bs @ b # take (nat k) bs) \<and> env t = env s"
  have d: "drop (nat k) bs = bs ! nat k # drop (nat (k + 1)) bs"
    using k assms(2) by (simp add: Cons_nth_drop_Suc nat_add_distrib)
  obtain c cs where cs: "drop (nat (k + 1)) bs @ b # take (nat k) bs = c # cs"
    by (cases "drop (nat (k + 1)) bs @ b # take (nat k) bs") auto
  have "pool t (bs ! nat k # c # cs)" using I d cs by simp
  from rotate [OF this]
  have "wp (bindM take_block give_block) (\<lambda>_ u. pool u ((c # cs) @ [bs ! nat k]) \<and> env u = env s) t"
    using I by simp
  moreover have "(c # cs) @ [bs ! nat k] = drop (nat (k + 1)) bs @ b # take (nat (k + 1)) bs"
    using k assms(2) unfolding cs [symmetric]
    by (simp add: take_Suc_conv_app_nth nat_add_distrib)
  ultimately show "wp (bindM take_block give_block)
      (\<lambda>_ u. pool u (drop (nat (k + 1)) bs @ b # take (nat (k + 1)) bs) \<and> env u = env s) t"
    by simp
qed (use assms in auto)

end

definition device :: "'a flash_scheme \<Rightarrow> int \<times> int \<times> int" where
  "device s = (MaxBlock s, BlocksPerChip s, ChipNumber s)"

definition block_of :: "int \<times> int \<times> int \<Rightarrow> int \<Rightarrow> bool" where
  "block_of d b \<longleftrightarrow> 0 \<le> b \<and> b < fst d"

lemma block_of_device [simp]: "block_of (device s) b \<longleftrightarrow> 0 \<le> b \<and> b < MaxBlock s"
  by (simp add: block_of_def device_def)

lemma device_unlinked [simp]: "device (unlinked b y s) = device s"
  by (simp add: device_def unlinked_def)

lemma device_appended [simp]: "device (appended b s) = device s"
  by (simp add: device_def appended_def)

interpretation fb: block_pool fbl device block_of "GetFreeBlock True" PutFreeBlock
proof
  fix s :: "'a flash_scheme" and b c bs
  assume "fbl s (b # c # bs)"
  then show "wp (GetFreeBlock True) (\<lambda>r t. r = b \<and> fbl t (c # bs) \<and> device t = device s) s"
    by (simp add: wp_GetFreeBlock fbl_unlinked)
next
  fix s :: "'a flash_scheme" and b bs
  assume "fbl s bs" "block_of (device s) b" "b \<notin> set bs"
  then show "wp (PutFreeBlock b) (\<lambda>_ t. fbl t (bs @ [b]) \<and> device t = device s) s"
    by (auto simp: wp_PutFreeBlock fbl_appended)
qed (auto simp: fbl_def)

section \<open>Taking a block from one chip\<close>

lemma fbl_length: "fbl s xs \<Longrightarrow> int (length xs) \<le> MaxBlock s"
proof -
  assume "fbl s xs"
  then have "distinct xs" "set xs \<subseteq> {0..<MaxBlock s}" by (auto simp: fbl_def)
  moreover from this have "card (set xs) \<le> card {0..<MaxBlock s}" by (intro card_mono) auto
  moreover have "0 \<le> MaxBlock s" using \<open>fbl s xs\<close> by (auto simp: fbl_def sized_def)
  ultimately show ?thesis by (simp add: distinct_card)
qed

lemma fetch_head_block_True: "wp (fetch_head_block False) = wp (GetFreeBlock True)"
  by (simp add: GetFreeBlock_def)

lemma wp_chip_loop:
  assumes "fbl s (ys @ b # zs)" "ys @ zs \<noteq> []"
    and "\<forall>y \<in> set ys. y div BlocksPerChip s \<noteq> chip" "b div BlocksPerChip s = chip"
    and "length ys < fuel" "n + int (length ys) < MaxBlock s"
  shows "wp (chip_loop fuel n chip) (\<lambda>r t. r = b \<and> fbl t (zs @ ys) \<and> device t = device s) s"
  using assms
proof (induction ys arbitrary: s n fuel zs)
  case Nil
  obtain m where fuel: "fuel = Suc m" using Nil.prems(5) by (cases fuel) auto
  obtain z zs' where zs: "zs = z # zs'" using Nil.prems(2) by (cases zs) auto
  have b: "0 \<le> b" "b < MaxBlock s" and sz: "sized s" using Nil.prems by (auto simp: fbl_def)
  have "BlocksPerChip (unlinked b z s) = BlocksPerChip s" by (simp add: unlinked_def)
  then show ?case
    using Nil.prems fbl_unlinked [of s b z zs'] sized_inb [OF sz b]
    by (simp add: fuel zs wp wp_fetch_head_block)
next
  case (Cons y ys)
  obtain m where fuel: "fuel = Suc m" using Cons.prems(5) by (cases fuel) auto
  obtain c cs where cs: "ys @ b # zs = c # cs" by (cases "ys @ b # zs") auto
  have sz: "sized s" and y: "0 \<le> y" "y < MaxBlock s" using Cons.prems by (auto simp: fbl_def)
  have hd: "fbl s (y # c # cs)" using Cons.prems(1) cs by simp
  let ?u = "unlinked y c s"
  have u: "fbl ?u (ys @ b # zs)" "device ?u = device s"
    using fbl_unlinked [OF hd] cs by simp_all
  have ynot: "y \<notin> set (ys @ b # zs)" using fb.pool_distinct [OF Cons.prems(1)] by simp
  have dev: "BlocksPerChip t = BlocksPerChip s \<and> MaxBlock t = MaxBlock s"
    if "device t = device s" for t :: "'b flash_scheme"
    using that by (simp add: device_def)
  have "fbl (appended y ?u) ((ys @ b # zs) @ [y])"
    using u ynot y dev [OF u(2)] by (intro fbl_appended) auto
  then have "wp (chip_loop m (n + 1) chip)
      (\<lambda>r t. r = b \<and> fbl t ((zs @ [y]) @ ys) \<and> device t = device (appended y ?u)) (appended y ?u)"
    using Cons.prems dev [of "appended y ?u"] u(2) by (intro Cons.IH) (auto simp: fuel)
  then show ?case
    using Cons.prems dev [OF u(2)] u y sized_inb [OF sz y] wp_fetch_head_block [OF hd]
    by (simp add: fuel wp wp_PutFreeBlock)
qed

lemma first_on_chip:
  assumes "0 < on_chip bpc c xs"
  obtains ys b zs where "xs = ys @ b # zs" "\<forall>y \<in> set ys. y div bpc \<noteq> c" "b div bpc = c"
proof -
  have "\<exists>x \<in> set xs. x div bpc = c"
    using assms by (auto simp: on_chip_def cnt_def filter_empty_conv)
  from split_list_first_prop [OF this] obtain ys b zs
    where "xs = ys @ b # zs" "b div bpc = c" "\<forall>y \<in> set ys. y div bpc \<noteq> c" by blast
  then show ?thesis by (intro that)
qed

lemma wp_chip_has_enough:
  assumes "fbl s xs" "0 \<le> chip" "chip < ChipNumber s" "0 \<le> LeastFreeBlocksInFBL s"
  shows "chip_has_enough chip s =
    Inr (on_chip (BlocksPerChip s) chip xs > LeastFreeBlocksInFBL s div ChipNumber s, s)"
  using assms
  by (simp add: chip_has_enough_def bindM_def rd_def getM_def divM_def returnM_def fbl_def
      sized_def inb_def)

lemma GetFreeBlockFromChip_finds:
  assumes "fbl s xs" "2 \<le> length xs" "0 < on_chip (BlocksPerChip s) chip xs"
  shows "\<exists>ys b zs t. xs = ys @ b # zs \<and> (\<forall>y \<in> set ys. y div BlocksPerChip s \<noteq> chip) \<and>
    b div BlocksPerChip s = chip \<and>
    GetFreeBlockFromChipWithoutChecking chip s = Inr (b, t) \<and> fbl t (zs @ ys)"
proof -
  obtain ys b zs where xs: "xs = ys @ b # zs" "\<forall>y \<in> set ys. y div BlocksPerChip s \<noteq> chip"
      "b div BlocksPerChip s = chip"
    using first_on_chip [OF assms(3)] .
  have len: "int (length ys) < MaxBlock s" using fbl_length [OF assms(1)] xs(1) by simp
  have "wp (chip_loop (nat (MaxBlock s) + 2) 0 chip)
      (\<lambda>r t. r = b \<and> fbl t (zs @ ys) \<and> device t = device s) s"
    using assms xs len by (intro wp_chip_loop) auto
  then have "wp (GetFreeBlockFromChipWithoutChecking chip)
      (\<lambda>r t. r = b \<and> fbl t (zs @ ys) \<and> device t = device s) s"
    by (simp add: GetFreeBlockFromChipWithoutChecking_def wp)
  then show ?thesis using xs by (auto simp: wp_result)
qed

text \<open>Neither taking nor giving a block runs out of fuel, and taking checks the counter.\<close>

lemma wpx_fetch_head_block:
  "wpx (fetch_head_block over) (\<lambda>_ t. \<not> over \<and> MaxBlock t = MaxBlock s) (\<lambda>e. e \<noteq> Out_Of_Fuel) s"
  by (simp add: fetch_head_block_def wpx)

lemma wpx_PutFreeBlock:
  "wpx (PutFreeBlock b) (\<lambda>_ t. MaxBlock t = MaxBlock s) (\<lambda>e. e \<noteq> Out_Of_Fuel) s"
  by (simp add: PutFreeBlock_def wpx)

lemma wpx_chip_loop:
  fixes s :: "'a flash_scheme"
  assumes "0 \<le> n" "MaxBlock s < n + int fuel"
  shows "wpx (chip_loop fuel n chip) (\<lambda>_ _. True) (\<lambda>e. e \<noteq> Out_Of_Fuel) s \<or> fuel = 0"
  using assms
proof (induction fuel arbitrary: n s)
  case 0
  then show ?case by simp
next
  case (Suc fuel)
  have rest: "wpx (chip_loop fuel (n + 1) chip) (\<lambda>_ _. True) (\<lambda>e. e \<noteq> Out_Of_Fuel) t"
    if "\<not> n + 1 > MaxBlock s" "MaxBlock t = MaxBlock s" for t :: "'a flash_scheme"
    using Suc.IH [of "n + 1" t] Suc.prems that by auto
  have put: "wpx (PutFreeBlock b)
      (\<lambda>_. wpx (chip_loop fuel (n + 1) chip) (\<lambda>_ _. True) (\<lambda>e. e \<noteq> Out_Of_Fuel))
      (\<lambda>e. e \<noteq> Out_Of_Fuel) t"
    if "\<not> n + 1 > MaxBlock s" "MaxBlock t = MaxBlock s" for b and t :: "'a flash_scheme"
    by (rule wpx_mono [OF wpx_PutFreeBlock]) (use rest that in auto)
  show ?case
    by (simp add: wpx, rule wpx_mono [OF wpx_fetch_head_block]) (use put in auto)
qed

section \<open>A small device\<close>

text \<open>Two chips of three blocks with two pages each, one block of reserve, and the blocks 1, 4, 2 and 0 free.\<close>

definition small_flash :: flash where
  "small_flash =
     \<lparr>FlashSize = 0, ChipNumber = 2, ChipSize = 0, BlockSize = 0, BlocksPerChip = 3, PageSize = 512,
      SubPageSize = 512, PageSpareSize = 16, PageToLBARatio = 1, MaxLBA = 8, MaxCluster = 8,
      MaxBlock = 6, MaxPage = 2, MaxSubPage = 1, BadBlocksPerChip = 0, EraseBlockTime = 1500,
      WritePageTime = 800, ReadPageTime = 60, SerialAccessTime = 25, AccessSRAM = 5,
      InitialPercentage = 0, LeastBlocksInFreeBlockList = 1,
      FreeBlockList = [-1, 4, 0, -2, 2, -2], FreeBlockListHead = 1, FreeBlockListTail = 0,
      BlocksInFreeBlockList = 4, BlocksInFreeBlockListArray = [3, 1],
      FlashMemory = replicate 6 [-1, -1], BadBlockCnt = 0, BadBlockCntArray = [0, 0],
      MaxBlockEraseCnt = 0, BlockEraseCnt = replicate 6 0, ChipEraseCnt = [0, 0],
      InvalidPageCnt = replicate 6 0, ValidPageCnt = replicate 6 0, FreePageCnt = replicate 6 2,
      InvalidSubPageCnt = replicate 6 0, ValidSubPageCnt = replicate 6 0,
      FreeSubPageCnt = replicate 6 2, AccessedLogicalPages = 0,
      AccessedLogicalPageMap = replicate 12 False, SystemFailFlg = False,
      AccessStatistics = zero_statistics, rand_seq = (\<lambda>_. 0), rand_pos = 0\<rparr>"

lemma fbl_small_flash: "fbl small_flash [1, 4, 2, 0]"
proof -
  have "sized small_flash" by (simp add: sized_def small_flash_def)
  moreover have "linked (FreeBlockList small_flash) [1, 4, 2, 0]"
    by (simp add: small_flash_def at_def)
  moreover have "at (BlocksInFreeBlockListArray small_flash) c = on_chip 3 c [1, 4, 2, 0]"
    if "0 \<le> c" "c < 2" for c
  proof -
    have "c = 0 \<or> c = 1" using that by auto
    then show ?thesis by (auto simp: small_flash_def on_chip_def cnt_def at_def)
  qed
  ultimately show ?thesis by (simp add: fbl_def) (simp add: small_flash_def)
qed

section \<open>Properties\<close>

text \<open>A host request for a block (\<open>GetFreeBlock(False)\<close>) never digs into the reserve: when
  no more than the reserved number of blocks is free it returns -1 and changes nothing;
  otherwise it delivers the block at the head of the list, marks it as not in the list, resets
  its page counters, leaves the flash content alone, and the list that remains has at least
  the reserved length.\<close>

theorem GetFreeBlock_keeps_reserve:
  assumes "fbl s xs" "1 \<le> LeastFreeBlocksInFBL s"
  shows "\<exists>r t. GetFreeBlock False s = Inr (r, t) \<and>
    (if int (length xs) \<le> LeastFreeBlocksInFBL s then r = - 1 \<and> t = s
     else r = hd xs \<and> fbl t (tl xs) \<and> LeastFreeBlocksInFBL s \<le> BlocksInFreeBlockList t \<and>
       at (FreeBlockList t) r = FBL_NOT_IN_LIST \<and> at (FreePageCnt t) r = MaxPage s \<and>
       at (InvalidPageCnt t) r = 0 \<and> at (ValidPageCnt t) r = 0 \<and> FlashMemory t = FlashMemory s)"
proof (cases "int (length xs) \<le> LeastFreeBlocksInFBL s")
  case True
  then have "GetFreeBlock False s = Inr (- 1, s)"
    using assms(1) by (intro GetFreeBlock_refuses) (simp add: fbl_def)
  with True show ?thesis by simp
next
  case False
  then obtain b y ys where xs: "xs = b # y # ys"
    using assms(2) by (cases xs; cases "tl xs") auto
  have fb: "fbl s (b # y # ys)" using assms(1) xs by simp
  have en: "LeastFreeBlocksInFBL s < BlocksInFreeBlockList s"
    using False assms(1) by (simp add: fbl_def)
  have sz: "sized s" and b: "0 \<le> b" "b < MaxBlock s" using fb by (auto simp: fbl_def)
  have "wp (GetFreeBlock False) (\<lambda>r t. r = b \<and> t = unlinked b y s) s"
    by (subst wp_GetFreeBlock [OF fb]) (use en in auto)
  then have "GetFreeBlock False s = Inr (b, unlinked b y s)" by (auto simp: wp_result)
  moreover have "LeastFreeBlocksInFBL s \<le> BlocksInFreeBlockList (unlinked b y s)"
    using en by (simp add: unlinked_def)
  ultimately show ?thesis
    using False fbl_unlinked [OF fb] sized_inb [OF sz b] xs by (simp add: unlinked_def)
qed

text \<open>The hypotheses hold for the small device, whose next block is block 1.\<close>

theorem GetFreeBlock_keeps_reserve_witness:
  "\<exists>t. GetFreeBlock False small_flash = Inr (1, t) \<and> fbl t [4, 2, 0]"
proof -
  have "1 \<le> LeastFreeBlocksInFBL small_flash"
    by (simp add: LeastFreeBlocksInFBL_def small_flash_def)
  from GetFreeBlock_keeps_reserve [OF fbl_small_flash this]
  show ?thesis by (auto simp: LeastFreeBlocksInFBL_def small_flash_def)
qed



text \<open>Taking a block from one chip delivers the first block of that chip in the list
  when the chip has more free blocks than its share of the reserve, moves the blocks in front
  of it behind the others, and refuses with -1 otherwise, changing nothing.\<close>

theorem GetFreeBlockFromChip_correct:
  assumes "fbl s xs" "2 \<le> length xs" "0 \<le> chip" "chip < ChipNumber s" "0 \<le> LeastFreeBlocksInFBL s"
  shows "if on_chip (BlocksPerChip s) chip xs > LeastFreeBlocksInFBL s div ChipNumber s
    then \<exists>ys b zs t. xs = ys @ b # zs \<and> (\<forall>y \<in> set ys. y div BlocksPerChip s \<noteq> chip) \<and>
      b div BlocksPerChip s = chip \<and> GetFreeBlockFromChip chip s = Inr (b, t) \<and> fbl t (zs @ ys)
    else GetFreeBlockFromChip chip s = Inr (- 1, s)"
proof -
  note en = wp_chip_has_enough [OF assms(1,3,4,5)]
  have "0 \<le> LeastFreeBlocksInFBL s div ChipNumber s"
    using assms(3-5) by (simp add: pos_imp_zdiv_nonneg_iff)
  then show ?thesis
    using GetFreeBlockFromChip_finds [OF assms(1,2), of chip]
    by (simp add: GetFreeBlockFromChip_def bindM_def [of "chip_has_enough chip"] en returnM_def
        del: ex_simps)
qed

text \<open>Applied to the second chip of the small device; its block 4 is behind block 1.\<close>

theorem GetFreeBlockFromChip_correct_witness:
  "\<exists>t. GetFreeBlockFromChip 1 small_flash = Inr (4, t) \<and> fbl t [2, 0, 1]"
proof -
  have "on_chip (BlocksPerChip small_flash) 1 [1, 4, 2, 0]
      > LeastFreeBlocksInFBL small_flash div ChipNumber small_flash"
    by (simp add: on_chip_def cnt_def LeastFreeBlocksInFBL_def small_flash_def)
  with GetFreeBlockFromChip_correct [OF fbl_small_flash, of 1]
  obtain ys b zs t where *: "[1, 4, 2, 0] = ys @ b # zs" "b div 3 = 1"
      "\<forall>y \<in> set ys. y div 3 \<noteq> 1" "GetFreeBlockFromChip 1 small_flash = Inr (b, t)" "fbl t (zs @ ys)"
    by (auto simp: LeastFreeBlocksInFBL_def small_flash_def)
  have "ys = [1] \<and> b = 4 \<and> zs = [2, 0]"
    using *(1-3) by (auto simp: Cons_eq_append_conv)
  with * show ?thesis by auto
qed

text \<open>The search for a block of a given chip always ends: the loop leaves through its own
  counter check before the fuel of the model is used up, whatever the state of the list.\<close>

theorem GetFreeBlockFromChipWithoutChecking_ends:
  "GetFreeBlockFromChipWithoutChecking chip s \<noteq> Inl Out_Of_Fuel"
proof -
  have "MaxBlock s < 0 + int (nat (MaxBlock s) + 2)" by simp
  from wpx_chip_loop [OF _ this, of chip]
  have "wpx (chip_loop (nat (MaxBlock s) + 2) 0 chip) (\<lambda>_ _. True) (\<lambda>e. e \<noteq> Out_Of_Fuel) s" by simp
  then have "wpx (GetFreeBlockFromChipWithoutChecking chip) (\<lambda>_ _. True) (\<lambda>e. e \<noteq> Out_Of_Fuel) s"
    by (simp add: GetFreeBlockFromChipWithoutChecking_def wpx del: chip_loop.simps)
  then show ?thesis by (auto simp: wpx_def)
qed

text \<open>C10. The list does not survive becoming empty: once a garbage-collection request has taken
  the last block, a block that is put back is not reachable from the head, and the next request
  indexes the array with the NULL value -1 before it checks the block number.\<close>

theorem PutFreeBlock_after_empty_is_lost:
  assumes "fbl s [b]"
  shows "\<exists>t. bindM (GetFreeBlock True) PutFreeBlock s = Inr ((), t) \<and>
    BlocksInFreeBlockList t = 1 \<and> FreeBlockListHead t = FBL_POINT_TO_NULL \<and>
    GetFreeBlock True t = Inl Out_Of_Bounds"
proof -
  have sz: "sized s" and b: "0 \<le> b" "b < MaxBlock s" and tl: "FreeBlockListTail s = b"
    and n: "BlocksInFreeBlockList s = 1"
    using assms by (auto simp: fbl_def)
  let ?u = "unlinked b FBL_POINT_TO_NULL s"
  have szu: "sized ?u" using sz by (simp add: sized_def unlinked_def)
  have bu: "b < MaxBlock ?u" using b by (simp add: unlinked_def)
  have tlu: "FreeBlockListTail ?u = b" using tl by (simp add: unlinked_def)
  have "wp (PutFreeBlock b) (\<lambda>_ t. t = appended b ?u) ?u"
    by (simp add: PutFreeBlock_def wp appended_def tlu sized_inb [OF szu b(1) bu])
  then have "wp (bindM (GetFreeBlock True) PutFreeBlock) (\<lambda>_ t. t = appended b ?u) s"
    using assms by (simp add: GetFreeBlock_def wp wp_fetch_head_block)
  then have "bindM (GetFreeBlock True) PutFreeBlock s = Inr ((), appended b ?u)"
    by (auto simp: wp_result)
  moreover have "FreeBlockListHead (appended b ?u) = FBL_POINT_TO_NULL"
    "BlocksInFreeBlockList (appended b ?u) = 1"
    using n by (simp_all add: appended_def unlinked_def)
  moreover from this(1) have "GetFreeBlock True (appended b ?u) = Inl Out_Of_Bounds"
    by (simp add: GetFreeBlock_def fetch_head_block_def bindM_def getM_def rd_def inb_def)
  ultimately show ?thesis by blast
qed

text \<open>The state C10 speaks about is reached from the small device by taking three blocks.\<close>

lemma fbl_small_flash_last:
  "fbl (unlinked 2 0 (unlinked 4 2 (unlinked 1 4 small_flash))) [0]"
  by (intro fbl_unlinked fbl_small_flash)

theorem PutFreeBlock_after_empty_is_lost_witness:
  "\<exists>t. bindM (GetFreeBlock True) PutFreeBlock
      (unlinked 2 0 (unlinked 4 2 (unlinked 1 4 small_flash))) = Inr ((), t) \<and>
    GetFreeBlock True t = Inl Out_Of_Bounds"
  using PutFreeBlock_after_empty_is_lost [OF fbl_small_flash_last] by blast

end
