(* ===== verification/Flash_Pages.thy ===== *)
theory Flash_Pages
  imports Flash_Memory
begin

text \<open>
  The pages of the flash memory, for all translation layers: erasing a block and counting the
  erase, and the relation \<open>quiet\<close> between two states that differ only in the contents of pages,
  in page and erase counters and in the statistics.
\<close>

section \<open>Erasing\<close>

definition erase_pages :: "int \<Rightarrow> ('a flash_scheme, unit) prog" where
  "erase_pages BlockID = bindM (getM MaxPage) (\<lambda>mp. forM 0 mp (\<lambda>i.
     wr2 FlashMemory FlashMemory_update BlockID i FREE_PAGE))"

definition count_erase :: "int \<Rightarrow> ('a flash_scheme, unit) prog" where
  "count_erase BlockID = blockM
     [inc BlockEraseCnt BlockEraseCnt_update BlockID 1,
      bindM (rd BlockEraseCnt BlockID) (\<lambda>n. modM (MaxBlockEraseCnt_update (\<lambda>m. if n > m then n else m))),
      stat (TotalBlockEraseCount_update (\<lambda>n. n + 1)),
      write_time TIME_ERASE_BLOCK]"

text \<open>The state after the erase was counted.\<close>

definition counted :: "int \<Rightarrow> 'a flash_scheme \<Rightarrow> 'a flash_scheme" where
  "counted v s =
     AccessStatistics_update (TotalWriteRequestTime_update (\<lambda>x. x + TIME_ERASE_BLOCK s))
    (AccessStatistics_update (TotalBlockEraseCount_update (\<lambda>n. n + 1))
    (MaxBlockEraseCnt_update (\<lambda>m. if at (BlockEraseCnt s) v + 1 > m then at (BlockEraseCnt s) v + 1 else m)
    (BlockEraseCnt_update (\<lambda>a. upd a v (at (BlockEraseCnt s) v + 1)) s)))"

lemma wp_count_erase:
  assumes "inb (BlockEraseCnt s) v"
  shows "wp (count_erase v) Q s = Q () (counted v s)"
  using assms
  by (simp add: count_erase_def wp stat_def write_time_def counted_def TIME_ERASE_BLOCK_def cong: if_cong)

lemma wipe_row:
  assumes "inb xss v" "length (at xss v) = n" "k < n"
  shows "upd2 (upd xss v (replicate k x @ drop k (at xss v))) v (int k) x
    = upd xss v (replicate (Suc k) x @ drop (Suc k) (at xss v))"
proof -
  have "(replicate k x @ drop k (at xss v))[k := x] = replicate (Suc k) x @ drop (Suc k) (at xss v)"
    using assms(2,3)
    by (simp add: list_update_append Cons_nth_drop_Suc [symmetric] replicate_app_Cons_same)
  then show ?thesis using assms(1) by (simp add: upd2_def) (simp add: upd_def)
qed

lemma upd_at [simp]: "upd xs i (at xs i) = xs"
  by (simp add: upd_def at_def)

text \<open>The state after the pages of a block were erased.\<close>

definition erased :: "int \<Rightarrow> 'a flash_scheme \<Rightarrow> 'a flash_scheme" where
  "erased v s = FlashMemory_update (\<lambda>a. upd a v (replicate (nat (MaxPage s)) FREE_PAGE)) s"

lemma wp_erase_pages:
  assumes "inb (FlashMemory s) v" "int (length (at (FlashMemory s) v)) = MaxPage s" "0 \<le> MaxPage s"
  shows "wp (erase_pages v) Q s = Q () (erased v s)"
proof -
  let ?row = "\<lambda>k a. upd a v (replicate k FREE_PAGE @ drop k (at a v))"
  have len: "length (at (FlashMemory s) v) = nat (MaxPage s)" using assms(2) by simp
  have "wp (forM 0 (MaxPage s) (\<lambda>i. wr2 FlashMemory FlashMemory_update v i FREE_PAGE))
      (\<lambda>_ t. t = erased v s) s"
  proof (rule wp_forM [where I = "\<lambda>k t. t = FlashMemory_update (?row (nat k)) s"])
    show "s = FlashMemory_update (?row (nat 0)) s" by simp
  next
    fix k t
    assume k: "0 \<le> k" "k < MaxPage s" and t: "t = FlashMemory_update (?row (nat k)) s"
    have "inb2 (FlashMemory t) v k" using assms(1) len k by (simp add: t inb2_def) (simp add: inb_def)
    moreover have "upd2 (?row (nat k) (FlashMemory s)) v k (- 1) = ?row (nat (k + 1)) (FlashMemory s)"
      using wipe_row [OF assms(1) len, of "nat k" "- 1"] k by (simp add: nat_add_distrib)
    ultimately show "wp (wr2 FlashMemory FlashMemory_update v k FREE_PAGE)
        (\<lambda>_ t. t = FlashMemory_update (?row (nat (k + 1))) s) t"
      by (simp add: wp t)
  next
    fix t assume "t = FlashMemory_update (?row (nat (MaxPage s))) s"
    then show "t = erased v s" using len by (simp add: erased_def)
  qed (rule assms(3))
  then have "wp (erase_pages v) (\<lambda>_ t. t = erased v s) s" by (simp add: erase_pages_def wp)
  then show ?thesis by (auto simp: wp_def split: sum.splits)
qed

section \<open>Pages\<close>

text \<open>The arrays of pages have the sizes that \<open>InitializeFlashMemory\<close> allocates.\<close>

definition shaped :: "'a flash_scheme \<Rightarrow> bool" where
  "shaped s \<longleftrightarrow> 0 < MaxPage s \<and> int (length (FlashMemory s)) = MaxBlock s \<and>
     (\<forall>b. 0 \<le> b \<and> b < MaxBlock s \<longrightarrow> int (length (at (FlashMemory s) b)) = MaxPage s)"

definition mem :: "'a flash_scheme \<Rightarrow> int \<Rightarrow> int \<Rightarrow> int" where
  "mem s b p = at2 (FlashMemory s) b p"

definition is_block :: "'a flash_scheme \<Rightarrow> int \<Rightarrow> bool" where
  "is_block s b \<longleftrightarrow> 0 \<le> b \<and> b < MaxBlock s"

definition is_page :: "'a flash_scheme \<Rightarrow> int \<Rightarrow> bool" where
  "is_page s p \<longleftrightarrow> 0 \<le> p \<and> p < MaxPage s"

lemma shaped_inb2: "shaped s \<Longrightarrow> is_block s b \<Longrightarrow> is_page s p \<Longrightarrow> inb2 (FlashMemory s) b p"
  by (auto simp: shaped_def is_block_def is_page_def inb2_def inb_def)

section \<open>Quiet changes\<close>

definition blank :: "int list \<Rightarrow> int list" where
  "blank xs = map (\<lambda>_. 0) xs"

lemma blank_upd [simp]: "blank (upd xs i v) = blank xs"
  by (rule nth_equalityI) (simp_all add: blank_def)

lemma length_blank [simp]: "length (blank xs) = length xs"
  by (simp add: blank_def)

text \<open>The state without the contents of pages, counters and statistics.\<close>

definition hush :: "'a flash_scheme \<Rightarrow> 'a flash_scheme" where
  "hush s = s\<lparr>FlashMemory := map blank (FlashMemory s), MaxBlockEraseCnt := 0,
     BlockEraseCnt := blank (BlockEraseCnt s), InvalidPageCnt := blank (InvalidPageCnt s),
     ValidPageCnt := blank (ValidPageCnt s), FreePageCnt := blank (FreePageCnt s),
     AccessStatistics := zero_statistics\<rparr>"

definition quiet :: "'a flash_scheme \<Rightarrow> 'a flash_scheme \<Rightarrow> bool" where
  "quiet s t \<longleftrightarrow> hush t = hush s"

lemma quiet_refl [simp]: "quiet s s"
  by (simp add: quiet_def)

lemma quiet_trans: "quiet s t \<Longrightarrow> quiet t u \<Longrightarrow> quiet s u"
  by (simp add: quiet_def)

lemma quiet_cong:
  assumes "quiet s t" "\<And>u. f (hush u) = f u"
  shows "f t = f s"
  using assms by (metis quiet_def)

lemma blank_blank [simp]: "blank (blank xs) = blank xs" "map blank (map blank xss) = map blank xss"
  by (simp_all add: blank_def)

lemma hush_hush [simp]: "hush (hush s) = hush s"
  by (simp add: hush_def)

lemma map_blank_upd: "blank v = blank (at xss i) \<Longrightarrow> map blank (upd xss i v) = map blank xss"
  by (cases "nat i < length xss")
     (simp_all add: upd_def at_def map_update list_update_same_conv list_update_beyond)

lemma map_blank_upd2 [simp]: "map blank (upd2 xss i j v) = map blank xss"
  by (simp add: upd2_def map_blank_upd)

text \<open>Updates that are quiet.\<close>

lemma quiet_updates [simp]:
  "quiet s (AccessStatistics_update g t) = quiet s t"
  "quiet s (MaxBlockEraseCnt_update h t) = quiet s t"
  "quiet s (FlashMemory_update (\<lambda>a. upd2 a b p v) t) = quiet s t"
  "quiet s (BlockEraseCnt_update (\<lambda>a. upd a b v) t) = quiet s t"
  "quiet s (InvalidPageCnt_update (\<lambda>a. upd a b v) t) = quiet s t"
  "quiet s (ValidPageCnt_update (\<lambda>a. upd a b v) t) = quiet s t"
  "quiet s (FreePageCnt_update (\<lambda>a. upd a b v) t) = quiet s t"
  "quiet s (counted v t) = quiet s t"
  by (simp_all add: quiet_def hush_def counted_def)

lemma quiet_erased [simp]:
  assumes "shaped t" "is_block t v"
  shows "quiet s (erased v t) = quiet s t"
proof -
  have "blank (replicate (nat (MaxPage t)) FREE_PAGE) = blank (at (FlashMemory t) v)"
    using assms by (intro nth_equalityI) (auto simp: shaped_def is_block_def blank_def nat_int_comparison)
  then show ?thesis by (simp add: quiet_def hush_def erased_def map_blank_upd)
qed

text \<open>What a quiet change keeps.\<close>

lemma at_map_blank: "inb xss b \<Longrightarrow> at (map blank xss) b = blank (at xss b)"
  by (auto simp: at_def inb_def)

lemma quiet_same:
  assumes "quiet s t"
  shows "MaxBlock t = MaxBlock s" "MaxPage t = MaxPage s" "is_block t = is_block s" "is_page t = is_page s"
    "sized t = sized s" "fbl t = fbl s" "shaped t = shaped s" "LeastFreeBlocksInFBL t = LeastFreeBlocksInFBL s"
    "BlocksInFreeBlockList t = BlocksInFreeBlockList s" "FreeBlockList t = FreeBlockList s"
    "length (ValidPageCnt t) = length (ValidPageCnt s)" "length (InvalidPageCnt t) = length (InvalidPageCnt s)"
    "length (BlockEraseCnt t) = length (BlockEraseCnt s)"
proof -
  note q = quiet_cong [OF assms]
  have "shaped (hush u) = shaped u" for u :: "'a flash_scheme"
    by (auto simp: shaped_def hush_def at_map_blank inb_def)
  then show "shaped t = shaped s" by (rule q)
qed (rule quiet_cong [OF assms], simp add: hush_def is_block_def is_page_def sized_def fbl_def fun_eq_iff
      LeastFreeBlocksInFBL_def)+

section \<open>Contents\<close>

lemma mem_upd2:
  assumes "shaped s" "is_block s b" "is_page s p" "0 \<le> c" "0 \<le> q"
  shows "mem (FlashMemory_update (\<lambda>a. upd2 a b p v) s) c q = (if c = b \<and> q = p then v else mem s c q)"
  using assms shaped_inb2 [OF assms(1-3)] by (auto simp: mem_def at2_upd2)

lemma mem_erased:
  assumes "shaped s" "is_block s v" "0 \<le> c" "is_page s q"
  shows "mem (erased v s) c q = (if c = v then FREE_PAGE else mem s c q)"
  using assms by (auto simp: mem_def erased_def at2_def at_upd shaped_def is_block_def is_page_def inb_def)

lemma mem_same [simp]:
  "mem (AccessStatistics_update g s) = mem s" "mem (MaxBlockEraseCnt_update h s) = mem s"
  "mem (BlockEraseCnt_update f s) = mem s" "mem (InvalidPageCnt_update f s) = mem s"
  "mem (ValidPageCnt_update f s) = mem s" "mem (counted v s) = mem s"
  "mem (unlinked b y s) = mem s" "mem (appended b s) = mem s"
  by (simp_all add: mem_def fun_eq_iff counted_def unlinked_def appended_def)

lemma list_same [simp]:
  "shaped (unlinked b y s) = shaped s" "shaped (appended b s) = shaped s"
  "is_block (unlinked b y s) = is_block s" "is_block (appended b s) = is_block s"
  "is_page (unlinked b y s) = is_page s" "is_page (appended b s) = is_page s"
  "MaxBlock (unlinked b y s) = MaxBlock s" "MaxBlock (appended b s) = MaxBlock s"
  "MaxPage (unlinked b y s) = MaxPage s" "MaxPage (appended b s) = MaxPage s"
  "LeastFreeBlocksInFBL (unlinked b y s) = LeastFreeBlocksInFBL s"
  "LeastFreeBlocksInFBL (appended b s) = LeastFreeBlocksInFBL s"
  by (simp_all add: shaped_def is_block_def is_page_def fun_eq_iff unlinked_def appended_def
      LeastFreeBlocksInFBL_def)

end
