(* ===== verification/FTL_Model.thy ===== *)
theory FTL_Model
  imports Flash_Pages
begin

text \<open>
  The page-level translation layer (FTL.h, FTL.c): the mapping table from clusters (logical
  pages) to pages of the flash memory, reading and writing one cluster, erasing a block after
  its live pages were copied, the garbage collector with its cost-benefit scan, and the
  request handler \<open>WritewithFTL\<close> that the key-value store calls.

  The static variables of the functions are fields of the state.  The two loops of the source
  that may not end take fuel: \<open>FTLGarbageCollection\<close> (until a block is free) and the loop that
  gets a new current block.  Allocation and release of memory, messages and the wall clock are
  left out.
\<close>

section \<open>State\<close>

record FTLElement_t =
  Block :: int
  Page :: int

abbreviation (input) FTL_POINT_TO_NULL :: int where "FTL_POINT_TO_NULL \<equiv> - 1"

record ftl = flash +
  FTLTable :: "FTLElement_t list"
  CurrentFreeBlockID :: int
  CurrentFreePageID :: int
  CurrentScanningBlockID :: int
  InvalidPage2ValidPageDivider :: int
  initialize_done :: bool
  TotalAccessedLogicalPages :: int
  TotalAccessedLogicalPageMap :: "bool list"

section \<open>One cluster\<close>

definition FTLReadOneCluster :: "int \<Rightarrow> ('a ftl_scheme, bool) prog" where
  "FTLReadOneCluster ClusterID =
     bindM (rd FTLTable ClusterID) (\<lambda>e.
       if Block e = FTL_POINT_TO_NULL then returnM False
       else thenM (read_time TIME_READ_PAGE)
           (thenM (stat (TotalReadPageCount_update (\<lambda>x. x + 1)))
           (returnM True)))"

text \<open>The old page of an updated cluster becomes invalid.\<close>

definition invalidate_page :: "FTLElement_t \<Rightarrow> ('a ftl_scheme, unit) prog" where
  "invalidate_page e = blockM
     [wr2 FlashMemory FlashMemory_update (Block e) (Page e) INVALID_PAGE,
      inc InvalidPageCnt InvalidPageCnt_update (Block e) 1,
      inc ValidPageCnt ValidPageCnt_update (Block e) (- 1)]"

definition FTLWriteOneCluster :: "int \<Rightarrow> ('a ftl_scheme, unit) prog" where
  "FTLWriteOneCluster ClusterID =
     bindM (rd FTLTable ClusterID) (\<lambda>e.
     thenM (whenM (Block e \<noteq> FTL_POINT_TO_NULL) (invalidate_page e))
    (bindM (getM CurrentFreeBlockID) (\<lambda>cb.
     bindM (getM CurrentFreePageID) (\<lambda>cp. blockM
       [wr FTLTable FTLTable_update ClusterID \<lparr>Block = cb, Page = cp\<rparr>,
        wr2 FlashMemory FlashMemory_update cb cp ClusterID,
        inc ValidPageCnt ValidPageCnt_update cb 1,
        modM (CurrentFreePageID_update (\<lambda>p. p + 1)),
        write_time TIME_WRITE_PAGE,
        stat (TotalWritePageCount_update (\<lambda>x. x + 1))]))))"

section \<open>Erasing a block\<close>

text \<open>A new current block when the current one is filled up.\<close>

definition refill_current :: "('a ftl_scheme, unit) prog" where
  "refill_current =
     bindM (getM (\<lambda>s. CurrentFreePageID s \<ge> MaxPage s)) (\<lambda>full.
       whenM full (bindM (GetFreeBlock False) (\<lambda>b. blockM
         [modM (CurrentFreeBlockID_update (\<lambda>_. b)),
          modM (CurrentFreePageID_update (\<lambda>_. 0))])))"

definition copy_live_page :: "int \<Rightarrow> int \<Rightarrow> ('a ftl_scheme, unit) prog" where
  "copy_live_page BlockID i =
     thenM refill_current
    (bindM (rd2 FlashMemory BlockID i) (\<lambda>x.
       whenM (x \<noteq> INVALID_PAGE \<and> x \<noteq> FREE_PAGE) (blockM
         [stat (TotalLivePageCopyings_update (\<lambda>n. n + 1)),
          write_time TIME_READ_PAGE,
          stat (TotalWritePageCount_update (\<lambda>n. n + 1)),
          FTLWriteOneCluster x])))"

definition wipe_block :: "int \<Rightarrow> ('a ftl_scheme, unit) prog" where
  "wipe_block BlockID = blockM
     [wr InvalidPageCnt InvalidPageCnt_update BlockID 0,
      wr ValidPageCnt ValidPageCnt_update BlockID 0,
      erase_pages BlockID]"

definition FTLEraseOneBlock :: "int \<Rightarrow> ('a ftl_scheme, unit) prog" where
  "FTLEraseOneBlock BlockID = blockM
     [PutFreeBlock BlockID,
      bindM (getM MaxPage) (\<lambda>mp. forM 0 mp (copy_live_page BlockID)),
      refill_current,
      wipe_block BlockID,
      count_erase BlockID]"

section \<open>Garbage collection\<close>

text \<open>The test of the scan, with the evaluation order of the source's \<open>&&\<close>.\<close>

definition is_victim :: "int \<Rightarrow> ('a ftl_scheme, bool) prog" where
  "is_victim b =
     bindM (rd InvalidPageCnt b) (\<lambda>i.
     bindM (rd ValidPageCnt b) (\<lambda>v.
     bindM (getM InvalidPage2ValidPageDivider) (\<lambda>d.
     bindM (divM v d) (\<lambda>q.
       if \<not> i > q then returnM False
       else bindM (rd FreeBlockList b) (\<lambda>f.
         if f \<noteq> FBL_NOT_IN_LIST then returnM False
         else getM (\<lambda>s. b \<noteq> CurrentFreeBlockID s))))))"

text \<open>
  The scan for a victim: at most \<open>MaxBlock\<close> blocks, starting behind the one scanned last.  The
  result tells whether the loop was left by \<open>break\<close>.
\<close>

fun scan_victim :: "nat \<Rightarrow> ('a ftl_scheme, bool) prog" where
  "scan_victim 0 = returnM False"
| "scan_victim (Suc n) =
     bindM (getM CurrentScanningBlockID) (\<lambda>c.
     bindM (getM MaxBlock) (\<lambda>mb.
     bindM (modulM (c + 1) mb) (\<lambda>c'.
     thenM (modM (CurrentScanningBlockID_update (\<lambda>_. c')))
    (thenM (write_time (\<lambda>s. TIME_READ_SPARE_PAGE s * MaxPage s))
    (bindM (is_victim c') (\<lambda>v. if v then returnM True else scan_victim n))))))"

text \<open>No victim: the divider is doubled, which overflows after enough failures.\<close>

definition double_divider :: "('a ftl_scheme, unit) prog" where
  "double_divider =
     bindM (getM InvalidPage2ValidPageDivider) (\<lambda>d.
     bindM (chkM (d * 2)) (\<lambda>d'. modM (InvalidPage2ValidPageDivider_update (\<lambda>_. d'))))"

definition collect_once :: "('a ftl_scheme, unit) prog" where
  "collect_once =
     bindM (getM MaxBlock) (\<lambda>mb.
     bindM (scan_victim (nat mb)) (\<lambda>found.
       if \<not> found then double_divider
       else bindM (getM CurrentScanningBlockID) FTLEraseOneBlock))"

definition FTLGarbageCollection :: "nat \<Rightarrow> ('a ftl_scheme, unit) prog" where
  "FTLGarbageCollection fuel =
     whileM fuel (bindM CheckFreeBlock (\<lambda>b. returnM (b = - 1))) collect_once"

section \<open>Writing with garbage collection\<close>

definition ensure_current :: "nat \<Rightarrow> ('a ftl_scheme, unit) prog" where
  "ensure_current fuel =
     whileM fuel (getM (\<lambda>s. CurrentFreePageID s \<ge> MaxPage s))
       (bindM (GetFreeBlock False) (\<lambda>b.
        thenM (modM (CurrentFreeBlockID_update (\<lambda>_. b)))
          (if b = - 1 then FTLGarbageCollection fuel
           else modM (CurrentFreePageID_update (\<lambda>_. 0)))))"

definition SecureFTLWriteOneCluster :: "nat \<Rightarrow> int \<Rightarrow> ('a ftl_scheme, unit) prog" where
  "SecureFTLWriteOneCluster fuel ClusterID = blockM
     [ensure_current fuel, FTLWriteOneCluster ClusterID, ensure_current fuel]"

section \<open>Initialisation\<close>

definition init_block :: "nat \<Rightarrow> int \<Rightarrow> ('a ftl_scheme, unit) prog" where
  "init_block fuel i =
     bindM (getM MaxPage) (\<lambda>mp. forM 0 mp (\<lambda>j. blockM
       [SecureFTLWriteOneCluster fuel (i * mp + j),
        modM (AccessedLogicalPages_update (\<lambda>n. n + 1)),
        wr AccessedLogicalPageMap AccessedLogicalPageMap_update (i * mp + j) True]))"

definition InitializeFTL :: "nat \<Rightarrow> ('a ftl_scheme, unit) prog" where
  "InitializeFTL fuel = blockM
     [bindM (getM MaxCluster) (\<lambda>mc.
        modM (FTLTable_update (\<lambda>_. replicate (nat mc) \<lparr>Block = - 1, Page = - 1\<rparr>))),
      bindM (GetFreeBlock False) (\<lambda>b. modM (CurrentFreeBlockID_update (\<lambda>_. b))),
      modM (CurrentFreePageID_update (\<lambda>_. 0)),
      bindM (getM InitialPercentage) (\<lambda>p. bindM (BlockMaxRandomValue p) (\<lambda>bm.
        bindM (getM (\<lambda>s. MaxBlock s - LeastFreeBlocksInFBL s - BadBlockCnt s)) (\<lambda>n.
          forM 0 n (\<lambda>i. bindM randM (\<lambda>r. whenM (r \<le> bm) (init_block fuel i)))))),
      ResetStatisticVariable]"

section \<open>Requests\<close>

text \<open>The bookkeeping of the pages accessed since the start.\<close>

definition mark_accessed :: "int \<Rightarrow> ('a ftl_scheme, unit) prog" where
  "mark_accessed i = blockM
     [bindM (rd AccessedLogicalPageMap i) (\<lambda>set. whenM (\<not> set) (blockM
        [modM (AccessedLogicalPages_update (\<lambda>n. n + 1)),
         wr AccessedLogicalPageMap AccessedLogicalPageMap_update i True])),
      bindM (rd TotalAccessedLogicalPageMap i) (\<lambda>set. whenM (\<not> set) (blockM
        [modM (TotalAccessedLogicalPages_update (\<lambda>n. n + 1)),
         wr TotalAccessedLogicalPageMap TotalAccessedLogicalPageMap_update i True]))]"

text \<open>
  The loop over the clusters of a request; the result is the cluster at which it was left,
  which a failing read makes smaller than the end.
\<close>

fun serve_clusters :: "nat \<Rightarrow> AccessType_t \<Rightarrow> nat \<Rightarrow> int \<Rightarrow> ('a ftl_scheme, int) prog" where
  "serve_clusters fuel ty 0 c = returnM c"
| "serve_clusters fuel WriteType (Suc n) c =
     thenM (SecureFTLWriteOneCluster fuel c) (serve_clusters fuel WriteType n (c + 1))"
| "serve_clusters fuel ReadType (Suc n) c =
     bindM (FTLReadOneCluster c) (\<lambda>ok.
       if ok then serve_clusters fuel ReadType n (c + 1)
       else thenM (stat (FailedReadOperation_update (\<lambda>x. x + 1))) (returnM c))"

definition init_simulation :: "('a ftl_scheme, unit) prog" where
  "init_simulation =
     bindM (getM initialize_done) (\<lambda>done. whenM (\<not> done) (blockM
       [bindM (getM (\<lambda>s. MaxPage s * MaxBlock s)) (\<lambda>n.
          modM (TotalAccessedLogicalPageMap_update (\<lambda>_. replicate (nat n) False))),
        modM (initialize_done_update (\<lambda>_. True))]))"

definition count_request :: "AccessType_t \<Rightarrow> bool \<Rightarrow> ('a ftl_scheme, unit) prog" where
  "count_request ty complete =
     (case ty of
        WriteType \<Rightarrow>
          if complete then stat (TotalWriteRequestCount_update (\<lambda>n. n + 1))
          else stat (FailedWriteOperation_update (\<lambda>n. n + 1))
      | ReadType \<Rightarrow>
          whenM complete (stat (TotalReadRequestCount_update (\<lambda>n. n + 1))))"

definition WritewithFTL :: "nat \<Rightarrow> AccessType_t \<Rightarrow> int \<Rightarrow> int \<Rightarrow> ('a ftl_scheme, unit) prog" where
  "WritewithFTL fuel ty StartLBA len =
     thenM init_simulation
    (bindM (getM PageToLBARatio) (\<lambda>ratio.
     bindM (divM StartLBA ratio) (\<lambda>StartCluster.
     bindM (divM (StartLBA - 1 + len) ratio) (\<lambda>last.
     let Length = last - StartCluster + 1 in
     thenM (forM StartCluster (StartCluster + Length) mark_accessed)
    (bindM (serve_clusters fuel ty (nat Length) StartCluster) (\<lambda>NowCluster.
       count_request ty (NowCluster = StartCluster + Length)))))))"

end
