(* ===== verification/FTL_Invariant.thy ===== *)
theory FTL_Invariant
  imports FTL_Model
begin

text \<open>
  The invariant of the page-level translation layer and its preservation by writing one cluster.

  \<^item> \<open>core\<close>: the mapping table and the flash content are inverse to each other, and the page
    counters of every block count its valid and its invalid pages.
  \<^item> \<open>lay D xs\<close>: the free block list is \<open>xs\<close>, its blocks outside \<open>D\<close> are erased, the blocks
    that are neither free nor bad are filled up to the position of the current page, and the
    blocks marked bad hold nothing.  \<open>D\<close> is empty between operations and holds the victim
    while a block is being reclaimed, when it is in the list already and not yet erased.
\<close>

section \<open>The invariant\<close>

definition blk :: "'a flash_scheme \<Rightarrow> int \<Rightarrow> bool" where
  "blk s b \<longleftrightarrow> 0 \<le> b \<and> b < MaxBlock s"

definition pg :: "'a flash_scheme \<Rightarrow> int \<Rightarrow> bool" where
  "pg s p \<longleftrightarrow> 0 \<le> p \<and> p < MaxPage s"

definition clu :: "'a flash_scheme \<Rightarrow> int \<Rightarrow> bool" where
  "clu s c \<longleftrightarrow> 0 \<le> c \<and> c < MaxCluster s"

abbreviation page :: "'a flash_scheme \<Rightarrow> int \<Rightarrow> int \<Rightarrow> int" where
  "page s b p \<equiv> at2 (FlashMemory s) b p"

definition bad :: "'a flash_scheme \<Rightarrow> int \<Rightarrow> bool" where
  "bad s b \<longleftrightarrow> page s b 0 = BAD_BLOCK"

definition mapped :: "'a ftl_scheme \<Rightarrow> int set" where
  "mapped s = {c. clu s c \<and> Block (at (FTLTable s) c) \<noteq> FTL_POINT_TO_NULL}"

definition ftl_sized :: "'a ftl_scheme \<Rightarrow> bool" where
  "ftl_sized s \<longleftrightarrow> sized s \<and> int (length (FlashMemory s)) = MaxBlock s \<and>
     (\<forall>b. blk s b \<longrightarrow> int (length (at (FlashMemory s) b)) = MaxPage s) \<and>
     int (length (FTLTable s)) = MaxCluster s"

text \<open>
  Table and flash content agree; \<open>X\<close> is the set of clusters left out, which is not empty only
  while a cluster is being written.
\<close>

definition map_ok :: "int set \<Rightarrow> 'a ftl_scheme \<Rightarrow> bool" where
  "map_ok X s \<longleftrightarrow>
     (\<forall>c. c \<in> mapped s \<longrightarrow> c \<notin> X \<longrightarrow>
        (let e = at (FTLTable s) c in
           blk s (Block e) \<and> pg s (Page e) \<and> page s (Block e) (Page e) = c)) \<and>
     (\<forall>b p. blk s b \<longrightarrow> pg s p \<longrightarrow> 0 \<le> page s b p \<longrightarrow>
        page s b p \<in> mapped s \<and> page s b p \<notin> X \<and>
        at (FTLTable s) (page s b p) = \<lparr>Block = b, Page = p\<rparr>)"

definition valid_cnt :: "'a flash_scheme \<Rightarrow> int \<Rightarrow> int" where
  "valid_cnt s b = cnt (\<lambda>x. 0 \<le> x) (at (FlashMemory s) b)"

definition invalid_cnt :: "'a flash_scheme \<Rightarrow> int \<Rightarrow> int" where
  "invalid_cnt s b = cnt (\<lambda>x. x = INVALID_PAGE) (at (FlashMemory s) b)"

definition free_cnt :: "'a flash_scheme \<Rightarrow> int \<Rightarrow> int" where
  "free_cnt s b = cnt (\<lambda>x. x = FREE_PAGE) (at (FlashMemory s) b)"

definition cnt_ok :: "'a flash_scheme \<Rightarrow> bool" where
  "cnt_ok s \<longleftrightarrow> (\<forall>b. blk s b \<longrightarrow>
     at (ValidPageCnt s) b = valid_cnt s b \<and> at (InvalidPageCnt s) b = invalid_cnt s b)"

definition core :: "'a ftl_scheme \<Rightarrow> bool" where
  "core s \<longleftrightarrow> ftl_sized s \<and> map_ok {} s \<and> cnt_ok s"

definition alloc :: "'a flash_scheme \<Rightarrow> int list \<Rightarrow> int \<Rightarrow> bool" where
  "alloc s xs b \<longleftrightarrow> blk s b \<and> b \<notin> set xs \<and> \<not> bad s b"

definition lay :: "int set \<Rightarrow> int list \<Rightarrow> 'a ftl_scheme \<Rightarrow> bool" where
  "lay D xs s \<longleftrightarrow>
     fbl s xs \<and>
     (\<forall>b p. b \<in> set xs \<longrightarrow> b \<notin> D \<longrightarrow> pg s p \<longrightarrow> page s b p = FREE_PAGE) \<and>
     (\<forall>b. alloc s xs b \<longrightarrow> at (FreeBlockList s) b = FBL_NOT_IN_LIST) \<and>
     (\<forall>b p. blk s b \<longrightarrow> pg s p \<longrightarrow> (if bad s b then page s b p = FREE_PAGE \<or> page s b p = BAD_BLOCK
        else - 2 \<le> page s b p)) \<and>
     (\<forall>b. blk s b \<longrightarrow> bad s b \<longrightarrow> b \<notin> set xs) \<and>
     (\<forall>b p. alloc s xs b \<longrightarrow> pg s p \<longrightarrow>
        (page s b p = FREE_PAGE \<longleftrightarrow> b = CurrentFreeBlockID s \<and> CurrentFreePageID s \<le> p)) \<and>
     0 \<le> CurrentFreePageID s \<and> CurrentFreePageID s \<le> MaxPage s \<and>
     (CurrentFreePageID s < MaxPage s \<longrightarrow> alloc s xs (CurrentFreeBlockID s))"

lemmas inv_defs = core_def ftl_sized_def map_ok_def cnt_ok_def mapped_def lay_def fbl_def sized_def
  alloc_def bad_def blk_def pg_def clu_def valid_cnt_def invalid_cnt_def free_cnt_def

section \<open>What the invariant does not depend on\<close>

text \<open>Statistics, the scan position, the divider and the erase counters.\<close>

lemma core_stat [simp]: "core (AccessStatistics_update f s) = core s"
  by (simp add: inv_defs)

lemma lay_stat [simp]: "lay D xs (AccessStatistics_update f s) = lay D xs s"
  by (simp add: inv_defs)

lemma mapped_stat [simp]: "mapped (AccessStatistics_update f s) = mapped s"
  by (simp add: inv_defs)

section \<open>Consequences\<close>

lemma ftl_sized_inb2: "ftl_sized s \<Longrightarrow> blk s b \<Longrightarrow> pg s p \<Longrightarrow> inb2 (FlashMemory s) b p"
  by (auto simp: ftl_sized_def inb2_def inb_def blk_def pg_def)

lemma ftl_sized_inb_table: "ftl_sized s \<Longrightarrow> inb (FTLTable s) c \<longleftrightarrow> clu s c"
  by (auto simp: ftl_sized_def inb_def clu_def)

lemma ftl_sized_inb_row: "ftl_sized s \<Longrightarrow> blk s b \<Longrightarrow> inb (at (FlashMemory s) b) p \<longleftrightarrow> pg s p"
  by (auto simp: ftl_sized_def inb_def pg_def)

lemma map_ok_page:
  "map_ok X s \<Longrightarrow> blk s b \<Longrightarrow> pg s p \<Longrightarrow> 0 \<le> page s b p \<Longrightarrow>
     page s b p \<in> mapped s \<and> page s b p \<notin> X \<and> at (FTLTable s) (page s b p) = \<lparr>Block = b, Page = p\<rparr>"
  by (simp add: map_ok_def)

lemma map_ok_table:
  "map_ok X s \<Longrightarrow> c \<in> mapped s \<Longrightarrow> c \<notin> X \<Longrightarrow>
     blk s (Block (at (FTLTable s) c)) \<and> pg s (Page (at (FTLTable s) c)) \<and>
     page s (Block (at (FTLTable s) c)) (Page (at (FTLTable s) c)) = c"
  by (simp add: map_ok_def Let_def)

lemma layD:
  assumes "lay D xs s"
  shows lay_fbl: "fbl s xs"
    and lay_erased: "b \<in> set xs \<Longrightarrow> b \<notin> D \<Longrightarrow> pg s p \<Longrightarrow> page s b p = FREE_PAGE"
    and lay_alloc: "alloc s xs b \<Longrightarrow> at (FreeBlockList s) b = FBL_NOT_IN_LIST"
    and lay_bad_page: "blk s b \<Longrightarrow> pg s p \<Longrightarrow> bad s b \<Longrightarrow> page s b p = FREE_PAGE \<or> page s b p = BAD_BLOCK"
    and lay_good_page: "blk s b \<Longrightarrow> pg s p \<Longrightarrow> \<not> bad s b \<Longrightarrow> - 2 \<le> page s b p"
    and lay_bad_out: "blk s b \<Longrightarrow> bad s b \<Longrightarrow> b \<notin> set xs"
    and lay_free_page: "alloc s xs b \<Longrightarrow> pg s p \<Longrightarrow>
      page s b p = FREE_PAGE \<longleftrightarrow> b = CurrentFreeBlockID s \<and> CurrentFreePageID s \<le> p"
    and lay_cur_nonneg: "0 \<le> CurrentFreePageID s"
    and lay_cur_le: "CurrentFreePageID s \<le> MaxPage s"
    and lay_cur_alloc: "CurrentFreePageID s < MaxPage s \<Longrightarrow> alloc s xs (CurrentFreeBlockID s)"
  using assms unfolding lay_def by (blast, blast, blast, meson, meson, blast, blast, blast, blast, blast)

section \<open>Invalidating the old page\<close>

definition invalidated :: "int \<Rightarrow> int \<Rightarrow> 'a ftl_scheme \<Rightarrow> 'a ftl_scheme" where
  "invalidated b p s =
     ValidPageCnt_update (\<lambda>a. upd a b (at (ValidPageCnt s) b - 1))
    (InvalidPageCnt_update (\<lambda>a. upd a b (at (InvalidPageCnt s) b + 1))
    (FlashMemory_update (\<lambda>a. upd2 a b p INVALID_PAGE) s))"

lemma wp_invalidate_page:
  assumes "ftl_sized s" "blk s (Block e)" "pg s (Page e)"
  shows "wp (invalidate_page e) Q s = Q () (invalidated (Block e) (Page e) s)"
  using assms sized_inb [of s "Block e"] ftl_sized_inb2 [OF assms]
  by (simp add: invalidate_page_def wp invalidated_def ftl_sized_def blk_def)

lemma page_invalidated:
  assumes "ftl_sized s" "blk s b" "pg s p" "0 \<le> b'" "0 \<le> p'"
  shows "page (invalidated b p s) b' p' = (if b = b' \<and> p = p' then INVALID_PAGE else page s b' p')"
  using ftl_sized_inb2 [OF assms(1-3)] assms(4,5) by (simp add: invalidated_def at2_upd2)

lemma at_FlashMemory_invalidated:
  assumes "ftl_sized s" "blk s b" "pg s p" "blk s b'"
  shows "at (FlashMemory (invalidated b p s)) b' =
    (if b' = b then upd (at (FlashMemory s) b) p INVALID_PAGE else at (FlashMemory s) b')"
  using ftl_sized_inb2 [OF assms(1-3)] assms(4) by (simp add: invalidated_def at_upd2 blk_def)

lemma invalidated_sel [simp]:
  "MaxBlock (invalidated b p s) = MaxBlock s" "MaxPage (invalidated b p s) = MaxPage s"
  "MaxCluster (invalidated b p s) = MaxCluster s" "FTLTable (invalidated b p s) = FTLTable s"
  "FreeBlockList (invalidated b p s) = FreeBlockList s"
  "CurrentFreeBlockID (invalidated b p s) = CurrentFreeBlockID s"
  "CurrentFreePageID (invalidated b p s) = CurrentFreePageID s"
  "blk (invalidated b p s) = blk s" "pg (invalidated b p s) = pg s"
  "clu (invalidated b p s) = clu s" "mapped (invalidated b p s) = mapped s"
  "fbl (invalidated b p s) xs = fbl s xs"
  by (simp_all add: invalidated_def blk_def pg_def clu_def mapped_def fbl_def sized_def fun_eq_iff)

lemma ftl_sized_invalidated:
  assumes "ftl_sized s" "blk s b" "pg s p"
  shows "ftl_sized (invalidated b p s)"
proof -
  have "int (length (at (FlashMemory (invalidated b p s)) b')) = MaxPage s" if "blk s b'" for b'
    using assms that at_FlashMemory_invalidated [OF assms that] by (simp add: ftl_sized_def)
  then show ?thesis
    using assms(1) by (simp add: ftl_sized_def sized_def) (simp add: invalidated_def)
qed

lemma cnt_ok_invalidated:
  assumes "ftl_sized s" "cnt_ok s" "blk s b" "pg s p" "0 \<le> page s b p"
  shows "cnt_ok (invalidated b p s)"
  unfolding cnt_ok_def
proof (intro allI impI)
  fix b'
  assume "blk (invalidated b p s) b'"
  then have b': "blk s b'" by simp
  have row: "inb (at (FlashMemory s) b) p" using ftl_sized_inb_row [OF assms(1,3)] assms(4) by simp
  have i: "inb (ValidPageCnt s) b" "inb (InvalidPageCnt s) b"
    using assms(1,3) sized_inb [of s b] by (auto simp: ftl_sized_def blk_def)
  show "at (ValidPageCnt (invalidated b p s)) b' = valid_cnt (invalidated b p s) b' \<and>
      at (InvalidPageCnt (invalidated b p s)) b' = invalid_cnt (invalidated b p s) b'"
    using assms(2,3,5) b' i row
    by (simp add: cnt_ok_def valid_cnt_def invalid_cnt_def at_FlashMemory_invalidated assms(1,3,4)
        cnt_upd at2_def) (auto simp: invalidated_def at_upd blk_def)
qed

lemma map_ok_invalidated:
  assumes "ftl_sized s" "map_ok {} s" "c \<in> mapped s"
  shows "map_ok {c} (invalidated (Block (at (FTLTable s) c)) (Page (at (FTLTable s) c)) s)"
proof -
  let ?b = "Block (at (FTLTable s) c)" and ?p = "Page (at (FTLTable s) c)"
  have e: "blk s ?b" "pg s ?p" "page s ?b ?p = c" using map_ok_table [OF assms(2,3)] by auto
  note pgs = page_invalidated [OF assms(1) e(1,2)]
  have nn: "0 \<le> b" "0 \<le> p" if "blk s b" "pg s p" for b p
    using that by (auto simp: blk_def pg_def)
  have 1: "page (invalidated ?b ?p s) (Block (at (FTLTable s) c')) (Page (at (FTLTable s) c')) = c'"
    if "c' \<in> mapped s" "c' \<noteq> c" for c'
    using map_ok_table [OF assms(2) that(1)] that(2) e nn by (auto simp: pgs)
  have 2: "page (invalidated ?b ?p s) b p \<in> mapped s \<and> page (invalidated ?b ?p s) b p \<noteq> c \<and>
      at (FTLTable s) (page (invalidated ?b ?p s) b p) = \<lparr>Block = b, Page = p\<rparr>"
    if "blk s b" "pg s p" "0 \<le> page (invalidated ?b ?p s) b p" for b p
  proof -
    have ne: "\<not> (?b = b \<and> ?p = p)" using that nn pgs by auto
    then have "page (invalidated ?b ?p s) b p = page s b p" using that nn pgs by auto
    with map_ok_page [OF assms(2) that(1,2)] that(3) ne show ?thesis by auto
  qed
  show ?thesis
    unfolding map_ok_def using 1 2 map_ok_table [OF assms(2)] by (auto simp: Let_def)
qed

lemma bad_invalidated:
  assumes "ftl_sized s" "lay D xs s" "blk s b" "pg s p" "0 \<le> page s b p" "blk s b'"
  shows "bad (invalidated b p s) b' = bad s b'"
proof -
  have "\<not> bad s b" using lay_bad_page [OF assms(2-4)] assms(5) by auto
  then show ?thesis
    using page_invalidated [OF assms(1,3,4), of b' 0] assms(5,6) by (auto simp: bad_def blk_def)
qed

lemma lay_invalidated:
  assumes "ftl_sized s" "lay D xs s" "blk s b" "pg s p" "0 \<le> page s b p"
  shows "lay D xs (invalidated b p s)"
proof -
  note pgs = page_invalidated [OF assms(1,3,4)]
  have nn: "0 \<le> b \<and> 0 \<le> p" if "blk s b" "pg s p" for b p
    using that by (auto simp: blk_def pg_def)
  have gb: "\<not> bad s b" using lay_bad_page [OF assms(2-4)] assms(5) by auto
  note bad = bad_invalidated [OF assms]
  have al: "alloc (invalidated b p s) xs = alloc s xs"
    using bad by (auto simp: alloc_def fun_eq_iff)
  have fresh: "b \<in> set xs \<Longrightarrow> b \<in> D" using assms(2,4,5) by (auto simp: lay_def)
  have ge0: "0 \<le> b'" if "b' \<in> set xs" for b' using that assms(2) by (auto simp: lay_def fbl_def)
  have cur: "(page (invalidated b p s) b' p' = FREE_PAGE) = (page s b' p' = FREE_PAGE)"
    if "0 \<le> b'" "0 \<le> p'" for b' p'
    using pgs [OF that] assms(5) by auto
  show ?thesis
    unfolding lay_def al
  proof (intro conjI allI impI)
    fix b' p' assume *: "blk (invalidated b p s) b'" "pg (invalidated b p s) p'"
    then have "blk s b'" "pg s p'" by simp_all
    then show "if bad (invalidated b p s) b' then page (invalidated b p s) b' p' = - 1 \<or>
          page (invalidated b p s) b' p' = - 3 else - 2 \<le> page (invalidated b p s) b' p'"
      using bad gb pgs nn assms(2) by (auto simp: lay_def)
  next
    fix b' p' assume "alloc s xs b'" "pg (invalidated b p s) p'"
    then show "(page (invalidated b p s) b' p' = - 1) =
        (b' = CurrentFreeBlockID (invalidated b p s) \<and> CurrentFreePageID (invalidated b p s) \<le> p')"
      using assms(2) cur [of b' p'] nn [of b' p'] by (auto simp: lay_def alloc_def)
  next
    fix b' p' assume "b' \<in> set xs" "b' \<notin> D" "pg (invalidated b p s) p'"
    then show "page (invalidated b p s) b' p' = - 1"
      using assms(2) cur [of b' p'] ge0 [of b'] by (auto simp: lay_def pg_def)
  qed (use assms(2) bad in \<open>auto simp: lay_def\<close>)
qed

section \<open>Placing a cluster on the current page\<close>

definition placed :: "int \<Rightarrow> 'a ftl_scheme \<Rightarrow> 'a ftl_scheme" where
  "placed c s =
     CurrentFreePageID_update (\<lambda>p. p + 1)
    (ValidPageCnt_update (\<lambda>a. upd a (CurrentFreeBlockID s) (at (ValidPageCnt s) (CurrentFreeBlockID s) + 1))
    (FlashMemory_update (\<lambda>a. upd2 a (CurrentFreeBlockID s) (CurrentFreePageID s) c)
    (FTLTable_update (\<lambda>a. upd a c \<lparr>Block = CurrentFreeBlockID s, Page = CurrentFreePageID s\<rparr>) s)))"

lemma placed_sel [simp]:
  "MaxBlock (placed c s) = MaxBlock s" "MaxPage (placed c s) = MaxPage s"
  "MaxCluster (placed c s) = MaxCluster s" "FreeBlockList (placed c s) = FreeBlockList s"
  "FTLTable (placed c s) = upd (FTLTable s) c \<lparr>Block = CurrentFreeBlockID s, Page = CurrentFreePageID s\<rparr>"
  "CurrentFreeBlockID (placed c s) = CurrentFreeBlockID s"
  "CurrentFreePageID (placed c s) = CurrentFreePageID s + 1"
  "InvalidPageCnt (placed c s) = InvalidPageCnt s"
  "blk (placed c s) = blk s" "pg (placed c s) = pg s" "clu (placed c s) = clu s"
  "fbl (placed c s) xs = fbl s xs"
  by (simp_all add: placed_def blk_def pg_def clu_def fbl_def sized_def fun_eq_iff)

text \<open>A state in which the current page can be written.\<close>

definition ready :: "int set \<Rightarrow> int list \<Rightarrow> 'a ftl_scheme \<Rightarrow> bool" where
  "ready D xs s \<longleftrightarrow> ftl_sized s \<and> lay D xs s \<and> CurrentFreePageID s < MaxPage s"

lemma ready_cur:
  assumes "ready D xs s"
  shows "blk s (CurrentFreeBlockID s)" "pg s (CurrentFreePageID s)"
    "page s (CurrentFreeBlockID s) (CurrentFreePageID s) = FREE_PAGE"
    "\<not> bad s (CurrentFreeBlockID s)" "CurrentFreeBlockID s \<notin> set xs"
    "inb2 (FlashMemory s) (CurrentFreeBlockID s) (CurrentFreePageID s)"
proof -
  have l: "lay D xs s" and a: "alloc s xs (CurrentFreeBlockID s)"
    using assms lay_cur_alloc by (auto simp: ready_def)
  then show 1: "blk s (CurrentFreeBlockID s)" and "\<not> bad s (CurrentFreeBlockID s)"
    "CurrentFreeBlockID s \<notin> set xs" by (auto simp: alloc_def)
  show 2: "pg s (CurrentFreePageID s)"
    using assms lay_cur_nonneg [OF l] by (simp add: ready_def pg_def)
  show "page s (CurrentFreeBlockID s) (CurrentFreePageID s) = FREE_PAGE"
    using lay_free_page [OF l a 2] by simp
  show "inb2 (FlashMemory s) (CurrentFreeBlockID s) (CurrentFreePageID s)"
    using assms 1 2 by (simp add: ready_def ftl_sized_inb2)
qed

lemma page_placed:
  assumes "ready D xs s" "0 \<le> b" "0 \<le> p"
  shows "page (placed c s) b p =
    (if CurrentFreeBlockID s = b \<and> CurrentFreePageID s = p then c else page s b p)"
  using ready_cur(6) [OF assms(1)] assms(2,3) by (simp add: placed_def at2_upd2)

lemma at_FlashMemory_placed:
  assumes "ready D xs s" "blk s b"
  shows "at (FlashMemory (placed c s)) b =
    (if b = CurrentFreeBlockID s
     then upd (at (FlashMemory s) (CurrentFreeBlockID s)) (CurrentFreePageID s) c
     else at (FlashMemory s) b)"
  using ready_cur(6) [OF assms(1)] assms(2) by (simp add: placed_def at_upd2 blk_def)

lemma ftl_sized_placed:
  assumes "ready D xs s"
  shows "ftl_sized (placed c s)"
proof -
  have s: "ftl_sized s" using assms by (simp add: ready_def)
  have "int (length (at (FlashMemory (placed c s)) b)) = MaxPage s" if "blk s b" for b
    using s that ready_cur(1) [OF assms] at_FlashMemory_placed [OF assms that, of c]
    by (simp add: ftl_sized_def)
  then show ?thesis
    using s by (simp add: ftl_sized_def sized_def) (simp add: placed_def)
qed

lemma cnt_ok_placed:
  assumes "ready D xs s" "cnt_ok s" "0 \<le> c"
  shows "cnt_ok (placed c s)"
  unfolding cnt_ok_def
proof (intro allI impI)
  fix b
  assume "blk (placed c s) b"
  then have b: "blk s b" by simp
  note cur = ready_cur [OF assms(1)]
  have row: "inb (at (FlashMemory s) (CurrentFreeBlockID s)) (CurrentFreePageID s)"
    using cur(6) by (simp add: inb2_def)
  have i: "inb (ValidPageCnt s) (CurrentFreeBlockID s)"
    using assms(1) cur(1) sized_inb [of s "CurrentFreeBlockID s"]
    by (auto simp: ready_def ftl_sized_def blk_def)
  have at: "at (at (FlashMemory s) (CurrentFreeBlockID s)) (CurrentFreePageID s) = - 1"
    using cur(3) by (simp add: at2_def)
  have v: "at (ValidPageCnt (placed c s)) b =
      at (ValidPageCnt s) b + (if b = CurrentFreeBlockID s then 1 else 0)"
    using i b by (auto simp: placed_def at_upd blk_def)
  show "at (ValidPageCnt (placed c s)) b = valid_cnt (placed c s) b \<and>
      at (InvalidPageCnt (placed c s)) b = invalid_cnt (placed c s) b"
    using assms(2,3) b row at unfolding v
    by (simp add: cnt_ok_def valid_cnt_def invalid_cnt_def at_FlashMemory_placed [OF assms(1) b]
        cnt_upd)
qed

lemma mapped_placed:
  assumes "ready D xs s" "clu s c"
  shows "mapped (placed c s) = insert c (mapped s)"
proof -
  have "inb (FTLTable s) c" using assms ftl_sized_inb_table by (auto simp: ready_def)
  moreover have "CurrentFreeBlockID s \<noteq> - 1" using ready_cur(1) [OF assms(1)] by (simp add: blk_def)
  ultimately show ?thesis
    using assms(2) by (auto simp: mapped_def at_upd clu_def split: if_splits)
qed

lemma map_ok_placed:
  assumes "ready D xs s" "map_ok {c} s" "clu s c"
  shows "map_ok {} (placed c s)"
proof -
  note cur = ready_cur [OF assms(1)] and m = mapped_placed [OF assms(1,3)]
    and pgs = page_placed [OF assms(1)]
  have i: "inb (FTLTable s) c" using assms ftl_sized_inb_table by (auto simp: ready_def)
  have c0: "0 \<le> c" using assms(3) by (simp add: clu_def)
  have nn: "0 \<le> b \<and> 0 \<le> p" if "blk s b" "pg s p" for b p
    using that by (auto simp: blk_def pg_def)
  have 1: "blk s (Block (at (FTLTable (placed c s)) c')) \<and> pg s (Page (at (FTLTable (placed c s)) c')) \<and>
      page (placed c s) (Block (at (FTLTable (placed c s)) c')) (Page (at (FTLTable (placed c s)) c')) = c'"
    if "c' \<in> insert c (mapped s)" for c'
  proof (cases "c' = c")
    case True
    then show ?thesis using cur i nn pgs by auto
  next
    case False
    then have c': "c' \<in> mapped s" "0 \<le> c'" using that by (auto simp: mapped_def clu_def)
    have e: "at (FTLTable (placed c s)) c' = at (FTLTable s) c'"
      using False c'(2) i c0 by (simp add: at_upd)
    have t: "blk s (Block (at (FTLTable s) c'))" "pg s (Page (at (FTLTable s) c'))"
      "page s (Block (at (FTLTable s) c')) (Page (at (FTLTable s) c')) = c'"
      using map_ok_table [OF assms(2) c'(1)] False by auto
    then have "\<not> (CurrentFreeBlockID s = Block (at (FTLTable s) c') \<and>
        CurrentFreePageID s = Page (at (FTLTable s) c'))" using cur(3) c'(2) by auto
    then show ?thesis using t nn pgs unfolding e by auto
  qed
  have 2: "page (placed c s) b p \<in> insert c (mapped s) \<and>
      at (FTLTable (placed c s)) (page (placed c s) b p) = \<lparr>Block = b, Page = p\<rparr>"
    if "blk s b" "pg s p" "0 \<le> page (placed c s) b p" for b p
  proof (cases "CurrentFreeBlockID s = b \<and> CurrentFreePageID s = p")
    case True
    then show ?thesis using i nn that pgs by auto
  next
    case False
    then have "page (placed c s) b p = page s b p" using nn that pgs by auto
    moreover from this have "page s b p \<in> mapped s \<and> page s b p \<noteq> c \<and>
        at (FTLTable s) (page s b p) = \<lparr>Block = b, Page = p\<rparr>"
      using map_ok_page [OF assms(2) that(1,2)] that(3) by auto
    ultimately show ?thesis using that(3) i by (auto simp: at_upd)
  qed
  show ?thesis unfolding map_ok_def m using 1 2 by (auto simp: Let_def simp del: placed_sel(5))
qed

lemma bad_placed:
  assumes "ready D xs s" "0 \<le> c" "blk s b"
  shows "bad (placed c s) b = bad s b"
  using assms ready_cur [OF assms(1)] page_placed [OF assms(1), of b 0 c]
  by (auto simp: bad_def blk_def)

lemma lay_placed:
  assumes "ready D xs s" "0 \<le> c"
  shows "lay D xs (placed c s)"
proof -
  note cur = ready_cur [OF assms(1)] and pgs = page_placed [OF assms(1)]
  have l: "lay D xs s" and lt: "CurrentFreePageID s < MaxPage s" using assms by (auto simp: ready_def)
  have nn: "0 \<le> b \<and> 0 \<le> p" if "blk s b" "pg s p" for b p
    using that by (auto simp: blk_def pg_def)
  note bad = bad_placed [OF assms]
  have al: "alloc (placed c s) xs = alloc s xs" using bad by (auto simp: alloc_def fun_eq_iff)
  have blk: "blk s b" if "b \<in> set xs" for b using that lay_fbl [OF l] by (auto simp: fbl_def blk_def)
  show ?thesis
    unfolding lay_def al
  proof (intro conjI allI impI)
    fix b p assume "blk (placed c s) b" "pg (placed c s) p"
    then have "blk s b" "pg s p" by simp_all
    then show "if bad (placed c s) b then page (placed c s) b p = - 1 \<or>
          page (placed c s) b p = - 3 else - 2 \<le> page (placed c s) b p"
      using bad cur pgs nn lay_bad_page [OF l] lay_good_page [OF l] assms(2) by auto
  next
    fix b p assume *: "alloc s xs b" "pg (placed c s) p"
    then have "blk s b" "pg s p" by (simp_all add: alloc_def)
    then show "(page (placed c s) b p = - 1) =
        (b = CurrentFreeBlockID (placed c s) \<and> CurrentFreePageID (placed c s) \<le> p)"
      using lay_free_page [OF l *(1)] pgs nn assms(2) by auto
  next
    fix b p assume *: "b \<in> set xs" "b \<notin> D" "pg (placed c s) p"
    then have "blk s b" "pg s p" using blk by simp_all
    then show "page (placed c s) b p = - 1"
      using lay_erased [OF l *(1,2)] pgs nn cur(5) *(1) by auto
  next
    show "fbl (placed c s) xs" using lay_fbl [OF l] by simp
  next
    fix b assume "alloc s xs b"
    then show "at (FreeBlockList (placed c s)) b = - 2" using lay_alloc [OF l] by simp
  next
    fix b assume "blk (placed c s) b" "bad (placed c s) b"
    then show "b \<notin> set xs" using bad lay_bad_out [OF l] by simp
  next
    show "0 \<le> CurrentFreePageID (placed c s)" "CurrentFreePageID (placed c s) \<le> MaxPage (placed c s)"
      using lay_cur_nonneg [OF l] lt by simp_all
  next
    show "alloc s xs (CurrentFreeBlockID (placed c s))" using lay_cur_alloc [OF l lt] by simp
  qed
qed

section \<open>Writing one cluster\<close>

text \<open>The state in which the new page is written: the old page of the cluster, if any, is invalid.\<close>

definition cleared :: "int \<Rightarrow> 'a ftl_scheme \<Rightarrow> 'a ftl_scheme" where
  "cleared c s =
     (if c \<in> mapped s then invalidated (Block (at (FTLTable s) c)) (Page (at (FTLTable s) c)) s else s)"

definition written :: "int \<Rightarrow> 'a ftl_scheme \<Rightarrow> 'a ftl_scheme" where
  "written c s =
     AccessStatistics_update (TotalWritePageCount_update (\<lambda>x. x + 1))
    (AccessStatistics_update (TotalWriteRequestTime_update (\<lambda>x. x + TIME_WRITE_PAGE s))
    (placed c (cleared c s)))"

lemma cleared_ok:
  assumes "core s" "ready D xs s"
  shows "ready D xs (cleared c s)" "map_ok {c} (cleared c s)" "cnt_ok (cleared c s)"
    "mapped (cleared c s) = mapped s" "clu (cleared c s) = clu s"
proof -
  have s: "ftl_sized s" "map_ok {} s" "cnt_ok s" "lay D xs s"
    using assms by (auto simp: core_def ready_def)
  have un: "map_ok {c} s" if "c \<notin> mapped s" using that s(2) by (auto simp: map_ok_def)
  have e: "blk s (Block (at (FTLTable s) c))" "pg s (Page (at (FTLTable s) c))"
    "0 \<le> page s (Block (at (FTLTable s) c)) (Page (at (FTLTable s) c))" if "c \<in> mapped s"
    using map_ok_table [OF s(2) that] that by (auto simp: mapped_def clu_def)
  show "ready D xs (cleared c s)"
    using assms(2) ftl_sized_invalidated [OF s(1)] lay_invalidated [OF s(1,4)] e
    by (simp add: cleared_def ready_def)
  show "map_ok {c} (cleared c s)" using un map_ok_invalidated [OF s(1,2)] by (simp add: cleared_def)
  show "cnt_ok (cleared c s)" using s(3) cnt_ok_invalidated [OF s(1,3)] e by (simp add: cleared_def)
  show "mapped (cleared c s) = mapped s" "clu (cleared c s) = clu s" by (simp_all add: cleared_def)
qed

lemma cleared_sel [simp]:
  "CurrentFreeBlockID (cleared c s) = CurrentFreeBlockID s"
  "CurrentFreePageID (cleared c s) = CurrentFreePageID s" "FTLTable (cleared c s) = FTLTable s"
  "MaxPage (cleared c s) = MaxPage s" "WritePageTime (cleared c s) = WritePageTime s"
  "SerialAccessTime (cleared c s) = SerialAccessTime s"
  "PageSpareSize (cleared c s) = PageSpareSize s" "PageSize (cleared c s) = PageSize s"
  by (simp_all add: cleared_def) (simp_all add: invalidated_def)

lemma wp_FTLWriteOneCluster:
  assumes "core s" "ready D xs s" "clu s c"
  shows "wp (FTLWriteOneCluster c) Q s = Q () (written c s)"
proof -
  have s: "ftl_sized s" "map_ok {} s" using assms by (auto simp: core_def)
  have i: "inb (FTLTable s) c" using assms(3) ftl_sized_inb_table [OF s(1)] by simp
  have m: "Block (at (FTLTable s) c) \<noteq> - 1 \<longleftrightarrow> c \<in> mapped s" using assms(3) by (simp add: mapped_def)
  note rc = cleared_ok(1) [OF assms(1,2), of c]
  have cur: "inb2 (FlashMemory (cleared c s)) (CurrentFreeBlockID s) (CurrentFreePageID s)"
      "inb (ValidPageCnt (cleared c s)) (CurrentFreeBlockID s)"
    using ready_cur [OF rc] sized_inb [of "cleared c s" "CurrentFreeBlockID s"] rc
    by (auto simp: ready_def ftl_sized_def blk_def)
  have inv: "wp (whenM (Block (at (FTLTable s) c) \<noteq> - 1) (invalidate_page (at (FTLTable s) c))) R s
      = R () (cleared c s)" for R
    using map_ok_table [OF s(2), of c] wp_invalidate_page [OF s(1)]
    by (simp add: wp m cleared_def)
  have it: "inb (FTLTable (cleared c s)) c" using i by simp
  show ?thesis
    unfolding FTLWriteOneCluster_def wp_bindM wp_rd wp_thenM inv
    by (simp add: i it, simp add: wp write_time_def stat_def cur i written_def placed_def
        TIME_WRITE_PAGE_def TIME_TRANSFER_PAGE_def)
qed

lemma written_ok:
  assumes "core s" "ready D xs s" "clu s c"
  shows "core (written c s)" "lay D xs (written c s)" "mapped (written c s) = insert c (mapped s)"
proof -
  note ok = cleared_ok [OF assms(1,2), of c]
  have c: "clu (cleared c s) c" "0 \<le> c" using ok(5) assms(3) by (simp_all add: clu_def)
  show "core (written c s)"
    using ftl_sized_placed [OF ok(1)] map_ok_placed [OF ok(1,2) c(1)] cnt_ok_placed [OF ok(1,3) c(2)]
    by (simp add: written_def) (simp add: core_def)
  show "lay D xs (written c s)" using lay_placed [OF ok(1) c(2)] by (simp add: written_def)
  show "mapped (written c s) = insert c (mapped s)"
    using mapped_placed [OF ok(1) c(1)] ok(4) by (simp add: written_def)
qed

lemma written_sel [simp]:
  "CurrentFreeBlockID (written c s) = CurrentFreeBlockID s"
  "CurrentFreePageID (written c s) = CurrentFreePageID s + 1"
  "MaxPage (written c s) = MaxPage s" "MaxBlock (written c s) = MaxBlock s"
  "MaxCluster (written c s) = MaxCluster s"
  "FTLTable (written c s) = upd (FTLTable s) c \<lparr>Block = CurrentFreeBlockID s, Page = CurrentFreePageID s\<rparr>"
  by (simp_all add: written_def) (simp_all add: cleared_def)

lemma mapped_page:
  assumes "core s" "c \<in> mapped s"
  shows "blk s (Block (at (FTLTable s) c))" "pg s (Page (at (FTLTable s) c))"
    "page s (Block (at (FTLTable s) c)) (Page (at (FTLTable s) c)) = c" "0 \<le> c"
  using assms map_ok_table [of "{}" s c] by (auto simp: core_def mapped_def clu_def)

lemma bad_written:
  assumes "core s" "ready D xs s" "clu s c" "blk s b"
  shows "bad (written c s) b = bad s b"
proof -
  have "bad (cleared c s) b = bad s b"
    using assms mapped_page [OF assms(1), of c] bad_invalidated [of s D xs]
    by (auto simp: cleared_def core_def ready_def)
  moreover have "blk (cleared c s) b" using assms(4) by (simp add: cleared_def)
  ultimately show ?thesis
    using bad_placed [OF cleared_ok(1) [OF assms(1,2), of c], where c = c and b = b] assms(3)
    by (simp add: written_def clu_def bad_def)
qed

section \<open>What stays the same\<close>

text \<open>
  \<open>same s t\<close>: the parameters of the device, the reserve, the number of bad blocks, the scan
  position and the divider, the bad blocks and the set of mapped clusters of \<open>t\<close> are those of
  \<open>s\<close>.
\<close>

definition same :: "'a ftl_scheme \<Rightarrow> 'a ftl_scheme \<Rightarrow> bool" where
  "same s t \<longleftrightarrow>
     MaxBlock t = MaxBlock s \<and> MaxPage t = MaxPage s \<and> MaxCluster t = MaxCluster s \<and>
     LeastFreeBlocksInFBL t = LeastFreeBlocksInFBL s \<and> BadBlockCnt t = BadBlockCnt s \<and>
     CurrentScanningBlockID t = CurrentScanningBlockID s \<and>
     InvalidPage2ValidPageDivider t = InvalidPage2ValidPageDivider s \<and>
     mapped t = mapped s \<and> (\<forall>b. blk s b \<longrightarrow> bad t b = bad s b)"

lemma same_refl [simp]: "same s s"
  by (simp add: same_def)

lemma same_trans [trans]: "same s t \<Longrightarrow> same t u \<Longrightarrow> same s u"
  by (auto simp: same_def blk_def)

lemma same_blk: "same s t \<Longrightarrow> blk t = blk s"
  by (simp add: same_def blk_def fun_eq_iff)

lemma same_pg: "same s t \<Longrightarrow> pg t = pg s"
  by (simp add: same_def pg_def fun_eq_iff)

lemma same_stat [simp]: "same s (AccessStatistics_update f t) = same s t"
  by (simp add: same_def bad_def mapped_def clu_def LeastFreeBlocksInFBL_def)

end
