(* ===== verification/FTL_Erase.thy ===== *)
theory FTL_Erase
  imports FTL_Invariant
begin

text \<open>
  Reclaiming a block (\<open>FTLEraseOneBlock\<close>): the block is put into the free list first, its live
  pages are then copied to the current block, which is replaced from the list when it is full,
  and finally the block is wiped.  The theory shows that the list never refuses a block during
  the copying, that the victim is not handed out before it is wiped, that no mapped cluster is
  lost and that exactly the invalid pages of the victim disappear.
\<close>

section \<open>Taking a new current block\<close>

definition refilled :: "int \<Rightarrow> int \<Rightarrow> 'a ftl_scheme \<Rightarrow> 'a ftl_scheme" where
  "refilled b y s =
     CurrentFreePageID_update (\<lambda>_. 0) (CurrentFreeBlockID_update (\<lambda>_. b) (unlinked b y s))"

lemma refilled_sel [simp]:
  "CurrentFreeBlockID (refilled b y s) = b" "CurrentFreePageID (refilled b y s) = 0"
  "FlashMemory (refilled b y s) = FlashMemory s" "MaxPage (refilled b y s) = MaxPage s"
  "MaxBlock (refilled b y s) = MaxBlock s" "FTLTable (refilled b y s) = FTLTable s"
  "FreeBlockList (refilled b y s) = upd (FreeBlockList s) b FBL_NOT_IN_LIST"
  "blk (refilled b y s) = blk s" "pg (refilled b y s) = pg s" "clu (refilled b y s) = clu s"
  "bad (refilled b y s) = bad s" "mapped (refilled b y s) = mapped s"
  "valid_cnt (refilled b y s) = valid_cnt s" "invalid_cnt (refilled b y s) = invalid_cnt s"
  "map_ok X (refilled b y s) = map_ok X s"
  by (simp_all add: refilled_def unlinked_def blk_def pg_def clu_def bad_def mapped_def
      valid_cnt_def invalid_cnt_def map_ok_def fun_eq_iff)

lemma fbl_refilled: "fbl (refilled b y s) xs = fbl (unlinked b y s) xs"
  unfolding refilled_def by (simp add: fbl_def sized_def)

lemma same_refilled: "same s (refilled b y s)"
  by (simp add: same_def LeastFreeBlocksInFBL_def) (simp add: refilled_def unlinked_def)

lemma erased_cnt:
  assumes "ftl_sized s" "blk s b" "\<forall>p. pg s p \<longrightarrow> page s b p = FREE_PAGE"
  shows "valid_cnt s b = 0" "invalid_cnt s b = 0"
  using assms ftl_sized_inb_row [OF assms(1,2)]
  by (auto simp: valid_cnt_def invalid_cnt_def cnt_eq_0_iff at2_def)

lemma core_refilled:
  assumes "core s" "lay D (b # y # ys) s" "b \<notin> D"
  shows "core (refilled b y s)"
proof -
  have s: "ftl_sized s" "map_ok {} s" "cnt_ok s" using assms(1) by (auto simp: core_def)
  have f: "fbl s (b # y # ys)" using lay_fbl [OF assms(2)] .
  have b: "blk s b" using f by (auto simp: fbl_def blk_def)
  have z: "valid_cnt s b = 0" "invalid_cnt s b = 0"
    using erased_cnt [OF s(1) b] lay_erased [OF assms(2), of b] assms(3) by auto
  have i: "inb (ValidPageCnt s) b" "inb (InvalidPageCnt s) b"
    using s(1) b sized_inb [of s b] by (auto simp: ftl_sized_def blk_def)
  have "sized (unlinked b y s)" using fbl_unlinked [OF f] by (simp add: fbl_def)
  then have "ftl_sized (refilled b y s)"
    using s(1) by (simp add: ftl_sized_def sized_def) (simp add: refilled_def unlinked_def)
  moreover have "cnt_ok (refilled b y s)"
    using s(3) z i b
    by (auto simp: cnt_ok_def) (auto simp: refilled_def unlinked_def at_upd blk_def)
  ultimately show ?thesis using s(2) by (simp add: core_def)
qed

lemma lay_refilled:
  assumes "core s" "lay D (b # y # ys) s" "b \<notin> D" "MaxPage s \<le> CurrentFreePageID s"
  shows "lay D (y # ys) (refilled b y s)"
proof -
  have f: "fbl s (b # y # ys)" using lay_fbl [OF assms(2)] .
  have b: "blk s b" "inb (FreeBlockList s) b" using f by (auto simp: fbl_def blk_def sized_def inb_def)
  have nb: "\<not> bad s b" using lay_bad_out [OF assms(2) b(1)] by auto
  have al: "alloc (refilled b y s) (y # ys) b' \<longleftrightarrow> alloc s (b # y # ys) b' \<or> b' = b" for b'
    using b nb f by (auto simp: alloc_def fbl_def)
  have fl: "fbl (refilled b y s) (y # ys)"
    using fbl_unlinked [OF f] by (simp add: fbl_refilled)
  have mp: "0 < MaxPage s" using assms(1) by (simp add: core_def ftl_sized_def sized_def)
  show ?thesis
    unfolding lay_def al
  proof (intro conjI allI impI)
    show "fbl (refilled b y s) (y # ys)" by (rule fl)
  next
    fix b' p assume "b' \<in> set (y # ys)" "b' \<notin> D" "pg (refilled b y s) p"
    then show "page (refilled b y s) b' p = - 1" using lay_erased [OF assms(2), of b'] by simp
  next
    fix b' assume "alloc s (b # y # ys) b' \<or> b' = b"
    then show "at (FreeBlockList (refilled b y s)) b' = - 2"
      using lay_alloc [OF assms(2), of b'] b by (auto simp: at_upd alloc_def blk_def)
  next
    fix b' p assume "blk (refilled b y s) b'" "pg (refilled b y s) p"
    then show "if bad (refilled b y s) b' then page (refilled b y s) b' p = - 1 \<or>
        page (refilled b y s) b' p = - 3 else - 2 \<le> page (refilled b y s) b' p"
      using lay_bad_page [OF assms(2), of b' p] lay_good_page [OF assms(2), of b' p] by simp
  next
    fix b' assume "blk (refilled b y s) b'" "bad (refilled b y s) b'"
    then show "b' \<notin> set (y # ys)" using lay_bad_out [OF assms(2), of b'] by auto
  next
    fix b' p assume *: "alloc s (b # y # ys) b' \<or> b' = b" "pg (refilled b y s) p"
    have "page s b p = - 1" using lay_erased [OF assms(2), of b p] assms(3) *(2) by simp
    moreover have "page s b' p \<noteq> - 1" if "b' \<noteq> b"
      using that * lay_free_page [OF assms(2), of b' p] assms(4) by (auto simp: pg_def)
    ultimately show "(page (refilled b y s) b' p = - 1) =
        (b' = CurrentFreeBlockID (refilled b y s) \<and> CurrentFreePageID (refilled b y s) \<le> p)"
      using *(2) by (auto simp: pg_def)
  qed (use mp in auto)
qed

lemma wp_refill_current:
  assumes "lay D (b # y # ys) s" "LeastFreeBlocksInFBL s < int (length (b # y # ys))"
    and "MaxPage s \<le> CurrentFreePageID s"
  shows "wp refill_current Q s = Q () (refilled b y s)"
proof -
  have f: "fbl s (b # y # ys)" using lay_fbl [OF assms(1)] .
  have "LeastFreeBlocksInFBL s < BlocksInFreeBlockList s" using assms(2) f by (simp add: fbl_def)
  then show ?thesis
    using assms(3) by (simp add: refill_current_def wp wp_GetFreeBlock [OF f] refilled_def)
qed

lemma wp_refill_current_skip:
  "CurrentFreePageID s < MaxPage s \<Longrightarrow> wp refill_current Q s = Q () s"
  by (simp add: refill_current_def wp)

section \<open>The balance of pages\<close>

text \<open>
  A page leaves the supply, which is the free list and the rest of the current block, when it is
  programmed, and it comes back when its block is erased.  The source counts a copied page
  twice as a write and once as a copy, so that the pages programmed are the difference.
\<close>

definition page_ledger :: "'a ftl_scheme \<Rightarrow> int" where
  "page_ledger s = (let a = AccessStatistics s in
     MaxPage s * BlocksInFreeBlockList s - CurrentFreePageID s +
     (TotalWritePageCount a - TotalLivePageCopyings a) - MaxPage s * TotalBlockEraseCount a)"

definition write_ledger :: "'a ftl_scheme \<Rightarrow> int" where
  "write_ledger s = TotalWritePageCount (AccessStatistics s) - 2 * TotalLivePageCopyings (AccessStatistics s)"

definition balanced :: "'a ftl_scheme \<Rightarrow> 'a ftl_scheme \<Rightarrow> bool" where
  "balanced s t \<longleftrightarrow> page_ledger t = page_ledger s \<and> write_ledger t = write_ledger s \<and>
     TotalLivePageCopyings (AccessStatistics s) \<le> TotalLivePageCopyings (AccessStatistics t)"

lemma balanced_refl [simp]: "balanced s s"
  by (simp add: balanced_def)

lemma balanced_trans [trans]: "balanced s t \<Longrightarrow> balanced t u \<Longrightarrow> balanced s u"
  by (auto simp: balanced_def)

lemmas ledger_defs = balanced_def page_ledger_def write_ledger_def Let_def

lemma balanced_refilled: "CurrentFreePageID s = MaxPage s \<Longrightarrow> balanced s (refilled b y s)"
  by (simp add: ledger_defs) (simp add: refilled_def unlinked_def algebra_simps)

lemma written_ledgers:
  "page_ledger (written c s) = page_ledger s" "write_ledger (written c s) = write_ledger s + 1"
  "TotalLivePageCopyings (AccessStatistics (written c s)) = TotalLivePageCopyings (AccessStatistics s)"
  by (simp_all add: ledger_defs written_def placed_def cleared_def invalidated_def)

section \<open>Moving one live page\<close>

text \<open>
  The copy of a live page of a block outside the current one: the write makes the copied page
  itself invalid, and no other page of that block changes.
\<close>

lemma written_moves:
  assumes "core s" "ready D xs s" "blk s v" "pg s i" "page s v i = x" "0 \<le> x"
    and "v \<noteq> CurrentFreeBlockID s"
  shows "x \<in> mapped s" "clu s x"
    and "\<And>p. pg s p \<Longrightarrow> page (written x s) v p = (if p = i then INVALID_PAGE else page s v p)"
    and "valid_cnt (written x s) v = valid_cnt s v - 1"
    and "\<And>b. blk s b \<Longrightarrow> b \<noteq> v \<Longrightarrow> invalid_cnt (written x s) b = invalid_cnt s b"
proof -
  have s: "ftl_sized s" "map_ok {} s" using assms(1) by (auto simp: core_def)
  have e: "at (FTLTable s) x = \<lparr>Block = v, Page = i\<rparr>" and m: "x \<in> mapped s"
    using map_ok_page [OF s(2) assms(3,4)] assms(5,6) by auto
  show "x \<in> mapped s" by (rule m)
  show "clu s x" using m by (simp add: mapped_def)
  have cl: "cleared x s = invalidated v i s" using m e by (simp add: cleared_def)
  have rc: "ready D xs (invalidated v i s)" using cleared_ok(1) [OF assms(1,2), of x] cl by simp
  have fm: "FlashMemory (written x s) = FlashMemory (placed x (invalidated v i s))"
    by (simp add: written_def cl)
  have vb: "0 \<le> v" using assms(3) by (simp add: blk_def)
  show "page (written x s) v p = (if p = i then INVALID_PAGE else page s v p)" if "pg s p" for p
    using that assms(7) vb page_placed [OF rc, of v p x] page_invalidated [OF s(1) assms(3,4), of v p]
    by (auto simp: fm pg_def)
  have row: "at (FlashMemory (written x s)) v = upd (at (FlashMemory s) v) i INVALID_PAGE"
    using assms(3,7) at_FlashMemory_placed [OF rc, of v x]
      at_FlashMemory_invalidated [OF s(1) assms(3,4,3)] by (simp add: fm)
  have "inb (at (FlashMemory s) v) i" using ftl_sized_inb_row [OF s(1) assms(3)] assms(4) by simp
  then show "valid_cnt (written x s) v = valid_cnt s v - 1"
    using assms(5,6) by (simp add: valid_cnt_def row cnt_upd at2_def)
  show "invalid_cnt (written x s) b = invalid_cnt s b" if b: "blk s b" "b \<noteq> v" for b
  proof -
    have inv: "at (FlashMemory (invalidated v i s)) b = at (FlashMemory s) b"
      using at_FlashMemory_invalidated [OF s(1) assms(3,4) b(1)] b(2) by simp
    note cur = ready_cur [OF rc]
    have "inb (at (FlashMemory (invalidated v i s)) (CurrentFreeBlockID s)) (CurrentFreePageID s)"
      using cur(6) by (simp add: inb2_def)
    then show ?thesis
      using b inv at_FlashMemory_placed [OF rc, of b x] cur(3) assms(6)
      by (auto simp: invalid_cnt_def fm cnt_upd at2_def)
  qed
qed

section \<open>The copying loop\<close>

text \<open>
  A state in which the block \<open>v\<close>, the last one of the free list, is being reclaimed.  Either the
  list has one block more than the reserve and the live pages of \<open>v\<close> fit into the current and
  one further block, or it has just the reserve and they fit into the current block, with a
  page to spare in both cases.
\<close>

definition reclaiming :: "int \<Rightarrow> 'a ftl_scheme \<Rightarrow> bool" where
  "reclaiming v s \<longleftrightarrow> core s \<and> 1 \<le> LeastFreeBlocksInFBL s \<and>
     (CurrentFreePageID s < MaxPage s \<longrightarrow> invalid_cnt s (CurrentFreeBlockID s) = 0) \<and>
     (\<exists>xs. lay {v} xs s \<and> last xs = v \<and>
        (int (length xs) = LeastFreeBlocksInFBL s + 1 \<and>
           CurrentFreePageID s + valid_cnt s v \<le> 2 * MaxPage s - 1 \<or>
         int (length xs) = LeastFreeBlocksInFBL s \<and>
           CurrentFreePageID s + valid_cnt s v < MaxPage s))"

text \<open>What the loop keeps besides: nothing outside \<open>v\<close> gains or loses an invalid page, and the balance
  of pages is kept.\<close>

definition outside :: "int \<Rightarrow> 'a ftl_scheme \<Rightarrow> 'a ftl_scheme \<Rightarrow> bool" where
  "outside v s t \<longleftrightarrow> same s t \<and> balanced s t \<and> (\<forall>b. blk s b \<longrightarrow> b \<noteq> v \<longrightarrow> invalid_cnt t b = invalid_cnt s b)"

lemma outside_trans: "outside v s t \<Longrightarrow> outside v t u \<Longrightarrow> outside v s u"
  using same_blk [of s t] same_trans [of s t u] balanced_trans [of s t u] by (simp add: outside_def)

lemma lay_last:
  assumes "lay D xs s"
  shows "last xs \<in> set xs" "blk s (last xs)"
  using lay_fbl [OF assms] by (simp_all add: fbl_def blk_def)

lemma wp_refill_reclaiming:
  assumes "reclaiming v s"
  shows "wp refill_current
    (\<lambda>_ t. reclaiming v t \<and> CurrentFreePageID t < MaxPage t \<and> outside v s t \<and>
       FlashMemory t = FlashMemory s) s"
proof (cases "CurrentFreePageID s < MaxPage s")
  case True
  then show ?thesis using assms by (simp add: wp_refill_current_skip outside_def)
next
  case False
  obtain xs where xs: "lay {v} xs s" "last xs = v"
      "int (length xs) = LeastFreeBlocksInFBL s + 1"
      "CurrentFreePageID s + valid_cnt s v \<le> 2 * MaxPage s - 1"
    using assms False cnt_nonneg [of "\<lambda>x. 0 \<le> x" "at (FlashMemory s) v"]
    by (auto simp: reclaiming_def valid_cnt_def)
  have c: "core s" "1 \<le> LeastFreeBlocksInFBL s" using assms by (auto simp: reclaiming_def)
  then obtain b y ys where bys: "xs = b # y # ys"
    using xs(3) by (cases xs; cases "tl xs") auto
  have l: "lay {v} (b # y # ys) s" using xs(1) bys by simp
  have "distinct (b # y # ys)" using lay_fbl [OF l] by (simp add: fbl_def)
  moreover have "v \<in> set (y # ys)" using xs(2) bys last_in_set [of "y # ys"] by simp
  ultimately have bv: "b \<noteq> v" by auto
  then have bD: "b \<notin> {v}" by simp
  have s: "ftl_sized s" using c(1) by (simp add: core_def)
  have blk: "blk s b" using lay_fbl [OF l] by (auto simp: fbl_def blk_def)
  have z: "invalid_cnt s b = 0" using erased_cnt [OF s blk] lay_erased [OF l, of b] bv by auto
  have mp: "0 < MaxPage s" using s by (simp add: ftl_sized_def sized_def)
  have le: "CurrentFreePageID s \<le> MaxPage s" using lay_cur_le [OF l] .
  have least: "LeastFreeBlocksInFBL (refilled b y s) = LeastFreeBlocksInFBL s"
    using same_refilled [of s b y] by (simp add: same_def)
  have "lay {v} (y # ys) (refilled b y s)" using lay_refilled [OF c(1) l bD] False by simp
  moreover have "last (y # ys) = v" using xs(2) bys by simp
  moreover have "int (length (y # ys)) = LeastFreeBlocksInFBL s" using xs(3) bys by simp
  ultimately have "reclaiming v (refilled b y s)"
    unfolding reclaiming_def least using core_refilled [OF c(1) l bD] c(2) z xs(4) False le
    by (intro conjI exI [of _ "y # ys"]) auto
  then show ?thesis
    using False xs(3) bys mp le same_refilled [of s b y] balanced_refilled [of s b y]
    by (subst wp_refill_current [OF l]) (auto simp: outside_def)
qed

lemma wp_copy_live_page:
  assumes "reclaiming v s" "pg s i" "\<forall>p. 0 \<le> p \<and> p < i \<longrightarrow> page s v p < 0"
  shows "wp (copy_live_page v i)
    (\<lambda>_ t. reclaiming v t \<and> outside v s t \<and> (\<forall>p. 0 \<le> p \<and> p < i + 1 \<longrightarrow> page t v p < 0)) s"
proof -
  let ?post = "\<lambda>_ t. reclaiming v t \<and> outside v s t \<and> (\<forall>p. 0 \<le> p \<and> p < i + 1 \<longrightarrow> page t v p < 0)"
  have step: "wp (bindM (rd2 FlashMemory v i) (\<lambda>x.
       whenM (x \<noteq> INVALID_PAGE \<and> x \<noteq> FREE_PAGE) (blockM
         [stat (TotalLivePageCopyings_update (\<lambda>n. n + 1)), write_time TIME_READ_PAGE,
          stat (TotalWritePageCount_update (\<lambda>n. n + 1)), FTLWriteOneCluster x]))) ?post u"
    if u: "reclaiming v u" "CurrentFreePageID u < MaxPage u" "outside v s u"
      "FlashMemory u = FlashMemory s" for u
  proof -
    obtain xs where xs: "lay {v} xs u" "last xs = v"
        "int (length xs) = LeastFreeBlocksInFBL u + 1 \<and>
           CurrentFreePageID u + valid_cnt u v \<le> 2 * MaxPage u - 1 \<or>
         int (length xs) = LeastFreeBlocksInFBL u \<and>
           CurrentFreePageID u + valid_cnt u v < MaxPage u"
      using u(1) by (auto simp: reclaiming_def)
    have c: "core u" using u(1) by (simp add: reclaiming_def)
    have v: "blk u v" "v \<in> set xs" using lay_last [OF xs(1)] xs(2) by simp_all
    have i: "pg u i" using assms(2) u(3) same_pg [of s u] by (simp add: outside_def)
    have r: "ready {v} xs u" using c xs(1) u(2) by (simp add: ready_def core_def)
    have vc: "v \<noteq> CurrentFreeBlockID u" using ready_cur(5) [OF r] v(2) by auto
    have nb: "\<not> bad u v" using lay_bad_out [OF xs(1) v(1)] v(2) by auto
    have inb: "inb2 (FlashMemory u) v i" using c v(1) i by (simp add: core_def ftl_sized_inb2)
    have dn: "\<forall>p. 0 \<le> p \<and> p < i \<longrightarrow> page u v p < 0" using assms(3) u(4) by simp
    show ?thesis
    proof (cases "page u v i < 0")
      case True
      then have neg: "page u v i = - 2 \<or> page u v i = - 1" using lay_good_page [OF xs(1) v(1) i nb] by auto
      have "page u v p < 0" if "0 \<le> p" "p < i + 1" for p
        using that dn True by (cases "p = i") auto
      then have "?post () u" using u by blast
      then show ?thesis
        using neg inb by (auto simp: wp)
    next
      case False
      define x where "x = page u v i"
      define w where "w = AccessStatistics_update (TotalWritePageCount_update (\<lambda>n. n + 1))
        (AccessStatistics_update (TotalWriteRequestTime_update (\<lambda>n. n + TIME_READ_PAGE u))
        (AccessStatistics_update (TotalLivePageCopyings_update (\<lambda>n. n + 1)) u))"
      have w: "core w" "ready {v} xs w" "blk w v" "pg w i" "page w v i = x"
        "v \<noteq> CurrentFreeBlockID w" "same u w" "valid_cnt w = valid_cnt u"
        "invalid_cnt w = invalid_cnt u" "FlashMemory w = FlashMemory u"
        "CurrentFreePageID w = CurrentFreePageID u" "CurrentFreeBlockID w = CurrentFreeBlockID u"
        using c r v(1) i vc xs(1) u(2)
        by (simp_all add: w_def x_def ready_def blk_def pg_def valid_cnt_def invalid_cnt_def fun_eq_iff
            ftl_sized_def sized_def)
      have x0: "0 \<le> x" using False by (simp add: x_def)
      note mv = written_moves [OF w(1-5) x0 w(6)]
      note ok = written_ok [OF w(1,2) mv(2)]
      have sw: "same w (written x w)"
        using mv(1) ok(3) bad_written [OF w(1,2) mv(2)]
        by (simp add: same_def insert_absorb)
           (simp add: written_def placed_def cleared_def invalidated_def LeastFreeBlocksInFBL_def)
      have su: "same u (written x w)" using same_trans [OF w(7) sw] .
      have "page_ledger w = page_ledger u" "write_ledger w = write_ledger u - 1"
          "TotalLivePageCopyings (AccessStatistics w) = TotalLivePageCopyings (AccessStatistics u) + 1"
        by (simp_all add: w_def ledger_defs)
      then have bal: "balanced u (written x w)" by (simp add: balanced_def written_ledgers)
      have out: "outside v u (written x w)"
        using su mv(5) w(9) same_blk [OF w(7)] bal by (simp add: outside_def)
      have least: "LeastFreeBlocksInFBL (written x w) = LeastFreeBlocksInFBL u"
        using su by (simp add: same_def)
      have curb: "blk u (CurrentFreeBlockID u)" using ready_cur(1) [OF r] .
      have "reclaiming v (written x w)"
        unfolding reclaiming_def least
        using ok(1,2) u(1,2) xs mv(4) mv(5) [of "CurrentFreeBlockID u"] vc w(8,9,11,12) curb
          same_blk [OF w(7)] w(7)
        by (intro conjI exI [of _ xs]) (auto simp: reclaiming_def same_def)
      moreover have "page (written x w) v p < 0" if "0 \<le> p" "p < i + 1" for p
        using that mv(3) [of p] dn i w(10) same_pg [OF w(7)] by (auto simp: pg_def)
      ultimately have "?post () (written x w)" using outside_trans [OF u(3) out] by auto
      moreover have "x \<noteq> - 2 \<and> x \<noteq> - 1" using x0 by auto
      ultimately show ?thesis
        using inb wp_FTLWriteOneCluster [OF w(1,2) mv(2), of ?post]
        by (simp add: wp stat_def write_time_def x_def w_def TIME_READ_PAGE_def TIME_TRANSFER_PAGE_def
            comp_assoc)
    qed
  qed
  show ?thesis
    unfolding copy_live_page_def wp_thenM
    by (rule wp_mono [OF wp_refill_reclaiming [OF assms(1)]]) (use step in blast)
qed

end
