(* ===== verification/FTL_Reclaim.thy ===== *)
theory FTL_Reclaim
  imports FTL_Erase
begin

text \<open>
  \<open>FTLEraseOneBlock\<close> as a whole: starting from a layout whose free list is down to the reserve,
  it gives back a layout with a usable current block, the same mapped clusters, and the invalid
  pages of the victim gone.
\<close>

section \<open>Putting the victim into the list\<close>

lemma appended_sel [simp]:
  "FlashMemory (appended v s) = FlashMemory s" "MaxPage (appended v s) = MaxPage s"
  "MaxBlock (appended v s) = MaxBlock s" "FTLTable (appended v s) = FTLTable s"
  "MaxCluster (appended v s) = MaxCluster s"
  "CurrentFreeBlockID (appended v s) = CurrentFreeBlockID s"
  "CurrentFreePageID (appended v s) = CurrentFreePageID s"
  "ValidPageCnt (appended v s) = ValidPageCnt s" "InvalidPageCnt (appended v s) = InvalidPageCnt s"
  for s :: "'a ftl_scheme"
  by (simp_all add: appended_def)

lemma appended_pred [simp]:
  "blk (appended v s) = blk s" "pg (appended v s) = pg s" "clu (appended v s) = clu s"
  "bad (appended v s) = bad s" "mapped (appended v s) = mapped s"
  "valid_cnt (appended v s) = valid_cnt s" "invalid_cnt (appended v s) = invalid_cnt s"
  "map_ok X (appended v s) = map_ok X s" "cnt_ok (appended v s) = cnt_ok s"
  for s :: "'a ftl_scheme"
  by (simp_all add: blk_def pg_def clu_def bad_def mapped_def valid_cnt_def invalid_cnt_def
      map_ok_def cnt_ok_def fun_eq_iff)

lemma same_appended: "same s (appended v s)" for s :: "'a ftl_scheme"
  by (simp add: same_def) (simp add: appended_def LeastFreeBlocksInFBL_def)

lemma core_appended:
  assumes "core s" "lay D xs s" "blk s v" "v \<notin> set xs"
  shows "core (appended v s)"
proof -
  have "sized (appended v s)"
    using fbl_appended [OF lay_fbl [OF assms(2)], of v] assms(3,4) by (simp add: fbl_def blk_def)
  then show ?thesis using assms(1) by (simp add: core_def ftl_sized_def)
qed

lemma lay_appended:
  assumes "core s" "lay {} xs s" "alloc s xs v"
    and "CurrentFreePageID s < MaxPage s \<longrightarrow> v \<noteq> CurrentFreeBlockID s"
  shows "lay {v} (xs @ [v]) (appended v s)"
proof -
  have v: "blk s v" "v \<notin> set xs" "\<not> bad s v" using assms(3) by (auto simp: alloc_def)
  have f: "fbl s xs" using lay_fbl [OF assms(2)] .
  have al: "alloc (appended v s) (xs @ [v]) b \<longleftrightarrow> alloc s xs b \<and> b \<noteq> v" for b
    by (auto simp: alloc_def)
  have tl: "FreeBlockListTail s \<in> set xs" using f by (simp add: fbl_def)
  have fl: "at (FreeBlockList (appended v s)) b = at (FreeBlockList s) b"
    if "alloc s xs b" "b \<noteq> v" for b
  proof -
    have "b \<noteq> FreeBlockListTail s" using that(1) tl by (auto simp: alloc_def)
    moreover have "0 \<le> FreeBlockListTail s" using tl f by (auto simp: fbl_def)
    ultimately show ?thesis using that v(1) by (simp add: appended_def alloc_def blk_def)
  qed
  show ?thesis
    unfolding lay_def al
  proof (intro conjI allI impI)
    show "fbl (appended v s) (xs @ [v])" using fbl_appended [OF f] v by (simp add: blk_def)
  next
    fix b p assume "b \<in> set (xs @ [v])" "b \<notin> {v}" "pg (appended v s) p"
    then show "page (appended v s) b p = - 1" using lay_erased [OF assms(2), of b p] by simp
  next
    fix b assume "alloc s xs b \<and> b \<noteq> v"
    then show "at (FreeBlockList (appended v s)) b = - 2" using fl lay_alloc [OF assms(2)] by simp
  next
    fix b p assume "blk (appended v s) b" "pg (appended v s) p"
    then show "if bad (appended v s) b then page (appended v s) b p = - 1 \<or>
        page (appended v s) b p = - 3 else - 2 \<le> page (appended v s) b p"
      using lay_bad_page [OF assms(2)] lay_good_page [OF assms(2)] by simp
  next
    fix b assume "blk (appended v s) b" "bad (appended v s) b"
    then show "b \<notin> set (xs @ [v])" using lay_bad_out [OF assms(2)] v(3) by auto
  next
    fix b p assume "alloc s xs b \<and> b \<noteq> v" "pg (appended v s) p"
    then show "(page (appended v s) b p = - 1) = (b = CurrentFreeBlockID (appended v s) \<and>
        CurrentFreePageID (appended v s) \<le> p)"
      using lay_free_page [OF assms(2)] by simp
  qed (use lay_cur_nonneg [OF assms(2)] lay_cur_le [OF assms(2)] lay_cur_alloc [OF assms(2)] assms(4)
      in auto)
qed

section \<open>Copying all live pages\<close>

lemma wp_copy_all:
  assumes "reclaiming v s"
  shows "wp (forM 0 (MaxPage s) (copy_live_page v))
    (\<lambda>_ t. reclaiming v t \<and> outside v s t \<and> (\<forall>p. pg t p \<longrightarrow> page t v p < 0)) s"
proof (rule wp_forM [where I = "\<lambda>i t. reclaiming v t \<and> outside v s t \<and>
    (\<forall>p. 0 \<le> p \<and> p < i \<longrightarrow> page t v p < 0)"])
  show "0 \<le> MaxPage s" using assms by (simp add: reclaiming_def core_def ftl_sized_def sized_def)
next
  fix k t
  assume k: "0 \<le> k" "k < MaxPage s"
    and t: "reclaiming v t \<and> outside v s t \<and> (\<forall>p. 0 \<le> p \<and> p < k \<longrightarrow> page t v p < 0)"
  have "pg t k" using k t same_pg [of s t] by (simp add: outside_def pg_def)
  with t have "wp (copy_live_page v k) (\<lambda>_ u. reclaiming v u \<and> outside v t u \<and>
      (\<forall>p. 0 \<le> p \<and> p < k + 1 \<longrightarrow> page u v p < 0)) t"
    by (intro wp_copy_live_page) auto
  then show "wp (copy_live_page v k) (\<lambda>_ u. reclaiming v u \<and> outside v s u \<and>
      (\<forall>p. 0 \<le> p \<and> p < k + 1 \<longrightarrow> page u v p < 0)) t"
    by (rule wp_mono) (use t outside_trans [of v s t] in auto)
next
  fix t
  assume t: "reclaiming v t \<and> outside v s t \<and> (\<forall>p. 0 \<le> p \<and> p < MaxPage s \<longrightarrow> page t v p < 0)"
  then have "MaxPage t = MaxPage s" by (simp add: outside_def same_def)
  then show "reclaiming v t \<and> outside v s t \<and> (\<forall>p. pg t p \<longrightarrow> page t v p < 0)"
    using t by (simp add: pg_def)
qed (use assms in \<open>simp add: outside_def\<close>)

section \<open>Wiping the victim\<close>

definition wiped :: "int \<Rightarrow> 'a ftl_scheme \<Rightarrow> 'a ftl_scheme" where
  "wiped v s =
     FlashMemory_update (\<lambda>a. upd a v (replicate (nat (MaxPage s)) FREE_PAGE))
    (ValidPageCnt_update (\<lambda>a. upd a v 0) (InvalidPageCnt_update (\<lambda>a. upd a v 0) s))"

lemma wp_wipe_block:
  assumes "ftl_sized s" "blk s v"
  shows "wp (wipe_block v) Q s = Q () (wiped v s)"
proof -
  have i: "inb (FlashMemory s) v" "inb (ValidPageCnt s) v" "inb (InvalidPageCnt s) v"
    using assms sized_inb [of s v] by (auto simp: ftl_sized_def blk_def inb_def)
  moreover have "int (length (at (FlashMemory s) v)) = MaxPage s" "0 \<le> MaxPage s"
    using assms by (auto simp: ftl_sized_def sized_def)
  ultimately show ?thesis
    by (simp add: wipe_block_def wp wp_erase_pages wiped_def erased_def)
qed

lemma wiped_sel [simp]:
  "MaxPage (wiped v s) = MaxPage s" "MaxBlock (wiped v s) = MaxBlock s"
  "MaxCluster (wiped v s) = MaxCluster s" "FTLTable (wiped v s) = FTLTable s"
  "CurrentFreeBlockID (wiped v s) = CurrentFreeBlockID s"
  "CurrentFreePageID (wiped v s) = CurrentFreePageID s"
  "FreeBlockList (wiped v s) = FreeBlockList s"
  "blk (wiped v s) = blk s" "pg (wiped v s) = pg s" "clu (wiped v s) = clu s"
  "mapped (wiped v s) = mapped s" "fbl (wiped v s) xs = fbl s xs" "sized (wiped v s) = sized s"
  by (simp_all add: wiped_def blk_def pg_def clu_def mapped_def fbl_def sized_def fun_eq_iff)

lemma at_FlashMemory_wiped:
  assumes "ftl_sized s" "blk s v" "0 \<le> b"
  shows "at (FlashMemory (wiped v s)) b =
    (if b = v then replicate (nat (MaxPage s)) FREE_PAGE else at (FlashMemory s) b)"
  using assms by (auto simp: wiped_def at_upd ftl_sized_def inb_def blk_def)

lemma page_wiped:
  assumes "ftl_sized s" "blk s v" "blk s b" "pg s p"
  shows "page (wiped v s) b p = (if b = v then FREE_PAGE else page s b p)"
  using assms at_FlashMemory_wiped [OF assms(1,2), of b] by (simp add: at2_def blk_def pg_def)

lemma wiped_cnt:
  assumes "ftl_sized s" "blk s v" "blk s b"
  shows "valid_cnt (wiped v s) b = (if b = v then 0 else valid_cnt s b)"
    "invalid_cnt (wiped v s) b = (if b = v then 0 else invalid_cnt s b)"
  using assms(3) at_FlashMemory_wiped [OF assms(1,2), of b]
  by (simp_all add: valid_cnt_def invalid_cnt_def blk_def cnt_replicate)

lemma core_wiped:
  assumes "core s" "blk s v" "\<forall>p. pg s p \<longrightarrow> page s v p < 0"
  shows "core (wiped v s)"
proof -
  have s: "ftl_sized s" "map_ok {} s" "cnt_ok s" using assms(1) by (auto simp: core_def)
  note pw = page_wiped [OF s(1) assms(2)]
  have "int (length (at (FlashMemory (wiped v s)) b)) = MaxPage s" if "blk s b" for b
    using that s(1) at_FlashMemory_wiped [OF s(1) assms(2), of b]
    by (simp add: blk_def ftl_sized_def sized_def)
  then have "ftl_sized (wiped v s)" using s(1) by (simp add: ftl_sized_def) (simp add: wiped_def)
  moreover have "cnt_ok (wiped v s)"
    using s(3) wiped_cnt [OF s(1) assms(2)] s(1) sized_inb [of s v] assms(2)
    by (auto simp: cnt_ok_def ftl_sized_def) (auto simp: wiped_def at_upd blk_def)
  moreover have "map_ok {} (wiped v s)"
  proof -
    have "blk s (Block e) \<and> pg s (Page e) \<and> page (wiped v s) (Block e) (Page e) = c"
      if "c \<in> mapped s" "e = at (FTLTable s) c" for c e
    proof -
      have "blk s (Block e)" "pg s (Page e)" "page s (Block e) (Page e) = c" "0 \<le> c"
        using mapped_page [OF assms(1) that(1)] that(2) by auto
      moreover from this have "Block e \<noteq> v" using assms(3) by force
      ultimately show ?thesis by (simp add: pw)
    qed
    moreover have "page (wiped v s) b p \<in> mapped s \<and>
        at (FTLTable s) (page (wiped v s) b p) = \<lparr>Block = b, Page = p\<rparr>"
      if "blk s b" "pg s p" "0 \<le> page (wiped v s) b p" for b p
      using that map_ok_page [OF s(2), of b p] by (simp add: pw split: if_splits)
    ultimately show ?thesis by (auto simp: map_ok_def Let_def)
  qed
  ultimately show ?thesis by (simp add: core_def)
qed

lemma bad_wiped:
  assumes "ftl_sized s" "blk s v" "\<not> bad s v" "blk s b"
  shows "bad (wiped v s) b = bad s b"
proof -
  have "pg s 0" using assms(1) by (simp add: pg_def ftl_sized_def sized_def)
  then show ?thesis
    using assms(3) page_wiped [OF assms(1,2,4), of 0] by (auto simp: bad_def)
qed

lemma same_wiped:
  assumes "ftl_sized s" "blk s v" "\<not> bad s v"
  shows "same s (wiped v s)"
  using bad_wiped [OF assms]
  by (simp add: same_def) (simp add: wiped_def LeastFreeBlocksInFBL_def)

lemma lay_wiped:
  assumes "ftl_sized s" "lay {v} xs s" "v \<in> set xs" "blk s v"
  shows "lay {} xs (wiped v s)"
proof -
  have nb: "\<not> bad s v" using lay_bad_out [OF assms(2,4)] assms(3) by auto
  note pw = page_wiped [OF assms(1,4)] and bw = bad_wiped [OF assms(1,4) nb]
  have blk: "blk s b" if "b \<in> set xs" for b using that lay_fbl [OF assms(2)] by (auto simp: fbl_def blk_def)
  have al: "alloc (wiped v s) xs = alloc s xs" using bw by (auto simp: alloc_def fun_eq_iff)
  show ?thesis
    unfolding lay_def al
  proof (intro conjI allI impI)
    fix b p assume "b \<in> set xs" "pg (wiped v s) p"
    then show "page (wiped v s) b p = - 1"
      using blk [of b] pw [of b p] lay_erased [OF assms(2), of b p] by auto
  next
    fix b p assume "blk (wiped v s) b" "pg (wiped v s) p"
    then show "if bad (wiped v s) b then page (wiped v s) b p = - 1 \<or> page (wiped v s) b p = - 3
        else - 2 \<le> page (wiped v s) b p"
      using bw [of b] pw [of b p] lay_bad_page [OF assms(2), of b p] lay_good_page [OF assms(2), of b p]
      by auto
  next
    fix b p assume a: "alloc s xs b" "pg (wiped v s) p"
    then have "b \<noteq> v" "blk s b" using assms(3) by (auto simp: alloc_def)
    then show "(page (wiped v s) b p = - 1) =
        (b = CurrentFreeBlockID (wiped v s) \<and> CurrentFreePageID (wiped v s) \<le> p)"
      using pw [of b p] lay_free_page [OF assms(2) a(1), of p] a(2) by simp
  qed (use lay_fbl [OF assms(2)] lay_alloc [OF assms(2)] lay_bad_out [OF assms(2)] bw
        lay_cur_nonneg [OF assms(2)] lay_cur_le [OF assms(2)] lay_cur_alloc [OF assms(2)] in auto)
qed

section \<open>Counting the erase\<close>

lemma counted_sel [simp]:
  "core (counted v s) = core s" "lay D xs (counted v s) = lay D xs s"
  "same t (counted v s) = same t s" "invalid_cnt (counted v s) = invalid_cnt s"
  "CurrentFreeBlockID (counted v s) = CurrentFreeBlockID s"
  "CurrentFreePageID (counted v s) = CurrentFreePageID s" "MaxPage (counted v s) = MaxPage s"
  by (simp_all add: counted_def inv_defs same_def LeastFreeBlocksInFBL_def fun_eq_iff)

text \<open>The victim counts as free from the moment it is put into the list, its erase at the end.\<close>

lemma erase_balanced:
  assumes "balanced (appended v s) t" "same s t"
  shows "balanced s (counted v (wiped v t))"
proof -
  have "page_ledger (appended v s) = page_ledger s + MaxPage s" "write_ledger (appended v s) = write_ledger s"
    "AccessStatistics (appended v s) = AccessStatistics s"
    by (simp_all add: ledger_defs) (simp_all add: appended_def algebra_simps)
  moreover have "page_ledger (counted v (wiped v t)) = page_ledger t - MaxPage t"
    "write_ledger (counted v (wiped v t)) = write_ledger t"
    "TotalLivePageCopyings (AccessStatistics (counted v (wiped v t))) = TotalLivePageCopyings (AccessStatistics t)"
    by (simp_all add: ledger_defs) (simp_all add: counted_def wiped_def algebra_simps)
  moreover have "MaxPage t = MaxPage s" using assms(2) by (simp add: same_def)
  ultimately show ?thesis using assms(1) by (simp add: balanced_def)
qed

section \<open>The whole operation\<close>

text \<open>
  \<open>settled xs s\<close>: the state between two steps of the garbage collector, with free list \<open>xs\<close>.
  While the current block has room, it holds no invalid page.
\<close>

definition settled :: "int list \<Rightarrow> 'a ftl_scheme \<Rightarrow> bool" where
  "settled xs s \<longleftrightarrow> core s \<and> lay {} xs s \<and> 1 \<le> LeastFreeBlocksInFBL s \<and>
     LeastFreeBlocksInFBL s \<le> int (length xs) \<and>
     (CurrentFreePageID s < MaxPage s \<longrightarrow> invalid_cnt s (CurrentFreeBlockID s) = 0)"

lemma valid_plus_invalid:
  assumes "ftl_sized s" "blk s b"
  shows "valid_cnt s b + invalid_cnt s b \<le> MaxPage s"
proof -
  have "cnt (\<lambda>x. 0 \<le> x) xs + cnt (\<lambda>x. x = - 2) xs \<le> int (length xs)" for xs :: "int list"
    by (induction xs) (auto simp: cnt_def)
  from this [of "at (FlashMemory s) b"] show ?thesis
    using assms by (simp add: valid_cnt_def invalid_cnt_def ftl_sized_def)
qed

lemma reclaiming_appended:
  assumes "settled xs s" "int (length xs) = LeastFreeBlocksInFBL s"
    and "alloc s xs v" "v \<noteq> CurrentFreeBlockID s" "1 \<le> invalid_cnt s v"
  shows "reclaiming v (appended v s)"
proof -
  have s: "core s" "lay {} xs s" using assms(1) by (auto simp: settled_def)
  have v: "blk s v" "v \<notin> set xs" using assms(3) by (auto simp: alloc_def)
  have least: "LeastFreeBlocksInFBL (appended v s) = LeastFreeBlocksInFBL s"
    using same_appended [of s v] by (simp add: same_def)
  have "valid_cnt s v + invalid_cnt s v \<le> MaxPage s"
    using valid_plus_invalid [of s v] s(1) v(1) by (simp add: core_def)
  then have "CurrentFreePageID s + valid_cnt s v \<le> 2 * MaxPage s - 1"
    using assms(5) lay_cur_le [OF s(2)] by simp
  moreover have "lay {v} (xs @ [v]) (appended v s)" using lay_appended [OF s assms(3)] assms(4) by simp
  ultimately show ?thesis
    unfolding reclaiming_def least
    using core_appended [OF s v] assms(1,2)
    by (intro conjI exI [of _ "xs @ [v]"]) (auto simp: settled_def)
qed

lemma wp_FTLEraseOneBlock:
  assumes "settled xs s" "int (length xs) = LeastFreeBlocksInFBL s"
    and "alloc s xs v" "v \<noteq> CurrentFreeBlockID s" "1 \<le> invalid_cnt s v"
  shows "wp (FTLEraseOneBlock v) (\<lambda>_ t.
    \<exists>ys. settled ys t \<and> CurrentFreePageID t < MaxPage t \<and> outside v s t \<and> invalid_cnt t v = 0) s"
    (is "wp _ ?post s")
proof -
  have s: "core s" "lay {} xs s" and v: "blk s v" "v \<notin> set xs"
    using assms(1,3) by (auto simp: settled_def alloc_def)
  note rec = reclaiming_appended [OF assms]
  have sa: "same s (appended v s)" by (rule same_appended)
  have end': "wp (blockM [wipe_block v, count_erase v]) ?post t"
    if t: "reclaiming v t" "outside v (appended v s) t" "CurrentFreePageID t < MaxPage t"
      "\<forall>p. pg t p \<longrightarrow> page t v p < 0" for t
  proof -
    obtain ys where ys: "lay {v} ys t" "last ys = v" "LeastFreeBlocksInFBL t \<le> int (length ys)"
      using t(1) by (auto simp: reclaiming_def)
    have c: "core t" "ftl_sized t" "1 \<le> LeastFreeBlocksInFBL t"
      "invalid_cnt t (CurrentFreeBlockID t) = 0"
      using t(1,3) by (auto simp: reclaiming_def core_def)
    have vt: "blk t v" "v \<in> set ys" using lay_last [OF ys(1)] ys(2) by auto
    have nb: "\<not> bad t v" using lay_bad_out [OF ys(1) vt(1)] vt(2) by auto
    have sw: "same t (wiped v t)" using same_wiped [OF c(2) vt(1) nb] .
    have cur: "blk t (CurrentFreeBlockID t)" using lay_cur_alloc [OF ys(1) t(3)] by (simp add: alloc_def)
    have z: "invalid_cnt (wiped v t) (CurrentFreeBlockID t) = 0" "invalid_cnt (wiped v t) v = 0"
      using wiped_cnt(2) [OF c(2) vt(1)] cur vt(1) c(4) by auto
    have "settled ys (wiped v t)"
      using core_wiped [OF c(1) vt(1) t(4)] lay_wiped [OF c(2) ys(1) vt(2,1)] z(1) sw c(3) ys(3)
      by (simp add: settled_def same_def)
    moreover have st: "same s t" using t(2) same_trans [OF sa] by (auto simp: outside_def)
    then have "same s (counted v (wiped v t))" using same_trans [OF st sw] by simp
    moreover have "\<forall>b. blk s b \<longrightarrow> b \<noteq> v \<longrightarrow> invalid_cnt (counted v (wiped v t)) b = invalid_cnt s b"
      using t(2) same_blk [OF st] wiped_cnt(2) [OF c(2) vt(1)] by (auto simp: outside_def)
    moreover have "balanced s (counted v (wiped v t))"
      using t(2) st by (simp add: outside_def erase_balanced)
    ultimately have "?post () (counted v (wiped v t))"
      using t(3) z(2) by (intro exI [of _ ys]) (simp add: settled_def outside_def, simp add: counted_def
          LeastFreeBlocksInFBL_def)
    moreover have "inb (BlockEraseCnt (wiped v t)) v"
      using c(2) vt(1) sized_inb(8) [of t v] by (simp add: wiped_def ftl_sized_def blk_def)
    ultimately show ?thesis
      by (simp add: wp wp_wipe_block [OF c(2) vt(1)] wp_count_erase)
  qed
  have mid: "wp (blockM [refill_current, wipe_block v, count_erase v]) ?post t"
    if t: "reclaiming v t" "outside v (appended v s) t" "\<forall>p. pg t p \<longrightarrow> page t v p < 0" for t
    unfolding wp_blockM_Cons [of refill_current]
  proof (rule wp_mono [OF wp_refill_reclaiming [OF t(1)]])
    fix x u
    assume u: "reclaiming v u \<and> CurrentFreePageID u < MaxPage u \<and> outside v t u \<and>
      FlashMemory u = FlashMemory t"
    then show "wp (blockM [wipe_block v, count_erase v]) ?post u"
      using end' [of u] outside_trans [OF t(2), of u] t(3) same_pg [of t u] by (simp add: outside_def)
  qed
  have all: "wp (forM 0 (MaxPage s) (copy_live_page v))
      (\<lambda>_. wp (blockM [refill_current, wipe_block v, count_erase v]) ?post) (appended v s)"
    using wp_copy_all [OF rec] unfolding appended_sel
    by (rule wp_mono) (use mid in blast)
  have bl: "0 \<le> v" "v < MaxBlock s" using v(1) by (auto simp: blk_def)
  show ?thesis
    using all unfolding FTLEraseOneBlock_def wp_blockM_Cons [of "PutFreeBlock v"]
      wp_PutFreeBlock [OF lay_fbl [OF s(2)] bl] wp_blockM_Cons [of "bindM _ _"] wp_bindM wp_getM
      appended_sel .
qed

end
