(* ===== verification/FTL_GC.thy ===== *)
theory FTL_GC
  imports FTL_Reclaim
begin

text \<open>
  The garbage collector: the scan visits every block, a block with an invalid page is found as
  soon as the divider is large enough, and the loop ends because every round either erases
  invalid pages or doubles the divider.  The counting argument needs that the live data leave
  more than a block of slack: \<open>live s \<le> capacity s\<close>.
\<close>

section \<open>Counting\<close>

lemma cnt_card: "cnt P xs = int (card {i. inb xs i \<and> P (at xs i)})"
proof -
  have "{i. inb xs i \<and> P (at xs i)} = int ` {n. n < length xs \<and> P (xs ! n)}"
  proof (rule set_eqI)
    fix i
    show "i \<in> {i. inb xs i \<and> P (at xs i)} \<longleftrightarrow> i \<in> int ` {n. n < length xs \<and> P (xs ! n)}"
      by (auto simp: inb_def at_def intro!: image_eqI [of _ _ "nat i"])
  qed
  then show ?thesis by (simp add: cnt_def length_filter_conv_card card_image)
qed

definition live :: "'a ftl_scheme \<Rightarrow> int" where
  "live s = cnt (\<lambda>e. Block e \<noteq> FTL_POINT_TO_NULL) (FTLTable s)"

definition nbad :: "'a flash_scheme \<Rightarrow> int" where
  "nbad s = cnt (\<lambda>row. at row 0 = BAD_BLOCK) (FlashMemory s)"

text \<open>
  The blocks that hold data when the free list is down to the reserve, less one block for the
  copies of the garbage collector and one page.
\<close>

definition capacity :: "'a flash_scheme \<Rightarrow> int" where
  "capacity s = (MaxBlock s - nbad s - LeastFreeBlocksInFBL s - 1) * MaxPage s - 1"

lemma live_card: "ftl_sized s \<Longrightarrow> live s = int (card (mapped s))"
  by (simp add: live_def cnt_card mapped_def ftl_sized_inb_table)

lemma finite_mapped: "finite (mapped s)"
proof (rule finite_subset)
  show "mapped s \<subseteq> {0 ..< MaxCluster s}" by (auto simp: mapped_def clu_def)
qed simp

lemma nbad_card: "ftl_sized s \<Longrightarrow> nbad s = int (card {b. blk s b \<and> bad s b})"
  by (simp add: nbad_def cnt_card bad_def at2_def ftl_sized_def inb_def blk_def)

lemma finite_blk [simp]: "finite {b. blk s b}"
proof (rule finite_subset)
  show "{b. blk s b} \<subseteq> {0 ..< MaxBlock s}" by (auto simp: blk_def)
qed simp

lemma card_blk: "0 \<le> MaxBlock s \<Longrightarrow> int (card {b. blk s b}) = MaxBlock s"
proof -
  have "{b. blk s b} = {0 ..< MaxBlock s}" by (auto simp: blk_def)
  then show "0 \<le> MaxBlock s \<Longrightarrow> ?thesis" by simp
qed

lemma card_alloc:
  assumes "ftl_sized s" "fbl s xs"
  shows "MaxBlock s - nbad s - int (length xs) \<le> int (card {b. alloc s xs b})"
proof -
  have e: "{b. alloc s xs b} = {b. blk s b} - {b. blk s b \<and> bad s b} - set xs"
    by (auto simp: alloc_def)
  have f: "finite {b. blk s b \<and> bad s b}" by (rule finite_subset [OF _ finite_blk]) auto
  have "card {b. blk s b} \<le>
      card {b. alloc s xs b} + (card {b. blk s b \<and> bad s b} + card (set xs))"
  proof -
    have "{b. blk s b} \<subseteq> {b. alloc s xs b} \<union> ({b. blk s b \<and> bad s b} \<union> set xs)"
      by (auto simp: alloc_def)
    moreover have "finite {b. alloc s xs b}" by (simp add: e)
    ultimately have "card {b. blk s b} \<le> card ({b. alloc s xs b} \<union> ({b. blk s b \<and> bad s b} \<union> set xs))"
      using f by (intro card_mono) auto
    also have "\<dots> \<le> card {b. alloc s xs b} + card ({b. blk s b \<and> bad s b} \<union> set xs)"
      by (rule card_Un_le)
    finally show ?thesis using card_Un_le [of "{b. blk s b \<and> bad s b}" "set xs"] by linarith
  qed
  moreover have "card (set xs) = length xs" using assms(2) by (simp add: fbl_def distinct_card)
  moreover have "0 \<le> MaxBlock s" using assms(1) by (auto simp: ftl_sized_def)
  ultimately show ?thesis
    using card_blk [of s] nbad_card [OF assms(1)] by linarith
qed

section \<open>An invalid page exists\<close>

lemma row_split:
  fixes xs :: "int list"
  assumes "\<forall>x \<in> set xs. - 2 \<le> x"
  shows "cnt (\<lambda>x. 0 \<le> x) xs + cnt (\<lambda>x. x = - 2) xs + cnt (\<lambda>x. x = - 1) xs = int (length xs)"
  using assms by (induction xs) (auto simp: cnt_def)

lemma alloc_row:
  assumes "ftl_sized s" "lay D xs s" "alloc s xs b"
  shows "valid_cnt s b + invalid_cnt s b + free_cnt s b = MaxPage s"
proof -
  have b: "blk s b" "\<not> bad s b" using assms(3) by (auto simp: alloc_def)
  have "\<forall>x \<in> set (at (FlashMemory s) b). - 2 \<le> x"
  proof
    fix x assume "x \<in> set (at (FlashMemory s) b)"
    then obtain i where "inb (at (FlashMemory s) b) i" "at (at (FlashMemory s) b) i = x"
      by (auto simp: in_set_at)
    then show "- 2 \<le> x"
      using lay_good_page [OF assms(2) b(1), of i] b ftl_sized_inb_row [OF assms(1) b(1), of i]
      by (simp add: at2_def)
  qed
  from row_split [OF this] show ?thesis
    using assms(1) b(1) by (simp add: valid_cnt_def invalid_cnt_def free_cnt_def ftl_sized_def)
qed

lemma sum_valid_le:
  assumes "core s"
  shows "(\<Sum>b | alloc s xs b. valid_cnt s b) \<le> live s"
proof -
  let ?A = "{b. alloc s xs b}" and ?P = "\<lambda>b. {p. pg s p \<and> 0 \<le> page s b p}"
  have s: "ftl_sized s" "map_ok {} s" using assms by (auto simp: core_def)
  have fin: "finite ?A" by (rule finite_subset [OF _ finite_blk [of s]]) (auto simp: alloc_def)
  have finP: "finite (?P b)" for b
  proof (rule finite_subset)
    show "?P b \<subseteq> {0 ..< MaxPage s}" by (auto simp: pg_def)
  qed simp
  have v: "valid_cnt s b = int (card (?P b))" if "alloc s xs b" for b
    using that ftl_sized_inb_row [OF s(1), of b]
    by (simp add: valid_cnt_def cnt_card alloc_def at2_def)
  have "(\<Sum>b \<in> ?A. valid_cnt s b) = (\<Sum>b \<in> ?A. int (card (?P b)))" using v by (intro sum.cong) auto
  also have "\<dots> = int (card (Sigma ?A ?P))" using fin finP by simp
  also have "card (Sigma ?A ?P) \<le> card (mapped s)"
  proof (rule card_inj_on_le [where f = "\<lambda>(b, p). page s b p"])
    have tab: "page s b p \<in> mapped s \<and> at (FTLTable s) (page s b p) = \<lparr>Block = b, Page = p\<rparr>"
      if "(b, p) \<in> Sigma ?A ?P" for b p
      using that map_ok_page [OF s(2), of b p] by (auto simp: alloc_def)
    show "(\<lambda>(b, p). page s b p) ` Sigma ?A ?P \<subseteq> mapped s"
    proof (rule image_subsetI)
      fix x assume "x \<in> Sigma ?A ?P"
      then show "(case x of (b, p) \<Rightarrow> page s b p) \<in> mapped s"
        using tab [of "fst x" "snd x"] by (simp add: split_beta)
    qed
    show "inj_on (\<lambda>(b, p). page s b p) (Sigma ?A ?P)"
    proof (rule inj_onI)
      fix x y
      assume xy: "x \<in> Sigma ?A ?P" "y \<in> Sigma ?A ?P"
        "(case x of (b, p) \<Rightarrow> page s b p) = (case y of (b, p) \<Rightarrow> page s b p)"
      obtain b p b' p' where [simp]: "x = (b, p)" "y = (b', p')" by (cases x, cases y)
      have "page s b p = page s b' p'" using xy(3) by simp
      moreover have "at (FTLTable s) (page s b p) = \<lparr>Block = b, Page = p\<rparr>"
        "at (FTLTable s) (page s b' p') = \<lparr>Block = b', Page = p'\<rparr>"
        using tab [of b p] tab [of b' p'] xy(1,2) by simp_all
      ultimately have "\<lparr>Block = b, Page = p\<rparr> = \<lparr>Block = b', Page = p'\<rparr>" by metis
      then show "x = y" by simp
    qed
    show "finite (mapped s)" by (rule finite_mapped)
  qed
  finally show ?thesis by (simp add: live_card [OF s(1)])
qed

text \<open>With live data within the capacity, some block other than the current one is worth erasing.\<close>

lemma invalid_page_exists:
  assumes "settled xs s" "int (length xs) = LeastFreeBlocksInFBL s" "live s \<le> capacity s"
    and "\<not> CurrentFreePageID s < MaxPage s \<longrightarrow> CurrentFreeBlockID s = - 1"
  shows "\<exists>b. alloc s xs b \<and> b \<noteq> CurrentFreeBlockID s \<and> 1 \<le> invalid_cnt s b"
proof (rule ccontr)
  assume no: "\<not> ?thesis"
  let ?A = "{b. alloc s xs b}"
  have s: "core s" "ftl_sized s" "lay {} xs s" using assms(1) by (auto simp: settled_def core_def)
  have mp: "0 < MaxPage s" using s(2) by (simp add: ftl_sized_def sized_def)
  have fin: "finite ?A" by (rule finite_subset [OF _ finite_blk [of s]]) (auto simp: alloc_def)
  have z: "invalid_cnt s b = 0" if "alloc s xs b" for b
  proof (cases "b = CurrentFreeBlockID s")
    case True
    then have "CurrentFreePageID s < MaxPage s" using assms(4) that by (auto simp: alloc_def blk_def)
    then show ?thesis using assms(1) True by (simp add: settled_def)
  next
    case False
    then have "\<not> 1 \<le> invalid_cnt s b" using no that by blast
    then show ?thesis
      using cnt_nonneg [of "\<lambda>x. x = INVALID_PAGE" "at (FlashMemory s) b"]
      unfolding invalid_cnt_def by linarith
  qed
  have fr: "free_cnt s b = 0" if "alloc s xs b" "b \<noteq> CurrentFreeBlockID s" for b
    using that lay_free_page [OF s(3) that(1)] ftl_sized_inb_row [OF s(2), of b]
    by (auto simp: free_cnt_def cnt_eq_0_iff at2_def alloc_def)
  have le: "free_cnt s b \<le> MaxPage s" if "alloc s xs b" for b
    using that s(2) cnt_le_length [of "\<lambda>x. x = FREE_PAGE" "at (FlashMemory s) b"]
    by (simp add: free_cnt_def ftl_sized_def alloc_def)
  have "(\<Sum>b\<in>?A. free_cnt s b) \<le> (\<Sum>b\<in>?A. if b = CurrentFreeBlockID s then MaxPage s else 0)"
    using fr le by (intro sum_mono) auto
  also have "\<dots> \<le> MaxPage s" using fin mp by (simp add: sum.delta)
  finally have f: "(\<Sum>b\<in>?A. free_cnt s b) \<le> MaxPage s" .
  have "int (card ?A) * MaxPage s = (\<Sum>b\<in>?A. valid_cnt s b + invalid_cnt s b + free_cnt s b)"
    using alloc_row [OF s(2,3)] by simp
  also have "\<dots> = (\<Sum>b\<in>?A. valid_cnt s b) + (\<Sum>b\<in>?A. free_cnt s b)"
    using z by (simp add: sum.distrib)
  also have "\<dots> \<le> live s + MaxPage s" using sum_valid_le [OF s(1), of xs] f by linarith
  finally have "int (card ?A) * MaxPage s \<le> live s + MaxPage s" .
  moreover have "(MaxBlock s - nbad s - LeastFreeBlocksInFBL s) * MaxPage s \<le> int (card ?A) * MaxPage s"
    using card_alloc [OF s(2) lay_fbl [OF s(3)]] assms(2) mp by (intro mult_right_mono) auto
  ultimately show False using assms(3) by (simp add: capacity_def algebra_simps)
qed

section \<open>The scan\<close>

definition victim :: "'a ftl_scheme \<Rightarrow> int \<Rightarrow> bool" where
  "victim s b \<longleftrightarrow>
     at (InvalidPageCnt s) b > at (ValidPageCnt s) b div InvalidPage2ValidPageDivider s \<and>
     at (FreeBlockList s) b = FBL_NOT_IN_LIST \<and> b \<noteq> CurrentFreeBlockID s"

lemma wp_is_victim:
  assumes "core s" "blk s b" "1 \<le> InvalidPage2ValidPageDivider s"
  shows "wp (is_victim b) Q s = Q (victim s b) s"
proof -
  have "inb (InvalidPageCnt s) b" "inb (ValidPageCnt s) b" "inb (FreeBlockList s) b"
    using assms(1,2) sized_inb [of s b] by (auto simp: core_def ftl_sized_def blk_def)
  moreover have "0 \<le> at (ValidPageCnt s) b"
    using assms(1,2) by (simp add: core_def cnt_ok_def valid_cnt_def)
  ultimately show ?thesis using assms(3) by (simp add: is_victim_def wp victim_def)
qed

text \<open>The scan changes only the scan position and the time spent on writes.\<close>

definition scanned :: "int \<Rightarrow> int \<Rightarrow> 'a ftl_scheme \<Rightarrow> 'a ftl_scheme" where
  "scanned f c s = AccessStatistics_update (TotalWriteRequestTime_update (\<lambda>x. x + f))
     (CurrentScanningBlockID_update (\<lambda>_. c) s)"

lemma scanned_sel [simp]:
  "core (scanned f c s) = core s" "lay D xs (scanned f c s) = lay D xs s"
  "settled xs (scanned f c s) = settled xs s" "victim (scanned f c s) = victim s"
  "blk (scanned f c s) = blk s" "alloc (scanned f c s) = alloc s"
  "invalid_cnt (scanned f c s) = invalid_cnt s" "CurrentScanningBlockID (scanned f c s) = c"
  "MaxBlock (scanned f c s) = MaxBlock s" "MaxPage (scanned f c s) = MaxPage s"
  "InvalidPage2ValidPageDivider (scanned f c s) = InvalidPage2ValidPageDivider s"
  "LeastFreeBlocksInFBL (scanned f c s) = LeastFreeBlocksInFBL s"
  "CurrentFreeBlockID (scanned f c s) = CurrentFreeBlockID s"
  "CurrentFreePageID (scanned f c s) = CurrentFreePageID s" "mapped (scanned f c s) = mapped s"
  "scanned g d (scanned f c s) = scanned (f + g) d s" "balanced r (scanned f c s) = balanced r s"
  by (simp_all add: scanned_def inv_defs settled_def victim_def LeastFreeBlocksInFBL_def fun_eq_iff ledger_defs
      comp_def ac_simps)

lemma wp_scan_victim:
  assumes "core s" "0 < MaxBlock s" "1 \<le> InvalidPage2ValidPageDivider s"
    and "- 1 \<le> CurrentScanningBlockID s"
  shows "wp (scan_victim n) (\<lambda>found t. \<exists>f c. t = scanned f c s \<and> - 1 \<le> c \<and>
    (if found then blk s c \<and> victim s c
     else \<forall>k. 1 \<le> k \<and> k \<le> int n \<longrightarrow> \<not> victim s ((CurrentScanningBlockID s + k) mod MaxBlock s))) s"
  using assms
proof (induction n arbitrary: s)
  case 0
  have "s = scanned 0 (CurrentScanningBlockID s) s" by (simp add: scanned_def)
  then show ?case
    using 0(4) unfolding scan_victim.simps wp_returnM
    by (intro exI [of _ 0] exI [of _ "CurrentScanningBlockID s"] conjI) auto
next
  case (Suc n)
  let ?c = "(CurrentScanningBlockID s + 1) mod MaxBlock s"
  define f where "f = TIME_READ_SPARE_PAGE s * MaxPage s"
  define t where "t = scanned f ?c s"
  have c: "0 \<le> ?c" "?c < MaxBlock s" "blk s ?c" using Suc.prems(2) by (auto simp: blk_def)
  have t: "core t" "0 < MaxBlock t" "1 \<le> InvalidPage2ValidPageDivider t"
    "- 1 \<le> CurrentScanningBlockID t" "blk t ?c" "CurrentScanningBlockID t = ?c"
    using Suc.prems c by (simp_all add: t_def)
  have step: "wp (scan_victim (Suc n)) Q s =
      (if victim s ?c then Q True t else wp (scan_victim n) Q t)" for Q
  proof -
    have "wp (scan_victim (Suc n)) Q s =
        wp (is_victim ?c) (\<lambda>v. wp (if v then returnM True else scan_victim n) Q) t"
      using Suc.prems by (simp add: wp write_time_def stat_def scanned_def t_def f_def
          TIME_READ_SPARE_PAGE_def TIME_TRANSFER_SPARE_PAGE_def)
    also have "\<dots> = (if victim t ?c then Q True t else wp (scan_victim n) Q t)"
      by (simp add: wp wp_is_victim [OF t(1,5,3)])
    finally show ?thesis by (simp add: t_def)
  qed
  have shift: "(?c + k) mod MaxBlock s = (CurrentScanningBlockID s + (k + 1)) mod MaxBlock s" for k
    by (simp add: mod_simps ac_simps)
  show ?case
  proof (cases "victim s ?c")
    case True
    then show ?thesis
      unfolding step if_P [OF True] using c True by (intro exI [of _ f] exI [of _ ?c]) (simp add: t_def)
  next
    case False
    have "wp (scan_victim n) (\<lambda>found u. \<exists>f c. u = scanned f c t \<and> - 1 \<le> c \<and>
      (if found then blk t c \<and> victim t c
       else \<forall>k. 1 \<le> k \<and> k \<le> int n \<longrightarrow> \<not> victim t ((CurrentScanningBlockID t + k) mod MaxBlock t))) t"
      using Suc.IH t by blast
    then show ?thesis
      unfolding step if_not_P [OF False]
    proof (rule wp_mono, elim exE conjE)
      fix found u g d
      assume u: "u = scanned g d t" "- 1 \<le> d" and r: "if found then blk t d \<and> victim t d
        else \<forall>k. 1 \<le> k \<and> k \<le> int n \<longrightarrow> \<not> victim t ((CurrentScanningBlockID t + k) mod MaxBlock t)"
      have "\<not> victim s ((CurrentScanningBlockID s + k) mod MaxBlock s)"
        if "\<not> found" "1 \<le> k" "k \<le> int (Suc n)" for k
      proof (cases "k = 1")
        case k: False
        then have "\<not> victim t ((?c + (k - 1)) mod MaxBlock s)" using r that t by (auto simp: t_def)
        then show ?thesis by (simp add: shift t_def)
      qed (use False in simp)
      moreover have "blk s d \<and> victim s d" if found using that r by (simp add: t_def)
      ultimately show "\<exists>f c. u = scanned f c s \<and> - 1 \<le> c \<and> (if found then blk s c \<and> victim s c
        else \<forall>k. 1 \<le> k \<and> k \<le> int (Suc n) \<longrightarrow>
          \<not> victim s ((CurrentScanningBlockID s + k) mod MaxBlock s))"
        using u by (intro exI [of _ "f + g"] exI [of _ d]) (auto simp: t_def)
    qed
  qed
qed

text \<open>A full round visits every block.\<close>

lemma wp_scan_all:
  assumes "core s" "0 < MaxBlock s" "1 \<le> InvalidPage2ValidPageDivider s"
    and "- 1 \<le> CurrentScanningBlockID s"
  shows "wp (scan_victim (nat (MaxBlock s))) (\<lambda>found t. \<exists>f c. t = scanned f c s \<and> - 1 \<le> c \<and>
    (if found then blk s c \<and> victim s c else \<forall>b. blk s b \<longrightarrow> \<not> victim s b)) s"
proof (rule wp_mono [OF wp_scan_victim [OF assms, of "nat (MaxBlock s)"]], elim exE conjE)
  fix found t f c
  assume t: "t = scanned f c s" "- 1 \<le> c"
    and r: "if found then blk s c \<and> victim s c else \<forall>k. 1 \<le> k \<and> k \<le> int (nat (MaxBlock s)) \<longrightarrow>
      \<not> victim s ((CurrentScanningBlockID s + k) mod MaxBlock s)"
  have "\<not> victim s b" if "\<not> found" "blk s b" for b
  proof -
    let ?k = "(b - CurrentScanningBlockID s - 1) mod MaxBlock s + 1"
    have "(CurrentScanningBlockID s + ?k) mod MaxBlock s =
        (CurrentScanningBlockID s + 1 + (b - CurrentScanningBlockID s - 1) mod MaxBlock s) mod MaxBlock s"
      by (simp only: ac_simps)
    also have "\<dots> = (CurrentScanningBlockID s + 1 + (b - CurrentScanningBlockID s - 1)) mod MaxBlock s"
      by (rule mod_add_right_eq)
    also have "\<dots> = b" using that(2) by (simp add: blk_def)
    finally have e: "(CurrentScanningBlockID s + ?k) mod MaxBlock s = b" .
    have "1 \<le> ?k \<and> ?k \<le> int (nat (MaxBlock s))"
      using assms(2) pos_mod_bound [of "MaxBlock s" "b - CurrentScanningBlockID s - 1"]
        pos_mod_sign [of "MaxBlock s" "b - CurrentScanningBlockID s - 1"] by linarith
    with r that(1) have "\<not> victim s ((CurrentScanningBlockID s + ?k) mod MaxBlock s)" by metis
    then show ?thesis unfolding e .
  qed
  then show "\<exists>f c. t = scanned f c s \<and> - 1 \<le> c \<and>
      (if found then blk s c \<and> victim s c else \<forall>b. blk s b \<longrightarrow> \<not> victim s b)"
    using t r by (intro exI [of _ f] exI [of _ c]) auto
qed

section \<open>What the scan finds\<close>

lemma victim_alloc:
  assumes "settled xs s" "1 \<le> InvalidPage2ValidPageDivider s" "blk s b" "victim s b"
  shows "alloc s xs b" "b \<noteq> CurrentFreeBlockID s" "1 \<le> invalid_cnt s b"
proof -
  have s: "ftl_sized s" "cnt_ok s" "lay {} xs s" using assms(1) by (auto simp: settled_def core_def)
  have "0 \<le> valid_cnt s b" by (simp add: valid_cnt_def)
  then have "0 \<le> valid_cnt s b div InvalidPage2ValidPageDivider s"
    using assms(2) by (simp add: pos_imp_zdiv_nonneg_iff)
  then show i: "1 \<le> invalid_cnt s b" using assms(3,4) s(2) by (simp add: victim_def cnt_ok_def)
  then obtain p where p: "inb (at (FlashMemory s) b) p" "at (at (FlashMemory s) b) p = - 2"
    using cnt_pos_iff [of "\<lambda>x. x = - 2" "at (FlashMemory s) b"] by (auto simp: invalid_cnt_def)
  then have pp: "pg s p" "page s b p = - 2"
    using ftl_sized_inb_row [OF s(1) assms(3)] by (auto simp: at2_def)
  then have "\<not> bad s b" using lay_bad_page [OF s(3) assms(3)] by force
  moreover have "b \<notin> set xs" using lay_erased [OF s(3), of b p] pp by auto
  ultimately show "alloc s xs b" using assms(3) by (simp add: alloc_def)
  show "b \<noteq> CurrentFreeBlockID s" using assms(4) by (simp add: victim_def)
qed

lemma alloc_victim:
  assumes "settled xs s" "MaxPage s \<le> InvalidPage2ValidPageDivider s"
    and "alloc s xs b" "b \<noteq> CurrentFreeBlockID s" "1 \<le> invalid_cnt s b"
  shows "victim s b"
proof -
  have s: "ftl_sized s" "cnt_ok s" "lay {} xs s" using assms(1) by (auto simp: settled_def core_def)
  have b: "blk s b" using assms(3) by (simp add: alloc_def)
  have "valid_cnt s b < InvalidPage2ValidPageDivider s" "0 \<le> valid_cnt s b"
    using valid_plus_invalid [OF s(1) b] assms(2,5) by (auto simp: valid_cnt_def)
  then have "valid_cnt s b div InvalidPage2ValidPageDivider s = 0" by simp
  then show ?thesis
    using s(2) b assms(4,5) lay_alloc [OF s(3) assms(3)] by (simp add: victim_def cnt_ok_def)
qed

section \<open>The collector\<close>

text \<open>What a run of the collector leaves alone.\<close>

definition kept :: "'a ftl_scheme \<Rightarrow> 'a ftl_scheme \<Rightarrow> bool" where
  "kept s t \<longleftrightarrow>
     MaxBlock t = MaxBlock s \<and> MaxPage t = MaxPage s \<and> MaxCluster t = MaxCluster s \<and>
     LeastFreeBlocksInFBL t = LeastFreeBlocksInFBL s \<and> (\<forall>b. blk s b \<longrightarrow> bad t b = bad s b)"

lemma kept_refl [simp]: "kept s s"
  by (simp add: kept_def)

lemma kept_trans [trans]: "kept s t \<Longrightarrow> kept t u \<Longrightarrow> kept s u"
  by (auto simp: kept_def blk_def)

lemma same_kept: "same s t \<Longrightarrow> kept s t"
  by (simp add: kept_def same_def)

lemma kept_scanned [simp]: "kept s (scanned f c t) = kept s t"
  by (simp add: kept_def scanned_def LeastFreeBlocksInFBL_def bad_def)

lemma kept_capacity:
  assumes "kept s t" "ftl_sized s" "ftl_sized t"
  shows "capacity t = capacity s"
proof -
  have "{b. blk t b \<and> bad t b} = {b. blk s b \<and> bad s b}"
    using assms(1) by (auto simp: kept_def blk_def)
  then have "nbad t = nbad s" using nbad_card assms(2,3) by metis
  then show ?thesis using assms(1) by (simp add: kept_def capacity_def)
qed

text \<open>The number of invalid pages.\<close>

definition garbage :: "'a ftl_scheme \<Rightarrow> int" where
  "garbage s = (\<Sum>b | blk s b. invalid_cnt s b)"

lemma garbage_nonneg: "0 \<le> garbage s"
  by (simp add: garbage_def sum_nonneg invalid_cnt_def)

lemma garbage_scanned [simp]: "garbage (scanned f c s) = garbage s"
  by (simp add: garbage_def)

lemma garbage_le:
  assumes "ftl_sized s"
  shows "garbage s \<le> MaxBlock s * MaxPage s"
proof -
  have "invalid_cnt s b \<le> MaxPage s" if "blk s b" for b
    using valid_plus_invalid [OF assms that] cnt_nonneg [of "\<lambda>x. 0 \<le> x" "at (FlashMemory s) b"]
    unfolding valid_cnt_def by linarith
  then have "garbage s \<le> int (card {b. blk s b}) * MaxPage s"
    unfolding garbage_def by (intro sum_bounded_above) auto
  moreover have "0 \<le> MaxBlock s" using assms by (auto simp: ftl_sized_def)
  ultimately show ?thesis by (simp add: card_blk)
qed

lemma garbage_erased:
  assumes "outside v s t" "blk s v" "invalid_cnt t v = 0"
  shows "garbage t = garbage s - invalid_cnt s v"
proof -
  have b: "blk t = blk s" using assms(1) by (auto simp: outside_def intro: same_blk)
  have "garbage t = invalid_cnt t v + (\<Sum>b \<in> {b. blk s b} - {v}. invalid_cnt t b)"
    using assms(2) by (simp add: garbage_def b sum.remove)
  also have "(\<Sum>b \<in> {b. blk s b} - {v}. invalid_cnt t b) = (\<Sum>b \<in> {b. blk s b} - {v}. invalid_cnt s b)"
    using assms(1) by (intro sum.cong) (auto simp: outside_def)
  finally show ?thesis using assms(2,3) by (simp add: garbage_def sum.remove)
qed

text \<open>
  The invariant of the collector's loop: \<open>s\<close> is the state in which it was called, and the current
  block is missing until the first victim was erased.
\<close>

definition collecting :: "'a ftl_scheme \<Rightarrow> int list \<Rightarrow> 'a ftl_scheme \<Rightarrow> bool" where
  "collecting s xs t \<longleftrightarrow> settled xs t \<and> kept s t \<and> balanced s t \<and> mapped t = mapped s \<and>
     1 \<le> InvalidPage2ValidPageDivider t \<and> - 1 \<le> CurrentScanningBlockID t \<and>
     (CurrentFreePageID t < MaxPage t \<or>
      CurrentFreeBlockID t = - 1 \<and> int (length xs) = LeastFreeBlocksInFBL t)"

definition gc_measure :: "'a ftl_scheme \<Rightarrow> nat" where
  "gc_measure s = nat (garbage s) + nat (MaxPage s - InvalidPage2ValidPageDivider s)"

lemma wp_erase_collecting:
  assumes "collecting s xs t" "int (length xs) = LeastFreeBlocksInFBL t" "blk t v" "victim t v"
  shows "wp (FTLEraseOneBlock v) (\<lambda>_ u. (\<exists>ys. collecting s ys u) \<and> gc_measure u < gc_measure t) t"
proof -
  have st: "settled xs t" "1 \<le> InvalidPage2ValidPageDivider t"
    using assms(1) by (auto simp: collecting_def)
  note v = victim_alloc [OF st assms(3,4)]
  show ?thesis
  proof (rule wp_mono [OF wp_FTLEraseOneBlock [OF st(1) assms(2) v]], elim exE conjE)
    fix u ys
    assume u: "settled ys u" "CurrentFreePageID u < MaxPage u" "outside v t u" "invalid_cnt u v = 0"
    have sm: "same t u" using u(3) by (simp add: outside_def)
    then have "collecting s ys u"
      using assms(1) u(1-3) kept_trans [of s t u] same_kept [OF sm] balanced_trans [of s t u] outside_def [of v t u]
      by (simp add: collecting_def same_def)
    moreover have "gc_measure u < gc_measure t"
      using garbage_erased [OF u(3) assms(3) u(4)] v(3) garbage_nonneg [of u] sm
      by (simp add: gc_measure_def same_def)
    ultimately show "(\<exists>ys. collecting s ys u) \<and> gc_measure u < gc_measure t" by blast
  qed
qed

lemma divider_sel [simp]:
  "core (s\<lparr>InvalidPage2ValidPageDivider := d\<rparr>) = core s"
  "lay D xs (s\<lparr>InvalidPage2ValidPageDivider := d\<rparr>) = lay D xs s"
  "settled xs (s\<lparr>InvalidPage2ValidPageDivider := d\<rparr>) = settled xs s"
  "kept r (s\<lparr>InvalidPage2ValidPageDivider := d\<rparr>) = kept r s"
  "balanced r (s\<lparr>InvalidPage2ValidPageDivider := d\<rparr>) = balanced r s"
  "mapped (s\<lparr>InvalidPage2ValidPageDivider := d\<rparr>) = mapped s"
  "LeastFreeBlocksInFBL (s\<lparr>InvalidPage2ValidPageDivider := d\<rparr>) = LeastFreeBlocksInFBL s"
  "blk (s\<lparr>InvalidPage2ValidPageDivider := d\<rparr>) = blk s"
  "invalid_cnt (s\<lparr>InvalidPage2ValidPageDivider := d\<rparr>) = invalid_cnt s"
  by (simp_all add: inv_defs settled_def kept_def LeastFreeBlocksInFBL_def fun_eq_iff ledger_defs)

lemma wp_double_divider:
  assumes "collecting s xs t" "InvalidPage2ValidPageDivider t < MaxPage t" "2 * MaxPage t \<le> INT_MAX"
  shows "wp double_divider (\<lambda>_ u. collecting s xs u \<and> gc_measure u < gc_measure t) t"
proof -
  let ?d = "InvalidPage2ValidPageDivider t" and ?u = "t\<lparr>InvalidPage2ValidPageDivider := InvalidPage2ValidPageDivider t * 2\<rparr>"
  have d: "1 \<le> ?d" using assms(1) by (simp add: collecting_def)
  have "collecting s xs ?u"
    using assms(1) d by (simp add: collecting_def)
  moreover have "garbage ?u = garbage t" by (simp add: garbage_def)
  ultimately show ?thesis
    using d assms(2,3) by (simp add: double_divider_def wp int32_def gc_measure_def INT_MAX_def)
qed

lemma wp_collect_once:
  assumes "collecting s xs t" "int (length xs) = LeastFreeBlocksInFBL t" "live s \<le> capacity s"
    and "ftl_sized s" "2 * MaxPage s \<le> INT_MAX"
  shows "wp collect_once (\<lambda>_ u. (\<exists>ys. collecting s ys u) \<and> gc_measure u < gc_measure t) t"
    (is "wp _ ?post t")
proof -
  have t: "settled xs t" "core t" "kept s t" "mapped t = mapped s" "1 \<le> InvalidPage2ValidPageDivider t"
      "- 1 \<le> CurrentScanningBlockID t"
    using assms(1) by (auto simp: collecting_def settled_def)
  then have sz: "ftl_sized t" and l: "lay {} xs t" by (auto simp: core_def settled_def)
  have mb: "0 < MaxBlock t" using lay_last(2) [OF l] by (simp add: blk_def)
  have cap: "live t \<le> capacity t"
    using assms(3) live_card [OF assms(4)] live_card [OF sz] t(4) kept_capacity [OF t(3) assms(4) sz] by simp
  have small: "InvalidPage2ValidPageDivider t < MaxPage t" if no: "\<forall>b. blk t b \<longrightarrow> \<not> victim t b"
  proof (rule ccontr)
    assume "\<not> ?thesis"
    moreover have "\<not> CurrentFreePageID t < MaxPage t \<longrightarrow> CurrentFreeBlockID t = - 1"
      using assms(1) by (auto simp: collecting_def)
    ultimately show False
      using invalid_page_exists [OF t(1) assms(2) cap] alloc_victim [OF t(1)] no
      by (auto simp: alloc_def)
  qed
  have "wp (scan_victim (nat (MaxBlock t))) (\<lambda>found. wp (if \<not> found then double_divider
      else bindM (getM CurrentScanningBlockID) FTLEraseOneBlock) ?post) t"
  proof (rule wp_mono [OF wp_scan_all [OF t(2) mb t(5,6)]], elim exE conjE)
    fix found u f c
    assume u: "u = scanned f c t" "- 1 \<le> c"
      and r: "if found then blk t c \<and> victim t c else \<forall>b. blk t b \<longrightarrow> \<not> victim t b"
    have cu: "collecting s xs u" and gm: "gc_measure u = gc_measure t"
      using assms(1) u by (auto simp: collecting_def gc_measure_def)
    show "wp (if \<not> found then double_divider
      else bindM (getM CurrentScanningBlockID) FTLEraseOneBlock) ?post u"
    proof (cases found)
      case True
      then show ?thesis
        using wp_erase_collecting [OF cu, of c] assms(2) r u(1) gm by (simp add: wp)
    next
      case False
      have "wp double_divider ?post u"
        using False small r u(1) t(3) assms(5)
        by (intro wp_mono [OF wp_double_divider [OF cu]]) (auto simp: gm [unfolded u(1)] kept_def)
      then show ?thesis using False by simp
    qed
  qed
  then show ?thesis by (simp add: collect_once_def wp)
qed

lemma wp_FTLGarbageCollection:
  assumes "collecting s xs s" "live s \<le> capacity s" "2 * MaxPage s \<le> INT_MAX"
    and "MaxBlock s * MaxPage s + MaxPage s < int fuel"
  shows "wp (FTLGarbageCollection fuel)
    (\<lambda>_ t. \<exists>ys. collecting s ys t \<and> LeastFreeBlocksInFBL t < int (length ys)) s"
  unfolding FTLGarbageCollection_def
proof (rule wp_whileM [where I = "\<lambda>t. \<exists>ys. collecting s ys t" and \<mu> = gc_measure])
  show "\<exists>ys. collecting s ys s" using assms(1) by blast
next
  have s: "ftl_sized s" "1 \<le> InvalidPage2ValidPageDivider s"
    using assms(1) by (auto simp: collecting_def settled_def core_def)
  then have "nat (garbage s) + nat (MaxPage s - InvalidPage2ValidPageDivider s)
      \<le> nat (MaxBlock s * MaxPage s) + nat (MaxPage s)"
    using garbage_le [OF s(1)] by (intro add_mono nat_mono) auto
  moreover have "0 \<le> MaxBlock s" "0 \<le> MaxPage s" using s(1) by (auto simp: ftl_sized_def sized_def)
  moreover from this have "0 \<le> MaxBlock s * MaxPage s" by simp
  ultimately show "gc_measure s < fuel" using assms(4) unfolding gc_measure_def by linarith
next
  fix t
  assume "\<exists>ys. collecting s ys t"
  then obtain ys where ys: "collecting s ys t" by blast
  have f: "fbl t ys" and le: "LeastFreeBlocksInFBL t \<le> int (length ys)"
    using ys lay_fbl by (auto simp: collecting_def settled_def)
  have "FreeBlockListHead t \<in> set ys" using f by (simp add: fbl_def)
  then have hd: "FreeBlockListHead t \<noteq> - 1" using fbl_block [OF f] by force
  have len: "BlocksInFreeBlockList t = int (length ys)" using f by (simp add: fbl_def)
  have s: "ftl_sized s" using assms(1) by (auto simp: collecting_def settled_def core_def)
  have "wp collect_once (\<lambda>_ u. (\<exists>ys. collecting s ys u) \<and> gc_measure u < gc_measure t) t"
    if "\<not> LeastFreeBlocksInFBL t < int (length ys)"
    using wp_collect_once [OF ys _ assms(2) s assms(3)] that le by simp
  then show "wp (bindM CheckFreeBlock (\<lambda>b. returnM (b = - 1)))
      (\<lambda>b t'. if b then wp collect_once (\<lambda>_ u. (\<exists>ys. collecting s ys u) \<and> gc_measure u < gc_measure t) t'
        else \<exists>ys. collecting s ys t' \<and> LeastFreeBlocksInFBL t' < int (length ys)) t"
    using ys hd len by (auto simp: CheckFreeBlock_def wp)
qed

end
