(* ===== verification/FTL_Correct.thy ===== *)
theory FTL_Correct
  imports FTL_GC
begin

text \<open>
  The contract of the page-level translation layer.  \<open>ftl_inv\<close> is its invariant between
  requests; a write of a cluster returns whenever the live data stay within the capacity, keeps
  the invariant, adds the cluster to the mapped ones and loses none.  The locale
  \<open>translation_layer\<close> states what a client may rely on and derives the behaviour of sequences of
  requests; the layer is an instance of it.
\<close>

section \<open>The invariant between requests\<close>

definition ftl_inv :: "'a ftl_scheme \<Rightarrow> bool" where
  "ftl_inv s \<longleftrightarrow> core s \<and> (\<exists>xs. lay {} xs s \<and> LeastFreeBlocksInFBL s \<le> int (length xs)) \<and>
     1 \<le> LeastFreeBlocksInFBL s \<and> CurrentFreePageID s < MaxPage s \<and>
     1 \<le> InvalidPage2ValidPageDivider s \<and> - 1 \<le> CurrentScanningBlockID s \<and>
     2 * MaxPage s \<le> INT_MAX"

text \<open>Before a page is written the current block may be full.\<close>

definition ftl_pre :: "'a ftl_scheme \<Rightarrow> bool" where
  "ftl_pre s \<longleftrightarrow> core s \<and> (\<exists>xs. lay {} xs s \<and> LeastFreeBlocksInFBL s \<le> int (length xs)) \<and>
     1 \<le> LeastFreeBlocksInFBL s \<and>
     1 \<le> InvalidPage2ValidPageDivider s \<and> - 1 \<le> CurrentScanningBlockID s \<and>
     2 * MaxPage s \<le> INT_MAX"

lemma ftl_inv_pre: "ftl_inv s \<longleftrightarrow> ftl_pre s \<and> CurrentFreePageID s < MaxPage s"
  by (auto simp: ftl_inv_def ftl_pre_def)

definition enough_fuel :: "nat \<Rightarrow> 'a flash_scheme \<Rightarrow> bool" where
  "enough_fuel fuel s \<longleftrightarrow> MaxBlock s * MaxPage s + MaxPage s + 2 \<le> int fuel"

section \<open>Getting a current block\<close>

lemma ftl_inv_refilled:
  assumes "ftl_pre s" "lay {} (b # y # ys) s" "LeastFreeBlocksInFBL s < int (length (b # y # ys))"
    and "MaxPage s \<le> CurrentFreePageID s"
  shows "ftl_inv (refilled b y s)" "mapped (refilled b y s) = mapped s" "kept s (refilled b y s)"
    "balanced s (refilled b y s)"
proof -
  have c: "core s" using assms(1) by (simp add: ftl_pre_def)
  have r: "core (refilled b y s)" "lay {} (y # ys) (refilled b y s)" "same s (refilled b y s)"
    using core_refilled [OF c assms(2)] lay_refilled [OF c assms(2) _ assms(4)] same_refilled by auto
  have "0 < MaxPage s" using c by (simp add: core_def ftl_sized_def sized_def)
  then show "ftl_inv (refilled b y s)"
    using assms(1,3) r(1,3) unfolding ftl_inv_def ftl_pre_def
    by (intro conjI exI [of _ "y # ys"] r(2)) (auto simp: same_def)
  show "mapped (refilled b y s) = mapped s" "kept s (refilled b y s)"
    using r(3) by (auto intro: same_kept)
  show "balanced s (refilled b y s)" using lay_cur_le [OF assms(2)] assms(4) by (intro balanced_refilled) simp
qed

lemma settled_no_current:
  assumes "ftl_pre s" "lay {} xs s" "LeastFreeBlocksInFBL s \<le> int (length xs)"
    and "MaxPage s \<le> CurrentFreePageID s"
  shows "settled xs (s\<lparr>CurrentFreeBlockID := - 1\<rparr>)"
proof -
  have "core (s\<lparr>CurrentFreeBlockID := - 1\<rparr>)" using assms(1) by (simp add: ftl_pre_def inv_defs)
  moreover have "lay {} xs (s\<lparr>CurrentFreeBlockID := - 1\<rparr>)"
  proof -
    have e: "blk (s\<lparr>CurrentFreeBlockID := - 1\<rparr>) = blk s" "pg (s\<lparr>CurrentFreeBlockID := - 1\<rparr>) = pg s"
      "bad (s\<lparr>CurrentFreeBlockID := - 1\<rparr>) = bad s" "alloc (s\<lparr>CurrentFreeBlockID := - 1\<rparr>) = alloc s"
      "fbl (s\<lparr>CurrentFreeBlockID := - 1\<rparr>) = fbl s"
      by (simp_all add: alloc_def blk_def pg_def bad_def fbl_def sized_def fun_eq_iff)
    have "page s b p \<noteq> - 1 \<and> b \<noteq> - 1" if "alloc s xs b" "pg s p" for b p
      using lay_free_page [OF assms(2) that] assms(4) that by (auto simp: pg_def alloc_def blk_def)
    then show ?thesis
      using assms(4) lay_fbl [OF assms(2)] lay_erased [OF assms(2)] lay_alloc [OF assms(2)]
        lay_bad_page [OF assms(2)] lay_good_page [OF assms(2)] lay_bad_out [OF assms(2)]
        lay_cur_nonneg [OF assms(2)] lay_cur_le [OF assms(2)]
      unfolding lay_def e by (intro conjI allI impI) auto
  qed
  ultimately show ?thesis
    using assms(1,3,4) by (simp add: settled_def ftl_pre_def LeastFreeBlocksInFBL_def)
qed

lemma wp_ensure_current:
  assumes "ftl_pre s" "live s \<le> capacity s" "enough_fuel fuel s"
  shows "wp (ensure_current fuel) (\<lambda>_ t. ftl_inv t \<and> mapped t = mapped s \<and> kept s t \<and> balanced s t) s"
    (is "wp _ ?post s")
  unfolding ensure_current_def
proof (rule wp_whileM [where I = "\<lambda>t. t = s \<or> ?post () t"
      and \<mu> = "\<lambda>t. if CurrentFreePageID t < MaxPage t then 0 else 1"])
  have sz: "ftl_sized s" using assms(1) by (simp add: ftl_pre_def core_def)
  then have "0 \<le> MaxBlock s" "0 < MaxPage s" by (auto simp: ftl_sized_def sized_def)
  then have "0 \<le> MaxBlock s * MaxPage s" by simp
  then show "(if CurrentFreePageID s < MaxPage s then 0 else 1) < fuel"
    using assms(3) \<open>0 < MaxPage s\<close> by (simp add: enough_fuel_def)
next
  fix t
  assume t: "t = s \<or> ?post () t"
  let ?body = "bindM (GetFreeBlock False) (\<lambda>b. thenM (modM (CurrentFreeBlockID_update (\<lambda>_. b)))
    (if b = - 1 then FTLGarbageCollection fuel else modM (CurrentFreePageID_update (\<lambda>_. 0))))"
  have body: "wp ?body (\<lambda>_ u. ?post () u) s" if full: "MaxPage s \<le> CurrentFreePageID s"
  proof -
    obtain xs where xs: "lay {} xs s" "LeastFreeBlocksInFBL s \<le> int (length xs)"
      using assms(1) by (auto simp: ftl_pre_def)
    have f: "fbl s xs" using lay_fbl [OF xs(1)] .
    then have len: "BlocksInFreeBlockList s = int (length xs)" by (simp add: fbl_def)
    show ?thesis
    proof (cases "LeastFreeBlocksInFBL s < int (length xs)")
      case True
      have "2 \<le> length xs" using True assms(1) by (auto simp: ftl_pre_def)
      then obtain b y ys where bys: "xs = b # y # ys" by (cases xs; cases "tl xs") auto
      have "0 \<le> b" using f bys by (auto simp: fbl_def)
      then show ?thesis
        using ftl_inv_refilled [OF assms(1), of b y ys] xs(1) bys True full f len
        by (simp add: wp wp_GetFreeBlock refilled_def)
    next
      case False
      let ?u = "s\<lparr>CurrentFreeBlockID := - 1\<rparr>"
      have m: "mapped ?u = mapped s" "kept s ?u" "live ?u = live s" "capacity ?u = capacity s" "balanced s ?u"
        by (simp_all add: mapped_def clu_def kept_def LeastFreeBlocksInFBL_def bad_def live_def
            capacity_def nbad_def ledger_defs)
      have "collecting ?u xs ?u"
        using settled_no_current [OF assms(1) xs full] assms(1) xs(2) False
        by (simp add: collecting_def ftl_pre_def LeastFreeBlocksInFBL_def)
      then have "wp (FTLGarbageCollection fuel)
          (\<lambda>_ t. \<exists>ys. collecting ?u ys t \<and> LeastFreeBlocksInFBL t < int (length ys)) ?u"
        using assms m by (intro wp_FTLGarbageCollection) (auto simp: enough_fuel_def ftl_pre_def)
      then have "wp (FTLGarbageCollection fuel) ?post ?u"
      proof (rule wp_mono, elim exE conjE)
        fix u ys
        assume u: "collecting ?u ys u" "LeastFreeBlocksInFBL u < int (length ys)"
        have k: "kept s u" using u(1) kept_trans [OF m(2), of u] by (simp add: collecting_def)
        then have "MaxPage u = MaxPage s" by (simp add: kept_def)
        moreover have "balanced s u" using u(1) balanced_trans [OF m(5)] by (simp add: collecting_def)
        ultimately show "?post () u"
          using u k m(1) assms(1) by (auto simp: collecting_def settled_def ftl_inv_def ftl_pre_def)
      qed
      moreover have "GetFreeBlock False s = Inr (- 1, s)" using False len by (simp add: GetFreeBlock_refuses)
      ultimately show ?thesis by (simp add: wp) (simp add: wp_def)
    qed
  qed
  have zero: "wp ?body (\<lambda>_ u. (u = s \<or> ?post () u) \<and>
      (if CurrentFreePageID u < MaxPage u then 0 else 1) < (if CurrentFreePageID s < MaxPage s then 0 else (1::nat))) s"
    if "MaxPage s \<le> CurrentFreePageID s"
    by (rule wp_mono [OF body [OF that]]) (use that in \<open>simp add: ftl_inv_def\<close>)
  have post: "?post () t" if "CurrentFreePageID t < MaxPage t"
    using that t assms(1) by (auto simp: ftl_inv_pre)
  show "wp (getM (\<lambda>s. MaxPage s \<le> CurrentFreePageID s)) (\<lambda>b t'. if b then wp ?body
      (\<lambda>_ u. (u = s \<or> ?post () u) \<and> (if CurrentFreePageID u < MaxPage u then 0 else 1) <
         (if CurrentFreePageID t < MaxPage t then 0 else (1::nat))) t' else ?post () t') t"
    unfolding wp_getM
  proof (cases "MaxPage t \<le> CurrentFreePageID t")
    case True
    then have "t = s" using t by (auto simp: ftl_inv_def)
    then show "if MaxPage t \<le> CurrentFreePageID t then wp ?body
      (\<lambda>_ u. (u = s \<or> ?post () u) \<and> (if CurrentFreePageID u < MaxPage u then 0 else 1) <
         (if CurrentFreePageID t < MaxPage t then 0 else (1::nat))) t else ?post () t"
      using zero True by simp
  next
    case False
    then show "if MaxPage t \<le> CurrentFreePageID t then wp ?body
      (\<lambda>_ u. (u = s \<or> ?post () u) \<and> (if CurrentFreePageID u < MaxPage u then 0 else 1) <
         (if CurrentFreePageID t < MaxPage t then 0 else (1::nat))) t else ?post () t"
      using post by simp
  qed
qed simp

section \<open>Writing a cluster\<close>

lemma kept_written:
  assumes "core s" "ready D xs s" "clu s c"
  shows "kept s (written c s)"
  using bad_written [OF assms]
  by (simp add: kept_def)
     (simp add: written_def placed_def cleared_def invalidated_def LeastFreeBlocksInFBL_def)

lemma written_pre:
  assumes "ftl_inv s" "clu s c"
  shows "ftl_pre (written c s)" "mapped (written c s) = insert c (mapped s)" "kept s (written c s)"
    "\<And>Q. wp (FTLWriteOneCluster c) Q s = Q () (written c s)"
proof -
  obtain xs where xs: "lay {} xs s" "LeastFreeBlocksInFBL s \<le> int (length xs)" and c: "core s"
    using assms(1) by (auto simp: ftl_inv_def)
  have r: "ready {} xs s" using xs(1) c assms(1) by (simp add: ready_def core_def ftl_inv_def)
  note ok = written_ok [OF c r assms(2)]
  show k: "kept s (written c s)" using kept_written [OF c r assms(2)] .
  have "InvalidPage2ValidPageDivider (written c s) = InvalidPage2ValidPageDivider s"
    "CurrentScanningBlockID (written c s) = CurrentScanningBlockID s"
    by (simp_all add: written_def placed_def cleared_def invalidated_def)
  then show "ftl_pre (written c s)"
    using assms(1) xs(2) k unfolding ftl_pre_def ftl_inv_def kept_def
    by (intro conjI exI [of _ xs] ok(1,2)) auto
  show "mapped (written c s) = insert c (mapped s)" by (rule ok(3))
  show "wp (FTLWriteOneCluster c) Q s = Q () (written c s)" for Q
    by (rule wp_FTLWriteOneCluster [OF c r assms(2)])
qed

lemma written_balanced: "balanced s u \<Longrightarrow> balanced (written c s) (written c u)"
  by (simp add: balanced_def written_ledgers)

lemma ftl_inv_sized: "ftl_inv s \<Longrightarrow> ftl_sized s"
  by (simp add: ftl_inv_def core_def)

lemma enough_fuel_kept: "kept s t \<Longrightarrow> enough_fuel fuel t = enough_fuel fuel s"
  by (simp add: enough_fuel_def kept_def)

lemma wp_SecureFTLWriteOneCluster:
  assumes "ftl_inv s" "clu s c" "int (card (insert c (mapped s))) \<le> capacity s" "enough_fuel fuel s"
  shows "wp (SecureFTLWriteOneCluster fuel c)
    (\<lambda>_ t. ftl_inv t \<and> mapped t = insert c (mapped s) \<and> kept s t \<and> balanced (written c s) t) s" (is "wp _ ?post s")
proof -
  have sz: "ftl_sized s" using ftl_inv_sized [OF assms(1)] .
  have "card (mapped s) \<le> card (insert c (mapped s))"
    using finite_mapped [of s] by (intro card_mono) auto
  then have full: "live s \<le> capacity s" using assms(3) by (simp add: live_card [OF sz])
  have rest: "wp (blockM [FTLWriteOneCluster c, ensure_current fuel]) ?post u"
    if u: "ftl_inv u" "mapped u = mapped s" "kept s u" "balanced s u" for u
  proof -
    have cu: "clu u c" using assms(2) u(3) by (simp add: clu_def kept_def)
    note w = written_pre [OF u(1) cu]
    have szw: "ftl_sized (written c u)" using w(1) by (simp add: ftl_pre_def core_def)
    have k: "kept s (written c u)" using kept_trans [OF u(3) w(3)] .
    have "live (written c u) \<le> capacity (written c u)"
      using assms(3) u(2) w(2) kept_capacity [OF k sz szw] by (simp add: live_card [OF szw])
    then have "wp (ensure_current fuel) (\<lambda>_ t. ftl_inv t \<and> mapped t = mapped (written c u) \<and>
        kept (written c u) t \<and> balanced (written c u) t) (written c u)"
      using w(1) assms(4) k enough_fuel_kept by (intro wp_ensure_current) auto
    then have "wp (ensure_current fuel) ?post (written c u)"
      by (rule wp_mono) (use w(2) u(2) kept_trans [OF k] balanced_trans [OF written_balanced [OF u(4)]] in auto)
    then show ?thesis by (simp add: wp w(4))
  qed
  have "wp (ensure_current fuel) (\<lambda>_ t. ftl_inv t \<and> mapped t = mapped s \<and> kept s t \<and> balanced s t) s"
    using assms(1,4) full by (intro wp_ensure_current) (auto simp: ftl_inv_pre)
  then show ?thesis
    unfolding SecureFTLWriteOneCluster_def wp_blockM_Cons [of "ensure_current fuel"]
    by (rule wp_mono) (use rest in blast)
qed

section \<open>The contract of a translation layer\<close>

text \<open>
  \<open>stored s\<close> are the clusters that have been written, \<open>addr s\<close> the ones that may be, and
  \<open>fits s X\<close> says that the layer can hold the clusters \<open>X\<close>.
\<close>

locale translation_layer =
  fixes inv :: "'s \<Rightarrow> bool"
    and stored :: "'s \<Rightarrow> int set"
    and addr :: "'s \<Rightarrow> int \<Rightarrow> bool"
    and fits :: "'s \<Rightarrow> int set \<Rightarrow> bool"
    and write_cluster :: "int \<Rightarrow> ('s, unit) prog"
    and read_cluster :: "int \<Rightarrow> ('s, bool) prog"
  assumes write_cluster:
      "inv s \<Longrightarrow> fits s (insert c (stored s)) \<Longrightarrow>
         wp (write_cluster c) (\<lambda>_ t. inv t \<and> stored t = insert c (stored s) \<and> fits t = fits s \<and>
           addr t = addr s) s"
    and read_cluster:
      "inv s \<Longrightarrow> addr s c \<Longrightarrow>
         wp (read_cluster c) (\<lambda>r t. r = (c \<in> stored s) \<and> inv t \<and> stored t = stored s \<and>
           fits t = fits s \<and> addr t = addr s) s"
    and fits_mono: "fits s X \<Longrightarrow> Y \<subseteq> X \<Longrightarrow> fits s Y"
    and fits_addr: "fits s X \<Longrightarrow> c \<in> X \<Longrightarrow> addr s c"
begin

lemma write_range:
  assumes "inv s" "fits s (stored s \<union> {c ..< c + int n})"
  shows "wp (forN n c write_cluster)
    (\<lambda>_ t. inv t \<and> stored t = stored s \<union> {c ..< c + int n} \<and> fits t = fits s \<and> addr t = addr s) s"
proof (rule wp_forN [where I = "\<lambda>k t. inv t \<and> stored t = stored s \<union> {c ..< k} \<and> fits t = fits s \<and>
    addr t = addr s"])
  fix k t
  assume k: "c \<le> k" "k < c + int n"
    and t: "inv t \<and> stored t = stored s \<union> {c ..< k} \<and> fits t = fits s \<and> addr t = addr s"
  have e: "insert k (stored t) = stored s \<union> {c ..< k + 1}" using t k(1) by auto
  moreover have "stored s \<union> {c ..< k + 1} \<subseteq> stored s \<union> {c ..< c + int n}" using k(2) by auto
  ultimately have "fits t (insert k (stored t))" using fits_mono [OF assms(2)] t by metis
  then show "wp (write_cluster k) (\<lambda>_ u. inv u \<and> stored u = stored s \<union> {c ..< k + 1} \<and>
      fits u = fits s \<and> addr u = addr s) t"
    using t e by (intro wp_mono [OF write_cluster]) auto
qed (use assms(1) in auto)

lemma write_list:
  assumes "inv s" "fits s (stored s \<union> set cs)"
  shows "wp (blockM (map write_cluster cs))
    (\<lambda>_ t. inv t \<and> stored t = stored s \<union> set cs \<and> fits t = fits s \<and> addr t = addr s) s"
  using assms
proof (induction cs arbitrary: s)
  case Nil
  then show ?case by (simp add: wp)
next
  case (Cons c cs)
  have f: "fits s (insert c (stored s))" by (rule fits_mono [OF Cons.prems(2)]) auto
  show ?case
    unfolding list.map wp_blockM_Cons
  proof (rule wp_mono [OF write_cluster [OF Cons.prems(1) f]])
    fix x t
    assume t: "inv t \<and> stored t = insert c (stored s) \<and> fits t = fits s \<and> addr t = addr s"
    then have "fits t (stored t \<union> set cs)" using Cons.prems(2) by simp
    then show "wp (blockM (map write_cluster cs)) (\<lambda>_ u. inv u \<and> stored u = stored s \<union> set (c # cs) \<and>
        fits u = fits s \<and> addr u = addr s) t"
      using t by (intro wp_mono [OF Cons.IH]) auto
  qed
qed

lemma read_back:
  assumes "inv s" "fits s (stored s \<union> set cs)" "c \<in> set cs"
  shows "wp (thenM (blockM (map write_cluster cs)) (read_cluster c)) (\<lambda>r t. r \<and> inv t) s"
  unfolding wp_thenM
proof (rule wp_mono [OF write_list [OF assms(1,2)]])
  fix x t
  assume t: "inv t \<and> stored t = stored s \<union> set cs \<and> fits t = fits s \<and> addr t = addr s"
  moreover from this have "addr t c" using fits_addr [OF assms(2), of c] assms(3) by simp
  ultimately show "wp (read_cluster c) (\<lambda>r t. r \<and> inv t) t"
    using assms(3) by (intro wp_mono [OF read_cluster]) auto
qed

end

definition ftl_fits :: "nat \<Rightarrow> 'a ftl_scheme \<Rightarrow> int set \<Rightarrow> bool" where
  "ftl_fits fuel s X \<longleftrightarrow> X \<subseteq> {c. clu s c} \<and> int (card X) \<le> capacity s \<and> enough_fuel fuel s"

lemma finite_clu [simp]: "finite {c. clu s c}"
proof (rule finite_subset)
  show "{c. clu s c} \<subseteq> {0 ..< MaxCluster s}" by (auto simp: clu_def)
qed simp

lemma ftl_fits_kept:
  assumes "kept s t" "ftl_sized s" "ftl_sized t"
  shows "ftl_fits fuel t = ftl_fits fuel s" "clu t = clu s"
  using kept_capacity [OF assms] enough_fuel_kept [OF assms(1)] assms(1)
  by (auto simp: ftl_fits_def clu_def kept_def fun_eq_iff)

lemma FTLReadOneCluster_result:
  assumes "ftl_inv s" "clu s c"
  shows "FTLReadOneCluster c s =
    Inr (c \<in> mapped s, if c \<in> mapped s then AccessStatistics_update
      (TotalReadPageCount_update (\<lambda>x. x + 1) \<circ> TotalReadRequestTime_update (\<lambda>x. x + TIME_READ_PAGE s)) s
      else s)"
  using ftl_sized_inb_table [OF ftl_inv_sized [OF assms(1)], of c] assms(2)
  by (simp add: FTLReadOneCluster_def rd_def bindM_def thenM_def returnM_def getM_def modM_def
      read_time_def stat_def mapped_def)

lemma ftl_inv_stat [simp]: "ftl_inv (AccessStatistics_update f s) = ftl_inv s"
  by (simp add: ftl_inv_def LeastFreeBlocksInFBL_def)

lemma kept_stat [simp]: "kept s (AccessStatistics_update f t) = kept s t"
  by (simp add: kept_def LeastFreeBlocksInFBL_def bad_def)

interpretation ftl: translation_layer ftl_inv mapped clu "ftl_fits fuel"
  "SecureFTLWriteOneCluster fuel" FTLReadOneCluster for fuel
proof unfold_locales
  fix s :: "'a ftl_scheme" and c
  assume s: "ftl_inv s" "ftl_fits fuel s (insert c (mapped s))"
  then have "wp (SecureFTLWriteOneCluster fuel c)
      (\<lambda>_ t. ftl_inv t \<and> mapped t = insert c (mapped s) \<and> kept s t \<and> balanced (written c s) t) s"
    by (intro wp_SecureFTLWriteOneCluster) (auto simp: ftl_fits_def)
  then show "wp (SecureFTLWriteOneCluster fuel c) (\<lambda>_ t. ftl_inv t \<and> mapped t = insert c (mapped s) \<and>
      ftl_fits fuel t = ftl_fits fuel s \<and> clu t = clu s) s"
    by (rule wp_mono) (use s(1) ftl_fits_kept [of s] ftl_inv_sized in blast)
next
  fix s :: "'a ftl_scheme" and c
  assume s: "ftl_inv s" "clu s c"
  show "wp (FTLReadOneCluster c) (\<lambda>r t. r = (c \<in> mapped s) \<and> ftl_inv t \<and> mapped t = mapped s \<and>
      ftl_fits fuel t = ftl_fits fuel s \<and> clu t = clu s) s"
  proof (cases "c \<in> mapped s")
    case True
    define t where "t = AccessStatistics_update
      (TotalReadPageCount_update (\<lambda>x. x + 1) \<circ> TotalReadRequestTime_update (\<lambda>x. x + TIME_READ_PAGE s)) s"
    have t: "ftl_inv t" "mapped t = mapped s" "kept s t" using s(1) by (simp_all add: t_def)
    have "FTLReadOneCluster c s = Inr (True, t)"
      using FTLReadOneCluster_result [OF s] True by (simp add: t_def)
    then show ?thesis
      using t True ftl_fits_kept [OF t(3) ftl_inv_sized [OF s(1)] ftl_inv_sized [OF t(1)]]
      by (auto simp: wp_def)
  next
    case False
    then show ?thesis using FTLReadOneCluster_result [OF s] s(1) by (simp add: wp_def)
  qed
next
  fix s :: "'a ftl_scheme" and X Y
  assume *: "ftl_fits fuel s X" "Y \<subseteq> X"
  then have "finite X" by (auto simp: ftl_fits_def intro: finite_subset [OF _ finite_clu])
  then have "card Y \<le> card X" using *(2) by (rule card_mono)
  with * show "ftl_fits fuel s Y" by (auto simp: ftl_fits_def)
next
  fix s :: "'a ftl_scheme" and X c
  assume "ftl_fits fuel s X" "c \<in> X"
  then show "clu s c" by (auto simp: ftl_fits_def)
qed

end
