(* ===== verification/Flash_Frame.thy ===== *)
theory Flash_Frame
  imports Flash_Memory
begin

text \<open>
  Frame reasoning: \<open>within R m\<close> says that every normal end of the program \<open>m\<close> is related by \<open>R\<close>
  to its start.  With an equality of an observation for \<open>R\<close> it states what \<open>m\<close> leaves
  unchanged, with an implication it states an invariant.  The locale \<open>frame\<close> has the rules for
  the program constructors, for any reflexive and transitive \<open>R\<close>; the locale \<open>list_frame\<close> adds
  the functions of the free block list for a relation that the updates of the list respect.
\<close>

definition within :: "('s \<Rightarrow> 's \<Rightarrow> bool) \<Rightarrow> ('s, 'a) prog \<Rightarrow> bool" where
  "within R m \<longleftrightarrow> (\<forall>s x t. m s = Inr (x, t) \<longrightarrow> R s t)"

lemma withinD: "within R m \<Longrightarrow> m s = Inr (x, t) \<Longrightarrow> R s t"
  by (auto simp: within_def)

lemma wp_within:
  assumes "wp m Q s" "within R m"
  shows "wp m (\<lambda>x t. Q x t \<and> R s t) s"
  using assms by (auto simp: within_def wp_def split: sum.splits)

locale frame =
  fixes R :: "'s \<Rightarrow> 's \<Rightarrow> bool"
  assumes R_refl: "R s s"
    and R_trans: "R s t \<Longrightarrow> R t u \<Longrightarrow> R s u"
begin

lemma in_returnM: "within R (returnM x)"
  by (simp add: within_def returnM_def R_refl)

lemma in_failM: "within R (failM e)"
  by (simp add: within_def failM_def)

lemma in_bindM: "within R m \<Longrightarrow> (\<And>x. within R (k x)) \<Longrightarrow> within R (bindM m k)"
  unfolding within_def bindM_def by (auto split: sum.splits) (blast intro: R_trans)

lemma in_thenM: "within R m \<Longrightarrow> within R k \<Longrightarrow> within R (thenM m k)"
  by (simp add: thenM_def in_bindM)

lemma in_getM: "within R (getM g)"
  by (simp add: within_def getM_def R_refl)

lemma in_modM: "(\<And>s. R s (g s)) \<Longrightarrow> within R (modM g)"
  by (simp add: within_def modM_def)

lemma in_if: "within R m \<Longrightarrow> within R k \<Longrightarrow> within R (if b then m else k)"
  by simp

lemma in_whenM: "within R m \<Longrightarrow> within R (whenM b m)"
  by (simp add: whenM_def in_returnM)

lemma in_blockM_Nil: "within R (blockM [])"
  by (simp add: blockM.simps in_returnM)

lemma in_blockM_Cons: "within R m \<Longrightarrow> within R (blockM ms) \<Longrightarrow> within R (blockM (m # ms))"
  by (simp add: blockM.simps in_thenM)

lemma in_rd: "within R (rd g i)"
  by (simp add: within_def rd_def R_refl)

lemma in_rd2: "within R (rd2 g i j)"
  by (simp add: within_def rd2_def R_refl)

lemma in_wr: "(\<And>g s. R s (u g s)) \<Longrightarrow> within R (wr h u i v)"
  by (simp add: within_def wr_def)

lemma in_wr2: "(\<And>g s. R s (u g s)) \<Longrightarrow> within R (wr2 h u i j v)"
  by (simp add: within_def wr2_def)

lemma in_inc: "(\<And>g s. R s (u g s)) \<Longrightarrow> within R (inc h u i d)"
  by (simp add: inc_def in_bindM in_rd in_wr)

lemma in_divM: "within R (divM a b)"
  by (simp add: divM_def in_failM in_returnM)

lemma in_modulM: "within R (modulM a b)"
  by (simp add: modulM_def in_failM in_returnM)

lemma in_chkM: "within R (chkM a)"
  by (simp add: chkM_def in_failM in_returnM)

lemmas in_rules = in_returnM in_failM in_bindM in_thenM in_getM in_modM in_if in_whenM in_blockM_Nil
  in_blockM_Cons in_rd in_rd2 in_wr in_wr2 in_inc in_divM in_modulM in_chkM

lemma in_forN: "(\<And>i. within R (body i)) \<Longrightarrow> within R (forN n lo body)"
  by (induction n arbitrary: lo) (auto intro!: in_rules)

lemma in_forM: "(\<And>i. within R (body i)) \<Longrightarrow> within R (forM lo hi body)"
  by (simp add: forM_def in_forN)

lemma in_whileM: "within R test \<Longrightarrow> within R body \<Longrightarrow> within R (whileM n test body)"
  by (induction n) (auto intro!: in_rules)

lemmas in_loops = in_forN in_forM in_whileM

end

section \<open>The free block list\<close>

locale list_frame = frame R for R :: "'a flash_scheme \<Rightarrow> 'a flash_scheme \<Rightarrow> bool" +
  assumes up_FreeBlockList: "R s (FreeBlockList_update g s)"
    and up_Head: "R s (FreeBlockListHead_update h s)"
    and up_Tail: "R s (FreeBlockListTail_update h s)"
    and up_Blocks: "R s (BlocksInFreeBlockList_update h s)"
    and up_Array: "R s (BlocksInFreeBlockListArray_update g s)"
    and up_FreePageCnt: "R s (FreePageCnt_update g s)"
    and up_InvalidPageCnt: "R s (InvalidPageCnt_update g s)"
    and up_ValidPageCnt: "R s (ValidPageCnt_update g s)"
    and up_FreeSubPageCnt: "R s (FreeSubPageCnt_update g s)"
    and up_InvalidSubPageCnt: "R s (InvalidSubPageCnt_update g s)"
    and up_ValidSubPageCnt: "R s (ValidSubPageCnt_update g s)"
begin

lemmas list_updates = up_FreeBlockList up_Head up_Tail up_Blocks up_Array up_FreePageCnt
  up_InvalidPageCnt up_ValidPageCnt up_FreeSubPageCnt up_InvalidSubPageCnt up_ValidSubPageCnt

lemma in_stat: "(\<And>s. R s (AccessStatistics_update u s)) \<Longrightarrow> within R (stat u)"
  by (simp add: stat_def in_modM)

lemma in_fetch_head_block: "within R (fetch_head_block over)"
  by (auto simp: fetch_head_block_def intro!: in_rules list_updates)

lemma in_GetFreeBlock: "within R (GetFreeBlock gc)"
  by (auto simp: GetFreeBlock_def intro!: in_rules in_fetch_head_block)

lemma in_PutFreeBlock: "within R (PutFreeBlock b)"
  by (auto simp: PutFreeBlock_def intro!: in_rules list_updates)

lemma in_CheckFreeBlock: "within R CheckFreeBlock"
  by (simp add: CheckFreeBlock_def in_getM)

lemma in_chip_loop: "within R (chip_loop fuel n chip)"
  by (induction fuel arbitrary: n) (auto intro!: in_rules in_fetch_head_block in_PutFreeBlock)

lemma in_GetFreeBlockFromChip: "within R (GetFreeBlockFromChip chip)"
  by (auto simp: GetFreeBlockFromChip_def GetFreeBlockFromChipWithoutChecking_def chip_has_enough_def
      intro!: in_rules in_chip_loop simp del: chip_loop.simps)

lemmas list_rules = in_GetFreeBlock in_PutFreeBlock in_CheckFreeBlock in_GetFreeBlockFromChip

end

end
