(* ===== verification/FTL_Wear.thy ===== *)
theory FTL_Wear
  imports FTL_Correct Flash_Frame
begin

text \<open>
  What the page-level translation layer does to the erase counters and the request statistics,
  whatever the state it runs in.  The frame of the layer is proved once, in the locale
  \<open>ftl_frame\<close>, and instantiated with five relations.
\<close>

section \<open>The frame of the layer\<close>

locale ftl_frame = list_frame R for R :: "'a ftl_scheme \<Rightarrow> 'a ftl_scheme \<Rightarrow> bool" +
  assumes up_FlashMemory: "R s (FlashMemory_update fm s)"
    and up_FTLTable: "R s (FTLTable_update tab s)"
    and up_CurrentBlock: "R s (CurrentFreeBlockID_update h s)"
    and up_CurrentPage: "R s (CurrentFreePageID_update h s)"
    and up_Scanning: "R s (CurrentScanningBlockID_update h s)"
    and up_Divider: "R s (InvalidPage2ValidPageDivider_update h s)"
    and up_LiveCopies: "R s (AccessStatistics_update (TotalLivePageCopyings_update h) s)"
    and up_WriteTime: "R s (AccessStatistics_update (TotalWriteRequestTime_update h) s)"
    and up_ReadTime: "R s (AccessStatistics_update (TotalReadRequestTime_update h) s)"
    and up_WritePages: "R s (AccessStatistics_update (TotalWritePageCount_update h) s)"
    and up_ReadPages: "R s (AccessStatistics_update (TotalReadPageCount_update h) s)"
    and in_count_erase: "within R (count_erase b)"
begin

lemmas ftl_updates = list_updates up_FlashMemory up_FTLTable up_CurrentBlock up_CurrentPage up_Scanning
  up_Divider up_LiveCopies up_WriteTime up_ReadTime up_WritePages up_ReadPages

lemma in_write_time: "within R (write_time f)"
  by (auto simp: write_time_def intro!: in_rules in_stat ftl_updates)

lemma in_read_time: "within R (read_time f)"
  by (auto simp: read_time_def intro!: in_rules in_stat ftl_updates)

lemma in_FTLReadOneCluster: "within R (FTLReadOneCluster c)"
  by (auto simp: FTLReadOneCluster_def intro!: in_rules in_stat in_read_time ftl_updates)

lemma in_FTLWriteOneCluster: "within R (FTLWriteOneCluster c)"
  by (auto simp: FTLWriteOneCluster_def invalidate_page_def
      intro!: in_rules in_stat in_write_time ftl_updates)

lemma in_refill_current: "within R refill_current"
  by (auto simp: refill_current_def intro!: in_rules list_rules ftl_updates)

lemma in_copy_live_page: "within R (copy_live_page b i)"
  by (auto simp: copy_live_page_def
      intro!: in_rules in_stat in_write_time in_refill_current in_FTLWriteOneCluster ftl_updates)

lemma in_FTLEraseOneBlock: "within R (FTLEraseOneBlock b)"
  by (auto simp: FTLEraseOneBlock_def wipe_block_def erase_pages_def
      intro!: in_rules in_loops list_rules in_copy_live_page in_refill_current in_count_erase ftl_updates)

lemma in_scan_victim: "within R (scan_victim n)"
  by (induction n) (auto simp: is_victim_def intro!: in_rules in_write_time ftl_updates)

lemma in_FTLGarbageCollection: "within R (FTLGarbageCollection fuel)"
  by (auto simp: FTLGarbageCollection_def collect_once_def double_divider_def
      intro!: in_rules in_loops list_rules in_scan_victim in_FTLEraseOneBlock ftl_updates)

lemma in_ensure_current: "within R (ensure_current fuel)"
  by (auto simp: ensure_current_def
      intro!: in_rules in_loops list_rules in_FTLGarbageCollection ftl_updates)

lemma in_SecureFTLWriteOneCluster: "within R (SecureFTLWriteOneCluster fuel c)"
  by (auto simp: SecureFTLWriteOneCluster_def
      intro!: in_rules in_ensure_current in_FTLWriteOneCluster)

end

section \<open>Erase counters\<close>

text \<open>The erases counted block by block against the erases counted in total.\<close>

definition erase_gap :: "'a ftl_scheme \<Rightarrow> int" where
  "erase_gap s = sum_list (BlockEraseCnt s) - TotalBlockEraseCount (AccessStatistics s)"

text \<open>\<open>MaxBlockEraseCnt\<close> bounds the counter of every block.\<close>

definition wear_bounded :: "'a ftl_scheme \<Rightarrow> bool" where
  "wear_bounded s \<longleftrightarrow> (\<forall>n \<in> set (BlockEraseCnt s). n \<le> MaxBlockEraseCnt s)"

definition request_counts :: "'a ftl_scheme \<Rightarrow> int \<times> int \<times> int \<times> int" where
  "request_counts s = (let a = AccessStatistics s in
     (TotalWriteRequestCount a, TotalReadRequestCount a, FailedWriteOperation a, FailedReadOperation a))"

definition accessed :: "'a ftl_scheme \<Rightarrow> (int \<times> bool list) \<times> (int \<times> bool list) \<times> bool" where
  "accessed s = ((AccessedLogicalPages s, AccessedLogicalPageMap s),
     (TotalAccessedLogicalPages s, TotalAccessedLogicalPageMap s), initialize_done s)"

lemma sum_list_upd:
  fixes xs :: "int list"
  assumes "inb xs i"
  shows "sum_list (upd xs i v) = sum_list xs + v - at xs i"
proof -
  have "sum_list (ys[k := v]) = sum_list ys + v - ys ! k" if "k < length ys" for ys :: "int list" and k
    using that by (induction ys arbitrary: k) (auto split: nat.split)
  from this [of "nat i" xs] show ?thesis using assms by (auto simp: upd_def at_def inb_def)
qed

lemma count_erase_cases:
  assumes "count_erase b s = Inr (x, t)"
  shows "inb (BlockEraseCnt s) b \<and> t = counted b s"
proof -
  have i: "inb (BlockEraseCnt s) b"
    using assms by (auto simp: count_erase_def blockM.simps thenM_def bindM_def inc_def rd_def
        split: if_splits)
  have "wp (count_erase b) (\<lambda>_ t. t = counted b s) s" using wp_count_erase [OF i] by simp
  then show ?thesis using i assms by (simp add: wp_def)
qed

interpretation wear_sum: ftl_frame "\<lambda>s t. erase_gap t = erase_gap s"
proof unfold_locales
  show "within (\<lambda>s t. erase_gap t = erase_gap s) (count_erase b)" for b
    by (auto simp: within_def erase_gap_def counted_def sum_list_upd dest!: count_erase_cases)
qed (auto simp: erase_gap_def)

lemma wear_bounded_counted:
  assumes "wear_bounded s"
  shows "wear_bounded (counted b s)"
proof -
  let ?n = "at (BlockEraseCnt s) b + 1"
  have "n \<le> ?n \<or> n \<in> set (BlockEraseCnt s)" if "n \<in> set (upd (BlockEraseCnt s) b ?n)" for n
    using that set_update_subset_insert [of "BlockEraseCnt s" "nat b" ?n] by (auto simp: upd_def)
  then show ?thesis using assms by (fastforce simp: wear_bounded_def counted_def)
qed

interpretation wear_max: ftl_frame "\<lambda>s t. wear_bounded s \<longrightarrow> wear_bounded t"
proof unfold_locales
  show "within (\<lambda>s t. wear_bounded s \<longrightarrow> wear_bounded t) (count_erase b)" for b
    by (auto simp: within_def wear_bounded_counted dest!: count_erase_cases)
qed (auto simp: wear_bounded_def)

interpretation counts: ftl_frame "\<lambda>s t. request_counts t = request_counts s"
proof unfold_locales
  show "within (\<lambda>s t. request_counts t = request_counts s) (count_erase b)" for b
    by (auto simp: within_def request_counts_def Let_def counted_def dest!: count_erase_cases)
qed (auto simp: request_counts_def Let_def)

interpretation access: ftl_frame "\<lambda>s t. accessed t = accessed s"
proof unfold_locales
  show "within (\<lambda>s t. accessed t = accessed s) (count_erase b)" for b
    by (auto simp: within_def accessed_def counted_def dest!: count_erase_cases)
qed (auto simp: accessed_def)

text \<open>The parameters of the device are never changed.\<close>

interpretation params: ftl_frame "\<lambda>s t. geometry.truncate t = geometry.truncate s"
proof unfold_locales
  show "within (\<lambda>s t. geometry.truncate t = geometry.truncate s) (count_erase b)" for b
    by (auto simp: within_def geometry.defs counted_def dest!: count_erase_cases)
qed (auto simp: geometry.defs)

section \<open>Free pages\<close>

text \<open>The erased pages of the blocks that are not marked bad, counted on the flash itself.\<close>

definition free_pages :: "'a ftl_scheme \<Rightarrow> int" where
  "free_pages s = (\<Sum>b | blk s b \<and> \<not> bad s b. free_cnt s b)"

lemma free_cnt_listed:
  assumes "core s" "lay {} xs s" "b \<in> set xs"
  shows "free_cnt s b = MaxPage s"
proof -
  have s: "ftl_sized s" using assms(1) by (simp add: core_def)
  have b: "blk s b" using lay_fbl [OF assms(2)] assms(3) by (auto simp: fbl_def blk_def)
  have "cnt (\<lambda>x. x = FREE_PAGE) (at (FlashMemory s) b) = int (length (at (FlashMemory s) b))"
    unfolding cnt_card
  proof -
    have "{i. inb (at (FlashMemory s) b) i \<and> at (at (FlashMemory s) b) i = FREE_PAGE} = {0 ..< int (length (at (FlashMemory s) b))}"
      using lay_erased [OF assms(2,3)] ftl_sized_inb_row [OF s b] by (auto simp: at2_def inb_def)
    then show "int (card {i. inb (at (FlashMemory s) b) i \<and> at (at (FlashMemory s) b) i = FREE_PAGE}) = int (length (at (FlashMemory s) b))"
      by simp
  qed
  then show ?thesis using s b by (simp add: free_cnt_def ftl_sized_def)
qed

lemma free_cnt_used:
  assumes "core s" "lay {} xs s" "alloc s xs b"
  shows "free_cnt s b = (if b = CurrentFreeBlockID s then MaxPage s - CurrentFreePageID s else 0)"
proof -
  have s: "ftl_sized s" and b: "blk s b" using assms(1,3) by (auto simp: core_def alloc_def)
  have "{i. inb (at (FlashMemory s) b) i \<and> at (at (FlashMemory s) b) i = FREE_PAGE} =
      (if b = CurrentFreeBlockID s then {CurrentFreePageID s ..< MaxPage s} else {})"
    using lay_free_page [OF assms(2,3)] ftl_sized_inb_row [OF s b] lay_cur_nonneg [OF assms(2)]
    by (auto simp: at2_def pg_def)
  then show ?thesis using lay_cur_le [OF assms(2)] by (simp add: free_cnt_def cnt_card)
qed

text \<open>Between requests they are the pages of the free list and the rest of the current block.\<close>

lemma free_pages_supply:
  assumes "ftl_inv s"
  shows "free_pages s = MaxPage s * BlocksInFreeBlockList s + MaxPage s - CurrentFreePageID s"
    "free_pages s > MaxPage s * LeastFreeBlocksInFBL s"
proof -
  obtain xs where xs: "lay {} xs s" "LeastFreeBlocksInFBL s \<le> int (length xs)" and c: "core s"
    using assms by (auto simp: ftl_inv_def)
  have cur: "alloc s xs (CurrentFreeBlockID s)" using lay_cur_alloc [OF xs(1)] assms by (simp add: ftl_inv_def)
  have f: "fbl s xs" using lay_fbl [OF xs(1)] .
  let ?A = "{b. alloc s xs b}"
  have fin: "finite ?A" by (rule finite_subset [OF _ finite_blk [of s]]) (auto simp: alloc_def)
  have inl: "blk s b \<and> \<not> bad s b" if "b \<in> set xs" for b
  proof -
    have "blk s b" using f that by (auto simp: fbl_def blk_def)
    then show ?thesis using lay_bad_out [OF xs(1)] that by blast
  qed
  have sp: "{b. blk s b \<and> \<not> bad s b} = set xs \<union> ?A" "set xs \<inter> ?A = {}"
    using inl unfolding alloc_def by blast+
  have "sum (free_cnt s) (set xs) = int (length xs) * MaxPage s"
    using free_cnt_listed [OF c xs(1)] f by (simp add: fbl_def distinct_card)
  moreover have "sum (free_cnt s) ?A = MaxPage s - CurrentFreePageID s"
    using cur fin free_cnt_used [OF c xs(1)] by (simp add: sum.remove [of _ "CurrentFreeBlockID s"])
  ultimately have "free_pages s = int (length xs) * MaxPage s + (MaxPage s - CurrentFreePageID s)"
    unfolding free_pages_def sp(1) using sp(2) fin by (simp add: sum.union_disjoint)
  moreover have "BlocksInFreeBlockList s = int (length xs)" using f by (simp add: fbl_def)
  ultimately show e: "free_pages s = MaxPage s * BlocksInFreeBlockList s + MaxPage s - CurrentFreePageID s"
    by (simp add: algebra_simps)
  have "0 \<le> MaxPage s" using c by (simp add: core_def ftl_sized_def sized_def)
  then have "MaxPage s * LeastFreeBlocksInFBL s \<le> MaxPage s * BlocksInFreeBlockList s"
    using xs(2) f by (intro mult_left_mono) (auto simp: fbl_def)
  then show "free_pages s > MaxPage s * LeastFreeBlocksInFBL s" using e assms by (simp add: ftl_inv_def)
qed

text \<open>The balance of a write: what was erased was free before, is free again, or was programmed.\<close>

lemma balanced_write:
  assumes "ftl_inv s" "ftl_inv t" "kept s t" "balanced (written c s) t"
  shows "MaxPage s * (TotalBlockEraseCount (AccessStatistics t) - TotalBlockEraseCount (AccessStatistics s)) =
      free_pages t - free_pages s + 1 + (TotalLivePageCopyings (AccessStatistics t) - TotalLivePageCopyings (AccessStatistics s))"
    "TotalWritePageCount (AccessStatistics t) = TotalWritePageCount (AccessStatistics s) + 1 +
      2 * (TotalLivePageCopyings (AccessStatistics t) - TotalLivePageCopyings (AccessStatistics s))"
    "TotalLivePageCopyings (AccessStatistics s) \<le> TotalLivePageCopyings (AccessStatistics t)"
proof -
  have l: "page_ledger t = page_ledger s" "write_ledger t = write_ledger s + 1"
      "TotalLivePageCopyings (AccessStatistics s) \<le> TotalLivePageCopyings (AccessStatistics t)" "MaxPage t = MaxPage s"
    using assms(3,4) by (auto simp: balanced_def written_ledgers kept_def)
  show "TotalLivePageCopyings (AccessStatistics s) \<le> TotalLivePageCopyings (AccessStatistics t)" by (rule l(3))
  show w: "TotalWritePageCount (AccessStatistics t) = TotalWritePageCount (AccessStatistics s) + 1 +
      2 * (TotalLivePageCopyings (AccessStatistics t) - TotalLivePageCopyings (AccessStatistics s))"
    using l(2) by (simp add: write_ledger_def)
  show "MaxPage s * (TotalBlockEraseCount (AccessStatistics t) - TotalBlockEraseCount (AccessStatistics s)) =
      free_pages t - free_pages s + 1 + (TotalLivePageCopyings (AccessStatistics t) - TotalLivePageCopyings (AccessStatistics s))"
    using l(1,4) w free_pages_supply(1) [OF assms(1)] free_pages_supply(1) [OF assms(2)]
    by (simp add: page_ledger_def Let_def right_diff_distrib)
qed

end
