(* ===== verification/FTL_Requests.thy ===== *)
theory FTL_Requests
  imports FTL_Wear
begin

text \<open>
  The request handler \<open>WritewithFTL\<close>: the bookkeeping of accessed pages, the loop over the
  clusters of a request for reads and for writes, and the statistics.
\<close>

section \<open>The bookkeeping of accessed pages\<close>

text \<open>A state that differs from \<open>s\<close> only in the bookkeeping.\<close>

definition booked ::
  "int \<Rightarrow> bool list \<Rightarrow> int \<Rightarrow> bool list \<Rightarrow> bool \<Rightarrow> 'a ftl_scheme \<Rightarrow> 'a ftl_scheme" where
  "booked a m ta tm i s = s\<lparr>AccessedLogicalPages := a, AccessedLogicalPageMap := m,
     initialize_done := i, TotalAccessedLogicalPages := ta, TotalAccessedLogicalPageMap := tm\<rparr>"

lemma booked_sel [simp]:
  "core (booked a m ta tm i s) = core s" "lay D xs (booked a m ta tm i s) = lay D xs s"
  "mapped (booked a m ta tm i s) = mapped s" "clu (booked a m ta tm i s) = clu s"
  "kept (booked a m ta tm i s) t = kept s t" "capacity (booked a m ta tm i s) = capacity s"
  "enough_fuel fuel (booked a m ta tm i s) = enough_fuel fuel s"
  "request_counts (booked a m ta tm i s) = request_counts s"
  "LeastFreeBlocksInFBL (booked a m ta tm i s) = LeastFreeBlocksInFBL s"
  "MaxPage (booked a m ta tm i s) = MaxPage s" "MaxBlock (booked a m ta tm i s) = MaxBlock s"
  "MaxCluster (booked a m ta tm i s) = MaxCluster s"
  "PageToLBARatio (booked a m ta tm i s) = PageToLBARatio s"
  "CurrentFreePageID (booked a m ta tm i s) = CurrentFreePageID s"
  "InvalidPage2ValidPageDivider (booked a m ta tm i s) = InvalidPage2ValidPageDivider s"
  "CurrentScanningBlockID (booked a m ta tm i s) = CurrentScanningBlockID s"
  "AccessStatistics (booked a m ta tm i s) = AccessStatistics s"
  "accessed (booked a m ta tm i s) = ((a, m), (ta, tm), i)"
  by (simp_all add: booked_def inv_defs kept_def capacity_def nbad_def enough_fuel_def
      request_counts_def LeastFreeBlocksInFBL_def accessed_def fun_eq_iff)

lemma booked_upd [simp]:
  "AccessedLogicalPages_update f (booked a m ta tm i s) = booked (f a) m ta tm i s"
  "AccessedLogicalPageMap_update g (booked a m ta tm i s) = booked a (g m) ta tm i s"
  "TotalAccessedLogicalPages_update f (booked a m ta tm i s) = booked a m (f ta) tm i s"
  "TotalAccessedLogicalPageMap_update g (booked a m ta tm i s) = booked a m ta (g tm) i s"
  "initialize_done_update h (booked a m ta tm i s) = booked a m ta tm (h i) s"
  "AccessedLogicalPages (booked a m ta tm i s) = a" "AccessedLogicalPageMap (booked a m ta tm i s) = m"
  "TotalAccessedLogicalPages (booked a m ta tm i s) = ta"
  "TotalAccessedLogicalPageMap (booked a m ta tm i s) = tm" "initialize_done (booked a m ta tm i s) = i"
  by (cases s; simp add: booked_def)+

lemma ftl_inv_booked [simp]: "ftl_inv (booked a m ta tm i s) = ftl_inv s"
  by (simp add: ftl_inv_def)

lemma ftl_fits_booked [simp]: "ftl_fits fuel (booked a m ta tm i s) = ftl_fits fuel s"
  by (simp add: ftl_fits_def fun_eq_iff)

lemma booked_self: "accessed s = ((a, m), (ta, tm), i) \<Longrightarrow> booked a m ta tm i s = s"
  by (auto simp: booked_def accessed_def)

text \<open>
  A page map and its counter: the map has a bit for every page of the device, and the counter is
  the number of bits set.
\<close>

definition book_ok :: "int \<Rightarrow> int \<Rightarrow> bool list \<Rightarrow> bool" where
  "book_ok pgs n m \<longleftrightarrow> int (length m) = pgs \<and> n = cnt id m"

text \<open>The map with the bits from \<open>lo\<close> to \<open>hi - 1\<close> set.\<close>

definition marks :: "int \<Rightarrow> int \<Rightarrow> bool list \<Rightarrow> bool list" where
  "marks lo hi m = map (\<lambda>i. m ! i \<or> lo \<le> int i \<and> int i < hi) [0 ..< length m]"

lemma length_marks [simp]: "length (marks lo hi m) = length m"
  by (simp add: marks_def)

lemma at_marks: "inb m i \<Longrightarrow> at (marks lo hi m) i \<longleftrightarrow> at m i \<or> lo \<le> i \<and> i < hi"
  by (auto simp: marks_def at_def inb_def nat_less_iff)

lemma marks_empty: "marks lo lo m = m"
  by (rule nth_equalityI) (auto simp: marks_def)

lemma marks_step:
  assumes "inb m k" "lo \<le> k"
  shows "marks lo (k + 1) m = upd (marks lo k m) k True"
proof (rule list_eq_at)
  fix i
  assume "inb (marks lo (k + 1) m) i"
  then have "inb m i" by (simp add: inb_def)
  then show "at (marks lo (k + 1) m) i = at (upd (marks lo k m) k True) i"
    using assms by (auto simp: at_marks at_upd inb_def)
qed simp

lemma marks_step_set:
  assumes "inb m k" "lo \<le> k" "at (marks lo k m) k"
  shows "marks lo (k + 1) m = marks lo k m"
proof -
  have "upd (marks lo k m) k True = marks lo k m"
    using assms(3) upd_def at_def by (metis list_update_id)
  then show ?thesis using marks_step [OF assms(1,2)] by simp
qed

lemma inb_marks [simp]: "inb (marks lo hi m) i = inb m i"
  by (simp add: inb_def)

lemma wp_mark_accessed:
  assumes "inb m k" "inb tm k" "lo \<le> k"
  shows "wp (mark_accessed k) Q
      (booked (cnt id (marks lo k m)) (marks lo k m) (cnt id (marks lo k tm)) (marks lo k tm) i s) =
    Q () (booked (cnt id (marks lo (k + 1) m)) (marks lo (k + 1) m)
      (cnt id (marks lo (k + 1) tm)) (marks lo (k + 1) tm) i s)"
proof -
  have c: "cnt id (marks lo (k + 1) ma) = cnt id (marks lo k ma) + 1"
    if "\<not> at (marks lo k ma) k" "inb ma k" for ma
    using that assms(3) marks_step [OF that(2) assms(3)] by (simp add: cnt_upd)
  show ?thesis
    using assms c [of m] c [of tm]
    by (cases "at (marks lo k m) k"; cases "at (marks lo k tm) k")
       (simp_all add: mark_accessed_def wp marks_step_set, simp_all add: marks_step)
qed

lemma wp_mark_all:
  assumes "book_ok pgs a m" "book_ok pgs ta tm" "0 \<le> lo" "lo \<le> hi" "hi \<le> pgs"
  shows "wp (forM lo hi mark_accessed) (\<lambda>_ t. t = booked (cnt id (marks lo hi m)) (marks lo hi m)
    (cnt id (marks lo hi tm)) (marks lo hi tm) i s) (booked a m ta tm i s)"
proof (rule wp_forM [where I = "\<lambda>k t. t = booked (cnt id (marks lo k m)) (marks lo k m)
    (cnt id (marks lo k tm)) (marks lo k tm) i s"])
  show "booked a m ta tm i s = booked (cnt id (marks lo lo m)) (marks lo lo m)
    (cnt id (marks lo lo tm)) (marks lo lo tm) i s"
    using assms(1,2) by (simp add: marks_empty book_ok_def)
next
  fix k t
  assume "lo \<le> k" "k < hi" "t = booked (cnt id (marks lo k m)) (marks lo k m)
    (cnt id (marks lo k tm)) (marks lo k tm) i s"
  then show "wp (mark_accessed k) (\<lambda>_ t. t = booked (cnt id (marks lo (k + 1) m)) (marks lo (k + 1) m)
    (cnt id (marks lo (k + 1) tm)) (marks lo (k + 1) tm) i s) t"
    using assms by (simp add: wp_mark_accessed book_ok_def inb_def)
qed (use assms(4) in auto)

section \<open>The clusters of a request\<close>

lemma wp_serve_write:
  "wp (serve_clusters fuel WriteType n c) Q =
   wp (forN n c (SecureFTLWriteOneCluster fuel)) (\<lambda>_. Q (c + int n))"
proof (induction n arbitrary: c)
  case (Suc n)
  show ?case by (simp add: wp Suc.IH [of "c + 1"] add.assoc)
qed (simp add: wp)

text \<open>Where a read stops: the first cluster that is not stored.\<close>

fun read_stop :: "int set \<Rightarrow> nat \<Rightarrow> int \<Rightarrow> int" where
  "read_stop X 0 c = c"
| "read_stop X (Suc n) c = (if c \<in> X then read_stop X n (c + 1) else c)"

lemma read_stop_bounds: "c \<le> read_stop X n c \<and> read_stop X n c \<le> c + int n"
proof (induction n arbitrary: c)
  case (Suc n)
  show ?case using Suc.IH [of "c + 1"] by simp
qed simp

lemma read_stop_all: "read_stop X n c = c + int n \<longleftrightarrow> {c ..< c + int n} \<subseteq> X"
proof (induction n arbitrary: c)
  case (Suc n)
  have e: "{c ..< c + int (Suc n)} = insert c {c + 1 ..< c + 1 + int n}" by auto
  show ?case using Suc.IH [of "c + 1"] unfolding e by (auto simp: ac_simps)
qed simp

text \<open>The effect of reading \<open>k\<close> clusters, and of a read that fails.\<close>

definition reads_done :: "int \<Rightarrow> bool \<Rightarrow> 'a ftl_scheme \<Rightarrow> 'a ftl_scheme \<Rightarrow> bool" where
  "reads_done k failed s t \<longleftrightarrow> (\<exists>f. t = AccessStatistics_update f s) \<and>
     TotalReadPageCount (AccessStatistics t) = TotalReadPageCount (AccessStatistics s) + k \<and>
     TotalReadRequestTime (AccessStatistics t) =
       TotalReadRequestTime (AccessStatistics s) + k * TIME_READ_PAGE s \<and>
     FailedReadOperation (AccessStatistics t) =
       FailedReadOperation (AccessStatistics s) + of_bool failed \<and>
     TotalReadRequestCount (AccessStatistics t) = TotalReadRequestCount (AccessStatistics s)"

lemma wp_serve_read:
  assumes "ftl_inv s" "\<forall>i. c \<le> i \<and> i < c + int n \<longrightarrow> clu s i"
  shows "wp (serve_clusters fuel ReadType n c)
    (\<lambda>r t. r = read_stop (mapped s) n c \<and> reads_done (r - c) (r < c + int n) s t) s"
  using assms
proof (induction n arbitrary: c s)
  case 0
  have "\<exists>f. s = AccessStatistics_update f s" by (rule exI [of _ id]) simp
  then show ?case by (simp add: wp reads_done_def)
next
  case (Suc n)
  have cc: "clu s c" using Suc.prems(2) by auto
  show ?case
  proof (cases "c \<in> mapped s")
    case True
    define t where "t = AccessStatistics_update (TotalReadPageCount_update (\<lambda>x. x + 1) \<circ>
      TotalReadRequestTime_update (\<lambda>x. x + TIME_READ_PAGE s)) s"
    have read: "wp (FTLReadOneCluster c) Q s = Q True t" for Q
      using FTLReadOneCluster_result [OF Suc.prems(1) cc] True by (simp add: wp_def t_def)
    have t: "ftl_inv t" "mapped t = mapped s" "clu t = clu s" "TIME_READ_PAGE t = TIME_READ_PAGE s"
      using Suc.prems(1)
      by (simp_all add: t_def clu_def fun_eq_iff TIME_READ_PAGE_def TIME_TRANSFER_PAGE_def)
    have "wp (serve_clusters fuel ReadType n (c + 1)) (\<lambda>r u. r = read_stop (mapped t) n (c + 1) \<and>
        reads_done (r - (c + 1)) (r < c + 1 + int n) t u) t"
      using Suc.prems(2) t by (intro Suc.IH) auto
    then have "wp (serve_clusters fuel ReadType n (c + 1)) (\<lambda>r u. r = read_stop (mapped s) (Suc n) c \<and>
        reads_done (r - c) (r < c + int (Suc n)) s u) t"
    proof (rule wp_mono)
      fix r u
      assume "r = read_stop (mapped t) n (c + 1) \<and> reads_done (r - (c + 1)) (r < c + 1 + int n) t u"
      then show "r = read_stop (mapped s) (Suc n) c \<and> reads_done (r - c) (r < c + int (Suc n)) s u"
        using True t(2,4) by (auto simp: reads_done_def t_def algebra_simps)
    qed
    then show ?thesis by (simp add: wp read)
  next
    case False
    have read: "wp (FTLReadOneCluster c) Q s = Q False s" for Q
      using FTLReadOneCluster_result [OF Suc.prems(1) cc] False by (simp add: wp_def)
    have "\<exists>f. s\<lparr>AccessStatistics := g (AccessStatistics s)\<rparr> = AccessStatistics_update f s" for g
      by (rule exI [of _ g]) simp
    then show ?thesis using False by (auto simp: wp read stat_def reads_done_def)
  qed
qed

section \<open>Whole requests\<close>

definition books_ok :: "'a ftl_scheme \<Rightarrow> bool" where
  "books_ok s \<longleftrightarrow>
     book_ok (MaxPage s * MaxBlock s) (AccessedLogicalPages s) (AccessedLogicalPageMap s) \<and>
     (if initialize_done s
      then book_ok (MaxPage s * MaxBlock s) (TotalAccessedLogicalPages s) (TotalAccessedLogicalPageMap s)
      else TotalAccessedLogicalPages s = 0)"

definition first_cluster :: "'a geometry_scheme \<Rightarrow> int \<Rightarrow> int" where
  "first_cluster s StartLBA = StartLBA div PageToLBARatio s"

definition last_cluster :: "'a geometry_scheme \<Rightarrow> int \<Rightarrow> int \<Rightarrow> int" where
  "last_cluster s StartLBA len = (StartLBA + len - 1) div PageToLBARatio s"

text \<open>A request that lies on the device.\<close>

definition request_ok :: "'a ftl_scheme \<Rightarrow> int \<Rightarrow> int \<Rightarrow> bool" where
  "request_ok s StartLBA len \<longleftrightarrow> ftl_inv s \<and> books_ok s \<and> 0 < PageToLBARatio s \<and>
     0 \<le> StartLBA \<and> 1 \<le> len \<and> last_cluster s StartLBA len < MaxCluster s \<and>
     MaxCluster s \<le> MaxPage s * MaxBlock s"

lemma request_range:
  assumes "request_ok s StartLBA len"
  shows "0 \<le> first_cluster s StartLBA" "first_cluster s StartLBA \<le> last_cluster s StartLBA len"
    "\<forall>i. first_cluster s StartLBA \<le> i \<and> i < last_cluster s StartLBA len + 1 \<longrightarrow> clu s i"
proof -
  show 0: "0 \<le> first_cluster s StartLBA"
    using assms by (simp add: request_ok_def first_cluster_def pos_imp_zdiv_nonneg_iff)
  show "first_cluster s StartLBA \<le> last_cluster s StartLBA len"
    using assms unfolding request_ok_def first_cluster_def last_cluster_def
    by (intro zdiv_mono1) auto
  show "\<forall>i. first_cluster s StartLBA \<le> i \<and> i < last_cluster s StartLBA len + 1 \<longrightarrow> clu s i"
    using assms 0 by (auto simp: request_ok_def clu_def)
qed

lemma cnt_id_empty: "cnt id (replicate n False) = 0"
  by (simp add: cnt_replicate)

text \<open>Every request starts with the bookkeeping and goes on with the loop over its clusters.\<close>

lemma wp_WritewithFTL:
  assumes "request_ok s StartLBA len"
  defines "c \<equiv> first_cluster s StartLBA" and "d \<equiv> last_cluster s StartLBA len + 1"
  shows "\<exists>a m ta tm. books_ok (booked a m ta tm True s) \<and>
    (\<forall>i. inb (AccessedLogicalPageMap s) i \<longrightarrow> at m i = (at (AccessedLogicalPageMap s) i \<or> c \<le> i \<and> i < d)) \<and>
    (\<forall>Q. wp (WritewithFTL fuel ty StartLBA len) Q s =
       wp (bindM (serve_clusters fuel ty (nat (d - c)) c) (\<lambda>r. count_request ty (r = d))) Q
         (booked a m ta tm True s))"
proof -
  obtain a m ta tm i where acc: "accessed s = ((a, m), (ta, tm), i)" by (metis prod.exhaust)
  let ?n = "MaxPage s * MaxBlock s"
  define tm' where "tm' = (if i then tm else replicate (nat ?n) False)"
  have self: "booked a m ta tm i s = s" using booked_self [OF acc] .
  have f: "AccessedLogicalPages s = a" "AccessedLogicalPageMap s = m" "initialize_done s = i"
    "TotalAccessedLogicalPages s = ta" "TotalAccessedLogicalPageMap s = tm"
    using acc by (auto simp: accessed_def)
  have n: "0 \<le> ?n" using assms(1) by (auto simp: request_ok_def books_ok_def book_ok_def)
  have bk: "book_ok ?n a m" "book_ok ?n ta tm'"
    using assms(1) f n by (auto simp: request_ok_def books_ok_def tm'_def book_ok_def cnt_id_empty)
  have cd: "0 \<le> c" "c \<le> d" "d \<le> ?n"
    using request_range [OF assms(1)] assms(1) by (auto simp: c_def d_def request_ok_def)
  let ?u = "booked (cnt id (marks c d m)) (marks c d m) (cnt id (marks c d tm')) (marks c d tm') True s"
  have init: "wp init_simulation Q s = Q () (booked a m ta tm' True s)" for Q
  proof -
    have "wp init_simulation Q (booked a m ta tm i s) = Q () (booked a m ta tm' True s)"
      by (cases i) (simp_all add: init_simulation_def wp tm'_def)
    then show ?thesis by (simp only: self)
  qed
  have loop: "wp (forM c d mark_accessed) Q (booked a m ta tm' True s) = Q () ?u" for Q
    using wp_mark_all [OF bk cd, of True s] by (auto simp: wp_def split: sum.splits)
  have div: "StartLBA sdiv PageToLBARatio s = c"
      "(StartLBA - 1 + len) sdiv PageToLBARatio s = d - 1" "PageToLBARatio s \<noteq> 0"
    using assms(1) by (simp_all add: request_ok_def c_def d_def first_cluster_def last_cluster_def)
      (simp add: algebra_simps)
  have run: "wp (WritewithFTL fuel ty StartLBA len) Q s =
      wp (bindM (serve_clusters fuel ty (nat (d - c)) c) (\<lambda>r. count_request ty (r = d))) Q ?u" for Q
    using div by (simp add: WritewithFTL_def wp init Let_def loop)
  have ok: "books_ok ?u" using bk n by (auto simp: books_ok_def book_ok_def)
  have bits: "\<forall>i. inb (AccessedLogicalPageMap s) i \<longrightarrow>
      at (marks c d m) i = (at (AccessedLogicalPageMap s) i \<or> c \<le> i \<and> i < d)"
    using f by (auto simp: at_marks)
  show ?thesis using ok bits run by blast
qed

lemma books_ok_frame:
  assumes "accessed t = accessed s" "geometry.truncate t = geometry.truncate s"
  shows "books_ok t = books_ok s"
  using assms by (simp add: books_ok_def accessed_def geometry.defs)

lemma books_ok_stat [simp]: "books_ok (AccessStatistics_update f s) = books_ok s"
  by (simp add: books_ok_def)

lemma wp_write_request:
  assumes "request_ok s StartLBA len" "enough_fuel fuel s"
    and "int (card (mapped s \<union> {first_cluster s StartLBA .. last_cluster s StartLBA len})) \<le> capacity s"
  shows "wp (WritewithFTL fuel WriteType StartLBA len) (\<lambda>_ t. ftl_inv t \<and> books_ok t \<and>
    mapped t = mapped s \<union> {first_cluster s StartLBA .. last_cluster s StartLBA len} \<and>
    (\<exists>w r fw fr. request_counts s = (w, r, fw, fr) \<and> request_counts t = (w + 1, r, fw, fr))) s"
proof -
  let ?c = "first_cluster s StartLBA" and ?d = "last_cluster s StartLBA len + 1"
  obtain a m ta tm where u: "books_ok (booked a m ta tm True s)"
      "\<And>Q. wp (WritewithFTL fuel WriteType StartLBA len) Q s =
       wp (bindM (serve_clusters fuel WriteType (nat (?d - ?c)) ?c) (\<lambda>r. count_request WriteType (r = ?d))) Q
         (booked a m ta tm True s)"
    using wp_WritewithFTL [OF assms(1)] by metis
  define u where "u = booked a m ta tm True s"
  have inv: "ftl_inv u" "mapped u = mapped s" "request_counts u = request_counts s"
    using assms(1) by (simp_all add: request_ok_def u_def)
  note rg = request_range [OF assms(1)]
  have cd: "?c + int (nat (?d - ?c)) = ?d" using rg(2) by simp
  have iv: "{?c ..< ?d} = {?c .. last_cluster s StartLBA len}" by auto
  have "ftl_fits fuel u (mapped u \<union> {?c ..< ?c + int (nat (?d - ?c))})"
    using assms(2,3) rg(3) inv(2) unfolding cd iv
    by (auto simp: u_def ftl_fits_def mapped_def)
  then have "wp (forN (nat (?d - ?c)) ?c (SecureFTLWriteOneCluster fuel)) (\<lambda>_ t. ftl_inv t \<and>
      mapped t = mapped u \<union> {?c ..< ?c + int (nat (?d - ?c))} \<and> ftl_fits fuel t = ftl_fits fuel u \<and>
      clu t = clu u) u"
    by (rule ftl.write_range [OF inv(1)])
  from wp_within [OF wp_within [OF wp_within [OF this
        counts.in_forN [OF counts.in_SecureFTLWriteOneCluster]]
        access.in_forN [OF access.in_SecureFTLWriteOneCluster]]
        params.in_forN [OF params.in_SecureFTLWriteOneCluster]]
  have "wp (forN (nat (?d - ?c)) ?c (SecureFTLWriteOneCluster fuel)) (\<lambda>_ t. ftl_inv t \<and>
      mapped t = mapped s \<union> {?c .. last_cluster s StartLBA len} \<and>
      request_counts t = request_counts s \<and> books_ok t) u"
    unfolding cd iv by (rule wp_mono) (use inv u(1) [folded u_def] books_ok_frame [of _ u] in auto)
  then show ?thesis
    unfolding u(2) wp_bindM wp_serve_write cd u_def [symmetric]
    by (rule wp_mono) (auto simp: count_request_def wp stat_def request_counts_def Let_def)
qed

lemma wp_read_request:
  assumes "request_ok s StartLBA len"
  defines "c \<equiv> first_cluster s StartLBA" and "d \<equiv> last_cluster s StartLBA len + 1"
  defines "r \<equiv> read_stop (mapped s) (nat (d - c)) c"
  shows "wp (WritewithFTL fuel ReadType StartLBA len) (\<lambda>_ t. ftl_inv t \<and> books_ok t \<and>
    FTLTable t = FTLTable s \<and> FlashMemory t = FlashMemory s \<and>
    TotalReadPageCount (AccessStatistics t) = TotalReadPageCount (AccessStatistics s) + (r - c) \<and>
    TotalReadRequestTime (AccessStatistics t) =
      TotalReadRequestTime (AccessStatistics s) + (r - c) * TIME_READ_PAGE s \<and>
    (if {c ..< d} \<subseteq> mapped s
     then TotalReadRequestCount (AccessStatistics t) = TotalReadRequestCount (AccessStatistics s) + 1 \<and>
       FailedReadOperation (AccessStatistics t) = FailedReadOperation (AccessStatistics s)
     else TotalReadRequestCount (AccessStatistics t) = TotalReadRequestCount (AccessStatistics s) \<and>
       FailedReadOperation (AccessStatistics t) = FailedReadOperation (AccessStatistics s) + 1)) s"
    (is "wp _ ?post s")
proof -
  obtain a m ta tm where u: "books_ok (booked a m ta tm True s)"
      "\<And>Q. wp (WritewithFTL fuel ReadType StartLBA len) Q s =
       wp (bindM (serve_clusters fuel ReadType (nat (d - c)) c) (\<lambda>r. count_request ReadType (r = d))) Q
         (booked a m ta tm True s)"
    using wp_WritewithFTL [OF assms(1)] unfolding c_def d_def by metis
  define u where "u = booked a m ta tm True s"
  have inv: "ftl_inv u" "mapped u = mapped s" "TIME_READ_PAGE u = TIME_READ_PAGE s"
      "AccessStatistics u = AccessStatistics s" "FTLTable u = FTLTable s" "FlashMemory u = FlashMemory s"
    using assms(1)
    by (simp_all add: request_ok_def u_def) (simp_all add: booked_def TIME_READ_PAGE_def TIME_TRANSFER_PAGE_def)
  note rg = request_range [OF assms(1), folded c_def d_def]
  have cd: "c + int (nat (d - c)) = d" using rg(2) by (simp add: d_def)
  have all: "r = d \<longleftrightarrow> {c ..< d} \<subseteq> mapped s" and le: "r \<le> d"
    using read_stop_all [of "mapped s" "nat (d - c)" c] read_stop_bounds [of c "mapped s" "nat (d - c)"]
    unfolding r_def cd by auto
  have "\<forall>i. c \<le> i \<and> i < c + int (nat (d - c)) \<longrightarrow> clu u i"
    using rg(3) unfolding cd by (simp add: u_def)
  from wp_serve_read [OF inv(1) this, of fuel]
  have "wp (serve_clusters fuel ReadType (nat (d - c)) c)
      (\<lambda>x. wp (count_request ReadType (x = d)) ?post) u"
  proof (rule wp_mono)
    fix x t
    assume x: "x = read_stop (mapped u) (nat (d - c)) c \<and>
      reads_done (x - c) (x < c + int (nat (d - c))) u t"
    then have xr: "x = r" using inv(2) by (simp add: r_def)
    obtain f where t: "t = AccessStatistics_update f u" using x by (auto simp: reads_done_def)
    have base: "ftl_inv t" "books_ok t" "FTLTable t = FTLTable s" "FlashMemory t = FlashMemory s"
      using inv u(1) by (simp_all add: t u_def)
    show "wp (count_request ReadType (x = d)) ?post t"
      using x base inv(3,4) le all unfolding xr cd
      by (cases "r = d") (auto simp: count_request_def wp stat_def reads_done_def)
  qed
  then show ?thesis unfolding u(2) wp_bindM u_def [symmetric] .
qed

end
