(* ===== verification/FTL_Properties.thy ===== *)
theory FTL_Properties
  imports FTL_Requests
begin

text \<open>
  The properties of the page-level translation layer, stated over the functions of FTL.c, with a
  small device on which they apply.
\<close>

section \<open>A small device\<close>

text \<open>
  Six blocks of two pages: block 5 holds the clusters 0 and 1, block 3 is the current block, and
  the other four are free.
\<close>

definition small_ftl :: ftl where
  "small_ftl = flash.extend
     (small_flash\<lparr>FlashMemory := [[-1, -1], [-1, -1], [-1, -1], [-1, -1], [-1, -1], [0, 1]],
        ValidPageCnt := [0, 0, 0, 0, 0, 2]\<rparr>)
     (ftl.fields
        ([\<lparr>Block = 5, Page = 0\<rparr>, \<lparr>Block = 5, Page = 1\<rparr>] @ replicate 6 \<lparr>Block = - 1, Page = - 1\<rparr>)
        3 0 0 1 False 0 [])"

lemma small_ftl_sel [simp]:
  "MaxBlock small_ftl = 6" "MaxPage small_ftl = 2" "MaxCluster small_ftl = 8"
  "PageToLBARatio small_ftl = 1" "CurrentFreeBlockID small_ftl = 3" "CurrentFreePageID small_ftl = 0"
  "CurrentScanningBlockID small_ftl = 0" "InvalidPage2ValidPageDivider small_ftl = 1"
  "FlashMemory small_ftl = [[-1, -1], [-1, -1], [-1, -1], [-1, -1], [-1, -1], [0, 1]]"
  "FreeBlockList small_ftl = [-1, 4, 0, -2, 2, -2]"
  "FTLTable small_ftl = [\<lparr>Block = 5, Page = 0\<rparr>, \<lparr>Block = 5, Page = 1\<rparr>] @
     replicate 6 \<lparr>Block = - 1, Page = - 1\<rparr>"
  "ValidPageCnt small_ftl = [0, 0, 0, 0, 0, 2]" "InvalidPageCnt small_ftl = replicate 6 0"
  "LeastFreeBlocksInFBL small_ftl = 1" "initialize_done small_ftl = False"
  "AccessedLogicalPages small_ftl = 0" "AccessedLogicalPageMap small_ftl = replicate 12 False"
  "TotalAccessedLogicalPages small_ftl = 0"
  "BlockEraseCnt small_ftl = replicate 6 0" "MaxBlockEraseCnt small_ftl = 0"
  "AccessStatistics small_ftl = zero_statistics"
  by (simp_all add: small_ftl_def flash.defs ftl.defs small_flash_def LeastFreeBlocksInFBL_def)

lemma less_cases:
  "0 \<le> b \<and> b < 6 \<longleftrightarrow> b \<in> {0, 1, 2, 3, 4, 5}" "0 \<le> p \<and> p < 2 \<longleftrightarrow> p \<in> {0, 1}"
  "0 \<le> c \<and> c < 8 \<longleftrightarrow> c \<in> {0, 1, 2, 3, 4, 5, 6, 7}" for b p c :: int
  by auto

lemma small_ftl_blk: "blk small_ftl b \<longleftrightarrow> b \<in> {0, 1, 2, 3, 4, 5}"
  "pg small_ftl p \<longleftrightarrow> p \<in> {0, 1}" "clu small_ftl c \<longleftrightarrow> c \<in> {0, 1, 2, 3, 4, 5, 6, 7}"
  by (auto simp: blk_def pg_def clu_def)

lemma small_ftl_mapped: "mapped small_ftl = {0, 1}"
  by (auto simp: mapped_def small_ftl_blk at_def)

lemma small_ftl_bad: "blk small_ftl b \<Longrightarrow> \<not> bad small_ftl b"
  by (auto simp: small_ftl_blk bad_def at2_def at_def)

lemma small_ftl_fbl: "fbl small_ftl [1, 4, 2, 0]"
  using fbl_small_flash
  by (simp add: fbl_def sized_def) (simp add: small_ftl_def flash.defs ftl.defs small_flash_def)

lemma small_ftl_alloc: "alloc small_ftl [1, 4, 2, 0] b \<longleftrightarrow> b = 3 \<or> b = 5"
  using small_ftl_bad [of b] by (auto simp: alloc_def small_ftl_blk)

lemma small_ftl_lay: "lay {} [1, 4, 2, 0] small_ftl"
  unfolding lay_def small_ftl_alloc
proof (intro conjI allI impI)
  fix b p
  assume "blk small_ftl b" "pg small_ftl p"
  then show "if bad small_ftl b then page small_ftl b p = - 1 \<or> page small_ftl b p = - 3
      else - 2 \<le> page small_ftl b p"
    using small_ftl_bad [of b] by (auto simp: small_ftl_blk at_def at2_def)
next
  show "fbl small_ftl [1, 4, 2, 0]" by (rule small_ftl_fbl)
next
  fix b p :: int
  assume "b \<in> set [1, 4, 2, 0]" "pg small_ftl p"
  then show "page small_ftl b p = - 1" by (auto simp: small_ftl_blk at_def at2_def)
next
  fix b
  assume "blk small_ftl b" "bad small_ftl b"
  then show "b \<notin> set [1, 4, 2, 0]" using small_ftl_bad by blast
next
  fix b p :: int
  assume "b = 3 \<or> b = 5" "pg small_ftl p"
  then show "(page small_ftl b p = - 1) = (b = CurrentFreeBlockID small_ftl \<and> CurrentFreePageID small_ftl \<le> p)"
    by (auto simp: small_ftl_blk at_def at2_def)
next
  fix b :: int
  assume "b = 3 \<or> b = 5"
  then show "at (FreeBlockList small_ftl) b = - 2" by (auto simp: at_def)
qed simp_all

lemma small_ftl_inv: "ftl_inv small_ftl"
proof -
  have "ftl_sized small_ftl"
    using small_ftl_fbl by (auto simp: ftl_sized_def fbl_def small_ftl_blk at_def)
  moreover have "map_ok {} small_ftl"
    by (auto simp: map_ok_def small_ftl_mapped small_ftl_blk at_def at2_def)
  moreover have "cnt_ok small_ftl"
    by (auto simp: cnt_ok_def small_ftl_blk valid_cnt_def invalid_cnt_def cnt_def at_def)
  moreover have "lay {} [1, 4, 2, 0] small_ftl" by (rule small_ftl_lay)
  ultimately show ?thesis
    by (simp add: ftl_inv_def core_def INT_MAX_def) (rule exI [of _ "[1, 4, 2, 0]"], simp)
qed

lemma small_ftl_capacity: "capacity small_ftl = 7" "enough_fuel 16 small_ftl"
  by (simp_all add: capacity_def nbad_def cnt_def at_def enough_fuel_def)

section \<open>Writing\<close>

text \<open>C1. Writing a cluster with garbage collection returns whenever the live data stay within the
  capacity of the device.  The invariant of the layer holds afterwards, the cluster is mapped,
  every cluster mapped before is still mapped, and the table leads each of them to a flash page
  that holds it.\<close>

theorem SecureFTLWriteOneCluster_correct:
  assumes "ftl_inv s" "0 \<le> c" "c < MaxCluster s"
    and "int (card (insert c (mapped s))) \<le> capacity s" "enough_fuel fuel s"
  shows "\<exists>t. SecureFTLWriteOneCluster fuel c s = Inr ((), t) \<and> ftl_inv t \<and>
    mapped t = insert c (mapped s) \<and> capacity t = capacity s \<and>
    (\<forall>c' \<in> mapped t. page t (Block (at (FTLTable t) c')) (Page (at (FTLTable t) c')) = c')"
proof -
  have "wp (SecureFTLWriteOneCluster fuel c)
      (\<lambda>_ t. ftl_inv t \<and> mapped t = insert c (mapped s) \<and> kept s t \<and> balanced (written c s) t) s"
    using assms by (intro wp_SecureFTLWriteOneCluster) (auto simp: clu_def)
  then obtain t where t: "SecureFTLWriteOneCluster fuel c s = Inr ((), t)" "ftl_inv t"
      "mapped t = insert c (mapped s)" "kept s t"
    by (auto simp: wp_result)
  moreover have "capacity t = capacity s"
    using kept_capacity [OF t(4)] t(2) assms(1) ftl_inv_sized by blast
  moreover have "\<forall>c' \<in> mapped t. page t (Block (at (FTLTable t) c')) (Page (at (FTLTable t) c')) = c'"
    using mapped_page(3) [of t] t(2) by (auto simp: ftl_inv_def)
  ultimately show ?thesis by blast
qed

text \<open>C1 applies to writing cluster 4 of the small device.\<close>

theorem SecureFTLWriteOneCluster_correct_witness:
  "\<exists>t. SecureFTLWriteOneCluster 16 4 small_ftl = Inr ((), t) \<and> ftl_inv t \<and> mapped t = {0, 1, 4}"
  using SecureFTLWriteOneCluster_correct [OF small_ftl_inv, of 4 16]
  by (auto simp: small_ftl_capacity small_ftl_mapped insert_commute)

text \<open>C4. What was written can be read: after any sequence of writes that fits into the device,
  reading any of the clusters written succeeds, and so does reading any cluster that was mapped
  before.\<close>

theorem FTL_read_after_writes:
  assumes "ftl_inv s" "ftl_fits fuel s (mapped s \<union> set cs)" "c \<in> mapped s \<union> set cs"
  shows "\<exists>t. thenM (blockM (map (SecureFTLWriteOneCluster fuel) cs)) (FTLReadOneCluster c) s
    = Inr (True, t) \<and> ftl_inv t"
proof -
  have "wp (thenM (blockM (map (SecureFTLWriteOneCluster fuel) cs)) (FTLReadOneCluster c))
      (\<lambda>r t. r \<and> ftl_inv t) s"
    unfolding wp_thenM
  proof (rule wp_mono [OF ftl.write_list [OF assms(1,2)]])
    fix x t
    assume t: "ftl_inv t \<and> mapped t = mapped s \<union> set cs \<and> ftl_fits fuel t = ftl_fits fuel s \<and>
      clu t = clu s"
    then have "clu t c" using ftl.fits_addr [OF assms(2,3)] by simp
    with t show "wp (FTLReadOneCluster c) (\<lambda>r t. r \<and> ftl_inv t) t"
      using assms(3) by (intro wp_mono [OF ftl.read_cluster]) auto
  qed
  then show ?thesis by (auto simp: wp_result)
qed

text \<open>C4 applies to the small device and the writes of the clusters 4, 2, 4 and 0.\<close>

theorem FTL_read_after_writes_witness:
  "\<exists>t. thenM (blockM (map (SecureFTLWriteOneCluster 16) [4, 2, 4, 0])) (FTLReadOneCluster 1) small_ftl
    = Inr (True, t) \<and> ftl_inv t"
proof (rule FTL_read_after_writes [OF small_ftl_inv])
  have "{0, 1} \<union> {4, 2, 4, 0} = {0, 1, 2, 4::int}" by auto
  then show "ftl_fits 16 small_ftl (mapped small_ftl \<union> set [4, 2, 4, 0])"
    by (simp add: ftl_fits_def small_ftl_mapped small_ftl_blk small_ftl_capacity)
qed (simp add: small_ftl_mapped)

section \<open>Garbage collection\<close>

text \<open>C3. Erasing a block loses no data: when the free list is down to the reserve and the victim is
  a block in use with an invalid page, \<open>FTLEraseOneBlock\<close> runs through (the list never refuses
  a block for the copies), the same clusters are mapped afterwards, every one of them is still
  held by a flash page, the victim has no invalid page left and the other blocks have as many
  as before, and the current block has room.\<close>

theorem FTLEraseOneBlock_correct:
  assumes "settled xs s" "int (length xs) = LeastFreeBlocksInFBL s"
    and "alloc s xs v" "v \<noteq> CurrentFreeBlockID s" "1 \<le> invalid_cnt s v"
  shows "\<exists>t ys. FTLEraseOneBlock v s = Inr ((), t) \<and> settled ys t \<and> mapped t = mapped s \<and>
    CurrentFreePageID t < MaxPage t \<and> garbage t = garbage s - invalid_cnt s v \<and>
    (\<forall>c \<in> mapped s. page t (Block (at (FTLTable t) c)) (Page (at (FTLTable t) c)) = c)"
proof -
  obtain t ys where t: "FTLEraseOneBlock v s = Inr ((), t)" "settled ys t"
      "CurrentFreePageID t < MaxPage t" "outside v s t" "invalid_cnt t v = 0"
    using wp_FTLEraseOneBlock [OF assms] by (auto simp: wp_result)
  have v: "blk s v" using assms(3) by (simp add: alloc_def)
  have "mapped t = mapped s" using t(4) by (simp add: outside_def same_def)
  moreover have "garbage t = garbage s - invalid_cnt s v" using garbage_erased [OF t(4) v t(5)] .
  moreover have "core t" using t(2) by (simp add: settled_def)
  ultimately show ?thesis using t(1-3) mapped_page(3) [of t] by metis
qed

text \<open>C3 applies to a device whose block 5 holds an outdated copy of cluster 0.\<close>

definition used_ftl :: ftl where
  "used_ftl = flash.extend
     (small_flash\<lparr>FlashMemory := [[-1, -1], [4, 5], [3, 6], [0, 2], [-2, -2], [-2, 1]],
        ValidPageCnt := [0, 2, 2, 2, 0, 1], InvalidPageCnt := [0, 0, 0, 0, 2, 1],
        FreeBlockList := [-1, -2, -2, -2, -2, -2], FreeBlockListHead := 0, FreeBlockListTail := 0,
        BlocksInFreeBlockList := 1, BlocksInFreeBlockListArray := [1, 0]\<rparr>)
     (ftl.fields
        [\<lparr>Block = 3, Page = 0\<rparr>, \<lparr>Block = 5, Page = 1\<rparr>, \<lparr>Block = 3, Page = 1\<rparr>, \<lparr>Block = 2, Page = 0\<rparr>,
         \<lparr>Block = 1, Page = 0\<rparr>, \<lparr>Block = 1, Page = 1\<rparr>, \<lparr>Block = 2, Page = 1\<rparr>, \<lparr>Block = - 1, Page = - 1\<rparr>]
        (- 1) 2 0 1 False 0 [])"

lemma used_ftl_sel [simp]:
  "MaxBlock used_ftl = 6" "MaxPage used_ftl = 2" "MaxCluster used_ftl = 8"
  "CurrentFreeBlockID used_ftl = - 1" "CurrentFreePageID used_ftl = 2"
  "CurrentScanningBlockID used_ftl = 0" "InvalidPage2ValidPageDivider used_ftl = 1"
  "FlashMemory used_ftl = [[-1, -1], [4, 5], [3, 6], [0, 2], [-2, -2], [-2, 1]]"
  "FreeBlockList used_ftl = [-1, -2, -2, -2, -2, -2]"
  "FTLTable used_ftl =
     [\<lparr>Block = 3, Page = 0\<rparr>, \<lparr>Block = 5, Page = 1\<rparr>, \<lparr>Block = 3, Page = 1\<rparr>, \<lparr>Block = 2, Page = 0\<rparr>,
      \<lparr>Block = 1, Page = 0\<rparr>, \<lparr>Block = 1, Page = 1\<rparr>, \<lparr>Block = 2, Page = 1\<rparr>, \<lparr>Block = - 1, Page = - 1\<rparr>]"
  "ValidPageCnt used_ftl = [0, 2, 2, 2, 0, 1]" "InvalidPageCnt used_ftl = [0, 0, 0, 0, 2, 1]"
  "LeastFreeBlocksInFBL used_ftl = 1" "AccessStatistics used_ftl = zero_statistics"
  by (simp_all add: used_ftl_def flash.defs ftl.defs small_flash_def LeastFreeBlocksInFBL_def)

lemma used_ftl_blk: "blk used_ftl b \<longleftrightarrow> b \<in> {0, 1, 2, 3, 4, 5}"
  "pg used_ftl p \<longleftrightarrow> p \<in> {0, 1}" "clu used_ftl c \<longleftrightarrow> c \<in> {0, 1, 2, 3, 4, 5, 6, 7}"
  by (auto simp: blk_def pg_def clu_def)

lemma used_ftl_bad: "blk used_ftl b \<Longrightarrow> \<not> bad used_ftl b"
  by (auto simp: used_ftl_blk bad_def at2_def at_def)

lemma used_ftl_mapped: "mapped used_ftl = {0, 1, 2, 3, 4, 5, 6}"
  by (auto simp: mapped_def used_ftl_blk at_def)

lemma used_ftl_alloc: "alloc used_ftl [0] b \<longleftrightarrow> b \<in> {1, 2, 3, 4, 5}"
  using used_ftl_bad [of b] by (auto simp: alloc_def used_ftl_blk)

lemma used_ftl_fbl: "fbl used_ftl [0]"
proof -
  have "at (BlocksInFreeBlockListArray used_ftl) c = on_chip 3 c [0]" if "0 \<le> c" "c < 2" for c
  proof -
    have "c = 0 \<or> c = 1" using that by auto
    then show ?thesis
      by (auto simp: used_ftl_def flash.defs ftl.defs small_flash_def on_chip_def cnt_def at_def)
  qed
  then show ?thesis
    by (simp add: fbl_def sized_def at_def) (simp add: used_ftl_def flash.defs ftl.defs small_flash_def)
qed

lemma used_ftl_core: "core used_ftl"
proof -
  have "ftl_sized used_ftl" using used_ftl_fbl by (auto simp: ftl_sized_def fbl_def used_ftl_blk at_def)
  moreover have "map_ok {} used_ftl"
    by (auto simp: map_ok_def used_ftl_mapped used_ftl_blk at_def at2_def)
  moreover have "cnt_ok used_ftl"
    by (auto simp: cnt_ok_def used_ftl_blk valid_cnt_def invalid_cnt_def cnt_def at_def)
  ultimately show ?thesis by (simp add: core_def)
qed

lemma used_ftl_lay: "lay {} [0] used_ftl"
  unfolding lay_def used_ftl_alloc
proof (intro conjI allI impI)
  fix b p
  assume "blk used_ftl b" "pg used_ftl p"
  then show "if bad used_ftl b then page used_ftl b p = - 1 \<or> page used_ftl b p = - 3
      else - 2 \<le> page used_ftl b p"
    using used_ftl_bad [of b] by (auto simp: used_ftl_blk at_def at2_def)
next
  show "fbl used_ftl [0]" by (rule used_ftl_fbl)
next
  fix b p :: int
  assume "b \<in> set [0]" "pg used_ftl p"
  then show "page used_ftl b p = - 1" by (auto simp: used_ftl_blk at_def at2_def)
next
  fix b
  assume "blk used_ftl b" "bad used_ftl b"
  then show "b \<notin> set [0]" using used_ftl_bad by blast
next
  fix b p :: int
  assume "b \<in> {1, 2, 3, 4, 5}" "pg used_ftl p"
  then show "(page used_ftl b p = - 1) = (b = CurrentFreeBlockID used_ftl \<and> CurrentFreePageID used_ftl \<le> p)"
    by (auto simp: used_ftl_blk at_def at2_def)
next
  fix b :: int
  assume "b \<in> {1, 2, 3, 4, 5}"
  then show "at (FreeBlockList used_ftl) b = - 2" by (auto simp: at_def)
qed simp_all

lemma used_ftl_settled: "settled [0] used_ftl"
  using used_ftl_core used_ftl_lay by (simp add: settled_def)

theorem FTLEraseOneBlock_correct_witness:
  "\<exists>t ys. FTLEraseOneBlock 5 used_ftl = Inr ((), t) \<and> settled ys t \<and>
    mapped t = {0, 1, 2, 3, 4, 5, 6} \<and> garbage t = garbage used_ftl - 1"
proof -
  have "invalid_cnt used_ftl 5 = 1" by (simp add: invalid_cnt_def cnt_def at_def)
  with FTLEraseOneBlock_correct [OF used_ftl_settled, of 5] show ?thesis
    by (auto simp: used_ftl_alloc used_ftl_mapped)
qed

text \<open>C2. The garbage collector ends: called without a current block, with the free list down to the
  reserve and the live data within the capacity, it erases blocks until one is free again, after
  at most as many rounds as the device has pages and one block's pages more (the fuel), without
  an overflow of the divider and with the same clusters mapped.\<close>

theorem FTLGarbageCollection_ends:
  assumes "settled xs s" "int (length xs) = LeastFreeBlocksInFBL s" "CurrentFreeBlockID s = - 1"
    and "live s \<le> capacity s" "1 \<le> InvalidPage2ValidPageDivider s" "- 1 \<le> CurrentScanningBlockID s"
    and "2 * MaxPage s \<le> INT_MAX" "MaxBlock s * MaxPage s + MaxPage s < int fuel"
  shows "\<exists>t ys. FTLGarbageCollection fuel s = Inr ((), t) \<and> settled ys t \<and> mapped t = mapped s \<and>
    CurrentFreePageID t < MaxPage t \<and> LeastFreeBlocksInFBL s < BlocksInFreeBlockList t"
proof -
  have "collecting s xs s" using assms(1-6) by (simp add: collecting_def)
  then have "wp (FTLGarbageCollection fuel)
      (\<lambda>_ t. \<exists>ys. collecting s ys t \<and> LeastFreeBlocksInFBL t < int (length ys)) s"
    using assms(4,7,8) by (intro wp_FTLGarbageCollection) auto
  then obtain t ys where t: "FTLGarbageCollection fuel s = Inr ((), t)" "collecting s ys t"
      "LeastFreeBlocksInFBL t < int (length ys)"
    by (auto simp: wp_result)
  have "fbl t ys" using t(2) lay_fbl by (auto simp: collecting_def settled_def)
  then have "BlocksInFreeBlockList t = int (length ys)" by (simp add: fbl_def)
  with t show ?thesis by (auto simp: collecting_def kept_def)
qed

text \<open>C2 applies to the device above, which holds seven live and three invalid pages.\<close>

theorem FTLGarbageCollection_ends_witness:
  "\<exists>t ys. FTLGarbageCollection 15 used_ftl = Inr ((), t) \<and> settled ys t \<and>
    mapped t = {0, 1, 2, 3, 4, 5, 6} \<and> 1 < BlocksInFreeBlockList t"
proof -
  have "live used_ftl \<le> capacity used_ftl"
    by (simp add: live_def capacity_def nbad_def cnt_def at_def)
  with FTLGarbageCollection_ends [OF used_ftl_settled, of 15] show ?thesis
    by (auto simp: used_ftl_mapped INT_MAX_def)
qed

section \<open>A full device\<close>

text \<open>
  Without a single invalid page and with the free list down to the reserve there is nothing to
  collect.
\<close>

definition full :: "'a ftl_scheme \<Rightarrow> bool" where
  "full s \<longleftrightarrow> core s \<and> garbage s = 0 \<and> BlocksInFreeBlockList s \<le> LeastFreeBlocksInFBL s \<and>
     0 < MaxBlock s \<and> 1 \<le> InvalidPage2ValidPageDivider s \<and> - 1 \<le> CurrentScanningBlockID s"

lemma full_no_victim:
  assumes "full s" "blk s b"
  shows "\<not> victim s b"
proof -
  have "invalid_cnt s b = 0"
    using assms sum_nonneg_eq_0_iff [of "{b. blk s b}" "invalid_cnt s"]
    by (simp add: full_def garbage_def invalid_cnt_def)
  moreover have "0 \<le> valid_cnt s b div InvalidPage2ValidPageDivider s"
    using assms(1) by (simp add: full_def valid_cnt_def pos_imp_zdiv_nonneg_iff)
  ultimately show ?thesis using assms by (simp add: victim_def full_def core_def cnt_ok_def)
qed

lemma full_collect_once:
  assumes "full s"
  shows "if 2 * InvalidPage2ValidPageDivider s \<le> INT_MAX
    then \<exists>t. collect_once s = Inr ((), t) \<and> full t \<and>
      InvalidPage2ValidPageDivider t = 2 * InvalidPage2ValidPageDivider s
    else collect_once s = Inl Signed_Overflow"
proof -
  have s: "core s" "0 < MaxBlock s" "1 \<le> InvalidPage2ValidPageDivider s" "- 1 \<le> CurrentScanningBlockID s"
    using assms by (auto simp: full_def)
  from wp_scan_all [OF s] obtain found f c where
    f: "scan_victim (nat (MaxBlock s)) s = Inr (found, scanned f c s)" "- 1 \<le> c"
      "if found then blk s c \<and> victim s c else \<forall>b. blk s b \<longrightarrow> \<not> victim s b"
    by (auto simp: wp_result)
  then have "\<not> found" using full_no_victim [OF assms] by auto
  then have run: "collect_once s = double_divider (scanned f c s)"
    using f(1) by (simp add: collect_once_def bindM_def getM_def)
  let ?d = "InvalidPage2ValidPageDivider s"
  let ?t = "(scanned f c s)\<lparr>InvalidPage2ValidPageDivider := ?d * 2\<rparr>"
  have "garbage ?t = garbage s" by (simp add: garbage_def)
  then have "full ?t" using assms f(2) by (simp add: full_def) (simp add: scanned_def)
  then show ?thesis
    unfolding run using s(3)
    by (auto simp: double_divider_def bindM_def getM_def chkM_def returnM_def failM_def modM_def
        int32_def INT_MAX_def)
qed

lemma full_gc:
  assumes "full s" "INT_MAX < InvalidPage2ValidPageDivider s * 2 ^ n" "0 < n"
  shows "FTLGarbageCollection n s = Inl Signed_Overflow"
  using assms
proof (induction n arbitrary: s)
  case (Suc n)
  have test: "bindM CheckFreeBlock (\<lambda>b. returnM (b = - 1)) s = Inr (True, s)"
    using Suc.prems(1) by (simp add: bindM_def CheckFreeBlock_def getM_def returnM_def full_def)
  show ?case
  proof (cases "2 * InvalidPage2ValidPageDivider s \<le> INT_MAX")
    case True
    then obtain t where t: "collect_once s = Inr ((), t)" "full t"
        "InvalidPage2ValidPageDivider t = 2 * InvalidPage2ValidPageDivider s"
      using full_collect_once [OF Suc.prems(1)] by auto
    have "0 < n" using Suc.prems(2) True by (cases n) auto
    then have "FTLGarbageCollection n t = Inl Signed_Overflow"
      using Suc.prems(2) t by (intro Suc.IH) (auto simp: ac_simps)
    then show ?thesis using t(1) test by (simp add: FTLGarbageCollection_def bindM_def thenM_def)
  next
    case False
    then have "collect_once s = Inl Signed_Overflow" using full_collect_once [OF Suc.prems(1)] by simp
    then show ?thesis using test by (simp add: FTLGarbageCollection_def bindM_def thenM_def)
  qed
qed simp

text \<open>C8. The collector does not cope with a full device: when no page is invalid and only the reserve
  is free it finds no victim, doubles the divider round after round, and runs into signed
  overflow after at most 31 rounds instead of giving up.\<close>

theorem FTLGarbageCollection_full_overflows:
  assumes "full s" "31 \<le> fuel"
  shows "FTLGarbageCollection fuel s = Inl Signed_Overflow"
proof (rule full_gc)
  have "INT_MAX < 2 ^ 31" by (simp add: INT_MAX_def)
  also have "(2::int) ^ 31 \<le> 1 * 2 ^ fuel" using power_increasing [OF assms(2), of "2::int"] by simp
  also have "\<dots> \<le> InvalidPage2ValidPageDivider s * 2 ^ fuel"
    using assms(1) by (intro mult_right_mono) (auto simp: full_def)
  finally show "INT_MAX < InvalidPage2ValidPageDivider s * 2 ^ fuel" .
qed (use assms in auto)

text \<open>C8 applies to the small device with ten clusters, one for each page outside the reserve, once
  all of them have been written.\<close>

definition full_ftl :: ftl where
  "full_ftl = used_ftl\<lparr>MaxCluster := 10,
     FlashMemory := [[-1, -1], [4, 5], [3, 6], [0, 2], [7, 8], [9, 1]],
     ValidPageCnt := [0, 2, 2, 2, 2, 2], InvalidPageCnt := replicate 6 0,
     FTLTable :=
       [\<lparr>Block = 3, Page = 0\<rparr>, \<lparr>Block = 5, Page = 1\<rparr>, \<lparr>Block = 3, Page = 1\<rparr>, \<lparr>Block = 2, Page = 0\<rparr>,
        \<lparr>Block = 1, Page = 0\<rparr>, \<lparr>Block = 1, Page = 1\<rparr>, \<lparr>Block = 2, Page = 1\<rparr>, \<lparr>Block = 4, Page = 0\<rparr>,
        \<lparr>Block = 4, Page = 1\<rparr>, \<lparr>Block = 5, Page = 0\<rparr>]\<rparr>"

lemma full_ftl_blk: "blk full_ftl b \<longleftrightarrow> b \<in> {0, 1, 2, 3, 4, 5}"
  "pg full_ftl p \<longleftrightarrow> p \<in> {0, 1}" "clu full_ftl c \<longleftrightarrow> c \<in> {0, 1, 2, 3, 4, 5, 6, 7, 8, 9}"
proof -
  have "0 \<le> c \<and> c < 10 \<longleftrightarrow> c \<in> {0, 1, 2, 3, 4, 5, 6, 7, 8, 9}" by (simp, presburger)
  then show "clu full_ftl c \<longleftrightarrow> c \<in> {0, 1, 2, 3, 4, 5, 6, 7, 8, 9}" by (simp add: full_ftl_def clu_def)
qed (auto simp: full_ftl_def blk_def pg_def)

lemma full_ftl_full: "full full_ftl"
proof -
  have m: "mapped full_ftl = {0, 1, 2, 3, 4, 5, 6, 7, 8, 9}"
    by (auto simp: mapped_def full_ftl_blk) (auto simp: full_ftl_def at_def)
  have "ftl_sized full_ftl"
    using used_ftl_fbl by (auto simp: ftl_sized_def full_ftl_blk) (auto simp: full_ftl_def fbl_def sized_def at_def)
  moreover have "map_ok {} full_ftl"
    by (auto simp: map_ok_def m full_ftl_blk) (auto simp: full_ftl_def at_def at2_def)
  moreover have "cnt_ok full_ftl"
    by (auto simp: cnt_ok_def full_ftl_blk valid_cnt_def invalid_cnt_def)
       (auto simp: full_ftl_def cnt_def at_def)
  moreover have "garbage full_ftl = 0"
    by (auto simp: garbage_def full_ftl_blk invalid_cnt_def intro!: sum.neutral)
       (auto simp: full_ftl_def cnt_def at_def)
  moreover have "BlocksInFreeBlockList full_ftl = 1"
    using used_ftl_fbl by (simp add: full_ftl_def fbl_def)
  moreover have "LeastFreeBlocksInFBL full_ftl = 1"
    using used_ftl_sel(13) by (simp add: full_ftl_def LeastFreeBlocksInFBL_def)
  ultimately show ?thesis by (simp add: full_def core_def) (simp add: full_ftl_def)
qed

theorem FTLGarbageCollection_full_overflows_witness:
  "FTLGarbageCollection 40 full_ftl = Inl Signed_Overflow"
  by (rule FTLGarbageCollection_full_overflows [OF full_ftl_full]) simp

section \<open>Requests\<close>

text \<open>C5. A write request of the host that lies on the device and fits into it is served completely:
  \<open>WritewithFTL\<close> returns, exactly the clusters that the LBAs of the request touch become mapped
  in addition to the ones mapped before, the invariant and the bookkeeping of accessed pages
  hold, and one write request is counted and no failure.\<close>

theorem WritewithFTL_serves_writes:
  assumes "request_ok s StartLBA len" "enough_fuel fuel s"
    and "int (card (mapped s \<union> {first_cluster s StartLBA .. last_cluster s StartLBA len})) \<le> capacity s"
  shows "\<exists>t w r fw fr. WritewithFTL fuel WriteType StartLBA len s = Inr ((), t) \<and> ftl_inv t \<and> books_ok t \<and>
    mapped t = mapped s \<union> {first_cluster s StartLBA .. last_cluster s StartLBA len} \<and>
    request_counts s = (w, r, fw, fr) \<and> request_counts t = (w + 1, r, fw, fr)"
  using wp_write_request [OF assms] by (auto simp: wp_result)

lemma small_ftl_request:
  assumes "0 \<le> a" "1 \<le> n" "a + n \<le> 8"
  shows "request_ok small_ftl a n"
  using assms small_ftl_inv
  by (simp add: request_ok_def books_ok_def book_ok_def cnt_id_empty last_cluster_def)

text \<open>C5 applies to a request for the LBAs 1 to 3 of the small device, whose pages have one LBA.\<close>

theorem WritewithFTL_serves_writes_witness:
  "\<exists>t. WritewithFTL 16 WriteType 1 3 small_ftl = Inr ((), t) \<and> mapped t = {0, 1, 2, 3} \<and>
    TotalWriteRequestCount (AccessStatistics t) = 1"
proof -
  have e: "mapped small_ftl \<union> {first_cluster small_ftl 1 .. last_cluster small_ftl 1 3} = {0, 1, 2, 3}"
    by (auto simp: small_ftl_mapped first_cluster_def last_cluster_def)
  have "request_ok small_ftl 1 3" by (rule small_ftl_request) auto
  from WritewithFTL_serves_writes [OF this, of 16, unfolded e] show ?thesis
    by (auto simp: small_ftl_capacity request_counts_def zero_statistics_def Let_def)
qed

text \<open>C6. A read request of the host changes neither the table nor the flash content.  It reads the
  clusters one after the other up to the first one that was never written, charges the time of
  a page read for each, and is counted as a read request if all its clusters are mapped and as
  one failed read otherwise.\<close>

theorem WritewithFTL_serves_reads:
  assumes "request_ok s StartLBA len"
  shows "\<exists>t. WritewithFTL fuel ReadType StartLBA len s = Inr ((), t) \<and> ftl_inv t \<and> books_ok t \<and>
    FTLTable t = FTLTable s \<and> FlashMemory t = FlashMemory s \<and>
    (let c = first_cluster s StartLBA; d = last_cluster s StartLBA len + 1;
         k = read_stop (mapped s) (nat (d - c)) c - c;
         a = AccessStatistics s; b = AccessStatistics t in
       TotalReadPageCount b = TotalReadPageCount a + k \<and>
       TotalReadRequestTime b = TotalReadRequestTime a + k * TIME_READ_PAGE s \<and>
       TotalReadRequestCount b = TotalReadRequestCount a + of_bool ({c ..< d} \<subseteq> mapped s) \<and>
       FailedReadOperation b = FailedReadOperation a + of_bool (\<not> {c ..< d} \<subseteq> mapped s))"
  using wp_read_request [OF assms, of fuel]
  by (cases "{first_cluster s StartLBA ..< last_cluster s StartLBA len + 1} \<subseteq> mapped s")
     (auto simp: wp_result Let_def)

text \<open>C6 applies to a read of the LBAs 0 to 3 of the small device, which stops at the third.\<close>

theorem WritewithFTL_serves_reads_witness:
  "\<exists>t. WritewithFTL 16 ReadType 0 4 small_ftl = Inr ((), t) \<and>
    TotalReadPageCount (AccessStatistics t) = 2 \<and> FailedReadOperation (AccessStatistics t) = 1"
proof -
  have "request_ok small_ftl 0 4" by (rule small_ftl_request) auto
  moreover have "read_stop {0, 1} 4 0 = 2" by (simp add: eval_nat_numeral)
  moreover have "2 \<in> {0 ..< 4 :: int}" "2 \<notin> {0, 1 :: int}" by simp_all
  then have "\<not> {0 ..< 4} \<subseteq> {0, 1 :: int}" by blast
  ultimately show ?thesis
    using WritewithFTL_serves_reads [of small_ftl 0 4 16]
    by (auto simp: Let_def small_ftl_mapped first_cluster_def last_cluster_def zero_statistics_def)
qed

text \<open>The layer does not check that a cluster exists: writing a cluster outside the table is an
  access outside the array, whatever the state of the device.\<close>

theorem SecureFTLWriteOneCluster_out_of_range:
  assumes "ftl_inv s" "c < 0 \<or> MaxCluster s \<le> c" "0 < fuel"
  shows "SecureFTLWriteOneCluster fuel c s = Inl Out_Of_Bounds"
proof -
  obtain n where n: "fuel = Suc n" using assms(3) by (cases fuel) auto
  have "ensure_current fuel s = Inr ((), s)"
    using assms(1) by (simp add: n ensure_current_def bindM_def getM_def returnM_def ftl_inv_def)
  moreover have "\<not> inb (FTLTable s) c"
    using ftl_sized_inb_table [OF ftl_inv_sized [OF assms(1)], of c] assms(2) by (simp add: clu_def) linarith
  ultimately show ?thesis
    by (simp add: SecureFTLWriteOneCluster_def blockM.simps thenM_def bindM_def FTLWriteOneCluster_def rd_def)
qed

text \<open>Applied to cluster 8 of the small device, which has eight clusters.\<close>

theorem SecureFTLWriteOneCluster_out_of_range_witness:
  "SecureFTLWriteOneCluster 16 8 small_ftl = Inl Out_Of_Bounds"
  using SecureFTLWriteOneCluster_out_of_range [OF small_ftl_inv, of 8 16] by simp

section \<open>Wear\<close>

text \<open>C7. Wear is accounted for exactly.  A write that fits the device returns, and the erases it counted
  balance the pages: the blocks it erased have as many pages as became free on the flash, plus
  the page it programmed, plus the live pages it copied.  The same number of erases was added
  to the counters of the blocks, \<open>MaxBlockEraseCnt\<close> still bounds all of them, every copy was
  counted as two page writes, and no parameter of the device changed.\<close>

theorem FTL_wear_accounting:
  assumes "ftl_inv s" "0 \<le> c" "c < MaxCluster s"
    and "int (card (insert c (mapped s))) \<le> capacity s" "enough_fuel fuel s"
  shows "\<exists>t erases copies. SecureFTLWriteOneCluster fuel c s = Inr ((), t) \<and>
    TotalBlockEraseCount (AccessStatistics t) = TotalBlockEraseCount (AccessStatistics s) + erases \<and>
    TotalLivePageCopyings (AccessStatistics t) = TotalLivePageCopyings (AccessStatistics s) + copies \<and> 0 \<le> copies \<and>
    MaxPage s * erases = free_pages t - free_pages s + 1 + copies \<and> MaxPage s * LeastFreeBlocksInFBL s < free_pages t \<and>
    TotalWritePageCount (AccessStatistics t) = TotalWritePageCount (AccessStatistics s) + 1 + 2 * copies \<and>
    sum_list (BlockEraseCnt t) = sum_list (BlockEraseCnt s) + erases \<and> (wear_bounded s \<longrightarrow> wear_bounded t) \<and>
    geometry.truncate t = geometry.truncate s"
proof -
  have "wp (SecureFTLWriteOneCluster fuel c)
      (\<lambda>_ t. ftl_inv t \<and> mapped t = insert c (mapped s) \<and> kept s t \<and> balanced (written c s) t) s"
    using assms by (intro wp_SecureFTLWriteOneCluster) (auto simp: clu_def)
  then obtain t where t: "SecureFTLWriteOneCluster fuel c s = Inr ((), t)" "ftl_inv t" "kept s t" "balanced (written c s) t"
    by (auto simp: wp_result)
  note b = balanced_write [OF assms(1) t(2-4)]
  have "MaxPage s * LeastFreeBlocksInFBL s < free_pages t"
    using free_pages_supply(2) [OF t(2)] t(3) by (simp add: kept_def)
  moreover note withinD [OF wear_sum.in_SecureFTLWriteOneCluster t(1)] withinD [OF params.in_SecureFTLWriteOneCluster t(1)]
    withinD [OF wear_max.in_SecureFTLWriteOneCluster t(1)]
  ultimately show ?thesis using t(1) b
    by (intro exI [of _ t] exI [of _ "TotalBlockEraseCount (AccessStatistics t) - TotalBlockEraseCount (AccessStatistics s)"]
        exI [of _ "TotalLivePageCopyings (AccessStatistics t) - TotalLivePageCopyings (AccessStatistics s)"])
       (simp add: erase_gap_def)
qed

text \<open>C7 applies to the device above while block 4 is the current one and has a single page left: the
  write of that page cannot do without an erase.\<close>

definition tight_ftl :: ftl where
  "tight_ftl = used_ftl\<lparr>FlashMemory := [[-1, -1], [4, 5], [3, 6], [0, 2], [-2, -1], [-2, 1]],
     InvalidPageCnt := [0, 0, 0, 0, 1, 1], CurrentFreeBlockID := 4, CurrentFreePageID := 1\<rparr>"

lemma tight_ftl_sel [simp]:
  "MaxBlock tight_ftl = 6" "MaxPage tight_ftl = 2" "MaxCluster tight_ftl = 8"
  "CurrentFreeBlockID tight_ftl = 4" "CurrentFreePageID tight_ftl = 1"
  "CurrentScanningBlockID tight_ftl = 0" "InvalidPage2ValidPageDivider tight_ftl = 1"
  "FlashMemory tight_ftl = [[-1, -1], [4, 5], [3, 6], [0, 2], [-2, -1], [-2, 1]]"
  "FreeBlockList tight_ftl = [-1, -2, -2, -2, -2, -2]" "FTLTable tight_ftl = FTLTable used_ftl"
  "ValidPageCnt tight_ftl = [0, 2, 2, 2, 0, 1]" "InvalidPageCnt tight_ftl = [0, 0, 0, 0, 1, 1]"
  "LeastFreeBlocksInFBL tight_ftl = 1" "AccessStatistics tight_ftl = zero_statistics"
  "blk tight_ftl = blk used_ftl" "pg tight_ftl = pg used_ftl" "clu tight_ftl = clu used_ftl" "mapped tight_ftl = mapped used_ftl"
  by (simp_all add: tight_ftl_def LeastFreeBlocksInFBL_def blk_def pg_def clu_def mapped_def fun_eq_iff)
     (simp_all add: used_ftl_def flash.defs ftl.defs small_flash_def)

lemma tight_ftl_bad: "blk used_ftl b \<Longrightarrow> \<not> bad tight_ftl b"
  by (auto simp: used_ftl_blk bad_def at2_def at_def)

lemma tight_ftl_alloc: "alloc tight_ftl [0] b \<longleftrightarrow> b \<in> {1, 2, 3, 4, 5}"
  using tight_ftl_bad [of b] by (auto simp: alloc_def used_ftl_blk)

lemma tight_ftl_fbl: "fbl tight_ftl [0]"
  using used_ftl_fbl by (simp add: fbl_def sized_def) (simp add: tight_ftl_def)

lemma tight_ftl_lay: "lay {} [0] tight_ftl"
  unfolding lay_def tight_ftl_alloc
proof (intro conjI allI impI)
  fix b p
  assume "blk tight_ftl b" "pg tight_ftl p"
  then show "if bad tight_ftl b then page tight_ftl b p = - 1 \<or> page tight_ftl b p = - 3
      else - 2 \<le> page tight_ftl b p"
    using tight_ftl_bad [of b] by (auto simp: used_ftl_blk at_def at2_def)
next
  fix b p :: int
  assume "b \<in> {1, 2, 3, 4, 5}" "pg tight_ftl p"
  then show "(page tight_ftl b p = - 1) = (b = CurrentFreeBlockID tight_ftl \<and> CurrentFreePageID tight_ftl \<le> p)"
    by (auto simp: used_ftl_blk at_def at2_def)
next
  show "fbl tight_ftl [0]" by (rule tight_ftl_fbl)
next
  fix b p :: int
  assume "b \<in> set [0]" "pg tight_ftl p"
  then show "page tight_ftl b p = - 1" by (auto simp: used_ftl_blk at_def at2_def)
next
  fix b
  assume "blk tight_ftl b" "bad tight_ftl b"
  then show "b \<notin> set [0]" using tight_ftl_bad by simp
next
  fix b :: int
  assume "b \<in> {1, 2, 3, 4, 5}"
  then show "at (FreeBlockList tight_ftl) b = - 2" by (auto simp: at_def)
qed simp_all

lemma tight_ftl_inv: "ftl_inv tight_ftl"
proof -
  have "ftl_sized tight_ftl" using tight_ftl_fbl by (auto simp: ftl_sized_def fbl_def used_ftl_blk at_def)
  moreover have "map_ok {} tight_ftl"
    by (auto simp: map_ok_def used_ftl_mapped used_ftl_blk at_def at2_def)
  moreover have "cnt_ok tight_ftl"
    by (auto simp: cnt_ok_def used_ftl_blk valid_cnt_def invalid_cnt_def cnt_def at_def)
  ultimately show ?thesis using tight_ftl_lay
    by (simp add: ftl_inv_def core_def INT_MAX_def) (rule exI [of _ "[0]"], simp)
qed

theorem FTL_wear_accounting_witness:
  "\<exists>t. SecureFTLWriteOneCluster 16 0 tight_ftl = Inr ((), t) \<and> 0 < TotalBlockEraseCount (AccessStatistics t) \<and>
    sum_list (BlockEraseCnt t) = TotalBlockEraseCount (AccessStatistics t)"
proof -
  have c: "insert 0 (mapped tight_ftl) = {0, 1, 2, 3, 4, 5, 6}" by (auto simp: used_ftl_mapped)
  have cap: "int (card (insert 0 (mapped tight_ftl))) \<le> capacity tight_ftl" "enough_fuel 16 tight_ftl"
    unfolding c by (simp_all add: capacity_def nbad_def cnt_def at_def enough_fuel_def)
  have bl: "{b. blk used_ftl b \<and> \<not> bad tight_ftl b} = {0, 1, 2, 3, 4, 5}"
    using tight_ftl_bad by (auto simp: used_ftl_blk)
  have "free_pages tight_ftl = 3" unfolding free_pages_def tight_ftl_sel bl by (simp add: free_cnt_def cnt_def at_def)
  moreover have "BlockEraseCnt tight_ftl = replicate 6 0"
    by (simp add: tight_ftl_def used_ftl_def flash.defs ftl.defs small_flash_def)
  moreover have "\<exists>t erases copies. SecureFTLWriteOneCluster 16 0 tight_ftl = Inr ((), t) \<and>
    TotalBlockEraseCount (AccessStatistics t) = TotalBlockEraseCount (AccessStatistics tight_ftl) + erases \<and>
    TotalLivePageCopyings (AccessStatistics t) = TotalLivePageCopyings (AccessStatistics tight_ftl) + copies \<and> 0 \<le> copies \<and>
    MaxPage tight_ftl * erases = free_pages t - free_pages tight_ftl + 1 + copies \<and>
    MaxPage tight_ftl * LeastFreeBlocksInFBL tight_ftl < free_pages t \<and>
    TotalWritePageCount (AccessStatistics t) = TotalWritePageCount (AccessStatistics tight_ftl) + 1 + 2 * copies \<and>
    sum_list (BlockEraseCnt t) = sum_list (BlockEraseCnt tight_ftl) + erases \<and> (wear_bounded tight_ftl \<longrightarrow> wear_bounded t) \<and>
    geometry.truncate t = geometry.truncate tight_ftl"
    by (rule FTL_wear_accounting [OF tight_ftl_inv _ _ cap]) simp_all
  ultimately show ?thesis by (auto simp: zero_statistics_def sum_list_replicate)
qed

end
