(* ===== verification/LRU_List.thy ===== *)
theory LRU_List
  imports Flash_Memory
begin

text \<open>
  The LRU lists of the simulator.  LRUList.h/LRUList.c and their copy for DFTL
  (LRUListDFTL.h/LRUListDFTL.c) keep the elements of a list in an array and link them twice: the
  used elements from the most to the least recently used one, and the free elements.  A function
  of the source that works on a list is a program on the record \<open>LRUList_t\<close>; a position that the
  source returns through a pointer is part of the result.
\<close>

section \<open>Data\<close>

abbreviation (input) LRU_ELEMENT_POINT_TO_NULL :: int where "LRU_ELEMENT_POINT_TO_NULL \<equiv> - 2"
abbreviation (input) LRU_ELEMENT_FREE :: int where "LRU_ELEMENT_FREE \<equiv> - 3"

record LRUElement_t =
  el_next :: int
  el_previous :: int
  el_key :: int
  el_dirty :: bool

record LRUList_t =
  Element :: "LRUElement_t list"
  Head :: int
  Tail :: int
  Len :: int
  FreeHead :: int
  FreeTail :: int
  FreeLen :: int

text \<open>An assignment to a field of the element at position \<open>i\<close>.\<close>

definition link :: "int \<Rightarrow> (LRUElement_t \<Rightarrow> LRUElement_t) \<Rightarrow> LRUElement_t list \<Rightarrow> LRUElement_t list" where
  "link i f es = upd es i (f (at es i))"

definition modE :: "int \<Rightarrow> (LRUElement_t \<Rightarrow> LRUElement_t) \<Rightarrow> ('a LRUList_t_scheme, unit) prog" where
  "modE i f = (\<lambda>l. if inb (Element l) i then Inr ((), Element_update (link i f) l) else Inl Out_Of_Bounds)"

abbreviation (input) set_next :: "int \<Rightarrow> LRUElement_t \<Rightarrow> LRUElement_t" where
  "set_next v \<equiv> el_next_update (\<lambda>_. v)"
abbreviation (input) set_previous :: "int \<Rightarrow> LRUElement_t \<Rightarrow> LRUElement_t" where
  "set_previous v \<equiv> el_previous_update (\<lambda>_. v)"
abbreviation (input) set_key :: "int \<Rightarrow> LRUElement_t \<Rightarrow> LRUElement_t" where
  "set_key v \<equiv> el_key_update (\<lambda>_. v)"
abbreviation (input) set_dirty :: "bool \<Rightarrow> LRUElement_t \<Rightarrow> LRUElement_t" where
  "set_dirty v \<equiv> el_dirty_update (\<lambda>_. v)"

section \<open>Operations\<close>

text \<open>
  \<open>fresh\<close> is the content of an element of the memory just allocated.  The writes behind the loop
  index the first and the last element, which a list of length 0 does not have.
\<close>

definition CreateLRUList :: "LRUElement_t \<Rightarrow> int \<Rightarrow> ('a LRUList_t_scheme, bool) prog" where
  "CreateLRUList fresh len = thenM (blockM
     [modM (Element_update (\<lambda>_. replicate (nat len) fresh)),
      forM 0 len (\<lambda>i. modE i (\<lambda>e. e\<lparr>el_key := LRU_ELEMENT_FREE, el_next := i + 1,
        el_previous := i - 1, el_dirty := False\<rparr>)),
      modE 0 (set_previous LRU_ELEMENT_POINT_TO_NULL),
      modE (len - 1) (set_next LRU_ELEMENT_POINT_TO_NULL),
      modM (Head_update (\<lambda>_. 0)),
      modM (Tail_update (\<lambda>_. 0)),
      modM (Len_update (\<lambda>_. 0)),
      modM (FreeHead_update (\<lambda>_. 0)),
      modM (FreeTail_update (\<lambda>_. len - 1)),
      modM (FreeLen_update (\<lambda>_. len))]) (returnM True)"

definition IsLRUListFull :: "('a LRUList_t_scheme, bool) prog" where
  "IsLRUListFull = getM (\<lambda>l. FreeLen l = 0)"

text \<open>
  The search: whether the key was found, its position or -1, and the number of elements checked.
  \<open>search n key ptr num\<close> is the loop with \<open>n\<close> iterations left.
\<close>

fun search :: "nat \<Rightarrow> int \<Rightarrow> int \<Rightarrow> int \<Rightarrow> ('a LRUList_t_scheme, bool \<times> int \<times> int) prog" where
  "search 0 key ptr num = returnM (False, - 1, num)"
| "search (Suc n) key ptr num =
     bindM (rd Element ptr) (\<lambda>e.
       if el_key e = key then returnM (True, ptr, num + 1)
       else search n key (el_next e) (num + 1))"

definition IsElemenetInLRUList :: "int \<Rightarrow> ('a LRUList_t_scheme, bool \<times> int \<times> int) prog" where
  "IsElemenetInLRUList key =
     bindM (getM Head) (\<lambda>ptr. bindM (getM Len) (\<lambda>n. search (nat n) key ptr 0))"

definition IsElementDirty :: "int \<Rightarrow> ('a LRUList_t_scheme, bool) prog" where
  "IsElementDirty pos = bindM (rd Element pos) (\<lambda>e. returnM (el_dirty e))"

definition SetElementDirty :: "int \<Rightarrow> int \<Rightarrow> ('a LRUList_t_scheme, bool) prog" where
  "SetElementDirty key pos = bindM (rd Element pos) (\<lambda>e.
     if el_key e \<noteq> key then returnM False
     else thenM (modE pos (set_dirty True)) (returnM True))"

definition ClearElementDirty :: "int \<Rightarrow> int \<Rightarrow> ('a LRUList_t_scheme, bool) prog" where
  "ClearElementDirty key pos = bindM (rd Element pos) (\<lambda>e.
     if el_key e \<noteq> key then returnM False
     else thenM (modE pos (set_dirty False)) (returnM True))"

definition PutElementToFreeElementList :: "int \<Rightarrow> ('a LRUList_t_scheme, unit) prog" where
  "PutElementToFreeElementList pos = blockM
     [modM (FreeLen_update (\<lambda>n. n + 1)),
      bindM (getM FreeLen) (\<lambda>n.
        if n = 1 then blockM
          [modE pos (set_next LRU_ELEMENT_POINT_TO_NULL),
           modE pos (set_previous LRU_ELEMENT_POINT_TO_NULL),
           modM (FreeHead_update (\<lambda>_. pos)),
           modM (FreeTail_update (\<lambda>_. pos))]
        else blockM
          [modE pos (set_previous LRU_ELEMENT_POINT_TO_NULL),
           bindM (getM FreeHead) (\<lambda>h. modE pos (set_next h)),
           bindM (getM FreeHead) (\<lambda>h. modE h (set_previous pos)),
           modM (FreeHead_update (\<lambda>_. pos))]),
      modE pos (set_key LRU_ELEMENT_FREE)]"

text \<open>The element taken from the tail of the free list, or None when the list is full.\<close>

definition GetElementFromFreeElementList :: "('a LRUList_t_scheme, int option) prog" where
  "GetElementFromFreeElementList =
     bindM (getM FreeLen) (\<lambda>n.
       if n = 0 then returnM None
       else thenM (modM (FreeLen_update (\<lambda>n. n - 1)))
      (bindM (getM FreeTail) (\<lambda>pos.
       thenM (bindM (getM FreeLen) (\<lambda>n.
         if n = 0 then blockM
           [modM (FreeHead_update (\<lambda>_. LRU_ELEMENT_POINT_TO_NULL)),
            modM (FreeTail_update (\<lambda>_. LRU_ELEMENT_POINT_TO_NULL))]
         else blockM
           [bindM (getM FreeTail) (\<lambda>t. bindM (rd Element t) (\<lambda>e.
              modM (FreeTail_update (\<lambda>_. el_previous e)))),
            bindM (getM FreeTail) (\<lambda>t. modE t (set_next LRU_ELEMENT_POINT_TO_NULL))]))
      (returnM (Some pos)))))"

text \<open>Taking the element at \<open>pos\<close> out of the links of a list with more than one element.\<close>

definition unlink :: "int \<Rightarrow> ('a LRUList_t_scheme, unit) prog" where
  "unlink pos =
     bindM (getM Head) (\<lambda>h. bindM (getM Tail) (\<lambda>t.
       if pos = h then blockM
         [bindM (rd Element pos) (\<lambda>e. modM (Head_update (\<lambda>_. el_next e))),
          bindM (getM Head) (\<lambda>h. modE h (set_previous LRU_ELEMENT_POINT_TO_NULL))]
       else if pos = t then blockM
         [bindM (rd Element pos) (\<lambda>e. modM (Tail_update (\<lambda>_. el_previous e))),
          bindM (getM Tail) (\<lambda>t. modE t (set_next LRU_ELEMENT_POINT_TO_NULL))]
       else blockM
         [bindM (rd Element pos) (\<lambda>e. modE (el_previous e) (set_next (el_next e))),
          bindM (rd Element pos) (\<lambda>e. modE (el_next e) (set_previous (el_previous e)))]))"

definition RemoveElemenetFromLRUList :: "int \<Rightarrow> int \<Rightarrow> ('a LRUList_t_scheme, bool) prog" where
  "RemoveElemenetFromLRUList key pos = bindM (rd Element pos) (\<lambda>e.
     if el_key e \<noteq> key then returnM False
     else thenM (blockM
       [bindM (getM Len) (\<lambda>n. whenM (n > 1) (unlink pos)),
        modM (Len_update (\<lambda>n. n - 1)),
        PutElementToFreeElementList pos]) (returnM True))"

text \<open>Linking the element at \<open>pos\<close> in front of the head.\<close>

definition push_front :: "int \<Rightarrow> ('a LRUList_t_scheme, unit) prog" where
  "push_front pos = blockM
     [bindM (getM Head) (\<lambda>h. modE pos (set_next h)),
      modE pos (set_previous LRU_ELEMENT_POINT_TO_NULL),
      bindM (getM Head) (\<lambda>h. modE h (set_previous pos)),
      modM (Head_update (\<lambda>_. pos))]"

definition MoveElemenetToTheHeadofLRUList :: "int \<Rightarrow> int \<Rightarrow> ('a LRUList_t_scheme, bool) prog" where
  "MoveElemenetToTheHeadofLRUList key pos = bindM (rd Element pos) (\<lambda>e.
     if el_key e \<noteq> key then returnM False
     else thenM (bindM (getM Len) (\<lambda>n. whenM (n > 1) (blockM [unlink pos, push_front pos])))
       (returnM True))"

text \<open>The key and the position of the removed tail, or None for an empty list.\<close>

definition RemoveTheTailElemenetFromLRUList :: "('a LRUList_t_scheme, (int \<times> int) option) prog" where
  "RemoveTheTailElemenetFromLRUList = bindM (getM Len) (\<lambda>n.
     if n = 0 then returnM None
     else thenM (modM (Len_update (\<lambda>n. n - 1)))
    (bindM (getM Tail) (\<lambda>pos. bindM (rd Element pos) (\<lambda>e.
     thenM (bindM (getM Len) (\<lambda>n. whenM (n > 0) (blockM
       [bindM (getM Tail) (\<lambda>t. bindM (rd Element t) (\<lambda>e. modM (Tail_update (\<lambda>_. el_previous e)))),
        bindM (getM Tail) (\<lambda>t. modE t (set_next LRU_ELEMENT_POINT_TO_NULL))])))
    (thenM (PutElementToFreeElementList pos) (returnM (Some (el_key e, pos))))))))"

text \<open>The position of the new head, or None when no element is free.\<close>

definition PutElementToTheHeadOfLRUList :: "int \<Rightarrow> ('a LRUList_t_scheme, int option) prog" where
  "PutElementToTheHeadOfLRUList key = bindM GetElementFromFreeElementList (\<lambda>r. case r of
     None \<Rightarrow> returnM None
   | Some pos \<Rightarrow> thenM (blockM
       [modE pos (set_key key),
        modM (Len_update (\<lambda>n. n + 1)),
        bindM (getM Len) (\<lambda>n.
          if n = 1 then blockM
            [modE pos (set_next LRU_ELEMENT_POINT_TO_NULL),
             modE pos (set_previous LRU_ELEMENT_POINT_TO_NULL),
             modM (Head_update (\<lambda>_. pos)),
             modM (Tail_update (\<lambda>_. pos))]
          else push_front pos)]) (returnM (Some pos)))"

text \<open>
  The loop of the source does not end for a list without elements, so it takes fuel; two rounds
  are enough otherwise.
\<close>

fun PutElemenetToLRUList :: "nat \<Rightarrow> int \<Rightarrow> ('a LRUList_t_scheme, int) prog" where
  "PutElemenetToLRUList 0 key = failM Out_Of_Fuel"
| "PutElemenetToLRUList (Suc n) key = bindM (PutElementToTheHeadOfLRUList key) (\<lambda>r. case r of
     Some pos \<Rightarrow> returnM pos
   | None \<Rightarrow> thenM RemoveTheTailElemenetFromLRUList (PutElemenetToLRUList n key))"

end
