(* ===== verification/LRU_Refinement.thy ===== *)
theory LRU_Refinement
  imports LRU_List
begin

text \<open>
  The doubly linked lists of LRU_List hold two lists of positions: \<open>lru l xs fs\<close> says that the
  used elements of \<open>l\<close> are \<open>xs\<close>, from the most to the least recently used one, and the free
  elements are \<open>fs\<close>.  Every operation of the source is shown to be the corresponding operation
  on these lists.
\<close>

section \<open>Segments of a doubly linked list\<close>

text \<open>\<open>dseg es p xs n\<close>: the elements \<open>xs\<close> of \<open>es\<close> are linked in both directions, between \<open>p\<close> and \<open>n\<close>.\<close>

primrec dseg :: "LRUElement_t list \<Rightarrow> int \<Rightarrow> int list \<Rightarrow> int \<Rightarrow> bool" where
  "dseg es p [] n \<longleftrightarrow> True"
| "dseg es p (x # xs) n \<longleftrightarrow> inb es x \<and> el_previous (at es x) = p \<and>
     el_next (at es x) = (case xs of [] \<Rightarrow> n | y # _ \<Rightarrow> y) \<and> dseg es x xs n"

lemma wp_modE [wp]:
  "wp (modE i f) Q = (\<lambda>l. inb (Element l) i \<and> Q () (Element_update (link i f) l))"
  by (simp add: wp_def modE_def fun_eq_iff)

lemma length_link [simp]: "length (link i f es) = length es"
  by (simp add: link_def)

lemma inb_link [simp]: "inb (link i f es) j = inb es j"
  by (simp add: inb_def)

lemma at_link: "inb es i \<Longrightarrow> 0 \<le> j \<Longrightarrow> at (link i f es) j = (if i = j then f (at es i) else at es j)"
  by (simp add: link_def at_upd)

lemma at_link_eq [simp]: "inb es i \<Longrightarrow> at (link i f es) i = f (at es i)"
  by (simp add: link_def)

lemma dseg_inb: "dseg es p xs n \<Longrightarrow> x \<in> set xs \<Longrightarrow> inb es x"
  by (induction xs arbitrary: p) auto

lemma dseg_link_notin [simp]:
  "i \<notin> set xs \<Longrightarrow> inb es i \<Longrightarrow> dseg (link i f es) p xs n = dseg es p xs n"
  by (induction xs arbitrary: p) (auto simp: at_link inb_nonneg)

lemma dseg_append:
  "dseg es p (xs @ ys) n \<longleftrightarrow>
     dseg es p xs (case ys of [] \<Rightarrow> n | y # _ \<Rightarrow> y) \<and> dseg es (if xs = [] then p else last xs) ys n"
  by (induction xs arbitrary: p) (auto split: list.splits)

lemma dseg_link_same:
  assumes "\<And>e. el_next (f e) = el_next e \<and> el_previous (f e) = el_previous e" "inb es i"
  shows "dseg (link i f es) p xs n = dseg es p xs n"
  using assms by (induction xs arbitrary: p) (simp_all add: at_link inb_nonneg cong: conj_cong)

lemma dseg_set_previous:
  assumes "dseg es p (x # xs) n" "x \<notin> set xs"
  shows "dseg (link x (set_previous q) es) q (x # xs) n"
  using assms by simp

lemma dseg_set_next:
  assumes "dseg es p (xs @ [x]) n" "x \<notin> set xs"
  shows "dseg (link x (set_next m) es) p (xs @ [x]) m"
  using assms by (auto simp: dseg_append)

section \<open>The list held by a record\<close>

text \<open>Keys and dirty flags, which the links do not touch.\<close>

definition kd :: "LRUElement_t list \<Rightarrow> (int \<times> bool) list" where
  "kd es = map (\<lambda>e. (el_key e, el_dirty e)) es"

lemma length_kd [simp]: "length (kd es) = length es"
  by (simp add: kd_def)

lemma inb_kd [simp]: "inb (kd es) i = inb es i"
  by (simp add: inb_def)

lemma at_kd: "inb es i \<Longrightarrow> at (kd es) i = (el_key (at es i), el_dirty (at es i))"
  by (auto simp: kd_def at_def inb_def)

lemma kd_eqI:
  assumes "length es = length ks"
    and "\<And>i. inb es i \<Longrightarrow> (el_key (at es i), el_dirty (at es i)) = at ks i"
  shows "kd es = ks"
  using assms by (intro list_eq_at) (auto simp: at_kd)

definition lru :: "'a LRUList_t_scheme \<Rightarrow> int list \<Rightarrow> int list \<Rightarrow> bool" where
  "lru l xs fs \<longleftrightarrow> distinct (xs @ fs) \<and>
     dseg (Element l) LRU_ELEMENT_POINT_TO_NULL xs LRU_ELEMENT_POINT_TO_NULL \<and>
     dseg (Element l) LRU_ELEMENT_POINT_TO_NULL fs LRU_ELEMENT_POINT_TO_NULL \<and>
     Len l = int (length xs) \<and> FreeLen l = int (length fs) \<and>
     (xs \<noteq> [] \<longrightarrow> Head l = hd xs \<and> Tail l = last xs) \<and>
     (fs \<noteq> [] \<longrightarrow> FreeHead l = hd fs \<and> FreeTail l = last fs)"

lemma lru_inb: "lru l xs fs \<Longrightarrow> x \<in> set (xs @ fs) \<Longrightarrow> inb (Element l) x"
  by (auto simp: lru_def dest: dseg_inb)

lemma lru_headD:
  assumes "lru l (x # xs) fs"
  shows "Head l = x" "inb (Element l) x" "el_next (at (Element l) x) = (case xs of [] \<Rightarrow> - 2 | y # _ \<Rightarrow> y)"
  using assms by (auto simp: lru_def)

text \<open>Putting an element back and taking one.\<close>

lemma wp_PutElementToFreeElementList:
  assumes "lru l xs fs" "inb (Element l) pos" "pos \<notin> set (xs @ fs)"
  shows "wp (PutElementToFreeElementList pos) (\<lambda>_ l'. lru l' xs (pos # fs) \<and>
    kd (Element l') = upd (kd (Element l)) pos (LRU_ELEMENT_FREE, el_dirty (at (Element l) pos))) l"
proof (cases fs)
  case Nil
  have "lru (Element_update (link pos (set_key (- 3)) \<circ> link pos (set_previous (- 2)) \<circ> link pos (set_next (- 2)))
      (FreeTail_update (\<lambda>_. pos) (FreeHead_update (\<lambda>_. pos) (FreeLen_update (\<lambda>n. n + 1) l)))) xs [pos]"
    using assms Nil by (simp add: lru_def dseg_link_same)
  moreover have "kd (link pos (set_key (- 3)) (link pos (set_previous (- 2)) (link pos (set_next (- 2)) (Element l)))) =
      upd (kd (Element l)) pos (- 3, el_dirty (at (Element l) pos))"
    using assms(2) by (intro kd_eqI) (auto simp: at_link at_upd at_kd inb_nonneg)
  ultimately show ?thesis
    using assms Nil by (simp add: PutElementToFreeElementList_def wp lru_def comp_def)
next
  case (Cons h hs)
  have h: "FreeHead l = h" "inb (Element l) h" "h \<noteq> pos" "h \<notin> set xs" "h \<notin> set hs"
    using assms Cons by (auto simp: lru_def)
  let ?e = "link pos (set_key (- 3)) (link h (set_previous pos) (link pos (set_next h)
    (link pos (set_previous (- 2)) (Element l))))"
  have hp: "0 \<le> h" "0 \<le> pos" using h(2) assms(2) by (auto simp: inb_nonneg)
  have "dseg ?e (- 2) xs (- 2)" using assms h by (simp add: lru_def dseg_link_same)
  moreover have "dseg ?e (- 2) (pos # h # hs) (- 2)"
    using assms h Cons hp by (auto simp: lru_def dseg_link_same at_link)
  ultimately have "lru (l\<lparr>Element := ?e, FreeHead := pos, FreeLen := FreeLen l + 1\<rparr>) xs (pos # fs)"
    using assms Cons by (simp add: lru_def)
  moreover have "kd ?e = upd (kd (Element l)) pos (- 3, el_dirty (at (Element l) pos))"
    using assms(2) h hp by (intro kd_eqI) (auto simp: at_link at_upd at_kd inb_nonneg)
  ultimately show ?thesis
    using assms Cons h
    by (simp add: PutElementToFreeElementList_def wp lru_def comp_def)
qed

lemma kd_link [simp]:
  assumes "\<And>e. el_key (f e) = el_key e \<and> el_dirty (f e) = el_dirty e" "inb es i"
  shows "kd (link i f es) = kd es"
  using assms by (intro kd_eqI) (auto simp: at_link at_kd inb_nonneg)

lemma kd_link_upd:
  assumes "inb es i"
  shows "kd (link i f es) = upd (kd es) i (el_key (f (at es i)), el_dirty (f (at es i)))"
  using assms by (intro kd_eqI) (auto simp: at_link at_upd at_kd inb_nonneg)

lemma wp_GetElementFromFreeElementList:
  assumes "lru l xs fs"
  shows "wp GetElementFromFreeElementList (\<lambda>r l'. if fs = [] then r = None \<and> l' = l
    else r = Some (last fs) \<and> lru l' xs (butlast fs) \<and> kd (Element l') = kd (Element l)) l"
proof (cases fs rule: rev_cases)
  case Nil
  then show ?thesis using assms by (simp add: GetElementFromFreeElementList_def wp lru_def)
next
  case (snoc gs f)
  have f: "FreeTail l = f" "inb (Element l) f" using assms snoc by (auto simp: lru_def dseg_append)
  show ?thesis
  proof (cases gs rule: rev_cases)
    case Nil
    then show ?thesis
      using assms snoc f by (simp add: GetElementFromFreeElementList_def wp lru_def)
  next
    case g: (snoc hs g)
    have d: "dseg (Element l) (- 2) (hs @ [g]) f" "el_previous (at (Element l) f) = g"
        "g \<notin> set hs" "g \<notin> set xs" "inb (Element l) g"
      using assms snoc g by (auto simp: lru_def dseg_append)
    have "dseg (link g (set_next (- 2)) (Element l)) (- 2) (hs @ [g]) (- 2)"
      using dseg_set_next [OF d(1,3)] .
    moreover have "butlast fs = hs @ [g]" "last fs = f" "fs \<noteq> []" "hd fs = hd (hs @ [g])"
      using snoc g by (simp_all add: hd_append butlast_append)
    ultimately show ?thesis
      using assms snoc g f d by (simp add: GetElementFromFreeElementList_def wp lru_def)
  qed
qed

section \<open>Unlinking and pushing\<close>

text \<open>Between the two the length is not yet adjusted.\<close>

definition lru_but_len :: "'a LRUList_t_scheme \<Rightarrow> int list \<Rightarrow> int list \<Rightarrow> bool" where
  "lru_but_len l xs fs \<longleftrightarrow> lru (l\<lparr>Len := int (length xs)\<rparr>) xs fs"

lemma wp_unlink:
  assumes "lru l xs fs" "pos \<in> set xs" "1 < length xs"
  shows "wp (unlink pos) (\<lambda>_ l'. lru_but_len l' (remove1 pos xs) fs \<and> Len l' = Len l \<and>
    kd (Element l') = kd (Element l)) l"
proof -
  obtain as bs where xs: "xs = as @ pos # bs" using assms(2) by (auto simp: in_set_conv_decomp)
  have p: "inb (Element l) pos" "pos \<notin> set as" "pos \<notin> set bs" "pos \<notin> set fs"
    using assms(1) xs by (auto simp: lru_def dseg_append)
  have r: "remove1 pos xs = as @ bs" using p(2) xs by (simp add: remove1_append)
  show ?thesis
  proof (cases "as = []")
    case True
    then obtain b cs where bs: "bs = b # cs" using assms(3) xs by (cases bs) auto
    have "Head l = pos" "el_next (at (Element l) pos) = b" "inb (Element l) b" "b \<notin> set cs" "b \<notin> set fs"
      using assms(1) xs True bs by (auto simp: lru_def)
    then show ?thesis
      using assms(1) xs True bs p unfolding r
      by (simp add: unlink_def wp lru_but_len_def lru_def)
  next
    case False
    then obtain cs a where as: "as = cs @ [a]" by (cases as rule: rev_cases) auto
    have a: "el_previous (at (Element l) pos) = a" "inb (Element l) a" "a \<noteq> pos" "a \<notin> set cs"
        "a \<notin> set fs" "a \<notin> set bs" "dseg (Element l) (- 2) (cs @ [a]) pos"
      using assms(1) xs as p(2) by (auto simp: lru_def dseg_append)
    have "Head l = hd as" using assms(1) xs False by (simp add: lru_def)
    then have hp: "Head l \<noteq> pos" using p(2) False hd_in_set [of as] by auto
    note an = dseg_set_next [OF a(7,4)]
    show ?thesis
    proof (cases bs)
      case Nil
      then have "Tail l = pos" using assms(1) xs by (simp add: lru_def)
      then show ?thesis
        using assms(1) xs as Nil p a an hp unfolding r
        by (simp add: unlink_def wp lru_but_len_def lru_def hd_append)
    next
      case (Cons b ds)
      have "Tail l = last bs" using assms(1) xs Cons by (simp add: lru_def)
      then have tp: "Tail l \<noteq> pos" using p(3) Cons last_in_set [of bs] by auto
      have b: "el_next (at (Element l) pos) = b" "inb (Element l) b" "b \<noteq> pos"
          "b \<notin> set (cs @ [a])" "b \<notin> set ds" "b \<notin> set fs" "dseg (Element l) pos (b # ds) (- 2)"
        using assms(1) xs as Cons p(3) by (auto simp: lru_def dseg_append)
      let ?e = "link b (set_previous a) (link a (set_next b) (Element l))"
      have "dseg ?e (- 2) (cs @ [a]) b" using an b a by simp
      moreover have "dseg ?e a (b # ds) (- 2)"
      proof (rule dseg_set_previous)
        have "a \<notin> set (b # ds)" using a(6) Cons by simp
        then show "dseg (link a (set_next b) (Element l)) pos (b # ds) (- 2)"
          using b(7) a(2) dseg_link_notin by blast
      qed (use b(5) in simp)
      ultimately have "dseg ?e (- 2) ((cs @ [a]) @ (b # ds)) (- 2)"
        unfolding dseg_append [of _ _ "cs @ [a]"] by (simp del: dseg.simps)
      then have "dseg ?e (- 2) (as @ bs) (- 2)" using as Cons by simp
      moreover have "at (link a (set_next b) (Element l)) pos = at (Element l) pos"
        using a p by (simp add: at_link inb_nonneg)
      ultimately show ?thesis
        using assms(1) xs as Cons p a b hp tp unfolding r
        by (simp add: unlink_def wp lru_but_len_def lru_def hd_append comp_def)
    qed
  qed
qed

lemma wp_push_front:
  assumes "lru_but_len l xs fs" "xs \<noteq> []" "inb (Element l) pos" "pos \<notin> set (xs @ fs)"
    and "Len l = int (length xs) + 1"
  shows "wp (push_front pos) (\<lambda>_ l'. lru l' (pos # xs) fs \<and> kd (Element l') = kd (Element l)) l"
proof -
  obtain h hs where xs: "xs = h # hs" using assms(2) by (cases xs) auto
  have h: "Head l = h" "inb (Element l) h" "h \<noteq> pos" "h \<notin> set hs" "h \<notin> set fs"
      "dseg (Element l) (- 2) (h # hs) (- 2)"
    using assms(1,4) xs by (auto simp: lru_but_len_def lru_def)
  let ?e = "link h (set_previous pos) (link pos (set_previous (- 2)) (link pos (set_next h) (Element l)))"
  have "dseg ?e pos (h # hs) (- 2)" using h assms(3,4) xs
    by (intro dseg_set_previous [where p = "- 2"]) (auto simp: at_link inb_nonneg)
  then have "dseg ?e (- 2) (pos # h # hs) (- 2)"
    using h assms(3) by (auto simp: at_link inb_nonneg)
  then show ?thesis
    using assms xs h by (simp add: push_front_def wp lru_but_len_def lru_def comp_def)
qed

section \<open>Operations on the keys\<close>

lemma wp_MoveElemenetToTheHeadofLRUList:
  assumes "lru l xs fs" "pos \<in> set xs"
  shows "wp (MoveElemenetToTheHeadofLRUList key pos) (\<lambda>r l'. kd (Element l') = kd (Element l) \<and>
    (if el_key (at (Element l) pos) = key then r \<and> lru l' (pos # remove1 pos xs) fs
     else \<not> r \<and> l' = l)) l"
proof -
  have i: "inb (Element l) pos" using lru_inb [OF assms(1)] assms(2) by auto
  have len: "Len l = int (length xs)" and d: "distinct (xs @ fs)" using assms(1) by (auto simp: lru_def)
  have move: "wp (blockM [unlink pos, push_front pos])
      (\<lambda>_ l'. lru l' (pos # remove1 pos xs) fs \<and> kd (Element l') = kd (Element l)) l" if "1 < length xs"
    unfolding wp_blockM_Cons [of "unlink pos"]
  proof (rule wp_mono [OF wp_unlink [OF assms that]])
    fix x l'
    assume l': "lru_but_len l' (remove1 pos xs) fs \<and> Len l' = Len l \<and> kd (Element l') = kd (Element l)"
    have "length (Element l') = length (Element l)" using l' length_kd by metis
    then have "inb (Element l') pos" using i by (simp add: inb_def)
    moreover have "remove1 pos xs \<noteq> []" "length (remove1 pos xs) = length xs - 1"
      using that assms(2) by (auto simp: length_remove1 simp flip: length_greater_0_conv)
    ultimately have "wp (push_front pos) (\<lambda>_ k. lru k (pos # remove1 pos xs) fs \<and>
        kd (Element k) = kd (Element l')) l'"
      using l' len d that assms(2) by (intro wp_push_front) auto
    then show "wp (blockM [push_front pos]) (\<lambda>_ k. lru k (pos # remove1 pos xs) fs \<and>
        kd (Element k) = kd (Element l)) l'"
      using l' by (simp add: wp)
  qed
  show ?thesis
  proof (cases "1 < length xs")
    case True
    then show ?thesis
      using i len wp_mono [OF move [OF True]]
      by (auto simp: MoveElemenetToTheHeadofLRUList_def wp elim!: wp_mono [OF move [OF True], unfolded wp])
  next
    case False
    then have "xs = [pos]" using assms(2) by (cases xs) auto
    then show ?thesis using i len assms(1) by (simp add: MoveElemenetToTheHeadofLRUList_def wp)
  qed
qed

lemma lru_len: "lru l xs fs \<Longrightarrow> Len l = int (length xs)"
  by (simp add: lru_def)

lemma lru_but_lenD: "lru_but_len l xs fs \<Longrightarrow> Len l = int (length xs) \<Longrightarrow> lru l xs fs"
  by (simp add: lru_but_len_def lru_def)

lemma wp_RemoveElemenetFromLRUList:
  assumes "lru l xs fs" "pos \<in> set xs"
  shows "wp (RemoveElemenetFromLRUList key pos) (\<lambda>r l'.
    if el_key (at (Element l) pos) = key
    then r \<and> lru l' (remove1 pos xs) (pos # fs) \<and>
      kd (Element l') = upd (kd (Element l)) pos (LRU_ELEMENT_FREE, el_dirty (at (Element l) pos))
    else \<not> r \<and> l' = l) l"
proof -
  have i: "inb (Element l) pos" using lru_inb [OF assms(1)] assms(2) by auto
  have len: "Len l = int (length xs)" and d: "distinct (xs @ fs)" using assms(1) by (auto simp: lru_def)
  let ?post = "\<lambda>l'. lru l' (remove1 pos xs) (pos # fs) \<and>
    kd (Element l') = upd (kd (Element l)) pos (- 3, el_dirty (at (Element l) pos))"
  have put: "wp (PutElementToFreeElementList pos) (\<lambda>_. ?post) l'"
    if l': "lru l' (remove1 pos xs) fs" "kd (Element l') = kd (Element l)" for l'
  proof -
    have "length (Element l') = length (Element l)" using l'(2) length_kd by metis
    then have il: "inb (Element l') pos" using i by (simp add: inb_def)
    have "el_dirty (at (Element l') pos) = el_dirty (at (Element l) pos)"
      using at_kd [OF i] at_kd [OF il] l'(2) by simp
    moreover have "pos \<notin> set (remove1 pos xs @ fs)" using d assms(2) by auto
    ultimately show ?thesis
      using wp_PutElementToFreeElementList [OF l'(1) il] l'(2) by simp
  qed
  have body: "wp (blockM [bindM (getM Len) (\<lambda>n. whenM (n > 1) (unlink pos)),
      modM (Len_update (\<lambda>n. n - 1)), PutElementToFreeElementList pos]) (\<lambda>_. ?post) l"
  proof (cases "1 < length xs")
    case True
    have "wp (unlink pos) (\<lambda>_ l'. wp (PutElementToFreeElementList pos) (\<lambda>_. ?post)
        (Len_update (\<lambda>n. n - 1) l')) l"
    proof (rule wp_mono [OF wp_unlink [OF assms True]])
      fix x l'
      assume l': "lru_but_len l' (remove1 pos xs) fs \<and> Len l' = Len l \<and> kd (Element l') = kd (Element l)"
      have "length (remove1 pos xs) = length xs - 1" using assms(2) by (simp add: length_remove1)
      then have "lru (Len_update (\<lambda>n. n - 1) l') (remove1 pos xs) fs"
        using l' len True by (simp add: lru_but_len_def lru_def)
      then show "wp (PutElementToFreeElementList pos) (\<lambda>_. ?post) (Len_update (\<lambda>n. n - 1) l')"
        using l' by (intro put) simp_all
    qed
    then show ?thesis using True len by (simp add: wp)
  next
    case False
    then have "xs = [pos]" using assms(2) by (cases xs) auto
    then have "lru (Len_update (\<lambda>n. n - 1) l) (remove1 pos xs) fs"
      using assms(1) by (simp add: lru_def)
    from put [OF this] show ?thesis using False len by (simp add: wp)
  qed
  then show ?thesis
    using i by (auto simp: RemoveElemenetFromLRUList_def wp simp flip: wp_blockM_Cons)
qed

lemma wp_RemoveTheTailElemenetFromLRUList:
  assumes "lru l xs fs" "xs \<noteq> []"
  shows "wp RemoveTheTailElemenetFromLRUList (\<lambda>r l'.
    r = Some (el_key (at (Element l) (last xs)), last xs) \<and> lru l' (butlast xs) (last xs # fs) \<and>
    kd (Element l') = upd (kd (Element l)) (last xs)
      (LRU_ELEMENT_FREE, el_dirty (at (Element l) (last xs)))) l"
proof -
  obtain ys x where xs: "xs = ys @ [x]" using assms(2) by (cases xs rule: rev_cases) auto
  have x: "inb (Element l) x" "Tail l = x" "x \<notin> set ys" "x \<notin> set fs" "Len l = int (length ys) + 1"
    using assms(1) xs by (auto simp: lru_def dseg_append)
  let ?post = "\<lambda>l'. lru l' ys (x # fs) \<and>
    kd (Element l') = upd (kd (Element l)) x (- 3, el_dirty (at (Element l) x))"
  have put: "wp (PutElementToFreeElementList x) (\<lambda>_. ?post) l'"
    if l': "lru l' ys fs" "kd (Element l') = kd (Element l)" for l'
  proof -
    have "length (Element l') = length (Element l)" using l'(2) length_kd by metis
    then have il: "inb (Element l') x" using x(1) by (simp add: inb_def)
    have "el_dirty (at (Element l') x) = el_dirty (at (Element l) x)"
      using at_kd [OF x(1)] at_kd [OF il] l'(2) by simp
    then show ?thesis using wp_PutElementToFreeElementList [OF l'(1) il] x(3,4) l'(2) by simp
  qed
  have bx: "butlast xs = ys" "last xs = x" using xs by simp_all
  show ?thesis
  proof (cases ys rule: rev_cases)
    case Nil
    then have "lru (Len_update (\<lambda>n. n - 1) l) ys fs" using assms(1) xs by (simp add: lru_def)
    from put [OF this] show ?thesis
      using bx x Nil by (simp add: RemoveTheTailElemenetFromLRUList_def wp)
  next
    case (snoc zs z)
    have z: "el_previous (at (Element l) x) = z" "inb (Element l) z" "z \<notin> set zs" "z \<notin> set fs" "z \<noteq> x"
        "dseg (Element l) (- 2) (zs @ [z]) x"
      using assms(1) xs snoc by (auto simp: lru_def dseg_append)
    define l' where "l' = Element_update (link z (set_next (- 2)))
      (Tail_update (\<lambda>_. z) (Len_update (\<lambda>n. n - 1) l))"
    have "lru l' ys fs"
      using assms(1) xs snoc z dseg_set_next [OF z(6,3)] by (simp add: lru_def l'_def hd_append)
    moreover have "kd (Element l') = kd (Element l)" using z by (simp add: l'_def)
    ultimately have "wp (PutElementToFreeElementList x) (\<lambda>_. ?post) l'" by (rule put)
    moreover have "0 < length ys" using snoc by simp
    ultimately show ?thesis
      using bx x z(1,2) by (simp add: RemoveTheTailElemenetFromLRUList_def wp l'_def)
  qed
qed

lemma RemoveTail_empty:
  "lru l [] fs \<Longrightarrow> RemoveTheTailElemenetFromLRUList l = Inr (None, l)"
  by (simp add: RemoveTheTailElemenetFromLRUList_def bindM_def getM_def returnM_def lru_def)

lemma wp_PutElementToTheHeadOfLRUList:
  assumes "lru l xs fs"
  shows "wp (PutElementToTheHeadOfLRUList key) (\<lambda>r l'. if fs = [] then r = None \<and> l' = l
    else r = Some (last fs) \<and> lru l' (last fs # xs) (butlast fs) \<and>
      kd (Element l') = upd (kd (Element l)) (last fs) (key, el_dirty (at (Element l) (last fs)))) l"
    (is "wp _ ?post l")
proof (cases "fs = []")
  case True
  have "wp GetElementFromFreeElementList (\<lambda>r l'. r = None \<and> l' = l) l"
    by (intro wp_mono [OF wp_GetElementFromFreeElementList [OF assms]]) (use True in auto)
  then show ?thesis
    unfolding PutElementToTheHeadOfLRUList_def wp_bindM by (rule wp_mono) (use True in \<open>auto simp: wp\<close>)
next
  case False
  define f where "f = last fs"
  obtain gs where gs: "fs = gs @ [f]" using append_butlast_last_id [OF False] by (metis f_def)
  have f: "f \<notin> set xs" "f \<notin> set (butlast fs)" "inb (Element l) f"
    using assms lru_inb [OF assms, of f] gs by (auto simp: lru_def)
  show ?thesis
    unfolding PutElementToTheHeadOfLRUList_def wp_bindM
  proof (rule wp_mono [OF wp_GetElementFromFreeElementList [OF assms]])
    fix r k
    assume "if fs = [] then r = None \<and> k = l
      else r = Some (last fs) \<and> lru k xs (butlast fs) \<and> kd (Element k) = kd (Element l)"
    then have k: "r = Some f" "lru k xs (butlast fs)" "kd (Element k) = kd (Element l)"
      using False by (auto simp: f_def)
    have "length (Element k) = length (Element l)" using k(3) length_kd by metis
    then have fk: "inb (Element k) f" using f(3) by (simp add: inb_def)
    define m where "m = Len_update (\<lambda>n. n + 1) (Element_update (link f (set_key key)) k)"
    have kdm: "kd (Element m) = upd (kd (Element l)) f (key, el_dirty (at (Element l) f))"
      using k(3) at_kd [OF fk] at_kd [OF f(3)] kd_link_upd [OF fk, of "set_key key"] by (simp add: m_def)
    have bl: "lru_but_len m xs (butlast fs)"
      using k(2) fk by (simp add: lru_but_len_def lru_def m_def dseg_link_same)
    have len: "Len m = int (length xs) + 1" using k(2) by (simp add: m_def lru_def)
    show "wp (case r of None \<Rightarrow> returnM None | Some pos \<Rightarrow> thenM (blockM
       [modE pos (set_key key), modM (Len_update (\<lambda>n. n + 1)),
        bindM (getM Len) (\<lambda>n. if n = 1 then blockM
            [modE pos (set_next LRU_ELEMENT_POINT_TO_NULL),
             modE pos (set_previous LRU_ELEMENT_POINT_TO_NULL),
             modM (Head_update (\<lambda>_. pos)), modM (Tail_update (\<lambda>_. pos))]
          else push_front pos)]) (returnM (Some pos))) ?post k"
    proof (cases "xs = []")
      case True
      have "lru (Tail_update (\<lambda>_. f) (Head_update (\<lambda>_. f)
          (Element_update (link f (set_previous (- 2)) \<circ> link f (set_next (- 2))) m))) [f] (butlast fs)"
        using bl True len fk f(2) by (simp add: lru_but_len_def lru_def m_def)
      then show ?thesis
        using True k(1) fk len kdm False
        by (simp add: wp m_def f_def [symmetric] comp_def)
    next
      case ne: False
      have "wp (push_front f) (\<lambda>_ l'. lru l' (f # xs) (butlast fs) \<and> kd (Element l') = kd (Element m)) m"
        using bl ne fk f len by (intro wp_push_front) (auto simp: m_def)
      then have "wp (push_front f) (\<lambda>_. ?post (Some f)) m"
        by (rule wp_mono) (use kdm False in \<open>auto simp: f_def\<close>)
      then show ?thesis
        using k(1) fk len ne by (simp add: wp m_def f_def [symmetric])
    qed
  qed
qed

section \<open>The keys of a list\<close>

definition keys :: "'a LRUList_t_scheme \<Rightarrow> int list \<Rightarrow> int list" where
  "keys l xs = map (\<lambda>x. fst (at (kd (Element l)) x)) xs"

lemma keys_same: "kd (Element l') = kd (Element l) \<Longrightarrow> keys l' xs = keys l xs"
  by (simp add: keys_def)

lemma keys_upd:
  assumes "kd (Element l') = upd (kd (Element l)) p v" "inb (Element l) p" "p \<notin> set xs"
    and "\<And>x. x \<in> set xs \<Longrightarrow> inb (Element l) x"
  shows "keys l' xs = keys l xs"
proof -
  have "at (upd (kd (Element l)) p v) x = at (kd (Element l)) x" if "x \<in> set xs" for x
    using that assms(2,3) assms(4) [OF that] by (auto simp: at_upd inb_nonneg)
  then show ?thesis using assms(1) by (simp add: keys_def)
qed

lemma keys_simps [simp]: "keys l [] = []" "keys l (x # xs) = fst (at (kd (Element l)) x) # keys l xs"
  "keys l (xs @ ys) = keys l xs @ keys l ys" "length (keys l xs) = length xs"
  by (simp_all add: keys_def)

lemma keys_at: "inb (Element l) x \<Longrightarrow> fst (at (kd (Element l)) x) = el_key (at (Element l) x)"
  by (simp add: at_kd)

text \<open>
  \<open>cached l ks\<close>: the list holds the keys \<open>ks\<close>, the most recently used one first, and all its other
  elements are free.
\<close>

definition cached :: "'a LRUList_t_scheme \<Rightarrow> int list \<Rightarrow> bool" where
  "cached l ks \<longleftrightarrow> (\<exists>xs fs. lru l xs fs \<and> keys l xs = ks \<and> distinct ks \<and>
     length xs + length fs = length (Element l))"

lemma cachedI:
  "lru l xs fs \<Longrightarrow> keys l xs = ks \<Longrightarrow> distinct ks \<Longrightarrow> length xs + length fs = length (Element l) \<Longrightarrow>
     cached l ks"
  by (auto simp: cached_def)

definition capacity_of :: "'a LRUList_t_scheme \<Rightarrow> nat" where
  "capacity_of l = length (Element l)"

text \<open>The position that holds a key.\<close>

definition holds_at :: "'a LRUList_t_scheme \<Rightarrow> int \<Rightarrow> int \<Rightarrow> bool" where
  "holds_at l pos key \<longleftrightarrow> (\<exists>xs fs. lru l xs fs \<and> pos \<in> set xs \<and> el_key (at (Element l) pos) = key)"

lemma lru_unique:
  assumes "lru l xs fs" "lru l ys gs"
  shows "xs = ys"
proof -
  have next_eq: "us = vs"
    if "dseg es p us n" "dseg es p vs n" "length us = length vs" "us \<noteq> [] \<longrightarrow> hd us = hd vs" for es p us vs n
    using that
  proof (induction us arbitrary: vs p)
    case (Cons u us)
    then obtain vs' where vs: "vs = u # vs'" by (cases vs) auto
    have "us = vs'"
      using Cons.prems vs by (intro Cons.IH [of u]) (auto split: list.splits)
    then show ?case using vs by simp
  qed simp
  have "length xs = length ys" using assms by (auto simp: lru_def)
  moreover have "xs \<noteq> [] \<longrightarrow> hd xs = hd ys" using assms calculation by (auto simp: lru_def)
  ultimately show ?thesis using assms next_eq by (simp add: lru_def) blast
qed

text \<open>What the search returns on the elements \<open>xs\<close> when \<open>m\<close> elements were checked before.\<close>

definition search_post :: "'a LRUList_t_scheme \<Rightarrow> int \<Rightarrow> int list \<Rightarrow> int \<Rightarrow> bool \<times> int \<times> int \<Rightarrow> bool" where
  "search_post l key xs m r \<longleftrightarrow> (case r of (found, pos, num) \<Rightarrow> found = (key \<in> set (keys l xs)) \<and>
     (if found then \<exists>ys zs. xs = ys @ pos # zs \<and> el_key (at (Element l) pos) = key \<and>
        key \<notin> set (keys l ys) \<and> num = m + int (length ys) + 1
      else pos = - 1 \<and> num = m + int (length xs)))"

lemma search_post_Cons:
  assumes "search_post l key xs (m + 1) r" "inb (Element l) x" "el_key (at (Element l) x) \<noteq> key"
  shows "search_post l key (x # xs) m r"
proof -
  obtain found pos num where r: "r = (found, pos, num)" by (cases r)
  have k: "key \<noteq> fst (at (kd (Element l)) x)" using assms(2,3) by (simp add: keys_at)
  show ?thesis
  proof (cases found)
    case True
    then obtain ys zs where y: "xs = ys @ pos # zs" "el_key (at (Element l) pos) = key"
        "key \<notin> set (keys l ys)" "num = m + 1 + int (length ys) + 1" "key \<in> set (keys l xs)"
      using assms(1) r by (auto simp: search_post_def)
    have "\<exists>vs zs. x # xs = vs @ pos # zs \<and> el_key (at (Element l) pos) = key \<and>
        key \<notin> set (keys l vs) \<and> num = m + int (length vs) + 1"
      by (rule exI [of _ "x # ys"]) (use y k in auto)
    then show ?thesis using True y(5) r by (simp add: search_post_def)
  next
    case False
    then show ?thesis using assms(1) k r by (simp add: search_post_def)
  qed
qed

lemma wp_search:
  assumes "dseg (Element l) p xs n" "xs \<noteq> [] \<longrightarrow> ptr = hd xs"
  shows "wp (search (length xs) key ptr m) (\<lambda>r l'. l' = l \<and> search_post l key xs m r) l"
  using assms
proof (induction xs arbitrary: p ptr m)
  case Nil
  then show ?case by (simp add: wp search_post_def)
next
  case (Cons x xs)
  have x: "inb (Element l) x" "ptr = x" using Cons.prems by auto
  show ?case
  proof (cases "el_key (at (Element l) x) = key")
    case True
    then have "search_post l key (x # xs) m (True, x, m + 1)"
      using x by (auto simp: search_post_def keys_at intro!: exI [of _ "[]"])
    then show ?thesis using x True by (simp add: wp)
  next
    case False
    have "wp (search (length xs) key (el_next (at (Element l) x)) (m + 1))
        (\<lambda>r l'. l' = l \<and> search_post l key xs (m + 1) r) l"
      using Cons.prems by (intro Cons.IH [of x]) (auto split: list.splits)
    then have "wp (search (length xs) key (el_next (at (Element l) x)) (m + 1))
        (\<lambda>r l'. l' = l \<and> search_post l key (x # xs) m r) l"
      by (rule wp_mono) (use search_post_Cons x False in blast)
    then show ?thesis using False x by (simp add: wp)
  qed
qed

lemma wp_IsElemenetInLRUList:
  assumes "lru l xs fs"
  shows "wp (IsElemenetInLRUList key) (\<lambda>r l'. l' = l \<and> search_post l key xs 0 r) l"
proof -
  have "wp (search (length xs) key (Head l) 0) (\<lambda>r l'. l' = l \<and> search_post l key xs 0 r) l"
    using assms by (intro wp_search [where p = "- 2" and n = "- 2"]) (auto simp: lru_def)
  then show ?thesis using lru_len [OF assms] by (simp add: IsElemenetInLRUList_def wp)
qed

section \<open>Insertion with eviction\<close>

lemma wp_PutElemenetToLRUList:
  fixes l :: "'a LRUList_t_scheme"
  assumes "cached l ks" "0 < capacity_of l" "key \<notin> set ks"
  shows "wp (PutElemenetToLRUList (Suc (Suc n)) key) (\<lambda>pos l'. cached l' (take (capacity_of l) (key # ks)) \<and>
    capacity_of l' = capacity_of l \<and> holds_at l' pos key) l" (is "wp _ ?post l")
proof -
  obtain xs fs where l: "lru l xs fs" "keys l xs = ks" "distinct ks" "length xs + length fs = length (Element l)"
    using assms(1) by (auto simp: cached_def)
  have put: "wp (PutElementToTheHeadOfLRUList key) (\<lambda>r l'. r = Some (last gs) \<and>
      cached l' (key # keys k ys) \<and> length (Element l') = length (Element k) \<and> holds_at l' (last gs) key) k"
    if k: "lru k ys gs" "gs \<noteq> []" "key \<notin> set (keys k ys)" "distinct (keys k ys)"
      "length ys + length gs = length (Element k)" for k :: "'a LRUList_t_scheme" and ys gs
  proof (rule wp_mono [OF wp_PutElementToTheHeadOfLRUList [OF k(1)]])
    fix r l'
    assume "if gs = [] then r = None \<and> l' = k
      else r = Some (last gs) \<and> lru l' (last gs # ys) (butlast gs) \<and>
        kd (Element l') = upd (kd (Element k)) (last gs) (key, el_dirty (at (Element k) (last gs)))"
    then have r: "r = Some (last gs)" "lru l' (last gs # ys) (butlast gs)"
        "kd (Element l') = upd (kd (Element k)) (last gs) (key, el_dirty (at (Element k) (last gs)))"
      using k(2) by auto
    have g: "last gs \<in> set gs" using k(2) by simp
    have len: "length (Element l') = length (Element k)" using r(3) length_kd length_upd by metis
    have ig: "inb (Element k) (last gs)" using lru_inb [OF k(1)] g by simp
    then have il: "inb (Element l') (last gs)" using len by (simp add: inb_def)
    have ny: "last gs \<notin> set ys" using k(1) g by (auto simp: lru_def)
    have "keys l' ys = keys k ys"
      using keys_upd [OF r(3) ig ny] lru_inb [OF k(1)] by simp
    moreover have kg: "fst (at (kd (Element l')) (last gs)) = key" using r(3) ig by (simp add: at_upd inb_nonneg)
    ultimately have "keys l' (last gs # ys) = key # keys k ys" by simp
    moreover have "length gs = Suc (length (butlast gs))" using k(2) by simp
    ultimately have "cached l' (key # keys k ys)"
      unfolding cached_def using r(2) k(3-5) len
      by - (rule exI [of _ "last gs # ys"], rule exI [of _ "butlast gs"], simp del: length_butlast)
    moreover have "holds_at l' (last gs) key"
      unfolding holds_at_def using r(2) kg keys_at [OF il] by force
    ultimately show "r = Some (last gs) \<and> cached l' (key # keys k ys) \<and>
        length (Element l') = length (Element k) \<and> holds_at l' (last gs) key"
      using r(1) len by simp
  qed
  show ?thesis
  proof (cases "fs = []")
    case False
    have "length (key # ks) \<le> capacity_of l"
      using l(2,4) False by (cases fs) (auto simp: capacity_of_def keys_def)
    then show ?thesis
      using put [OF l(1) False] l(2-4) assms(3)
      by (auto simp: wp capacity_of_def elim!: wp_mono)
  next
    case True
    then have ne: "xs \<noteq> []" and len: "length xs = capacity_of l" "length ks = capacity_of l"
      using l(2,4) assms(2) by (auto simp: capacity_of_def keys_def)
    have full: "wp (PutElementToTheHeadOfLRUList key) (\<lambda>r l'. r = None \<and> l' = l) l"
      by (rule wp_mono [OF wp_PutElementToTheHeadOfLRUList [OF l(1)]]) (use True in auto)
    have tk: "take (capacity_of l) (key # ks) = key # butlast ks"
      using len ne by (cases "capacity_of l") (auto simp: butlast_conv_take)
    have "wp RemoveTheTailElemenetFromLRUList (\<lambda>_. wp (PutElemenetToLRUList (Suc n) key) ?post) l"
    proof (rule wp_mono [OF wp_RemoveTheTailElemenetFromLRUList [OF l(1) ne]])
      fix r and k :: "'a LRUList_t_scheme"
      assume "r = Some (el_key (at (Element l) (last xs)), last xs) \<and> lru k (butlast xs) (last xs # fs) \<and>
        kd (Element k) = upd (kd (Element l)) (last xs) (LRU_ELEMENT_FREE, el_dirty (at (Element l) (last xs)))"
      then have k: "lru k (butlast xs) [last xs]"
          "kd (Element k) = upd (kd (Element l)) (last xs) (- 3, el_dirty (at (Element l) (last xs)))"
        using True by auto
      have lk: "length (Element k) = length (Element l)" using k(2) length_kd length_upd by metis
      have ix: "inb (Element l) (last xs)" using lru_inb [OF l(1)] ne by simp
      have nb: "last xs \<notin> set (butlast xs)" using k(1) by (simp add: lru_def)
      have "keys k (butlast xs) = keys l (butlast xs)"
        using keys_upd [OF k(2) ix nb] lru_inb [OF l(1)] in_set_butlastD [of _ xs] by simp
      also have "\<dots> = butlast ks" using l(2) by (auto simp: keys_def map_butlast)
      finally have kb: "keys k (butlast xs) = butlast ks" .
      have "wp (PutElementToTheHeadOfLRUList key) (\<lambda>r l'. r = Some (last xs) \<and>
          cached l' (key # butlast ks) \<and> length (Element l') = length (Element k) \<and>
          holds_at l' (last xs) key) k"
        using put [OF k(1)] kb l(3,4) assms(3) lk ne True in_set_butlastD [of key ks]
        by (auto simp: distinct_butlast length_greater_0_conv)
      then show "wp (PutElemenetToLRUList (Suc n) key) ?post k"
        unfolding PutElemenetToLRUList.simps(2) wp_bindM
        by (rule wp_mono) (auto simp: wp tk [unfolded capacity_of_def] capacity_of_def lk)
    qed
    then show ?thesis
      unfolding PutElemenetToLRUList.simps(2) [of "Suc n"] wp_bindM
      by (intro wp_mono [OF full]) (auto simp: wp simp del: PutElemenetToLRUList.simps)
  qed
qed

section \<open>Creation\<close>

lemma dseg_upto:
  assumes "\<And>i. a \<le> i \<Longrightarrow> i < a + int n \<Longrightarrow> inb es i \<and> el_previous (at es i) = (if i = a then p else i - 1) \<and>
    el_next (at es i) = (if i = a + int n - 1 then q else i + 1)"
  shows "dseg es p [a .. a + int n - 1] q"
  using assms
proof (induction n arbitrary: a p)
  case (Suc n)
  have e: "[a .. a + int (Suc n) - 1] = a # [a + 1 .. a + 1 + int n - 1]"
    by (simp add: upto_rec1 ac_simps)
  have "dseg es a [a + 1 .. a + 1 + int n - 1] q"
  proof (rule Suc.IH)
    fix i
    assume "a + 1 \<le> i" "i < a + 1 + int n"
    then show "inb es i \<and> el_previous (at es i) = (if i = a + 1 then a else i - 1) \<and>
        el_next (at es i) = (if i = a + 1 + int n - 1 then q else i + 1)"
      using Suc.prems [of i] by auto
  qed
  moreover have "(case [a + 1 .. a + 1 + int n - 1] of [] \<Rightarrow> q | y # _ \<Rightarrow> y) = (if n = 0 then q else a + 1)"
    by (cases n) (auto simp: upto_rec1)
  ultimately show ?case unfolding e using Suc.prems [of a] by simp
qed simp

lemma wp_CreateLRUList:
  assumes "0 < len"
  shows "wp (CreateLRUList fresh len) (\<lambda>r l'. r \<and> cached l' [] \<and> int (capacity_of l') = len) l"
proof -
  let ?el = "\<lambda>i. \<lparr>el_next = i + 1, el_previous = i - 1, el_key = - 3, el_dirty = False\<rparr>"
  define l0 where "l0 = Element_update (\<lambda>_. replicate (nat len) fresh) l"
  have loop: "wp (forM 0 len (\<lambda>i. modE i (\<lambda>e. e\<lparr>el_key := - 3, el_next := i + 1, el_previous := i - 1,
      el_dirty := False\<rparr>))) (\<lambda>_ k. int (length (Element k)) = len \<and> (\<forall>i. 0 \<le> i \<and> i < len \<longrightarrow> at (Element k) i = ?el i)) l0"
  proof (rule wp_forM [where I = "\<lambda>j k. int (length (Element k)) = len \<and>
      (\<forall>i. 0 \<le> i \<and> i < j \<longrightarrow> at (Element k) i = ?el i)"])
    fix j k
    assume j: "0 \<le> j" "j < len" and k: "int (length (Element k)) = len \<and>
      (\<forall>i. 0 \<le> i \<and> i < j \<longrightarrow> at (Element k) i = ?el i)"
    have "inb (Element k) j" using j k by (simp add: inb_def)
    then show "wp (modE j (\<lambda>e. e\<lparr>el_key := - 3, el_next := j + 1, el_previous := j - 1, el_dirty := False\<rparr>))
        (\<lambda>_ k. int (length (Element k)) = len \<and> (\<forall>i. 0 \<le> i \<and> i < j + 1 \<longrightarrow> at (Element k) i = ?el i)) k"
      using k by (auto simp: wp at_link)
  qed (use assms in \<open>auto simp: l0_def\<close>)
  have rest: "wp (blockM [modE 0 (set_previous (- 2)), modE (len - 1) (set_next (- 2)),
      modM (Head_update (\<lambda>_. 0)), modM (Tail_update (\<lambda>_. 0)), modM (Len_update (\<lambda>_. 0)),
      modM (FreeHead_update (\<lambda>_. 0)), modM (FreeTail_update (\<lambda>_. len - 1)),
      modM (FreeLen_update (\<lambda>_. len))]) (\<lambda>_ l'. cached l' [] \<and> int (capacity_of l') = len) k"
    if k: "int (length (Element k)) = len" "\<forall>i. 0 \<le> i \<and> i < len \<longrightarrow> at (Element k) i = ?el i"
    for k :: "'a LRUList_t_scheme"
  proof -
    let ?e = "link (len - 1) (set_next (- 2)) (link 0 (set_previous (- 2)) (Element k))"
    have i: "inb (Element k) 0" "inb (Element k) (len - 1)" using k(1) assms by (auto simp: inb_def)
    have "dseg ?e (- 2) [0 .. 0 + int (nat len) - 1] (- 2)"
      by (rule dseg_upto) (use k i assms in \<open>auto simp: at_link inb_def\<close>)
    moreover have "length [0 .. len - 1] = length (Element k)" using k(1) assms by auto
    moreover have "hd [0 .. len - 1] = 0" "[0 .. len - 1] \<noteq> []"
      using assms upto_rec1 [of 0 "len - 1"] by simp_all
    moreover have "last [0 .. len - 1] = len - 1"
      using assms upto_rec2 [of 0 "len - 1"] by simp
    ultimately show ?thesis
      using i k(1) assms
      by (auto simp: wp lru_def capacity_of_def comp_def
          intro!: cachedI [where xs = "[]" and fs = "[0 .. len - 1]"])
  qed
  show ?thesis
    unfolding CreateLRUList_def wp_thenM wp_blockM_Cons [of "modM _" "forM _ _ _ # _"] wp_modM
      wp_blockM_Cons [of "forM _ _ _"] l0_def [symmetric]
    by (rule wp_mono [OF loop]) (use rest in \<open>auto simp: wp_returnM elim!: wp_mono\<close>)
qed

end
