(* ===== verification/LRU_List_DFTL.thy ===== *)
theory LRU_List_DFTL
  imports LRU_Refinement
begin

text \<open>
  The copy of the LRU list for DFTL (LRUListDFTL.h, LRUListDFTL.c).  Its structures have the same
  fields as those of LRUList.h and most functions have the same body under another name; the
  functions that remove the tail differ: they charge the time \<open>wt\<close> of a page write
  (\<open>TIME_WRITE_PAGE\<close>) to the request when the removed element is dirty.  The charge is part of
  the result.
\<close>

section \<open>Functions with the body of LRUList.c\<close>

definition CreateLRUListD :: "LRUElement_t \<Rightarrow> int \<Rightarrow> ('a LRUList_t_scheme, bool) prog" where
  "CreateLRUListD fresh len = CreateLRUList fresh len"

definition IsLRUListFullD :: "('a LRUList_t_scheme, bool) prog" where
  "IsLRUListFullD = getM (\<lambda>l. FreeLen l = 0)"

definition IsElemenetInLRUListD :: "int \<Rightarrow> ('a LRUList_t_scheme, bool \<times> int \<times> int) prog" where
  "IsElemenetInLRUListD key =
     bindM (getM Head) (\<lambda>ptr. bindM (getM Len) (\<lambda>n. search (nat n) key ptr 0))"

definition IsElementDirtyD :: "int \<Rightarrow> ('a LRUList_t_scheme, bool) prog" where
  "IsElementDirtyD pos = bindM (rd Element pos) (\<lambda>e. returnM (el_dirty e))"

definition SetElementDirtyD :: "int \<Rightarrow> int \<Rightarrow> ('a LRUList_t_scheme, bool) prog" where
  "SetElementDirtyD key pos = SetElementDirty key pos"

definition ClearElementDirtyD :: "int \<Rightarrow> int \<Rightarrow> ('a LRUList_t_scheme, bool) prog" where
  "ClearElementDirtyD key pos = ClearElementDirty key pos"

definition PutElementToFreeElementListD :: "int \<Rightarrow> ('a LRUList_t_scheme, unit) prog" where
  "PutElementToFreeElementListD pos = PutElementToFreeElementList pos"

definition GetElementFromFreeElementListD :: "('a LRUList_t_scheme, int option) prog" where
  "GetElementFromFreeElementListD = GetElementFromFreeElementList"

definition RemoveElemenetFromLRUListD :: "int \<Rightarrow> int \<Rightarrow> ('a LRUList_t_scheme, bool) prog" where
  "RemoveElemenetFromLRUListD key pos = RemoveElemenetFromLRUList key pos"

definition MoveElemenetToTheHeadofLRUListD :: "int \<Rightarrow> int \<Rightarrow> ('a LRUList_t_scheme, bool) prog" where
  "MoveElemenetToTheHeadofLRUListD key pos = MoveElemenetToTheHeadofLRUList key pos"

definition PutElementToTheHeadOfLRUListD :: "int \<Rightarrow> ('a LRUList_t_scheme, int option) prog" where
  "PutElementToTheHeadOfLRUListD key = PutElementToTheHeadOfLRUList key"

section \<open>Functions that charge a write\<close>

definition RemoveTheTailElemenetFromLRUListD ::
  "int \<Rightarrow> ('a LRUList_t_scheme, (int \<times> int) option \<times> int) prog" where
  "RemoveTheTailElemenetFromLRUListD wt = bindM (getM Len) (\<lambda>n.
     if n = 0 then returnM (None, 0)
     else bindM (getM Tail) (\<lambda>t. bindM (rd Element t) (\<lambda>e.
       let cost = (if el_dirty e then wt else 0) in
       thenM (modM (Len_update (\<lambda>n. n - 1)))
      (bindM (getM Tail) (\<lambda>pos. bindM (rd Element pos) (\<lambda>e.
       thenM (bindM (getM Len) (\<lambda>n. whenM (n > 0) (blockM
         [bindM (getM Tail) (\<lambda>t. bindM (rd Element t) (\<lambda>e. modM (Tail_update (\<lambda>_. el_previous e)))),
          bindM (getM Tail) (\<lambda>t. modE t (set_next LRU_ELEMENT_POINT_TO_NULL))])))
      (thenM (PutElementToFreeElementListD pos) (returnM (Some (el_key e, pos), cost)))))))))"

fun PutElemenetToLRUListD :: "nat \<Rightarrow> int \<Rightarrow> int \<Rightarrow> ('a LRUList_t_scheme, int \<times> int) prog" where
  "PutElemenetToLRUListD 0 wt key = failM Out_Of_Fuel"
| "PutElemenetToLRUListD (Suc n) wt key = bindM (PutElementToTheHeadOfLRUListD key) (\<lambda>r. case r of
     Some pos \<Rightarrow> returnM (pos, 0)
   | None \<Rightarrow> bindM (RemoveTheTailElemenetFromLRUListD wt) (\<lambda>(_, cost).
       bindM (PutElemenetToLRUListD n wt key) (\<lambda>(pos, cost'). returnM (pos, cost + cost'))))"

section \<open>Relation to LRUList.c\<close>

text \<open>
  The functions that charge change the list as the ones of LRUList.c do; the charge is paid
  exactly when the evicted element is dirty.
\<close>

lemma wp_RemoveTheTailD:
  "wp (RemoveTheTailElemenetFromLRUListD wt) Q l =
   wp RemoveTheTailElemenetFromLRUList (\<lambda>r l'. Q (r, if Len l \<noteq> 0 \<and> el_dirty (at (Element l) (Tail l))
     then wt else 0) l') l"
  by (simp add: RemoveTheTailElemenetFromLRUListD_def RemoveTheTailElemenetFromLRUList_def wp Let_def
      PutElementToFreeElementListD_def)

lemma wp_PutD:
  "wp (PutElemenetToLRUListD n wt key) (\<lambda>(pos, _) l'. Q pos l') l =
   wp (PutElemenetToLRUList n key) Q l"
proof (induction n arbitrary: l)
  case (Suc n)
  have "wp (case r of Some pos \<Rightarrow> returnM (pos, 0)
      | None \<Rightarrow> bindM (RemoveTheTailElemenetFromLRUListD wt) (\<lambda>(_, cost).
          bindM (PutElemenetToLRUListD n wt key) (\<lambda>(pos, cost'). returnM (pos, cost + cost'))))
      (\<lambda>(pos, _) l'. Q pos l') =
    wp (case r of Some pos \<Rightarrow> returnM pos
      | None \<Rightarrow> thenM RemoveTheTailElemenetFromLRUList (PutElemenetToLRUList n key)) Q" for r
  proof (cases r)
    case None
    have "wp (bindM (PutElemenetToLRUListD n wt key) (\<lambda>(pos, cost'). returnM (pos, cost + cost')))
        (\<lambda>(pos, _) l'. Q pos l') k = wp (PutElemenetToLRUList n key) Q k" for cost k
      unfolding Suc.IH [of k, symmetric] by (simp add: wp case_prod_unfold)
    then show ?thesis using None by (simp add: wp wp_RemoveTheTailD fun_eq_iff)
  qed (simp add: wp fun_eq_iff)
  then show ?case by (simp add: wp PutElementToTheHeadOfLRUListD_def)
qed (simp add: wp)

end
