(* ===== verification/LRU_Cache.thy ===== *)
theory LRU_Cache
  imports LRU_List_DFTL
begin

text \<open>
  The contract of an LRU cache and its two providers, LRUList.c and LRUListDFTL.c.  A client looks
  a key up, moves it to the front on a hit and inserts it on a miss; the cache then holds the
  most recently used keys, as many as it has elements.
\<close>

section \<open>The contract\<close>

locale lru_cache =
  fixes holds :: "'s \<Rightarrow> int list \<Rightarrow> bool"
    and cap :: "'s \<Rightarrow> nat"
    and at_pos :: "'s \<Rightarrow> int \<Rightarrow> int \<Rightarrow> bool"
    and lookup :: "int \<Rightarrow> ('s, bool \<times> int \<times> int) prog"
    and touch :: "int \<Rightarrow> int \<Rightarrow> ('s, bool) prog"
    and insert_key :: "int \<Rightarrow> ('s, 'r) prog"
  assumes holds_distinct: "holds s ks \<Longrightarrow> distinct ks"
    and holds_bound: "holds s ks \<Longrightarrow> length ks \<le> cap s"
    and lookup: "holds s ks \<Longrightarrow>
      wp (lookup k) (\<lambda>(found, pos, num) t. t = s \<and> found = (k \<in> set ks) \<and>
        (found \<longrightarrow> at_pos s pos k) \<and> num \<le> int (length ks)) s"
    and touch: "holds s ks \<Longrightarrow> at_pos s pos k \<Longrightarrow>
      wp (touch k pos) (\<lambda>r t. r \<and> holds t (k # remove1 k ks) \<and> cap t = cap s) s"
    and insert_key: "holds s ks \<Longrightarrow> k \<notin> set ks \<Longrightarrow> 0 < cap s \<Longrightarrow>
      wp (insert_key k) (\<lambda>_ t. holds t (take (cap s) (k # ks)) \<and> cap t = cap s) s"

text \<open>What a client does to access a key.\<close>

definition access_key ::
  "(int \<Rightarrow> ('s, bool \<times> int \<times> int) prog) \<Rightarrow> (int \<Rightarrow> int \<Rightarrow> ('s, bool) prog) \<Rightarrow> (int \<Rightarrow> ('s, 'r) prog) \<Rightarrow>
     int \<Rightarrow> ('s, unit) prog" where
  "access_key lookup touch insert_key k =
     bindM (lookup k) (\<lambda>(found, pos, num).
       if found then thenM (touch k pos) (returnM ()) else thenM (insert_key k) (returnM ()))"

text \<open>The keys in the order of their last use.\<close>

definition used :: "int \<Rightarrow> int list \<Rightarrow> int list" where
  "used k ks = k # remove1 k ks"

lemma take_used:
  assumes "distinct ks" "0 < n"
  shows "take n (used k (take n ks)) = take n (used k ks)"
proof (cases "k \<in> set (take n ks)")
  case True
  obtain as bs where ab: "take n ks = as @ k # bs" "k \<notin> set as"
    using split_list_first [OF True] by blast
  have ks: "ks = (as @ k # bs) @ drop n ks" using ab(1) by (metis append_take_drop_id)
  have len: "length (as @ k # bs) \<le> n" using ab(1) by (metis length_take min.cobounded2)
  have "remove1 k ks = as @ bs @ drop n ks" using ab(2) by (subst ks) (simp add: remove1_append)
  moreover have "remove1 k (take n ks) = as @ bs" using ab by (simp add: remove1_append)
  moreover have "take n (k # as @ bs @ drop n ks) = k # as @ bs"
  proof (cases "n \<le> length ks")
    case True
    then have "length (as @ k # bs) = n" using ab(1) by (metis length_take min.absorb2)
    then show ?thesis by (cases n) auto
  next
    case False
    then show ?thesis using len by (cases n) auto
  qed
  ultimately show ?thesis using len by (cases n) (auto simp: used_def)
next
  case False
  show ?thesis
  proof (cases n)
    case (Suc m)
    have nm: "k \<notin> set (take m ks)" using False Suc set_take_subset_set_take [of m n ks] by auto
    have "take m (remove1 k ks) = take m ks"
    proof -
      have ks: "ks = take m ks @ drop m ks" by simp
      have "remove1 k ks = take m ks @ remove1 k (drop m ks)"
        using nm by (subst ks) (simp only: remove1_append if_False)
      then show ?thesis
        by (cases "m \<le> length ks") (auto simp: nm remove1_idem dest: not_le_imp_less)
    qed
    then show ?thesis using False Suc by (simp add: used_def remove1_idem)
  qed (use assms(2) in simp)
qed

lemma distinct_used: "distinct ks \<Longrightarrow> distinct (used k ks)"
  by (simp add: used_def)

context lru_cache
begin

lemma access:
  assumes "holds s ks" "0 < cap s"
  shows "wp (access_key lookup touch insert_key k)
    (\<lambda>_ t. holds t (take (cap s) (used k ks)) \<and> cap t = cap s) s"
  unfolding access_key_def wp_bindM
proof (rule wp_mono [OF lookup [OF assms(1), of k]], clarify)
  fix found pos num
  assume r: "k \<in> set ks \<longrightarrow> at_pos s pos k"
  have d: "distinct ks" and b: "length ks \<le> cap s"
    using holds_distinct [OF assms(1)] holds_bound [OF assms(1)] by auto
  have hit: "wp (touch k pos) (\<lambda>_ t. holds t (take (cap s) (used k ks)) \<and> cap t = cap s) s" if "k \<in> set ks"
  proof (rule wp_mono [OF touch [OF assms(1)]])
    show "at_pos s pos k" using r that by simp
    have "length (used k ks) = length ks" using that length_pos_if_in_set [OF that] by (simp add: used_def length_remove1)
    then show "holds t (take (cap s) (used k ks)) \<and> cap t = cap s"
      if "x \<and> holds t (k # remove1 k ks) \<and> cap t = cap s" for x t
      using that b by (simp add: used_def)
  qed
  have miss: "wp (insert_key k) (\<lambda>_ t. holds t (take (cap s) (used k ks)) \<and> cap t = cap s) s" if "k \<notin> set ks"
    using insert_key [OF assms(1) that assms(2)] that by (simp add: used_def remove1_idem)
  show "wp (if k \<in> set ks then thenM (touch k pos) (returnM ()) else thenM (insert_key k) (returnM ()))
    (\<lambda>_ t. holds t (take (cap s) (used k ks)) \<and> cap t = cap s) s"
    using hit miss by (auto simp: wp)
qed

text \<open>After any sequence of accesses the cache holds the most recently used keys.\<close>

lemma access_many:
  assumes "holds s (take (cap s) ks)" "0 < cap s" "distinct ks"
  shows "wp (blockM (map (access_key lookup touch insert_key) as))
    (\<lambda>_ t. holds t (take (cap s) (fold used as ks)) \<and> cap t = cap s) s"
  using assms
proof (induction as arbitrary: s ks)
  case Nil
  then show ?case by (simp add: wp)
next
  case (Cons a as)
  show ?case
    unfolding list.map wp_blockM_Cons
  proof (rule wp_mono [OF access [OF Cons.prems(1,2)]])
    fix x t
    assume t: "holds t (take (cap s) (used a (take (cap s) ks))) \<and> cap t = cap s"
    then have "holds t (take (cap t) (used a ks))" using take_used [OF Cons.prems(3,2)] by simp
    then show "wp (blockM (map (access_key lookup touch insert_key) as))
      (\<lambda>_ t. holds t (take (cap s) (fold used (a # as) ks)) \<and> cap t = cap s) t"
      using t Cons.IH [of t "used a ks"] Cons.prems(2,3) distinct_used by simp
  qed
qed

end

section \<open>The providers\<close>

lemma holds_atI: "lru l xs fs \<Longrightarrow> pos \<in> set xs \<Longrightarrow> el_key (at (Element l) pos) = k \<Longrightarrow> holds_at l pos k"
  by (auto simp: holds_at_def)

lemma cached_lookup:
  assumes "cached l ks"
  shows "wp (IsElemenetInLRUList k) (\<lambda>(found, pos, num) t. t = l \<and> found = (k \<in> set ks) \<and>
    (found \<longrightarrow> holds_at l pos k) \<and> num \<le> int (length ks)) l"
proof -
  obtain xs fs where l: "lru l xs fs" "keys l xs = ks" using assms by (auto simp: cached_def)
  show ?thesis
  proof (rule wp_mono [OF wp_IsElemenetInLRUList [OF l(1)]], clarify)
    fix found pos num
    assume r: "search_post l k xs 0 (found, pos, num)"
    have "length xs = length ks" using l(2) by (auto simp: keys_def)
    moreover have "holds_at l pos k \<and> num \<le> int (length xs)" if kin: "k \<in> set ks"
    proof -
      obtain ys zs where "xs = ys @ pos # zs" "el_key (at (Element l) pos) = k" "num = int (length ys) + 1"
        using kin r l(2) by (auto simp: search_post_def)
      then show ?thesis using holds_atI [OF l(1), of pos] by simp
    qed
    ultimately show "l = l \<and> found = (k \<in> set ks) \<and> (found \<longrightarrow> holds_at l pos k) \<and> num \<le> int (length ks)"
      using r l(2) by (auto simp: search_post_def split: if_splits)
  qed
qed

lemma cached_touch:
  assumes "cached l ks" "holds_at l pos k"
  shows "wp (MoveElemenetToTheHeadofLRUList k pos) (\<lambda>r t. r \<and> cached t (k # remove1 k ks) \<and>
    capacity_of t = capacity_of l) l"
proof -
  obtain xs fs where l: "lru l xs fs" "keys l xs = ks" "distinct ks" "length xs + length fs = length (Element l)"
    using assms(1) by (auto simp: cached_def)
  have p: "pos \<in> set xs" "el_key (at (Element l) pos) = k"
    using assms(2) lru_unique [OF l(1)] by (auto simp: holds_at_def)
  show ?thesis
  proof (rule wp_mono [OF wp_MoveElemenetToTheHeadofLRUList [OF l(1) p(1)]])
    fix r t
    assume "kd (Element t) = kd (Element l) \<and> (if el_key (at (Element l) pos) = k
      then r \<and> lru t (pos # remove1 pos xs) fs else \<not> r \<and> t = l)"
    then have t: "kd (Element t) = kd (Element l)" "r" "lru t (pos # remove1 pos xs) fs"
      using p(2) by auto
    have len: "length (Element t) = length (Element l)" using t(1) length_kd by metis
    obtain as bs where ab: "xs = as @ pos # bs" using p(1) by (auto simp: in_set_conv_decomp)
    have pa: "pos \<notin> set as" using l(1) ab by (auto simp: lru_def)
    have kp: "fst (at (kd (Element l)) pos) = k" using keys_at lru_inb [OF l(1)] p by auto
    have ks: "ks = keys l as @ k # keys l bs" using l(2) ab kp by simp
    then have "k \<notin> set (keys l as)" using l(3) by auto
    then have "k # remove1 k ks = keys t (pos # remove1 pos xs)"
      using ks ab pa kp t(1) keys_same [OF t(1)] by (simp add: remove1_append)
    moreover have "distinct (k # remove1 k ks)" using l(3) by simp
    moreover have "length (pos # remove1 pos xs) = length xs" using ab pa by (simp add: remove1_append)
    ultimately have "cached t (k # remove1 k ks)"
      using t(3) l(4) len by (intro cachedI [OF t(3)]) auto
    then show "r \<and> cached t (k # remove1 k ks) \<and> capacity_of t = capacity_of l"
      using t(2) len by (simp add: capacity_of_def)
  qed
qed

lemma cached_bound: "cached l ks \<Longrightarrow> distinct ks \<and> length ks \<le> capacity_of l"
  by (auto simp: cached_def capacity_of_def keys_def)

interpretation lru_list: lru_cache cached capacity_of holds_at IsElemenetInLRUList
  MoveElemenetToTheHeadofLRUList "PutElemenetToLRUList (Suc (Suc n))" for n
proof unfold_locales
  fix s :: "'a LRUList_t_scheme" and ks k
  assume "cached s ks" "k \<notin> set ks" "0 < capacity_of s"
  from wp_PutElemenetToLRUList [OF this(1,3,2)]
  show "wp (PutElemenetToLRUList (Suc (Suc n)) k)
      (\<lambda>_ t. cached t (take (capacity_of s) (k # ks)) \<and> capacity_of t = capacity_of s) s"
    by (rule wp_mono) auto
qed (use cached_bound cached_lookup cached_touch in auto)

interpretation lru_dftl: lru_cache cached capacity_of holds_at IsElemenetInLRUListD
  MoveElemenetToTheHeadofLRUListD "PutElemenetToLRUListD (Suc (Suc n)) wt" for n wt
proof unfold_locales
  fix s :: "'a LRUList_t_scheme" and ks k
  assume s: "cached s ks" "k \<notin> set ks" "0 < capacity_of s"
  have "wp (PutElemenetToLRUListD (Suc (Suc n)) wt k)
      (\<lambda>(pos, _) t. cached t (take (capacity_of s) (k # ks)) \<and> capacity_of t = capacity_of s \<and> holds_at t pos k) s"
    unfolding wp_PutD by (rule wp_PutElemenetToLRUList [OF s(1,3,2)])
  then show "wp (PutElemenetToLRUListD (Suc (Suc n)) wt k)
      (\<lambda>_ t. cached t (take (capacity_of s) (k # ks)) \<and> capacity_of t = capacity_of s) s"
    by (rule wp_mono) auto
next
  fix s :: "'a LRUList_t_scheme" and ks k
  assume "cached s ks"
  then show "wp (IsElemenetInLRUListD k) (\<lambda>(found, pos, num) t. t = s \<and> found = (k \<in> set ks) \<and>
      (found \<longrightarrow> holds_at s pos k) \<and> num \<le> int (length ks)) s"
    unfolding IsElemenetInLRUListD_def IsElemenetInLRUList_def [symmetric] by (rule cached_lookup)
next
  fix s :: "'a LRUList_t_scheme" and ks k pos
  assume "cached s ks" "holds_at s pos k"
  then show "wp (MoveElemenetToTheHeadofLRUListD k pos) (\<lambda>r t. r \<and> cached t (k # remove1 k ks) \<and>
      capacity_of t = capacity_of s) s"
    unfolding MoveElemenetToTheHeadofLRUListD_def by (rule cached_touch)
qed (use cached_bound in auto)

end
