(* ===== verification/LRU_Properties.thy ===== *)
theory LRU_Properties
  imports LRU_Cache
begin

text \<open>The properties of the LRU lists, with a list of two elements on which they apply.\<close>

section \<open>A small list\<close>

text \<open>Two elements, both used: key 7 in front of key 5, which is dirty.\<close>

definition small_lru :: LRUList_t where
  "small_lru = \<lparr>Element = [\<lparr>el_next = 1, el_previous = - 2, el_key = 7, el_dirty = False\<rparr>,
       \<lparr>el_next = - 2, el_previous = 0, el_key = 5, el_dirty = True\<rparr>],
     Head = 0, Tail = 1, Len = 2, FreeHead = - 2, FreeTail = - 2, FreeLen = 0\<rparr>"

lemma small_lru: "lru small_lru [0, 1] []" "cached small_lru [7, 5]" "capacity_of small_lru = 2"
proof -
  show l: "lru small_lru [0, 1] []"
    by (simp add: lru_def small_lru_def at_def inb_def)
  show "cached small_lru [7, 5]"
    by (rule cachedI [OF l]) (simp_all add: small_lru_def keys_def kd_def at_def)
  show "capacity_of small_lru = 2" by (simp add: capacity_of_def small_lru_def)
qed

section \<open>Properties\<close>

text \<open>C12. A new list is empty and has as many free elements as asked for, whatever the allocated
  memory held.\<close>

theorem CreateLRUList_empty:
  assumes "0 < len"
  shows "\<exists>l'. CreateLRUList fresh len l = Inr (True, l') \<and> cached l' [] \<and> int (capacity_of l') = len"
  using wp_CreateLRUList [OF assms, of fresh l] by (auto simp: wp_result)

text \<open>C12 applies to a list of three elements.\<close>

theorem CreateLRUList_empty_witness:
  "\<exists>l'. CreateLRUList \<lparr>el_next = 9, el_previous = 9, el_key = 9, el_dirty = True\<rparr> 3 small_lru = Inr (True, l') \<and>
    cached l' [] \<and> capacity_of l' = 3"
  using CreateLRUList_empty [of 3 "\<lparr>el_next = 9, el_previous = 9, el_key = 9, el_dirty = True\<rparr>" small_lru]
  by auto

text \<open>C11. The list implements the least-recently-used policy: a client that looks a key up, moves it to
  the front when it is found and puts it into the list otherwise keeps exactly the most recently
  used keys, in the order of their last use, as many as the list has elements, over any sequence
  of accesses; none of the array accesses on the way is out of bounds.\<close>

theorem LRUList_keeps_most_recent:
  assumes "cached l ks" "0 < capacity_of l"
  shows "\<exists>l'. blockM (map (access_key IsElemenetInLRUList MoveElemenetToTheHeadofLRUList
      (PutElemenetToLRUList (Suc (Suc n)))) accesses) l = Inr ((), l') \<and>
    cached l' (take (capacity_of l) (fold used accesses ks))"
proof -
  have "take (capacity_of l) ks = ks" "distinct ks" using cached_bound [OF assms(1)] by auto
  then show ?thesis
    using lru_list.access_many [of l ks n accesses] assms by (auto simp: wp_result)
qed

text \<open>C11 applies to accesses of the keys 5, 9 and 5 again: 7 is evicted.\<close>

theorem LRUList_keeps_most_recent_witness:
  "\<exists>l'. blockM (map (access_key IsElemenetInLRUList MoveElemenetToTheHeadofLRUList
      (PutElemenetToLRUList (Suc (Suc 0)))) [5, 9, 5]) small_lru = Inr ((), l') \<and> cached l' [5, 9]"
  using LRUList_keeps_most_recent [OF small_lru(2), of 0 "[5, 9, 5]"] small_lru(3)
  by (simp add: used_def numeral_2_eq_2)

text \<open>The list of DFTL keeps the same keys as that of LRUList.c: with the charging functions in
  place of the plain ones, the most recently used keys are kept over any sequence of accesses.\<close>

theorem LRUListD_keeps_most_recent:
  assumes "cached l ks" "0 < capacity_of l"
  shows "\<exists>l'. blockM (map (access_key IsElemenetInLRUListD MoveElemenetToTheHeadofLRUListD
      (PutElemenetToLRUListD (Suc (Suc n)) wt)) accesses) l = Inr ((), l') \<and>
    cached l' (take (capacity_of l) (fold used accesses ks))"
proof -
  have "take (capacity_of l) ks = ks" "distinct ks" using cached_bound [OF assms(1)] by auto
  then show ?thesis
    using lru_dftl.access_many [of l ks n wt accesses] assms by (auto simp: wp_result)
qed

text \<open>Applied to accesses of the keys 5, 9 and 5 again.\<close>

theorem LRUListD_keeps_most_recent_witness:
  "\<exists>l'. blockM (map (access_key IsElemenetInLRUListD MoveElemenetToTheHeadofLRUListD
      (PutElemenetToLRUListD (Suc (Suc 0)) 800)) [5, 9, 5]) small_lru = Inr ((), l') \<and> cached l' [5, 9]"
  using LRUListD_keeps_most_recent [OF small_lru(2), of 0 800 "[5, 9, 5]"] small_lru(3)
  by (simp add: used_def numeral_2_eq_2)

text \<open>The search finds a key exactly if the list holds it, returns the position that holds it,
  reports the number of elements it looked at (the whole list if the key is missing), and
  changes nothing.\<close>

theorem IsElemenetInLRUList_correct:
  assumes "lru l xs fs"
  shows "\<exists>found pos num. IsElemenetInLRUList key l = Inr ((found, pos, num), l) \<and>
    found = (key \<in> set (keys l xs)) \<and>
    (if found then \<exists>ys zs. xs = ys @ pos # zs \<and> el_key (at (Element l) pos) = key \<and>
       key \<notin> set (keys l ys) \<and> num = int (length ys) + 1
     else pos = - 1 \<and> num = int (length xs))"
proof -
  obtain found pos num where r: "IsElemenetInLRUList key l = Inr ((found, pos, num), l)"
      "search_post l key xs 0 (found, pos, num)"
    using wp_IsElemenetInLRUList [OF assms, of key] by (auto simp: wp_result)
  show ?thesis
    by (rule exI [of _ found], rule exI [of _ pos], rule exI [of _ num])
       (use r in \<open>cases found; auto simp: search_post_def\<close>)
qed

text \<open>Applied to key 5, the second one of the small list.\<close>

theorem IsElemenetInLRUList_correct_witness:
  "\<exists>pos. IsElemenetInLRUList 5 small_lru = Inr ((True, pos, 2), small_lru)"
proof -
  have k: "keys small_lru [0, 1] = [7, 5]" by (simp add: small_lru_def keys_def kd_def at_def)
  obtain found pos num where r: "IsElemenetInLRUList 5 small_lru = Inr ((found, pos, num), small_lru)"
      "found = (5 \<in> set (keys small_lru [0, 1]))"
      "if found then \<exists>ys zs. [0, 1] = ys @ pos # zs \<and> el_key (at (Element small_lru) pos) = 5 \<and>
       5 \<notin> set (keys small_lru ys) \<and> num = int (length ys) + 1
     else pos = - 1 \<and> num = int (length [0, 1 :: int])"
    using IsElemenetInLRUList_correct [OF small_lru(1), of 5] by metis
  then obtain ys zs where y: "[0, 1] = ys @ pos # zs" "5 \<notin> set (keys small_lru ys)"
      "el_key (at (Element small_lru) pos) = 5" "num = int (length ys) + 1"
    using k by auto
  then have "pos \<noteq> 0" by (auto simp: small_lru_def at_def)
  then have "ys = [0]" using y(1) by (cases ys) (auto simp: Cons_eq_append_conv)
  then show ?thesis using r y k by simp
qed

text \<open>Removing a key at the position that holds it takes it out of the list, keeps the order of the
  others and gives its element back; a wrong key leaves the list as it is.\<close>

theorem RemoveElemenetFromLRUList_correct:
  assumes "lru l xs fs" "pos \<in> set xs"
  shows "\<exists>l'. RemoveElemenetFromLRUList key pos l = Inr (el_key (at (Element l) pos) = key, l') \<and>
    (if el_key (at (Element l) pos) = key
     then lru l' (remove1 pos xs) (pos # fs) \<and> el_key (at (Element l') pos) = LRU_ELEMENT_FREE \<and>
       keys l' (remove1 pos xs) = keys l (remove1 pos xs)
     else l' = l)"
proof -
  obtain r l' where r: "RemoveElemenetFromLRUList key pos l = Inr (r, l')"
      "if el_key (at (Element l) pos) = key then r \<and> lru l' (remove1 pos xs) (pos # fs) \<and>
        kd (Element l') = upd (kd (Element l)) pos (LRU_ELEMENT_FREE, el_dirty (at (Element l) pos))
       else \<not> r \<and> l' = l"
    using wp_RemoveElemenetFromLRUList [OF assms, of key] by (auto simp: wp_result)
  show ?thesis
  proof (cases "el_key (at (Element l) pos) = key")
    case True
    then have l': "r" "lru l' (remove1 pos xs) (pos # fs)"
        "kd (Element l') = upd (kd (Element l)) pos (- 3, el_dirty (at (Element l) pos))"
      using r(2) by auto
    have i: "inb (Element l) pos" "inb (Element l') pos" using lru_inb [OF assms(1)] lru_inb [OF l'(2)] assms(2) by auto
    have "keys l' (remove1 pos xs) = keys l (remove1 pos xs)"
    proof (rule keys_upd [OF l'(3) i(1)])
      show "pos \<notin> set (remove1 pos xs)" using assms(1) by (simp add: lru_def)
      show "inb (Element l) x" if "x \<in> set (remove1 pos xs)" for x
        using that lru_inb [OF assms(1)] notin_set_remove1 by fastforce
    qed
    moreover have "el_key (at (Element l') pos) = - 3"
      using at_kd [OF i(2)] l'(3) i(1) by (simp add: at_upd inb_nonneg)
    ultimately show ?thesis using True r(1) l' by simp
  qed (use r in simp)
qed

text \<open>Applied to key 7 at position 0 of the small list.\<close>

theorem RemoveElemenetFromLRUList_correct_witness:
  "\<exists>l'. RemoveElemenetFromLRUList 7 0 small_lru = Inr (True, l') \<and> lru l' [1] [0]"
  using RemoveElemenetFromLRUList_correct [OF small_lru(1), of 0 7] by (auto simp: small_lru_def at_def)

text \<open>The dirty flag outlives its key: when a key is put into a full list whose tail is dirty, the
  new key takes over the element of the evicted one with the flag still set, so the new key is
  reported dirty although it was never written.\<close>

theorem PutElemenetToLRUList_inherits_dirty:
  assumes "lru l xs []" "xs \<noteq> []" "el_dirty (at (Element l) (last xs))"
  shows "\<exists>l'. PutElemenetToLRUList (Suc (Suc n)) key l = Inr (last xs, l') \<and>
    el_key (at (Element l') (last xs)) = key \<and> IsElementDirty (last xs) l' = Inr (True, l')"
proof -
  have ix: "inb (Element l) (last xs)" using lru_inb [OF assms(1)] assms(2) by simp
  have none: "wp (PutElementToTheHeadOfLRUList key) (\<lambda>r l'. r = None \<and> l' = l) l"
    by (rule wp_mono [OF wp_PutElementToTheHeadOfLRUList [OF assms(1)]]) auto
  let ?post = "\<lambda>pos l'. pos = last xs \<and> inb (Element l') (last xs) \<and>
    el_key (at (Element l') (last xs)) = key \<and> el_dirty (at (Element l') (last xs))"
  have "wp RemoveTheTailElemenetFromLRUList (\<lambda>_. wp (PutElemenetToLRUList (Suc n) key) ?post) l"
  proof (rule wp_mono [OF wp_RemoveTheTailElemenetFromLRUList [OF assms(1,2)]])
    fix r k
    assume k: "r = Some (el_key (at (Element l) (last xs)), last xs) \<and> lru k (butlast xs) [last xs] \<and>
      kd (Element k) = upd (kd (Element l)) (last xs) (LRU_ELEMENT_FREE, el_dirty (at (Element l) (last xs)))"
    then have ik: "inb (Element k) (last xs)" using lru_inb [of k "butlast xs" "[last xs]"] by simp
    have dk: "el_dirty (at (Element k) (last xs))"
      using at_kd [OF ik] k ix assms(3) by (simp add: at_upd inb_nonneg)
    have "wp (PutElementToTheHeadOfLRUList key) (\<lambda>r l'. r = Some (last xs) \<and> ?post (last xs) l') k"
    proof (rule wp_mono [OF wp_PutElementToTheHeadOfLRUList [of k "butlast xs" "[last xs]"]])
      fix r m
      assume m: "if [last xs] = [] then r = None \<and> m = k else r = Some (last [last xs]) \<and>
        lru m (last [last xs] # butlast xs) (butlast [last xs]) \<and>
        kd (Element m) = upd (kd (Element k)) (last [last xs]) (key, el_dirty (at (Element k) (last [last xs])))"
      then have im: "inb (Element m) (last xs)"
        using lru_inb [of m "last xs # butlast xs" "[]"] by simp
      show "r = Some (last xs) \<and> ?post (last xs) m"
        using m im at_kd [OF im] ik dk by (simp add: at_upd inb_nonneg)
    qed (use k in simp)
    then show "wp (PutElemenetToLRUList (Suc n) key) ?post k"
      unfolding PutElemenetToLRUList.simps(2) wp_bindM by (rule wp_mono) (auto simp: wp)
  qed
  then have "wp (PutElemenetToLRUList (Suc (Suc n)) key) ?post l"
    unfolding PutElemenetToLRUList.simps(2) [of "Suc n"] wp_bindM
    by (intro wp_mono [OF none]) (auto simp: wp simp del: PutElemenetToLRUList.simps)
  then show ?thesis
    by (auto simp: wp_result IsElementDirty_def bindM_def rd_def returnM_def)
qed

text \<open>Applied to the small list and the new key 9.\<close>

theorem PutElemenetToLRUList_inherits_dirty_witness:
  "\<exists>l'. PutElemenetToLRUList (Suc (Suc 0)) 9 small_lru = Inr (1, l') \<and>
    el_key (at (Element l') 1) = 9 \<and> IsElementDirty 1 l' = Inr (True, l')"
  using PutElemenetToLRUList_inherits_dirty [OF small_lru(1), of 0 9] by (simp add: small_lru_def at_def)

end
