(* ===== verification/Trace.thy ===== *)
theory Trace
  imports Flash_Memory
begin

text \<open>
  The reader of the trace file (utility.h, utility.c).  \<open>GetOneOperation\<close> parses the file when it
  is called for the first time, in two passes, and keeps the operations that fit the device in
  an array; each call then delivers one operation, starts the trace anew when it is used up, and
  returns None in place of False when the trace was rewound often enough.

  The static variables of the function are fields of the state, the file is an argument.  The
  text of the file is read by a model of \<open>fscanf(fp, "%s %d %d", ...)\<close>; the end-of-file flag is
  set once nothing is left to read.  Messages and the wall clock are left out.
\<close>

section \<open>State\<close>

record OperationRange_t =
  AccessType :: AccessType_t
  StartLBA :: int
  EndLBA :: int

text \<open>A request as \<open>GetOneOperation\<close> returns it through its pointers.\<close>

record OneRequest_t =
  RequestType :: AccessType_t
  StartCluster :: int
  Length :: int

record trace = flash +
  InputFileRewindTimes :: int
  IsDoSimulationUntilFirstBlockWornOut :: bool
  BlockEndurance :: int
  EvaluatedAccessType :: string
  TotalAccessedLogicalPages :: int
  TotalAccessedLogicalPageMap :: "bool list"
  CurrentRewindTimes :: int
  IsParseTraceFile :: bool
  TraceOperation :: "OperationRange_t list"
  OperationCnt :: int
  CurrentOperationCnt :: int
  RandomIndex :: int

abbreviation (input) TRACE_UNIT :: int where "TRACE_UNIT \<equiv> 372"
abbreviation (input) BUFFER_SIZE :: nat where "BUFFER_SIZE \<equiv> 256"

section \<open>Reading the file\<close>

definition isspace :: "char \<Rightarrow> bool" where
  "isspace c \<longleftrightarrow> (let n = of_char c :: nat in n = 32 \<or> 9 \<le> n \<and> n \<le> 13)"

definition isdigit :: "char \<Rightarrow> bool" where
  "isdigit c \<longleftrightarrow> (let n = of_char c :: nat in 48 \<le> n \<and> n \<le> 57)"

definition digits :: "string \<Rightarrow> int" where
  "digits ds = foldl (\<lambda>a c. 10 * a + (int (of_char c) - 48)) 0 ds"

text \<open>
  The variables that \<open>fscanf\<close> fills.  They have no value before the first line, and keep the
  values of the line before when a conversion fails.
\<close>

record scanned =
  ReadWriteString :: "string option"
  LineStart :: "int option"
  LineLen :: "int option"

text \<open>
  The conversion \<open>%d\<close>: the number, or None if the text does not start with one, and the text
  left.  A number that does not fit \<open>int\<close> is undefined behaviour of \<open>fscanf\<close>.
\<close>

definition scan_int :: "string \<Rightarrow> ('s, int option \<times> string) prog" where
  "scan_int f = (case dropWhile isspace f of
     [] \<Rightarrow> returnM (None, [])
   | c # r \<Rightarrow>
      (let txt = (if c = CHR ''-'' \<or> c = CHR ''+'' then r else c # r);
           ds = takeWhile isdigit txt;
           x = (if c = CHR ''-'' then - digits ds else digits ds)
       in if ds = [] then returnM (None, txt)
          else if int32 x then returnM (Some x, dropWhile isdigit txt)
          else failM Undefined_Value))"

definition fscanf :: "string \<Rightarrow> scanned \<Rightarrow> ('s, scanned \<times> string) prog" where
  "fscanf f v =
     (let w = takeWhile (\<lambda>c. \<not> isspace c) (dropWhile isspace f);
          f1 = dropWhile (\<lambda>c. \<not> isspace c) (dropWhile isspace f)
      in if w = [] then returnM (v, f1)
         else if length w \<ge> BUFFER_SIZE then failM Out_Of_Bounds
         else bindM (scan_int f1) (\<lambda>(a, f2).
           if a = None then returnM (v\<lparr>ReadWriteString := Some w\<rparr>, f2)
           else bindM (scan_int f2) (\<lambda>(b, f3).
             returnM (v\<lparr>ReadWriteString := Some w, LineStart := a,
               LineLen := (if b = None then LineLen v else b)\<rparr>, f3))))"

text \<open>Whether a line is evaluated, and how.\<close>

definition access_of :: "string \<Rightarrow> string \<Rightarrow> AccessType_t option" where
  "access_of evaluated w =
     (if (hd w = CHR ''W'' \<or> hd w = CHR ''w'') \<and> (evaluated = ''W'' \<or> evaluated = ''RW'')
      then Some WriteType
      else if (hd w = CHR ''R'' \<or> hd w = CHR ''r'') \<and> (evaluated = ''R'' \<or> evaluated = ''RW'')
      then Some ReadType
      else None)"

text \<open>The body of both loops: \<open>act\<close> is done for an evaluated line that ends below \<open>MaxLBA\<close>.\<close>

definition on_line ::
  "(AccessType_t \<Rightarrow> int \<Rightarrow> int \<Rightarrow> ('a trace_scheme, unit) prog) \<Rightarrow> scanned \<Rightarrow>
     ('a trace_scheme, unit) prog" where
  "on_line act v = (case ReadWriteString v of
     None \<Rightarrow> failM Undefined_Value
   | Some w \<Rightarrow> bindM (getM EvaluatedAccessType) (\<lambda>evaluated. case access_of evaluated w of
       None \<Rightarrow> returnM ()
     | Some ty \<Rightarrow> (case (LineStart v, LineLen v) of
         (Some start, Some len) \<Rightarrow>
           bindM (chkM (start - 1)) (\<lambda>x. bindM (chkM (x + len)) (\<lambda>end_lba.
           bindM (getM MaxLBA) (\<lambda>m. whenM (end_lba < m) (act ty start end_lba))))
       | _ \<Rightarrow> failM Undefined_Value)))"

text \<open>
  \<open>while(!feof(fp))\<close>: the flag is clear before the first line.  A line takes at least one
  character or sets the flag, so that one round more than the characters of the file is enough.
\<close>

fun scan_lines ::
  "nat \<Rightarrow> (scanned \<Rightarrow> ('s, unit) prog) \<Rightarrow> string \<Rightarrow> scanned \<Rightarrow> ('s, scanned) prog" where
  "scan_lines 0 body f v = failM Out_Of_Fuel"
| "scan_lines (Suc n) body f v = bindM (fscanf f v) (\<lambda>(v', f').
     thenM (body v') (if f' = [] then returnM v' else scan_lines n body f' v'))"

definition count_operation :: "AccessType_t \<Rightarrow> int \<Rightarrow> int \<Rightarrow> ('a trace_scheme, unit) prog" where
  "count_operation ty start end_lba = modM (OperationCnt_update (\<lambda>n. n + 1))"

definition keep_operation :: "AccessType_t \<Rightarrow> int \<Rightarrow> int \<Rightarrow> ('a trace_scheme, unit) prog" where
  "keep_operation ty start end_lba = bindM (getM CurrentOperationCnt) (\<lambda>n. blockM
     [wr TraceOperation TraceOperation_update n
        \<lparr>AccessType = ty, StartLBA = start, EndLBA = end_lba\<rparr>,
      modM (CurrentOperationCnt_update (\<lambda>n. n + 1))])"

text \<open>\<open>fresh\<close> is the content of the memory allocated for one operation.\<close>

definition parse_trace :: "string \<Rightarrow> OperationRange_t \<Rightarrow> ('a trace_scheme, unit) prog" where
  "parse_trace file fresh =
     thenM (bindM (getM (\<lambda>s. MaxPage s * MaxBlock s)) (\<lambda>n.
       modM (TotalAccessedLogicalPageMap_update (\<lambda>_. replicate (nat n) False))))
    (thenM (modM (IsParseTraceFile_update (\<lambda>_. True)))
    (bindM (scan_lines (Suc (length file)) (on_line count_operation) file
       \<lparr>ReadWriteString = None, LineStart = None, LineLen = None\<rparr>) (\<lambda>v.
     thenM (bindM (getM OperationCnt) (\<lambda>n.
       modM (TraceOperation_update (\<lambda>_. replicate (nat n) fresh))))
    (thenM (scan_lines (Suc (length file)) (on_line keep_operation) file v)
       (modM (CurrentOperationCnt_update (\<lambda>_. 0)))))))"

section \<open>Delivering operations\<close>

definition mark_page :: "int \<Rightarrow> ('a trace_scheme, unit) prog" where
  "mark_page i = blockM
     [bindM (rd AccessedLogicalPageMap i) (\<lambda>set. whenM (\<not> set) (blockM
        [modM (AccessedLogicalPages_update (\<lambda>n. n + 1)),
         wr AccessedLogicalPageMap AccessedLogicalPageMap_update i True])),
      bindM (rd TotalAccessedLogicalPageMap i) (\<lambda>set. whenM (\<not> set) (blockM
        [modM (TotalAccessedLogicalPages_update (\<lambda>n. n + 1)),
         wr TotalAccessedLogicalPageMap TotalAccessedLogicalPageMap_update i True]))]"

text \<open>The operation at the current place, as a request in sub-pages or in clusters.\<close>

definition deliver :: "bool \<Rightarrow> ('a trace_scheme, OneRequest_t) prog" where
  "deliver subPageLevel =
     bindM (getM (\<lambda>s. RandomIndex s + CurrentOperationCnt s)) (\<lambda>k.
     bindM (getM OperationCnt) (\<lambda>n.
     bindM (modulM k n) (\<lambda>i.
     bindM (rd TraceOperation i) (\<lambda>op.
       if subPageLevel then
         let start = StartLBA op; len = EndLBA op - start + 1 in
         bindM (getM MaxSubPage) (\<lambda>m. bindM (divM start m) (\<lambda>first.
         thenM (forM first (first + len) mark_page)
           (returnM \<lparr>RequestType = AccessType op, StartCluster = start, Length = len\<rparr>)))
       else
         bindM (getM PageToLBARatio) (\<lambda>ratio.
         bindM (divM (StartLBA op) ratio) (\<lambda>start.
         bindM (divM (EndLBA op) ratio) (\<lambda>last.
         let len = last - start + 1 in
         thenM (forM start (start + len) mark_page)
           (returnM \<lparr>RequestType = AccessType op, StartCluster = start, Length = len\<rparr>))))))))"

text \<open>
  The new start of the trace, \<open>(int)(((float)rand()/RAND_MAX)*OperationCnt)\<close>: both integers are
  rounded to single precision, \<open>RAND_MAX\<close> is \<open>2^31\<close> there, and the product is rounded.
\<close>

definition draw_index :: "('a trace_scheme, unit) prog" where
  "draw_index = bindM randM (\<lambda>r. bindM (getM OperationCnt) (\<lambda>n.
     bindM (chkM (float_div (float_div r 1 * float_div n 1) 2147483648)) (\<lambda>i.
       modM (RandomIndex_update (\<lambda>_. i)))))"

definition rewind_trace :: "('a trace_scheme, unit) prog" where
  "rewind_trace = blockM
     [modM (CurrentOperationCnt_update (\<lambda>_. 0)),
      modM (CurrentRewindTimes_update (\<lambda>n. n + 1))]"

definition next_operation :: "bool \<Rightarrow> ('a trace_scheme, OneRequest_t) prog" where
  "next_operation subPageLevel =
     bindM (deliver subPageLevel) (\<lambda>r.
     thenM (modM (CurrentOperationCnt_update (\<lambda>n. n + 1)))
    (thenM (bindM (getM CurrentOperationCnt) (\<lambda>n.
       whenM (n smod TRACE_UNIT = 0) draw_index))
     (returnM r)))"

definition GetOneOperation ::
  "string \<Rightarrow> OperationRange_t \<Rightarrow> bool \<Rightarrow> ('a trace_scheme, OneRequest_t option) prog" where
  "GetOneOperation file fresh subPageLevel =
     thenM (bindM (getM IsParseTraceFile) (\<lambda>parsed. whenM (\<not> parsed) (parse_trace file fresh)))
    (bindM (getM (\<lambda>s. IsDoSimulationUntilFirstBlockWornOut s \<and>
       MaxBlockEraseCnt s \<ge> BlockEndurance s)) (\<lambda>worn_out.
     if worn_out then returnM None
     else bindM (getM (\<lambda>s. CurrentOperationCnt s \<ge> OperationCnt s)) (\<lambda>used_up.
       if used_up then
         bindM (getM (\<lambda>s. IsDoSimulationUntilFirstBlockWornOut s \<or>
           CurrentRewindTimes s < InputFileRewindTimes s)) (\<lambda>again.
         if again then thenM rewind_trace (bindM (next_operation subPageLevel) (\<lambda>r. returnM (Some r)))
         else returnM None)
       else bindM (next_operation subPageLevel) (\<lambda>r. returnM (Some r)))))"

text \<open>
  The loop of the simulations: \<open>while(GetOneOperation(fp, ...)) body\<close>.  It does not end while
  no block wears out, if the simulation runs until then, and so takes fuel.
\<close>

fun each_request ::
  "nat \<Rightarrow> string \<Rightarrow> OperationRange_t \<Rightarrow> bool \<Rightarrow> (OneRequest_t \<Rightarrow> ('a trace_scheme, unit) prog) \<Rightarrow>
     ('a trace_scheme, unit) prog" where
  "each_request 0 file fresh sub body = failM Out_Of_Fuel"
| "each_request (Suc n) file fresh sub body = bindM (GetOneOperation file fresh sub) (\<lambda>r. case r of
     None \<Rightarrow> returnM ()
   | Some q \<Rightarrow> thenM (body q) (each_request n file fresh sub body))"

end
