(* ===== verification/BL_Model.thy ===== *)
theory BL_Model
  imports Trace Flash_Pages
begin

text \<open>
  The block-level translation layer (BL.h, BL.c): the table maps logical blocks to blocks of the
  flash memory, and a page keeps its place in the block.  The simulation gathers the written
  clusters of one logical block in a buffer and writes the block anew when another block is
  written or a read comes in.

  The local variables of \<open>BLSimulation\<close> that live across requests are fields of the state.  The
  array \<open>ZeroedUpdatedClusters\<close>, which the source allocates and never uses, is left out, as are
  messages and the release of memory.
\<close>

section \<open>State\<close>

abbreviation (input) BL_POINT_TO_NULL :: int where "BL_POINT_TO_NULL \<equiv> - 1"

record bl = trace +
  BLTable :: "int list"
  UpdatedClusters :: "int list"
  CurrentAccessedBlock :: int

section \<open>Operations\<close>

definition BLReadOneCluster :: "int \<Rightarrow> ('a bl_scheme, bool) prog" where
  "BLReadOneCluster ClusterID =
     bindM (getM MaxPage) (\<lambda>mp.
     bindM (divM ClusterID mp) (\<lambda>L.
     bindM (rd BLTable L) (\<lambda>b.
       if b = BL_POINT_TO_NULL then returnM False
       else bindM (modulM ClusterID mp) (\<lambda>i.
         bindM (rd2 FlashMemory b i) (\<lambda>x.
           if x \<noteq> ClusterID then returnM False
           else thenM (read_time TIME_READ_PAGE) (returnM True))))))"

text \<open>
  One page of the new block \<open>FreeBlock\<close>; \<open>old\<close> is the entry of the table, which does not change
  before the end of the update.
\<close>

definition copy_page :: "int \<Rightarrow> int \<Rightarrow> int \<Rightarrow> ('a bl_scheme, unit) prog" where
  "copy_page old FreeBlock i =
     bindM (rd UpdatedClusters i) (\<lambda>u.
       if u \<noteq> BL_POINT_TO_NULL then blockM
         [wr2 FlashMemory FlashMemory_update FreeBlock i u,
          inc ValidPageCnt ValidPageCnt_update FreeBlock 1,
          write_time TIME_WRITE_PAGE]
       else whenM (old \<noteq> BL_POINT_TO_NULL)
         (bindM (rd2 FlashMemory old i) (\<lambda>x.
           if x \<noteq> INVALID_PAGE \<and> x \<noteq> FREE_PAGE then blockM
             [wr2 FlashMemory FlashMemory_update FreeBlock i x,
              inc ValidPageCnt ValidPageCnt_update FreeBlock 1,
              stat (TotalLivePageCopyings_update (\<lambda>n. n + 1)),
              write_time (\<lambda>s. TIME_READ_PAGE s + TIME_WRITE_PAGE s)]
           else write_time TIME_READ_PAGE)))"

definition BLUpdateOneBlock :: "int \<Rightarrow> ('a bl_scheme, unit) prog" where
  "BLUpdateOneBlock LogicalBlock =
     bindM (rd BLTable LogicalBlock) (\<lambda>old.
     thenM (whenM (old \<noteq> BL_POINT_TO_NULL) (PutFreeBlock old))
    (bindM (GetFreeBlock False) (\<lambda>FreeBlock.
       if FreeBlock = - 1 then failM (Exit_With 1)
       else blockM
         [bindM (getM MaxPage) (\<lambda>mp. forM 0 mp (copy_page old FreeBlock)),
          whenM (old \<noteq> BL_POINT_TO_NULL) (blockM
            [wr InvalidPageCnt InvalidPageCnt_update old 0,
             erase_pages old,
             count_erase old]),
          wr BLTable BLTable_update LogicalBlock FreeBlock])))"

text \<open>The buffer is emptied.\<close>

definition clear_buffer :: "('a bl_scheme, unit) prog" where
  "clear_buffer = bindM (getM MaxPage) (\<lambda>mp.
     modM (UpdatedClusters_update (\<lambda>_. replicate (nat mp) BL_POINT_TO_NULL)))"

section \<open>Requests\<close>

text \<open>The buffer is written when another block, or a read, comes in.\<close>

definition flush_if_left :: "AccessType_t \<Rightarrow> int \<Rightarrow> ('a bl_scheme, unit) prog" where
  "flush_if_left ty c =
     bindM (getM CurrentAccessedBlock) (\<lambda>cur.
       whenM (cur \<noteq> - 1)
         (bindM (getM MaxPage) (\<lambda>mp. bindM (divM c mp) (\<lambda>L.
           whenM (cur \<noteq> L \<or> ty \<noteq> WriteType) (blockM
             [BLUpdateOneBlock cur,
              clear_buffer,
              modM (CurrentAccessedBlock_update (\<lambda>_. - 1))])))))"

definition buffer_cluster :: "int \<Rightarrow> ('a bl_scheme, unit) prog" where
  "buffer_cluster c = bindM (getM MaxPage) (\<lambda>mp. blockM
     [bindM (modulM c mp) (\<lambda>i. wr UpdatedClusters UpdatedClusters_update i c),
      bindM (divM c mp) (\<lambda>L. modM (CurrentAccessedBlock_update (\<lambda>_. L)))])"

text \<open>
  The loop over the clusters of a request; the result is the cluster at which it was left, which
  a read of a missing cluster makes smaller than the end.
\<close>

fun bl_clusters :: "AccessType_t \<Rightarrow> nat \<Rightarrow> int \<Rightarrow> ('a bl_scheme, int) prog" where
  "bl_clusters ty 0 c = returnM c"
| "bl_clusters ty (Suc n) c =
     thenM (flush_if_left ty c)
       (case ty of
          WriteType \<Rightarrow> thenM (buffer_cluster c) (bl_clusters ty n (c + 1))
        | ReadType \<Rightarrow> bindM (BLReadOneCluster c) (\<lambda>found.
            if found then bl_clusters ty n (c + 1) else returnM c))"

definition bl_request :: "OneRequest_t \<Rightarrow> ('a bl_scheme, unit) prog" where
  "bl_request q =
     bindM (bl_clusters (RequestType q) (nat (Length q)) (StartCluster q)) (\<lambda>c.
       whenM (c = StartCluster q + Length q)
         (case RequestType q of
            WriteType \<Rightarrow> stat (TotalWriteRequestCount_update (\<lambda>n. n + 1))
          | ReadType \<Rightarrow> stat (TotalReadRequestCount_update (\<lambda>n. n + 1))))"

section \<open>The simulation\<close>

text \<open>One logical block with initial data.\<close>

definition fill_block :: "int \<Rightarrow> ('a bl_scheme, unit) prog" where
  "fill_block i = blockM
     [bindM (getM MaxPage) (\<lambda>mp. forM 0 mp (\<lambda>j. blockM
        [wr UpdatedClusters UpdatedClusters_update j (i * mp + j),
         modM (AccessedLogicalPages_update (\<lambda>n. n + 1)),
         wr AccessedLogicalPageMap AccessedLogicalPageMap_update (i * mp + j) True])),
      BLUpdateOneBlock i,
      clear_buffer]"

definition init_bl :: "('a bl_scheme, unit) prog" where
  "init_bl = blockM
     [bindM (getM MaxBlock) (\<lambda>mb.
        modM (BLTable_update (\<lambda>_. replicate (nat mb) BL_POINT_TO_NULL))),
      clear_buffer,
      bindM (getM InitialPercentage) (\<lambda>p. bindM (BlockMaxRandomValue p) (\<lambda>bm.
        bindM (getM (\<lambda>s. MaxBlock s - LeastFreeBlocksInFBL s - BadBlockCnt s)) (\<lambda>n.
          forM 0 n (\<lambda>i. bindM randM (\<lambda>r. whenM (r \<le> bm) (fill_block i)))))),
      ResetStatisticVariable]"

definition flush_last :: "('a bl_scheme, unit) prog" where
  "flush_last = bindM (getM CurrentAccessedBlock) (\<lambda>cur. whenM (cur \<noteq> - 1) (BLUpdateOneBlock cur))"

definition BLSimulation :: "nat \<Rightarrow> string \<Rightarrow> OperationRange_t \<Rightarrow> ('a bl_scheme, unit) prog" where
  "BLSimulation fuel file fresh = blockM
     [init_bl,
      modM (CurrentAccessedBlock_update (\<lambda>_. - 1)),
      each_request fuel file fresh False bl_request,
      flush_last]"

end
