(* ===== verification/BL_Update.thy ===== *)
theory BL_Update
  imports BL_Model
begin

text \<open>
  The invariant of the block-level layer and what writing one block anew does: the table is
  injective, page \<open>i\<close> of the block of logical block \<open>L\<close> is erased or holds the cluster
  \<open>L * MaxPage + i\<close>, and the blocks of the free list are erased.
\<close>

section \<open>The invariant\<close>

definition entry :: "'a bl_scheme \<Rightarrow> int \<Rightarrow> int" where
  "entry s L = at (BLTable s) L"

definition mapped_blocks :: "'a bl_scheme \<Rightarrow> int set" where
  "mapped_blocks s = {L. is_block s L \<and> entry s L \<noteq> - 1}"

definition cluster :: "'a bl_scheme \<Rightarrow> int \<Rightarrow> int \<Rightarrow> int" where
  "cluster s L p = L * MaxPage s + p"

definition bl_inv :: "int list \<Rightarrow> 'a bl_scheme \<Rightarrow> bool" where
  "bl_inv xs s \<longleftrightarrow>
     fbl s xs \<and> shaped s \<and> 1 \<le> LeastFreeBlocksInFBL s \<and> int (length (BLTable s)) = MaxBlock s \<and>
     (\<forall>L \<in> mapped_blocks s. is_block s (entry s L) \<and> entry s L \<notin> set xs) \<and>
     inj_on (entry s) (mapped_blocks s) \<and>
     (\<forall>b \<in> set xs. \<forall>p. is_page s p \<longrightarrow> mem s b p = FREE_PAGE) \<and>
     (\<forall>L \<in> mapped_blocks s. \<forall>p. is_page s p \<longrightarrow>
        mem s (entry s L) p = FREE_PAGE \<or> mem s (entry s L) p = cluster s L p)"

text \<open>
  Room for \<open>n\<close> logical blocks: what is neither free nor mapped (the bad blocks) leaves the
  reserve untouched when all of them are mapped.
\<close>

definition room :: "int \<Rightarrow> int list \<Rightarrow> 'a bl_scheme \<Rightarrow> bool" where
  "room n xs s \<longleftrightarrow> n \<le> MaxBlock s \<and> mapped_blocks s \<subseteq> {0..<n} \<and>
     LeastFreeBlocksInFBL s + n \<le> int (length xs) + int (card (mapped_blocks s))"

text \<open>The buffer of a logical block, the clusters in it, and the clusters in the flash memory.\<close>

definition buf_ok :: "int \<Rightarrow> 'a bl_scheme \<Rightarrow> bool" where
  "buf_ok L s \<longleftrightarrow> int (length (UpdatedClusters s)) = MaxPage s \<and>
     (\<forall>p. is_page s p \<longrightarrow> at (UpdatedClusters s) p = - 1 \<or> at (UpdatedClusters s) p = cluster s L p)"

definition buffered :: "'a bl_scheme \<Rightarrow> int set" where
  "buffered s = {c. c \<noteq> - 1 \<and> (\<exists>p. is_page s p \<and> at (UpdatedClusters s) p = c)}"

definition stored :: "'a bl_scheme \<Rightarrow> int set" where
  "stored s = {c. \<exists>L \<in> mapped_blocks s. \<exists>p. is_page s p \<and> c = cluster s L p \<and> mem s (entry s L) p = c}"

section \<open>Copying the pages\<close>

definition new_page :: "'a bl_scheme \<Rightarrow> int \<Rightarrow> int \<Rightarrow> int \<Rightarrow> int" where
  "new_page s old f p =
     (if at (UpdatedClusters s) p \<noteq> - 1 then at (UpdatedClusters s) p
      else if old \<noteq> - 1 \<and> mem s old p \<noteq> INVALID_PAGE \<and> mem s old p \<noteq> FREE_PAGE then mem s old p
      else mem s f p)"

lemma quiet_bl: "quiet s t \<Longrightarrow> BLTable t = BLTable s" "quiet s t \<Longrightarrow> UpdatedClusters t = UpdatedClusters s"
  "quiet s t \<Longrightarrow> CurrentAccessedBlock t = CurrentAccessedBlock s"
  for s t :: "'a bl_scheme"
  by (auto elim: quiet_cong simp: hush_def)

lemma wp_copy_pages:
  assumes s: "shaped s" "sized s" and f: "is_block s f" and old: "old = - 1 \<or> is_block s old" "old \<noteq> f"
    and u: "int (length (UpdatedClusters s)) = MaxPage s"
  shows "wp (forM 0 (MaxPage s) (copy_page old f)) (\<lambda>_ t. quiet s t \<and>
    (\<forall>b p. 0 \<le> b \<and> is_page s p \<longrightarrow> mem t b p = (if b = f then new_page s old f p else mem s b p))) s"
proof (rule wp_forM [where I = "\<lambda>k t. quiet s t \<and>
    (\<forall>b p. 0 \<le> b \<and> is_page s p \<longrightarrow> mem t b p = (if b = f \<and> p < k then new_page s old f p else mem s b p))"])
  fix k t
  assume k: "0 \<le> k" "k < MaxPage s"
    and "quiet s t \<and> (\<forall>b p. 0 \<le> b \<and> is_page s p \<longrightarrow>
      mem t b p = (if b = f \<and> p < k then new_page s old f p else mem s b p))"
  then have q: "quiet s t"
    and m: "\<And>b p. 0 \<le> b \<Longrightarrow> is_page s p \<Longrightarrow> mem t b p = (if b = f \<and> p < k then new_page s old f p else mem s b p)"
    by auto
  note qs = quiet_same [OF q]
  have pk: "is_page s k" using k by (simp add: is_page_def)
  have i: "inb (UpdatedClusters t) k" "inb (ValidPageCnt t) f" "inb2 (FlashMemory t) f k"
    using k u f s shaped_inb2 [of t f k] pk quiet_bl(2) [OF q] qs
    by (auto simp: inb_def sized_def is_block_def)
  have o: "inb2 (FlashMemory t) old k" "0 \<le> old" if "old \<noteq> - 1"
    using that old(1) s shaped_inb2 [of t old k] pk qs by (auto simp: is_block_def)
  have f0: "0 \<le> f" using f by (simp add: is_block_def)
  have sh: "shaped t" "is_block t f" "is_page t k" using s f pk qs by auto
  have old_page: "at2 (FlashMemory t) old k = mem s old k" if "old \<noteq> - 1"
    using m [OF o(2) [OF that] pk] old(2) by (simp add: mem_def)
  have free_page: "mem s f k = mem t f k" using m [OF f0 pk] by simp
  have upto: "quiet s u \<and> (\<forall>b p. 0 \<le> b \<and> is_page s p \<longrightarrow>
      mem u b p = (if b = f \<and> p < k + 1 then new_page s old f p else mem s b p))"
    if "quiet s u" "mem u = mem (FlashMemory_update (\<lambda>a. upd2 a f k v) t)" "v = new_page s old f k" for u :: "'a bl_scheme" and v
    using that m mem_upd2 [OF sh] by (auto simp: is_page_def)
  have skip: "quiet s u \<and> (\<forall>b p. 0 \<le> b \<and> is_page s p \<longrightarrow>
      mem u b p = (if b = f \<and> p < k + 1 then new_page s old f p else mem s b p))"
    if "quiet s u" "mem u = mem t" "new_page s old f k = mem t f k" for u :: "'a bl_scheme"
    using that m f0 pk by (auto simp: less_le)
  define R where "R u \<longleftrightarrow> quiet s u \<and> (\<forall>b p. 0 \<le> b \<and> is_page s p \<longrightarrow>
      mem u b p = (if b = f \<and> p < k + 1 then new_page s old f p else mem s b p))" for u :: "'a bl_scheme"
  have ut: "UpdatedClusters t = UpdatedClusters s" using quiet_bl(2) [OF q] .
  have wrote: "R u" if "quiet s u" "mem u = mem (FlashMemory_update (\<lambda>a. upd2 a f k v) t)" "v = new_page s old f k" for u v
    unfolding R_def by (rule upto [OF that])
  have kept: "R u" if "quiet s u" "mem u = mem t" "new_page s old f k = mem t f k" for u
    unfolding R_def by (rule skip [OF that])
  consider (new) "at (UpdatedClusters s) k \<noteq> - 1" | (none) "at (UpdatedClusters s) k = - 1" "old = - 1"
    | (live) "at (UpdatedClusters s) k = - 1" "old \<noteq> - 1" "mem s old k \<noteq> INVALID_PAGE" "mem s old k \<noteq> FREE_PAGE"
    | (dead) "at (UpdatedClusters s) k = - 1" "old \<noteq> - 1" "mem s old k = INVALID_PAGE \<or> mem s old k = FREE_PAGE"
    by blast
  then have "wp (copy_page old f k) (\<lambda>_. R) t"
  proof cases
    case new
    then show ?thesis using i q ut
      by (auto simp: copy_page_def wp stat_def write_time_def new_page_def intro!: wrote)
  next
    case none
    then show ?thesis using i q ut by (auto simp: copy_page_def wp new_page_def free_page intro!: kept)
  next
    case live
    then show ?thesis using i q ut o(1) old_page
      by (auto simp: copy_page_def wp stat_def write_time_def new_page_def intro!: wrote)
  next
    case dead
    then show ?thesis using i q ut o(1) old_page
      by (auto simp: copy_page_def wp stat_def write_time_def new_page_def free_page intro!: kept)
  qed
  then show "wp (copy_page old f k) (\<lambda>_ u. quiet s u \<and> (\<forall>b p. 0 \<le> b \<and> is_page s p \<longrightarrow>
      mem u b p = (if b = f \<and> p < k + 1 then new_page s old f p else mem s b p))) t"
    by (rule wp_mono) (simp add: R_def)
qed (use s in \<open>auto simp: is_page_def shaped_def\<close>)

section \<open>Writing one block\<close>

text \<open>
  The state after the old block was given back and a new one was taken; \<open>ys\<close> is the free list
  then.
\<close>

definition swapped :: "'a bl_scheme \<Rightarrow> int \<Rightarrow> int \<Rightarrow> int list \<Rightarrow> 'a bl_scheme \<Rightarrow> bool" where
  "swapped s old f ys t \<longleftrightarrow>
     fbl t ys \<and> shaped t \<and> is_block t = is_block s \<and> is_page t = is_page s \<and> MaxPage t = MaxPage s \<and>
     MaxBlock t = MaxBlock s \<and> LeastFreeBlocksInFBL t = LeastFreeBlocksInFBL s \<and> mem t = mem s \<and>
     BLTable t = BLTable s \<and> UpdatedClusters t = UpdatedClusters s"

lemma swap_blocks:
  assumes inv: "bl_inv xs s" and r: "room n xs s" and L: "0 \<le> L" "L < n"
  shows "\<exists>f ys t. (\<forall>Q. wp (thenM (whenM (entry s L \<noteq> - 1) (PutFreeBlock (entry s L)))
      (bindM (GetFreeBlock False) k)) Q s = wp (k f) Q t) \<and> swapped s (entry s L) f ys t \<and>
    is_block s f \<and> f \<notin> set ys \<and> f \<in> set xs \<and>
    (if entry s L = - 1 then xs = f # ys else entry s L \<in> set ys \<and> xs @ [entry s L] = f # ys)"
proof -
  have Ls: "is_block s L" using r L by (simp add: room_def is_block_def)
  have fin: "finite (mapped_blocks s)" "card (mapped_blocks s) \<le> nat n"
  proof -
    have sub: "mapped_blocks s \<subseteq> {0..<n}" using r by (simp add: room_def)
    then show "finite (mapped_blocks s)" by (rule finite_subset) simp
    show "card (mapped_blocks s) \<le> nat n" using card_mono [OF _ sub] by simp
  qed
  have fb: "fbl s xs" and least: "1 \<le> LeastFreeBlocksInFBL s" using inv by (auto simp: bl_inv_def)
  have len: "BlocksInFreeBlockList s = int (length xs)" using fb by (simp add: fbl_def)
  have enough: "LeastFreeBlocksInFBL s + n \<le> int (length xs) + int (card (mapped_blocks s))"
    using r by (simp add: room_def)
  show ?thesis
  proof (cases "entry s L = - 1")
    case True
    then have "L \<notin> mapped_blocks s" by (simp add: mapped_blocks_def)
    then have "mapped_blocks s \<subseteq> {0..<n} - {L}" using r by (auto simp: room_def)
    from card_mono [OF _ this] have "card (mapped_blocks s) \<le> nat n - 1" using L by simp
    then have more: "LeastFreeBlocksInFBL s < int (length xs)" using enough L by linarith
    then obtain f y zs where xs: "xs = f # y # zs"
      using least by (cases xs; cases "tl xs") auto
    have "wp (thenM (whenM (entry s L \<noteq> - 1) (PutFreeBlock (entry s L))) (bindM (GetFreeBlock False) k)) Q s =
        wp (k f) Q (unlinked f y s)" for Q
      using wp_GetFreeBlock [of s f y zs False] fb xs more len True by (simp add: wp)
    moreover have "swapped s (entry s L) f (y # zs) (unlinked f y s)"
      using fbl_unlinked [of s f y zs] fb inv xs by (simp add: swapped_def bl_inv_def) (simp add: unlinked_def)
    moreover have "is_block s f" "f \<notin> set (y # zs)" using fb xs by (auto simp: fbl_def is_block_def)
    ultimately show ?thesis using True xs by (metis list.set_intros(1))
  next
    case False
    define old where "old = entry s L"
    have "L \<in> mapped_blocks s" using False Ls by (simp add: mapped_blocks_def)
    then have old: "is_block s old" "old \<notin> set xs" "old \<noteq> - 1"
      using inv False by (auto simp: bl_inv_def old_def)
    have ob: "0 \<le> old" "old < MaxBlock s" using old(1) by (auto simp: is_block_def)
    define u where "u = appended old s"
    have fu: "fbl u (xs @ [old])" using fbl_appended [OF fb ob old(2)] by (simp add: u_def)
    have xs_ne: "xs \<noteq> []" using fb by (simp add: fbl_def)
    have more: "LeastFreeBlocksInFBL u < BlocksInFreeBlockList u"
      using enough fin(2) L(2) L(1) fu by (simp add: fbl_def u_def)
    obtain f y zs where xs: "xs @ [old] = f # y # zs" using xs_ne by (cases xs; cases "tl xs") auto
    have "wp (thenM (whenM (entry s L \<noteq> - 1) (PutFreeBlock (entry s L))) (bindM (GetFreeBlock False) k)) Q s =
        wp (k f) Q (unlinked f y u)" for Q
      using wp_GetFreeBlock [of u f y zs False] fu xs more wp_PutFreeBlock [OF fb ob] False
      by (simp add: wp old_def u_def)
    moreover have "swapped s (entry s L) f (y # zs) (unlinked f y u)"
      using fbl_unlinked [of u f y zs] fu inv xs
      by (simp add: swapped_def bl_inv_def u_def) (simp add: unlinked_def appended_def)
    moreover have "f \<in> set xs" "old \<in> set (y # zs)" "f \<notin> set (y # zs)"
    proof -
      have "f = hd xs" using xs xs_ne by (cases xs) auto
      then show "f \<in> set xs" using xs_ne by simp
      have "y # zs = tl xs @ [old]" using xs xs_ne by (cases xs) auto
      then show "old \<in> set (y # zs)" by simp
      have "distinct (f # y # zs)" using fu xs by (simp add: fbl_def)
      then show "f \<notin> set (y # zs)" by simp
    qed
    moreover have "is_block s f" using fb \<open>f \<in> set xs\<close> by (auto simp: fbl_def is_block_def)
    ultimately show ?thesis using False xs unfolding old_def by (metis (no_types, lifting))
  qed
qed

text \<open>What the update leaves behind, and that it is what the invariant asks for.\<close>

definition rewritten :: "'a bl_scheme \<Rightarrow> int \<Rightarrow> int \<Rightarrow> int list \<Rightarrow> 'a bl_scheme \<Rightarrow> bool" where
  "rewritten s L f ys z \<longleftrightarrow>
     fbl z ys \<and> shaped z \<and> is_block z = is_block s \<and> is_page z = is_page s \<and> MaxPage z = MaxPage s \<and>
     MaxBlock z = MaxBlock s \<and> LeastFreeBlocksInFBL z = LeastFreeBlocksInFBL s \<and>
     BLTable z = upd (BLTable s) L f \<and>
     (\<forall>b p. 0 \<le> b \<and> is_page s p \<longrightarrow> mem z b p =
        (if b = f then new_page s (entry s L) f p
         else if entry s L \<noteq> - 1 \<and> b = entry s L then FREE_PAGE else mem s b p))"

lemma entry_upd: "is_block s L \<Longrightarrow> int (length (BLTable s)) = MaxBlock s \<Longrightarrow> 0 \<le> M \<Longrightarrow>
    at (upd (BLTable s) L f) M = (if M = L then f else entry s M)"
  by (auto simp: entry_def at_upd is_block_def inb_def)

lemma rewritten_ok:
  fixes s :: "'a bl_scheme"
  assumes inv: "bl_inv xs s" and r: "room n xs s" and L: "0 \<le> L" "L < n" and buf: "buf_ok L s"
    and f: "is_block s f" "f \<notin> set ys" "f \<in> set xs"
    and xs: "if entry s L = - 1 then xs = f # ys else entry s L \<in> set ys \<and> xs @ [entry s L] = f # ys"
    and z: "rewritten s L f ys z"
  shows "bl_inv ys z" "room n ys z" "stored z = stored s \<union> buffered s"
proof -
  define old where "old = entry s L"
  have Ls: "is_block s L" and len: "int (length (BLTable s)) = MaxBlock s" using r L inv
    by (auto simp: room_def is_block_def bl_inv_def)
  have f1: "f \<noteq> - 1" "0 \<le> f" using f(1) by (auto simp: is_block_def)
  have e: "entry z M = (if M = L then f else entry s M)" if "is_block s M" for M
    using entry_upd [OF Ls len] that z by (auto simp: rewritten_def entry_def is_block_def)
  have mb: "mapped_blocks z = insert L (mapped_blocks s)"
    using e Ls z f1 by (auto simp: mapped_blocks_def rewritten_def split: if_splits)
  have old: "is_block s old \<and> old \<notin> set xs \<and> L \<in> mapped_blocks s" if "old \<noteq> - 1"
    using inv Ls that by (auto simp: bl_inv_def mapped_blocks_def old_def)
  have fresh: "entry s M \<noteq> f" "is_block s (entry s M)" "entry s M \<notin> set xs" if "M \<in> mapped_blocks s" for M
    using inv f(3) that by (auto simp: bl_inv_def)
  have other: "entry s M \<noteq> old" if "M \<in> mapped_blocks s" "M \<noteq> L" for M
    using inv that old unfolding bl_inv_def old_def
    by (metis inj_onD fresh(2) is_block_def neg_0_le_iff_le not_one_le_zero)
  have ys: "b \<in> set ys \<longleftrightarrow> b \<in> set xs \<and> b \<noteq> f \<or> old \<noteq> - 1 \<and> b = old" for b
    using xs f(2) old by (auto simp: old_def split: if_splits dest!: arg_cong [of _ _ set])
  have m: "mem z b p = (if b = f then new_page s old f p
         else if old \<noteq> - 1 \<and> b = old then FREE_PAGE else mem s b p)" if "0 \<le> b" "is_page s p" for b p
    using z that by (simp add: rewritten_def old_def)
  have blk0: "0 \<le> b" if "is_block s b" for b using that by (simp add: is_block_def)
  have same: "is_block z = is_block s" "is_page z = is_page s" "MaxPage z = MaxPage s" "MaxBlock z = MaxBlock s"
      "LeastFreeBlocksInFBL z = LeastFreeBlocksInFBL s" "fbl z ys" "shaped z" "cluster z = cluster s"
    using z by (auto simp: rewritten_def cluster_def fun_eq_iff)
  have mf: "mem s f p = - 1" if "is_page s p" for p using inv f(3) that by (auto simp: bl_inv_def)
  have keep: "mem z (entry z M) p = mem s (entry s M) p" if "M \<in> mapped_blocks s" "M \<noteq> L" "is_page s p" for M p
    using m [OF blk0 [OF fresh(2)] that(3)] that fresh other e by (auto simp: mapped_blocks_def)
  have nL: "mem z (entry z L) p = new_page s old f p" if "is_page s p" for p
    using m [OF f1(2) that] e [OF Ls] by simp
  have u: "at (UpdatedClusters s) p = - 1 \<or> at (UpdatedClusters s) p = cluster s L p" if "is_page s p" for p
    using buf that by (auto simp: buf_ok_def)
  have oldp: "mem s old p = - 1 \<or> mem s old p = cluster s L p" if "is_page s p" "old \<noteq> - 1" for p
    using inv old that unfolding bl_inv_def old_def by blast
  have new: "new_page s old f p = - 1 \<or> new_page s old f p = cluster s L p" if "is_page s p" for p
    using u [OF that] oldp [OF that] mf [OF that] by (auto simp: new_page_def)
  show "bl_inv ys z"
    unfolding bl_inv_def
  proof (intro conjI ballI allI impI)
    show "int (length (BLTable z)) = MaxBlock z" using z len by (simp add: rewritten_def)
    show "1 \<le> LeastFreeBlocksInFBL z" using inv same by (simp add: bl_inv_def)
    show "is_block z (entry z M)" "entry z M \<notin> set ys" if "M \<in> mapped_blocks z" for M
    proof -
      have "is_block s (entry z M) \<and> entry z M \<notin> set ys"
      proof (cases "M = L")
        case True
        then show ?thesis using e [OF Ls] f by simp
      next
        case False
        then have "M \<in> mapped_blocks s" using that mb by simp
        with False show ?thesis using e [of M] fresh [of M] other [of M] ys by (auto simp: mapped_blocks_def)
      qed
      then show "is_block z (entry z M)" "entry z M \<notin> set ys" using same by auto
    qed
    show "inj_on (entry z) (mapped_blocks z)"
    proof (rule inj_onI)
      fix M N assume a: "M \<in> mapped_blocks z" "N \<in> mapped_blocks z" "entry z M = entry z N"
      have ez: "entry z K = (if K = L then f else entry s K)" if "K \<in> mapped_blocks z" for K
        using that e [of K] same by (auto simp: mapped_blocks_def)
      have "inj_on (entry s) (mapped_blocks s)" using inv by (simp add: bl_inv_def)
      then show "M = N"
        using a ez [OF a(1)] ez [OF a(2)] mb fresh(1) [of M] fresh(1) [of N]
        by (auto split: if_splits dest: inj_onD)
    qed
    show "mem z b p = FREE_PAGE" if "b \<in> set ys" "is_page z p" for b p
    proof -
      have "is_block s b" using that(1) same(4,6) by (auto simp: fbl_def is_block_def)
      moreover have "b \<noteq> f" using that(1) f(2) by auto
      ultimately show ?thesis using m [OF blk0, of b p] that ys same inv by (auto simp: bl_inv_def)
    qed
    show "mem z (entry z M) p = FREE_PAGE \<or> mem z (entry z M) p = cluster z M p"
      if "M \<in> mapped_blocks z" "is_page z p" for M p
      using that mb keep [of M p] nL [of p] new [of p] same inv
      by (cases "M = L") (auto simp: bl_inv_def)
  qed (use same in auto)
  show "room n ys z"
  proof -
    have sub: "mapped_blocks s \<subseteq> {0..<n}" using r by (simp add: room_def)
    have fin: "finite (mapped_blocks s)" using sub by (rule finite_subset) simp
    have "int (length ys) + int (card (mapped_blocks z)) = int (length xs) + int (card (mapped_blocks s))"
    proof (cases "old = - 1")
      case True
      then have "L \<notin> mapped_blocks s" by (simp add: mapped_blocks_def old_def)
      then show ?thesis using True xs fin mb by (simp add: old_def)
    next
      case False
      then have "mapped_blocks z = mapped_blocks s" using old mb by auto
      moreover have "length ys = length xs" using False xs by (auto simp: old_def dest!: arg_cong [of _ _ length])
      ultimately show ?thesis by simp
    qed
    then show ?thesis using r mb L same by (auto simp: room_def)
  qed
  show "stored z = stored s \<union> buffered s"
  proof (rule set_eqI)
    fix c
    have pos: "0 \<le> cluster s M p" if "is_block s M" "is_page s p" for M p
      using that by (auto simp: cluster_def is_block_def is_page_def)
    define H where "H u M \<longleftrightarrow> (\<exists>p. is_page s p \<and> c = cluster s M p \<and> mem u (entry u M) p = c)" for u :: "'a bl_scheme" and M
    have Hz: "H z M = H s M" if "M \<in> mapped_blocks s" "M \<noteq> L" for M
      using keep [OF that] by (auto simp: H_def)
    have "H z L \<longleftrightarrow> (\<exists>p. is_page s p \<and> c = cluster s L p \<and> new_page s old f p = c)"
      using nL by (auto simp: H_def)
    moreover have "c \<in> stored z \<longleftrightarrow> (\<exists>M \<in> insert L (mapped_blocks s). H z M)"
      using mb same by (auto simp: stored_def H_def)
    moreover have "c \<in> stored s \<longleftrightarrow> (\<exists>M \<in> mapped_blocks s. H s M)" by (auto simp: stored_def H_def)
    moreover have "(old \<noteq> - 1 \<and> (\<exists>p. is_page s p \<and> c = cluster s L p \<and> mem s old p = c)) \<longleftrightarrow>
        L \<in> mapped_blocks s \<and> H s L"
      using old by (auto simp: H_def old_def mapped_blocks_def)
    moreover have "(\<exists>p. is_page s p \<and> c = cluster s L p \<and> new_page s old f p = c) \<longleftrightarrow>
        c \<in> buffered s \<or> (old \<noteq> - 1 \<and> (\<exists>p. is_page s p \<and> c = cluster s L p \<and> mem s old p = c))"
    proof -
      have "new_page s old f p = c \<longleftrightarrow> at (UpdatedClusters s) p = c \<or> old \<noteq> - 1 \<and> mem s old p = c"
        if "is_page s p" "c = cluster s L p" for p
        using u [OF that(1)] oldp [OF that(1)] mf [OF that(1)] pos [OF Ls that(1)] that
        by (auto simp: new_page_def cluster_def is_page_def)
      then show ?thesis using u pos [OF Ls] by (fastforce simp: buffered_def)
    qed
    ultimately show "c \<in> stored z \<longleftrightarrow> c \<in> stored s \<union> buffered s"
      using Hz by blast
  qed
qed

lemma table_same [simp]:
  "fbl (BLTable_update g z) = fbl z" "shaped (BLTable_update g z) = shaped z"
  "is_block (BLTable_update g z) = is_block z" "is_page (BLTable_update g z) = is_page z"
  "mem (BLTable_update g z) = mem z" "LeastFreeBlocksInFBL (BLTable_update g z) = LeastFreeBlocksInFBL z"
  by (simp_all add: fbl_def sized_def shaped_def is_block_def is_page_def mem_def LeastFreeBlocksInFBL_def fun_eq_iff)

lemma wp_BLUpdateOneBlock:
  assumes inv: "bl_inv xs s" and r: "room n xs s" and L: "0 \<le> L" "L < n" and buf: "buf_ok L s"
  shows "wp (BLUpdateOneBlock L) (\<lambda>_ t. \<exists>ys. bl_inv ys t \<and> room n ys t \<and> stored t = stored s \<union> buffered s) s"
proof -
  define old where "old = entry s L"
  define k where "k = (\<lambda>FreeBlock. if FreeBlock = - 1 then failM (Exit_With 1)
       else blockM
         [bindM (getM MaxPage) (\<lambda>mp. forM 0 mp (copy_page old FreeBlock)),
          whenM (old \<noteq> BL_POINT_TO_NULL) (blockM
            [wr InvalidPageCnt InvalidPageCnt_update old 0,
             erase_pages old,
             count_erase old]),
          wr BLTable BLTable_update L FreeBlock] :: ('a bl_scheme, unit) prog)"
  obtain f ys t where
      w: "\<And>Q. wp (thenM (whenM (entry s L \<noteq> - 1) (PutFreeBlock (entry s L))) (bindM (GetFreeBlock False) k)) Q s =
        wp (k f) Q t"
    and t: "swapped s old f ys t" and f: "is_block s f" "f \<notin> set ys" "f \<in> set xs"
    and xs: "if old = - 1 then xs = f # ys else old \<in> set ys \<and> xs @ [old] = f # ys"
    using swap_blocks [OF inv r L, of k] unfolding old_def by blast
  have Ls: "is_block s L" "inb (BLTable s) L"
    using r L inv by (auto simp: room_def is_block_def bl_inv_def inb_def)
  have old: "is_block s old \<and> old \<notin> set xs" if "old \<noteq> - 1"
    using inv Ls that by (auto simp: bl_inv_def mapped_blocks_def old_def)
  have f1: "f \<noteq> - 1" using f(1) by (auto simp: is_block_def)
  have good: "\<exists>ys. bl_inv ys z \<and> room n ys z \<and> stored z = stored s \<union> buffered s" if "rewritten s L f ys z" for z
    using rewritten_ok [OF inv r L buf f xs [unfolded old_def] that] by blast
  have ts: "shaped t" "sized t" "is_block t = is_block s" "is_page t = is_page s" "MaxPage t = MaxPage s"
      "MaxBlock t = MaxBlock s" "mem t = mem s" "BLTable t = BLTable s" "UpdatedClusters t = UpdatedClusters s"
    using t by (auto simp: swapped_def fbl_def)
  have np: "new_page t old f = new_page s old f" using ts by (simp add: new_page_def fun_eq_iff)
  let ?copied = "\<lambda>v. quiet t v \<and> (\<forall>b p. 0 \<le> b \<and> is_page t p \<longrightarrow>
    mem v b p = (if b = f then new_page t old f p else mem t b p))"
  have copy: "wp (forM 0 (MaxPage t) (copy_page old f)) (\<lambda>_. ?copied) t"
    by (rule wp_copy_pages) (use ts f f1 old buf in \<open>auto simp: buf_ok_def\<close>)
  have rest: "wp (blockM [whenM (old \<noteq> BL_POINT_TO_NULL) (blockM
        [wr InvalidPageCnt InvalidPageCnt_update old 0, erase_pages old, count_erase old]),
      wr BLTable BLTable_update L f]) (\<lambda>_ z. rewritten s L f ys z) v" if "?copied v" for v
  proof -
    have q: "quiet t v" using that by simp
    note qs = quiet_same [OF q]
    have m: "mem v b p = (if b = f then new_page s old f p else mem s b p)" if "0 \<le> b" "is_page s p" for b p
      using \<open>?copied v\<close> that ts np by simp
    have fin: "rewritten s L f ys (BLTable_update (\<lambda>a. upd a L f) z)"
      if z: "quiet t z" "\<And>b p. 0 \<le> b \<Longrightarrow> is_page s p \<Longrightarrow> mem z b p =
        (if b = f then new_page s old f p else if old \<noteq> - 1 \<and> b = old then FREE_PAGE else mem s b p)" for z
      using z(2) quiet_same [OF z(1)] t quiet_bl(1) [OF z(1)]
      by (simp add: rewritten_def swapped_def flip: old_def)
    show ?thesis
    proof (cases "old = - 1")
      case True
      have "rewritten s L f ys (BLTable_update (\<lambda>a. upd a L f) v)"
        by (rule fin) (use q m True in auto)
      then show ?thesis using True Ls(2) quiet_bl(1) [OF q] ts by (simp add: wp)
    next
      case False
      have o: "is_block s old" "old \<noteq> f" using old False f(3) by auto
      define v1 where "v1 = InvalidPageCnt_update (\<lambda>a. upd a old 0) v"
      have v1: "quiet t v1" "shaped v1" "is_block v1 old" "mem v1 = mem v" "is_page v1 = is_page s"
        using q qs ts o by (auto simp: v1_def) (auto simp: shaped_def is_block_def is_page_def)
      have i: "inb (InvalidPageCnt v) old" "inb (FlashMemory v1) old"
          "int (length (at (FlashMemory v1) old)) = MaxPage v1" "0 \<le> MaxPage v1" "inb (BlockEraseCnt (erased old v1)) old"
        using qs ts o v1 by (auto simp: sized_def is_block_def inb_def shaped_def v1_def erased_def)
      have "rewritten s L f ys (BLTable_update (\<lambda>a. upd a L f) (counted old (erased old v1)))"
        by (rule fin) (use v1 m mem_erased [OF v1(2,3)] o False in auto)
      moreover have "BLTable (counted old (erased old v1)) = BLTable s"
        using quiet_bl(1) [OF q] ts by (simp add: counted_def erased_def v1_def)
      ultimately show ?thesis using False Ls(2) i
        by (simp add: wp wp_erase_pages wp_count_erase flip: v1_def)
    qed
  qed
  have "wp (k f) (\<lambda>_ z. rewritten s L f ys z) t"
    using f1 rest copy by (auto simp: k_def wp_blockM_Cons [of "bindM _ _"] wp_bindM wp_getM elim!: wp_mono)
  then have "wp (k f) (\<lambda>_ t. \<exists>ys. bl_inv ys t \<and> room n ys t \<and> stored t = stored s \<union> buffered s) t"
    by (rule wp_mono) (rule good)
  then have "wp (thenM (whenM (entry s L \<noteq> - 1) (PutFreeBlock (entry s L))) (bindM (GetFreeBlock False) k))
      (\<lambda>_ t. \<exists>ys. bl_inv ys t \<and> room n ys t \<and> stored t = stored s \<union> buffered s) s"
    by (simp only: w)
  then show ?thesis
    unfolding BLUpdateOneBlock_def wp_bindM [of "rd BLTable L"] wp_rd k_def old_def entry_def
    using Ls(2) by (intro conjI)
qed

end
