(* ===== verification/Coding.thy ===== *)
theory Coding
  imports Main "HOL-Library.Word"
begin

text \<open>
  The encodings of the key-value store (util/coding.h, util/coding.cc): fixed-width and variable-
  length integers and length-prefixed strings, on strings of bytes.  A function of the source
  that appends to a string returns what it appends; a function that reads from a string, through
  a pointer and a limit or through a slice, returns the value and the rest of the string, or None
  where the source returns NULL or False.
\<close>

unbundle bit_operations_syntax

type_synonym byte = "8 word"
type_synonym bytes = "byte list"
type_synonym u32 = "32 word"
type_synonym u64 = "64 word"

section \<open>Fixed-width integers\<close>

text \<open>Little-endian, which both branches of the source write.\<close>

definition EncodeFixed32 :: "u32 \<Rightarrow> bytes" where
  "EncodeFixed32 v = [ucast v, ucast (drop_bit 8 v), ucast (drop_bit 16 v), ucast (drop_bit 24 v)]"

definition EncodeFixed64 :: "u64 \<Rightarrow> bytes" where
  "EncodeFixed64 v = [ucast v, ucast (drop_bit 8 v), ucast (drop_bit 16 v), ucast (drop_bit 24 v),
     ucast (drop_bit 32 v), ucast (drop_bit 40 v), ucast (drop_bit 48 v), ucast (drop_bit 56 v)]"

definition PutFixed32 :: "bytes \<Rightarrow> u32 \<Rightarrow> bytes" where
  "PutFixed32 dst v = dst @ EncodeFixed32 v"

definition PutFixed64 :: "bytes \<Rightarrow> u64 \<Rightarrow> bytes" where
  "PutFixed64 dst v = dst @ EncodeFixed64 v"

text \<open>The decoders read without checking the length; a string that is too short is None.\<close>

fun DecodeFixed32 :: "bytes \<Rightarrow> u32 option" where
  "DecodeFixed32 (a # b # c # d # _) =
     Some (ucast a OR push_bit 8 (ucast b) OR push_bit 16 (ucast c) OR push_bit 24 (ucast d))"
| "DecodeFixed32 _ = None"

definition DecodeFixed64 :: "bytes \<Rightarrow> u64 option" where
  "DecodeFixed64 p = (case (DecodeFixed32 p, DecodeFixed32 (drop 4 p)) of
     (Some lo, Some hi) \<Rightarrow> Some (push_bit 32 (ucast hi) OR ucast lo)
   | _ \<Rightarrow> None)"

section \<open>Variable-length integers\<close>

definition EncodeVarint32 :: "u32 \<Rightarrow> bytes" where
  "EncodeVarint32 v =
     (if v < 2 ^ 7 then [ucast v]
      else if v < 2 ^ 14 then [ucast (v OR 128), ucast (drop_bit 7 v)]
      else if v < 2 ^ 21 then [ucast (v OR 128), ucast (drop_bit 7 v OR 128), ucast (drop_bit 14 v)]
      else if v < 2 ^ 28 then [ucast (v OR 128), ucast (drop_bit 7 v OR 128),
        ucast (drop_bit 14 v OR 128), ucast (drop_bit 21 v)]
      else [ucast (v OR 128), ucast (drop_bit 7 v OR 128), ucast (drop_bit 14 v OR 128),
        ucast (drop_bit 21 v OR 128), ucast (drop_bit 28 v)])"

definition PutVarint32 :: "bytes \<Rightarrow> u32 \<Rightarrow> bytes" where
  "PutVarint32 dst v = dst @ EncodeVarint32 v"

lemma drop_bit_7_less: "128 \<le> v \<Longrightarrow> unat (drop_bit 7 v) < unat v" for v :: u64
proof -
  assume "128 \<le> v"
  then have "128 \<le> unat v" by (simp add: word_le_nat_alt)
  then have "drop_bit 7 (unat v) < unat v" by (simp add: drop_bit_eq_div)
  then show ?thesis by (simp only: unat_drop_bit_eq)
qed

function EncodeVarint64 :: "u64 \<Rightarrow> bytes" where
  "EncodeVarint64 v =
     (if v \<ge> 128 then ucast ((v AND 127) OR 128) # EncodeVarint64 (drop_bit 7 v) else [ucast v])"
  by auto
termination
  by (relation "measure unat") (auto intro: drop_bit_7_less)

declare EncodeVarint64.simps [simp del]

definition PutVarint64 :: "bytes \<Rightarrow> u64 \<Rightarrow> bytes" where
  "PutVarint64 dst v = dst @ EncodeVarint64 v"

text \<open>The loop \<open>while (v >= 128)\<close> with the counter \<open>len\<close>.\<close>

function varint_length_loop :: "u64 \<Rightarrow> nat \<Rightarrow> nat" where
  "varint_length_loop v len = (if v \<ge> 128 then varint_length_loop (drop_bit 7 v) (len + 1) else len)"
  by auto
termination
  by (relation "measure (\<lambda>(v, _). unat v)") (auto intro: drop_bit_7_less)

declare varint_length_loop.simps [simp del]

definition VarintLength :: "u64 \<Rightarrow> nat" where
  "VarintLength v = varint_length_loop v 1"

text \<open>The loops of the decoders, from a shift and the bits read so far.\<close>

fun varint32_loop :: "nat \<Rightarrow> u32 \<Rightarrow> bytes \<Rightarrow> (u32 \<times> bytes) option" where
  "varint32_loop shift result [] = None"
| "varint32_loop shift result (b # p) =
     (if shift > 28 then None
      else let byte = ucast b in
        if byte AND 128 \<noteq> 0
        then varint32_loop (shift + 7) (result OR push_bit shift (byte AND 127)) p
        else Some (result OR push_bit shift byte, p))"

definition GetVarint32PtrFallback :: "bytes \<Rightarrow> (u32 \<times> bytes) option" where
  "GetVarint32PtrFallback p = varint32_loop 0 0 p"

definition GetVarint32Ptr :: "bytes \<Rightarrow> (u32 \<times> bytes) option" where
  "GetVarint32Ptr p = (case p of
     b # p' \<Rightarrow> (let result = ucast b :: u32 in
       if result AND 128 = 0 then Some (result, p') else GetVarint32PtrFallback p)
   | [] \<Rightarrow> GetVarint32PtrFallback p)"

definition GetVarint32 :: "bytes \<Rightarrow> (u32 \<times> bytes) option" where
  "GetVarint32 input = GetVarint32Ptr input"

fun varint64_loop :: "nat \<Rightarrow> u64 \<Rightarrow> bytes \<Rightarrow> (u64 \<times> bytes) option" where
  "varint64_loop shift result [] = None"
| "varint64_loop shift result (b # p) =
     (if shift > 63 then None
      else let byte = ucast b in
        if byte AND 128 \<noteq> 0
        then varint64_loop (shift + 7) (result OR push_bit shift (byte AND 127)) p
        else Some (result OR push_bit shift byte, p))"

definition GetVarint64Ptr :: "bytes \<Rightarrow> (u64 \<times> bytes) option" where
  "GetVarint64Ptr p = varint64_loop 0 0 p"

definition GetVarint64 :: "bytes \<Rightarrow> (u64 \<times> bytes) option" where
  "GetVarint64 input = GetVarint64Ptr input"

section \<open>Length-prefixed strings\<close>

text \<open>The length of a string is converted to 32 bits.\<close>

definition PutLengthPrefixedSlice :: "bytes \<Rightarrow> bytes \<Rightarrow> bytes" where
  "PutLengthPrefixedSlice dst value = PutVarint32 dst (word_of_nat (length value)) @ value"

definition GetLengthPrefixedSlicePtr :: "bytes \<Rightarrow> (bytes \<times> bytes) option" where
  "GetLengthPrefixedSlicePtr p = (case GetVarint32Ptr p of
     None \<Rightarrow> None
   | Some (len, p') \<Rightarrow>
       if unat len > length p' then None else Some (take (unat len) p', drop (unat len) p'))"

definition GetLengthPrefixedSlice :: "bytes \<Rightarrow> (bytes \<times> bytes) option" where
  "GetLengthPrefixedSlice input = (case GetVarint32 input of
     Some (len, input') \<Rightarrow>
       if length input' \<ge> unat len then Some (take (unat len) input', drop (unat len) input') else None
   | None \<Rightarrow> None)"

section \<open>Round trips\<close>

lemma EncodeFixed32_length [simp]: "length (EncodeFixed32 v) = 4"
  by (simp add: EncodeFixed32_def)

lemma EncodeFixed64_length [simp]: "length (EncodeFixed64 v) = 8"
  by (simp add: EncodeFixed64_def)

lemma DecodeFixed32_Encode [simp]: "DecodeFixed32 (EncodeFixed32 v @ rest) = Some v"
proof -
  have "(ucast (ucast v :: byte) :: u32) OR push_bit 8 (ucast (ucast (drop_bit 8 v) :: byte)) OR
      push_bit 16 (ucast (ucast (drop_bit 16 v) :: byte)) OR push_bit 24 (ucast (ucast (drop_bit 24 v) :: byte)) = v"
  proof (rule bit_word_eqI)
    fix n assume "n < LENGTH(32)"
    then consider "n < 8" | "8 \<le> n" "n < 16" | "16 \<le> n" "n < 24" | "24 \<le> n" "n < 32" by fastforce
    then show "bit ((ucast (ucast v :: byte) :: u32) OR push_bit 8 (ucast (ucast (drop_bit 8 v) :: byte)) OR
      push_bit 16 (ucast (ucast (drop_bit 16 v) :: byte)) OR push_bit 24 (ucast (ucast (drop_bit 24 v) :: byte))) n = bit v n"
      by cases (auto simp: bit_simps)
  qed
  then show ?thesis by (simp add: EncodeFixed32_def)
qed

lemma EncodeFixed64_split: "EncodeFixed64 v = EncodeFixed32 (ucast v) @ EncodeFixed32 (ucast (drop_bit 32 v))"
  by (simp add: EncodeFixed64_def EncodeFixed32_def)
     (intro conjI; rule bit_word_eqI; auto simp: bit_simps)

lemma DecodeFixed64_Encode [simp]: "DecodeFixed64 (EncodeFixed64 v @ rest) = Some v"
proof -
  have "push_bit 32 (ucast (ucast (drop_bit 32 v) :: u32)) OR ucast (ucast v :: u32) = v"
    by (rule bit_word_eqI) (auto simp: bit_simps)
  then show ?thesis by (simp add: DecodeFixed64_def EncodeFixed64_split)
qed

text \<open>One step of the variable-length encoding, for words of both widths.\<close>

lemma and_127: "v AND 127 = take_bit 7 v" for v :: "'a::len word"
proof -
  have "(127 :: 'a word) = mask 7" by (simp add: mask_eq_exp_minus_1)
  then show ?thesis by (simp add: take_bit_eq_mask)
qed

lemma bit_128: "bit (128 :: 'a::len word) n \<longleftrightarrow> n = 7 \<and> 7 < LENGTH('a)"
proof -
  have e: "(128 :: 'a word) = 2 ^ 7" by simp
  show ?thesis unfolding e bit_exp_iff by auto
qed

lemma bit_128_int: "bit (128 :: int) n \<longleftrightarrow> n = 7" "bit (128 :: nat) n \<longleftrightarrow> n = 7"
proof -
  have e: "(128 :: int) = 2 ^ 7" "(128 :: nat) = 2 ^ 7" by simp_all
  show "bit (128 :: int) n \<longleftrightarrow> n = 7" unfolding e bit_exp_iff by auto
  show "bit (128 :: nat) n \<longleftrightarrow> n = 7" unfolding e bit_exp_iff by auto
qed

lemmas bits_128 = bit_128 bit_128_int

lemma and_128: "v AND 128 = 0 \<longleftrightarrow> \<not> bit v 7" for v :: "'a::len word"
proof
  assume "v AND 128 = 0"
  then have "\<not> bit (v AND 128) 7" by simp
  then show "\<not> bit v 7" using bit_imp_le_length [of v 7] by (auto simp: bit_and_iff bits_128)
next
  assume "\<not> bit v 7"
  then show "v AND 128 = 0" by (intro bit_word_eqI) (auto simp: bit_and_iff bits_128)
qed

lemma less_128:
  fixes v :: "'a::len word"
  assumes "8 \<le> LENGTH('a)"
  shows "v < 128 \<longleftrightarrow> take_bit 7 v = v"
proof -
  have l: "(128 :: nat) < 2 ^ LENGTH('a)"
    using power_increasing [OF assms, of "2 :: nat"] by simp
  have "unat (word_of_nat 128 :: 'a word) = 128"
    unfolding unat_of_nat using l by simp
  then have u: "unat (128 :: 'a word) = 128" by simp
  have "v < 128 \<longleftrightarrow> unat v < 2 ^ 7" by (simp only: word_less_nat_alt u) simp
  also have "\<dots> \<longleftrightarrow> take_bit 7 (unat v) = unat v" by (simp only: take_bit_nat_eq_self_iff)
  also have "\<dots> \<longleftrightarrow> take_bit 7 v = v"
    by (simp add: word_unat_eq_iff unsigned_take_bit_eq)
  finally show ?thesis .
qed

text \<open>The bytes that the encoders write, as the decoders see them.\<close>

lemma more_byte:
  fixes v :: "'a::len word"
  assumes "8 \<le> LENGTH('a)" "8 \<le> LENGTH('b)"
  shows "(ucast (ucast ((v AND 127) OR 128) :: byte) :: 'b::len word) AND 128 \<noteq> 0"
    "(ucast (ucast ((v AND 127) OR 128) :: byte) :: 'b word) AND 127 = ucast (v AND 127)"
    "(ucast (v OR 128) :: byte) = ucast ((v AND 127) OR 128)"
  using assms unfolding and_127 and_128
    by (auto intro!: bit_word_eqI simp: bit_simps bits_128)

lemma last_byte:
  fixes v :: "'a::len word"
  assumes "8 \<le> LENGTH('a)" "8 \<le> LENGTH('b)" "v < 128"
  shows "(ucast (ucast v :: byte) :: 'b::len word) AND 128 = 0" "(ucast (ucast v :: byte) :: 'b word) = ucast v"
proof -
  have "take_bit 7 v = v" using less_128 assms by blast
  then have v: "\<not> bit v n" if "7 \<le> n" for n using that by (metis bit_take_bit_iff not_le)
  show "(ucast (ucast v :: byte) :: 'b word) AND 128 = 0"
    using v assms unfolding and_128 by (auto simp: bit_simps)
  show "(ucast (ucast v :: byte) :: 'b word) = ucast v"
  proof (rule bit_word_eqI)
    fix n show "bit (ucast (ucast v :: byte) :: 'b word) n = bit (ucast v :: 'b word) n" if "n < LENGTH('b)"
      using v [of n] assms that by (cases "n < 7") (auto simp: bit_simps)
  qed
qed

section \<open>The decoders read back what the encoders write\<close>

lemma u64_less: "unat v < 18446744073709551616" for v :: u64
  using unsigned_less [where ?'a = nat, of v] by simp

lemma u32_less: "unat v < 4294967296" for v :: u32
  using unsigned_less [where ?'a = nat, of v] by simp

lemma unat_ucast_32: "unat (ucast v :: u64) = unat v" for v :: u32
proof -
  have "unat v < 2 ^ 64" using u32_less [of v] by simp
  then show ?thesis by (simp add: unsigned_ucast_eq take_bit_nat_eq_self)
qed

lemma u64_ge_128: "\<not> v < 128 \<longleftrightarrow> 128 \<le> unat v" for v :: u64
  by (simp add: word_less_nat_alt not_less)

lemma less_exp_drop_7:
  fixes v :: u64
  assumes "unat v < 2 ^ (m - s)" "128 \<le> unat v"
  shows "s + 7 < m \<and> unat (drop_bit 7 v) < 2 ^ (m - (s + 7))"
proof -
  have m: "7 < m - s"
  proof (rule ccontr)
    assume "\<not> ?thesis"
    then have "(2 :: nat) ^ (m - s) \<le> 2 ^ 7" by (intro power_increasing) auto
    then show False using assms by simp
  qed
  then have "m - s = (m - (s + 7)) + 7" by simp
  then have "(2 :: nat) ^ (m - s) = 2 ^ (m - (s + 7)) * 128" by (simp only: power_add) simp
  then have "drop_bit 7 (unat v) < 2 ^ (m - (s + 7))"
    using assms(1) by (simp add: drop_bit_eq_div less_mult_imp_div_less)
  then show ?thesis using m by (simp only: unat_drop_bit_eq) simp
qed

lemma ucast_low_seven: "(ucast v AND 127) OR push_bit 7 (ucast (drop_bit 7 v)) = (ucast v :: 'b::len word)"
  for v :: "'a::len word"
proof (unfold and_127, rule bit_word_eqI)
  fix n show "bit (take_bit 7 (ucast v) OR push_bit 7 (ucast (drop_bit 7 v)) :: 'b word) n = bit (ucast v :: 'b word) n"
    if "n < LENGTH('b)"
    using that by (cases "n < 7") (auto simp: bit_simps)
qed

lemma varint_step: "(r OR push_bit s (ucast v AND 127)) OR push_bit (s + 7) (ucast (drop_bit 7 v)) = r OR push_bit s (ucast v)"
  for v :: "'a::len word" and r :: "'b::len word"
proof -
  have "push_bit (s + 7) (ucast (drop_bit 7 v) :: 'b word) = push_bit s (push_bit 7 (ucast (drop_bit 7 v)))"
    by (simp add: add.commute)
  then have "push_bit s (ucast v AND 127) OR push_bit (s + 7) (ucast (drop_bit 7 v)) = push_bit s (ucast v :: 'b word)"
    by (metis ucast_low_seven push_bit_or)
  then show ?thesis by (simp add: or.assoc)
qed

lemma varint_step_64: "(r OR push_bit s (v AND 127)) OR push_bit (s + 7) (drop_bit 7 v) = r OR push_bit s v"
  for v r :: u64
  using varint_step [of r s v] by (simp del: push_bit_and)

lemma EncodeVarint64_more: "128 \<le> unat v \<Longrightarrow>
    EncodeVarint64 v = ucast ((v AND 127) OR 128) # EncodeVarint64 (drop_bit 7 v)"
  by (subst EncodeVarint64.simps) (simp add: word_le_nat_alt)

lemma EncodeVarint64_last: "v < 128 \<Longrightarrow> EncodeVarint64 v = [ucast v]"
  by (subst EncodeVarint64.simps) (auto simp: not_le)

lemma varint64_loop_Encode:
  "unat v < 2 ^ (70 - s) \<Longrightarrow> 7 dvd s \<Longrightarrow> s \<le> 63 \<Longrightarrow>
   varint64_loop s r (EncodeVarint64 v @ rest) = Some (r OR push_bit s v, rest)"
proof (induction v arbitrary: s r rule: EncodeVarint64.induct)
  case (1 v)
  show ?case
  proof (cases "v < 128")
    case True
    then show ?thesis using "1.prems" last_byte [where ?'a = 64 and ?'b = 64 and v = v]
      by (simp add: EncodeVarint64_last)
  next
    case False
    then have v: "128 \<le> v" "128 \<le> unat v" by (simp_all add: u64_ge_128 word_le_nat_alt)
    note d = less_exp_drop_7 [OF "1.prems"(1) v(2)]
    have s: "s + 7 \<le> 63" "7 dvd s + 7" using d "1.prems"(2) by presburger+
    show ?thesis using "1.IH" [OF v(1), of "s + 7"] d s "1.prems" more_byte [where ?'a = 64 and ?'b = 64 and v = v]
      by (simp add: EncodeVarint64_more [OF v(2)] varint_step_64 del: push_bit_and)
  qed
qed

lemma varint32_loop_Encode:
  "unat v < 2 ^ (35 - s) \<Longrightarrow> 7 dvd s \<Longrightarrow> s \<le> 28 \<Longrightarrow>
   varint32_loop s r (EncodeVarint64 v @ rest) = Some (r OR push_bit s (ucast v), rest)"
proof (induction v arbitrary: s r rule: EncodeVarint64.induct)
  case (1 v)
  show ?case
  proof (cases "v < 128")
    case True
    then show ?thesis using "1.prems" last_byte [where ?'a = 64 and ?'b = 32 and v = v]
      by (simp add: EncodeVarint64_last)
  next
    case False
    then have v: "128 \<le> v" "128 \<le> unat v" by (simp_all add: u64_ge_128 word_le_nat_alt)
    note d = less_exp_drop_7 [OF "1.prems"(1) v(2)]
    have u: "(ucast (v AND 127) :: u32) = ucast v AND 127"
      unfolding and_127 by (rule bit_word_eqI) (auto simp: bit_simps)
    have s: "s + 7 \<le> 28" "7 dvd s + 7" using d "1.prems"(2) by presburger+
    show ?thesis using "1.IH" [OF v(1), of "s + 7"] d s "1.prems" more_byte [where ?'a = 64 and ?'b = 32 and v = v]
      by (simp add: EncodeVarint64_more [OF v(2)] varint_step u del: push_bit_and)
  qed
qed

lemma GetVarint64_Encode [simp]: "GetVarint64 (EncodeVarint64 v @ rest) = Some (v, rest)"
proof -
  have "unat v < 2 ^ (70 - 0)" using u64_less [of v] by simp
  from varint64_loop_Encode [OF this, of 0 rest] show ?thesis by (simp add: GetVarint64_def GetVarint64Ptr_def)
qed

text \<open>The unrolled 32-bit encoder agrees with the loop of the 64-bit one.\<close>

lemma drop_bit_less_128: "drop_bit n v < 128 \<longleftrightarrow> unat v < 2 ^ (n + 7)" for v :: u32
proof -
  have "drop_bit n v < 128 \<longleftrightarrow> drop_bit n (unat v) < 128"
    by (simp only: word_less_nat_alt unat_drop_bit_eq) simp
  also have "\<dots> \<longleftrightarrow> unat v < 2 ^ (n + 7)"
    by (simp add: drop_bit_eq_div div_less_iff_less_mult power_add mult.commute)
  finally show ?thesis .
qed

lemma EncodeVarint64_ucast:
  "EncodeVarint64 (ucast v) = (if v < 128 then [ucast v] else ucast (v OR 128) # EncodeVarint64 (ucast (drop_bit 7 v)))"
  for v :: u32
proof -
  have l: "(ucast v :: u64) < 128 \<longleftrightarrow> v < 128" by (simp add: word_less_nat_alt unat_ucast_32)
  have d: "drop_bit 7 (ucast v :: u64) = ucast (drop_bit 7 v)"
    by (rule bit_word_eqI) (auto simp: bit_simps dest: bit_imp_le_length)
  have b: "(ucast (((ucast v :: u64) AND 127) OR 128) :: byte) = ucast (v OR 128)"
    unfolding and_127 by (rule bit_word_eqI) (auto simp: bit_simps bits_128)
  show ?thesis
  proof (cases "v < 128")
    case True
    have "(ucast (ucast v :: u64) :: byte) = ucast v" by (rule bit_word_eqI) (auto simp: bit_simps)
    then show ?thesis using True l EncodeVarint64_last [of "ucast v"] by simp
  next
    case False
    then have "128 \<le> unat (ucast v :: u64)" using l u64_ge_128 by blast
    then show ?thesis using False by (simp add: EncodeVarint64_more d b)
  qed
qed

lemma EncodeVarint32_64: "EncodeVarint32 v = EncodeVarint64 (ucast v)"
proof -
  note c = drop_bit_less_128 [of 7 v] drop_bit_less_128 [of 14 v] drop_bit_less_128 [of 21 v]
    drop_bit_less_128 [of 28 v]
  have "unat v < 2 ^ 35" using u32_less [of v] by simp
  then show ?thesis using c
    EncodeVarint64_ucast [of v] EncodeVarint64_ucast [of "drop_bit 7 v"] EncodeVarint64_ucast [of "drop_bit 14 v"]
    EncodeVarint64_ucast [of "drop_bit 21 v"] EncodeVarint64_ucast [of "drop_bit 28 v"]
    by (simp add: EncodeVarint32_def word_less_nat_alt)
qed

lemma varint32_loop_fast:
  "(ucast b :: u32) AND 128 = 0 \<Longrightarrow> GetVarint32PtrFallback (b # p) = Some (ucast b, p)"
  by (simp add: GetVarint32PtrFallback_def)

lemma GetVarint32Ptr_fallback: "GetVarint32Ptr p = GetVarint32PtrFallback p"
  by (auto simp: GetVarint32Ptr_def varint32_loop_fast Let_def split: list.split)

lemma GetVarint32Ptr_Encode [simp]: "GetVarint32Ptr (EncodeVarint32 v @ rest) = Some (v, rest)"
proof -
  have "unat (ucast v :: u64) < 2 ^ (35 - 0)" using u32_less [of v] by (simp add: unat_ucast_32)
  moreover have "ucast (ucast v :: u64) = v" by (rule bit_word_eqI) (auto simp: bit_simps)
  ultimately show ?thesis using varint32_loop_Encode [of "ucast v" 0 0 rest]
    by (simp add: EncodeVarint32_64 GetVarint32Ptr_fallback GetVarint32PtrFallback_def)
qed

lemma GetVarint32_Encode [simp]: "GetVarint32 (EncodeVarint32 v @ rest) = Some (v, rest)"
  by (simp add: GetVarint32_def)

lemma GetLengthPrefixedSlice_Put [simp]:
  assumes "length x < 2 ^ 32"
  shows "GetLengthPrefixedSlice (PutLengthPrefixedSlice [] x @ rest) = Some (x, rest)"
proof -
  have "unat (word_of_nat (length x) :: u32) = length x"
    using assms by (simp add: unat_of_nat)
  then show ?thesis by (simp add: GetLengthPrefixedSlice_def PutLengthPrefixedSlice_def PutVarint32_def)
qed

lemma GetLengthPrefixedSlicePtr_same: "GetLengthPrefixedSlicePtr p = GetLengthPrefixedSlice p"
  by (auto simp: GetLengthPrefixedSlicePtr_def GetLengthPrefixedSlice_def GetVarint32_def split: option.split)

lemma PutLengthPrefixedSlice_append: "PutLengthPrefixedSlice dst x = dst @ PutLengthPrefixedSlice [] x"
  by (simp add: PutLengthPrefixedSlice_def PutVarint32_def)

text \<open>The lengths.\<close>

lemma varint_length_loop_Encode: "varint_length_loop v n + 1 = n + length (EncodeVarint64 v)"
  by (induction v n rule: varint_length_loop.induct)
     (subst varint_length_loop.simps, subst EncodeVarint64.simps, simp)

lemma VarintLength_Encode: "VarintLength v = length (EncodeVarint64 v)"
  using varint_length_loop_Encode [of v 1] by (simp add: VarintLength_def)

lemma EncodeVarint64_length: "unat v < 2 ^ (7 * n) \<Longrightarrow> length (EncodeVarint64 v) \<le> max 1 n"
proof (induction v arbitrary: n rule: EncodeVarint64.induct)
  case (1 v)
  show ?case
  proof (cases "v < 128")
    case True
    then show ?thesis by (simp add: EncodeVarint64_last)
  next
    case False
    then have v: "128 \<le> v" "128 \<le> unat v" by (simp_all add: u64_ge_128 word_le_nat_alt)
    note d = less_exp_drop_7 [of v "7 * n" 0, simplified, OF "1.prems" v(2)]
    then have "unat (drop_bit 7 v) < 2 ^ (7 * (n - 1))" by (simp add: diff_mult_distrib2)
    from "1.IH" [OF v(1) this] d show ?thesis by (simp add: EncodeVarint64_more [OF v(2)] max_def split: if_splits)
  qed
qed

lemma EncodeVarint32_length: "length (EncodeVarint32 v) \<le> 5"
  by (simp add: EncodeVarint32_def)

lemma foldl_PutFixed32: "foldl PutFixed32 r ws = r @ concat (map EncodeFixed32 ws)"
  by (induction ws arbitrary: r) (simp_all add: PutFixed32_def)

text \<open>A number out of a sequence of fixed-width numbers.\<close>

lemma drop_fixed: "i \<le> length ws \<Longrightarrow> drop (i * 4) (concat (map EncodeFixed32 ws)) = concat (map EncodeFixed32 (drop i ws))"
proof (induction i arbitrary: ws)
  case (Suc i)
  then show ?case by (cases ws) (simp_all add: add.commute)
qed simp

lemma length_fixed [simp]: "length (concat (map EncodeFixed32 ws)) = length ws * 4"
  by (induction ws) simp_all

lemma DecodeFixed32_nth:
  assumes "i < length ws"
  shows "DecodeFixed32 (drop (length a + i * 4) (a @ concat (map EncodeFixed32 ws) @ z)) = Some (ws ! i)"
proof -
  have "drop (length a + i * 4) (a @ concat (map EncodeFixed32 ws) @ z) = concat (map EncodeFixed32 (drop i ws)) @ z"
    using assms drop_fixed [of i ws] by simp
  also have "\<dots> = EncodeFixed32 (ws ! i) @ concat (map EncodeFixed32 (drop (Suc i) ws)) @ z"
    using assms by (simp add: Cons_nth_drop_Suc [symmetric])
  finally show ?thesis by simp
qed

section \<open>Decoders that fail\<close>

text \<open>A number is read from at most ten, or five, bytes.\<close>

lemma varint64_loop_consumes:
  "varint64_loop s r p = Some (v, rest) \<Longrightarrow>
   \<exists>q. p = q @ rest \<and> q \<noteq> [] \<and> s + 7 * length q \<le> 63 + 7"
  by (induction s r p rule: varint64_loop.induct)
     (fastforce simp: Let_def append_eq_Cons_conv split: if_splits)+

lemma varint32_loop_consumes:
  "varint32_loop s r p = Some (v, rest) \<Longrightarrow>
   \<exists>q. p = q @ rest \<and> q \<noteq> [] \<and> s + 7 * length q \<le> 28 + 7"
  by (induction s r p rule: varint32_loop.induct)
     (fastforce simp: Let_def append_eq_Cons_conv split: if_splits)+

lemma GetVarint32_consumes:
  "GetVarint32 p = Some (v, rest) \<Longrightarrow> \<exists>q. p = q @ rest \<and> q \<noteq> [] \<and> length q \<le> 5"
  using varint32_loop_consumes [of 0 0 p v rest]
  by (auto simp: GetVarint32_def GetVarint32Ptr_fallback GetVarint32PtrFallback_def)

lemma GetVarint64_consumes:
  "GetVarint64 p = Some (v, rest) \<Longrightarrow> \<exists>q. p = q @ rest \<and> q \<noteq> [] \<and> length q \<le> 10"
  using varint64_loop_consumes [of 0 0 p v rest] by (auto simp: GetVarint64_def GetVarint64Ptr_def)

lemma GetLengthPrefixedSlice_consumes:
  "GetLengthPrefixedSlice p = Some (x, rest) \<Longrightarrow> \<exists>q. p = q @ x @ rest \<and> q \<noteq> [] \<and> length q \<le> 5"
  by (fastforce simp: GetLengthPrefixedSlice_def dest: GetVarint32_consumes split: option.splits if_splits)

text \<open>What follows a value does not change how it is read.\<close>

lemma varint64_loop_extend: "varint64_loop s r p = Some (v, rest) \<Longrightarrow> varint64_loop s r (p @ t) = Some (v, rest @ t)"
  by (induction s r p rule: varint64_loop.induct) (auto simp: Let_def split: if_splits)

lemma varint32_loop_extend: "varint32_loop s r p = Some (v, rest) \<Longrightarrow> varint32_loop s r (p @ t) = Some (v, rest @ t)"
  by (induction s r p rule: varint32_loop.induct) (auto simp: Let_def split: if_splits)

lemma GetVarint64_extend: "GetVarint64 p = Some (v, rest) \<Longrightarrow> GetVarint64 (p @ t) = Some (v, rest @ t)"
  by (simp add: GetVarint64_def GetVarint64Ptr_def varint64_loop_extend)

lemma GetVarint32_extend: "GetVarint32 p = Some (v, rest) \<Longrightarrow> GetVarint32 (p @ t) = Some (v, rest @ t)"
  by (simp add: GetVarint32_def GetVarint32Ptr_fallback GetVarint32PtrFallback_def varint32_loop_extend)

lemma GetLengthPrefixedSlice_extend:
  "GetLengthPrefixedSlice p = Some (x, rest) \<Longrightarrow> GetLengthPrefixedSlice (p @ t) = Some (x, rest @ t)"
  by (cases "GetVarint32 p") (auto simp: GetLengthPrefixedSlice_def GetVarint32_extend split: if_splits)

section \<open>The contract of an encoding\<close>

text \<open>
  What the formats above the integers rely on: whatever follows in the string, the decoder reads
  back the value and leaves the rest, and a successful read makes progress.
\<close>

locale codec =
  fixes enc :: "'a \<Rightarrow> bytes" and dec :: "bytes \<Rightarrow> ('a \<times> bytes) option" and ok :: "'a \<Rightarrow> bool"
  assumes dec_enc: "ok x \<Longrightarrow> dec (enc x @ rest) = Some (x, rest)"
    and dec_extend: "dec p = Some (x, rest) \<Longrightarrow> dec (p @ t) = Some (x, rest @ t)"
    and dec_shorter: "dec p = Some (x, rest) \<Longrightarrow> length rest < length p"
begin

lemma prefix_free:
  assumes "ok x" "ok y" "enc x @ r = enc y @ s"
  shows "x = y" "r = s"
proof -
  have "Some (x, r) = Some (y, s)"
    using dec_enc [OF assms(1), of r] dec_enc [OF assms(2), of s] unfolding assms(3) by (rule subst)
  then show "x = y" "r = s" by simp_all
qed

lemma truncated:
  assumes "ok x" "k < length (enc x)"
  shows "dec (take k (enc x)) = None"
proof (rule ccontr)
  assume "\<not> ?thesis"
  then obtain y rest where "dec (take k (enc x)) = Some (y, rest)" by auto
  from dec_extend [OF this, of "drop k (enc x)"] dec_enc [OF assms(1), of "[]"] assms(2)
  show False by simp
qed

lemma enc_nonempty:
  assumes "ok x"
  shows "enc x \<noteq> []"
  using dec_shorter [OF dec_enc [OF assms, of "[]"]] by auto

lemma concat_inj:
  assumes "list_all ok xs" "list_all ok ys" "concat (map enc xs) = concat (map enc ys)"
  shows "xs = ys"
  using assms
proof (induction xs arbitrary: ys)
  case Nil
  then show ?case using enc_nonempty by (cases ys) auto
next
  case (Cons x xs)
  then obtain y ys' where ys: "ys = y # ys'" using enc_nonempty by (cases ys) auto
  have o: "ok x" "ok y" and e: "enc x @ concat (map enc xs) = enc y @ concat (map enc ys')"
    using Cons.prems ys by simp_all
  show ?case using prefix_free [OF o e] Cons ys by simp
qed

end

interpretation varint32: codec EncodeVarint32 GetVarint32 "\<lambda>_. True"
  by unfold_locales (use GetVarint32_consumes GetVarint32_extend in fastforce)+

interpretation varint64: codec EncodeVarint64 GetVarint64 "\<lambda>_. True"
  by unfold_locales (use GetVarint64_consumes GetVarint64_extend in fastforce)+

interpretation slice: codec "PutLengthPrefixedSlice []" GetLengthPrefixedSlice "\<lambda>x. length x < 2 ^ 32"
  by unfold_locales (use GetLengthPrefixedSlice_consumes GetLengthPrefixedSlice_extend in fastforce)+

section \<open>Properties\<close>

text \<open>C24. Numbers and strings are read back exactly as they were written, whatever follows them in
  the string: variable-length numbers of both widths, fixed-width numbers, and strings shorter
  than \<open>2 ^ 32\<close> bytes.\<close>

theorem coding_roundtrip:
  assumes "length x < 2 ^ 32"
  shows "GetVarint32 (PutVarint32 [] v @ rest) = Some (v, rest) \<and>
    GetVarint64 (PutVarint64 [] w @ rest) = Some (w, rest) \<and>
    DecodeFixed32 (PutFixed32 [] v @ rest) = Some v \<and>
    DecodeFixed64 (PutFixed64 [] w @ rest) = Some w \<and>
    GetLengthPrefixedSlice (PutLengthPrefixedSlice [] x @ rest) = Some (x, rest) \<and>
    GetLengthPrefixedSlicePtr (PutLengthPrefixedSlice [] x @ rest) = Some (x, rest)"
  using assms varint32.dec_enc varint64.dec_enc slice.dec_enc
  by (simp add: PutVarint32_def PutVarint64_def PutFixed32_def PutFixed64_def GetLengthPrefixedSlicePtr_same)

text \<open>Witness for C24.\<close>

theorem coding_roundtrip_witness:
  "length [1, 2 :: byte] < 2 ^ 32 \<and>
   GetVarint64 (PutVarint64 [] 300 @ [7]) = Some (300, [7]) \<and>
   GetLengthPrefixedSlice (PutLengthPrefixedSlice [] [1, 2] @ [7]) = Some ([1, 2], [7])"
  using coding_roundtrip [of "[1, 2]" 0 "[7]" 300] by simp

text \<open>The unrolled encoder of 32-bit numbers writes what the loop of the 64-bit encoder writes,
  the fast path of the 32-bit decoder agrees with its loop, and \<open>VarintLength\<close> is the number of
  bytes written.\<close>

theorem varint_equivalence:
  "EncodeVarint32 v = EncodeVarint64 (ucast v) \<and> GetVarint32Ptr p = GetVarint32PtrFallback p \<and>
   VarintLength w = length (EncodeVarint64 w)"
  by (intro conjI EncodeVarint32_64 GetVarint32Ptr_fallback VarintLength_Encode)

text \<open>No encoding is cut short: a string that ends inside an encoded number is refused, and a
  number that is read takes at least one byte and at most ten, five for 32 bits.\<close>

theorem varint_bounds:
  "(k < length (PutVarint64 [] w) \<longrightarrow> GetVarint64 (take k (PutVarint64 [] w)) = None) \<and>
   (k < length (PutVarint32 [] v) \<longrightarrow> GetVarint32 (take k (PutVarint32 [] v)) = None) \<and>
   (GetVarint64 p = Some (w', rest) \<longrightarrow> length rest < length p \<and> length p \<le> length rest + 10) \<and>
   (GetVarint32 p = Some (v', rest) \<longrightarrow> length rest < length p \<and> length p \<le> length rest + 5)"
  using varint64.truncated varint32.truncated GetVarint64_consumes [of p w' rest] GetVarint32_consumes [of p v' rest]
  by (auto simp: PutVarint64_def PutVarint32_def)

text \<open>A number cut off after one byte.\<close>

theorem varint_bounds_witness:
  "1 < length (PutVarint64 [] 300) \<and> GetVarint64 (take 1 (PutVarint64 [] 300)) = None \<and>
   GetVarint32 [172, 2, 9] = Some (300, [9]) \<and> length [9 :: byte] < length [172, 2, 9 :: byte]"
proof -
  have l: "1 < length (PutVarint64 [] 300)"
    by (simp add: PutVarint64_def EncodeVarint64.simps)
  have g: "GetVarint32 [172, 2, 9] = Some (300, [9])" by code_simp
  show ?thesis using l g varint_bounds [of 1 300 0 "[172, 2, 9]" 0 "[9]" 300] by simp
qed

end
