(* ===== verification/Logging.thy ===== *)
theory Logging
  imports Main Coding
begin

text \<open>Decimal and hexadecimal text of numbers, as the format specifiers of \<open>printf\<close> write it.\<close>

fun show_nat :: "nat \<Rightarrow> string" where
  "show_nat n = (if n < 10 then [char_of (48 + n)] else show_nat (n div 10) @ [char_of (48 + n mod 10)])"

declare show_nat.simps [simp del]

text \<open>At least \<open>w\<close> digits, as \<open>%0w\<close> has it.\<close>

definition show_padded :: "nat \<Rightarrow> nat \<Rightarrow> string" where
  "show_padded w n = replicate (w - length (show_nat n)) (CHR ''0'') @ show_nat n"

definition is_decimal :: "char \<Rightarrow> bool" where
  "is_decimal c \<longleftrightarrow> 48 \<le> (of_char c :: nat) \<and> (of_char c :: nat) \<le> 57"

definition value_of :: "string \<Rightarrow> nat" where
  "value_of = foldl (\<lambda>v c. v * 10 + (of_char c - 48)) 0"

lemma of_char_decimal: "d < 10 \<Longrightarrow> of_char (char_of (48 + d) :: char) = (48 + d :: nat)"
  by simp

lemma value_of_snoc [simp]: "value_of (ds @ [c]) = value_of ds * 10 + (of_char c - 48)"
  by (simp add: value_of_def)

lemma value_of_Nil [simp]: "value_of [] = 0"
  by (simp add: value_of_def)

lemma show_nat_decimal: "(\<forall>c \<in> set (show_nat n). is_decimal c) \<and> show_nat n \<noteq> [] \<and> value_of (show_nat n) = n"
proof (induction n rule: show_nat.induct)
  case (1 n)
  show ?case
  proof (cases "n < 10")
    case True
    then show ?thesis
      by (subst (1 2 3) show_nat.simps) (simp add: is_decimal_def value_of_def of_char_decimal)
  next
    case False
    have "value_of (show_nat n) = n div 10 * 10 + n mod 10"
      using 1 [OF False] False by (subst show_nat.simps) (simp add: of_char_decimal)
    then show ?thesis
      using 1 [OF False] False by (subst (1 2) show_nat.simps) (simp add: is_decimal_def of_char_decimal)
  qed
qed

lemma value_of_append: "value_of (xs @ ys) = foldl (\<lambda>v c. v * 10 + (of_char c - 48)) (value_of xs) ys"
  by (simp add: value_of_def)

lemma value_of_zeros [simp]: "value_of (replicate k (CHR ''0'')) = 0"
  by (induction k) (simp_all add: value_of_def)

lemma show_padded_decimal:
  "\<forall>c \<in> set (show_padded w n). is_decimal c" "show_padded w n \<noteq> []" "value_of (show_padded w n) = n"
proof -
  note d = show_nat_decimal [of n]
  show "\<forall>c \<in> set (show_padded w n). is_decimal c" using d by (auto simp: show_padded_def is_decimal_def)
  show "show_padded w n \<noteq> []" using d by (simp add: show_padded_def)
  have "value_of (show_padded w n) = foldl (\<lambda>v c. v * 10 + (of_char c - 48)) 0 (show_nat n)"
    by (simp add: show_padded_def value_of_append)
  then show "value_of (show_padded w n) = n" using d by (simp add: value_of_def)
qed

text \<open>
  Numbers and strings as readable text (util/logging.cc).  Text is a string of characters, binary
  data a string of bytes.
\<close>

definition AppendNumberTo :: "string \<Rightarrow> u64 \<Rightarrow> string" where
  "AppendNumberTo str num = str @ show_nat (unat num)"

definition NumberToString :: "u64 \<Rightarrow> string" where
  "NumberToString num = AppendNumberTo [] num"

definition hex_digit :: "nat \<Rightarrow> char" where
  "hex_digit d = (if d < 10 then char_of (48 + d) else char_of (87 + d))"

text \<open>A character is compared as a signed number.\<close>

definition escape_byte :: "byte \<Rightarrow> string" where
  "escape_byte c = (if sint c \<ge> 32 \<and> sint c \<le> 126 then [char_of (unat c)]
     else [char_of (92 :: nat), CHR ''x'', hex_digit (unat c div 16), hex_digit (unat c mod 16)])"

fun AppendEscapedStringTo :: "string \<Rightarrow> bytes \<Rightarrow> string" where
  "AppendEscapedStringTo str [] = str"
| "AppendEscapedStringTo str (c # value) = AppendEscapedStringTo (str @ escape_byte c) value"

definition EscapeString :: "bytes \<Rightarrow> string" where
  "EscapeString value = AppendEscapedStringTo [] value"

definition kMaxUint64 :: u64 where
  "kMaxUint64 = NOT 0"

text \<open>The loop over the digits, with the number read so far and the count of digits.\<close>

fun consume_loop :: "u64 \<Rightarrow> nat \<Rightarrow> string \<Rightarrow> (u64 \<times> nat \<times> string) option" where
  "consume_loop v digits [] = Some (v, digits, [])"
| "consume_loop v digits (c # cs) =
     (if (of_char c :: nat) \<ge> 48 \<and> (of_char c :: nat) \<le> 57 then
        let delta = word_of_nat (of_char c - 48) in
        if v > kMaxUint64 div 10 \<or> (v = kMaxUint64 div 10 \<and> delta > kMaxUint64 mod 10) then None
        else consume_loop (v * 10 + delta) (digits + 1) cs
      else Some (v, digits, c # cs))"

definition ConsumeDecimalNumber :: "string \<Rightarrow> (u64 \<times> string) option" where
  "ConsumeDecimalNumber inp = (case consume_loop 0 0 inp of
     None \<Rightarrow> None
   | Some (v, digits, rest) \<Rightarrow> if digits > 0 then Some (v, rest) else None)"

section \<open>Reading back a number\<close>

text \<open>The overflow test is exact.\<close>

lemma overflow_exact:
  fixes v :: u64
  assumes "d < 10"
  shows "(v > kMaxUint64 div 10 \<or> (v = kMaxUint64 div 10 \<and> word_of_nat d > kMaxUint64 mod 10)) \<longleftrightarrow>
    unat v * 10 + d \<ge> 2 ^ 64"
proof -
  have k: "kMaxUint64 div 10 = 1844674407370955161" "kMaxUint64 mod 10 = 5"
    by (simp_all add: kMaxUint64_def)
  have d: "unat (word_of_nat d :: u64) = d" using assms by (simp add: unat_of_nat take_bit_nat_eq_self)
  show ?thesis unfolding k using assms
    by (auto simp: word_less_nat_alt word_unat_eq_iff d)
qed

lemma no_overflow_value:
  fixes v :: u64
  assumes "unat v * 10 + d < 2 ^ 64"
  shows "unat (v * 10 + word_of_nat d) = unat v * 10 + d"
proof -
  have "v * 10 + word_of_nat d = word_of_nat (unat v * 10 + d)" by simp
  then show ?thesis using assms by (simp only: unat_of_nat) (simp add: take_bit_nat_eq_self)
qed

lemma foldl_mono: "v \<le> foldl (\<lambda>v c. v * 10 + (of_char c - 48)) v ds" for v :: nat and ds :: string
proof (induction ds arbitrary: v)
  case (Cons c ds)
  have "v \<le> v * 10 + (of_char c - 48)" by simp
  also have "\<dots> \<le> foldl (\<lambda>v c. v * 10 + (of_char c - 48)) (v * 10 + (of_char c - 48)) ds" by (rule Cons.IH)
  finally show ?case by simp
qed simp

lemma consume_loop_digits:
  "\<forall>c \<in> set ds. is_decimal c \<Longrightarrow> rest = [] \<or> \<not> is_decimal (hd rest) \<Longrightarrow>
   foldl (\<lambda>v c. v * 10 + (of_char c - 48)) (unat v) ds < 2 ^ 64 \<Longrightarrow>
   consume_loop v n (ds @ rest) =
     Some (word_of_nat (foldl (\<lambda>v c. v * 10 + (of_char c - 48)) (unat v) ds), n + length ds, rest)"
proof (induction ds arbitrary: v n)
  case Nil
  then show ?case by (cases rest) (auto simp: is_decimal_def)
next
  case (Cons c ds)
  let ?d = "of_char c - 48 :: nat"
  have c: "48 \<le> (of_char c :: nat)" "(of_char c :: nat) \<le> 57" "?d < 10" using Cons.prems(1) by (auto simp: is_decimal_def)
  have b: "unat v * 10 + ?d < 2 ^ 64" using Cons.prems(3) foldl_mono [of "unat v * 10 + ?d" ds] by simp
  note nv = no_overflow_value [OF b]
  have "\<not> (v > kMaxUint64 div 10 \<or> (v = kMaxUint64 div 10 \<and> (word_of_nat ?d :: u64) > kMaxUint64 mod 10))"
    using overflow_exact [OF c(3), of v] b by simp
  then show ?case using Cons.IH [of "v * 10 + word_of_nat ?d" "n + 1"] Cons.prems c nv
    by (simp add: Let_def)
qed

lemma ConsumeDecimalNumber_digits:
  assumes "\<forall>c \<in> set ds. is_decimal c" "ds \<noteq> []" "rest = [] \<or> \<not> is_decimal (hd rest)" "value_of ds < 2 ^ 64"
  shows "ConsumeDecimalNumber (ds @ rest) = Some (word_of_nat (value_of ds), rest)"
  using consume_loop_digits [of ds rest 0 0] assms by (simp add: ConsumeDecimalNumber_def value_of_def)

end
