(* ===== verification/Trace_Parse.thy ===== *)
theory Trace_Parse
  imports Trace Logging
begin

text \<open>
  The text of a trace file and what \<open>parse_trace\<close> makes of it: decimal numbers and lines are
  read back as they were written, and the two passes keep the evaluated lines that fit the
  device, in their order.
\<close>

section \<open>The text of a trace\<close>

type_synonym line = "string \<times> int \<times> int"

definition show_int :: "int \<Rightarrow> string" where
  "show_int i = (if i < 0 then CHR ''-'' # show_nat (nat (- i)) else show_nat (nat i))"

definition newline :: char where
  "newline = CHR 0x0A"

fun line_text :: "line \<Rightarrow> string" where
  "line_text (w, start, len) = w @ CHR '' '' # show_int start @ CHR '' '' # show_int len"

definition trace_text :: "line list \<Rightarrow> string" where
  "trace_text ls = concat (map (\<lambda>l. line_text l @ [newline]) ls)"

text \<open>A line whose word fits the buffer and whose numbers and last LBA fit \<open>int\<close>.\<close>

fun good_line :: "line \<Rightarrow> bool" where
  "good_line (w, start, len) \<longleftrightarrow>
     w \<noteq> [] \<and> length w < BUFFER_SIZE \<and> (\<forall>c \<in> set w. \<not> isspace c) \<and>
     int32 start \<and> int32 len \<and> int32 (start - 1) \<and> int32 (start - 1 + len)"

fun vals :: "line \<Rightarrow> scanned" where
  "vals (w, start, len) = \<lparr>ReadWriteString = Some w, LineStart = Some start, LineLen = Some len\<rparr>"

text \<open>The operation that a line stands for, and the operations of a trace.\<close>

fun line_operation :: "string \<Rightarrow> int \<Rightarrow> line \<Rightarrow> OperationRange_t option" where
  "line_operation evaluated m (w, start, len) = (case access_of evaluated w of
     None \<Rightarrow> None
   | Some ty \<Rightarrow> if start - 1 + len < m
       then Some \<lparr>AccessType = ty, StartLBA = start, EndLBA = start - 1 + len\<rparr> else None)"

definition operations :: "string \<Rightarrow> int \<Rightarrow> line list \<Rightarrow> OperationRange_t list" where
  "operations evaluated m ls = List.map_filter (line_operation evaluated m) ls"

section \<open>Numbers\<close>

lemma of_char_digit: "n < 10 \<Longrightarrow> of_char (char_of (48 + n)) = 48 + n" for n :: nat
  by simp

lemma isdigit_char_of: "n < 10 \<Longrightarrow> isdigit (char_of (48 + n))" for n :: nat
  by (simp add: isdigit_def)

lemma digits_snoc: "digits (ds @ [c]) = 10 * digits ds + (int (of_char c) - 48)"
  by (simp add: digits_def)

lemma show_nat_digits: "(\<forall>c \<in> set (show_nat n). isdigit c) \<and> show_nat n \<noteq> [] \<and> digits (show_nat n) = int n"
proof (induction n rule: show_nat.induct)
  case (1 n)
  show ?case
  proof (cases "n < 10")
    case True
    then show ?thesis
      by (subst (1 2 3) show_nat.simps) (simp add: digits_def isdigit_char_of of_char_digit)
  next
    case False
    have "int n = 10 * int (n div 10) + int (n mod 10)"
      using div_mult_mod_eq [of n 10] by linarith
    moreover have "digits (show_nat n) = 10 * int (n div 10) + int (n mod 10)"
      using 1 [OF False] False of_char_digit [of "n mod 10"] by (subst show_nat.simps) (simp add: digits_snoc)
    ultimately show ?thesis
      using 1 [OF False] False by (subst (1 2) show_nat.simps) (simp add: isdigit_char_of)
  qed
qed

lemma isdigit_not_space: "isdigit c \<Longrightarrow> \<not> isspace c"
  by (auto simp: isdigit_def isspace_def Let_def)

lemma space_space [simp]: "isspace (CHR '' '')" "isspace newline" "\<not> isspace (CHR ''-'')"
  by (simp_all add: isspace_def newline_def)

lemma not_digit [simp]: "\<not> isdigit (CHR '' '')" "\<not> isdigit newline" "\<not> isdigit (CHR ''-'')" "\<not> isdigit (CHR ''+'')"
  by (simp_all add: isdigit_def newline_def)

lemma dropWhile_space [simp]: "isspace c \<Longrightarrow> dropWhile isspace (c # f) = dropWhile isspace f"
  by simp

lemma takeWhile_front: "(\<forall>c \<in> set ds. P c) \<Longrightarrow> rest = [] \<or> \<not> P (hd rest) \<Longrightarrow>
    takeWhile P (ds @ rest) = ds \<and> dropWhile P (ds @ rest) = rest"
  by (induction ds) (cases rest; auto)+

lemma scan_int_show:
  assumes "int32 x" "rest = [] \<or> \<not> isdigit (hd rest)"
  shows "scan_int (CHR '' '' # show_int x @ rest) = returnM (Some x, rest)"
proof -
  obtain d ds where ds: "show_nat (nat \<bar>x\<bar>) = d # ds"
    using show_nat_digits [of "nat \<bar>x\<bar>"] by (cases "show_nat (nat \<bar>x\<bar>)") auto
  have d: "isdigit d" "\<forall>c \<in> set ds. isdigit c" "digits (d # ds) = \<bar>x\<bar>"
    using show_nat_digits [of "nat \<bar>x\<bar>"] by (auto simp: ds)
  have s: "takeWhile isdigit (d # ds @ rest) = d # ds" "dropWhile isdigit (d # ds @ rest) = rest"
    using takeWhile_front [of "d # ds" isdigit rest] d assms(2) by auto
  have "\<not> isspace d" "d \<noteq> CHR ''-''" "d \<noteq> CHR ''+''" using d(1) isdigit_not_space by auto
  then show ?thesis
    using ds d s assms(1) by (cases "x < 0") (simp_all add: scan_int_def show_int_def Let_def)
qed

section \<open>Lines\<close>

lemma bind_return: "bindM (returnM x) f = f x"
  by (simp add: bindM_def returnM_def)

lemma bind_bind: "bindM (bindM m f) g = bindM m (\<lambda>x. bindM (f x) g)"
  by (simp add: bindM_def fun_eq_iff split: sum.splits)

lemma fscanf_space: "isspace c \<Longrightarrow> fscanf (c # f) v = fscanf f v"
  by (simp add: fscanf_def)

lemma fscanf_end: "fscanf [newline] v = returnM (v, [])"
  by (simp add: fscanf_def)

lemma fscanf_line:
  assumes "good_line l" "rest = [] \<or> hd rest = newline"
  shows "(fscanf (line_text l @ rest) v :: ('s, scanned \<times> string) prog) = returnM (vals l, rest)"
proof -
  obtain w a n where l: "l = (w, a, n)" by (cases l)
  have w: "w \<noteq> []" "length w < 256" "\<forall>c \<in> set w. \<not> isspace c" "int32 a" "int32 n"
    using assms(1) by (simp_all add: l)
  let ?t = "CHR '' '' # show_int a @ CHR '' '' # show_int n @ rest"
  have "dropWhile isspace (w @ ?t) = w @ ?t" using w(1,3) by (cases w) auto
  then have "takeWhile (\<lambda>c. \<not> isspace c) (dropWhile isspace (w @ ?t)) = w"
      "dropWhile (\<lambda>c. \<not> isspace c) (dropWhile isspace (w @ ?t)) = ?t"
    using takeWhile_front [of w "\<lambda>c. \<not> isspace c" ?t] w(3) by auto
  moreover have "(scan_int ?t :: ('s, int option \<times> string) prog) = returnM (Some a, CHR '' '' # show_int n @ rest)"
    by (rule scan_int_show) (use w in auto)
  moreover have "(scan_int (CHR '' '' # show_int n @ rest) :: ('s, int option \<times> string) prog) = returnM (Some n, rest)"
    by (rule scan_int_show) (use w assms(2) in auto)
  ultimately show ?thesis
    using w(1,2) by (cases v) (simp add: l fscanf_def Let_def bind_return)
qed

lemma then_then: "thenM (thenM m k) l = thenM m (thenM k l)"
  by (simp add: thenM_def bind_bind)

text \<open>
  The loop does the body for every line; a line break at the end of the file makes it do the
  body for the last line again.
\<close>

lemma scan_lines_space: "isspace c \<Longrightarrow> scan_lines (Suc n) body (c # f) v = scan_lines (Suc n) body f v"
  by (simp add: fscanf_space)

lemma scan_lines_newline:
  fixes body :: "scanned \<Rightarrow> ('s, unit) prog"
  assumes "\<forall>l \<in> set ls. good_line l" "length ls \<le> n"
  shows "scan_lines (Suc n) body (newline # trace_text ls) v =
    thenM (blockM (map body (map vals ls @ [last (v # map vals ls)]))) (returnM (last (v # map vals ls)))"
  using assms
proof (induction ls arbitrary: n v)
  case Nil
  then show ?case
    by (simp add: trace_text_def fscanf_end bind_return blockM.simps thenM_def bind_bind)
next
  case (Cons l ls)
  then obtain m where n: "n = Suc m" by (cases n) auto
  have f: "(fscanf (newline # trace_text (l # ls)) v :: ('s, scanned \<times> string) prog) = returnM (vals l, newline # trace_text ls)"
    using fscanf_line [of l "newline # trace_text ls" v] Cons.prems by (simp add: trace_text_def fscanf_space)
  have "scan_lines (Suc m) body (newline # trace_text ls) (vals l) =
    thenM (blockM (map body (map vals ls @ [last (vals l # map vals ls)]))) (returnM (last (vals l # map vals ls)))"
    by (rule Cons.IH) (use Cons.prems n in auto)
  then show ?case
    unfolding n scan_lines.simps(2) [of "Suc m"] f by (simp add: bind_return blockM.simps then_then)
qed

lemma scan_lines_no_newline:
  fixes body :: "scanned \<Rightarrow> ('s, unit) prog"
  assumes "\<forall>l \<in> set ls. good_line l" "good_line l" "length ls \<le> n"
  shows "scan_lines (Suc n) body (newline # trace_text ls @ line_text l) v =
    thenM (blockM (map body (map vals (ls @ [l])))) (returnM (vals l))"
  using assms
proof (induction ls arbitrary: n v)
  case Nil
  have "(fscanf (line_text l) v :: ('s, scanned \<times> string) prog) = returnM (vals l, [])"
    using fscanf_line [of l "[]" v] Nil by simp
  then show ?case
    by (simp add: trace_text_def fscanf_space bind_return blockM.simps thenM_def bind_bind)
next
  case (Cons k ls)
  then obtain m where n: "n = Suc m" by (cases n) auto
  have f: "(fscanf (newline # trace_text (k # ls) @ line_text l) v :: ('s, scanned \<times> string) prog) = returnM (vals k, newline # trace_text ls @ line_text l)"
    using fscanf_line [of k "newline # trace_text ls @ line_text l" v] Cons.prems
    by (simp add: trace_text_def fscanf_space)
  have "scan_lines (Suc m) body (newline # trace_text ls @ line_text l) (vals k) =
    thenM (blockM (map body (map vals (ls @ [l])))) (returnM (vals l))"
    by (rule Cons.IH) (use Cons.prems n in auto)
  then show ?case
    unfolding n scan_lines.simps(2) [of "Suc m"] f by (simp add: bind_return blockM.simps then_then)
qed

text \<open>
  The two passes over the trace file: the first one counts the operations that the second one
  keeps, so that the array it fills is large enough.
\<close>

section \<open>The passes\<close>

lemma operations_Nil [simp]: "operations ev m [] = []"
  by (simp add: operations_def)

lemma operations_Cons:
  "operations ev m (l # ls) = (case line_operation ev m l of None \<Rightarrow> [] | Some x \<Rightarrow> [x]) @ operations ev m ls"
  by (simp add: operations_def List.map_filter_def split: option.splits)

lemma operations_append: "operations ev m (ks @ ls) = operations ev m ks @ operations ev m ls"
  by (simp add: operations_def List.map_filter_def)

text \<open>One line: \<open>act\<close> is done exactly for a line that stands for an operation.\<close>

lemma on_line_vals:
  assumes "good_line l"
  shows "on_line act (vals l) s = (case line_operation (EvaluatedAccessType s) (MaxLBA s) l of
    None \<Rightarrow> Inr ((), s) | Some x \<Rightarrow> act (AccessType x) (StartLBA x) (EndLBA x) s)"
  using assms
  by (cases l) (auto simp: on_line_def bindM_def getM_def returnM_def chkM_def whenM_def split: option.splits)

lemma count_lines:
  assumes "\<forall>l \<in> set ls. good_line l"
  shows "blockM (map (\<lambda>l. on_line count_operation (vals l)) ls) s =
    Inr ((), s\<lparr>OperationCnt := OperationCnt s +
      int (length (operations (EvaluatedAccessType s) (MaxLBA s) ls))\<rparr>)"
  using assms
proof (induction ls arbitrary: s)
  case Nil
  then show ?case by (simp add: blockM.simps returnM_def)
next
  case (Cons l ls)
  then show ?case
    by (auto simp: blockM.simps thenM_def bindM_def on_line_vals operations_Cons count_operation_def
        modM_def split: option.splits)
qed

lemma keep_lines:
  assumes "\<forall>l \<in> set ls. good_line l"
    and "TraceOperation s = ys @ zs" "CurrentOperationCnt s = int (length ys)"
    and "ops = operations (EvaluatedAccessType s) (MaxLBA s) ls" "length ops \<le> length zs"
  shows "blockM (map (\<lambda>l. on_line keep_operation (vals l)) ls) s =
    Inr ((), s\<lparr>CurrentOperationCnt := int (length ys + length ops),
      TraceOperation := ys @ ops @ drop (length ops) zs\<rparr>)"
  using assms
proof (induction ls arbitrary: s ys zs ops)
  case Nil
  then show ?case by (simp add: blockM.simps returnM_def)
next
  case (Cons l ls)
  let ?op = "line_operation (EvaluatedAccessType s) (MaxLBA s)"
  show ?case
  proof (cases "?op l")
    case None
    then show ?thesis
      using Cons by (simp add: blockM.simps thenM_def bindM_def on_line_vals operations_Cons)
  next
    case (Some x)
    define ops' where "ops' = operations (EvaluatedAccessType s) (MaxLBA s) ls"
    have ops: "ops = x # ops'" using Cons.prems(4) Some by (simp add: operations_Cons ops'_def)
    obtain z zs' where z: "zs = z # zs'" using Cons.prems(5) ops by (cases zs) auto
    have i: "inb (TraceOperation s) (int (length ys))" by (simp add: Cons.prems(2) z inb_def)
    define t where "t = s\<lparr>TraceOperation := (ys @ [x]) @ zs', CurrentOperationCnt := int (length (ys @ [x]))\<rparr>"
    have "on_line keep_operation (vals l) s = Inr ((), t)"
      using Cons.prems(1) i
      by (simp add: on_line_vals Some keep_operation_def blockM.simps thenM_def bindM_def getM_def wr_def
          modM_def returnM_def Cons.prems(2,3) z upd_def t_def)
    moreover have "blockM (map (\<lambda>l. on_line keep_operation (vals l)) ls) t =
      Inr ((), t\<lparr>CurrentOperationCnt := int (length (ys @ [x]) + length ops'),
        TraceOperation := (ys @ [x]) @ ops' @ drop (length ops') zs'\<rparr>)"
      by (rule Cons.IH) (use Cons.prems ops z in \<open>auto simp: t_def ops'_def operations_Cons Some\<close>)
    ultimately show ?thesis
      by (simp add: blockM.simps thenM_def bindM_def ops z t_def)
  qed
qed

text \<open>Both passes over lines that the loops go through in the order \<open>ls\<close>.\<close>

lemma parse_lines:
  assumes scan: "\<And>body v. v = \<lparr>ReadWriteString = None, LineStart = None, LineLen = None\<rparr> \<or> v = v1 \<Longrightarrow>
      (scan_lines (Suc (length file)) body file v :: ('a trace_scheme, scanned) prog) =
        thenM (blockM (map (\<lambda>l. body (vals l)) ls)) (returnM v1)"
    and "\<forall>l \<in> set ls. good_line l" "OperationCnt s = 0" "CurrentOperationCnt s = 0"
    and "ops = operations (EvaluatedAccessType s) (MaxLBA s) ls"
  shows "parse_trace file fresh (s :: 'a trace_scheme) = Inr ((), s\<lparr>
    TotalAccessedLogicalPageMap := replicate (nat (MaxPage s * MaxBlock s)) False,
    IsParseTraceFile := True, TraceOperation := ops, OperationCnt := int (length ops),
    CurrentOperationCnt := 0\<rparr>)"
proof -
  let ?v = "\<lparr>ReadWriteString = None, LineStart = None, LineLen = None\<rparr>"
  define t where "t = s\<lparr>TotalAccessedLogicalPageMap := replicate (nat (MaxPage s * MaxBlock s)) False,
    IsParseTraceFile := True\<rparr>"
  define u where "u = t\<lparr>OperationCnt := int (length ops), TraceOperation := replicate (length ops) fresh\<rparr>"
  have "scan_lines (Suc (length file)) (on_line count_operation) file ?v t =
      Inr (v1, t\<lparr>OperationCnt := int (length ops)\<rparr>)"
    using scan count_lines [of ls t] assms(2,3,5) by (simp add: thenM_def bindM_def returnM_def t_def)
  moreover have "scan_lines (Suc (length file)) (on_line keep_operation) file v1 u =
      Inr (v1, u\<lparr>CurrentOperationCnt := int (length ops), TraceOperation := ops\<rparr>)"
    using scan keep_lines [of ls u "[]" "replicate (length ops) fresh" ops] assms(2,4,5)
    by (simp add: thenM_def bindM_def returnM_def t_def u_def)
  ultimately show ?thesis
    by (simp add: parse_trace_def thenM_def bindM_def getM_def modM_def t_def u_def del: scan_lines.simps)
qed

section \<open>A small device with a trace\<close>

text \<open>Three blocks of two pages, a page holding four sectors; nothing is read yet.\<close>

definition small_trace :: trace where
  "small_trace = \<lparr>FlashSize = 1, ChipNumber = 1, ChipSize = 1, BlockSize = 1, BlocksPerChip = 3,
     PageSize = 2048, SubPageSize = 512, PageSpareSize = 64, PageToLBARatio = 4, MaxLBA = 16,
     MaxCluster = 4, MaxBlock = 3, MaxPage = 2, MaxSubPage = 4, BadBlocksPerChip = 0,
     EraseBlockTime = 1500, WritePageTime = 800, ReadPageTime = 25, SerialAccessTime = 1,
     AccessSRAM = 1, InitialPercentage = 0, LeastBlocksInFreeBlockList = 1,
     FreeBlockList = [1, 2, - 1], FreeBlockListHead = 0, FreeBlockListTail = 2,
     BlocksInFreeBlockList = 3, BlocksInFreeBlockListArray = [3],
     FlashMemory = [[- 1, - 1], [- 1, - 1], [- 1, - 1]], BadBlockCnt = 0, BadBlockCntArray = [0],
     MaxBlockEraseCnt = 0, BlockEraseCnt = [0, 0, 0], ChipEraseCnt = [0],
     InvalidPageCnt = [0, 0, 0], ValidPageCnt = [0, 0, 0], FreePageCnt = [0, 0, 0],
     InvalidSubPageCnt = [0, 0, 0], ValidSubPageCnt = [0, 0, 0], FreeSubPageCnt = [0, 0, 0],
     AccessedLogicalPages = 0, AccessedLogicalPageMap = replicate 6 False, SystemFailFlg = False,
     AccessStatistics = zero_statistics, rand_seq = (\<lambda>_. 0), rand_pos = 0,
     InputFileRewindTimes = 1, IsDoSimulationUntilFirstBlockWornOut = False, BlockEndurance = 1000,
     EvaluatedAccessType = ''W'', TotalAccessedLogicalPages = 0, TotalAccessedLogicalPageMap = [],
     CurrentRewindTimes = 0, IsParseTraceFile = False, TraceOperation = [], OperationCnt = 0,
     CurrentOperationCnt = 0, RandomIndex = 0\<rparr>"

section \<open>Properties\<close>

lemma length_trace_text: "length ls \<le> length (trace_text ls)"
  by (induction ls) (auto simp: trace_text_def)

lemma map_last: "ls \<noteq> [] \<Longrightarrow> last (v # map f ls) = f (last ls)"
  by (simp add: last_map)

lemma parse_newline:
  assumes "ls \<noteq> []" "\<forall>l \<in> set ls. good_line l" "OperationCnt s = 0" "CurrentOperationCnt s = 0"
    and "ops = operations (EvaluatedAccessType s) (MaxLBA s) (ls @ [last ls])"
  shows "parse_trace (trace_text ls) fresh s = Inr ((), s\<lparr>
    TotalAccessedLogicalPageMap := replicate (nat (MaxPage s * MaxBlock s)) False,
    IsParseTraceFile := True, TraceOperation := ops, OperationCnt := int (length ops),
    CurrentOperationCnt := 0\<rparr>)"
proof (rule parse_lines [where ls = "ls @ [last ls]" and ?v1.0 = "vals (last ls)"])
  show "scan_lines (Suc (length (trace_text ls))) body (trace_text ls) v =
      thenM (blockM (map (\<lambda>l. body (vals l)) (ls @ [last ls]))) (returnM (vals (last ls)))" for body v
    using scan_lines_newline [OF assms(2) length_trace_text, of body v] map_last [OF assms(1), of v vals]
    by (simp add: fscanf_space o_def del: last.simps)
qed (use assms in auto)

text \<open>Parsing a trace file keeps the evaluated lines that end inside the device, in the order of the
  file, and counts them; a line break at the end of the file makes the reader take the last
  line twice.
\<close>

theorem parse_trace_newline:
  assumes "ls \<noteq> []" "\<forall>l \<in> set ls. good_line l" "OperationCnt s = 0" "CurrentOperationCnt s = 0"
    and "ops = operations (EvaluatedAccessType s) (MaxLBA s) (ls @ [last ls])"
  shows "parse_trace (trace_text ls) fresh s = Inr ((), s\<lparr>
    TotalAccessedLogicalPageMap := replicate (nat (MaxPage s * MaxBlock s)) False,
    IsParseTraceFile := True, TraceOperation := ops, OperationCnt := int (length ops),
    CurrentOperationCnt := 0\<rparr>)"
  using assms by (rule parse_newline)

text \<open>A read and a write, of which only the write is evaluated: it is kept twice.\<close>

theorem parse_trace_newline_witness:
  "\<exists>s. parse_trace ''R 3 2\<newline>W 0 8\<newline>'' \<lparr>AccessType = ReadType, StartLBA = 9, EndLBA = 9\<rparr> small_trace = Inr ((), s) \<and>
    TraceOperation s = replicate 2 \<lparr>AccessType = WriteType, StartLBA = 0, EndLBA = 7\<rparr>"
proof -
  let ?ls = "[(''R'', 3, 2), (''W'', 0, 8)]"
  have "trace_text ?ls = ''R 3 2\<newline>W 0 8\<newline>''"
    by (simp add: trace_text_def show_int_def show_nat.simps newline_def char_of_def bit_simps)
  moreover have "\<forall>l \<in> set ?ls. good_line l" by (simp add: isspace_def int32_def INT_MAX_def)
  ultimately show ?thesis
    using parse_trace_newline [of ?ls small_trace _ "\<lparr>AccessType = ReadType, StartLBA = 9, EndLBA = 9\<rparr>"]
    by (simp add: small_trace_def operations_Cons access_of_def numeral_2_eq_2)
qed

text \<open>C14. Without the line break at the end, every line is taken once: the text of any list of lines is
  read back as exactly the operations of these lines.
\<close>

theorem parse_trace_roundtrip:
  assumes "\<forall>l \<in> set (ls @ [l]). good_line l" "OperationCnt s = 0" "CurrentOperationCnt s = 0"
    and "ops = operations (EvaluatedAccessType s) (MaxLBA s) (ls @ [l])"
  shows "parse_trace (trace_text ls @ line_text l) fresh s = Inr ((), s\<lparr>
    TotalAccessedLogicalPageMap := replicate (nat (MaxPage s * MaxBlock s)) False,
    IsParseTraceFile := True, TraceOperation := ops, OperationCnt := int (length ops),
    CurrentOperationCnt := 0\<rparr>)"
proof (rule parse_lines [where ls = "ls @ [l]" and ?v1.0 = "vals l"])
  have "length ls \<le> length (trace_text ls @ line_text l)" using length_trace_text [of ls] by simp
  then show "scan_lines (Suc (length (trace_text ls @ line_text l))) body (trace_text ls @ line_text l) v =
      thenM (blockM (map (\<lambda>l. body (vals l)) (ls @ [l]))) (returnM (vals l))" for body v
    using scan_lines_no_newline [of ls l "length (trace_text ls @ line_text l)" body v] assms(1)
    by (simp add: fscanf_space o_def)
qed (use assms in auto)

text \<open>C14 applies to the same two lines without the line break.\<close>

theorem parse_trace_roundtrip_witness:
  "\<exists>s. parse_trace ''R 3 2\<newline>W 0 8'' \<lparr>AccessType = ReadType, StartLBA = 9, EndLBA = 9\<rparr> small_trace = Inr ((), s) \<and>
    TraceOperation s = [\<lparr>AccessType = WriteType, StartLBA = 0, EndLBA = 7\<rparr>]"
proof -
  let ?ls = "[(''R'', 3, 2)]" and ?l = "(''W'', 0, 8)"
  have "trace_text ?ls @ line_text ?l = ''R 3 2\<newline>W 0 8''"
    by (simp add: trace_text_def show_int_def show_nat.simps newline_def char_of_def bit_simps)
  moreover have "\<forall>l \<in> set (?ls @ [?l]). good_line l" by (simp add: isspace_def int32_def INT_MAX_def)
  ultimately show ?thesis
    using parse_trace_roundtrip [of ?ls ?l small_trace _ "\<lparr>AccessType = ReadType, StartLBA = 9, EndLBA = 9\<rparr>"]
    by (simp add: small_trace_def operations_Cons access_of_def)
qed

end
