(* ===== verification/Trace_Requests.thy ===== *)
theory Trace_Requests
  imports Trace_Parse
begin

text \<open>
  The delivery of the operations of a parsed trace in units of clusters, and the loop that serves
  them: how many requests it serves, and that each one lies on the device.
\<close>

section \<open>Rounding\<close>

lemma round_even_bounds: "0 < d \<Longrightarrow> n div d \<le> round_even n d \<and> round_even n d \<le> n div d + 1"
  by (simp add: round_even_def Let_def)

lemma round_even_nonneg: "0 \<le> n \<Longrightarrow> 0 < d \<Longrightarrow> 0 \<le> round_even n d"
  using round_even_bounds [of d n] pos_imp_zdiv_nonneg_iff [of d n] by linarith

lemma float_exp_power:
  "16777216 * d \<le> n \<Longrightarrow> 0 < d \<Longrightarrow> d * 2 ^ float_exp k n d \<le> n"
proof (induction k n d rule: float_exp.induct)
  case (2 k n d)
  show ?case
  proof (cases "16777216 * (2 * d) \<le> n")
    case True
    then have "2 * d * 2 ^ float_exp k n (2 * d) \<le> n" using 2 by simp
    then show ?thesis using 2 by simp
  next
    case False
    then have "float_exp k n (2 * d) = 0" by (cases k) auto
    then show ?thesis using 2 by simp
  qed
qed simp

lemma float_div_bounds:
  assumes "0 \<le> n" "0 < d"
  shows "0 \<le> float_div n d" "float_div n d \<le> 2 * (n div d) + 1"
proof -
  show "0 \<le> float_div n d"
    using assms by (simp add: float_div_def Let_def pos_imp_zdiv_nonneg_iff round_even_nonneg)
  show "float_div n d \<le> 2 * (n div d) + 1"
  proof (cases "n < 16777216 * d")
    case True
    define k where "k = float_shift 64 n d"
    have "n * 2 ^ k div d < (n div d + 1) * 2 ^ k"
    proof (rule div_less_mult)
      have "n < (n div d + 1) * d"
        unfolding distrib_right using pos_mod_bound [OF assms(2), of n] div_mult_mod_eq [of n d] by linarith
      then have "n * 2 ^ k < (n div d + 1) * d * 2 ^ k" by (intro mult_strict_right_mono) auto
      then show "n * 2 ^ k < (n div d + 1) * 2 ^ k * d" by (simp only: ac_simps)
    qed (use assms in simp)
    then have "round_even (n * 2 ^ k) d \<le> (n div d + 1) * 2 ^ k"
      using round_even_bounds [OF assms(2), of "n * 2 ^ k"] by linarith
    then have "round_even (n * 2 ^ k) d div 2 ^ k \<le> (n div d + 1) * 2 ^ k div 2 ^ k"
      by (intro zdiv_mono1) auto
    then have "round_even (n * 2 ^ k) d div 2 ^ k \<le> n div d + 1" by simp
    moreover have "0 \<le> n div d" using assms by (simp add: pos_imp_zdiv_nonneg_iff)
    ultimately show ?thesis using True by (simp add: float_div_def Let_def k_def)
  next
    case False
    define k where "k = float_exp 64 n d"
    have "d * 2 ^ k \<le> n" using float_exp_power [of d n 64] False assms by (simp add: k_def)
    then have k: "2 ^ k \<le> n div d" using zdiv_mono1 [of "d * 2 ^ k" n d] assms by simp
    have "round_even n (d * 2 ^ k) * 2 ^ k \<le> (n div d div 2 ^ k + 1) * 2 ^ k"
      using round_even_bounds [of "d * 2 ^ k" n] assms by (simp add: zdiv_zmult2_eq)
    also have "\<dots> \<le> n div d + 2 ^ k"
    proof -
      have "0 \<le> n div d mod 2 ^ k" by simp
      then show ?thesis unfolding distrib_right using div_mult_mod_eq [of "n div d" "2 ^ k"] by linarith
    qed
    finally show ?thesis using k False by (simp add: float_div_def Let_def k_def)
  qed
qed

section \<open>Delivering a request\<close>

definition op_ok :: "'a geometry_scheme \<Rightarrow> OperationRange_t \<Rightarrow> bool" where
  "op_ok s x \<longleftrightarrow> 0 \<le> StartLBA x \<and> StartLBA x \<le> EndLBA x \<and> EndLBA x < MaxLBA s"

text \<open>
  A parsed trace that is read a given number of times.  The bound on the number of operations
  keeps the random start of the trace, which is computed in single precision, within \<open>int\<close>.
\<close>

definition trace_ok :: "'a trace_scheme \<Rightarrow> bool" where
  "trace_ok s \<longleftrightarrow>
     IsParseTraceFile s \<and> \<not> IsDoSimulationUntilFirstBlockWornOut s \<and>
     OperationCnt s = int (length (TraceOperation s)) \<and>
     0 < OperationCnt s \<and> OperationCnt s \<le> 2 ^ 27 \<and>
     0 \<le> CurrentOperationCnt s \<and> CurrentOperationCnt s \<le> OperationCnt s \<and>
     0 \<le> RandomIndex s \<and> CurrentRewindTimes s \<le> InputFileRewindTimes s \<and>
     (\<forall>i. 0 \<le> rand_seq s i \<and> rand_seq s i \<le> RAND_MAX) \<and>
     (\<forall>x \<in> set (TraceOperation s). op_ok s x) \<and>
     0 < PageToLBARatio s \<and> MaxLBA s \<le> MaxCluster s * PageToLBARatio s \<and>
     MaxCluster s \<le> int (length (AccessedLogicalPageMap s)) \<and>
     MaxCluster s \<le> int (length (TotalAccessedLogicalPageMap s))"

definition request_in :: "'a geometry_scheme \<Rightarrow> OneRequest_t \<Rightarrow> bool" where
  "request_in s q \<longleftrightarrow> 0 \<le> StartCluster q \<and> 0 < Length q \<and> StartCluster q + Length q \<le> MaxCluster s"

text \<open>The number of requests that are still to be delivered.\<close>

definition pending :: "'a trace_scheme \<Rightarrow> int" where
  "pending s = (InputFileRewindTimes s - CurrentRewindTimes s) * OperationCnt s +
     (OperationCnt s - CurrentOperationCnt s)"

text \<open>
  What fetching a request changes: the marks of accessed pages, the place in the trace and the
  random numbers.  \<open>unfetch\<close> forgets these fields.
\<close>

definition unmark :: "'a trace_scheme \<Rightarrow> 'a trace_scheme" where
  "unmark s = s\<lparr>AccessedLogicalPages := 0, AccessedLogicalPageMap := [],
     TotalAccessedLogicalPages := 0, TotalAccessedLogicalPageMap := []\<rparr>"

definition unfetch :: "'a trace_scheme \<Rightarrow> 'a trace_scheme" where
  "unfetch s = (unmark s)\<lparr>CurrentRewindTimes := 0, CurrentOperationCnt := 0, RandomIndex := 0, rand_pos := 0\<rparr>"

definition fetched :: "'a trace_scheme \<Rightarrow> 'a trace_scheme \<Rightarrow> bool" where
  "fetched s t \<longleftrightarrow> unfetch t = unfetch s"

definition marked :: "'a trace_scheme \<Rightarrow> 'a trace_scheme \<Rightarrow> bool" where
  "marked s t \<longleftrightarrow> unmark t = unmark s \<and> length (AccessedLogicalPageMap t) = length (AccessedLogicalPageMap s) \<and>
     length (TotalAccessedLogicalPageMap t) = length (TotalAccessedLogicalPageMap s)"

lemma marked_trans: "marked s t \<Longrightarrow> marked t u \<Longrightarrow> marked s u"
  by (auto simp: marked_def)

lemma fetched_trans: "fetched s t \<Longrightarrow> fetched t u \<Longrightarrow> fetched s u"
  by (auto simp: fetched_def)

text \<open>A property that does not read the forgotten fields is kept.\<close>

lemma fetched_cong:
  assumes "fetched s t" "\<And>u. f (unfetch u) = f u"
  shows "f t = f s"
  using assms by (metis fetched_def)

lemma marked_cong:
  assumes "marked s t" "\<And>u. f (unmark u) = f u"
  shows "f t = f s"
  using assms by (metis marked_def)

lemma marked_fetched: "marked s t \<Longrightarrow> fetched s t"
  by (simp add: marked_def fetched_def unfetch_def)

text \<open>The part of \<open>trace_ok\<close> that fetching a request does not touch.\<close>

definition trace_static :: "'a trace_scheme \<Rightarrow> bool" where
  "trace_static s \<longleftrightarrow>
     IsParseTraceFile s \<and> \<not> IsDoSimulationUntilFirstBlockWornOut s \<and>
     OperationCnt s = int (length (TraceOperation s)) \<and>
     0 < OperationCnt s \<and> OperationCnt s \<le> 2 ^ 27 \<and>
     (\<forall>i. 0 \<le> rand_seq s i \<and> rand_seq s i \<le> RAND_MAX) \<and>
     (\<forall>x \<in> set (TraceOperation s). op_ok s x) \<and>
     0 < PageToLBARatio s \<and> MaxLBA s \<le> MaxCluster s * PageToLBARatio s"

lemma trace_ok_split:
  "trace_ok s \<longleftrightarrow> trace_static s \<and> 0 \<le> CurrentOperationCnt s \<and> CurrentOperationCnt s \<le> OperationCnt s \<and>
     0 \<le> RandomIndex s \<and> CurrentRewindTimes s \<le> InputFileRewindTimes s \<and>
     MaxCluster s \<le> int (length (AccessedLogicalPageMap s)) \<and>
     MaxCluster s \<le> int (length (TotalAccessedLogicalPageMap s))"
  by (auto simp: trace_ok_def trace_static_def)

lemma fetched_static: "fetched s t \<Longrightarrow> trace_static t = trace_static s"
  by (erule fetched_cong) (simp add: trace_static_def unfetch_def unmark_def op_ok_def)

lemma fetched_same:
  assumes "fetched s t"
  shows "OperationCnt t = OperationCnt s" "InputFileRewindTimes t = InputFileRewindTimes s"
    "MaxCluster t = MaxCluster s"
  using assms by (auto intro: fetched_cong simp: unfetch_def unmark_def)

lemma marked_same:
  assumes "marked s t"
  shows "CurrentOperationCnt t = CurrentOperationCnt s" "CurrentRewindTimes t = CurrentRewindTimes s"
    "RandomIndex t = RandomIndex s"
    "length (AccessedLogicalPageMap t) = length (AccessedLogicalPageMap s)"
    "length (TotalAccessedLogicalPageMap t) = length (TotalAccessedLogicalPageMap s)"
  using assms marked_cong [OF assms, of CurrentOperationCnt] marked_cong [OF assms, of CurrentRewindTimes]
    marked_cong [OF assms, of RandomIndex]
  by (auto simp: unmark_def marked_def)

lemma wp_mark_page:
  assumes "inb (AccessedLogicalPageMap s) i" "inb (TotalAccessedLogicalPageMap s) i"
  shows "wp (mark_page i) (\<lambda>_ t. marked s t) s"
proof -
  have a: "wp (bindM (rd AccessedLogicalPageMap i) (\<lambda>set. whenM (\<not> set) (blockM
        [modM (AccessedLogicalPages_update (\<lambda>n. n + 1)),
         wr AccessedLogicalPageMap AccessedLogicalPageMap_update i True]))) (\<lambda>_ t. marked s t) s"
    using assms by (auto simp: wp marked_def unmark_def)
  have b: "wp (bindM (rd TotalAccessedLogicalPageMap i) (\<lambda>set. whenM (\<not> set) (blockM
        [modM (TotalAccessedLogicalPages_update (\<lambda>n. n + 1)),
         wr TotalAccessedLogicalPageMap TotalAccessedLogicalPageMap_update i True]))) (\<lambda>_ u. marked s u) t"
    if "marked s t" for t
  proof -
    have "inb (TotalAccessedLogicalPageMap t) i" using assms marked_same [OF that] by (auto simp: inb_def)
    then show ?thesis using that by (auto simp: wp marked_def unmark_def)
  qed
  show ?thesis unfolding mark_page_def wp_blockM_Cons wp_blockM_Nil
    by (rule wp_mono [OF a]) (rule b)
qed

lemma wp_mark_pages:
  assumes "0 \<le> lo" "lo \<le> hi" "hi \<le> int (length (AccessedLogicalPageMap s))"
    "hi \<le> int (length (TotalAccessedLogicalPageMap s))"
  shows "wp (forM lo hi mark_page) (\<lambda>_ t. marked s t) s"
proof (rule wp_forM [where I = "\<lambda>_ t. marked s t"])
  fix k t
  assume "lo \<le> k" "k < hi" "marked s t"
  then have "wp (mark_page k) (\<lambda>_ u. marked t u) t"
    using assms marked_same [OF \<open>marked s t\<close>] by (intro wp_mark_page) (auto simp: inb_def)
  then show "wp (mark_page k) (\<lambda>_ t. marked s t) t"
    by (rule wp_mono) (rule marked_trans [OF \<open>marked s t\<close>])
qed (use assms in \<open>auto simp: marked_def\<close>)

text \<open>An operation as a request in clusters, and the operation behind \<open>k\<close> others of a round.\<close>

definition request_of :: "int \<Rightarrow> OperationRange_t \<Rightarrow> OneRequest_t" where
  "request_of ratio x = \<lparr>RequestType = AccessType x, StartCluster = StartLBA x div ratio,
     Length = EndLBA x div ratio - StartLBA x div ratio + 1\<rparr>"

definition request_at :: "'a trace_scheme \<Rightarrow> int \<Rightarrow> OneRequest_t" where
  "request_at s k = request_of (PageToLBARatio s) (at (TraceOperation s) ((RandomIndex s + k) mod OperationCnt s))"

lemma wp_deliver:
  assumes "trace_ok s"
  shows "wp (deliver False) (\<lambda>q t. request_in s q \<and> marked s t \<and> q = request_at s (CurrentOperationCnt s)) s"
proof -
  define i where "i = (RandomIndex s + CurrentOperationCnt s) smod OperationCnt s"
  have i: "inb (TraceOperation s) i" using assms by (auto simp: trace_ok_def i_def inb_def)
  define x where "x = at (TraceOperation s) i"
  have x: "op_ok s x" using assms i at_in_set [OF i] by (auto simp: trace_ok_def x_def)
  define r where "r = PageToLBARatio s"
  have r: "0 < r" "MaxLBA s \<le> MaxCluster s * r" using assms by (auto simp: trace_ok_def r_def)
  have e: "EndLBA x div r < MaxCluster s"
    by (rule div_less_mult) (use x r in \<open>auto simp: op_ok_def\<close>)
  have d: "StartLBA x sdiv r = StartLBA x div r" "EndLBA x sdiv r = EndLBA x div r"
      "StartLBA x div r \<le> EndLBA x div r" "0 \<le> StartLBA x div r"
    using x r by (auto simp: op_ok_def zdiv_mono1 pos_imp_zdiv_nonneg_iff)
  have "wp (forM (StartLBA x div r) (StartLBA x div r + (EndLBA x div r - StartLBA x div r + 1)) mark_page)
      (\<lambda>_ t. marked s t) s"
    by (rule wp_mark_pages) (use d e assms in \<open>auto simp: trace_ok_def\<close>)
  moreover have "i = (RandomIndex s + CurrentOperationCnt s) mod OperationCnt s"
  proof -
    have "0 \<le> RandomIndex s + CurrentOperationCnt s" "0 < OperationCnt s" using assms by (auto simp: trace_ok_def)
    then show ?thesis by (simp add: i_def)
  qed
  then have at: "request_at s (CurrentOperationCnt s) = \<lparr>RequestType = AccessType x, StartCluster = StartLBA x div r,
      Length = EndLBA x div r - StartLBA x div r + 1\<rparr>"
    by (simp add: request_at_def request_of_def x_def r_def)
  moreover have "OperationCnt s \<noteq> 0" "r \<noteq> 0" using assms r by (auto simp: trace_ok_def)
  ultimately show ?thesis
    unfolding deliver_def if_False Let_def wp_bindM wp_getM wp_modulM wp_rd wp_divM wp_thenM wp_returnM
      i_def [symmetric] x_def [symmetric] r_def [symmetric] d(1,2)
    using i d e at by (auto simp: request_in_def elim!: wp_mono)
qed

lemma wp_draw_index:
  assumes "0 < OperationCnt s" "OperationCnt s \<le> 2 ^ 27" "\<forall>i. 0 \<le> rand_seq s i \<and> rand_seq s i \<le> RAND_MAX"
  shows "wp draw_index (\<lambda>_ t. \<exists>g h. t = s\<lparr>RandomIndex := g, rand_pos := h\<rparr> \<and> 0 \<le> g) s"
proof -
  define r where "r = rand_seq s (rand_pos s)"
  define n where "n = OperationCnt s"
  define p where "p = float_div r 1 * float_div n 1"
  have r: "0 \<le> float_div r 1" "float_div r 1 \<le> 2 ^ 32"
    using float_div_bounds [of r 1] assms(3) [rule_format, of "rand_pos s"] by (auto simp: r_def RAND_MAX_def)
  have n: "0 \<le> float_div n 1" "float_div n 1 \<le> 2 ^ 28 + 1"
    using float_div_bounds [of n 1] assms(1,2) by (auto simp: n_def)
  have "p \<le> 2 ^ 32 * (2 ^ 28 + 1)" unfolding p_def using r n by (intro mult_mono) auto
  then have "p div 2147483648 \<le> 2 ^ 32 * (2 ^ 28 + 1) div 2147483648" by (intro zdiv_mono1) auto
  moreover have "0 \<le> p" using r n by (simp add: p_def)
  ultimately have "int32 (float_div p 2147483648)" "0 \<le> float_div p 2147483648"
    using float_div_bounds [of p 2147483648] by (auto simp: int32_def INT_MAX_def)
  then show ?thesis
    by (simp add: draw_index_def randM_def wp r_def [symmetric] n_def [symmetric] p_def [symmetric])
       (rule exI [of _ "float_div p 2147483648"], simp, rule exI [of _ "Suc (rand_pos s)"], cases s, simp)
qed

lemma wp_next_operation:
  assumes "trace_ok s" "CurrentOperationCnt s < OperationCnt s"
  shows "wp (next_operation False) (\<lambda>q t. request_in s q \<and> trace_ok t \<and> fetched s t \<and>
    CurrentRewindTimes t = CurrentRewindTimes s \<and> CurrentOperationCnt t = CurrentOperationCnt s + 1 \<and>
    q = request_at s (CurrentOperationCnt s) \<and>
    (RandomIndex t = RandomIndex s \<or> (CurrentOperationCnt s + 1) mod TRACE_UNIT = 0)) s"
proof -
  let ?Q = "\<lambda>q t. request_in s q \<and> trace_ok t \<and> fetched s t \<and>
    CurrentRewindTimes t = CurrentRewindTimes s \<and> CurrentOperationCnt t = CurrentOperationCnt s + 1 \<and>
    q = request_at s (CurrentOperationCnt s) \<and>
    (RandomIndex t = RandomIndex s \<or> (CurrentOperationCnt s + 1) mod TRACE_UNIT = 0)"
  have "wp (thenM (modM (CurrentOperationCnt_update (\<lambda>n. n + 1)))
      (thenM (bindM (getM CurrentOperationCnt) (\<lambda>n. whenM (n smod TRACE_UNIT = 0) draw_index)) (returnM q))) ?Q t"
    if q: "request_in s q" "q = request_at s (CurrentOperationCnt s)" and t: "marked s t" for q t
  proof -
    define u where "u = CurrentOperationCnt_update (\<lambda>n. n + 1) t"
    have u: "?Q q (u\<lparr>RandomIndex := g, rand_pos := h\<rparr>)" if "0 \<le> g" "g = RandomIndex t \<or> (CurrentOperationCnt s + 1) mod TRACE_UNIT = 0" for g h
    proof -
      have "fetched s (u\<lparr>RandomIndex := g, rand_pos := h\<rparr>)"
        using marked_fetched [OF t] by (simp add: fetched_def u_def unfetch_def unmark_def)
      then show ?thesis
        using q that assms fetched_static fetched_same marked_same [OF t]
        by (fastforce simp: trace_ok_split u_def)
    qed
    have "trace_static u" using fetched_static [of s u] assms(1) marked_fetched [OF t]
      by (simp add: trace_ok_split u_def fetched_def unfetch_def unmark_def)
    then have "wp draw_index (\<lambda>_. ?Q q) u" if "CurrentOperationCnt u smod TRACE_UNIT = 0"
    proof -
      have "0 \<le> CurrentOperationCnt s" using assms(1) by (simp add: trace_ok_def)
      then have "(CurrentOperationCnt s + 1) mod TRACE_UNIT = 0" using that marked_same [OF t] by (simp add: u_def)
      with u show ?thesis
        by (intro wp_mono [OF wp_draw_index]) (use \<open>trace_static u\<close> in \<open>auto simp: trace_static_def\<close>)
    qed
    moreover have "?Q q u"
    proof -
      have e: "u\<lparr>RandomIndex := RandomIndex u, rand_pos := rand_pos u\<rparr> = u" by simp
      have "0 \<le> RandomIndex u" using assms(1) marked_same [OF t] by (simp add: u_def trace_ok_split)
      moreover have "RandomIndex u = RandomIndex t" by (simp add: u_def)
      ultimately show ?thesis using u [of "RandomIndex u" "rand_pos u"] unfolding e by blast
    qed
    ultimately show ?thesis unfolding wp_thenM wp_modM wp_bindM wp_getM wp_whenM wp_returnM u_def by (auto split: if_splits)
  qed
  then show ?thesis unfolding next_operation_def wp_bindM [of "deliver False"]
    by (auto intro: wp_mono [OF wp_deliver [OF assms(1)]])
qed

text \<open>The place of the next request within its round; behind the last operation a new round begins.\<close>

definition place :: "'a trace_scheme \<Rightarrow> int" where
  "place s = (if CurrentOperationCnt s < OperationCnt s then CurrentOperationCnt s else 0)"

lemma wp_GetOneOperation_at:
  assumes "trace_ok s"
  shows "wp (GetOneOperation file fresh False) (\<lambda>r t. trace_ok t \<and> fetched s t \<and>
    (case r of None \<Rightarrow> pending s = 0 \<and> t = s
     | Some q \<Rightarrow> request_in s q \<and> 0 < pending s \<and> pending t = pending s - 1 \<and> q = request_at s (place s) \<and>
         CurrentOperationCnt t = place s + 1 \<and> (RandomIndex t = RandomIndex s \<or> (place s + 1) mod TRACE_UNIT = 0))) s"
    (is "wp _ ?Q s")
proof -
  have refl: "fetched s s" by (simp add: fetched_def)
  have nxt: "wp (bindM (next_operation False) (\<lambda>r. returnM (Some r))) ?Q t"
    if t: "trace_ok t" "CurrentOperationCnt t < OperationCnt t" "fetched s t" "pending t = pending s"
      "MaxCluster t = MaxCluster s" "CurrentOperationCnt t = place s" "RandomIndex t = RandomIndex s"
      "request_at t (place s) = request_at s (place s)" for t
  proof -
    have "0 < pending t" using t(1,2) by (auto simp: pending_def trace_ok_def intro!: add_nonneg_pos)
    moreover have "pending u = pending t - 1" if "fetched t u" "CurrentRewindTimes u = CurrentRewindTimes t"
        "CurrentOperationCnt u = CurrentOperationCnt t + 1" for u
      using that fetched_same [OF that(1)] by (simp add: pending_def)
    ultimately show ?thesis unfolding wp_bindM wp_returnM
      using t fetched_trans by (intro wp_mono [OF wp_next_operation [OF t(1,2)]]) (auto simp: request_in_def)
  qed
  have first: "wp (bindM (next_operation False) (\<lambda>r. returnM (Some r))) ?Q s" if "CurrentOperationCnt s < OperationCnt s"
    by (rule nxt [OF assms that refl]) (use that in \<open>simp_all add: place_def\<close>)
  have again: "wp rewind_trace (\<lambda>_. wp (bindM (next_operation False) (\<lambda>r. returnM (Some r))) ?Q) s"
    if c: "OperationCnt s \<le> CurrentOperationCnt s" "CurrentRewindTimes s < InputFileRewindTimes s"
  proof -
    have "wp (bindM (next_operation False) (\<lambda>r. returnM (Some r))) ?Q
        (CurrentRewindTimes_update (\<lambda>n. n + 1) (s\<lparr>CurrentOperationCnt := 0\<rparr>))"
      by (rule nxt) (use c assms in \<open>auto simp: trace_ok_def op_ok_def fetched_def unfetch_def unmark_def
        pending_def place_def request_at_def algebra_simps\<close>)
    then show ?thesis by (simp add: rewind_trace_def wp)
  qed
  have "pending s = 0" if "OperationCnt s \<le> CurrentOperationCnt s" "\<not> CurrentRewindTimes s < InputFileRewindTimes s"
    using that assms by (auto simp: pending_def trace_ok_def)
  then show ?thesis
    using assms again first refl
    by (auto simp: GetOneOperation_def wp_thenM wp_bindM [of "getM _"] wp_getM wp_whenM wp_returnM trace_ok_def)
qed

lemma wp_GetOneOperation:
  assumes "trace_ok s"
  shows "wp (GetOneOperation file fresh False) (\<lambda>r t. trace_ok t \<and> fetched s t \<and>
    (case r of None \<Rightarrow> pending s = 0 \<and> t = s
     | Some q \<Rightarrow> request_in s q \<and> 0 < pending s \<and> pending t = pending s - 1)) s"
  by (rule wp_mono [OF wp_GetOneOperation_at [OF assms]]) (auto split: option.splits)

section \<open>Serving the requests\<close>

lemma wp_each_request:
  assumes "trace_ok s" "pending s < int fuel" "I (pending s) s"
    and fetch: "\<And>n t u. I n t \<Longrightarrow> fetched t u \<Longrightarrow> I n u"
    and body: "\<And>n q t. trace_ok t \<Longrightarrow> request_in t q \<Longrightarrow> 0 < n \<Longrightarrow> I n t \<Longrightarrow>
      wp (body q) (\<lambda>_ u. trace_ok u \<and> pending u = pending t \<and> I (n - 1) u) t"
  shows "wp (each_request fuel file fresh False body) (\<lambda>_ t. trace_ok t \<and> pending t = 0 \<and> I 0 t) s"
  using assms(1-3)
proof (induction fuel arbitrary: s)
  case 0
  then have "0 \<le> pending s" by (auto simp: pending_def trace_ok_def)
  then show ?case using 0 by simp
next
  case (Suc fuel)
  have "wp (case r of None \<Rightarrow> returnM () | Some q \<Rightarrow> thenM (body q) (each_request fuel file fresh False body))
      (\<lambda>_ t. trace_ok t \<and> pending t = 0 \<and> I 0 t) t"
    if t: "trace_ok t" "fetched s t" and r: "case r of None \<Rightarrow> pending s = 0 \<and> t = s
     | Some q \<Rightarrow> request_in s q \<and> 0 < pending s \<and> pending t = pending s - 1" for r t
  proof (cases r)
    case None
    then show ?thesis using r t Suc.prems by (simp add: wp)
  next
    case (Some q)
    have i: "I (pending s) t" "request_in t q" using fetch Suc.prems t r Some
      by (auto simp: fetched_same request_in_def)
    have "wp (each_request fuel file fresh False body) (\<lambda>_ t. trace_ok t \<and> pending t = 0 \<and> I 0 t) u"
      if "trace_ok u \<and> pending u = pending t \<and> I (pending s - 1) u" for u
      using that r Some Suc.prems by (intro Suc.IH) auto
    then show ?thesis
      using Some r by (auto simp: wp intro: wp_mono [OF body [OF t(1) i(2) _ i(1)]])
  qed
  then show ?case unfolding each_request.simps wp_bindM
    by (auto intro: wp_mono [OF wp_GetOneOperation [OF Suc.prems(1)]])
qed

section \<open>Which operations are served\<close>

text \<open>The variables of the trace reader, which the handler of a request leaves alone.\<close>

definition reader :: "'a trace_scheme \<Rightarrow> OperationRange_t list \<times> int \<times> int \<times> int \<times> int \<times> int" where
  "reader s = (TraceOperation s, PageToLBARatio s, CurrentOperationCnt s, CurrentRewindTimes s, InputFileRewindTimes s, RandomIndex s)"

text \<open>The random start of the trace at each request: it is 0 at first and changes only behind every
  \<open>TRACE_UNIT\<close> requests of a round.\<close>

definition starts :: "nat \<Rightarrow> (nat \<Rightarrow> nat) \<Rightarrow> bool" where
  "starts n R \<longleftrightarrow> R 0 = 0 \<and> (\<forall>j. R (Suc j) = R j \<or> Suc (j mod n) mod 372 = 0)"

definition served_from :: "(nat \<Rightarrow> nat) \<Rightarrow> int \<Rightarrow> OperationRange_t list \<Rightarrow> OneRequest_t list \<Rightarrow> bool" where
  "served_from R ratio ops qs \<longleftrightarrow> starts (length ops) R \<and>
     (\<forall>j < length qs. qs ! j = request_of ratio (ops ! ((R j + j) mod length ops)))"

text \<open>The state in front of the next request, when the requests \<open>qs\<close> were served.\<close>

definition progress :: "OperationRange_t list \<Rightarrow> int \<Rightarrow> OneRequest_t list \<Rightarrow> 'a trace_scheme \<Rightarrow> bool" where
  "progress ops ratio qs t \<longleftrightarrow> TraceOperation t = ops \<and> PageToLBARatio t = ratio \<and> place t = int (length qs mod length ops) \<and>
     (\<exists>R. served_from R ratio ops qs \<and> R (length qs) = nat (RandomIndex t))"

lemma reader_same:
  assumes "reader u = reader t" "trace_ok t" "trace_ok u"
  shows "pending u = pending t" "progress ops ratio qs u = progress ops ratio qs t"
proof -
  have "OperationCnt u = OperationCnt t" using assms by (simp add: reader_def trace_ok_def)
  then show "pending u = pending t" "progress ops ratio qs u = progress ops ratio qs t"
    using assms(1) by (simp_all add: reader_def pending_def progress_def place_def)
qed

lemma progress_step:
  assumes ok: "trace_ok s" "trace_ok t" "fetched s t" and p: "progress ops ratio qs s"
    and q: "q = request_at s (place s)" "CurrentOperationCnt t = place s + 1"
      "RandomIndex t = RandomIndex s \<or> (place s + 1) mod TRACE_UNIT = 0"
  shows "progress ops ratio (qs @ [q]) t"
proof -
  obtain R where R: "served_from R ratio ops qs" "R (length qs) = nat (RandomIndex s)" using p by (auto simp: progress_def)
  let ?n = "length ops" and ?m = "length qs" and ?r = "nat (RandomIndex t)"
  have s: "TraceOperation s = ops" "PageToLBARatio s = ratio" "place s = int (?m mod ?n)" "OperationCnt s = int ?n" "0 < ?n"
      "0 \<le> RandomIndex s" "0 \<le> RandomIndex t"
    using ok(1,2) p by (auto simp: progress_def trace_ok_def)
  have t: "TraceOperation t = ops" "PageToLBARatio t = ratio" "OperationCnt t = int ?n"
    using ok(3) s(1,2,4) fetched_cong [OF ok(3), of TraceOperation] fetched_cong [OF ok(3), of PageToLBARatio] fetched_same(1) [OF ok(3)]
    by (simp_all add: unfetch_def unmark_def)
  define R' where "R' i = (if i \<le> ?m then R i else ?r)" for i
  have "R' (Suc j) = R' j \<or> Suc (j mod ?n) mod 372 = 0" for j
  proof (cases "j = ?m")
    case True
    have "int (Suc (?m mod ?n) mod 372) = (place s + 1) mod TRACE_UNIT" by (simp add: s(3) zmod_int add.commute)
    then show ?thesis using True q(3) R(2) by (auto simp: R'_def)
  next
    case False
    then show ?thesis using R(1) by (auto simp: R'_def served_from_def starts_def)
  qed
  then have st: "starts ?n R'" using R(1) by (auto simp: starts_def served_from_def R'_def)
  have i: "(RandomIndex s + place s) mod OperationCnt s = int ((R ?m + ?m) mod ?n)"
    using s(6) by (simp add: s(3,4) R(2) zmod_int mod_add_right_eq)
  have "q = request_of ratio (ops ! ((R ?m + ?m) mod ?n))"
    unfolding q(1) request_at_def i s(1,2) using s(5) by (simp add: at_def)
  then have "served_from R' ratio ops (qs @ [q])"
    using R(1) st by (auto simp: served_from_def R'_def nth_append less_Suc_eq)
  moreover have "R' (length (qs @ [q])) = ?r" by (simp add: R'_def)
  moreover have "place t = int (length (qs @ [q]) mod ?n)"
  proof -
    have "?m mod ?n < ?n" using s(5) by simp
    then show ?thesis using q(2) s(3) t(3) by (auto simp: place_def mod_Suc)
  qed
  ultimately show ?thesis using t by (auto simp: progress_def)
qed

lemma wp_each_request_served:
  assumes "trace_ok s" "pending s < int fuel" "progress ops ratio qs s" "I qs s"
    and fetch: "\<And>qs t u. I qs t \<Longrightarrow> fetched t u \<Longrightarrow> I qs u"
    and body: "\<And>qs q t. trace_ok t \<Longrightarrow> request_in t q \<Longrightarrow> I qs t \<Longrightarrow>
      wp (body q) (\<lambda>_ u. trace_ok u \<and> reader u = reader t \<and> I (qs @ [q]) u) t"
  shows "wp (each_request fuel file fresh False body) (\<lambda>_ t. trace_ok t \<and> pending t = 0 \<and>
    (\<exists>rs. int (length rs) = pending s \<and> progress ops ratio (qs @ rs) t \<and> I (qs @ rs) t)) s"
  using assms(1-4)
proof (induction fuel arbitrary: s qs)
  case 0
  then have "0 \<le> pending s" by (auto simp: pending_def trace_ok_def)
  then show ?case using 0 by simp
next
  case (Suc fuel)
  let ?Q = "\<lambda>_ t. trace_ok t \<and> pending t = 0 \<and> (\<exists>rs. int (length rs) = pending s \<and> progress ops ratio (qs @ rs) t \<and> I (qs @ rs) t)"
  have "wp (case r of None \<Rightarrow> returnM () | Some q \<Rightarrow> thenM (body q) (each_request fuel file fresh False body)) ?Q t"
    if t: "trace_ok t" "fetched s t" and r: "case r of None \<Rightarrow> pending s = 0 \<and> t = s
     | Some q \<Rightarrow> request_in s q \<and> 0 < pending s \<and> pending t = pending s - 1 \<and> q = request_at s (place s) \<and>
         CurrentOperationCnt t = place s + 1 \<and> (RandomIndex t = RandomIndex s \<or> (place s + 1) mod TRACE_UNIT = 0)" for r t
  proof (cases r)
    case None
    then show ?thesis using r t Suc.prems by (auto simp: wp intro!: exI [of _ "[]"])
  next
    case (Some q)
    have i: "I qs t" "request_in t q" using fetch Suc.prems t r Some by (auto simp: fetched_same request_in_def)
    have p: "progress ops ratio (qs @ [q]) t"
      by (rule progress_step [OF Suc.prems(1) t Suc.prems(3)]) (use r Some in auto)
    have "wp (each_request fuel file fresh False body) ?Q u"
      if u: "trace_ok u" "reader u = reader t" "I (qs @ [q]) u" for u
    proof -
      have e: "pending u = pending s - 1" "progress ops ratio (qs @ [q]) u" using reader_same [OF u(2) t(1) u(1)] r Some p by auto
      have "pending u < int fuel" using e(1) Suc.prems(2) by simp
      from Suc.IH [OF u(1) this e(2) u(3)] show ?thesis
      proof (rule wp_mono, elim conjE exE)
        fix x v rs
        assume "trace_ok v" "pending v = 0" "int (length rs) = pending u" "progress ops ratio ((qs @ [q]) @ rs) v" "I ((qs @ [q]) @ rs) v"
        then show "?Q x v" using e(1) by (intro conjI exI [of _ "q # rs"]) auto
      qed
    qed
    then show ?thesis
      using Some by (auto simp: wp intro: wp_mono [OF body [OF t(1) i(2) i(1)]])
  qed
  then show ?case unfolding each_request.simps wp_bindM
    by (auto intro: wp_mono [OF wp_GetOneOperation_at [OF Suc.prems(1)]])
qed

text \<open>A trace of less than \<open>TRACE_UNIT\<close> operations is served in its own order, round by round.\<close>

lemma served_rounds:
  assumes "served_from R ratio ops qs" "length qs = length ops * k" "length ops < 372"
  shows "qs = concat (replicate k (map (request_of ratio) ops))"
proof (rule nth_equalityI)
  have c: "length (concat (replicate i (xs :: 'x list))) = length xs * i" for i xs by (induction i) simp_all
  show "length qs = length (concat (replicate k (map (request_of ratio) ops)))" by (simp add: assms(2) c)
  have R: "R j = 0" if "0 < length ops" for j
  proof (induction j)
    case (Suc j)
    have "Suc (j mod length ops) \<le> length ops" using that by (simp add: Suc_leI)
    then have "Suc (j mod length ops) mod 372 \<noteq> 0" using assms(3) by simp
    moreover have "R (Suc j) = R j \<or> Suc (j mod length ops) mod 372 = 0" using assms(1) by (simp add: served_from_def starts_def)
    ultimately show ?case using Suc by auto
  qed (use assms(1) in \<open>simp add: served_from_def starts_def\<close>)
  have n: "concat (replicate k xs) ! j = xs ! (j mod length xs)" if "j < length xs * k" for j and xs :: "'x list"
    using that
  proof (induction k arbitrary: j)
    case (Suc k)
    then show ?case by (cases "j < length xs") (simp_all add: nth_append le_mod_geq)
  qed simp
  fix j assume j: "j < length qs"
  then have "0 < length ops" using assms(2) by (cases ops) auto
  then show "qs ! j = concat (replicate k (map (request_of ratio) ops)) ! j"
    using assms(1,2) j R n [of j "map (request_of ratio) ops"] by (simp add: served_from_def)
qed

section \<open>From the file to the last request\<close>

text \<open>The state without the variables of the trace reader.\<close>

definition untrace :: "'a trace_scheme \<Rightarrow> 'a trace_scheme" where
  "untrace s = (unfetch s)\<lparr>IsParseTraceFile := False, TraceOperation := [], OperationCnt := 0\<rparr>"

lemma fetched_untrace: "fetched s t \<Longrightarrow> untrace t = untrace s"
  by (simp add: fetched_def untrace_def)

text \<open>
  The state before the first request, for a device whose clusters cover its sectors, and a trace
  whose operations \<open>ops\<close> have a first sector on the device.
\<close>

definition trace_start :: "OperationRange_t list \<Rightarrow> 'a trace_scheme \<Rightarrow> bool" where
  "trace_start ops s \<longleftrightarrow>
     \<not> IsParseTraceFile s \<and> \<not> IsDoSimulationUntilFirstBlockWornOut s \<and>
     OperationCnt s = 0 \<and> CurrentOperationCnt s = 0 \<and> RandomIndex s = 0 \<and>
     CurrentRewindTimes s = 0 \<and> 0 \<le> InputFileRewindTimes s \<and>
     (\<forall>i. 0 \<le> rand_seq s i \<and> rand_seq s i \<le> RAND_MAX) \<and>
     0 < PageToLBARatio s \<and> MaxLBA s \<le> MaxCluster s * PageToLBARatio s \<and>
     MaxCluster s \<le> int (length (AccessedLogicalPageMap s)) \<and> MaxCluster s \<le> MaxPage s * MaxBlock s \<and>
     ops \<noteq> [] \<and> int (length ops) \<le> 2 ^ 27 \<and> (\<forall>x \<in> set ops. op_ok s x)"

lemma each_request_parsed:
  assumes "trace_start ops s"
    and parse: "parse_trace file fresh s = Inr ((), s\<lparr>
      TotalAccessedLogicalPageMap := replicate (nat (MaxPage s * MaxBlock s)) False,
      IsParseTraceFile := True, TraceOperation := ops, OperationCnt := int (length ops),
      CurrentOperationCnt := 0\<rparr>)"
  shows "each_request fuel file fresh False body s = each_request fuel file fresh False body (s\<lparr>
      TotalAccessedLogicalPageMap := replicate (nat (MaxPage s * MaxBlock s)) False,
      IsParseTraceFile := True, TraceOperation := ops, OperationCnt := int (length ops),
      CurrentOperationCnt := 0\<rparr>)" (is "_ = each_request fuel file fresh False body ?t")
proof -
  have "GetOneOperation file fresh False s = GetOneOperation file fresh False ?t"
    using assms(1) parse
    by (simp add: GetOneOperation_def thenM_def bindM_def getM_def whenM_def returnM_def trace_start_def)
  then show ?thesis by (cases fuel) (simp_all add: bindM_def failM_def)
qed

lemma wp_each_request_file:
  assumes "trace_start ops s"
    and parse: "parse_trace file fresh s = Inr ((), s\<lparr>
      TotalAccessedLogicalPageMap := replicate (nat (MaxPage s * MaxBlock s)) False,
      IsParseTraceFile := True, TraceOperation := ops, OperationCnt := int (length ops),
      CurrentOperationCnt := 0\<rparr>)"
    and n: "n = int (length ops) * (InputFileRewindTimes s + 1)" "n < int fuel"
    and "I n s"
    and frame: "\<And>n t u. I n t \<Longrightarrow> untrace u = untrace t \<Longrightarrow> I n u"
    and body: "\<And>n q t. trace_ok t \<Longrightarrow> request_in t q \<Longrightarrow> 0 < n \<Longrightarrow> I n t \<Longrightarrow>
      wp (body q) (\<lambda>_ u. trace_ok u \<and> pending u = pending t \<and> I (n - 1) u) t"
  shows "wp (each_request fuel file fresh False body) (\<lambda>_ t. trace_ok t \<and> pending t = 0 \<and> I 0 t) s"
proof -
  define t where "t = s\<lparr>
      TotalAccessedLogicalPageMap := replicate (nat (MaxPage s * MaxBlock s)) False,
      IsParseTraceFile := True, TraceOperation := ops, OperationCnt := int (length ops),
      CurrentOperationCnt := 0\<rparr>"
  have ok: "trace_ok t" "pending t = n"
    using assms(1) n by (auto simp: trace_ok_def trace_start_def t_def op_ok_def pending_def algebra_simps)
  have "I n t" by (rule frame [OF \<open>I n s\<close>]) (simp add: t_def untrace_def unfetch_def unmark_def)
  then have "wp (each_request fuel file fresh False body) (\<lambda>_ t. trace_ok t \<and> pending t = 0 \<and> I 0 t) t"
    using ok n(2) frame fetched_untrace body by (intro wp_each_request) blast+
  moreover have "each_request fuel file fresh False body s = each_request fuel file fresh False body t"
    unfolding t_def by (rule each_request_parsed [OF assms(1) parse])
  ultimately show ?thesis by (simp add: wp_def)
qed

lemma wp_each_request_ops:
  assumes "trace_start ops s"
    and parse: "parse_trace file fresh s = Inr ((), s\<lparr>
      TotalAccessedLogicalPageMap := replicate (nat (MaxPage s * MaxBlock s)) False,
      IsParseTraceFile := True, TraceOperation := ops, OperationCnt := int (length ops),
      CurrentOperationCnt := 0\<rparr>)"
    and "int (length ops) * (InputFileRewindTimes s + 1) < int fuel" "I [] s"
    and frame: "\<And>qs t u. I qs t \<Longrightarrow> untrace u = untrace t \<Longrightarrow> I qs u"
    and body: "\<And>qs q t. trace_ok t \<Longrightarrow> request_in t q \<Longrightarrow> I qs t \<Longrightarrow>
      wp (body q) (\<lambda>_ u. trace_ok u \<and> reader u = reader t \<and> I (qs @ [q]) u) t"
  shows "wp (each_request fuel file fresh False body) (\<lambda>_ t. trace_ok t \<and> pending t = 0 \<and> (\<exists>qs.
    int (length qs) = int (length ops) * (InputFileRewindTimes s + 1) \<and> progress ops (PageToLBARatio s) qs t \<and> I qs t)) s"
proof -
  define t where "t = s\<lparr>
      TotalAccessedLogicalPageMap := replicate (nat (MaxPage s * MaxBlock s)) False,
      IsParseTraceFile := True, TraceOperation := ops, OperationCnt := int (length ops),
      CurrentOperationCnt := 0\<rparr>"
  have ok: "trace_ok t" "pending t = int (length ops) * (InputFileRewindTimes s + 1)"
    using assms(1) by (auto simp: trace_ok_def trace_start_def t_def op_ok_def pending_def algebra_simps)
  have "served_from (\<lambda>_. 0) (PageToLBARatio s) ops []" by (simp add: served_from_def starts_def)
  then have p: "progress ops (PageToLBARatio s) [] t"
    using assms(1) by (auto simp: progress_def t_def place_def trace_start_def)
  have "I [] t" by (rule frame [OF \<open>I [] s\<close>]) (simp add: t_def untrace_def unfetch_def unmark_def)
  have "wp (each_request fuel file fresh False body) (\<lambda>_ t'. trace_ok t' \<and> pending t' = 0 \<and> (\<exists>rs.
      int (length rs) = pending t \<and> progress ops (PageToLBARatio s) ([] @ rs) t' \<and> I ([] @ rs) t')) t"
    by (rule wp_each_request_served [where I = I, OF ok(1) _ p \<open>I [] t\<close>]) 
      (use ok(2) assms(3) in simp, rule frame, assumption, erule fetched_untrace, erule body)
  moreover have "each_request fuel file fresh False body s = each_request fuel file fresh False body t"
    unfolding t_def by (rule each_request_parsed [OF assms(1) parse])
  ultimately show ?thesis using ok(2) by (simp add: wp_def)
qed

section \<open>Properties\<close>

text \<open>C15. A call of \<open>GetOneOperation\<close> on a parsed trace delivers a request that lies on the device,
  as long as one is pending, and False when the trace was read as often as asked for; it changes
  only the marks of accessed pages, its place in the trace and the random numbers.
\<close>

theorem GetOneOperation_delivers:
  assumes "trace_ok s"
  shows "\<exists>r t. GetOneOperation file fresh False s = Inr (r, t) \<and> trace_ok t \<and> fetched s t \<and>
    (case r of None \<Rightarrow> pending s = 0 \<and> t = s
     | Some q \<Rightarrow> request_in s q \<and> 0 < pending s \<and> pending t = pending s - 1)"
  using wp_GetOneOperation [OF assms, of "file" fresh] by (simp add: wp_result)

text \<open>C15 applies to the small device with one operation that was read once.\<close>

theorem GetOneOperation_delivers_witness:
  "\<exists>q t. GetOneOperation [] \<lparr>AccessType = ReadType, StartLBA = 0, EndLBA = 0\<rparr> False
      (small_trace\<lparr>IsParseTraceFile := True, TotalAccessedLogicalPageMap := replicate 6 False,
        TraceOperation := [\<lparr>AccessType = WriteType, StartLBA = 0, EndLBA = 7\<rparr>], OperationCnt := 1,
        CurrentOperationCnt := 1\<rparr>) = Inr (Some q, t) \<and> pending t = 0"
proof -
  let ?s = "small_trace\<lparr>IsParseTraceFile := True, TotalAccessedLogicalPageMap := replicate 6 False,
        TraceOperation := [\<lparr>AccessType = WriteType, StartLBA = 0, EndLBA = 7\<rparr>], OperationCnt := 1,
        CurrentOperationCnt := 1\<rparr>"
  have "trace_ok ?s" by (simp add: trace_ok_def small_trace_def op_ok_def RAND_MAX_def)
  moreover have "pending ?s = 1" by (simp add: pending_def small_trace_def)
  ultimately show ?thesis
    using GetOneOperation_delivers [of ?s "[]" "\<lparr>AccessType = ReadType, StartLBA = 0, EndLBA = 0\<rparr>"]
    by (fastforce split: option.splits)
qed

text \<open>C13. The loop of a simulation serves a trace file completely, request by request: the operations \<open>ops\<close> of
  the lines \<open>ls\<close> (the last one twice, because the text ends with a line break) are read
  \<open>InputFileRewindTimes + 1\<close> times, and the loop ends.  The \<open>j\<close>-th request is the operation at the place
  \<open>R j + j\<close>, cyclically, where the start \<open>R\<close> is 0 at first and is redrawn only behind every 372 requests of a
  round; a trace of less than 372 operations is served in its own order in every round.  \<open>I qs\<close> is
  any assertion about the requests served so far that the handler keeps.
\<close>

theorem each_request_serves_file:
  assumes "ls \<noteq> []" "\<forall>l \<in> set ls. good_line l"
    and "ops = operations (EvaluatedAccessType s) (MaxLBA s) (ls @ [last ls])" "trace_start ops s"
    and "int (length ops) * (InputFileRewindTimes s + 1) < int fuel" "I [] s"
    and "\<And>qs t u. I qs t \<Longrightarrow> untrace u = untrace t \<Longrightarrow> I qs u"
    and "\<And>qs q t. trace_ok t \<Longrightarrow> request_in t q \<Longrightarrow> I qs t \<Longrightarrow>
      wp (body q) (\<lambda>_ u. trace_ok u \<and> reader u = reader t \<and> I (qs @ [q]) u) t"
  shows "\<exists>t qs R. each_request fuel (trace_text ls) fresh False body s = Inr ((), t) \<and> pending t = 0 \<and> I qs t \<and>
    length qs = length ops * nat (InputFileRewindTimes s + 1) \<and> starts (length ops) R \<and>
    (\<forall>j < length qs. qs ! j = request_of (PageToLBARatio s) (ops ! ((R j + j) mod length ops))) \<and>
    (length ops < 372 \<longrightarrow>
      qs = concat (replicate (nat (InputFileRewindTimes s + 1)) (map (request_of (PageToLBARatio s)) ops)))"
proof -
  have parse: "parse_trace (trace_text ls) fresh s = Inr ((), s\<lparr>
      TotalAccessedLogicalPageMap := replicate (nat (MaxPage s * MaxBlock s)) False,
      IsParseTraceFile := True, TraceOperation := ops, OperationCnt := int (length ops),
      CurrentOperationCnt := 0\<rparr>)"
    by (rule parse_newline) (use assms in \<open>auto simp: trace_start_def\<close>)
  obtain t qs where t: "each_request fuel (trace_text ls) fresh False body s = Inr ((), t)" "pending t = 0" "I qs t"
      "int (length qs) = int (length ops) * (InputFileRewindTimes s + 1)" "progress ops (PageToLBARatio s) qs t"
    using wp_each_request_ops [OF assms(4) parse assms(5), of I body] assms(6-8) by (auto simp: wp_result)
  have l: "length qs = length ops * nat (InputFileRewindTimes s + 1)"
  proof -
    have "0 \<le> InputFileRewindTimes s + 1" using assms(4) by (simp add: trace_start_def)
    then have "int (length qs) = int (length ops * nat (InputFileRewindTimes s + 1))" using t(4) by simp
    then show ?thesis by (simp only: of_nat_eq_iff)
  qed
  obtain R where R: "served_from R (PageToLBARatio s) ops qs" using t(5) by (auto simp: progress_def)
  have "\<forall>j < length qs. qs ! j = request_of (PageToLBARatio s) (ops ! ((R j + j) mod length ops))" "starts (length ops) R"
    using R unfolding served_from_def by blast+
  then show ?thesis using t(1-3) l served_rounds [OF R l]
    by (intro exI [of _ t] exI [of _ qs] exI [of _ R] conjI impI) assumption+
qed

text \<open>C13 applies to a handler that writes the first cluster of each request down in a counter, behind
  the digits that are there: two lines, the second of them read twice, in two rounds.\<close>

theorem each_request_serves_file_witness:
  "\<exists>t. each_request 7 ''W 0 4\<newline>W 4 4\<newline>'' \<lparr>AccessType = ReadType, StartLBA = 0, EndLBA = 0\<rparr> False
      (\<lambda>q. stat (TotalWriteRequestCount_update (\<lambda>n. 10 * n + StartCluster q + 1))) small_trace = Inr ((), t) \<and>
    TotalWriteRequestCount (AccessStatistics t) = 122122"
proof -
  let ?ls = "[(''W'', 0, 4), (''W'', 4, 4)]"
  let ?ops = "[\<lparr>AccessType = WriteType, StartLBA = 0, EndLBA = 3\<rparr>, \<lparr>AccessType = WriteType, StartLBA = 4, EndLBA = 7\<rparr>,
    \<lparr>AccessType = WriteType, StartLBA = 4, EndLBA = 7\<rparr>]"
  let ?I = "\<lambda>qs t. TotalWriteRequestCount (AccessStatistics (untrace t)) = foldl (\<lambda>n q. 10 * n + StartCluster q + 1) 0 qs"
  let ?body = "\<lambda>q. stat (TotalWriteRequestCount_update (\<lambda>n. 10 * n + StartCluster q + 1))"
  let ?fresh = "\<lparr>AccessType = ReadType, StartLBA = 0, EndLBA = 0\<rparr>"
  have same: "AccessStatistics (untrace u) = AccessStatistics u" for u :: trace
    by (simp add: untrace_def unfetch_def unmark_def)
  have text_eq: "trace_text ?ls = ''W 0 4\<newline>W 4 4\<newline>''"
    by (simp add: trace_text_def show_int_def show_nat.simps newline_def char_of_def bit_simps)
  have ops: "?ops = operations (EvaluatedAccessType small_trace) (MaxLBA small_trace) (?ls @ [last ?ls])"
    by (simp add: small_trace_def operations_Cons access_of_def)
  have start: "trace_start ?ops small_trace" by (simp add: trace_start_def small_trace_def op_ok_def RAND_MAX_def)
  have body: "wp (?body q) (\<lambda>_ u. trace_ok u \<and> reader u = reader t \<and> ?I (qs @ [q]) u) t" if "trace_ok t" "?I qs t" for qs q and t :: trace
    using that by (auto simp: stat_def wp same trace_ok_def op_ok_def reader_def)
  have n: "nat (InputFileRewindTimes small_trace + 1) = 2" "PageToLBARatio small_trace = 4" by (simp_all add: small_trace_def)
  obtain t qs where t: "each_request 7 (trace_text ?ls) ?fresh False ?body small_trace = Inr ((), t)" "?I qs t"
      "qs = concat (replicate (nat (InputFileRewindTimes small_trace + 1)) (map (request_of (PageToLBARatio small_trace)) ?ops))"
  proof -
    have "\<exists>t qs R. each_request 7 (trace_text ?ls) ?fresh False ?body small_trace = Inr ((), t) \<and> pending t = 0 \<and> ?I qs t \<and>
      length qs = length ?ops * nat (InputFileRewindTimes small_trace + 1) \<and> starts (length ?ops) R \<and>
      (\<forall>j < length qs. qs ! j = request_of (PageToLBARatio small_trace) (?ops ! ((R j + j) mod length ?ops))) \<and>
      (length ?ops < 372 \<longrightarrow>
        qs = concat (replicate (nat (InputFileRewindTimes small_trace + 1)) (map (request_of (PageToLBARatio small_trace)) ?ops)))"
    proof (rule each_request_serves_file [OF _ _ ops start])
      show "?I [] small_trace" unfolding same by (simp add: small_trace_def zero_statistics_def)
    qed (use body in \<open>auto simp: isspace_def int32_def INT_MAX_def small_trace_def\<close>)
    then show thesis by (auto intro: that)
  qed
  have "TotalWriteRequestCount (AccessStatistics t) = 122122"
    using t(2) unfolding t(3) same n by (simp add: numeral_2_eq_2 request_of_def)
  then show ?thesis using t(1) unfolding text_eq by blast
qed

end
