(* ===== verification/BL_Requests.thy ===== *)
theory BL_Requests
  imports BL_Update Flash_Frame Trace_Requests
begin

text \<open>
  Requests on the block-level layer: what they leave alone, reading a cluster, the write buffer,
  and sequences of requests.  A cluster is accepted when it is stored in the flash memory or held
  by the buffer.
\<close>

section \<open>Frame\<close>

locale bl_frame = list_frame R for R :: "'a bl_scheme \<Rightarrow> 'a bl_scheme \<Rightarrow> bool" +
  assumes up_FlashMemory: "R s (FlashMemory_update fm s)"
    and up_BLTable: "R s (BLTable_update g s)"
    and up_Statistics: "R s (AccessStatistics_update st s)"
    and up_BlockEraseCnt: "R s (BlockEraseCnt_update g s)"
    and up_MaxBlockEraseCnt: "R s (MaxBlockEraseCnt_update h s)"
begin

lemmas bl_updates = list_updates up_FlashMemory up_BLTable up_Statistics up_BlockEraseCnt up_MaxBlockEraseCnt

lemma in_write_time: "within R (write_time f)"
  by (auto simp: write_time_def intro!: in_rules in_stat bl_updates)

lemma in_BLReadOneCluster: "within R (BLReadOneCluster c)"
  by (auto simp: BLReadOneCluster_def read_time_def intro!: in_rules in_stat bl_updates)

lemma in_copy_page: "within R (copy_page old f i)"
  by (auto simp: copy_page_def intro!: in_rules in_stat in_write_time bl_updates)

lemma in_BLUpdateOneBlock: "within R (BLUpdateOneBlock L)"
  by (auto simp: BLUpdateOneBlock_def erase_pages_def count_erase_def
      intro!: in_rules in_loops list_rules in_copy_page in_write_time in_stat bl_updates)

end

locale bl_request_frame = bl_frame R for R :: "'a bl_scheme \<Rightarrow> 'a bl_scheme \<Rightarrow> bool" +
  assumes up_UpdatedClusters: "R s (UpdatedClusters_update g s)"
    and up_CurrentAccessedBlock: "R s (CurrentAccessedBlock_update h s)"
begin

lemma in_flush_if_left: "within R (flush_if_left ty c)"
  by (auto simp: flush_if_left_def clear_buffer_def
      intro!: in_rules in_BLUpdateOneBlock up_UpdatedClusters up_CurrentAccessedBlock)

lemma in_buffer_cluster: "within R (buffer_cluster c)"
  by (auto simp: buffer_cluster_def intro!: in_rules up_UpdatedClusters up_CurrentAccessedBlock)

lemma in_bl_clusters: "within R (bl_clusters ty n c)"
  by (induction n arbitrary: c)
     (auto split: AccessType_t.split
      intro!: in_rules in_flush_if_left in_buffer_cluster in_BLReadOneCluster)

lemma in_bl_request: "within R (bl_request q)"
  by (auto simp: bl_request_def split: AccessType_t.split
      intro!: in_rules in_bl_clusters in_stat bl_updates)

end

text \<open>The state without what writing a block changes, and without the buffer.\<close>

definition bl_rest :: "'a bl_scheme \<Rightarrow> 'a bl_scheme" where
  "bl_rest s = s\<lparr>FlashMemory := [], FreeBlockList := [], FreeBlockListHead := 0, FreeBlockListTail := 0,
     BlocksInFreeBlockList := 0, BlocksInFreeBlockListArray := [], MaxBlockEraseCnt := 0,
     BlockEraseCnt := [], InvalidPageCnt := [], ValidPageCnt := [], FreePageCnt := [],
     InvalidSubPageCnt := [], ValidSubPageCnt := [], FreeSubPageCnt := [],
     AccessStatistics := zero_statistics, BLTable := []\<rparr>"

definition bl_other :: "'a bl_scheme \<Rightarrow> 'a bl_scheme" where
  "bl_other s = (bl_rest s)\<lparr>UpdatedClusters := [], CurrentAccessedBlock := 0\<rparr>"

interpretation rest: bl_frame "\<lambda>s t. bl_rest t = bl_rest s"
  by unfold_locales (simp_all add: bl_rest_def)

interpretation other: bl_request_frame "\<lambda>s t. bl_other t = bl_other s"
  by unfold_locales (simp_all add: bl_other_def bl_rest_def)

lemma rest_cong: "bl_rest t = bl_rest s \<Longrightarrow> (\<And>u. f (bl_rest u) = f u) \<Longrightarrow> f t = f s"
  by metis

lemma other_cong: "bl_other t = bl_other s \<Longrightarrow> (\<And>u. f (bl_other u) = f u) \<Longrightarrow> f t = f s"
  by metis

lemma rest_same:
  assumes "bl_rest t = bl_rest s"
  shows "UpdatedClusters t = UpdatedClusters s" "CurrentAccessedBlock t = CurrentAccessedBlock s"
    "MaxPage t = MaxPage s" "MaxBlock t = MaxBlock s"
    "is_page t = is_page s" "is_block t = is_block s" "buffered t = buffered s" "buf_ok L t = buf_ok L s"
  by (rule rest_cong [OF assms], simp add: bl_rest_def is_page_def is_block_def buffered_def buf_ok_def
      cluster_def fun_eq_iff)+

lemma other_same:
  assumes "bl_other t = bl_other s"
  shows "MaxPage t = MaxPage s" "MaxBlock t = MaxBlock s"
    "MaxCluster t = MaxCluster s" "trace_ok t = trace_ok s" "pending t = pending s"
  by (rule other_cong [OF assms], simp add: bl_other_def bl_rest_def trace_ok_def op_ok_def pending_def)+

section \<open>Reading\<close>

lemma stored_iff:
  assumes "bl_inv xs s" "0 \<le> c" "c div MaxPage s < MaxBlock s"
  shows "c \<in> stored s \<longleftrightarrow> entry s (c div MaxPage s) \<noteq> - 1 \<and>
    mem s (entry s (c div MaxPage s)) (c mod MaxPage s) = c"
proof -
  have mp: "0 < MaxPage s" using assms(1) by (simp add: bl_inv_def shaped_def)
  define L where "L = c div MaxPage s"
  define p where "p = c mod MaxPage s"
  have Lp: "is_block s L" "is_page s p" "c = cluster s L p"
    using assms(2,3) mp by (auto simp: is_block_def is_page_def pos_imp_zdiv_nonneg_iff cluster_def L_def p_def)
  have uniq: "M = L \<and> q = p" if "is_page s q" "c = cluster s M q" for M q
    using that mp by (simp add: cluster_def is_page_def L_def p_def)
  have "c \<in> stored s \<longleftrightarrow> L \<in> mapped_blocks s \<and> mem s (entry s L) p = c"
  proof
    assume "c \<in> stored s"
    then obtain M q where "M \<in> mapped_blocks s" "is_page s q" "c = cluster s M q" "mem s (entry s M) q = c"
      by (auto simp: stored_def)
    then show "L \<in> mapped_blocks s \<and> mem s (entry s L) p = c" using uniq [of q M] by simp
  next
    assume "L \<in> mapped_blocks s \<and> mem s (entry s L) p = c"
    then show "c \<in> stored s" unfolding stored_def using Lp by blast
  qed
  then show ?thesis using Lp(1) by (simp add: mapped_blocks_def flip: L_def p_def)
qed

lemma wp_BLReadOneCluster:
  assumes inv: "bl_inv xs s" and c: "0 \<le> c" "c div MaxPage s < MaxBlock s"
  shows "wp (BLReadOneCluster c) (\<lambda>r t. r = (c \<in> stored s) \<and> (\<exists>g. t = AccessStatistics_update g s)) s"
proof -
  have mp: "0 < MaxPage s" and sh: "shaped s" using inv by (auto simp: bl_inv_def shaped_def)
  define L where "L = c div MaxPage s"
  have L: "is_block s L" "inb (BLTable s) L"
    using c mp inv by (auto simp: L_def is_block_def bl_inv_def inb_def pos_imp_zdiv_nonneg_iff)
  have p: "is_page s (c mod MaxPage s)" using mp by (simp add: is_page_def)
  have i: "inb2 (FlashMemory s) (entry s L) (c mod MaxPage s)" if "entry s L \<noteq> - 1"
    using that inv L by (intro shaped_inb2 [OF sh _ p]) (auto simp: bl_inv_def mapped_blocks_def)
  have id: "\<exists>g. s = AccessStatistics_update g s" by (rule exI [of _ "\<lambda>x. x"]) simp
  show ?thesis
    using mp c L i stored_iff [OF inv c] id
    by (auto simp: BLReadOneCluster_def wp read_time_def stat_def entry_def mem_def simp flip: L_def)
qed

section \<open>The buffer\<close>

definition accepted :: "'a bl_scheme \<Rightarrow> int set" where
  "accepted s = stored s \<union> buffered s"

text \<open>Without a current block the buffer is empty.\<close>

definition buf_state :: "int \<Rightarrow> 'a bl_scheme \<Rightarrow> bool" where
  "buf_state n s \<longleftrightarrow> (if CurrentAccessedBlock s = - 1
     then int (length (UpdatedClusters s)) = MaxPage s \<and> buffered s = {}
     else 0 \<le> CurrentAccessedBlock s \<and> CurrentAccessedBlock s < n \<and> buf_ok (CurrentAccessedBlock s) s)"

definition ready :: "int \<Rightarrow> 'a bl_scheme \<Rightarrow> bool" where
  "ready n s \<longleftrightarrow> (\<exists>xs. bl_inv xs s \<and> room n xs s) \<and> buf_state n s"

lemma fields_same [simp]:
  "bl_inv xs (AccessStatistics_update g s) = bl_inv xs s" "room n xs (AccessStatistics_update g s) = room n xs s"
  "buf_ok L (AccessStatistics_update g s) = buf_ok L s" "buffered (AccessStatistics_update g s) = buffered s"
  "stored (AccessStatistics_update g s) = stored s" "ready n (AccessStatistics_update g s) = ready n s"
  "accepted (AccessStatistics_update g s) = accepted s"
  "bl_inv xs (UpdatedClusters_update f s) = bl_inv xs s" "room n xs (UpdatedClusters_update f s) = room n xs s"
  "stored (UpdatedClusters_update f s) = stored s"
  "bl_inv xs (CurrentAccessedBlock_update h s) = bl_inv xs s" "room n xs (CurrentAccessedBlock_update h s) = room n xs s"
  "buf_ok L (CurrentAccessedBlock_update h s) = buf_ok L s" "buffered (CurrentAccessedBlock_update h s) = buffered s"
  "stored (CurrentAccessedBlock_update h s) = stored s"
  by (simp_all add: bl_inv_def room_def buf_ok_def buffered_def stored_def mapped_blocks_def entry_def cluster_def
      is_block_def is_page_def fbl_def sized_def shaped_def mem_def LeastFreeBlocksInFBL_def accepted_def
      ready_def buf_state_def fun_eq_iff inj_on_def)

lemma buffered_cleared:
  "buffered (s\<lparr>UpdatedClusters := replicate (nat (MaxPage s)) (- 1)\<rparr>) = {}"
  by (auto simp: buffered_def is_page_def)

lemma wp_flush_if_left:
  assumes s: "ready n s" and c: "0 \<le> c" "c < n * MaxPage s"
  shows "wp (flush_if_left ty c) (\<lambda>_ t. ready n t \<and> accepted t = accepted s \<and>
    (CurrentAccessedBlock t = - 1 \<or> ty = WriteType \<and> CurrentAccessedBlock t = c div MaxPage s)) s"
proof -
  obtain xs where xs: "bl_inv xs s" "room n xs s" using s by (auto simp: ready_def)
  have mp: "0 < MaxPage s" using xs by (simp add: bl_inv_def shaped_def)
  define cur where "cur = CurrentAccessedBlock s"
  have flush: "wp (blockM [BLUpdateOneBlock cur, clear_buffer, modM (CurrentAccessedBlock_update (\<lambda>_. - 1))])
      (\<lambda>_ t. ready n t \<and> accepted t = accepted s \<and> CurrentAccessedBlock t = - 1) s" if "cur \<noteq> - 1"
  proof -
    have b: "0 \<le> cur" "cur < n" "buf_ok cur s" using s that by (auto simp: ready_def buf_state_def cur_def)
    let ?Q = "\<lambda>_ t. (\<exists>ys. bl_inv ys t \<and> room n ys t \<and> stored t = stored s \<union> buffered s) \<and> bl_rest t = bl_rest s"
    have upd: "wp (BLUpdateOneBlock cur) ?Q s"
      by (rule wp_within [OF wp_BLUpdateOneBlock [OF xs b] rest.in_BLUpdateOneBlock])
    have rest: "wp (blockM [clear_buffer, modM (CurrentAccessedBlock_update (\<lambda>_. - 1))])
        (\<lambda>_ t. ready n t \<and> accepted t = accepted s \<and> CurrentAccessedBlock t = - 1) t" if "?Q () t" for t
      using that mp rest_same [of t s] buffered_cleared [of t]
      by (auto simp: clear_buffer_def wp ready_def buf_state_def accepted_def)
    show ?thesis unfolding wp_blockM_Cons [of "BLUpdateOneBlock cur"] by (rule wp_mono [OF upd]) (simp add: rest)
  qed
  show ?thesis
    using flush s mp c by (auto simp: flush_if_left_def wp_bindM wp_getM wp_whenM wp_divM cur_def elim: wp_mono)
qed

lemma wp_buffer_cluster:
  assumes s: "ready n s" and c: "0 \<le> c" "c < n * MaxPage s"
    and cur: "CurrentAccessedBlock s = - 1 \<or> CurrentAccessedBlock s = c div MaxPage s"
  shows "wp (buffer_cluster c) (\<lambda>_ t. ready n t \<and> accepted t = insert c (accepted s)) s"
proof -
  obtain xs where xs: "bl_inv xs s" "room n xs s" using s by (auto simp: ready_def)
  have mp: "0 < MaxPage s" using xs by (simp add: bl_inv_def shaped_def)
  define L where "L = c div MaxPage s"
  define i where "i = c mod MaxPage s"
  have i: "is_page s i" "c = cluster s L i" using mp by (auto simp: i_def L_def is_page_def cluster_def)
  have L: "0 \<le> L" "L < n" using c mp by (auto simp: L_def pos_imp_zdiv_nonneg_iff div_less_mult)
  have len: "int (length (UpdatedClusters s)) = MaxPage s"
    using s by (auto simp: ready_def buf_state_def buf_ok_def split: if_splits)
  have inb: "inb (UpdatedClusters s) i" using i len by (simp add: inb_def is_page_def)
  have old: "at (UpdatedClusters s) p = - 1 \<or> at (UpdatedClusters s) p = cluster s L p" if "is_page s p" for p
  proof (cases "CurrentAccessedBlock s = - 1")
    case True
    then have "buffered s = {}" using s by (simp add: ready_def buf_state_def)
    then show ?thesis using that unfolding buffered_def by blast
  next
    case False
    then show ?thesis using s cur that by (auto simp: ready_def buf_state_def buf_ok_def L_def)
  qed
  define t where "t = CurrentAccessedBlock_update (\<lambda>_. L) (UpdatedClusters_update (\<lambda>a. upd a i c) s)"
  have at_t: "at (UpdatedClusters t) p = (if p = i then c else at (UpdatedClusters s) p)" if "is_page s p" for p
    using that inb by (auto simp: t_def at_upd is_page_def)
  have "is_page t = is_page s" "cluster t = cluster s" by (auto simp: t_def is_page_def cluster_def fun_eq_iff)
  then have "buf_ok L t" using old at_t i len by (auto simp: buf_ok_def t_def)
  moreover have "buffered t = insert c (buffered s)"
  proof -
    have "c \<noteq> - 1" using c by simp
    moreover have "at (UpdatedClusters s) i = - 1 \<or> at (UpdatedClusters s) i = c" using old [OF i(1)] i(2) by simp
    ultimately show ?thesis using at_t i(1) \<open>is_page t = is_page s\<close> by (auto simp: buffered_def)
  qed
  ultimately have "ready n t \<and> accepted t = insert c (accepted s)"
    using xs L by (auto simp: ready_def buf_state_def accepted_def t_def)
  then show ?thesis
    using mp c inb by (simp add: buffer_cluster_def wp L_def i_def t_def)
qed

section \<open>Requests\<close>

lemma wp_bl_write:
  fixes s :: "'a bl_scheme"
  assumes "ready n s" "0 \<le> c" "c + int m \<le> n * MaxPage s"
  shows "wp (bl_clusters WriteType m c) (\<lambda>r t. r = c + int m \<and> ready n t \<and>
    accepted t = accepted s \<union> {c..<c + int m}) s"
  using assms
proof (induction m arbitrary: s c)
  case 0
  then show ?case by (simp add: wp)
next
  case (Suc m)
  have c: "c < n * MaxPage s" using Suc.prems by simp
  let ?Q = "\<lambda>t. ready n t \<and> accepted t = accepted s \<and>
    (CurrentAccessedBlock t = - 1 \<or> CurrentAccessedBlock t = c div MaxPage s)"
  have a: "wp (flush_if_left WriteType c) (\<lambda>_ t. ?Q t \<and> bl_other t = bl_other s) s"
    using wp_within [OF wp_flush_if_left [OF Suc.prems(1,2) c] other.in_flush_if_left] by (rule wp_mono) auto
  have b: "wp (buffer_cluster c) (\<lambda>_ t. (ready n t \<and> accepted t = insert c (accepted s)) \<and> MaxPage t = MaxPage s) t"
    if "?Q t" "bl_other t = bl_other s" for t
  proof -
    have mp: "MaxPage t = MaxPage s" using other_same(1) [OF that(2)] .
    have "wp (buffer_cluster c) (\<lambda>_ t. ready n t \<and> accepted t = insert c (accepted s)) t"
      by (rule wp_mono [OF wp_buffer_cluster]) (use that mp c Suc.prems in auto)
    from wp_within [OF this other.in_buffer_cluster] show ?thesis
      by (rule wp_mono) (use mp in \<open>auto dest: other_same(1)\<close>)
  qed
  have d: "wp (bl_clusters WriteType m (c + 1)) (\<lambda>r t. r = c + int (Suc m) \<and> ready n t \<and>
      accepted t = accepted s \<union> {c..<c + int (Suc m)}) t"
    if "(ready n t \<and> accepted t = insert c (accepted s)) \<and> MaxPage t = MaxPage s" for t :: "'a bl_scheme"
  proof -
    have "insert c (accepted s) \<union> {c + 1..<c + 1 + int m} = accepted s \<union> {c..<c + int (Suc m)}" by auto
    then show ?thesis
      by (intro wp_mono [OF Suc.IH [of t "c + 1"]]) (use that Suc.prems in auto)
  qed
  show ?case
    unfolding bl_clusters.simps wp_thenM AccessType_t.case
    by (rule wp_mono [OF a], rule wp_mono [OF b]) (erule conjunct1, erule conjunct2, erule d)
qed

text \<open>A read writes the buffer first; it goes on while the clusters exist.\<close>

lemma wp_bl_read:
  assumes "ready n s" "0 \<le> c" "c + int m \<le> n * MaxPage s" "n \<le> MaxBlock s"
  shows "wp (bl_clusters ReadType m c) (\<lambda>r t. (r = c + int m \<longleftrightarrow> {c..<c + int m} \<subseteq> accepted s) \<and>
    ready n t \<and> accepted t = accepted s) s"
  using assms
proof (induction m arbitrary: s c)
  case 0
  then show ?case by (simp add: wp)
next
  case (Suc m)
  have c: "c < n * MaxPage s" using Suc.prems by simp
  let ?Q = "\<lambda>t. ready n t \<and> accepted t = accepted s \<and> CurrentAccessedBlock t = - 1"
  have a: "wp (flush_if_left ReadType c) (\<lambda>_ t. ?Q t \<and> bl_other t = bl_other s) s"
    using wp_within [OF wp_flush_if_left [OF Suc.prems(1,2) c] other.in_flush_if_left] by (rule wp_mono) auto
  have b: "wp (bindM (BLReadOneCluster c) (\<lambda>found. if found then bl_clusters ReadType m (c + 1) else returnM c))
      (\<lambda>r t. (r = c + int (Suc m) \<longleftrightarrow> {c..<c + int (Suc m)} \<subseteq> accepted s) \<and> ready n t \<and> accepted t = accepted s) t"
    if t: "?Q t \<and> bl_other t = bl_other s" for t
  proof -
    note o = other_same [OF conjunct2 [OF t]]
    obtain xs where xs: "bl_inv xs t" using t by (auto simp: ready_def)
    have mp: "0 < MaxPage t" using xs by (simp add: bl_inv_def shaped_def)
    have d: "c div MaxPage t < MaxBlock t"
      using div_less_mult [of c n "MaxPage t"] c o mp Suc.prems(4) by simp
    have st: "stored t = accepted s" using t by (auto simp: ready_def buf_state_def accepted_def)
    have rd: "wp (BLReadOneCluster c) (\<lambda>r u. r = (c \<in> accepted s) \<and> (\<exists>g. u = AccessStatistics_update g t)) t"
      using wp_BLReadOneCluster [OF xs Suc.prems(2) d] st by simp
    have split: "{c..<c + int (Suc m)} = insert c {c + 1..<c + 1 + int m}" by auto
    have "wp (bl_clusters ReadType m (c + 1)) (\<lambda>r v. (r = c + int (Suc m) \<longleftrightarrow> {c..<c + int (Suc m)} \<subseteq> accepted s) \<and>
        ready n v \<and> accepted v = accepted s) u"
      if "c \<in> accepted s" "u = AccessStatistics_update g t" for u g
    proof -
      have u: "ready n u" "accepted u = accepted s" "MaxPage u = MaxPage s" "MaxBlock u = MaxBlock s"
        using that t o by auto
      have "c + int (Suc m) = c + 1 + int m" by simp
      moreover have "({c..<c + int (Suc m)} \<subseteq> accepted s) = ({c + 1..<c + 1 + int m} \<subseteq> accepted u)"
        unfolding split using that u by simp
      moreover have "wp (bl_clusters ReadType m (c + 1)) (\<lambda>r v. (r = c + 1 + int m \<longleftrightarrow> {c + 1..<c + 1 + int m} \<subseteq> accepted u) \<and>
          ready n v \<and> accepted v = accepted u) u"
        by (rule Suc.IH) (use u Suc.prems in auto)
      ultimately show ?thesis by (simp only: u)
    qed
    moreover have "(c = c + int (Suc m)) = ({c..<c + int (Suc m)} \<subseteq> accepted s)" if "c \<notin> accepted s"
      using that split by auto
    ultimately show ?thesis
      unfolding wp_bindM wp_if wp_returnM
      by (intro wp_mono [OF rd]) (use t in auto)
  qed
  show ?case
    unfolding bl_clusters.simps wp_thenM AccessType_t.case by (rule wp_mono [OF a b])
qed

definition request_clusters :: "OneRequest_t \<Rightarrow> int set" where
  "request_clusters q = {StartCluster q..<StartCluster q + Length q}"

definition written_clusters :: "OneRequest_t \<Rightarrow> int set" where
  "written_clusters q = (if RequestType q = WriteType then request_clusters q else {})"

lemma wp_bl_request:
  assumes "ready n s" "0 \<le> StartCluster q" "0 \<le> Length q" "StartCluster q + Length q \<le> n * MaxPage s"
    "n \<le> MaxBlock s"
  shows "wp (bl_request q) (\<lambda>_ t. ready n t \<and> accepted t = accepted s \<union> written_clusters q \<and>
    bl_other t = bl_other s) s"
proof -
  have len: "int (nat (Length q)) = Length q" using assms(3) by simp
  have "wp (bl_request q) (\<lambda>_ t. ready n t \<and> accepted t = accepted s \<union> written_clusters q) s"
  proof (cases "RequestType q")
    case ReadType
    have "wp (bl_clusters ReadType (nat (Length q)) (StartCluster q)) (\<lambda>r t. ready n t \<and> accepted t = accepted s) s"
      by (rule wp_mono [OF wp_bl_read [OF assms(1,2)]]) (use assms len in auto)
    then show ?thesis using ReadType
      by (auto simp: bl_request_def wp stat_def written_clusters_def elim!: wp_mono)
  next
    case WriteType
    have "wp (bl_clusters WriteType (nat (Length q)) (StartCluster q)) (\<lambda>r t. ready n t \<and>
        accepted t = accepted s \<union> written_clusters q) s"
      by (rule wp_mono [OF wp_bl_write [OF assms(1,2)]])
         (use assms len WriteType in \<open>auto simp: written_clusters_def request_clusters_def\<close>)
    then show ?thesis using WriteType
      by (auto simp: bl_request_def wp stat_def elim!: wp_mono)
  qed
  from wp_within [OF this other.in_bl_request] show ?thesis by (rule wp_mono) auto
qed

lemma wp_flush_last:
  assumes "ready n s"
  shows "wp flush_last (\<lambda>_ t. (\<exists>xs. bl_inv xs t \<and> room n xs t) \<and> stored t = accepted s) s"
proof -
  obtain xs where xs: "bl_inv xs s" "room n xs s" using assms by (auto simp: ready_def)
  show ?thesis
  proof (cases "CurrentAccessedBlock s = - 1")
    case True
    then show ?thesis using xs assms by (auto simp: flush_last_def wp ready_def buf_state_def accepted_def)
  next
    case False
    then have b: "0 \<le> CurrentAccessedBlock s" "CurrentAccessedBlock s < n" "buf_ok (CurrentAccessedBlock s) s"
      using assms by (auto simp: ready_def buf_state_def)
    show ?thesis unfolding flush_last_def wp_bindM wp_getM wp_whenM using False
      by (auto simp: accepted_def intro: wp_mono [OF wp_BLUpdateOneBlock [OF xs b]])
  qed
qed

text \<open>Requests one after the other.\<close>

lemma wp_bl_requests:
  assumes "ready n s" "n \<le> MaxBlock s"
    and "\<forall>q \<in> set qs. 0 \<le> StartCluster q \<and> 0 \<le> Length q \<and> StartCluster q + Length q \<le> n * MaxPage s"
  shows "wp (blockM (map bl_request qs)) (\<lambda>_ t. ready n t \<and>
    accepted t = accepted s \<union> \<Union> (written_clusters ` set qs)) s"
  using assms
proof (induction qs arbitrary: s)
  case Nil
  then show ?case by (simp add: wp)
next
  case (Cons q qs)
  have "wp (bl_request q) (\<lambda>_ t. ready n t \<and> accepted t = accepted s \<union> written_clusters q \<and> bl_other t = bl_other s) s"
    by (rule wp_bl_request) (use Cons.prems in auto)
  moreover have "wp (blockM (map bl_request qs)) (\<lambda>_ t. ready n t \<and>
      accepted t = accepted s \<union> \<Union> (written_clusters ` set (q # qs))) t"
    if "ready n t \<and> accepted t = accepted s \<union> written_clusters q \<and> bl_other t = bl_other s" for t
  proof -
    have "bl_other t = bl_other s" using that by simp
    note o = other_same [OF this]
    show ?thesis by (rule wp_mono [OF Cons.IH]) (use that Cons.prems o in auto)
  qed
  ultimately show ?case by (auto simp: wp_blockM_Cons elim: wp_mono)
qed

end
