(* ===== verification/BL_Properties.thy ===== *)
theory BL_Properties
  imports BL_Requests
begin

text \<open>
  The whole simulation of the block-level layer, and its properties, with a device on which they
  apply.
\<close>

section \<open>Initial data\<close>

lemma float_div_tight:
  assumes "16777216 * d \<le> n" "0 < d"
  shows "float_div n d \<le> n div d + n div d div 8388608"
proof -
  define k where "k = float_exp 64 n d"
  have le: "16777216 * (d * 2 ^ j) \<le> n * 2" if "j = float_exp m n d" "16777216 * d \<le> n" "0 < d" for j m n d
    using that
  proof (induction m n d arbitrary: j rule: float_exp.induct)
    case (2 m n d)
    show ?case
    proof (cases "16777216 * (2 * d) \<le> n")
      case True
      then have "16777216 * (2 * d * 2 ^ float_exp m n (2 * d)) \<le> n * 2"
        using 2 by simp
      then show ?thesis using 2 by simp
    next
      case False
      then have "float_exp m n (2 * d) = 0" by (cases m) auto
      then show ?thesis using 2 by simp
    qed
  qed simp
  have "8388608 * 2 ^ k * d \<le> n" using le [OF k_def assms] by (simp add: ac_simps)
  then have k: "8388608 * 2 ^ k \<le> n div d" using zdiv_mono1 [of "8388608 * 2 ^ k * d" n d] assms by simp
  then have k': "2 ^ k \<le> n div d div 8388608" using zdiv_mono1 [of "8388608 * 2 ^ k" "n div d" 8388608] by simp
  have "round_even n (d * 2 ^ k) * 2 ^ k \<le> (n div d div 2 ^ k + 1) * 2 ^ k"
    using round_even_bounds [of "d * 2 ^ k" n] assms by (simp add: zdiv_zmult2_eq)
  also have "\<dots> \<le> n div d + 2 ^ k"
  proof -
    have "0 \<le> n div d mod 2 ^ k" by simp
    then show ?thesis unfolding distrib_right using div_mult_mod_eq [of "n div d" "2 ^ k"] by linarith
  qed
  finally show ?thesis using k' assms by (simp add: float_div_def Let_def flip: k_def)
qed

lemma wp_BlockMaxRandomValue:
  assumes "0 \<le> p" "p < 100"
  shows "wp (BlockMaxRandomValue p) (\<lambda>_ t. t = s) s"
proof -
  have "int32 (sgn p * float_div (\<bar>p\<bar> * 2147483648) 100)"
  proof (cases "p = 0")
    case False
    then have p: "1 \<le> p" using assms by simp
    let ?q = "p * 2147483648 div 100"
    have q: "?q \<le> 99 * 2147483648 div 100" using assms by (intro zdiv_mono1) auto
    have "float_div (p * 2147483648) 100 \<le> ?q + ?q div 8388608"
      by (rule float_div_tight) (use p in auto)
    moreover have "?q div 8388608 \<le> 99 * 2147483648 div 100 div 8388608" using q by (intro zdiv_mono1) auto
    ultimately have "float_div (p * 2147483648) 100 \<le> 2147483647" using q by simp
    moreover have "0 \<le> float_div (p * 2147483648) 100" by (rule float_div_bounds(1)) (use p in auto)
    ultimately show ?thesis using p by (simp add: int32_def INT_MAX_def)
  qed (simp add: int32_def INT_MAX_def)
  then show ?thesis by (simp add: BlockMaxRandomValue_def wp)
qed

text \<open>What the initialisation leaves alone.\<close>

definition bl_initial :: "'a bl_scheme \<Rightarrow> 'a bl_scheme" where
  "bl_initial s = (bl_other s)\<lparr>AccessedLogicalPages := 0,
     AccessedLogicalPageMap := map (\<lambda>_. False) (AccessedLogicalPageMap s), rand_pos := 0\<rparr>"

interpretation start: bl_request_frame "\<lambda>s t. bl_initial t = bl_initial s"
  by unfold_locales (simp_all add: bl_initial_def bl_other_def bl_rest_def)

lemma start_cong: "bl_initial t = bl_initial s \<Longrightarrow> (\<And>u. f (bl_initial u) = f u) \<Longrightarrow> f t = f s"
  by metis

lemma start_same:
  assumes "bl_initial t = bl_initial s"
  shows "MaxPage t = MaxPage s" "MaxBlock t = MaxBlock s" "MaxCluster t = MaxCluster s" "MaxLBA t = MaxLBA s"
    "trace_start ops t = trace_start ops s" "EvaluatedAccessType t = EvaluatedAccessType s"
    "InputFileRewindTimes t = InputFileRewindTimes s"
    "length (AccessedLogicalPageMap t) = length (AccessedLogicalPageMap s)"
  by (rule start_cong [OF assms], simp add: bl_initial_def bl_other_def bl_rest_def trace_start_def op_ok_def)+

lemma map_False_upd [simp]: "map (\<lambda>_. False) (upd xs i v) = map (\<lambda>_. False) xs"
  by (rule nth_equalityI) simp_all

lemma initial_same:
  "bl_initial (AccessedLogicalPages_update f s) = bl_initial s"
  "bl_initial (UpdatedClusters_update g s) = bl_initial s"
  "bl_initial (AccessedLogicalPageMap_update (\<lambda>a. upd a i v) s) = bl_initial s"
  by (simp_all add: bl_initial_def bl_other_def bl_rest_def)

lemma in_mark_initial:
  "within (\<lambda>s t. bl_initial t = bl_initial s) (wr AccessedLogicalPageMap AccessedLogicalPageMap_update i v)"
  by (simp add: within_def wr_def initial_same)

lemma in_fill_block: "within (\<lambda>s t. bl_initial t = bl_initial s) (fill_block i)"
  by (auto simp: fill_block_def clear_buffer_def initial_same
      intro!: start.in_rules start.in_loops start.in_BLUpdateOneBlock in_mark_initial)

text \<open>The state of the initialisation between two logical blocks.\<close>

definition filling :: "int \<Rightarrow> 'a bl_scheme \<Rightarrow> bool" where
  "filling n s \<longleftrightarrow> (\<exists>xs. bl_inv xs s \<and> room n xs s) \<and>
     int (length (UpdatedClusters s)) = MaxPage s \<and> buffered s = {} \<and> n * MaxPage s \<le> int (length (AccessedLogicalPageMap s))"

lemma map_same [simp]:
  "bl_inv xs (AccessedLogicalPageMap_update f s) = bl_inv xs s" "room n xs (AccessedLogicalPageMap_update f s) = room n xs s"
  "bl_inv xs (AccessedLogicalPages_update h s) = bl_inv xs s" "room n xs (AccessedLogicalPages_update h s) = room n xs s"
  "bl_inv xs (rand_pos_update j s) = bl_inv xs s" "room n xs (rand_pos_update j s) = room n xs s"
  by (simp_all add: bl_inv_def room_def mapped_blocks_def entry_def cluster_def is_block_def is_page_def fbl_def
      sized_def shaped_def mem_def LeastFreeBlocksInFBL_def fun_eq_iff inj_on_def)

lemma wp_fill_block:
  assumes "filling n s" "0 \<le> i" "i < n"
  shows "wp (fill_block i) (\<lambda>_ t. filling n t \<and> bl_initial t = bl_initial s) s"
proof -
  obtain xs where xs: "bl_inv xs s" "room n xs s" using assms by (auto simp: filling_def)
  have mp: "0 < MaxPage s" using xs by (simp add: bl_inv_def shaped_def)
  have len: "int (length (UpdatedClusters s)) = MaxPage s" "n * MaxPage s \<le> int (length (AccessedLogicalPageMap s))"
    using assms by (auto simp: filling_def)
  let ?I = "\<lambda>j t. bl_inv xs t \<and> room n xs t \<and> length (UpdatedClusters t) = length (UpdatedClusters s) \<and>
    bl_initial t = bl_initial s \<and> (\<forall>p. 0 \<le> p \<and> p < j \<longrightarrow> at (UpdatedClusters t) p = i * MaxPage s + p)"
  have loop: "wp (forM 0 (MaxPage s) (\<lambda>j. blockM
        [wr UpdatedClusters UpdatedClusters_update j (i * MaxPage s + j),
         modM (AccessedLogicalPages_update (\<lambda>n. n + 1)),
         wr AccessedLogicalPageMap AccessedLogicalPageMap_update (i * MaxPage s + j) True]))
      (\<lambda>_ t. ?I (MaxPage s) t) s"
  proof (rule wp_forM [where I = ?I])
    fix j t assume j: "0 \<le> j" "j < MaxPage s" and t: "?I j t"
    have lm: "length (AccessedLogicalPageMap t) = length (AccessedLogicalPageMap s)" using t start_same(8) by blast
    have "(i + 1) * MaxPage s \<le> n * MaxPage s" using assms(3) mp by (intro mult_right_mono) auto
    then have "i * MaxPage s + j < int (length (AccessedLogicalPageMap s))" using j len by (simp add: distrib_right)
    moreover have "0 \<le> i * MaxPage s" using assms(2) mp by simp
    ultimately have "inb (AccessedLogicalPageMap t) (i * MaxPage s + j)" "inb (UpdatedClusters t) j"
      using j len lm t by (auto simp: inb_def)
    then show "wp (blockM [wr UpdatedClusters UpdatedClusters_update j (i * MaxPage s + j),
         modM (AccessedLogicalPages_update (\<lambda>n. n + 1)),
         wr AccessedLogicalPageMap AccessedLogicalPageMap_update (i * MaxPage s + j) True]) (\<lambda>_. ?I (j + 1)) t"
      using t j by (auto simp: wp initial_same at_upd)
  qed (use xs mp in auto)
  have upd: "wp (blockM [BLUpdateOneBlock i, clear_buffer]) (\<lambda>_ u. filling n u \<and> bl_initial u = bl_initial s) t"
    if t: "?I (MaxPage s) t" for t
  proof -
    note st = start_same [of t s]
    have ti: "bl_initial t = bl_initial s" using t by simp
    have buf: "buf_ok i t" using t len st(1) [OF ti] by (auto simp: buf_ok_def is_page_def cluster_def)
    have "wp (BLUpdateOneBlock i) (\<lambda>_ u. (\<exists>ys. bl_inv ys u \<and> room n ys u \<and> stored u = stored t \<union> buffered t) \<and>
        bl_initial u = bl_initial t) t"
      by (rule wp_within [OF wp_BLUpdateOneBlock start.in_BLUpdateOneBlock]) (use t assms buf in auto)
    then show ?thesis unfolding wp_blockM_Cons [of "BLUpdateOneBlock i"]
    proof (rule wp_mono)
      fix u assume u: "(\<exists>ys. bl_inv ys u \<and> room n ys u \<and> stored u = stored t \<union> buffered t) \<and> bl_initial u = bl_initial t"
      then have "bl_initial u = bl_initial s" using ti by simp
      note su = start_same [OF this]
      show "wp (blockM [clear_buffer]) (\<lambda>_ u. filling n u \<and> bl_initial u = bl_initial s) u"
        using u ti su mp len buffered_cleared [of u] by (auto simp: clear_buffer_def wp filling_def initial_same)
    qed
  qed
  show ?thesis unfolding fill_block_def wp_blockM_Cons [of "bindM _ _"] wp_bindM wp_getM
    by (rule wp_mono [OF loop upd])
qed

text \<open>A device with an erased free list, with \<open>n\<close> logical blocks outside the reserve.\<close>

definition bl_start :: "int \<Rightarrow> int list \<Rightarrow> 'a bl_scheme \<Rightarrow> bool" where
  "bl_start n xs s \<longleftrightarrow>
     fbl s xs \<and> shaped s \<and> 1 \<le> LeastFreeBlocksInFBL s \<and> 0 \<le> BadBlockCnt s \<and>
     n = MaxBlock s - LeastFreeBlocksInFBL s - BadBlockCnt s \<and> 0 \<le> n \<and>
     int (length xs) = MaxBlock s - BadBlockCnt s \<and> (\<forall>b \<in> set xs. \<forall>p. is_page s p \<longrightarrow> mem s b p = FREE_PAGE) \<and>
     0 \<le> InitialPercentage s \<and> InitialPercentage s < 100 \<and>
     n * MaxPage s \<le> int (length (AccessedLogicalPageMap s)) \<and> MaxCluster s \<le> n * MaxPage s"

lemma wp_init_bl:
  assumes s: "bl_start n xs s"
  shows "wp init_bl (\<lambda>_ t. filling n t \<and> bl_initial t = bl_initial s) s"
proof -
  define u where "u = UpdatedClusters_update (\<lambda>_. replicate (nat (MaxPage s)) (- 1))
    (BLTable_update (\<lambda>_. replicate (nat (MaxBlock s)) (- 1)) s)"
  have mp: "0 < MaxPage s" "0 \<le> MaxBlock s" using s by (auto simp: bl_start_def shaped_def)
  have "entry u L = - 1" if "is_block u L" for L
    using that by (simp add: entry_def u_def is_block_def)
  then have none: "mapped_blocks u = {}" by (auto simp: mapped_blocks_def)
  have "fbl u = fbl s" "shaped u = shaped s" "mem u = mem s" "is_page u = is_page s"
    by (simp_all add: u_def fbl_def sized_def shaped_def mem_def is_page_def fun_eq_iff)
  then have inv: "bl_inv xs u" "room n xs u"
    using s none by (auto simp: bl_inv_def room_def bl_start_def) (auto simp: u_def LeastFreeBlocksInFBL_def)
  have "buffered u = {}" by (auto simp: buffered_def u_def is_page_def)
  then have fill: "filling n u" using inv s mp by (auto simp: filling_def bl_start_def) (auto simp: u_def)
  have iu: "bl_initial u = bl_initial s" by (simp add: u_def initial_same start.up_BLTable)
  let ?I = "\<lambda>_ t. filling n t \<and> bl_initial t = bl_initial s"
  have loop: "wp (forM 0 n (\<lambda>i. bindM randM (\<lambda>r. whenM (r \<le> bm) (fill_block i)))) (\<lambda>_. ?I ()) t"
    if "?I () t" for bm t
  proof (rule wp_forM [where I = ?I])
    fix i t assume i: "0 \<le> i" "i < n" and t: "?I i t"
    define v where "v = rand_pos_update Suc t"
    have "?I () v" using t by (auto simp: v_def filling_def buffered_def is_page_def bl_initial_def bl_other_def bl_rest_def)
    moreover from this have "wp (fill_block i) (\<lambda>_ w. filling n w \<and> bl_initial w = bl_initial v) v"
      using i by (intro wp_fill_block) auto
    ultimately show "wp (bindM randM (\<lambda>r. whenM (r \<le> bm) (fill_block i))) (\<lambda>_. ?I (i + 1)) t"
      by (auto simp: randM_def wp v_def elim!: wp_mono)
  qed (use that s in \<open>auto simp: bl_start_def\<close>)
  have reset: "?I () (AccessStatistics_update g t)" if "?I () t" for g t
    using that by (simp add: filling_def start.up_Statistics)
  have sel: "InitialPercentage u = InitialPercentage s" "MaxBlock u - LeastFreeBlocksInFBL u - BadBlockCnt u = n"
    using s by (auto simp: u_def bl_start_def LeastFreeBlocksInFBL_def)
  have bm: "wp (BlockMaxRandomValue (InitialPercentage u)) (\<lambda>_ t. t = u) u"
    by (rule wp_BlockMaxRandomValue) (use s sel in \<open>auto simp: bl_start_def\<close>)
  have tail: "wp (bindM (getM InitialPercentage) (\<lambda>p. bindM (BlockMaxRandomValue p) (\<lambda>bm.
        bindM (getM (\<lambda>s. MaxBlock s - LeastFreeBlocksInFBL s - BadBlockCnt s)) (\<lambda>n.
          forM 0 n (\<lambda>i. bindM randM (\<lambda>r. whenM (r \<le> bm) (fill_block i))))))) (\<lambda>_. ?I ()) u"
    unfolding wp_bindM [of "getM _"] wp_getM wp_bindM [of "BlockMaxRandomValue _"]
    by (rule wp_mono [OF bm]) (use loop [OF conjI [OF fill iu]] sel in simp)
  have "wp (blockM [ResetStatisticVariable]) (\<lambda>_. ?I ()) t" if "?I () t" for t
    using reset that by (simp add: ResetStatisticVariable_def wp)
  then show ?thesis
    unfolding init_bl_def
    by (simp add: clear_buffer_def wp_blockM_Cons wp_bindM [of "getM MaxBlock"] wp_bindM [of "getM MaxPage"]
        wp_getM wp_modM flip: u_def) (auto intro: wp_mono [OF tail] simp: wp_blockM_Cons)
qed

section \<open>The simulation\<close>

lemma ready_room: "ready n s \<Longrightarrow> n \<le> MaxBlock s"
  by (auto simp: ready_def room_def)

lemma stored_below: "room n xs s \<Longrightarrow> 0 < MaxPage s \<Longrightarrow> stored s \<subseteq> {0..<n * MaxPage s}"
proof
  fix c assume r: "room n xs s" "0 < MaxPage s" and "c \<in> stored s"
  then obtain L p where "L \<in> mapped_blocks s" and p: "0 \<le> p" "p < MaxPage s" "c = L * MaxPage s + p"
    by (auto simp: stored_def is_page_def cluster_def)
  then have c: "0 \<le> L" "L < n" using r by (auto simp: room_def)
  have "(L + 1) * MaxPage s \<le> n * MaxPage s" using c r by (intro mult_right_mono) auto
  then show "c \<in> {0..<n * MaxPage s}" using c p r by (auto simp: distrib_right)
qed

lemma wp_BLSimulation:
  fixes s :: "'a bl_scheme"
  assumes s: "bl_start n xs s" and tr: "trace_start ops s"
    and parse: "\<And>t :: 'a bl_scheme. EvaluatedAccessType t = EvaluatedAccessType s \<Longrightarrow> MaxLBA t = MaxLBA s \<Longrightarrow>
      OperationCnt t = 0 \<Longrightarrow> CurrentOperationCnt t = 0 \<Longrightarrow>
      parse_trace file fresh t = Inr ((), t\<lparr>
      TotalAccessedLogicalPageMap := replicate (nat (MaxPage t * MaxBlock t)) False,
      IsParseTraceFile := True, TraceOperation := ops, OperationCnt := int (length ops),
      CurrentOperationCnt := 0\<rparr>)"
    and fuel: "int (length ops) * (InputFileRewindTimes s + 1) < int fuel"
  shows "wp (BLSimulation fuel file fresh) (\<lambda>_ t. \<exists>xs. bl_inv xs t \<and> room n xs t) s"
proof -
  have mc: "MaxCluster s \<le> n * MaxPage s" using s unfolding bl_start_def by blast
  let ?I = "\<lambda>_ t. ready n t \<and> MaxCluster t \<le> n * MaxPage t"
  have serve: "wp (blockM [each_request fuel file fresh False bl_request, flush_last])
      (\<lambda>_ t. \<exists>xs. bl_inv xs t \<and> room n xs t) (CurrentAccessedBlock_update (\<lambda>_. - 1) t)"
    if t: "filling n t \<and> bl_initial t = bl_initial s" for t
  proof -
    define u where "u = CurrentAccessedBlock_update (\<lambda>_. - 1) t"
    have "bl_initial u = bl_initial s" using t by (simp add: u_def start.up_CurrentAccessedBlock)
    note st = start_same [OF this]
    have ru: "ready n u" using t by (auto simp: filling_def ready_def buf_state_def u_def)
    have tu: "trace_start ops u" using tr st(5) by simp
    have iu: "?I (int (length ops) * (InputFileRewindTimes u + 1)) u" using ru mc st by simp
    have fu: "int (length ops) * (InputFileRewindTimes u + 1) < int fuel" using fuel st by simp
    have pu: "parse_trace file fresh u = Inr ((), u\<lparr>
      TotalAccessedLogicalPageMap := replicate (nat (MaxPage u * MaxBlock u)) False,
      IsParseTraceFile := True, TraceOperation := ops, OperationCnt := int (length ops),
      CurrentOperationCnt := 0\<rparr>)"
      by (rule parse) (use st tu in \<open>auto simp: trace_start_def\<close>)
    have "wp (each_request fuel file fresh False bl_request) (\<lambda>_ v. trace_ok v \<and> pending v = 0 \<and> ?I 0 v) u"
    proof (rule wp_each_request_file [where I = ?I, OF tu pu refl fu iu])
      fix t v :: "'a bl_scheme" assume "?I n t" "untrace v = untrace t"
      moreover have "ready n (untrace w) = ready n w \<and> MaxCluster (untrace w) = MaxCluster w \<and> MaxPage (untrace w) = MaxPage w"
        for w :: "'a bl_scheme"
        by (simp add: untrace_def unfetch_def unmark_def ready_def buf_state_def bl_inv_def room_def mapped_blocks_def
            entry_def cluster_def is_block_def is_page_def fbl_def sized_def shaped_def mem_def
            LeastFreeBlocksInFBL_def fun_eq_iff inj_on_def buf_ok_def buffered_def)
      ultimately show "?I n v" by metis
    next
      fix q and t :: "'a bl_scheme" and m :: int
      assume t: "trace_ok t" "request_in t q" "?I m t"
      have "wp (bl_request q) (\<lambda>_ v. ready n v \<and> accepted v = accepted t \<union> written_clusters q \<and> bl_other v = bl_other t) t"
        by (rule wp_bl_request) (use t ready_room in \<open>auto simp: request_in_def\<close>)
      then show "wp (bl_request q) (\<lambda>_ v. trace_ok v \<and> pending v = pending t \<and> ?I (m - 1) v) t"
        by (rule wp_mono) (use t other_same in \<open>metis\<close>)
    qed
    moreover have "wp (blockM [flush_last]) (\<lambda>_ t. \<exists>xs. bl_inv xs t \<and> room n xs t) v" if "ready n v" for v :: "'a bl_scheme"
      unfolding wp_blockM_Cons wp_blockM_Nil by (rule wp_mono [OF wp_flush_last [OF that]]) auto
    ultimately show ?thesis unfolding wp_blockM_Cons [of "each_request _ _ _ _ _"] u_def by (auto elim!: wp_mono)
  qed
  show ?thesis
    unfolding BLSimulation_def wp_blockM_Cons [of init_bl] wp_blockM_Cons [of "modM _"] wp_modM
    by (rule wp_mono [OF wp_init_bl [OF s]]) (rule serve)
qed

section \<open>A small device\<close>

text \<open>The device of the small trace with an empty table: two logical blocks of two pages.\<close>

definition small_bl :: bl where
  "small_bl = trace.extend small_trace (bl.fields [- 1, - 1, - 1] [- 1, - 1] (- 1))"

lemmas small_bl_defs = small_bl_def small_trace_def trace.extend_def bl.fields_def

lemma small_blk: "0 \<le> b \<and> b < 3 \<longleftrightarrow> b = 0 \<or> b = 1 \<or> b = 2" "0 \<le> b \<and> b < 2 \<longleftrightarrow> b = 0 \<or> b = 1" for b :: int
  by auto

lemma small_bl_flash:
  "fbl small_bl [0, 1, 2]" "shaped small_bl" "LeastFreeBlocksInFBL small_bl = 1" "MaxBlock small_bl = 3"
  "MaxPage small_bl = 2" "is_block small_bl b \<longleftrightarrow> b = 0 \<or> b = 1 \<or> b = 2" "is_page small_bl p \<longleftrightarrow> p = 0 \<or> p = 1"
  "b \<in> {0, 1, 2} \<Longrightarrow> is_page small_bl p \<Longrightarrow> mem small_bl b p = - 1"
  "MaxCluster small_bl = 4" "length (AccessedLogicalPageMap small_bl) = 6" "BadBlockCnt small_bl = 0"
  "InitialPercentage small_bl = 0" "BLTable small_bl = [- 1, - 1, - 1]" "UpdatedClusters small_bl = [- 1, - 1]"
  "CurrentAccessedBlock small_bl = - 1"
proof -
  show "fbl small_bl [0, 1, 2]"
    by (auto simp: small_bl_defs fbl_def sized_def at_def on_chip_def cnt_def)
  show "shaped small_bl" by (auto simp: small_bl_defs shaped_def at_def nth_Cons')
  show "mem small_bl b p = - 1" if "b \<in> {0, 1, 2}" "is_page small_bl p"
    using that small_blk(2) [of p] by (auto simp: small_bl_defs mem_def at2_def at_def is_page_def)
qed (use small_blk in \<open>simp_all add: small_bl_defs is_block_def is_page_def LeastFreeBlocksInFBL_def\<close>)

lemma small_bl_ready: "mapped_blocks small_bl = {}" "bl_inv [0, 1, 2] small_bl" "room 2 [0, 1, 2] small_bl"
  "buffered small_bl = {}" "ready 2 small_bl" "stored small_bl = {}"
proof -
  show m: "mapped_blocks small_bl = {}"
    by (auto simp: mapped_blocks_def small_bl_flash entry_def at_def)
  show i: "bl_inv [0, 1, 2] small_bl" "room 2 [0, 1, 2] small_bl"
    using m small_bl_flash by (auto simp: bl_inv_def room_def)
  show b: "buffered small_bl = {}" by (auto simp: buffered_def small_bl_flash at_def)
  show "ready 2 small_bl" using i b small_bl_flash by (auto simp: ready_def buf_state_def)
  show "stored small_bl = {}" using m by (simp add: stored_def)
qed

section \<open>Properties\<close>

text \<open>C17. Writing one logical block anew returns, keeps the invariant of the layer (the table is
  injective, pages keep their place, free blocks are erased) and its room, and the flash memory
  then holds exactly the clusters it held before and those of the buffer.\<close>

theorem BLUpdateOneBlock_correct:
  assumes "bl_inv xs s" "room n xs s" "0 \<le> L" "L < n" "buf_ok L s"
  shows "\<exists>t. BLUpdateOneBlock L s = Inr ((), t) \<and> (\<exists>ys. bl_inv ys t \<and> room n ys t) \<and>
    stored t = stored s \<union> buffered s"
  using wp_BLUpdateOneBlock [OF assms] by (auto simp: wp_result)

text \<open>C17 applies to the small device with cluster 3 in the buffer of logical block 1.\<close>

theorem BLUpdateOneBlock_correct_witness:
  "\<exists>t. BLUpdateOneBlock 1 (small_bl\<lparr>UpdatedClusters := [- 1, 3]\<rparr>) = Inr ((), t) \<and> stored t = {3}"
proof -
  let ?s = "small_bl\<lparr>UpdatedClusters := [- 1, 3]\<rparr>"
  have "is_page ?s = is_page small_bl" by (simp add: is_page_def fun_eq_iff)
  then have p: "is_page ?s p \<longleftrightarrow> p = 0 \<or> p = 1" for p by (simp add: small_bl_flash)
  have "bl_inv [0, 1, 2] ?s" "room 2 [0, 1, 2] ?s" "stored ?s = {}" using small_bl_ready by simp_all
  moreover have "buf_ok 1 ?s" using p by (auto simp: buf_ok_def cluster_def small_bl_flash at_def)
  moreover have "buffered ?s = {3}" using p by (auto simp: buffered_def at_def)
  ultimately show ?thesis using BLUpdateOneBlock_correct [of "[0, 1, 2]" ?s 2 1] by auto
qed

text \<open>C16. The write buffer loses nothing: after any sequence of requests and the last flush, a cluster
  can be read exactly if it was stored or buffered at the start or a write request covers it.\<close>

theorem BL_read_after_requests:
  assumes "ready n s"
    and "\<forall>q \<in> set qs. 0 \<le> StartCluster q \<and> 0 \<le> Length q \<and> StartCluster q + Length q \<le> n * MaxPage s"
    and "0 \<le> c" "c < n * MaxPage s"
  shows "\<exists>r t. thenM (blockM (map bl_request qs)) (thenM flush_last (BLReadOneCluster c)) s = Inr (r, t) \<and>
    (r \<longleftrightarrow> c \<in> accepted s \<or> (\<exists>q \<in> set qs. RequestType q = WriteType \<and>
       StartCluster q \<le> c \<and> c < StartCluster q + Length q))"
proof -
  let ?A = "accepted s \<union> \<Union> (written_clusters ` set qs)"
  have n: "n \<le> MaxBlock s" using ready_room [OF assms(1)] .
  have a: "wp (blockM (map bl_request qs)) (\<lambda>_ t. (ready n t \<and> accepted t = ?A) \<and> bl_other t = bl_other s) s"
    by (rule wp_within [OF wp_bl_requests [OF assms(1) n assms(2)]])
       (induction qs, auto intro: other.in_rules other.in_bl_request)
  have b: "wp flush_last (\<lambda>_ t. ((\<exists>xs. bl_inv xs t \<and> room n xs t) \<and> stored t = ?A) \<and> bl_other t = bl_other s) t"
    if t: "(ready n t \<and> accepted t = ?A) \<and> bl_other t = bl_other s" for t
  proof -
    have "within (\<lambda>s t. bl_other t = bl_other s) flush_last"
      by (auto simp: flush_last_def intro!: other.in_rules other.in_BLUpdateOneBlock)
    from wp_within [OF wp_flush_last [of n t] this] show ?thesis
      by (rule wp_mono) (use t in auto)
  qed
  have r: "wp (BLReadOneCluster c) (\<lambda>r u. r = (c \<in> ?A)) t"
    if t: "((\<exists>xs. bl_inv xs t \<and> room n xs t) \<and> stored t = ?A) \<and> bl_other t = bl_other s" for t
  proof -
    have "bl_other t = bl_other s" using t by simp
    note o = other_same [OF this]
    obtain xs where xs: "bl_inv xs t" using t by auto
    have "0 < MaxPage t" using xs by (simp add: bl_inv_def shaped_def)
    then have "c div MaxPage t < MaxBlock t" using div_less_mult [of c n "MaxPage t"] assms(4) o n by simp
    from wp_BLReadOneCluster [OF xs assms(3) this] show ?thesis using t by (auto elim!: wp_mono)
  qed
  have "wp (thenM (blockM (map bl_request qs)) (thenM flush_last (BLReadOneCluster c))) (\<lambda>r u. r = (c \<in> ?A)) s"
    unfolding wp_thenM by (rule wp_mono [OF a], rule wp_mono [OF b], assumption, rule r)
  then show ?thesis by (auto simp: wp_result written_clusters_def request_clusters_def split: if_splits)
qed

text \<open>C16 applies to a write of clusters 1 and 2, which lie in two logical blocks, and a read.\<close>

theorem BL_read_after_requests_witness:
  "\<exists>t. thenM (blockM (map bl_request [\<lparr>RequestType = WriteType, StartCluster = 1, Length = 2\<rparr>,
      \<lparr>RequestType = ReadType, StartCluster = 0, Length = 3\<rparr>])) (thenM flush_last (BLReadOneCluster 2)) small_bl = Inr (True, t)"
  using BL_read_after_requests [OF small_bl_ready(5), of "[\<lparr>RequestType = WriteType, StartCluster = 1, Length = 2\<rparr>,
      \<lparr>RequestType = ReadType, StartCluster = 0, Length = 3\<rparr>]" 2] by (auto simp: small_bl_flash)

text \<open>C18. On a fresh device the simulation of a trace file runs to its end: it leaves no array, never
  finds the free block list empty and never exits, and at the end the invariant holds and every
  cluster in the flash memory lies in the exported range.\<close>

theorem BLSimulation_runs:
  assumes "bl_start n xs s" "ls \<noteq> []" "\<forall>l \<in> set ls. good_line l"
    and "trace_start (operations (EvaluatedAccessType s) (MaxLBA s) (ls @ [last ls])) s"
    and "int (length (operations (EvaluatedAccessType s) (MaxLBA s) (ls @ [last ls]))) *
      (InputFileRewindTimes s + 1) < int fuel"
  shows "\<exists>t. BLSimulation fuel (trace_text ls) fresh s = Inr ((), t) \<and> (\<exists>ys. bl_inv ys t) \<and>
    stored t \<subseteq> {0..<n * MaxPage t}"
proof -
  have "wp (BLSimulation fuel (trace_text ls) fresh) (\<lambda>_ t. \<exists>xs. bl_inv xs t \<and> room n xs t) s"
    by (rule wp_BLSimulation [OF assms(1,4) _ assms(5)], rule parse_newline [OF assms(2,3)]) simp_all
  moreover have "stored t \<subseteq> {0..<n * MaxPage t}" if "bl_inv ys t" "room n ys t" for ys and t :: "'a bl_scheme"
    by (rule stored_below [OF that(2)]) (use that in \<open>simp add: bl_inv_def shaped_def\<close>)
  ultimately show ?thesis by (auto simp: wp_result)
qed

text \<open>C18 applies to the small device and a trace with one write, read twice in two rounds.\<close>

theorem BLSimulation_runs_witness:
  "\<exists>t. BLSimulation 5 ''W 0 8\<newline>'' \<lparr>AccessType = ReadType, StartLBA = 0, EndLBA = 0\<rparr> small_bl = Inr ((), t) \<and>
    (\<exists>ys. bl_inv ys t)"
proof -
  have ops: "operations (EvaluatedAccessType small_bl) (MaxLBA small_bl) ([(''W'', 0, 8)] @ [last [(''W'', 0, 8)]]) =
      replicate 2 \<lparr>AccessType = WriteType, StartLBA = 0, EndLBA = 7\<rparr>"
    by (simp add: small_bl_defs operations_Cons access_of_def numeral_2_eq_2)
  have "bl_start 2 [0, 1, 2] small_bl" by (auto simp: bl_start_def small_bl_flash)
  moreover have "trace_start (replicate 2 \<lparr>AccessType = WriteType, StartLBA = 0, EndLBA = 7\<rparr>) small_bl"
    by (simp add: trace_start_def small_bl_defs op_ok_def RAND_MAX_def)
  moreover have "trace_text [(''W'', 0, 8)] = ''W 0 8\<newline>''"
    by (simp add: trace_text_def show_int_def show_nat.simps newline_def char_of_def bit_simps)
  moreover have "InputFileRewindTimes small_bl = 1" by (simp add: small_bl_defs)
  ultimately show ?thesis
    using BLSimulation_runs [of 2 "[0, 1, 2]" small_bl "[(''W'', 0, 8)]" 5 "\<lparr>AccessType = ReadType, StartLBA = 0, EndLBA = 0\<rparr>"] ops
    by (auto simp: isspace_def int32_def INT_MAX_def)
qed

end
