(* ===== verification/Status.thy ===== *)
theory Status
  imports Main
begin

text \<open>
  The result of an operation of the key-value store (include/leveldb/status.h, util/status.cc).
  The private byte array of the source is the code and the message it packs.
\<close>

datatype Code = kNotFound | kCorruption | kNotSupported | kInvalidArgument | kIOError

datatype Status = OK | Error Code string

text \<open>The constructor with two messages: the second is appended only if it is not empty.\<close>

definition mkStatus :: "Code \<Rightarrow> string \<Rightarrow> string \<Rightarrow> Status" where
  "mkStatus c msg msg2 = Error c (msg @ (if msg2 \<noteq> [] then '': '' @ msg2 else []))"

definition NotFound :: "string \<Rightarrow> string \<Rightarrow> Status" where
  "NotFound msg msg2 = mkStatus kNotFound msg msg2"

definition Corruption :: "string \<Rightarrow> string \<Rightarrow> Status" where
  "Corruption msg msg2 = mkStatus kCorruption msg msg2"

definition NotSupported :: "string \<Rightarrow> string \<Rightarrow> Status" where
  "NotSupported msg msg2 = mkStatus kNotSupported msg msg2"

definition InvalidArgument :: "string \<Rightarrow> string \<Rightarrow> Status" where
  "InvalidArgument msg msg2 = mkStatus kInvalidArgument msg msg2"

definition IOError :: "string \<Rightarrow> string \<Rightarrow> Status" where
  "IOError msg msg2 = mkStatus kIOError msg msg2"

fun is_ok :: "Status \<Rightarrow> bool" where
  "is_ok OK \<longleftrightarrow> True"
| "is_ok (Error c m) \<longleftrightarrow> False"

fun type_name :: "Code \<Rightarrow> string" where
  "type_name kNotFound = ''NotFound: ''"
| "type_name kCorruption = ''Corruption: ''"
| "type_name kNotSupported = ''Not implemented: ''"
| "type_name kInvalidArgument = ''Invalid argument: ''"
| "type_name kIOError = ''IO error: ''"

fun ToString :: "Status \<Rightarrow> string" where
  "ToString OK = ''OK''"
| "ToString (Error c m) = type_name c @ m"

lemma is_ok_iff: "is_ok s \<longleftrightarrow> s = OK"
  by (cases s) simp_all

lemmas status_defs = NotFound_def Corruption_def NotSupported_def InvalidArgument_def IOError_def mkStatus_def

end
