(* ===== verification/Files.thy ===== *)
theory Files
  imports Coding Status
begin

text \<open>
  The file interfaces of the environment (include/leveldb/env.h): an open file is a value of some
  type, and an implementation gives its operations as functions on that type.  An operation that
  the implementation does not survive, such as following a dangling pointer, is None.
\<close>

record 'f SequentialFile =
  Read :: "nat \<Rightarrow> 'f \<Rightarrow> (Status \<times> bytes \<times> 'f) option"
  Skip :: "nat \<Rightarrow> 'f \<Rightarrow> (Status \<times> 'f) option"

record 'f WritableFile =
  Append :: "bytes \<Rightarrow> 'f \<Rightarrow> (Status \<times> 'f) option"
  Flush :: "'f \<Rightarrow> (Status \<times> 'f) option"

text \<open>
  What the clients rely on.  A file for writing holds the bytes appended so far; a file for
  reading has bytes left to read, and a read returns as many of them as were asked for.
\<close>

locale writable_file =
  fixes W :: "'f WritableFile" and written :: "'f \<Rightarrow> bytes \<Rightarrow> bool"
  assumes Append_ok: "written f c \<Longrightarrow> \<exists>f'. Append W d f = Some (OK, f') \<and> written f' (c @ d)"
    and Flush_ok: "written f c \<Longrightarrow> \<exists>f'. Flush W f = Some (OK, f') \<and> written f' c"

locale sequential_file =
  fixes R :: "'f SequentialFile" and unread :: "'f \<Rightarrow> bytes \<Rightarrow> bool"
  assumes Read_ok: "unread f c \<Longrightarrow> \<exists>f'. Read R n f = Some (OK, take n c, f') \<and> unread f' (drop n c)"
    and Skip_ok: "unread f c \<Longrightarrow> \<exists>f'. Skip R n f = Some (OK, f') \<and> unread f' (drop n c)"

end
