(* ===== verification/Log_Writer.thy ===== *)
theory Log_Writer
  imports Files CRC32C "HOL-Library.Monad_Syntax"
begin

text \<open>
  The write-ahead log: its format and its writer (db/log_format.h, db/log_writer.h,
  db/log_writer.cc).  The writer cuts a record into fragments, none of which crosses a block of
  the file.  Checksums are taken at address 0; the address does not matter.
\<close>

section \<open>The format\<close>

datatype RecordType = kZeroType | kFullType | kFirstType | kMiddleType | kLastType

fun type_code :: "RecordType \<Rightarrow> nat" where
  "type_code kZeroType = 0"
| "type_code kFullType = 1"
| "type_code kFirstType = 2"
| "type_code kMiddleType = 3"
| "type_code kLastType = 4"

definition kMaxRecordType :: nat where
  "kMaxRecordType = type_code kLastType"

definition kBlockSize :: nat where
  "kBlockSize = 32768"

definition kHeaderSize :: nat where
  "kHeaderSize = 4 + 2 + 1"

section \<open>The writer\<close>

record 'f Writer =
  dest :: 'f
  block_offset :: nat
  type_crc :: "u32 list"

definition InitTypeCrc :: "u32 list" where
  "InitTypeCrc = map (\<lambda>i. Value 0 [word_of_nat i]) [0..<kMaxRecordType + 1]"

definition new_Writer :: "'f \<Rightarrow> 'f Writer" where
  "new_Writer f = \<lparr>dest = f, block_offset = 0, type_crc = InitTypeCrc\<rparr>"

definition new_Writer_at :: "'f \<Rightarrow> nat \<Rightarrow> 'f Writer" where
  "new_Writer_at f dest_length = \<lparr>dest = f, block_offset = dest_length mod kBlockSize, type_crc = InitTypeCrc\<rparr>"

text \<open>The assertions are checked.\<close>

definition EmitPhysicalRecord ::
  "'f WritableFile \<Rightarrow> RecordType \<Rightarrow> bytes \<Rightarrow> 'f Writer \<Rightarrow> (Status \<times> 'f Writer) option" where
  "EmitPhysicalRecord W t ptr w =
     (let n = length ptr in
      if \<not> (n \<le> 0xffff \<and> block_offset w + kHeaderSize + n \<le> kBlockSize) then None
      else
        let crc = Mask (Extend 0 (type_crc w ! type_code t) ptr);
            buf = EncodeFixed32 crc @ [word_of_nat (n mod 256), word_of_nat (n div 256), word_of_nat (type_code t)]
        in do {
          (s, f) \<leftarrow> Append W buf (dest w);
          (s, f) \<leftarrow> (if is_ok s then do {
              (s, f) \<leftarrow> Append W ptr f;
              if is_ok s then Flush W f else Some (s, f) }
            else Some (s, f));
          Some (s, w\<lparr>dest := f, block_offset := block_offset w + kHeaderSize + n\<rparr>) })"

text \<open>The switch to a new block: the rest of the block is filled with zeros.\<close>

definition switch_block :: "'f WritableFile \<Rightarrow> 'f Writer \<Rightarrow> 'f Writer option" where
  "switch_block W w =
     (let leftover = kBlockSize - block_offset w in
      if leftover < kHeaderSize then do {
        f \<leftarrow> (if leftover > 0 then map_option snd (Append W (replicate leftover 0) (dest w)) else Some (dest w));
        Some (w\<lparr>dest := f, block_offset := 0\<rparr>) }
      else Some w)"

lemma Emit_offset:
  "EmitPhysicalRecord W t p w = Some (s, w') \<Longrightarrow> block_offset w' = block_offset w + kHeaderSize + length p"
  by (auto simp: EmitPhysicalRecord_def Let_def split: if_splits bind_splits)

lemma switch_offset:
  "switch_block W w = Some w' \<Longrightarrow>
   block_offset w' = (if kBlockSize - block_offset w < kHeaderSize then 0 else block_offset w)"
  by (auto simp: switch_block_def Let_def split: if_splits bind_splits)

text \<open>The loop of \<open>AddRecord\<close>.\<close>

function add_loop :: "'f WritableFile \<Rightarrow> bool \<Rightarrow> bytes \<Rightarrow> 'f Writer \<Rightarrow> (Status \<times> 'f Writer) option" where
  "add_loop W first ptr w =
     Option.bind (switch_block W w) (\<lambda>w1.
       let avail = kBlockSize - block_offset w1 - kHeaderSize;
           fragment_length = (if length ptr < avail then length ptr else avail);
           final = (length ptr = fragment_length);
           t = (if first \<and> final then kFullType else if first then kFirstType
                else if final then kLastType else kMiddleType)
       in Option.bind (EmitPhysicalRecord W t (take fragment_length ptr) w1) (\<lambda>(s, w2).
            if is_ok s \<and> length ptr - fragment_length > 0
            then add_loop W False (drop fragment_length ptr) w2
            else Some (s, w2)))"
  by pat_completeness auto
termination
proof (relation "measure (\<lambda>(W, first, ptr, w). 2 * length ptr + (if block_offset w = kBlockSize - kHeaderSize then 1 else 0))")
qed (auto simp: kBlockSize_def kHeaderSize_def dest!: Emit_offset switch_offset split: if_splits)

declare add_loop.simps [simp del]

definition AddRecord :: "'f WritableFile \<Rightarrow> bytes \<Rightarrow> 'f Writer \<Rightarrow> (Status \<times> 'f Writer) option" where
  "AddRecord W data w = add_loop W True data w"

section \<open>What the writer writes\<close>

text \<open>A physical record, and the place of physical records in a file from an offset on.\<close>

definition phys :: "RecordType \<Rightarrow> bytes \<Rightarrow> bytes" where
  "phys t d = EncodeFixed32 (Mask (crc32c (word_of_nat (type_code t) # d))) @
     [word_of_nat (length d mod 256), word_of_nat (length d div 256), word_of_nat (type_code t)] @ d"

definition pad :: "nat \<Rightarrow> nat" where
  "pad off = (let r = off mod kBlockSize in if kBlockSize - r < kHeaderSize then kBlockSize - r else 0)"

fun place :: "nat \<Rightarrow> (RecordType \<times> bytes) list \<Rightarrow> bytes" where
  "place off [] = []"
| "place off ((t, d) # xs) = replicate (pad off) 0 @ phys t d @ place (off + pad off + kHeaderSize + length d) xs"

fun fits :: "nat \<Rightarrow> (RecordType \<times> bytes) list \<Rightarrow> bool" where
  "fits off [] \<longleftrightarrow> True"
| "fits off ((t, d) # xs) \<longleftrightarrow> (off + pad off) mod kBlockSize + kHeaderSize + length d \<le> kBlockSize \<and>
     fits (off + pad off + kHeaderSize + length d) xs"

text \<open>The fragments of a record that is written at an offset.\<close>

lemma log_sizes: "kBlockSize = 32768" "kHeaderSize = 7"
  by (simp_all add: kBlockSize_def kHeaderSize_def)

lemma pad_less: "pad off < 7"
  by (simp add: pad_def log_sizes Let_def)

lemma pad_mod:
  "(off + pad off) mod kBlockSize = (if kBlockSize - off mod kBlockSize < kHeaderSize then 0 else off mod kBlockSize)"
proof -
  have "off mod kBlockSize < kBlockSize" by (simp add: log_sizes)
  then have "off + (kBlockSize - off mod kBlockSize) = (off div kBlockSize + 1) * kBlockSize"
    using div_mult_mod_eq [of off kBlockSize] unfolding add_mult_distrib mult_1 by arith
  then have "(off + (kBlockSize - off mod kBlockSize)) mod kBlockSize = 0" by simp
  then show ?thesis by (simp add: pad_def Let_def)
qed

lemma after_pad: "(off + pad off) mod kBlockSize + kHeaderSize \<le> kBlockSize"
  unfolding pad_mod by (auto simp: log_sizes)

function frags :: "nat \<Rightarrow> bool \<Rightarrow> bytes \<Rightarrow> (RecordType \<times> bytes) list" where
  "frags off first d =
     (let off1 = off + pad off;
          n = min (length d) (kBlockSize - off1 mod kBlockSize - kHeaderSize);
          final = (length d = n);
          t = (if first \<and> final then kFullType else if first then kFirstType
               else if final then kLastType else kMiddleType)
      in (t, take n d) # (if length d - n > 0 then frags (off1 + kHeaderSize + n) False (drop n d) else []))"
  by pat_completeness auto
termination
proof (relation "measure (\<lambda>(off, first, d). 2 * length d + (if off mod kBlockSize = kBlockSize - kHeaderSize then 1 else 0))", goal_cases)
  case (2 off first d off1 n final t)
  show ?case
  proof (cases "n = 0")
    case True
    then have f: "off1 mod kBlockSize = kBlockSize - kHeaderSize"
      using 2 after_pad [of off] by (simp add: min_def split: if_splits)
    then have "off mod kBlockSize = kBlockSize - kHeaderSize"
      using 2(1) pad_mod [of off] by (auto simp: log_sizes split: if_splits)
    moreover have "(off1 + kHeaderSize) mod kBlockSize \<noteq> kBlockSize - kHeaderSize"
      using f mod_add_left_eq [of off1 kBlockSize kHeaderSize] by (simp add: log_sizes)
    ultimately show ?thesis using True by simp
  next
    case False
    then show ?thesis using 2 by auto
  qed
qed simp

declare frags.simps [simp del]

lemma frags_fits: "fits off (frags off first d)"
proof (induction off first d rule: frags.induct)
  case (1 off first d)
  define n where "n = min (length d) (kBlockSize - (off + pad off) mod kBlockSize - kHeaderSize)"
  have "length (take n d) = n" "(off + pad off) mod kBlockSize + kHeaderSize + n \<le> kBlockSize"
    using after_pad [of off] by (simp_all add: n_def)
  then show ?case using 1 [OF refl n_def refl refl]
    unfolding frags.simps [of off first d] Let_def n_def [symmetric] by (simp add: add.assoc)
qed

lemma length_phys [simp]: "length (phys t d) = kHeaderSize + length d"
  by (simp add: phys_def log_sizes)

lemma type_crc_nth: "InitTypeCrc ! type_code t = crc32c [word_of_nat (type_code t)]"
  by (cases t) (simp_all add: InitTypeCrc_def kMaxRecordType_def Value_crc32c)

section \<open>The writer appends the fragments\<close>

text \<open>The writer as a client of any file it can append to.\<close>

locale log_writer = writable_file W written for W :: "'f WritableFile" and written
begin

definition writer_at :: "'f Writer \<Rightarrow> bytes \<Rightarrow> bool" where
  "writer_at w c \<longleftrightarrow> written (dest w) c \<and> block_offset w \<le> kBlockSize \<and>
     block_offset w mod kBlockSize = length c mod kBlockSize \<and> type_crc w = InitTypeCrc"

lemma switch_block_ok:
  assumes "writer_at w c"
  shows "\<exists>w'. switch_block W w = Some w' \<and> written (dest w') (c @ replicate (pad (length c)) 0) \<and>
    block_offset w' = (length c + pad (length c)) mod kBlockSize \<and> type_crc w' = InitTypeCrc"
proof (cases "kBlockSize - block_offset w < kHeaderSize")
  case True
  show ?thesis
  proof (cases "block_offset w = kBlockSize")
    case full: True
    then have "length c mod kBlockSize = 0" "pad (length c) = 0"
      using assms by (simp_all add: writer_at_def pad_def Let_def log_sizes)
    then show ?thesis using assms full by (simp add: writer_at_def switch_block_def log_sizes)
  next
    case False
    then have b: "block_offset w < kBlockSize" "length c mod kBlockSize = block_offset w" using assms by (auto simp: writer_at_def)
    then have p: "pad (length c) = kBlockSize - block_offset w" "(length c + pad (length c)) mod kBlockSize = 0"
      using True pad_mod [of "length c"] by (simp_all add: pad_def Let_def)
    obtain f' where "Append W (replicate (kBlockSize - block_offset w) 0) (dest w) = Some (OK, f')"
        "written f' (c @ replicate (kBlockSize - block_offset w) 0)"
      using Append_ok [of "dest w" c] assms by (auto simp: writer_at_def)
    then show ?thesis using True b p assms by (simp add: switch_block_def writer_at_def Let_def)
  qed
next
  case False
  then have "length c mod kBlockSize = block_offset w" using assms by (simp add: writer_at_def log_sizes)
  then show ?thesis using False assms pad_mod [of "length c"]
    by (simp add: switch_block_def writer_at_def pad_def Let_def)
qed

lemma EmitPhysicalRecord_ok:
  assumes "written (dest w) c" "block_offset w + kHeaderSize + length d \<le> kBlockSize" "type_crc w = InitTypeCrc"
  shows "\<exists>f'. EmitPhysicalRecord W t d w = Some (OK, w\<lparr>dest := f', block_offset := block_offset w + kHeaderSize + length d\<rparr>) \<and>
    written f' (c @ phys t d)"
proof -
  let ?h = "EncodeFixed32 (Mask (crc32c (word_of_nat (type_code t) # d))) @
     [word_of_nat (length d mod 256), word_of_nat (length d div 256), word_of_nat (type_code t)]"
  have x: "Extend 0 (type_crc w ! type_code t) d = crc32c (word_of_nat (type_code t) # d)"
    using assms(3) Extend_append [of 0 "[word_of_nat (type_code t)]" d] by (simp add: type_crc_nth)
  obtain f1 where f1: "Append W ?h (dest w) = Some (OK, f1)" "written f1 (c @ ?h)" using Append_ok [OF assms(1)] by blast
  obtain f2 where f2: "Append W d f1 = Some (OK, f2)" "written f2 ((c @ ?h) @ d)" using Append_ok [OF f1(2)] by blast
  obtain f3 where f3: "Flush W f2 = Some (OK, f3)" "written f3 ((c @ ?h) @ d)" using Flush_ok [OF f2(2)] by blast
  show ?thesis
    using assms(2) f1(1) f2(1) f3 x by (intro exI [of _ f3]) (simp add: EmitPhysicalRecord_def Let_def log_sizes phys_def)
qed

lemma add_loop_ok:
  "writer_at w c \<Longrightarrow> \<exists>w'. add_loop W first d w = Some (OK, w') \<and> writer_at w' (c @ place (length c) (frags (length c) first d))"
proof (induction "length c" first d arbitrary: w c rule: frags.induct)
  case (1 first d)
  let ?p = "pad (length c)" and ?r = "(length c + pad (length c)) mod kBlockSize"
  define n where "n = min (length d) (kBlockSize - ?r - kHeaderSize)"
  define t where "t = (if first \<and> length d = n then kFullType else if first then kFirstType
                else if length d = n then kLastType else kMiddleType)"
  obtain w1 where w1: "switch_block W w = Some w1" "written (dest w1) (c @ replicate ?p 0)" "block_offset w1 = ?r" "type_crc w1 = InitTypeCrc"
    using switch_block_ok [OF "1.prems"] by blast
  have fit: "?r + kHeaderSize + n \<le> kBlockSize" using after_pad [of "length c"] by (simp add: n_def)
  have ln: "length (take n d) = n" by (simp add: n_def)
  obtain f2 where f2: "EmitPhysicalRecord W t (take n d) w1 = Some (OK, w1\<lparr>dest := f2, block_offset := ?r + kHeaderSize + n\<rparr>)"
      "written f2 ((c @ replicate ?p 0) @ phys t (take n d))"
    using EmitPhysicalRecord_ok [OF w1(2), of "take n d" t] fit w1(3,4) ln by auto
  define w2 where "w2 = w1\<lparr>dest := f2, block_offset := ?r + kHeaderSize + n\<rparr>"
  define c2 where "c2 = c @ replicate ?p 0 @ phys t (take n d)"
  have c2: "length c2 = length c + ?p + kHeaderSize + n" by (simp add: c2_def n_def)
  have "(?r + kHeaderSize + n) mod kBlockSize = length c2 mod kBlockSize" unfolding c2 by (simp add: mod_simps add.assoc)
  then have at2: "writer_at w2 c2" using f2(2) fit w1(4) by (simp add: writer_at_def w2_def c2_def)
  have nn: "n = (if length d < kBlockSize - block_offset w1 - kHeaderSize then length d
      else kBlockSize - block_offset w1 - kHeaderSize)"
    using w1(3) by (simp add: n_def min_def)
  have al: "add_loop W first d w = (if length d - n > 0 then add_loop W False (drop n d) w2 else Some (OK, w2))"
    unfolding add_loop.simps [of W first d w] w1(1) Option.bind.simps Let_def nn [symmetric] t_def [symmetric] f2(1)
    by (simp add: w2_def)
  have fr: "frags (length c) first d = (t, take n d) # (if length d - n > 0 then frags (length c2) False (drop n d) else [])"
    unfolding frags.simps [of "length c" first d] c2 Let_def n_def [symmetric] t_def [symmetric] by simp
  show ?case
  proof (cases "length d - n > 0")
    case True
    from "1.hyps" [OF refl n_def refl t_def True _ at2] c2
    obtain w' where "add_loop W False (drop n d) w2 = Some (OK, w')" "writer_at w' (c2 @ place (length c2) (frags (length c2) False (drop n d)))"
      by auto
    then show ?thesis using True al fr c2 ln by (simp add: c2_def add.assoc)
  next
    case False
    then show ?thesis using al fr at2 by (simp add: c2_def)
  qed
qed

end

end
