(* ===== verification/Log_Reader.thy ===== *)
theory Log_Reader
  imports Log_Writer Logging
begin

text \<open>
  The reader of the write-ahead log (db/log_reader.h, db/log_reader.cc).  It reads the file block by
  block, checks every physical record and puts the fragments of a record together.  What it
  reports of damaged data is a list.  Offsets are 64-bit numbers that wrap around, as in the source.
\<close>

record 'f Reader =
  rfile :: 'f
  reporter :: "(u64 \<times> Status) list option"
  checksum :: bool
  buffer :: bytes
  eof :: bool
  last_record_offset :: u64
  end_of_buffer_offset :: u64
  initial_offset :: u64
  resyncing :: bool

definition new_Reader :: "'f \<Rightarrow> bool \<Rightarrow> bool \<Rightarrow> u64 \<Rightarrow> 'f Reader" where
  "new_Reader f has_reporter check offset = \<lparr>rfile = f, reporter = (if has_reporter then Some [] else None),
     checksum = check, buffer = [], eof = False, last_record_offset = 0, end_of_buffer_offset = 0,
     initial_offset = offset, resyncing = (offset > 0)\<rparr>"

text \<open>The types of records as the reader sees them: the byte of the file, extended as a signed
  character, and two more values.\<close>

definition kEof :: u32 where
  "kEof = word_of_nat (kMaxRecordType + 1)"

definition kBadRecord :: u32 where
  "kBadRecord = word_of_nat (kMaxRecordType + 2)"

definition rtype :: "RecordType \<Rightarrow> u32" where
  "rtype t = word_of_nat (type_code t)"

definition buffer_size :: "'f Reader \<Rightarrow> u64" where
  "buffer_size r = word_of_nat (length (buffer r))"

definition ReportDrop :: "u64 \<Rightarrow> Status \<Rightarrow> 'f Reader \<Rightarrow> 'f Reader" where
  "ReportDrop bytes reason r = (case reporter r of
     None \<Rightarrow> r
   | Some l \<Rightarrow> if end_of_buffer_offset r - buffer_size r - bytes \<ge> initial_offset r
       then r\<lparr>reporter := Some (l @ [(bytes, reason)])\<rparr> else r)"

definition ReportCorruption :: "u64 \<Rightarrow> string \<Rightarrow> 'f Reader \<Rightarrow> 'f Reader" where
  "ReportCorruption bytes reason r = ReportDrop bytes (Corruption reason []) r"

definition SkipToInitialBlock :: "'f SequentialFile \<Rightarrow> 'f Reader \<Rightarrow> (bool \<times> 'f Reader) option" where
  "SkipToInitialBlock R r =
     (let off = initial_offset r mod word_of_nat kBlockSize;
          start = initial_offset r - off;
          start = (if off > word_of_nat (kBlockSize - 6) then start + word_of_nat kBlockSize else start);
          r = r\<lparr>end_of_buffer_offset := start\<rparr>
      in if start > 0 then do {
           (s, f) \<leftarrow> Skip R (unat start) (rfile r);
           let r = r\<lparr>rfile := f\<rparr>;
           if \<not> is_ok s then Some (False, ReportDrop start s r) else Some (True, r) }
         else Some (True, r))"

section \<open>Physical records\<close>

text \<open>A header and what follows it in the buffer, which holds at least a header.\<close>

definition record_length :: "bytes \<Rightarrow> nat" where
  "record_length buf = unat ((ucast (buf ! 4) :: u32) OR push_bit 8 (ucast (buf ! 5)))"

definition record_type :: "bytes \<Rightarrow> u32" where
  "record_type buf = scast (buf ! 6)"

definition stored_crc :: "bytes \<Rightarrow> u32" where
  "stored_crc buf = Unmask (LE_LOAD32 buf)"

definition parse_physical :: "bytes \<Rightarrow> 'f Reader \<Rightarrow> u32 \<times> bytes \<times> 'f Reader" where
  "parse_physical result r =
     (let buf = buffer r; len = record_length buf; t = record_type buf in
      if kHeaderSize + len > length buf then
        let drop_size = buffer_size r; r = r\<lparr>buffer := []\<rparr> in
        if \<not> eof r then (kBadRecord, result, ReportCorruption drop_size ''bad record length'' r)
        else (kEof, result, r)
      else if t = rtype kZeroType \<and> len = 0 then (kBadRecord, result, r\<lparr>buffer := []\<rparr>)
      else if checksum r \<and> Value 0 (take (1 + len) (drop 6 buf)) \<noteq> stored_crc buf then
        let drop_size = buffer_size r; r = r\<lparr>buffer := []\<rparr> in
        (kBadRecord, result, ReportCorruption drop_size ''checksum mismatch'' r)
      else let r = r\<lparr>buffer := drop (kHeaderSize + len) buf\<rparr> in
        if end_of_buffer_offset r - buffer_size r - word_of_nat kHeaderSize - word_of_nat len < initial_offset r
        then (kBadRecord, [], r)
        else (t, take len (drop kHeaderSize buf), r))"

function ReadPhysicalRecord :: "'f SequentialFile \<Rightarrow> bytes \<Rightarrow> 'f Reader \<Rightarrow> (u32 \<times> bytes \<times> 'f Reader) option" where
  "ReadPhysicalRecord R result r =
     (if length (buffer r) < kHeaderSize then
        if \<not> eof r then
          Option.bind (Read R kBlockSize (rfile r)) (\<lambda>(s, b, f).
            let r1 = r\<lparr>rfile := f, buffer := b, end_of_buffer_offset := end_of_buffer_offset r + word_of_nat (length b)\<rparr> in
            if \<not> is_ok s then
              Some (kEof, result, (ReportDrop (word_of_nat kBlockSize) s (r1\<lparr>buffer := []\<rparr>))\<lparr>eof := True\<rparr>)
            else ReadPhysicalRecord R result (if length b < kBlockSize then r1\<lparr>eof := True\<rparr> else r1))
        else Some (kEof, result, r\<lparr>buffer := []\<rparr>)
      else Some (parse_physical result r))"
  by pat_completeness auto
termination
  by (relation "measure (\<lambda>(R, result, r). if \<not> eof r \<and> length (buffer r) < kHeaderSize then 1 else 0)")
     (auto simp: log_sizes)

declare ReadPhysicalRecord.simps [simp del]

section \<open>Records\<close>

text \<open>The test for an unfinished record when a new one starts.\<close>

definition unfinished :: "bool \<Rightarrow> bytes \<Rightarrow> string \<Rightarrow> 'f Reader \<Rightarrow> 'f Reader" where
  "unfinished in_fragmented scratch reason r =
     (if in_fragmented \<and> scratch \<noteq> [] then ReportCorruption (word_of_nat (length scratch)) reason r else r)"

text \<open>
  The loop of \<open>ReadRecord\<close>: whether a record has been begun, its offset, the fragments read so far,
  and the last fragment.  None in the result stands for the answer False.
\<close>

fun read_loop :: "'f SequentialFile \<Rightarrow> nat \<Rightarrow> bool \<Rightarrow> u64 \<Rightarrow> bytes \<Rightarrow> bytes \<Rightarrow> 'f Reader \<Rightarrow> (bytes option \<times> 'f Reader) option" where
  "read_loop R 0 in_fragmented prospective scratch fragment r = None"
| "read_loop R (Suc fuel) in_fragmented prospective scratch fragment r =
     Option.bind (ReadPhysicalRecord R fragment r) (\<lambda>(t, fragment, r).
       let offset = end_of_buffer_offset r - buffer_size r - word_of_nat kHeaderSize - word_of_nat (length fragment) in
       if resyncing r \<and> t = rtype kMiddleType then read_loop R fuel in_fragmented prospective scratch fragment r
       else if resyncing r \<and> t = rtype kLastType then
         read_loop R fuel in_fragmented prospective scratch fragment (r\<lparr>resyncing := False\<rparr>)
       else let r = r\<lparr>resyncing := False\<rparr> in
       if t = rtype kFullType then
         let r = unfinished in_fragmented scratch ''partial record without end(1)'' r in
         Some (Some fragment, r\<lparr>last_record_offset := offset\<rparr>)
       else if t = rtype kFirstType then
         let r = unfinished in_fragmented scratch ''partial record without end(2)'' r in
         read_loop R fuel True offset fragment fragment r
       else if t = rtype kMiddleType then
         if \<not> in_fragmented then
           read_loop R fuel in_fragmented prospective scratch fragment
             (ReportCorruption (word_of_nat (length fragment)) ''missing start of fragmented record(1)'' r)
         else read_loop R fuel in_fragmented prospective (scratch @ fragment) fragment r
       else if t = rtype kLastType then
         if \<not> in_fragmented then
           read_loop R fuel in_fragmented prospective scratch fragment
             (ReportCorruption (word_of_nat (length fragment)) ''missing start of fragmented record(2)'' r)
         else Some (Some (scratch @ fragment), r\<lparr>last_record_offset := prospective\<rparr>)
       else if t = kEof then Some (None, r)
       else if t = kBadRecord then
         if in_fragmented then
           read_loop R fuel False prospective [] fragment
             (ReportCorruption (word_of_nat (length scratch)) ''error in middle of record'' r)
         else read_loop R fuel in_fragmented prospective scratch fragment r
       else read_loop R fuel False prospective [] fragment
         (ReportCorruption (word_of_nat (length fragment + (if in_fragmented then length scratch else 0)))
            (''unknown record type '' @ show_nat (unat t)) r))"

definition ReadRecord :: "'f SequentialFile \<Rightarrow> nat \<Rightarrow> 'f Reader \<Rightarrow> (bytes option \<times> 'f Reader) option" where
  "ReadRecord R fuel r = do {
     (found, r) \<leftarrow> (if last_record_offset r < initial_offset r then SkipToInitialBlock R r else Some (True, r));
     if \<not> found then Some (None, r) else read_loop R fuel False 0 [] [] r }"

definition LastRecordOffset :: "'f Reader \<Rightarrow> u64" where
  "LastRecordOffset r = last_record_offset r"

end
