(* ===== verification/Log_Recovery.thy ===== *)
theory Log_Recovery
  imports Log_Reader
begin

text \<open>
  What is written to the log is read back, also after a crash that cut the file at any byte: the
  reader returns the records that are complete and reports no damage.
\<close>

section \<open>Headers\<close>

lemma pad_aligned:
  assumes "b \<le> kBlockSize" "(off + b) mod kBlockSize = 0"
  shows "pad off = (if b < kHeaderSize then b else 0)" "kHeaderSize \<le> b \<Longrightarrow> b = kBlockSize - off mod kBlockSize"
proof -
  define r where "r = off mod kBlockSize"
  have r: "r < kBlockSize" by (simp add: r_def log_sizes)
  have "(r + b) mod kBlockSize = 0" using assms(2) by (simp add: r_def mod_simps)
  then obtain q where q: "r + b = kBlockSize * q" by (metis mod_0_imp_dvd dvdE)
  have "q < 2" using r assms(1) q by (metis add_less_le_mono mult_2_right nat_mult_less_cancel1 not_less_zero bot_nat_0.not_eq_extremum less_nat_zero_code)
  then consider "r = 0" "b = 0" | "r + b = kBlockSize" using q by (cases q) auto
  then have c: "(r = 0 \<and> b = 0) \<or> r + b = kBlockSize" by auto
  have "pad off = (if kBlockSize - r < kHeaderSize then kBlockSize - r else 0)" by (simp add: pad_def Let_def r_def)
  then show "pad off = (if b < kHeaderSize then b else 0)" using r c by (auto simp: log_sizes)
  show "kHeaderSize \<le> b \<Longrightarrow> b = kBlockSize - off mod kBlockSize"
    unfolding r_def [symmetric] using c by (auto simp: log_sizes)
qed

lemma unat_two_bytes: "unat ((ucast lo :: u32) OR push_bit 8 (ucast hi)) = unat lo + 256 * unat hi" for lo hi :: byte
proof -
  have b: "unat x < 256" for x :: byte using unsigned_less [where ?'a = nat, of x] by simp
  have "(ucast lo :: u32) AND push_bit 8 (ucast hi) = 0"
    by (rule bit_word_eqI) (auto simp: bit_simps dest: bit_imp_le_length)
  then have "(ucast lo :: u32) OR push_bit 8 (ucast hi) = ucast lo + push_bit 8 (ucast hi)"
    by (simp add: disjunctive_add_eq_or)
  also have "\<dots> = word_of_nat (unat lo + 256 * unat hi)"
    by (simp add: push_bit_eq_mult mult.commute)
  finally show ?thesis using b [of lo] b [of hi] by (simp only: unat_of_nat) (simp add: take_bit_nat_eq_self)
qed

lemma record_length_phys:
  assumes "length d < 65536" "kHeaderSize \<le> m"
  shows "record_length (take m (phys t d @ y)) = length d"
proof -
  have u: "unat (word_of_nat (length d mod 256) :: byte) = length d mod 256" "unat (word_of_nat (length d div 256) :: byte) = length d div 256"
    using assms(1) by (simp_all add: unat_of_nat take_bit_nat_eq_self less_mult_imp_div_less)
  have n: "take m (phys t d @ y) ! 4 = word_of_nat (length d mod 256)" "take m (phys t d @ y) ! 5 = word_of_nat (length d div 256)"
    using assms(2) by (simp_all add: phys_def nth_append log_sizes)
  show ?thesis unfolding record_length_def unat_two_bytes n u by simp
qed

lemma record_type_phys:
  assumes "kHeaderSize \<le> m"
  shows "record_type (take m (phys t d @ y)) = rtype t"
proof -
  have "take m (phys t d @ y) ! 6 = word_of_nat (type_code t)"
    using assms by (simp add: phys_def nth_append log_sizes)
  then show ?thesis by (cases t) (simp_all add: record_type_def rtype_def)
qed

lemma stored_crc_phys:
  assumes "kHeaderSize \<le> m"
  shows "stored_crc (take m (phys t d @ y)) = crc32c (word_of_nat (type_code t) # d)"
proof -
  obtain z where "take m (phys t d @ y) = EncodeFixed32 (Mask (crc32c (word_of_nat (type_code t) # d))) @ z"
    using assms by (simp add: phys_def log_sizes)
  then show ?thesis by (simp add: stored_crc_def LE_LOAD32_def)
qed

section \<open>Physical records\<close>

text \<open>The reader as a client of any file it can read.\<close>

locale log_reader = sequential_file R unread for R :: "'f SequentialFile" and unread
begin

text \<open>The reader stands at an offset, with the bytes \<open>x\<close> before it up to the end of the file.\<close>

definition reader_at :: "nat \<Rightarrow> bytes \<Rightarrow> (u64 \<times> Status) list option \<Rightarrow> nat \<Rightarrow> 'f Reader \<Rightarrow> bool" where
  "reader_at off x rep b r \<longleftrightarrow> b \<le> kBlockSize \<and> (off + b) mod kBlockSize = 0 \<and> buffer r = take b x \<and>
     unread (rfile r) (drop b x) \<and> (eof r \<longleftrightarrow> length x < b) \<and> initial_offset r = 0 \<and> \<not> resyncing r \<and> reporter r = rep"

lemma skip_pad:
  assumes "reader_at off x rep b r" "b < kHeaderSize" "b \<le> length x"
  shows "\<exists>r'. ReadPhysicalRecord R res r = ReadPhysicalRecord R res r' \<and>
    reader_at (off + b) (drop b x) rep kBlockSize r'"
proof -
  have e: "\<not> eof r" "length (buffer r) < kHeaderSize" using assms by (auto simp: reader_at_def)
  obtain f where f: "Read R kBlockSize (rfile r) = Some (OK, take kBlockSize (drop b x), f)"
      "unread f (drop kBlockSize (drop b x))"
    using Read_ok assms(1) unfolding reader_at_def by blast
  let ?r1 = "r\<lparr>rfile := f, buffer := take kBlockSize (drop b x),
      end_of_buffer_offset := end_of_buffer_offset r + word_of_nat (length (take kBlockSize (drop b x)))\<rparr>"
  let ?r2 = "if length (take kBlockSize (drop b x)) < kBlockSize then ?r1\<lparr>eof := True\<rparr> else ?r1"
  have "ReadPhysicalRecord R res r = ReadPhysicalRecord R res ?r2"
    using e f by (subst ReadPhysicalRecord.simps) (simp add: Let_def)
  moreover have "reader_at (off + b) (drop b x) rep kBlockSize ?r2"
    using assms(1) f e by (auto simp: reader_at_def)
  ultimately show ?thesis by blast
qed

lemma parse_ok:
  assumes "reader_at off (phys t d @ y) rep b r" "kHeaderSize + length d \<le> b" "t \<noteq> kZeroType"
  shows "\<exists>r'. ReadPhysicalRecord R res r = Some (rtype t, d, r') \<and>
    reader_at (off + kHeaderSize + length d) y rep (b - (kHeaderSize + length d)) r'"
proof -
  have buf: "buffer r = take b (phys t d @ y)" and b: "b \<le> kBlockSize" using assms(1) by (auto simp: reader_at_def)
  have l: "length d < 65536" "kHeaderSize \<le> b" using assms(2) b by (simp_all add: log_sizes)
  have sz: "kHeaderSize + length d \<le> length (buffer r)" using assms(2) buf by simp
  have buf': "buffer r = phys t d @ take (b - (kHeaderSize + length d)) y" using assms(2) buf by simp
  have p: "take (1 + length d) (drop 6 (buffer r)) = word_of_nat (type_code t) # d"
      "take (length d) (drop kHeaderSize (buffer r)) = d"
    unfolding buf' by (simp_all add: phys_def log_sizes)
  have z: "rtype t \<noteq> rtype kZeroType" using assms(3) by (cases t) (simp_all add: rtype_def)
  define r' where "r' = r\<lparr>buffer := drop (kHeaderSize + length d) (buffer r)\<rparr>"
  have "parse_physical res r = (rtype t, d, r')"
    using sz z assms(1) p record_length_phys [OF l, of t y] record_type_phys [OF l(2), of t d y]
      stored_crc_phys [OF l(2), of t d y]
    by (simp add: parse_physical_def Let_def buf [symmetric] Value_crc32c r'_def reader_at_def)
  then have "ReadPhysicalRecord R res r = Some (rtype t, d, r')"
    using sz by (subst ReadPhysicalRecord.simps) simp
  moreover have "reader_at (off + kHeaderSize + length d) y rep (b - (kHeaderSize + length d)) r'"
    using assms(1,2) unfolding reader_at_def r'_def buf' by (auto simp: add.assoc)
  ultimately show ?thesis by blast
qed

lemma parse_cut:
  assumes "reader_at off (take m (phys t d)) rep b r" "m < kHeaderSize + length d" "kHeaderSize + length d \<le> b"
  shows "\<exists>r'. ReadPhysicalRecord R res r = Some (kEof, res, r') \<and> reporter r' = rep"
proof -
  have b: "b \<le> kBlockSize" "eof r" "buffer r = take m (phys t d)" "reporter r = rep"
    using assms by (auto simp: reader_at_def)
  show ?thesis
  proof (cases "m < kHeaderSize")
    case True
    then show ?thesis using b by (subst ReadPhysicalRecord.simps) simp
  next
    case False
    then have "record_length (buffer r) = length d"
      using record_length_phys [of d m t "[]"] b assms(3) by (simp add: log_sizes)
    then show ?thesis using b False assms(2) by (subst ReadPhysicalRecord.simps) (simp add: parse_physical_def Let_def)
  qed
qed

lemma frame_ok:
  assumes "reader_at off (replicate (pad off) 0 @ phys t d @ y) rep b r" "t \<noteq> kZeroType"
    "(off + pad off) mod kBlockSize + kHeaderSize + length d \<le> kBlockSize"
  shows "\<exists>r' b'. ReadPhysicalRecord R res r = Some (rtype t, d, r') \<and>
    reader_at (off + pad off + kHeaderSize + length d) y rep b' r'"
proof (cases "b < kHeaderSize")
  case True
  then have p: "pad off = b" using assms(1) pad_aligned(1) by (auto simp: reader_at_def)
  from skip_pad [OF assms(1) True] p obtain r1 where
    r1: "ReadPhysicalRecord R res r = ReadPhysicalRecord R res r1" "reader_at (off + b) (phys t d @ y) rep kBlockSize r1"
    by auto
  show ?thesis using parse_ok [OF r1(2)] r1(1) assms(2,3) p by (fastforce simp: add.assoc)
next
  case False
  then have p: "pad off = 0" "b = kBlockSize - off mod kBlockSize" using assms(1) pad_aligned by (auto simp: reader_at_def)
  then have "reader_at off (phys t d @ y) rep b r" "kHeaderSize + length d \<le> b" using assms by auto
  from parse_ok [OF this assms(2), of res] show ?thesis using p(1) by auto
qed

lemma frame_cut:
  assumes "reader_at off (take m (replicate (pad off) 0 @ phys t d)) rep b r" "m < pad off + kHeaderSize + length d"
    "(off + pad off) mod kBlockSize + kHeaderSize + length d \<le> kBlockSize"
  shows "\<exists>r'. ReadPhysicalRecord R res r = Some (kEof, res, r') \<and> reporter r' = rep"
proof (cases "b < kHeaderSize")
  case True
  then have p: "pad off = b" using assms(1) pad_aligned(1) by (auto simp: reader_at_def)
  show ?thesis
  proof (cases "m < b")
    case True
    then have "eof r" "length (buffer r) < kHeaderSize" "reporter r = rep"
      using assms(1) p \<open>b < kHeaderSize\<close> by (auto simp: reader_at_def)
    then show ?thesis by (subst ReadPhysicalRecord.simps) simp
  next
    case False
    then have "b \<le> length (take m (replicate (pad off) 0 @ phys t d))" using p by simp
    from skip_pad [OF assms(1) True this] p False obtain r1 where
      r1: "ReadPhysicalRecord R res r = ReadPhysicalRecord R res r1" "reader_at (off + b) (take (m - b) (phys t d)) rep kBlockSize r1"
      by (auto simp: drop_take)
    show ?thesis using parse_cut [OF r1(2)] r1(1) assms(2,3) p False by auto
  qed
next
  case False
  then have p: "pad off = 0" "b = kBlockSize - off mod kBlockSize" using assms(1) pad_aligned by (auto simp: reader_at_def)
  then have "reader_at off (take m (phys t d)) rep b r" "m < kHeaderSize + length d" "kHeaderSize + length d \<le> b" using assms by auto
  from parse_cut [OF this] show ?thesis .
qed

text \<open>The end of the file is a record that is cut before its first byte.\<close>

lemma frame_end:
  assumes "reader_at off [] rep b r"
  shows "\<exists>r'. ReadPhysicalRecord R res r = Some (kEof, res, r') \<and> reporter r' = rep"
  using frame_cut [of off 0 kFullType "[]" rep b r res] assms after_pad [of off] by (simp add: log_sizes)

section \<open>Records\<close>

text \<open>The fragments of a record are put together; a record that is cut is dropped without a report.\<close>

lemma read_frags:
  "reader_at off (place off (frags off first d) @ y) rep b r \<Longrightarrow> length (frags off first d) \<le> fuel \<Longrightarrow>
   \<exists>r' b'. read_loop R fuel (\<not> first) prospective scratch fragment r = Some (Some ((if first then [] else scratch) @ d), r') \<and>
     reader_at (off + length (place off (frags off first d))) y rep b' r'"
proof (induction off first d arbitrary: r b fuel prospective scratch fragment rule: frags.induct)
  case (1 off first d)
  define n where "n = min (length d) (kBlockSize - (off + pad off) mod kBlockSize - kHeaderSize)"
  define t where "t = (if first \<and> length d = n then kFullType else if first then kFirstType
                else if length d = n then kLastType else kMiddleType)"
  let ?off = "off + pad off + kHeaderSize + n"
  have fr: "frags off first d = (t, take n d) # (if length d - n > 0 then frags ?off False (drop n d) else [])"
    unfolding frags.simps [of off first d] Let_def n_def [symmetric] t_def [symmetric] by simp
  have ln: "length (take n d) = n" by (simp add: n_def)
  have fit: "(off + pad off) mod kBlockSize + kHeaderSize + length (take n d) \<le> kBlockSize"
    unfolding ln using after_pad [of off] by (simp add: n_def)
  let ?more = "length d - n > 0"
  let ?y = "(if ?more then place ?off (frags ?off False (drop n d)) else []) @ y"
  have x: "place off (frags off first d) @ y = replicate (pad off) 0 @ phys t (take n d) @ ?y" unfolding fr using ln by simp
  have tz: "t \<noteq> kZeroType" by (simp add: t_def)
  obtain fuel' where fuel: "fuel = Suc fuel'" using "1.prems"(2) fr by (cases fuel) auto
  obtain r1 b1 where r1: "ReadPhysicalRecord R fragment r = Some (rtype t, take n d, r1)" "reader_at ?off ?y rep b1 r1"
    using frame_ok [OF "1.prems"(1) [unfolded x] tz fit, of fragment] ln by auto
  have rs: "\<not> resyncing r1" "r1\<lparr>resyncing := False\<rparr> = r1" using r1(2) by (auto simp: reader_at_def)
  have upd: "reader_at o' x' rep b' (r1\<lparr>resyncing := False, last_record_offset := z\<rparr>) = reader_at o' x' rep b' r1" for o' x' b' z
    using rs(1) by (simp add: reader_at_def)
  have lp: "length (place off (frags off first d)) = pad off + kHeaderSize + n + length (if ?more then place ?off (frags ?off False (drop n d)) else [])"
    unfolding fr using ln by simp
  show ?case
  proof (cases ?more)
    case False
    then have nd: "length d = n" "take n d = d" by (simp_all add: n_def)
    then show ?thesis using r1 rs fuel False lp
      by (cases first) (auto simp: Let_def t_def rtype_def unfinished_def upd add.assoc)
  next
    case True
    then have nd: "length d \<noteq> n" by simp
    have len: "length (frags ?off False (drop n d)) \<le> fuel'" using "1.prems"(2) fr True fuel by simp
    have y: "reader_at ?off (place ?off (frags ?off False (drop n d)) @ y) rep b1 r1" using r1(2) True by simp
    note IH = "1.IH" [OF refl n_def refl t_def True y len]
    show ?thesis
    proof (cases first)
      case first: True
      then have t: "t = kFirstType" using nd by (simp add: t_def)
      from IH obtain r' b' where "read_loop R fuel' True (end_of_buffer_offset r1 - buffer_size r1 - word_of_nat kHeaderSize - word_of_nat n)
          (take n d) (take n d) r1 = Some (Some (take n d @ drop n d), r')"
        "reader_at (?off + length (place ?off (frags ?off False (drop n d)))) y rep b' r'"
        by (metis (full_types))
      then show ?thesis using r1(1) rs(1) fuel first t True lp ln
        by (auto simp: rs(2) Let_def rtype_def unfinished_def add.assoc)
    next
      case first: False
      then have t: "t = kMiddleType" using nd by (simp add: t_def)
      from IH obtain r' b' where "read_loop R fuel' True prospective (scratch @ take n d) (take n d) r1 = Some (Some ((scratch @ take n d) @ drop n d), r')"
        "reader_at (?off + length (place ?off (frags ?off False (drop n d)))) y rep b' r'"
        by (metis (full_types))
      then show ?thesis using r1(1) rs(1) fuel first t True lp
        by (auto simp: rs(2) Let_def rtype_def add.assoc)
    qed
  qed
qed

lemma read_cut_loop:
  assumes "ReadPhysicalRecord R fragment r = Some (kEof, res, r')" "reporter r' = rep"
  shows "\<exists>r''. read_loop R (Suc fuel) f prospective scratch fragment r = Some (None, r'') \<and> reporter r'' = rep"
  using assms by (simp add: Let_def rtype_def kEof_def kMaxRecordType_def)

lemma read_frags_cut:
  "reader_at off (take m (place off (frags off first d))) rep b r \<Longrightarrow> m < length (place off (frags off first d)) \<Longrightarrow>
   length (frags off first d) \<le> fuel \<Longrightarrow>
   \<exists>r'. read_loop R fuel (\<not> first) prospective scratch fragment r = Some (None, r') \<and> reporter r' = rep"
proof (induction off first d arbitrary: m r b fuel prospective scratch fragment rule: frags.induct)
  case (1 off first d)
  define n where "n = min (length d) (kBlockSize - (off + pad off) mod kBlockSize - kHeaderSize)"
  define t where "t = (if first \<and> length d = n then kFullType else if first then kFirstType
                else if length d = n then kLastType else kMiddleType)"
  let ?off = "off + pad off + kHeaderSize + n" and ?k = "pad off + kHeaderSize + n"
  have fr: "frags off first d = (t, take n d) # (if length d - n > 0 then frags ?off False (drop n d) else [])"
    unfolding frags.simps [of off first d] Let_def n_def [symmetric] t_def [symmetric] by simp
  have ln: "length (take n d) = n" by (simp add: n_def)
  have fit: "(off + pad off) mod kBlockSize + kHeaderSize + length (take n d) \<le> kBlockSize"
    unfolding ln using after_pad [of off] by (simp add: n_def)
  let ?y = "if length d - n > 0 then place ?off (frags ?off False (drop n d)) else []"
  have x: "place off (frags off first d) = (replicate (pad off) 0 @ phys t (take n d)) @ ?y" unfolding fr using ln by simp
  have lf: "length (replicate (pad off) 0 @ phys t (take n d)) = ?k" using ln by simp
  obtain fuel' where fuel: "fuel = Suc fuel'" using "1.prems"(3) fr by (cases fuel) auto
  show ?case
  proof (cases "m < ?k")
    case True
    then have "take m (place off (frags off first d)) = take m (replicate (pad off) 0 @ phys t (take n d))"
      unfolding x using lf by simp
    from frame_cut [OF "1.prems"(1) [unfolded this] _ fit] ln True
    show ?thesis unfolding fuel by (metis read_cut_loop)
  next
    case False
    then have tx: "take m (place off (frags off first d)) = replicate (pad off) 0 @ phys t (take n d) @ take (m - ?k) ?y"
      unfolding x take_append lf by (simp add: ln)
    have more: "length d - n > 0" using False "1.prems"(2) x lf by (cases "length d - n > 0") auto
    then have nd: "length d \<noteq> n" by simp
    have tz: "t \<noteq> kZeroType" by (simp add: t_def)
    obtain r1 b1 where r1: "ReadPhysicalRecord R fragment r = Some (rtype t, take n d, r1)" "reader_at ?off (take (m - ?k) ?y) rep b1 r1"
      using frame_ok [OF "1.prems"(1) [unfolded tx] tz fit, of fragment] ln by auto
    have rs: "\<not> resyncing r1" "r1\<lparr>resyncing := False\<rparr> = r1" using r1(2) by (auto simp: reader_at_def)
    have y: "reader_at ?off (take (m - ?k) (place ?off (frags ?off False (drop n d)))) rep b1 r1" using r1(2) more by simp
    have my: "m - ?k < length (place ?off (frags ?off False (drop n d)))" using False "1.prems"(2) x lf more by simp
    have len: "length (frags ?off False (drop n d)) \<le> fuel'" using "1.prems"(3) fr more fuel by simp
    note IH = "1.IH" [OF refl n_def refl t_def more y my len]
    show ?thesis
    proof (cases first)
      case first: True
      then have "t = kFirstType" using nd by (simp add: t_def)
      then show ?thesis
        using r1(1) rs(1) fuel first ln IH [of "end_of_buffer_offset r1 - buffer_size r1 - word_of_nat kHeaderSize - word_of_nat n" "take n d" "take n d"]
        by (simp add: rs(2) Let_def rtype_def unfinished_def)
    next
      case first: False
      then have "t = kMiddleType" using nd by (simp add: t_def)
      then show ?thesis
        using r1(1) rs(1) fuel first IH [of prospective "scratch @ take n d" "take n d"]
        by (simp add: rs(2) Let_def rtype_def)
    qed
  qed
qed

lemma ReadRecord_read_loop: "reader_at off x rep b r \<Longrightarrow> ReadRecord R fuel r = read_loop R fuel False 0 [] [] r"
  by (simp add: ReadRecord_def reader_at_def)

end

end
