(* ===== verification/MemEnv.thy ===== *)
theory MemEnv
  imports Files "HOL-Library.RBT" "HOL-Library.List_Lexorder" "HOL-Library.Char_ord"
    "HOL-Library.Multiset" "HOL-Library.Monad_Syntax"
begin

text \<open>
  Files in memory (helpers/memenv/memenv.cc): a file is a reference-counted object that keeps its
  bytes in blocks; the environment maps names to files; readers and writers hold a reference.
  Objects live on a heap, so that a reference to a deleted object shows: an operation that
  follows a null or dangling pointer, or reads bytes never written, is None.
\<close>

definition kBlockSize :: nat where
  "kBlockSize = 8 * 1024"

text \<open>A block is represented by its initialised bytes, which are a prefix of the block.\<close>

record FileState =
  refs :: int
  blocks :: "bytes list"
  file_size :: nat

definition new_FileState :: FileState where
  "new_FileState = \<lparr>refs = 0, blocks = [], file_size = 0\<rparr>"

section \<open>Reading and appending\<close>

text \<open>The bytes \<open>[off, off + n)\<close> of a block.\<close>

definition block_bytes :: "bytes list \<Rightarrow> nat \<Rightarrow> nat \<Rightarrow> nat \<Rightarrow> bytes option" where
  "block_bytes bs block off n =
     (if block < length bs \<and> off + n \<le> length (bs ! block) then Some (take n (drop off (bs ! block))) else None)"

function copy_blocks :: "bytes list \<Rightarrow> nat \<Rightarrow> nat \<Rightarrow> nat \<Rightarrow> bytes option" where
  "copy_blocks bs block block_offset bytes_to_copy =
     (if bytes_to_copy > 0 then
        let avail = min (kBlockSize - block_offset) bytes_to_copy in
        case block_bytes bs block block_offset avail of
          None \<Rightarrow> None
        | Some x \<Rightarrow> map_option (\<lambda>y. x @ y) (copy_blocks bs (block + 1) 0 (bytes_to_copy - avail))
      else Some [])"
  by pat_completeness auto
termination
  by (relation "measure (\<lambda>(bs, block, _, _). length bs - block)") (auto simp: block_bytes_def split: if_splits)

declare copy_blocks.simps [simp del]

definition FileState_Read :: "FileState \<Rightarrow> nat \<Rightarrow> nat \<Rightarrow> (Status \<times> bytes) option" where
  "FileState_Read f off n =
     (if off > file_size f then Some (IOError ''Offset greater than file size.'' [], [])
      else let n = min n (file_size f - off) in
        if n = 0 then Some (OK, [])
        else let block = off div kBlockSize; block_offset = off mod kBlockSize in
          if n \<le> kBlockSize - block_offset
          then map_option (Pair OK) (block_bytes (blocks f) block block_offset n)
          else map_option (Pair OK) (copy_blocks (blocks f) block block_offset n))"

definition memcpy_block :: "bytes \<Rightarrow> nat \<Rightarrow> bytes \<Rightarrow> bytes option" where
  "memcpy_block b off src = (if off \<le> length b then Some (take off b @ src @ drop (off + length src) b) else None)"

definition last_block :: "bytes list \<Rightarrow> bytes option" where
  "last_block bs = (if bs = [] then None else Some (last bs))"

function append_loop :: "FileState \<Rightarrow> bytes \<Rightarrow> FileState option" where
  "append_loop f src =
     (if length src > 0 then
        let off = file_size f mod kBlockSize;
            bs = (if off \<noteq> 0 then blocks f else blocks f @ [[]]);
            avail = min (if off \<noteq> 0 then kBlockSize - off else kBlockSize) (length src)
        in case last_block bs of
             None \<Rightarrow> None
           | Some b \<Rightarrow> (case memcpy_block b off (take avail src) of
               None \<Rightarrow> None
             | Some b' \<Rightarrow> append_loop (f\<lparr>blocks := butlast bs @ [b'], file_size := file_size f + avail\<rparr>) (drop avail src))
      else Some f)"
  by pat_completeness auto
termination
  by (relation "measure (\<lambda>(f, src). length src)") (auto simp: kBlockSize_def)

declare append_loop.simps [simp del]

definition FileState_Append :: "FileState \<Rightarrow> bytes \<Rightarrow> (Status \<times> FileState) option" where
  "FileState_Append f data = map_option (Pair OK) (append_loop f data)"

section \<open>The bytes of a file\<close>

function chunks :: "bytes \<Rightarrow> bytes list" where
  "chunks c = (if c = [] then [] else take kBlockSize c # chunks (drop kBlockSize c))"
  by pat_completeness auto
termination
  by (relation "measure length") (auto simp: kBlockSize_def)

declare chunks.simps [simp del]

text \<open>A file holds the bytes \<open>c\<close>.\<close>

definition holds :: "FileState \<Rightarrow> bytes \<Rightarrow> bool" where
  "holds f c \<longleftrightarrow> blocks f = chunks c \<and> file_size f = length c"

lemma kBlockSize_pos [simp]: "0 < kBlockSize" "kBlockSize \<noteq> 0"
  by (simp_all add: kBlockSize_def)

lemma chunks_Nil [simp]: "chunks [] = []"
  by (simp add: chunks.simps)

lemma chunks_eq_Nil [simp]: "chunks c = [] \<longleftrightarrow> c = []"
  by (subst chunks.simps) simp

lemma chunks_short: "c \<noteq> [] \<Longrightarrow> length c \<le> kBlockSize \<Longrightarrow> chunks c = [c]"
  by (subst chunks.simps) simp

lemma chunks_nth: "i * kBlockSize < length c \<Longrightarrow> i < length (chunks c) \<and> chunks c ! i = take kBlockSize (drop (i * kBlockSize) c)"
proof (induction i arbitrary: c)
  case 0
  then show ?case by (subst (1 2) chunks.simps) simp
next
  case (Suc i)
  then have "c \<noteq> []" "i * kBlockSize < length (drop kBlockSize c)" by auto
  with Suc.IH [of "drop kBlockSize c"] show ?case
    by (subst (1 2) chunks.simps) (simp add: add.commute)
qed

lemma chunks_append_new:
  "length c mod kBlockSize = 0 \<Longrightarrow> d \<noteq> [] \<Longrightarrow> length d \<le> kBlockSize \<Longrightarrow> chunks (c @ d) = chunks c @ [d]"
proof (induction c rule: chunks.induct)
  case (1 c)
  show ?case
  proof (cases "c = []")
    case True
    then show ?thesis using "1.prems" by (simp add: chunks_short)
  next
    case False
    then have l: "kBlockSize \<le> length c" using "1.prems"(1) by (metis length_0_conv mod_less not_le)
    then have "length (drop kBlockSize c) mod kBlockSize = 0" using "1.prems"(1) by (simp add: le_mod_geq)
    then show ?thesis using "1.IH" [OF False] "1.prems" False l
      by (subst (1 2) chunks.simps) simp
  qed
qed

lemma chunks_append_last:
  "length c mod kBlockSize \<noteq> 0 \<Longrightarrow> length d \<le> kBlockSize - length c mod kBlockSize \<Longrightarrow>
   chunks (c @ d) = butlast (chunks c) @ [last (chunks c) @ d] \<and> length (last (chunks c)) = length c mod kBlockSize"
proof (induction c rule: chunks.induct)
  case (1 c)
  then have ne: "c \<noteq> []" by auto
  show ?case
  proof (cases "length c < kBlockSize")
    case True
    then show ?thesis using "1.prems" ne by (simp add: chunks_short)
  next
    case False
    then have m: "length (drop kBlockSize c) mod kBlockSize = length c mod kBlockSize" by (simp add: le_mod_geq)
    then have "drop kBlockSize c \<noteq> []" using "1.prems" by auto
    then show ?thesis using "1.IH" [OF ne] "1.prems" m False ne
      by (subst (1 2 3 4) chunks.simps) simp
  qed
qed

lemma block_bytes_chunks:
  assumes "block * kBlockSize + off + n \<le> length c" "off + n \<le> kBlockSize" "0 < n"
  shows "block_bytes (chunks c) block off n = Some (take n (drop (block * kBlockSize + off) c))"
proof -
  have "block * kBlockSize < length c" using assms by linarith
  from chunks_nth [OF this] have b: "block < length (chunks c)" "chunks c ! block = take kBlockSize (drop (block * kBlockSize) c)"
    by auto
  have "off + n \<le> length (chunks c ! block)" "n \<le> kBlockSize - off" using assms b by auto
  then show ?thesis using b by (simp add: block_bytes_def drop_take min_def add.commute)
qed

lemma copy_blocks_chunks:
  "block * kBlockSize + off + n \<le> length c \<Longrightarrow> off < kBlockSize \<Longrightarrow>
   copy_blocks (chunks c) block off n = Some (take n (drop (block * kBlockSize + off) c))"
proof (induction n arbitrary: block off rule: less_induct)
  case (less n)
  show ?case
  proof (cases "n = 0")
    case True
    then show ?thesis by (simp add: copy_blocks.simps)
  next
    case False
    define avail where "avail = min (kBlockSize - off) n"
    have a: "0 < avail" "avail \<le> n" "off + avail \<le> kBlockSize" using False less.prems by (auto simp: avail_def)
    then have b: "block_bytes (chunks c) block off avail = Some (take avail (drop (block * kBlockSize + off) c))"
      using less.prems by (intro block_bytes_chunks) auto
    have r: "copy_blocks (chunks c) (block + 1) 0 (n - avail) = Some (take (n - avail) (drop (block * kBlockSize + off + avail) c))"
    proof (cases "avail = n")
      case True
      then show ?thesis by (simp add: copy_blocks.simps)
    next
      case False
      then have "off + avail = kBlockSize" using a by (auto simp: avail_def min_def split: if_splits)
      then have e: "block * kBlockSize + off + avail = (block + 1) * kBlockSize" by simp
      have "(block + 1) * kBlockSize + 0 + (n - avail) \<le> length c" unfolding e [symmetric] using less.prems a by simp
      from less.IH [OF _ this] show ?thesis unfolding e using a less.prems by simp
    qed
    have "take n (drop x c) = take avail (drop x c) @ take (n - avail) (drop (x + avail) c)" for x
      using a by (metis (no_types) add.commute drop_drop le_add_diff_inverse take_add)
    then show ?thesis using False b r
      by (subst copy_blocks.simps) (simp add: avail_def [symmetric] Let_def)
  qed
qed

lemma FileState_Read_holds:
  assumes "holds f c"
  shows "FileState_Read f off n =
    (if off \<le> length c then Some (OK, take n (drop off c)) else Some (IOError ''Offset greater than file size.'' [], []))"
proof (cases "off < length c \<and> 0 < n")
  case True
  let ?n = "min n (length c - off)" and ?b = "off div kBlockSize" and ?o = "off mod kBlockSize"
  have e: "?b * kBlockSize + ?o = off" by simp
  have o: "?o < kBlockSize" by simp
  have t: "take ?n (drop off c) = take n (drop off c)" by (simp add: min_def)
  have le: "?b * kBlockSize + ?o + ?n \<le> length c" unfolding e using True by auto
  show ?thesis
  proof (cases "?n \<le> kBlockSize - ?o")
    case small: True
    then have "block_bytes (chunks c) ?b ?o ?n = Some (take n (drop off c))"
      using block_bytes_chunks [OF le] True o less_imp_le [OF o] unfolding e t by (simp add: le_diff_conv2 add.commute)
    then show ?thesis using True small assms by (auto simp: FileState_Read_def holds_def Let_def)
  next
    case large: False
    then have "copy_blocks (chunks c) ?b ?o ?n = Some (take n (drop off c))"
      using copy_blocks_chunks [OF le o] unfolding e t by simp
    then show ?thesis using True large assms by (auto simp: FileState_Read_def holds_def Let_def)
  qed
next
  case False
  then show ?thesis using assms by (auto simp: FileState_Read_def holds_def Let_def)
qed

lemma append_loop_holds:
  "holds f c \<Longrightarrow> \<exists>f'. append_loop f src = Some f' \<and> holds f' (c @ src) \<and> refs f' = refs f"
proof (induction src arbitrary: f c rule: length_induct)
  case (1 src)
  show ?case
  proof (cases "src = []")
    case True
    then show ?thesis using "1.prems" by (simp add: append_loop.simps)
  next
    case False
    define off where "off = file_size f mod kBlockSize"
    define bs where "bs = (if off \<noteq> 0 then blocks f else blocks f @ [[]])"
    define avail where "avail = min (if off \<noteq> 0 then kBlockSize - off else kBlockSize) (length src)"
    define f' where "f' = f\<lparr>blocks := butlast bs @ [last bs @ take avail src], file_size := file_size f + avail\<rparr>"
    have c: "blocks f = chunks c" "off = length c mod kBlockSize" "file_size f = length c"
      using "1.prems" by (simp_all add: holds_def off_def)
    have a: "0 < avail" "avail \<le> length src" "avail \<le> kBlockSize" "off \<noteq> 0 \<Longrightarrow> avail \<le> kBlockSize - off"
      using False by (auto simp: avail_def off_def)
    have l: "bs \<noteq> [] \<and> length (last bs) = off \<and> butlast bs @ [last bs @ take avail src] = chunks (c @ take avail src)"
    proof (cases "off = 0")
      case True
      then show ?thesis using chunks_append_new [of c "take avail src"] c a False by (auto simp: bs_def)
    next
      case off: False
      then have "c \<noteq> []" using c by auto
      then show ?thesis using chunks_append_last [of c "take avail src"] c a off by (auto simp: bs_def)
    qed
    have m: "last_block bs = Some (last bs)" "memcpy_block (last bs) off (take avail src) = Some (last bs @ take avail src)"
      using l by (simp_all add: last_block_def memcpy_block_def)
    have "append_loop f src = append_loop f' (drop avail src)"
      unfolding append_loop.simps [of f src] Let_def off_def [symmetric] bs_def [symmetric] avail_def [symmetric] m option.case
      using False by (simp only: f'_def) simp
    moreover have "holds f' (c @ take avail src)" using l c a by (simp add: f'_def holds_def)
    ultimately show ?thesis using "1.IH" [rule_format, of "drop avail src" f' "c @ take avail src"] a False
      by (simp add: f'_def)
  qed
qed

lemma FileState_Append_holds:
  "holds f c \<Longrightarrow> \<exists>f'. FileState_Append f data = Some (OK, f') \<and> holds f' (c @ data) \<and> refs f' = refs f"
  using append_loop_holds [of f c data] by (auto simp: FileState_Append_def)

lemma new_FileState_holds [simp]: "holds new_FileState []"
  by (simp add: holds_def new_FileState_def)

section \<open>The environment\<close>

text \<open>
  The heap of files, the next free address, and the directory.  A null pointer in the directory
  is None.
\<close>

record InMemoryEnv =
  heap :: "nat \<rightharpoonup> FileState"
  fresh :: nat
  file_map :: "(string, nat option) RBT.rbt"

definition new_InMemoryEnv :: InMemoryEnv where
  "new_InMemoryEnv = \<lparr>heap = Map.empty, fresh = 0, file_map = RBT.empty\<rparr>"

record SequentialFileImpl =
  seq_file :: nat
  pos :: nat

definition store :: "nat \<Rightarrow> FileState \<Rightarrow> InMemoryEnv \<Rightarrow> InMemoryEnv" where
  "store a f e = e\<lparr>heap := (heap e)(a \<mapsto> f)\<rparr>"

definition alloc :: "InMemoryEnv \<Rightarrow> nat \<times> InMemoryEnv" where
  "alloc e = (fresh e, store (fresh e) new_FileState (e\<lparr>fresh := fresh e + 1\<rparr>))"

definition Ref :: "nat \<Rightarrow> InMemoryEnv \<Rightarrow> InMemoryEnv option" where
  "Ref a e = do { f \<leftarrow> heap e a; Some (store a (f\<lparr>refs := refs f + 1\<rparr>) e) }"

text \<open>The assertion that the counter does not become negative is checked.\<close>

definition Unref :: "nat \<Rightarrow> InMemoryEnv \<Rightarrow> InMemoryEnv option" where
  "Unref a e = do { f \<leftarrow> heap e a;
     let r = refs f - 1 in
     if r < 0 then None
     else if r \<le> 0 then Some (e\<lparr>heap := (heap e)(a := None)\<rparr>)
     else Some (store a (f\<lparr>refs := r\<rparr>) e) }"

definition NewSequentialFile :: "string \<Rightarrow> InMemoryEnv \<Rightarrow> (Status \<times> SequentialFileImpl option \<times> InMemoryEnv) option" where
  "NewSequentialFile fname e = (case RBT.lookup (file_map e) fname of
     None \<Rightarrow> Some (IOError fname ''File not found'', None, e)
   | Some p \<Rightarrow> do { a \<leftarrow> p; e \<leftarrow> Ref a e; Some (OK, Some \<lparr>seq_file = a, pos = 0\<rparr>, e) })"

definition NewRandomAccessFile :: "string \<Rightarrow> InMemoryEnv \<Rightarrow> (Status \<times> nat option \<times> InMemoryEnv) option" where
  "NewRandomAccessFile fname e = (case RBT.lookup (file_map e) fname of
     None \<Rightarrow> Some (IOError fname ''File not found'', None, e)
   | Some p \<Rightarrow> do { a \<leftarrow> p; e \<leftarrow> Ref a e; Some (OK, Some a, e) })"

definition DeleteFileInternal :: "string \<Rightarrow> InMemoryEnv \<Rightarrow> InMemoryEnv option" where
  "DeleteFileInternal fname e = (case RBT.lookup (file_map e) fname of
     None \<Rightarrow> Some e
   | Some p \<Rightarrow> do { a \<leftarrow> p; e \<leftarrow> Unref a e; Some (e\<lparr>file_map := RBT.delete fname (file_map e)\<rparr>) })"

text \<open>A writer is the address of its file.\<close>

definition NewWritableFile :: "string \<Rightarrow> InMemoryEnv \<Rightarrow> (Status \<times> nat \<times> InMemoryEnv) option" where
  "NewWritableFile fname e = do {
     e \<leftarrow> (if RBT.lookup (file_map e) fname \<noteq> None then DeleteFileInternal fname e else Some e);
     let (a, e) = alloc e;
     e \<leftarrow> Ref a e;
     let e = e\<lparr>file_map := RBT.insert fname (Some a) (file_map e)\<rparr>;
     e \<leftarrow> Ref a e;
     Some (OK, a, e) }"

text \<open>The lookup inserts a null pointer for a new name, and the new file is not stored there.\<close>

definition NewAppendableFile :: "string \<Rightarrow> InMemoryEnv \<Rightarrow> (Status \<times> nat \<times> InMemoryEnv) option" where
  "NewAppendableFile fname e =
     (let e = (if RBT.lookup (file_map e) fname = None
               then e\<lparr>file_map := RBT.insert fname None (file_map e)\<rparr> else e)
      in case RBT.lookup (file_map e) fname of
        Some (Some a) \<Rightarrow> do { e \<leftarrow> Ref a e; Some (OK, a, e) }
      | _ \<Rightarrow> do { let (a, e) = alloc e; e \<leftarrow> Ref a e; e \<leftarrow> Ref a e; Some (OK, a, e) })"

definition FileExists :: "string \<Rightarrow> InMemoryEnv \<Rightarrow> bool" where
  "FileExists fname e \<longleftrightarrow> RBT.lookup (file_map e) fname \<noteq> None"

definition GetChildren :: "string \<Rightarrow> InMemoryEnv \<Rightarrow> string list" where
  "GetChildren dir e = map (\<lambda>n. drop (length dir + 1) n)
     (filter (\<lambda>n. length n \<ge> length dir + 1 \<and> n ! length dir = CHR ''/'' \<and> take (length dir) n = dir)
        (RBT.keys (file_map e)))"

definition DeleteFile :: "string \<Rightarrow> InMemoryEnv \<Rightarrow> (Status \<times> InMemoryEnv) option" where
  "DeleteFile fname e = (case RBT.lookup (file_map e) fname of
     None \<Rightarrow> Some (IOError fname ''File not found'', e)
   | Some _ \<Rightarrow> do { e \<leftarrow> DeleteFileInternal fname e; Some (OK, e) })"

definition GetFileSize :: "string \<Rightarrow> InMemoryEnv \<Rightarrow> (Status \<times> nat) option" where
  "GetFileSize fname e = (case RBT.lookup (file_map e) fname of
     None \<Rightarrow> Some (IOError fname ''File not found'', 0)
   | Some p \<Rightarrow> do { a \<leftarrow> p; f \<leftarrow> heap e a; Some (OK, file_size f) })"

text \<open>After the target has been deleted the source is looked up again; a name that is gone gives a
  null pointer.\<close>

definition RenameFile :: "string \<Rightarrow> string \<Rightarrow> InMemoryEnv \<Rightarrow> (Status \<times> InMemoryEnv) option" where
  "RenameFile src target e = (case RBT.lookup (file_map e) src of
     None \<Rightarrow> Some (IOError src ''File not found'', e)
   | Some _ \<Rightarrow> do {
       e \<leftarrow> DeleteFileInternal target e;
       let p = (case RBT.lookup (file_map e) src of Some p \<Rightarrow> p | None \<Rightarrow> None);
       Some (OK, e\<lparr>file_map := RBT.delete src (RBT.insert target p (file_map e))\<rparr>) })"

text \<open>The destructor of the environment gives back the reference of every name.\<close>

fun unref_all :: "nat option list \<Rightarrow> InMemoryEnv \<Rightarrow> InMemoryEnv option" where
  "unref_all [] e = Some e"
| "unref_all (p # ps) e = do { a \<leftarrow> p; e \<leftarrow> Unref a e; unref_all ps e }"

definition delete_InMemoryEnv :: "InMemoryEnv \<Rightarrow> InMemoryEnv option" where
  "delete_InMemoryEnv e = unref_all (map snd (RBT.entries (file_map e))) e"

section \<open>Open files\<close>

text \<open>An open file is the environment together with the reader or the writer.\<close>

definition SequentialFileImpl_Read ::
  "nat \<Rightarrow> InMemoryEnv \<times> SequentialFileImpl \<Rightarrow> (Status \<times> bytes \<times> InMemoryEnv \<times> SequentialFileImpl) option" where
  "SequentialFileImpl_Read n = (\<lambda>(e, r). do {
     f \<leftarrow> heap e (seq_file r);
     (s, result) \<leftarrow> FileState_Read f (pos r) n;
     Some (s, result, e, if is_ok s then r\<lparr>pos := pos r + length result\<rparr> else r) })"

definition SequentialFileImpl_Skip ::
  "nat \<Rightarrow> InMemoryEnv \<times> SequentialFileImpl \<Rightarrow> (Status \<times> InMemoryEnv \<times> SequentialFileImpl) option" where
  "SequentialFileImpl_Skip n = (\<lambda>(e, r). do {
     f \<leftarrow> heap e (seq_file r);
     if pos r > file_size f then Some (IOError ''pos_ > file_->Size()'' [], e, r)
     else Some (OK, e, r\<lparr>pos := pos r + min n (file_size f - pos r)\<rparr>) })"

definition RandomAccessFileImpl_Read :: "nat \<Rightarrow> nat \<Rightarrow> InMemoryEnv \<times> nat \<Rightarrow> (Status \<times> bytes) option" where
  "RandomAccessFileImpl_Read off n = (\<lambda>(e, a). do { f \<leftarrow> heap e a; FileState_Read f off n })"

definition WritableFileImpl_Append :: "bytes \<Rightarrow> InMemoryEnv \<times> nat \<Rightarrow> (Status \<times> InMemoryEnv \<times> nat) option" where
  "WritableFileImpl_Append data = (\<lambda>(e, a). do {
     f \<leftarrow> heap e a;
     (s, f') \<leftarrow> FileState_Append f data;
     Some (s, store a f' e, a) })"

definition WritableFileImpl_Flush :: "InMemoryEnv \<times> nat \<Rightarrow> (Status \<times> InMemoryEnv \<times> nat) option" where
  "WritableFileImpl_Flush = (\<lambda>(e, a). Some (OK, e, a))"

definition mem_sequential :: "(InMemoryEnv \<times> SequentialFileImpl) SequentialFile" where
  "mem_sequential = \<lparr>Read = SequentialFileImpl_Read, Skip = SequentialFileImpl_Skip\<rparr>"

definition mem_writable :: "(InMemoryEnv \<times> nat) WritableFile" where
  "mem_writable = \<lparr>Append = WritableFileImpl_Append, Flush = WritableFileImpl_Flush\<rparr>"

definition file_holds :: "InMemoryEnv \<Rightarrow> nat \<Rightarrow> bytes \<Rightarrow> bool" where
  "file_holds e a c \<longleftrightarrow> (\<exists>f. heap e a = Some f \<and> holds f c)"

definition mem_written :: "InMemoryEnv \<times> nat \<Rightarrow> bytes \<Rightarrow> bool" where
  "mem_written = (\<lambda>(e, a). file_holds e a)"

definition mem_unread :: "InMemoryEnv \<times> SequentialFileImpl \<Rightarrow> bytes \<Rightarrow> bool" where
  "mem_unread = (\<lambda>(e, r) c. \<exists>all. file_holds e (seq_file r) all \<and> pos r \<le> length all \<and> c = drop (pos r) all)"

interpretation mem_writer: writable_file mem_writable mem_written
proof
  fix f c d assume "mem_written f c"
  then obtain e a g where g: "f = (e, a)" "heap e a = Some g" "holds g c"
    by (auto simp: mem_written_def file_holds_def split: prod.splits)
  with FileState_Append_holds [OF g(3), of d]
  show "\<exists>f'. Append mem_writable d f = Some (OK, f') \<and> mem_written f' (c @ d)"
    by (auto simp: mem_writable_def WritableFileImpl_Append_def mem_written_def file_holds_def store_def)
next
  fix f c assume "mem_written f c"
  then show "\<exists>f'. Flush mem_writable f = Some (OK, f') \<and> mem_written f' c"
    by (auto simp: mem_writable_def WritableFileImpl_Flush_def split: prod.splits)
qed

interpretation mem_reader: sequential_file mem_sequential mem_unread
proof
  fix f c n assume "mem_unread f c"
  then obtain e r g all where g: "f = (e, r)" "heap e (seq_file r) = Some g" "holds g all"
      "pos r \<le> length all" "c = drop (pos r) all"
    by (auto simp: mem_unread_def file_holds_def split: prod.splits)
  then show "\<exists>f'. Read mem_sequential n f = Some (OK, take n c, f') \<and> mem_unread f' (drop n c)"
    by (auto simp: mem_sequential_def SequentialFileImpl_Read_def mem_unread_def file_holds_def
        FileState_Read_holds min_def add.commute)
  show "\<exists>f'. Skip mem_sequential n f = Some (OK, f') \<and> mem_unread f' (drop n c)"
    using g by (auto simp: mem_sequential_def SequentialFileImpl_Skip_def mem_unread_def file_holds_def
        holds_def min_def add.commute)
qed

end
