(* ===== verification/Log_Properties.thy ===== *)
theory Log_Properties
  imports Log_Recovery MemEnv
begin

text \<open>
  A log written and read through the files in memory: the records that a client adds and reads
  one after the other.
\<close>

section \<open>A log of records\<close>

text \<open>The bytes of a log that starts at an offset.\<close>

fun log_bytes :: "nat \<Rightarrow> bytes list \<Rightarrow> bytes" where
  "log_bytes off [] = []"
| "log_bytes off (d # ds) =
     (let x = place off (frags off True d) in x @ log_bytes (off + length x) ds)"

text \<open>Adding records, and reading records until there are no more.\<close>

fun write_all :: "'f WritableFile \<Rightarrow> bytes list \<Rightarrow> 'f Writer \<Rightarrow> (Status \<times> 'f Writer) option" where
  "write_all W [] w = Some (OK, w)"
| "write_all W (d # ds) w = Option.bind (AddRecord W d w) (\<lambda>(s, w). if is_ok s then write_all W ds w else Some (s, w))"

fun read_all :: "'f SequentialFile \<Rightarrow> nat \<Rightarrow> nat \<Rightarrow> 'f Reader \<Rightarrow> (bytes list \<times> 'f Reader) option" where
  "read_all R fuel 0 r = None"
| "read_all R fuel (Suc k) r = Option.bind (ReadRecord R fuel r) (\<lambda>(x, r). case x of
     None \<Rightarrow> Some ([], r)
   | Some d \<Rightarrow> map_option (\<lambda>(ds, r). (d # ds, r)) (read_all R fuel k r))"

text \<open>How many records are complete in the first \<open>m\<close> bytes.\<close>

fun complete :: "nat \<Rightarrow> nat \<Rightarrow> bytes list \<Rightarrow> nat" where
  "complete off m [] = 0"
| "complete off m (d # ds) =
     (let l = length (place off (frags off True d)) in
      if m < l then 0 else 1 + complete (off + l) (m - l) ds)"

lemma frags_less_place: "length (frags off first d) \<le> length (place off (frags off first d))"
proof -
  have "length xs \<le> length (place off xs)" for xs off
    by (induction off xs rule: place.induct) (auto simp: log_sizes)
  then show ?thesis .
qed

lemma complete_max: "complete off m ds \<le> length ds"
  by (induction off m ds rule: complete.induct) (auto simp: Let_def)

lemma complete_all: "length (log_bytes off ds) \<le> m \<Longrightarrow> complete off m ds = length ds"
  by (induction off m ds rule: complete.induct) (auto simp: Let_def)

lemma complete_iff: "i < length ds \<Longrightarrow> i < complete off m ds \<longleftrightarrow> length (log_bytes off (take (Suc i) ds)) \<le> m"
proof (induction off m ds arbitrary: i rule: complete.induct)
  case (2 off m d ds)
  define l where "l = length (place off (frags off True d))"
  show ?case
  proof (cases i)
    case 0
    then show ?thesis by (auto simp: Let_def)
  next
    case (Suc j)
    show ?thesis
    proof (cases "m < l")
      case True
      then show ?thesis using Suc by (auto simp: Let_def l_def)
    next
      case False
      then show ?thesis using "2.IH" [OF l_def False, of j] Suc "2.prems" by (auto simp: Let_def l_def)
    qed
  qed
qed simp

context log_writer
begin

lemma write_all_ok:
  "writer_at w c \<Longrightarrow> \<exists>w'. write_all W ds w = Some (OK, w') \<and> writer_at w' (c @ log_bytes (length c) ds)"
proof (induction ds arbitrary: w c)
  case (Cons d ds)
  obtain w1 where w1: "add_loop W True d w = Some (OK, w1)" "writer_at w1 (c @ place (length c) (frags (length c) True d))"
    using add_loop_ok [OF Cons.prems] by blast
  from Cons.IH [OF w1(2)] show ?case using w1(1) by (auto simp: AddRecord_def Let_def)
qed auto

lemma writer_at_new:
  "written f c \<Longrightarrow> writer_at (new_Writer_at f (length c)) c" "written f [] \<Longrightarrow> writer_at (new_Writer f) []"
  by (simp_all add: writer_at_def new_Writer_at_def new_Writer_def log_sizes)

end

context log_reader
begin

text \<open>One call of the reader on a log that is cut: the end, or the next record.\<close>

lemma ReadRecord_end:
  assumes "reader_at off [] rep b r" "0 < fuel"
  shows "\<exists>r'. ReadRecord R fuel r = Some (None, r') \<and> reporter r' = rep"
proof -
  obtain r' where r': "ReadPhysicalRecord R [] r = Some (kEof, [], r')" "reporter r' = rep" using frame_end [OF assms(1)] by blast
  show ?thesis using read_cut_loop [OF r'] assms(2) ReadRecord_read_loop [OF assms(1), of fuel] by (cases fuel) auto
qed

lemma ReadRecord_next:
  assumes r: "reader_at off (take m (log_bytes off (d # ds))) rep b r" and f: "length (log_bytes off (d # ds)) < fuel"
  defines "l \<equiv> length (place off (frags off True d))"
  shows "m < l \<Longrightarrow> \<exists>r'. ReadRecord R fuel r = Some (None, r') \<and> reporter r' = rep"
    "\<not> m < l \<Longrightarrow> \<exists>r' b'. ReadRecord R fuel r = Some (Some d, r') \<and> reader_at (off + l) (take (m - l) (log_bytes (off + l) ds)) rep b' r'"
proof -
  let ?x = "place off (frags off True d)"
  have lf: "length (frags off True d) \<le> fuel" using frags_less_place [of off True d] f by (simp add: Let_def)
  note rr = ReadRecord_read_loop [OF r, of fuel]
  show "\<exists>r'. ReadRecord R fuel r = Some (None, r') \<and> reporter r' = rep" if "m < l"
  proof -
    have "reader_at off (take m ?x) rep b r" using r that by (simp add: Let_def l_def)
    from read_frags_cut [OF this that [unfolded l_def] lf, of 0 "[]" "[]"] show ?thesis using rr by auto
  qed
  show "\<exists>r' b'. ReadRecord R fuel r = Some (Some d, r') \<and> reader_at (off + l) (take (m - l) (log_bytes (off + l) ds)) rep b' r'"
    if "\<not> m < l"
  proof -
    have "reader_at off (?x @ take (m - l) (log_bytes (off + l) ds)) rep b r" using r that by (simp add: Let_def l_def)
    from read_frags [OF this lf, of 0 "[]" "[]"] show ?thesis using rr by (auto simp: l_def)
  qed
qed

lemma reader_at_reporter: "reader_at off x rep b r \<Longrightarrow> reporter r = rep"
  by (simp add: reader_at_def)

lemma read_all_ok:
  "reader_at off (take m (log_bytes off ds)) rep b r \<Longrightarrow> length (log_bytes off ds) < fuel \<Longrightarrow> length ds < k \<Longrightarrow>
   \<exists>r'. read_all R fuel k r = Some (take (complete off m ds) ds, r') \<and> reporter r' = rep"
proof (induction ds arbitrary: off m b r k)
  case Nil
  then obtain k' where "k = Suc k'" by (cases k) auto
  then show ?case using ReadRecord_end [of off rep b r fuel] Nil by auto
next
  case (Cons d ds)
  let ?l = "length (place off (frags off True d))"
  obtain k' where k: "k = Suc k'" using Cons.prems(3) by (cases k) auto
  note n = ReadRecord_next [OF Cons.prems(1,2)]
  show ?case
  proof (cases "m < ?l")
    case True
    then show ?thesis using n(1) k by (auto simp: Let_def)
  next
    case False
    obtain r1 b1 where r1: "ReadRecord R fuel r = Some (Some d, r1)" "reader_at (off + ?l) (take (m - ?l) (log_bytes (off + ?l) ds)) rep b1 r1"
      using n(2) [OF False] by blast
    have "\<exists>r'. read_all R fuel k' r1 = Some (take (complete (off + ?l) (m - ?l) ds) ds, r') \<and> reporter r' = rep"
      using Cons.IH [OF r1(2)] Cons.prems(2,3) k by (simp add: Let_def)
    then show ?thesis using False k r1(1) by (auto simp: Let_def)
  qed
qed

lemma new_reader_at: "unread f x \<Longrightarrow> reader_at 0 x (if rep then Some [] else None) 0 (new_Reader f rep check 0)"
  by (simp add: reader_at_def new_Reader_def)

end

lemma log_bytes_append: "log_bytes off (ds @ es) = log_bytes off ds @ log_bytes (off + length (log_bytes off ds)) es"
  by (induction off ds rule: log_bytes.induct) (simp_all add: Let_def add.assoc)

interpretation mem_log_writer: log_writer mem_writable mem_written
  by unfold_locales

interpretation mem_log_reader: log_reader mem_sequential mem_unread
  by unfold_locales

section \<open>Properties\<close>

text \<open>C19. The log survives a crash: records of any size added to an empty file, by one writer or by a
  writer that continues the file later, can be read back; if only the first \<open>m\<close> bytes of the file
  are left, the reader returns exactly the records that lie in them completely, in order, then
  ends, and reports no damage.\<close>

theorem log_recovery:
  assumes "mem_written f []" "mem_written g (log_bytes 0 ds)"
    and "file_holds e a (take m (log_bytes 0 ds))" "length (log_bytes 0 ds) < fuel" "length ds < k"
  shows "(\<exists>w. write_all mem_writable ds (new_Writer f) = Some (OK, w) \<and> mem_written (dest w) (log_bytes 0 ds)) \<and>
    (\<exists>w. write_all mem_writable es (new_Writer_at g (length (log_bytes 0 ds))) = Some (OK, w) \<and>
      mem_written (dest w) (log_bytes 0 (ds @ es))) \<and>
    (\<exists>r. read_all mem_sequential fuel k (new_Reader (e, \<lparr>seq_file = a, pos = 0\<rparr>) True check 0) =
        Some (take (complete 0 m ds) ds, r) \<and> reporter r = Some []) \<and>
    (i < length ds \<longrightarrow> (i < complete 0 m ds \<longleftrightarrow> length (log_bytes 0 (take (Suc i) ds)) \<le> m))"
proof (intro conjI impI)
  show "\<exists>w. write_all mem_writable ds (new_Writer f) = Some (OK, w) \<and> mem_written (dest w) (log_bytes 0 ds)"
    using mem_log_writer.write_all_ok [OF mem_log_writer.writer_at_new(2) [OF assms(1)], of ds]
    by (auto simp: mem_log_writer.writer_at_def)
  show "\<exists>w. write_all mem_writable es (new_Writer_at g (length (log_bytes 0 ds))) = Some (OK, w) \<and>
      mem_written (dest w) (log_bytes 0 (ds @ es))"
    using mem_log_writer.write_all_ok [OF mem_log_writer.writer_at_new(1) [OF assms(2)], of es]
    by (auto simp: mem_log_writer.writer_at_def log_bytes_append)
  have "mem_unread (e, \<lparr>seq_file = a, pos = 0\<rparr>) (take m (log_bytes 0 ds))"
    using assms(3) by (auto simp: mem_unread_def)
  from mem_log_reader.read_all_ok [OF mem_log_reader.new_reader_at [OF this, of True check] assms(4,5)]
  show "\<exists>r. read_all mem_sequential fuel k (new_Reader (e, \<lparr>seq_file = a, pos = 0\<rparr>) True check 0) =
        Some (take (complete 0 m ds) ds, r) \<and> reporter r = Some []" by simp
qed (rule complete_iff)

text \<open>Witness for C19: an environment with an empty file and one with a log that is cut.\<close>

definition one_file :: "bytes \<Rightarrow> InMemoryEnv" where
  "one_file c = new_InMemoryEnv\<lparr>heap := [0 \<mapsto> \<lparr>refs = 1, blocks = chunks c, file_size = length c\<rparr>]\<rparr>"

theorem log_recovery_witness:
  "\<exists>w r. write_all mem_writable [[1, 2], [3]] (new_Writer (one_file [], 0)) = Some (OK, w) \<and>
     read_all mem_sequential 100 3 (new_Reader (one_file (take 12 (log_bytes 0 [[1, 2], [3]])), \<lparr>seq_file = 0, pos = 0\<rparr>) True True 0) =
       Some ([[1, 2]], r) \<and> reporter r = Some []"
proof -
  have l: "length (log_bytes 0 [[1, 2], [3]]) = 17" "complete 0 12 [[1, 2 :: byte], [3]] = 1"
    by (simp_all add: frags.simps Let_def pad_def log_sizes)
  have "file_holds (one_file c) 0 c" for c by (simp add: file_holds_def one_file_def holds_def)
  then have f: "mem_written (one_file c, 0) c" "file_holds (one_file c) 0 c" for c by (simp_all add: mem_written_def)
  have p: "length (log_bytes 0 [[1, 2], [3]]) < 100" "length [[1, 2 :: byte], [3]] < 3" using l by simp_all
  note t = log_recovery [OF f(1) f(1) f(2) p, where m = 12 and check = True and es = "[]" and i = 0]
  have "take 1 [[1, 2], [3]] = [[1, 2 :: byte]]" by simp
  then show ?thesis using t unfolding l by (simp del: read_all.simps write_all.simps log_bytes.simps) blast
qed

end
