(* ===== verification/MemEnv_Safety.thy ===== *)
theory MemEnv_Safety
  imports MemEnv
begin

text \<open>
  The reference counts of the files in memory: a file lives exactly as long as a name or an open
  reader or writer refers to it.  The clients are a step relation on the environment and the
  collection of references they hold.
\<close>

section \<open>The invariant\<close>

definition named :: "InMemoryEnv \<Rightarrow> nat \<Rightarrow> bool" where
  "named e a \<longleftrightarrow> (\<exists>n. RBT.lookup (file_map e) n = Some (Some a))"

text \<open>A name that leads to a null pointer.\<close>

definition null_name :: "string \<Rightarrow> InMemoryEnv \<Rightarrow> bool" where
  "null_name n e \<longleftrightarrow> RBT.lookup (file_map e) n = Some None"

definition env_ok :: "nat multiset \<Rightarrow> InMemoryEnv \<Rightarrow> bool" where
  "env_ok H e \<longleftrightarrow>
     (\<forall>a f. heap e a = Some f \<longrightarrow> a < fresh e \<and> (\<exists>c. holds f c) \<and> 0 < refs f \<and>
        refs f = int (count H a) + (if named e a then 1 else 0)) \<and>
     (\<forall>n a. RBT.lookup (file_map e) n = Some (Some a) \<longrightarrow> a \<in> dom (heap e)) \<and>
     (\<forall>n m a. RBT.lookup (file_map e) n = Some (Some a) \<and> RBT.lookup (file_map e) m = Some (Some a) \<longrightarrow> n = m) \<and>
     (\<forall>a. a \<in># H \<longrightarrow> a \<in> dom (heap e))"

text \<open>The files by name, and the bytes of a file.\<close>

definition contents :: "FileState \<Rightarrow> bytes" where
  "contents f = concat (blocks f)"

definition files :: "InMemoryEnv \<Rightarrow> string \<rightharpoonup> bytes" where
  "files e n = (case RBT.lookup (file_map e) n of
     Some (Some a) \<Rightarrow> map_option contents (heap e a) | _ \<Rightarrow> None)"

lemma concat_chunks [simp]: "concat (chunks c) = c"
  by (induction c rule: chunks.induct) (subst chunks.simps, simp)

lemma holds_contents: "holds f c \<Longrightarrow> contents f = c"
  by (simp add: holds_def contents_def)

lemma env_okD:
  assumes "env_ok H e"
  shows "heap e a = Some f \<Longrightarrow> a < fresh e"
    and "heap e a = Some f \<Longrightarrow> holds f (contents f)"
    and "heap e a = Some f \<Longrightarrow> refs f = int (count H a) + (if named e a then 1 else 0)"
    and "RBT.lookup (file_map e) n = Some (Some a) \<Longrightarrow> a \<in> dom (heap e)"
    and "RBT.lookup (file_map e) n = Some (Some a) \<Longrightarrow> RBT.lookup (file_map e) m = Some (Some a) \<Longrightarrow> n = m"
    and "a \<in># H \<Longrightarrow> a \<in> dom (heap e)"
  using assms unfolding env_ok_def by (blast, metis holds_contents, blast, fast, blast, blast)

lemma env_okI:
  assumes "\<And>a f. heap e a = Some f \<Longrightarrow> a < fresh e \<and> holds f (contents f) \<and> 0 < refs f \<and>
        refs f = int (count H a) + (if named e a then 1 else 0)"
    and "\<And>n a. RBT.lookup (file_map e) n = Some (Some a) \<Longrightarrow> a \<in> dom (heap e)"
    and "\<And>n m a. RBT.lookup (file_map e) n = Some (Some a) \<Longrightarrow> RBT.lookup (file_map e) m = Some (Some a) \<Longrightarrow> n = m"
    and "\<And>a. a \<in># H \<Longrightarrow> a \<in> dom (heap e)"
  shows "env_ok H e"
  using assms unfolding env_ok_def by (intro conjI allI impI) (blast | fast)+

lemma env_ok_new: "env_ok {#} new_InMemoryEnv"
  by (rule env_okI) (simp_all add: new_InMemoryEnv_def)

section \<open>Taking and releasing references\<close>

lemma store_simps [simp]:
  "named (store a f e) b = named e b" "file_map (store a f e) = file_map e" "fresh (store a f e) = fresh e"
  "heap (store a f e) = (heap e)(a \<mapsto> f)"
  by (simp_all add: named_def store_def)

lemma Ref_ok:
  assumes "env_ok H e" "heap e a = Some f"
  shows "\<exists>e'. Ref a e = Some e' \<and> env_ok (add_mset a H) e' \<and> files e' = files e \<and> file_map e' = file_map e \<and>
    (\<forall>b. map_option contents (heap e' b) = map_option contents (heap e b))"
proof -
  let ?e = "store a (f\<lparr>refs := refs f + 1\<rparr>) e"
  have c: "map_option contents (heap ?e b) = map_option contents (heap e b)" for b
    using assms(2) by (simp add: store_def contents_def)
  have "env_ok (add_mset a H) ?e"
  proof (rule env_okI)
    fix b g assume "heap ?e b = Some g"
    then show "b < fresh ?e \<and> holds g (contents g) \<and> 0 < refs g \<and>
        refs g = int (count (add_mset a H) b) + (if named ?e b then 1 else 0)"
      using assms env_okD(1-3) [OF assms(1)] assms(1)
      by (cases "b = a") (auto simp: store_def holds_def contents_def env_ok_def named_def)
  qed (use assms env_okD(4-6) [OF assms(1)] in \<open>auto dest: env_okD(4-6) [OF assms(1)] simp del: fun_upd_apply\<close>)
  moreover have "files ?e = files e"
    using c by (auto simp: files_def fun_eq_iff store_def split: option.split)
  ultimately show ?thesis using assms(2) c by (simp add: Ref_def store_def)
qed

text \<open>What an operation leaves of the files that are still open.\<close>

definition keeps_open :: "nat multiset \<Rightarrow> InMemoryEnv \<Rightarrow> InMemoryEnv \<Rightarrow> bool" where
  "keeps_open H e e' \<longleftrightarrow> (\<forall>a \<in># H. map_option contents (heap e' a) = map_option contents (heap e a))"

lemma Unref_cases:
  assumes "heap e a = Some f" "0 < refs f"
  shows "Unref a e = Some (if refs f = 1 then e\<lparr>heap := (heap e)(a := None)\<rparr> else store a (f\<lparr>refs := refs f - 1\<rparr>) e)"
  using assms by (simp add: Unref_def)

lemma env_ok_refs_pos: "env_ok H e \<Longrightarrow> heap e a = Some f \<Longrightarrow> 0 < refs f"
  unfolding env_ok_def by blast

lemma named_heap_upd [simp]: "named (e\<lparr>heap := h\<rparr>) b = named e b"
  by (simp add: named_def)

text \<open>A client gives back a reference.\<close>

lemma Unref_handle:
  assumes ok: "env_ok H e" and a: "a \<in># H"
  shows "\<exists>e'. Unref a e = Some e' \<and> env_ok (H - {#a#}) e' \<and> files e' = files e \<and> keeps_open (H - {#a#}) e e' \<and>
    file_map e' = file_map e"
proof -
  obtain f where f: "heap e a = Some f" using env_okD(6) [OF ok a] by auto
  note r = env_okD(3) [OF ok f] and p = env_ok_refs_pos [OF ok f]
  show ?thesis
  proof (cases "refs f = 1")
    case True
    then have c: "count H a = 1" "\<not> named e a" using r a by (auto split: if_splits simp flip: count_greater_zero_iff)
    let ?e = "e\<lparr>heap := (heap e)(a := None)\<rparr>"
    have "env_ok (H - {#a#}) ?e"
    proof (rule env_okI)
      fix n b assume "RBT.lookup (file_map ?e) n = Some (Some b)"
      then show "b \<in> dom (heap ?e)"
        using env_okD(4) [OF ok, of n b] c(2) by (fastforce simp: named_def)
    next
      fix b assume "b \<in># H - {#a#}"
      moreover from this c(1) have "b \<noteq> a" by (auto simp: in_diff_count)
      ultimately show "b \<in> dom (heap ?e)" using env_okD(6) [OF ok] by (auto dest: in_diffD)
    next
      fix b g assume "heap ?e b = Some g"
      then show "b < fresh ?e \<and> holds g (contents g) \<and> 0 < refs g \<and>
          refs g = int (count (H - {#a#}) b) + (if named ?e b then 1 else 0)"
        using env_okD(1-3) [OF ok, of b g] env_ok_refs_pos [OF ok, of b g] by (cases "b = a") auto
    qed (use env_okD(5) [OF ok] in auto)
    moreover have "files ?e = files e"
      using c(2) by (auto simp: files_def fun_eq_iff named_def split: option.split)
    moreover have "keeps_open (H - {#a#}) e ?e"
      using c(1) by (auto simp: keeps_open_def in_diff_count)
    ultimately show ?thesis using Unref_cases [OF f p] True by auto
  next
    case False
    let ?e = "store a (f\<lparr>refs := refs f - 1\<rparr>) e"
    have k: "contents (f\<lparr>refs := x\<rparr>) = contents f" "holds (f\<lparr>refs := x\<rparr>) c = holds f c" for x c
      by (simp_all add: contents_def holds_def)
    have "env_ok (H - {#a#}) ?e"
    proof (rule env_okI)
      fix b g assume "heap ?e b = Some g"
      then show "b < fresh ?e \<and> holds g (contents g) \<and> 0 < refs g \<and>
          refs g = int (count (H - {#a#}) b) + (if named ?e b then 1 else 0)"
        using env_okD(1-3) [OF ok] env_ok_refs_pos [OF ok] f False p r a
        by (cases "b = a") (auto simp: k simp flip: count_greater_zero_iff)
    qed (use env_okD(4-6) [OF ok] in \<open>auto dest: in_diffD env_okD(4-6) [OF ok] simp del: fun_upd_apply\<close>)
    moreover have "files ?e = files e" using f k by (auto simp: files_def fun_eq_iff split: option.split)
    moreover have "keeps_open (H - {#a#}) e ?e" using f k by (auto simp: keeps_open_def)
    ultimately show ?thesis using Unref_cases [OF f p] False by auto
  qed
qed

section \<open>Names\<close>

lemma DeleteFileInternal_ok:
  assumes ok: "env_ok H e" and nn: "\<not> null_name n e"
  shows "\<exists>e'. DeleteFileInternal n e = Some e' \<and> env_ok H e' \<and> files e' = (files e)(n := None) \<and> keeps_open H e e' \<and>
    RBT.lookup (file_map e') = (RBT.lookup (file_map e))(n := None) \<and> fresh e' = fresh e"
proof (cases "RBT.lookup (file_map e) n")
  case None
  then show ?thesis using ok by (auto simp: DeleteFileInternal_def files_def keeps_open_def fun_eq_iff)
next
  case (Some p)
  then obtain a where a: "p = Some a" using nn by (auto simp: null_name_def)
  then obtain f where f: "heap e a = Some f" using env_okD(4) [OF ok, of n a] Some by blast
  have L: "RBT.lookup (file_map e) n = Some (Some a)" using Some a by simp
  then have nm: "named e a" by (auto simp: named_def)
  note r = env_okD(3) [OF ok f] and pos = env_ok_refs_pos [OF ok f]
  define h where "h = (if refs f = 1 then (heap e)(a := None) else (heap e)(a \<mapsto> f\<lparr>refs := refs f - 1\<rparr>))"
  define m where "m = RBT.delete n (file_map e)"
  define e' where "e' = e\<lparr>heap := h, file_map := m\<rparr>"
  have m: "RBT.lookup m q = (if q = n then None else RBT.lookup (file_map e) q)" for q by (simp add: m_def)
  have nm': "named e' b \<longleftrightarrow> named e b \<and> b \<noteq> a" for b
  proof
    assume "named e' b"
    then obtain q where q: "q \<noteq> n" "RBT.lookup (file_map e) q = Some (Some b)"
      by (auto simp: named_def e'_def m split: if_splits)
    then show "named e b \<and> b \<noteq> a" using env_okD(5) [OF ok _ L, of q] by (auto simp: named_def)
  next
    assume "named e b \<and> b \<noteq> a"
    then obtain q where q: "RBT.lookup (file_map e) q = Some (Some b)" "b \<noteq> a" by (auto simp: named_def)
    then have "q \<noteq> n" using L by auto
    with q show "named e' b" by (auto simp: named_def e'_def m)
  qed
  have hb: "b \<noteq> a \<Longrightarrow> h b = heap e b" for b by (simp add: h_def)
  have "env_ok H e'"
  proof (rule env_okI)
    fix b g assume g: "heap e' b = Some g"
    show "b < fresh e' \<and> holds g (contents g) \<and> 0 < refs g \<and> refs g = int (count H b) + (if named e' b then 1 else 0)"
    proof (cases "b = a")
      case True
      then have "g = f\<lparr>refs := refs f - 1\<rparr>" "refs f \<noteq> 1" using g by (auto simp: e'_def h_def split: if_splits)
      then show ?thesis using True env_okD(1,2) [OF ok f] r pos nm nm' by (auto simp: e'_def holds_def contents_def)
    next
      case False
      then have "heap e b = Some g" using g by (simp add: e'_def hb)
      then show ?thesis using False env_okD(1-3) [OF ok, of b g] env_ok_refs_pos [OF ok, of b g] nm'
        by (simp add: e'_def)
    qed
  next
    fix q b assume "RBT.lookup (file_map e') q = Some (Some b)"
    then have q: "q \<noteq> n" "RBT.lookup (file_map e) q = Some (Some b)" by (auto simp: e'_def m split: if_splits)
    then have "b \<noteq> a" using env_okD(5) [OF ok _ L, of q] by auto
    then show "b \<in> dom (heap e')" using env_okD(4) [OF ok q(2)] by (auto simp: e'_def hb)
  next
    fix q q' b assume "RBT.lookup (file_map e') q = Some (Some b)" "RBT.lookup (file_map e') q' = Some (Some b)"
    then show "q = q'" using env_okD(5) [OF ok] by (auto simp: e'_def m split: if_splits)
  next
    fix b assume "b \<in># H"
    then show "b \<in> dom (heap e')"
      using env_okD(6) [OF ok, of b] r nm f by (cases "b = a") (auto simp: e'_def h_def simp flip: count_greater_zero_iff)
  qed
  moreover have "files e' = (files e)(n := None)"
  proof
    fix q show "files e' q = ((files e)(n := None)) q"
      using env_okD(5) [OF ok _ L, of q] by (auto simp: files_def e'_def m split: option.split) (metis hb)
  qed
  moreover have "keeps_open H e e'"
    using r nm f by (auto simp: keeps_open_def e'_def h_def contents_def simp flip: count_greater_zero_iff)
  moreover have "DeleteFileInternal n e = Some e'"
    using L Unref_cases [OF f pos] by (auto simp: DeleteFileInternal_def e'_def h_def m_def store_def)
  ultimately show ?thesis by (auto simp: e'_def m fun_eq_iff)
qed


lemma fresh_unused: "env_ok H e \<Longrightarrow> heap e (fresh e) = None \<and> fresh e \<notin># H \<and> \<not> named e (fresh e)"
  using env_okD(1,4,6) [of H e] by (fastforce simp: named_def)

lemma NewWritableFile_ok:
  assumes ok: "env_ok H e" and nn: "\<not> null_name n e"
  shows "\<exists>a e'. NewWritableFile n e = Some (OK, a, e') \<and> env_ok (add_mset a H) e' \<and> files e' = (files e)(n \<mapsto> []) \<and>
    file_holds e' a [] \<and> a \<notin># H \<and> keeps_open H e e' \<and> RBT.lookup (file_map e') = (RBT.lookup (file_map e))(n \<mapsto> Some a)"
proof -
  obtain e1 where d: "DeleteFileInternal n e = Some e1" and ok1: "env_ok H e1" and fl: "files e1 = (files e)(n := None)"
    and k: "keeps_open H e e1" and L: "RBT.lookup (file_map e1) = (RBT.lookup (file_map e))(n := None)"
    using DeleteFileInternal_ok [OF ok nn] by blast
  let ?a = "fresh e1"
  note fr = fresh_unused [OF ok1]
  define f where "f = new_FileState\<lparr>refs := 2\<rparr>"
  define e' where "e' = e1\<lparr>fresh := ?a + 1, heap := (heap e1)(?a \<mapsto> f), file_map := RBT.insert n (Some ?a) (file_map e1)\<rparr>"
  have f: "holds f []" "contents f = []" "refs f = 2"
    by (simp_all add: f_def holds_def new_FileState_def contents_def)
  have "(if RBT.lookup (file_map e) n \<noteq> None then DeleteFileInternal n e else Some e) = Some e1"
    using d by (auto simp: DeleteFileInternal_def split: option.splits)
  then have r: "NewWritableFile n e = Some (OK, ?a, e')"
    by (simp add: NewWritableFile_def alloc_def Ref_def store_def e'_def f_def new_FileState_def)
  have nm: "named e' b \<longleftrightarrow> b = ?a \<or> named e1 b" for b
    using L by (auto simp: named_def e'_def)
  have c0: "count H ?a = 0" using fr by (simp add: not_in_iff)
  have "env_ok (add_mset ?a H) e'"
  proof (rule env_okI)
    fix b g assume g: "heap e' b = Some g"
    show "b < fresh e' \<and> holds g (contents g) \<and> 0 < refs g \<and>
        refs g = int (count (add_mset ?a H) b) + (if named e' b then 1 else 0)"
    proof (cases "b = ?a")
      case True
      then show ?thesis using g f c0 nm by (auto simp: e'_def)
    next
      case False
      then have "heap e1 b = Some g" using g by (simp add: e'_def)
      then show ?thesis using False env_okD(1-3) [OF ok1, of b g] env_ok_refs_pos [OF ok1, of b g] nm
        by (simp add: e'_def)
    qed
  next
    fix q q' b assume "RBT.lookup (file_map e') q = Some (Some b)" "RBT.lookup (file_map e') q' = Some (Some b)"
    then show "q = q'" using env_okD(5) [OF ok1, of q b q'] fr by (auto simp: e'_def named_def split: if_splits)
  qed (use env_okD(4,6) [OF ok1] in \<open>auto simp: e'_def split: if_splits dest!: env_okD(4,6) [OF ok1]\<close>)
  moreover have "files e' = (files e)(n \<mapsto> [])"
  proof
    fix q show "files e' q = ((files e)(n \<mapsto> [])) q"
      using fr f fun_cong [OF fl, of q] by (auto simp: files_def e'_def named_def split: option.splits)
  qed
  moreover have "keeps_open H e e'"
    using k fr by (auto simp: keeps_open_def e'_def)
  moreover have "RBT.lookup (file_map e') = (RBT.lookup (file_map e))(n \<mapsto> Some ?a)" using L by (simp add: e'_def fun_eq_iff)
  ultimately show ?thesis using r f fr by (auto simp: file_holds_def e'_def)
qed

text \<open>Renaming; a file that is renamed to its own name is gone, and a null pointer moves with its name.\<close>

lemma RenameFile_names:
  assumes ok: "env_ok H e" and ex: "FileExists src e" and nn: "\<not> null_name target e"
  shows "\<exists>e'. RenameFile src target e = Some (OK, e') \<and> env_ok H e' \<and>
    RBT.lookup (file_map e') = (if src = target then (RBT.lookup (file_map e))(src := None)
      else (RBT.lookup (file_map e))(target := RBT.lookup (file_map e) src, src := None))"
proof -
  obtain e1 where d: "DeleteFileInternal target e = Some e1" and ok1: "env_ok H e1"
    and L: "RBT.lookup (file_map e1) = (RBT.lookup (file_map e))(target := None)"
    using DeleteFileInternal_ok [OF ok nn] by blast
  obtain p where p: "RBT.lookup (file_map e) src = Some p" using ex by (auto simp: FileExists_def)
  define e' where "e' = e1\<lparr>file_map := RBT.delete src (RBT.insert target (if src = target then None else p) (file_map e1))\<rparr>"
  have r: "RenameFile src target e = Some (OK, e')" using p d L by (simp add: RenameFile_def e'_def)
  have M: "RBT.lookup (file_map e') q = (if q = src then None else if q = target then Some p else RBT.lookup (file_map e1) q)" for q
    by (simp add: e'_def)
  have nm: "named e' b \<longleftrightarrow> named e1 b" for b
  proof (cases "src = target")
    case True
    then show ?thesis using L by (auto simp: named_def M)
  next
    case False
    then have "named e' b \<longleftrightarrow> p = Some b \<or> (\<exists>q. q \<noteq> src \<and> q \<noteq> target \<and> RBT.lookup (file_map e) q = Some (Some b))"
      using L by (auto simp: named_def M)
    also have "\<dots> \<longleftrightarrow> named e1 b" using L p False by (auto simp: named_def) (metis option.inject)
    finally show ?thesis .
  qed
  have "env_ok H e'"
  proof (rule env_okI)
    fix b g assume "heap e' b = Some g"
    then show "b < fresh e' \<and> holds g (contents g) \<and> 0 < refs g \<and> refs g = int (count H b) + (if named e' b then 1 else 0)"
      using env_okD(1-3) [OF ok1, of b g] env_ok_refs_pos [OF ok1, of b g] nm by (simp add: e'_def)
  next
    fix q b assume "RBT.lookup (file_map e') q = Some (Some b)"
    then have "named e1 b" using nm by (auto simp: named_def)
    then show "b \<in> dom (heap e')" using env_okD(4) [OF ok1] by (auto simp: named_def e'_def)
  next
    fix q q' b assume "RBT.lookup (file_map e') q = Some (Some b)" "RBT.lookup (file_map e') q' = Some (Some b)"
    then show "q = q'" using env_okD(5) [OF ok, of q b q'] env_okD(5) [OF ok, of q b src] env_okD(5) [OF ok, of q' b src] p L
      by (auto simp: M split: if_splits)
  next
    fix b assume "b \<in># H"
    then show "b \<in> dom (heap e')" using env_okD(6) [OF ok1] by (simp add: e'_def)
  qed
  moreover have "RBT.lookup (file_map e') = (if src = target then (RBT.lookup (file_map e))(src := None)
      else (RBT.lookup (file_map e))(target := RBT.lookup (file_map e) src, src := None))"
    using L p by (auto simp: M fun_eq_iff)
  ultimately show ?thesis using r by blast
qed

lemma RenameFile_ok:
  assumes ok: "env_ok H e" and ne: "src \<noteq> target" and ex: "files e src = Some c" and nn: "\<not> null_name target e"
  shows "\<exists>e'. RenameFile src target e = Some (OK, e') \<and> env_ok H e' \<and>
    files e' = (files e)(target \<mapsto> c, src := None) \<and> keeps_open H e e'"
proof -
  obtain e1 where d: "DeleteFileInternal target e = Some e1" and ok1: "env_ok H e1" and fl: "files e1 = (files e)(target := None)"
    and k: "keeps_open H e e1" and L: "RBT.lookup (file_map e1) = (RBT.lookup (file_map e))(target := None)"
    using DeleteFileInternal_ok [OF ok nn] by blast
  obtain a where s: "RBT.lookup (file_map e) src = Some (Some a)"
    using ex by (auto simp: files_def split: option.splits)
  then have s1: "RBT.lookup (file_map e1) src = Some (Some a)" using L ne by simp
  define e' where "e' = e1\<lparr>file_map := RBT.delete src (RBT.insert target (Some a) (file_map e1))\<rparr>"
  have r: "RenameFile src target e = Some (OK, e')" using s s1 d by (simp add: RenameFile_def e'_def)
  have M: "RBT.lookup (file_map e') q = (if q = src then None else if q = target then Some (Some a) else RBT.lookup (file_map e1) q)" for q
    by (simp add: e'_def)
  have "env_ok H e'" using RenameFile_names [OF ok _ nn, of src] s r by (auto simp: FileExists_def)
  moreover have "files e' = (files e)(target \<mapsto> c, src := None)"
  proof
    fix q
    have "files e1 src = Some c" using fl ex ne by simp
    then have "map_option contents (heap e1 a) = Some c" using s1 by (simp add: files_def)
    moreover have "files e' q = (if q = src then None else if q = target then map_option contents (heap e1 a) else files e1 q)"
      by (auto simp: files_def M) (simp_all add: e'_def split: option.split)
    ultimately show "files e' q = ((files e)(target \<mapsto> c, src := None)) q" using fl by simp
  qed
  moreover have "keeps_open H e e'" using k by (simp add: keeps_open_def e'_def)
  ultimately show ?thesis using r by auto
qed

section \<open>Open files\<close>

lemma file_holds_contents: "env_ok H e \<Longrightarrow> heap e a = Some f \<Longrightarrow> file_holds e a (contents f)"
  by (auto simp: file_holds_def dest: env_okD(2))

lemma lookup_files:
  assumes "env_ok H e"
  shows "files e n = None \<longleftrightarrow> RBT.lookup (file_map e) n = None \<or> null_name n e"
    and "files e n = Some c \<Longrightarrow> \<exists>a f. RBT.lookup (file_map e) n = Some (Some a) \<and> heap e a = Some f \<and> c = contents f"
    and "files e n = Some c \<Longrightarrow> \<not> null_name n e"
  using env_okD(4) [OF assms, of n] by (fastforce simp: files_def null_name_def split: option.splits)+

lemma NewSequentialFile_ok:
  assumes ok: "env_ok H e" and n: "files e n = Some c"
  shows "\<exists>r e'. NewSequentialFile n e = Some (OK, Some r, e') \<and> env_ok (add_mset (seq_file r) H) e' \<and>
    files e' = files e \<and> mem_unread (e', r) c \<and> keeps_open H e e' \<and> file_map e' = file_map e"
proof -
  obtain a f where a: "RBT.lookup (file_map e) n = Some (Some a)" "heap e a = Some f" "c = contents f"
    using lookup_files(2) [OF ok n] by blast
  obtain e' where e': "Ref a e = Some e'" "env_ok (add_mset a H) e'" "files e' = files e"
      "\<forall>b. map_option contents (heap e' b) = map_option contents (heap e b)" "file_map e' = file_map e"
    using Ref_ok [OF ok a(2)] by blast
  then obtain f' where f': "heap e' a = Some f'" "contents f' = c" using a by (metis map_option_eq_Some option.simps(9))
  have "file_holds e' a c" using file_holds_contents [OF e'(2) f'(1)] f'(2) by simp
  then show ?thesis using a e' by (auto simp: NewSequentialFile_def mem_unread_def keeps_open_def)
qed

lemma NewRandomAccessFile_ok:
  assumes ok: "env_ok H e" and n: "files e n = Some c"
  shows "\<exists>a e'. NewRandomAccessFile n e = Some (OK, Some a, e') \<and> env_ok (add_mset a H) e' \<and>
    files e' = files e \<and> keeps_open H e e' \<and> file_map e' = file_map e"
proof -
  obtain a f where a: "RBT.lookup (file_map e) n = Some (Some a)" "heap e a = Some f"
    using lookup_files(2) [OF ok n] by blast
  show ?thesis using Ref_ok [OF ok a(2)] a by (auto simp: NewRandomAccessFile_def keeps_open_def)
qed

lemma NewAppendableFile_ok:
  assumes ok: "env_ok H e" and n: "files e n = Some c"
  shows "\<exists>a e'. NewAppendableFile n e = Some (OK, a, e') \<and> env_ok (add_mset a H) e' \<and>
    files e' = files e \<and> keeps_open H e e' \<and> file_map e' = file_map e"
proof -
  obtain a f where a: "RBT.lookup (file_map e) n = Some (Some a)" "heap e a = Some f"
    using lookup_files(2) [OF ok n] by blast
  show ?thesis using Ref_ok [OF ok a(2)] a by (auto simp: NewAppendableFile_def keeps_open_def)
qed

lemma Append_ok:
  assumes ok: "env_ok H e" and a: "a \<in># H"
  shows "\<exists>e' c. WritableFileImpl_Append d (e, a) = Some (OK, e', a) \<and> env_ok H e' \<and> file_holds e a c \<and> file_holds e' a (c @ d) \<and>
    files e' = (\<lambda>n. if RBT.lookup (file_map e) n = Some (Some a) then Some (c @ d) else files e n) \<and>
    keeps_open (filter_mset (\<lambda>b. b \<noteq> a) H) e e' \<and> file_map e' = file_map e"
proof -
  obtain f where f: "heap e a = Some f" using env_okD(6) [OF ok a] by auto
  note h = env_okD(2) [OF ok f]
  obtain f' where f': "FileState_Append f d = Some (OK, f')" "holds f' (contents f @ d)" "refs f' = refs f"
    using FileState_Append_holds [OF h] by blast
  define e' where "e' = store a f' e"
  have c: "contents f' = contents f @ d" using f'(2) by (rule holds_contents)
  have "env_ok H e'"
  proof (rule env_okI)
    fix b g assume "heap e' b = Some g"
    then show "b < fresh e' \<and> holds g (contents g) \<and> 0 < refs g \<and> refs g = int (count H b) + (if named e' b then 1 else 0)"
      using env_okD(1-3) [OF ok] env_ok_refs_pos [OF ok] f f' c by (cases "b = a") (auto simp: e'_def)
  qed (use env_okD(4-6) [OF ok] in \<open>auto simp: e'_def dest: env_okD(4-6) [OF ok] simp del: fun_upd_apply\<close>)
  moreover have "files e' = (\<lambda>n. if RBT.lookup (file_map e) n = Some (Some a) then Some (contents f @ d) else files e n)"
    using c by (auto simp: files_def e'_def fun_eq_iff split: option.split)
  moreover have "WritableFileImpl_Append d (e, a) = Some (OK, e', a)"
    using f f'(1) by (simp add: WritableFileImpl_Append_def e'_def)
  moreover have "file_holds e' a (contents f @ d)" using f' by (simp add: file_holds_def e'_def)
  moreover have "keeps_open (filter_mset (\<lambda>b. b \<noteq> a) H) e e'" by (simp add: keeps_open_def e'_def)
  moreover have "file_holds e a (contents f)" "file_map e' = file_map e" using f h by (auto simp: file_holds_def e'_def)
  ultimately show ?thesis by blast
qed

lemma DeleteFile_ok:
  assumes ok: "env_ok H e" and n: "files e n = Some c"
  shows "\<exists>e'. DeleteFile n e = Some (OK, e') \<and> env_ok H e' \<and> files e' = (files e)(n := None) \<and> keeps_open H e e' \<and>
    RBT.lookup (file_map e') = (RBT.lookup (file_map e))(n := None)"
  using DeleteFileInternal_ok [OF ok lookup_files(3) [OF ok n]] lookup_files(2) [OF ok n] by (auto simp: DeleteFile_def)

lemma not_found:
  assumes "env_ok H e" "files e n = None" "\<not> null_name n e"
  shows "NewSequentialFile n e = Some (IOError n ''File not found'', None, e)"
    "NewRandomAccessFile n e = Some (IOError n ''File not found'', None, e)"
    "DeleteFile n e = Some (IOError n ''File not found'', e)"
    "RenameFile n target e = Some (IOError n ''File not found'', e)"
    "GetFileSize n e = Some (IOError n ''File not found'', 0)"
  using assms lookup_files(1) [OF assms(1), of n]
  by (simp_all add: NewSequentialFile_def NewRandomAccessFile_def DeleteFile_def RenameFile_def GetFileSize_def)


lemma NewAppendableFile_new:
  assumes ok: "env_ok H e" and n: "\<forall>a. RBT.lookup (file_map e) n \<noteq> Some (Some a)"
  shows "\<exists>a e'. NewAppendableFile n e = Some (OK, a, e') \<and> env_ok (add_mset a (add_mset a H)) e' \<and> a \<notin># H \<and>
    \<not> named e a \<and> RBT.lookup (file_map e') = (RBT.lookup (file_map e))(n \<mapsto> None)"
proof -
  define f where "f = new_FileState\<lparr>refs := 2\<rparr>"
  define m where "m = (if RBT.lookup (file_map e) n = None then RBT.insert n None (file_map e) else file_map e)"
  define e' where "e' = e\<lparr>heap := (heap e)(fresh e \<mapsto> f), fresh := fresh e + 1, file_map := m\<rparr>"
  note fr = fresh_unused [OF ok]
  have m: "RBT.lookup m = (RBT.lookup (file_map e))(n \<mapsto> None)"
    using n by (cases "RBT.lookup (file_map e) n") (auto simp: m_def fun_eq_iff)
  have f: "holds f []" "contents f = []" "refs f = 2"
    by (simp_all add: f_def holds_def new_FileState_def contents_def)
  have "NewAppendableFile n e = Some (OK, fresh e, e')"
    using n by (cases "RBT.lookup (file_map e) n")
      (auto simp: NewAppendableFile_def Let_def alloc_def Ref_def store_def e'_def f_def m_def new_FileState_def split: option.split)
  moreover have nm: "named e' b \<longleftrightarrow> named e b" for b
    using n m by (auto simp: named_def e'_def)
  have "env_ok (add_mset (fresh e) (add_mset (fresh e) H)) e'"
  proof (rule env_okI)
    fix b g assume g: "heap e' b = Some g"
    show "b < fresh e' \<and> holds g (contents g) \<and> 0 < refs g \<and>
        refs g = int (count (add_mset (fresh e) (add_mset (fresh e) H)) b) + (if named e' b then 1 else 0)"
    proof (cases "b = fresh e")
      case True
      then show ?thesis using g f fr nm by (auto simp: e'_def not_in_iff)
    next
      case False
      then have "heap e b = Some g" using g by (simp add: e'_def)
      then show ?thesis using False env_okD(1-3) [OF ok, of b g] env_ok_refs_pos [OF ok, of b g] nm by (simp add: e'_def)
    qed
  next
    fix q b assume "RBT.lookup (file_map e') q = Some (Some b)"
    then show "b \<in> dom (heap e')" using env_okD(4) [OF ok, of q b] m by (auto simp: e'_def split: if_splits)
  next
    fix q q' b assume "RBT.lookup (file_map e') q = Some (Some b)" "RBT.lookup (file_map e') q' = Some (Some b)"
    then show "q = q'" using env_okD(5) [OF ok, of q b q'] m by (auto simp: e'_def split: if_splits)
  next
    fix b assume "b \<in># add_mset (fresh e) (add_mset (fresh e) H)"
    then show "b \<in> dom (heap e')" using env_okD(6) [OF ok, of b] by (auto simp: e'_def)
  qed
  ultimately show ?thesis using fr m by (auto simp: e'_def)
qed

section \<open>Clients\<close>

text \<open>
  Clients open files, append through a reference they hold, give references back, delete and rename.
  An operation that follows a null pointer is no step.
\<close>

inductive env_step :: "nat multiset \<times> InMemoryEnv \<Rightarrow> nat multiset \<times> InMemoryEnv \<Rightarrow> bool" where
  open_sequential: "NewSequentialFile n e = Some (OK, Some r, e') \<Longrightarrow> env_step (H, e) (add_mset (seq_file r) H, e')"
| open_random: "NewRandomAccessFile n e = Some (OK, Some a, e') \<Longrightarrow> env_step (H, e) (add_mset a H, e')"
| open_writable: "NewWritableFile n e = Some (OK, a, e') \<Longrightarrow> env_step (H, e) (add_mset a H, e')"
| open_appendable: "NewAppendableFile n e = Some (OK, a, e') \<Longrightarrow> env_step (H, e) (add_mset a H, e')"
| append: "a \<in># H \<Longrightarrow> WritableFileImpl_Append d (e, a) = Some (s, e', a') \<Longrightarrow> env_step (H, e) (H, e')"
| release: "a \<in># H \<Longrightarrow> Unref a e = Some e' \<Longrightarrow> env_step (H, e) (H - {#a#}, e')"
| delete: "DeleteFile n e = Some (s, e') \<Longrightarrow> env_step (H, e) (H, e')"
| rename: "RenameFile src target e = Some (s, e') \<Longrightarrow> env_step (H, e) (H, e')"

text \<open>
  The files \<open>L\<close> that were opened for appending under a new name have a reference that nobody gives back.
\<close>

definition env_inv :: "nat multiset \<Rightarrow> nat set \<Rightarrow> InMemoryEnv \<Rightarrow> bool" where
  "env_inv H L e \<longleftrightarrow> finite L \<and> env_ok (H + mset_set L) e \<and> (\<forall>a \<in> L. \<not> named e a) \<and> (L = {} \<longleftrightarrow> (\<forall>n. \<not> null_name n e))"

lemma env_inv_keep:
  assumes "env_inv H L e" "env_ok (H' + mset_set L) e'" "\<And>b. b \<in> L \<Longrightarrow> named e' b \<Longrightarrow> named e b"
    and "(\<exists>n. null_name n e') \<longleftrightarrow> (\<exists>n. null_name n e)"
  shows "env_inv H' L e'"
  using assms by (auto simp: env_inv_def)

lemma env_inv_same:
  assumes "env_inv H L e" "env_ok (H' + mset_set L) e'" "file_map e' = file_map e"
  shows "env_inv H' L e'"
  using assms by (intro env_inv_keep [OF assms(1,2)]) (simp_all add: named_def null_name_def)

text \<open>Every operation on names follows a null pointer exactly if the name leads to one.\<close>

lemma null_name_fails:
  assumes "null_name n e"
  shows "NewSequentialFile n e = None" "NewRandomAccessFile n e = None" "NewWritableFile n e = None" "DeleteFile n e = None"
    "GetFileSize n e = None" "FileExists src e \<Longrightarrow> RenameFile src n e = None"
  using assms by (auto simp: null_name_def NewSequentialFile_def NewRandomAccessFile_def NewWritableFile_def DeleteFile_def
      DeleteFileInternal_def GetFileSize_def RenameFile_def FileExists_def)

lemma env_step_inv: "env_step x y \<Longrightarrow> env_inv (fst x) L (snd x) \<Longrightarrow> \<exists>L'. env_inv (fst y) L' (snd y)"
proof (induction rule: env_step.induct)
  case (open_sequential n e r e' H)
  then have inv: "env_inv H L e" by simp
  with open_sequential have ok: "env_ok (H + mset_set L) e" and nn: "\<not> null_name n e" using null_name_fails(1) [of n e] by (auto simp: env_inv_def)
  show ?case using open_sequential NewSequentialFile_ok [OF ok, of n] not_found(1) [OF ok _ nn]
    by (cases "files e n") (auto intro!: exI [of _ L] env_inv_same [OF inv])
next
  case (open_random n e a e' H)
  then have inv: "env_inv H L e" by simp
  with open_random have ok: "env_ok (H + mset_set L) e" and nn: "\<not> null_name n e" using null_name_fails(2) [of n e] by (auto simp: env_inv_def)
  show ?case using open_random NewRandomAccessFile_ok [OF ok, of n] not_found(2) [OF ok _ nn]
    by (cases "files e n") (auto intro!: exI [of _ L] env_inv_same [OF inv])
next
  case (open_writable n e a e' H)
  then have inv: "env_inv H L e" by simp
  with open_writable have ok: "env_ok (H + mset_set L) e" and nn: "\<not> null_name n e" and L: "finite L"
    using null_name_fails(3) [of n e] by (auto simp: env_inv_def)
  have e': "env_ok (add_mset a H + mset_set L) e'" "a \<notin># H + mset_set L" "RBT.lookup (file_map e') = (RBT.lookup (file_map e))(n \<mapsto> Some a)"
    using open_writable(1) NewWritableFile_ok [OF ok nn] by auto
  have "env_inv (add_mset a H) L e'"
    by (rule env_inv_keep [OF inv e'(1)])
       (use e'(2,3) nn L in \<open>auto simp: named_def null_name_def split: if_splits\<close>)
  then show ?case by auto
next
  case (open_appendable n e a e' H)
  then have inv: "env_inv H L e" by simp
  with open_appendable have ok: "env_ok (H + mset_set L) e" and L: "finite L" "\<forall>a \<in> L. \<not> named e a" by (auto simp: env_inv_def)
  show ?case
  proof (cases "\<exists>b. RBT.lookup (file_map e) n = Some (Some b)")
    case True
    then have "files e n \<noteq> None" using lookup_files(1) [OF ok, of n] by (auto simp: null_name_def)
    then show ?thesis using open_appendable NewAppendableFile_ok [OF ok, of n]
      by (auto intro!: exI [of _ L] env_inv_same [OF inv])
  next
    case False
    then have e': "env_ok (add_mset a (add_mset a (H + mset_set L))) e'" "a \<notin># H + mset_set L" "\<not> named e a"
        "RBT.lookup (file_map e') = (RBT.lookup (file_map e))(n \<mapsto> None)"
      using open_appendable(1) NewAppendableFile_new [OF ok, of n] by auto
    have "a \<notin> L" using e'(2) L(1) by auto
    then have "add_mset a H + mset_set (insert a L) = add_mset a (add_mset a (H + mset_set L))" using L(1) by simp
    moreover have "\<not> named e' b" if "b \<in> insert a L" for b
      using that L(2) e'(3,4) by (auto simp: named_def split: if_splits)
    moreover have "null_name n e'" using e'(4) by (simp add: null_name_def)
    ultimately have "env_inv (add_mset a H) (insert a L) e'" using e'(1) L(1) unfolding env_inv_def by auto
    then show ?thesis by auto
  qed
next
  case (append a H d e s e' a')
  then have inv: "env_inv H L e" by simp
  with append have ok: "env_ok (H + mset_set L) e" and a: "a \<in># H + mset_set L" by (auto simp: env_inv_def)
  show ?case using append(2) Append_ok [OF ok a, of d] by (auto intro!: exI [of _ L] env_inv_same [OF inv])
next
  case (release a H e e')
  then have inv: "env_inv H L e" by simp
  with release have ok: "env_ok (H + mset_set L) e" and a: "a \<in># H + mset_set L" by (auto simp: env_inv_def)
  have "H + mset_set L - {#a#} = (H - {#a#}) + mset_set L" using release(1) by (auto dest!: multi_member_split)
  then show ?case using release(2) Unref_handle [OF ok a] by (auto intro!: exI [of _ L] env_inv_same [OF inv])
next
  case (delete n e s e' H)
  then have inv: "env_inv H L e" by simp
  with delete have ok: "env_ok (H + mset_set L) e" and nn: "\<not> null_name n e" using null_name_fails(4) [of n e] by (auto simp: env_inv_def)
  show ?case
  proof (cases "files e n")
    case None
    then show ?thesis using delete not_found(3) [OF ok None nn] by auto
  next
    case (Some c)
    then have e': "env_ok (H + mset_set L) e'" "RBT.lookup (file_map e') = (RBT.lookup (file_map e))(n := None)"
      using delete(1) DeleteFile_ok [OF ok Some] by auto
    have "env_inv H L e'"
      by (rule env_inv_keep [OF inv e'(1)]) (use e'(2) nn in \<open>auto simp: named_def null_name_def split: if_splits\<close>)
    then show ?thesis by auto
  qed
next
  case (rename src target e s e' H)
  then have inv: "env_inv H L e" by simp
  with rename have ok: "env_ok (H + mset_set L) e" by (auto simp: env_inv_def)
  show ?case
  proof (cases "FileExists src e")
    case False
    then show ?thesis using rename by (auto simp: RenameFile_def FileExists_def)
  next
    case True
    then have nn: "\<not> null_name target e" using null_name_fails(6) [of target e src] rename(1) by auto
    have e': "env_ok (H + mset_set L) e'" "RBT.lookup (file_map e') = (if src = target then (RBT.lookup (file_map e))(src := None)
        else (RBT.lookup (file_map e))(target := RBT.lookup (file_map e) src, src := None))"
      using rename(1) RenameFile_names [OF ok True nn] by auto
    have "env_inv H L e'"
    proof (rule env_inv_keep [OF inv e'(1)])
      show "(\<exists>n. null_name n e') \<longleftrightarrow> (\<exists>n. null_name n e)"
      proof (cases "src = target")
        case True
        then show ?thesis using nn unfolding null_name_def e'(2) by (auto split: if_splits)
      next
        case False
        then have "null_name m e' \<longleftrightarrow> m \<noteq> src \<and> (if m = target then null_name src e else null_name m e)" for m
          unfolding null_name_def e'(2) by auto
        then show ?thesis using nn False by metis
      qed
      show "named e' b \<Longrightarrow> named e b" for b unfolding named_def e'(2) by (auto split: if_splits)
    qed
    then show ?thesis by auto
  qed
qed

definition reachable :: "nat multiset \<Rightarrow> InMemoryEnv \<Rightarrow> bool" where
  "reachable H e \<longleftrightarrow> env_step\<^sup>*\<^sup>* ({#}, new_InMemoryEnv) (H, e)"

lemma reachable_inv: "reachable H e \<Longrightarrow> \<exists>L. env_inv H L e"
  unfolding reachable_def
proof (induction "(H, e)" arbitrary: H e rule: rtranclp_induct)
  case base
  have "env_inv {#} {} new_InMemoryEnv" using env_ok_new by (simp add: env_inv_def null_name_def new_InMemoryEnv_def)
  then show ?case by blast
next
  case (step s)
  then show ?case using env_step_inv by (cases s) fastforce
qed

lemma reachable_ok: "reachable H e \<Longrightarrow> \<forall>n. \<not> null_name n e \<Longrightarrow> env_ok H e"
  using reachable_inv [of H e] by (auto simp: env_inv_def)

section \<open>Properties\<close>


lemma reachable_one_file:
  "reachable {#0#} (e\<lparr>heap := [0 \<mapsto> \<lparr>refs = 2, blocks = [], file_size = 0\<rparr>], fresh := 1, file_map := RBT.insert n (Some 0) RBT.empty\<rparr>)"
proof -
  have "NewWritableFile n new_InMemoryEnv =
      Some (OK, 0, e\<lparr>heap := [0 \<mapsto> \<lparr>refs = 2, blocks = [], file_size = 0\<rparr>], fresh := 1, file_map := RBT.insert n (Some 0) RBT.empty\<rparr>)"
    by (simp add: NewWritableFile_def new_InMemoryEnv_def alloc_def store_def Ref_def new_FileState_def)
  from env_step.open_writable [OF this, of "{#}"] show ?thesis by (simp add: reachable_def)
qed

lemma one_file: "\<exists>e. reachable {#0#} e \<and> (\<forall>m. FileExists m e \<longleftrightarrow> m = n) \<and> (\<forall>m. \<not> null_name m e)"
  by (intro exI conjI, rule reachable_one_file [where n = n]) (simp_all add: FileExists_def null_name_def)


text \<open>C21. Seen by name, the environment is a map from names to strings of bytes: opening a file for
  writing makes it empty, appending extends exactly the file of the writer, deleting and renaming
  change the names and nothing else, an unknown name is an error, and the bytes of a file that
  is open stay as they are whatever happens to its name.  A file renamed to its own name is gone.  This
  holds as long as no name leads to a null pointer.\<close>

theorem memenv_refines:
  assumes "reachable H e" "\<forall>n. \<not> null_name n e"
  shows "(\<exists>a e'. NewWritableFile n e = Some (OK, a, e') \<and> files e' = (files e)(n \<mapsto> []) \<and> keeps_open H e e') \<and>
    (files e n = Some c \<longrightarrow> (\<exists>r e'. NewSequentialFile n e = Some (OK, Some r, e') \<and> files e' = files e \<and>
       mem_unread (e', r) c \<and> keeps_open H e e')) \<and>
    (files e n = Some c \<longrightarrow> (\<exists>e'. DeleteFile n e = Some (OK, e') \<and> files e' = (files e)(n := None) \<and> keeps_open H e e')) \<and>
    (files e n = Some c \<longrightarrow> n \<noteq> target \<longrightarrow>
       (\<exists>e'. RenameFile n target e = Some (OK, e') \<and> files e' = (files e)(target \<mapsto> c, n := None) \<and> keeps_open H e e')) \<and>
    (files e n = Some c \<longrightarrow>
       (\<exists>e'. RenameFile n n e = Some (OK, e') \<and> RBT.lookup (file_map e') = (RBT.lookup (file_map e))(n := None))) \<and>
    (files e n = Some c \<longrightarrow> GetFileSize n e = Some (OK, length c)) \<and>
    (files e n = None \<longrightarrow> NewSequentialFile n e = Some (IOError n ''File not found'', None, e) \<and>
       DeleteFile n e = Some (IOError n ''File not found'', e) \<and> RenameFile n target e = Some (IOError n ''File not found'', e)) \<and>
    (a \<in># H \<longrightarrow> (\<exists>e' c. WritableFileImpl_Append d (e, a) = Some (OK, e', a) \<and> file_holds e a c \<and> file_holds e' a (c @ d) \<and>
       files e' = (\<lambda>n. if RBT.lookup (file_map e) n = Some (Some a) then Some (c @ d) else files e n)))"
proof -
  note ok = reachable_ok [OF assms] and nn = assms(2) [rule_format]
  have "\<exists>a e'. NewWritableFile n e = Some (OK, a, e') \<and> files e' = (files e)(n \<mapsto> []) \<and> keeps_open H e e'"
    using NewWritableFile_ok [OF ok nn] by blast
  moreover have "files e n = Some c \<Longrightarrow> \<exists>r e'. NewSequentialFile n e = Some (OK, Some r, e') \<and> files e' = files e \<and>
       mem_unread (e', r) c \<and> keeps_open H e e'"
    using NewSequentialFile_ok [OF ok] by blast
  moreover have "files e n = Some c \<Longrightarrow> \<exists>e'. DeleteFile n e = Some (OK, e') \<and> files e' = (files e)(n := None) \<and> keeps_open H e e'"
    using DeleteFile_ok [OF ok] by blast
  moreover have "files e n = Some c \<Longrightarrow> n \<noteq> target \<Longrightarrow>
       \<exists>e'. RenameFile n target e = Some (OK, e') \<and> files e' = (files e)(target \<mapsto> c, n := None) \<and> keeps_open H e e'"
    using RenameFile_ok [OF ok _ _ nn] by blast
  moreover have "files e n = Some c \<Longrightarrow>
      \<exists>e'. RenameFile n n e = Some (OK, e') \<and> RBT.lookup (file_map e') = (RBT.lookup (file_map e))(n := None)"
    using RenameFile_names [OF ok _ nn, of n n] lookup_files(2) [OF ok, of n c] by (auto simp: FileExists_def)
  moreover have "files e n = Some c \<Longrightarrow> GetFileSize n e = Some (OK, length c)"
    using lookup_files(2) [OF ok, of n c] env_okD(2) [OF ok] by (auto simp: GetFileSize_def holds_def)
  moreover have "files e n = None \<Longrightarrow> NewSequentialFile n e = Some (IOError n ''File not found'', None, e) \<and>
       DeleteFile n e = Some (IOError n ''File not found'', e) \<and> RenameFile n target e = Some (IOError n ''File not found'', e)"
    using not_found [OF ok _ nn] by blast
  moreover have "a \<in># H \<Longrightarrow> \<exists>e' c. WritableFileImpl_Append d (e, a) = Some (OK, e', a) \<and> file_holds e a c \<and> file_holds e' a (c @ d) \<and>
       files e' = (\<lambda>n. if RBT.lookup (file_map e) n = Some (Some a) then Some (c @ d) else files e n)"
    using Append_ok [OF ok] by blast
  ultimately show ?thesis by (intro conjI) blast+
qed

text \<open>Witness for C21.\<close>

theorem memenv_refines_witness:
  "\<exists>e e' c. reachable {#0#} e \<and> WritableFileImpl_Append [1] (e, 0) = Some (OK, e', 0) \<and> file_holds e' 0 (c @ [1])"
proof -
  obtain e where e: "reachable {#0#} e" "\<forall>n. \<not> null_name n e"
    using one_file by blast
  show ?thesis using e memenv_refines [OF e, of "[]" "[]" "[]" 0 "[1]"] by auto
qed

text \<open>C22. A file opened for appending under a new name is lost: the name then leads to a null pointer,
  and the next client that opens or deletes it follows that pointer.\<close>

theorem NewAppendableFile_lost:
  assumes "\<not> FileExists n e"
  shows "\<exists>a e'. NewAppendableFile n e = Some (OK, a, e') \<and> FileExists n e' \<and>
    NewSequentialFile n e' = None \<and> DeleteFile n e' = None \<and> NewWritableFile n e' = None"
  using assms by (simp add: FileExists_def NewAppendableFile_def alloc_def Ref_def store_def Let_def
      NewSequentialFile_def DeleteFile_def NewWritableFile_def DeleteFileInternal_def)

text \<open>Witness for C22.\<close>

theorem NewAppendableFile_lost_witness:
  "\<not> FileExists ''log'' new_InMemoryEnv \<and>
   (\<exists>a e'. NewAppendableFile ''log'' new_InMemoryEnv = Some (OK, a, e') \<and> NewSequentialFile ''log'' e' = None)"
proof -
  have "\<not> FileExists ''log'' new_InMemoryEnv" by (simp add: FileExists_def new_InMemoryEnv_def)
  then show ?thesis using NewAppendableFile_lost [of "''log''" new_InMemoryEnv] by blast
qed

end
