(* ===== verification/Filename.thy ===== *)
theory Filename
  imports Logging
begin

text \<open>The names of the files of a database (db/filename.h, db/filename.cc).\<close>

datatype FileType = kLogFile | kDBLockFile | kTableFile | kDescriptorFile | kCurrentFile | kTempFile | kInfoLogFile

definition MakeFileName :: "string \<Rightarrow> u64 \<Rightarrow> string \<Rightarrow> string" where
  "MakeFileName name number suffix = name @ ''/'' @ show_padded 6 (unat number) @ ''.'' @ suffix"

text \<open>The assertion that the number is positive is not part of the result.\<close>

definition LogFileName :: "string \<Rightarrow> u64 \<Rightarrow> string" where
  "LogFileName name number = MakeFileName name number ''log''"

definition TableFileName :: "string \<Rightarrow> u64 \<Rightarrow> string" where
  "TableFileName name number = MakeFileName name number ''ldb''"

definition SSTTableFileName :: "string \<Rightarrow> u64 \<Rightarrow> string" where
  "SSTTableFileName name number = MakeFileName name number ''sst''"

definition DescriptorFileName :: "string \<Rightarrow> u64 \<Rightarrow> string" where
  "DescriptorFileName dbname number = dbname @ ''/MANIFEST-'' @ show_padded 6 (unat number)"

definition CurrentFileName :: "string \<Rightarrow> string" where
  "CurrentFileName dbname = dbname @ ''/CURRENT''"

definition LockFileName :: "string \<Rightarrow> string" where
  "LockFileName dbname = dbname @ ''/LOCK''"

definition TempFileName :: "string \<Rightarrow> u64 \<Rightarrow> string" where
  "TempFileName dbname number = MakeFileName dbname number ''dbtmp''"

definition InfoLogFileName :: "string \<Rightarrow> string" where
  "InfoLogFileName dbname = dbname @ ''/LOG''"

definition OldInfoLogFileName :: "string \<Rightarrow> string" where
  "OldInfoLogFileName dbname = dbname @ ''/LOG.old''"

definition ParseFileName :: "string \<Rightarrow> (u64 \<times> FileType) option" where
  "ParseFileName fname =
     (if fname = ''CURRENT'' then Some (0, kCurrentFile)
      else if fname = ''LOCK'' then Some (0, kDBLockFile)
      else if fname = ''LOG'' \<or> fname = ''LOG.old'' then Some (0, kInfoLogFile)
      else if take 9 fname = ''MANIFEST-'' then
        (case ConsumeDecimalNumber (drop 9 fname) of
           None \<Rightarrow> None
         | Some (num, rest) \<Rightarrow> if rest \<noteq> [] then None else Some (num, kDescriptorFile))
      else
        (case ConsumeDecimalNumber fname of
           None \<Rightarrow> None
         | Some (num, suffix) \<Rightarrow>
             if suffix = ''.log'' then Some (num, kLogFile)
             else if suffix = ''.sst'' \<or> suffix = ''.ldb'' then Some (num, kTableFile)
             else if suffix = ''.dbtmp'' then Some (num, kTempFile)
             else None))"

section \<open>Every name that is made is recognised\<close>

text \<open>The name of a file inside its directory.\<close>

definition base_name :: "string \<Rightarrow> string \<Rightarrow> string" where
  "base_name dbname fname = drop (length dbname + 1) fname"

lemma padded_head:
  assumes "show_padded w n @ s = c # cs"
  shows "is_decimal c"
  using assms show_padded_decimal(1,2) [of w n] by (cases "show_padded w n") auto

lemma ParseFileName_number:
  assumes "suffix = [] \<or> \<not> is_decimal (hd suffix)"
  shows "ParseFileName (show_padded 6 (unat v) @ suffix) =
    (if suffix = ''.log'' then Some (v, kLogFile)
     else if suffix = ''.sst'' \<or> suffix = ''.ldb'' then Some (v, kTableFile)
     else if suffix = ''.dbtmp'' then Some (v, kTempFile) else None)"
proof -
  let ?f = "show_padded 6 (unat v) @ suffix"
  have "ConsumeDecimalNumber ?f = Some (v, suffix)"
    using ConsumeDecimalNumber_digits [of "show_padded 6 (unat v)" suffix] show_padded_decimal [of 6 "unat v"]
      u64_less [of v] assms by simp
  moreover obtain c cs where f: "?f = c # cs" using show_padded_decimal(2) by (cases ?f) auto
  moreover have "is_decimal c" using padded_head [OF f] .
  then have "c \<noteq> CHR ''C''" "c \<noteq> CHR ''L''" "c \<noteq> CHR ''M''" by (auto simp: is_decimal_def)
  ultimately show ?thesis by (auto simp: ParseFileName_def)
qed

lemma ParseFileName_manifest: "ParseFileName (''MANIFEST-'' @ show_padded 6 (unat v)) = Some (v, kDescriptorFile)"
  using ConsumeDecimalNumber_digits [of "show_padded 6 (unat v)" "[]"] show_padded_decimal [of 6 "unat v"]
    u64_less [of v] by (simp add: ParseFileName_def)

lemma ParseFileName_made:
  "ParseFileName (base_name dbname (LogFileName dbname v)) = Some (v, kLogFile)"
  "ParseFileName (base_name dbname (TableFileName dbname v)) = Some (v, kTableFile)"
  "ParseFileName (base_name dbname (SSTTableFileName dbname v)) = Some (v, kTableFile)"
  "ParseFileName (base_name dbname (TempFileName dbname v)) = Some (v, kTempFile)"
  "ParseFileName (base_name dbname (DescriptorFileName dbname v)) = Some (v, kDescriptorFile)"
  "ParseFileName (base_name dbname (CurrentFileName dbname)) = Some (0, kCurrentFile)"
  "ParseFileName (base_name dbname (LockFileName dbname)) = Some (0, kDBLockFile)"
  "ParseFileName (base_name dbname (InfoLogFileName dbname)) = Some (0, kInfoLogFile)"
  "ParseFileName (base_name dbname (OldInfoLogFileName dbname)) = Some (0, kInfoLogFile)"
  using ParseFileName_manifest
  by (simp_all add: base_name_def LogFileName_def TableFileName_def SSTTableFileName_def TempFileName_def
      DescriptorFileName_def CurrentFileName_def LockFileName_def InfoLogFileName_def OldInfoLogFileName_def
      MakeFileName_def ParseFileName_number is_decimal_def)
    (simp_all add: ParseFileName_def)

end
