(* ===== verification/Comparator.thy ===== *)
theory Comparator
  imports Coding
begin

text \<open>
  The order of keys (include/leveldb/slice.h, include/leveldb/comparator.h, util/comparator.cc): the
  interface, its contract and the bytewise comparator.
\<close>

record Comparator =
  Compare :: "bytes \<Rightarrow> bytes \<Rightarrow> int"
  FindShortestSeparator :: "bytes \<Rightarrow> bytes \<Rightarrow> bytes"
  FindShortSuccessor :: "bytes \<Rightarrow> bytes"

text \<open>
  A comparator orders all strings; two strings may be equal for it without being the same.  A
  separator lies between its two strings, and a successor is not smaller than its string.
\<close>

locale comparator =
  fixes C :: Comparator
  assumes cmp_antisym: "Compare C a b < 0 \<longleftrightarrow> 0 < Compare C b a"
    and cmp_trans: "Compare C a b \<le> 0 \<Longrightarrow> Compare C b c \<le> 0 \<Longrightarrow> Compare C a c \<le> 0"
    and separator: "Compare C a b < 0 \<Longrightarrow>
      Compare C a (FindShortestSeparator C a b) \<le> 0 \<and> Compare C (FindShortestSeparator C a b) b < 0"
    and successor: "Compare C a (FindShortSuccessor C a) \<le> 0"
begin

lemma cmp_refl: "Compare C a a = 0"
  using cmp_antisym [of a a] by linarith

lemma cmp_less_trans: "Compare C a b < 0 \<Longrightarrow> Compare C b c \<le> 0 \<Longrightarrow> Compare C a c < 0"
  using cmp_antisym [of a b] cmp_antisym [of a c] cmp_antisym [of c a] cmp_trans [of b c a] by (smt (verit))

lemma cmp_le_less_trans: "Compare C a b \<le> 0 \<Longrightarrow> Compare C b c < 0 \<Longrightarrow> Compare C a c < 0"
  using cmp_antisym [of b c] cmp_antisym [of a c] cmp_antisym [of c a] cmp_trans [of c a b] by (smt (verit))

end

section \<open>Bytewise order\<close>

fun memcmp :: "bytes \<Rightarrow> bytes \<Rightarrow> int" where
  "memcmp (a # as) (b # bs) = (if a < b then - 1 else if b < a then 1 else memcmp as bs)"
| "memcmp _ _ = 0"

definition slice_compare :: "bytes \<Rightarrow> bytes \<Rightarrow> int" where
  "slice_compare a b =
     (let min_len = (if length a < length b then length a else length b);
          r = memcmp (take min_len a) (take min_len b)
      in if r = 0 then (if length a < length b then - 1 else if length a > length b then 1 else r) else r)"

text \<open>The length of the common prefix, and the separator.\<close>

fun diff_index :: "bytes \<Rightarrow> bytes \<Rightarrow> nat" where
  "diff_index (a # as) (b # bs) = (if a = b then Suc (diff_index as bs) else 0)"
| "diff_index _ _ = 0"

definition bytewise_separator :: "bytes \<Rightarrow> bytes \<Rightarrow> bytes" where
  "bytewise_separator start limit =
     (let min_length = min (length start) (length limit); d = diff_index start limit in
      if d \<ge> min_length then start
      else let diff_byte = start ! d in
        if diff_byte < 0xff \<and> unat diff_byte + 1 < unat (limit ! d)
        then take (d + 1) (start[d := diff_byte + 1]) else start)"

fun bytewise_successor :: "bytes \<Rightarrow> bytes" where
  "bytewise_successor [] = []"
| "bytewise_successor (b # key) = (if b \<noteq> 0xff then [b + 1] else b # bytewise_successor key)"

definition BytewiseComparator :: Comparator where
  "BytewiseComparator = \<lparr>Compare = slice_compare, FindShortestSeparator = bytewise_separator,
     FindShortSuccessor = bytewise_successor\<rparr>"

section \<open>The bytewise comparator keeps the contract\<close>

text \<open>The comparison as a recursion on both strings.\<close>

lemma slice_compare_simps [simp]:
  "slice_compare [] [] = 0" "slice_compare [] (b # bs) = - 1" "slice_compare (a # as) [] = 1"
  "slice_compare (a # as) (b # bs) = (if a < b then - 1 else if b < a then 1 else slice_compare as bs)"
  by (simp_all add: slice_compare_def Let_def)

lemma slice_compare_zero: "slice_compare a b = 0 \<longleftrightarrow> a = b"
proof (induction a arbitrary: b)
  case Nil
  then show ?case by (cases b) auto
next
  case (Cons x a)
  then show ?case by (cases b) auto
qed

lemma slice_compare_refl: "slice_compare a a = 0"
  by (simp add: slice_compare_zero)

lemma slice_compare_antisym: "slice_compare a b < 0 \<longleftrightarrow> 0 < slice_compare b a"
proof (induction a arbitrary: b)
  case Nil
  then show ?case by (cases b) auto
next
  case (Cons x a)
  then show ?case by (cases b) auto
qed

lemma slice_compare_trans: "slice_compare a b \<le> 0 \<Longrightarrow> slice_compare b c \<le> 0 \<Longrightarrow> slice_compare a c \<le> 0"
proof (induction a arbitrary: b c)
  case Nil
  then show ?case by (cases c) auto
next
  case (Cons x a)
  then obtain y b' where "b = y # b'" by (cases b) auto
  with Cons show ?case by (cases c) (auto split: if_splits)
qed

lemma slice_compare_values: "slice_compare a b \<in> {- 1, 0, 1}"
proof (induction a arbitrary: b)
  case Nil
  then show ?case by (cases b) auto
next
  case (Cons x a)
  then show ?case by (cases b) auto
qed

lemma byte_plus_one:
  fixes x y :: byte
  assumes "unat x + 1 < unat y"
  shows "x < x + 1" "x + 1 < y"
proof -
  have "unat y < 256" using unsigned_less [where ?'a = nat, of y] by simp
  then have "unat (x + 1) = unat x + 1" using assms by (simp add: unat_word_ariths)
  then show "x < x + 1" "x + 1 < y" using assms by (simp_all add: word_less_nat_alt)
qed

lemma bytewise_separator_between:
  "slice_compare a b < 0 \<Longrightarrow>
   slice_compare a (bytewise_separator a b) \<le> 0 \<and> slice_compare (bytewise_separator a b) b < 0"
proof (induction a arbitrary: b)
  case Nil
  then show ?case by (simp add: bytewise_separator_def Let_def)
next
  case (Cons x a)
  then obtain y b' where b: "b = y # b'" by (cases b) auto
  show ?case
  proof (cases "x = y")
    case True
    then have "bytewise_separator (x # a) b = x # bytewise_separator a b'"
      by (simp add: bytewise_separator_def Let_def b)
    then show ?thesis using Cons True b by simp
  next
    case False
    then have "bytewise_separator (x # a) b = (if x < 255 \<and> unat x + 1 < unat y then [x + 1] else x # a)"
      by (simp add: bytewise_separator_def Let_def b)
    then show ?thesis using Cons.prems False b byte_plus_one [of x y]
      by (auto simp: b slice_compare_refl)
  qed
qed

lemma bytewise_successor_above: "slice_compare a (bytewise_successor a) \<le> 0"
proof (induction a)
  case (Cons x a)
  have "x < x + 1" if "x \<noteq> 255"
  proof -
    have "unat x < 256" using unsigned_less [where ?'a = nat, of x] by simp
    moreover have "unat x \<noteq> 255" using that by (auto simp: word_unat_eq_iff)
    ultimately have "unat (x + 1) = unat x + 1" by (simp add: unat_word_ariths)
    then show ?thesis by (simp add: word_less_nat_alt)
  qed
  then show ?case using Cons by simp
qed simp

interpretation bytewise: comparator BytewiseComparator
proof (unfold_locales, goal_cases)
  case (1 a b)
  show ?case by (simp add: BytewiseComparator_def slice_compare_antisym [of a b])
next
  case (2 a b c)
  then show ?case using slice_compare_trans by (simp add: BytewiseComparator_def)
next
  case (3 a b)
  then show ?case using bytewise_separator_between by (simp add: BytewiseComparator_def)
next
  case (4 a)
  show ?case using bytewise_successor_above by (simp add: BytewiseComparator_def)
qed

end
