(* ===== verification/Block.thy ===== *)
theory Block
  imports Comparator Status "HOL-Library.Monad_Syntax"
begin

text \<open>
  The blocks of a table: the builder (table/block_builder.h, table/block_builder.cc) and the reader
  with its iterator (table/block.h, table/block.cc).  Keys share prefixes with the key before,
  except at restart points, whose offsets end the block.
\<close>

section \<open>The builder\<close>

record BlockBuilder =
  buffer :: bytes
  restarts :: "u32 list"
  counter :: nat
  finished :: bool
  last_key :: bytes

definition new_BlockBuilder :: BlockBuilder where
  "new_BlockBuilder = \<lparr>buffer = [], restarts = [0], counter = 0, finished = False, last_key = []\<rparr>"

definition Reset :: "BlockBuilder \<Rightarrow> BlockBuilder" where
  "Reset b = b\<lparr>buffer := [], restarts := [0], counter := 0, finished := False, last_key := []\<rparr>"

definition CurrentSizeEstimate :: "BlockBuilder \<Rightarrow> nat" where
  "CurrentSizeEstimate b = length (buffer b) + length (restarts b) * 4 + 4"

definition block_empty :: "BlockBuilder \<Rightarrow> bool" where
  "block_empty b \<longleftrightarrow> buffer b = []"

definition Finish :: "BlockBuilder \<Rightarrow> BlockBuilder" where
  "Finish b = b\<lparr>buffer := PutFixed32 (foldl PutFixed32 (buffer b) (restarts b)) (word_of_nat (length (restarts b))),
     finished := True\<rparr>"

text \<open>The assertions, that the block is not finished and that keys increase, are left to the caller.\<close>

definition Add :: "nat \<Rightarrow> bytes \<Rightarrow> bytes \<Rightarrow> BlockBuilder \<Rightarrow> BlockBuilder" where
  "Add block_restart_interval key value b =
     (let compress = counter b < block_restart_interval;
          shared = (if compress then diff_index (last_key b) key else 0);
          rs = (if compress then restarts b else restarts b @ [word_of_nat (length (buffer b))]);
          n = (if compress then counter b else 0);
          non_shared = length key - shared;
          buf = PutVarint32 (PutVarint32 (PutVarint32 (buffer b) (word_of_nat shared)) (word_of_nat non_shared))
                  (word_of_nat (length value))
      in b\<lparr>restarts := rs, buffer := buf @ drop shared key @ value,
           last_key := take shared (last_key b) @ drop shared key, counter := n + 1\<rparr>)"

section \<open>Blocks\<close>

record Block =
  bdata :: bytes
  bsize :: nat
  restart_offset :: nat

text \<open>Four bytes at an index; None outside the data.\<close>

definition fixed32 :: "bytes \<Rightarrow> nat \<Rightarrow> nat option" where
  "fixed32 p i = map_option unat (DecodeFixed32 (drop i p))"

definition NumRestarts :: "bytes \<Rightarrow> nat \<Rightarrow> nat option" where
  "NumRestarts d n = fixed32 (take n d) (n - 4)"

definition new_Block :: "bytes \<Rightarrow> Block option" where
  "new_Block contents =
     (let sz = length contents in
      if sz < 4 then Some \<lparr>bdata = contents, bsize = 0, restart_offset = 0\<rparr>
      else do {
        n \<leftarrow> NumRestarts contents sz;
        if n > (sz - 4) div 4 then Some \<lparr>bdata = contents, bsize = 0, restart_offset = 0\<rparr>
        else Some \<lparr>bdata = contents, bsize = sz, restart_offset = sz - (1 + n) * 4\<rparr> })"

text \<open>
  The three lengths of an entry, and the offset of its key.  The outer option is None when the
  entry is refused.  The sum of the lengths wraps around at 32 bits.
\<close>

definition DecodeEntry :: "bytes \<Rightarrow> nat \<Rightarrow> nat \<Rightarrow> (nat \<times> u32 \<times> u32 \<times> u32) option" where
  "DecodeEntry d p limit =
     (let s = drop p (take limit d) in
      if limit - p < 3 then None
      else let shared = ucast (s ! 0) :: u32; non_shared = ucast (s ! 1) :: u32; value_length = ucast (s ! 2) :: u32 in do {
        (rest, shared, non_shared, value_length) \<leftarrow>
          (if shared OR non_shared OR value_length < 128
           then Some (drop 3 s, shared, non_shared, value_length)
           else do {
             (shared, s) \<leftarrow> GetVarint32Ptr s;
             (non_shared, s) \<leftarrow> GetVarint32Ptr s;
             (value_length, s) \<leftarrow> GetVarint32Ptr s;
             Some (s, shared, non_shared, value_length) });
        if (word_of_nat (length rest) :: u32) < non_shared + value_length then None
        else Some (limit - length rest, shared, non_shared, value_length) })"

section \<open>The iterator\<close>

text \<open>
  The value is an offset and a length; the offset is None when the pointer does not point into the
  data.  Reading outside the data is None as well.
\<close>

record Iter =
  icmp :: Comparator
  idata :: bytes
  irestarts :: nat
  num_restarts :: nat
  current :: nat
  restart_index :: nat
  ikey :: bytes
  ivalue :: "(nat \<times> nat) option"
  istatus :: Status

definition new_Iter :: "Comparator \<Rightarrow> bytes \<Rightarrow> nat \<Rightarrow> nat \<Rightarrow> Iter" where
  "new_Iter c d r n = \<lparr>icmp = c, idata = d, irestarts = r, num_restarts = n, current = r, restart_index = n,
     ikey = [], ivalue = None, istatus = OK\<rparr>"

definition Valid :: "Iter \<Rightarrow> bool" where
  "Valid it \<longleftrightarrow> current it < irestarts it"

definition NextEntryOffset :: "Iter \<Rightarrow> nat option" where
  "NextEntryOffset it = map_option (\<lambda>(off, len). off + len) (ivalue it)"

definition GetRestartPoint :: "Iter \<Rightarrow> nat \<Rightarrow> nat option" where
  "GetRestartPoint it index =
     (if index < num_restarts it then fixed32 (idata it) (irestarts it + index * 4) else None)"

definition SeekToRestartPoint :: "nat \<Rightarrow> Iter \<Rightarrow> Iter option" where
  "SeekToRestartPoint index it = do {
     off \<leftarrow> GetRestartPoint it index;
     Some (it\<lparr>ikey := [], restart_index := index, ivalue := Some (off, 0)\<rparr>) }"

definition CorruptionError :: "Iter \<Rightarrow> Iter" where
  "CorruptionError it = it\<lparr>current := irestarts it, restart_index := num_restarts it,
     istatus := Corruption ''bad entry in block'' [], ikey := [], ivalue := None\<rparr>"

text \<open>The loop that moves to the restart point of the current entry.\<close>

function restart_loop :: "Iter \<Rightarrow> Iter option" where
  "restart_loop it =
     (if restart_index it + 1 < num_restarts it then
        case GetRestartPoint it (restart_index it + 1) of
          None \<Rightarrow> None
        | Some off \<Rightarrow> if off < current it then restart_loop (it\<lparr>restart_index := restart_index it + 1\<rparr>) else Some it
      else Some it)"
  by pat_completeness auto
termination
  by (relation "measure (\<lambda>it. num_restarts it - restart_index it)") auto

declare restart_loop.simps [simp del]

definition ParseNextKey :: "Iter \<Rightarrow> (bool \<times> Iter) option" where
  "ParseNextKey it = do {
     cur \<leftarrow> NextEntryOffset it;
     let it = it\<lparr>current := cur\<rparr>;
     let limit = irestarts it;
     if cur \<ge> limit then Some (False, it\<lparr>current := irestarts it, restart_index := num_restarts it\<rparr>)
     else case DecodeEntry (idata it) cur limit of
       None \<Rightarrow> Some (False, CorruptionError it)
     | Some (p, shared, non_shared, value_length) \<Rightarrow>
         if length (ikey it) < unat shared then Some (False, CorruptionError it)
         else if p + unat non_shared + unat value_length > length (idata it) then None
         else do {
           it \<leftarrow> restart_loop (it\<lparr>ikey := take (unat shared) (ikey it) @ take (unat non_shared) (drop p (idata it)),
                  ivalue := Some (p + unat non_shared, unat value_length)\<rparr>);
           Some (True, it) } }"

definition Next :: "Iter \<Rightarrow> Iter option" where
  "Next it = map_option snd (ParseNextKey it)"

definition SeekToFirst :: "Iter \<Rightarrow> Iter option" where
  "SeekToFirst it = do { it \<leftarrow> SeekToRestartPoint 0 it; Next it }"

text \<open>A parsed entry ends after the one before.\<close>

lemma GetVarint32Ptr_shorter: "GetVarint32Ptr p = Some (v, rest) \<Longrightarrow> length rest < length p"
  using varint32.dec_shorter by (simp add: GetVarint32_def)

lemma DecodeEntry_after: "DecodeEntry d p limit = Some (q, x) \<Longrightarrow> p < q"
  by (auto simp: DecodeEntry_def Let_def min_def dest!: GetVarint32Ptr_shorter split: if_splits bind_splits; linarith)

lemma restart_loop_keeps: "restart_loop it = Some it' \<Longrightarrow> \<exists>i. it' = it\<lparr>restart_index := i\<rparr>"
proof (induction it rule: restart_loop.induct)
  case (1 it)
  show ?case
  proof (cases "it' = it")
    case True
    then show ?thesis by (intro exI [of _ "restart_index it"]) simp
  next
    case False
    then show ?thesis using 1 restart_loop.simps [of it] by (auto split: if_splits option.splits)
  qed
qed

lemma ParseNextKey_advances:
  assumes "ParseNextKey it = Some (True, it')"
  shows "\<exists>a b. NextEntryOffset it = Some a \<and> NextEntryOffset it' = Some b \<and> a < b \<and> b \<le> length (idata it) \<and> idata it' = idata it"
  using assms
  by (auto simp: ParseNextKey_def Let_def NextEntryOffset_def split: if_splits option.splits bind_splits
      dest!: DecodeEntry_after restart_loop_keeps)

text \<open>Stepping on while the entry ends before an offset.\<close>

function parse_until :: "nat \<Rightarrow> Iter \<Rightarrow> Iter option" where
  "parse_until original it =
     Option.bind (ParseNextKey it) (\<lambda>(ok, it). if ok then
       Option.bind (NextEntryOffset it) (\<lambda>off. if off < original then parse_until original it else Some it)
     else Some it)"
  by pat_completeness auto
termination
  by (relation "measure (\<lambda>(original, it). length (idata it) - the (NextEntryOffset it))")
     (auto dest!: ParseNextKey_advances)

declare parse_until.simps [simp del]

definition SeekToLast :: "Iter \<Rightarrow> Iter option" where
  "SeekToLast it = do { it \<leftarrow> SeekToRestartPoint (num_restarts it - 1) it; parse_until (irestarts it) it }"

text \<open>The scan back to a restart point before the entry; None in the result when there is none.\<close>

fun prev_scan :: "Iter \<Rightarrow> nat \<Rightarrow> nat \<Rightarrow> nat option option" where
  "prev_scan it original 0 = do {
     off \<leftarrow> GetRestartPoint it 0;
     if off \<ge> original then Some None else Some (Some 0) }"
| "prev_scan it original (Suc i) = do {
     off \<leftarrow> GetRestartPoint it (Suc i);
     if off \<ge> original then prev_scan it original i else Some (Some (Suc i)) }"

definition Prev :: "Iter \<Rightarrow> Iter option" where
  "Prev it = do {
     let original = current it;
     r \<leftarrow> prev_scan it original (restart_index it);
     case r of
       None \<Rightarrow> Some (it\<lparr>current := irestarts it, restart_index := num_restarts it\<rparr>)
     | Some i \<Rightarrow> do { it \<leftarrow> SeekToRestartPoint i it; parse_until original it } }"

text \<open>The binary search over the restart points; None in the result for a corrupt entry.\<close>

function seek_binary :: "Iter \<Rightarrow> bytes \<Rightarrow> nat \<Rightarrow> nat \<Rightarrow> nat option option" where
  "seek_binary it target left right =
     (if left < right then
        let mid = (left + right + 1) div 2 in
        case GetRestartPoint it mid of
          None \<Rightarrow> None
        | Some region_offset \<Rightarrow> (case DecodeEntry (idata it) region_offset (irestarts it) of
            None \<Rightarrow> Some None
          | Some (p, shared, non_shared, value_length) \<Rightarrow>
              if shared \<noteq> 0 then Some None
              else if p + unat non_shared > length (idata it) then None
              else if Compare (icmp it) (take (unat non_shared) (drop p (idata it))) target < 0
                then seek_binary it target mid right
                else seek_binary it target left (mid - 1))
      else Some (Some left))"
  by pat_completeness auto
termination
  by (relation "measure (\<lambda>(it, target, left, right). right - left)") auto

declare seek_binary.simps [simp del]

function seek_linear :: "bytes \<Rightarrow> Iter \<Rightarrow> Iter option" where
  "seek_linear target it =
     Option.bind (ParseNextKey it) (\<lambda>(ok, it).
       if \<not> ok then Some it
       else if Compare (icmp it) (ikey it) target \<ge> 0 then Some it
       else seek_linear target it)"
  by pat_completeness auto
termination
  by (relation "measure (\<lambda>(target, it). length (idata it) - the (NextEntryOffset it))")
     (auto dest!: ParseNextKey_advances)

declare seek_linear.simps [simp del]

definition Seek :: "bytes \<Rightarrow> Iter \<Rightarrow> Iter option" where
  "Seek target it = do {
     r \<leftarrow> seek_binary it target 0 (num_restarts it - 1);
     case r of
       None \<Rightarrow> Some (CorruptionError it)
     | Some left \<Rightarrow> do { it \<leftarrow> SeekToRestartPoint left it; seek_linear target it } }"

definition entry_key :: "Iter \<Rightarrow> bytes" where
  "entry_key it = ikey it"

definition entry_value :: "Iter \<Rightarrow> bytes option" where
  "entry_value it = map_option (\<lambda>(off, len). take len (drop off (idata it))) (ivalue it)"

text \<open>The iterator of a block, or the error iterator with its status.\<close>

definition NewIterator :: "Comparator \<Rightarrow> Block \<Rightarrow> (Status + Iter) option" where
  "NewIterator cmp b =
     (if bsize b < 4 then Some (Inl (Corruption ''bad block contents'' []))
      else do {
        n \<leftarrow> NumRestarts (bdata b) (bsize b);
        if n = 0 then Some (Inl OK) else Some (Inr (new_Iter cmp (bdata b) (restart_offset b) n)) })"

end
