(* ===== verification/Table_Format.thy ===== *)
theory Table_Format
  imports Block Files CRC32C
begin

text \<open>
  The format of a table file (table/format.h, table/format.cc): handles of blocks, the footer and
  the reading of a block, over the contract of files for random access (include/leveldb/env.h).
  Snappy (port/port_posix.h) is a parameter: its functions are those of a library, or the ones of a
  build without it, which always fail.
\<close>

section \<open>Files for random access\<close>

text \<open>
  A read returns the status, the data and whether the data are in the buffer of the caller; they
  may also be a pointer into memory of the file.
\<close>

record 'f RandomAccessFile =
  RandomRead :: "u64 \<Rightarrow> nat \<Rightarrow> 'f \<Rightarrow> (Status \<times> bytes \<times> bool) option"

locale random_access_file =
  fixes R :: "'f RandomAccessFile" and contents :: "'f \<Rightarrow> bytes \<Rightarrow> bool"
  assumes RandomRead_ok: "contents f c \<Longrightarrow> unat off \<le> length c \<Longrightarrow>
    \<exists>own. RandomRead R off n f = Some (OK, take n (drop (unat off) c), own)"

section \<open>Compression\<close>

record Snappy =
  Snappy_Compress :: "bytes \<Rightarrow> bytes option"
  Snappy_GetUncompressedLength :: "bytes \<Rightarrow> nat option"
  Snappy_Uncompress :: "bytes \<Rightarrow> bytes option"

text \<open>What is compressed can be restored.\<close>

locale snappy =
  fixes S :: Snappy
  assumes Uncompress_ok: "Snappy_Compress S d = Some c \<Longrightarrow>
    Snappy_GetUncompressedLength S c = Some (length d) \<and> Snappy_Uncompress S c = Some d"

text \<open>The functions of a build without Snappy.\<close>

definition no_snappy :: Snappy where
  "no_snappy = \<lparr>Snappy_Compress = \<lambda>_. None, Snappy_GetUncompressedLength = \<lambda>_. None, Snappy_Uncompress = \<lambda>_. None\<rparr>"

interpretation no_snappy: snappy no_snappy
  by unfold_locales (simp add: no_snappy_def)

datatype CompressionType = kNoCompression | kSnappyCompression

fun compression_byte :: "CompressionType \<Rightarrow> byte" where
  "compression_byte kNoCompression = 0"
| "compression_byte kSnappyCompression = 1"

section \<open>Handles and the footer\<close>

record BlockHandle =
  offset :: u64
  hsize :: u64

definition new_BlockHandle :: BlockHandle where
  "new_BlockHandle = \<lparr>offset = NOT 0, hsize = NOT 0\<rparr>"

definition kMaxEncodedLength :: nat where
  "kMaxEncodedLength = 10 + 10"

definition Handle_EncodeTo :: "BlockHandle \<Rightarrow> bytes \<Rightarrow> bytes option" where
  "Handle_EncodeTo h dst =
     (if offset h = NOT 0 \<or> hsize h = NOT 0 then None
      else Some (PutVarint64 (PutVarint64 dst (offset h)) (hsize h)))"

text \<open>The status, the handle, of which fields may be set already, and the rest of the input.\<close>

definition Handle_DecodeFrom :: "BlockHandle \<Rightarrow> bytes \<Rightarrow> Status \<times> BlockHandle \<times> bytes" where
  "Handle_DecodeFrom h input = (case GetVarint64 input of
     None \<Rightarrow> (Corruption ''bad block handle'' [], h, input)
   | Some (off, input) \<Rightarrow> (case GetVarint64 input of
       None \<Rightarrow> (Corruption ''bad block handle'' [], h\<lparr>offset := off\<rparr>, input)
     | Some (sz, input) \<Rightarrow> (OK, h\<lparr>offset := off, hsize := sz\<rparr>, input)))"

record Footer =
  metaindex_handle :: BlockHandle
  index_handle :: BlockHandle

definition new_Footer :: Footer where
  "new_Footer = \<lparr>metaindex_handle = new_BlockHandle, index_handle = new_BlockHandle\<rparr>"

definition Footer_kEncodedLength :: nat where
  "Footer_kEncodedLength = 2 * kMaxEncodedLength + 8"

definition kTableMagicNumber :: u64 where
  "kTableMagicNumber = 0xdb4775248b80fb57"

definition kBlockTrailerSize :: nat where
  "kBlockTrailerSize = 5"

text \<open>Cutting a string or filling it up with zero bytes.\<close>

definition resize :: "nat \<Rightarrow> bytes \<Rightarrow> bytes" where
  "resize n s = take n s @ replicate (n - length s) 0"

definition Footer_EncodeTo :: "Footer \<Rightarrow> bytes \<Rightarrow> bytes option" where
  "Footer_EncodeTo f dst = do {
     let original_size = length dst;
     dst \<leftarrow> Handle_EncodeTo (metaindex_handle f) dst;
     dst \<leftarrow> Handle_EncodeTo (index_handle f) dst;
     let dst = resize (2 * kMaxEncodedLength) dst;
     let dst = PutFixed32 dst (ucast (kTableMagicNumber AND 0xffffffff));
     let dst = PutFixed32 dst (ucast (drop_bit 32 kTableMagicNumber));
     if length dst = original_size + Footer_kEncodedLength then Some dst else None }"

text \<open>The magic number is read without looking at the length of the input.\<close>

definition Footer_DecodeFrom :: "Footer \<Rightarrow> bytes \<Rightarrow> (Status \<times> Footer \<times> bytes) option" where
  "Footer_DecodeFrom f input = do {
     magic_lo \<leftarrow> DecodeFixed32 (drop (Footer_kEncodedLength - 8) input);
     magic_hi \<leftarrow> DecodeFixed32 (drop (Footer_kEncodedLength - 8 + 4) input);
     let magic = push_bit 32 (ucast magic_hi) OR ucast magic_lo;
     if magic \<noteq> kTableMagicNumber then Some (Corruption ''not an sstable (bad magic number)'' [], f, input)
     else case Handle_DecodeFrom (metaindex_handle f) input of
       (s, m, rest) \<Rightarrow> let f = f\<lparr>metaindex_handle := m\<rparr> in
         if \<not> is_ok s then Some (s, f, rest)
         else case Handle_DecodeFrom (index_handle f) rest of
           (s, i, rest) \<Rightarrow> let f = f\<lparr>index_handle := i\<rparr> in
             if \<not> is_ok s then Some (s, f, rest) else Some (s, f, drop Footer_kEncodedLength input) }"

section \<open>Reading a block\<close>

record BlockContents =
  cdata :: bytes
  cachable :: bool
  heap_allocated :: bool

definition no_contents :: BlockContents where
  "no_contents = \<lparr>cdata = [], cachable = False, heap_allocated = False\<rparr>"

text \<open>
  The size of a block and of its trailer is added with wrap-around; the data are used at indices
  without wrap-around, and an index outside of them is None.
\<close>

definition ReadBlock :: "Snappy \<Rightarrow> 'f RandomAccessFile \<Rightarrow> bool \<Rightarrow> BlockHandle \<Rightarrow> 'f \<Rightarrow> (Status \<times> BlockContents) option" where
  "ReadBlock S R verify_checksums handle f = do {
     let n = unat (hsize handle);
     let m = unat (hsize handle + word_of_nat kBlockTrailerSize);
     (s, data, own) \<leftarrow> RandomRead R (offset handle) m f;
     if \<not> is_ok s then Some (s, no_contents)
     else if length data \<noteq> m then Some (Corruption ''truncated block read'' [], no_contents)
     else if length data \<le> n then None
     else do {
       crc_ok \<leftarrow> (if verify_checksums then do {
           c \<leftarrow> DecodeFixed32 (drop (n + 1) data);
           Some (Value 0 (take (n + 1) data) = Unmask c) }
         else Some True);
       if \<not> crc_ok then Some (Corruption ''block checksum mismatch'' [], no_contents)
       else if data ! n = compression_byte kNoCompression then
         Some (OK, \<lparr>cdata = take n data, cachable = own, heap_allocated = own\<rparr>)
       else if data ! n = compression_byte kSnappyCompression then
         (case Snappy_GetUncompressedLength S (take n data) of
            None \<Rightarrow> Some (Corruption ''corrupted compressed block contents'' [], no_contents)
          | Some ulength \<Rightarrow> (case Snappy_Uncompress S (take n data) of
              None \<Rightarrow> Some (Corruption ''corrupted compressed block contents'' [], no_contents)
            | Some u \<Rightarrow> Some (OK, \<lparr>cdata = u, cachable = True, heap_allocated = True\<rparr>)))
       else Some (Corruption ''bad block type'' [], no_contents) } }"

section \<open>Round trips\<close>

definition handle_ok :: "BlockHandle \<Rightarrow> bool" where
  "handle_ok h \<longleftrightarrow> offset h \<noteq> NOT 0 \<and> hsize h \<noteq> NOT 0"

definition encoded :: "BlockHandle \<Rightarrow> bytes" where
  "encoded h = EncodeVarint64 (offset h) @ EncodeVarint64 (hsize h)"

lemma Handle_EncodeTo_ok: "handle_ok h \<Longrightarrow> Handle_EncodeTo h dst = Some (dst @ encoded h)"
  by (simp add: Handle_EncodeTo_def handle_ok_def PutVarint64_def encoded_def)

lemma Handle_DecodeFrom_encoded [simp]: "Handle_DecodeFrom h' (encoded h @ rest) = (OK, h, rest)"
  by (simp add: Handle_DecodeFrom_def encoded_def)

lemma Handle_DecodeFrom_encoded_only [simp]: "Handle_DecodeFrom h' (encoded h) = (OK, h, [])"
  using Handle_DecodeFrom_encoded [of h' h "[]"] by simp

lemma encoded_length: "length (encoded h) \<le> kMaxEncodedLength"
proof -
  have "length (EncodeVarint64 v) \<le> 10" for v
    using EncodeVarint64_length [of v 10] u64_less [of v] by simp
  from this [of "offset h"] this [of "hsize h"] show ?thesis by (simp add: encoded_def kMaxEncodedLength_def)
qed

lemma encoded_inj: "encoded a = encoded b \<longleftrightarrow> a = b"
proof
  assume "encoded a = encoded b"
  then have "Handle_DecodeFrom new_BlockHandle (encoded a) = Handle_DecodeFrom new_BlockHandle (encoded b)" by simp
  then show "a = b" by simp
qed simp

definition magic_bytes :: bytes where
  "magic_bytes = EncodeFixed32 (ucast (kTableMagicNumber AND 0xffffffff)) @ EncodeFixed32 (ucast (drop_bit 32 kTableMagicNumber))"

definition footer_bytes :: "Footer \<Rightarrow> bytes" where
  "footer_bytes f = resize (2 * kMaxEncodedLength) (encoded (metaindex_handle f) @ encoded (index_handle f)) @ magic_bytes"

lemma length_resize [simp]: "length (resize n s) = n"
  by (simp add: resize_def)

lemma magic_length [simp]: "length magic_bytes = 8"
  by (simp add: magic_bytes_def)

lemma footer_length [simp]: "length (footer_bytes f) = Footer_kEncodedLength"
  by (simp add: footer_bytes_def Footer_kEncodedLength_def)

lemma Footer_EncodeTo_ok:
  assumes "handle_ok (metaindex_handle f)" "handle_ok (index_handle f)"
  shows "Footer_EncodeTo f [] = Some (footer_bytes f)"
  using assms by (simp add: Footer_EncodeTo_def Handle_EncodeTo_ok footer_bytes_def magic_bytes_def PutFixed32_def Footer_kEncodedLength_def)

lemma join_words: "push_bit 32 (ucast (ucast (drop_bit 32 v) :: u32)) OR ucast (ucast (v AND 0xffffffff) :: u32) = v" for v :: u64
proof -
  have m: "(0xffffffff :: u64) = mask 32" by (simp add: mask_eq_exp_minus_1)
  have "(ucast (v AND 0xffffffff) :: u32) = ucast v"
    unfolding m by (rule bit_word_eqI) (auto simp: bit_simps)
  moreover have "push_bit 32 (ucast (ucast (drop_bit 32 v) :: u32)) OR ucast (ucast v :: u32) = v"
    using DecodeFixed64_Encode [of v "[]"] DecodeFixed32_Encode [of "ucast (drop_bit 32 v)" "[]"]
    unfolding EncodeFixed64_split DecodeFixed64_def by (simp add: DecodeFixed32_Encode)
  ultimately show ?thesis by simp
qed

lemma Footer_DecodeFrom_ok: "Footer_DecodeFrom f' (footer_bytes f) = Some (OK, f, [])"
proof -
  let ?a = "encoded (metaindex_handle f) @ encoded (index_handle f)"
  have l: "length ?a \<le> 2 * kMaxEncodedLength" using encoded_length [of "metaindex_handle f"] encoded_length [of "index_handle f"] by simp
  have d: "drop (Footer_kEncodedLength - 8) (footer_bytes f) = magic_bytes"
    "drop (Footer_kEncodedLength - 8 + 4) (footer_bytes f) = drop 4 magic_bytes"
    by (simp_all add: footer_bytes_def Footer_kEncodedLength_def)
  have m: "DecodeFixed32 magic_bytes = Some (ucast (kTableMagicNumber AND 0xffffffff))"
    "DecodeFixed32 (drop 4 magic_bytes) = Some (ucast (drop_bit 32 kTableMagicNumber))"
    unfolding magic_bytes_def
    using DecodeFixed32_Encode [of "ucast (drop_bit 32 kTableMagicNumber)" "[]"] by simp_all
  obtain z where z: "footer_bytes f = encoded (metaindex_handle f) @ encoded (index_handle f) @ z"
    using l by (simp add: footer_bytes_def resize_def)
  have e: "drop Footer_kEncodedLength (footer_bytes f) = []" by simp
  show ?thesis unfolding Footer_DecodeFrom_def d m e Let_def Option.bind.bind_lunit join_words unfolding z by simp
qed

text \<open>A block with its trailer, as it is in a file.\<close>

definition trailer :: "bytes \<Rightarrow> CompressionType \<Rightarrow> bytes" where
  "trailer d t = compression_byte t # EncodeFixed32 (Mask (crc32c (d @ [compression_byte t])))"

lemma trailer_length [simp]: "length (trailer d t) = kBlockTrailerSize"
  by (simp add: trailer_def kBlockTrailerSize_def)

text \<open>The contents that a block of a file stands for.\<close>

definition unpack :: "Snappy \<Rightarrow> CompressionType \<Rightarrow> bytes \<Rightarrow> bytes \<Rightarrow> bool" where
  "unpack S t d raw \<longleftrightarrow> (case t of kNoCompression \<Rightarrow> raw = d
   | kSnappyCompression \<Rightarrow> Snappy_GetUncompressedLength S d \<noteq> None \<and> Snappy_Uncompress S d = Some raw)"

text \<open>The block that a handle points at.\<close>

definition stored :: "Snappy \<Rightarrow> bytes \<Rightarrow> BlockHandle \<Rightarrow> bytes \<Rightarrow> bool" where
  "stored S c h raw \<longleftrightarrow> (\<exists>t d. unpack S t d raw \<and> unat (offset h) \<le> length c \<and> length c < 2 ^ 64 \<and>
     unat (hsize h) = length d \<and> take (length d + kBlockTrailerSize) (drop (unat (offset h)) c) = d @ trailer d t)"

lemma stored_append: "stored S c h raw \<Longrightarrow> length (c @ c') < 2 ^ 64 \<Longrightarrow> stored S (c @ c') h raw"
proof -
  assume s: "stored S c h raw" and l: "length (c @ c') < 2 ^ 64"
  obtain t d where t: "unpack S t d raw" "unat (offset h) \<le> length c" "unat (hsize h) = length d"
      "take (length d + kBlockTrailerSize) (drop (unat (offset h)) c) = d @ trailer d t"
    using s by (auto simp: stored_def)
  have "length (take (length d + kBlockTrailerSize) (drop (unat (offset h)) c)) = length d + kBlockTrailerSize"
    by (simp add: t(4))
  then have "length d + kBlockTrailerSize \<le> length c - unat (offset h)" by simp
  then have "take (length d + kBlockTrailerSize) (drop (unat (offset h)) (c @ c')) = d @ trailer d t"
    using t(2,4) by simp
  then have "unpack S t d raw \<and> unat (offset h) \<le> length (c @ c') \<and> length (c @ c') < 2 ^ 64 \<and> unat (hsize h) = length d \<and>
      take (length d + kBlockTrailerSize) (drop (unat (offset h)) (c @ c')) = d @ trailer d t"
    using t l by simp
  then show ?thesis unfolding stored_def by blast
qed

context random_access_file
begin

lemma ReadBlock_ok:
  assumes f: "contents f c" and s: "stored S c h raw"
  shows "\<exists>r. ReadBlock S R v h f = Some (OK, r) \<and> cdata r = raw"
proof -
  obtain t d where t: "unpack S t d raw" "unat (offset h) \<le> length c" "length c < 2 ^ 64" "unat (hsize h) = length d"
      "take (length d + kBlockTrailerSize) (drop (unat (offset h)) c) = d @ trailer d t"
    using s by (auto simp: stored_def)
  have "length (take (length d + kBlockTrailerSize) (drop (unat (offset h)) c)) = length d + kBlockTrailerSize"
    by (simp add: t(5))
  then have l: "length d + kBlockTrailerSize < 2 ^ 64" using t(3) by simp
  have m: "unat (hsize h + word_of_nat kBlockTrailerSize) = length d + kBlockTrailerSize"
    using l t(4) by (simp add: unat_word_ariths kBlockTrailerSize_def)
  obtain own where o: "RandomRead R (offset h) (length d + kBlockTrailerSize) f = Some (OK, d @ trailer d t, own)"
    using RandomRead_ok [OF f t(2), of "length d + kBlockTrailerSize"] by (auto simp: t(5))
  have c: "DecodeFixed32 (drop (length d + 1) (d @ trailer d t)) = Some (Mask (crc32c (d @ [compression_byte t])))"
    using DecodeFixed32_Encode [of _ "[]"] by (simp add: trailer_def)
  have x: "take (length d + 1) (d @ trailer d t) = d @ [compression_byte t]" "(d @ trailer d t) ! length d = compression_byte t"
    by (simp_all add: trailer_def)
  have r: "ReadBlock S R v h f = (case t of
        kNoCompression \<Rightarrow> Some (OK, \<lparr>cdata = d, cachable = own, heap_allocated = own\<rparr>)
      | kSnappyCompression \<Rightarrow> (case Snappy_GetUncompressedLength S d of
            None \<Rightarrow> Some (Corruption ''corrupted compressed block contents'' [], no_contents)
          | Some ulength \<Rightarrow> (case Snappy_Uncompress S d of
              None \<Rightarrow> Some (Corruption ''corrupted compressed block contents'' [], no_contents)
            | Some u \<Rightarrow> Some (OK, \<lparr>cdata = u, cachable = True, heap_allocated = True\<rparr>))))"
    unfolding ReadBlock_def m t(4) Let_def o
    using c x by (cases t) (simp_all add: Value_crc32c kBlockTrailerSize_def split: option.split)
  show ?thesis unfolding r using t(1) by (cases t) (auto simp: unpack_def)
qed

end

end
