(* ===== verification/Bloom.thy ===== *)
theory Bloom
  imports Coding
begin

text \<open>
  The hash function (util/hash.cc), the filter policies (include/leveldb/filter_policy.h) and the
  Bloom filter (util/bloom.cc).
\<close>

section \<open>Hashing\<close>

text \<open>Four bytes at a time, then the one to three bytes that are left, the last of them first.\<close>

fun hash_words :: "u32 \<Rightarrow> bytes \<Rightarrow> u32 \<times> bytes" where
  "hash_words h (a # b # c # d # data) =
     (let w = ucast a OR push_bit 8 (ucast b) OR push_bit 16 (ucast c) OR push_bit 24 (ucast d);
          h = (h + w) * 0xc6a4a793
      in hash_words (h XOR drop_bit 16 h) data)"
| "hash_words h data = (h, data)"

definition hash_last :: "u32 \<Rightarrow> u32" where
  "hash_last h = (let h = h * 0xc6a4a793 in h XOR drop_bit 24 h)"

fun hash_tail :: "u32 \<Rightarrow> bytes \<Rightarrow> u32" where
  "hash_tail h [a, b, c] = hash_last (h + push_bit 16 (ucast c) + push_bit 8 (ucast b) + ucast a)"
| "hash_tail h [a, b] = hash_last (h + push_bit 8 (ucast b) + ucast a)"
| "hash_tail h [a] = hash_last (h + ucast a)"
| "hash_tail h _ = h"

definition Hash :: "bytes \<Rightarrow> u32 \<Rightarrow> u32" where
  "Hash data seed =
     (case hash_words (seed XOR (word_of_nat (length data) * 0xc6a4a793)) data of (h, rest) \<Rightarrow> hash_tail h rest)"

definition BloomHash :: "bytes \<Rightarrow> u32" where
  "BloomHash key = Hash key 0xbc9f1d34"

section \<open>Filter policies\<close>

record FilterPolicy =
  Name :: string
  CreateFilter :: "bytes list \<Rightarrow> bytes \<Rightarrow> bytes"
  KeyMayMatch :: "bytes \<Rightarrow> bytes \<Rightarrow> bool"

text \<open>A filter is appended to the string, and no key that went into it is missed.\<close>

locale filter_policy =
  fixes P :: FilterPolicy
  assumes Create_appends: "CreateFilter P keys dst = dst @ CreateFilter P keys []"
    and no_false_negative: "key \<in> set keys \<Longrightarrow> KeyMayMatch P key (CreateFilter P keys [])"

section \<open>The Bloom filter\<close>

text \<open>
  The number of probes is \<open>bits_per_key * 0.69\<close>, rounded down.  For the values up to 43 that matter
  the product in double precision is not near a whole number, so that the quotient of integers
  is the same; above, both are cut at 30.
\<close>

definition bloom_k :: "nat \<Rightarrow> nat" where
  "bloom_k bits_per_key =
     (let k = bits_per_key * 69 div 100; k = (if k < 1 then 1 else k) in if k > 30 then 30 else k)"

definition rotate17 :: "u32 \<Rightarrow> u32" where
  "rotate17 h = drop_bit 17 h OR push_bit 15 h"

text \<open>The probes of a key: bit positions, from the hash value and the step on.\<close>

definition bitpos :: "u32 \<Rightarrow> nat \<Rightarrow> nat" where
  "bitpos h bits = unat h mod bits"

definition set_bit_at :: "nat \<Rightarrow> bytes \<Rightarrow> bytes" where
  "set_bit_at i array = array[i div 8 := array ! (i div 8) OR push_bit (i mod 8) 1]"

definition test_bit_at :: "nat \<Rightarrow> bytes \<Rightarrow> bool" where
  "test_bit_at i array \<longleftrightarrow> array ! (i div 8) AND push_bit (i mod 8) 1 \<noteq> 0"

fun set_probes :: "nat \<Rightarrow> u32 \<Rightarrow> u32 \<Rightarrow> nat \<Rightarrow> bytes \<Rightarrow> bytes" where
  "set_probes 0 h delta bits array = array"
| "set_probes (Suc j) h delta bits array = set_probes j (h + delta) delta bits (set_bit_at (bitpos h bits) array)"

definition add_key :: "nat \<Rightarrow> nat \<Rightarrow> bytes \<Rightarrow> bytes \<Rightarrow> bytes" where
  "add_key k bits array key = (let h = BloomHash key in set_probes k h (rotate17 h) bits array)"

definition filter_bytes :: "nat \<Rightarrow> nat \<Rightarrow> nat" where
  "filter_bytes bits_per_key n = (let bits = n * bits_per_key; bits = (if bits < 64 then 64 else bits) in (bits + 7) div 8)"

definition bloom_CreateFilter :: "nat \<Rightarrow> bytes list \<Rightarrow> bytes \<Rightarrow> bytes" where
  "bloom_CreateFilter bits_per_key keys dst =
     (let bytes = filter_bytes bits_per_key (length keys); bits = bytes * 8; k = bloom_k bits_per_key
      in dst @ foldl (add_key k bits) (replicate bytes 0) keys @ [word_of_nat k])"

fun test_probes :: "nat \<Rightarrow> u32 \<Rightarrow> u32 \<Rightarrow> nat \<Rightarrow> bytes \<Rightarrow> bool" where
  "test_probes 0 h delta bits array \<longleftrightarrow> True"
| "test_probes (Suc j) h delta bits array \<longleftrightarrow>
     (if \<not> test_bit_at (bitpos h bits) array then False else test_probes j (h + delta) delta bits array)"

definition bloom_KeyMayMatch :: "bytes \<Rightarrow> bytes \<Rightarrow> bool" where
  "bloom_KeyMayMatch key bloom_filter =
     (let len = length bloom_filter in
      if len < 2 then False
      else let bits = (len - 1) * 8; k = (scast (bloom_filter ! (len - 1)) :: u64) in
        if k > 30 then True
        else let h = BloomHash key in test_probes (unat k) h (rotate17 h) bits bloom_filter)"

definition NewBloomFilterPolicy :: "nat \<Rightarrow> FilterPolicy" where
  "NewBloomFilterPolicy bits_per_key = \<lparr>Name = ''leveldb.BuiltinBloomFilter2'',
     CreateFilter = bloom_CreateFilter bits_per_key, KeyMayMatch = bloom_KeyMayMatch\<rparr>"

section \<open>No key is missed\<close>

lemma set_bit_at_length [simp]: "length (set_bit_at i array) = length array"
  by (simp add: set_bit_at_def)

lemma test_bit_at_bit: "test_bit_at i array \<longleftrightarrow> bit (array ! (i div 8)) (i mod 8)"
proof -
  have "array ! (i div 8) AND push_bit (i mod 8) 1 = (if bit (array ! (i div 8)) (i mod 8) then push_bit (i mod 8) 1 else 0)"
    by (rule bit_word_eqI) (auto simp: bit_simps)
  moreover have "(push_bit (i mod 8) 1 :: byte) \<noteq> 0"
    using bit_push_bit_iff [of "i mod 8" "1 :: byte" "i mod 8"] by (auto simp: bit_simps)
  ultimately show ?thesis by (simp add: test_bit_at_def)
qed

lemma set_bit_at_test:
  assumes "i < 8 * length array"
  shows "test_bit_at j (set_bit_at i array) \<longleftrightarrow> j = i \<or> test_bit_at j array"
proof -
  have l: "i div 8 < length array" using assms by (simp add: less_mult_imp_div_less)
  have eq: "j = i \<longleftrightarrow> j div 8 = i div 8 \<and> j mod 8 = i mod 8" by (metis div_mult_mod_eq)
  show ?thesis using l
    by (cases "j div 8 = i div 8") (auto simp: test_bit_at_bit set_bit_at_def bit_simps eq)
qed

lemma set_probes_length [simp]: "length (set_probes k h delta bits array) = length array"
  by (induction k h delta bits array rule: set_probes.induct) simp_all

lemma set_probes_keeps:
  assumes "0 < bits" "bits \<le> 8 * length array"
  shows "test_bit_at j array \<Longrightarrow> test_bit_at j (set_probes k h delta bits array)"
  using assms
proof (induction k h delta bits array rule: set_probes.induct)
  case (2 k h delta bits array)
  then have "bitpos h bits < 8 * length array" by (simp add: bitpos_def) (meson less_le_trans mod_less_divisor)
  then show ?case using 2 by (simp add: set_bit_at_test)
qed simp

lemma test_probes_set:
  assumes "0 < bits" "bits \<le> 8 * length array"
  shows "test_probes k h delta bits (set_probes k h delta bits array)"
  using assms
proof (induction k h delta bits array rule: set_probes.induct)
  case (2 k h delta bits array)
  then have "bitpos h bits < 8 * length array" by (simp add: bitpos_def) (meson less_le_trans mod_less_divisor)
  then have "test_bit_at (bitpos h bits) (set_bit_at (bitpos h bits) array)" by (simp add: set_bit_at_test)
  then show ?case using 2 by (simp add: set_probes_keeps)
qed simp

lemma test_probes_mono:
  assumes "\<And>j. test_bit_at j a \<Longrightarrow> test_bit_at j b"
  shows "test_probes k h delta bits a \<Longrightarrow> test_probes k h delta bits b"
  using assms by (induction k h delta bits a rule: test_probes.induct) (auto split: if_splits)

lemma add_key_length [simp]: "length (add_key k bits array key) = length array"
  by (simp add: add_key_def Let_def)

lemma foldl_add_key_length [simp]: "length (foldl (add_key k bits) array keys) = length array"
  by (induction keys arbitrary: array) simp_all

lemma foldl_add_key_keeps:
  assumes "0 < bits" "bits \<le> 8 * length array" "test_bit_at j array"
  shows "test_bit_at j (foldl (add_key k bits) array keys)"
  using assms by (induction keys arbitrary: array) (simp_all add: add_key_def Let_def set_probes_keeps)

lemma foldl_add_key_probes:
  assumes "0 < bits" "bits \<le> 8 * length array" "key \<in> set keys"
  shows "test_probes k (BloomHash key) (rotate17 (BloomHash key)) bits (foldl (add_key k bits) array keys)"
  using assms
proof (induction keys arbitrary: array)
  case (Cons x keys)
  show ?case
  proof (cases "x = key")
    case True
    have "test_probes k (BloomHash key) (rotate17 (BloomHash key)) bits (add_key k bits array key)"
      using Cons.prems by (simp add: add_key_def Let_def test_probes_set)
    moreover have "test_bit_at j (foldl (add_key k bits) (add_key k bits array key) keys)"
      if "test_bit_at j (add_key k bits array key)" for j
      using Cons.prems that by (intro foldl_add_key_keeps) simp_all
    ultimately show ?thesis using True test_probes_mono by simp blast
  next
    case False
    then show ?thesis using Cons by simp
  qed
qed simp

lemma bloom_k_bounds: "1 \<le> bloom_k b" "bloom_k b \<le> 30"
  by (simp_all add: bloom_k_def Let_def)

lemma filter_bytes_pos: "8 \<le> filter_bytes b n"
proof -
  have "64 \<le> (if n * b < 64 then 64 else n * b) + 7" by simp
  then show ?thesis by (simp add: filter_bytes_def Let_def less_eq_div_iff_mult_less_eq)
qed

lemma test_bit_at_append: "j < 8 * length a \<Longrightarrow> test_bit_at j (a @ b) = test_bit_at j a"
  by (simp add: test_bit_at_def nth_append less_mult_imp_div_less)

lemma test_probes_append:
  "0 < bits \<Longrightarrow> bits \<le> 8 * length a \<Longrightarrow> test_probes k h delta bits (a @ b) = test_probes k h delta bits a"
proof (induction k h delta bits a rule: test_probes.induct)
  case (2 k h delta bits a)
  then have "bitpos h bits < 8 * length a" by (simp add: bitpos_def) (meson less_le_trans mod_less_divisor)
  then show ?case using 2 by (simp add: test_bit_at_append)
qed simp

lemma bloom_matches:
  assumes "key \<in> set keys"
  shows "bloom_KeyMayMatch key (bloom_CreateFilter b keys [])"
proof -
  define k where "k = bloom_k b"
  define m where "m = filter_bytes b (length keys)"
  define a where "a = foldl (add_key k (m * 8)) (replicate m 0) keys"
  have f: "bloom_CreateFilter b keys [] = a @ [word_of_nat k]"
    by (simp add: bloom_CreateFilter_def Let_def a_def k_def m_def)
  have l: "length a = m" "8 \<le> m" using filter_bytes_pos by (simp_all add: a_def m_def)
  have k: "k \<le> 30" using bloom_k_bounds by (simp add: k_def)
  have w: "(scast (word_of_nat k :: byte) :: u64) = word_of_nat k"
  proof -
    have "k \<in> {..30}" using k by simp
    also have "{..30 :: nat} = set [0..<31]" by auto
    finally have "k \<in> set [0..<31]" .
    moreover have "\<forall>i \<in> set [0..<31]. (scast (word_of_nat i :: byte) :: u64) = word_of_nat i" by code_simp
    ultimately show ?thesis by blast
  qed
  have u: "unat (word_of_nat k :: u64) = k" "\<not> (30 < (word_of_nat k :: u64))"
    using k by (simp_all add: unat_of_nat take_bit_nat_eq_self word_less_nat_alt)
  have "test_probes k (BloomHash key) (rotate17 (BloomHash key)) (m * 8) a"
    unfolding a_def using assms l(2) by (intro foldl_add_key_probes) auto
  then have "test_probes k (BloomHash key) (rotate17 (BloomHash key)) (m * 8) (a @ [word_of_nat k])"
    using l by (simp add: test_probes_append)
  then show ?thesis using l u by (simp add: f bloom_KeyMayMatch_def Let_def nth_append w)
qed

interpretation bloom: filter_policy "NewBloomFilterPolicy b" for b
  by unfold_locales (simp_all add: NewBloomFilterPolicy_def bloom_matches, simp add: bloom_CreateFilter_def Let_def)

end
