(* ===== verification/Filter_Block.thy ===== *)
theory Filter_Block
  imports Bloom
begin

text \<open>
  The filters of a table (table/filter_block.h, table/filter_block.cc): one filter for the keys of
  the blocks that start in each 2 KB of the file, with an array of their offsets.  The assertion
  that blocks are started in order is a hypothesis of the properties.
\<close>

definition kFilterBaseLg :: nat where
  "kFilterBaseLg = 11"

definition kFilterBase :: u64 where
  "kFilterBase = push_bit kFilterBaseLg 1"

record FilterBlockBuilder =
  keys :: bytes
  starts :: "nat list"
  result :: bytes
  filter_offsets :: "u32 list"

definition new_FilterBlockBuilder :: FilterBlockBuilder where
  "new_FilterBlockBuilder = \<lparr>keys = [], starts = [], result = [], filter_offsets = []\<rparr>"

definition GenerateFilter :: "FilterPolicy \<Rightarrow> FilterBlockBuilder \<Rightarrow> FilterBlockBuilder" where
  "GenerateFilter P b =
     (let num_keys = length (starts b) in
      if num_keys = 0 then b\<lparr>filter_offsets := filter_offsets b @ [word_of_nat (length (result b))]\<rparr>
      else
        let s = starts b @ [length (keys b)];
            tmp_keys = map (\<lambda>i. take (s ! (i + 1) - s ! i) (drop (s ! i) (keys b))) [0..<num_keys]
        in b\<lparr>filter_offsets := filter_offsets b @ [word_of_nat (length (result b))],
             result := CreateFilter P tmp_keys (result b), keys := [], starts := []\<rparr>)"

lemma GenerateFilter_offsets [simp]: "length (filter_offsets (GenerateFilter P b)) = length (filter_offsets b) + 1"
  by (simp add: GenerateFilter_def Let_def)

function start_loop :: "FilterPolicy \<Rightarrow> nat \<Rightarrow> FilterBlockBuilder \<Rightarrow> FilterBlockBuilder" where
  "start_loop P filter_index b =
     (if filter_index > length (filter_offsets b) then start_loop P filter_index (GenerateFilter P b) else b)"
  by auto
termination
  by (relation "measure (\<lambda>(P, i, b). i - length (filter_offsets b))") auto

declare start_loop.simps [simp del]

definition StartBlock :: "FilterPolicy \<Rightarrow> u64 \<Rightarrow> FilterBlockBuilder \<Rightarrow> FilterBlockBuilder" where
  "StartBlock P block_offset b = start_loop P (unat (block_offset div kFilterBase)) b"

definition AddKey :: "bytes \<Rightarrow> FilterBlockBuilder \<Rightarrow> FilterBlockBuilder" where
  "AddKey k b = b\<lparr>starts := starts b @ [length (keys b)], keys := keys b @ k\<rparr>"

definition Finish :: "FilterPolicy \<Rightarrow> FilterBlockBuilder \<Rightarrow> bytes" where
  "Finish P b =
     (let b = (if starts b \<noteq> [] then GenerateFilter P b else b);
          array_offset = word_of_nat (length (result b))
      in PutFixed32 (foldl PutFixed32 (result b) (filter_offsets b)) array_offset @ [word_of_nat kFilterBaseLg])"

section \<open>Reading\<close>

text \<open>The data, the place of the offset array in them, and the number of offsets.\<close>

record FilterBlockReader =
  data :: bytes
  offset_array :: nat
  num :: nat
  base_lg :: u64

text \<open>Reads four bytes at an index that is inside the data.\<close>

definition fixed32_at :: "bytes \<Rightarrow> nat \<Rightarrow> nat" where
  "fixed32_at p i = (case DecodeFixed32 (drop i p) of Some w \<Rightarrow> unat w | None \<Rightarrow> 0)"

definition new_FilterBlockReader :: "bytes \<Rightarrow> FilterBlockReader" where
  "new_FilterBlockReader contents =
     (let n = length contents in
      if n < 5 then \<lparr>data = [], offset_array = 0, num = 0, base_lg = 0\<rparr>
      else let lg = scast (contents ! (n - 1)); last_word = fixed32_at contents (n - 5) in
        if last_word > n - 5 then \<lparr>data = [], offset_array = 0, num = 0, base_lg = lg\<rparr>
        else \<lparr>data = contents, offset_array = last_word, num = (n - 5 - last_word) div 4, base_lg = lg\<rparr>)"

text \<open>Offsets that make no sense are treated as a match.\<close>

definition FilterKeyMayMatch :: "FilterPolicy \<Rightarrow> FilterBlockReader \<Rightarrow> u64 \<Rightarrow> bytes \<Rightarrow> bool" where
  "FilterKeyMayMatch P r block_offset key =
     (let index = unat (drop_bit (unat (base_lg r)) block_offset) in
      if index < num r then
        let start = fixed32_at (data r) (offset_array r + index * 4);
            limit = fixed32_at (data r) (offset_array r + index * 4 + 4)
        in if start \<le> limit \<and> limit \<le> offset_array r
           then KeyMayMatch P key (take (limit - start) (drop start (data r)))
           else if start = limit then False else True
      else True)"

section \<open>Groups of keys\<close>

text \<open>
  The builder after the filters of some groups of keys, with keys still waiting.
\<close>

definition group_filter :: "FilterPolicy \<Rightarrow> bytes list \<Rightarrow> bytes" where
  "group_filter P g = (if g = [] then [] else CreateFilter P g [])"

definition all_filters :: "FilterPolicy \<Rightarrow> bytes list list \<Rightarrow> bytes" where
  "all_filters P gs = concat (map (group_filter P) gs)"

definition key_starts :: "bytes list \<Rightarrow> nat list" where
  "key_starts ks = map (\<lambda>i. length (concat (take i ks))) [0..<length ks]"

definition rep :: "FilterPolicy \<Rightarrow> bytes list list \<Rightarrow> bytes list \<Rightarrow> FilterBlockBuilder" where
  "rep P gs ks = \<lparr>keys = concat ks, starts = key_starts ks, result = all_filters P gs,
     filter_offsets = map (\<lambda>i. word_of_nat (length (all_filters P (take i gs)))) [0..<length gs]\<rparr>"

lemma key_starts_all:
  assumes "i \<le> length ks"
  shows "(key_starts ks @ [length (concat ks)]) ! i = length (concat (take i ks))"
  using assms by (cases "i = length ks") (simp_all add: key_starts_def nth_append)

lemma key_of_starts:
  assumes "i < length ks"
  shows "take (length (concat (take (Suc i) ks)) - length (concat (take i ks))) (drop (length (concat (take i ks))) (concat ks)) = ks ! i"
proof -
  have "ks = take i ks @ ks ! i # drop (Suc i) ks" using assms by (rule id_take_nth_drop)
  then have "concat ks = concat (take i ks) @ ks ! i @ concat (drop (Suc i) ks)"
    by (metis concat.simps(2) concat_append)
  moreover have "concat (take (Suc i) ks) = concat (take i ks) @ ks ! i"
    using assms by (simp add: take_Suc_conv_app_nth)
  ultimately show ?thesis by simp
qed

lemma AddKey_rep: "AddKey k (rep P gs ks) = rep P gs (ks @ [k])"
  by (simp add: AddKey_def rep_def key_starts_def)

lemma new_rep: "new_FilterBlockBuilder = rep P [] []"
  by (simp add: new_FilterBlockBuilder_def rep_def key_starts_def all_filters_def)

lemma rep_offsets [simp]: "length (filter_offsets (rep P gs ks)) = length gs"
  by (simp add: rep_def)

context filter_policy
begin

lemma GenerateFilter_rep: "GenerateFilter P (rep P gs ks) = rep P (gs @ [ks]) []"
proof (cases "ks = []")
  case True
  then show ?thesis by (simp add: GenerateFilter_def rep_def key_starts_def all_filters_def group_filter_def)
next
  case False
  have "map (\<lambda>i. take ((key_starts ks @ [length (concat ks)]) ! (i + 1) - (key_starts ks @ [length (concat ks)]) ! i)
      (drop ((key_starts ks @ [length (concat ks)]) ! i) (concat ks))) [0..<length ks] = map (\<lambda>i. ks ! i) [0..<length ks]"
    by (rule map_cong) (auto simp: key_starts_all key_of_starts)
  then have "map (\<lambda>i. take ((key_starts ks @ [length (concat ks)]) ! (i + 1) - (key_starts ks @ [length (concat ks)]) ! i)
      (drop ((key_starts ks @ [length (concat ks)]) ! i) (concat ks))) [0..<length ks] = ks" by (simp add: map_nth)
  moreover have "CreateFilter P ks (all_filters P gs) = all_filters P gs @ CreateFilter P ks []"
    by (rule Create_appends)
  moreover have "length (starts (rep P gs ks)) = length ks" by (simp add: rep_def key_starts_def)
  ultimately show ?thesis using False
    by (simp add: GenerateFilter_def Let_def) (simp add: rep_def all_filters_def group_filter_def key_starts_def)
qed

lemma start_loop_rep:
  "start_loop P n (rep P gs ks) =
     (if n > length gs then rep P (gs @ ks # replicate (n - length gs - 1) []) [] else rep P gs ks)"
proof (induction "n - length gs" arbitrary: gs ks)
  case 0
  then show ?case by (subst start_loop.simps) simp
next
  case (Suc m)
  then have n: "n > length gs" by simp
  have "start_loop P n (rep P gs ks) = start_loop P n (rep P (gs @ [ks]) [])"
    using n by (subst start_loop.simps) (simp add: GenerateFilter_rep)
  also have "\<dots> = (if n > length (gs @ [ks]) then rep P ((gs @ [ks]) @ [] # replicate (n - length (gs @ [ks]) - 1) []) [] else rep P (gs @ [ks]) [])"
    using Suc by (intro Suc.hyps(1)) simp
  finally show ?case using n by (auto simp: replicate_Suc [symmetric] Suc_diff_Suc simp del: replicate_Suc)
qed

end

section \<open>The reader finds the groups\<close>

definition filter_block :: "FilterPolicy \<Rightarrow> bytes list list \<Rightarrow> bytes" where
  "filter_block P gs = all_filters P gs @
     concat (map EncodeFixed32 (map (\<lambda>i. word_of_nat (length (all_filters P (take i gs)))) [0..<length gs + 1])) @
     [word_of_nat kFilterBaseLg]"

lemma fixed32_at_block:
  assumes "i < length ws"
  shows "fixed32_at (a @ concat (map EncodeFixed32 ws) @ z) (length a + i * 4) = unat (ws ! i)"
  using DecodeFixed32_nth [OF assms] by (simp add: fixed32_at_def)

context filter_policy
begin

lemma Finish_rep: "Finish P (rep P gs ks) = filter_block P (if ks = [] then gs else gs @ [ks])"
proof -
  have "(if starts (rep P gs ks) \<noteq> [] then GenerateFilter P (rep P gs ks) else rep P gs ks) = rep P (if ks = [] then gs else gs @ [ks]) []"
    by (auto simp: GenerateFilter_rep) (auto simp: rep_def key_starts_def)
  then show ?thesis
    unfolding Finish_def by (simp add: Let_def foldl_PutFixed32 filter_block_def PutFixed32_def) (simp add: rep_def)
qed

lemma filters_length_mono:
  assumes "i \<le> j"
  shows "length (all_filters P (take i gs)) \<le> length (all_filters P (take j gs))"
proof -
  have "take j gs = take i gs @ take (j - i) (drop i gs)" using assms by (metis add_diff_inverse_nat not_less take_add)
  then show ?thesis by (simp add: all_filters_def)
qed

lemma reader_group:
  assumes small: "length (all_filters P gs) < 2 ^ 32" and i: "i < length gs"
    and idx: "unat (block_offset div kFilterBase) = i"
  shows "FilterKeyMayMatch P (new_FilterBlockReader (filter_block P gs)) block_offset key = KeyMayMatch P key (group_filter P (gs ! i))"
proof -
  let ?A = "all_filters P gs" and ?n = "length gs"
  define ws where "ws = map (\<lambda>i. word_of_nat (length (all_filters P (take i gs))) :: u32) [0..<?n + 1]"
  define c where "c = filter_block P gs"
  have c: "c = ?A @ concat (map EncodeFixed32 ws) @ [11]" by (simp add: c_def filter_block_def ws_def kFilterBaseLg_def)
  have lw: "length ws = ?n + 1" by (simp add: ws_def)
  have lc: "length c = length ?A + (?n + 1) * 4 + 1" by (simp add: c lw)
  have w: "unat (ws ! j) = length (all_filters P (take j gs))" if "j \<le> ?n" for j
  proof -
    have "length (all_filters P (take j gs)) < 2 ^ 32"
      using filters_length_mono [OF that, of gs] small by simp
    moreover have "ws ! j = word_of_nat (length (all_filters P (take j gs)))"
      unfolding ws_def using that by (subst nth_map) (simp_all del: upt_Suc)
    ultimately show ?thesis by (simp add: unat_of_nat take_bit_nat_eq_self)
  qed
  have at: "fixed32_at c (length ?A + j * 4) = length (all_filters P (take j gs))" if "j \<le> ?n" for j
    using fixed32_at_block [of j ws ?A "[11]"] that w [OF that] lw unfolding c by simp
  have "length c - 5 = length ?A + ?n * 4" using lc by simp
  then have lastw: "fixed32_at c (length c - 5) = length ?A" using at [of ?n] by simp
  have lg: "c ! (length c - 1) = 11" unfolding c by (simp add: nth_append)
  have r: "new_FilterBlockReader c = \<lparr>data = c, offset_array = length ?A, num = ?n, base_lg = 11\<rparr>"
    unfolding new_FilterBlockReader_def Let_def lastw lg using lc by simp
  have ix: "unat (drop_bit (unat (11 :: u64)) block_offset) = i"
  proof -
    have "block_offset div kFilterBase = drop_bit 11 block_offset"
      by (simp add: kFilterBase_def kFilterBaseLg_def drop_bit_eq_div push_bit_eq_mult)
    then show ?thesis using idx by simp
  qed
  have split: "all_filters P (take (Suc i) gs) = all_filters P (take i gs) @ group_filter P (gs ! i)"
    using i by (simp add: all_filters_def take_Suc_conv_app_nth)
  have whole: "?A = all_filters P (take (Suc i) gs) @ all_filters P (drop (Suc i) gs)"
    by (simp add: all_filters_def flip: concat_append map_append)
  have s: "fixed32_at c (length ?A + i * 4) = length (all_filters P (take i gs))"
    "fixed32_at c (length ?A + i * 4 + 4) = length (all_filters P (take (Suc i) gs))"
    using at [of i] at [of "Suc i"] i by (simp_all add: ac_simps)
  have le: "length (all_filters P (take i gs)) \<le> length (all_filters P (take (Suc i) gs))"
    "length (all_filters P (take (Suc i) gs)) \<le> length ?A"
    using filters_length_mono [of i "Suc i" gs] filters_length_mono [of "Suc i" ?n gs] i by simp_all
  have f: "take (length (all_filters P (take (Suc i) gs)) - length (all_filters P (take i gs)))
      (drop (length (all_filters P (take i gs))) c) = group_filter P (gs ! i)"
    unfolding c whole split by simp
  show ?thesis
    unfolding c_def [symmetric] r FilterKeyMayMatch_def Let_def by (simp add: ix ix [simplified] s i le f)
qed

end

section \<open>The filters of a table\<close>

text \<open>The calls of a client that writes blocks: their offsets and keys.\<close>

definition add_block :: "FilterPolicy \<Rightarrow> FilterBlockBuilder \<Rightarrow> u64 \<times> bytes list \<Rightarrow> FilterBlockBuilder" where
  "add_block P b = (\<lambda>(off, ks). foldl (\<lambda>b k. AddKey k b) (StartBlock P off b) ks)"

definition build_filters :: "FilterPolicy \<Rightarrow> (u64 \<times> bytes list) list \<Rightarrow> bytes" where
  "build_filters P bs = Finish P (foldl (add_block P) new_FilterBlockBuilder bs)"

definition filter_index :: "u64 \<Rightarrow> nat" where
  "filter_index off = unat (off div kFilterBase)"

lemma filter_index_mono: "a \<le> b \<Longrightarrow> filter_index a \<le> filter_index b"
  by (simp add: filter_index_def kFilterBase_def kFilterBaseLg_def word_le_nat_alt unat_div div_le_mono)

text \<open>The group of an index, and the growth of groups.\<close>

definition group_at :: "bytes list list \<Rightarrow> bytes list \<Rightarrow> nat \<Rightarrow> bytes set" where
  "group_at gs ks i = set ((gs @ [ks]) ! i)"

definition grows :: "bytes list list \<Rightarrow> bytes list \<Rightarrow> bytes list list \<Rightarrow> bytes list \<Rightarrow> bool" where
  "grows gs ks gs' ks' \<longleftrightarrow> length gs \<le> length gs' \<and> (\<forall>i \<le> length gs. group_at gs ks i \<subseteq> group_at gs' ks' i)"

lemma grows_trans: "grows gs ks gs' ks' \<Longrightarrow> grows gs' ks' gs'' ks'' \<Longrightarrow> grows gs ks gs'' ks''"
  unfolding grows_def by (meson order_trans subset_trans)

lemma grows_refl: "grows gs ks gs ks"
  by (simp add: grows_def)

context filter_policy
begin

lemma AddKeys_rep: "foldl (\<lambda>b k. AddKey k b) (rep P gs ks) ks' = rep P gs (ks @ ks')"
  by (induction ks' arbitrary: ks) (simp_all add: AddKey_rep)

lemma add_block_rep:
  assumes "length gs \<le> filter_index off"
  shows "\<exists>gs' ks''. add_block P (rep P gs ks) (off, ks') = rep P gs' ks'' \<and> grows gs ks gs' ks'' \<and>
    length gs' = filter_index off \<and> set ks' \<subseteq> group_at gs' ks'' (filter_index off)"
proof (cases "length gs = filter_index off")
  case True
  then have "add_block P (rep P gs ks) (off, ks') = rep P gs (ks @ ks')"
    by (simp add: add_block_def StartBlock_def start_loop_rep AddKeys_rep filter_index_def)
  moreover have "grows gs ks gs (ks @ ks')" by (auto simp: grows_def group_at_def nth_append)
  ultimately show ?thesis using True by (intro exI [of _ gs] exI [of _ "ks @ ks'"]) (simp add: group_at_def nth_append)
next
  case False
  define gs' where "gs' = gs @ ks # replicate (filter_index off - length gs - 1) []"
  have "add_block P (rep P gs ks) (off, ks') = rep P gs' ks'"
    using assms False by (simp add: add_block_def StartBlock_def start_loop_rep AddKeys_rep filter_index_def [symmetric] gs'_def)
  moreover have "grows gs ks gs' ks'" by (auto simp: grows_def group_at_def gs'_def nth_append)
  moreover have "length gs' = filter_index off" using assms False by (simp add: gs'_def)
  ultimately show ?thesis by (intro exI [of _ gs'] exI [of _ ks']) (simp add: group_at_def nth_append)
qed

lemma add_blocks_rep:
  "sorted (map fst bs) \<Longrightarrow> \<forall>(off, _) \<in> set bs. length gs \<le> filter_index off \<Longrightarrow>
   \<exists>gs' ks'. foldl (add_block P) (rep P gs ks) bs = rep P gs' ks' \<and> grows gs ks gs' ks' \<and>
     (\<forall>(off, kk) \<in> set bs. filter_index off \<le> length gs' \<and> set kk \<subseteq> group_at gs' ks' (filter_index off))"
proof (induction bs arbitrary: gs ks)
  case Nil
  then show ?case using grows_refl by auto
next
  case (Cons b bs)
  obtain off kk where b: "b = (off, kk)" by (cases b)
  obtain gs1 ks1 where 1: "add_block P (rep P gs ks) (off, kk) = rep P gs1 ks1" "grows gs ks gs1 ks1"
      "length gs1 = filter_index off" "set kk \<subseteq> group_at gs1 ks1 (filter_index off)"
    using add_block_rep [of gs off ks kk] Cons.prems(2) b by auto
  have "\<forall>(off', _) \<in> set bs. length gs1 \<le> filter_index off'"
    using Cons.prems(1) b 1(3) by (force intro: filter_index_mono)
  with Cons.IH [of gs1 ks1] Cons.prems(1) obtain gs' ks' where
    2: "foldl (add_block P) (rep P gs1 ks1) bs = rep P gs' ks'" "grows gs1 ks1 gs' ks'"
      "\<forall>(off, kk) \<in> set bs. filter_index off \<le> length gs' \<and> set kk \<subseteq> group_at gs' ks' (filter_index off)" by auto
  have "filter_index off \<le> length gs' \<and> set kk \<subseteq> group_at gs' ks' (filter_index off)"
    using 1(3,4) 2(2) by (auto simp: grows_def)
  then show ?case using b 1(1) 2 grows_trans [OF 1(2) 2(2)] by auto
qed

lemma build_filters_match:
  assumes "sorted (map fst bs)" "length (build_filters P bs) < 2 ^ 32" "(off, ks) \<in> set bs" "key \<in> set ks"
  shows "FilterKeyMayMatch P (new_FilterBlockReader (build_filters P bs)) off key"
proof -
  obtain gs' ks' where r: "foldl (add_block P) new_FilterBlockBuilder bs = rep P gs' ks'"
      "\<forall>(off, kk) \<in> set bs. filter_index off \<le> length gs' \<and> set kk \<subseteq> group_at gs' ks' (filter_index off)"
    using add_blocks_rep [OF assms(1), of "[]" "[]"] by (auto simp: new_rep [of P])
  define gs where "gs = (if ks' = [] then gs' else gs' @ [ks'])"
  have f: "build_filters P bs = filter_block P gs" by (simp add: build_filters_def r(1) Finish_rep gs_def)
  have k: "filter_index off \<le> length gs'" "key \<in> group_at gs' ks' (filter_index off)" using r(2) assms(3,4) by auto
  then have i: "filter_index off < length gs" "key \<in> set (gs ! filter_index off)"
    by (auto simp: gs_def group_at_def nth_append le_less split: if_splits)
  have "length (all_filters P gs) < 2 ^ 32" using assms(2) by (simp add: f filter_block_def)
  from reader_group [OF this i(1) filter_index_def [symmetric]] i(2) no_false_negative [OF i(2)] show ?thesis
    by (auto simp: f group_filter_def)
qed

end

section \<open>Properties\<close>

text \<open>C28. A table with Bloom filters never hides a key: whatever keys its blocks hold, and however many
  bits a key gets, the filter block that is written for the blocks answers yes for each key of
  the block at the offset of the block.\<close>

theorem filter_block_no_false_negatives:
  assumes "sorted (map fst bs)" "length (build_filters (NewBloomFilterPolicy b) bs) < 2 ^ 32"
    and "(off, ks) \<in> set bs" "key \<in> set ks"
  shows "FilterKeyMayMatch (NewBloomFilterPolicy b) (new_FilterBlockReader (build_filters (NewBloomFilterPolicy b) bs)) off key"
  using assms by (rule bloom.build_filters_match)

text \<open>Witness for C28.\<close>

theorem filter_block_no_false_negatives_witness:
  "\<exists>bs. bs = [(0, [[1], [2]]), (5000, [[3 :: byte]])] \<and>
     FilterKeyMayMatch (NewBloomFilterPolicy 10) (new_FilterBlockReader (build_filters (NewBloomFilterPolicy 10) bs)) 5000 [3]"
proof -
  let ?bs = "[(0, [[1], [2]]), (5000, [[3 :: byte]])] :: (u64 \<times> bytes list) list"
  have "sorted (map fst ?bs)" by simp
  moreover have "length (build_filters (NewBloomFilterPolicy 10) ?bs) < 2 ^ 32"
  proof -
    let ?P = "NewBloomFilterPolicy 10"
    have i: "unat (0 div kFilterBase :: u64) = 0" "unat (5000 div kFilterBase :: u64) = 2"
      by (simp_all add: kFilterBase_def kFilterBaseLg_def)
    have "build_filters ?P ?bs = filter_block ?P [[[1], [2]], [], [[3]]]"
      unfolding build_filters_def new_rep [of ?P]
      by (simp add: add_block_def StartBlock_def i bloom.start_loop_rep AddKey_rep bloom.Finish_rep)
    then show ?thesis
      by (simp add: filter_block_def all_filters_def group_filter_def NewBloomFilterPolicy_def bloom_CreateFilter_def
          filter_bytes_def Let_def)
  qed
  ultimately show ?thesis using filter_block_no_false_negatives [of ?bs 10 5000 "[[3]]" "[3]"] by simp
qed

text \<open>
  How long the filters of a table are, for policies that spend at most 128 bits on a key.
\<close>

locale small_filter_policy = filter_policy +
  assumes filter_size: "length (CreateFilter P ks []) \<le> 16 * length ks + 16"
    and name_size: "length (Name P) \<le> 1000"
begin

lemma group_filter_size: "length (group_filter P g) \<le> 32 * length g"
proof (cases g)
  case (Cons k ks)
  then show ?thesis using filter_size [of g] by (simp add: group_filter_def)
qed (simp add: group_filter_def)

lemma all_filters_size: "length (all_filters P gs) \<le> 32 * length (concat gs)"
proof (induction gs)
  case (Cons g gs)
  then show ?case using group_filter_size [of g] by (simp add: all_filters_def)
qed (simp add: all_filters_def)

lemma filter_block_size: "length (filter_block P gs) \<le> 32 * length (concat gs) + 4 * length gs + 5"
  using all_filters_size [of gs] length_fixed [of "map (\<lambda>i. word_of_nat (length (all_filters P (take i gs)))) [0..<length gs + 1]"]
  unfolding filter_block_def length_append by simp

text \<open>The builder keeps every key once, and starts no more groups than the file has ranges of 2 KB.\<close>

lemma add_block_size:
  assumes "length gs \<le> N" "filter_index off \<le> N"
  shows "\<exists>gs' ks''. add_block P (rep P gs ks) (off, ks') = rep P gs' ks'' \<and> length gs' \<le> N \<and>
    length (concat gs') + length ks'' = length (concat gs) + length ks + length ks'"
proof (cases "length gs < filter_index off")
  case False
  then have "add_block P (rep P gs ks) (off, ks') = rep P gs (ks @ ks')"
    by (simp add: add_block_def StartBlock_def start_loop_rep AddKeys_rep filter_index_def [symmetric])
  then show ?thesis using assms by (intro exI [of _ gs] exI [of _ "ks @ ks'"]) simp
next
  case True
  define gs' where "gs' = gs @ ks # replicate (filter_index off - length gs - 1) []"
  have "add_block P (rep P gs ks) (off, ks') = rep P gs' ks'"
    using True by (simp add: add_block_def StartBlock_def start_loop_rep AddKeys_rep filter_index_def [symmetric] gs'_def)
  moreover have "length gs' \<le> N" using True assms by (simp add: gs'_def)
  moreover have "length (concat gs') = length (concat gs) + length ks" by (simp add: gs'_def)
  ultimately show ?thesis by (intro exI [of _ gs'] exI [of _ ks']) simp
qed

lemma add_blocks_size:
  "length gs \<le> N \<Longrightarrow> \<forall>(off, _) \<in> set bs. filter_index off \<le> N \<Longrightarrow>
   \<exists>gs' ks'. foldl (add_block P) (rep P gs ks) bs = rep P gs' ks' \<and> length gs' \<le> N \<and>
     length (concat gs') + length ks' = length (concat gs) + length ks + length (concat (map snd bs))"
proof (induction bs arbitrary: gs ks)
  case (Cons b bs)
  obtain off kk where b: "b = (off, kk)" by (cases b)
  obtain gs1 ks1 where 1: "add_block P (rep P gs ks) (off, kk) = rep P gs1 ks1" "length gs1 \<le> N"
      "length (concat gs1) + length ks1 = length (concat gs) + length ks + length kk"
    using add_block_size [of gs N off ks kk] Cons.prems b by auto
  from Cons.IH [OF 1(2), of ks1] Cons.prems(2) obtain gs' ks' where
    "foldl (add_block P) (rep P gs1 ks1) bs = rep P gs' ks'" "length gs' \<le> N"
      "length (concat gs') + length ks' = length (concat gs1) + length ks1 + length (concat (map snd bs))" by auto
  then show ?case using 1 b by (intro exI [of _ gs'] exI [of _ ks']) simp
qed auto

lemma build_filters_size:
  assumes "\<forall>(off, _) \<in> set bs. unat off < 2 ^ 31"
  shows "length (build_filters P bs) \<le> 32 * length (concat (map snd bs)) + 2 ^ 22 + 9"
proof -
  have "filter_index off \<le> 2 ^ 20" if "unat off < 2 ^ 31" for off
    using that div_le_mono [of "unat off" "2 ^ 31" "2 ^ 11"]
    by (simp add: filter_index_def kFilterBase_def kFilterBaseLg_def unat_div)
  then obtain gs ks where g: "foldl (add_block P) (rep P [] []) bs = rep P gs ks" "length gs \<le> 2 ^ 20"
      "length (concat gs) + length ks = length (concat (map snd bs))"
    using add_blocks_size [of "[]" "2 ^ 20" bs "[]"] assms by fastforce
  define fs where "fs = (if ks = [] then gs else gs @ [ks])"
  have "length (concat fs) = length (concat (map snd bs))" "length fs \<le> 2 ^ 20 + 1" using g by (auto simp: fs_def)
  moreover have "build_filters P bs = filter_block P fs" by (simp add: build_filters_def new_rep [of P] g(1) Finish_rep fs_def)
  ultimately show ?thesis using filter_block_size [of fs] by simp
qed

end

lemma foldl_add_key_size: "length (CreateFilter (NewBloomFilterPolicy b) ks []) = filter_bytes b (length ks) + 1"
  by (simp add: NewBloomFilterPolicy_def bloom_CreateFilter_def Let_def)

lemma filter_bytes_size: "b \<le> 128 \<Longrightarrow> filter_bytes b n \<le> 16 * n + 8"
proof -
  assume "b \<le> 128"
  then have "n * b \<le> n * 128" by (rule mult_le_mono2)
  then have "(if n * b < 64 then 64 else n * b) + 7 \<le> n * 128 + 71" by arith
  then have "((if n * b < 64 then 64 else n * b) + 7) div 8 \<le> (n * 128 + 71) div 8" by (rule div_le_mono)
  then show ?thesis by (simp add: filter_bytes_def Let_def)
qed

interpretation small_bloom: small_filter_policy "NewBloomFilterPolicy (min b 128)" for b
proof
  show "length (CreateFilter (NewBloomFilterPolicy (min b 128)) ks []) \<le> 16 * length ks + 16" for ks
    using filter_bytes_size [of "min b 128" "length ks"] by (simp add: foldl_add_key_size)
  show "length (Name (NewBloomFilterPolicy (min b 128))) \<le> 1000" by (simp add: NewBloomFilterPolicy_def)
qed

end
