(* ===== verification/Table_Builder.thy ===== *)
theory Table_Builder
  imports Table_Format Filter_Block
begin

text \<open>
  The builder of tables (table/table_builder.cc, include/leveldb/table_builder.h), over the contract
  of files for writing.  A failed assertion is None; a failed write is the status of the builder,
  and nothing is written after it.
\<close>

text \<open>The options that tables use (include/leveldb/options.h); the cache of blocks is separate.\<close>

record Options =
  comparator :: Comparator
  paranoid_checks :: bool
  block_size :: nat
  block_restart_interval :: nat
  compression :: CompressionType
  filter_policy :: "FilterPolicy option"

text \<open>The filter builder keeps the policy that it was made with.\<close>

record 'f TableBuilder =
  options :: Options
  index_block_options :: Options
  tfile :: 'f
  toffset :: u64
  tstatus :: Status
  data_block :: BlockBuilder
  index_block :: BlockBuilder
  tlast_key :: bytes
  num_entries :: nat
  closed :: bool
  filter_block :: "(FilterPolicy \<times> FilterBlockBuilder) option"
  pending_index_entry :: bool
  pending_handle :: BlockHandle

definition bytes_of :: "string \<Rightarrow> bytes" where
  "bytes_of s = map of_char s"

definition tok :: "'f TableBuilder \<Rightarrow> bool" where
  "tok r = is_ok (tstatus r)"

definition StartFilter :: "u64 \<Rightarrow> 'f TableBuilder \<Rightarrow> 'f TableBuilder" where
  "StartFilter off r = r\<lparr>filter_block := map_option (\<lambda>(P, b). (P, StartBlock P off b)) (filter_block r)\<rparr>"

definition new_TableBuilder :: "Options \<Rightarrow> 'f \<Rightarrow> 'f TableBuilder option" where
  "new_TableBuilder opt f =
     (if block_restart_interval opt \<ge> 1 then Some (StartFilter 0
        \<lparr>options = opt, index_block_options = opt\<lparr>block_restart_interval := 1\<rparr>, tfile = f, toffset = 0, tstatus = OK,
         data_block = new_BlockBuilder, index_block = new_BlockBuilder, tlast_key = [], num_entries = 0, closed = False,
         filter_block = map_option (\<lambda>P. (P, new_FilterBlockBuilder)) (filter_policy opt),
         pending_index_entry = False, pending_handle = new_BlockHandle\<rparr>)
      else None)"

text \<open>Two comparators are the same object or different ones; here they are compared as functions.\<close>

definition ChangeOptions :: "bool \<Rightarrow> Options \<Rightarrow> 'f TableBuilder \<Rightarrow> Status \<times> 'f TableBuilder" where
  "ChangeOptions same_comparator opt r =
     (if \<not> same_comparator then (InvalidArgument ''changing comparator while building table'' [], r)
      else (OK, r\<lparr>options := opt, index_block_options := opt\<lparr>block_restart_interval := 1\<rparr>\<rparr>))"

definition WriteRawBlock ::
  "'f WritableFile \<Rightarrow> bytes \<Rightarrow> CompressionType \<Rightarrow> 'f TableBuilder \<Rightarrow> (BlockHandle \<times> 'f TableBuilder) option" where
  "WriteRawBlock W block_contents type r = do {
     let handle = \<lparr>offset = toffset r, hsize = word_of_nat (length block_contents)\<rparr>;
     (s, f) \<leftarrow> Append W block_contents (tfile r);
     let r = r\<lparr>tfile := f, tstatus := s\<rparr>;
     if tok r then do {
       let crc = Extend 0 (Value 0 block_contents) [compression_byte type];
       (s, f) \<leftarrow> Append W (compression_byte type # EncodeFixed32 (Mask crc)) (tfile r);
       let r = r\<lparr>tfile := f, tstatus := s\<rparr>;
       Some (handle, if tok r then r\<lparr>toffset := toffset r + word_of_nat (length block_contents + kBlockTrailerSize)\<rparr> else r) }
     else Some (handle, r) }"

text \<open>What is stored of a block: compressed if that saves at least an eighth.\<close>

definition stored_form :: "Snappy \<Rightarrow> CompressionType \<Rightarrow> bytes \<Rightarrow> bytes \<times> CompressionType" where
  "stored_form S type raw = (case type of
     kNoCompression \<Rightarrow> (raw, kNoCompression)
   | kSnappyCompression \<Rightarrow> (case Snappy_Compress S raw of
       Some compressed \<Rightarrow>
         if length compressed < length raw - length raw div 8 then (compressed, kSnappyCompression) else (raw, kNoCompression)
     | None \<Rightarrow> (raw, kNoCompression)))"

text \<open>The block is reset by the caller.\<close>

definition WriteBlock ::
  "Snappy \<Rightarrow> 'f WritableFile \<Rightarrow> BlockBuilder \<Rightarrow> 'f TableBuilder \<Rightarrow> (BlockHandle \<times> 'f TableBuilder) option" where
  "WriteBlock S W block r =
     (if tok r then
        let raw = buffer (Block.Finish block);
            (block_contents, type) = stored_form S (compression (options r)) raw
        in WriteRawBlock W block_contents type r
      else None)"

definition TFlush :: "Snappy \<Rightarrow> 'f WritableFile \<Rightarrow> 'f TableBuilder \<Rightarrow> 'f TableBuilder option" where
  "TFlush S W r =
     (if closed r then None
      else if \<not> tok r then Some r
      else if block_empty (data_block r) then Some r
      else if pending_index_entry r then None
      else do {
        (h, r) \<leftarrow> WriteBlock S W (data_block r) r;
        let r = r\<lparr>data_block := Reset (data_block r), pending_handle := h\<rparr>;
        r \<leftarrow> (if tok r then do {
            let r = r\<lparr>pending_index_entry := True\<rparr>;
            (s, f) \<leftarrow> Flush W (tfile r);
            Some (r\<lparr>tfile := f, tstatus := s\<rparr>) }
          else Some r);
        Some (StartFilter (toffset r) r) })"

definition add_index_entry :: "bytes \<Rightarrow> 'f TableBuilder \<Rightarrow> 'f TableBuilder option" where
  "add_index_entry key r = do {
     let r = r\<lparr>tlast_key := key\<rparr>;
     handle_encoding \<leftarrow> Handle_EncodeTo (pending_handle r) [];
     Some (r\<lparr>index_block := Add (block_restart_interval (index_block_options r)) (tlast_key r) handle_encoding (index_block r),
       pending_index_entry := False\<rparr>) }"

definition TAdd :: "Snappy \<Rightarrow> 'f WritableFile \<Rightarrow> bytes \<Rightarrow> bytes \<Rightarrow> 'f TableBuilder \<Rightarrow> 'f TableBuilder option" where
  "TAdd S W key value r =
     (if closed r then None
      else if \<not> tok r then Some r
      else if num_entries r > 0 \<and> \<not> Compare (comparator (options r)) key (tlast_key r) > 0 then None
      else do {
        r \<leftarrow> (if pending_index_entry r then
            if block_empty (data_block r)
            then add_index_entry (FindShortestSeparator (comparator (options r)) (tlast_key r) key) r
            else None
          else Some r);
        let r = r\<lparr>filter_block := map_option (\<lambda>(P, b). (P, AddKey key b)) (filter_block r)\<rparr>;
        let r = r\<lparr>tlast_key := key, num_entries := num_entries r + 1,
          data_block := Add (block_restart_interval (options r)) key value (data_block r)\<rparr>;
        if CurrentSizeEstimate (data_block r) \<ge> block_size (options r) then TFlush S W r else Some r })"

text \<open>The steps of Finish; each is skipped after an error.\<close>

definition when_ok :: "'f TableBuilder \<Rightarrow> 'a \<Rightarrow> ('f TableBuilder \<Rightarrow> ('a \<times> 'f TableBuilder) option) \<Rightarrow> ('a \<times> 'f TableBuilder) option" where
  "when_ok r x f = (if tok r then f r else Some (x, r))"

definition write_filter :: "'f WritableFile \<Rightarrow> 'f TableBuilder \<Rightarrow> (BlockHandle \<times> 'f TableBuilder) option" where
  "write_filter W r = (case filter_block r of
     None \<Rightarrow> Some (new_BlockHandle, r)
   | Some (P, b) \<Rightarrow> WriteRawBlock W (Filter_Block.Finish P b) kNoCompression r)"

definition write_metaindex :: "Snappy \<Rightarrow> 'f WritableFile \<Rightarrow> BlockHandle \<Rightarrow> 'f TableBuilder \<Rightarrow> (BlockHandle \<times> 'f TableBuilder) option" where
  "write_metaindex S W filter_block_handle r = do {
     b \<leftarrow> (if filter_block r \<noteq> None then do {
         P \<leftarrow> filter_policy (options r);
         handle_encoding \<leftarrow> Handle_EncodeTo filter_block_handle [];
         Some (Add (block_restart_interval (options r)) (bytes_of (''filter.'' @ Name P)) handle_encoding new_BlockBuilder) }
       else Some new_BlockBuilder);
     WriteBlock S W b r }"

definition write_index :: "Snappy \<Rightarrow> 'f WritableFile \<Rightarrow> 'f TableBuilder \<Rightarrow> (BlockHandle \<times> 'f TableBuilder) option" where
  "write_index S W r = do {
     r \<leftarrow> (if pending_index_entry r
       then add_index_entry (FindShortSuccessor (comparator (options r)) (tlast_key r)) r
       else Some r);
     (h, r) \<leftarrow> WriteBlock S W (index_block r) r;
     Some (h, r\<lparr>index_block := Reset (index_block r)\<rparr>) }"

definition write_footer :: "'f WritableFile \<Rightarrow> BlockHandle \<Rightarrow> BlockHandle \<Rightarrow> 'f TableBuilder \<Rightarrow> (unit \<times> 'f TableBuilder) option" where
  "write_footer W metaindex index r = do {
     footer_encoding \<leftarrow> Footer_EncodeTo \<lparr>metaindex_handle = metaindex, index_handle = index\<rparr> [];
     (s, f) \<leftarrow> Append W footer_encoding (tfile r);
     let r = r\<lparr>tfile := f, tstatus := s\<rparr>;
     Some ((), if tok r then r\<lparr>toffset := toffset r + word_of_nat (length footer_encoding)\<rparr> else r) }"

definition TFinish :: "Snappy \<Rightarrow> 'f WritableFile \<Rightarrow> 'f TableBuilder \<Rightarrow> (Status \<times> 'f TableBuilder) option" where
  "TFinish S W r = do {
     r \<leftarrow> TFlush S W r;
     if closed r then None
     else do {
       let r = r\<lparr>closed := True\<rparr>;
       (filter_handle, r) \<leftarrow> when_ok r new_BlockHandle (write_filter W);
       (metaindex, r) \<leftarrow> when_ok r new_BlockHandle (write_metaindex S W filter_handle);
       (index, r) \<leftarrow> when_ok r new_BlockHandle (write_index S W);
       (_, r) \<leftarrow> when_ok r () (write_footer W metaindex index);
       Some (tstatus r, r) } }"

definition Abandon :: "'f TableBuilder \<Rightarrow> 'f TableBuilder option" where
  "Abandon r = (if closed r then None else Some (r\<lparr>closed := True\<rparr>))"

definition NumEntries :: "'f TableBuilder \<Rightarrow> nat" where
  "NumEntries r = num_entries r"

definition FileSize :: "'f TableBuilder \<Rightarrow> u64" where
  "FileSize r = toffset r"

text \<open>A whole table.\<close>

fun add_entries :: "Snappy \<Rightarrow> 'f WritableFile \<Rightarrow> (bytes \<times> bytes) list \<Rightarrow> 'f TableBuilder \<Rightarrow> 'f TableBuilder option" where
  "add_entries S W [] r = Some r"
| "add_entries S W ((k, v) # es) r = Option.bind (TAdd S W k v r) (add_entries S W es)"

definition BuildTable :: "Snappy \<Rightarrow> 'f WritableFile \<Rightarrow> Options \<Rightarrow> (bytes \<times> bytes) list \<Rightarrow> 'f \<Rightarrow> (Status \<times> 'f TableBuilder) option" where
  "BuildTable S W opt es f = do {
     r \<leftarrow> new_TableBuilder opt f;
     r \<leftarrow> add_entries S W es r;
     TFinish S W r }"

end
