(* ===== verification/Iterator.thy ===== *)
theory Iterator
  imports Comparator Status "HOL-Library.Monad_Syntax"
begin

text \<open>
  Iterators over sorted entries (include/leveldb/iterator.h, table/iterator.cc,
  table/iterator_wrapper.h): the operations as a record of functions on the state of the iterator,
  their contract, the empty iterator and the wrapper that caches the validity and the key.
  An operation that fails an assertion or reads outside its data is None.
\<close>

type_synonym entry = "bytes \<times> bytes"

record 's Iterator =
  it_Valid :: "'s \<Rightarrow> bool"
  it_SeekToFirst :: "'s \<Rightarrow> 's option"
  it_SeekToLast :: "'s \<Rightarrow> 's option"
  it_Seek :: "bytes \<Rightarrow> 's \<Rightarrow> 's option"
  it_Next :: "'s \<Rightarrow> 's option"
  it_Prev :: "'s \<Rightarrow> 's option"
  it_key :: "'s \<Rightarrow> bytes option"
  it_value :: "'s \<Rightarrow> bytes option"
  it_status :: "'s \<Rightarrow> Status"

section \<open>The contract\<close>

text \<open>The position of the first entry whose key is not smaller than the target.\<close>

definition seek_pos :: "Comparator \<Rightarrow> bytes \<Rightarrow> entry list \<Rightarrow> nat" where
  "seek_pos C target es = length (takeWhile (\<lambda>e. Compare C (fst e) target < 0) es)"

definition increasing :: "Comparator \<Rightarrow> entry list \<Rightarrow> bool" where
  "increasing C es \<longleftrightarrow> sorted_wrt (\<lambda>a b. Compare C (fst a) (fst b) < 0) es"

text \<open>
  The iterator runs over the entries \<open>es\<close>: it is at one of them, or behind the last one.
  It can be asked to seek the \<open>targets\<close>.
\<close>

locale iterator_on =
  fixes I :: "'s Iterator" and C :: Comparator and es :: "entry list" and pos :: "nat \<Rightarrow> 's \<Rightarrow> bool"
    and targets :: "bytes set"
  assumes pos_le: "pos i s \<Longrightarrow> i \<le> length es"
    and Valid_ok: "pos i s \<Longrightarrow> it_Valid I s \<longleftrightarrow> i < length es"
    and key_ok: "pos i s \<Longrightarrow> i < length es \<Longrightarrow> it_key I s = Some (fst (es ! i))"
    and value_ok: "pos i s \<Longrightarrow> i < length es \<Longrightarrow> it_value I s = Some (snd (es ! i))"
    and status_ok: "pos i s \<Longrightarrow> it_status I s = OK"
    and SeekToFirst_ok: "pos i s \<Longrightarrow> \<exists>s'. it_SeekToFirst I s = Some s' \<and> pos 0 s'"
    and SeekToLast_ok: "pos i s \<Longrightarrow> \<exists>s'. it_SeekToLast I s = Some s' \<and> pos (length es - 1) s'"
    and Seek_ok: "pos i s \<Longrightarrow> increasing C es \<Longrightarrow> target \<in> targets \<Longrightarrow> \<exists>s'. it_Seek I target s = Some s' \<and> pos (seek_pos C target es) s'"
    and Next_ok: "pos i s \<Longrightarrow> i < length es \<Longrightarrow> \<exists>s'. it_Next I s = Some s' \<and> pos (Suc i) s'"
    and Prev_ok: "pos i s \<Longrightarrow> i < length es \<Longrightarrow>
      \<exists>s'. it_Prev I s = Some s' \<and> pos (if i = 0 then length es else i - 1) s'"

text \<open>Most iterators can seek every string.\<close>

locale iterator =
  fixes I :: "'s Iterator" and C :: Comparator and es :: "entry list" and pos :: "nat \<Rightarrow> 's \<Rightarrow> bool"
  assumes pos_le: "pos i s \<Longrightarrow> i \<le> length es"
    and Valid_ok: "pos i s \<Longrightarrow> it_Valid I s \<longleftrightarrow> i < length es"
    and key_ok: "pos i s \<Longrightarrow> i < length es \<Longrightarrow> it_key I s = Some (fst (es ! i))"
    and value_ok: "pos i s \<Longrightarrow> i < length es \<Longrightarrow> it_value I s = Some (snd (es ! i))"
    and status_ok: "pos i s \<Longrightarrow> it_status I s = OK"
    and SeekToFirst_ok: "pos i s \<Longrightarrow> \<exists>s'. it_SeekToFirst I s = Some s' \<and> pos 0 s'"
    and SeekToLast_ok: "pos i s \<Longrightarrow> \<exists>s'. it_SeekToLast I s = Some s' \<and> pos (length es - 1) s'"
    and Seek_ok: "pos i s \<Longrightarrow> increasing C es \<Longrightarrow> \<exists>s'. it_Seek I target s = Some s' \<and> pos (seek_pos C target es) s'"
    and Next_ok: "pos i s \<Longrightarrow> i < length es \<Longrightarrow> \<exists>s'. it_Next I s = Some s' \<and> pos (Suc i) s'"
    and Prev_ok: "pos i s \<Longrightarrow> i < length es \<Longrightarrow>
      \<exists>s'. it_Prev I s = Some s' \<and> pos (if i = 0 then length es else i - 1) s'"

sublocale iterator \<subseteq> any: iterator_on I C es pos UNIV
  by unfold_locales (auto simp: pos_le Valid_ok key_ok value_ok status_ok SeekToFirst_ok SeekToLast_ok Seek_ok Next_ok Prev_ok simp del: One_nat_def)

context iterator
begin

lemmas on_all = any.iterator_on_axioms

end

text \<open>The entries from the current position on, read with Next.\<close>

fun collect :: "'s Iterator \<Rightarrow> nat \<Rightarrow> 's \<Rightarrow> entry list option" where
  "collect I 0 s = (if it_Valid I s then None else Some [])"
| "collect I (Suc n) s =
     (if it_Valid I s then
        case (it_key I s, it_value I s, it_Next I s) of
          (Some k, Some v, Some s') \<Rightarrow> map_option (Cons (k, v)) (collect I n s')
        | _ \<Rightarrow> None
      else Some [])"

text \<open>The entries up to the current position, read backwards with Prev.\<close>

fun collect_back :: "'s Iterator \<Rightarrow> nat \<Rightarrow> 's \<Rightarrow> entry list option" where
  "collect_back I 0 s = (if it_Valid I s then None else Some [])"
| "collect_back I (Suc n) s =
     (if it_Valid I s then
        case (it_key I s, it_value I s, it_Prev I s) of
          (Some k, Some v, Some s') \<Rightarrow> map_option (Cons (k, v)) (collect_back I n s')
        | _ \<Rightarrow> None
      else Some [])"

context iterator_on
begin

lemma collect_ok: "pos i s \<Longrightarrow> length es - i \<le> n \<Longrightarrow> collect I n s = Some (drop i es)"
proof (induction n arbitrary: i s)
  case 0
  then show ?case using Valid_ok [OF "0.prems"(1)] by simp
next
  case (Suc n)
  show ?case
  proof (cases "i < length es")
    case True
    obtain s' where s': "it_Next I s = Some s'" "pos (Suc i) s'" using Next_ok [OF Suc.prems(1) True] by blast
    then show ?thesis using True Suc.IH [OF s'(2)] Suc.prems Valid_ok key_ok value_ok
      by (simp add: Cons_nth_drop_Suc [symmetric])
  next
    case False
    then show ?thesis using Valid_ok [OF Suc.prems(1)] by simp
  qed
qed

lemma collect_back_ok: "pos i s \<Longrightarrow> i < length es \<Longrightarrow> i < n \<Longrightarrow> collect_back I n s = Some (rev (take (Suc i) es))"
proof (induction n arbitrary: i s)
  case (Suc n)
  obtain s' where s': "it_Prev I s = Some s'" "pos (if i = 0 then length es else i - 1) s'"
    using Prev_ok [OF Suc.prems(1,2)] by blast
  have "collect_back I n s' = Some (rev (take i es))"
  proof (cases "i = 0")
    case True
    then have "\<not> it_Valid I s'" using s'(2) Valid_ok by fastforce
    then show ?thesis using True by (cases n) simp_all
  next
    case False
    then show ?thesis using Suc.IH [of "i - 1" s'] s'(2) Suc.prems by simp
  qed
  then show ?case using Suc.prems s'(1) Valid_ok key_ok value_ok by (simp add: take_Suc_conv_app_nth)
qed simp

end

section \<open>Positions of a search\<close>

lemma seek_pos_eqI:
  assumes "i \<le> length es" "\<And>j. j < i \<Longrightarrow> Compare C (fst (es ! j)) target < 0"
    "i < length es \<Longrightarrow> \<not> Compare C (fst (es ! i)) target < 0"
  shows "seek_pos C target es = i"
  using takeWhile_eq_take_P_nth [of i es "\<lambda>e. Compare C (fst e) target < 0"] assms
  by (simp add: seek_pos_def)

lemma seek_pos_le: "seek_pos C target es \<le> length es"
  by (simp add: seek_pos_def length_takeWhile_le)

lemma seek_pos_below: "i < seek_pos C target es \<Longrightarrow> Compare C (fst (es ! i)) target < 0"
  using nth_length_takeWhile takeWhile_nth [of i "\<lambda>e. Compare C (fst e) target < 0" es] set_takeWhileD nth_mem
  by (metis seek_pos_def)

lemma seek_pos_at: "seek_pos C target es < length es \<Longrightarrow> \<not> Compare C (fst (es ! seek_pos C target es)) target < 0"
  using nth_length_takeWhile [of "\<lambda>e. Compare C (fst e) target < 0" es] by (simp add: seek_pos_def)

context comparator
begin

lemma increasing_below:
  assumes "increasing C es" "i < length es" "Compare C (fst (es ! i)) target < 0" "j \<le> i"
  shows "Compare C (fst (es ! j)) target < 0"
proof (cases "j = i")
  case False
  then have "Compare C (fst (es ! j)) (fst (es ! i)) < 0"
    using assms by (simp add: increasing_def sorted_wrt_iff_nth_less)
  then show ?thesis using assms(3) cmp_less_trans by fastforce
qed (use assms in simp)

text \<open>A key of the entries is found where it is.\<close>

lemma seek_pos_key:
  assumes "increasing C es" "i < length es"
  shows "seek_pos C (fst (es ! i)) es = i"
  using assms by (intro seek_pos_eqI) (auto simp: increasing_def sorted_wrt_iff_nth_less cmp_refl)

end

section \<open>The empty iterator\<close>

definition EmptyIterator :: "Status Iterator" where
  "EmptyIterator = \<lparr>it_Valid = \<lambda>_. False, it_SeekToFirst = Some, it_SeekToLast = Some, it_Seek = \<lambda>_. Some,
     it_Next = \<lambda>_. None, it_Prev = \<lambda>_. None, it_key = \<lambda>_. None, it_value = \<lambda>_. None, it_status = \<lambda>s. s\<rparr>"

definition NewEmptyIterator :: Status where
  "NewEmptyIterator = OK"

definition NewErrorIterator :: "Status \<Rightarrow> Status" where
  "NewErrorIterator status = status"

text \<open>An iterator of one of two classes; the call goes to the class of the object.\<close>

definition dispatch :: "'a Iterator \<Rightarrow> 'b Iterator \<Rightarrow> ('a + 'b) Iterator" where
  "dispatch A B =
     \<lparr>it_Valid = case_sum (it_Valid A) (it_Valid B),
      it_SeekToFirst = case_sum (map_option Inl \<circ> it_SeekToFirst A) (map_option Inr \<circ> it_SeekToFirst B),
      it_SeekToLast = case_sum (map_option Inl \<circ> it_SeekToLast A) (map_option Inr \<circ> it_SeekToLast B),
      it_Seek = \<lambda>t. case_sum (map_option Inl \<circ> it_Seek A t) (map_option Inr \<circ> it_Seek B t),
      it_Next = case_sum (map_option Inl \<circ> it_Next A) (map_option Inr \<circ> it_Next B),
      it_Prev = case_sum (map_option Inl \<circ> it_Prev A) (map_option Inr \<circ> it_Prev B),
      it_key = case_sum (it_key A) (it_key B),
      it_value = case_sum (it_value A) (it_value B),
      it_status = case_sum (it_status A) (it_status B)\<rparr>"

interpretation empty_iterator: iterator EmptyIterator C "[]" "\<lambda>i s. i = 0 \<and> s = OK" for C
  by unfold_locales (simp_all add: EmptyIterator_def seek_pos_def)

text \<open>An iterator of either class stays one.\<close>

lemma iterator_on_dispatch:
  assumes "iterator_on B C es pos T"
  shows "iterator_on (dispatch A B) C es (\<lambda>i s. \<exists>b. s = Inr b \<and> pos i b) T"
  using iterator_on.pos_le [OF assms] iterator_on.Valid_ok [OF assms] iterator_on.key_ok [OF assms] iterator_on.value_ok [OF assms]
    iterator_on.status_ok [OF assms] iterator_on.SeekToFirst_ok [OF assms] iterator_on.SeekToLast_ok [OF assms]
    iterator_on.Seek_ok [OF assms] iterator_on.Next_ok [OF assms] iterator_on.Prev_ok [OF assms]
  by unfold_locales (fastforce simp: dispatch_def)+

lemma iterator_on_dispatch_left:
  assumes "iterator_on A C es pos T"
  shows "iterator_on (dispatch A B) C es (\<lambda>i s. \<exists>a. s = Inl a \<and> pos i a) T"
  using iterator_on.pos_le [OF assms] iterator_on.Valid_ok [OF assms] iterator_on.key_ok [OF assms] iterator_on.value_ok [OF assms]
    iterator_on.status_ok [OF assms] iterator_on.SeekToFirst_ok [OF assms] iterator_on.SeekToLast_ok [OF assms]
    iterator_on.Seek_ok [OF assms] iterator_on.Next_ok [OF assms] iterator_on.Prev_ok [OF assms]
  by unfold_locales (fastforce simp: dispatch_def)+

lemma iterator_of_on:
  assumes "iterator_on I C es pos UNIV"
  shows "iterator I C es pos"
  using iterator_on.pos_le [OF assms] iterator_on.Valid_ok [OF assms] iterator_on.key_ok [OF assms] iterator_on.value_ok [OF assms]
    iterator_on.status_ok [OF assms] iterator_on.SeekToFirst_ok [OF assms] iterator_on.SeekToLast_ok [OF assms]
    iterator_on.Seek_ok [OF assms _ _ UNIV_I] iterator_on.Next_ok [OF assms] iterator_on.Prev_ok [OF assms]
  by unfold_locales assumption+

lemma iterator_to_on: "iterator I C es pos \<Longrightarrow> iterator_on I C es pos UNIV"
  by (rule iterator.on_all)

lemma iterator_dispatch:
  assumes "iterator B C es pos"
  shows "iterator (dispatch A B) C es (\<lambda>i s. \<exists>b. s = Inr b \<and> pos i b)"
  by (rule iterator_of_on [OF iterator_on_dispatch [OF iterator_to_on [OF assms]]])

section \<open>The wrapper\<close>

record 's IteratorWrapper =
  w_iter :: "'s option"
  w_valid :: bool
  w_key :: bytes

definition Update :: "'s Iterator \<Rightarrow> 's IteratorWrapper \<Rightarrow> 's IteratorWrapper option" where
  "Update I w = do {
     s \<leftarrow> w_iter w;
     let valid = it_Valid I s;
     if valid then do { k \<leftarrow> it_key I s; Some (w\<lparr>w_valid := valid, w_key := k\<rparr>) } else Some (w\<lparr>w_valid := valid\<rparr>) }"

definition new_IteratorWrapper :: "'s IteratorWrapper" where
  "new_IteratorWrapper = \<lparr>w_iter = None, w_valid = False, w_key = []\<rparr>"

definition Set :: "'s Iterator \<Rightarrow> 's option \<Rightarrow> 's IteratorWrapper \<Rightarrow> 's IteratorWrapper option" where
  "Set I iter w = (let w = w\<lparr>w_iter := iter\<rparr> in if iter = None then Some (w\<lparr>w_valid := False\<rparr>) else Update I w)"

definition wkey :: "'s IteratorWrapper \<Rightarrow> bytes option" where
  "wkey w = (if w_valid w then Some (w_key w) else None)"

definition wvalue :: "'s Iterator \<Rightarrow> 's IteratorWrapper \<Rightarrow> bytes option" where
  "wvalue I w = (if w_valid w then Option.bind (w_iter w) (it_value I) else None)"

definition wstatus :: "'s Iterator \<Rightarrow> 's IteratorWrapper \<Rightarrow> Status option" where
  "wstatus I w = map_option (it_status I) (w_iter w)"

text \<open>A move of the wrapped iterator and the update of what the wrapper caches.\<close>

definition wmove :: "'s Iterator \<Rightarrow> ('s \<Rightarrow> 's option) \<Rightarrow> 's IteratorWrapper \<Rightarrow> 's IteratorWrapper option" where
  "wmove I f w = do { s \<leftarrow> w_iter w; s \<leftarrow> f s; Update I (w\<lparr>w_iter := Some s\<rparr>) }"

definition wNext :: "'s Iterator \<Rightarrow> 's IteratorWrapper \<Rightarrow> 's IteratorWrapper option" where
  "wNext I = wmove I (it_Next I)"

definition wPrev :: "'s Iterator \<Rightarrow> 's IteratorWrapper \<Rightarrow> 's IteratorWrapper option" where
  "wPrev I = wmove I (it_Prev I)"

definition wSeek :: "'s Iterator \<Rightarrow> bytes \<Rightarrow> 's IteratorWrapper \<Rightarrow> 's IteratorWrapper option" where
  "wSeek I k = wmove I (it_Seek I k)"

definition wSeekToFirst :: "'s Iterator \<Rightarrow> 's IteratorWrapper \<Rightarrow> 's IteratorWrapper option" where
  "wSeekToFirst I = wmove I (it_SeekToFirst I)"

definition wSeekToLast :: "'s Iterator \<Rightarrow> 's IteratorWrapper \<Rightarrow> 's IteratorWrapper option" where
  "wSeekToLast I = wmove I (it_SeekToLast I)"

text \<open>What the wrapper caches is what the iterator says; so it behaves as the iterator.\<close>

context iterator_on
begin

definition wpos :: "nat \<Rightarrow> 's IteratorWrapper \<Rightarrow> bool" where
  "wpos i w \<longleftrightarrow> (\<exists>s. w_iter w = Some s \<and> pos i s \<and> w_valid w = (i < length es) \<and> (i < length es \<longrightarrow> w_key w = fst (es ! i)))"

lemma Update_ok: "w_iter w = Some s \<Longrightarrow> pos i s \<Longrightarrow> \<exists>w'. Update I w = Some w' \<and> wpos i w'"
  using Valid_ok [of i s] key_ok [of i s] by (auto simp: Update_def Let_def wpos_def)

lemma wmove_ok: "wpos i w \<Longrightarrow> (\<And>s. pos i s \<Longrightarrow> \<exists>s'. f s = Some s' \<and> pos j s') \<Longrightarrow> \<exists>w'. wmove I f w = Some w' \<and> wpos j w'"
  using Update_ok by (fastforce simp: wpos_def wmove_def)

lemma Set_ok: "pos i s \<Longrightarrow> \<exists>w'. Set I (Some s) w = Some w' \<and> wpos i w'"
  using Update_ok [of "w\<lparr>w_iter := Some s\<rparr>"] by (simp add: Set_def)

lemma wNext_ok: "wpos i w \<Longrightarrow> i < length es \<Longrightarrow> \<exists>w'. wNext I w = Some w' \<and> wpos (Suc i) w'"
  unfolding wNext_def using Next_ok by (intro wmove_ok) auto

lemma wPrev_ok: "wpos i w \<Longrightarrow> i < length es \<Longrightarrow> \<exists>w'. wPrev I w = Some w' \<and> wpos (if i = 0 then length es else i - 1) w'"
  unfolding wPrev_def by (rule wmove_ok, assumption, rule Prev_ok)

lemma wSeek_ok: "wpos i w \<Longrightarrow> increasing C es \<Longrightarrow> k \<in> targets \<Longrightarrow> \<exists>w'. wSeek I k w = Some w' \<and> wpos (seek_pos C k es) w'"
  unfolding wSeek_def using Seek_ok by (intro wmove_ok) auto

lemma wSeekToFirst_ok: "wpos i w \<Longrightarrow> \<exists>w'. wSeekToFirst I w = Some w' \<and> wpos 0 w'"
  unfolding wSeekToFirst_def using SeekToFirst_ok by (intro wmove_ok) auto

lemma wSeekToLast_ok: "wpos i w \<Longrightarrow> \<exists>w'. wSeekToLast I w = Some w' \<and> wpos (length es - 1) w'"
  unfolding wSeekToLast_def using SeekToLast_ok by (intro wmove_ok) auto

lemma wpos_simps: "wpos i w \<Longrightarrow> w_valid w = (i < length es)"
  "wpos i w \<Longrightarrow> i < length es \<Longrightarrow> wkey w = Some (fst (es ! i))"
  "wpos i w \<Longrightarrow> i < length es \<Longrightarrow> wvalue I w = Some (snd (es ! i))"
  "wpos i w \<Longrightarrow> wstatus I w = Some OK"
  "wpos i w \<Longrightarrow> i \<le> length es" "wpos i w \<Longrightarrow> w_iter w \<noteq> None"
  using value_ok status_ok pos_le by (auto simp: wpos_def wkey_def wvalue_def wstatus_def)

end

context iterator
begin

abbreviation wpos :: "nat \<Rightarrow> 's IteratorWrapper \<Rightarrow> bool" where
  "wpos \<equiv> any.wpos"

lemmas wpos_def = any.wpos_def
lemmas collect_ok = any.collect_ok
lemmas collect_back_ok = any.collect_back_ok
lemmas Set_ok = any.Set_ok
lemmas wNext_ok = any.wNext_ok
lemmas wPrev_ok = any.wPrev_ok
lemmas wSeek_ok = any.wSeek_ok [OF _ _ UNIV_I]
lemmas wSeekToFirst_ok = any.wSeekToFirst_ok
lemmas wSeekToLast_ok = any.wSeekToLast_ok
lemmas wpos_simps = any.wpos_simps

end

end
