(* ===== verification/Block_Format.thy ===== *)
theory Block_Format
  imports Block Iterator
begin

text \<open>
  The bytes of a block that the builder makes of a list of entries, and how one entry is decoded.
\<close>

section \<open>The layout of a block\<close>

definition shared_at :: "nat \<Rightarrow> entry list \<Rightarrow> nat \<Rightarrow> nat" where
  "shared_at I es i = (if i mod I = 0 then 0 else diff_index (fst (es ! (i - 1))) (fst (es ! i)))"

definition enc :: "nat \<Rightarrow> entry \<Rightarrow> bytes" where
  "enc s e = EncodeVarint32 (word_of_nat s) @ EncodeVarint32 (word_of_nat (length (fst e) - s)) @
     EncodeVarint32 (word_of_nat (length (snd e))) @ drop s (fst e) @ snd e"

definition body :: "nat \<Rightarrow> entry list \<Rightarrow> bytes" where
  "body I es = concat (map (\<lambda>i. enc (shared_at I es i) (es ! i)) [0..<length es])"

definition epos :: "nat \<Rightarrow> entry list \<Rightarrow> nat \<Rightarrow> nat" where
  "epos I es i = length (body I (take i es))"

definition restart_count :: "nat \<Rightarrow> entry list \<Rightarrow> nat" where
  "restart_count I es = (length es - 1) div I + 1"

definition restart_words :: "nat \<Rightarrow> entry list \<Rightarrow> u32 list" where
  "restart_words I es = map (\<lambda>j. word_of_nat (epos I es (j * I))) [0..<restart_count I es]"

definition block_bytes :: "nat \<Rightarrow> entry list \<Rightarrow> bytes" where
  "block_bytes I es = body I es @ concat (map EncodeFixed32 (restart_words I es)) @
     EncodeFixed32 (word_of_nat (restart_count I es))"

lemma shared_at_take: "i < n \<Longrightarrow> shared_at I (take n es) i = shared_at I es i"
  by (simp add: shared_at_def)

lemma body_take_Suc:
  assumes "i < length es"
  shows "body I (take (Suc i) es) = body I (take i es) @ enc (shared_at I es i) (es ! i)"
proof -
  have "body I (take (Suc i) es) = concat (map (\<lambda>j. enc (shared_at I es j) (es ! j)) [0..<Suc i])"
    unfolding body_def using assms by (intro arg_cong [where f = concat]) (auto simp: shared_at_take less_Suc_eq intro!: map_cong)
  also have "\<dots> = concat (map (\<lambda>j. enc (shared_at I es j) (es ! j)) [0..<i]) @ enc (shared_at I es i) (es ! i)"
    by simp
  also have "concat (map (\<lambda>j. enc (shared_at I es j) (es ! j)) [0..<i]) = body I (take i es)"
    unfolding body_def using assms by (intro arg_cong [where f = concat]) (auto simp: shared_at_take intro!: map_cong)
  finally show ?thesis .
qed

lemma epos_Suc: "i < length es \<Longrightarrow> epos I es (Suc i) = epos I es i + length (enc (shared_at I es i) (es ! i))"
  by (simp add: epos_def body_take_Suc)

lemma epos_take: "i \<le> n \<Longrightarrow> epos I (take n es) i = epos I es i"
  by (simp add: epos_def min_def)

lemma epos_append: "i \<le> length es \<Longrightarrow> epos I (es @ xs) i = epos I es i"
  by (simp add: epos_def)

lemma body_append: "body I (es @ [e]) = body I es @ enc (shared_at I (es @ [e]) (length es)) e"
  using body_take_Suc [of "length es" "es @ [e]" I] by simp

section \<open>The builder writes the layout\<close>

definition add_all :: "nat \<Rightarrow> entry list \<Rightarrow> BlockBuilder" where
  "add_all I es = foldl (\<lambda>b (k, v). Add I k v b) new_BlockBuilder es"

lemma restart_words_append:
  assumes "es \<noteq> []"
  shows "restart_words I (es @ [e]) = restart_words I es @
    (if length es mod I = 0 then [word_of_nat (length (body I es))] else [])"
proof -
  obtain n where n: "length es = Suc n" using assms by (cases es) auto
  have c: "restart_count I (es @ [e]) = restart_count I es + (if length es mod I = 0 then 1 else 0)"
    using n by (simp add: restart_count_def div_Suc)
  have le: "j * I \<le> n" if "j < restart_count I es" for j
  proof -
    have "j \<le> n div I" using that n by (simp add: restart_count_def)
    then have "j * I \<le> n div I * I" by simp
    then show ?thesis by (meson div_times_less_eq_dividend le_trans)
  qed
  then have "map (\<lambda>j. word_of_nat (epos I (es @ [e]) (j * I)) :: u32) [0..<restart_count I es] = restart_words I es"
    unfolding restart_words_def using n by (intro map_cong) (auto simp: epos_append le_SucI)
  moreover have "restart_count I es * I = length es" if "length es mod I = 0"
  proof -
    have "Suc n div I = Suc (n div I)" using that n by (simp add: div_Suc)
    then show ?thesis using that n by (metis One_nat_def Suc_eq_plus1 diff_Suc_1 mod_0_imp_dvd dvd_div_mult_self restart_count_def)
  qed
  ultimately show ?thesis unfolding restart_words_def c by (simp add: epos_append) (simp add: epos_def)
qed

lemma add_all_layout:
  assumes I: "0 < I"
  shows "buffer (add_all I es) = body I es \<and> restarts (add_all I es) = restart_words I es \<and>
    counter (add_all I es) = (if es = [] then 0 else (length es - 1) mod I + 1) \<and>
    last_key (add_all I es) = (if es = [] then [] else fst (last es))"
proof (induction es rule: rev_induct)
  case Nil
  then show ?case by (simp add: add_all_def new_BlockBuilder_def body_def restart_words_def restart_count_def epos_def)
next
  case (snoc e es)
  obtain k v where e: "e = (k, v)" by (cases e)
  have step: "add_all I (es @ [e]) = Add I k v (add_all I es)" by (simp add: add_all_def e)
  have dk: "take (diff_index a b) a = take (diff_index a b) b" for a b
    by (induction a b rule: diff_index.induct) auto
  show ?case
  proof (cases "es = []")
    case True
    then show ?thesis using snoc I unfolding step
      by (simp add: Add_def Let_def e body_def enc_def shared_at_def PutVarint32_def restart_words_def restart_count_def epos_def)
  next
    case False
    then obtain n where n: "length es = Suc n" by (cases es) auto
    have last: "last es = es ! n" using n False by (simp add: last_conv_nth)
    have c: "counter (add_all I es) < I \<longleftrightarrow> length es mod I \<noteq> 0"
    proof -
      have "Suc (n mod I) \<le> I" using mod_less_divisor [OF I, of n] by simp
      then show ?thesis using snoc False n by (auto simp: mod_Suc le_less)
    qed
    show ?thesis
    proof (cases "length es mod I = 0")
      case True
      then show ?thesis using snoc False c n I unfolding step
        by (simp add: Add_def Let_def e body_append enc_def shared_at_def PutVarint32_def restart_words_append)
    next
      case nz: False
      then show ?thesis using snoc False c n I last dk [of "fst (es ! n)" k] unfolding step
        by (simp add: Add_def Let_def e body_append enc_def shared_at_def PutVarint32_def restart_words_append nth_append mod_Suc)
    qed
  qed
qed

lemma Finish_layout: "0 < I \<Longrightarrow> buffer (Finish (add_all I es)) = block_bytes I es"
  using add_all_layout [of I es]
  by (simp add: Finish_def foldl_PutFixed32 block_bytes_def PutFixed32_def) (simp add: restart_words_def)

section \<open>One entry is decoded\<close>

lemma or_less_128: "a OR b < 128 \<longleftrightarrow> a < 128 \<and> b < 128" for a b :: u32
proof -
  have "a OR b < 128 \<longleftrightarrow> take_bit 7 a OR take_bit 7 b = a OR b" by (simp add: less_128)
  also have "\<dots> \<longleftrightarrow> take_bit 7 a = a \<and> take_bit 7 b = b"
  proof
    assume o: "take_bit 7 a OR take_bit 7 b = a OR b"
    have "\<not> bit a n \<and> \<not> bit b n" if "7 \<le> n" for n
      using arg_cong [OF o, of "\<lambda>x. bit x n"] that by (auto simp: bit_simps)
    then show "take_bit 7 a = a \<and> take_bit 7 b = b"
      by (auto intro!: bit_word_eqI simp: bit_simps) (metis not_le)+
  qed simp
  finally show ?thesis by (simp add: less_128)
qed

lemma GetVarint32Ptr_small: "(ucast b :: u32) < 128 \<Longrightarrow> GetVarint32Ptr (b # p) = Some (ucast b, p)"
proof -
  assume "(ucast b :: u32) < 128"
  then have "take_bit 7 (ucast b :: u32) = ucast b" by (simp add: less_128)
  then have "\<not> bit (ucast b :: u32) 7" by (metis bit_take_bit_iff less_irrefl)
  then have "(ucast b :: u32) AND 128 = 0" by (simp only: and_128) simp
  then show ?thesis by (simp add: GetVarint32Ptr_def Let_def)
qed

text \<open>The fast path gives what the slow path gives.\<close>

definition decode_lengths :: "bytes \<Rightarrow> (bytes \<times> u32 \<times> u32 \<times> u32) option" where
  "decode_lengths s = do {
     (shared, s) \<leftarrow> GetVarint32Ptr s;
     (non_shared, s) \<leftarrow> GetVarint32Ptr s;
     (value_length, s) \<leftarrow> GetVarint32Ptr s;
     Some (s, shared, non_shared, value_length) }"

lemma three_bytes: "3 \<le> length xs \<Longrightarrow> \<exists>a b c ys. xs = a # b # c # ys"
  by (auto simp: eval_nat_numeral Suc_le_length_iff)

lemma DecodeEntry_slow:
  assumes "limit \<le> length d"
  shows "DecodeEntry d p limit =
    (if limit - p < 3 then None
     else do {
       (rest, shared, non_shared, value_length) \<leftarrow> decode_lengths (drop p (take limit d));
       if (word_of_nat (length rest) :: u32) < non_shared + value_length then None
       else Some (limit - length rest, shared, non_shared, value_length) })"
proof (cases "limit - p < 3")
  case True
  then show ?thesis by (simp add: DecodeEntry_def Let_def)
next
  case False
  then have "3 \<le> length (drop p (take limit d))" using assms by simp
  then obtain a b c s where s: "drop p (take limit d) = a # b # c # s"
    using three_bytes by blast
  have "decode_lengths (a # b # c # s) = Some (s, ucast a, ucast b, ucast c)"
    if "(ucast a :: u32) OR ucast b OR ucast c < 128"
    using that by (simp add: or_less_128 decode_lengths_def GetVarint32Ptr_small)
  then show ?thesis using False unfolding DecodeEntry_def Let_def decode_lengths_def [symmetric] s by simp
qed

lemma decode_lengths_enc:
  "decode_lengths (EncodeVarint32 a @ EncodeVarint32 b @ EncodeVarint32 c @ rest) = Some (rest, a, b, c)"
  by (simp add: decode_lengths_def)

lemma EncodeVarint32_pos: "1 \<le> length (EncodeVarint32 v)"
  using varint32.enc_nonempty [of v] by (cases "EncodeVarint32 v") auto

lemma DecodeEntry_enc:
  assumes d: "take limit d = pre @ enc s e @ suffix" and limit: "limit \<le> length d" "limit < 2 ^ 32"
    and s: "s \<le> length (fst e)" and sm: "length (fst e) < 2 ^ 32"
  shows "DecodeEntry d (length pre) limit =
    Some (length pre + length (enc s e) - (length (fst e) - s) - length (snd e),
      word_of_nat s, word_of_nat (length (fst e) - s), word_of_nat (length (snd e)))"
proof -
  let ?rest = "drop s (fst e) @ snd e @ suffix"
  have l: "limit = length pre + length (enc s e) + length suffix" using arg_cong [OF d, of length] limit(1) by simp
  have dr: "drop (length pre) (take limit d) = EncodeVarint32 (word_of_nat s) @ EncodeVarint32 (word_of_nat (length (fst e) - s)) @
      EncodeVarint32 (word_of_nat (length (snd e))) @ ?rest" unfolding d by (simp add: enc_def)
  have e3: "length (enc s e) \<ge> 3 + (length (fst e) - s) + length (snd e)"
    using EncodeVarint32_pos [of "word_of_nat s"] EncodeVarint32_pos [of "word_of_nat (length (fst e) - s)"]
      EncodeVarint32_pos [of "word_of_nat (length (snd e))"] by (simp add: enc_def)
  have le: "length (fst e) - s + length (snd e) \<le> length ?rest" "length ?rest \<le> limit" using l e3 by simp_all
  have "(word_of_nat (length (fst e) - s) :: u32) + word_of_nat (length (snd e)) = word_of_nat (length (fst e) - s + length (snd e))"
    by simp
  then have w: "\<not> (word_of_nat (length ?rest) :: u32) < word_of_nat (length (fst e) - s) + word_of_nat (length (snd e))"
    using le limit(2) by (simp only: word_less_nat_alt unat_of_nat) (simp add: take_bit_nat_eq_self)
  have p: "limit - length ?rest = length pre + length (enc s e) - (length (fst e) - s) - length (snd e)"
    using l e3 s by simp
  show ?thesis
    unfolding DecodeEntry_slow [OF limit(1)] dr decode_lengths_enc using l e3 w p by simp
qed

end
