(* ===== verification/Block_Moves.thy ===== *)
theory Block_Moves
  imports Block_Format
begin

text \<open>
  The iterator over a block that the builder made: every move takes it to the entry it should.
\<close>

section \<open>The block as the iterator sees it\<close>

definition small :: "nat \<Rightarrow> entry list \<Rightarrow> bool" where
  "small I es \<longleftrightarrow> 0 < I \<and> length (block_bytes I es) < 2 ^ 32"

lemma body_epos: "length (body I es) = epos I es (length es)"
  by (simp add: epos_def)

lemma enc_length: "s \<le> length (fst e) \<Longrightarrow> 3 + (length (fst e) - s) + length (snd e) \<le> length (enc s e)"
  using EncodeVarint32_pos [of "word_of_nat s"] EncodeVarint32_pos [of "word_of_nat (length (fst e) - s)"]
    EncodeVarint32_pos [of "word_of_nat (length (snd e))"] by (simp add: enc_def)

lemma diff_index_le: "diff_index a b \<le> length a" "diff_index a b \<le> length b"
  by (induction a b rule: diff_index.induct) auto

lemma diff_index_take: "take (diff_index a b) a = take (diff_index a b) b"
  by (induction a b rule: diff_index.induct) auto

lemma shared_at_le: "shared_at I es i \<le> length (fst (es ! i))" "shared_at I es i \<le> length (fst (es ! (i - 1)))"
  by (simp_all add: shared_at_def diff_index_le)

lemma epos_less: "i < length es \<Longrightarrow> epos I es i < epos I es (Suc i)"
proof -
  assume "i < length es"
  moreover have "0 < length (enc (shared_at I es i) (es ! i))"
    using enc_length [OF shared_at_le(1) [of I es i]] by linarith
  ultimately show ?thesis by (simp only: epos_Suc)
qed

lemma epos_mono: "i \<le> j \<Longrightarrow> j \<le> length es \<Longrightarrow> epos I es i \<le> epos I es j"
proof (induction j)
  case (Suc j)
  then show ?case using epos_less [of j es I] by (cases "i = Suc j") auto
qed simp

lemma epos_strict: "i < j \<Longrightarrow> j \<le> length es \<Longrightarrow> epos I es i < epos I es j"
  using epos_less [of i es I] epos_mono [of "Suc i" j es I] by simp

lemma epos_less_iff: "i \<le> length es \<Longrightarrow> j \<le> length es \<Longrightarrow> epos I es i < epos I es j \<longleftrightarrow> i < j"
  using epos_strict epos_mono by (metis not_le)

lemma epos_0 [simp]: "epos I es 0 = 0"
  by (simp add: epos_def body_def)

lemma body_split: "i < length es \<Longrightarrow> \<exists>z. body I es = body I (take i es) @ enc (shared_at I es i) (es ! i) @ z"
proof -
  assume i: "i < length es"
  have "\<exists>z. body I es = body I (take m es) @ z" if "m \<le> length es" for m
    using that
  proof (induction "length es - m" arbitrary: m)
    case 0
    then show ?case by simp
  next
    case (Suc k)
    then have "\<exists>z. body I es = body I (take (Suc m) es) @ z" by simp
    then show ?case using Suc by (auto simp: body_take_Suc)
  qed
  from this [of "Suc i"] show ?thesis using i by (auto simp: body_take_Suc)
qed

lemma body_le: "small I es \<Longrightarrow> length (body I es) < 2 ^ 32"
  by (simp add: small_def block_bytes_def)

lemma key_length: "i < length es \<Longrightarrow> length (fst (es ! i)) \<le> epos I es (Suc i)"
proof (induction i)
  case 0
  then show ?case using enc_length [OF shared_at_le(1) [of I es 0]] by (simp add: epos_Suc shared_at_def)
next
  case (Suc i)
  then show ?case using enc_length [OF shared_at_le(1) [of I es "Suc i"]] shared_at_le(2) [of I es "Suc i"]
    by (simp add: epos_Suc)
qed

lemma restart_entry:
  assumes "0 < I" "j < restart_count I es"
  shows "j * I \<le> length es" "es \<noteq> [] \<Longrightarrow> j * I < length es"
proof -
  have "j \<le> (length es - 1) div I" using assms by (simp add: restart_count_def)
  then have "j * I \<le> (length es - 1) div I * I" by simp
  also have "\<dots> \<le> length es - 1" by (rule div_times_less_eq_dividend)
  finally show "j * I \<le> length es" "es \<noteq> [] \<Longrightarrow> j * I < length es" by (cases es; simp)+
qed

lemma length_restart_words [simp]: "length (restart_words I es) = restart_count I es"
  by (simp add: restart_words_def)

lemma block_length: "length (block_bytes I es) = length (body I es) + restart_count I es * 4 + 4"
  by (simp add: block_bytes_def)

lemma block_restart:
  assumes "small I es" "j < restart_count I es"
  shows "fixed32 (block_bytes I es) (length (body I es) + j * 4) = Some (epos I es (j * I))"
proof -
  have "epos I es (j * I) \<le> length (body I es)"
    using restart_entry(1) [of I j es] assms by (simp add: small_def body_epos epos_mono)
  then have "unat (word_of_nat (epos I es (j * I)) :: u32) = epos I es (j * I)"
    using body_le [OF assms(1)] by (simp add: unat_of_nat take_bit_nat_eq_self)
  then show ?thesis
    using DecodeFixed32_nth [of j "restart_words I es" "body I es" "EncodeFixed32 (word_of_nat (restart_count I es))"] assms(2)
    by (simp add: fixed32_def block_bytes_def restart_words_def)
qed

lemma block_count:
  assumes "small I es"
  shows "NumRestarts (block_bytes I es) (length (block_bytes I es)) = Some (restart_count I es)"
proof -
  have l: "length (block_bytes I es) = length (body I es) + restart_count I es * 4 + 4"
    by (rule block_length)
  then have "unat (word_of_nat (restart_count I es) :: u32) = restart_count I es"
    using assms by (simp add: small_def unat_of_nat take_bit_nat_eq_self)
  then show ?thesis
    using DecodeFixed32_nth [of "restart_count I es" "restart_words I es @ [word_of_nat (restart_count I es)]" "body I es" "[]"]
    by (simp add: NumRestarts_def fixed32_def l) (simp add: block_bytes_def nth_append)
qed

lemma new_Block_built:
  assumes "small I es"
  shows "new_Block (block_bytes I es) = Some \<lparr>bdata = block_bytes I es, bsize = length (block_bytes I es), restart_offset = length (body I es)\<rparr>"
proof -
  have l: "length (block_bytes I es) = length (body I es) + restart_count I es * 4 + 4"
    by (rule block_length)
  then show ?thesis using block_count [OF assms] by (simp add: new_Block_def Let_def)
qed

section \<open>Positions\<close>

definition iter_of :: "Comparator \<Rightarrow> nat \<Rightarrow> entry list \<Rightarrow> Iter \<Rightarrow> bool" where
  "iter_of C I es it \<longleftrightarrow> small I es \<and> icmp it = C \<and> idata it = block_bytes I es \<and> irestarts it = length (body I es) \<and>
     num_restarts it = restart_count I es \<and> istatus it = OK"

text \<open>The iterator is at entry \<open>i\<close>, or past the last one.\<close>

definition at_entry :: "Comparator \<Rightarrow> nat \<Rightarrow> entry list \<Rightarrow> nat \<Rightarrow> Iter \<Rightarrow> bool" where
  "at_entry C I es i it \<longleftrightarrow> iter_of C I es it \<and> i \<le> length es \<and> current it = epos I es i \<and>
     (i < length es \<longrightarrow> ikey it = fst (es ! i) \<and> restart_index it < restart_count I es \<and>
        ivalue it = Some (epos I es (Suc i) - length (snd (es ! i)), length (snd (es ! i))))"

text \<open>The iterator is about to parse entry \<open>i\<close>.\<close>

definition before :: "Comparator \<Rightarrow> nat \<Rightarrow> entry list \<Rightarrow> nat \<Rightarrow> Iter \<Rightarrow> bool" where
  "before C I es i it \<longleftrightarrow> iter_of C I es it \<and> i \<le> length es \<and> NextEntryOffset it = Some (epos I es i) \<and>
     restart_index it < restart_count I es \<and>
     (i < length es \<longrightarrow> shared_at I es i \<le> length (ikey it) \<and>
        take (shared_at I es i) (ikey it) = take (shared_at I es i) (fst (es ! i)))"

lemma restart_loop_ok:
  "iter_of C I es it \<Longrightarrow> restart_index it < restart_count I es \<Longrightarrow>
   \<exists>j < restart_count I es. restart_loop it = Some (it\<lparr>restart_index := j\<rparr>)"
proof (induction it rule: restart_loop.induct)
  case (1 it)
  show ?case
  proof (cases "restart_index it + 1 < num_restarts it")
    case True
    then have g: "GetRestartPoint it (restart_index it + 1) = Some (epos I es ((restart_index it + 1) * I))"
      using block_restart [of I es "restart_index it + 1"] "1.prems" by (simp add: GetRestartPoint_def iter_of_def)
    show ?thesis
    proof (cases "epos I es ((restart_index it + 1) * I) < current it")
      case less: True
      have "iter_of C I es (it\<lparr>restart_index := restart_index it + 1\<rparr>)" using "1.prems" by (simp add: iter_of_def)
      from "1.IH" [OF True g less this] True "1.prems" show ?thesis
        using g less by (subst restart_loop.simps) (auto simp: iter_of_def)
    next
      case False
      then show ?thesis using True g "1.prems" by (subst restart_loop.simps) (auto intro!: exI [of _ "restart_index it"])
    qed
  next
    case False
    then show ?thesis using "1.prems" by (subst restart_loop.simps) (auto intro!: exI [of _ "restart_index it"])
  qed
qed

lemma at_entry_before:
  assumes "at_entry C I es i it" "i < length es"
  shows "before C I es (Suc i) it"
proof -
  have "length (snd (es ! i)) \<le> epos I es (Suc i)"
    using enc_length [OF shared_at_le(1) [of I es i]] assms(2) by (simp add: epos_Suc)
  then show ?thesis using assms diff_index_le diff_index_take
    by (auto simp: at_entry_def before_def NextEntryOffset_def shared_at_def)
qed

lemma parse_end:
  assumes "before C I es (length es) it"
  shows "\<exists>it'. ParseNextKey it = Some (False, it') \<and> at_entry C I es (length es) it'"
  using assms by (simp add: before_def ParseNextKey_def Let_def iter_of_def body_epos at_entry_def)

lemma parse_entry:
  assumes b: "before C I es i it" and i: "i < length es"
  shows "\<exists>it'. ParseNextKey it = Some (True, it') \<and> at_entry C I es i it'"
proof -
  let ?s = "shared_at I es i" and ?e = "es ! i" and ?B = "length (body I es)"
  have it: "iter_of C I es it" "NextEntryOffset it = Some (epos I es i)" "restart_index it < restart_count I es"
      "?s \<le> length (ikey it)" "take ?s (ikey it) = take ?s (fst ?e)"
    using b i by (simp_all add: before_def)
  have d: "idata it = block_bytes I es" "irestarts it = ?B" and sm: "small I es" using it(1) by (simp_all add: iter_of_def)
  note lt = body_le [OF sm]
  have lpos: "epos I es i < ?B" "epos I es (Suc i) \<le> ?B"
    using epos_strict [OF i] epos_mono [of "Suc i" "length es"] i by (simp_all add: body_epos)
  have kl: "length (fst ?e) < 2 ^ 32" using key_length [OF i, of I] lpos lt by linarith
  obtain z where z: "body I es = body I (take i es) @ enc ?s ?e @ z" using body_split [OF i] by blast
  have tb: "take ?B (block_bytes I es) = body I (take i es) @ enc ?s ?e @ z" using z by (simp add: block_bytes_def)
  have lb: "?B \<le> length (block_bytes I es)" by (simp add: block_bytes_def)
  let ?p = "epos I es i + length (enc ?s ?e) - (length (fst ?e) - ?s) - length (snd ?e)"
  have dec: "DecodeEntry (idata it) (epos I es i) ?B =
      Some (?p, word_of_nat ?s, word_of_nat (length (fst ?e) - ?s), word_of_nat (length (snd ?e)))"
    using DecodeEntry_enc [OF tb lb lt shared_at_le(1) kl] by (simp add: d epos_def)
  have el: "length (snd ?e) < 2 ^ 32" using enc_length [OF shared_at_le(1) [of I es i]] epos_Suc [OF i, of I] lpos lt by linarith
  have s32: "?s < 2 ^ 32" using shared_at_le(1) [of I es i] kl by linarith
  have u: "unat (word_of_nat ?s :: u32) = ?s" "unat (word_of_nat (length (fst ?e) - ?s) :: u32) = length (fst ?e) - ?s"
      "unat (word_of_nat (length (snd ?e)) :: u32) = length (snd ?e)"
    using kl el s32 by (simp_all add: unat_of_nat take_bit_nat_eq_self)
  have e: "length (enc ?s ?e) \<ge> 3 + (length (fst ?e) - ?s) + length (snd ?e)" using enc_length [OF shared_at_le(1) [of I es i]] .
  have pe: "?p + (length (fst ?e) - ?s) = epos I es (Suc i) - length (snd ?e)" "?p + (length (fst ?e) - ?s) + length (snd ?e) = epos I es (Suc i)"
    using e epos_Suc [OF i, of I] by simp_all
  have dp: "take (length (fst ?e) - ?s) (drop ?p (idata it)) = drop ?s (fst ?e)"
  proof -
    have h: "\<exists>hd. enc ?s ?e = hd @ drop ?s (fst ?e) @ snd ?e \<and> length hd = length (enc ?s ?e) - (length (fst ?e) - ?s) - length (snd ?e)"
      using e by (simp add: enc_def)
    then obtain h where h: "enc ?s ?e = h @ drop ?s (fst ?e) @ snd ?e"
        "length h = length (enc ?s ?e) - (length (fst ?e) - ?s) - length (snd ?e)" by blast
    have "idata it = (body I (take i es) @ h) @ drop ?s (fst ?e) @ snd ?e @ z @ drop ?B (block_bytes I es)"
      unfolding d using append_take_drop_id [of ?B "block_bytes I es"] tb h(1) by (metis append.assoc)
    moreover have "?p = length (body I (take i es) @ h)" using h(2) e by (simp add: epos_def)
    ultimately show ?thesis by (simp add: shared_at_le)
  qed
  let ?it = "it\<lparr>current := epos I es i, ikey := take ?s (ikey it) @ drop ?s (fst ?e),
      ivalue := Some (epos I es (Suc i) - length (snd ?e), length (snd ?e))\<rparr>"
  have "iter_of C I es ?it" "restart_index ?it < restart_count I es" using it by (simp_all add: iter_of_def)
  from restart_loop_ok [OF this] obtain j where j: "j < restart_count I es" "restart_loop ?it = Some (?it\<lparr>restart_index := j\<rparr>)" by blast
  have "ParseNextKey it = Some (True, ?it\<lparr>restart_index := j\<rparr>)"
    unfolding ParseNextKey_def it(2) using lpos dec it(4) u pe dp j(2) lb d
    by (simp add: Let_def)
  moreover have "at_entry C I es i (?it\<lparr>restart_index := j\<rparr>)"
    using it i j(1) by (simp add: at_entry_def iter_of_def)
  ultimately show ?thesis by blast
qed

section \<open>Moves\<close>

lemma restart_point_before:
  assumes it: "iter_of C I es it" and j: "j < restart_count I es"
  shows "\<exists>it'. SeekToRestartPoint j it = Some it' \<and> before C I es (j * I) it'"
proof -
  have sm: "small I es" using it by (simp add: iter_of_def)
  then have "0 < I" by (simp add: small_def)
  moreover have "GetRestartPoint it j = Some (epos I es (j * I))"
    using block_restart [OF sm j] it j by (simp add: GetRestartPoint_def iter_of_def)
  ultimately show ?thesis using it j restart_entry(1) [of I j es]
    by (auto simp: SeekToRestartPoint_def before_def iter_of_def NextEntryOffset_def shared_at_def)
qed

lemma Next_ok:
  assumes "at_entry C I es i it" "i < length es"
  shows "\<exists>it'. Next it = Some it' \<and> at_entry C I es (Suc i) it'"
proof (cases "Suc i < length es")
  case True
  then show ?thesis using parse_entry [OF at_entry_before [OF assms]] by (auto simp: Next_def)
next
  case False
  then have "length es = Suc i" using assms(2) by simp
  then show ?thesis using parse_end [of C I es it] at_entry_before [OF assms] by (auto simp: Next_def)
qed

lemma SeekToFirst_ok:
  assumes "iter_of C I es it"
  shows "\<exists>it'. SeekToFirst it = Some it' \<and> at_entry C I es 0 it'"
proof -
  obtain it1 where 1: "SeekToRestartPoint 0 it = Some it1" "before C I es 0 it1"
    using restart_point_before [OF assms, of 0] by (auto simp: restart_count_def)
  show ?thesis
  proof (cases "es = []")
    case True
    then show ?thesis using 1 parse_end [of C I es it1] by (auto simp: SeekToFirst_def Next_def)
  next
    case False
    then show ?thesis using 1 parse_entry [OF 1(2)] by (auto simp: SeekToFirst_def Next_def)
  qed
qed

lemma parse_until_ok:
  "before C I es i it \<Longrightarrow> i < m \<Longrightarrow> m \<le> length es \<Longrightarrow>
   \<exists>it'. parse_until (epos I es m) it = Some it' \<and> at_entry C I es (m - 1) it'"
proof (induction "m - i" arbitrary: i it)
  case (Suc k)
  then have i: "i < length es" by simp
  obtain it1 where 1: "ParseNextKey it = Some (True, it1)" "at_entry C I es i it1"
    using parse_entry [OF Suc.prems(1) i] by blast
  note b = at_entry_before [OF 1(2) i]
  have n: "NextEntryOffset it1 = Some (epos I es (Suc i))" using b by (simp add: before_def)
  show ?case
  proof (cases "Suc i < m")
    case True
    then have "epos I es (Suc i) < epos I es m" using Suc.prems(3) by (simp add: epos_strict)
    then show ?thesis using 1 n Suc.hyps(1) [of "Suc i" it1] Suc.hyps(2) b True Suc.prems(3)
      by (subst parse_until.simps) simp
  next
    case False
    then have "m = Suc i" using Suc.prems(2) by simp
    then show ?thesis using 1 n by (subst parse_until.simps) simp
  qed
qed simp

lemma SeekToLast_ok:
  assumes it: "iter_of C I es it"
  shows "\<exists>it'. SeekToLast it = Some it' \<and> at_entry C I es (length es - 1) it'"
proof -
  let ?j = "restart_count I es - 1"
  have j: "?j < restart_count I es" by (simp add: restart_count_def)
  have d: "num_restarts it = restart_count I es" "irestarts it = epos I es (length es)" "0 < I"
    using it by (simp_all add: iter_of_def body_epos small_def)
  obtain it1 where 1: "SeekToRestartPoint ?j it = Some it1" "before C I es (?j * I) it1"
    using restart_point_before [OF it j] by blast
  then have i1: "irestarts it1 = epos I es (length es)" by (simp add: before_def iter_of_def body_epos)
  show ?thesis
  proof (cases "es = []")
    case True
    then have "before C I es (length es) it1" using 1(2) by (simp add: restart_count_def)
    from parse_end [OF this] True show ?thesis using 1(1) d
      by (auto simp: SeekToLast_def parse_until.simps i1)
  next
    case False
    then have "?j * I < length es" using restart_entry(2) [OF d(3) j] by simp
    from parse_until_ok [OF 1(2) this] show ?thesis using 1(1) d i1 by (auto simp: SeekToLast_def)
  qed
qed

lemma prev_scan_ok:
  assumes it: "iter_of C I es it" and i: "i \<le> length es"
  shows "j < restart_count I es \<Longrightarrow>
    (i = 0 \<longrightarrow> prev_scan it (epos I es i) j = Some None) \<and>
    (0 < i \<longrightarrow> (\<exists>k < restart_count I es. prev_scan it (epos I es i) j = Some (Some k) \<and> k * I < i))"
proof (induction j)
  case 0
  have "GetRestartPoint it 0 = Some 0"
    using block_restart [of I es 0] it "0.prems" by (simp add: GetRestartPoint_def iter_of_def)
  moreover have "0 < i \<longrightarrow> 0 < epos I es i" using epos_less_iff [of 0 es i I] i by simp
  ultimately show ?case using "0.prems" by auto
next
  case (Suc j)
  have "0 < I" using it by (simp add: iter_of_def small_def)
  then have le: "Suc j * I \<le> length es" using restart_entry(1) Suc.prems by blast
  have g: "GetRestartPoint it (Suc j) = Some (epos I es (Suc j * I))"
    using block_restart [of I es "Suc j"] it Suc.prems by (simp add: GetRestartPoint_def iter_of_def)
  show ?case
  proof (cases "Suc j * I < i")
    case True
    then show ?thesis using g epos_less_iff [OF le i, of I] Suc.prems by (simp del: mult_Suc)
  next
    case False
    then have "epos I es i \<le> epos I es (Suc j * I)" using epos_less_iff [OF le i, of I] by simp
    then show ?thesis using g Suc.IH Suc.prems by simp
  qed
qed

lemma Prev_ok:
  assumes at: "at_entry C I es i it" and i: "i < length es"
  shows "\<exists>it'. Prev it = Some it' \<and> at_entry C I es (if i = 0 then length es else i - 1) it'"
proof -
  have it: "iter_of C I es it" "current it = epos I es i" "restart_index it < restart_count I es"
    using at i by (simp_all add: at_entry_def)
  note p = prev_scan_ok [OF it(1) less_imp_le [OF i] it(3)]
  show ?thesis
  proof (cases "i = 0")
    case True
    then show ?thesis using p it i at by (auto simp: Prev_def Let_def at_entry_def iter_of_def body_epos)
  next
    case False
    then obtain k where k: "k < restart_count I es" "prev_scan it (epos I es i) (restart_index it) = Some (Some k)" "k * I < i"
      using p by auto
    obtain it1 where 1: "SeekToRestartPoint k it = Some it1" "before C I es (k * I) it1"
      using restart_point_before [OF it(1) k(1)] by blast
    show ?thesis using parse_until_ok [OF 1(2) k(3)] i k(2) 1(1) it(2) False by (auto simp: Prev_def Let_def)
  qed
qed

section \<open>Seeking\<close>

lemma seek_linear_ok:
  "before C I es i it \<Longrightarrow> \<forall>j < i. Compare C (fst (es ! j)) target < 0 \<Longrightarrow>
   \<exists>it'. seek_linear target it = Some it' \<and> at_entry C I es (seek_pos C target es) it'"
proof (induction "length es - i" arbitrary: i it)
  case 0
  then have i: "i = length es" by (simp add: before_def)
  then have "seek_pos C target es = length es" using 0 by (intro seek_pos_eqI) auto
  then show ?case using parse_end [of C I es it] 0 i by (subst seek_linear.simps) auto
next
  case (Suc k)
  then have i: "i < length es" by simp
  obtain it1 where 1: "ParseNextKey it = Some (True, it1)" "at_entry C I es i it1"
    using parse_entry [OF Suc.prems(1) i] by blast
  have k: "icmp it1 = C" "ikey it1 = fst (es ! i)" using 1(2) i by (simp_all add: at_entry_def iter_of_def)
  show ?case
  proof (cases "Compare C (fst (es ! i)) target < 0")
    case True
    then have "\<forall>j < Suc i. Compare C (fst (es ! j)) target < 0" using Suc.prems(2) less_Suc_eq by auto
    then show ?thesis using Suc.hyps(1) [of "Suc i" it1] Suc.hyps(2) at_entry_before [OF 1(2) i] 1(1) k True
      by (subst seek_linear.simps) auto
  next
    case False
    then have "seek_pos C target es = i" using Suc.prems(2) i by (intro seek_pos_eqI) auto
    then show ?thesis using 1 k False by (subst seek_linear.simps) simp
  qed
qed

context comparator
begin

lemma seek_binary_ok:
  assumes it: "iter_of C I es it"
  shows "right < restart_count I es \<Longrightarrow> left \<le> right \<Longrightarrow> left = 0 \<or> Compare C (fst (es ! (left * I))) target < 0 \<Longrightarrow>
    \<exists>l < restart_count I es. seek_binary it target left right = Some (Some l) \<and>
      (l = 0 \<or> Compare C (fst (es ! (l * I))) target < 0)"
proof (induction "right - left" arbitrary: left right rule: less_induct)
  case less
  show ?case
  proof (cases "left < right")
    case False
    then show ?thesis using less.prems by (subst seek_binary.simps) auto
  next
    case True
    define mid where "mid = (left + right + 1) div 2"
    have mid': "Suc (left + right) div 2 = mid" by (simp add: mid_def)
    have m: "left < mid" "mid \<le> right" using True by (auto simp: mid_def)
    then have mr: "mid < restart_count I es" "0 < mid" using less.prems by auto
    have sm: "small I es" "0 < I" using it by (simp_all add: iter_of_def small_def)
    have ne: "es \<noteq> []" using mr by (auto simp: restart_count_def)
    then have mi: "mid * I < length es" using restart_entry(2) [OF sm(2) mr(1)] by simp
    have d: "idata it = block_bytes I es" "irestarts it = length (body I es)" "icmp it = C" using it by (simp_all add: iter_of_def)
    have g: "GetRestartPoint it mid = Some (epos I es (mid * I))"
      using block_restart [OF sm(1) mr(1)] it mr by (simp add: GetRestartPoint_def iter_of_def)
    obtain z where z: "body I es = body I (take (mid * I) es) @ enc 0 (es ! (mid * I)) @ z"
      using body_split [OF mi, of I] by (auto simp: shared_at_def)
    let ?e = "es ! (mid * I)" and ?B = "length (body I es)"
    have lt: "?B < 2 ^ 32" using body_le [OF sm(1)] .
    have lpos: "epos I es (Suc (mid * I)) \<le> ?B" using epos_mono [of "Suc (mid * I)" "length es" es I] mi by (simp add: body_epos)
    have kl: "length (fst ?e) < 2 ^ 32" using key_length [OF mi, of I] lpos lt by linarith
    have tb: "take ?B (block_bytes I es) = body I (take (mid * I) es) @ enc 0 ?e @ z" using z by (simp add: block_bytes_def)
    have lb: "?B \<le> length (block_bytes I es)" by (simp add: block_bytes_def)
    let ?p = "epos I es (mid * I) + length (enc 0 ?e) - length (fst ?e) - length (snd ?e)"
    have dec: "DecodeEntry (idata it) (epos I es (mid * I)) ?B =
        Some (?p, 0, word_of_nat (length (fst ?e)), word_of_nat (length (snd ?e)))"
      using DecodeEntry_enc [OF tb lb lt _ kl] by (simp add: d epos_def)
    have u: "unat (word_of_nat (length (fst ?e)) :: u32) = length (fst ?e)" using kl by (simp add: unat_of_nat take_bit_nat_eq_self)
    have e: "length (enc 0 ?e) \<ge> 3 + length (fst ?e) + length (snd ?e)" using enc_length [of 0 ?e] by simp
    have in_data: "?p + length (fst ?e) \<le> length (idata it)"
    proof -
      have "epos I es (mid * I) + length (enc 0 ?e) \<le> ?B" using arg_cong [OF z, of length] by (simp add: epos_def)
      then show ?thesis using e lb by (simp add: d)
    qed
    have k: "take (length (fst ?e)) (drop ?p (idata it)) = fst ?e"
    proof -
      obtain h where h: "enc 0 ?e = h @ fst ?e @ snd ?e" "length h = length (enc 0 ?e) - length (fst ?e) - length (snd ?e)"
        using e by (simp add: enc_def)
      have "idata it = (body I (take (mid * I) es) @ h) @ fst ?e @ snd ?e @ z @ drop ?B (block_bytes I es)"
        unfolding d using append_take_drop_id [of ?B "block_bytes I es"] tb h(1) by (metis append.assoc)
      moreover have "?p = length (body I (take (mid * I) es) @ h)" using h(2) e by (simp add: epos_def)
      ultimately show ?thesis by simp
    qed
    have s: "seek_binary it target left right = (if Compare C (fst ?e) target < 0
        then seek_binary it target mid right else seek_binary it target left (mid - 1))"
      using True g dec in_data u k d
      by (subst seek_binary.simps) (simp add: Let_def mid')
    show ?thesis
    proof (cases "Compare C (fst ?e) target < 0")
      case c: True
      have "right - mid < right - left" using m True by linarith
      from less.hyps [OF this less.prems(1) m(2)] c show ?thesis using s by simp
    next
      case c: False
      have "mid - 1 - left < right - left" "mid - 1 < restart_count I es" "left \<le> mid - 1" using m mr by linarith+
      from less.hyps [OF this less.prems(3)] c show ?thesis using s by simp
    qed
  qed
qed

lemma Seek_ok:
  assumes it: "iter_of C I es it" and inc: "increasing C es"
  shows "\<exists>it'. Seek target it = Some it' \<and> at_entry C I es (seek_pos C target es) it'"
proof -
  have I: "0 < I" using it by (simp add: iter_of_def small_def)
  obtain l where l: "l < restart_count I es" "seek_binary it target 0 (num_restarts it - 1) = Some (Some l)"
      "l = 0 \<or> Compare C (fst (es ! (l * I))) target < 0"
    using seek_binary_ok [OF it, of "restart_count I es - 1" 0 target] it
    by (auto simp: restart_count_def iter_of_def)
  obtain it1 where 1: "SeekToRestartPoint l it = Some it1" "before C I es (l * I) it1"
    using restart_point_before [OF it l(1)] by blast
  have "\<forall>j < l * I. Compare C (fst (es ! j)) target < 0"
  proof (intro allI impI)
    fix j assume j: "j < l * I"
    then have "l \<noteq> 0" by (cases l) auto
    then have "es \<noteq> []" using l(1) by (auto simp: restart_count_def)
    then have "l * I < length es" using restart_entry(2) [OF I l(1)] by simp
    then show "Compare C (fst (es ! j)) target < 0" using increasing_below [OF inc] l(3) \<open>l \<noteq> 0\<close> j by auto
  qed
  from seek_linear_ok [OF 1(2) this] show ?thesis using l(2) 1(1) by (auto simp: Seek_def)
qed

end

section \<open>The iterator of a block keeps the contract of iterators\<close>

definition BlockIter :: "Iter Iterator" where
  "BlockIter = \<lparr>it_Valid = Valid, it_SeekToFirst = SeekToFirst, it_SeekToLast = SeekToLast, it_Seek = Seek,
     it_Next = (\<lambda>it. if Valid it then Next it else None), it_Prev = (\<lambda>it. if Valid it then Prev it else None),
     it_key = (\<lambda>it. if Valid it then Some (entry_key it) else None),
     it_value = (\<lambda>it. if Valid it then entry_value it else None), it_status = istatus\<rparr>"

lemma at_entry_Valid: "at_entry C I es i it \<Longrightarrow> Valid it \<longleftrightarrow> i < length es"
  using epos_less_iff [of i es "length es" I] by (auto simp: at_entry_def Valid_def iter_of_def body_epos)

lemma at_entry_value:
  assumes "at_entry C I es i it" "i < length es"
  shows "entry_value it = Some (snd (es ! i))"
proof -
  obtain z where z: "body I es = body I (take i es) @ enc (shared_at I es i) (es ! i) @ z" using body_split [OF assms(2)] by blast
  obtain h where h: "enc (shared_at I es i) (es ! i) = h @ snd (es ! i)" by (simp add: enc_def)
  have "epos I es (Suc i) - length (snd (es ! i)) = length (body I (take i es) @ h)"
    using assms(2) by (simp add: epos_def body_take_Suc h)
  moreover have "idata it = (body I (take i es) @ h) @ snd (es ! i) @ z @ drop (length (body I es)) (block_bytes I es)"
    using assms(1) z h by (simp add: at_entry_def iter_of_def block_bytes_def)
  ultimately show ?thesis using assms by (simp add: at_entry_def entry_value_def)
qed

lemma block_iterator:
  assumes "comparator C"
  shows "iterator BlockIter C es (at_entry C I es)"
proof (unfold_locales, goal_cases)
  case (1 i it) then show ?case by (simp add: at_entry_def)
next
  case (2 i it) then show ?case by (simp add: BlockIter_def at_entry_Valid)
next
  case (3 i it) then show ?case by (simp add: BlockIter_def at_entry_Valid) (simp add: entry_key_def at_entry_def)
next
  case (4 i it) then show ?case by (simp add: BlockIter_def at_entry_Valid at_entry_value)
next
  case (5 i it) then show ?case by (simp add: BlockIter_def at_entry_def iter_of_def)
next
  case (6 i it) then show ?case using SeekToFirst_ok [of C I es it] by (simp add: BlockIter_def at_entry_def)
next
  case (7 i it) then show ?case using SeekToLast_ok [of C I es it] by (simp add: BlockIter_def at_entry_def)
next
  case (8 i it target) then show ?case using comparator.Seek_ok [OF assms, of I es it target] by (simp add: BlockIter_def at_entry_def)
next
  case (9 i it) then show ?case using Next_ok [of C I es i it] by (simp add: BlockIter_def at_entry_Valid)
next
  case (10 i it) then show ?case using Prev_ok [of C I es i it] by (simp add: BlockIter_def at_entry_Valid)
qed

text \<open>What a block gives is the iterator of its class, or an empty iterator.\<close>

definition AnyBlockIter :: "(Status + Iter) Iterator" where
  "AnyBlockIter = dispatch EmptyIterator BlockIter"

lemma NewIterator_built:
  assumes "small I es"
  shows "\<exists>b it. new_Block (block_bytes I es) = Some b \<and> NewIterator C b = Some (Inr it) \<and> at_entry C I es (length es) it"
proof -
  have l: "4 \<le> length (block_bytes I es)" by (simp add: block_length)
  have r: "restart_count I es \<noteq> 0" by (simp add: restart_count_def)
  show ?thesis using new_Block_built [OF assms] block_count [OF assms] l r assms
    by (simp add: NewIterator_def new_Iter_def at_entry_def iter_of_def body_epos)
qed

interpretation bytewise_block: iterator BlockIter BytewiseComparator es "at_entry BytewiseComparator I es" for I es
  by (rule block_iterator) (rule bytewise.comparator_axioms)

end
