(* ===== verification/Two_Level.thy ===== *)
theory Two_Level
  imports Iterator "HOL-Library.Monad_Syntax"
begin

text \<open>
  The two-level iterator (table/two_level_iterator.h, table/two_level_iterator.cc): an iterator over
  an index whose values are turned into iterators over blocks.  The object behind the argument of
  the block function is passed through, and a function deletes an iterator of a block, which may
  change that object too.
\<close>

record ('i, 'd, 'e) TwoLevelIterator =
  arg :: 'e
  status :: Status
  index_iter :: "'i IteratorWrapper"
  data_iter :: "'d IteratorWrapper"
  data_block_handle :: bytes

record ('i, 'd, 'e) TwoLevel =
  index_class :: "'i Iterator"
  data_class :: "'d Iterator"
  block_function :: "bytes \<Rightarrow> 'e \<Rightarrow> ('d \<times> 'e) option"
  delete_iter :: "'d \<Rightarrow> 'e \<Rightarrow> 'e option"

definition new_TwoLevelIterator :: "('i, 'd, 'e) TwoLevel \<Rightarrow> 'i \<Rightarrow> 'e \<Rightarrow> ('i, 'd, 'e) TwoLevelIterator option" where
  "new_TwoLevelIterator T i e = do {
     w \<leftarrow> Set (index_class T) (Some i) new_IteratorWrapper;
     Some \<lparr>arg = e, status = OK, index_iter = w, data_iter = new_IteratorWrapper, data_block_handle = []\<rparr> }"

definition SaveError :: "Status \<Rightarrow> ('i, 'd, 'e) TwoLevelIterator \<Rightarrow> ('i, 'd, 'e) TwoLevelIterator" where
  "SaveError s t = (if is_ok (status t) \<and> \<not> is_ok s then t\<lparr>status := s\<rparr> else t)"

text \<open>The old iterator is deleted when the wrapper is set.\<close>

definition SetDataIterator ::
  "('i, 'd, 'e) TwoLevel \<Rightarrow> 'd option \<Rightarrow> ('i, 'd, 'e) TwoLevelIterator \<Rightarrow> ('i, 'd, 'e) TwoLevelIterator option" where
  "SetDataIterator T iter t = do {
     t \<leftarrow> (case w_iter (data_iter t) of
       None \<Rightarrow> Some t
     | Some d \<Rightarrow> do {
         s \<leftarrow> wstatus (data_class T) (data_iter t);
         let t = SaveError s t;
         e \<leftarrow> delete_iter T d (arg t);
         Some (t\<lparr>arg := e\<rparr>) });
     w \<leftarrow> Set (data_class T) iter (data_iter t);
     Some (t\<lparr>data_iter := w\<rparr>) }"

definition InitDataBlock ::
  "('i, 'd, 'e) TwoLevel \<Rightarrow> ('i, 'd, 'e) TwoLevelIterator \<Rightarrow> ('i, 'd, 'e) TwoLevelIterator option" where
  "InitDataBlock T t =
     (if \<not> w_valid (index_iter t) then SetDataIterator T None t
      else do {
        handle \<leftarrow> wvalue (index_class T) (index_iter t);
        if w_iter (data_iter t) \<noteq> None \<and> slice_compare handle (data_block_handle t) = 0 then Some t
        else do {
          (d, e) \<leftarrow> block_function T handle (arg t);
          SetDataIterator T (Some d) (t\<lparr>arg := e, data_block_handle := handle\<rparr>) } })"

text \<open>A move of the iterator of the block, if there is one.\<close>

definition on_data :: "('d IteratorWrapper \<Rightarrow> 'd IteratorWrapper option) \<Rightarrow>
    ('i, 'd, 'e) TwoLevelIterator \<Rightarrow> ('i, 'd, 'e) TwoLevelIterator option" where
  "on_data f t = (if w_iter (data_iter t) = None then Some t
     else map_option (\<lambda>w. t\<lparr>data_iter := w\<rparr>) (f (data_iter t)))"

definition on_index :: "('i IteratorWrapper \<Rightarrow> 'i IteratorWrapper option) \<Rightarrow>
    ('i, 'd, 'e) TwoLevelIterator \<Rightarrow> ('i, 'd, 'e) TwoLevelIterator option" where
  "on_index f t = map_option (\<lambda>w. t\<lparr>index_iter := w\<rparr>) (f (index_iter t))"

text \<open>The loops over blocks without entries; None when they do not end.\<close>

partial_function (option) SkipEmptyDataBlocksForward ::
  "('i, 'd, 'e) TwoLevel \<Rightarrow> ('i, 'd, 'e) TwoLevelIterator \<Rightarrow> ('i, 'd, 'e) TwoLevelIterator option" where
  "SkipEmptyDataBlocksForward T t =
     (if w_iter (data_iter t) = None \<or> \<not> w_valid (data_iter t) then
        (if \<not> w_valid (index_iter t) then SetDataIterator T None t
         else do {
           t \<leftarrow> on_index (wNext (index_class T)) t;
           t \<leftarrow> InitDataBlock T t;
           t \<leftarrow> on_data (wSeekToFirst (data_class T)) t;
           SkipEmptyDataBlocksForward T t })
      else Some t)"

partial_function (option) SkipEmptyDataBlocksBackward ::
  "('i, 'd, 'e) TwoLevel \<Rightarrow> ('i, 'd, 'e) TwoLevelIterator \<Rightarrow> ('i, 'd, 'e) TwoLevelIterator option" where
  "SkipEmptyDataBlocksBackward T t =
     (if w_iter (data_iter t) = None \<or> \<not> w_valid (data_iter t) then
        (if \<not> w_valid (index_iter t) then SetDataIterator T None t
         else do {
           t \<leftarrow> on_index (wPrev (index_class T)) t;
           t \<leftarrow> InitDataBlock T t;
           t \<leftarrow> on_data (wSeekToLast (data_class T)) t;
           SkipEmptyDataBlocksBackward T t })
      else Some t)"

definition Two_Seek ::
  "('i, 'd, 'e) TwoLevel \<Rightarrow> bytes \<Rightarrow> ('i, 'd, 'e) TwoLevelIterator \<Rightarrow> ('i, 'd, 'e) TwoLevelIterator option" where
  "Two_Seek T target t = do {
     t \<leftarrow> on_index (wSeek (index_class T) target) t;
     t \<leftarrow> InitDataBlock T t;
     t \<leftarrow> on_data (wSeek (data_class T) target) t;
     SkipEmptyDataBlocksForward T t }"

definition Two_SeekToFirst ::
  "('i, 'd, 'e) TwoLevel \<Rightarrow> ('i, 'd, 'e) TwoLevelIterator \<Rightarrow> ('i, 'd, 'e) TwoLevelIterator option" where
  "Two_SeekToFirst T t = do {
     t \<leftarrow> on_index (wSeekToFirst (index_class T)) t;
     t \<leftarrow> InitDataBlock T t;
     t \<leftarrow> on_data (wSeekToFirst (data_class T)) t;
     SkipEmptyDataBlocksForward T t }"

definition Two_SeekToLast ::
  "('i, 'd, 'e) TwoLevel \<Rightarrow> ('i, 'd, 'e) TwoLevelIterator \<Rightarrow> ('i, 'd, 'e) TwoLevelIterator option" where
  "Two_SeekToLast T t = do {
     t \<leftarrow> on_index (wSeekToLast (index_class T)) t;
     t \<leftarrow> InitDataBlock T t;
     t \<leftarrow> on_data (wSeekToLast (data_class T)) t;
     SkipEmptyDataBlocksBackward T t }"

definition Two_Next ::
  "('i, 'd, 'e) TwoLevel \<Rightarrow> ('i, 'd, 'e) TwoLevelIterator \<Rightarrow> ('i, 'd, 'e) TwoLevelIterator option" where
  "Two_Next T t =
     (if w_valid (data_iter t) then do {
        w \<leftarrow> wNext (data_class T) (data_iter t);
        SkipEmptyDataBlocksForward T (t\<lparr>data_iter := w\<rparr>) }
      else None)"

definition Two_Prev ::
  "('i, 'd, 'e) TwoLevel \<Rightarrow> ('i, 'd, 'e) TwoLevelIterator \<Rightarrow> ('i, 'd, 'e) TwoLevelIterator option" where
  "Two_Prev T t =
     (if w_valid (data_iter t) then do {
        w \<leftarrow> wPrev (data_class T) (data_iter t);
        SkipEmptyDataBlocksBackward T (t\<lparr>data_iter := w\<rparr>) }
      else None)"

definition Two_status :: "('i, 'd, 'e) TwoLevel \<Rightarrow> ('i, 'd, 'e) TwoLevelIterator \<Rightarrow> Status" where
  "Two_status T t =
     (case wstatus (index_class T) (index_iter t) of
        Some s \<Rightarrow> if \<not> is_ok s then s
          else (case wstatus (data_class T) (data_iter t) of
            Some s \<Rightarrow> if \<not> is_ok s then s else status t
          | None \<Rightarrow> status t)
      | None \<Rightarrow> status t)"

definition TwoLevelIter :: "('i, 'd, 'e) TwoLevel \<Rightarrow> ('i, 'd, 'e) TwoLevelIterator Iterator" where
  "TwoLevelIter T =
     \<lparr>it_Valid = (\<lambda>t. w_valid (data_iter t)), it_SeekToFirst = Two_SeekToFirst T, it_SeekToLast = Two_SeekToLast T,
      it_Seek = Two_Seek T, it_Next = Two_Next T, it_Prev = Two_Prev T,
      it_key = (\<lambda>t. wkey (data_iter t)), it_value = (\<lambda>t. wvalue (data_class T) (data_iter t)),
      it_status = Two_status T\<rparr>"

text \<open>
  The two-level iterator runs over the entries of all blocks in the order of the index, whatever
  the iterators of the index and of the blocks are, as long as they keep the contract of iterators.
\<close>

definition handles_of :: "entry list \<Rightarrow> bytes set" where
  "handles_of ix = snd ` set ix"

locale two_level = comparator C + index: iterator "index_class T" C ix ipos
  for C :: Comparator and T :: "('i, 'd, 'e) TwoLevel" and ix :: "entry list" and ipos :: "nat \<Rightarrow> 'i \<Rightarrow> bool" +
  fixes blk :: "bytes \<Rightarrow> entry list" and dpos :: "bytes \<Rightarrow> 'r \<Rightarrow> nat \<Rightarrow> 'd \<Rightarrow> bool"
    and good :: "'r list \<Rightarrow> 'e \<Rightarrow> bool"
  assumes data: "h \<in> handles_of ix \<Longrightarrow> iterator (data_class T) C (blk h) (dpos h r)"
    and block: "good rs e \<Longrightarrow> h \<in> handles_of ix \<Longrightarrow>
      \<exists>d e' i r. block_function T h e = Some (d, e') \<and> dpos h r i d \<and> good (r # rs) e'"
    and delete: "good (r # rs) e \<Longrightarrow> h \<in> handles_of ix \<Longrightarrow> dpos h r i d \<Longrightarrow> \<exists>e'. delete_iter T d e = Some e' \<and> good rs e'"
    and swap: "good (r # r' # rs) e \<Longrightarrow> good (r' # r # rs) e"
    and index_increasing: "increasing C ix"
    and index_above: "j < length ix \<Longrightarrow> x \<in> set (blk (snd (ix ! j))) \<Longrightarrow> Compare C (fst x) (fst (ix ! j)) \<le> 0"
    and index_below: "j < k \<Longrightarrow> k < length ix \<Longrightarrow> x \<in> set (blk (snd (ix ! k))) \<Longrightarrow> Compare C (fst (ix ! j)) (fst x) < 0"
begin

definition block_at :: "nat \<Rightarrow> entry list" where
  "block_at j = blk (snd (ix ! j))"

definition start :: "nat \<Rightarrow> nat" where
  "start j = length (concat (map block_at [0..<j]))"

definition es :: "entry list" where
  "es = concat (map (blk \<circ> snd) ix)"

lemma es_blocks: "es = concat (map block_at [0..<length ix])"
proof -
  have "map (blk \<circ> snd) ix = map block_at [0..<length ix]" by (rule nth_equalityI) (simp_all add: block_at_def)
  then show ?thesis by (simp add: es_def)
qed

lemma start_Suc [simp]: "start (Suc j) = start j + length (block_at j)"
  by (simp add: start_def)

lemma start_0 [simp]: "start 0 = 0"
  by (simp add: start_def)

lemma start_all: "start (length ix) = length es"
  by (simp add: start_def es_blocks)

lemma start_mono: "j \<le> k \<Longrightarrow> start j \<le> start k"
  by (induction k) (auto simp: le_Suc_eq)

lemma start_le: "j \<le> length ix \<Longrightarrow> start j \<le> length es"
  using start_mono [of j "length ix"] by (simp add: start_all)

text \<open>Every position is an entry of a block, and the other way round.\<close>

lemma entry_of: "q < start n \<Longrightarrow> \<exists>j i. j < n \<and> i < length (block_at j) \<and> q = start j + i \<and>
    concat (map block_at [0..<n]) ! q = block_at j ! i"
proof (induction n)
  case (Suc n)
  show ?case
  proof (cases "q < start n")
    case True
    then obtain j i where "j < n" "i < length (block_at j)" "q = start j + i" "concat (map block_at [0..<n]) ! q = block_at j ! i"
      using Suc.IH by blast
    then show ?thesis using True by (intro exI [of _ j] exI [of _ i]) (simp add: nth_append start_def)
  next
    case False
    then show ?thesis using Suc.prems by (intro exI [of _ n] exI [of _ "q - start n"]) (simp add: nth_append start_def)
  qed
qed simp

lemma es_nth: "j < length ix \<Longrightarrow> i < length (block_at j) \<Longrightarrow> start j + i < length es \<and> es ! (start j + i) = block_at j ! i"
proof -
  assume j: "j < length ix" and i: "i < length (block_at j)"
  have l: "start j + i < start (Suc j)" "start (Suc j) \<le> length es" using i j start_le [of "Suc j"] by simp_all
  have "[0..<length ix] = [0..<Suc j] @ [Suc j..<length ix]"
    using j by (metis Suc_leI le_add_diff_inverse upt_add_eq_append zero_le)
  then have "es = concat (map block_at [0..<j]) @ block_at j @ concat (map block_at [Suc j..<length ix])"
    by (simp add: es_blocks)
  then have "es ! (start j + i) = block_at j ! i" using i by (simp add: nth_append start_def)
  then show ?thesis using l by simp
qed

lemma es_entry: "q < length es \<Longrightarrow> \<exists>j i. j < length ix \<and> i < length (block_at j) \<and> q = start j + i \<and> es ! q = block_at j ! i"
  using entry_of [of q "length ix"] by (simp add: start_all es_blocks)

lemma start_less: "start j + i < start k + l \<Longrightarrow> i < length (block_at j) \<Longrightarrow> l \<le> length (block_at k) \<Longrightarrow> j < k \<or> j = k \<and> i < l"
proof -
  assume a: "start j + i < start k + l" "i < length (block_at j)" "l \<le> length (block_at k)"
  have "\<not> k < j" using start_mono [of "Suc k" j] a by auto
  then show ?thesis using a(1) by (cases "j = k") auto
qed

section \<open>States\<close>

abbreviation iwpos :: "nat \<Rightarrow> 'i IteratorWrapper \<Rightarrow> bool" where
  "iwpos \<equiv> index.wpos"

definition dwpos :: "bytes \<Rightarrow> 'r \<Rightarrow> nat \<Rightarrow> 'd IteratorWrapper \<Rightarrow> bool" where
  "dwpos h r = iterator.wpos (blk h) (dpos h r)"

definition handle :: "nat \<Rightarrow> bytes" where
  "handle j = snd (ix ! j)"

lemma handle_in: "j < length ix \<Longrightarrow> handle j \<in> handles_of ix"
  by (simp add: handle_def handles_of_def)

lemma blk_handle: "blk (handle j) = block_at j"
  by (simp add: handle_def block_at_def)

text \<open>The index is at block \<open>j\<close>; there may be an iterator of some block.\<close>

definition has_data :: "('i, 'd, 'e) TwoLevelIterator \<Rightarrow> bool" where
  "has_data t \<longleftrightarrow> w_iter (data_iter t) = None \<and> \<not> w_valid (data_iter t) \<and> good [] (arg t) \<or>
     (\<exists>r i. data_block_handle t \<in> handles_of ix \<and> dwpos (data_block_handle t) r i (data_iter t) \<and> good [r] (arg t))"

definition at_index :: "nat \<Rightarrow> ('i, 'd, 'e) TwoLevelIterator \<Rightarrow> bool" where
  "at_index j t \<longleftrightarrow> status t = OK \<and> iwpos j (index_iter t) \<and> has_data t"

text \<open>The iterator is that of block \<open>j\<close>, at entry \<open>i\<close>; there is none behind the last block.\<close>

definition at_block :: "nat \<Rightarrow> nat \<Rightarrow> ('i, 'd, 'e) TwoLevelIterator \<Rightarrow> bool" where
  "at_block j i t \<longleftrightarrow> at_index j t \<and>
     (if j < length ix then data_block_handle t = handle j \<and> (\<exists>r. dwpos (handle j) r i (data_iter t) \<and> good [r] (arg t))
      else i = 0 \<and> w_iter (data_iter t) = None \<and> \<not> w_valid (data_iter t))"

definition tpos :: "nat \<Rightarrow> ('i, 'd, 'e) TwoLevelIterator \<Rightarrow> bool" where
  "tpos p t \<longleftrightarrow> (\<exists>j i. j < length ix \<and> i < length (block_at j) \<and> at_block j i t \<and> p = start j + i) \<or>
     p = length es \<and> (\<exists>j. at_index j t) \<and> w_iter (data_iter t) = None \<and> \<not> w_valid (data_iter t)"

lemma dwpos_simps:
  assumes "h \<in> handles_of ix" "dwpos h r i w"
  shows "w_valid w = (i < length (blk h))" "i < length (blk h) \<Longrightarrow> wkey w = Some (fst (blk h ! i))"
    "i < length (blk h) \<Longrightarrow> wvalue (data_class T) w = Some (snd (blk h ! i))"
    "wstatus (data_class T) w = Some OK" "i \<le> length (blk h)" "w_iter w \<noteq> None"
  using iterator.wpos_simps [OF data [OF assms(1)], OF assms(2) [unfolded dwpos_def]] by simp_all

text \<open>Setting another iterator deletes the old one.\<close>

definition settled :: "'r list \<Rightarrow> nat \<Rightarrow> ('i, 'd, 'e) TwoLevelIterator \<Rightarrow> bool" where
  "settled rs j t \<longleftrightarrow> status t = OK \<and> iwpos j (index_iter t) \<and>
     (w_iter (data_iter t) = None \<and> good rs (arg t) \<or>
      (\<exists>h r i. h \<in> handles_of ix \<and> dwpos h r i (data_iter t) \<and> good (r # rs) (arg t)))"

lemma at_index_settled: "at_index j t \<Longrightarrow> settled [] j t"
  by (auto simp: at_index_def has_data_def settled_def)

lemma delete_old:
  assumes "settled rs j t"
  shows "\<exists>e. good rs e \<and> SetDataIterator T iter t = map_option (\<lambda>w. t\<lparr>arg := e, data_iter := w\<rparr>) (Set (data_class T) iter (data_iter t))"
proof (cases "w_iter (data_iter t)")
  case None
  then have "good rs (arg t)" using assms by (auto simp: settled_def dest: dwpos_simps(6))
  then show ?thesis using assms None
    by (intro exI [of _ "arg t"]) (auto simp: SetDataIterator_def settled_def map_option_case split: option.split bind_splits)
next
  case (Some d)
  then obtain h r i where h: "h \<in> handles_of ix" "dwpos h r i (data_iter t)" "good (r # rs) (arg t)" using assms by (auto simp: settled_def)
  then have d: "dpos h r i d" "wstatus (data_class T) (data_iter t) = Some OK"
    using iterator.wpos_def [OF data [OF h(1)]] dwpos_simps(4) [OF h(1,2)] Some by (auto simp: dwpos_def)
  obtain e where e: "delete_iter T d (arg t) = Some e" "good rs e"
    using delete [OF h(3,1) d(1)] by blast
  then show ?thesis using Some d(2) assms
    by (intro exI [of _ e]) (auto simp: SetDataIterator_def SaveError_def settled_def map_option_case split: option.split bind_splits)
qed

lemma SetDataIterator_none:
  assumes "settled [] j t"
  shows "\<exists>t'. SetDataIterator T None t = Some t' \<and> at_index j t' \<and> w_iter (data_iter t') = None \<and> \<not> w_valid (data_iter t')"
  using delete_old [OF assms, of None] assms by (auto simp: Set_def at_index_def has_data_def settled_def)

lemma SetDataIterator_some:
  assumes "settled [r] j t" "h \<in> handles_of ix" "dpos h r i d"
  shows "\<exists>t'. SetDataIterator T (Some d) t = Some t' \<and> status t' = OK \<and> iwpos j (index_iter t') \<and>
    data_block_handle t' = data_block_handle t \<and> dwpos h r i (data_iter t') \<and> good [r] (arg t')"
proof -
  obtain w where "Set (data_class T) (Some d) (data_iter t) = Some w" "dwpos h r i w"
    using iterator.Set_ok [OF data [OF assms(2)] assms(3), of "data_iter t"] by (auto simp: dwpos_def)
  then show ?thesis using delete_old [OF assms(1), of "Some d"] assms by (auto simp: settled_def)
qed

lemma InitDataBlock_ok:
  assumes "at_index j t"
  shows "\<exists>t' i. InitDataBlock T t = Some t' \<and> at_block j i t'"
proof (cases "j < length ix")
  case False
  then have "\<not> w_valid (index_iter t)" using assms index.wpos_simps(1) by (auto simp: at_index_def has_data_def)
  then show ?thesis using SetDataIterator_none [OF at_index_settled [OF assms]] False by (simp add: InitDataBlock_def at_block_def)
next
  case True
  have v: "w_valid (index_iter t)" "wvalue (index_class T) (index_iter t) = Some (handle j)"
    using True assms index.wpos_simps [of j "index_iter t"] by (auto simp: at_index_def has_data_def handle_def)
  show ?thesis
  proof (cases "w_iter (data_iter t) \<noteq> None \<and> handle j = data_block_handle t")
    case same: True
    then obtain i r where "dwpos (data_block_handle t) r i (data_iter t)" "good [r] (arg t)" using assms by (auto simp: at_index_def has_data_def)
    then show ?thesis using same v True assms by (auto simp: InitDataBlock_def slice_compare_zero at_block_def)
  next
    case False
    obtain d e' i r where b: "block_function T (handle j) (arg t) = Some (d, e')" "dpos (handle j) r i d"
        "settled [r] j (t\<lparr>arg := e', data_block_handle := handle j\<rparr>)"
    proof (cases "w_iter (data_iter t)")
      case None
      then have "good [] (arg t)" using assms by (auto simp: at_index_def has_data_def dest: dwpos_simps(6))
      from block [OF this handle_in [OF True]] show ?thesis using that None assms by (fastforce simp: settled_def at_index_def has_data_def)
    next
      case (Some d0)
      then obtain h r0 i where h: "h \<in> handles_of ix" "dwpos h r0 i (data_iter t)" "good [r0] (arg t)"
        using assms by (auto simp: at_index_def has_data_def)
      obtain d e' i' r where "block_function T (handle j) (arg t) = Some (d, e')" "dpos (handle j) r i' d" "good (r # r0 # []) e'"
        using block [OF h(3) handle_in [OF True]] by blast
      then show ?thesis using that h(1,2) swap assms by (fastforce simp: settled_def at_index_def has_data_def)
    qed
    let ?t = "t\<lparr>arg := e', data_block_handle := handle j\<rparr>"
    from SetDataIterator_some [OF b(3) handle_in [OF True] b(2)]
    obtain t' where t': "SetDataIterator T (Some d) ?t = Some t'" "status t' = OK" "iwpos j (index_iter t')"
        "data_block_handle t' = handle j" "dwpos (handle j) r i (data_iter t')" "good [r] (arg t')" by auto
    have "at_block j i t'" using t'(2-6) True handle_in [OF True] by (auto simp: at_block_def at_index_def has_data_def)
    then show ?thesis using t'(1) v False b(1) by (auto simp: InitDataBlock_def slice_compare_zero)
  qed
qed

lemma on_index_ok:
  assumes "at_index j t" "\<And>w. iwpos j w \<Longrightarrow> \<exists>w'. f w = Some w' \<and> iwpos k w'"
  shows "\<exists>t'. on_index f t = Some t' \<and> at_index k t'"
  using assms(1) assms(2) [of "index_iter t"] by (auto simp: at_index_def on_index_def) (simp add: has_data_def)

lemma on_data_ok:
  assumes "at_block j i t" "j < length ix" "\<And>w r. dwpos (handle j) r i w \<Longrightarrow> \<exists>w'. f w = Some w' \<and> dwpos (handle j) r l w'"
  shows "\<exists>t'. on_data f t = Some t' \<and> at_block j l t'"
proof -
  obtain r where r: "dwpos (handle j) r i (data_iter t)" "good [r] (arg t)" "data_block_handle t = handle j"
    using assms(1,2) by (auto simp: at_block_def)
  obtain w where "f (data_iter t) = Some w" "dwpos (handle j) r l w" using assms(3) [OF r(1)] by blast
  then show ?thesis using assms(1,2) r dwpos_simps(6) [OF handle_in [OF assms(2)] r(1)]
    by (auto simp: at_block_def at_index_def has_data_def on_data_def handle_in)
qed

lemma on_data_none: "at_block j i t \<Longrightarrow> \<not> j < length ix \<Longrightarrow> on_data f t = Some t"
  by (simp add: at_block_def on_data_def)

lemma move_to_block:
  assumes "at_index j t"
    and f: "\<forall>w i r. j < length ix \<longrightarrow> dwpos (handle j) r i w \<longrightarrow> (\<exists>w'. f w = Some w' \<and> dwpos (handle j) r l w')"
  shows "\<exists>t'. (InitDataBlock T t \<bind> on_data f) = Some t' \<and> at_block j (if j < length ix then l else 0) t'"
proof -
  obtain t1 i where 1: "InitDataBlock T t = Some t1" "at_block j i t1" using InitDataBlock_ok [OF assms(1)] by blast
  show ?thesis
  proof (cases "j < length ix")
    case True
    then show ?thesis using on_data_ok [OF 1(2) True, of f l] f True 1(1) by auto
  next
    case False
    then show ?thesis using on_data_none [OF 1(2) False] 1 by (auto simp: at_block_def)
  qed
qed

section \<open>The loops\<close>

lemma at_block_valid:
  assumes "at_block j i t" "j < length ix"
  shows "w_valid (data_iter t) = (i < length (block_at j))" "w_iter (data_iter t) \<noteq> None" "i \<le> length (block_at j)"
proof -
  obtain r where "dwpos (handle j) r i (data_iter t)" using assms by (auto simp: at_block_def)
  from dwpos_simps(1,5,6) [OF handle_in [OF assms(2)] this]
  show "w_valid (data_iter t) = (i < length (block_at j))" "w_iter (data_iter t) \<noteq> None" "i \<le> length (block_at j)"
    by (simp_all add: blk_handle)
qed

lemma at_block_index: "at_block j i t \<Longrightarrow> at_index j t"
  by (simp add: at_block_def)

lemma at_index_valid: "at_index j t \<Longrightarrow> w_valid (index_iter t) = (j < length ix)"
  using index.wpos_simps(1) by (simp add: at_index_def has_data_def)

lemma at_index_le: "at_index j t \<Longrightarrow> j \<le> length ix"
  using index.wpos_simps(5) [of j "index_iter t"] by (simp add: at_index_def has_data_def)

text \<open>A state at an entry is a position; behind the last block the iterator of the block is dropped.\<close>

lemma tposI: "at_block j i t \<Longrightarrow> j < length ix \<Longrightarrow> i < length (block_at j) \<Longrightarrow> tpos (start j + i) t"
  by (auto simp: tpos_def)

lemma drop_data:
  assumes "at_index j t"
  shows "\<exists>t'. SetDataIterator T None t = Some t' \<and> tpos (length es) t'"
  using SetDataIterator_none [OF at_index_settled [OF assms]] unfolding tpos_def by blast

lemma SkipForward_ok:
  "at_block j i t \<Longrightarrow> \<exists>t'. SkipEmptyDataBlocksForward T t = Some t' \<and> tpos (start j + i) t'"
proof (induction "length ix - j" arbitrary: j i t)
  case 0
  then have j: "j = length ix" using at_index_le [OF at_block_index [OF "0.prems"]] by simp
  then have "\<not> w_valid (index_iter t)" "i = 0" "w_iter (data_iter t) = None"
    using 0 at_index_valid [OF at_block_index [OF "0.prems"]] by (auto simp: at_block_def)
  then show ?case using drop_data [OF at_block_index [OF "0.prems"]] j start_all
    by (subst SkipEmptyDataBlocksForward.simps) simp
next
  case (Suc n)
  then have j: "j < length ix" by simp
  note v = at_block_valid [OF Suc.prems j]
  show ?case
  proof (cases "i < length (block_at j)")
    case True
    then show ?thesis using v tposI [OF Suc.prems j] by (subst SkipEmptyDataBlocksForward.simps) auto
  next
    case False
    then have i: "i = length (block_at j)" using v(3) by simp
    obtain t1 where 1: "on_index (wNext (index_class T)) t = Some t1" "at_index (Suc j) t1"
      using on_index_ok [OF at_block_index [OF Suc.prems], of "wNext (index_class T)" "Suc j"] index.wNext_ok [OF _ j] by blast
    have "\<forall>w i r. Suc j < length ix \<longrightarrow> dwpos (handle (Suc j)) r i w \<longrightarrow> (\<exists>w'. wSeekToFirst (data_class T) w = Some w' \<and> dwpos (handle (Suc j)) r 0 w')"
      using iterator.wSeekToFirst_ok [OF data [OF handle_in]] by (simp add: dwpos_def blk_handle)
    from move_to_block [OF 1(2) this]
    obtain t2 where 2: "(InitDataBlock T t1 \<bind> on_data (wSeekToFirst (data_class T))) = Some t2" "at_block (Suc j) 0 t2" by auto
    have "n = length ix - Suc j" using Suc.hyps(2) by simp
    from Suc.hyps(1) [OF this 2(2)] obtain t3 where 3: "SkipEmptyDataBlocksForward T t2 = Some t3" "tpos (start (Suc j) + 0) t3"
      by blast
    have "w_valid (index_iter t)" using at_index_valid [OF at_block_index [OF Suc.prems]] j by simp
    then show ?thesis using v(1) False 1(1) 2(1) 3 i
      by (subst SkipEmptyDataBlocksForward.simps) (auto split: bind_splits)
  qed
qed

text \<open>The last entry of the blocks up to \<open>j\<close>; behind the last one if there is none.\<close>

definition before_pos :: "nat \<Rightarrow> nat" where
  "before_pos j = (if start j = 0 then length es else start j - 1)"

lemma SkipBackward_ok:
  "at_block j i t \<Longrightarrow> j < length ix \<Longrightarrow> \<exists>t'. SkipEmptyDataBlocksBackward T t = Some t' \<and>
     tpos (if i < length (block_at j) then start j + i else before_pos j) t'"
proof (induction j arbitrary: i t)
  case 0
  note v = at_block_valid [OF "0.prems"]
  show ?case
  proof (cases "i < length (block_at 0)")
    case True
    then show ?thesis using v tposI [OF "0.prems"] by (subst SkipEmptyDataBlocksBackward.simps) auto
  next
    case False
    obtain t1 where 1: "on_index (wPrev (index_class T)) t = Some t1" "at_index (length ix) t1"
      using on_index_ok [OF at_block_index [OF "0.prems"(1)], of "wPrev (index_class T)" "length ix"]
        index.wPrev_ok [OF _ "0.prems"(2)] by auto
    from move_to_block [OF 1(2), of "wSeekToLast (data_class T)" 0]
    obtain t2 where 2: "(InitDataBlock T t1 \<bind> on_data (wSeekToLast (data_class T))) = Some t2" "at_block (length ix) 0 t2" by auto
    obtain t3 where 3: "SetDataIterator T None t2 = Some t3" "tpos (length es) t3" using drop_data [OF at_block_index [OF 2(2)]] by blast
    have "SkipEmptyDataBlocksBackward T t2 = Some t3"
      using 2(2) 3(1) at_index_valid [OF at_block_index [OF 2(2)]]
      by (subst SkipEmptyDataBlocksBackward.simps) (simp add: at_block_def)
    moreover have "w_valid (index_iter t)" using at_index_valid [OF at_block_index [OF "0.prems"(1)]] "0.prems"(2) by simp
    ultimately show ?thesis using v(1) False 1(1) 2(1) 3(2)
      by (subst SkipEmptyDataBlocksBackward.simps) (auto simp: before_pos_def split: bind_splits)
  qed
next
  case (Suc j)
  note v = at_block_valid [OF Suc.prems]
  show ?case
  proof (cases "i < length (block_at (Suc j))")
    case True
    then show ?thesis using v tposI [OF Suc.prems] by (subst SkipEmptyDataBlocksBackward.simps) auto
  next
    case False
    have j: "j < length ix" using Suc.prems(2) by simp
    obtain t1 where 1: "on_index (wPrev (index_class T)) t = Some t1" "at_index j t1"
      using on_index_ok [OF at_block_index [OF Suc.prems(1)], of "wPrev (index_class T)" j]
        index.wPrev_ok [OF _ Suc.prems(2)] by auto
    have "\<forall>w i r. j < length ix \<longrightarrow> dwpos (handle j) r i w \<longrightarrow> (\<exists>w'. wSeekToLast (data_class T) w = Some w' \<and> dwpos (handle j) r (length (block_at j) - 1) w')"
      using iterator.wSeekToLast_ok [OF data [OF handle_in]] by (simp add: dwpos_def blk_handle)
    from move_to_block [OF 1(2) this] j
    obtain t2 where 2: "(InitDataBlock T t1 \<bind> on_data (wSeekToLast (data_class T))) = Some t2" "at_block j (length (block_at j) - 1) t2" by auto
    from Suc.IH [OF 2(2) j] obtain t3 where 3: "SkipEmptyDataBlocksBackward T t2 = Some t3" "tpos (before_pos (Suc j)) t3"
      by (cases "block_at j") (auto simp: before_pos_def split: if_splits)
    have "w_valid (index_iter t)" using at_index_valid [OF at_block_index [OF Suc.prems(1)]] Suc.prems(2) by simp
    then show ?thesis using v(1) False 1(1) 2(1) 3
      by (subst SkipEmptyDataBlocksBackward.simps) (auto split: bind_splits)
  qed
qed

section \<open>Moves\<close>

lemma tpos_index: "tpos p t \<Longrightarrow> \<exists>j. at_index j t"
  using at_block_index by (auto simp: tpos_def)

lemma Two_SeekToFirst_ok:
  assumes "tpos p t"
  shows "\<exists>t'. Two_SeekToFirst T t = Some t' \<and> tpos 0 t'"
proof -
  obtain j where j: "at_index j t" using tpos_index [OF assms] by blast
  obtain t1 where 1: "on_index (wSeekToFirst (index_class T)) t = Some t1" "at_index 0 t1"
    using on_index_ok [OF j, of "wSeekToFirst (index_class T)" 0] index.wSeekToFirst_ok by blast
    have "\<forall>w i r. 0 < length ix \<longrightarrow> dwpos (handle 0) r i w \<longrightarrow> (\<exists>w'. wSeekToFirst (data_class T) w = Some w' \<and> dwpos (handle 0) r 0 w')"
      using iterator.wSeekToFirst_ok [OF data [OF handle_in]] by (simp add: dwpos_def blk_handle)
  from move_to_block [OF 1(2) this]
  obtain t2 where 2: "(InitDataBlock T t1 \<bind> on_data (wSeekToFirst (data_class T))) = Some t2" "at_block 0 0 t2" by auto
  show ?thesis using SkipForward_ok [OF 2(2)] 1(1) 2(1) by (auto simp: Two_SeekToFirst_def split: bind_splits)
qed

lemma Two_SeekToLast_ok:
  assumes "tpos p t"
  shows "\<exists>t'. Two_SeekToLast T t = Some t' \<and> tpos (length es - 1) t'"
proof -
  obtain j where j: "at_index j t" using tpos_index [OF assms] by blast
  let ?n = "length ix - 1"
  obtain t1 where 1: "on_index (wSeekToLast (index_class T)) t = Some t1" "at_index ?n t1"
    using on_index_ok [OF j, of "wSeekToLast (index_class T)" ?n] index.wSeekToLast_ok by blast
    have "\<forall>w i r. ?n < length ix \<longrightarrow> dwpos (handle ?n) r i w \<longrightarrow> (\<exists>w'. wSeekToLast (data_class T) w = Some w' \<and> dwpos (handle ?n) r (length (block_at ?n) - 1) w')"
      using iterator.wSeekToLast_ok [OF data [OF handle_in]] by (simp add: dwpos_def blk_handle)
  from move_to_block [OF 1(2) this]
  obtain t2 where 2: "(InitDataBlock T t1 \<bind> on_data (wSeekToLast (data_class T))) = Some t2"
      "at_block ?n (if ?n < length ix then length (block_at ?n) - 1 else 0) t2" by auto
  have "\<exists>t3. SkipEmptyDataBlocksBackward T t2 = Some t3 \<and> tpos (length es - 1) t3"
  proof (cases "ix = []")
    case True
    then have l1: "length ix = 0" by simp
    have l: "length ix = 0" "length es = 0" by (simp_all only: start_all [symmetric] l1 start_0)
    have "\<not> w_valid (index_iter t2)" "w_iter (data_iter t2) = None"
      using at_index_valid [OF at_block_index [OF 2(2)]] 2(2) l(1) by (simp_all add: at_block_def)
    then show ?thesis using drop_data [OF at_block_index [OF 2(2)]] l(2)
      by (subst SkipEmptyDataBlocksBackward.simps) simp
  next
    case False
    then have n: "?n < length ix" by simp
    have e: "start ?n + length (block_at ?n) = length es" using start_Suc [of ?n] n start_all by (metis Suc_diff_1 less_nat_zero_code not_gr_zero)
    have p: "(if length (block_at ?n) - 1 < length (block_at ?n) then start ?n + (length (block_at ?n) - 1) else before_pos ?n) =
        length es - 1"
      using e [symmetric] by (cases "block_at ?n") (simp_all add: before_pos_def)
    show ?thesis using SkipBackward_ok [of ?n "length (block_at ?n) - 1" t2] 2(2) n unfolding p by simp
  qed
  then show ?thesis using 1(1) 2(1) by (auto simp: Two_SeekToLast_def split: bind_splits)
qed

lemma tpos_block:
  assumes "tpos p t" "p < length es"
  obtains j i where "j < length ix" "i < length (block_at j)" "at_block j i t" "p = start j + i"
  using assms by (auto simp: tpos_def)

lemma Two_Next_ok:
  assumes "tpos p t" "p < length es"
  shows "\<exists>t'. Two_Next T t = Some t' \<and> tpos (Suc p) t'"
proof -
  obtain j i where j: "j < length ix" "i < length (block_at j)" "at_block j i t" "p = start j + i"
    using tpos_block [OF assms] .
  obtain r where d: "dwpos (handle j) r i (data_iter t)" "good [r] (arg t)" using j by (auto simp: at_block_def)
  obtain w where w: "wNext (data_class T) (data_iter t) = Some w" "dwpos (handle j) r (Suc i) w"
    using iterator.wNext_ok [OF data [OF handle_in [OF j(1)]], of r i "data_iter t"] d(1) j(2) by (auto simp: dwpos_def blk_handle)
  have "at_block j (Suc i) (t\<lparr>data_iter := w\<rparr>)" using j(1,3) w(2) d(2) handle_in [OF j(1)] by (auto simp: at_block_def at_index_def has_data_def)
  from SkipForward_ok [OF this] show ?thesis using w(1) at_block_valid(1) [OF j(3,1)] j(2,4) by (simp add: Two_Next_def)
qed

lemma Two_Prev_ok:
  assumes "tpos p t" "p < length es"
  shows "\<exists>t'. Two_Prev T t = Some t' \<and> tpos (if p = 0 then length es else p - 1) t'"
proof -
  obtain j i where j: "j < length ix" "i < length (block_at j)" "at_block j i t" "p = start j + i"
    using tpos_block [OF assms] .
  obtain r where d: "dwpos (handle j) r i (data_iter t)" "good [r] (arg t)" using j by (auto simp: at_block_def)
  let ?i = "if i = 0 then length (block_at j) else i - 1"
  obtain w where w: "wPrev (data_class T) (data_iter t) = Some w" "dwpos (handle j) r ?i w"
    using iterator.wPrev_ok [OF data [OF handle_in [OF j(1)]], of r i "data_iter t"] d(1) j(2)
    unfolding dwpos_def blk_handle by blast
  have "at_block j ?i (t\<lparr>data_iter := w\<rparr>)" using j(1,3) w(2) d(2) handle_in [OF j(1)] by (auto simp: at_block_def at_index_def has_data_def)
  from SkipBackward_ok [OF this j(1)] obtain t' where t': "Two_Prev T t = Some t'"
      "tpos (if ?i < length (block_at j) then start j + ?i else before_pos j) t'"
    using w(1) at_block_valid(1) [OF j(3,1)] j(2) by (auto simp: Two_Prev_def)
  have "(if ?i < length (block_at j) then start j + ?i else before_pos j) = (if p = 0 then length es else p - 1)"
    using j(2,4) by (auto simp: before_pos_def)
  then show ?thesis using t' by (intro exI [of _ t']) (simp only:)
qed

text \<open>The search in the block that the index names ends where a search in all entries would.\<close>

lemma seek_pos_blocks:
  assumes inc: "increasing C es" and j: "j = seek_pos C target ix"
    and i: "i = (if j < length ix then seek_pos C target (block_at j) else 0)"
  shows "seek_pos C target es = start j + i"
proof (rule seek_pos_eqI)
  have jl: "j \<le> length ix" using j seek_pos_le by simp
  have il: "j < length ix \<Longrightarrow> i \<le> length (block_at j)" using i seek_pos_le by simp
  show "start j + i \<le> length es" using start_le [of "Suc j"] start_le [OF jl] il i by (cases "j < length ix") auto
  fix q assume q: "q < start j + i"
  then have "q < length es" using \<open>start j + i \<le> length es\<close> by simp
  then obtain k l where k: "k < length ix" "l < length (block_at k)" "q = start k + l" "es ! q = block_at k ! l"
    using es_entry by blast
  have "k < j \<or> k = j \<and> l < i" using start_less [of k l j i] q k il i by (cases "j < length ix") (auto split: if_splits)
  then show "Compare C (fst (es ! q)) target < 0"
  proof
    assume "k < j"
    then have "Compare C (fst (ix ! k)) target < 0" using seek_pos_below j by blast
    moreover have "Compare C (fst (block_at k ! l)) (fst (ix ! k)) \<le> 0"
      using index_above [OF k(1), of "block_at k ! l"] k(2) by (simp add: block_at_def)
    ultimately show ?thesis using cmp_le_less_trans k(4) by simp
  next
    assume "k = j \<and> l < i"
    then show ?thesis using seek_pos_below k i by (simp split: if_splits)
  qed
next
  assume q: "start j + i < length es"
  then obtain k l where k: "k < length ix" "l < length (block_at k)" "start j + i = start k + l" "es ! (start j + i) = block_at k ! l"
    using es_entry by blast
  have j': "j < length ix" using start_all q j seek_pos_le [of C target ix] i by (cases "j = length ix") auto
  have "\<not> k < j" using start_mono [of "Suc k" j] k by auto
  then consider "k = j" | "j < k" by linarith
  then show "\<not> Compare C (fst (es ! (start j + i))) target < 0"
  proof cases
    case 1
    then have "l = i" "seek_pos C target (block_at j) < length (block_at j)" using k i j' by auto
    then show ?thesis using seek_pos_at k(4) 1 i j' by auto
  next
    case 2
    have "\<not> Compare C (fst (ix ! j)) target < 0" using seek_pos_at j j' by simp
    moreover have "Compare C (fst (ix ! j)) (fst (block_at k ! l)) < 0"
      using index_below [OF 2 k(1), of "block_at k ! l"] k(2) by (simp add: block_at_def)
    ultimately show ?thesis using cmp_less_trans [of "fst (ix ! j)" "fst (block_at k ! l)" target] k(4) by auto
  qed
qed

lemma increasing_block:
  assumes "increasing C es" "j < length ix"
  shows "increasing C (block_at j)"
  unfolding increasing_def sorted_wrt_iff_nth_less
proof (intro allI impI)
  fix a b assume "a < b" "b < length (block_at j)"
  then show "Compare C (fst (block_at j ! a)) (fst (block_at j ! b)) < 0"
    using assms es_nth [OF assms(2), of a] es_nth [OF assms(2), of b] sorted_wrt_nth_less [of _ es "start j + a" "start j + b"]
    by (auto simp: increasing_def)
qed

lemma Two_Seek_ok:
  assumes "tpos p t" and inc: "increasing C es"
  shows "\<exists>t'. Two_Seek T target t = Some t' \<and> tpos (seek_pos C target es) t'"
proof -
  obtain k where k: "at_index k t" using tpos_index [OF assms(1)] by blast
  let ?j = "seek_pos C target ix"
  obtain t1 where 1: "on_index (wSeek (index_class T) target) t = Some t1" "at_index ?j t1"
    using on_index_ok [OF k, of "wSeek (index_class T) target" ?j] index.wSeek_ok index_increasing by blast
  have "\<forall>w i r. ?j < length ix \<longrightarrow> dwpos (handle ?j) r i w \<longrightarrow>
      (\<exists>w'. wSeek (data_class T) target w = Some w' \<and> dwpos (handle ?j) r (seek_pos C target (block_at ?j)) w')"
    using iterator.wSeek_ok [OF data [OF handle_in]] increasing_block [OF inc] by (simp add: dwpos_def blk_handle)
  from move_to_block [OF 1(2) this]
  obtain t2 where 2: "(InitDataBlock T t1 \<bind> on_data (wSeek (data_class T) target)) = Some t2"
      "at_block ?j (if ?j < length ix then seek_pos C target (block_at ?j) else 0) t2" by auto
  show ?thesis using SkipForward_ok [OF 2(2)] seek_pos_blocks [OF inc refl refl, of target] 1(1) 2(1)
    by (auto simp: Two_Seek_def split: bind_splits)
qed

lemma Two_status_ok:
  assumes "tpos p t"
  shows "Two_status T t = OK"
proof -
  obtain j where j: "at_index j t" using tpos_index [OF assms] by blast
  then have i: "wstatus (index_class T) (index_iter t) = Some OK" "status t = OK"
    using index.wpos_simps(4) by (auto simp: at_index_def has_data_def)
  have "w_iter (data_iter t) \<noteq> None \<Longrightarrow> wstatus (data_class T) (data_iter t) = Some OK"
    using j dwpos_simps(4) by (auto simp: at_index_def has_data_def)
  then show ?thesis using i by (cases "w_iter (data_iter t)") (auto simp: Two_status_def wstatus_def)
qed

lemma tpos_data:
  assumes "tpos p t" "p < length es"
  shows "w_valid (data_iter t)" "wkey (data_iter t) = Some (fst (es ! p))" "wvalue (data_class T) (data_iter t) = Some (snd (es ! p))"
proof -
  obtain j i where j: "j < length ix" "i < length (block_at j)" "at_block j i t" "p = start j + i"
    using tpos_block [OF assms] .
  obtain r where "dwpos (handle j) r i (data_iter t)" using j by (auto simp: at_block_def)
  from dwpos_simps(1-3) [OF handle_in [OF j(1)] this]
  show "w_valid (data_iter t)" "wkey (data_iter t) = Some (fst (es ! p))" "wvalue (data_class T) (data_iter t) = Some (snd (es ! p))"
    using es_nth [OF j(1,2)] j(2,4) by (simp_all add: blk_handle)
qed

lemma tpos_le: "tpos p t \<Longrightarrow> p \<le> length es"
  using es_nth by (auto simp: tpos_def intro: less_imp_le)

lemma tpos_valid: "tpos p t \<Longrightarrow> w_valid (data_iter t) = (p < length es)"
proof (cases "p < length es")
  case False
  moreover assume "tpos p t"
  ultimately show ?thesis using es_nth by (auto simp: tpos_def)
qed (simp add: tpos_data(1))

text \<open>It keeps the contract itself.\<close>

lemma two_level_iterator: "iterator (TwoLevelIter T) C es tpos"
  by unfold_locales
    (simp_all add: TwoLevelIter_def tpos_le tpos_valid tpos_data Two_status_ok Two_SeekToFirst_ok Two_SeekToLast_ok Two_Seek_ok
      Two_Next_ok Two_Prev_ok del: One_nat_def)

lemma new_TwoLevelIterator_ok:
  assumes "good [] e" "ipos j i"
  shows "\<exists>t. new_TwoLevelIterator T i e = Some t \<and> tpos (length es) t"
proof -
  obtain w where "Set (index_class T) (Some i) new_IteratorWrapper = Some w" "iwpos j w" using index.Set_ok [OF assms(2)] by blast
  then show ?thesis using assms(1)
    by (auto simp: new_TwoLevelIterator_def tpos_def at_index_def has_data_def new_IteratorWrapper_def)
qed

end

sublocale two_level \<subseteq> two: iterator "TwoLevelIter T" C es tpos
  by (rule two_level_iterator)

end
