(* ===== verification/Cache.thy ===== *)
theory Cache
  imports Coding
begin

text \<open>
  The interface of caches (include/leveldb/cache.h) as a record of operations on a state, and its
  contract.  A handle is an address; an operation on a handle that is not live is None.
\<close>

record ('v, 'c) Cache =
  Cache_Insert :: "bytes \<Rightarrow> 'v \<Rightarrow> nat \<Rightarrow> 'c \<Rightarrow> (nat \<times> 'c) option"
  Cache_Lookup :: "bytes \<Rightarrow> 'c \<Rightarrow> (nat option \<times> 'c) option"
  Cache_Release :: "nat \<Rightarrow> 'c \<Rightarrow> 'c option"
  Cache_Value :: "nat \<Rightarrow> 'c \<Rightarrow> 'v option"
  Cache_NewId :: "'c \<Rightarrow> u64 \<times> 'c"

text \<open>
  \<open>entry c h\<close> is the key and the value behind a live handle, \<open>clients c h\<close> the number of references
  that clients have.  A lookup gives a live handle for its key; a handle stays live, and its
  entry the same, as long as a client has a reference; no other entry appears.
\<close>

definition only_drops :: "(nat \<Rightarrow> (bytes \<times> 'v) option) \<Rightarrow> (nat \<Rightarrow> (bytes \<times> 'v) option) \<Rightarrow> (nat \<Rightarrow> nat) \<Rightarrow> bool" where
  "only_drops old new refs \<longleftrightarrow> (\<forall>h. (new h = None \<or> new h = old h) \<and> (refs h > 0 \<longrightarrow> new h = old h))"

locale cache =
  fixes K :: "('v, 'c) Cache" and ok :: "'c \<Rightarrow> bool" and entry :: "'c \<Rightarrow> nat \<Rightarrow> (bytes \<times> 'v) option"
    and clients :: "'c \<Rightarrow> nat \<Rightarrow> nat" and last_id :: "'c \<Rightarrow> u64"
  assumes Lookup_ok: "ok c \<Longrightarrow> \<exists>r c'. Cache_Lookup K key c = Some (r, c') \<and> ok c' \<and> entry c' = entry c \<and> last_id c' = last_id c \<and>
      (case r of None \<Rightarrow> clients c' = clients c
       | Some h \<Rightarrow> clients c' = (clients c)(h := clients c h + 1) \<and> (\<exists>v. entry c h = Some (key, v)))"
    and Insert_ok: "ok c \<Longrightarrow> \<exists>h c'. Cache_Insert K key v charge c = Some (h, c') \<and> ok c' \<and> last_id c' = last_id c \<and>
      clients c h = 0 \<and> clients c' = (clients c)(h := 1) \<and> entry c' h = Some (key, v) \<and>
      only_drops ((entry c)(h := Some (key, v))) (entry c') (clients c')"
    and Release_ok: "ok c \<Longrightarrow> clients c h > 0 \<Longrightarrow> \<exists>c'. Cache_Release K h c = Some c' \<and> ok c' \<and> last_id c' = last_id c \<and>
      clients c' = (clients c)(h := clients c h - 1) \<and> only_drops (entry c) (entry c') (clients c')"
    and Value_ok: "ok c \<Longrightarrow> entry c h = Some (key, v) \<Longrightarrow> Cache_Value K h c = Some v"
    and NewId_ok: "ok c \<Longrightarrow> \<exists>c'. Cache_NewId K c = (last_id c + 1, c') \<and> ok c' \<and> last_id c' = last_id c + 1 \<and>
      entry c' = entry c \<and> clients c' = clients c"
    and client_live: "ok c \<Longrightarrow> clients c h > 0 \<Longrightarrow> entry c h \<noteq> None"

end
