(* ===== verification/Table.thy ===== *)
theory Table
  imports Table_Builder Block_Moves Two_Level Cache
begin

text \<open>
  Reading tables (include/leveldb/table.h, table/table.cc), over the contracts of files for random
  access, of compression and of caches.  The cache of blocks may be missing; its state is passed
  through.  The iterator of a block carries the handle that is released when it is deleted.
\<close>

record 'f Table =
  t_options :: Options
  t_file :: 'f
  cache_id :: u64
  t_filter :: "(FilterPolicy \<times> FilterBlockReader) option"
  t_metaindex_handle :: BlockHandle
  t_index_block :: Block

record ReadOptions =
  verify_checksums :: bool
  fill_cache :: bool

definition new_ReadOptions :: ReadOptions where
  "new_ReadOptions = \<lparr>verify_checksums = False, fill_cache = True\<rparr>"

definition open_options :: "Options \<Rightarrow> ReadOptions" where
  "open_options opt = (if paranoid_checks opt then new_ReadOptions\<lparr>verify_checksums := True\<rparr> else new_ReadOptions)"

section \<open>Opening\<close>

definition ReadFilter :: "Snappy \<Rightarrow> 'f RandomAccessFile \<Rightarrow> bytes \<Rightarrow> 'f Table \<Rightarrow> 'f Table option" where
  "ReadFilter S R filter_handle_value t =
     (let (s, filter_handle, _) = Handle_DecodeFrom new_BlockHandle filter_handle_value in
      if \<not> is_ok s then Some t
      else do {
        (s, block) \<leftarrow> ReadBlock S R (verify_checksums (open_options (t_options t))) filter_handle (t_file t);
        if \<not> is_ok s then Some t
        else do {
          P \<leftarrow> filter_policy (t_options t);
          Some (t\<lparr>t_filter := Some (P, new_FilterBlockReader (cdata block))\<rparr>) } })"

definition ReadMeta :: "Snappy \<Rightarrow> 'f RandomAccessFile \<Rightarrow> Footer \<Rightarrow> 'f Table \<Rightarrow> 'f Table option" where
  "ReadMeta S R footer t = (case filter_policy (t_options t) of
     None \<Rightarrow> Some t
   | Some P \<Rightarrow> do {
       (s, contents) \<leftarrow> ReadBlock S R (verify_checksums (open_options (t_options t))) (metaindex_handle footer) (t_file t);
       if \<not> is_ok s then Some t
       else do {
         meta \<leftarrow> new_Block (cdata contents);
         iter \<leftarrow> NewIterator BytewiseComparator meta;
         let key = bytes_of (''filter.'' @ Name P);
         iter \<leftarrow> it_Seek AnyBlockIter key iter;
         if it_Valid AnyBlockIter iter then do {
           k \<leftarrow> it_key AnyBlockIter iter;
           if k = key then do { v \<leftarrow> it_value AnyBlockIter iter; ReadFilter S R v t } else Some t }
         else Some t } })"

definition Open :: "('v, 'c) Cache option \<Rightarrow> Snappy \<Rightarrow> 'f RandomAccessFile \<Rightarrow> Options \<Rightarrow> nat \<Rightarrow> 'f \<Rightarrow> 'c \<Rightarrow>
    (Status \<times> 'f Table option \<times> 'c) option" where
  "Open K S R opt sz f c =
     (if sz < Footer_kEncodedLength then Some (Corruption ''file is too short to be an sstable'' [], None, c)
      else do {
        (s, footer_input, _) \<leftarrow> RandomRead R (word_of_nat (sz - Footer_kEncodedLength)) Footer_kEncodedLength f;
        if \<not> is_ok s then Some (s, None, c)
        else do {
          (s, footer, _) \<leftarrow> Footer_DecodeFrom new_Footer footer_input;
          if \<not> is_ok s then Some (s, None, c)
          else do {
            (s, contents) \<leftarrow> ReadBlock S R (verify_checksums (open_options opt)) (index_handle footer) f;
            if \<not> is_ok s then Some (s, None, c)
            else do {
              index_block \<leftarrow> new_Block (cdata contents);
              let (id, c) = (case K of Some K \<Rightarrow> Cache_NewId K c | None \<Rightarrow> (0, c));
              t \<leftarrow> ReadMeta S R footer \<lparr>t_options = opt, t_file = f, cache_id = id, t_filter = None,
                t_metaindex_handle = metaindex_handle footer, t_index_block = index_block\<rparr>;
              Some (s, Some t, c) } } } })"

section \<open>Iterators over blocks\<close>

type_synonym BlockIterator = "(Status + Iter) \<times> nat option"

text \<open>The iterator of a block, whatever has to be released in the end.\<close>

definition on_first :: "'a Iterator \<Rightarrow> ('a \<times> 'b) Iterator" where
  "on_first A =
     \<lparr>it_Valid = it_Valid A \<circ> fst,
      it_SeekToFirst = (\<lambda>(s, x). map_option (\<lambda>s. (s, x)) (it_SeekToFirst A s)),
      it_SeekToLast = (\<lambda>(s, x). map_option (\<lambda>s. (s, x)) (it_SeekToLast A s)),
      it_Seek = (\<lambda>t (s, x). map_option (\<lambda>s. (s, x)) (it_Seek A t s)),
      it_Next = (\<lambda>(s, x). map_option (\<lambda>s. (s, x)) (it_Next A s)),
      it_Prev = (\<lambda>(s, x). map_option (\<lambda>s. (s, x)) (it_Prev A s)),
      it_key = it_key A \<circ> fst, it_value = it_value A \<circ> fst, it_status = it_status A \<circ> fst\<rparr>"

definition BlockIterators :: "BlockIterator Iterator" where
  "BlockIterators = on_first AnyBlockIter"

definition cache_key :: "u64 \<Rightarrow> u64 \<Rightarrow> bytes" where
  "cache_key i off = EncodeFixed64 i @ EncodeFixed64 off"

text \<open>The block of a handle, from the cache or from the file; with its handle in the cache.\<close>

definition read_block :: "(Block, 'c) Cache option \<Rightarrow> Snappy \<Rightarrow> 'f RandomAccessFile \<Rightarrow> 'f Table \<Rightarrow> ReadOptions \<Rightarrow> BlockHandle \<Rightarrow> 'c \<Rightarrow>
    (Status \<times> (Block \<times> nat option) option \<times> 'c) option" where
  "read_block K S R t opt handle c = (case K of
     Some K \<Rightarrow> do {
       let key = cache_key (cache_id t) (offset handle);
       (cache_handle, c) \<leftarrow> Cache_Lookup K key c;
       case cache_handle of
         Some h \<Rightarrow> do { block \<leftarrow> Cache_Value K h c; Some (OK, Some (block, Some h), c) }
       | None \<Rightarrow> do {
           (s, contents) \<leftarrow> ReadBlock S R (verify_checksums opt) handle (t_file t);
           if is_ok s then do {
             block \<leftarrow> new_Block (cdata contents);
             if cachable contents \<and> fill_cache opt then do {
               (h, c) \<leftarrow> Cache_Insert K key block (bsize block) c;
               Some (s, Some (block, Some h), c) }
             else Some (s, Some (block, None), c) }
           else Some (s, None, c) } }
   | None \<Rightarrow> do {
       (s, contents) \<leftarrow> ReadBlock S R (verify_checksums opt) handle (t_file t);
       if is_ok s then do { block \<leftarrow> new_Block (cdata contents); Some (s, Some (block, None), c) }
       else Some (s, None, c) })"

definition BlockReader :: "(Block, 'c) Cache option \<Rightarrow> Snappy \<Rightarrow> 'f RandomAccessFile \<Rightarrow> 'f Table \<Rightarrow> ReadOptions \<Rightarrow> bytes \<Rightarrow> 'c \<Rightarrow>
    (BlockIterator \<times> 'c) option" where
  "BlockReader K S R t opt index_value c = do {
     let (s, handle, _) = Handle_DecodeFrom new_BlockHandle index_value;
     (s, block, c) \<leftarrow> (if is_ok s then read_block K S R t opt handle c else Some (s, None, c));
     case block of
       Some (b, h) \<Rightarrow> do { iter \<leftarrow> NewIterator (comparator (t_options t)) b; Some ((iter, h), c) }
     | None \<Rightarrow> Some ((Inl (NewErrorIterator s), None), c) }"

text \<open>Deleting an iterator runs its cleanup: DeleteBlock only frees memory.\<close>

definition ReleaseBlock :: "(Block, 'c) Cache option \<Rightarrow> BlockIterator \<Rightarrow> 'c \<Rightarrow> 'c option" where
  "ReleaseBlock K it c = (case snd it of
     None \<Rightarrow> Some c
   | Some h \<Rightarrow> (case K of Some K \<Rightarrow> Cache_Release K h c | None \<Rightarrow> None))"

section \<open>Reading\<close>

definition table_levels :: "(Block, 'c) Cache option \<Rightarrow> Snappy \<Rightarrow> 'f RandomAccessFile \<Rightarrow> 'f Table \<Rightarrow> ReadOptions \<Rightarrow>
    (Status + Iter, BlockIterator, 'c) TwoLevel" where
  "table_levels K S R t opt = \<lparr>index_class = AnyBlockIter, data_class = BlockIterators,
     block_function = BlockReader K S R t opt, delete_iter = ReleaseBlock K\<rparr>"

definition Table_NewIterator :: "(Block, 'c) Cache option \<Rightarrow> Snappy \<Rightarrow> 'f RandomAccessFile \<Rightarrow> 'f Table \<Rightarrow> ReadOptions \<Rightarrow> 'c \<Rightarrow>
    (Status + Iter, BlockIterator, 'c) TwoLevelIterator option" where
  "Table_NewIterator K S R t opt c = do {
     i \<leftarrow> NewIterator (comparator (t_options t)) (t_index_block t);
     new_TwoLevelIterator (table_levels K S R t opt) i c }"

text \<open>The status, the entry that the saver is called with, and the cache.\<close>

definition InternalGet :: "(Block, 'c) Cache option \<Rightarrow> Snappy \<Rightarrow> 'f RandomAccessFile \<Rightarrow> 'f Table \<Rightarrow> ReadOptions \<Rightarrow> bytes \<Rightarrow> 'c \<Rightarrow>
    (Status \<times> (bytes \<times> bytes) option \<times> 'c) option" where
  "InternalGet K S R t opt k c = do {
     iiter \<leftarrow> NewIterator (comparator (t_options t)) (t_index_block t);
     iiter \<leftarrow> it_Seek AnyBlockIter k iiter;
     (s, saved, c) \<leftarrow> (if it_Valid AnyBlockIter iiter then do {
         handle_value \<leftarrow> it_value AnyBlockIter iiter;
         if (case t_filter t of
               None \<Rightarrow> False
             | Some (P, r) \<Rightarrow> (let (s, handle, _) = Handle_DecodeFrom new_BlockHandle handle_value in
                 is_ok s \<and> \<not> FilterKeyMayMatch P r (offset handle) k))
         then Some (OK, None, c)
         else do {
           (block_iter, c) \<leftarrow> BlockReader K S R t opt handle_value c;
           block_iter \<leftarrow> it_Seek BlockIterators k block_iter;
           saved \<leftarrow> (if it_Valid BlockIterators block_iter then do {
               key \<leftarrow> it_key BlockIterators block_iter;
               v \<leftarrow> it_value BlockIterators block_iter;
               Some (Some (key, v)) }
             else Some None);
           let s = it_status BlockIterators block_iter;
           c \<leftarrow> ReleaseBlock K block_iter c;
           Some (s, saved, c) } }
       else Some (OK, None, c));
     Some (if is_ok s then it_status AnyBlockIter iiter else s, saved, c) }"

definition ApproximateOffsetOf :: "'f Table \<Rightarrow> bytes \<Rightarrow> u64 option" where
  "ApproximateOffsetOf t key = do {
     index_iter \<leftarrow> NewIterator (comparator (t_options t)) (t_index_block t);
     index_iter \<leftarrow> it_Seek AnyBlockIter key index_iter;
     if it_Valid AnyBlockIter index_iter then do {
       input \<leftarrow> it_value AnyBlockIter index_iter;
       let (s, handle, _) = Handle_DecodeFrom new_BlockHandle input;
       Some (if is_ok s then offset handle else offset (t_metaindex_handle t)) }
     else Some (offset (t_metaindex_handle t)) }"

end
