(* ===== verification/Table_Layout.thy ===== *)
theory Table_Layout
  imports Table_Builder Block_Moves
begin

text \<open>
  The file that the builder writes: the invariant of the builder while entries are added, and the
  layout of the finished table.
\<close>

text \<open>Comparators whose separators are not longer than the keys they stand for.\<close>

locale short_comparator = comparator +
  assumes separator_length: "length (FindShortestSeparator C a b) \<le> length a"
    and successor_length: "length (FindShortSuccessor C a) \<le> length a"

interpretation bytewise_short: short_comparator BytewiseComparator
proof
  have "length (bytewise_successor a) \<le> length a" for a by (induction a rule: bytewise_successor.induct) auto
  then show "length (FindShortSuccessor BytewiseComparator a) \<le> length a" for a by (simp add: BytewiseComparator_def)
  show "length (FindShortestSeparator BytewiseComparator a b) \<le> length a" for a b
    by (auto simp: BytewiseComparator_def bytewise_separator_def Let_def)
qed

section \<open>Sizes\<close>

definition weight :: "entry list \<Rightarrow> nat" where
  "weight es = (\<Sum>e\<leftarrow>es. length (fst e) + length (snd e) + 64)"

lemma weight_append [simp]: "weight (es @ fs) = weight es + weight fs"
  by (simp add: weight_def)

lemma weight_simps [simp]: "weight [] = 0" "weight (e # es) = length (fst e) + length (snd e) + 64 + weight es"
  by (simp_all add: weight_def)

lemma weight_length: "64 * length es \<le> weight es"
  by (induction es) auto

lemma enc_bound: "length (enc s e) \<le> 15 + length (fst e) + length (snd e)"
  using EncodeVarint32_length [of "word_of_nat s"] EncodeVarint32_length [of "word_of_nat (length (fst e) - s)"]
    EncodeVarint32_length [of "word_of_nat (length (snd e))"] by (simp add: enc_def)

lemma body_bound: "length (body I es) + 49 * length es \<le> weight es"
proof (induction es rule: rev_induct)
  case Nil
  then show ?case by (simp add: body_def)
next
  case (snoc e es)
  then show ?case using enc_bound [of "shared_at I (es @ [e]) (length es)" e] by (simp add: body_append)
qed

lemma block_bound: "length (block_bytes I es) + 45 * length es \<le> weight es + 8"
proof -
  have "restart_count I es \<le> length es + 1" using le_trans [OF div_le_dividend [of "length es - 1" I]] by (simp add: restart_count_def)
  then show ?thesis using body_bound [of I es] by (simp add: block_length)
qed

section \<open>Blocks in the file\<close>

lemma unpack_stored_form:
  assumes "snappy S" "stored_form S type raw = (d, t)"
  shows "unpack S t d raw" "length d \<le> length raw"
  using assms(2) snappy.Uncompress_ok [OF assms(1), of raw d]
  by (auto simp: stored_form_def unpack_def split: CompressionType.splits option.splits if_splits)

lemma stored_here:
  assumes "unpack S t d raw" "length (c @ d @ trailer d t) < 2 ^ 64"
  shows "stored S (c @ d @ trailer d t) \<lparr>offset = word_of_nat (length c), hsize = word_of_nat (length d)\<rparr> raw"
  using assms by (auto simp: stored_def unat_of_nat take_bit_nat_eq_self intro!: exI [of _ t] exI [of _ d])

context writable_file
begin

lemma WriteRawBlock_ok:
  assumes "written (tfile r) c" "toffset r = word_of_nat (length c)"
  shows "\<exists>f'. WriteRawBlock W d t r =
      Some (\<lparr>offset = word_of_nat (length c), hsize = word_of_nat (length d)\<rparr>,
        r\<lparr>tfile := f', tstatus := OK, toffset := word_of_nat (length (c @ d @ trailer d t))\<rparr>) \<and>
    written f' (c @ d @ trailer d t)"
proof -
  obtain f1 where 1: "Append W d (tfile r) = Some (OK, f1)" "written f1 (c @ d)" using Append_ok [OF assms(1)] by blast
  obtain f2 where 2: "Append W (trailer d t) f1 = Some (OK, f2)" "written f2 (c @ d @ trailer d t)"
    using Append_ok [OF 1(2), of "trailer d t"] by auto
  have t: "compression_byte t # EncodeFixed32 (Mask (Extend 0 (Value 0 d) [compression_byte t])) = trailer d t"
    by (simp add: trailer_def Value_crc32c Extend_append)
  show ?thesis using 1(1) 2 assms(2) unfolding WriteRawBlock_def Let_def t
    by (auto simp: tok_def)
qed

lemma WriteBlock_ok:
  assumes "written (tfile r) c" "toffset r = word_of_nat (length c)" "tstatus r = OK" "snappy S"
    and raw: "buffer (Block.Finish b) = raw"
  shows "\<exists>f' z. WriteBlock S W b r =
      Some (\<lparr>offset = word_of_nat (length c), hsize = word_of_nat (length z - kBlockTrailerSize)\<rparr>,
        r\<lparr>tfile := f', tstatus := OK, toffset := word_of_nat (length (c @ z))\<rparr>) \<and>
    written f' (c @ z) \<and> kBlockTrailerSize \<le> length z \<and> length z \<le> length raw + kBlockTrailerSize \<and>
    (length (c @ z) < 2 ^ 64 \<longrightarrow>
      stored S (c @ z) \<lparr>offset = word_of_nat (length c), hsize = word_of_nat (length z - kBlockTrailerSize)\<rparr> raw)"
proof -
  obtain d t where d: "stored_form S (compression (options r)) raw = (d, t)" by (cases "stored_form S (compression (options r)) raw")
  note u = unpack_stored_form [OF assms(4) d]
  obtain f' where f': "WriteRawBlock W d t r =
      Some (\<lparr>offset = word_of_nat (length c), hsize = word_of_nat (length d)\<rparr>,
        r\<lparr>tfile := f', tstatus := OK, toffset := word_of_nat (length (c @ d @ trailer d t))\<rparr>)"
      "written f' (c @ d @ trailer d t)"
    using WriteRawBlock_ok [OF assms(1,2)] by blast
  show ?thesis
    using f' d u stored_here [OF u(1), of c] raw assms(3)
    by (intro exI [of _ f'] exI [of _ "d @ trailer d t"]) (auto simp: WriteBlock_def tok_def)
qed

end

section \<open>The builder while entries are added\<close>

text \<open>
  \<open>bl\<close> are the blocks in the file with their handles, \<open>cur\<close> the entries of the block in memory,
  \<open>sp\<close> the separators in the index so far.
\<close>

definition separates :: "Comparator \<Rightarrow> entry list list \<Rightarrow> entry list \<Rightarrow> bytes list \<Rightarrow> bool" where
  "separates C bl cur sp \<longleftrightarrow> (\<forall>j < length sp.
     (\<forall>x \<in> set (concat (take (Suc j) bl)). Compare C (fst x) (sp ! j) \<le> 0) \<and>
     (\<forall>x \<in> set (concat (drop (Suc j) bl) @ cur). Compare C (sp ! j) (fst x) < 0) \<and>
     length (sp ! j) \<le> length (fst (last (bl ! j))))"

definition index_entries :: "(entry list \<times> BlockHandle) list \<Rightarrow> bytes list \<Rightarrow> entry list" where
  "index_entries bl sp = zip sp (map (encoded \<circ> snd) bl)"

definition all_entries :: "(entry list \<times> BlockHandle) list \<Rightarrow> entry list \<Rightarrow> entry list" where
  "all_entries bl cur = concat (map fst bl) @ cur"

definition filter_calls :: "(entry list \<times> BlockHandle) list \<Rightarrow> (u64 \<times> bytes list) list" where
  "filter_calls bl = map (\<lambda>(b, h). (offset h, map fst b)) bl"

definition filter_state :: "FilterPolicy \<Rightarrow> (u64 \<times> bytes list) list \<Rightarrow> FilterPolicy \<times> FilterBlockBuilder" where
  "filter_state P calls = (P, foldl (add_block P) new_FilterBlockBuilder calls)"

text \<open>Where the blocks are: one after the other, each with its trailer.\<close>

definition blocks_in :: "Snappy \<Rightarrow> nat \<Rightarrow> bytes \<Rightarrow> (entry list \<times> BlockHandle) list \<Rightarrow> bool" where
  "blocks_in S I c bl \<longleftrightarrow> (\<forall>(b, h) \<in> set bl. b \<noteq> [] \<and> handle_ok h \<and> stored S c h (block_bytes I b)) \<and>
     sorted_wrt (<) (map (offset \<circ> snd) bl) \<and> (\<forall>(b, h) \<in> set bl. unat (offset h) < length c)"

locale table_build = writable_file W written + snappy S + short_comparator C
  for W :: "'f WritableFile" and written :: "'f \<Rightarrow> bytes \<Rightarrow> bool" and S :: Snappy and C :: Comparator +
  fixes opt :: Options
  assumes interval: "1 \<le> block_restart_interval opt"
    and same_comparator: "comparator opt = C"
    and policy: "filter_policy opt = Some P \<Longrightarrow> Bloom.filter_policy P"
begin

abbreviation I :: nat where
  "I \<equiv> block_restart_interval opt"

definition building :: "bytes \<Rightarrow> (entry list \<times> BlockHandle) list \<Rightarrow> bytes list \<Rightarrow> entry list \<Rightarrow> 'f TableBuilder \<Rightarrow> bool" where
  "building c bl sp cur r \<longleftrightarrow>
     written (tfile r) c \<and> toffset r = word_of_nat (length c) \<and> tstatus r = OK \<and> \<not> closed r \<and>
     options r = opt \<and> index_block_options r = opt\<lparr>block_restart_interval := 1\<rparr> \<and>
     data_block r = add_all I cur \<and> index_block r = add_all 1 (index_entries bl sp) \<and>
     (if pending_index_entry r then cur = [] \<and> length bl = length sp + 1 \<and> pending_handle r = snd (last bl)
      else length bl = length sp \<and> (cur = [] \<longrightarrow> bl = [])) \<and>
     num_entries r = length (all_entries bl cur) \<and>
     (all_entries bl cur \<noteq> [] \<longrightarrow> tlast_key r = fst (last (all_entries bl cur))) \<and>
     length c \<le> weight (concat (map fst bl)) \<and> blocks_in S I c bl \<and> separates C (map fst bl) cur sp \<and>
     filter_block r = map_option (\<lambda>P. filter_state P (filter_calls bl @ [(toffset r, map fst cur)])) (filter_policy opt)"

lemma new_TableBuilder_ok:
  assumes "written f []"
  shows "\<exists>r. new_TableBuilder opt f = Some r \<and> building [] [] [] [] r"
  using assms interval
  by (auto simp: new_TableBuilder_def building_def StartFilter_def add_all_def index_entries_def all_entries_def blocks_in_def
      separates_def filter_state_def filter_calls_def add_block_def option.map_comp o_def new_BlockHandle_def)

lemma blocks_in_append:
  assumes "blocks_in S I c bl" "length (c @ z) < 2 ^ 64"
  shows "blocks_in S I (c @ z) bl"
  using assms stored_append [of S c _ _ z] by (fastforce simp: blocks_in_def)

lemma word_of_nat_small: "n < 2 ^ 63 \<Longrightarrow> unat (word_of_nat n :: u64) = n \<and> (word_of_nat n :: u64) \<noteq> NOT 0"
proof -
  assume n: "n < 2 ^ 63"
  then have u: "unat (word_of_nat n :: u64) = n" by (simp add: unat_of_nat take_bit_nat_eq_self)
  have "unat (NOT 0 :: u64) = 2 ^ 64 - 1" by (simp add: unsigned_minus_1_eq_mask mask_eq_exp_minus_1)
  then have "unat (word_of_nat n :: u64) \<noteq> unat (NOT 0 :: u64)" using n u by simp
  then show ?thesis using u by auto
qed

lemma blocks_in_snoc:
  assumes "blocks_in S I (c @ z) bl" "\<forall>(b, h) \<in> set bl. unat (offset h) < length c" "cur \<noteq> []"
    "stored S (c @ z) h (block_bytes I cur)" "handle_ok h" "unat (offset h) = length c" "z \<noteq> []"
  shows "blocks_in S I (c @ z) (bl @ [(cur, h)])"
proof -
  have "offset h' < offset h" if "(b, h') \<in> set bl" for b h'
    using assms(2,6) that by (force simp: word_less_nat_alt)
  then show ?thesis using assms by (auto simp: blocks_in_def sorted_wrt_append)
qed

lemma separates_flush: "length sp = length bl \<Longrightarrow> separates C (bl @ [cur]) [] sp = separates C bl cur sp"
  by (simp add: separates_def nth_append)

lemma buffer_add_all: "buffer (add_all I es) = body I es"
  using add_all_layout interval by simp

lemma block_empty_add_all: "block_empty (add_all I es) \<longleftrightarrow> es = []"
  using epos_strict [of 0 "length es" es I] buffer_add_all [of es] by (auto simp: block_empty_def body_def epos_def)

lemma StartFilter_state:
  "filter_block r = map_option (\<lambda>P. filter_state P calls) p \<Longrightarrow>
   filter_block (StartFilter off r) = map_option (\<lambda>P. filter_state P (calls @ [(off, [])])) p"
  by (cases p) (simp_all add: StartFilter_def filter_state_def add_block_def)

lemma Reset_add_all: "Reset b = add_all I []"
  by (simp add: Reset_def add_all_def new_BlockBuilder_def)

lemma flush_size: "cur \<noteq> [] \<Longrightarrow> length (block_bytes I cur) + kBlockTrailerSize \<le> weight cur"
  using block_bound [of I cur] by (cases cur) (simp_all add: kBlockTrailerSize_def)

lemma index_entries_flush: "length bl = length sp \<Longrightarrow> index_entries (bl @ [x]) sp = index_entries bl sp"
  by (simp add: index_entries_def zip_append2)

lemma TFlush_ok:
  assumes b: "building c bl sp cur r" and cur: "cur \<noteq> []" and w: "weight (all_entries bl cur) < 2 ^ 31"
  shows "\<exists>r' z h. TFlush S W r = Some r' \<and> building (c @ z) (bl @ [(cur, h)]) sp [] r' \<and> pending_index_entry r'"
proof -
  have np: "\<not> pending_index_entry r" "length bl = length sp" using b cur by (auto simp: building_def split: if_splits)
  have r: "written (tfile r) c" "toffset r = word_of_nat (length c)" "tstatus r = OK" "data_block r = add_all I cur"
    "\<not> closed r" "length c \<le> weight (concat (map fst bl))" "blocks_in S I c bl" "separates C (map fst bl) cur sp"
    using b by (simp_all add: building_def)
  have raw: "buffer (Block.Finish (data_block r)) = block_bytes I cur" using Finish_layout interval r(4) by simp
  obtain f1 z where 1: "WriteBlock S W (data_block r) r =
      Some (\<lparr>offset = word_of_nat (length c), hsize = word_of_nat (length z - kBlockTrailerSize)\<rparr>,
        r\<lparr>tfile := f1, tstatus := OK, toffset := word_of_nat (length (c @ z))\<rparr>)"
      "written f1 (c @ z)" "kBlockTrailerSize \<le> length z" "length z \<le> length (block_bytes I cur) + kBlockTrailerSize"
      "length (c @ z) < 2 ^ 64 \<longrightarrow>
        stored S (c @ z) \<lparr>offset = word_of_nat (length c), hsize = word_of_nat (length z - kBlockTrailerSize)\<rparr> (block_bytes I cur)"
    using WriteBlock_ok [OF r(1-3) snappy_axioms raw] by blast
  define h where "h = \<lparr>offset = word_of_nat (length c) :: u64, hsize = word_of_nat (length z - kBlockTrailerSize) :: u64\<rparr>"
  obtain f2 where 2: "Flush W f1 = Some (OK, f2)" "written f2 (c @ z)" using Flush_ok [OF 1(2)] by blast
  have wc: "length (c @ z) \<le> weight (concat (map fst bl) @ cur)" using r(6) 1(4) flush_size [OF cur] by simp
  then have l: "length (c @ z) < 2 ^ 31" using w by (simp add: all_entries_def)
  have h: "handle_ok h" "unat (offset h) = length c" "stored S (c @ z) h (block_bytes I cur)"
    using word_of_nat_small [of "length c"] word_of_nat_small [of "length z - kBlockTrailerSize"] l 1(5) by (simp_all add: h_def handle_ok_def)
  have z: "z \<noteq> []" using 1(3) by (auto simp: kBlockTrailerSize_def)
  have bi: "blocks_in S I (c @ z) (bl @ [(cur, h)])"
    using blocks_in_snoc [OF blocks_in_append [OF r(7)] _ cur h(3,1,2) z] l r(7) by (auto simp: blocks_in_def)
  let ?r = "r\<lparr>toffset := word_of_nat (length (c @ z)), data_block := Reset (data_block r),
    pending_handle := h, pending_index_entry := True, tfile := f2, tstatus := OK\<rparr>"
  let ?r' = "StartFilter (word_of_nat (length (c @ z))) ?r"
  have fl: "TFlush S W r = Some ?r'"
    using 1(1) 2(1) np(1) r(3-5) cur by (simp add: TFlush_def tok_def block_empty_add_all h_def [symmetric])
  have fb: "filter_block ?r = map_option (\<lambda>P. filter_state P (filter_calls (bl @ [(cur, h)]))) (filter_policy opt)"
    using b r(2) by (simp add: building_def filter_calls_def h_def)
  have "building (c @ z) (bl @ [(cur, h)]) sp [] ?r'"
    unfolding building_def
    using StartFilter_state [OF fb, of "word_of_nat (length (c @ z))"] b np(2) bi wc 2(2) separates_flush [of sp "map fst bl" cur]
    by (auto simp: building_def StartFilter_def all_entries_def Reset_add_all index_entries_flush)
  then show ?thesis using fl by (auto simp: StartFilter_def)
qed

lemma separates_pending:
  assumes "separates C bs [] sp" "length bs = Suc (length sp)" "\<forall>x \<in> set (concat bs). Compare C (fst x) k \<le> 0"
    "length k \<le> length (fst (last (last bs)))"
  shows "separates C bs [] (sp @ [k])"
proof -
  have "last bs = bs ! length sp" using assms(2) by (cases bs rule: rev_cases) (auto simp: nth_append)
  then show ?thesis using assms by (auto simp: separates_def nth_append less_Suc_eq)
qed

lemma separates_add:
  assumes "separates C bs cur sp" "length bs = length sp" "\<forall>j < length sp. Compare C (sp ! j) (fst e) < 0"
  shows "separates C bs (cur @ [e]) sp"
  using assms by (auto simp: separates_def)

text \<open>The separators lie below every key that comes after all entries.\<close>

lemma separators_below:
  assumes s: "separates C bs cur sp" and l: "length sp \<le> length bs" and ne: "\<forall>b \<in> set bs. b \<noteq> []"
    and k: "\<forall>x \<in> set (concat bs @ cur). Compare C (fst x) key < 0"
    and j: "j < length sp" and after: "Suc j < length bs \<or> cur \<noteq> []"
  shows "Compare C (sp ! j) key < 0"
proof -
  have "\<exists>x. x \<in> set (concat (drop (Suc j) bs) @ cur)"
  proof (cases "Suc j < length bs")
    case True
    then have "bs ! Suc j \<in> set (drop (Suc j) bs)" "bs ! Suc j \<noteq> []"
      using ne by (auto simp: in_set_conv_nth intro!: exI [of _ 0])
    then show ?thesis by (metis UN_I append_is_Nil_conv concat_eq_Nil_conv hd_in_set)
  next
    case False
    then show ?thesis using after by (metis Un_iff list.set_sel(1) set_append)
  qed
  then obtain x where x: "x \<in> set (concat (drop (Suc j) bs) @ cur)" by blast
  then have "Compare C (sp ! j) (fst x) < 0" using s j by (auto simp: separates_def)
  moreover have "x \<in> set (concat bs @ cur)"
    using x by (auto dest: in_set_dropD)
  ultimately show ?thesis using k cmp_less_trans by fastforce
qed

lemma increasing_last:
  assumes "increasing C (es @ [e])"
  shows "\<forall>x \<in> set es. Compare C (fst x) (fst e) < 0"
  using assms by (simp add: increasing_def sorted_wrt_append)

lemma increasing_le_last:
  assumes "increasing C es" "x \<in> set es"
  shows "Compare C (fst x) (fst (last es)) \<le> 0"
proof (cases "x = last es")
  case False
  obtain ys where ys: "es = ys @ [last es]" using assms(2) by (metis append_butlast_last_id list.set_cases neq_Nil_conv)
  then have "x \<in> set ys" using assms(2) False by (metis rotate1.simps(2) set_ConsD set_rotate1)
  then show ?thesis using assms(1) ys increasing_last [of ys "last es"] by fastforce
qed (simp add: cmp_refl)

text \<open>The index entry of the last block is added once the next key, or the end, is known.\<close>

lemma add_index_entry_ok:
  assumes b: "building c bl sp [] r" and p: "pending_index_entry r"
  shows "add_index_entry k r =
    Some (r\<lparr>tlast_key := k, index_block := add_all 1 (index_entries bl (sp @ [k])), pending_index_entry := False\<rparr>)"
proof -
  have l: "length bl = Suc (length sp)" "pending_handle r = snd (last bl)" using b p by (simp_all add: building_def)
  then have "last bl \<in> set bl" by (metis last_in_set list.size(3) nat.distinct(1))
  then have h: "handle_ok (snd (last bl))" using b by (auto simp: building_def blocks_in_def)
  have "index_entries bl (sp @ [k]) = index_entries bl sp @ [(k, encoded (snd (last bl)))]"
  proof -
    obtain bs x where bs: "bl = bs @ [x]" using l(1) by (metis length_0_conv nat.distinct(1) rev_exhaust)
    then show ?thesis using l(1) by (simp add: index_entries_def zip_append2)
  qed
  then have "add_all 1 (index_entries bl (sp @ [k])) = Add 1 k (encoded (snd (last bl))) (add_all 1 (index_entries bl sp))"
    by (simp add: add_all_def)
  then show ?thesis using b l h by (auto simp: add_index_entry_def Handle_EncodeTo_ok building_def)
qed

lemma blocks_nonempty: "blocks_in S I c bl \<Longrightarrow> \<forall>b \<in> set (map fst bl). b \<noteq> []"
  by (auto simp: blocks_in_def)

text \<open>The state after the entry went into the block in memory.\<close>

definition added :: "bytes \<Rightarrow> bytes \<Rightarrow> 'f TableBuilder \<Rightarrow> 'f TableBuilder" where
  "added k v r = r\<lparr>filter_block := map_option (\<lambda>(P, b). (P, AddKey k b)) (filter_block r), tlast_key := k,
     num_entries := num_entries r + 1, data_block := Add (block_restart_interval (options r)) k v (data_block r)\<rparr>"

lemma added_fields:
  "tfile (added k v r) = tfile r" "toffset (added k v r) = toffset r" "tstatus (added k v r) = tstatus r"
  "closed (added k v r) = closed r" "options (added k v r) = options r" "index_block_options (added k v r) = index_block_options r"
  "index_block (added k v r) = index_block r" "pending_index_entry (added k v r) = pending_index_entry r"
  "tlast_key (added k v r) = k" "num_entries (added k v r) = Suc (num_entries r)"
  "data_block (added k v r) = Add (block_restart_interval (options r)) k v (data_block r)"
  by (simp_all add: added_def)

lemma add_all_snoc: "add_all n (es @ [(k, v)]) = Add n k v (add_all n es)" "add_all n [(k, v)] = Add n k v (add_all n [])"
  by (simp_all add: add_all_def)

lemma added_filter:
  "filter_block r = map_option (\<lambda>P. filter_state P (calls @ [(off, ks)])) p \<Longrightarrow>
   filter_block (added k v r) = map_option (\<lambda>P. filter_state P (calls @ [(off, ks @ [k])])) p"
  by (cases p) (simp_all add: added_def filter_state_def add_block_def)

lemma added_building:
  assumes b: "building c bl sp cur r" and np: "\<not> pending_index_entry r"
    and inc: "increasing C (all_entries bl cur @ [(k, v)])"
  shows "building c bl sp (cur @ [(k, v)]) (added k v r)"
proof -
  have l: "length bl = length sp" "cur = [] \<longrightarrow> bl = []" using b np by (simp_all add: building_def)
  have below: "\<forall>x \<in> set (concat (map fst bl) @ cur). Compare C (fst x) k < 0"
    using increasing_last [OF inc] by (simp add: all_entries_def)
  have s: "separates C (map fst bl) (cur @ [(k, v)]) sp"
  proof (rule separates_add)
    show "separates C (map fst bl) cur sp" using b by (simp add: building_def)
    show "length (map fst bl) = length sp" using l by simp
    have s0: "separates C (map fst bl) cur sp" and ne: "\<forall>b \<in> set (map fst bl). b \<noteq> []"
      using b blocks_nonempty [of c bl] by (simp_all add: building_def)
    show "\<forall>j<length sp. Compare C (sp ! j) (fst (k, v)) < 0"
    proof (intro allI impI)
      fix j assume j: "j < length sp"
      then have "Suc j < length (map fst bl) \<or> cur \<noteq> []" "length sp \<le> length (map fst bl)" using l by auto
      then show "Compare C (sp ! j) (fst (k, v)) < 0" using separators_below [OF s0 _ ne below j] by simp
    qed
  qed
  have fb: "filter_block (added k v r) =
      map_option (\<lambda>P. filter_state P (filter_calls bl @ [(toffset r, map fst cur @ [k])])) (filter_policy opt)"
    by (rule added_filter) (use b in \<open>simp add: building_def\<close>)
  have r: "written (tfile r) c" "toffset r = word_of_nat (length c)" "tstatus r = OK" "\<not> closed r" "options r = opt"
    "index_block_options r = opt\<lparr>block_restart_interval := 1\<rparr>" "data_block r = add_all I cur"
    "index_block r = add_all 1 (index_entries bl sp)" "num_entries r = length (all_entries bl cur)"
    "length c \<le> weight (concat (map fst bl))" "blocks_in S I c bl"
    using b by (simp_all add: building_def)
  have a: "all_entries bl (cur @ [(k, v)]) = all_entries bl cur @ [(k, v)]" by (simp add: all_entries_def)
  show ?thesis unfolding building_def fb added_fields a r(5,7) add_all_snoc using r np s l by simp
qed

lemma separated_building:
  assumes b: "building c bl sp [] r" and p: "pending_index_entry r"
    and inc: "increasing C (all_entries bl [] @ [(k, v)])"
  defines "q \<equiv> FindShortestSeparator C (tlast_key r) k"
  shows "building c bl (sp @ [q]) [(k, v)] (added k v (r\<lparr>tlast_key := q,
    index_block := add_all 1 (index_entries bl (sp @ [q])), pending_index_entry := False\<rparr>))"
proof -
  let ?es = "concat (map fst bl)"
  have l: "length bl = Suc (length sp)" using b p by (simp add: building_def)
  have ne: "\<forall>b \<in> set (map fst bl). b \<noteq> []" using b blocks_nonempty [of c bl] by (simp add: building_def)
  have "bl \<noteq> []" using l by auto
  then have es: "?es \<noteq> []" using ne by (cases bl) auto
  have inc': "increasing C ?es" "\<forall>x \<in> set ?es. Compare C (fst x) k < 0"
    using inc increasing_last [OF inc] by (simp_all add: all_entries_def increasing_def sorted_wrt_append)
  have last: "tlast_key r = fst (last ?es)" using b es by (simp add: building_def all_entries_def)
  have "Compare C (tlast_key r) k < 0" using last bspec [OF inc'(2) last_in_set [OF es]] by simp
  then have q: "Compare C (tlast_key r) q \<le> 0" "Compare C q k < 0" using separator q_def by simp_all
  have above: "\<forall>x \<in> set ?es. Compare C (fst x) q \<le> 0"
    using increasing_le_last [OF inc'(1)] q(1) last cmp_trans by fastforce
  have s: "separates C (map fst bl) [(k, v)] (sp @ [q])"
  proof -
    have s0: "separates C (map fst bl) [] sp" using b by (simp add: building_def)
    have "last ?es = last (last (map fst bl))"
      using \<open>bl \<noteq> []\<close> ne by (cases bl rule: rev_cases) (auto simp: last_append)
    then have ql: "length q \<le> length (fst (last (last (map fst bl))))" using separator_length [of "tlast_key r" k] last by (simp add: q_def)
    have s1: "separates C (map fst bl) [] (sp @ [q])" using separates_pending [OF s0 _ above ql] l by simp
    have "Compare C ((sp @ [q]) ! j) k < 0" if "j < length (sp @ [q])" for j
    proof (cases "j < length sp")
      case True
      then show ?thesis using separators_below [OF s0 _ ne _ True, of k] inc'(2) l by (simp add: nth_append)
    next
      case False
      then show ?thesis using that q(2) by (simp add: nth_append)
    qed
    then show ?thesis using separates_add [OF s1, of "(k, v)"] l by simp
  qed
  let ?r = "r\<lparr>tlast_key := q, index_block := add_all 1 (index_entries bl (sp @ [q])), pending_index_entry := False\<rparr>"
  have fb: "filter_block (added k v ?r) =
      map_option (\<lambda>P. filter_state P (filter_calls bl @ [(toffset r, [] @ [k])])) (filter_policy opt)"
    by (rule added_filter) (use b in \<open>simp add: building_def\<close>)
  show ?thesis using b p s l unfolding building_def fb by (simp add: all_entries_def add_all_snoc added_fields)
qed

lemma TAdd_ok:
  assumes b: "building c bl sp cur r" and inc: "increasing C (all_entries bl cur @ [(k, v)])"
    and w: "weight (all_entries bl cur @ [(k, v)]) < 2 ^ 31"
  shows "\<exists>r' c' bl' sp' cur'. TAdd S W k v r = Some r' \<and> building c' bl' sp' cur' r' \<and>
    all_entries bl' cur' = all_entries bl cur @ [(k, v)]"
proof -
  have r: "\<not> closed r" "tstatus r = OK" "options r = opt" "data_block r = add_all I cur"
    "num_entries r = length (all_entries bl cur)" "all_entries bl cur \<noteq> [] \<longrightarrow> tlast_key r = fst (last (all_entries bl cur))"
    using b by (simp_all add: building_def)
  have gt: "\<not> (num_entries r > 0 \<and> \<not> Compare (comparator (options r)) k (tlast_key r) > 0)"
    using r(3,5,6) bspec [OF increasing_last [OF inc] last_in_set] cmp_antisym [of "tlast_key r" k] same_comparator
    by (cases "all_entries bl cur = []") auto
  obtain r1 sp' where 1: "building c bl sp' (cur @ [(k, v)]) (added k v r1)"
      "(if pending_index_entry r then
          if block_empty (data_block r)
          then add_index_entry (FindShortestSeparator (comparator (options r)) (tlast_key r) k) r
          else None
        else Some r) = Some r1"
  proof (cases "pending_index_entry r")
    case True
    then have "cur = []" using b by (simp add: building_def)
    then show ?thesis
      using that separated_building [of c bl sp r k v] add_index_entry_ok [of c bl sp r] b True inc r(3,4) same_comparator
      by (simp add: block_empty_add_all)
  next
    case False
    then show ?thesis using that added_building [OF b False inc] by simp
  qed
  define r2 where "r2 = added k v r1"
  have t: "TAdd S W k v r = (if CurrentSizeEstimate (data_block r2) \<ge> block_size (options r2) then TFlush S W r2 else Some r2)"
    using r(1,2) unfolding TAdd_def tok_def if_not_P [OF gt] 1(2) by (simp add: Let_def r2_def added_def)
  have a: "all_entries bl (cur @ [(k, v)]) = all_entries bl cur @ [(k, v)]" by (simp add: all_entries_def)
  show ?thesis
  proof (cases "CurrentSizeEstimate (data_block r2) \<ge> block_size (options r2)")
    case True
    obtain r' z h where "TFlush S W r2 = Some r'" "building (c @ z) (bl @ [(cur @ [(k, v)], h)]) sp' [] r'"
      using TFlush_ok [of c bl sp' "cur @ [(k, v)]" r2] 1(1) w a by (auto simp: r2_def)
    moreover have "all_entries (bl @ [(cur @ [(k, v)], h)]) [] = all_entries bl cur @ [(k, v)]" by (simp add: all_entries_def)
    ultimately show ?thesis using t True by metis
  next
    case False
    then show ?thesis using t 1(1) a by (auto simp: r2_def)
  qed
qed

lemma add_entries_ok:
  "building c bl sp cur r \<Longrightarrow> increasing C (all_entries bl cur @ es) \<Longrightarrow> weight (all_entries bl cur @ es) < 2 ^ 31 \<Longrightarrow>
   \<exists>r' c' bl' sp' cur'. add_entries S W es r = Some r' \<and> building c' bl' sp' cur' r' \<and> all_entries bl' cur' = all_entries bl cur @ es"
proof (induction es arbitrary: c bl sp cur r)
  case (Cons e es)
  obtain k v where e: "e = (k, v)" by (cases e)
  have "increasing C (all_entries bl cur @ [(k, v)])" "weight (all_entries bl cur @ [(k, v)]) < 2 ^ 31"
    using Cons.prems(2,3) e by (auto simp: increasing_def sorted_wrt_append)
  from TAdd_ok [OF Cons.prems(1) this] obtain r1 c1 bl1 sp1 cur1 where
    1: "TAdd S W k v r = Some r1" "building c1 bl1 sp1 cur1 r1" "all_entries bl1 cur1 = all_entries bl cur @ [(k, v)]" by blast
  show ?case using Cons.IH [OF 1(2)] Cons.prems(2,3) 1(1,3) e by simp
qed auto

end

end
