(* ===== verification/Table_Finish.thy ===== *)
theory Table_Finish
  imports Table_Layout Filter_Block
begin

text \<open>
  The end of building a table: filter, metaindex, index and footer, and the layout of the file.
\<close>

section \<open>The layout of a table file\<close>

definition meta_entries :: "FilterPolicy option \<Rightarrow> BlockHandle \<Rightarrow> entry list" where
  "meta_entries p fh = (case p of None \<Rightarrow> [] | Some P \<Rightarrow> [(bytes_of (''filter.'' @ Name P), encoded fh)])"

record layout =
  blocks :: "(entry list \<times> BlockHandle) list"
  separators :: "bytes list"
  meta_handle :: BlockHandle
  ix_handle :: BlockHandle
  filter_handle :: BlockHandle
  filter_end :: u64

definition layout_entries :: "layout \<Rightarrow> entry list" where
  "layout_entries l = concat (map fst (blocks l))"

definition layout_index :: "layout \<Rightarrow> entry list" where
  "layout_index l = index_entries (blocks l) (separators l)"

definition layout_filters :: "layout \<Rightarrow> (u64 \<times> bytes list) list" where
  "layout_filters l = filter_calls (blocks l) @ [(filter_end l, [])]"

definition table_file :: "Snappy \<Rightarrow> Comparator \<Rightarrow> nat \<Rightarrow> FilterPolicy option \<Rightarrow> bytes \<Rightarrow> layout \<Rightarrow> bool" where
  "table_file S C I p c l \<longleftrightarrow>
     length c < 2 ^ 32 \<and> (\<exists>z. c = z @ footer_bytes \<lparr>metaindex_handle = meta_handle l, index_handle = ix_handle l\<rparr>) \<and>
     stored S c (ix_handle l) (block_bytes 1 (layout_index l)) \<and> small 1 (layout_index l) \<and>
     stored S c (meta_handle l) (block_bytes I (meta_entries p (filter_handle l))) \<and> small I (meta_entries p (filter_handle l)) \<and>
     (\<forall>P. p = Some P \<longrightarrow> stored S c (filter_handle l) (build_filters P (layout_filters l)) \<and>
        length (build_filters P (layout_filters l)) < 2 ^ 32 \<and> sorted (map fst (layout_filters l))) \<and>
     blocks_in S I c (blocks l) \<and> (\<forall>(b, h) \<in> set (blocks l). small I b) \<and>
     length (separators l) = length (blocks l) \<and> separates C (map fst (blocks l)) [] (separators l)"

section \<open>Sizes\<close>

lemma weight_key: "x \<in> set es \<Longrightarrow> length (fst x) + 64 \<le> weight es"
  by (induction es) auto

lemma index_weight:
  "length sp \<le> length bl \<Longrightarrow> \<forall>j < length sp. length (sp ! j) \<le> length (fst (last (fst (bl ! j)))) \<Longrightarrow>
   \<forall>(b, h) \<in> set bl. b \<noteq> [] \<Longrightarrow> weight (index_entries bl sp) \<le> 2 * weight (concat (map fst bl))"
proof (induction sp arbitrary: bl)
  case (Cons s sp)
  then obtain b h bs where bl: "bl = (b, h) # bs" by (cases bl) auto
  have "length s \<le> length (fst (last b))" using spec [OF Cons.prems(2), of 0] bl by simp
  moreover have "length (fst (last b)) + 64 \<le> weight b" using Cons.prems(3) bl by (intro weight_key) auto
  moreover have "weight (index_entries bs sp) \<le> 2 * weight (concat (map fst bs))"
  proof (rule Cons.IH)
    show "length sp \<le> length bs" "\<forall>(b, h) \<in> set bs. b \<noteq> []" using Cons.prems(1,3) bl by auto
    show "\<forall>j < length sp. length (sp ! j) \<le> length (fst (last (fst (bs ! j))))"
    proof (intro allI impI)
      fix j assume "j < length sp"
      then show "length (sp ! j) \<le> length (fst (last (fst (bs ! j))))" using spec [OF Cons.prems(2), of "Suc j"] bl by simp
    qed
  qed
  ultimately show ?case using encoded_length [of h] by (simp add: bl index_entries_def kMaxEncodedLength_def)
qed (simp add: index_entries_def)

lemma small_weight: "0 < n \<Longrightarrow> weight es < 2 ^ 31 + 2 ^ 30 \<Longrightarrow> small n es"
  using block_bound [of n es] by (simp add: small_def)

lemma meta_weight:
  assumes "\<And>P. p = Some P \<Longrightarrow> length (Name P) \<le> 1000"
  shows "weight (meta_entries p fh) \<le> 1091"
  using assms encoded_length [of fh]
  by (cases p) (auto simp: meta_entries_def bytes_of_def kMaxEncodedLength_def)

section \<open>The steps\<close>

locale table_finish = table_build +
  assumes small_policy: "filter_policy opt = Some P \<Longrightarrow> small_filter_policy P"
begin

lemma filter_total:
  assumes "building c bl sp [] r" "weight (concat (map fst bl)) < 2 ^ 30" "filter_policy opt = Some P"
  shows "length (build_filters P (filter_calls bl @ [(toffset r, [])])) \<le> 2 ^ 29 + 2 ^ 22 + 9"
    "sorted (map fst (filter_calls bl @ [(toffset r, [])]))"
proof -
  have b: "length c \<le> weight (concat (map fst bl))" "toffset r = word_of_nat (length c)" "blocks_in S I c bl"
    using assms(1) by (simp_all add: building_def)
  then have o: "unat (toffset r) = length c" using word_of_nat_small [of "length c"] assms(2) by simp
  have h: "unat (offset h) < length c" if "(x, h) \<in> set bl" for x h using that b(3) by (auto simp: blocks_in_def)
  have "\<forall>(off, _) \<in> set (filter_calls bl @ [(toffset r, [])]). unat off < 2 ^ 31"
    using h o b(1) assms(2) by (fastforce simp: filter_calls_def)
  from small_filter_policy.build_filters_size [OF small_policy [OF assms(3)] this]
  have l: "length (build_filters P (filter_calls bl @ [(toffset r, [])])) \<le>
      32 * length (concat (map snd (filter_calls bl @ [(toffset r, [])]))) + 2 ^ 22 + 9" .
  have m: "concat (map snd (filter_calls bl @ [(toffset r, [])])) = map fst (concat (map fst bl))"
    by (simp add: filter_calls_def map_concat o_def case_prod_beta)
  show "length (build_filters P (filter_calls bl @ [(toffset r, [])])) \<le> 2 ^ 29 + 2 ^ 22 + 9"
    using l weight_length [of "concat (map fst bl)"] assms(2) unfolding m by simp
  have "map fst (filter_calls bl) = map (offset \<circ> snd) bl" by (simp add: filter_calls_def case_prod_beta)
  moreover have "\<forall>x \<in> set (map (offset \<circ> snd) bl). x \<le> toffset r"
    using h o by (auto simp: word_le_nat_alt intro: less_imp_le)
  ultimately show "sorted (map fst (filter_calls bl @ [(toffset r, [])]))" using b(3) by (auto simp: blocks_in_def sorted_append strict_sorted_imp_sorted)
qed

lemma write_filter_ok:
  assumes b: "building c bl sp [] r" and w: "weight (concat (map fst bl)) < 2 ^ 30"
  shows "\<exists>f z h. write_filter W (r\<lparr>closed := True\<rparr>) =
      Some (h, r\<lparr>closed := True, tfile := f, tstatus := OK, toffset := word_of_nat (length (c @ z))\<rparr>) \<and>
    written f (c @ z) \<and> length z \<le> 2 ^ 29 + 2 ^ 22 + 14 \<and>
    (\<forall>P. filter_policy opt = Some P \<longrightarrow> handle_ok h \<and> stored S (c @ z) h (build_filters P (filter_calls bl @ [(toffset r, [])])))"
proof (cases "filter_policy opt")
  case None
  then show ?thesis using b
    by (intro exI [of _ "tfile r"] exI [of _ "[]"] exI [of _ new_BlockHandle]) (simp add: write_filter_def building_def)
next
  case (Some P)
  let ?r = "r\<lparr>closed := True\<rparr>" and ?F = "build_filters P (filter_calls bl @ [(toffset r, [])])"
  have r: "written (tfile ?r) c" "toffset ?r = word_of_nat (length c)" "length c \<le> weight (concat (map fst bl))"
    using b by (simp_all add: building_def)
  obtain f where f: "WriteRawBlock W ?F kNoCompression ?r =
      Some (\<lparr>offset = word_of_nat (length c), hsize = word_of_nat (length ?F)\<rparr>,
        ?r\<lparr>tfile := f, tstatus := OK, toffset := word_of_nat (length (c @ ?F @ trailer ?F kNoCompression))\<rparr>)"
      "written f (c @ ?F @ trailer ?F kNoCompression)"
    using WriteRawBlock_ok [OF r(1,2)] by blast
  have l: "length ?F \<le> 2 ^ 29 + 2 ^ 22 + 9" using filter_total(1) [OF b w Some] .
  have s: "stored S (c @ ?F @ trailer ?F kNoCompression) \<lparr>offset = word_of_nat (length c), hsize = word_of_nat (length ?F)\<rparr> ?F"
    using l r(3) w by (intro stored_here) (auto simp: unpack_def kBlockTrailerSize_def)
  have h: "handle_ok \<lparr>offset = word_of_nat (length c), hsize = word_of_nat (length ?F)\<rparr>"
    using word_of_nat_small [of "length c"] word_of_nat_small [of "length ?F"] l r(3) w by (simp add: handle_ok_def)
  have "write_filter W ?r = WriteRawBlock W ?F kNoCompression ?r"
    using b Some by (simp add: write_filter_def building_def filter_state_def build_filters_def)
  then show ?thesis using f s h l Some
    by (intro exI [of _ f] exI [of _ "?F @ trailer ?F kNoCompression"]
        exI [of _ "\<lparr>offset = word_of_nat (length c), hsize = word_of_nat (length ?F)\<rparr>"]) (simp add: kBlockTrailerSize_def)
qed

lemma write_metaindex_ok:
  assumes r: "written (tfile r) c" "toffset r = word_of_nat (length c)" "tstatus r = OK" "options r = opt"
    and f: "filter_block r \<noteq> None \<longleftrightarrow> filter_policy opt \<noteq> None" "filter_policy opt \<noteq> None \<Longrightarrow> handle_ok fh"
    and l: "length c < 2 ^ 31"
  shows "\<exists>f z h. write_metaindex S W fh r =
      Some (h, r\<lparr>tfile := f, tstatus := OK, toffset := word_of_nat (length (c @ z))\<rparr>) \<and>
    written f (c @ z) \<and> length z \<le> 1200 \<and> handle_ok h \<and> stored S (c @ z) h (block_bytes I (meta_entries (filter_policy opt) fh))"
proof -
  let ?m = "meta_entries (filter_policy opt) fh"
  have raw: "buffer (Block.Finish (add_all I ?m)) = block_bytes I ?m" using Finish_layout interval by simp
  have ml: "weight ?m \<le> 1091" using small_filter_policy.name_size [OF small_policy] by (intro meta_weight)
  obtain f z where z: "WriteBlock S W (add_all I ?m) r =
      Some (\<lparr>offset = word_of_nat (length c), hsize = word_of_nat (length z - kBlockTrailerSize)\<rparr>,
        r\<lparr>tfile := f, tstatus := OK, toffset := word_of_nat (length (c @ z))\<rparr>)"
      "written f (c @ z)" "length z \<le> length (block_bytes I ?m) + kBlockTrailerSize"
      "length (c @ z) < 2 ^ 64 \<longrightarrow>
        stored S (c @ z) \<lparr>offset = word_of_nat (length c), hsize = word_of_nat (length z - kBlockTrailerSize)\<rparr> (block_bytes I ?m)"
    using WriteBlock_ok [OF r(1-3) snappy_axioms raw] by blast
  have lz: "length z \<le> 1200" using z(3) block_bound [of I ?m] ml by (simp add: kBlockTrailerSize_def)
  have h: "handle_ok \<lparr>offset = word_of_nat (length c), hsize = word_of_nat (length z - kBlockTrailerSize)\<rparr>"
    using word_of_nat_small [of "length c"] word_of_nat_small [of "length z - kBlockTrailerSize"] lz l by (simp add: handle_ok_def)
  have "write_metaindex S W fh r = WriteBlock S W (add_all I ?m) r"
  proof (cases "filter_policy opt")
    case None
    then have "filter_block r = None" using f(1) by (cases "filter_block r") simp_all
    then show ?thesis using None by (simp add: write_metaindex_def meta_entries_def add_all_def)
  next
    case (Some P)
    then show ?thesis using f r(4) by (simp add: write_metaindex_def meta_entries_def add_all_def Handle_EncodeTo_ok)
  qed
  then show ?thesis using z lz h l by fastforce
qed

text \<open>The separator of the last block is a successor of its last key.\<close>

lemma last_separator:
  assumes b: "building c bl sp [] r" and inc: "increasing C (concat (map fst bl))" and p: "pending_index_entry r"
  shows "separates C (map fst bl) [] (sp @ [FindShortSuccessor C (tlast_key r)])"
proof (rule separates_pending)
  have l: "length bl = Suc (length sp)" using b p by (simp add: building_def)
  have ne: "\<forall>b \<in> set (map fst bl). b \<noteq> []" using b blocks_nonempty [of c bl] by (simp add: building_def)
  have "bl \<noteq> []" using l by auto
  then have es: "concat (map fst bl) \<noteq> []" using ne by (cases bl) auto
  have last: "tlast_key r = fst (last (concat (map fst bl)))" using b es by (simp add: building_def all_entries_def)
  have "last (concat (map fst bl)) = last (last (map fst bl))"
    using \<open>bl \<noteq> []\<close> ne by (cases bl rule: rev_cases) (auto simp: last_append)
  then show "length (FindShortSuccessor C (tlast_key r)) \<le> length (fst (last (last (map fst bl))))"
    using successor_length [of "tlast_key r"] last by simp
  show "\<forall>x \<in> set (concat (map fst bl)). Compare C (fst x) (FindShortSuccessor C (tlast_key r)) \<le> 0"
    using increasing_le_last [OF inc] last successor cmp_trans by fastforce
  show "separates C (map fst bl) [] sp" using b by (simp add: building_def)
  show "length (map fst bl) = Suc (length sp)" using l by simp
qed

lemma write_index_ok:
  assumes b: "building c bl sp [] r0" and inc: "increasing C (concat (map fst bl))"
    and w: "weight (concat (map fst bl)) < 2 ^ 30" and l: "length c' < 2 ^ 31"
    and r: "r = r0\<lparr>closed := True, tfile := f, tstatus := OK, toffset := word_of_nat (length c')\<rparr>" and f: "written f c'"
  shows "\<exists>r' sp' f' z h. write_index S W r = Some (h, r') \<and>
    tfile r' = f' \<and> tstatus r' = OK \<and> toffset r' = word_of_nat (length (c' @ z)) \<and> num_entries r' = num_entries r0 \<and>
    written f' (c' @ z) \<and> length z \<le> 2 ^ 31 + 13 \<and> handle_ok h \<and>
    length sp' = length bl \<and> separates C (map fst bl) [] sp' \<and> stored S (c' @ z) h (block_bytes 1 (index_entries bl sp'))"
proof -
  define sp' where "sp' = (if pending_index_entry r0 then sp @ [FindShortSuccessor C (tlast_key r0)] else sp)"
  obtain r1 where r1: "(if pending_index_entry r then add_index_entry (FindShortSuccessor (comparator (options r)) (tlast_key r)) r
      else Some r) = Some r1"
      "index_block r1 = add_all 1 (index_entries bl sp')" "tfile r1 = f" "tstatus r1 = OK" "toffset r1 = word_of_nat (length c')"
      "num_entries r1 = num_entries r0"
  proof (cases "pending_index_entry r0")
    case True
    have a: "add_index_entry k r = map_option (\<lambda>r. r\<lparr>closed := True, tfile := f, tstatus := OK, toffset := word_of_nat (length c')\<rparr>)
        (add_index_entry k r0)" for k
      by (simp add: add_index_entry_def r Let_def map_option_case split: option.split bind_splits)
    show ?thesis using that add_index_entry_ok [OF b True] a True b r same_comparator by (simp add: building_def sp'_def)
  next
    case False
    then show ?thesis using that b r by (simp add: building_def sp'_def)
  qed
  have sp': "separates C (map fst bl) [] sp'" "length sp' = length bl"
    using last_separator [OF b inc] b by (auto simp: sp'_def building_def)
  have ne: "\<forall>(b, h) \<in> set bl. b \<noteq> []" using b by (auto simp: building_def blocks_in_def)
  have sl: "\<forall>j < length sp'. length (sp' ! j) \<le> length (fst (last (fst (bl ! j))))"
    using sp' by (auto simp: separates_def)
  have iw: "weight (index_entries bl sp') \<le> 2 * weight (concat (map fst bl))"
    using index_weight [OF _ sl ne] sp'(2) by simp
  have raw: "buffer (Block.Finish (index_block r1)) = block_bytes 1 (index_entries bl sp')" using Finish_layout [of 1] r1(2) by simp
  have f1: "written (tfile r1) c'" using f r1(3) by simp
  obtain f' z where z: "WriteBlock S W (index_block r1) r1 =
      Some (\<lparr>offset = word_of_nat (length c'), hsize = word_of_nat (length z - kBlockTrailerSize)\<rparr>,
        r1\<lparr>tfile := f', tstatus := OK, toffset := word_of_nat (length (c' @ z))\<rparr>)"
      "written f' (c' @ z)" "length z \<le> length (block_bytes 1 (index_entries bl sp')) + kBlockTrailerSize"
      "length (c' @ z) < 2 ^ 64 \<longrightarrow>
        stored S (c' @ z) \<lparr>offset = word_of_nat (length c'), hsize = word_of_nat (length z - kBlockTrailerSize)\<rparr>
          (block_bytes 1 (index_entries bl sp'))"
    using WriteBlock_ok [OF f1 r1(5,4) snappy_axioms raw] by blast
  have lz: "length z \<le> 2 ^ 31 + 13" using z(3) block_bound [of 1 "index_entries bl sp'"] iw w by (simp add: kBlockTrailerSize_def)
  have h: "handle_ok \<lparr>offset = word_of_nat (length c'), hsize = word_of_nat (length z - kBlockTrailerSize)\<rparr>"
    using word_of_nat_small [of "length c'"] word_of_nat_small [of "length z - kBlockTrailerSize"] lz l by (simp add: handle_ok_def)
  show ?thesis
    using r1(1,6) z lz h l sp'
    by (intro exI [of _ "r1\<lparr>tfile := f', tstatus := OK, toffset := word_of_nat (length (c' @ z)), index_block := Reset (index_block r1)\<rparr>"]
        exI [of _ sp'] exI [of _ f'] exI [of _ z]
        exI [of _ "\<lparr>offset = word_of_nat (length c'), hsize = word_of_nat (length z - kBlockTrailerSize)\<rparr>"])
      (simp add: write_index_def)
qed

lemma write_footer_ok:
  assumes "written (tfile r) c" "toffset r = word_of_nat (length c)" "handle_ok mh" "handle_ok ih"
  shows "\<exists>f. write_footer W mh ih r =
      Some ((), r\<lparr>tfile := f, tstatus := OK,
        toffset := word_of_nat (length (c @ footer_bytes \<lparr>metaindex_handle = mh, index_handle = ih\<rparr>))\<rparr>) \<and>
    written f (c @ footer_bytes \<lparr>metaindex_handle = mh, index_handle = ih\<rparr>)"
proof -
  let ?F = "footer_bytes \<lparr>metaindex_handle = mh, index_handle = ih\<rparr>"
  obtain f where "Append W ?F (tfile r) = Some (OK, f)" "written f (c @ ?F)" using Append_ok [OF assms(1)] by blast
  then show ?thesis using assms Footer_EncodeTo_ok [of "\<lparr>metaindex_handle = mh, index_handle = ih\<rparr>"]
    by (intro exI [of _ f]) (simp add: write_footer_def tok_def)
qed

text \<open>Before the end the block in memory is written.\<close>

lemma flush_last:
  assumes b: "building c bl sp cur r" and w: "weight (all_entries bl cur) < 2 ^ 31"
  shows "\<exists>r' c' bl'. TFlush S W r = Some r' \<and> building c' bl' sp [] r' \<and> concat (map fst bl') = all_entries bl cur"
proof (cases "cur = []")
  case True
  then have "TFlush S W r = Some r" using b by (simp add: TFlush_def building_def tok_def block_empty_add_all)
  then show ?thesis using b True by (auto simp: all_entries_def)
next
  case False
  then show ?thesis using TFlush_ok [OF b False w] by (fastforce simp: all_entries_def)
qed

lemma TFinish_ok:
  assumes b0: "building c0 bl0 sp cur r0" and inc: "increasing C (all_entries bl0 cur)"
    and w0: "weight (all_entries bl0 cur) < 2 ^ 30"
  shows "\<exists>r' c' l. TFinish S W r0 = Some (OK, r') \<and> written (tfile r') c' \<and>
    table_file S C I (filter_policy opt) c' l \<and> layout_entries l = all_entries bl0 cur \<and>
    FileSize r' = word_of_nat (length c') \<and> NumEntries r' = length (all_entries bl0 cur)"
proof -
  obtain r c bl where fl: "TFlush S W r0 = Some r" and b: "building c bl sp [] r" and es: "concat (map fst bl) = all_entries bl0 cur"
    using flush_last [OF b0] w0 by auto
  have w: "weight (concat (map fst bl)) < 2 ^ 30" and inc': "increasing C (concat (map fst bl))" using w0 inc es by simp_all
  have lc: "length c \<le> weight (concat (map fst bl))" "blocks_in S I c bl" "\<not> closed r" "options r = opt"
    and fb: "filter_block r \<noteq> None \<longleftrightarrow> filter_policy opt \<noteq> None" and ne: "num_entries r = length (all_entries bl0 cur)"
    using b es by (auto simp: building_def all_entries_def)
  obtain f1 z1 fh where 1: "write_filter W (r\<lparr>closed := True\<rparr>) =
        Some (fh, r\<lparr>closed := True, tfile := f1, tstatus := OK, toffset := word_of_nat (length (c @ z1))\<rparr>)"
      "written f1 (c @ z1)" "length z1 \<le> 2 ^ 29 + 2 ^ 22 + 14"
      "\<forall>P. filter_policy opt = Some P \<longrightarrow> handle_ok fh \<and> stored S (c @ z1) fh (build_filters P (filter_calls bl @ [(toffset r, [])]))"
    using write_filter_ok [OF b w] by blast
  let ?r1 = "r\<lparr>closed := True, tfile := f1, tstatus := OK, toffset := word_of_nat (length (c @ z1))\<rparr>"
  have l1: "length (c @ z1) < 2 ^ 31" using lc(1) 1(3) w by simp
  have "\<exists>f z h. write_metaindex S W fh ?r1 = Some (h, ?r1\<lparr>tfile := f, tstatus := OK, toffset := word_of_nat (length ((c @ z1) @ z))\<rparr>) \<and>
      written f ((c @ z1) @ z) \<and> length z \<le> 1200 \<and> handle_ok h \<and>
      stored S ((c @ z1) @ z) h (block_bytes I (meta_entries (filter_policy opt) fh))"
    using 1(2,4) l1 lc(4) fb by (intro write_metaindex_ok) auto
  then obtain f2 z2 mh where 2: "write_metaindex S W fh ?r1 =
        Some (mh, r\<lparr>closed := True, tfile := f2, tstatus := OK, toffset := word_of_nat (length ((c @ z1) @ z2))\<rparr>)"
      "written f2 ((c @ z1) @ z2)" "length z2 \<le> 1200" "handle_ok mh"
      "stored S ((c @ z1) @ z2) mh (block_bytes I (meta_entries (filter_policy opt) fh))" by auto
  let ?r2 = "r\<lparr>closed := True, tfile := f2, tstatus := OK, toffset := word_of_nat (length ((c @ z1) @ z2))\<rparr>" and ?c2 = "(c @ z1) @ z2"
  have l2: "length ?c2 < 2 ^ 31" using lc(1) 1(3) 2(3) w by simp
  obtain r3 sp' f3 z3 ih where 3: "write_index S W ?r2 = Some (ih, r3)"
      "tfile r3 = f3" "tstatus r3 = OK" "toffset r3 = word_of_nat (length (?c2 @ z3))" "num_entries r3 = num_entries r"
      "written f3 (?c2 @ z3)" "length z3 \<le> 2 ^ 31 + 13" "handle_ok ih"
      "length sp' = length bl" "separates C (map fst bl) [] sp'" "stored S (?c2 @ z3) ih (block_bytes 1 (index_entries bl sp'))"
    using write_index_ok [OF b inc' w l2 refl 2(2)] by blast
  let ?F = "footer_bytes \<lparr>metaindex_handle = mh, index_handle = ih\<rparr>" and ?c3 = "?c2 @ z3"
  obtain f4 where 4: "write_footer W mh ih r3 = Some ((), r3\<lparr>tfile := f4, tstatus := OK, toffset := word_of_nat (length (?c3 @ ?F))\<rparr>)"
      "written f4 (?c3 @ ?F)"
    using write_footer_ok [of r3 ?c3 mh ih] 3 2(4) by auto
  let ?r4 = "r3\<lparr>tfile := f4, tstatus := OK, toffset := word_of_nat (length (?c3 @ ?F))\<rparr>"
  have run: "TFinish S W r0 = Some (OK, ?r4)"
    using fl lc(3) 1(1) 2(1) 3(1,3) 4(1) by (simp add: TFinish_def when_ok_def tok_def b [unfolded building_def])
  have l4: "length (?c3 @ ?F) < 2 ^ 32"
    using lc(1) 1(3) 2(3) 3(7) w by (simp add: Footer_kEncodedLength_def kMaxEncodedLength_def)
  define l where "l = \<lparr>blocks = bl, separators = sp', meta_handle = mh, ix_handle = ih, filter_handle = fh, filter_end = toffset r\<rparr>"
  have l: "blocks l = bl" "separators l = sp'" "meta_handle l = mh" "ix_handle l = ih" "filter_handle l = fh"
    "layout_index l = index_entries bl sp'" "layout_filters l = filter_calls bl @ [(toffset r, [])]"
    by (simp_all add: l_def layout_index_def layout_filters_def)
  have grow: "stored S (?c3 @ ?F) h raw" if "stored S c' h raw" "?c3 @ ?F = c' @ y" for c' y h raw
    using stored_append [OF that(1), of y] l4 unfolding that(2) by simp
  have "table_file S C I (filter_policy opt) (?c3 @ ?F) l"
    unfolding table_file_def l
  proof (intro conjI allI impI)
    show "length (?c3 @ ?F) < 2 ^ 32" by (rule l4)
    show "\<exists>z. ?c3 @ ?F = z @ ?F" by blast
    show "stored S (?c3 @ ?F) ih (block_bytes 1 (index_entries bl sp'))" by (rule grow [OF 3(11)]) simp
    show "stored S (?c3 @ ?F) mh (block_bytes I (meta_entries (filter_policy opt) fh))" by (rule grow [OF 2(5)]) simp
    have iw: "weight (index_entries bl sp') \<le> 2 * weight (concat (map fst bl))"
    proof (rule index_weight)
      show "length sp' \<le> length bl" using 3(9) by simp
      show "\<forall>j < length sp'. length (sp' ! j) \<le> length (fst (last (fst (bl ! j))))" using 3(9,10) by (simp add: separates_def)
      show "\<forall>(b, h) \<in> set bl. b \<noteq> []" using lc(2) by (auto simp: blocks_in_def)
    qed
    show "small 1 (index_entries bl sp')" using iw w by (intro small_weight) simp_all
    show "small I (meta_entries (filter_policy opt) fh)"
      using meta_weight [of "filter_policy opt" fh] small_filter_policy.name_size [OF small_policy] interval
      by (intro small_weight) fastforce+
    show "blocks_in S I (?c3 @ ?F) bl" using blocks_in_append [OF lc(2), of "z1 @ z2 @ z3 @ ?F"] l4 by simp
    show "\<forall>(b, h) \<in> set bl. small I b"
    proof clarify
      fix b h assume "(b, h) \<in> set bl"
      then obtain xs ys where "bl = xs @ (b, h) # ys" by (meson split_list)
      then have "weight b \<le> weight (concat (map fst bl))" by simp
      then show "small I b" using w interval by (intro small_weight) simp_all
    qed
    show "length sp' = length bl" by (rule 3(9))
    show "separates C (map fst bl) [] sp'" by (rule 3(10))
    fix P assume P: "filter_policy opt = Some P"
    show "stored S (?c3 @ ?F) fh (build_filters P (filter_calls bl @ [(toffset r, [])]))"
      by (rule grow [OF conjunct2 [OF mp [OF spec [OF 1(4)] P]]]) simp
    show "length (build_filters P (filter_calls bl @ [(toffset r, [])])) < 2 ^ 32" using filter_total(1) [OF b w P] by simp
    show "sorted (map fst (filter_calls bl @ [(toffset r, [])]))" by (rule filter_total(2) [OF b w P])
  qed
  then show ?thesis using run 4(2) es ne 3(5)
    by (intro exI [of _ ?r4] exI [of _ "?c3 @ ?F"] exI [of _ l]) (simp add: FileSize_def NumEntries_def layout_entries_def l)
qed

theorem BuildTable_ok:
  assumes "written f []" "increasing C es" "weight es < 2 ^ 30"
  shows "\<exists>r c l. BuildTable S W opt es f = Some (OK, r) \<and> written (tfile r) c \<and>
    table_file S C I (filter_policy opt) c l \<and> layout_entries l = es \<and>
    FileSize r = word_of_nat (length c) \<and> NumEntries r = length es"
proof -
  obtain r0 where 0: "new_TableBuilder opt f = Some r0" "building [] [] [] [] r0" using new_TableBuilder_ok [OF assms(1)] by blast
  obtain r1 c1 bl sp cur where 1: "add_entries S W es r0 = Some r1" "building c1 bl sp cur r1" "all_entries bl cur = es"
    using add_entries_ok [OF 0(2), of es] assms(2,3) by (auto simp: all_entries_def)
  show ?thesis using TFinish_ok [OF 1(2)] assms(2,3) 0(1) 1(1,3) by (simp add: BuildTable_def)
qed

end

end
