(* ===== verification/Table_Reader.thy ===== *)
theory Table_Reader
  imports Table Table_Finish Two_Level
begin

text \<open>
  Reading a table file: the table that Open returns, the blocks that are read through the cache or
  from the file, and the iterator over all entries.
\<close>

section \<open>Parts of a layout\<close>

text \<open>The entries of the block of an encoded handle.\<close>

definition block_of :: "layout \<Rightarrow> bytes \<Rightarrow> entry list" where
  "block_of l h = (case find (\<lambda>(b, hd). encoded hd = h) (blocks l) of Some (b, _) \<Rightarrow> b | None \<Rightarrow> [])"

lemma distinct_offsets:
  assumes "sorted_wrt (<) (map (offset \<circ> snd) bl)" "(b, h) \<in> set bl" "(b', h') \<in> set bl" "offset h = offset h'"
  shows "b = b' \<and> h = h'"
proof -
  have "distinct (map (offset \<circ> snd) bl)" using assms(1) by (simp add: strict_sorted_iff)
  then have "inj_on (offset \<circ> snd) (set bl)" by (simp add: distinct_map)
  from inj_onD [OF this, of "(b, h)" "(b', h')"] show ?thesis using assms by simp
qed

lemma block_of_handle:
  assumes "table_file S C I p c l" "(b, h) \<in> set (blocks l)"
  shows "block_of l (encoded h) = b"
proof -
  have s: "sorted_wrt (<) (map (offset \<circ> snd) (blocks l))" using assms(1) by (simp add: table_file_def blocks_in_def)
  obtain y where y: "find (\<lambda>(b, hd). encoded hd = encoded h) (blocks l) = Some y"
    using assms(2) by (cases "find (\<lambda>(b, hd). encoded hd = encoded h) (blocks l)") (auto simp: find_None_iff encoded_inj)
  obtain b' h' where b': "y = (b', h')" by (cases y)
  have "(b', h') \<in> set (blocks l)" "h' = h" using y b' by (auto simp: find_Some_iff encoded_inj) (metis nth_mem)
  then have "fst y = b" using distinct_offsets [OF s _ assms(2), of b' h'] b' by simp
  then show ?thesis using y by (auto simp: block_of_def split: prod.split)
qed

lemma layout_index_nth:
  assumes "table_file S C I p c l" "j < length (blocks l)"
  shows "layout_index l ! j = (separators l ! j, encoded (snd (blocks l ! j)))" "length (layout_index l) = length (blocks l)"
  using assms by (simp_all add: table_file_def layout_index_def index_entries_def)

lemma layout_handles: "table_file S C I p c l \<Longrightarrow> handles_of (layout_index l) = encoded ` snd ` set (blocks l)"
proof -
  assume t: "table_file S C I p c l"
  have "map snd (layout_index l) = map (encoded \<circ> snd) (blocks l)"
    using t by (simp add: layout_index_def index_entries_def table_file_def)
  then have "set (map snd (layout_index l)) = set (map (encoded \<circ> snd) (blocks l))" by simp
  then show ?thesis by (simp add: handles_of_def image_comp)
qed

lemma iterator_on_first:
  assumes "iterator A C es pos"
  shows "iterator (on_first A) C es (\<lambda>i s. snd s = r \<and> Q \<and> pos i (fst s))"
  using iterator.pos_le [OF assms] iterator.Valid_ok [OF assms] iterator.key_ok [OF assms] iterator.value_ok [OF assms]
    iterator.status_ok [OF assms] iterator.SeekToFirst_ok [OF assms] iterator.SeekToLast_ok [OF assms]
    iterator.Seek_ok [OF assms] iterator.Next_ok [OF assms] iterator.Prev_ok [OF assms]
  by unfold_locales (fastforce simp: on_first_def)+

text \<open>The iterator of a block that the builder made.\<close>

definition any_at :: "Comparator \<Rightarrow> nat \<Rightarrow> entry list \<Rightarrow> nat \<Rightarrow> Status + Iter \<Rightarrow> bool" where
  "any_at C I es i s \<longleftrightarrow> (\<exists>b. s = Inr b \<and> at_entry C I es i b)"

lemma any_iterator: "Comparator.comparator C \<Longrightarrow> iterator AnyBlockIter C es (any_at C I es)"
  unfolding AnyBlockIter_def any_at_def by (rule iterator_dispatch) (rule block_iterator)

definition dpos :: "Comparator \<Rightarrow> nat \<Rightarrow> layout \<Rightarrow> bool \<Rightarrow> bytes \<Rightarrow> nat option \<Rightarrow> nat \<Rightarrow> BlockIterator \<Rightarrow> bool" where
  "dpos C I l cached h r i s \<longleftrightarrow> snd s = r \<and> (r = None \<or> cached) \<and> any_at C I (block_of l h) i (fst s)"

lemma data_iterator: "Comparator.comparator C \<Longrightarrow> iterator BlockIterators C (block_of l h) (dpos C I l cached h r)"
  unfolding BlockIterators_def dpos_def by (rule iterator_on_first) (rule any_iterator)

section \<open>The table and the cache\<close>

locale table_reader = random_access_file R contents + comparator C
  for R :: "'f RandomAccessFile" and contents :: "'f \<Rightarrow> bytes \<Rightarrow> bool" and C :: Comparator +
  fixes K :: "(Block, 'c) Cache option" and cok :: "'c \<Rightarrow> bool" and entry :: "'c \<Rightarrow> nat \<Rightarrow> (bytes \<times> Block) option"
    and clients :: "'c \<Rightarrow> nat \<Rightarrow> nat" and last_id :: "'c \<Rightarrow> u64" and S :: Snappy and I :: nat and p :: "FilterPolicy option"
  assumes cache: "K = Some K' \<Longrightarrow> cache K' cok entry clients last_id"
    and interval: "1 \<le> I"
    and policy: "p = Some P \<Longrightarrow> Bloom.filter_policy P"
begin

lemma comparator_C: "Comparator.comparator C" ..

definition table_of :: "bytes \<Rightarrow> layout \<Rightarrow> 'f Table \<Rightarrow> bool" where
  "table_of c l t \<longleftrightarrow> table_file S C I p c l \<and> contents (t_file t) c \<and> comparator (t_options t) = C \<and>
     new_Block (block_bytes 1 (layout_index l)) = Some (t_index_block t) \<and> t_metaindex_handle t = meta_handle l \<and>
     (t_filter t = None \<or> (\<exists>P. p = Some P \<and> t_filter t = Some (P, new_FilterBlockReader (build_filters P (layout_filters l)))))"

text \<open>
  The cache holds only right blocks of the table, and the references that are counted on.
\<close>

definition cached_ok :: "u64 \<Rightarrow> layout \<Rightarrow> bytes \<Rightarrow> Block \<Rightarrow> bool" where
  "cached_ok i l k b \<longleftrightarrow> (\<forall>off. k = cache_key i off \<longrightarrow>
     (\<exists>es h. (es, h) \<in> set (blocks l) \<and> offset h = off \<and> new_Block (block_bytes I es) = Some b))"

definition good :: "u64 \<Rightarrow> layout \<Rightarrow> nat option list \<Rightarrow> nat option list \<Rightarrow> 'c \<Rightarrow> bool" where
  "good i l base rs x \<longleftrightarrow> K = None \<or>
     cok x \<and> (\<forall>h k b. entry x h = Some (k, b) \<longrightarrow> cached_ok i l k b) \<and> (\<forall>h. count_list (rs @ base) (Some h) \<le> clients x h)"

lemma good_none: "good i l base rs x \<Longrightarrow> good i l base (None # rs) x"
  by (simp add: good_def)

lemma cache_key_inj: "cache_key i a = cache_key j b \<longleftrightarrow> i = j \<and> a = b"
proof
  assume e: "cache_key i a = cache_key j b"
  have "EncodeFixed64 i = EncodeFixed64 j" "EncodeFixed64 a = EncodeFixed64 b"
    using e by (auto simp: cache_key_def append_eq_append_conv)
  then show "i = j \<and> a = b" using DecodeFixed64_Encode by (metis option.inject)
qed simp

lemma block_in:
  assumes "table_file S C I p c l" "(b, h) \<in> set (blocks l)"
  shows "stored S c h (block_bytes I b)" "small I b" "b \<noteq> []" "handle_ok h"
  using assms by (auto simp: table_file_def blocks_in_def)

lemma read_from_file:
  assumes t: "table_of c l t" and b: "(b, h) \<in> set (blocks l)"
  shows "\<exists>r blk it. ReadBlock S R v h (t_file t) = Some (OK, r) \<and> new_Block (cdata r) = Some blk \<and>
    new_Block (block_bytes I b) = Some blk \<and> NewIterator C blk = Some (Inr it) \<and> at_entry C I b (length b) it"
proof -
  have f: "table_file S C I p c l" "contents (t_file t) c" using t by (simp_all add: table_of_def)
  obtain r where "ReadBlock S R v h (t_file t) = Some (OK, r)" "cdata r = block_bytes I b"
    using ReadBlock_ok [OF f(2) block_in(1) [OF f(1) b]] by blast
  then show ?thesis using NewIterator_built [OF block_in(2) [OF f(1) b], of C] by auto
qed

lemma read_block_ok:
  assumes t: "table_of c l t" and g: "good (cache_id t) l base rs x" and b: "(b, h) \<in> set (blocks l)"
  shows "\<exists>blk ch x' it. read_block K S R t opt h x = Some (OK, Some (blk, ch), x') \<and> NewIterator C blk = Some (Inr it) \<and>
    at_entry C I b (length b) it \<and> (ch = None \<or> K \<noteq> None) \<and> good (cache_id t) l base (ch # rs) x'"
proof -
  obtain r blk it where r: "ReadBlock S R (verify_checksums opt) h (t_file t) = Some (OK, r)" "new_Block (cdata r) = Some blk"
      "new_Block (block_bytes I b) = Some blk" "NewIterator C blk = Some (Inr it)" "at_entry C I b (length b) it"
    using read_from_file [OF t b] by blast
  show ?thesis
  proof (cases K)
    case None
    then show ?thesis using r good_none [OF g] by (simp add: read_block_def)
  next
    case (Some K')
    let ?key = "cache_key (cache_id t) (offset h)"
    have c: "cache K' cok entry clients last_id" using cache [OF Some] .
    have x: "cok x" "\<forall>h k b. entry x h = Some (k, b) \<longrightarrow> cached_ok (cache_id t) l k b"
      "\<forall>h. count_list (rs @ base) (Some h) \<le> clients x h"
      using g [unfolded good_def] Some by simp_all
    obtain rr x1 where 1: "Cache_Lookup K' ?key x = Some (rr, x1)" "cok x1" "entry x1 = entry x"
        "case rr of None \<Rightarrow> clients x1 = clients x
         | Some h \<Rightarrow> clients x1 = (clients x)(h := clients x h + 1) \<and> (\<exists>v. entry x h = Some (?key, v))"
      using cache.Lookup_ok [OF c x(1), of ?key] by blast
    show ?thesis
    proof (cases rr)
      case hit: (Some hh)
      then obtain v where v: "entry x hh = Some (?key, v)" "clients x1 = (clients x)(hh := clients x hh + 1)" using 1(4) by auto
      then obtain es h' where "(es, h') \<in> set (blocks l)" "offset h' = offset h" "new_Block (block_bytes I es) = Some v"
        using x(2) [rule_format, OF v(1)] by (auto simp: cached_ok_def)
      moreover have "sorted_wrt (<) (map (offset \<circ> snd) (blocks l))"
        using t by (simp add: table_of_def table_file_def blocks_in_def)
      ultimately have vb: "v = blk" using distinct_offsets b r(3) by (metis option.inject)
      have "good (cache_id t) l base (Some hh # rs) x1" unfolding good_def using 1(2,3) v(2) x by auto
      then show ?thesis using 1(1) hit Some r(4,5) cache.Value_ok [OF c 1(2), of hh ?key v] v(1) 1(3) vb
        by (simp add: read_block_def)
    next
      case miss: None
      have g1: "good (cache_id t) l base rs x1" unfolding good_def using 1(2-4) miss x by simp
      show ?thesis
      proof (cases "cachable r \<and> fill_cache opt")
        case False
        then show ?thesis using 1(1) miss Some r good_none [OF g1] by (auto simp: read_block_def)
      next
        case True
        obtain hh x2 where 2: "Cache_Insert K' ?key blk (bsize blk) x1 = Some (hh, x2)" "cok x2"
            "clients x1 hh = 0" "clients x2 = (clients x1)(hh := 1)" "entry x2 hh = Some (?key, blk)"
            "only_drops ((entry x1)(hh := Some (?key, blk))) (entry x2) (clients x2)"
          using cache.Insert_ok [OF c 1(2), of ?key blk "bsize blk"] by blast
        have "cached_ok (cache_id t) l k b'" if "entry x2 h' = Some (k, b')" for h' k b'
        proof (cases "h' = hh")
          case True
          then show ?thesis using that 2(5) b r(3) by (auto simp: cached_ok_def cache_key_inj intro!: exI [of _ b] exI [of _ h])
        next
          case False
          then have "entry x1 h' = Some (k, b')" using that 2(6) unfolding only_drops_def by (metis fun_upd_apply option.distinct(1))
          then show ?thesis using 1(3) x(2) by simp
        qed
        moreover have "count_list ((Some hh # rs) @ base) (Some h') \<le> clients x2 h'" for h'
        proof -
          have "count_list (rs @ base) (Some h') \<le> clients x1 h'" using g1 [unfolded good_def] Some by simp
          then show ?thesis using 2(3,4) by (cases "h' = hh") auto
        qed
        ultimately have "good (cache_id t) l base (Some hh # rs) x2" unfolding good_def using 2(2) by simp
        then show ?thesis using 1(1) miss Some r 2(1) True by (auto simp: read_block_def)
      qed
    qed
  qed
qed

lemma BlockReader_ok:
  assumes t: "table_of c l t" and g: "good (cache_id t) l base rs x" and h: "h \<in> handles_of (layout_index l)"
  shows "\<exists>d x' i r. BlockReader K S R t opt h x = Some (d, x') \<and> dpos C I l (K \<noteq> None) h r i d \<and>
    good (cache_id t) l base (r # rs) x'"
proof -
  have f: "table_file S C I p c l" "comparator (t_options t) = C" using t by (simp_all add: table_of_def)
  obtain b hd where b: "(b, hd) \<in> set (blocks l)" "h = encoded hd" using h layout_handles [OF f(1)] by auto
  obtain blk ch x' it where r: "read_block K S R t opt hd x = Some (OK, Some (blk, ch), x')" "NewIterator C blk = Some (Inr it)"
      "at_entry C I b (length b) it" "ch = None \<or> K \<noteq> None" "good (cache_id t) l base (ch # rs) x'"
    using read_block_ok [OF t g b(1)] by blast
  have "dpos C I l (K \<noteq> None) h ch (length b) (Inr it, ch)"
    using r(3,4) block_of_handle [OF f(1) b(1)] by (auto simp: dpos_def any_at_def b(2))
  then show ?thesis using r(1,2,5) f(2) by (simp add: BlockReader_def b(2)) blast
qed

lemma ReleaseBlock_ok:
  assumes g: "good i l base (r # rs) x" and d: "dpos C I l (K \<noteq> None) h r j d"
  shows "\<exists>x'. ReleaseBlock K d x = Some x' \<and> good i l base rs x'"
proof (cases r)
  case None
  then show ?thesis using g d by (auto simp: ReleaseBlock_def dpos_def good_def)
next
  case (Some hh)
  then obtain K' where K': "K = Some K'" using d by (auto simp: dpos_def)
  have x: "cok x" "\<forall>h k b. entry x h = Some (k, b) \<longrightarrow> cached_ok i l k b" "\<forall>h. count_list ((r # rs) @ base) (Some h) \<le> clients x h"
    using g [unfolded good_def] K' by simp_all
  have "clients x hh > 0" using x(3) [rule_format, of hh] Some by simp
  from cache.Release_ok [OF cache [OF K'] x(1) this] obtain x' where x': "Cache_Release K' hh x = Some x'" "cok x'"
      "clients x' = (clients x)(hh := clients x hh - 1)" "only_drops (entry x) (entry x') (clients x')" by blast
  have "cached_ok i l k b" if "entry x' h = Some (k, b)" for h k b
    using that x'(4) x(2) unfolding only_drops_def by (metis option.distinct(1))
  moreover have "count_list (rs @ base) (Some h) \<le> clients x' h" for h
    using x(3) [rule_format, of h] x'(3) Some by (cases "h = hh") auto
  ultimately have "good i l base rs x'" unfolding good_def using x'(2) by blast
  then show ?thesis using d K' Some x'(1) by (auto simp: ReleaseBlock_def dpos_def)
qed

text \<open>The separators order the blocks.\<close>

lemma layout_order:
  assumes f: "table_file S C I p c l"
  shows "j < length (blocks l) \<Longrightarrow> x \<in> set (fst (blocks l ! j)) \<Longrightarrow> Compare C (fst x) (separators l ! j) \<le> 0"
    and "j < k \<Longrightarrow> k < length (blocks l) \<Longrightarrow> x \<in> set (fst (blocks l ! k)) \<Longrightarrow> Compare C (separators l ! j) (fst x) < 0"
proof -
  have s: "separates C (map fst (blocks l)) [] (separators l)" "length (separators l) = length (blocks l)"
    using f by (simp_all add: table_file_def)
  show "Compare C (fst x) (separators l ! j) \<le> 0" if "j < length (blocks l)" "x \<in> set (fst (blocks l ! j))"
  proof -
    have "fst (blocks l ! j) \<in> set (take (Suc j) (map fst (blocks l)))"
      using that(1) by (simp add: take_Suc_conv_app_nth)
    then show ?thesis using s that unfolding separates_def by fastforce
  qed
  show "Compare C (separators l ! j) (fst x) < 0" if "j < k" "k < length (blocks l)" "x \<in> set (fst (blocks l ! k))"
  proof -
    have "drop (Suc j) (map fst (blocks l)) ! (k - Suc j) = fst (blocks l ! k)" using that by simp
    then have "fst (blocks l ! k) \<in> set (drop (Suc j) (map fst (blocks l)))"
      using that(1,2) by (metis diff_less_mono length_drop length_map nth_mem Suc_leI)
    then show ?thesis using s that unfolding separates_def by fastforce
  qed
qed

lemma layout_increasing:
  assumes f: "table_file S C I p c l"
  shows "increasing C (layout_index l)"
  unfolding increasing_def sorted_wrt_iff_nth_less
proof (intro allI impI)
  fix j k assume jk: "j < k" "k < length (layout_index l)"
  then have k: "k < length (blocks l)" "j < length (blocks l)" using f by (auto simp: layout_index_def index_entries_def table_file_def)
  then have "fst (blocks l ! k) \<noteq> []" using f by (force simp: table_file_def blocks_in_def dest: nth_mem)
  then obtain x where "x \<in> set (fst (blocks l ! k))" by (meson list.set_sel(1))
  then have "Compare C (separators l ! j) (separators l ! k) < 0"
    using layout_order [OF f] jk(1) k(1) cmp_less_trans by blast
  then show "Compare C (fst (layout_index l ! j)) (fst (layout_index l ! k)) < 0" using layout_index_nth [OF f] k by simp
qed

lemma layout_block:
  assumes f: "table_file S C I p c l" and j: "j < length (layout_index l)"
  shows "block_of l (snd (layout_index l ! j)) = fst (blocks l ! j)" "j < length (blocks l)" "fst (layout_index l ! j) = separators l ! j"
proof -
  show k: "j < length (blocks l)" using f j by (auto simp: layout_index_def index_entries_def table_file_def)
  then show "block_of l (snd (layout_index l ! j)) = fst (blocks l ! j)" "fst (layout_index l ! j) = separators l ! j"
    using layout_index_nth [OF f] block_of_handle [OF f, of "fst (blocks l ! j)" "snd (blocks l ! j)"] by simp_all
qed

lemma table_two_level:
  assumes t: "table_of c l t"
  shows "two_level C (table_levels K S R t opt) (layout_index l) (any_at C 1 (layout_index l)) (block_of l)
    (dpos C I l (K \<noteq> None)) (good (cache_id t) l base)"
proof -
  have f: "table_file S C I p c l" using t by (simp add: table_of_def)
  show ?thesis
  proof (intro two_level.intro two_level_axioms.intro, goal_cases)
    case 1
    show ?case by (rule comparator_C)
  next
    case 2
    show ?case using any_iterator [OF comparator_C] by (simp add: table_levels_def)
  next
    case (3 h r)
    show ?case using data_iterator [OF comparator_C] by (simp add: table_levels_def)
  next
    case (4 rs e h)
    then show ?case using BlockReader_ok [OF t] by (simp add: table_levels_def)
  next
    case (5 r rs e h i d)
    then show ?case using ReleaseBlock_ok by (simp add: table_levels_def)
  next
    case (6 r r' rs e)
    have "count_list ((r' # r # rs) @ base) h = count_list ((r # r' # rs) @ base) h" for h by simp
    then show ?case using 6 unfolding good_def by (simp only:)
  next
    case 7
    show ?case by (rule layout_increasing [OF f])
  next
    case (8 j x)
    then show ?case using layout_block [OF f 8(1)] layout_order(1) [OF f, of j x] by simp
  next
    case (9 j k x)
    then show ?case using layout_block [OF f 9(2)] layout_block(3) [OF f, of j] layout_order(2) [OF f, of j k x] by simp
  qed
qed

lemma two_level_entries:
  assumes f: "table_file S C I p c l"
  shows "concat (map (block_of l \<circ> snd) (layout_index l)) = layout_entries l"
proof -
  have len: "length (layout_index l) = length (blocks l)" using f by (simp add: layout_index_def index_entries_def table_file_def)
  have "map (block_of l \<circ> snd) (layout_index l) = map fst (blocks l)"
  proof (rule nth_equalityI)
    show "length (map (block_of l \<circ> snd) (layout_index l)) = length (map fst (blocks l))" using len by simp
    fix i assume "i < length (map (block_of l \<circ> snd) (layout_index l))"
    then show "map (block_of l \<circ> snd) (layout_index l) ! i = map fst (blocks l) ! i" using layout_block(1,2) [OF f, of i] by simp
  qed
  then show ?thesis by (simp add: layout_entries_def)
qed

section \<open>The iterator over the table\<close>

definition tab_pos :: "u64 \<Rightarrow> layout \<Rightarrow> nat option list \<Rightarrow> nat \<Rightarrow> (Status + Iter, BlockIterator, 'c) TwoLevelIterator \<Rightarrow> bool" where
  "tab_pos i l base = two_level.tpos (layout_index l) (any_at C 1 (layout_index l)) (block_of l) (dpos C I l (K \<noteq> None)) (good i l base)"

lemma table_iterator:
  assumes t: "table_of c l t"
  shows "iterator (TwoLevelIter (table_levels K S R t opt)) C (layout_entries l) (tab_pos (cache_id t) l base)"
proof -
  have f: "table_file S C I p c l" using t by (simp add: table_of_def)
  show ?thesis
    using two_level.two_level_iterator [OF table_two_level [OF t, where opt = opt and base = base]] two_level_entries [OF f]
    unfolding tab_pos_def two_level.es_def [OF table_two_level [OF t, where opt = opt and base = base]] by simp
qed

lemma index_iterator:
  assumes t: "table_of c l t"
  shows "\<exists>it. NewIterator (comparator (t_options t)) (t_index_block t) = Some it \<and>
    any_at C 1 (layout_index l) (length (layout_index l)) it"
  using t NewIterator_built [of 1 "layout_index l" C] by (auto simp: table_of_def table_file_def any_at_def)

lemma Table_NewIterator_ok:
  assumes t: "table_of c l t" and g: "good (cache_id t) l base [] x"
  shows "\<exists>it. Table_NewIterator K S R t opt x = Some it \<and> tab_pos (cache_id t) l base (length (layout_entries l)) it"
proof -
  have f: "table_file S C I p c l" using t by (simp add: table_of_def)
  obtain i where i: "NewIterator (comparator (t_options t)) (t_index_block t) = Some i" "any_at C 1 (layout_index l) (length (layout_index l)) i"
    using index_iterator [OF t] by blast
  note tl = table_two_level [OF t, where opt = opt and base = base]
  show ?thesis
    using two_level.new_TwoLevelIterator_ok [OF tl g i(2)] i(1) two_level_entries [OF f]
    unfolding tab_pos_def two_level.es_def [OF tl] by (simp add: Table_NewIterator_def)
qed

section \<open>Looking up a key\<close>

lemma filter_match:
  assumes t: "table_of c l t" and fl: "t_filter t = Some (P, r)" and b: "(b, ha) \<in> set (blocks l)" and k: "k \<in> fst ` set b"
  shows "FilterKeyMayMatch P r (offset ha) k"
proof -
  have f: "p = Some P" "r = new_FilterBlockReader (build_filters P (layout_filters l))" "table_file S C I p c l"
    using t fl by (auto simp: table_of_def)
  have "(offset ha, map fst b) \<in> set (layout_filters l)"
    using b by (force simp: layout_filters_def filter_calls_def)
  then show ?thesis
    using filter_policy.build_filters_match [OF policy [OF f(1)], of "layout_filters l" "offset ha" "map fst b" k] f k
    by (auto simp: table_file_def)
qed

text \<open>An entry with the key is in the block that the index leads to.\<close>

lemma entry_block:
  assumes f: "table_file S C I p c l" and inc: "increasing C (layout_entries l)" and q: "q < length (layout_entries l)"
    and k: "fst (layout_entries l ! q) = k"
  defines "j \<equiv> seek_pos C k (layout_index l)"
  shows "j < length (layout_index l) \<and> (\<exists>i < length (fst (blocks l ! j)). fst (blocks l ! j) ! i = layout_entries l ! q)"
proof -
  have "layout_entries l ! q \<in> set (layout_entries l)" using q by simp
  then obtain jj where jj: "jj < length (blocks l)" "layout_entries l ! q \<in> set (fst (blocks l ! jj))"
    by (auto simp: layout_entries_def in_set_conv_nth [of _ "blocks l"])
  have ix: "layout_index l ! i = (separators l ! i, encoded (snd (blocks l ! i)))" if "i < length (blocks l)" for i
    using layout_index_nth(1) [OF f that] .
  have len: "length (layout_index l) = length (blocks l)" using f by (simp add: layout_index_def index_entries_def table_file_def)
  have le: "Compare C k (separators l ! jj) \<le> 0" using layout_order(1) [OF f jj] k by simp
  have "\<not> jj < j"
  proof
    assume "jj < j"
    then have "Compare C (separators l ! jj) k < 0" using seek_pos_below [of jj C k "layout_index l"] ix [OF jj(1)] by (simp add: j_def)
    then show False using le cmp_antisym [of k "separators l ! jj"] cmp_antisym [of "separators l ! jj" k] by linarith
  qed
  then have j: "j \<le> jj" "j < length (layout_index l)" using jj(1) len by simp_all
  have "\<not> j < jj"
  proof
    assume "j < jj"
    then have "Compare C (separators l ! j) k < 0" using layout_order(2) [OF f _ jj] k by simp
    then show False using seek_pos_at [of C k "layout_index l"] j(2) ix [of j] len by (simp add: j_def)
  qed
  then have "jj = j" using j by simp
  then show ?thesis using jj(2) j(2) by (auto simp: in_set_conv_nth)
qed

text \<open>What the saver gets is the first entry at or behind the key; a key of the table is always found.\<close>

definition get_result :: "entry list \<Rightarrow> bytes \<Rightarrow> entry option \<Rightarrow> bool" where
  "get_result es k saved \<longleftrightarrow>
     (saved = None \<or> seek_pos C k es < length es \<and> saved = Some (es ! seek_pos C k es)) \<and>
     (\<forall>q < length es. fst (es ! q) = k \<longrightarrow> saved = Some (es ! q))"

lemma InternalGet_ok:
  assumes t: "table_of c l t" and g: "good (cache_id t) l base [] x" and inc: "increasing C (layout_entries l)"
  shows "\<exists>saved x'. InternalGet K S R t opt k x = Some (OK, saved, x') \<and> good (cache_id t) l base [] x' \<and>
    get_result (layout_entries l) k saved"
proof -
  let ?es = "layout_entries l" and ?ix = "layout_index l"
  have f: "table_file S C I p c l" using t by (simp add: table_of_def)
  have len: "length ?ix = length (blocks l)" using f by (simp add: layout_index_def index_entries_def table_file_def)
  define j where "j = seek_pos C k ?ix"
  obtain i0 where i0: "NewIterator (comparator (t_options t)) (t_index_block t) = Some i0" "any_at C 1 ?ix (length ?ix) i0"
    using index_iterator [OF t] by blast
  note II = any_iterator [OF comparator_C, of ?ix 1]
  obtain ii where ii: "it_Seek AnyBlockIter k i0 = Some ii" "any_at C 1 ?ix j ii"
    using iterator.Seek_ok [OF II i0(2) layout_increasing [OF f], of k] by (auto simp: j_def)
  have st: "it_status AnyBlockIter ii = OK" using iterator.status_ok [OF II ii(2)] .
  note tl = table_two_level [OF t, where opt = opt and base = base]
  note es = two_level.es_def [OF tl, unfolded two_level_entries [OF f]]
  show ?thesis
  proof (cases "j < length ?ix")
    case False
    then have "\<not> it_Valid AnyBlockIter ii" using iterator.Valid_ok [OF II ii(2)] by simp
    moreover have "get_result ?es k None"
      using entry_block [OF f inc] False by (auto simp: get_result_def j_def)
    ultimately show ?thesis using i0(1) ii(1) st g by (simp add: InternalGet_def)
  next
    case True
    obtain b hd where b: "blocks l ! j = (b, hd)" by (cases "blocks l ! j")
    have bi: "(b, hd) \<in> set (blocks l)" using b True len by (metis nth_mem)
    have v: "it_Valid AnyBlockIter ii" "it_value AnyBlockIter ii = Some (encoded hd)"
      using iterator.Valid_ok [OF II ii(2)] iterator.value_ok [OF II ii(2) True] True layout_index_nth(1) [OF f, of j] len b by simp_all
    have found: "\<exists>i < length b. b ! i = ?es ! q" if "q < length ?es" "fst (?es ! q) = k" for q
      using entry_block [OF f inc that] b by (simp add: j_def)
    show ?thesis
    proof (cases "case t_filter t of None \<Rightarrow> False
        | Some (P, r) \<Rightarrow> (let (s, handle, _) = Handle_DecodeFrom new_BlockHandle (encoded hd) in
            is_ok s \<and> \<not> FilterKeyMayMatch P r (offset handle) k)")
      case filtered: True
      then obtain P r where "t_filter t = Some (P, r)" "\<not> FilterKeyMayMatch P r (offset hd) k"
        by (auto split: option.splits)
      then have "k \<notin> fst ` set b" using filter_match [OF t _ bi] by blast
      have "\<not> (q < length ?es \<and> fst (?es ! q) = k)" for q
      proof
        assume q: "q < length ?es \<and> fst (?es ! q) = k"
        then obtain i where "i < length b" "fst (b ! i) = k" using found [of q] by auto
        then show False using \<open>k \<notin> fst ` set b\<close> nth_mem by blast
      qed
      then have "get_result ?es k None" by (auto simp: get_result_def)
      then show ?thesis using i0(1) ii(1) st g v filtered by (simp add: InternalGet_def)
    next
      case False
      have h: "encoded hd \<in> handles_of ?ix" using layout_handles [OF f] bi by force
      obtain d x1 i r where d: "BlockReader K S R t opt (encoded hd) x = Some (d, x1)"
          "dpos C I l (K \<noteq> None) (encoded hd) r i d" "good (cache_id t) l base [r] x1"
        using BlockReader_ok [OF t g h] by blast
      have blk: "block_of l (encoded hd) = b" using block_of_handle [OF f bi] .
      note D = data_iterator [OF comparator_C, of l "encoded hd" I "K \<noteq> None" r, unfolded blk]
      have block_at: "two_level.block_at ?ix (block_of l) j = b"
        using two_level.block_at_def [OF tl] layout_block(1) [OF f True] b by simp
      have binc: "increasing C b"
        using two_level.increasing_block [OF tl _ True] inc unfolding block_at es by blast
      obtain d' where d': "it_Seek BlockIterators k d = Some d'" "dpos C I l (K \<noteq> None) (encoded hd) r (seek_pos C k b) d'"
        using iterator.Seek_ok [OF D d(2) binc] by blast
      have s': "it_status BlockIterators d' = OK" "it_Valid BlockIterators d' = (seek_pos C k b < length b)"
        using iterator.status_ok [OF D d'(2)] iterator.Valid_ok [OF D d'(2)] .
      define saved where "saved = (if seek_pos C k b < length b then Some (b ! seek_pos C k b) else None)"
      have sv: "(if it_Valid BlockIterators d' then do {
            key \<leftarrow> it_key BlockIterators d'; v \<leftarrow> it_value BlockIterators d'; Some (Some (key, v)) }
          else Some None) = Some saved"
        using s'(2) iterator.key_ok [OF D d'(2)] iterator.value_ok [OF D d'(2)] by (simp add: saved_def)
      obtain x2 where x2: "ReleaseBlock K d' x1 = Some x2" "good (cache_id t) l base [] x2"
        using ReleaseBlock_ok [OF d(3) d'(2)] by blast
      have run: "InternalGet K S R t opt k x = Some (OK, saved, x2)"
        unfolding InternalGet_def using i0(1) ii(1) st v False d(1) d'(1) s'(1) sv x2(1) by simp
      have pos: "seek_pos C k ?es = two_level.start ?ix (block_of l) j + seek_pos C k b"
        using two_level.seek_pos_blocks [OF tl, unfolded es, OF inc j_def refl] True block_at by simp
      have "get_result ?es k saved"
        unfolding get_result_def
      proof (intro conjI allI impI)
        show "saved = None \<or> seek_pos C k ?es < length ?es \<and> saved = Some (?es ! seek_pos C k ?es)"
          using two_level.es_nth [OF tl True, unfolded es block_at, of "seek_pos C k b"] pos by (auto simp: saved_def)
        fix q assume q: "q < length ?es" "fst (?es ! q) = k"
        obtain i where i: "i < length b" "b ! i = ?es ! q" using found [OF q] by blast
        then have "seek_pos C k b = i" using seek_pos_key [OF binc i(1)] q(2) by simp
        then show "saved = Some (?es ! q)" using i by (simp add: saved_def)
      qed
      then show ?thesis using run x2(2) by blast
    qed
  qed
qed

end

text \<open>
  Opening a table file: the footer leads to the index, the metaindex to the filter; and every
  error on the way is reported.
\<close>

context table_reader
begin

text \<open>The cache has an identifier left, and no entry of one that was not handed out.\<close>

definition unused_id :: "'c \<Rightarrow> bool" where
  "unused_id x \<longleftrightarrow> K = None \<or> cok x \<and> last_id x \<noteq> NOT 0 \<and>
     (\<forall>h k b i off. entry x h = Some (k, b) \<longrightarrow> k = cache_key i off \<longrightarrow> i \<le> last_id x)"

lemma unused_id_good:
  assumes "unused_id x"
  shows "\<exists>i x'. (case K of Some K \<Rightarrow> Cache_NewId K x | None \<Rightarrow> (0, x)) = (i, x') \<and> good i l [] [] x'"
proof (cases K)
  case None
  then show ?thesis unfolding good_def by simp
next
  case (Some K')
  then have x: "cok x" "last_id x \<noteq> NOT 0" "\<And>h k b i off. entry x h = Some (k, b) \<Longrightarrow> k = cache_key i off \<Longrightarrow> i \<le> last_id x"
    using assms [unfolded unused_id_def] Some by auto
  obtain x' where x': "Cache_NewId K' x = (last_id x + 1, x')" "cok x'" "entry x' = entry x"
    using cache.NewId_ok [OF cache [OF Some] x(1)] by blast
  have "last_id x + 1 \<noteq> 0" using x(2) by (auto simp: eq_neg_iff_add_eq_0 [symmetric])
  then have "last_id x < last_id x + 1" using unatSuc [of "last_id x"] by (simp add: word_less_nat_alt add.commute)
  then have "cached_ok (last_id x + 1) l k b" if "entry x h = Some (k, b)" for h k b
    using x(3) [OF that] by (force simp: cached_ok_def)
  then show ?thesis using Some x' unfolding good_def by auto
qed

lemma meta_seek:
  assumes "p = Some P"
  shows "increasing C' (meta_entries p fh)" "seek_pos BytewiseComparator (bytes_of (''filter.'' @ Name P)) (meta_entries p fh) = 0"
    "length (meta_entries p fh) = 1" "meta_entries p fh ! 0 = (bytes_of (''filter.'' @ Name P), encoded fh)"
  using assms by (simp_all add: meta_entries_def increasing_def seek_pos_def BytewiseComparator_def slice_compare_refl)

lemma ReadMeta_ok:
  assumes f: "table_file S C I p c l" "contents (t_file t) c" "filter_policy (t_options t) = p" "t_filter t = None"
    and mh: "metaindex_handle footer = meta_handle l"
  shows "\<exists>fl. ReadMeta S R footer t = Some (t\<lparr>t_filter := fl\<rparr>) \<and>
    fl = map_option (\<lambda>P. (P, new_FilterBlockReader (build_filters P (layout_filters l)))) p"
proof (cases p)
  case None
  then show ?thesis using f by (simp add: ReadMeta_def)
next
  case (Some P)
  let ?key = "bytes_of (''filter.'' @ Name P)" and ?m = "meta_entries p (filter_handle l)"
  let ?v = "verify_checksums (open_options (t_options t))"
  have st: "stored S c (meta_handle l) (block_bytes I ?m)" "small I ?m" "stored S c (filter_handle l) (build_filters P (layout_filters l))"
    using f(1) Some by (simp_all add: table_file_def)
  obtain r where r: "ReadBlock S R ?v (meta_handle l) (t_file t) = Some (OK, r)" "cdata r = block_bytes I ?m"
    using ReadBlock_ok [OF f(2) st(1)] by blast
  obtain b it where b: "new_Block (cdata r) = Some b" "NewIterator BytewiseComparator b = Some (Inr it)"
      "at_entry BytewiseComparator I ?m (length ?m) it"
    using NewIterator_built [OF st(2), of BytewiseComparator] r(2) by auto
  note A = any_iterator [OF bytewise.comparator_axioms, of ?m I]
  have i0: "any_at BytewiseComparator I ?m (length ?m) (Inr it)" using b(3) by (simp add: any_at_def)
  obtain it' where it': "it_Seek AnyBlockIter ?key (Inr it) = Some it'" "any_at BytewiseComparator I ?m 0 it'"
    using iterator.Seek_ok [OF A i0 meta_seek(1) [OF Some], of ?key, unfolded meta_seek(2) [OF Some]] by blast
  have k: "it_Valid AnyBlockIter it'" "it_key AnyBlockIter it' = Some ?key" "it_value AnyBlockIter it' = Some (encoded (filter_handle l))"
    using iterator.Valid_ok [OF A it'(2)] iterator.key_ok [OF A it'(2)] iterator.value_ok [OF A it'(2)] meta_seek(3,4) [OF Some]
    by simp_all
  obtain r' where r': "ReadBlock S R ?v (filter_handle l) (t_file t) = Some (OK, r')" "cdata r' = build_filters P (layout_filters l)"
    using ReadBlock_ok [OF f(2) st(3)] by blast
  show ?thesis using Some f(3) mh r b it' k r' by (simp add: ReadMeta_def ReadFilter_def)
qed

lemma Open_ok:
  assumes f: "table_file S C I p c l" "contents f c" and opt: "comparator opt = C" "filter_policy opt = p"
    and x: "unused_id x"
  shows "\<exists>t x'. Open K S R opt (length c) f x = Some (OK, Some t, x') \<and> table_of c l t \<and> good (cache_id t) l [] [] x' \<and>
    t_filter t = map_option (\<lambda>P. (P, new_FilterBlockReader (build_filters P (layout_filters l)))) p"
proof -
  let ?F = "\<lparr>metaindex_handle = meta_handle l, index_handle = ix_handle l\<rparr>"
  obtain z where z: "c = z @ footer_bytes ?F" and lc: "length c < 2 ^ 32" using f(1) by (auto simp: table_file_def)
  have lz: "length c = length z + Footer_kEncodedLength" by (simp add: z)
  then have u: "unat (word_of_nat (length z) :: u64) = length z" using lc by (simp add: unat_of_nat take_bit_nat_eq_self)
  obtain own where rd: "RandomRead R (word_of_nat (length z)) Footer_kEncodedLength f = Some (OK, footer_bytes ?F, own)"
    using RandomRead_ok [OF f(2), of "word_of_nat (length z)" Footer_kEncodedLength] by (auto simp: u z)
  have st: "stored S c (ix_handle l) (block_bytes 1 (layout_index l))" "small 1 (layout_index l)" using f(1) by (simp_all add: table_file_def)
  obtain r where r: "ReadBlock S R (verify_checksums (open_options opt)) (ix_handle l) f = Some (OK, r)"
      "cdata r = block_bytes 1 (layout_index l)"
    using ReadBlock_ok [OF f(2) st(1)] by blast
  obtain b where b: "new_Block (block_bytes 1 (layout_index l)) = Some b" using new_Block_built [OF st(2)] by blast
  obtain i x' where i: "(case K of Some K \<Rightarrow> Cache_NewId K x | None \<Rightarrow> (0, x)) = (i, x')" "good i l [] [] x'"
    using unused_id_good [OF x] by blast
  let ?t = "\<lparr>t_options = opt, t_file = f, cache_id = i, t_filter = None, t_metaindex_handle = meta_handle l, t_index_block = b\<rparr>"
  let ?fl = "map_option (\<lambda>P. (P, new_FilterBlockReader (build_filters P (layout_filters l)))) p"
  have m: "ReadMeta S R ?F ?t = Some (?t\<lparr>t_filter := ?fl\<rparr>)"
    using ReadMeta_ok [OF f(1), of ?t ?F] f(2) opt(2) by simp
  have "Open K S R opt (length c) f x = Some (OK, Some (?t\<lparr>t_filter := ?fl\<rparr>), x')"
    using rd r b m i(1) by (simp add: Open_def lz Footer_DecodeFrom_ok)
  moreover have "table_of c l (?t\<lparr>t_filter := ?fl\<rparr>)" unfolding table_of_def using f opt b by (cases p) auto
  ultimately show ?thesis using i(2) by auto
qed

text \<open>A file that does not end in a footer is refused.\<close>

lemma Open_short: "sz < Footer_kEncodedLength \<Longrightarrow>
    Open K S R opt sz f x = Some (Corruption ''file is too short to be an sstable'' [], None, x)"
  by (simp add: Open_def)

end

end
