(* ===== verification/Sharded_Cache.thy ===== *)
theory Sharded_Cache
  imports Cache Bloom "HOL-Library.Monad_Syntax"
begin

text \<open>
  The cache with least-recently-used replacement (util/cache.cc).  Entries live at addresses; the
  links between them, the two circular lists of a shard and the chains of its hash table, are lists
  of addresses.  Following a dangling pointer and failing an assertion are None.  The calls of
  the deleter are recorded.  Locks are left out.  \<open>LRUHandle::key\<close> is the field \<open>hkey\<close>: its
  special case of an entry whose \<open>next\<close> leads to itself is left out.  Among the entries whose key
  is read it could only show for one that was never linked, in a shard of capacity 0, whose \<open>next\<close> the
  code leaves uninitialised.
\<close>

record 'v LRUHandle =
  hvalue :: 'v
  hkey :: bytes
  hcharge :: nat
  in_cache :: bool
  refs :: nat
  hhash :: u32

record 'v Mem =
  hp :: "nat \<rightharpoonup> 'v LRUHandle"
  brk :: nat
  deleted :: "(bytes \<times> 'v) list"

definition put :: "nat \<Rightarrow> 'v LRUHandle \<Rightarrow> 'v Mem \<Rightarrow> 'v Mem" where
  "put a h m = m\<lparr>hp := (hp m)(a \<mapsto> h)\<rparr>"

section \<open>The hash table\<close>

record HandleTable =
  tlength :: nat
  elems :: nat
  buckets :: "nat list list"

definition bucket_index :: "nat \<Rightarrow> u32 \<Rightarrow> nat" where
  "bucket_index n hash = unat (hash AND word_of_nat (n - 1))"

text \<open>The chain before the slot that is found, and the rest from the slot on.\<close>

fun walk :: "'v Mem \<Rightarrow> bytes \<Rightarrow> u32 \<Rightarrow> nat list \<Rightarrow> (nat list \<times> nat list) option" where
  "walk m key hash [] = Some ([], [])"
| "walk m key hash (a # as) = do {
     h \<leftarrow> hp m a;
     if hhash h \<noteq> hash \<or> key \<noteq> hkey h then do { (pre, rest) \<leftarrow> walk m key hash as; Some (a # pre, rest) }
     else Some ([], a # as) }"

definition chain :: "HandleTable \<Rightarrow> u32 \<Rightarrow> nat list option" where
  "chain t hash = (let i = bucket_index (tlength t) hash in if i < length (buckets t) then Some (buckets t ! i) else None)"

definition FindPointer :: "'v Mem \<Rightarrow> HandleTable \<Rightarrow> bytes \<Rightarrow> u32 \<Rightarrow> (nat list \<times> nat list) option" where
  "FindPointer m t key hash = Option.bind (chain t hash) (walk m key hash)"

definition slot :: "nat list \<Rightarrow> nat option" where
  "slot rest = (case rest of [] \<Rightarrow> None | a # _ \<Rightarrow> Some a)"

definition set_chain :: "u32 \<Rightarrow> nat list \<Rightarrow> HandleTable \<Rightarrow> HandleTable" where
  "set_chain hash c t = t\<lparr>buckets := (buckets t)[bucket_index (tlength t) hash := c]\<rparr>"

definition HT_Lookup :: "'v Mem \<Rightarrow> HandleTable \<Rightarrow> bytes \<Rightarrow> u32 \<Rightarrow> nat option option" where
  "HT_Lookup m t key hash = map_option (\<lambda>(pre, rest). slot rest) (FindPointer m t key hash)"

function double_until :: "nat \<Rightarrow> nat \<Rightarrow> nat" where
  "double_until n e = (if 0 < n \<and> n < e then double_until (n * 2) e else n)"
  by auto
termination
  by (relation "measure (\<lambda>(n, e). e - n)") auto

declare double_until.simps [simp del]

text \<open>Every entry is moved to the front of its new chain.\<close>

definition rehash :: "'v Mem \<Rightarrow> nat \<Rightarrow> nat \<Rightarrow> nat list list \<Rightarrow> nat list list option" where
  "rehash m n a bs = do {
     h \<leftarrow> hp m a;
     let i = bucket_index n (hhash h);
     if i < length bs then Some (bs[i := a # bs ! i]) else None }"

fun rehash_all :: "'v Mem \<Rightarrow> nat \<Rightarrow> nat list \<Rightarrow> nat list list \<Rightarrow> nat list list option" where
  "rehash_all m n [] bs = Some bs"
| "rehash_all m n (a # as) bs = Option.bind (rehash m n a bs) (rehash_all m n as)"

definition Resize :: "'v Mem \<Rightarrow> HandleTable \<Rightarrow> HandleTable option" where
  "Resize m t =
     (let n = double_until 4 (elems t); all = concat (buckets t) in do {
        bs \<leftarrow> rehash_all m n all (replicate n []);
        if elems t = length all then Some \<lparr>tlength = n, elems = elems t, buckets = bs\<rparr> else None })"

text \<open>A new table is resized once, to four empty chains.\<close>

definition new_HandleTable :: HandleTable where
  "new_HandleTable = \<lparr>tlength = 4, elems = 0, buckets = replicate 4 []\<rparr>"

definition HT_Insert :: "'v Mem \<Rightarrow> nat \<Rightarrow> HandleTable \<Rightarrow> (nat option \<times> HandleTable) option" where
  "HT_Insert m a t = do {
     h \<leftarrow> hp m a;
     (pre, rest) \<leftarrow> FindPointer m t (hkey h) (hhash h);
     let t = set_chain (hhash h) (pre @ a # tl rest) t;
     if rest = [] then
       let t = t\<lparr>elems := elems t + 1\<rparr> in
       map_option (Pair None) (if elems t > tlength t then Resize m t else Some t)
     else Some (slot rest, t) }"

definition HT_Remove :: "'v Mem \<Rightarrow> bytes \<Rightarrow> u32 \<Rightarrow> HandleTable \<Rightarrow> (nat option \<times> HandleTable) option" where
  "HT_Remove m key hash t = do {
     (pre, rest) \<leftarrow> FindPointer m t key hash;
     if rest = [] then Some (None, t)
     else Some (slot rest, (set_chain hash (pre @ tl rest) t)\<lparr>elems := elems t - 1\<rparr>) }"

section \<open>A shard\<close>

record LRUCache =
  capacity :: nat
  usage :: nat
  lru :: "nat list"
  in_use :: "nat list"
  htable :: HandleTable

definition new_LRUCache :: "nat \<Rightarrow> LRUCache" where
  "new_LRUCache cap = \<lparr>capacity = cap, usage = 0, lru = [], in_use = [], htable = new_HandleTable\<rparr>"

definition LRU_Remove :: "nat \<Rightarrow> LRUCache \<Rightarrow> LRUCache" where
  "LRU_Remove a L = L\<lparr>lru := remove1 a (lru L), in_use := remove1 a (in_use L)\<rparr>"

definition Ref :: "nat \<Rightarrow> 'v Mem \<times> LRUCache \<Rightarrow> ('v Mem \<times> LRUCache) option" where
  "Ref a = (\<lambda>(m, L). do {
     h \<leftarrow> hp m a;
     let L = (if refs h = 1 \<and> in_cache h then (LRU_Remove a L)\<lparr>in_use := in_use (LRU_Remove a L) @ [a]\<rparr> else L);
     Some (put a (h\<lparr>refs := refs h + 1\<rparr>) m, L) })"

definition Unref :: "nat \<Rightarrow> 'v Mem \<times> LRUCache \<Rightarrow> ('v Mem \<times> LRUCache) option" where
  "Unref a = (\<lambda>(m, L). do {
     h \<leftarrow> hp m a;
     if refs h = 0 then None
     else let h = h\<lparr>refs := refs h - 1\<rparr> in
       if refs h = 0 then
         (if in_cache h then None
          else Some (m\<lparr>hp := (hp m)(a := None), deleted := deleted m @ [(hkey h, hvalue h)]\<rparr>, L))
       else if in_cache h \<and> refs h = 1 then
         Some (put a h m, (LRU_Remove a L)\<lparr>lru := lru (LRU_Remove a L) @ [a]\<rparr>)
       else Some (put a h m, L) })"

definition FinishErase :: "nat option \<Rightarrow> 'v Mem \<times> LRUCache \<Rightarrow> (bool \<times> 'v Mem \<times> LRUCache) option" where
  "FinishErase e = (\<lambda>(m, L). case e of
     None \<Rightarrow> Some (False, m, L)
   | Some a \<Rightarrow> do {
       h \<leftarrow> hp m a;
       if \<not> in_cache h then None
       else map_option (Pair True)
         (Unref a (put a (h\<lparr>in_cache := False\<rparr>) m, (LRU_Remove a L)\<lparr>usage := usage L - hcharge h\<rparr>)) })"

definition Shard_Lookup :: "bytes \<Rightarrow> u32 \<Rightarrow> 'v Mem \<times> LRUCache \<Rightarrow> (nat option \<times> 'v Mem \<times> LRUCache) option" where
  "Shard_Lookup key hash = (\<lambda>(m, L). do {
     e \<leftarrow> HT_Lookup m (htable L) key hash;
     case e of None \<Rightarrow> Some (None, m, L) | Some a \<Rightarrow> map_option (Pair e) (Ref a (m, L)) })"

text \<open>The oldest entry without clients is erased.\<close>

definition evict_oldest :: "'v Mem \<times> LRUCache \<Rightarrow> ('v Mem \<times> LRUCache) option" where
  "evict_oldest = (\<lambda>(m, L). do {
     old \<leftarrow> slot (lru L);
     h \<leftarrow> hp m old;
     if refs h \<noteq> 1 then None
     else do {
       (x, t) \<leftarrow> HT_Remove m (hkey h) (hhash h) (htable L);
       (erased, s) \<leftarrow> FinishErase x (m, L\<lparr>htable := t\<rparr>);
       if erased then Some s else None } })"

partial_function (option) evict_loop :: "'v Mem \<times> LRUCache \<Rightarrow> ('v Mem \<times> LRUCache) option" where
  "evict_loop s =
     (if usage (snd s) > capacity (snd s) \<and> lru (snd s) \<noteq> [] then Option.bind (evict_oldest s) evict_loop
      else Some s)"

partial_function (option) prune_loop :: "'v Mem \<times> LRUCache \<Rightarrow> ('v Mem \<times> LRUCache) option" where
  "prune_loop s = (if lru (snd s) \<noteq> [] then Option.bind (evict_oldest s) prune_loop else Some s)"

definition Shard_Insert :: "bytes \<Rightarrow> u32 \<Rightarrow> 'v \<Rightarrow> nat \<Rightarrow> 'v Mem \<times> LRUCache \<Rightarrow> (nat \<times> 'v Mem \<times> LRUCache) option" where
  "Shard_Insert key hash v charge = (\<lambda>(m, L).
     let a = brk m;
         h = \<lparr>hvalue = v, hkey = key, hcharge = charge, in_cache = False, refs = 1, hhash = hash\<rparr>;
         m = m\<lparr>brk := brk m + 1\<rparr>
     in do {
       s \<leftarrow> (if capacity L > 0 then do {
           let m = put a (h\<lparr>refs := 2, in_cache := True\<rparr>) m;
           let L = L\<lparr>in_use := in_use L @ [a], usage := usage L + charge\<rparr>;
           (old, t) \<leftarrow> HT_Insert m a (htable L);
           (_, s) \<leftarrow> FinishErase old (m, L\<lparr>htable := t\<rparr>);
           Some s }
         else Some (put a h m, L));
       s \<leftarrow> evict_loop s;
       Some (a, s) })"

definition Shard_Erase :: "bytes \<Rightarrow> u32 \<Rightarrow> 'v Mem \<times> LRUCache \<Rightarrow> ('v Mem \<times> LRUCache) option" where
  "Shard_Erase key hash = (\<lambda>(m, L). do {
     (x, t) \<leftarrow> HT_Remove m key hash (htable L);
     (_, s) \<leftarrow> FinishErase x (m, L\<lparr>htable := t\<rparr>);
     Some s })"

section \<open>The cache of sixteen shards\<close>

definition kNumShardBits :: nat where
  "kNumShardBits = 4"

definition kNumShards :: nat where
  "kNumShards = 2 ^ kNumShardBits"

record 'v ShardedLRUCache =
  mem :: "'v Mem"
  shards :: "LRUCache list"
  last_id :: u64

definition NewLRUCache :: "nat \<Rightarrow> 'v ShardedLRUCache" where
  "NewLRUCache cap =
     (let per_shard = (cap + (kNumShards - 1)) div kNumShards in
      \<lparr>mem = \<lparr>hp = Map.empty, brk = 0, deleted = []\<rparr>, shards = replicate kNumShards (new_LRUCache per_shard), last_id = 0\<rparr>)"

definition HashSlice :: "bytes \<Rightarrow> u32" where
  "HashSlice s = Hash s 0"

definition Shard :: "u32 \<Rightarrow> nat" where
  "Shard hash = unat (drop_bit (32 - kNumShardBits) hash)"

text \<open>An operation on the shard of a hash.\<close>

definition on_shard :: "u32 \<Rightarrow> ('v Mem \<times> LRUCache \<Rightarrow> ('a \<times> 'v Mem \<times> LRUCache) option) \<Rightarrow>
    'v ShardedLRUCache \<Rightarrow> ('a \<times> 'v ShardedLRUCache) option" where
  "on_shard hash f c = (let s = Shard hash in
     if s < length (shards c) then do {
       (r, m, L) \<leftarrow> f (mem c, shards c ! s);
       Some (r, c\<lparr>mem := m, shards := (shards c)[s := L]\<rparr>) }
     else None)"

definition LRU_Insert :: "bytes \<Rightarrow> 'v \<Rightarrow> nat \<Rightarrow> 'v ShardedLRUCache \<Rightarrow> (nat \<times> 'v ShardedLRUCache) option" where
  "LRU_Insert key v charge c = (let hash = HashSlice key in on_shard hash (Shard_Insert key hash v charge) c)"

definition LRU_Lookup :: "bytes \<Rightarrow> 'v ShardedLRUCache \<Rightarrow> (nat option \<times> 'v ShardedLRUCache) option" where
  "LRU_Lookup key c = (let hash = HashSlice key in on_shard hash (Shard_Lookup key hash) c)"

definition LRU_Release :: "nat \<Rightarrow> 'v ShardedLRUCache \<Rightarrow> 'v ShardedLRUCache option" where
  "LRU_Release a c = do {
     h \<leftarrow> hp (mem c) a;
     (_, c) \<leftarrow> on_shard (hhash h) (map_option (Pair ()) \<circ> Unref a) c;
     Some c }"

definition LRU_Erase :: "bytes \<Rightarrow> 'v ShardedLRUCache \<Rightarrow> 'v ShardedLRUCache option" where
  "LRU_Erase key c = (let hash = HashSlice key in map_option snd (on_shard hash (map_option (Pair ()) \<circ> Shard_Erase key hash) c))"

definition LRU_Value :: "nat \<Rightarrow> 'v ShardedLRUCache \<Rightarrow> 'v option" where
  "LRU_Value a c = map_option hvalue (hp (mem c) a)"

definition LRU_NewId :: "'v ShardedLRUCache \<Rightarrow> u64 \<times> 'v ShardedLRUCache" where
  "LRU_NewId c = (last_id c + 1, c\<lparr>last_id := last_id c + 1\<rparr>)"

fun prune_shards :: "nat list \<Rightarrow> 'v ShardedLRUCache \<Rightarrow> 'v ShardedLRUCache option" where
  "prune_shards [] c = Some c"
| "prune_shards (s # ss) c = do {
     (m, L) \<leftarrow> prune_loop (mem c, shards c ! s);
     prune_shards ss (c\<lparr>mem := m, shards := (shards c)[s := L]\<rparr>) }"

definition LRU_Prune :: "'v ShardedLRUCache \<Rightarrow> 'v ShardedLRUCache option" where
  "LRU_Prune c = prune_shards [0..<kNumShards] c"

definition TotalCharge :: "'v ShardedLRUCache \<Rightarrow> nat" where
  "TotalCharge c = sum_list (map usage (shards c))"

definition LRU :: "('v, 'v ShardedLRUCache) Cache" where
  "LRU = \<lparr>Cache_Insert = LRU_Insert, Cache_Lookup = LRU_Lookup, Cache_Release = LRU_Release, Cache_Value = LRU_Value,
     Cache_NewId = LRU_NewId\<rparr>"

end
