(* ===== verification/Sharded_Cache_Table.thy ===== *)
theory Sharded_Cache_Table
  imports Sharded_Cache
begin

text \<open>
  The hash table of a shard holds exactly the entries it should: what is found, inserted, removed
  and moved when the table grows.
\<close>

definition key_hash :: "(nat \<rightharpoonup> 'v LRUHandle) \<Rightarrow> nat \<Rightarrow> (bytes \<times> u32) option" where
  "key_hash H a = map_option (\<lambda>h. (hkey h, hhash h)) (H a)"

definition in_bucket :: "(nat \<Rightarrow> (bytes \<times> u32) option) \<Rightarrow> nat \<Rightarrow> nat \<Rightarrow> nat \<Rightarrow> bool" where
  "in_bucket K n i a \<longleftrightarrow> (\<exists>k hs. K a = Some (k, hs) \<and> bucket_index n hs = i)"

definition buckets_ok :: "(nat \<Rightarrow> (bytes \<times> u32) option) \<Rightarrow> nat \<Rightarrow> nat list list \<Rightarrow> bool" where
  "buckets_ok K n bs \<longleftrightarrow> length bs = n \<and> (\<forall>i < n. distinct (bs ! i) \<and> (\<forall>a \<in> set (bs ! i). in_bucket K n i a))"

lemma bucketD:
  assumes "buckets_ok K n bs" "i < n"
  shows "distinct (bs ! i)" "a \<in> set (bs ! i) \<Longrightarrow> in_bucket K n i a"
  using assms by (simp_all add: buckets_ok_def)

definition members :: "nat list list \<Rightarrow> nat set" where
  "members bs = {a. \<exists>i < length bs. a \<in> set (bs ! i)}"

definition table_ok :: "(nat \<Rightarrow> (bytes \<times> u32) option) \<Rightarrow> HandleTable \<Rightarrow> nat set \<Rightarrow> bool" where
  "table_ok K t A \<longleftrightarrow> 0 < tlength t \<and> buckets_ok K (tlength t) (buckets t) \<and> members (buckets t) = A \<and>
     elems t = card A \<and> inj_on K A"

lemma table_ok_cong:
  assumes "table_ok K t A" "\<And>a. a \<in> A \<Longrightarrow> K' a = K a"
  shows "table_ok K' t A"
proof -
  have "inj_on K' A" using assms by (auto simp: table_ok_def inj_on_def)
  moreover have "in_bucket K' n i a = in_bucket K n i a" if "a \<in> A" for n i a using assms(2) [OF that] by (simp add: in_bucket_def)
  moreover have "a \<in> A" if "i < tlength t" "a \<in> set (buckets t ! i)" for i a
    using assms(1) that by (auto simp: table_ok_def buckets_ok_def members_def)
  ultimately show ?thesis using assms(1) by (simp add: table_ok_def buckets_ok_def)
qed

lemma members_concat: "members bs = set (concat bs)"
  unfolding set_concat set_conv_nth [of bs] by (auto simp: members_def)

lemma bucket_live: "buckets_ok K n bs \<Longrightarrow> i < n \<Longrightarrow> a \<in> set (bs ! i) \<Longrightarrow> K a \<noteq> None"
  unfolding buckets_ok_def in_bucket_def by (metis option.distinct(1))

lemma table_finite: "table_ok K t A \<Longrightarrow> finite A"
  using members_concat [of "buckets t"] unfolding table_ok_def by (metis List.finite_set)

lemma in_bucket_unique: "in_bucket K n i a \<Longrightarrow> in_bucket K n j a \<Longrightarrow> i = j"
  by (auto simp: in_bucket_def)

lemma distinct_buckets: "buckets_ok K n bs \<Longrightarrow> distinct (concat bs)"
proof -
  assume b: "buckets_ok K n bs"
  have "\<forall>m \<le> length bs. distinct (concat (take m bs))"
  proof (intro allI impI)
    fix m show "m \<le> length bs \<Longrightarrow> distinct (concat (take m bs))"
    proof (induction m)
      case (Suc m)
      have "set (concat (take m bs)) \<inter> set (bs ! m) = {}"
      proof (rule ccontr)
        assume "set (concat (take m bs)) \<inter> set (bs ! m) \<noteq> {}"
        then obtain a j where "j < m" "a \<in> set (bs ! j)" "a \<in> set (bs ! m)"
          using Suc.prems by (auto simp: in_set_conv_nth [of _ "take m bs"])
        then show False using b Suc.prems in_bucket_unique [of K n j a m] by (auto simp: buckets_ok_def)
      qed
      then show ?case using Suc b by (simp add: take_Suc_conv_app_nth buckets_ok_def)
    qed simp
  qed
  from this [rule_format, of "length bs"] show ?thesis by simp
qed

lemma buckets_ok_update:
  "buckets_ok K n bs \<Longrightarrow> i < n \<Longrightarrow> distinct c \<Longrightarrow> \<forall>a \<in> set c. in_bucket K n i a \<Longrightarrow> buckets_ok K n (bs[i := c])"
  by (auto simp: buckets_ok_def nth_list_update)

lemma members_update:
  assumes "buckets_ok K n bs" "i < n"
  shows "members (bs[i := c]) = (members bs - set (bs ! i)) \<union> set c"
proof -
  have "a \<notin> set (bs ! i)" if "j < n" "j \<noteq> i" "a \<in> set (bs ! j)" for a j
    using assms that in_bucket_unique [of K n i a j] by (auto simp: buckets_ok_def)
  then show ?thesis using assms by (auto simp: members_def buckets_ok_def nth_list_update split: if_splits; metis)
qed

lemma bucket_index_less: "0 < n \<Longrightarrow> bucket_index n hs < n"
proof -
  assume "0 < n"
  have "unat (hs AND word_of_nat (n - 1)) \<le> unat (word_of_nat (n - 1) :: u32)"
    using word_and_le1 [of hs "word_of_nat (n - 1)"] by (simp add: word_le_nat_alt)
  also have "\<dots> \<le> n - 1" by (simp add: unat_of_nat take_bit_nat_less_eq_self)
  finally show ?thesis using \<open>0 < n\<close> by (simp add: bucket_index_def)
qed

text \<open>The walk along a chain.\<close>

lemma walk_ok:
  assumes "\<forall>a \<in> set c. K a \<noteq> None" "K = key_hash (hp m)"
  shows "\<exists>pre rest. walk m key hash c = Some (pre, rest) \<and> c = pre @ rest \<and> (\<forall>a \<in> set pre. K a \<noteq> Some (key, hash)) \<and>
    (\<forall>a as. rest = a # as \<longrightarrow> K a = Some (key, hash))"
  using assms(1)
proof (induction c)
  case (Cons a c)
  then obtain h where h: "hp m a = Some h" by (auto simp: assms(2) key_hash_def)
  have K: "K a = Some (hkey h, hhash h)" by (simp add: assms(2) key_hash_def h)
  obtain pre rest where "walk m key hash c = Some (pre, rest)" "c = pre @ rest" "\<forall>a \<in> set pre. K a \<noteq> Some (key, hash)"
      "\<forall>a as. rest = a # as \<longrightarrow> K a = Some (key, hash)" using Cons by auto
  then show ?case using h K by auto
qed simp

lemma FindPointer_ok:
  assumes t: "table_ok K t A" and K: "K = key_hash (hp m)"
  shows "\<exists>pre rest. FindPointer m t key hash = Some (pre, rest) \<and>
    bucket_index (tlength t) hash < length (buckets t) \<and> buckets t ! bucket_index (tlength t) hash = pre @ rest \<and>
    (if rest = [] then \<forall>a \<in> A. K a \<noteq> Some (key, hash) else hd rest \<in> A \<and> K (hd rest) = Some (key, hash))"
proof -
  let ?i = "bucket_index (tlength t) hash"
  have i: "?i < length (buckets t)" "?i < tlength t" using t bucket_index_less by (auto simp: table_ok_def buckets_ok_def)
  have live: "\<forall>a \<in> set (buckets t ! ?i). K a \<noteq> None" using t i(2) bucket_live unfolding table_ok_def by blast
  obtain pre rest where w: "walk m key hash (buckets t ! ?i) = Some (pre, rest)" "buckets t ! ?i = pre @ rest"
      "\<forall>a \<in> set pre. K a \<noteq> Some (key, hash)" "\<forall>a as. rest = a # as \<longrightarrow> K a = Some (key, hash)"
    using walk_ok [OF live K] by blast
  have A: "A = members (buckets t)" using t by (simp add: table_ok_def)
  have "\<forall>a \<in> A. K a \<noteq> Some (key, hash)" if r: "rest = []"
  proof
    fix a assume "a \<in> A"
    then obtain j where j: "j < length (buckets t)" "a \<in> set (buckets t ! j)" unfolding A by (auto simp: members_def)
    show "K a \<noteq> Some (key, hash)"
    proof
      assume k: "K a = Some (key, hash)"
      then have "in_bucket K (tlength t) ?i a" by (simp add: in_bucket_def)
      moreover have "in_bucket K (tlength t) j a" using t j bucketD(2) [of K "tlength t" "buckets t" j a] by (simp add: table_ok_def buckets_ok_def)
      ultimately have "j = ?i" by (rule in_bucket_unique [symmetric])
      then show False using w(2,3) r j(2) k by auto
    qed
  qed
  moreover have "hd rest \<in> A" if "rest \<noteq> []" using i(1) w(2) that unfolding A by (auto simp: members_def)
  ultimately show ?thesis using w i(1) by (cases rest) (auto simp: FindPointer_def chain_def Let_def)
qed

lemma HT_Lookup_ok:
  assumes "table_ok K t A" "K = key_hash (hp m)"
  shows "\<exists>r. HT_Lookup m t key hash = Some r \<and>
    (case r of None \<Rightarrow> \<forall>a \<in> A. K a \<noteq> Some (key, hash) | Some a \<Rightarrow> a \<in> A \<and> K a = Some (key, hash))"
proof -
  obtain pre rest where "FindPointer m t key hash = Some (pre, rest)"
      "if rest = [] then \<forall>a \<in> A. K a \<noteq> Some (key, hash) else hd rest \<in> A \<and> K (hd rest) = Some (key, hash)"
    using FindPointer_ok [OF assms, of key hash] by blast
  then show ?thesis by (cases rest) (auto simp: HT_Lookup_def slot_def)
qed

text \<open>Removing the entry that was found.\<close>

lemma HT_Remove_ok:
  assumes t: "table_ok K t A" and K: "K = key_hash (hp m)"
  shows "\<exists>r t'. HT_Remove m key hash t = Some (r, t') \<and>
    (case r of None \<Rightarrow> t' = t \<and> (\<forall>a \<in> A. K a \<noteq> Some (key, hash))
     | Some a \<Rightarrow> a \<in> A \<and> K a = Some (key, hash) \<and> table_ok K t' (A - {a}))"
proof -
  let ?i = "bucket_index (tlength t) hash"
  obtain pre rest where f: "FindPointer m t key hash = Some (pre, rest)" "?i < length (buckets t)" "buckets t ! ?i = pre @ rest"
      "if rest = [] then \<forall>a \<in> A. K a \<noteq> Some (key, hash) else hd rest \<in> A \<and> K (hd rest) = Some (key, hash)"
    using FindPointer_ok [OF t K, of key hash] by blast
  show ?thesis
  proof (cases rest)
    case Nil
    then show ?thesis using f by (simp add: HT_Remove_def)
  next
    case (Cons a as)
    have T: "0 < tlength t" "buckets_ok K (tlength t) (buckets t)" "members (buckets t) = A" "elems t = card A" "inj_on K A" "?i < tlength t"
      using t f(2) by (auto simp: table_ok_def buckets_ok_def)
    have d: "distinct (pre @ a # as)" "\<forall>x \<in> set (pre @ as). in_bucket K (tlength t) ?i x"
      using bucketD [OF T(2,6)] unfolding f(3) Cons by auto
    have sub: "set (pre @ a # as) \<subseteq> A" using f(2,3) Cons T(3) by (auto simp: members_def)
    have "members ((buckets t)[?i := pre @ as]) = A - {a}"
      using members_update [OF T(2,6), of "pre @ as"] T(3) f(3) Cons d(1) sub by auto
    moreover have "buckets_ok K (tlength t) ((buckets t)[?i := pre @ as])" using buckets_ok_update [OF T(2,6) _ d(2)] d(1) by simp
    moreover have "card (A - {a}) = elems t - 1" using T(4) sub table_finite [OF t] by simp
    moreover have "inj_on K (A - {a})" using T(5) by (rule inj_on_diff)
    ultimately have "table_ok K ((set_chain hash (pre @ as) t)\<lparr>elems := elems t - 1\<rparr>) (A - {a})"
      using T(1) by (simp add: table_ok_def set_chain_def)
    then show ?thesis using f(1,4) Cons by (simp add: HT_Remove_def slot_def)
  qed
qed

text \<open>Growing the table.\<close>

lemma double_until_pos: "0 < n \<Longrightarrow> 0 < double_until n e"
proof (induction n e rule: double_until.induct)
  case (1 n e)
  then show ?case by (subst double_until.simps) simp
qed

lemma rehash_all_ok:
  "distinct (as @ concat bs) \<Longrightarrow> buckets_ok K n bs \<Longrightarrow> \<forall>a \<in> set as. K a \<noteq> None \<Longrightarrow> K = key_hash (hp m) \<Longrightarrow> 0 < n \<Longrightarrow>
   \<exists>bs'. rehash_all m n as bs = Some bs' \<and> buckets_ok K n bs' \<and> members bs' = set as \<union> members bs"
proof (induction as arbitrary: bs)
  case (Cons a as)
  obtain h where h: "hp m a = Some h" using Cons.prems(3,4) by (auto simp: key_hash_def)
  let ?i = "bucket_index n (hhash h)"
  have i: "?i < n" "?i < length bs" using bucket_index_less [OF Cons.prems(5)] Cons.prems(2) by (simp_all add: buckets_ok_def)
  have a: "a \<notin> set (concat bs)" "in_bucket K n ?i a" using Cons.prems(1,4) h by (auto simp: in_bucket_def key_hash_def)
  have an: "a \<notin> set (bs ! ?i)" using a(1) i(2) by auto
  have b: "buckets_ok K n (bs[?i := a # bs ! ?i])"
    using Cons.prems(2) i an a(2) by (intro buckets_ok_update) (auto simp: buckets_ok_def)
  have m: "members (bs[?i := a # bs ! ?i]) = insert a (members bs)"
    using members_update [OF Cons.prems(2) i(1)] i(2) by (auto simp: members_def)
  have "distinct (as @ concat (bs[?i := a # bs ! ?i]))"
    using distinct_buckets [OF b] m Cons.prems(1) by (auto simp: members_concat)
  from Cons.IH [OF this b _ Cons.prems(4,5)] Cons.prems(3) obtain bs' where
    "rehash_all m n as (bs[?i := a # bs ! ?i]) = Some bs'" "buckets_ok K n bs'" "members bs' = set as \<union> members (bs[?i := a # bs ! ?i])"
    by auto
  then show ?case using h i(2) m by (simp add: rehash_def Let_def)
qed auto

lemma Resize_ok:
  assumes t: "table_ok K t A" and K: "K = key_hash (hp m)"
  shows "\<exists>t'. Resize m t = Some t' \<and> table_ok K t' A"
proof -
  let ?n = "double_until 4 (elems t)" and ?all = "concat (buckets t)"
  have T: "buckets_ok K (tlength t) (buckets t)" "members (buckets t) = A" "elems t = card A" "inj_on K A"
    using t by (simp_all add: table_ok_def)
  have d: "distinct ?all" "set ?all = A" using distinct_buckets [OF T(1)] T(2) by (simp_all add: members_concat)
  have live: "\<forall>a \<in> set ?all. K a \<noteq> None" using T(1,2) d(2) bucket_live [OF T(1)] by (auto simp: members_def buckets_ok_def)
  have e: "members (replicate ?n []) = {}" by (auto simp: members_def)
  obtain bs where "rehash_all m ?n ?all (replicate ?n []) = Some bs" "buckets_ok K ?n bs" "members bs = A"
    using rehash_all_ok [of ?all "replicate ?n []" K ?n m] d live K double_until_pos [of 4 "elems t"] e by (auto simp: buckets_ok_def)
  moreover have "elems t = length ?all" using d T(3) distinct_card by force
  ultimately show ?thesis using T double_until_pos [of 4 "elems t"] by (simp add: Resize_def Let_def table_ok_def)
qed

lemma set_chain_fields: "elems (set_chain hs c t) = elems t" "tlength (set_chain hs c t) = tlength t"
  by (simp_all add: set_chain_def)

lemma HT_Insert_ok:
  assumes t: "table_ok K t A" and K: "K = key_hash (hp m)" and h: "hp m a = Some h" and a: "a \<notin> A"
  shows "\<exists>r t'. HT_Insert m a t = Some (r, t') \<and>
    (case r of None \<Rightarrow> table_ok K t' (insert a A)
     | Some b \<Rightarrow> b \<in> A \<and> K b = K a \<and> table_ok K t' (insert a (A - {b})))"
proof -
  let ?i = "bucket_index (tlength t) (hhash h)"
  have ka: "K a = Some (hkey h, hhash h)" using h K by (simp add: key_hash_def)
  obtain pre rest where f: "FindPointer m t (hkey h) (hhash h) = Some (pre, rest)" "?i < length (buckets t)" "buckets t ! ?i = pre @ rest"
      "if rest = [] then \<forall>b \<in> A. K b \<noteq> K a else hd rest \<in> A \<and> K (hd rest) = K a"
    using FindPointer_ok [OF t K, of "hkey h" "hhash h"] ka by auto
  have T: "0 < tlength t" "buckets_ok K (tlength t) (buckets t)" "members (buckets t) = A" "elems t = card A" "inj_on K A" "?i < tlength t"
    using t f(2) by (auto simp: table_ok_def buckets_ok_def)
  have sub: "set (pre @ rest) \<subseteq> A" using f(2,3) T(3) by (auto simp: members_def)
  have d: "distinct (pre @ rest)" "\<forall>x \<in> set (pre @ rest). in_bucket K (tlength t) ?i x"
    using bucketD [OF T(2,6)] unfolding f(3) by blast+
  have ai: "in_bucket K (tlength t) ?i a" using ka by (simp add: in_bucket_def)
  have tl: "set (tl rest) \<subseteq> set rest" by (cases rest) auto
  let ?c = "pre @ a # tl rest" and ?A = "insert a (if rest = [] then A else A - {hd rest})"
  have "distinct ?c" using d(1) a sub tl by (cases rest) auto
  moreover have "\<forall>x \<in> set ?c. in_bucket K (tlength t) ?i x" using d(2) ai tl by auto
  ultimately have b: "buckets_ok K (tlength t) ((buckets t)[?i := ?c])" by (rule buckets_ok_update [OF T(2,6)])
  have m: "members ((buckets t)[?i := ?c]) = ?A"
    using members_update [OF T(2,6), of ?c] T(3) f(3) d(1) sub by (cases rest) auto
  have inj: "inj_on K ?A"
  proof (cases rest)
    case Nil
    then show ?thesis using T(5) f(4) a by auto
  next
    case (Cons x xs)
    have ne: "K a \<noteq> K y" if "y \<in> A - {x}" for y using inj_onD [OF T(5), of y x] f(4) Cons that by auto
    show ?thesis using Cons inj_on_diff [OF T(5), of "{x}"] ne by (auto simp: inj_on_insert)
  qed
  show ?thesis
  proof (cases rest)
    case Nil
    let ?t = "(set_chain (hhash h) ?c t)\<lparr>elems := elems t + 1\<rparr>"
    have t': "table_ok K ?t (insert a A)"
      using b m inj T(1,4) Nil a table_finite [OF t] by (simp add: table_ok_def set_chain_def)
    obtain t'' where "Resize m ?t = Some t''" "table_ok K t'' (insert a A)" using Resize_ok [OF t' K] by blast
    then show ?thesis using h f(1) Nil t' by (simp add: HT_Insert_def Let_def set_chain_fields)
  next
    case (Cons x xs)
    have xA: "x \<in> A" "K x = K a" using f(4) Cons by simp_all
    have "card (insert a (A - {x})) = card A"
      using card_Suc_Diff1 [OF table_finite [OF t] xA(1)] a table_finite [OF t] by simp
    then have "table_ok K (set_chain (hhash h) ?c t) (insert a (A - {x}))"
      using b m inj T(1,4) Cons by (simp add: table_ok_def set_chain_def)
    then show ?thesis using h f(1) Cons xA by (simp add: HT_Insert_def slot_def)
  qed
qed

end
