(* ===== verification/Sharded_Cache_Shard.thy ===== *)
theory Sharded_Cache_Shard
  imports Sharded_Cache_Table
begin

text \<open>
  The invariant of a shard and its operations: the two lists hold the entries of the cache,
  unreferenced ones oldest first, and erasing drops only what no client holds.
\<close>

section \<open>What clients see of the heap\<close>

definition entry_at :: "(nat \<rightharpoonup> 'v LRUHandle) \<Rightarrow> nat \<Rightarrow> (bytes \<times> 'v) option" where
  "entry_at H a = map_option (\<lambda>h. (hkey h, hvalue h)) (H a)"

definition held :: "(nat \<rightharpoonup> 'v LRUHandle) \<Rightarrow> nat \<Rightarrow> nat" where
  "held H a = (case H a of None \<Rightarrow> 0 | Some h \<Rightarrow> refs h - (if in_cache h then 1 else 0))"

definition heap_ok :: "'v Mem \<Rightarrow> bool" where
  "heap_ok m \<longleftrightarrow> (\<forall>a h. hp m a = Some h \<longrightarrow> a < brk m \<and> hhash h = HashSlice (hkey h) \<and> refs h \<ge> (if in_cache h then 1 else 0) \<and> 0 < refs h)"

text \<open>Entries without clients may go, nothing else happens.\<close>

definition drops :: "'v Mem \<Rightarrow> 'v Mem \<Rightarrow> bool" where
  "drops m m' \<longleftrightarrow> held (hp m') = held (hp m) \<and> only_drops (entry_at (hp m)) (entry_at (hp m')) (held (hp m)) \<and> brk m' = brk m"

lemma drops_refl: "drops m m"
  by (simp add: drops_def only_drops_def)

lemma drops_trans: "drops m m' \<Longrightarrow> drops m' m'' \<Longrightarrow> drops m m''"
  unfolding drops_def only_drops_def by metis

text \<open>Only entries of one shard, or new ones, are touched.\<close>

definition local_to :: "nat \<Rightarrow> 'v Mem \<Rightarrow> 'v Mem \<Rightarrow> bool" where
  "local_to s m m' \<longleftrightarrow> (\<forall>a. hp m a \<noteq> hp m' a \<longrightarrow>
     (\<forall>h. hp m a = Some h \<longrightarrow> Shard (hhash h) = s) \<and> (\<forall>h. hp m' a = Some h \<longrightarrow> Shard (hhash h) = s))"

lemma local_refl: "local_to s m m"
  by (simp add: local_to_def)

lemma local_trans: "local_to s m m' \<Longrightarrow> local_to s m' m'' \<Longrightarrow> local_to s m m''"
  unfolding local_to_def by metis

section \<open>The invariant\<close>

definition charge_of :: "(nat \<rightharpoonup> 'v LRUHandle) \<Rightarrow> nat \<Rightarrow> nat" where
  "charge_of H a = (case H a of None \<Rightarrow> 0 | Some h \<Rightarrow> hcharge h)"

abbreviation listed :: "LRUCache \<Rightarrow> nat set" where
  "listed L \<equiv> set (lru L) \<union> set (in_use L)"

definition lists_ok :: "'v Mem \<Rightarrow> LRUCache \<Rightarrow> nat \<Rightarrow> bool" where
  "lists_ok m L s \<longleftrightarrow> distinct (lru L @ in_use L) \<and>
     (\<forall>a \<in> set (lru L). \<exists>h. hp m a = Some h \<and> in_cache h \<and> refs h = 1 \<and> Shard (hhash h) = s) \<and>
     (\<forall>a \<in> set (in_use L). \<exists>h. hp m a = Some h \<and> in_cache h \<and> refs h > 1 \<and> Shard (hhash h) = s) \<and>
     (\<forall>a h. hp m a = Some h \<longrightarrow> in_cache h \<longrightarrow> Shard (hhash h) = s \<longrightarrow> a \<in> listed L) \<and>
     usage L = sum (charge_of (hp m)) (listed L)"

definition shard_ok :: "'v Mem \<Rightarrow> LRUCache \<Rightarrow> nat \<Rightarrow> bool" where
  "shard_ok m L s \<longleftrightarrow> heap_ok m \<and> lists_ok m L s \<and> table_ok (key_hash (hp m)) (htable L) (listed L)"

lemma lists_mono:
  assumes "lists_ok m L s" "local_to s' m m'" "s \<noteq> s'"
  shows "lists_ok m' L s"
proof -
  have same: "hp m' a = hp m a" if "a \<in> listed L" for a
    using assms that unfolding lists_ok_def local_to_def by (metis Un_iff)
  have "\<forall>a h. hp m' a = Some h \<longrightarrow> in_cache h \<longrightarrow> Shard (hhash h) = s \<longrightarrow> a \<in> listed L"
    using assms unfolding lists_ok_def local_to_def by metis
  moreover have "sum (charge_of (hp m')) (listed L) = sum (charge_of (hp m)) (listed L)"
    using same by (intro sum.cong) (simp_all add: charge_of_def)
  ultimately show ?thesis using assms(1) same by (simp add: lists_ok_def)
qed

lemma shard_mono:
  assumes "shard_ok m L s" "local_to s' m m'" "s \<noteq> s'" "heap_ok m'"
  shows "shard_ok m' L s"
proof -
  have l: "lists_ok m L s" using assms(1) by (simp add: shard_ok_def)
  have same: "hp m' a = hp m a" if "a \<in> listed L" for a
    using assms(2,3) l that unfolding lists_ok_def local_to_def by (metis Un_iff)
  have "table_ok (key_hash (hp m')) (htable L) (listed L)"
    by (rule table_ok_cong [of "key_hash (hp m)"]) (use assms(1) same in \<open>auto simp: shard_ok_def key_hash_def\<close>)
  then show ?thesis using lists_mono [OF l assms(2,3)] assms(4) by (simp add: shard_ok_def)
qed

lemma listed_live:
  assumes "lists_ok m L s" "a \<in> listed L"
  shows "\<exists>h. hp m a = Some h \<and> in_cache h \<and> Shard (hhash h) = s \<and> (a \<in> set (lru L) \<longleftrightarrow> refs h = 1) \<and> (a \<in> set (in_use L) \<longleftrightarrow> refs h > 1)"
proof -
  have d: "set (lru L) \<inter> set (in_use L) = {}" using assms(1) by (auto simp: lists_ok_def)
  show ?thesis
  proof (cases "a \<in> set (lru L)")
    case True
    then show ?thesis using assms d unfolding lists_ok_def by (metis disjoint_iff less_numeral_extra(4))
  next
    case False
    then show ?thesis using assms unfolding lists_ok_def by (metis Un_iff less_numeral_extra(4))
  qed
qed

section \<open>References\<close>

text \<open>Replacing one entry of the cache by itself with another number of references.\<close>

definition in_list :: "nat \<Rightarrow> bool \<Rightarrow> LRUCache \<Rightarrow> LRUCache" where
  "in_list a used L = (let L = LRU_Remove a L in if used then L\<lparr>in_use := in_use L @ [a]\<rparr> else L\<lparr>lru := lru L @ [a]\<rparr>)"

lemma in_list_simps:
  assumes "distinct (lru L @ in_use L)"
  shows "set (lru (in_list a used L)) = set (lru L) - {a} \<union> (if used then {} else {a})"
    "set (in_use (in_list a used L)) = set (in_use L) - {a} \<union> (if used then {a} else {})"
    "distinct (lru (in_list a used L) @ in_use (in_list a used L))"
    "usage (in_list a used L) = usage L" "htable (in_list a used L) = htable L" "capacity (in_list a used L) = capacity L"
  using assms by (auto simp: in_list_def LRU_Remove_def Let_def)

lemma set_refs_ok:
  assumes l: "lists_ok m L s" and a: "hp m a = Some h" "in_cache h" "Shard (hhash h) = s" and n: "0 < n"
  shows "lists_ok (put a (h\<lparr>refs := n\<rparr>) m) (in_list a (n > 1) L) s"
proof -
  have al: "a \<in> listed L" using l a by (auto simp: lists_ok_def)
  have d: "distinct (lru L @ in_use L)" using l by (simp add: lists_ok_def)
  note I = in_list_simps [OF d, of a "n > 1"]
  have eq: "listed (in_list a (n > 1) L) = listed L" using al unfolding I by auto
  have c: "charge_of (hp (put a (h\<lparr>refs := n\<rparr>) m)) = charge_of (hp m)" using a(1) by (auto simp: charge_of_def put_def fun_eq_iff)
  show ?thesis unfolding lists_ok_def c eq
    using l n a I by (auto simp: lists_ok_def put_def)
qed

lemma same_refs_ok:
  assumes l: "lists_ok m L s" and a: "hp m a = Some h" "in_cache h" "Shard (hhash h) = s" and n: "1 < n" "1 < refs h"
  shows "lists_ok (put a (h\<lparr>refs := n\<rparr>) m) L s"
proof -
  have c: "charge_of (hp (put a (h\<lparr>refs := n\<rparr>) m)) = charge_of (hp m)" using a(1) by (auto simp: charge_of_def put_def fun_eq_iff)
  show ?thesis unfolding lists_ok_def c using l n a by (auto simp: lists_ok_def put_def)
qed

text \<open>An entry that is in no list does not matter.\<close>

lemma outside_ok:
  assumes l: "lists_ok m L s" and a: "a \<notin> listed L" and x: "\<And>h. x = Some h \<Longrightarrow> in_cache h \<Longrightarrow> Shard (hhash h) \<noteq> s"
  shows "lists_ok (m\<lparr>hp := (hp m)(a := x), deleted := d\<rparr>) L s" "lists_ok (m\<lparr>hp := (hp m)(a := x)\<rparr>) L s"
proof -
  have c: "sum (charge_of ((hp m)(a := x))) (listed L) = sum (charge_of (hp m)) (listed L)"
    using a by (intro sum.cong) (auto simp: charge_of_def)
  show "lists_ok (m\<lparr>hp := (hp m)(a := x), deleted := d\<rparr>) L s" "lists_ok (m\<lparr>hp := (hp m)(a := x)\<rparr>) L s"
    using l a x c by (auto simp: lists_ok_def)
qed

lemma key_hash_put: "hp m a = Some h \<Longrightarrow> hkey h' = hkey h \<Longrightarrow> hhash h' = hhash h \<Longrightarrow> key_hash (hp (put a h' m)) = key_hash (hp m)"
  by (auto simp: key_hash_def put_def fun_eq_iff)

lemma entry_at_put: "hp m a = Some h \<Longrightarrow> hkey h' = hkey h \<Longrightarrow> hvalue h' = hvalue h \<Longrightarrow> entry_at (hp (put a h' m)) = entry_at (hp m)"
  by (auto simp: entry_at_def put_def fun_eq_iff)

lemma held_put: "held (hp (put a h' m)) = (held (hp m))(a := refs h' - (if in_cache h' then 1 else 0))"
  by (auto simp: held_def put_def fun_eq_iff)

lemma local_put: "hp m a = Some h \<Longrightarrow> Shard (hhash h) = s \<Longrightarrow> hhash h' = hhash h \<Longrightarrow> local_to s m (put a h' m)"
  by (auto simp: local_to_def put_def)

lemma heap_ok_put: "heap_ok m \<Longrightarrow> hp m a = Some h \<Longrightarrow> hkey h' = hkey h \<Longrightarrow> hhash h' = hhash h \<Longrightarrow> 0 < refs h' \<Longrightarrow> heap_ok (put a h' m)"
  by (auto simp: heap_ok_def put_def)

lemma brk_put: "brk (put a h m) = brk m"
  by (simp add: put_def)

lemmas put_simps = key_hash_put entry_at_put held_put brk_put

lemma LRU_Ref_ok:
  assumes S: "shard_ok m L s" and a: "hp m a = Some h" "in_cache h" "Shard (hhash h) = s"
  shows "\<exists>m' L'. Ref a (m, L) = Some (m', L') \<and> shard_ok m' L' s \<and> local_to s m m' \<and> held (hp m') = (held (hp m))(a := held (hp m) a + 1) \<and>
    entry_at (hp m') = entry_at (hp m) \<and> brk m' = brk m \<and> capacity L' = capacity L"
proof -
  have l: "lists_ok m L s" "heap_ok m" and al: "a \<in> listed L" using S a by (auto simp: shard_ok_def lists_ok_def)
  have r: "0 < refs h" using l(2) a(1) by (auto simp: heap_ok_def)
  let ?m = "put a (h\<lparr>refs := refs h + 1\<rparr>) m" and ?L = "if refs h = 1 then in_list a True L else L"
  have d: "distinct (lru L @ in_use L)" using l(1) by (simp add: lists_ok_def)
  note I = in_list_simps [OF d, of a True]
  have lst: "lists_ok ?m ?L s"
    using set_refs_ok [OF l(1) a, of "refs h + 1"] same_refs_ok [OF l(1) a, of "refs h + 1"] r by auto
  have "listed ?L = listed L" using al I by auto
  then have "shard_ok ?m ?L s" using S lst a(1) r I(5) by (auto simp: shard_ok_def put_simps intro: heap_ok_put)
  moreover have "Ref a (m, L) = Some (?m, ?L)" using a by (simp add: Ref_def in_list_def Let_def)
  moreover have "held (hp m) a + 1 = refs h + 1 - 1" using a r by (simp add: held_def)
  ultimately show ?thesis using a local_put [OF a(1,3)] I(6) by (auto simp: put_simps)
qed

text \<open>Giving up the last reference of an entry that is not in the cache frees it.\<close>

lemma Unref_out:
  assumes l: "lists_ok m L s" "heap_ok m" and a: "hp m a = Some h" "\<not> in_cache h" "Shard (hhash h) = s"
  shows "\<exists>m'. Unref a (m, L) = Some (m', L) \<and> lists_ok m' L s \<and> heap_ok m' \<and> local_to s m m' \<and> brk m' = brk m \<and>
    held (hp m') = (held (hp m))(a := held (hp m) a - 1) \<and> only_drops (entry_at (hp m)) (entry_at (hp m')) (held (hp m')) \<and>
    (\<forall>b. b \<noteq> a \<longrightarrow> hp m' b = hp m b)"
proof -
  have r: "0 < refs h" using l(2) a(1) by (auto simp: heap_ok_def)
  have al: "a \<notin> listed L" using listed_live [OF l(1)] a by fastforce
  show ?thesis
  proof (cases "refs h = 1")
    case True
    let ?m = "m\<lparr>hp := (hp m)(a := None), deleted := deleted m @ [(hkey h, hvalue h)]\<rparr>"
    have "lists_ok ?m L s" using outside_ok(1) [OF l(1) al, of None] by simp
    moreover have "heap_ok ?m" using l(2) by (auto simp: heap_ok_def)
    ultimately show ?thesis using a True
      by (intro exI [of _ ?m]) (auto simp: Unref_def local_to_def held_def only_drops_def entry_at_def fun_eq_iff)
  next
    case False
    let ?h = "h\<lparr>refs := refs h - 1\<rparr>"
    have "lists_ok (put a ?h m) L s" using outside_ok(2) [OF l(1) al, of "Some ?h"] a by (simp add: put_def)
    moreover have "Unref a (m, L) = Some (put a ?h m, L)" using a r False by (simp add: Unref_def)
    moreover have "heap_ok (put a ?h m)" using heap_ok_put [OF l(2) a(1), of ?h] r False by simp
    moreover have "local_to s m (put a ?h m)" using local_put [OF a(1,3), of ?h] by simp
    moreover have "held (hp (put a ?h m)) = (held (hp m))(a := held (hp m) a - 1)" using a by (simp add: held_put) (simp add: held_def)
    moreover have "only_drops (entry_at (hp m)) (entry_at (hp (put a ?h m))) f" for f
      using entry_at_put [OF a(1), of ?h] by (simp add: only_drops_def)
    moreover have "\<forall>b. b \<noteq> a \<longrightarrow> hp (put a ?h m) b = hp m b" by (simp add: put_def)
    ultimately show ?thesis using brk_put [of a ?h m] by blast
  qed
qed

lemma Unref_ok:
  assumes S: "shard_ok m L s" and a: "hp m a = Some h" "0 < held (hp m) a" "Shard (hhash h) = s"
  shows "\<exists>m' L'. Unref a (m, L) = Some (m', L') \<and> shard_ok m' L' s \<and> local_to s m m' \<and> brk m' = brk m \<and>
    held (hp m') = (held (hp m))(a := held (hp m) a - 1) \<and> only_drops (entry_at (hp m)) (entry_at (hp m')) (held (hp m')) \<and>
    capacity L' = capacity L"
proof (cases "in_cache h")
  case False
  have l: "lists_ok m L s" "heap_ok m" "table_ok (key_hash (hp m)) (htable L) (listed L)" using S by (simp_all add: shard_ok_def)
  obtain m' where m': "Unref a (m, L) = Some (m', L)" "lists_ok m' L s" "heap_ok m'" "local_to s m m'" "brk m' = brk m"
    "held (hp m') = (held (hp m))(a := held (hp m) a - 1)" "only_drops (entry_at (hp m)) (entry_at (hp m')) (held (hp m'))"
    "\<forall>b. b \<noteq> a \<longrightarrow> hp m' b = hp m b"
    using Unref_out [OF l(1,2) a(1) False a(3)] by blast
  have al: "a \<notin> listed L" using listed_live [OF l(1)] a False by fastforce
  have "table_ok (key_hash (hp m')) (htable L) (listed L)"
    by (rule table_ok_cong [OF l(3)]) (use m'(8) al in \<open>auto simp: key_hash_def\<close>)
  then show ?thesis using m' by (auto simp: shard_ok_def)
next
  case True
  have l: "lists_ok m L s" "heap_ok m" and al: "a \<in> listed L" using S a True by (auto simp: shard_ok_def lists_ok_def)
  have r: "1 < refs h" using a True by (simp add: held_def)
  let ?h = "h\<lparr>refs := refs h - 1\<rparr>" and ?L = "if refs h = 2 then in_list a False L else L"
  have d: "distinct (lru L @ in_use L)" using l(1) by (simp add: lists_ok_def)
  note I = in_list_simps [OF d, of a False]
  have lst: "lists_ok (put a ?h m) ?L s"
    using set_refs_ok [OF l(1) a(1) True a(3), of "refs h - 1"] same_refs_ok [OF l(1) a(1) True a(3), of "refs h - 1"] r by auto
  have "listed ?L = listed L" using al I by auto
  then have "shard_ok (put a ?h m) ?L s" using S lst a(1) r I(5) by (auto simp: shard_ok_def put_simps intro: heap_ok_put)
  moreover have "Unref a (m, L) = Some (put a ?h m, ?L)" using a(1) True r by (auto simp: Unref_def in_list_def Let_def)
  moreover have "held (hp m) a - 1 = refs h - 1 - 1" using a(1) True by (simp add: held_def)
  ultimately show ?thesis using a True local_put [OF a(1,3)] I(6) by (auto simp: put_simps only_drops_def)
qed

section \<open>Erasing\<close>

lemma FinishErase_ok:
  assumes l: "lists_ok m L s" "heap_ok m" and al: "a \<in> listed L" and t: "table_ok (key_hash (hp m)) (htable L) (listed L - {a})"
  shows "\<exists>m' L'. FinishErase (Some a) (m, L) = Some (True, m', L') \<and> shard_ok m' L' s \<and> local_to s m m' \<and> drops m m' \<and>
    lru L' = remove1 a (lru L) \<and> in_use L' = remove1 a (in_use L) \<and> capacity L' = capacity L"
proof -
  obtain h where h: "hp m a = Some h" "in_cache h" "Shard (hhash h) = s" using listed_live [OF l(1) al] by blast
  have d: "distinct (lru L @ in_use L)" using l(1) by (simp add: lists_ok_def)
  have r: "0 < refs h" using l(2) h(1) by (auto simp: heap_ok_def)
  let ?m1 = "put a (h\<lparr>in_cache := False\<rparr>) m" and ?L1 = "(LRU_Remove a L)\<lparr>usage := usage L - hcharge h\<rparr>"
  have ls: "listed ?L1 = listed L - {a}" using d by (auto simp: LRU_Remove_def)
  have u: "usage L - hcharge h = sum (charge_of (hp ?m1)) (listed L - {a})"
  proof -
    have "usage L = charge_of (hp m) a + sum (charge_of (hp m)) (listed L - {a})"
      using l(1) al by (simp add: lists_ok_def sum.remove)
    moreover have "charge_of (hp m) a = hcharge h" using h by (simp add: charge_of_def)
    moreover have "sum (charge_of (hp ?m1)) (listed L - {a}) = sum (charge_of (hp m)) (listed L - {a})"
      by (intro sum.cong) (auto simp: charge_of_def put_def)
    ultimately show ?thesis by simp
  qed
  have l1: "lists_ok ?m1 ?L1 s"
    unfolding lists_ok_def ls
  proof (intro conjI)
    show "usage ?L1 = sum (charge_of (hp ?m1)) (listed L - {a})" using u by simp
  qed (use l(1) d h in \<open>auto simp: lists_ok_def LRU_Remove_def put_def\<close>)
  have h1: "heap_ok ?m1" "hp ?m1 a = Some (h\<lparr>in_cache := False\<rparr>)" using heap_ok_put [OF l(2) h(1), of "h\<lparr>in_cache := False\<rparr>"] r by (simp_all add: put_def)
  obtain m' where m': "Unref a (?m1, ?L1) = Some (m', ?L1)" "lists_ok m' ?L1 s" "heap_ok m'" "local_to s ?m1 m'" "brk m' = brk ?m1"
    "held (hp m') = (held (hp ?m1))(a := held (hp ?m1) a - 1)" "only_drops (entry_at (hp ?m1)) (entry_at (hp m')) (held (hp m'))"
    "\<forall>b. b \<noteq> a \<longrightarrow> hp m' b = hp ?m1 b"
    using Unref_out [OF l1 h1] h(3) by auto
  have "table_ok (key_hash (hp m')) (htable L) (listed L - {a})"
    by (rule table_ok_cong [OF t]) (use m'(8) in \<open>auto simp: key_hash_def put_def\<close>)
  then have "shard_ok m' ?L1 s" using m'(2,3) ls by (simp add: shard_ok_def LRU_Remove_def)
  moreover have "held (hp m') = held (hp m)" using m'(6) h by (auto simp: put_simps held_def put_def fun_eq_iff)
  then have "drops m m'" using m'(5,7) h(1) by (simp add: drops_def put_simps)
  moreover have "local_to s m m'" using local_trans [OF local_put [OF h(1,3)] m'(4)] by simp
  ultimately show ?thesis using h m'(1) by (auto simp: FinishErase_def LRU_Remove_def)
qed

lemma evict_oldest_ok:
  assumes S: "shard_ok m L s" and a: "lru L = a # as"
  shows "\<exists>m' L'. evict_oldest (m, L) = Some (m', L') \<and> shard_ok m' L' s \<and> local_to s m m' \<and> drops m m' \<and> lru L' = as \<and>
    in_use L' = in_use L \<and> capacity L' = capacity L"
proof -
  have l: "lists_ok m L s" "heap_ok m" "table_ok (key_hash (hp m)) (htable L) (listed L)" using S by (simp_all add: shard_ok_def)
  obtain h where h: "hp m a = Some h" "in_cache h" "refs h = 1" using l(1) a by (auto simp: lists_ok_def)
  have ka: "key_hash (hp m) a = Some (hkey h, hhash h)" using h by (simp add: key_hash_def)
  obtain x t' where x: "HT_Remove m (hkey h) (hhash h) (htable L) = Some (x, t')"
      "case x of None \<Rightarrow> t' = htable L \<and> (\<forall>a \<in> listed L. key_hash (hp m) a \<noteq> Some (hkey h, hhash h))
       | Some a \<Rightarrow> a \<in> listed L \<and> key_hash (hp m) a = Some (hkey h, hhash h) \<and> table_ok (key_hash (hp m)) t' (listed L - {a})"
    using HT_Remove_ok [OF l(3) refl, of "hkey h" "hhash h"] by blast
  have "x = Some a"
  proof (cases x)
    case None
    then show ?thesis using x(2) a ka by auto
  next
    case (Some b)
    have "inj_on (key_hash (hp m)) (listed L)" using l(3) by (simp add: table_ok_def)
    moreover have "b \<in> listed L" "key_hash (hp m) b = key_hash (hp m) a" using x(2) Some ka by auto
    moreover have "a \<in> listed L" using a by simp
    ultimately show ?thesis using Some by (auto dest: inj_onD)
  qed
  then have t': "table_ok (key_hash (hp m)) (htable (L\<lparr>htable := t'\<rparr>)) (listed (L\<lparr>htable := t'\<rparr>) - {a})" using x(2) by simp
  have l': "lists_ok m (L\<lparr>htable := t'\<rparr>) s" using l(1) by (simp add: lists_ok_def)
  have "a \<notin> set (in_use L)" using l(1) a by (auto simp: lists_ok_def)
  then show ?thesis using FinishErase_ok [OF l' l(2) _ t'] a h x(1) \<open>x = Some a\<close>
    by (auto simp: evict_oldest_def slot_def remove1_idem)
qed

lemma evict_loop_ok:
  "shard_ok m L s \<Longrightarrow> \<exists>m' L'. evict_loop (m, L) = Some (m', L') \<and> shard_ok m' L' s \<and> local_to s m m' \<and> drops m m' \<and>
     in_use L' = in_use L \<and> capacity L' = capacity L \<and> (usage L' \<le> capacity L' \<or> lru L' = [])"
proof (induction "lru L" arbitrary: m L)
  case Nil
  then show ?case using local_refl drops_refl by (subst evict_loop.simps) auto
next
  case (Cons a as)
  show ?case
  proof (cases "usage L > capacity L")
    case False
    then show ?thesis using Cons.prems local_refl drops_refl by (subst evict_loop.simps) auto
  next
    case True
    obtain m1 L1 where 1: "evict_oldest (m, L) = Some (m1, L1)" "shard_ok m1 L1 s" "local_to s m m1" "drops m m1" "lru L1 = as"
        "in_use L1 = in_use L" "capacity L1 = capacity L"
      using evict_oldest_ok [OF Cons.prems Cons.hyps(2) [symmetric]] by blast
    obtain m2 L2 where 2: "evict_loop (m1, L1) = Some (m2, L2)" "shard_ok m2 L2 s" "local_to s m1 m2" "drops m1 m2"
        "in_use L2 = in_use L1" "capacity L2 = capacity L1" "usage L2 \<le> capacity L2 \<or> lru L2 = []"
      using Cons.hyps(1) [OF 1(5) [symmetric] 1(2)] by blast
    show ?thesis using True Cons.hyps(2) 1(1,6,7) 2 local_trans [OF 1(3) 2(3)] drops_trans [OF 1(4) 2(4)]
      by (subst evict_loop.simps) auto
  qed
qed

lemma prune_loop_ok:
  "shard_ok m L s \<Longrightarrow> \<exists>m' L'. prune_loop (m, L) = Some (m', L') \<and> shard_ok m' L' s \<and> local_to s m m' \<and> drops m m' \<and>
     in_use L' = in_use L \<and> capacity L' = capacity L \<and> lru L' = []"
proof (induction "lru L" arbitrary: m L)
  case Nil
  then show ?case using local_refl drops_refl by (subst prune_loop.simps) auto
next
  case (Cons a as)
  obtain m1 L1 where 1: "evict_oldest (m, L) = Some (m1, L1)" "shard_ok m1 L1 s" "local_to s m m1" "drops m m1" "lru L1 = as"
      "in_use L1 = in_use L" "capacity L1 = capacity L"
    using evict_oldest_ok [OF Cons.prems Cons.hyps(2) [symmetric]] by blast
  obtain m2 L2 where 2: "prune_loop (m1, L1) = Some (m2, L2)" "shard_ok m2 L2 s" "local_to s m1 m2" "drops m1 m2"
      "in_use L2 = in_use L1" "capacity L2 = capacity L1" "lru L2 = []"
    using Cons.hyps(1) [OF 1(5) [symmetric] 1(2)] by blast
  show ?case using Cons.hyps(2) 1(1,6,7) 2 local_trans [OF 1(3) 2(3)] drops_trans [OF 1(4) 2(4)]
    by (subst prune_loop.simps) auto
qed

end
