(* ===== verification/Sharded_Cache_All.thy ===== *)
theory Sharded_Cache_All
  imports Sharded_Cache_Shard
begin

text \<open>
  The operations of a shard keep its invariant and do what the interface promises; the sixteen
  shards together are a cache.
\<close>

section \<open>Operations of a shard\<close>

lemma Shard_Lookup_ok:
  assumes S: "shard_ok m L s" and k: "Shard (HashSlice key) = s"
  shows "\<exists>r m' L'. Shard_Lookup key (HashSlice key) (m, L) = Some (r, m', L') \<and> shard_ok m' L' s \<and> local_to s m m' \<and>
    entry_at (hp m') = entry_at (hp m) \<and> brk m' = brk m \<and>
    (case r of None \<Rightarrow> held (hp m') = held (hp m)
     | Some a \<Rightarrow> held (hp m') = (held (hp m))(a := held (hp m) a + 1) \<and> (\<exists>v. entry_at (hp m) a = Some (key, v)))"
proof -
  have t: "table_ok (key_hash (hp m)) (htable L) (listed L)" and l: "lists_ok m L s" using S by (simp_all add: shard_ok_def)
  obtain r where r: "HT_Lookup m (htable L) key (HashSlice key) = Some r"
      "case r of None \<Rightarrow> \<forall>a \<in> listed L. key_hash (hp m) a \<noteq> Some (key, HashSlice key)
       | Some a \<Rightarrow> a \<in> listed L \<and> key_hash (hp m) a = Some (key, HashSlice key)"
    using HT_Lookup_ok [OF t refl] by blast
  show ?thesis
  proof (cases r)
    case None
    then show ?thesis using r(1) S local_refl by (auto simp: Shard_Lookup_def)
  next
    case (Some a)
    then have a: "a \<in> listed L" "key_hash (hp m) a = Some (key, HashSlice key)" using r(2) by auto
    obtain h where h: "hp m a = Some h" "in_cache h" "Shard (hhash h) = s" using listed_live [OF l a(1)] by blast
    have e: "entry_at (hp m) a = Some (key, hvalue h)" using a(2) h(1) by (simp add: key_hash_def entry_at_def)
    show ?thesis using LRU_Ref_ok [OF S h] r(1) Some e by (auto simp: Shard_Lookup_def)
  qed
qed

text \<open>An entry in the lists is found.\<close>

lemma Shard_Lookup_listed:
  assumes S: "shard_ok m L s" and a: "a \<in> listed L" "entry_at (hp m) a = Some (key, v)"
  shows "\<exists>s. Shard_Lookup key (HashSlice key) (m, L) = Some (Some a, s)"
proof -
  have t: "table_ok (key_hash (hp m)) (htable L) (listed L)" and l: "lists_ok m L s" "heap_ok m" using S by (simp_all add: shard_ok_def)
  obtain h where h: "hp m a = Some h" "in_cache h" "Shard (hhash h) = s" using listed_live [OF l(1) a(1)] by blast
  have k: "key_hash (hp m) a = Some (key, HashSlice key)" using h(1) a(2) l(2) by (auto simp: key_hash_def entry_at_def heap_ok_def)
  obtain r where r: "HT_Lookup m (htable L) key (HashSlice key) = Some r"
      "case r of None \<Rightarrow> \<forall>a \<in> listed L. key_hash (hp m) a \<noteq> Some (key, HashSlice key)
       | Some a \<Rightarrow> a \<in> listed L \<and> key_hash (hp m) a = Some (key, HashSlice key)"
    using HT_Lookup_ok [OF t refl] by blast
  have i: "inj_on (key_hash (hp m)) (listed L)" using t by (simp add: table_ok_def)
  have "r = Some a"
  proof (cases r)
    case None
    then show ?thesis using r(2) a(1) k by auto
  next
    case (Some b)
    then have b: "b \<in> listed L" "key_hash (hp m) b = key_hash (hp m) a" using r(2) k by auto
    show ?thesis using inj_onD [OF i b(2) b(1) a(1)] Some by simp
  qed
  then show ?thesis using LRU_Ref_ok [OF S h] r(1) by (auto simp: Shard_Lookup_def)
qed

text \<open>A new entry, before anything is evicted.\<close>

definition fresh :: "bytes \<Rightarrow> 'v \<Rightarrow> nat \<Rightarrow> bool \<Rightarrow> 'v LRUHandle" where
  "fresh key v charge c =
     \<lparr>hvalue = v, hkey = key, hcharge = charge, in_cache = c, refs = (if c then 2 else 1), hhash = HashSlice key\<rparr>"

definition fresh_mem :: "bytes \<Rightarrow> 'v \<Rightarrow> nat \<Rightarrow> bool \<Rightarrow> 'v Mem \<Rightarrow> 'v Mem" where
  "fresh_mem key v charge c m = put (brk m) (fresh key v charge c) (m\<lparr>brk := brk m + 1\<rparr>)"

lemma fresh_mem_simps:
  "hp (fresh_mem key v charge c m) = (hp m)(brk m \<mapsto> fresh key v charge c)" "brk (fresh_mem key v charge c m) = brk m + 1"
  by (simp_all add: fresh_mem_def put_def)

lemma fresh_mem_ok:
  fixes v :: 'v and charge :: nat and c :: bool
  assumes m: "heap_ok m" and k: "Shard (HashSlice key) = s"
  defines "m1 \<equiv> fresh_mem key v charge c m"
  shows "hp m (brk m) = None" "heap_ok m1" "local_to s m m1" "held (hp m1) = (held (hp m))(brk m := 1)"
    "entry_at (hp m1) = (entry_at (hp m))(brk m := Some (key, v))"
proof -
  show n: "hp m (brk m) = None" using m by (cases "hp m (brk m)") (auto simp: heap_ok_def)
  show "heap_ok m1" using m by (auto simp: heap_ok_def m1_def fresh_mem_simps fresh_def less_Suc_eq)
  show "local_to s m m1" using n k by (auto simp: local_to_def m1_def fresh_mem_simps fresh_def)
  show "held (hp m1) = (held (hp m))(brk m := 1)" by (auto simp: held_def m1_def fresh_mem_simps fresh_def fun_eq_iff)
  show "entry_at (hp m1) = (entry_at (hp m))(brk m := Some (key, v))"
    by (auto simp: entry_at_def m1_def fresh_mem_simps fresh_def fun_eq_iff)
qed

lemma fresh_unlisted:
  assumes "lists_ok m L s" "heap_ok m"
  shows "brk m \<notin> listed L"
  using listed_live [OF assms(1), of "brk m"] fresh_mem_ok(1) [OF assms(2) refl] by auto

text \<open>The insertion into the lists and the table.\<close>

definition link :: "bytes \<Rightarrow> 'v \<Rightarrow> nat \<Rightarrow> 'v Mem \<times> LRUCache \<Rightarrow> ('v Mem \<times> LRUCache) option" where
  "link key v charge = (\<lambda>(m, L).
     let m1 = fresh_mem key v charge True m;
         L1 = L\<lparr>in_use := in_use L @ [brk m], usage := usage L + charge\<rparr>
     in do {
       (old, t) \<leftarrow> HT_Insert m1 (brk m) (htable L);
       (_, s) \<leftarrow> FinishErase old (m1, L1\<lparr>htable := t\<rparr>);
       Some s })"

lemma lists_fresh:
  assumes l: "lists_ok m L s" "heap_ok m" and k: "Shard (HashSlice key) = s"
  shows "lists_ok (fresh_mem key v charge True m) (L\<lparr>in_use := in_use L @ [brk m], usage := usage L + charge, htable := t\<rparr>) s"
    (is "lists_ok ?m ?L s")
proof -
  have n: "brk m \<notin> listed L" using fresh_unlisted [OF l] .
  have "sum (charge_of (hp ?m)) (listed L) = sum (charge_of (hp m)) (listed L)"
    using n by (intro sum.cong) (auto simp: charge_of_def fresh_mem_simps)
  moreover have "listed ?L = insert (brk m) (listed L)" by auto
  moreover have "charge_of (hp ?m) (brk m) = charge" by (simp add: charge_of_def fresh_mem_simps fresh_def)
  moreover have "finite (listed L)" by simp
  ultimately have u: "usage ?L = sum (charge_of (hp ?m)) (listed ?L)" using l(1) n by (simp add: lists_ok_def)
  show ?thesis unfolding lists_ok_def
  proof (intro conjI)
    show "usage ?L = sum (charge_of (hp ?m)) (listed ?L)" by (rule u)
  qed (use l n k in \<open>auto simp: lists_ok_def fresh_mem_simps fresh_def\<close>)
qed

lemma link_ok:
  assumes S: "shard_ok m L s" and k: "Shard (HashSlice key) = s"
  shows "\<exists>m' L'. link key v charge (m, L) = Some (m', L') \<and> shard_ok m' L' s \<and> local_to s m m' \<and>
    drops (fresh_mem key v charge True m) m' \<and> brk m \<in> set (in_use L') \<and> capacity L' = capacity L"
proof -
  let ?m = "fresh_mem key v charge True m" and ?a = "brk m"
  let ?L = "\<lambda>t. L\<lparr>in_use := in_use L @ [?a], usage := usage L + charge, htable := t\<rparr>"
  have l: "lists_ok m L s" "heap_ok m" "table_ok (key_hash (hp m)) (htable L) (listed L)" using S by (simp_all add: shard_ok_def)
  have n: "?a \<notin> listed L" using fresh_unlisted [OF l(1,2)] .
  note F = fresh_mem_ok [OF l(2) k]
  have t: "table_ok (key_hash (hp ?m)) (htable L) (listed L)"
    by (rule table_ok_cong [OF l(3)]) (use n in \<open>auto simp: key_hash_def fresh_mem_simps\<close>)
  have ha: "hp ?m ?a = Some (fresh key v charge True)" by (simp add: fresh_mem_simps)
  obtain r t' where r: "HT_Insert ?m ?a (htable L) = Some (r, t')"
      "case r of None \<Rightarrow> table_ok (key_hash (hp ?m)) t' (insert ?a (listed L))
       | Some b \<Rightarrow> b \<in> listed L \<and> key_hash (hp ?m) b = key_hash (hp ?m) ?a \<and> table_ok (key_hash (hp ?m)) t' (insert ?a (listed L - {b}))"
    using HT_Insert_ok [OF t refl ha n] by blast
  have l1: "lists_ok ?m (?L t') s" using lists_fresh [OF l(1,2) k] .
  have ls: "listed (?L t') = insert ?a (listed L)" by auto
  show ?thesis
  proof (cases r)
    case None
    then have "shard_ok ?m (?L t') s" using r(2) l1 F(2) ls by (simp add: shard_ok_def)
    moreover have "link key v charge (m, L) = Some (?m, ?L t')" using r(1) None by (simp add: link_def Let_def FinishErase_def)
    ultimately show ?thesis using F(3) drops_refl by force
  next
    case (Some b)
    then have b: "b \<in> listed L" "table_ok (key_hash (hp ?m)) t' (insert ?a (listed L - {b}))" using r(2) by auto
    have "insert ?a (listed L - {b}) = listed (?L t') - {b}" using b(1) n unfolding ls by auto
    then have b': "b \<in> listed (?L t')" "table_ok (key_hash (hp ?m)) (htable (?L t')) (listed (?L t') - {b})" using b ls by auto
    obtain m' L' where e: "FinishErase (Some b) (?m, ?L t') = Some (True, m', L')" "shard_ok m' L' s" "local_to s ?m m'" "drops ?m m'"
        "in_use L' = remove1 b (in_use (?L t'))" "capacity L' = capacity (?L t')"
      using FinishErase_ok [OF l1 F(2) b'] by blast
    have "link key v charge (m, L) = Some (m', L')" using r(1) Some e(1) by (simp add: link_def Let_def)
    moreover have "?a \<in> set (in_use L')" using e(5) b(1) n by (auto simp: remove1_append)
    ultimately show ?thesis using e local_trans [OF F(3) e(3)] by auto
  qed
qed

lemma alone_ok:
  assumes S: "shard_ok m L s" and k: "Shard (HashSlice key) = s"
  shows "shard_ok (fresh_mem key v charge False m) L s"
proof -
  let ?m = "fresh_mem key v charge False m"
  have l: "lists_ok m L s" "heap_ok m" "table_ok (key_hash (hp m)) (htable L) (listed L)" using S by (simp_all add: shard_ok_def)
  have n: "brk m \<notin> listed L" using fresh_unlisted [OF l(1,2)] .
  have "lists_ok (m\<lparr>brk := brk m + 1\<rparr>) L s" using l(1) by (simp add: lists_ok_def)
  from outside_ok(2) [OF this n, of "Some (fresh key v charge False)"] have "lists_ok ?m L s"
    by (simp add: fresh_mem_def put_def fresh_def)
  moreover have "table_ok (key_hash (hp ?m)) (htable L) (listed L)"
    by (rule table_ok_cong [OF l(3)]) (use n in \<open>auto simp: key_hash_def fresh_mem_simps\<close>)
  ultimately show ?thesis using fresh_mem_ok(2) [OF l(2) k] by (simp add: shard_ok_def)
qed

lemma Shard_Insert_ok:
  assumes S: "shard_ok m L s" and k: "Shard (HashSlice key) = s"
  shows "\<exists>m' L'. Shard_Insert key (HashSlice key) v charge (m, L) = Some (brk m, m', L') \<and> shard_ok m' L' s \<and> local_to s m m' \<and>
    hp m (brk m) = None \<and> held (hp m') = (held (hp m))(brk m := 1) \<and>
    only_drops ((entry_at (hp m))(brk m := Some (key, v))) (entry_at (hp m')) (held (hp m')) \<and>
    capacity L' = capacity L \<and> (usage L' \<le> capacity L' \<or> lru L' = []) \<and> (0 < capacity L \<longrightarrow> brk m \<in> set (in_use L'))"
proof -
  let ?c = "capacity L > 0"
  let ?m = "fresh_mem key v charge ?c m"
  let ?st = "if ?c then link key v charge (m, L) else Some (fresh_mem key v charge False m, L)"
  have ok: "heap_ok m" using S by (simp add: shard_ok_def)
  note F = fresh_mem_ok [OF ok k]
  obtain m1 L1 where 1: "?st = Some (m1, L1)" "shard_ok m1 L1 s" "local_to s m m1" "drops ?m m1" "capacity L1 = capacity L"
      "?c \<longrightarrow> brk m \<in> set (in_use L1)"
  proof (cases ?c)
    case True
    then show ?thesis using link_ok [OF S k, of v charge] that by auto
  next
    case False
    then have c: "?c = False" by simp
    show ?thesis
    proof (rule that [of "fresh_mem key v charge False m" L])
      show "local_to s m (fresh_mem key v charge False m)" by (rule fresh_mem_ok(3) [OF ok k])
    qed (use alone_ok [OF S k] c in \<open>simp_all add: drops_refl\<close>)
  qed
  obtain m2 L2 where 2: "evict_loop (m1, L1) = Some (m2, L2)" "shard_ok m2 L2 s" "local_to s m1 m2" "drops m1 m2"
      "in_use L2 = in_use L1" "capacity L2 = capacity L1" "usage L2 \<le> capacity L2 \<or> lru L2 = []"
    using evict_loop_ok [OF 1(2)] by blast
  have eq: "Shard_Insert key (HashSlice key) v charge (m, L) = Option.bind ?st (\<lambda>s. Option.bind (evict_loop s) (\<lambda>s. Some (brk m, s)))"
    by (simp add: Shard_Insert_def link_def fresh_mem_def fresh_def put_def Let_def)
  have "drops ?m m2" using drops_trans [OF 1(4) 2(4)] .
  then have "held (hp m2) = (held (hp m))(brk m := 1)"
      "only_drops ((entry_at (hp m))(brk m := Some (key, v))) (entry_at (hp m2)) (held (hp m2))"
    using F(4,5) by (simp_all add: drops_def)
  then show ?thesis using eq 1(1,5,6) 2 F(1) local_trans [OF 1(3) 2(3)] by simp
qed

text \<open>The sixteen shards together are a cache.\<close>

definition cache_inv :: "'v ShardedLRUCache \<Rightarrow> bool" where
  "cache_inv c \<longleftrightarrow> length (shards c) = kNumShards \<and> (\<forall>s < kNumShards. shard_ok (mem c) (shards c ! s) s)"

definition cache_entry :: "'v ShardedLRUCache \<Rightarrow> nat \<Rightarrow> (bytes \<times> 'v) option" where
  "cache_entry c = entry_at (hp (mem c))"

definition cache_clients :: "'v ShardedLRUCache \<Rightarrow> nat \<Rightarrow> nat" where
  "cache_clients c = held (hp (mem c))"

lemma Shard_less: "Shard hash < kNumShards"
proof -
  have "unat hash < 2 ^ 28 * 2 ^ 4" using unsigned_less [of hash, where ?'a = nat] by simp
  then have "unat hash div 2 ^ 28 < 2 ^ 4" by (simp add: less_mult_imp_div_less)
  moreover have "unat (drop_bit 28 hash) = unat hash div 2 ^ 28" by (simp only: unat_drop_bit_eq drop_bit_eq_div [symmetric])
  ultimately have "unat (drop_bit 28 hash) < 2 ^ 4" by simp
  then show ?thesis by (simp add: Shard_def kNumShards_def kNumShardBits_def)
qed

lemma cache_inv_update:
  assumes c: "cache_inv c" and s: "s < kNumShards" and L: "shard_ok m' L' s" "local_to s (mem c) m'"
  shows "cache_inv (c\<lparr>mem := m', shards := (shards c)[s := L']\<rparr>)"
proof -
  have "shard_ok m' ((shards c)[s := L'] ! i) i" if i: "i < kNumShards" for i
  proof (cases "i = s")
    case True
    then show ?thesis using c s L by (simp add: cache_inv_def)
  next
    case False
    have "heap_ok m'" using L(1) by (simp add: shard_ok_def)
    then show ?thesis using False i c shard_mono [OF _ L(2) False] by (auto simp: cache_inv_def)
  qed
  then show ?thesis using c by (simp add: cache_inv_def)
qed

lemma on_shard_eq:
  assumes "cache_inv c" "f (mem c, shards c ! Shard hash) = Some (r, m', L')"
  shows "on_shard hash f c = Some (r, c\<lparr>mem := m', shards := (shards c)[Shard hash := L']\<rparr>)"
  using assms Shard_less [of hash] by (simp add: on_shard_def cache_inv_def Let_def)

lemma cache_shard: "cache_inv c \<Longrightarrow> shard_ok (mem c) (shards c ! Shard hash) (Shard hash)"
  using Shard_less [of hash] by (simp add: cache_inv_def)

lemma LRU_Lookup_ok:
  assumes c: "cache_inv c"
  shows "\<exists>r c'. LRU_Lookup key c = Some (r, c') \<and> cache_inv c' \<and> cache_entry c' = cache_entry c \<and> last_id c' = last_id c \<and>
    (case r of None \<Rightarrow> cache_clients c' = cache_clients c
     | Some h \<Rightarrow> cache_clients c' = (cache_clients c)(h := cache_clients c h + 1) \<and> (\<exists>v. cache_entry c h = Some (key, v)))"
proof -
  let ?s = "Shard (HashSlice key)"
  obtain r m' L' where r: "Shard_Lookup key (HashSlice key) (mem c, shards c ! ?s) = Some (r, m', L')" "shard_ok m' L' ?s"
      "local_to ?s (mem c) m'" "entry_at (hp m') = entry_at (hp (mem c))"
      "case r of None \<Rightarrow> held (hp m') = held (hp (mem c))
       | Some a \<Rightarrow> held (hp m') = (held (hp (mem c)))(a := held (hp (mem c)) a + 1) \<and> (\<exists>v. entry_at (hp (mem c)) a = Some (key, v))"
    using Shard_Lookup_ok [OF cache_shard [OF c] refl] by blast
  have "LRU_Lookup key c = Some (r, c\<lparr>mem := m', shards := (shards c)[?s := L']\<rparr>)"
    using on_shard_eq [OF c, where f = "Shard_Lookup key (HashSlice key)", OF r(1)] by (simp add: LRU_Lookup_def Let_def)
  then show ?thesis using cache_inv_update [OF c Shard_less r(2,3)] r(4,5)
    by (simp add: cache_entry_def cache_clients_def split: option.splits)
qed

lemma LRU_Insert_ok:
  assumes c: "cache_inv c"
  shows "\<exists>h c'. LRU_Insert key v charge c = Some (h, c') \<and> cache_inv c' \<and> last_id c' = last_id c \<and>
      cache_clients c h = 0 \<and> cache_clients c' = (cache_clients c)(h := 1) \<and> cache_entry c' h = Some (key, v) \<and>
      only_drops ((cache_entry c)(h := Some (key, v))) (cache_entry c') (cache_clients c')"
proof -
  let ?s = "Shard (HashSlice key)" and ?a = "brk (mem c)"
  obtain m' L' where r: "Shard_Insert key (HashSlice key) v charge (mem c, shards c ! ?s) = Some (?a, m', L')" "shard_ok m' L' ?s"
      "local_to ?s (mem c) m'" "hp (mem c) ?a = None" "held (hp m') = (held (hp (mem c)))(?a := 1)"
      "only_drops ((entry_at (hp (mem c)))(?a := Some (key, v))) (entry_at (hp m')) (held (hp m'))"
    using Shard_Insert_ok [OF cache_shard [OF c] refl, of key v charge] by blast
  let ?c = "c\<lparr>mem := m', shards := (shards c)[?s := L']\<rparr>"
  have "LRU_Insert key v charge c = Some (?a, ?c)"
    using on_shard_eq [OF c, where f = "Shard_Insert key (HashSlice key) v charge", OF r(1)] by (simp add: LRU_Insert_def Let_def)
  moreover have "cache_inv ?c" using cache_inv_update [OF c Shard_less r(2,3)] .
  moreover have "held (hp (mem c)) ?a = 0" using r(4) by (simp add: held_def)
  moreover have "entry_at (hp m') ?a = Some (key, v)" using r(5,6) by (simp add: only_drops_def)
  ultimately show ?thesis using r(5,6) by (simp add: cache_entry_def cache_clients_def)
qed

lemma LRU_Release_ok:
  assumes c: "cache_inv c" and a: "0 < cache_clients c a"
  shows "\<exists>c'. LRU_Release a c = Some c' \<and> cache_inv c' \<and> last_id c' = last_id c \<and>
      cache_clients c' = (cache_clients c)(a := cache_clients c a - 1) \<and> only_drops (cache_entry c) (cache_entry c') (cache_clients c')"
proof -
  obtain h where h: "hp (mem c) a = Some h" using a by (auto simp: cache_clients_def held_def split: option.splits)
  let ?s = "Shard (hhash h)"
  have p: "0 < held (hp (mem c)) a" using a by (simp add: cache_clients_def)
  obtain m' L' where r: "Unref a (mem c, shards c ! ?s) = Some (m', L')" "shard_ok m' L' ?s" "local_to ?s (mem c) m'"
      "held (hp m') = (held (hp (mem c)))(a := held (hp (mem c)) a - 1)"
      "only_drops (entry_at (hp (mem c))) (entry_at (hp m')) (held (hp m'))"
    using Unref_ok [OF cache_shard [OF c] h p refl] by blast
  have "LRU_Release a c = Some (c\<lparr>mem := m', shards := (shards c)[?s := L']\<rparr>)"
    using h on_shard_eq [OF c, of "map_option (Pair ()) \<circ> Unref a"] r(1) by (simp add: LRU_Release_def)
  then show ?thesis using cache_inv_update [OF c Shard_less r(2,3)] r(4,5) by (simp add: cache_entry_def cache_clients_def)
qed

lemma LRU_live:
  assumes "0 < cache_clients c a"
  shows "cache_entry c a \<noteq> None"
  using assms by (auto simp: cache_clients_def cache_entry_def entry_at_def held_def split: option.splits)

interpretation lru_cache: cache LRU cache_inv cache_entry cache_clients last_id
proof unfold_locales
  fix c :: "'a ShardedLRUCache" and key h
  show "cache_inv c \<Longrightarrow> \<exists>r c'. Cache_Lookup LRU key c = Some (r, c') \<and> cache_inv c' \<and> cache_entry c' = cache_entry c \<and>
      last_id c' = last_id c \<and> (case r of None \<Rightarrow> cache_clients c' = cache_clients c
       | Some h \<Rightarrow> cache_clients c' = (cache_clients c)(h := cache_clients c h + 1) \<and> (\<exists>v. cache_entry c h = Some (key, v)))"
    using LRU_Lookup_ok [of c key] by (simp add: LRU_def)
  show "cache_inv c \<Longrightarrow> \<exists>c'. Cache_NewId LRU c = (last_id c + 1, c') \<and> cache_inv c' \<and> last_id c' = last_id c + 1 \<and>
      cache_entry c' = cache_entry c \<and> cache_clients c' = cache_clients c"
    by (simp add: LRU_def LRU_NewId_def cache_inv_def cache_entry_def cache_clients_def)
  show "cache_inv c \<Longrightarrow> 0 < cache_clients c h \<Longrightarrow> \<exists>c'. Cache_Release LRU h c = Some c' \<and> cache_inv c' \<and> last_id c' = last_id c \<and>
      cache_clients c' = (cache_clients c)(h := cache_clients c h - 1) \<and> only_drops (cache_entry c) (cache_entry c') (cache_clients c')"
    using LRU_Release_ok [of c h] by (simp add: LRU_def)
  show "cache_inv c \<Longrightarrow> cache_entry c h = Some (key, v) \<Longrightarrow> Cache_Value LRU h c = Some v" for v
    by (auto simp: LRU_def LRU_Value_def cache_entry_def entry_at_def)
  show "cache_inv c \<Longrightarrow> 0 < cache_clients c h \<Longrightarrow> cache_entry c h \<noteq> None" by (rule LRU_live)
  show "cache_inv c \<Longrightarrow> \<exists>h c'. Cache_Insert LRU key v charge c = Some (h, c') \<and> cache_inv c' \<and> last_id c' = last_id c \<and>
      cache_clients c h = 0 \<and> cache_clients c' = (cache_clients c)(h := 1) \<and> cache_entry c' h = Some (key, v) \<and>
      only_drops ((cache_entry c)(h := Some (key, v))) (cache_entry c') (cache_clients c')" for v charge
    using LRU_Insert_ok [of c key v charge] by (simp add: LRU_def)
qed

section \<open>A new cache, erasing and pruning\<close>

lemma new_shard_ok: "hp m = Map.empty \<Longrightarrow> shard_ok m (new_LRUCache cap) s"
  by (auto simp: shard_ok_def heap_ok_def lists_ok_def table_ok_def buckets_ok_def members_def new_LRUCache_def new_HandleTable_def nth_Cons')

lemma NewLRUCache_ok: "cache_inv (NewLRUCache cap)" "cache_clients (NewLRUCache cap) h = 0" "cache_entry (NewLRUCache cap) h = None"
  by (auto simp: NewLRUCache_def Let_def cache_inv_def new_shard_ok cache_clients_def held_def cache_entry_def entry_at_def)

lemma FinishErase_opt_ok:
  assumes S: "shard_ok m L s"
    and t: "HT_Remove m key hs (htable L) = Some (x, t')"
      "case x of None \<Rightarrow> t' = htable L \<and> (\<forall>a \<in> listed L. key_hash (hp m) a \<noteq> Some (key, hs))
       | Some a \<Rightarrow> a \<in> listed L \<and> key_hash (hp m) a = Some (key, hs) \<and> table_ok (key_hash (hp m)) t' (listed L - {a})"
  shows "\<exists>b m' L'. FinishErase x (m, L\<lparr>htable := t'\<rparr>) = Some (b, m', L') \<and> shard_ok m' L' s \<and> local_to s m m' \<and> drops m m'"
proof (cases x)
  case None
  then have "L\<lparr>htable := t'\<rparr> = L" using t(2) by simp
  then show ?thesis using None S local_refl drops_refl by (auto simp: FinishErase_def)
next
  case (Some a)
  have l: "lists_ok m (L\<lparr>htable := t'\<rparr>) s" "heap_ok m" using S by (simp_all add: shard_ok_def lists_ok_def)
  have "a \<in> listed (L\<lparr>htable := t'\<rparr>)" "table_ok (key_hash (hp m)) (htable (L\<lparr>htable := t'\<rparr>)) (listed (L\<lparr>htable := t'\<rparr>) - {a})"
    using Some t(2) by auto
  from FinishErase_ok [OF l this] show ?thesis using Some by blast
qed

lemma LRU_Erase_ok:
  assumes c: "cache_inv c"
  shows "\<exists>c'. LRU_Erase key c = Some c' \<and> cache_inv c' \<and> cache_clients c' = cache_clients c \<and>
    only_drops (cache_entry c) (cache_entry c') (cache_clients c)"
proof -
  let ?hs = "HashSlice key" let ?s = "Shard ?hs"
  let ?L = "shards c ! ?s"
  have S: "shard_ok (mem c) ?L ?s" using cache_shard [OF c] .
  then have t: "table_ok (key_hash (hp (mem c))) (htable ?L) (listed ?L)" by (simp add: shard_ok_def)
  obtain x t' where x: "HT_Remove (mem c) key ?hs (htable ?L) = Some (x, t')"
      "case x of None \<Rightarrow> t' = htable ?L \<and> (\<forall>a \<in> listed ?L. key_hash (hp (mem c)) a \<noteq> Some (key, ?hs))
       | Some a \<Rightarrow> a \<in> listed ?L \<and> key_hash (hp (mem c)) a = Some (key, ?hs) \<and> table_ok (key_hash (hp (mem c))) t' (listed ?L - {a})"
    using HT_Remove_ok [OF t refl, of key ?hs] by blast
  obtain b m' L' where e: "FinishErase x (mem c, ?L\<lparr>htable := t'\<rparr>) = Some (b, m', L')" "shard_ok m' L' ?s" "local_to ?s (mem c) m'"
      "drops (mem c) m'"
    using FinishErase_opt_ok [OF S x] by blast
  have "Shard_Erase key ?hs (mem c, ?L) = Some (m', L')" using x(1) e(1) by (simp add: Shard_Erase_def)
  then have "LRU_Erase key c = Some (c\<lparr>mem := m', shards := (shards c)[?s := L']\<rparr>)"
    using on_shard_eq [OF c, of "map_option (Pair ()) \<circ> Shard_Erase key ?hs" ?hs "()" m' L'] by (simp add: LRU_Erase_def Let_def)
  then show ?thesis using cache_inv_update [OF c Shard_less e(2,3)] e(4) by (simp add: drops_def cache_entry_def cache_clients_def)
qed

lemma prune_shards_ok:
  assumes "cache_inv c" "set ss \<subseteq> {..< kNumShards}"
  shows "\<exists>c'. prune_shards ss c = Some c' \<and> cache_inv c' \<and> cache_clients c' = cache_clients c \<and>
    only_drops (cache_entry c) (cache_entry c') (cache_clients c) \<and> (\<forall>s < kNumShards. if s \<in> set ss then lru (shards c' ! s) = [] else shards c' ! s = shards c ! s)"
  using assms
proof (induction ss arbitrary: c)
  case Nil
  then show ?case by (simp add: only_drops_def)
next
  case (Cons s ss)
  have s: "s < kNumShards" and S: "shard_ok (mem c) (shards c ! s) s" and n: "length (shards c) = kNumShards"
    using Cons.prems by (auto simp: cache_inv_def)
  obtain m' L' where p: "prune_loop (mem c, shards c ! s) = Some (m', L')" "shard_ok m' L' s" "local_to s (mem c) m'" "drops (mem c) m'"
      "lru L' = []"
    using prune_loop_ok [OF S] by blast
  let ?c = "c\<lparr>mem := m', shards := (shards c)[s := L']\<rparr>"
  obtain c' where c': "prune_shards ss ?c = Some c'" "cache_inv c'" "cache_clients c' = cache_clients ?c"
      "only_drops (cache_entry ?c) (cache_entry c') (cache_clients ?c)"
      "\<forall>i < kNumShards. if i \<in> set ss then lru (shards c' ! i) = [] else shards c' ! i = shards ?c ! i"
    using Cons.IH [OF cache_inv_update [OF Cons.prems(1) s p(2,3)]] Cons.prems(2) by auto
  have d: "cache_clients ?c = cache_clients c" "only_drops (cache_entry c) (cache_entry ?c) (cache_clients c)"
    using p(4) by (simp_all add: drops_def cache_entry_def cache_clients_def)
  have "only_drops (cache_entry c) (cache_entry c') (cache_clients c)"
    using d c'(4) unfolding only_drops_def by metis
  moreover have "if i \<in> set (s # ss) then lru (shards c' ! i) = [] else shards c' ! i = shards c ! i" if i: "i < kNumShards" for i
    using c'(5) [rule_format, OF i] p(5) i n by (auto split: if_splits)
  ultimately show ?case using p(1) c'(1,2,3) d(1) by simp
qed

section \<open>Properties\<close>

definition shard_of :: "bytes \<Rightarrow> 'v ShardedLRUCache \<Rightarrow> LRUCache" where
  "shard_of key c = shards c ! Shard (HashSlice key)"

lemma Insert_shard:
  assumes c: "cache_inv c"
  shows "\<exists>h c'. LRU_Insert key v charge c = Some (h, c') \<and> cache_inv c' \<and> cache_entry c' h = Some (key, v) \<and>
    (usage (shard_of key c') \<le> capacity (shard_of key c) \<or> lru (shard_of key c') = []) \<and>
    (0 < capacity (shard_of key c) \<longrightarrow> h \<in> set (in_use (shard_of key c')))"
proof -
  let ?s = "Shard (HashSlice key)" and ?a = "brk (mem c)"
  obtain m' L' where r: "Shard_Insert key (HashSlice key) v charge (mem c, shards c ! ?s) = Some (?a, m', L')" "shard_ok m' L' ?s"
      "local_to ?s (mem c) m'" "held (hp m') = (held (hp (mem c)))(?a := 1)"
      "only_drops ((entry_at (hp (mem c)))(?a := Some (key, v))) (entry_at (hp m')) (held (hp m'))"
      "capacity L' = capacity (shards c ! ?s)" "usage L' \<le> capacity L' \<or> lru L' = []"
      "0 < capacity (shards c ! ?s) \<longrightarrow> ?a \<in> set (in_use L')"
    using Shard_Insert_ok [OF cache_shard [OF c] refl, of key v charge] by (elim exE conjE) (rule that)
  let ?c = "c\<lparr>mem := m', shards := (shards c)[?s := L']\<rparr>"
  have "LRU_Insert key v charge c = Some (?a, ?c)"
    using on_shard_eq [OF c, where f = "Shard_Insert key (HashSlice key) v charge", OF r(1)] by (simp add: LRU_Insert_def Let_def)
  moreover have "cache_inv ?c" using cache_inv_update [OF c Shard_less r(2,3)] .
  moreover have "cache_entry ?c ?a = Some (key, v)" using r(4,5) by (simp add: only_drops_def cache_entry_def)
  moreover have "shard_of key ?c = L'" using c Shard_less by (simp add: shard_of_def cache_inv_def)
  ultimately show ?thesis using r(6,7,8) by (simp add: shard_of_def)
qed

text \<open>C27. In the cache of table and block handles an entry that has just been inserted is found by its
  key, at the handle that the insertion gave and with the value that was inserted, whatever its
  charge, when the shard of the key caches at all; and every handle of another client stays
  live, with its entry, through the insertion, the evictions that it causes and the lookup.\<close>
theorem cache_lookup_after_insert:
  assumes "cache_inv c" "0 < capacity (shard_of key c)"
  shows "\<exists>h c1 c2. LRU_Insert key v charge c = Some (h, c1) \<and> LRU_Lookup key c1 = Some (Some h, c2) \<and> LRU_Value h c2 = Some v \<and>
    cache_clients c h = 0 \<and> cache_clients c2 = (cache_clients c)(h := 2) \<and> (\<forall>i. cache_clients c i > 0 \<longrightarrow> cache_entry c2 i = cache_entry c i)"
proof -
  obtain h c1 where 1: "LRU_Insert key v charge c = Some (h, c1)" "cache_inv c1" "cache_entry c1 h = Some (key, v)"
      "h \<in> set (in_use (shard_of key c1))"
    using Insert_shard [OF assms(1), of key v charge] assms(2) by blast
  have i: "cache_clients c h = 0" "cache_clients c1 = (cache_clients c)(h := 1)"
      "only_drops ((cache_entry c)(h := Some (key, v))) (cache_entry c1) (cache_clients c1)"
    using LRU_Insert_ok [OF assms(1), of key v charge] 1(1) by auto
  have S: "shard_ok (mem c1) (shard_of key c1) (Shard (HashSlice key))" using cache_shard [OF 1(2)] by (simp add: shard_of_def)
  have "h \<in> listed (shard_of key c1)" "entry_at (hp (mem c1)) h = Some (key, v)" using 1(3,4) by (simp_all add: cache_entry_def)
  then obtain s where "Shard_Lookup key (HashSlice key) (mem c1, shard_of key c1) = Some (Some h, s)"
    using Shard_Lookup_listed [OF S] by blast
  then obtain c2 where 2: "LRU_Lookup key c1 = Some (Some h, c2)"
    using on_shard_eq [OF 1(2), where f = "Shard_Lookup key (HashSlice key)" and hash = "HashSlice key"]
    by (cases s) (auto simp: LRU_Lookup_def Let_def shard_of_def)
  then have l: "cache_inv c2" "cache_entry c2 = cache_entry c1" "cache_clients c2 = (cache_clients c1)(h := cache_clients c1 h + 1)"
    using LRU_Lookup_ok [OF 1(2), of key] by auto
  have "entry_at (hp (mem c2)) h = Some (key, v)" using 1(3) l(2) by (simp add: cache_entry_def)
  then have "LRU_Value h c2 = Some v" by (auto simp: LRU_Value_def entry_at_def)
  moreover have "cache_clients c2 = (cache_clients c)(h := 2)" using i(2) l(3) by auto
  moreover have "\<forall>i. cache_clients c i > 0 \<longrightarrow> cache_entry c2 i = cache_entry c i"
  proof (intro allI impI)
    fix k
    assume k: "cache_clients c k > 0"
    then have "k \<noteq> h" using i(1) by auto
    then have "cache_clients c1 k > 0" using i(2) k by simp
    then show "cache_entry c2 k = cache_entry c k" using i(3) l(2) \<open>k \<noteq> h\<close> by (simp add: only_drops_def)
  qed
  ultimately show ?thesis using 1(1) 2 i(1) by blast
qed

lemma new_shard_of: "shard_of key (NewLRUCache cap) = new_LRUCache ((cap + (kNumShards - 1)) div kNumShards)"
  using Shard_less [of "HashSlice key"] by (simp add: shard_of_def NewLRUCache_def Let_def)

lemma cache_lookup_after_insert_witness:
  "\<exists>h c1 c2. LRU_Insert [1, 2] True 5 (NewLRUCache 32) = Some (h, c1) \<and> LRU_Lookup [1, 2] c1 = Some (Some h, c2) \<and> LRU_Value h c2 = Some True"
proof -
  have "0 < capacity (shard_of [1, 2] (NewLRUCache 32))"
    unfolding new_shard_of by (simp add: new_LRUCache_def kNumShards_def kNumShardBits_def)
  from cache_lookup_after_insert [OF NewLRUCache_ok(1) this, of True 5] show ?thesis by blast
qed

text \<open>After an insertion the shard of the key is within its capacity, or nothing is left in it that could
  be evicted: every remaining entry has a client.\<close>
theorem cache_insert_within_capacity:
  assumes "cache_inv c"
  shows "\<exists>h c'. LRU_Insert key v charge c = Some (h, c') \<and>
    (usage (shard_of key c') \<le> capacity (shard_of key c) \<or>
     (\<forall>a e. hp (mem c') a = Some e \<longrightarrow> in_cache e \<longrightarrow> Shard (hhash e) = Shard (HashSlice key) \<longrightarrow> 1 < refs e))"
proof -
  obtain h c' where 1: "LRU_Insert key v charge c = Some (h, c')" "cache_inv c'"
      "usage (shard_of key c') \<le> capacity (shard_of key c) \<or> lru (shard_of key c') = []"
    using Insert_shard [OF assms, of key v charge] by blast
  have S: "lists_ok (mem c') (shard_of key c') (Shard (HashSlice key))"
    using cache_shard [OF 1(2), of "HashSlice key"] by (simp add: shard_of_def shard_ok_def)
  have "1 < refs e" if "lru (shard_of key c') = []" "hp (mem c') a = Some e" "in_cache e" "Shard (hhash e) = Shard (HashSlice key)" for a e
  proof -
    have "a \<in> set (in_use (shard_of key c'))" using S that by (auto simp: lists_ok_def)
    then show ?thesis using S that(2) by (auto simp: lists_ok_def)
  qed
  then show ?thesis using 1(1,3) by blast
qed

lemma cache_insert_within_capacity_witness:
  "\<exists>h c'. LRU_Insert [3] False 7 (NewLRUCache 16) = Some (h, c') \<and>
    (usage (shard_of [3] c') \<le> capacity (shard_of [3] (NewLRUCache 16 :: bool ShardedLRUCache)) \<or>
     (\<forall>a e. hp (mem c') a = Some e \<longrightarrow> in_cache e \<longrightarrow> Shard (hhash e) = Shard (HashSlice [3]) \<longrightarrow> 1 < refs e))"
  using cache_insert_within_capacity [OF NewLRUCache_ok(1), of "[3]" False 7 16] by blast

end
