(* ===== verification/Table_Properties.thy ===== *)
theory Table_Properties
  imports Table_Reader Sharded_Cache_All MemEnv
begin

text \<open>
  Tables in files of the in-memory environment, read with or without the cache of blocks: what was
  built is what the iterator and the lookups return.
\<close>

section \<open>Files for random access in memory\<close>

text \<open>Data that lie in one block of the file are not copied.\<close>

definition mem_random :: "(InMemoryEnv \<times> nat) RandomAccessFile" where
  "mem_random = \<lparr>RandomRead = \<lambda>off n f. map_option (\<lambda>(s, d). (s, d, length d > kBlockSize - unat off mod kBlockSize))
     (RandomAccessFileImpl_Read (unat off) n f)\<rparr>"

interpretation mem_random: random_access_file mem_random mem_written
proof
  fix f c n and off :: u64
  assume "mem_written f c" "unat off \<le> length c"
  then show "\<exists>own. RandomRead mem_random off n f = Some (OK, take n (drop (unat off) c), own)"
    by (auto simp: mem_random_def mem_written_def file_holds_def RandomAccessFileImpl_Read_def FileState_Read_holds)
qed

section \<open>Options\<close>

text \<open>The defaults of util/options.cc.\<close>

definition new_Options :: Options where
  "new_Options = \<lparr>comparator = BytewiseComparator, paranoid_checks = False, block_size = 4096, block_restart_interval = 16,
     compression = kSnappyCompression, filter_policy = None\<rparr>"

text \<open>Any other size of blocks, restart interval and Bloom filter.\<close>

definition with_options :: "nat \<Rightarrow> nat \<Rightarrow> nat option \<Rightarrow> Options" where
  "with_options sz i b = new_Options\<lparr>block_size := sz, block_restart_interval := Suc i,
     filter_policy := map_option (\<lambda>b. NewBloomFilterPolicy (min b 128)) b\<rparr>"

lemma with_options_simps:
  "comparator (with_options sz i b) = BytewiseComparator" "block_restart_interval (with_options sz i b) = Suc i"
  "filter_policy (with_options sz i b) = map_option (\<lambda>b. NewBloomFilterPolicy (min b 128)) b"
  by (simp_all add: with_options_def new_Options_def)

definition block_cache :: "bool \<Rightarrow> (Block, Block ShardedLRUCache) Cache option" where
  "block_cache cached = (if cached then Some LRU else None)"

text \<open>A cache that other tables may use: no entry of an identifier that is still to come.\<close>

definition ids_ok :: "Block ShardedLRUCache \<Rightarrow> bool" where
  "ids_ok x \<longleftrightarrow> cache_inv x \<and> last_id x \<noteq> NOT 0 \<and>
     (\<forall>h k b i off. cache_entry x h = Some (k, b) \<longrightarrow> k = cache_key i off \<longrightarrow> i \<le> last_id x)"

lemma ids_ok_new: "ids_ok (NewLRUCache cap)"
  by (simp add: ids_ok_def NewLRUCache_ok) (simp add: NewLRUCache_def Let_def)

section \<open>The contracts\<close>

lemma table_finish_mem:
  assumes "snappy S"
  shows "table_finish mem_writable mem_written S BytewiseComparator (with_options sz i b)"
proof (intro table_finish.intro table_build.intro table_build_axioms.intro table_finish_axioms.intro, goal_cases)
  case 3
  show ?case by (rule bytewise_short.short_comparator_axioms)
qed (use assms mem_writer.writable_file_axioms small_bloom.small_filter_policy_axioms bloom.filter_policy_axioms
      in \<open>auto simp: with_options_simps\<close>)

interpretation mem_build: table_build mem_writable mem_written no_snappy BytewiseComparator "with_options sz i b" for sz i b
  using table_finish_mem [OF no_snappy.snappy_axioms] by (rule table_finish.axioms)

interpretation mem_table: table_finish mem_writable mem_written no_snappy BytewiseComparator "with_options sz i b" for sz i b
  by (rule table_finish_mem [OF no_snappy.snappy_axioms])

interpretation mem_read: table_reader mem_random mem_written BytewiseComparator "block_cache cached" cache_inv cache_entry
    cache_clients last_id S "Suc i" "map_option (\<lambda>b. NewBloomFilterPolicy (min b 128)) b" for cached S i b
proof (intro table_reader.intro table_reader_axioms.intro, goal_cases)
  case (3 K)
  then show ?case using lru_cache.cache_axioms by (auto simp: block_cache_def split: if_splits)
qed (use mem_random.random_access_file_axioms bytewise.comparator_axioms bloom.filter_policy_axioms in auto)

abbreviation bloom_of :: "nat option \<Rightarrow> FilterPolicy option" where
  "bloom_of b \<equiv> map_option (\<lambda>b. NewBloomFilterPolicy (min b 128)) b"

definition table_in :: "Snappy \<Rightarrow> nat \<Rightarrow> nat option \<Rightarrow> bytes \<Rightarrow> layout \<Rightarrow> (InMemoryEnv \<times> nat) Table \<Rightarrow> bool" where
  "table_in S i b = table_reader.table_of mem_written BytewiseComparator S (Suc i) (bloom_of b)"

definition good_cache :: "bool \<Rightarrow> nat \<Rightarrow> u64 \<Rightarrow> layout \<Rightarrow> nat option list \<Rightarrow> nat option list \<Rightarrow> Block ShardedLRUCache \<Rightarrow> bool" where
  "good_cache cached i = table_reader.good (block_cache cached) cache_inv cache_entry cache_clients (Suc i)"

text \<open>The index of a table, or nothing for what is no table.\<close>

definition index_if :: "bool \<Rightarrow> layout \<Rightarrow> entry list" where
  "index_if q l = (if q then layout_index l else [])"

lemma good_cache_swap: "good_cache cached i n l base (r # r' # rs) x \<Longrightarrow> good_cache cached i n l base (r' # r # rs) x"
proof -
  have "count_list ((r' # r # rs) @ base) h = count_list ((r # r' # rs) @ base) h" for h by simp
  then show "good_cache cached i n l base (r # r' # rs) x \<Longrightarrow> good_cache cached i n l base (r' # r # rs) x"
    unfolding good_cache_def mem_read.good_def by (simp only:)
qed

interpretation mem_two: two_level BytewiseComparator "table_levels (block_cache cached) S mem_random t opt"
  "index_if (table_in S i b c l t) l" "any_at BytewiseComparator 1 (index_if (table_in S i b c l t) l)" "block_of l"
  "dpos BytewiseComparator (Suc i) l cached" "good_cache cached i (cache_id t) l base" for cached S t opt i b c l base
proof (cases "table_in S i b c l t")
  case True
  then show "two_level BytewiseComparator (table_levels (block_cache cached) S mem_random t opt)
      (index_if (table_in S i b c l t) l) (any_at BytewiseComparator 1 (index_if (table_in S i b c l t) l)) (block_of l)
      (dpos BytewiseComparator (Suc i) l cached) (good_cache cached i (cache_id t) l base)"
    using mem_read.table_two_level [of S i b c l t cached opt base]
    by (simp add: index_if_def table_in_def good_cache_def block_cache_def split: if_splits)
next
  case False
  show "two_level BytewiseComparator (table_levels (block_cache cached) S mem_random t opt)
      (index_if (table_in S i b c l t) l) (any_at BytewiseComparator 1 (index_if (table_in S i b c l t) l)) (block_of l)
      (dpos BytewiseComparator (Suc i) l cached) (good_cache cached i (cache_id t) l base)"
  proof (intro two_level.intro two_level_axioms.intro, goal_cases)
    case (6 r r' rs e)
    then show ?case by (rule good_cache_swap)
  qed (use False any_iterator [OF bytewise.comparator_axioms, of "[]" 1] in
      \<open>simp_all add: index_if_def handles_of_def increasing_def table_levels_def bytewise.comparator_axioms\<close>)
qed

section \<open>Properties\<close>

lemma build_and_open:
  assumes "snappy S" "increasing BytewiseComparator es" "weight es < 2 ^ 30" "mem_written f []" "ids_ok x"
  shows "\<exists>r c l t x'. BuildTable S mem_writable (with_options sz i b) es f = Some (OK, r) \<and> NumEntries r = length es \<and>
    Open (block_cache cached) S mem_random (with_options sz i b) (unat (FileSize r)) (tfile r) x = Some (OK, Some t, x') \<and>
    table_reader.table_of mem_written BytewiseComparator S (Suc i) (bloom_of b) c l t \<and> layout_entries l = es \<and>
    table_reader.good (block_cache cached) cache_inv cache_entry cache_clients (Suc i) (cache_id t) l [] [] x'"
proof -
  let ?o = "with_options sz i b"
  obtain r c l where r: "BuildTable S mem_writable ?o es f = Some (OK, r)" "mem_written (tfile r) c"
      "table_file S BytewiseComparator (Suc i) (bloom_of b) c l" "layout_entries l = es"
      "FileSize r = word_of_nat (length c)" "NumEntries r = length es"
    using table_finish.BuildTable_ok [OF table_finish_mem [OF assms(1)] assms(4,2,3), of sz i b]
    by (auto simp: with_options_simps)
  have "length c < 2 ^ 32" using r(3) by (simp add: table_file_def)
  then have sz: "unat (FileSize r) = length c" using r(5) by (simp add: unat_of_nat take_bit_nat_eq_self)
  have u: "table_reader.unused_id (block_cache cached) cache_inv cache_entry last_id x"
    using assms(5) unfolding mem_read.unused_id_def ids_ok_def by auto
  show ?thesis using mem_read.Open_ok [OF r(3,2) with_options_simps(1) with_options_simps(3) u, of sz i] r(1,4,6) sz by auto
qed

text \<open>The class of iterators over a table.\<close>

definition TableIter :: "bool \<Rightarrow> Snappy \<Rightarrow> (InMemoryEnv \<times> nat) Table \<Rightarrow> ReadOptions \<Rightarrow>
    (Status + Iter, BlockIterator, Block ShardedLRUCache) TwoLevelIterator Iterator" where
  "TableIter cached S t opt = TwoLevelIter (table_levels (block_cache cached) S mem_random t opt)"

lemma table_iterator_mem:
  assumes "table_reader.table_of mem_written BytewiseComparator S (Suc i) (bloom_of b) c l t" "layout_entries l = es"
    and g: "table_reader.good (block_cache cached) cache_inv cache_entry cache_clients (Suc i) (cache_id t) l [] [] x"
  shows "\<exists>it at_pos. Table_NewIterator (block_cache cached) S mem_random t opt x = Some it \<and> at_pos (length es) it \<and>
    iterator (TableIter cached S t opt) BytewiseComparator es at_pos"
  using mem_read.Table_NewIterator_ok [OF assms(1) g, of opt] mem_read.table_iterator [OF assms(1), of cached opt "[]"] assms(2)
  unfolding TableIter_def by blast

lemma iterator_reads:
  assumes it: "iterator A C es at_pos" "at_pos j s" and inc: "increasing C es"
  shows "Option.bind (it_SeekToFirst A s) (collect A (length es)) = Some es"
    "Option.bind (it_SeekToLast A s) (collect_back A (length es)) = Some (rev es)"
    "Option.bind (it_Seek A k s) (collect A (length es)) = Some (dropWhile (\<lambda>e. Compare C (fst e) k < 0) es)"
proof -
  show "Option.bind (it_SeekToFirst A s) (collect A (length es)) = Some es"
    using iterator.SeekToFirst_ok [OF it] iterator.collect_ok [OF it(1), of 0 _ "length es"] by auto
  obtain s2 where s2: "it_SeekToLast A s = Some s2" "at_pos (length es - 1) s2" using iterator.SeekToLast_ok [OF it] by blast
  show "Option.bind (it_SeekToLast A s) (collect_back A (length es)) = Some (rev es)"
  proof (cases "es = []")
    case True
    then show ?thesis using s2 iterator.Valid_ok [OF it(1) s2(2)] by simp
  next
    case False
    then show ?thesis using s2(1) iterator.collect_back_ok [OF it(1) s2(2), of "length es"] by simp
  qed
  obtain s3 where s3: "it_Seek A k s = Some s3" "at_pos (seek_pos C k es) s3" using iterator.Seek_ok [OF it inc] by blast
  show "Option.bind (it_Seek A k s) (collect A (length es)) = Some (dropWhile (\<lambda>e. Compare C (fst e) k < 0) es)"
    using s3 iterator.collect_ok [OF it(1) s3(2), of "length es"] by (simp add: dropWhile_eq_drop seek_pos_def)
qed

text \<open>C25. What the table builder wrote is what the table reader returns: for every list of entries with increasing
  keys, any block size, restart interval, compression library and Bloom filter, the file that is
  built in memory opens, with or without the block cache, and its iterator runs through exactly these
  entries forwards and backwards, and from the first key not below the target after a seek.\<close>
theorem table_iterates_entries:
  assumes "snappy S" "increasing BytewiseComparator es" "weight es < 2 ^ 30" "mem_written f []" "ids_ok x"
  shows "\<exists>r t x' it. BuildTable S mem_writable (with_options sz i b) es f = Some (OK, r) \<and> NumEntries r = length es \<and>
    Open (block_cache cached) S mem_random (with_options sz i b) (unat (FileSize r)) (tfile r) x = Some (OK, Some t, x') \<and>
    Table_NewIterator (block_cache cached) S mem_random t opt x' = Some it \<and>
    Option.bind (it_SeekToFirst (TableIter cached S t opt) it) (collect (TableIter cached S t opt) (length es)) = Some es \<and>
    Option.bind (it_SeekToLast (TableIter cached S t opt) it) (collect_back (TableIter cached S t opt) (length es)) = Some (rev es) \<and>
    (\<forall>k. Option.bind (it_Seek (TableIter cached S t opt) k it) (collect (TableIter cached S t opt) (length es)) =
      Some (dropWhile (\<lambda>e. Compare BytewiseComparator (fst e) k < 0) es))"
proof -
  obtain r c l t x' where o: "BuildTable S mem_writable (with_options sz i b) es f = Some (OK, r)" "NumEntries r = length es"
      "Open (block_cache cached) S mem_random (with_options sz i b) (unat (FileSize r)) (tfile r) x = Some (OK, Some t, x')"
      "table_reader.table_of mem_written BytewiseComparator S (Suc i) (bloom_of b) c l t" "layout_entries l = es"
      "table_reader.good (block_cache cached) cache_inv cache_entry cache_clients (Suc i) (cache_id t) l [] [] x'"
    using build_and_open [OF assms] by blast
  obtain it at_pos where it: "Table_NewIterator (block_cache cached) S mem_random t opt x' = Some it" "at_pos (length es) it"
      "iterator (TableIter cached S t opt) BytewiseComparator es at_pos"
    using table_iterator_mem [OF o(4-6)] by blast
  note R = iterator_reads [OF it(3,2) assms(2)]
  show ?thesis using o(1-3) it(1) R by blast
qed

text \<open>Lookups one after the other.\<close>

fun lookups :: "(Block, 'c) Cache option \<Rightarrow> Snappy \<Rightarrow> 'f RandomAccessFile \<Rightarrow> 'f Table \<Rightarrow> ReadOptions \<Rightarrow> bytes list \<Rightarrow> 'c \<Rightarrow>
    (entry option list \<times> 'c) option" where
  "lookups K S R t opt [] x = Some ([], x)"
| "lookups K S R t opt (k # ks) x = do {
     (s, e, x) \<leftarrow> InternalGet K S R t opt k x;
     if is_ok s then do { (es, x) \<leftarrow> lookups K S R t opt ks x; Some (e # es, x) } else None }"

text \<open>A key of the table is found; another key gives the first entry behind it, or nothing.\<close>

definition right_answer :: "entry list \<Rightarrow> bytes \<Rightarrow> entry option \<Rightarrow> bool" where
  "right_answer es k e \<longleftrightarrow> (\<forall>v. (k, v) \<in> set es \<longrightarrow> e = Some (k, v)) \<and>
     (e = None \<or> e = find (\<lambda>e. Compare BytewiseComparator (fst e) k \<ge> 0) es)"

lemma find_seek_pos: "seek_pos C k es < length es \<Longrightarrow> find (\<lambda>e. Compare C (fst e) k \<ge> 0) es = Some (es ! seek_pos C k es)"
proof (induction es)
  case (Cons e es)
  then show ?case by (cases "Compare C (fst e) k < 0") (simp_all add: seek_pos_def)
qed simp

lemma get_result_right: "table_reader.get_result BytewiseComparator es k e \<Longrightarrow> right_answer es k e"
proof -
  assume g: "table_reader.get_result BytewiseComparator es k e"
  have "e = Some (k, v)" if v: "(k, v) \<in> set es" for v
  proof -
    obtain q where "q < length es" "es ! q = (k, v)" using v by (auto simp: in_set_conv_nth)
    moreover have "\<forall>q < length es. fst (es ! q) = k \<longrightarrow> e = Some (es ! q)" using g unfolding mem_read.get_result_def by blast
    ultimately show ?thesis by simp
  qed
  moreover have "e = None \<or> seek_pos BytewiseComparator k es < length es \<and> e = Some (es ! seek_pos BytewiseComparator k es)"
    using g unfolding mem_read.get_result_def by blast
  then have "e = None \<or> e = find (\<lambda>e. Compare BytewiseComparator (fst e) k \<ge> 0) es" using find_seek_pos by metis
  ultimately show ?thesis by (simp add: right_answer_def)
qed

lemma lookups_ok:
  assumes t: "table_reader.table_of mem_written BytewiseComparator S (Suc i) (bloom_of b) c l t" "layout_entries l = es"
    and inc: "increasing BytewiseComparator es"
  shows "table_reader.good (block_cache cached) cache_inv cache_entry cache_clients (Suc i) (cache_id t) l [] [] x \<Longrightarrow>
    \<exists>rs x'. lookups (block_cache cached) S mem_random t opt ks x = Some (rs, x') \<and> list_all2 (right_answer es) ks rs"
proof (induction ks arbitrary: x)
  case (Cons k ks)
  have i: "increasing BytewiseComparator (layout_entries l)" using inc t(2) by simp
  obtain e x1 where e: "InternalGet (block_cache cached) S mem_random t opt k x = Some (OK, e, x1)"
      "table_reader.good (block_cache cached) cache_inv cache_entry cache_clients (Suc i) (cache_id t) l [] [] x1"
      "table_reader.get_result BytewiseComparator es k e"
    using mem_read.InternalGet_ok [OF t(1) Cons.prems i, of opt k] t(2) by blast
  from Cons.IH [OF e(2)] show ?case using e(1) get_result_right [OF e(3)] by auto
qed simp

text \<open>C26. A table that was built in memory answers every sequence of lookups: each key of the table is found with its
  value, whatever the Bloom filter and the block cache hold, and another key gives at most the first
  entry behind it.\<close>
theorem table_lookups:
  assumes "snappy S" "increasing BytewiseComparator es" "weight es < 2 ^ 30" "mem_written f []" "ids_ok x"
  shows "\<exists>r t x' rs x''. BuildTable S mem_writable (with_options sz i b) es f = Some (OK, r) \<and>
    Open (block_cache cached) S mem_random (with_options sz i b) (unat (FileSize r)) (tfile r) x = Some (OK, Some t, x') \<and>
    lookups (block_cache cached) S mem_random t opt ks x' = Some (rs, x'') \<and> list_all2 (right_answer es) ks rs"
proof -
  obtain r c l t x' where o: "BuildTable S mem_writable (with_options sz i b) es f = Some (OK, r)"
      "Open (block_cache cached) S mem_random (with_options sz i b) (unat (FileSize r)) (tfile r) x = Some (OK, Some t, x')"
      "table_reader.table_of mem_written BytewiseComparator S (Suc i) (bloom_of b) c l t" "layout_entries l = es"
      "table_reader.good (block_cache cached) cache_inv cache_entry cache_clients (Suc i) (cache_id t) l [] [] x'"
    using build_and_open [OF assms] by blast
  then show ?thesis using lookups_ok [OF o(3,4) assms(2) o(5), of opt ks] by blast
qed

section \<open>Witnesses\<close>

text \<open>An empty file and a small table.\<close>

definition empty_file :: "InMemoryEnv \<times> nat" where
  "empty_file = (new_InMemoryEnv\<lparr>heap := [0 \<mapsto> \<lparr>refs = 1, blocks = [], file_size = 0\<rparr>]\<rparr>, 0)"

lemma empty_file_written: "mem_written empty_file []"
  by (simp add: empty_file_def mem_written_def file_holds_def holds_def)

lemma three_entries: "increasing BytewiseComparator [([1], [5]), ([1, 2], []), ([3], [6, 7])]"
    "weight [([1 :: byte], [5 :: byte]), ([1, 2], []), ([3], [6, 7])] < 2 ^ 30"
  by (simp_all add: increasing_def BytewiseComparator_def slice_compare_def)

theorem table_iterates_entries_witness:
  "\<exists>r t x' it. BuildTable no_snappy mem_writable (with_options 1 1 (Some 10)) [([1], [5]), ([1, 2], []), ([3], [6, 7])] empty_file = Some (OK, r) \<and>
    Open (block_cache True) no_snappy mem_random (with_options 1 1 (Some 10)) (unat (FileSize r)) (tfile r) (NewLRUCache 100) = Some (OK, Some t, x') \<and>
    Table_NewIterator (block_cache True) no_snappy mem_random t new_ReadOptions x' = Some it \<and>
    Option.bind (it_Seek (TableIter True no_snappy t new_ReadOptions) [2] it) (collect (TableIter True no_snappy t new_ReadOptions) 3) =
      Some [([3], [6, 7])]"
proof -
  have d: "dropWhile (\<lambda>e. Compare BytewiseComparator (fst e) [2] < 0) [([1], [5]), ([1, 2], []), ([3], [6, 7])] = [([3 :: byte], [6, 7 :: byte])]"
    by (simp add: BytewiseComparator_def slice_compare_def)
  have n: "length [([1 :: byte], [5 :: byte]), ([1, 2], []), ([3], [6, 7])] = 3" by simp
  from table_iterates_entries [OF no_snappy.snappy_axioms three_entries empty_file_written ids_ok_new,
      of 1 1 "Some 10" True 100 new_ReadOptions] show ?thesis unfolding n using d by metis
qed

theorem table_lookups_witness:
  "\<exists>r t x' x'' e. BuildTable no_snappy mem_writable (with_options 1 1 (Some 10)) [([1], [5]), ([1, 2], []), ([3], [6, 7])] empty_file = Some (OK, r) \<and>
    Open (block_cache True) no_snappy mem_random (with_options 1 1 (Some 10)) (unat (FileSize r)) (tfile r) (NewLRUCache 100) = Some (OK, Some t, x') \<and>
    lookups (block_cache True) no_snappy mem_random t new_ReadOptions [[3], [1]] x' = Some ([Some ([3], [6, 7]), Some ([1], [5])], x'')"
proof -
  let ?es = "[([1], [5]), ([1, 2], []), ([3], [6, 7])] :: entry list"
  obtain r t x' rs x'' where r: "BuildTable no_snappy mem_writable (with_options 1 1 (Some 10)) ?es empty_file = Some (OK, r)"
      "Open (block_cache True) no_snappy mem_random (with_options 1 1 (Some 10)) (unat (FileSize r)) (tfile r) (NewLRUCache 100) = Some (OK, Some t, x')"
      "lookups (block_cache True) no_snappy mem_random t new_ReadOptions [[3], [1]] x' = Some (rs, x'')"
      "list_all2 (right_answer ?es) [[3], [1]] rs"
    using table_lookups [OF no_snappy.snappy_axioms three_entries empty_file_written ids_ok_new,
        of 1 1 "Some 10" True 100 new_ReadOptions "[[3], [1]]"] by blast
  have "rs = [Some ([3], [6, 7]), Some ([1], [5])]" using r(4) by (auto simp: list_all2_Cons1 right_answer_def)
  then show ?thesis using r(1-3) by blast
qed

end
