(* ===== verification/Dbformat.thy ===== *)
theory Dbformat
  imports Table_Layout Filter_Block Logging
begin

text \<open>
  Internal keys (db/dbformat.h, db/dbformat.cc): a user key followed by eight bytes with a sequence number and a
  type.  An internal key has at least eight bytes, as the code asserts; where a function of the
  code cannot fail, a shorter string is read as if its number were 0.
\<close>

datatype ValueType = kTypeDeletion | kTypeValue

fun type_byte :: "ValueType \<Rightarrow> byte" where
  "type_byte kTypeDeletion = 0"
| "type_byte kTypeValue = 1"

definition type_of_byte :: "byte \<Rightarrow> ValueType option" where
  "type_of_byte c = (if c = 0 then Some kTypeDeletion else if c = 1 then Some kTypeValue else None)"

definition kValueTypeForSeek :: ValueType where
  "kValueTypeForSeek = kTypeValue"

definition kMaxSequenceNumber :: u64 where
  "kMaxSequenceNumber = push_bit 56 1 - 1"

record ParsedInternalKey =
  user_key :: bytes
  sequence :: u64
  vtype :: ValueType

definition InternalKeyEncodingLength :: "ParsedInternalKey \<Rightarrow> nat" where
  "InternalKeyEncodingLength k = length (user_key k) + 8"

definition PackSequenceAndType :: "u64 \<Rightarrow> ValueType \<Rightarrow> u64 option" where
  "PackSequenceAndType seq t = (if seq \<le> kMaxSequenceNumber then Some (push_bit 8 seq OR ucast (type_byte t)) else None)"

definition AppendInternalKey :: "bytes \<Rightarrow> ParsedInternalKey \<Rightarrow> bytes option" where
  "AppendInternalKey dst k = map_option (PutFixed64 (dst @ user_key k)) (PackSequenceAndType (sequence k) (vtype k))"

definition ExtractUserKey :: "bytes \<Rightarrow> bytes" where
  "ExtractUserKey k = take (length k - 8) k"

definition key_tag :: "bytes \<Rightarrow> u64" where
  "key_tag k = (case DecodeFixed64 (drop (length k - 8) k) of Some n \<Rightarrow> n | None \<Rightarrow> 0)"

text \<open>None for an assertion that fails, and for a byte that is no type.\<close>

definition ExtractValueType :: "bytes \<Rightarrow> ValueType option" where
  "ExtractValueType k = (if length k \<ge> 8 then type_of_byte (ucast (key_tag k)) else None)"

definition ParseInternalKey :: "bytes \<Rightarrow> ParsedInternalKey option" where
  "ParseInternalKey k =
     (if length k < 8 then None
      else map_option (\<lambda>t. \<lparr>user_key = ExtractUserKey k, sequence = drop_bit 8 (key_tag k), vtype = t\<rparr>)
        (type_of_byte (ucast (key_tag k))))"

text \<open>The texts of keys in messages.\<close>

definition DebugString :: "ParsedInternalKey \<Rightarrow> string" where
  "DebugString k = CHR 0x27 # EscapeString (user_key k) @ [CHR 0x27] @ '' @ '' @ show_nat (unat (sequence k)) @ '' : '' @
     show_nat (unat (type_byte (vtype k)))"

definition InternalKey_DebugString :: "bytes \<Rightarrow> string" where
  "InternalKey_DebugString k = (case ParseInternalKey k of
     Some p \<Rightarrow> DebugString p | None \<Rightarrow> ''(bad)'' @ EscapeString k)"

section \<open>The order of internal keys\<close>

definition internal_compare :: "Comparator \<Rightarrow> bytes \<Rightarrow> bytes \<Rightarrow> int" where
  "internal_compare U a b =
     (let r = Compare U (ExtractUserKey a) (ExtractUserKey b) in
      if r = 0 then (if key_tag a > key_tag b then - 1 else if key_tag a < key_tag b then 1 else r) else r)"

definition seek_tag :: u64 where
  "seek_tag = push_bit 8 kMaxSequenceNumber OR ucast (type_byte kValueTypeForSeek)"

definition internal_separator :: "Comparator \<Rightarrow> bytes \<Rightarrow> bytes \<Rightarrow> bytes" where
  "internal_separator U start limit =
     (let user_start = ExtractUserKey start;
          tmp = FindShortestSeparator U user_start (ExtractUserKey limit)
      in if length tmp < length user_start \<and> Compare U user_start tmp < 0 then PutFixed64 tmp seek_tag else start)"

definition internal_successor :: "Comparator \<Rightarrow> bytes \<Rightarrow> bytes" where
  "internal_successor U key =
     (let user = ExtractUserKey key;
          tmp = FindShortSuccessor U user
      in if length tmp < length user \<and> Compare U user tmp < 0 then PutFixed64 tmp seek_tag else key)"

definition InternalKeyComparator :: "Comparator \<Rightarrow> Comparator" where
  "InternalKeyComparator U = \<lparr>Compare = internal_compare U, FindShortestSeparator = internal_separator U,
     FindShortSuccessor = internal_successor U\<rparr>"

definition InternalFilterPolicy :: "FilterPolicy \<Rightarrow> FilterPolicy" where
  "InternalFilterPolicy P = \<lparr>Name = Name P,
     CreateFilter = (\<lambda>keys dst. CreateFilter P (map ExtractUserKey keys) dst),
     KeyMayMatch = (\<lambda>key f. KeyMayMatch P (ExtractUserKey key) f)\<rparr>"

section \<open>Keys for looking up\<close>

text \<open>The key of a lookup is kept as one string: its length, the user key and the tag.\<close>

record LookupKey =
  lstart :: bytes
  lkstart :: nat

definition new_LookupKey :: "bytes \<Rightarrow> u64 \<Rightarrow> LookupKey option" where
  "new_LookupKey ukey s =
     map_option (\<lambda>tag. \<lparr>lstart = PutFixed64 (PutVarint32 [] (word_of_nat (length ukey + 8)) @ ukey) tag,
        lkstart = length (PutVarint32 [] (word_of_nat (length ukey + 8)))\<rparr>)
       (PackSequenceAndType s kValueTypeForSeek)"

definition memtable_key :: "LookupKey \<Rightarrow> bytes" where
  "memtable_key k = lstart k"

definition internal_key :: "LookupKey \<Rightarrow> bytes" where
  "internal_key k = drop (lkstart k) (lstart k)"

definition lookup_user_key :: "LookupKey \<Rightarrow> bytes" where
  "lookup_user_key k = ExtractUserKey (internal_key k)"

section \<open>Round trips\<close>

definition make_key :: "bytes \<Rightarrow> u64 \<Rightarrow> ValueType \<Rightarrow> bytes" where
  "make_key k s t = k @ EncodeFixed64 (push_bit 8 s OR ucast (type_byte t))"

lemma extract_append [simp]:
  "ExtractUserKey (k @ EncodeFixed64 n) = k" "key_tag (k @ EncodeFixed64 n) = n" "length (k @ EncodeFixed64 n) = length k + 8"
  using DecodeFixed64_Encode [of n "[]"] by (simp_all add: ExtractUserKey_def key_tag_def)

lemma type_byte_inj [simp]: "type_of_byte (type_byte t) = Some t"
  by (cases t) (simp_all add: type_of_byte_def)

lemma tag_parts:
  assumes "s \<le> kMaxSequenceNumber"
  shows "drop_bit 8 (push_bit 8 s OR ucast (type_byte t)) = s" "ucast (push_bit 8 s OR ucast (type_byte t) :: u64) = type_byte t"
proof -
  have "unat s < 2 ^ 56" using assms by (simp add: kMaxSequenceNumber_def word_le_nat_alt)
  then have "unat (take_bit 56 s) = unat s" by (simp add: unsigned_take_bit_eq take_bit_nat_eq_self)
  then have "take_bit 56 s = s" by (simp add: word_unat_eq_iff)
  then have s: "bit s n \<Longrightarrow> n < 56" for n by (metis bit_take_bit_iff)
  have t: "bit (type_byte t) n \<Longrightarrow> n < 8" for n by (cases t) (auto simp: bit_1_iff)
  show "drop_bit 8 (push_bit 8 s OR ucast (type_byte t)) = s"
    by (intro bit_word_eqI) (auto simp: bit_simps dest: s t)
  show "ucast (push_bit 8 s OR ucast (type_byte t) :: u64) = type_byte t"
    by (intro bit_word_eqI) (auto simp: bit_simps)
qed

lemma AppendInternalKey_ok: "sequence p \<le> kMaxSequenceNumber \<Longrightarrow>
    AppendInternalKey dst p = Some (dst @ make_key (user_key p) (sequence p) (vtype p))"
  by (simp add: AppendInternalKey_def PackSequenceAndType_def make_key_def PutFixed64_def)

lemma ParseInternalKey_make:
  assumes "s \<le> kMaxSequenceNumber"
  shows "ParseInternalKey (make_key k s t) = Some \<lparr>user_key = k, sequence = s, vtype = t\<rparr>"
  unfolding ParseInternalKey_def make_key_def extract_append tag_parts [OF assms] type_byte_inj by simp

lemma new_LookupKey_ok:
  assumes "s \<le> kMaxSequenceNumber"
  shows "\<exists>l. new_LookupKey k s = Some l \<and> memtable_key l = EncodeVarint32 (word_of_nat (length k + 8)) @ make_key k s kTypeValue \<and>
    internal_key l = make_key k s kTypeValue \<and> lookup_user_key l = k"
  using assms
  by (simp add: new_LookupKey_def PackSequenceAndType_def memtable_key_def internal_key_def lookup_user_key_def make_key_def
      kValueTypeForSeek_def PutFixed64_def PutVarint32_def)

section \<open>The contracts\<close>

text \<open>A user comparator whose separator leaves a string alone that is equal to its limit.\<close>

locale user_comparator = short_comparator +
  assumes separator_same: "Compare C a b = 0 \<Longrightarrow> FindShortestSeparator C a b = a"
begin

lemma internal_less: "internal_compare C a b < 0 \<longleftrightarrow>
    Compare C (ExtractUserKey a) (ExtractUserKey b) < 0 \<or>
    Compare C (ExtractUserKey a) (ExtractUserKey b) = 0 \<and> key_tag b < key_tag a"
  by (auto simp: internal_compare_def Let_def)

lemma internal_le: "internal_compare C a b \<le> 0 \<longleftrightarrow>
    Compare C (ExtractUserKey a) (ExtractUserKey b) < 0 \<or>
    Compare C (ExtractUserKey a) (ExtractUserKey b) = 0 \<and> key_tag b \<le> key_tag a"
  by (auto simp: internal_compare_def Let_def)

lemma cmp_zero_sym: "Compare C a b = 0 \<longleftrightarrow> Compare C b a = 0"
  using cmp_antisym [of a b] cmp_antisym [of b a] by linarith

lemma internal_comparator: "short_comparator (InternalKeyComparator C)"
proof (unfold_locales, goal_cases)
  case (1 a b)
  show ?case using cmp_antisym [of "ExtractUserKey a" "ExtractUserKey b"] cmp_zero_sym [of "ExtractUserKey a" "ExtractUserKey b"]

    by (auto simp: InternalKeyComparator_def internal_compare_def Let_def)
next
  case (2 a b c)
  then show ?case
    using cmp_less_trans [of "ExtractUserKey a" "ExtractUserKey b" "ExtractUserKey c"]
      cmp_le_less_trans [of "ExtractUserKey a" "ExtractUserKey b" "ExtractUserKey c"]
      cmp_trans [of "ExtractUserKey a" "ExtractUserKey b" "ExtractUserKey c"]
      cmp_trans [of "ExtractUserKey c" "ExtractUserKey b" "ExtractUserKey a"]
      cmp_zero_sym cmp_antisym [of "ExtractUserKey a" "ExtractUserKey c"]
    by (simp add: InternalKeyComparator_def internal_le) (smt (verit) order_trans)
next
  case (3 a b)
  let ?u = "ExtractUserKey a" and ?v = "ExtractUserKey b"
  let ?t = "FindShortestSeparator C ?u ?v"
  show ?case
  proof (cases "length ?t < length ?u \<and> Compare C ?u ?t < 0")
    case True
    then have "Compare C ?u ?v \<noteq> 0" using separator_same cmp_refl by auto
    then have "Compare C ?u ?v < 0" using 3 by (simp add: InternalKeyComparator_def internal_less)
    then show ?thesis using True separator [of ?u ?v]
      by (simp add: InternalKeyComparator_def internal_separator_def Let_def internal_less internal_le PutFixed64_def)
  next
    case False
    then have "internal_separator C a b = a" by (auto simp: internal_separator_def Let_def)
    then show ?thesis using 3 by (simp add: InternalKeyComparator_def internal_le cmp_refl)
  qed
next
  case (4 a)
  then show ?case using successor cmp_refl
    by (simp add: InternalKeyComparator_def internal_successor_def Let_def internal_le PutFixed64_def)
next
  case (5 a b)
  then show ?case by (auto simp: InternalKeyComparator_def internal_separator_def Let_def PutFixed64_def ExtractUserKey_def)
next
  case (6 a)
  then show ?case by (auto simp: InternalKeyComparator_def internal_successor_def Let_def PutFixed64_def ExtractUserKey_def)
qed

end

sublocale user_comparator \<subseteq> internal: short_comparator "InternalKeyComparator C"
  by (rule internal_comparator)

interpretation bytewise_user: user_comparator BytewiseComparator
proof
  fix a b :: bytes
  assume "Compare BytewiseComparator a b = 0"
  then have "a = b" by (simp add: BytewiseComparator_def slice_compare_zero)
  moreover have "diff_index a a = length a" by (induction a) simp_all
  ultimately show "FindShortestSeparator BytewiseComparator a b = a" by (simp add: BytewiseComparator_def bytewise_separator_def Let_def)
qed

lemma internal_filter_policy:
  assumes "Bloom.filter_policy P"
  shows "Bloom.filter_policy (InternalFilterPolicy P)"
proof (unfold_locales, goal_cases)
  case (1 keys dst)
  show ?case by (simp add: InternalFilterPolicy_def) (rule filter_policy.Create_appends [OF assms])
next
  case (2 key keys)
  then show ?case using filter_policy.no_false_negative [OF assms] by (simp add: InternalFilterPolicy_def)
qed

lemma internal_small_policy:
  assumes "small_filter_policy P"
  shows "small_filter_policy (InternalFilterPolicy P)"
proof (intro small_filter_policy.intro small_filter_policy_axioms.intro)
  show "Bloom.filter_policy (InternalFilterPolicy P)" using small_filter_policy.axioms(1) [OF assms] by (rule internal_filter_policy)
  show "length (CreateFilter (InternalFilterPolicy P) ks []) \<le> 16 * length ks + 16" for ks
    using small_filter_policy.filter_size [OF assms, of "map ExtractUserKey ks"] by (simp add: InternalFilterPolicy_def)
  show "length (Name (InternalFilterPolicy P)) \<le> 1000"
    using small_filter_policy.name_size [OF assms] by (simp add: InternalFilterPolicy_def)
qed

interpretation internal_bloom: small_filter_policy "InternalFilterPolicy (NewBloomFilterPolicy (min b 128))" for b
  by (rule internal_small_policy [OF small_bloom.small_filter_policy_axioms])

end
