(* ===== verification/Skip_List.thy ===== *)
theory Skip_List
  imports Coding "HOL-Library.Monad_Syntax"
begin

text \<open>
  The random numbers (util/random.h) and the skip list (db/skiplist.h) of the memtable.  Nodes live at
  addresses, the head at address 0; a link is an address or null.  Following a dangling pointer, a
  link above the height of a node and a failed assertion are None.  Insertions are serialised by
  the caller; the atomic loads and stores are plain ones.
\<close>

section \<open>Random numbers\<close>

definition random_M :: nat where
  "random_M = 2147483647"

definition new_Random :: "u32 \<Rightarrow> u32" where
  "new_Random s = (let seed = s AND 0x7fffffff in if seed = 0 \<or> seed = 2147483647 then 1 else seed)"

text \<open>The number is the new seed.\<close>

definition Random_Next :: "u32 \<Rightarrow> u32" where
  "Random_Next seed =
     (let product = (ucast seed :: u64) * 16807;
          seed = ucast (drop_bit 31 product + (product AND word_of_nat random_M))
      in if seed > word_of_nat random_M then seed - word_of_nat random_M else seed)"

definition Uniform :: "nat \<Rightarrow> u32 \<Rightarrow> nat \<times> u32" where
  "Uniform n seed = (let seed = Random_Next seed in (unat seed mod n, seed))"

definition OneIn :: "nat \<Rightarrow> u32 \<Rightarrow> bool \<times> u32" where
  "OneIn n seed = (let seed = Random_Next seed in (unat seed mod n = 0, seed))"

definition Skewed :: "nat \<Rightarrow> u32 \<Rightarrow> nat \<times> u32" where
  "Skewed max_log seed = (let (base, seed) = Uniform (max_log + 1) seed in Uniform (2 ^ base) seed)"

section \<open>The list\<close>

record 'k Node =
  nkey :: "'k option"
  links :: "nat option list"

record 'k SkipList =
  nodes :: "nat \<rightharpoonup> 'k Node"
  next_node :: nat
  max_height :: nat
  rnd :: u32

definition kMaxHeight :: nat where
  "kMaxHeight = 12"

definition kBranching :: nat where
  "kBranching = 4"

definition head_node :: nat where
  "head_node = 0"

definition link :: "'k SkipList \<Rightarrow> nat \<Rightarrow> nat \<Rightarrow> nat option option" where
  "link s x i = do { n \<leftarrow> nodes s x; if i < length (links n) then Some (links n ! i) else None }"

definition SetNext :: "nat \<Rightarrow> nat \<Rightarrow> nat option \<Rightarrow> 'k SkipList \<Rightarrow> 'k SkipList option" where
  "SetNext x i v s = do {
     n \<leftarrow> nodes s x;
     if i < length (links n) then Some (s\<lparr>nodes := (nodes s)(x \<mapsto> n\<lparr>links := (links n)[i := v]\<rparr>)\<rparr>) else None }"

definition key_at :: "'k SkipList \<Rightarrow> nat \<Rightarrow> 'k option" where
  "key_at s x = Option.bind (nodes s x) nkey"

definition NewNode :: "'k option \<Rightarrow> nat \<Rightarrow> 'k SkipList \<Rightarrow> nat \<times> 'k SkipList" where
  "NewNode k height s = (next_node s, s\<lparr>nodes := (nodes s)(next_node s \<mapsto> \<lparr>nkey = k, links = replicate height None\<rparr>),
     next_node := next_node s + 1\<rparr>)"

definition new_SkipList :: "'k SkipList" where
  "new_SkipList = snd (NewNode None kMaxHeight \<lparr>nodes = Map.empty, next_node = head_node, max_height = 1, rnd = new_Random 0xdeadbeef\<rparr>)"

function height_loop :: "nat \<Rightarrow> u32 \<Rightarrow> nat \<times> u32" where
  "height_loop height seed =
     (if height < kMaxHeight then
        let seed = Random_Next seed in
        if unat seed mod kBranching = 0 then height_loop (height + 1) seed else (height, seed)
      else (height, seed))"
  by auto
termination
  by (relation "measure (\<lambda>(height, _). kMaxHeight - height)") auto

declare height_loop.simps [simp del]

definition RandomHeight :: "u32 \<Rightarrow> nat \<times> u32" where
  "RandomHeight seed = height_loop 1 seed"

section \<open>Searching\<close>

definition KeyIsAfterNode :: "('k \<Rightarrow> 'k \<Rightarrow> int) \<Rightarrow> 'k SkipList \<Rightarrow> 'k \<Rightarrow> nat option \<Rightarrow> bool option" where
  "KeyIsAfterNode cmp s key n = (case n of
     None \<Rightarrow> Some False
   | Some a \<Rightarrow> map_option (\<lambda>k. cmp k key < 0) (key_at s a))"

text \<open>
  The loop that the three searches share: to the right as long as the guard allows, else down.  It
  notes where each level was left, and returns the last node and the one behind it.
\<close>

partial_function (option) descend :: "(nat \<Rightarrow> nat option \<Rightarrow> bool option) \<Rightarrow> 'k SkipList \<Rightarrow> nat \<Rightarrow> nat \<Rightarrow> nat option list \<Rightarrow>
    (nat \<times> nat option \<times> nat option list) option" where
  "descend go s x level prev = do {
     nxt \<leftarrow> link s x level;
     right \<leftarrow> go x nxt;
     if right then (case nxt of None \<Rightarrow> None | Some y \<Rightarrow> descend go s y level prev)
     else let prev = prev[level := Some x] in
       if level = 0 then Some (x, nxt, prev) else descend go s x (level - 1) prev }"

definition no_prev :: "nat option list" where
  "no_prev = replicate kMaxHeight None"

definition FindGreaterOrEqual :: "('k \<Rightarrow> 'k \<Rightarrow> int) \<Rightarrow> 'k SkipList \<Rightarrow> 'k \<Rightarrow> (nat option \<times> nat option list) option" where
  "FindGreaterOrEqual cmp s key =
     map_option snd (descend (\<lambda>_. KeyIsAfterNode cmp s key) s head_node (max_height s - 1) no_prev)"

definition FindLessThan :: "('k \<Rightarrow> 'k \<Rightarrow> int) \<Rightarrow> 'k SkipList \<Rightarrow> 'k \<Rightarrow> nat option" where
  "FindLessThan cmp s key =
     map_option fst (descend (\<lambda>x nxt. do {
       ok \<leftarrow> (if x = head_node then Some True else KeyIsAfterNode cmp s key (Some x));
       if ok then KeyIsAfterNode cmp s key nxt else None }) s head_node (max_height s - 1) no_prev)"

definition FindLast :: "'k SkipList \<Rightarrow> nat option" where
  "FindLast s = map_option fst (descend (\<lambda>_ nxt. Some (nxt \<noteq> None)) s head_node (max_height s - 1) no_prev)"

section \<open>Insertion\<close>

fun link_levels :: "nat \<Rightarrow> nat option list \<Rightarrow> nat list \<Rightarrow> 'k SkipList \<Rightarrow> 'k SkipList option" where
  "link_levels x prev [] s = Some s"
| "link_levels x prev (i # is) s = do {
     p \<leftarrow> prev ! i;
     nxt \<leftarrow> link s p i;
     s \<leftarrow> SetNext x i nxt s;
     s \<leftarrow> SetNext p i (Some x) s;
     link_levels x prev is s }"

definition Insert :: "('k \<Rightarrow> 'k \<Rightarrow> int) \<Rightarrow> 'k \<Rightarrow> 'k SkipList \<Rightarrow> 'k SkipList option" where
  "Insert cmp key s = do {
     (x, prev) \<leftarrow> FindGreaterOrEqual cmp s key;
     present \<leftarrow> (case x of None \<Rightarrow> Some False | Some a \<Rightarrow> map_option (\<lambda>k. cmp key k = 0) (key_at s a));
     if present then None
     else do {
       let (height, seed) = RandomHeight (rnd s);
       let (prev, s) = (if height > max_height s
         then (map (\<lambda>i. if max_height s \<le> i \<and> i < height then Some head_node else prev ! i) [0..<kMaxHeight],
               s\<lparr>rnd := seed, max_height := height\<rparr>)
         else (prev, s\<lparr>rnd := seed\<rparr>));
       let (x, s) = NewNode (Some key) height s;
       link_levels x prev [0..<height] s } }"

definition Contains :: "('k \<Rightarrow> 'k \<Rightarrow> int) \<Rightarrow> 'k SkipList \<Rightarrow> 'k \<Rightarrow> bool option" where
  "Contains cmp s key = do {
     (x, _) \<leftarrow> FindGreaterOrEqual cmp s key;
     case x of None \<Rightarrow> Some False | Some a \<Rightarrow> map_option (\<lambda>k. cmp key k = 0) (key_at s a) }"

section \<open>The iterator\<close>

text \<open>Its state is the current node or null.\<close>

definition SLValid :: "nat option \<Rightarrow> bool" where
  "SLValid it \<longleftrightarrow> it \<noteq> None"

definition SLkey :: "'k SkipList \<Rightarrow> nat option \<Rightarrow> 'k option" where
  "SLkey s it = Option.bind it (key_at s)"

definition SLNext :: "'k SkipList \<Rightarrow> nat option \<Rightarrow> nat option option" where
  "SLNext s it = Option.bind it (\<lambda>x. link s x 0)"

definition or_null :: "nat \<Rightarrow> nat option" where
  "or_null x = (if x = head_node then None else Some x)"

definition SLPrev :: "('k \<Rightarrow> 'k \<Rightarrow> int) \<Rightarrow> 'k SkipList \<Rightarrow> nat option \<Rightarrow> nat option option" where
  "SLPrev cmp s it = do { x \<leftarrow> it; k \<leftarrow> key_at s x; map_option or_null (FindLessThan cmp s k) }"

definition SLSeek :: "('k \<Rightarrow> 'k \<Rightarrow> int) \<Rightarrow> 'k SkipList \<Rightarrow> 'k \<Rightarrow> nat option option" where
  "SLSeek cmp s target = map_option fst (FindGreaterOrEqual cmp s target)"

definition SLSeekToFirst :: "'k SkipList \<Rightarrow> nat option option" where
  "SLSeekToFirst s = link s head_node 0"

definition SLSeekToLast :: "'k SkipList \<Rightarrow> nat option option" where
  "SLSeekToLast s = map_option or_null (FindLast s)"

end
