(* ===== verification/Skip_List_Insert.thy ===== *)
theory Skip_List_Insert
  imports Skip_List
begin

text \<open>
  The skip list keeps its nodes in order: every level is the chain of the nodes that are tall enough,
  searches stop at the right place, insertion adds one node.
\<close>

section \<open>Chains of links\<close>

definition tall :: "'k SkipList \<Rightarrow> nat \<Rightarrow> nat \<Rightarrow> bool" where
  "tall s i a \<longleftrightarrow> (\<exists>n. nodes s a = Some n \<and> i < length (links n))"

fun path :: "'k SkipList \<Rightarrow> nat \<Rightarrow> nat \<Rightarrow> nat list \<Rightarrow> bool" where
  "path s i x [] \<longleftrightarrow> link s x i = Some None"
| "path s i x (y # ys) \<longleftrightarrow> link s x i = Some (Some y) \<and> path s i y ys"

definition first_of :: "nat list \<Rightarrow> nat option" where
  "first_of ys = (case ys of [] \<Rightarrow> None | y # _ \<Rightarrow> Some y)"

lemma first_of_simps [simp]: "first_of [] = None" "first_of (y # ys) = Some y"
  by (simp_all add: first_of_def)

lemma path_link: "path s i x ys \<Longrightarrow> link s x i = Some (first_of ys)"
  by (cases ys) simp_all

lemma path_append: "path s i x (us @ ys) \<Longrightarrow> path s i (last (x # us)) ys"
  by (induction us arbitrary: x) auto

definition kof :: "'k SkipList \<Rightarrow> nat \<Rightarrow> 'k" where
  "kof s a = the (key_at s a)"

definition node_ok :: "'k SkipList \<Rightarrow> nat \<Rightarrow> bool" where
  "node_ok s a \<longleftrightarrow> a < next_node s \<and> (\<exists>n k. nodes s a = Some n \<and> nkey n = Some k \<and> 1 \<le> length (links n) \<and> length (links n) \<le> max_height s)"

definition skip_inv :: "('k \<Rightarrow> 'k \<Rightarrow> int) \<Rightarrow> 'k SkipList \<Rightarrow> nat list \<Rightarrow> bool" where
  "skip_inv cmp s xs \<longleftrightarrow> head_node \<notin> set xs \<and> distinct xs \<and> (\<forall>a \<in> set xs. node_ok s a) \<and> head_node < next_node s \<and>
     (\<exists>n. nodes s head_node = Some n \<and> length (links n) = kMaxHeight) \<and> 1 \<le> max_height s \<and> max_height s \<le> kMaxHeight \<and>
     sorted_wrt (\<lambda>a b. cmp (kof s a) (kof s b) < 0) xs \<and> (\<forall>i < kMaxHeight. path s i head_node (filter (tall s i) xs))"

lemma node_key: "node_ok s a \<Longrightarrow> key_at s a = Some (kof s a)"
  by (auto simp: node_ok_def key_at_def kof_def)

lemma tall_zero: "node_ok s a \<Longrightarrow> tall s 0 a"
  by (force simp: node_ok_def tall_def)

lemma tall_below: "tall s (Suc i) a \<Longrightarrow> tall s i a"
  by (auto simp: tall_def)

lemma skip_level_zero: "skip_inv cmp s xs \<Longrightarrow> filter (tall s 0) xs = xs"
  by (auto simp: skip_inv_def tall_zero intro: filter_True)

lemma skip_path: "skip_inv cmp s xs \<Longrightarrow> i < kMaxHeight \<Longrightarrow> path s i head_node (filter (tall s i) xs)"
  by (simp add: skip_inv_def)

section \<open>The descent\<close>

text \<open>A guard that answers whether the next node is still to the left.\<close>

definition guards :: "(nat \<Rightarrow> nat option \<Rightarrow> bool option) \<Rightarrow> (nat \<Rightarrow> bool) \<Rightarrow> nat list \<Rightarrow> bool" where
  "guards go lt xs \<longleftrightarrow> (\<forall>x nxt. (x = head_node \<or> x \<in> set xs \<and> lt x) \<longrightarrow> (\<forall>y. nxt = Some y \<longrightarrow> y \<in> set xs) \<longrightarrow>
     go x nxt = Some (case nxt of None \<Rightarrow> False | Some y \<Rightarrow> lt y))"

definition left_closed :: "(nat \<Rightarrow> bool) \<Rightarrow> nat list \<Rightarrow> bool" where
  "left_closed lt xs \<longleftrightarrow> sorted_wrt (\<lambda>a b. lt b \<longrightarrow> lt a) xs"

lemma left_closed_filter: "left_closed lt xs \<Longrightarrow> left_closed lt (filter P xs)"
  by (simp add: left_closed_def sorted_wrt_filter)

text \<open>A place in a level: behind \<open>x\<close> comes \<open>ys\<close>, and all before is to the left.\<close>

definition place :: "(nat \<Rightarrow> bool) \<Rightarrow> nat list \<Rightarrow> nat \<Rightarrow> nat list \<Rightarrow> bool" where
  "place lt F x ys \<longleftrightarrow> (\<exists>us. head_node # F = us @ x # ys \<and> (\<forall>u \<in> set (us @ [x]). u = head_node \<or> lt u))"

lemma place_start: "place lt F head_node F"
  by (auto simp: place_def intro: exI [of _ "[]"])

lemma place_next: "place lt F x (y # ys) \<Longrightarrow> lt y \<Longrightarrow> place lt F y ys"
proof -
  assume "place lt F x (y # ys)" "lt y"
  then obtain us where "head_node # F = us @ x # y # ys" "\<forall>u \<in> set (us @ [x]). u = head_node \<or> lt u" by (auto simp: place_def)
  then show "place lt F y ys" using \<open>lt y\<close> by (intro exI [of _ "us @ [x]"] place_def [THEN iffD2]) auto
qed

lemma place_last:
  assumes p: "place lt F x ys" and y: "ys = [] \<or> \<not> lt (hd ys)" and h: "head_node \<notin> set F"
  shows "last (head_node # takeWhile lt F) = x" "dropWhile lt F = ys"
proof -
  obtain us where us: "head_node # F = us @ x # ys" "\<forall>u \<in> set (us @ [x]). u = head_node \<or> lt u" using p by (auto simp: place_def)
  have "takeWhile lt F = tl (us @ [x]) \<and> dropWhile lt F = ys"
  proof (cases us)
    case Nil
    then show ?thesis using us(1) y by (cases ys) auto
  next
    case (Cons a us')
    then have F: "F = (us' @ [x]) @ ys" using us(1) by simp
    then have "\<forall>u \<in> set (us' @ [x]). lt u" using us(2) h Cons by auto
    then show ?thesis using F Cons y by (cases ys) (auto simp: takeWhile_append2 dropWhile_append2)
  qed
  moreover have "head_node # tl (us @ [x]) = us @ [x]" using us(1) by (cases us) auto
  ultimately show "last (head_node # takeWhile lt F) = x" "dropWhile lt F = ys" by simp_all
qed

lemma place_down:
  assumes p: "place lt (filter P xs) x ys" and c: "left_closed lt xs" and h: "head_node \<notin> set xs" and Q: "\<And>a. P a \<Longrightarrow> Q a"
  shows "\<exists>ys'. place lt (filter Q xs) x ys'"
proof (cases "x = head_node")
  case True
  then show ?thesis using place_start by blast
next
  case False
  obtain us where us: "head_node # filter P xs = us @ x # ys" "\<forall>u \<in> set (us @ [x]). u = head_node \<or> lt u" using p by (auto simp: place_def)
  have "x \<in> set (head_node # filter P xs)" unfolding us(1) by simp
  then have "x \<in> set (filter Q xs)" using False Q by auto
  then obtain a b where ab: "filter Q xs = a @ x # b" by (meson split_list)
  have "lt x" using us(2) False by simp
  moreover have "left_closed lt (a @ x # b)" using left_closed_filter [OF c] unfolding ab [symmetric] .
  ultimately have "\<forall>u \<in> set a. lt u" by (auto simp: left_closed_def sorted_wrt_append)
  then show ?thesis using ab \<open>lt x\<close> by (intro exI [of _ b] place_def [THEN iffD2] exI [of _ "head_node # a"]) auto
qed

lemma place_link:
  assumes "path s i head_node F" "place lt F x ys"
  shows "link s x i = Some (first_of ys)"
proof -
  obtain us where us: "head_node # F = us @ x # ys" using assms(2) by (auto simp: place_def)
  show ?thesis
  proof (cases us)
    case Nil
    then show ?thesis using us assms(1) path_link by auto
  next
    case (Cons a us')
    then have "path s i head_node ((us' @ [x]) @ ys)" using us assms(1) by simp
    from path_append [OF this] show ?thesis using path_link by simp
  qed
qed

lemma place_guard:
  assumes g: "guards go lt xs" and p: "place lt (filter P xs) x ys"
  shows "go x (first_of ys) = Some (ys \<noteq> [] \<and> lt (hd ys))"
proof -
  obtain us where us: "head_node # filter P xs = us @ x # ys" "\<forall>u \<in> set (us @ [x]). u = head_node \<or> lt u" using p by (auto simp: place_def)
  have "x \<in> set (head_node # filter P xs)" unfolding us(1) by simp
  then have x: "x = head_node \<or> x \<in> set xs \<and> lt x" using us(2) by auto
  have "set ys \<subseteq> set (filter P xs)" using us(1) by (cases us) auto
  then have "set ys \<subseteq> set xs" by auto
  then have "first_of ys = Some y \<Longrightarrow> y \<in> set xs" for y by (cases ys) auto
  then have "go x (first_of ys) = Some (case first_of ys of None \<Rightarrow> False | Some y \<Rightarrow> lt y)"
    using g x unfolding guards_def by blast
  then show ?thesis by (cases ys) simp_all
qed

lemma level_walk:
  assumes s: "skip_inv cmp s xs" and g: "guards go lt xs" and i: "i < kMaxHeight"
  shows "place lt (filter (tall s i) xs) x ys \<Longrightarrow>
    \<exists>x' ys'. place lt (filter (tall s i) xs) x' ys' \<and> (ys' = [] \<or> \<not> lt (hd ys')) \<and>
      descend go s x i prev = (if i = 0 then Some (x', first_of ys', prev[i := Some x']) else descend go s x' (i - 1) (prev[i := Some x']))"
proof (induction ys arbitrary: x)
  case Nil
  have "link s x i = Some None" "go x None = Some False"
    using place_link [OF skip_path [OF s i] Nil] place_guard [OF g Nil] by simp_all
  then have "descend go s x i prev = (if i = 0 then Some (x, first_of [], prev[i := Some x]) else descend go s x (i - 1) (prev[i := Some x]))"
    by (subst descend.simps) (simp add: Let_def)
  then show ?case using Nil by blast
next
  case (Cons y ys)
  have l: "link s x i = Some (Some y)" "go x (Some y) = Some (lt y)"
    using place_link [OF skip_path [OF s i] Cons.prems] place_guard [OF g Cons.prems] by simp_all
  show ?case
  proof (cases "lt y")
    case True
    have "descend go s x i prev = descend go s y i prev" using l True by (subst descend.simps) simp
    then show ?thesis using Cons.IH [OF place_next [OF Cons.prems True]] by simp
  next
    case False
    then have "descend go s x i prev = (if i = 0 then Some (x, first_of (y # ys), prev[i := Some x]) else descend go s x (i - 1) (prev[i := Some x]))"
      using l by (subst descend.simps) (simp add: Let_def)
    moreover have "y # ys = [] \<or> \<not> lt (hd (y # ys))" using False by simp
    ultimately show ?thesis using Cons.prems by blast
  qed
qed

lemma descend_ok:
  assumes s: "skip_inv cmp s xs" and g: "guards go lt xs" and c: "left_closed lt xs"
  shows "i < kMaxHeight \<Longrightarrow> length prev = kMaxHeight \<Longrightarrow> place lt (filter (tall s i) xs) x ys \<Longrightarrow>
    \<exists>prev'. descend go s x i prev = Some (last (head_node # takeWhile lt xs), first_of (dropWhile lt xs), prev') \<and>
      length prev' = kMaxHeight \<and> (\<forall>j. j \<le> i \<longrightarrow> prev' ! j = Some (last (head_node # takeWhile lt (filter (tall s j) xs)))) \<and>
      (\<forall>j. i < j \<longrightarrow> prev' ! j = prev ! j)"
proof (induction i arbitrary: prev x ys)
  case 0
  have h: "head_node \<notin> set xs" using s by (simp add: skip_inv_def)
  obtain x' ys' where 1: "place lt (filter (tall s 0) xs) x' ys'" "ys' = [] \<or> \<not> lt (hd ys')"
      "descend go s x 0 prev = Some (x', first_of ys', prev[0 := Some x'])"
    using level_walk [OF s g 0(1) 0(3), of prev] by auto
  have "last (head_node # takeWhile lt xs) = x'" "dropWhile lt xs = ys'"
    using place_last [OF 1(1,2)] h unfolding skip_level_zero [OF s] by simp_all
  then show ?case using 1(3) 0 skip_level_zero [OF s] by simp
next
  case (Suc i)
  have h: "head_node \<notin> set xs" using s by (simp add: skip_inv_def)
  obtain x' ys' where 1: "place lt (filter (tall s (Suc i)) xs) x' ys'" "ys' = [] \<or> \<not> lt (hd ys')"
      "descend go s x (Suc i) prev = descend go s x' i (prev[Suc i := Some x'])"
    using level_walk [OF s g Suc.prems(1,3), of prev] by auto
  have l: "last (head_node # takeWhile lt (filter (tall s (Suc i)) xs)) = x'" using place_last [OF 1(1,2)] h by simp
  obtain zs where z: "place lt (filter (tall s i) xs) x' zs" using place_down [OF 1(1) c h, of "tall s i"] tall_below by blast
  have "i < kMaxHeight" "length (prev[Suc i := Some x']) = kMaxHeight" using Suc.prems by simp_all
  from Suc.IH [OF this z] obtain prev' where p: "descend go s x' i (prev[Suc i := Some x']) =
        Some (last (head_node # takeWhile lt xs), first_of (dropWhile lt xs), prev')"
      "length prev' = kMaxHeight" "\<forall>j. j \<le> i \<longrightarrow> prev' ! j = Some (last (head_node # takeWhile lt (filter (tall s j) xs)))"
      "\<forall>j. i < j \<longrightarrow> prev' ! j = prev[Suc i := Some x'] ! j"
    by blast
  have "prev' ! j = Some (last (head_node # takeWhile lt (filter (tall s j) xs)))" if "j \<le> Suc i" for j
    using that p(3,4) l Suc.prems(1,2) by (cases "j = Suc i") auto
  then show ?case using 1(3) p by auto
qed

text \<open>The searches and the insertion under an order of the keys.\<close>

section \<open>Random numbers and heights\<close>

lemma height_loop_bounds: "1 \<le> h \<Longrightarrow> h \<le> kMaxHeight \<Longrightarrow> 1 \<le> fst (height_loop h seed) \<and> fst (height_loop h seed) \<le> kMaxHeight"
proof (induction h seed rule: height_loop.induct)
  case (1 height seed)
  show ?case
  proof (cases "height < kMaxHeight \<and> unat (Random_Next seed) mod kBranching = 0")
    case True
    then show ?thesis using "1.IH" [of "Random_Next seed"] by (subst (1 2) height_loop.simps) (auto simp: Let_def)
  next
    case False
    then show ?thesis using "1.prems" by (subst (1 2) height_loop.simps) (auto simp: Let_def)
  qed
qed

lemma RandomHeight_bounds: "1 \<le> fst (RandomHeight seed)" "fst (RandomHeight seed) \<le> kMaxHeight"
  using height_loop_bounds [of 1 seed] by (simp_all add: RandomHeight_def kMaxHeight_def)

section \<open>Writing links\<close>

definition same_shape :: "'k SkipList \<Rightarrow> 'k SkipList \<Rightarrow> bool" where
  "same_shape s s' \<longleftrightarrow> next_node s' = next_node s \<and> max_height s' = max_height s \<and>
     (\<forall>x. map_option (\<lambda>n. (nkey n, length (links n))) (nodes s' x) = map_option (\<lambda>n. (nkey n, length (links n))) (nodes s x))"

lemma same_shape_refl: "same_shape s s"
  by (simp add: same_shape_def)

lemma same_shape_trans: "same_shape s s' \<Longrightarrow> same_shape s' s'' \<Longrightarrow> same_shape s s''"
  by (simp add: same_shape_def)

lemma same_shapeD:
  assumes "same_shape s s'"
  shows "tall s' i x = tall s i x" "key_at s' x = key_at s x" "kof s' x = kof s x" "node_ok s' x = node_ok s x"
    "next_node s' = next_node s" "max_height s' = max_height s"
proof -
  have e: "map_option (\<lambda>n. (nkey n, length (links n))) (nodes s' x) = map_option (\<lambda>n. (nkey n, length (links n))) (nodes s x)"
    and m: "next_node s' = next_node s" "max_height s' = max_height s" using assms by (simp_all add: same_shape_def)
  show "tall s' i x = tall s i x" "key_at s' x = key_at s x" "kof s' x = kof s x" "node_ok s' x = node_ok s x"
    using e m by (cases "nodes s x"; cases "nodes s' x"; simp add: tall_def key_at_def kof_def node_ok_def)+
  show "next_node s' = next_node s" "max_height s' = max_height s" using m .
qed

lemma SetNext_ok:
  assumes "tall s i x"
  shows "\<exists>s'. SetNext x i v s = Some s' \<and> same_shape s s' \<and> (\<forall>y j. link s' y j = (if y = x \<and> j = i then Some v else link s y j))"
proof -
  obtain n where n: "nodes s x = Some n" "i < length (links n)" using assms by (auto simp: tall_def)
  then show ?thesis by (auto simp: SetNext_def same_shape_def link_def)
qed

lemma link_levels_ok:
  "distinct is \<Longrightarrow> \<forall>i \<in> set is. prev ! i = Some (p i) \<and> p i \<noteq> a \<and> tall s i (p i) \<and> tall s i a \<Longrightarrow>
   \<exists>s'. link_levels a prev is s = Some s' \<and> same_shape s s' \<and>
     (\<forall>x i. link s' x i = (if i \<in> set is then (if x = a then link s (p i) i else if x = p i then Some (Some a) else link s x i) else link s x i))"
proof (induction "is" arbitrary: s)
  case Nil
  show ?case by (simp add: same_shape_refl)
next
  case (Cons i "is")
  have i: "prev ! i = Some (p i)" "p i \<noteq> a" "tall s i (p i)" "tall s i a" using Cons.prems(2) by auto
  obtain nxt where nxt: "link s (p i) i = Some nxt" using i(3) by (auto simp: tall_def link_def)
  obtain s1 where 1: "SetNext a i nxt s = Some s1" "same_shape s s1" "\<forall>y j. link s1 y j = (if y = a \<and> j = i then Some nxt else link s y j)"
    using SetNext_ok [OF i(4)] by blast
  have "tall s1 i (p i)" using same_shapeD(1) [OF 1(2)] i(3) by simp
  then obtain s2 where 2: "SetNext (p i) i (Some a) s1 = Some s2" "same_shape s1 s2"
      "\<forall>y j. link s2 y j = (if y = p i \<and> j = i then Some (Some a) else link s1 y j)"
    using SetNext_ok by blast
  have sh: "same_shape s s2" using same_shape_trans [OF 1(2) 2(2)] .
  have "\<forall>j \<in> set is. prev ! j = Some (p j) \<and> p j \<noteq> a \<and> tall s2 j (p j) \<and> tall s2 j a"
    using Cons.prems(2) same_shapeD(1) [OF sh] by simp
  then obtain s' where s': "link_levels a prev is s2 = Some s'" "same_shape s2 s'"
      "\<forall>x j. link s' x j = (if j \<in> set is then (if x = a then link s2 (p j) j else if x = p j then Some (Some a) else link s2 x j) else link s2 x j)"
    using Cons.IH [of s2] Cons.prems(1) by auto
  have "link_levels a prev (i # is) s = Some s'" using i(1) nxt 1(1) 2(1) s'(1) by simp
  moreover have "link s' x j = (if j \<in> set (i # is) then (if x = a then link s (p j) j else if x = p j then Some (Some a) else link s x j) else link s x j)" for x j
    using s'(3) 2(3) 1(3) nxt i(2) Cons.prems by (cases "j = i") auto
  ultimately show ?case using same_shape_trans [OF sh s'(2)] by blast
qed

section \<open>Chains after an insertion\<close>

lemma path_cong:
  "path s i x ys \<Longrightarrow> link s' x' i = link s x i \<Longrightarrow> \<forall>y \<in> set ys. link s' y i = link s y i \<Longrightarrow> path s' i x' ys"
  by (induction ys arbitrary: x x') auto

lemma path_insert:
  "path s i x (A @ B) \<Longrightarrow> distinct (x # A @ B) \<Longrightarrow> a \<notin> set (x # A @ B) \<Longrightarrow>
   \<forall>y. link s' y i = (if y = a then link s (last (x # A)) i else if y = last (x # A) then Some (Some a) else link s y i) \<Longrightarrow>
   path s' i x (A @ a # B)"
proof (induction A arbitrary: x)
  case Nil
  have "path s' i a B" by (rule path_cong [of s i x]) (use Nil in auto)
  then show ?case using Nil by simp
next
  case (Cons y A)
  have "x \<noteq> last (y # A)" using Cons.prems(2) by (metis append_Cons distinct.simps(2) in_set_conv_decomp last_in_set list.distinct(1) set_append UnCI)
  moreover have "path s' i y (A @ a # B)" using Cons by (intro Cons.IH) auto
  ultimately show ?case using Cons.prems by auto
qed

lemma left_closed_split:
  assumes "left_closed lt xs"
  shows "takeWhile lt (filter P xs) = filter P (takeWhile lt xs)" "dropWhile lt (filter P xs) = filter P (dropWhile lt xs)"
proof -
  have "\<forall>b \<in> set (dropWhile lt xs). \<not> lt b"
  proof (cases "dropWhile lt xs")
    case (Cons y ys)
    then have "\<not> lt y" by (metis hd_dropWhile list.discI list.sel(1))
    moreover have "left_closed lt (takeWhile lt xs @ y # ys)" using assms Cons takeWhile_dropWhile_id [of lt xs] by metis
    ultimately show ?thesis using Cons by (auto simp: left_closed_def sorted_wrt_append)
  qed (simp only: list.set ball_empty)
  then have B: "\<forall>b \<in> set (filter P (dropWhile lt xs)). \<not> lt b" by simp
  have A: "\<forall>b \<in> set (filter P (takeWhile lt xs)). lt b" by (auto dest: set_takeWhileD)
  have e: "filter P xs = filter P (takeWhile lt xs) @ filter P (dropWhile lt xs)" by (metis filter_append takeWhile_dropWhile_id)
  have n: "takeWhile lt ys = [] \<and> dropWhile lt ys = ys" if "\<forall>b \<in> set ys. \<not> lt b" for ys using that by (cases ys) auto
  have "takeWhile lt (as @ bs) = as \<and> dropWhile lt (as @ bs) = bs" if "\<forall>b \<in> set as. lt b" "\<forall>b \<in> set bs. \<not> lt b" for as bs
    using that n [of bs] by (simp add: takeWhile_append2 dropWhile_append2)
  from this [OF A B] show "takeWhile lt (filter P xs) = filter P (takeWhile lt xs)" "dropWhile lt (filter P xs) = filter P (dropWhile lt xs)"
    unfolding e [symmetric] by blast+
qed

section \<open>The searches\<close>

locale key_order =
  fixes cmp :: "'k \<Rightarrow> 'k \<Rightarrow> int"
  assumes key_antisym: "cmp a b < 0 \<longleftrightarrow> 0 < cmp b a"
    and key_trans: "cmp a b \<le> 0 \<Longrightarrow> cmp b c \<le> 0 \<Longrightarrow> cmp a c \<le> 0"
begin

lemma key_less_trans: "cmp a b < 0 \<Longrightarrow> cmp b c < 0 \<Longrightarrow> cmp a c < 0"
  using key_antisym [of a b] key_antisym [of b c] key_antisym [of a c] key_antisym [of c a] key_trans [of b c a] key_trans [of c a b]
  by (smt (verit))

definition left :: "'k SkipList \<Rightarrow> 'k \<Rightarrow> nat \<Rightarrow> bool" where
  "left s key a \<longleftrightarrow> cmp (kof s a) key < 0"

lemma left_closed_keys: "skip_inv cmp s xs \<Longrightarrow> left_closed (left s key) xs"
  unfolding skip_inv_def left_closed_def left_def by (auto elim!: sorted_wrt_mono_rel [rotated] intro: key_less_trans)

lemma KeyIsAfterNode_ok: "skip_inv cmp s xs \<Longrightarrow> (\<forall>y. nxt = Some y \<longrightarrow> y \<in> set xs) \<Longrightarrow>
    KeyIsAfterNode cmp s key nxt = Some (case nxt of None \<Rightarrow> False | Some y \<Rightarrow> left s key y)"
  by (auto simp: KeyIsAfterNode_def skip_inv_def node_key left_def split: option.splits)

lemma descend_all:
  assumes s: "skip_inv cmp s xs" and g: "guards go lt xs" and c: "left_closed lt xs"
  shows "\<exists>prev. descend go s head_node (max_height s - 1) no_prev =
      Some (last (head_node # takeWhile lt xs), first_of (dropWhile lt xs), prev) \<and> length prev = kMaxHeight \<and>
      (\<forall>j < max_height s. prev ! j = Some (last (head_node # takeWhile lt (filter (tall s j) xs))))"
proof -
  have m: "max_height s - 1 < kMaxHeight" "1 \<le> max_height s" using s by (auto simp: skip_inv_def)
  have n: "length no_prev = kMaxHeight" by (simp add: no_prev_def)
  from descend_ok [OF s g c m(1) n place_start] show ?thesis using m(2) by force
qed

lemma FindGreaterOrEqual_ok:
  assumes s: "skip_inv cmp s xs"
  shows "\<exists>prev. FindGreaterOrEqual cmp s key = Some (first_of (dropWhile (left s key) xs), prev) \<and> length prev = kMaxHeight \<and>
      (\<forall>j < max_height s. prev ! j = Some (last (head_node # takeWhile (left s key) (filter (tall s j) xs))))"
proof -
  have "guards (\<lambda>_. KeyIsAfterNode cmp s key) (left s key) xs" using KeyIsAfterNode_ok [OF s] by (simp add: guards_def)
  from descend_all [OF s this left_closed_keys [OF s]] show ?thesis by (auto simp: FindGreaterOrEqual_def)
qed

lemma FindLessThan_ok:
  assumes s: "skip_inv cmp s xs"
  shows "FindLessThan cmp s key = Some (last (head_node # takeWhile (left s key) xs))"
proof -
  have "guards (\<lambda>x nxt. do {
       ok \<leftarrow> (if x = head_node then Some True else KeyIsAfterNode cmp s key (Some x));
       if ok then KeyIsAfterNode cmp s key nxt else None }) (left s key) xs"
    using KeyIsAfterNode_ok [OF s] by (auto simp: guards_def)
  from descend_all [OF s this left_closed_keys [OF s]] show ?thesis by (auto simp: FindLessThan_def)
qed

lemma FindLast_ok:
  assumes s: "skip_inv cmp s xs"
  shows "FindLast s = Some (last (head_node # xs))"
proof -
  have g: "guards (\<lambda>_ nxt. Some (nxt \<noteq> None)) (\<lambda>_. True) xs" by (auto simp: guards_def split: option.splits)
  have "left_closed (\<lambda>_. True) xs" by (simp add: left_closed_def sorted_wrt_true)
  from descend_all [OF s g this] show ?thesis by (auto simp: FindLast_def takeWhile_eq_all_conv [THEN iffD2])
qed

section \<open>Insertion\<close>

lemma new_node_ok:
  assumes s: "skip_inv cmp s xs" and h: "1 \<le> h" "h \<le> kMaxHeight" and m: "m = max (max_height s) h"
    and s1: "NewNode (Some key) h (s\<lparr>rnd := seed, max_height := m\<rparr>) = (a, s1)"
  shows "a = next_node s" "a \<notin> set (head_node # xs)" "\<And>x i. x \<noteq> a \<Longrightarrow> link s1 x i = link s x i" "\<And>x i. x \<noteq> a \<Longrightarrow> tall s1 i x = tall s i x"
    "\<And>x. x \<noteq> a \<Longrightarrow> kof s1 x = kof s x" "kof s1 a = key" "\<And>i. tall s1 i a = (i < h)" "\<forall>x \<in> set (a # xs). node_ok s1 x"
    "next_node s1 = Suc a" "max_height s1 = m" "\<exists>n. nodes s1 head_node = Some n \<and> length (links n) = kMaxHeight"
proof -
  have e: "a = next_node s" "s1 = s\<lparr>nodes := (nodes s)(next_node s \<mapsto> \<lparr>nkey = Some key, links = replicate h None\<rparr>),
      next_node := next_node s + 1, max_height := m, rnd := seed\<rparr>"
    using s1 by (auto simp: NewNode_def)
  show "a = next_node s" by (rule e(1))
  show n: "a \<notin> set (head_node # xs)" using s by (auto simp: e(1) skip_inv_def node_ok_def)
  show "link s1 x i = link s x i" if "x \<noteq> a" for x i using that by (simp add: e link_def)
  show "tall s1 i x = tall s i x" if "x \<noteq> a" for x i using that by (simp add: e tall_def)
  show "kof s1 x = kof s x" if "x \<noteq> a" for x using that by (simp add: e kof_def key_at_def)
  show "kof s1 a = key" by (simp add: e kof_def key_at_def)
  show "tall s1 i a = (i < h)" for i by (simp add: e tall_def)
  show "next_node s1 = Suc a" "max_height s1 = m" by (simp_all add: e)
  show "\<exists>n. nodes s1 head_node = Some n \<and> length (links n) = kMaxHeight" using s n by (auto simp: e skip_inv_def)
  have "node_ok s1 x" if "x \<in> set xs" for x
  proof -
    have "node_ok s x" using s that by (simp add: skip_inv_def)
    then show ?thesis using m n that by (fastforce simp: node_ok_def e)
  qed
  moreover have "node_ok s1 a" using h m by (auto simp: node_ok_def e)
  ultimately show "\<forall>x \<in> set (a # xs). node_ok s1 x" by simp
qed

text \<open>The new node is in its place in every level that it reaches.\<close>

lemma levels_linked:
  assumes s: "skip_inv cmp s xs" and a: "a \<notin> set (head_node # xs)" and i: "i < kMaxHeight"
    and t: "\<And>x. x \<noteq> a \<Longrightarrow> tall s' i x = tall s i x" "tall s' i a = (i < h)"
    and l1: "i < h \<Longrightarrow> \<forall>x. link s' x i = (if x = a then link s (last (head_node # takeWhile lt (filter (tall s i) xs))) i
        else if x = last (head_node # takeWhile lt (filter (tall s i) xs)) then Some (Some a) else link s x i)"
    and l2: "\<And>x. \<not> i < h \<Longrightarrow> x \<noteq> a \<Longrightarrow> link s' x i = link s x i"
    and c: "left_closed lt xs"
  shows "path s' i head_node (filter (tall s' i) (takeWhile lt xs @ a # dropWhile lt xs))"
proof -
  let ?A = "filter (tall s i) (takeWhile lt xs)" and ?B = "filter (tall s i) (dropWhile lt xs)"
  have e: "?A @ ?B = filter (tall s i) xs" by (metis filter_append takeWhile_dropWhile_id)
  have p: "path s i head_node (?A @ ?B)" unfolding e using skip_path [OF s i] .
  have sub: "set (takeWhile lt xs) \<subseteq> set xs" "set (dropWhile lt xs) \<subseteq> set xs" by (auto dest: set_takeWhileD set_dropWhileD)
  then have f: "filter (tall s' i) (takeWhile lt xs) = ?A" "filter (tall s' i) (dropWhile lt xs) = ?B"
  proof -
    have same: "tall s' i x = tall s i x" if "x \<in> set xs" for x
    proof (rule t(1))
      show "x \<noteq> a" using that a by auto
    qed
    show "filter (tall s' i) (takeWhile lt xs) = ?A" by (rule filter_cong [OF refl], rule same) (use sub in blast)
    show "filter (tall s' i) (dropWhile lt xs) = ?B" by (rule filter_cong [OF refl], rule same) (use sub in blast)
  qed
  have d: "distinct (head_node # ?A @ ?B)" "a \<notin> set (head_node # ?A @ ?B)" unfolding e using s a by (auto simp: skip_inv_def)
  show ?thesis
  proof (cases "i < h")
    case True
    have "path s' i head_node (?A @ a # ?B)"
      using l1 [OF True] unfolding left_closed_split(1) [OF c] by (rule path_insert [OF p d])
    then show ?thesis using f t(2) True by simp
  next
    case False
    have "path s' i head_node (?A @ ?B)"
    proof (rule path_cong [OF p])
      show "link s' head_node i = link s head_node i" using d(2) by (intro l2 [OF False]) auto
      show "\<forall>y \<in> set (?A @ ?B). link s' y i = link s y i" using d(2) by (intro ballI l2 [OF False]) auto
    qed
    then show ?thesis using f t(2) False by simp
  qed
qed

lemma sorted_inserted:
  assumes s: "skip_inv cmp s xs" and ne: "\<forall>x \<in> set xs. cmp (kof s x) key \<noteq> 0"
    and k: "\<forall>x \<in> set xs. kof s' x = kof s x" "kof s' a = key"
  shows "sorted_wrt (\<lambda>a b. cmp (kof s' a) (kof s' b) < 0) (takeWhile (left s key) xs @ a # dropWhile (left s key) xs)"
proof -
  let ?A = "takeWhile (left s key) xs" and ?B = "dropWhile (left s key) xs"
  have sub: "set ?A \<subseteq> set xs" "set ?B \<subseteq> set xs" by (auto dest: set_takeWhileD set_dropWhileD)
  have "sorted_wrt (\<lambda>a b. cmp (kof s a) (kof s b) < 0) (?A @ ?B)" using s by (simp add: skip_inv_def)
  then have o: "sorted_wrt (\<lambda>a b. cmp (kof s a) (kof s b) < 0) ?A" "sorted_wrt (\<lambda>a b. cmp (kof s a) (kof s b) < 0) ?B"
    "\<forall>x \<in> set ?A. \<forall>y \<in> set ?B. cmp (kof s x) (kof s y) < 0" unfolding sorted_wrt_append by blast+
  have A: "\<forall>x \<in> set ?A. cmp (kof s x) key < 0" by (auto dest: set_takeWhileD simp: left_def)
  have "dropWhile (left s key) (filter (\<lambda>x. left s key x) xs) = []" by (simp add: dropWhile_eq_Nil_conv)
  then have "filter (left s key) ?B = []" using left_closed_split(2) [OF left_closed_keys [OF s, of key], of "left s key"] by simp
  then have "\<forall>y \<in> set ?B. \<not> left s key y" by (simp add: filter_empty_conv)
  then have B: "\<forall>y \<in> set ?B. cmp key (kof s y) < 0"
    using ne sub(2) key_antisym by (metis left_def linorder_neqE subsetD)
  have e: "kof s' x = kof s x" if "x \<in> set ?A \<or> x \<in> set ?B" for x using that k(1) sub by blast
  have "sorted_wrt (\<lambda>a b. cmp (kof s' a) (kof s' b) < 0) ?A" by (rule sorted_wrt_mono_rel [OF _ o(1)]) (simp add: e)
  moreover have "sorted_wrt (\<lambda>a b. cmp (kof s' a) (kof s' b) < 0) ?B" by (rule sorted_wrt_mono_rel [OF _ o(2)]) (simp add: e)
  moreover have "\<forall>x \<in> set ?A. \<forall>y \<in> set (a # ?B). cmp (kof s' x) (kof s' y) < 0" using o(3) A k(2) e by auto
  moreover have "\<forall>y \<in> set ?B. cmp (kof s' a) (kof s' y) < 0" using B k(2) e by auto
  ultimately show ?thesis unfolding sorted_wrt_append sorted_wrt.simps by blast
qed

lemma Insert_ok:
  assumes s: "skip_inv cmp s xs" and ne: "\<forall>x \<in> set xs. cmp (kof s x) key \<noteq> 0"
  defines "ys \<equiv> takeWhile (left s key) xs @ next_node s # dropWhile (left s key) xs"
  shows "\<exists>s'. Insert cmp key s = Some s' \<and> skip_inv cmp s' ys \<and> kof s' (next_node s) = key \<and> (\<forall>x \<in> set xs. kof s' x = kof s x)"
proof -
  let ?lt = "left s key" let ?p = "\<lambda>i. last (head_node # takeWhile ?lt (filter (tall s i) xs))"
  obtain prev where f: "FindGreaterOrEqual cmp s key = Some (first_of (dropWhile ?lt xs), prev)" "length prev = kMaxHeight"
      "\<forall>j < max_height s. prev ! j = Some (?p j)"
    using FindGreaterOrEqual_ok [OF s, of key] by blast
  have sub: "set (dropWhile ?lt xs) \<subseteq> set xs" "set (takeWhile ?lt xs) \<subseteq> set xs" by (auto dest: set_takeWhileD set_dropWhileD)
  have ok: "\<forall>x \<in> set xs. node_ok s x" "head_node \<notin> set xs" "distinct xs" "max_height s \<le> kMaxHeight" "1 \<le> max_height s"
    using s by (simp_all add: skip_inv_def)
  have absent: "(case first_of (dropWhile ?lt xs) of None \<Rightarrow> Some False | Some a \<Rightarrow> map_option (\<lambda>k. cmp key k = 0) (key_at s a)) = Some False"
  proof (cases "dropWhile ?lt xs")
    case (Cons y z)
    then have y: "y \<in> set xs" using sub(1) by auto
    then have "cmp key (kof s y) \<noteq> 0" using ne key_antisym [of key "kof s y"] key_antisym [of "kof s y" key] by force
    then show ?thesis using Cons y ok(1) by (simp add: node_key)
  qed (simp only: first_of_simps option.case)
  obtain h seed where h: "RandomHeight (rnd s) = (h, seed)" by force
  have hb: "1 \<le> h" "h \<le> kMaxHeight" using RandomHeight_bounds [of "rnd s"] h by simp_all
  define m where "m = max (max_height s) h"
  define prev' where "prev' = (if h > max_height s
     then map (\<lambda>i. if max_height s \<le> i \<and> i < h then Some head_node else prev ! i) [0..<kMaxHeight] else prev)"
  obtain a s1 where 1: "NewNode (Some key) h (s\<lparr>rnd := seed, max_height := m\<rparr>) = (a, s1)" by force
  note N = new_node_ok [OF s hb m_def 1]
  have ins: "Insert cmp key s = link_levels a prev' [0..<h] s1"
  proof (cases "h > max_height s")
    case True
    then show ?thesis using f(1) absent h 1 by (simp add: Insert_def Let_def m_def prev'_def)
  next
    case False
    have "s\<lparr>rnd := seed, max_height := max_height s\<rparr> = s\<lparr>rnd := seed\<rparr>" by (cases s) simp
    then show ?thesis using False f(1) absent h 1 by (simp add: Insert_def Let_def m_def prev'_def max_def)
  qed
  have p': "prev' ! i = Some (?p i)" if "i < h" for i
  proof (cases "i < max_height s")
    case True
    then show ?thesis using f(3) that hb by (simp add: prev'_def)
  next
    case False
    then have "\<not> tall s i x" if "x \<in> set xs" for x using ok(1) that by (fastforce simp: node_ok_def tall_def)
    then have "filter (tall s i) xs = []" by (simp add: filter_empty_conv)
    then show ?thesis using False that hb by (simp add: prev'_def)
  qed
  have pin: "?p i \<in> set (head_node # filter (tall s i) xs)" for i
    by (metis last_in_set list.distinct(1) set_ConsD set_takeWhileD list.set_intros)
  have "\<forall>i \<in> set [0..<h]. prev' ! i = Some (?p i) \<and> ?p i \<noteq> a \<and> tall s1 i (?p i) \<and> tall s1 i a"
  proof
    fix i assume i: "i \<in> set [0..<h]"
    have ne: "?p i \<noteq> a" using pin [of i] N(2) by auto
    have "tall s1 i head_node" using N(11) i hb by (auto simp: tall_def)
    then have "tall s1 i (?p i)" using pin [of i] N(4) ne by auto
    then show "prev' ! i = Some (?p i) \<and> ?p i \<noteq> a \<and> tall s1 i (?p i) \<and> tall s1 i a" using p' i ne N(7) by simp
  qed
  from link_levels_ok [OF distinct_upt this] obtain s' where s': "link_levels a prev' [0..<h] s1 = Some s'" "same_shape s1 s'"
      "\<forall>x i. link s' x i = (if i < h then (if x = a then link s1 (?p i) i else if x = ?p i then Some (Some a) else link s1 x i) else link s1 x i)"
    by auto
  note S = same_shapeD [OF s'(2)]
  have xa: "x \<noteq> a" if "x \<in> set xs" for x using that N(2) by auto
  have k: "\<forall>x \<in> set xs. kof s' x = kof s x" "kof s' a = key" unfolding S(3) using N(5) [OF xa] N(6) by blast+
  have "path s' i head_node (filter (tall s' i) ys)" if i: "i < kMaxHeight" for i
    unfolding ys_def N(1) [symmetric]
  proof (rule levels_linked [OF s N(2) i _ _ _ _ left_closed_keys [OF s]])
    show "tall s' i x = tall s i x" if "x \<noteq> a" for x using S(1) N(4) [OF that] by simp
    show "tall s' i a = (i < h)" using S(1) N(7) by simp
    have pa: "?p i \<noteq> a" using pin [of i] N(2) by auto
    show "\<forall>x. link s' x i = (if x = a then link s (?p i) i else if x = ?p i then Some (Some a) else link s x i)" if "i < h"
      using s'(3) that N(3) [of _ i] pa by simp
    show "link s' x i = link s x i" if "\<not> i < h" "x \<noteq> a" for x using s'(3) that N(3) by simp
  qed
  moreover have "set ys = insert a (set xs)"
  proof -
    have "set xs = set (takeWhile ?lt xs) \<union> set (dropWhile ?lt xs)" by (metis set_append takeWhile_dropWhile_id)
    then show ?thesis by (simp add: ys_def N(1) [symmetric])
  qed
  moreover have "distinct ys"
  proof -
    have "distinct (takeWhile ?lt xs @ dropWhile ?lt xs)" using ok(3) by simp
    moreover have "a \<notin> set (takeWhile ?lt xs)" "a \<notin> set (dropWhile ?lt xs)" using N(2) sub by auto
    ultimately show ?thesis unfolding ys_def N(1) [symmetric] distinct_append distinct.simps(2) list.set(2) by blast
  qed
  moreover have "sorted_wrt (\<lambda>a b. cmp (kof s' a) (kof s' b) < 0) ys"
    unfolding ys_def N(1) [symmetric] by (rule sorted_inserted [OF s ne k])
  moreover have "\<exists>n. nodes s' head_node = Some n \<and> length (links n) = kMaxHeight"
  proof -
    obtain n where n: "nodes s1 head_node = Some n" "length (links n) = kMaxHeight" using N(11) by blast
    have "map_option (\<lambda>n. (nkey n, length (links n))) (nodes s' head_node) = map_option (\<lambda>n. (nkey n, length (links n))) (nodes s1 head_node)"
      using s'(2) by (simp add: same_shape_def)
    then show ?thesis using n by (cases "nodes s' head_node") auto
  qed
  moreover have "\<forall>x \<in> insert a (set xs). node_ok s' x" using N(8) S(4) by simp
  moreover have "head_node \<notin> insert a (set xs)" using N(2) ok(2) by auto
  moreover have "head_node < next_node s'" "1 \<le> max_height s'" "max_height s' \<le> kMaxHeight"
    using N(9,10) S(5,6) ok(4,5) hb by (simp_all add: head_node_def m_def)
  ultimately have "skip_inv cmp s' ys" unfolding skip_inv_def by simp
  then show ?thesis using ins s'(1) k N(1) by simp
qed

end

end
