(* ===== verification/Skip_List_Keys.thy ===== *)
theory Skip_List_Keys
  imports Skip_List_Insert "HOL-Library.Multiset"
begin

text \<open>
  The skip list as the sorted list of its keys: what insertion, search and the iterator do to it.
\<close>

definition skip_keys :: "('k \<Rightarrow> 'k \<Rightarrow> int) \<Rightarrow> 'k SkipList \<Rightarrow> 'k list \<Rightarrow> bool" where
  "skip_keys cmp s es \<longleftrightarrow> (\<exists>xs. skip_inv cmp s xs \<and> map (kof s) xs = es)"

text \<open>The iterator is at position \<open>i\<close>, or behind the last key.\<close>

definition skip_at :: "('k \<Rightarrow> 'k \<Rightarrow> int) \<Rightarrow> 'k SkipList \<Rightarrow> 'k list \<Rightarrow> nat \<Rightarrow> nat option \<Rightarrow> bool" where
  "skip_at cmp s es i it \<longleftrightarrow> (\<exists>xs. skip_inv cmp s xs \<and> map (kof s) xs = es \<and> i \<le> length xs \<and> it = first_of (drop i xs))"

lemma first_of_drop: "first_of (drop i xs) = (if i < length xs then Some (xs ! i) else None)"
  by (cases "i < length xs") (simp_all add: Cons_nth_drop_Suc [symmetric])

lemma new_SkipList_keys: "skip_keys cmp new_SkipList []"
  by (auto simp: skip_keys_def skip_inv_def new_SkipList_def NewNode_def kMaxHeight_def head_node_def link_def)

lemma skip_keys_sorted: "skip_keys cmp s es \<Longrightarrow> sorted_wrt (\<lambda>a b. cmp a b < 0) es"
  by (auto simp: skip_keys_def skip_inv_def sorted_wrt_map)

lemma dropWhile_drop: "dropWhile P xs = drop (length (takeWhile P xs)) xs"
  by (simp add: dropWhile_eq_drop)

lemma skip_link:
  assumes "skip_inv cmp s xs" "i \<le> length xs"
  shows "link s ((head_node # xs) ! i) 0 = Some (first_of (drop i xs))"
proof -
  have p: "path s 0 head_node (take i xs @ drop i xs)" using skip_path [OF assms(1), of 0] skip_level_zero [OF assms(1)] by (simp add: kMaxHeight_def)
  have "last (head_node # take i xs) = (head_node # xs) ! i" using assms(2) by (cases i) (auto simp: last_conv_nth)
  then show ?thesis using path_link [OF path_append [OF p]] by simp
qed

section \<open>Insertion and search\<close>

context key_order
begin

lemma skip_Insert:
  assumes s: "skip_keys cmp s es" and k: "\<forall>e \<in> set es. cmp e key \<noteq> 0"
  shows "\<exists>s'. Insert cmp key s = Some s' \<and>
    skip_keys cmp s' (takeWhile (\<lambda>e. cmp e key < 0) es @ key # dropWhile (\<lambda>e. cmp e key < 0) es)"
proof -
  obtain xs where xs: "skip_inv cmp s xs" "map (kof s) xs = es" using s by (auto simp: skip_keys_def)
  have "\<forall>x \<in> set xs. cmp (kof s x) key \<noteq> 0" using k xs(2) by auto
  from Insert_ok [OF xs(1) this] obtain s' where s': "Insert cmp key s = Some s'"
      "skip_inv cmp s' (takeWhile (left s key) xs @ next_node s # dropWhile (left s key) xs)"
      "kof s' (next_node s) = key" "\<forall>x \<in> set xs. kof s' x = kof s x"
    by blast
  have l: "(\<lambda>e. cmp e key < 0) \<circ> kof s = left s key" by (auto simp: left_def fun_eq_iff)
  have "map (kof s') (takeWhile (left s key) xs) = map (kof s) (takeWhile (left s key) xs)"
    "map (kof s') (dropWhile (left s key) xs) = map (kof s) (dropWhile (left s key) xs)"
    using s'(4) by (auto dest: set_takeWhileD set_dropWhileD)
  then have "map (kof s') (takeWhile (left s key) xs @ next_node s # dropWhile (left s key) xs) =
      takeWhile (\<lambda>e. cmp e key < 0) es @ key # dropWhile (\<lambda>e. cmp e key < 0) es"
    using s'(3) by (simp add: xs(2) [symmetric] takeWhile_map dropWhile_map l)
  then show ?thesis using s'(1,2) unfolding skip_keys_def by blast
qed

lemma skip_Contains:
  assumes "skip_keys cmp s es"
  shows "Contains cmp s key = Some (\<exists>e \<in> set es. cmp e key = 0)"
proof -
  obtain xs where xs: "skip_inv cmp s xs" "map (kof s) xs = es" using assms by (auto simp: skip_keys_def)
  obtain prev where f: "FindGreaterOrEqual cmp s key = Some (first_of (dropWhile (left s key) xs), prev)"
    using FindGreaterOrEqual_ok [OF xs(1)] by blast
  have z: "cmp a b = 0 \<longleftrightarrow> cmp b a = 0" for a b using key_antisym [of a b] key_antisym [of b a] by linarith
  have set: "set xs = set (takeWhile (left s key) xs) \<union> set (dropWhile (left s key) xs)" by (metis set_append takeWhile_dropWhile_id)
  have l: "\<forall>x \<in> set (takeWhile (left s key) xs). cmp (kof s x) key \<noteq> 0" by (auto dest!: set_takeWhileD simp: left_def)
  show ?thesis
  proof (cases "dropWhile (left s key) xs")
    case Nil
    then have "FindGreaterOrEqual cmp s key = Some (None, prev)" "\<forall>x \<in> set xs. cmp (kof s x) key \<noteq> 0"
      using f l unfolding set unfolding Nil by simp_all
    then show ?thesis by (simp add: Contains_def xs(2) [symmetric])
  next
    case (Cons y ys)
    then have y: "y \<in> set xs" "\<not> left s key y" using set hd_dropWhile [of "left s key" xs] by auto
    have key: "key_at s y = Some (kof s y)" using xs(1) y(1) by (intro node_key) (simp add: skip_inv_def)
    have o: "\<forall>x \<in> set ys. cmp (kof s y) (kof s x) < 0"
    proof -
      have "sorted_wrt (\<lambda>a b. cmp (kof s a) (kof s b) < 0) (takeWhile (left s key) xs @ dropWhile (left s key) xs)"
        using xs(1) by (simp add: skip_inv_def)
      then show ?thesis unfolding sorted_wrt_append Cons by simp
    qed
    have "cmp (kof s x) key \<noteq> 0" if "x \<in> set ys" for x
    proof -
      have "cmp (kof s y) (kof s x) < 0" "\<not> cmp (kof s y) key < 0" using o that y(2) by (auto simp: left_def)
      moreover have "cmp (kof s y) key < 0" if "cmp (kof s y) (kof s x) < 0" "cmp (kof s x) key = 0"
        using that key_trans [of "kof s y" "kof s x" key] key_trans [of "kof s x" key "kof s y"] z [of "kof s y" key] z [of "kof s x" key]
          key_trans [of key "kof s y" "kof s x"] key_antisym [of "kof s y" "kof s x"] key_trans [of "kof s x" key "kof s y"]
        by (smt (verit))
      ultimately show ?thesis by blast
    qed
    then have "(\<exists>e \<in> set es. cmp e key = 0) \<longleftrightarrow> cmp (kof s y) key = 0" using l set Cons by (auto simp: xs(2) [symmetric])
    then show ?thesis using f Cons key z [of key "kof s y"] by (simp add: Contains_def)
  qed
qed

section \<open>The iterator\<close>

lemma skip_at_keys: "skip_at cmp s es i it \<Longrightarrow> skip_keys cmp s es"
  by (auto simp: skip_at_def skip_keys_def)

lemma skip_at_le: "skip_at cmp s es i it \<Longrightarrow> i \<le> length es"
  by (auto simp: skip_at_def)

lemma skip_at_Valid: "skip_at cmp s es i it \<Longrightarrow> SLValid it \<longleftrightarrow> i < length es"
  by (auto simp: skip_at_def SLValid_def first_of_drop split: if_splits)

lemma skip_at_key:
  assumes "skip_at cmp s es i it" "i < length es"
  shows "SLkey s it = Some (es ! i)"
proof -
  obtain xs where xs: "skip_inv cmp s xs" "map (kof s) xs = es" "it = first_of (drop i xs)" using assms(1) by (auto simp: skip_at_def)
  have i: "i < length xs" using assms(2) by (auto simp: xs(2) [symmetric])
  then have "node_ok s (xs ! i)" using xs(1) by (simp add: skip_inv_def)
  then show ?thesis using i by (simp add: SLkey_def xs(2) [symmetric] xs(3) first_of_drop node_key)
qed

lemma skip_at_end: "skip_keys cmp s es \<Longrightarrow> skip_at cmp s es (length es) None"
  by (auto simp: skip_keys_def skip_at_def)

lemma skip_SeekToFirst:
  assumes "skip_keys cmp s es"
  shows "\<exists>it. SLSeekToFirst s = Some it \<and> skip_at cmp s es 0 it"
  using assms skip_link [of cmp s _ 0] by (auto simp: skip_keys_def skip_at_def SLSeekToFirst_def)

lemma skip_Seek:
  assumes "skip_keys cmp s es"
  shows "\<exists>it. SLSeek cmp s target = Some it \<and> skip_at cmp s es (length (takeWhile (\<lambda>e. cmp e target < 0) es)) it"
proof -
  obtain xs where xs: "skip_inv cmp s xs" "map (kof s) xs = es" using assms by (auto simp: skip_keys_def)
  have l: "(\<lambda>e. cmp e target < 0) \<circ> kof s = left s target" by (auto simp: left_def fun_eq_iff)
  have "length (takeWhile (\<lambda>e. cmp e target < 0) es) = length (takeWhile (left s target) xs)"
    by (simp add: xs(2) [symmetric] takeWhile_map l)
  moreover obtain prev where "FindGreaterOrEqual cmp s target = Some (first_of (dropWhile (left s target) xs), prev)"
    using FindGreaterOrEqual_ok [OF xs(1)] by blast
  ultimately show ?thesis using xs
    by (simp add: SLSeek_def skip_at_def) (intro exI [of _ xs], simp add: dropWhile_drop length_takeWhile_le)
qed

lemma skip_Next:
  assumes "skip_at cmp s es i it" "i < length es"
  shows "\<exists>it'. SLNext s it = Some it' \<and> skip_at cmp s es (Suc i) it'"
proof -
  obtain xs where xs: "skip_inv cmp s xs" "map (kof s) xs = es" "it = first_of (drop i xs)" using assms(1) by (auto simp: skip_at_def)
  have i: "Suc i \<le> length xs" using assms(2) by (auto simp: xs(2) [symmetric])
  then have "SLNext s it = Some (first_of (drop (Suc i) xs))"
    using skip_link [OF xs(1) i] by (simp add: SLNext_def xs(3) first_of_drop)
  then show ?thesis using xs i by (auto simp: skip_at_def)
qed

lemma or_null_last:
  assumes "skip_inv cmp s xs" "i \<le> length xs"
  shows "or_null (last (head_node # take i xs)) = (if i = 0 then None else Some (xs ! (i - 1)))"
proof (cases i)
  case 0
  then show ?thesis by (simp add: or_null_def)
next
  case (Suc j)
  then have "last (head_node # take i xs) = xs ! j" "xs ! j \<noteq> head_node"
    using assms by (auto simp: skip_inv_def last_conv_nth) (metis less_eq_Suc_le nth_mem)
  then show ?thesis using Suc by (simp add: or_null_def)
qed

lemma skip_at_back:
  assumes "skip_inv cmp s xs" "i \<le> length xs"
  shows "skip_at cmp s (map (kof s) xs) (if i = 0 then length xs else i - 1) (or_null (last (head_node # take i xs)))"
  using assms or_null_last [OF assms] by (auto simp: skip_at_def first_of_drop intro!: exI [of _ xs])

lemma skip_Prev:
  assumes "skip_at cmp s es i it" "i < length es"
  shows "\<exists>it'. SLPrev cmp s it = Some it' \<and> skip_at cmp s es (if i = 0 then length es else i - 1) it'"
proof -
  obtain xs where xs: "skip_inv cmp s xs" "map (kof s) xs = es" "it = first_of (drop i xs)" using assms(1) by (auto simp: skip_at_def)
  have i: "i < length xs" using assms(2) by (auto simp: xs(2) [symmetric])
  have k: "SLkey s it = Some (kof s (xs ! i))" using skip_at_key [OF assms] i by (simp add: xs(2) [symmetric])
  have o: "sorted_wrt (\<lambda>a b. cmp (kof s a) (kof s b) < 0) xs" using xs(1) by (simp add: skip_inv_def)
  have "takeWhile (left s (kof s (xs ! i))) xs = take i xs"
  proof (rule takeWhile_eq_take_P_nth)
    fix j assume "j < i"
    then show "left s (kof s (xs ! i)) (xs ! j)" using o i by (auto simp: left_def sorted_wrt_iff_nth_less)
  next
    show "\<not> left s (kof s (xs ! i)) (xs ! i)" using key_antisym [of "kof s (xs ! i)" "kof s (xs ! i)"] by (auto simp: left_def)
  qed
  then have "SLPrev cmp s it = Some (or_null (last (head_node # take i xs)))"
    using FindLessThan_ok [OF xs(1), of "kof s (xs ! i)"] k xs(3) i by (simp add: SLPrev_def SLkey_def first_of_drop)
  then show ?thesis using skip_at_back [OF xs(1), of i] i xs(2) by auto
qed

lemma skip_SeekToLast:
  assumes "skip_keys cmp s es"
  shows "\<exists>it. SLSeekToLast s = Some it \<and> skip_at cmp s es (length es - 1) it"
proof -
  obtain xs where xs: "skip_inv cmp s xs" "map (kof s) xs = es" using assms by (auto simp: skip_keys_def)
  have "skip_at cmp s es (if length xs = 0 then length xs else length xs - 1) (or_null (last (head_node # take (length xs) xs)))"
    using skip_at_back [OF xs(1) le_refl] xs(2) by simp
  then show ?thesis using FindLast_ok [OF xs(1)] xs(2) by (auto simp: SLSeekToLast_def split: if_splits)
qed

end

section \<open>A skip list is the sorted list of the keys that went in\<close>

fun Insert_all :: "('k \<Rightarrow> 'k \<Rightarrow> int) \<Rightarrow> 'k list \<Rightarrow> 'k SkipList \<Rightarrow> 'k SkipList option" where
  "Insert_all cmp [] s = Some s"
| "Insert_all cmp (k # ks) s = Option.bind (Insert cmp k s) (Insert_all cmp ks)"

text \<open>The keys from the current position to the end, at most \<open>n\<close> of them.\<close>

fun walk :: "'k SkipList \<Rightarrow> nat \<Rightarrow> nat option \<Rightarrow> 'k list option" where
  "walk s 0 it = (if SLValid it then None else Some [])"
| "walk s (Suc n) it = (if SLValid it then do {
     k \<leftarrow> SLkey s it;
     it \<leftarrow> SLNext s it;
     map_option (Cons k) (walk s n it) } else Some [])"

context key_order
begin

lemma skip_walk: "skip_at cmp s es i it \<Longrightarrow> n = length es - i \<Longrightarrow> walk s n it = Some (drop i es)"
proof (induction n arbitrary: i it)
  case 0
  then show ?case using skip_at_le [OF 0(1)] by (simp add: skip_at_Valid)
next
  case (Suc n)
  then have i: "i < length es" by simp
  obtain it' where it': "SLNext s it = Some it'" "skip_at cmp s es (Suc i) it'" using skip_Next [OF Suc.prems(1) i] by blast
  have "walk s n it' = Some (drop (Suc i) es)" using Suc.prems(2) by (intro Suc.IH [OF it'(2)]) simp
  then show ?case using it'(1) skip_at_key [OF Suc.prems(1) i] skip_at_Valid [OF Suc.prems(1)] i by (simp add: Cons_nth_drop_Suc)
qed

lemma Insert_all_ok:
  assumes "skip_keys cmp s es" "sorted_wrt (\<lambda>a b. cmp a b \<noteq> 0) (es @ ks)"
  shows "\<exists>s' es'. Insert_all cmp ks s = Some s' \<and> skip_keys cmp s' es' \<and> mset es' = mset (es @ ks)"
  using assms
proof (induction ks arbitrary: s es)
  case (Cons k ks)
  let ?es = "takeWhile (\<lambda>e. cmp e k < 0) es @ k # dropWhile (\<lambda>e. cmp e k < 0) es"
  have m: "mset ?es = mset (es @ [k])"
    using arg_cong [OF takeWhile_dropWhile_id [of "\<lambda>e. cmp e k < 0" es], of mset] by (simp del: takeWhile_dropWhile_id)
  have ne: "\<forall>e \<in> set es. cmp e k \<noteq> 0" using Cons.prems(2) by (simp add: sorted_wrt_append)
  from skip_Insert [OF Cons.prems(1) ne] obtain s1 where s1: "Insert cmp k s = Some s1" "skip_keys cmp s1 ?es" by blast
  have st: "set ?es = insert k (set es)" using arg_cong [OF m, of set_mset] by simp
  have o: "sorted_wrt (\<lambda>a b. cmp a b \<noteq> 0) ?es"
    by (rule sorted_wrt_mono_rel [OF _ skip_keys_sorted [OF s1(2)]]) simp
  have r: "sorted_wrt (\<lambda>a b. cmp a b \<noteq> 0) ks" "\<forall>a \<in> insert k (set es). \<forall>b \<in> set ks. cmp a b \<noteq> 0"
    using Cons.prems(2) by (auto simp: sorted_wrt_append)
  have "sorted_wrt (\<lambda>a b. cmp a b \<noteq> 0) (?es @ ks)"
    by (subst sorted_wrt_append) (use o r st in simp)
  from Cons.IH [OF s1(2) this] obtain s' es' where e: "Insert_all cmp ks s1 = Some s'" "skip_keys cmp s' es'" "mset es' = mset (?es @ ks)"
    by blast
  have "mset es' = mset (es @ [k]) + mset ks" using e(3) m by (simp only: mset_append)
  then have "mset es' = mset (es @ k # ks)" by simp
  then show ?case using s1(1) e(1,2) by (intro exI conjI) simp_all
qed auto

lemma skip_list_refines:
  assumes "sorted_wrt (\<lambda>a b. cmp a b \<noteq> 0) ks"
  shows "\<exists>s es. Insert_all cmp ks new_SkipList = Some s \<and> mset es = mset ks \<and> sorted_wrt (\<lambda>a b. cmp a b < 0) es \<and>
    Option.bind (SLSeekToFirst s) (walk s (length ks)) = Some es \<and>
    (\<forall>key. Contains cmp s key = Some (\<exists>k \<in> set ks. cmp k key = 0))"
proof -
  obtain s es where s: "Insert_all cmp ks new_SkipList = Some s" "skip_keys cmp s es" "mset es = mset ks"
    using Insert_all_ok [OF new_SkipList_keys, of ks] assms by auto
  obtain it where it: "SLSeekToFirst s = Some it" "skip_at cmp s es 0 it" using skip_SeekToFirst [OF s(2)] by blast
  have l: "length es = length ks" "set es = set ks" using s(3) by (auto dest: mset_eq_length mset_eq_setD)
  have "walk s (length ks) it = Some es" using skip_walk [OF it(2), of "length ks"] l(1) by simp
  then show ?thesis using s it(1) skip_keys_sorted [OF s(2)] skip_Contains [OF s(2)] l(2) by auto
qed

end

text \<open>C39. The skip list refines a sorted list: inserting any keys that are pairwise different for the comparator
  succeeds, in any order and whatever heights the generator draws; walking the list from its first
  node then yields exactly these keys in increasing order, and \<open>Contains\<close> answers whether a key is
  among them.\<close>
theorem skip_list_sorted:
  assumes "key_order cmp" "sorted_wrt (\<lambda>a b. cmp a b \<noteq> 0) ks"
  shows "\<exists>s es. Insert_all cmp ks new_SkipList = Some s \<and> mset es = mset ks \<and> sorted_wrt (\<lambda>a b. cmp a b < 0) es \<and>
    Option.bind (SLSeekToFirst s) (walk s (length ks)) = Some es \<and>
    (\<forall>key. Contains cmp s key = Some (\<exists>k \<in> set ks. cmp k key = 0))"
  by (rule key_order.skip_list_refines [OF assms])

theorem skip_list_sorted_witness:
  "\<exists>s es. Insert_all (\<lambda>a b :: int. a - b) [7, 3, 5] new_SkipList = Some s \<and> sorted_wrt (\<lambda>a b. a - b < 0) es \<and> mset es = mset [7, 3, 5 :: int] \<and>
    Contains (\<lambda>a b. a - b) s 5 = Some True \<and> Contains (\<lambda>a b. a - b) s 4 = Some False"
proof -
  have o: "key_order (\<lambda>a b :: int. a - b)" by unfold_locales simp_all
  have "sorted_wrt (\<lambda>a b :: int. a - b \<noteq> 0) [7, 3, 5]" by simp
  from skip_list_sorted [OF o this] obtain s es where
    s: "Insert_all (\<lambda>a b. a - b) [7, 3, 5] new_SkipList = Some s" "mset es = mset [7, 3, 5 :: int]" "sorted_wrt (\<lambda>a b. a - b < 0) es"
      "\<And>key. Contains (\<lambda>a b. a - b) s key = Some (\<exists>k \<in> set [7, 3, 5]. k - key = 0)" by blast
  then show ?thesis using s(4) [of 5] s(4) [of 4] by auto
qed

end
