(* ===== verification/Arena.thy ===== *)
theory Arena
  imports "HOL-Library.Monad_Syntax"
begin

text \<open>
  The memory of a memtable (util/arena.h, util/arena.cc).  A pointer is a block and an offset in it; blocks from
  \<open>new\<close> are aligned, so the alignment of a pointer is that of its offset.  The null pointer of a
  new arena has no bytes left and is never handed out.
\<close>

definition arena_kBlockSize :: nat where
  "arena_kBlockSize = 4096"

record Arena =
  alloc_ptr :: "nat \<times> nat"
  alloc_bytes_remaining :: nat
  arena_blocks :: "nat list"
  memory_usage :: nat

definition new_Arena :: Arena where
  "new_Arena = \<lparr>alloc_ptr = (0, 0), alloc_bytes_remaining = 0, arena_blocks = [], memory_usage = 0\<rparr>"

definition MemoryUsage :: "Arena \<Rightarrow> nat" where
  "MemoryUsage A = memory_usage A"

definition AllocateNewBlock :: "nat \<Rightarrow> Arena \<Rightarrow> (nat \<times> nat) \<times> Arena" where
  "AllocateNewBlock n A = ((length (arena_blocks A), 0),
     A\<lparr>arena_blocks := arena_blocks A @ [n], memory_usage := MemoryUsage A + n + 8\<rparr>)"

definition AllocateFallback :: "nat \<Rightarrow> Arena \<Rightarrow> (nat \<times> nat) \<times> Arena" where
  "AllocateFallback n A =
     (if n > arena_kBlockSize div 4 then AllocateNewBlock n A
      else let (p, A) = AllocateNewBlock arena_kBlockSize A in
        (p, A\<lparr>alloc_ptr := (fst p, snd p + n), alloc_bytes_remaining := arena_kBlockSize - n\<rparr>))"

definition Allocate :: "nat \<Rightarrow> Arena \<Rightarrow> ((nat \<times> nat) \<times> Arena) option" where
  "Allocate n A =
     (if n = 0 then None
      else if n \<le> alloc_bytes_remaining A then
        Some (alloc_ptr A, A\<lparr>alloc_ptr := (fst (alloc_ptr A), snd (alloc_ptr A) + n),
          alloc_bytes_remaining := alloc_bytes_remaining A - n\<rparr>)
      else Some (AllocateFallback n A))"

definition arena_align :: nat where
  "arena_align = 8"

definition AllocateAligned :: "nat \<Rightarrow> Arena \<Rightarrow> ((nat \<times> nat) \<times> Arena) option" where
  "AllocateAligned n A =
     (let current_mod = snd (alloc_ptr A) mod arena_align;
          slop = (if current_mod = 0 then 0 else arena_align - current_mod);
          needed = n + slop;
          (p, A) = (if needed \<le> alloc_bytes_remaining A
            then ((fst (alloc_ptr A), snd (alloc_ptr A) + slop),
              A\<lparr>alloc_ptr := (fst (alloc_ptr A), snd (alloc_ptr A) + needed),
                alloc_bytes_remaining := alloc_bytes_remaining A - needed\<rparr>)
            else AllocateFallback n A)
      in if snd p mod arena_align = 0 then Some (p, A) else None)"

section \<open>Regions that were handed out do not overlap\<close>

text \<open>A request and its region; the arena after a list of requests.\<close>

datatype request = Plain nat | Aligned nat

fun request_size :: "request \<Rightarrow> nat" where
  "request_size (Plain n) = n"
| "request_size (Aligned n) = n"

fun serve :: "request \<Rightarrow> Arena \<Rightarrow> ((nat \<times> nat) \<times> Arena) option" where
  "serve (Plain n) A = Allocate n A"
| "serve (Aligned n) A = AllocateAligned n A"

text \<open>A region is its block, its offset and its size.\<close>

fun serve_all :: "request list \<Rightarrow> Arena \<Rightarrow> ((nat \<times> nat \<times> nat) list \<times> Arena) option" where
  "serve_all [] A = Some ([], A)"
| "serve_all (q # qs) A = do {
     ((b, off), A) \<leftarrow> serve q A;
     (rs, A) \<leftarrow> serve_all qs A;
     Some ((b, off, request_size q) # rs, A) }"

definition apart :: "nat \<times> nat \<times> nat \<Rightarrow> nat \<times> nat \<times> nat \<Rightarrow> bool" where
  "apart = (\<lambda>(b, o1, n) (b', o2, n'). b \<noteq> b' \<or> o1 + n \<le> o2 \<or> o2 + n' \<le> o1)"

definition inside :: "Arena \<Rightarrow> nat \<times> nat \<times> nat \<Rightarrow> bool" where
  "inside A = (\<lambda>(b, off, n). b < length (arena_blocks A) \<and> off + n \<le> arena_blocks A ! b)"

text \<open>What is still free lies in the current block.\<close>

definition arena_ok :: "Arena \<Rightarrow> bool" where
  "arena_ok A \<longleftrightarrow> alloc_bytes_remaining A = 0 \<or>
     fst (alloc_ptr A) < length (arena_blocks A) \<and> snd (alloc_ptr A) + alloc_bytes_remaining A = arena_blocks A ! fst (alloc_ptr A)"

text \<open>A region that the arena no longer touches.\<close>

definition taken :: "Arena \<Rightarrow> nat \<times> nat \<times> nat \<Rightarrow> bool" where
  "taken A r \<longleftrightarrow> inside A r \<and> (alloc_bytes_remaining A = 0 \<or> (case r of (b, off, n) \<Rightarrow> b \<noteq> fst (alloc_ptr A) \<or> off + n \<le> snd (alloc_ptr A)))"

lemmas arena_simps = arena_ok_def taken_def inside_def apart_def

text \<open>Advancing in the current block by \<open>k\<close> bytes, of which the last \<open>n\<close> are handed out.\<close>

lemma advance_ok:
  assumes A: "arena_ok A" and k: "k \<le> alloc_bytes_remaining A" "n \<le> k" "0 < k"
  defines "A' \<equiv> A\<lparr>alloc_ptr := (fst (alloc_ptr A), snd (alloc_ptr A) + k), alloc_bytes_remaining := alloc_bytes_remaining A - k\<rparr>"
  defines "r \<equiv> (fst (alloc_ptr A), snd (alloc_ptr A) + (k - n), n)"
  shows "arena_ok A'" "taken A' r" "taken A r' \<Longrightarrow> taken A' r' \<and> apart r' r"
proof -
  have b: "fst (alloc_ptr A) < length (arena_blocks A)" "snd (alloc_ptr A) + alloc_bytes_remaining A = arena_blocks A ! fst (alloc_ptr A)"
    using A k by (auto simp: arena_ok_def)
  show "arena_ok A'" using b k by (simp add: arena_ok_def A'_def)
  show "taken A' r" using b k by (simp add: arena_simps A'_def r_def)
  show "taken A r' \<Longrightarrow> taken A' r' \<and> apart r' r" using k by (cases r') (auto simp: arena_simps A'_def r_def)
qed

lemma fallback_ok:
  assumes A: "arena_ok A" and n: "0 < n"
  shows "\<exists>b A'. AllocateFallback n A = ((b, 0), A') \<and> arena_ok A' \<and> taken A' (b, 0, n) \<and>
    (\<forall>r. taken A r \<longrightarrow> taken A' r \<and> apart r (b, 0, n))"
proof (cases "n > arena_kBlockSize div 4")
  case True
  let ?A = "snd (AllocateNewBlock n A)"
  have "AllocateFallback n A = ((length (arena_blocks A), 0), ?A)" using True by (simp add: AllocateFallback_def AllocateNewBlock_def)
  moreover have "arena_ok ?A" using A by (auto simp: arena_ok_def AllocateNewBlock_def nth_append)
  moreover have "taken ?A (length (arena_blocks A), 0, n)" using A by (auto simp: arena_simps AllocateNewBlock_def)
  moreover have "taken ?A r \<and> apart r (length (arena_blocks A), 0, n)" if "taken A r" for r
    using that by (cases r) (auto simp: arena_simps AllocateNewBlock_def nth_append)
  ultimately show ?thesis by blast
next
  case False
  then have k: "n \<le> arena_kBlockSize" by (simp add: arena_kBlockSize_def)
  let ?A = "(snd (AllocateNewBlock arena_kBlockSize A))\<lparr>alloc_ptr := (length (arena_blocks A), n), alloc_bytes_remaining := arena_kBlockSize - n\<rparr>"
  have "AllocateFallback n A = ((length (arena_blocks A), 0), ?A)" using False by (simp add: AllocateFallback_def AllocateNewBlock_def)
  moreover have "arena_ok ?A" using k by (simp add: arena_ok_def AllocateNewBlock_def)
  moreover have "taken ?A (length (arena_blocks A), 0, n)" using k by (simp add: arena_simps AllocateNewBlock_def)
  moreover have "taken ?A r \<and> apart r (length (arena_blocks A), 0, n)" if "taken A r" for r
    using that by (cases r) (auto simp: arena_simps AllocateNewBlock_def nth_append)
  ultimately show ?thesis by blast
qed

lemma serve_ok:
  assumes A: "arena_ok A" and q: "0 < request_size q"
  shows "\<exists>b off A'. serve q A = Some ((b, off), A') \<and> arena_ok A' \<and> taken A' (b, off, request_size q) \<and>
    (\<forall>r. taken A r \<longrightarrow> taken A' r \<and> apart r (b, off, request_size q)) \<and> (\<forall>n. q = Aligned n \<longrightarrow> off mod arena_align = 0)"
proof (cases q)
  case (Plain n)
  show ?thesis
  proof (cases "n \<le> alloc_bytes_remaining A")
    case True
    obtain b off where p: "alloc_ptr A = (b, off)" by (cases "alloc_ptr A")
    with True advance_ok [OF A True le_refl] q Plain show ?thesis by (auto simp: Allocate_def)
  next
    case False
    obtain b A' where f: "AllocateFallback n A = ((b, 0), A')" "arena_ok A'" "taken A' (b, 0, n)"
        "\<forall>r. taken A r \<longrightarrow> taken A' r \<and> apart r (b, 0, n)"
      using fallback_ok [OF A, of n] q Plain by auto
    have "serve q A = Some ((b, 0), A')" using False f(1) q Plain by (simp add: Allocate_def)
    then show ?thesis using f Plain by auto
  qed
next
  case (Aligned n)
  let ?m = "snd (alloc_ptr A) mod arena_align"
  let ?s = "if ?m = 0 then 0 else arena_align - ?m"
  have al: "(snd (alloc_ptr A) + ?s) mod arena_align = 0" by (auto simp: arena_align_def) presburger
  show ?thesis
  proof (cases "n + ?s \<le> alloc_bytes_remaining A")
    case True
    have k: "n \<le> n + ?s" "0 < n + ?s" "n + ?s - n = ?s" using q Aligned by auto
    let ?A = "A\<lparr>alloc_ptr := (fst (alloc_ptr A), snd (alloc_ptr A) + (n + ?s)), alloc_bytes_remaining := alloc_bytes_remaining A - (n + ?s)\<rparr>"
    have "serve q A = Some ((fst (alloc_ptr A), snd (alloc_ptr A) + ?s), ?A)"
      using True al Aligned by (simp only: serve.simps AllocateAligned_def Let_def if_True prod.case fst_conv snd_conv simp_thms)
    then show ?thesis using advance_ok [OF A True k(1,2), unfolded k(3)] al Aligned by auto
  next
    case False
    obtain b A' where f: "AllocateFallback n A = ((b, 0), A')" "arena_ok A'" "taken A' (b, 0, n)"
        "\<forall>r. taken A r \<longrightarrow> taken A' r \<and> apart r (b, 0, n)"
      using fallback_ok [OF A, of n] q Aligned by auto
    have "serve q A = Some ((b, 0), A')"
      using False f(1) Aligned by (simp only: serve.simps AllocateAligned_def Let_def if_False prod.case fst_conv snd_conv mod_0 if_True simp_thms)
    then show ?thesis using f Aligned by auto
  qed
qed

lemma serve_all_ok:
  assumes "arena_ok A" "\<forall>q \<in> set qs. 0 < request_size q"
  shows "\<exists>rs A'. serve_all qs A = Some (rs, A') \<and> length rs = length qs \<and> (\<forall>r \<in> set rs. inside A' r) \<and>
    (\<forall>r. taken A r \<longrightarrow> taken A' r \<and> (\<forall>r' \<in> set rs. apart r r')) \<and> sorted_wrt apart rs \<and>
    (\<forall>r \<in> set rs. taken A' r) \<and> (\<forall>j < length qs. \<forall>n. qs ! j = Aligned n \<longrightarrow> fst (snd (rs ! j)) mod arena_align = 0)"
  using assms
proof (induction qs arbitrary: A)
  case (Cons q qs)
  obtain b off A1 where 1: "serve q A = Some ((b, off), A1)" "arena_ok A1" "taken A1 (b, off, request_size q)"
      "\<forall>r. taken A r \<longrightarrow> taken A1 r \<and> apart r (b, off, request_size q)" "\<forall>n. q = Aligned n \<longrightarrow> off mod arena_align = 0"
    using serve_ok [OF Cons.prems(1), of q] Cons.prems(2) by auto
  obtain rs A' where 2: "serve_all qs A1 = Some (rs, A')" "length rs = length qs" "\<forall>r \<in> set rs. inside A' r"
      "\<forall>r. taken A1 r \<longrightarrow> taken A' r \<and> (\<forall>r' \<in> set rs. apart r r')" "sorted_wrt apart rs" "\<forall>r \<in> set rs. taken A' r"
      "\<forall>j < length qs. \<forall>n. qs ! j = Aligned n \<longrightarrow> fst (snd (rs ! j)) mod arena_align = 0"
    using Cons.IH [OF 1(2)] Cons.prems(2) by auto
  let ?r = "(b, off, request_size q)"
  have r: "taken A' ?r" "\<forall>r' \<in> set rs. apart ?r r'" using 1(3) 2(4) by blast+
  have "\<forall>j < length (q # qs). \<forall>n. (q # qs) ! j = Aligned n \<longrightarrow> fst (snd ((?r # rs) ! j)) mod arena_align = 0"
    using 1(5) 2(7) by (auto simp: less_Suc_eq_0_disj)
  moreover have "serve_all (q # qs) A = Some (?r # rs, A')" using 1(1) 2(1) by simp
  moreover have "inside A' ?r" using r(1) by (simp add: taken_def)
  moreover have "\<forall>r. taken A r \<longrightarrow> taken A' r \<and> (\<forall>r' \<in> set (?r # rs). apart r r')" using 1(4) 2(4) by auto
  ultimately show ?case using 2(2,3,5,6) r by (intro exI [of _ "?r # rs"] exI [of _ A']) simp
qed simp

text \<open>C40. The arena never hands out the same memory twice: for any sequence of plain and aligned requests
  of at least one byte, every region lies inside a block of its own arena, no two regions overlap,
  and aligned requests get aligned regions.\<close>
theorem arena_regions_apart:
  assumes "\<forall>q \<in> set qs. 0 < request_size q"
  shows "\<exists>rs A. serve_all qs new_Arena = Some (rs, A) \<and> length rs = length qs \<and> (\<forall>r \<in> set rs. inside A r) \<and> sorted_wrt apart rs \<and>
    (\<forall>j < length qs. \<forall>n. qs ! j = Aligned n \<longrightarrow> fst (snd (rs ! j)) mod arena_align = 0)"
proof -
  have "arena_ok new_Arena" by (simp add: arena_ok_def new_Arena_def)
  from serve_all_ok [OF this assms] show ?thesis by blast
qed

theorem arena_regions_apart_witness:
  "\<exists>rs A. serve_all [Plain 5, Aligned 16, Plain 3000] new_Arena = Some (rs, A) \<and> length rs = 3 \<and> sorted_wrt apart rs"
proof -
  have "\<forall>q \<in> set [Plain 5, Aligned 16, Plain 3000]. 0 < request_size q" by simp
  from arena_regions_apart [OF this] show ?thesis by force
qed

end
