(* ===== verification/Memtable.thy ===== *)
theory Memtable
  imports Dbformat Skip_List_Keys Arena Iterator
begin

text \<open>
  The memtable (db/memtable.h, db/memtable.cc): entries in a skip list, ordered by their internal keys.  An entry
  is one string, the length-prefixed internal key followed by the length-prefixed value.  The
  table keeps its memory in an arena, whose use is recorded.
\<close>

section \<open>Entries\<close>

text \<open>The slice at the front of a string and what follows it.\<close>

definition slice_at :: "bytes \<Rightarrow> (bytes \<times> bytes) option" where
  "slice_at buf = (case GetVarint32Ptr buf of
     None \<Rightarrow> None
   | Some (len, p) \<Rightarrow> if unat len \<le> length p then Some (take (unat len) p, drop (unat len) p) else None)"

text \<open>The key of an entry; the skip list holds only well-formed entries.\<close>

definition entry_slice :: "bytes \<Rightarrow> bytes" where
  "entry_slice buf = (case slice_at buf of None \<Rightarrow> [] | Some (k, _) \<Rightarrow> k)"

definition KeyComparator :: "Comparator \<Rightarrow> bytes \<Rightarrow> bytes \<Rightarrow> int" where
  "KeyComparator U a b = Compare (InternalKeyComparator U) (entry_slice a) (entry_slice b)"

definition EncodeKey :: "bytes \<Rightarrow> bytes" where
  "EncodeKey target = PutVarint32 [] (word_of_nat (length target)) @ target"

record MemTable =
  mrefs :: int
  arena :: Arena
  mtable :: "bytes SkipList"

definition new_MemTable :: "MemTable option" where
  "new_MemTable = do {
     (_, A) \<leftarrow> AllocateAligned (16 + 8 * (kMaxHeight - 1)) new_Arena;
     Some \<lparr>mrefs = 0, arena = A, mtable = new_SkipList\<rparr> }"

definition MRef :: "MemTable \<Rightarrow> MemTable" where
  "MRef m = m\<lparr>mrefs := mrefs m + 1\<rparr>"

text \<open>The memtable is gone when its last reference is.\<close>

definition MUnref :: "MemTable \<Rightarrow> MemTable option option" where
  "MUnref m = (let m = m\<lparr>mrefs := mrefs m - 1\<rparr> in
     if mrefs m < 0 then None else if mrefs m \<le> 0 then Some None else Some (Some m))"

definition ApproximateMemoryUsage :: "MemTable \<Rightarrow> nat" where
  "ApproximateMemoryUsage m = MemoryUsage (arena m)"

definition entry_bytes :: "u64 \<Rightarrow> ValueType \<Rightarrow> bytes \<Rightarrow> bytes \<Rightarrow> bytes" where
  "entry_bytes s type key v =
     EncodeVarint32 (word_of_nat (length key + 8)) @ key @ EncodeFixed64 (push_bit 8 s OR ucast (type_byte type)) @
     EncodeVarint32 (word_of_nat (length v)) @ v"

text \<open>The node of the entry takes its memory from the arena as well.\<close>

definition MAdd :: "Comparator \<Rightarrow> u64 \<Rightarrow> ValueType \<Rightarrow> bytes \<Rightarrow> bytes \<Rightarrow> MemTable \<Rightarrow> MemTable option" where
  "MAdd U s type key v m = do {
     let buf = entry_bytes s type key v;
     (_, A) \<leftarrow> Allocate (length buf) (arena m);
     t \<leftarrow> Insert (KeyComparator U) buf (mtable m);
     (_, A) \<leftarrow> AllocateAligned (16 + 8 * (fst (RandomHeight (rnd (mtable m))) - 1)) A;
     Some (m\<lparr>arena := A, mtable := t\<rparr>) }"

text \<open>Some (Some v) for a value, Some None for a deletion, None for a key that is not there; the outer
  None for a failure.\<close>

definition MGet :: "Comparator \<Rightarrow> LookupKey \<Rightarrow> MemTable \<Rightarrow> bytes option option option" where
  "MGet U key m = do {
     it \<leftarrow> SLSeek (KeyComparator U) (mtable m) (memtable_key key);
     if SLValid it then do {
       entry \<leftarrow> SLkey (mtable m) it;
       (ikey, rest) \<leftarrow> slice_at entry;
       if length ikey < 8 then None
       else if Compare U (ExtractUserKey ikey) (lookup_user_key key) = 0 then
         (case type_of_byte (ucast (key_tag ikey)) of
            Some kTypeValue \<Rightarrow> map_option (\<lambda>(v, _). Some (Some v)) (slice_at rest)
          | Some kTypeDeletion \<Rightarrow> Some (Some None)
          | None \<Rightarrow> Some None)
       else Some None }
     else Some None }"

section \<open>The iterator\<close>

definition MemTableIterator :: "Comparator \<Rightarrow> MemTable \<Rightarrow> nat option Iterator" where
  "MemTableIterator U m =
     \<lparr>it_Valid = SLValid,
      it_SeekToFirst = (\<lambda>_. SLSeekToFirst (mtable m)),
      it_SeekToLast = (\<lambda>_. SLSeekToLast (mtable m)),
      it_Seek = (\<lambda>k _. SLSeek (KeyComparator U) (mtable m) (EncodeKey k)),
      it_Next = SLNext (mtable m),
      it_Prev = SLPrev (KeyComparator U) (mtable m),
      it_key = (\<lambda>it. map_option fst (Option.bind (SLkey (mtable m) it) slice_at)),
      it_value = (\<lambda>it. do { (_, rest) \<leftarrow> Option.bind (SLkey (mtable m) it) slice_at; map_option fst (slice_at rest) }),
      it_status = (\<lambda>_. OK)\<rparr>"

definition new_MemTableIterator :: "nat option" where
  "new_MemTableIterator = None"

section \<open>Entries and their order\<close>

lemma slice_at_encoded [simp]:
  assumes "length x < 2 ^ 32"
  shows "slice_at (EncodeVarint32 (word_of_nat (length x)) @ x @ rest) = Some (x, rest)"
  using assms by (simp add: slice_at_def unat_of_nat take_bit_nat_eq_self)

definition op_ok :: "u64 \<times> ValueType \<times> bytes \<times> bytes \<Rightarrow> bool" where
  "op_ok = (\<lambda>(s, t, k, v). s \<le> kMaxSequenceNumber \<and> length k + 8 < 2 ^ 32 \<and> length v < 2 ^ 32)"

definition op_entry :: "u64 \<times> ValueType \<times> bytes \<times> bytes \<Rightarrow> bytes" where
  "op_entry = (\<lambda>(s, t, k, v). entry_bytes s t k v)"

definition op_pair :: "u64 \<times> ValueType \<times> bytes \<times> bytes \<Rightarrow> bytes \<times> bytes" where
  "op_pair = (\<lambda>(s, t, k, v). (make_key k s t, v))"

lemma slice_at_entry:
  assumes "length k + 8 < 2 ^ 32"
  shows "slice_at (entry_bytes s t k v) = Some (make_key k s t, EncodeVarint32 (word_of_nat (length v)) @ v)"
proof -
  have "length (make_key k s t) = length k + 8" by (simp add: make_key_def)
  with slice_at_encoded [of "make_key k s t" "EncodeVarint32 (word_of_nat (length v)) @ v"] assms
  show ?thesis by (simp add: entry_bytes_def make_key_def)
qed

lemma slice_at_value: "length v < 2 ^ 32 \<Longrightarrow> slice_at (EncodeVarint32 (word_of_nat (length v)) @ v) = Some (v, [])"
  using slice_at_encoded [of v "[]"] by simp

lemma entry_slice_op: "op_ok op \<Longrightarrow> entry_slice (op_entry op) = fst (op_pair op)"
  by (cases op) (simp add: op_ok_def op_entry_def op_pair_def entry_slice_def slice_at_entry)

lemma tag_value:
  assumes "s \<le> kMaxSequenceNumber"
  shows "unat (push_bit 8 s OR ucast (type_byte t) :: u64) = 256 * unat s + unat (type_byte t)"
proof -
  let ?w = "push_bit 8 s OR ucast (type_byte t) :: u64"
  have "unat s = unat ?w div 256" using arg_cong [OF tag_parts(1) [OF assms, of t], of unat] unfolding unat_drop_bit_eq by (simp add: drop_bit_eq_div)
  moreover have "unat (type_byte t) = unat ?w mod 256"
    using arg_cong [OF tag_parts(2) [OF assms, of t], of unat] by (simp add: unsigned_ucast_eq unsigned_take_bit_eq take_bit_eq_mod del: unsigned_or_eq)
  ultimately show ?thesis by simp
qed

lemma type_byte_le: "unat (type_byte t) \<le> 1"
  by (cases t) simp_all

lemma tag_le:
  assumes "s \<le> kMaxSequenceNumber" "s' \<le> kMaxSequenceNumber"
  shows "push_bit 8 s OR ucast (type_byte t) \<le> (push_bit 8 s' OR ucast (type_byte kTypeValue) :: u64) \<longleftrightarrow> s \<le> s'"
  unfolding word_le_nat_alt tag_value [OF assms(1)] tag_value [OF assms(2)] using type_byte_le [of t] by auto

lemma tag_less:
  assumes "s \<le> kMaxSequenceNumber" "s' \<le> kMaxSequenceNumber" "s < s'"
  shows "push_bit 8 s OR ucast (type_byte t) < (push_bit 8 s' OR ucast (type_byte t') :: u64)"
  unfolding word_less_nat_alt tag_value [OF assms(1)] tag_value [OF assms(2)]
  using type_byte_le [of t] type_byte_le [of t'] assms(3) by (simp add: word_less_nat_alt)

text \<open>The first entry that is not to the left, when one is known to come before all others.\<close>

lemma first_right:
  assumes o: "sorted_wrt (\<lambda>a b. r a b < (0 :: int)) es" and e: "e \<in> set es" "\<not> P e"
    and l: "\<And>e'. e' \<in> set es \<Longrightarrow> \<not> P e' \<Longrightarrow> \<not> r e' e < 0"
  shows "\<exists>zs. dropWhile P es = e # zs"
proof -
  have "e \<notin> set (takeWhile P es)" using e(2) by (auto dest: set_takeWhileD)
  moreover have "set es = set (takeWhile P es) \<union> set (dropWhile P es)" by (metis set_append takeWhile_dropWhile_id)
  ultimately have d: "e \<in> set (dropWhile P es)" using e(1) by blast
  then obtain y zs where y: "dropWhile P es = y # zs" by (cases "dropWhile P es") auto
  have "sorted_wrt (\<lambda>a b. r a b < 0) (takeWhile P es @ dropWhile P es)" using o by simp
  then have s: "\<forall>z \<in> set zs. r y z < 0" unfolding sorted_wrt_append y by simp
  have "y \<in> set es" "\<not> P y" using y hd_dropWhile [of P es] set_dropWhileD [of y P es] by auto
  then have "\<not> r y e < 0" by (rule l)
  then show ?thesis using d s y by auto
qed

section \<open>What a memtable holds\<close>

text \<open>The operations that went into the table, in the order in which they came.\<close>

definition mem_holds :: "Comparator \<Rightarrow> MemTable \<Rightarrow> (u64 \<times> ValueType \<times> bytes \<times> bytes) list \<Rightarrow> bool" where
  "mem_holds U m ops \<longleftrightarrow> arena_ok (arena m) \<and> list_all op_ok ops \<and>
     (\<exists>es. skip_keys (KeyComparator U) (mtable m) es \<and> set es = op_entry ` set ops)"

text \<open>The newest operation on a key up to a sequence number.\<close>

definition newest :: "Comparator \<Rightarrow> bytes \<Rightarrow> u64 \<Rightarrow> (u64 \<times> ValueType \<times> bytes \<times> bytes) list \<Rightarrow> (u64 \<times> ValueType \<times> bytes \<times> bytes) option" where
  "newest U key s ops = List.find (\<lambda>(s', t, k, v). s' \<le> s \<and> Compare U k key = 0) (rev ops)"

definition lookup_result :: "(u64 \<times> ValueType \<times> bytes \<times> bytes) option \<Rightarrow> bytes option option" where
  "lookup_result r = (case r of None \<Rightarrow> None | Some (_, kTypeValue, _, v) \<Rightarrow> Some (Some v) | Some (_, kTypeDeletion, _, _) \<Rightarrow> Some None)"

lemma new_MemTable_ok: "\<exists>m. new_MemTable = Some m \<and> mem_holds U m []"
proof -
  have "arena_ok new_Arena" by (simp add: arena_ok_def new_Arena_def)
  from serve_ok [OF this, of "Aligned (16 + 8 * (kMaxHeight - 1))"] obtain p A where
    "AllocateAligned (16 + 8 * (kMaxHeight - 1)) new_Arena = Some (p, A)" "arena_ok A" by auto
  then show ?thesis using new_SkipList_keys [of "KeyComparator U"] by (auto simp: new_MemTable_def mem_holds_def)
qed

context user_comparator
begin

lemma memtable_order: "key_order (KeyComparator C)"
proof
  show "KeyComparator C a b < 0 \<longleftrightarrow> 0 < KeyComparator C b a" for a b
    unfolding KeyComparator_def by (rule comparator.cmp_antisym [OF short_comparator.axioms(1) [OF internal_comparator]])
  show "KeyComparator C a b \<le> 0 \<Longrightarrow> KeyComparator C b c \<le> 0 \<Longrightarrow> KeyComparator C a c \<le> 0" for a b c
    unfolding KeyComparator_def by (rule comparator.cmp_trans [OF short_comparator.axioms(1) [OF internal_comparator]])
qed

lemma op_compare:
  assumes "op_ok (s, t, k, v)" "op_ok (s', t', k', v')"
  shows "KeyComparator C (op_entry (s, t, k, v)) (op_entry (s', t', k', v')) < 0 \<longleftrightarrow>
      Compare C k k' < 0 \<or> Compare C k k' = 0 \<and> push_bit 8 s' OR ucast (type_byte t') < (push_bit 8 s OR ucast (type_byte t) :: u64)"
    "KeyComparator C (op_entry (s, t, k, v)) (op_entry (s', t', k', v')) = 0 \<longrightarrow> s = s'"
proof -
  have e: "KeyComparator C (op_entry (s, t, k, v)) (op_entry (s', t', k', v')) = internal_compare C (make_key k s t) (make_key k' s' t')"
    by (simp add: KeyComparator_def InternalKeyComparator_def entry_slice_op [OF assms(1)] entry_slice_op [OF assms(2)] op_pair_def)
  show "KeyComparator C (op_entry (s, t, k, v)) (op_entry (s', t', k', v')) < 0 \<longleftrightarrow>
      Compare C k k' < 0 \<or> Compare C k k' = 0 \<and> push_bit 8 s' OR ucast (type_byte t') < (push_bit 8 s OR ucast (type_byte t) :: u64)"
    unfolding e internal_less make_key_def extract_append ..
  have b: "s \<le> kMaxSequenceNumber" "s' \<le> kMaxSequenceNumber" using assms by (simp_all add: op_ok_def)
  show "KeyComparator C (op_entry (s, t, k, v)) (op_entry (s', t', k', v')) = 0 \<longrightarrow> s = s'"
    unfolding e internal_compare_def make_key_def extract_append Let_def using tag_less [OF b, of t t'] tag_less [OF b(2,1), of t' t]
    by (cases s s' rule: linorder_cases) (auto split: if_splits)
qed

lemma MAdd_ok:
  assumes m: "mem_holds C m ops" and op: "op_ok (s, t, k, v)" and fresh: "\<forall>op \<in> set ops. fst op \<noteq> s"
  shows "\<exists>m'. MAdd C s t k v m = Some m' \<and> mem_holds C m' (ops @ [(s, t, k, v)]) \<and> mrefs m' = mrefs m"
proof -
  obtain es where es: "skip_keys (KeyComparator C) (mtable m) es" "set es = op_entry ` set ops" using m by (auto simp: mem_holds_def)
  have ops: "\<forall>op \<in> set ops. op_ok op" using m by (simp add: mem_holds_def list_all_iff)
  let ?e = "entry_bytes s t k v"
  have e: "?e = op_entry (s, t, k, v)" by (simp add: op_entry_def)
  have "\<forall>e \<in> set es. KeyComparator C e ?e \<noteq> 0"
  proof
    fix e assume "e \<in> set es"
    then obtain s' t' k' v' where o: "e = op_entry (s', t', k', v')" "(s', t', k', v') \<in> set ops" by (auto simp: es(2))
    have "s' \<noteq> s" using fresh o(2) by auto
    then show "KeyComparator C e ?e \<noteq> 0" using op_compare(2) [OF _ op, of s' t' k' v'] ops o by (auto simp: op_entry_def)
  qed
  from key_order.skip_Insert [OF memtable_order es(1) this] obtain tb where
    tb: "Insert (KeyComparator C) ?e (mtable m) = Some tb" "skip_keys (KeyComparator C) tb
      (takeWhile (\<lambda>e. KeyComparator C e ?e < 0) es @ ?e # dropWhile (\<lambda>e. KeyComparator C e ?e < 0) es)" by blast
  have "arena_ok (arena m)" using m by (simp add: mem_holds_def)
  moreover have "0 < length ?e" by (simp add: entry_bytes_def)
  ultimately obtain p A where A: "Allocate (length ?e) (arena m) = Some (p, A)" "arena_ok A"
    using serve_ok [of "arena m" "Plain (length ?e)"] by auto
  obtain p' A' where A': "AllocateAligned (16 + 8 * (fst (RandomHeight (rnd (mtable m))) - 1)) A = Some (p', A')" "arena_ok A'"
    using serve_ok [OF A(2), of "Aligned (16 + 8 * (fst (RandomHeight (rnd (mtable m))) - 1))"] by auto
  have "set (takeWhile (\<lambda>e. KeyComparator C e ?e < 0) es @ ?e # dropWhile (\<lambda>e. KeyComparator C e ?e < 0) es) = insert ?e (set es)"
    by (simp del: takeWhile_dropWhile_id) (metis set_append takeWhile_dropWhile_id)
  then have "mem_holds C (m\<lparr>arena := A', mtable := tb\<rparr>) (ops @ [(s, t, k, v)])"
    using tb(2) A'(2) ops op unfolding mem_holds_def e by (auto simp: es(2) list_all_iff)
  moreover have "MAdd C s t k v m = Some (m\<lparr>arena := A', mtable := tb\<rparr>)" using A(1) A'(1) tb(1) by (simp add: MAdd_def)
  ultimately show ?thesis by simp
qed


lemma newest_first:
  assumes f: "newest C key s ops = Some op" and q: "sorted_wrt (\<lambda>a b. fst a < fst b) ops"
  shows "op \<in> set ops" "fst op \<le> s" "Compare C (fst (snd (snd op))) key = 0"
    "\<forall>op' \<in> set ops. fst op' \<le> s \<and> Compare C (fst (snd (snd op'))) key = 0 \<longrightarrow> fst op' \<le> fst op"
proof -
  let ?P = "\<lambda>(s', t, k, v). s' \<le> s \<and> Compare C k key = 0"
  obtain i where i: "i < length (rev ops)" "?P (rev ops ! i)" "op = rev ops ! i" "\<forall>j<i. \<not> ?P (rev ops ! j)"
    using f unfolding newest_def find_Some_iff by (elim exE conjE) (rule that)
  have o: "sorted_wrt (\<lambda>a b. fst b < fst a) (rev ops)" using q by (simp add: sorted_wrt_rev)
  show "op \<in> set ops" unfolding i(3) using nth_mem [OF i(1)] by simp
  show "fst op \<le> s" "Compare C (fst (snd (snd op))) key = 0" using i(2,3) by (auto split: prod.splits)
  show "\<forall>op' \<in> set ops. fst op' \<le> s \<and> Compare C (fst (snd (snd op'))) key = 0 \<longrightarrow> fst op' \<le> fst op"
  proof (intro ballI impI)
    fix op' assume "op' \<in> set ops" and p: "fst op' \<le> s \<and> Compare C (fst (snd (snd op'))) key = 0"
    then obtain j where j: "j < length (rev ops)" "op' = rev ops ! j" by (metis in_set_conv_nth set_rev)
    have "?P (rev ops ! j)" using p unfolding j(2) by (cases "rev ops ! j") simp
    then have "\<not> j < i" using i(4) [THEN spec, of j] by argo
    then have "j = i \<or> i < j" by auto
    then show "fst op' \<le> fst op"
    proof
      assume "i < j"
      then have "fst (rev ops ! j) < fst (rev ops ! i)" using o j(1) unfolding sorted_wrt_iff_nth_less by blast
      then show ?thesis using j(2) i(3) by simp
    qed (simp add: j(2) i(3))
  qed
qed

lemma newest_none: "newest C key s ops = None \<Longrightarrow> (s', t, k, v) \<in> set ops \<Longrightarrow> s' \<le> s \<Longrightarrow> Compare C k key \<noteq> 0"
  by (auto simp: newest_def find_None_iff)

text \<open>Seeking the lookup key finds the newest operation on the key, if there is one.\<close>

lemma seek_newest:
  assumes es: "skip_keys (KeyComparator C) tb es" "set es = op_entry ` set ops" and ok: "\<forall>op \<in> set ops. op_ok op"
    and q: "sorted_wrt (\<lambda>a b. fst a < fst b) ops" and l: "op_ok (s, kTypeValue, key, v0)"
  defines "tg \<equiv> op_entry (s, kTypeValue, key, v0)"
  shows "newest C key s ops = Some op \<Longrightarrow> \<exists>zs. dropWhile (\<lambda>e. KeyComparator C e tg < 0) es = op_entry op # zs"
    "newest C key s ops = None \<Longrightarrow> dropWhile (\<lambda>e. KeyComparator C e tg < 0) es = [] \<or>
      (\<exists>op zs. op \<in> set ops \<and> dropWhile (\<lambda>e. KeyComparator C e tg < 0) es = op_entry op # zs \<and> Compare C (fst (snd (snd op))) key \<noteq> 0)"
proof -
  have kq: "s \<le> kMaxSequenceNumber" using l by (simp add: op_ok_def)
  have nl: "\<not> KeyComparator C (op_entry (s', t', k', v')) tg < 0 \<longleftrightarrow>
      \<not> Compare C k' key < 0 \<and> (Compare C k' key = 0 \<longrightarrow> s' \<le> s)" if "(s', t', k', v') \<in> set ops" for s' t' k' v'
  proof -
    have o: "op_ok (s', t', k', v')" using ok that by blast
    then have "s' \<le> kMaxSequenceNumber" by (simp add: op_ok_def)
    from tag_le [OF this kq, of t'] show ?thesis unfolding tg_def op_compare(1) [OF o l] not_less [symmetric] by auto
  qed
  note srt = skip_keys_sorted [OF es(1)]
  show "\<exists>zs. dropWhile (\<lambda>e. KeyComparator C e tg < 0) es = op_entry op # zs" if f: "newest C key s ops = Some op"
  proof (rule first_right [OF srt])
    note n = newest_first [OF f q]
    obtain s1 t1 k1 v1 where op: "op = (s1, t1, k1, v1)" by (cases op)
    show "op_entry op \<in> set es" using n(1) es(2) by simp
    show "\<not> KeyComparator C (op_entry op) tg < 0" using n nl [of s1 t1 k1 v1] unfolding op by simp
    fix e' assume "e' \<in> set es" "\<not> KeyComparator C e' tg < 0"
    then obtain s' t' k' v' where e: "e' = op_entry (s', t', k', v')" "(s', t', k', v') \<in> set ops" by (auto simp: es(2))
    then have c: "\<not> Compare C k' key < 0" "Compare C k' key = 0 \<longrightarrow> s' \<le> s" using \<open>\<not> KeyComparator C e' tg < 0\<close> nl by blast+
    have 1: "op_ok (s', t', k', v')" "op_ok (s1, t1, k1, v1)" using ok e(2) n(1) op by auto
    have z: "Compare C k1 key = 0" "Compare C key k1 = 0" using n(3) op cmp_zero_sym by auto
    have a: "\<not> Compare C k' k1 < 0" using c(1) z cmp_less_trans [of k' k1 key] by auto
    have b: "s' \<le> s1" if "Compare C k' k1 = 0"
    proof -
      have "Compare C k' key \<le> 0" using that z cmp_trans [of k' k1 key] by simp
      then have "Compare C k' key = 0" using c(1) by simp
      then show ?thesis using c(2) n(4) e(2) op by force
    qed
    have "\<not> push_bit 8 s1 OR ucast (type_byte t1) < (push_bit 8 s' OR ucast (type_byte t') :: u64)" if "Compare C k' k1 = 0"
    proof (cases "s' = s1")
      case True
      have "distinct (map fst ops)" using q by (simp add: distinct_conv_nth sorted_wrt_iff_nth_less) (metis linorder_neqE less_irrefl)
      then have "(s', t', k', v') = (s1, t1, k1, v1)" using e(2) n(1) op True by (metis eq_key_imp_eq_value)
      then show ?thesis by simp
    next
      case False
      then have "s' < s1" using b [OF that] by simp
      moreover have "s' \<le> kMaxSequenceNumber" "s1 \<le> kMaxSequenceNumber" using 1 by (simp_all add: op_ok_def)
      ultimately show ?thesis using tag_less [of s' s1 t' t1] by (simp add: not_less less_imp_le)
    qed
    then show "\<not> KeyComparator C e' (op_entry op) < 0" unfolding e(1) op op_compare(1) [OF 1] using a by blast
  qed
  show "dropWhile (\<lambda>e. KeyComparator C e tg < 0) es = [] \<or>
      (\<exists>op zs. op \<in> set ops \<and> dropWhile (\<lambda>e. KeyComparator C e tg < 0) es = op_entry op # zs \<and> Compare C (fst (snd (snd op))) key \<noteq> 0)"
    if f: "newest C key s ops = None"
  proof (cases "dropWhile (\<lambda>e. KeyComparator C e tg < 0) es")
    case (Cons y zs)
    then have "y \<in> set es" "\<not> KeyComparator C y tg < 0"
      using hd_dropWhile [of "\<lambda>e. KeyComparator C e tg < 0" es] set_dropWhileD [of y "\<lambda>e. KeyComparator C e tg < 0" es] by auto
    then obtain s' t' k' v' where e: "y = op_entry (s', t', k', v')" "(s', t', k', v') \<in> set ops" by (auto simp: es(2))
    then have c: "Compare C k' key = 0 \<longrightarrow> s' \<le> s" using \<open>\<not> KeyComparator C y tg < 0\<close> nl by blast
    have "Compare C k' key \<noteq> 0" using c newest_none [OF f e(2)] by blast
    then show ?thesis using Cons e by force
  qed simp
qed

lemma MGet_ok:
  assumes m: "mem_holds C m ops" and q: "sorted_wrt (\<lambda>a b. fst a < fst b) ops"
    and s: "s \<le> kMaxSequenceNumber" and k: "length key + 8 < 2 ^ 32"
  shows "\<exists>lk. new_LookupKey key s = Some lk \<and> MGet C lk m = Some (lookup_result (newest C key s ops))"
proof -
  obtain es where es: "skip_keys (KeyComparator C) (mtable m) es" "set es = op_entry ` set ops" and ok: "\<forall>op \<in> set ops. op_ok op"
    using m by (auto simp: mem_holds_def list_all_iff)
  obtain lk where lk: "new_LookupKey key s = Some lk" "memtable_key lk = EncodeVarint32 (word_of_nat (length key + 8)) @ make_key key s kTypeValue"
      "lookup_user_key lk = key" using new_LookupKey_ok [OF s, of key] by blast
  have l: "op_ok (s, kTypeValue, key, [])" using s k by (simp add: op_ok_def)
  let ?tg = "op_entry (s, kTypeValue, key, [])"
  have "entry_slice (memtable_key lk) = entry_slice ?tg"
    using slice_at_encoded [of "make_key key s kTypeValue" "[]"] k entry_slice_op [OF l]
    by (simp add: lk(2) entry_slice_def op_pair_def make_key_def)
  then have same: "KeyComparator C e (memtable_key lk) = KeyComparator C e ?tg" for e by (simp add: KeyComparator_def)
  obtain it where it: "SLSeek (KeyComparator C) (mtable m) (memtable_key lk) = Some it"
      "skip_at (KeyComparator C) (mtable m) es (length (takeWhile (\<lambda>e. KeyComparator C e ?tg < 0) es)) it"
    using key_order.skip_Seek [OF memtable_order es(1), of "memtable_key lk"] unfolding same by blast
  let ?i = "length (takeWhile (\<lambda>e. KeyComparator C e ?tg < 0) es)"
  note V = key_order.skip_at_Valid [OF memtable_order it(2)] and K = key_order.skip_at_key [OF memtable_order it(2)]
  note N = seek_newest [OF es ok q l]
  have found: "MGet C lk m = Some (if Compare C k' key = 0 then lookup_result (Some (s', t', k', v')) else None)"
    if d: "dropWhile (\<lambda>e. KeyComparator C e ?tg < 0) es = op_entry (s', t', k', v') # zs" and o: "(s', t', k', v') \<in> set ops" for s' t' k' v' zs
  proof -
    have i: "?i < length es" "es ! ?i = op_entry (s', t', k', v')"
      using d length_drop [of ?i es] unfolding dropWhile_drop by (auto simp: nth_via_drop)
    have op: "op_ok (s', t', k', v')" using ok o by blast
    then have s': "s' \<le> kMaxSequenceNumber" "length k' + 8 < 2 ^ 32" "length v' < 2 ^ 32" by (simp_all add: op_ok_def)
    have t: "type_of_byte (ucast (key_tag (make_key k' s' t'))) = Some t'"
      unfolding make_key_def extract_append tag_parts [OF s'(1)] type_byte_inj ..
    have u: "ExtractUserKey (make_key k' s' t') = k'" "\<not> length (make_key k' s' t') < 8" by (simp_all add: make_key_def)
    show ?thesis using V K [OF i(1)] i t u s' it(1) lk(3)
      by (cases t') (simp_all add: MGet_def op_entry_def slice_at_entry slice_at_value lookup_result_def)
  qed
  have "MGet C lk m = Some (lookup_result (newest C key s ops))"
  proof (cases "newest C key s ops")
    case None
    from N(2) [OF None] show ?thesis
    proof
      assume "dropWhile (\<lambda>e. KeyComparator C e ?tg < 0) es = []"
      then have "\<not> ?i < length es" unfolding dropWhile_drop by simp
      then show ?thesis using V it(1) None by (simp add: MGet_def lookup_result_def)
    next
      assume "\<exists>op zs. op \<in> set ops \<and> dropWhile (\<lambda>e. KeyComparator C e ?tg < 0) es = op_entry op # zs \<and> Compare C (fst (snd (snd op))) key \<noteq> 0"
      then obtain s' t' k' v' zs where "dropWhile (\<lambda>e. KeyComparator C e ?tg < 0) es = op_entry (s', t', k', v') # zs"
          "(s', t', k', v') \<in> set ops" "Compare C k' key \<noteq> 0" by auto
      then show ?thesis using found None by (simp add: lookup_result_def)
    qed
  next
    case (Some op)
    obtain s' t' k' v' where op: "op = (s', t', k', v')" by (cases op)
    have "op \<in> set ops" "Compare C k' key = 0" using newest_first(1,3) [OF Some q] op by auto
    then show ?thesis using N(1) [OF Some] found op Some by auto
  qed
  then show ?thesis using lk(1) by blast
qed

end

end
