(* ===== verification/Memtable_Properties.thy ===== *)
theory Memtable_Properties
  imports Memtable
begin

text \<open>
  Memtables filled by a list of operations: what a lookup finds and what the iterator reads.
\<close>

fun MAdd_all :: "Comparator \<Rightarrow> (u64 \<times> ValueType \<times> bytes \<times> bytes) list \<Rightarrow> MemTable \<Rightarrow> MemTable option" where
  "MAdd_all U [] m = Some m"
| "MAdd_all U ((s, t, k, v) # ops) m = Option.bind (MAdd U s t k v m) (MAdd_all U ops)"

interpretation bytewise_keys: key_order "KeyComparator BytewiseComparator"
  by (rule bytewise_user.memtable_order)


context user_comparator
begin

lemma MAdd_all_ok:
  assumes "mem_holds C m old" "list_all op_ok ops" "sorted_wrt (\<lambda>a b. fst a < fst b) (old @ ops)"
  shows "\<exists>m'. MAdd_all C ops m = Some m' \<and> mem_holds C m' (old @ ops) \<and> mrefs m' = mrefs m"
  using assms
proof (induction ops arbitrary: m old)
  case (Cons op ops)
  obtain s t k v where op: "op = (s, t, k, v)" by (cases op)
  have "\<forall>x \<in> set old. fst x \<noteq> s" using Cons.prems(3) op by (auto simp: sorted_wrt_append)
  moreover have "op_ok (s, t, k, v)" using Cons.prems(2) op by simp
  ultimately obtain m1 where m1: "MAdd C s t k v m = Some m1" "mem_holds C m1 (old @ [op])" "mrefs m1 = mrefs m"
    using MAdd_ok [OF Cons.prems(1)] op by blast
  have "sorted_wrt (\<lambda>a b. fst a < fst b) ((old @ [op]) @ ops)" using Cons.prems(3) by simp
  from Cons.IH [OF m1(2) _ this] Cons.prems(2) m1 show ?case by (auto simp: op)
qed simp

lemma MemTableIterator_reads:
  assumes es: "skip_at (KeyComparator C) (mtable m) (map op_entry ents) i it" and ok: "\<forall>op \<in> set ents. op_ok op"
  shows "n = length ents - i \<Longrightarrow> collect (MemTableIterator C m) n it = Some (map op_pair (drop i ents))"
  using es
proof (induction n arbitrary: i it)
  case 0
  then show ?case
    using key_order.skip_at_Valid [OF memtable_order 0(2)] key_order.skip_at_le [OF memtable_order 0(2)]
    by (simp add: MemTableIterator_def)
next
  case (Suc n)
  then have i: "i < length ents" by simp
  then have i': "i < length (map op_entry ents)" by simp
  obtain it' where it': "SLNext (mtable m) it = Some it'" "skip_at (KeyComparator C) (mtable m) (map op_entry ents) (Suc i) it'"
    using key_order.skip_Next [OF memtable_order Suc.prems(2) i'] by blast
  obtain s t k v where op: "ents ! i = (s, t, k, v)" by (cases "ents ! i")
  then have o: "op_ok (s, t, k, v)" using ok i by (metis nth_mem)
  have "SLkey (mtable m) it = Some (entry_bytes s t k v)"
    using key_order.skip_at_key [OF memtable_order Suc.prems(2) i'] i op by (simp add: op_entry_def)
  moreover have "SLValid it" using key_order.skip_at_Valid [OF memtable_order Suc.prems(2)] i by simp
  moreover have "collect (MemTableIterator C m) n it' = Some (map op_pair (drop (Suc i) ents))"
    using Suc.prems(1) by (intro Suc.IH [OF _ it'(2)]) simp
  ultimately have "collect (MemTableIterator C m) (Suc n) it = Some (op_pair (ents ! i) # map op_pair (drop (Suc i) ents))"
    using it'(1) o by (simp add: MemTableIterator_def op_ok_def slice_at_entry slice_at_value op op_pair_def)
  then show ?case using i by (simp add: Cons_nth_drop_Suc [symmetric])
qed

lemma mem_entries:
  assumes m: "mem_holds C m ops" and q: "sorted_wrt (\<lambda>a b. fst a < fst b) ops"
  shows "\<exists>ents. skip_keys (KeyComparator C) (mtable m) (map op_entry ents) \<and> set ents = set ops \<and> length ents = length ops \<and>
    increasing (InternalKeyComparator C) (map op_pair ents)"
proof -
  obtain es where es: "skip_keys (KeyComparator C) (mtable m) es" "set es = op_entry ` set ops" and ok: "\<forall>op \<in> set ops. op_ok op"
    using m by (auto simp: mem_holds_def list_all_iff)
  have "\<forall>e \<in> set es. \<exists>op. op \<in> set ops \<and> e = op_entry op" using es(2) by auto
  then obtain f where f: "\<forall>e \<in> set es. f e \<in> set ops \<and> e = op_entry (f e)" by metis
  define ents where "ents = map f es"
  have e: "es = map op_entry ents" unfolding ents_def using f by (simp add: map_idI)
  have sub: "set ents \<subseteq> set ops" unfolding ents_def using f by auto
  have srt: "sorted_wrt (\<lambda>a b. KeyComparator C a b < 0) es" by (rule skip_keys_sorted [OF es(1)])
  have inj: "inj_on op_entry (set ops)"
  proof (rule inj_onI)
    fix x y assume xy: "x \<in> set ops" "y \<in> set ops" "op_entry x = op_entry y"
    obtain s t k v s' t' k' v' where c: "x = (s, t, k, v)" "y = (s', t', k', v')" by (cases x, cases y)
    have o: "op_ok (s, t, k, v)" "op_ok (s', t', k', v')" using xy ok c by blast+
    have "KeyComparator C (op_entry x) (op_entry x) = 0"
      by (simp add: KeyComparator_def InternalKeyComparator_def internal_compare_def cmp_refl Let_def)
    then have "s = s'" using op_compare(2) [OF o] xy(3) c by simp
    moreover have "distinct (map fst ops)"
      using q by (simp add: distinct_conv_nth sorted_wrt_iff_nth_less) (metis linorder_neqE less_irrefl)
    ultimately show "x = y" using xy c by (metis eq_key_imp_eq_value)
  qed
  have st: "set ents = set ops"
  proof
    show "set ops \<subseteq> set ents"
    proof
      fix op assume o: "op \<in> set ops"
      then have "op_entry op \<in> op_entry ` set ents" using es(2) e by (metis image_eqI set_map)
      then obtain op' where "op' \<in> set ents" "op_entry op = op_entry op'" by blast
      then show "op \<in> set ents" using inj_onD [OF inj, of op op'] o sub by auto
    qed
  qed (rule sub)
  have "distinct ents"
  proof -
    have "distinct es" using srt unfolding distinct_conv_nth sorted_wrt_iff_nth_less
      by (metis KeyComparator_def InternalKeyComparator_def internal_comparator comparator.cmp_refl short_comparator.axioms(1) linorder_neqE_nat less_irrefl)
    then show ?thesis unfolding e by (simp add: distinct_map)
  qed
  moreover have "distinct ops" using q by (simp add: distinct_conv_nth sorted_wrt_iff_nth_less) (metis linorder_neqE_nat less_irrefl)
  ultimately have len: "length ents = length ops" using st by (metis distinct_card)
  have "increasing (InternalKeyComparator C) (map op_pair ents)"
    unfolding increasing_def sorted_wrt_map
  proof (rule sorted_wrt_mono_rel [OF _ srt [unfolded e sorted_wrt_map]])
    fix x y assume "x \<in> set ents" "y \<in> set ents" "KeyComparator C (op_entry x) (op_entry y) < 0"
    then show "Compare (InternalKeyComparator C) (fst (op_pair x)) (fst (op_pair y)) < 0"
      using ok st by (simp add: KeyComparator_def entry_slice_op)
  qed
  then show ?thesis using es(1) st len unfolding e by blast
qed

lemma MemTable_collect:
  assumes m: "mem_holds C m ops" and q: "sorted_wrt (\<lambda>a b. fst a < fst b) ops"
  shows "\<exists>es. Option.bind (it_SeekToFirst (MemTableIterator C m) new_MemTableIterator) (collect (MemTableIterator C m) (length ops)) = Some es \<and>
    increasing (InternalKeyComparator C) es \<and> set es = op_pair ` set ops"
proof -
  obtain ents where e: "skip_keys (KeyComparator C) (mtable m) (map op_entry ents)" "set ents = set ops" "length ents = length ops"
    "increasing (InternalKeyComparator C) (map op_pair ents)" using mem_entries [OF m q] by blast
  have ok: "\<forall>op \<in> set ents. op_ok op" using m e(2) by (simp add: mem_holds_def list_all_iff)
  obtain it where it: "SLSeekToFirst (mtable m) = Some it" "skip_at (KeyComparator C) (mtable m) (map op_entry ents) 0 it"
    using key_order.skip_SeekToFirst [OF memtable_order e(1)] by blast
  from MemTableIterator_reads [OF it(2) ok, of "length ops"] e(3)
  have "collect (MemTableIterator C m) (length ops) it = Some (map op_pair ents)" by simp
  then show ?thesis using it(1) e(2,4) by (auto simp: MemTableIterator_def)
qed

end

text \<open>C37. A lookup in a memtable answers with the newest operation the snapshot can see: after operations with
  increasing sequence numbers went in, looking a key up at sequence number \<open>s\<close> gives the value of
  the last operation on that key among those up to \<open>s\<close>, reports a deletion when that one deleted
  the key, and finds nothing when there is none.\<close>
theorem memtable_get:
  assumes "user_comparator U" "list_all op_ok ops" "sorted_wrt (\<lambda>a b. fst a < fst b) ops"
    and "s \<le> kMaxSequenceNumber" "length key + 8 < 2 ^ 32"
  shows "\<exists>m lk. Option.bind new_MemTable (MAdd_all U ops) = Some m \<and> new_LookupKey key s = Some lk \<and>
    MGet U lk m = Some (lookup_result (newest U key s ops))"
proof -
  obtain m0 where m0: "new_MemTable = Some m0" "mem_holds U m0 []" using new_MemTable_ok by blast
  obtain m where m: "MAdd_all U ops m0 = Some m" "mem_holds U m ops"
    using user_comparator.MAdd_all_ok [OF assms(1) m0(2) assms(2)] assms(3) by auto
  from user_comparator.MGet_ok [OF assms(1) m(2) assms(3-5)] show ?thesis unfolding m0(1) Option.bind.simps m(1) by blast
qed

text \<open>Two writes to a key and a deletion, seen from two snapshots.\<close>

theorem memtable_get_witness:
  "\<exists>m lk lk'. Option.bind new_MemTable (MAdd_all BytewiseComparator
      [(1, kTypeValue, [7], [1]), (2, kTypeValue, [7], [2]), (3, kTypeDeletion, [7], [])]) = Some m \<and>
    new_LookupKey [7] 2 = Some lk \<and> MGet BytewiseComparator lk m = Some (Some (Some [2])) \<and>
    new_LookupKey [7] 5 = Some lk' \<and> MGet BytewiseComparator lk' m = Some (Some None)"
proof -
  let ?ops = "[(1, kTypeValue, [7], [1]), (2, kTypeValue, [7], [2]), (3, kTypeDeletion, [7], [])] :: (u64 \<times> ValueType \<times> bytes \<times> bytes) list"
  have u: "user_comparator BytewiseComparator" by (rule bytewise_user.user_comparator_axioms)
  have o: "list_all op_ok ?ops" by (simp add: op_ok_def kMaxSequenceNumber_def)
  have q: "sorted_wrt (\<lambda>a b. fst a < fst b) ?ops" by simp
  have s: "(2 :: u64) \<le> kMaxSequenceNumber" "(5 :: u64) \<le> kMaxSequenceNumber" by (simp_all add: kMaxSequenceNumber_def)
  have l: "length [7 :: byte] + 8 < 2 ^ 32" by simp
  have r: "lookup_result (newest BytewiseComparator [7] 2 ?ops) = Some (Some [2])" "lookup_result (newest BytewiseComparator [7] 5 ?ops) = Some None"
    by (simp_all add: newest_def lookup_result_def BytewiseComparator_def)
  from memtable_get [OF u o q s(1) l] memtable_get [OF u o q s(2) l] show ?thesis unfolding r by force
qed

text \<open>C38. The iterator of a memtable runs over all operations in the order of internal keys: reading it from the
  first entry gives each operation that went in once, as its internal key and its value, with keys
  strictly increasing for the comparator of internal keys (user keys upwards, newer before older).\<close>
theorem memtable_iterates:
  assumes "user_comparator U" "list_all op_ok ops" "sorted_wrt (\<lambda>a b. fst a < fst b) ops"
  shows "\<exists>m es. Option.bind new_MemTable (MAdd_all U ops) = Some m \<and>
    Option.bind (it_SeekToFirst (MemTableIterator U m) new_MemTableIterator) (collect (MemTableIterator U m) (length ops)) = Some es \<and>
    increasing (InternalKeyComparator U) es \<and> set es = op_pair ` set ops"
proof -
  obtain m0 where m0: "new_MemTable = Some m0" "mem_holds U m0 []" using new_MemTable_ok by blast
  obtain m where m: "MAdd_all U ops m0 = Some m" "mem_holds U m ops"
    using user_comparator.MAdd_all_ok [OF assms(1) m0(2) assms(2)] assms(3) by auto
  from user_comparator.MemTable_collect [OF assms(1) m(2) assms(3)] show ?thesis unfolding m0(1) Option.bind.simps m(1) by blast
qed

text \<open>A put and a deletion of another key.\<close>

theorem memtable_iterates_witness:
  "\<exists>m es. Option.bind new_MemTable (MAdd_all BytewiseComparator [(1, kTypeValue, [9], [1]), (2, kTypeDeletion, [7], [])]) = Some m \<and>
    Option.bind (it_SeekToFirst (MemTableIterator BytewiseComparator m) new_MemTableIterator) (collect (MemTableIterator BytewiseComparator m) 2) = Some es \<and>
    increasing (InternalKeyComparator BytewiseComparator) es \<and> set es = {(make_key [9] 1 kTypeValue, [1]), (make_key [7] 2 kTypeDeletion, [])}"
proof -
  let ?ops = "[(1, kTypeValue, [9], [1]), (2, kTypeDeletion, [7], [])] :: (u64 \<times> ValueType \<times> bytes \<times> bytes) list"
  have u: "user_comparator BytewiseComparator" by (rule bytewise_user.user_comparator_axioms)
  have o: "list_all op_ok ?ops" by (simp add: op_ok_def kMaxSequenceNumber_def)
  have q: "sorted_wrt (\<lambda>a b. fst a < fst b) ?ops" by simp
  have r: "op_pair ` set ?ops = {(make_key [9] 1 kTypeValue, [1]), (make_key [7] 2 kTypeDeletion, [])}" "length ?ops = 2" by (simp_all add: op_pair_def)
  from memtable_iterates [OF u o q, unfolded r] show ?thesis .
qed

end
