(* ===== verification/Random_Numbers.thy ===== *)
theory Random_Numbers
  imports Skip_List
begin

text \<open>The random numbers of the skip list (util/random.h): the fast reduction is the remainder.\<close>

lemma random_step:
  fixes p :: nat
  assumes "p < 2 ^ 31 * 16807" "\<not> random_M dvd p"
  shows "(let q = p div 2 ^ 31 + p mod 2 ^ 31 in if q > random_M then q - random_M else q) = p mod random_M"
proof -
  let ?q = "p div 2 ^ 31 + p mod 2 ^ 31"
  have e: "p = ?q + random_M * (p div 2 ^ 31)"
  proof -
    have "p = p div 2 ^ 31 * 2 ^ 31 + p mod 2 ^ 31" by simp
    also have "\<dots> = ?q + random_M * (p div 2 ^ 31)" by (simp add: random_M_def)
    finally show ?thesis .
  qed
  have m: "p mod random_M = ?q mod random_M" using arg_cong [OF e, of "\<lambda>x. x mod random_M"] by (simp only: mod_mult_self2)
  have "p div 2 ^ 31 < 16807" using assms(1) by (simp add: less_mult_imp_div_less mult.commute)
  moreover have "p mod 2 ^ 31 < 2 ^ 31" by simp
  ultimately have b: "?q < 2 * random_M" by (simp add: random_M_def)
  have "?q \<noteq> random_M" using m assms(2) by (auto simp: mod_eq_0_iff_dvd)
  then have "(if ?q > random_M then ?q - random_M else ?q) = ?q mod random_M" 
    using b \<open>?q \<noteq> random_M\<close> le_mod_geq [of random_M ?q] by (cases "?q > random_M") simp_all
  then show ?thesis unfolding Let_def m .
qed

definition seed_ok :: "u32 \<Rightarrow> bool" where
  "seed_ok s \<longleftrightarrow> 1 \<le> unat s \<and> unat s < random_M"

lemma Random_Next_value:
  assumes "1 \<le> unat s" "unat s < random_M"
  shows "unat (Random_Next s) = unat s * 16807 mod random_M" "seed_ok (Random_Next s)"
proof -
  let ?p = "unat s * 16807"
  have p: "?p < 2 ^ 31 * 16807" using assms(2) by (simp add: random_M_def)
  have "coprime random_M 16807" by (simp add: random_M_def coprime_iff_gcd_eq_1 gcd_non_0_nat)
  then have nd: "\<not> random_M dvd ?p" using assms by (auto simp: coprime_dvd_mult_left_iff dest: dvd_imp_le)
  have u: "unat ((ucast s :: u64) * 16807) = ?p"
    using p by (simp add: unat_word_ariths unsigned_ucast_eq unsigned_take_bit_eq take_bit_nat_eq_self unat_ucast_32)
  let ?w = "drop_bit 31 ((ucast s :: u64) * 16807) + ((ucast s :: u64) * 16807 AND word_of_nat random_M)"
  have q: "?p div 2 ^ 31 + ?p mod 2 ^ 31 < 2 ^ 32"
  proof -
    have "?p div 2 ^ 31 < 16807" using p by (simp add: less_mult_imp_div_less mult.commute)
    moreover have "?p mod 2 ^ 31 < 2 ^ 31" by simp
    ultimately show ?thesis by simp
  qed
  have a: "x AND word_of_nat random_M = take_bit 31 x" for x :: u64
    by (simp add: random_M_def take_bit_eq_mask mask_eq_exp_minus_1)
  have w: "unat ?w = ?p div 2 ^ 31 + ?p mod 2 ^ 31"
  proof -
    have "unat ?w = (unat (drop_bit 31 ((ucast s :: u64) * 16807)) + unat (take_bit 31 ((ucast s :: u64) * 16807))) mod 2 ^ 64"
      unfolding a by (simp only: unat_word_ariths(1) len_bit0 len_num1) simp
    also have "\<dots> = (?p div 2 ^ 31 + ?p mod 2 ^ 31) mod 2 ^ 64"
      unfolding unat_drop_bit_eq unsigned_take_bit_eq u by (simp only: drop_bit_eq_div take_bit_eq_mod)
    finally show ?thesis using q by simp
  qed
  have c: "unat (ucast ?w :: u32) = ?p div 2 ^ 31 + ?p mod 2 ^ 31"
    unfolding unsigned_ucast_eq unsigned_take_bit_eq w using q by (simp add: take_bit_nat_eq_self)
  have g: "(ucast ?w :: u32) > word_of_nat random_M \<longleftrightarrow> ?p div 2 ^ 31 + ?p mod 2 ^ 31 > random_M"
    unfolding word_less_nat_alt c by (simp add: random_M_def)
  have "unat (Random_Next s) = (let q = ?p div 2 ^ 31 + ?p mod 2 ^ 31 in if q > random_M then q - random_M else q)"
  proof (cases "?p div 2 ^ 31 + ?p mod 2 ^ 31 > random_M")
    case True
    then have "unat (ucast ?w - word_of_nat random_M :: u32) = unat (ucast ?w :: u32) - random_M"
      using g by (subst unat_sub) (simp_all add: random_M_def)
    then show ?thesis using True g c by (simp add: Random_Next_def Let_def)
  next
    case False
    then show ?thesis using g c by (simp add: Random_Next_def Let_def)
  qed
  then show r: "unat (Random_Next s) = ?p mod random_M" unfolding random_step [OF p nd] .
  have "0 < ?p mod random_M" "?p mod random_M < random_M" using nd by (simp_all add: random_M_def dvd_eq_mod_eq_0)
  then show "seed_ok (Random_Next s)" by (simp add: seed_ok_def r Suc_le_eq)
qed

lemma new_Random_ok: "seed_ok (new_Random r)"
proof -
  let ?s = "r AND 0x7fffffff"
  have t: "?s = take_bit 31 r" by (simp add: take_bit_eq_mask mask_eq_exp_minus_1)
  have "unat ?s < 2 ^ 31" unfolding t unsigned_take_bit_eq by (rule take_bit_nat_less_exp)
  moreover have "unat ?s \<noteq> random_M" if "?s \<noteq> 2147483647" using that by (simp add: word_unat_eq_iff random_M_def)
  ultimately show ?thesis
    by (auto simp: seed_ok_def new_Random_def Let_def random_M_def unat_gt_0 Suc_le_eq)
qed

text \<open>C35. The generator is the one its comment names: from a seed in the range [1, 2^31 - 2], \<open>Next\<close> gives the seed times
  16807 modulo 2^31 - 1, computed without a division, and the result is in the range again, so that
  the bad seeds 0 and 2^31 - 1 are never reached; the constructor starts in the range.\<close>
theorem Random_Next_equivalence:
  assumes "1 \<le> unat s" "unat s < random_M"
  shows "unat (Random_Next s) = unat s * 16807 mod random_M \<and> 1 \<le> unat (Random_Next s) \<and> unat (Random_Next s) < random_M \<and>
    1 \<le> unat (new_Random r) \<and> unat (new_Random r) < random_M"
  using Random_Next_value [OF assms] new_Random_ok [of r] by (simp add: seed_ok_def)

text \<open>The first number of the skip list.\<close>

theorem Random_Next_equivalence_witness:
  "unat (Random_Next 12345) = 12345 * 16807 mod random_M \<and> 1 \<le> unat (new_Random 0xdeadbeef)"
  using Random_Next_equivalence [where s = 12345 and r = "0xdeadbeef"] by (simp add: random_M_def)

end
