(* ===== verification/Version_Edit.thy ===== *)
theory Version_Edit
  imports Dbformat "HOL-Library.Product_Lexorder"
begin

text \<open>
  Changes to the set of tables (db/version_edit.h, db/version_edit.cc) and their encoding in the
  manifest.  An internal key is the string it wraps; encoding an empty one fails an assertion and
  is None.  The set of deleted files is the sorted list of its elements.  The reference count of a file
  and its allowed seeks are not encoded: a new file has them at their initial values.
\<close>

definition kNumLevels :: nat where
  "kNumLevels = 7"

record FileMetaData =
  fm_refs :: int
  allowed_seeks :: int
  fm_number :: u64
  fm_size :: u64
  smallest :: bytes
  largest :: bytes

definition new_FileMetaData :: FileMetaData where
  "new_FileMetaData = \<lparr>fm_refs = 0, allowed_seeks = 2 ^ 30, fm_number = 0, fm_size = 0, smallest = [], largest = []\<rparr>"

record VersionEdit =
  ve_comparator :: bytes
  log_number :: u64
  prev_log_number :: u64
  next_file_number :: u64
  ve_last_sequence :: u64
  has_comparator :: bool
  has_log_number :: bool
  has_prev_log_number :: bool
  has_next_file_number :: bool
  has_last_sequence :: bool
  compact_pointers :: "(nat \<times> bytes) list"
  deleted_files :: "(nat \<times> u64) list"
  new_files :: "(nat \<times> FileMetaData) list"

text \<open>The pointers of compactions are not cleared.\<close>

definition VE_Clear :: "VersionEdit \<Rightarrow> VersionEdit" where
  "VE_Clear e = e\<lparr>ve_comparator := [], log_number := 0, prev_log_number := 0, next_file_number := 0, ve_last_sequence := 0,
     has_comparator := False, has_log_number := False, has_prev_log_number := False, has_next_file_number := False,
     has_last_sequence := False, deleted_files := [], new_files := []\<rparr>"

definition new_VersionEdit :: VersionEdit where
  "new_VersionEdit = \<lparr>ve_comparator = [], log_number = 0, prev_log_number = 0, next_file_number = 0, ve_last_sequence = 0,
     has_comparator = False, has_log_number = False, has_prev_log_number = False, has_next_file_number = False,
     has_last_sequence = False, compact_pointers = [], deleted_files = [], new_files = []\<rparr>"

definition SetComparatorName :: "bytes \<Rightarrow> VersionEdit \<Rightarrow> VersionEdit" where
  "SetComparatorName n e = e\<lparr>has_comparator := True, ve_comparator := n\<rparr>"

definition SetLogNumber :: "u64 \<Rightarrow> VersionEdit \<Rightarrow> VersionEdit" where
  "SetLogNumber n e = e\<lparr>has_log_number := True, log_number := n\<rparr>"

definition SetPrevLogNumber :: "u64 \<Rightarrow> VersionEdit \<Rightarrow> VersionEdit" where
  "SetPrevLogNumber n e = e\<lparr>has_prev_log_number := True, prev_log_number := n\<rparr>"

definition SetNextFile :: "u64 \<Rightarrow> VersionEdit \<Rightarrow> VersionEdit" where
  "SetNextFile n e = e\<lparr>has_next_file_number := True, next_file_number := n\<rparr>"

definition SetLastSequence :: "u64 \<Rightarrow> VersionEdit \<Rightarrow> VersionEdit" where
  "SetLastSequence n e = e\<lparr>has_last_sequence := True, ve_last_sequence := n\<rparr>"

definition SetCompactPointer :: "nat \<Rightarrow> bytes \<Rightarrow> VersionEdit \<Rightarrow> VersionEdit" where
  "SetCompactPointer level k e = e\<lparr>compact_pointers := compact_pointers e @ [(level, k)]\<rparr>"

definition VE_AddFile :: "nat \<Rightarrow> u64 \<Rightarrow> u64 \<Rightarrow> bytes \<Rightarrow> bytes \<Rightarrow> VersionEdit \<Rightarrow> VersionEdit" where
  "VE_AddFile level n sz a b e =
     e\<lparr>new_files := new_files e @ [(level, new_FileMetaData\<lparr>fm_number := n, fm_size := sz, smallest := a, largest := b\<rparr>)]\<rparr>"

definition VE_DeleteFile :: "nat \<Rightarrow> u64 \<Rightarrow> VersionEdit \<Rightarrow> VersionEdit" where
  "VE_DeleteFile level n e = e\<lparr>deleted_files := insort_insert (level, n) (deleted_files e)\<rparr>"

section \<open>Encoding\<close>

definition Key_Encode :: "bytes \<Rightarrow> bytes option" where
  "Key_Encode k = (if k = [] then None else Some k)"

definition put_tag :: "nat \<Rightarrow> bytes \<Rightarrow> bytes" where
  "put_tag t dst = PutVarint32 dst (word_of_nat t)"

definition put_number :: "bool \<Rightarrow> nat \<Rightarrow> u64 \<Rightarrow> bytes \<Rightarrow> bytes" where
  "put_number has t n dst = (if has then PutVarint64 (put_tag t dst) n else dst)"

fun put_pointers :: "(nat \<times> bytes) list \<Rightarrow> bytes \<Rightarrow> bytes option" where
  "put_pointers [] dst = Some dst"
| "put_pointers ((level, k) # ps) dst = do {
     k \<leftarrow> Key_Encode k;
     put_pointers ps (PutLengthPrefixedSlice (PutVarint32 (put_tag 5 dst) (word_of_nat level)) k) }"

fun put_deleted :: "(nat \<times> u64) list \<Rightarrow> bytes \<Rightarrow> bytes" where
  "put_deleted [] dst = dst"
| "put_deleted ((level, n) # fs) dst = put_deleted fs (PutVarint64 (PutVarint32 (put_tag 6 dst) (word_of_nat level)) n)"

fun put_files :: "(nat \<times> FileMetaData) list \<Rightarrow> bytes \<Rightarrow> bytes option" where
  "put_files [] dst = Some dst"
| "put_files ((level, f) # fs) dst = do {
     a \<leftarrow> Key_Encode (smallest f);
     b \<leftarrow> Key_Encode (largest f);
     let dst = PutVarint32 (put_tag 7 dst) (word_of_nat level);
     let dst = PutVarint64 (PutVarint64 dst (fm_number f)) (fm_size f);
     put_files fs (PutLengthPrefixedSlice (PutLengthPrefixedSlice dst a) b) }"

definition VE_EncodeTo :: "VersionEdit \<Rightarrow> bytes \<Rightarrow> bytes option" where
  "VE_EncodeTo e dst = do {
     let dst = (if has_comparator e then PutLengthPrefixedSlice (put_tag 1 dst) (ve_comparator e) else dst);
     let dst = put_number (has_log_number e) 2 (log_number e) dst;
     let dst = put_number (has_prev_log_number e) 9 (prev_log_number e) dst;
     let dst = put_number (has_next_file_number e) 3 (next_file_number e) dst;
     let dst = put_number (has_last_sequence e) 4 (ve_last_sequence e) dst;
     dst \<leftarrow> put_pointers (compact_pointers e) dst;
     put_files (new_files e) (put_deleted (deleted_files e) dst) }"

section \<open>Decoding\<close>

definition GetInternalKey :: "bytes \<Rightarrow> (bytes \<times> bytes) option" where
  "GetInternalKey input = GetLengthPrefixedSlice input"

definition GetLevel :: "bytes \<Rightarrow> (nat \<times> bytes) option" where
  "GetLevel input = (case GetVarint32 input of
     Some (v, input) \<Rightarrow> if unat v < kNumLevels then Some (unat v, input) else None
   | None \<Rightarrow> None)"

text \<open>The body of one tag: the edit and the rest, or the message of the error.\<close>

definition or_message :: "string \<Rightarrow> 'a option \<Rightarrow> string + 'a" where
  "or_message msg x = (case x of Some y \<Rightarrow> Inr y | None \<Rightarrow> Inl msg)"

definition decode_tag :: "u32 \<Rightarrow> VersionEdit \<Rightarrow> bytes \<Rightarrow> string + VersionEdit \<times> bytes" where
  "decode_tag tag e input =
     (if tag = 1 then or_message ''comparator name'' (do {
        (x, input) \<leftarrow> GetLengthPrefixedSlice input;
        Some (e\<lparr>has_comparator := True, ve_comparator := x\<rparr>, input) })
      else if tag = 2 then or_message ''log number'' (do {
        (n, input) \<leftarrow> GetVarint64 input;
        Some (e\<lparr>has_log_number := True, log_number := n\<rparr>, input) })
      else if tag = 9 then or_message ''previous log number'' (do {
        (n, input) \<leftarrow> GetVarint64 input;
        Some (e\<lparr>has_prev_log_number := True, prev_log_number := n\<rparr>, input) })
      else if tag = 3 then or_message ''next file number'' (do {
        (n, input) \<leftarrow> GetVarint64 input;
        Some (e\<lparr>has_next_file_number := True, next_file_number := n\<rparr>, input) })
      else if tag = 4 then or_message ''last sequence number'' (do {
        (n, input) \<leftarrow> GetVarint64 input;
        Some (e\<lparr>has_last_sequence := True, ve_last_sequence := n\<rparr>, input) })
      else if tag = 5 then or_message ''compaction pointer'' (do {
        (level, input) \<leftarrow> GetLevel input;
        (k, input) \<leftarrow> GetInternalKey input;
        Some (SetCompactPointer level k e, input) })
      else if tag = 6 then or_message ''deleted file'' (do {
        (level, input) \<leftarrow> GetLevel input;
        (n, input) \<leftarrow> GetVarint64 input;
        Some (VE_DeleteFile level n e, input) })
      else if tag = 7 then or_message ''new-file entry'' (do {
        (level, input) \<leftarrow> GetLevel input;
        (n, input) \<leftarrow> GetVarint64 input;
        (sz, input) \<leftarrow> GetVarint64 input;
        (a, input) \<leftarrow> GetInternalKey input;
        (b, input) \<leftarrow> GetInternalKey input;
        Some (VE_AddFile level n sz a b e, input) })
      else Inl ''unknown tag'')"

lemma or_message_Inr: "or_message msg x = Inr y \<longleftrightarrow> x = Some y"
  by (cases x) (simp_all add: or_message_def)

lemma consume_shorter:
  "GetVarint32 p = Some (v, rest) \<Longrightarrow> length rest < length p"
  "GetVarint64 p = Some (w, rest) \<Longrightarrow> length rest < length p"
  "GetLengthPrefixedSlice p = Some (x, rest) \<Longrightarrow> length rest < length p"
  "GetInternalKey p = Some (x, rest) \<Longrightarrow> length rest < length p"
  "GetLevel p = Some (l, rest) \<Longrightarrow> length rest < length p"
  by (auto simp: GetInternalKey_def GetLevel_def dest!: GetVarint32_consumes GetVarint64_consumes GetLengthPrefixedSlice_consumes
      split: option.splits if_splits)

lemma decode_tag_shorter: "decode_tag tag e input = Inr (e', rest) \<Longrightarrow> length rest < length input"
  by (auto simp: decode_tag_def or_message_Inr dest!: consume_shorter split: if_splits bind_splits)

function decode_loop :: "VersionEdit \<Rightarrow> bytes \<Rightarrow> string option \<times> VersionEdit \<times> bytes" where
  "decode_loop e input = (case GetVarint32 input of
     None \<Rightarrow> (None, e, input)
   | Some (tag, rest) \<Rightarrow> (case decode_tag tag e rest of
       Inl msg \<Rightarrow> (Some msg, e, rest)
     | Inr (e, rest) \<Rightarrow> decode_loop e rest))"
  by pat_completeness auto
termination
  by (relation "measure (\<lambda>(e, input). length input)") (auto dest!: decode_tag_shorter consume_shorter)

declare decode_loop.simps [simp del]

definition VE_DecodeFrom :: "bytes \<Rightarrow> VersionEdit \<Rightarrow> Status \<times> VersionEdit" where
  "VE_DecodeFrom src e =
     (let (msg, e, input) = decode_loop (VE_Clear e) src;
          msg = (if msg = None \<and> input \<noteq> [] then Some ''invalid tag'' else msg)
      in (case msg of Some m \<Rightarrow> Corruption ''VersionEdit'' m | None \<Rightarrow> OK, e))"

section \<open>The text\<close>

definition append_line :: "string \<Rightarrow> string \<Rightarrow> string" where
  "append_line label r = r @ [CHR 0x0A] @ ''  '' @ label"

definition append_number :: "bool \<Rightarrow> string \<Rightarrow> u64 \<Rightarrow> string \<Rightarrow> string" where
  "append_number has label n r = (if has then AppendNumberTo (append_line label r) n else r)"

definition VE_DebugString :: "VersionEdit \<Rightarrow> string" where
  "VE_DebugString e =
     (let r = ''VersionEdit {'';
          r = (if has_comparator e then append_line ''Comparator: '' r @ map (char_of \<circ> unat) (ve_comparator e) else r);
          r = append_number (has_log_number e) ''LogNumber: '' (log_number e) r;
          r = append_number (has_prev_log_number e) ''PrevLogNumber: '' (prev_log_number e) r;
          r = append_number (has_next_file_number e) ''NextFile: '' (next_file_number e) r;
          r = append_number (has_last_sequence e) ''LastSeq: '' (ve_last_sequence e) r;
          r = foldl (\<lambda>r (level, k). AppendNumberTo (append_line ''CompactPointer: '' r) (word_of_nat level) @ '' '' @ InternalKey_DebugString k)
            r (compact_pointers e);
          r = foldl (\<lambda>r (level, n). AppendNumberTo (AppendNumberTo (append_line ''DeleteFile: '' r) (word_of_nat level) @ '' '') n)
            r (deleted_files e);
          r = foldl (\<lambda>r (level, f). AppendNumberTo (AppendNumberTo (AppendNumberTo (append_line ''AddFile: '' r) (word_of_nat level) @ '' '')
              (fm_number f) @ '' '') (fm_size f) @ '' '' @ InternalKey_DebugString (smallest f) @ '' .. '' @ InternalKey_DebugString (largest f))
            r (new_files e)
      in r @ [CHR 0x0A] @ ''}'' @ [CHR 0x0A])"

section \<open>An edit as a list of items\<close>

datatype item = IComparator bytes | INumber nat u64 | IPointer nat bytes | IDeleted nat u64 | INew nat FileMetaData

fun item_bytes :: "item \<Rightarrow> bytes" where
  "item_bytes (IComparator x) = EncodeVarint32 1 @ PutLengthPrefixedSlice [] x"
| "item_bytes (INumber t n) = EncodeVarint32 (word_of_nat t) @ EncodeVarint64 n"
| "item_bytes (IPointer level k) = EncodeVarint32 5 @ EncodeVarint32 (word_of_nat level) @ PutLengthPrefixedSlice [] k"
| "item_bytes (IDeleted level n) = EncodeVarint32 6 @ EncodeVarint32 (word_of_nat level) @ EncodeVarint64 n"
| "item_bytes (INew level f) = EncodeVarint32 7 @ EncodeVarint32 (word_of_nat level) @ EncodeVarint64 (fm_number f) @
     EncodeVarint64 (fm_size f) @ PutLengthPrefixedSlice [] (smallest f) @ PutLengthPrefixedSlice [] (largest f)"

fun item_apply :: "item \<Rightarrow> VersionEdit \<Rightarrow> VersionEdit" where
  "item_apply (IComparator x) e = SetComparatorName x e"
| "item_apply (INumber t n) e = (if t = 2 then SetLogNumber n e else if t = 9 then SetPrevLogNumber n e
     else if t = 3 then SetNextFile n e else SetLastSequence n e)"
| "item_apply (IPointer level k) e = SetCompactPointer level k e"
| "item_apply (IDeleted level n) e = VE_DeleteFile level n e"
| "item_apply (INew level f) e = VE_AddFile level (fm_number f) (fm_size f) (smallest f) (largest f) e"

fun item_ok :: "item \<Rightarrow> bool" where
  "item_ok (IComparator x) \<longleftrightarrow> length x < 2 ^ 32"
| "item_ok (INumber t n) \<longleftrightarrow> t \<in> {2, 9, 3, 4}"
| "item_ok (IPointer level k) \<longleftrightarrow> level < kNumLevels \<and> k \<noteq> [] \<and> length k < 2 ^ 32"
| "item_ok (IDeleted level n) \<longleftrightarrow> level < kNumLevels"
| "item_ok (INew level f) \<longleftrightarrow> level < kNumLevels \<and> fm_refs f = 0 \<and> allowed_seeks f = 2 ^ 30 \<and>
     smallest f \<noteq> [] \<and> length (smallest f) < 2 ^ 32 \<and> largest f \<noteq> [] \<and> length (largest f) < 2 ^ 32"

definition edit_items :: "VersionEdit \<Rightarrow> item list" where
  "edit_items e =
     (if has_comparator e then [IComparator (ve_comparator e)] else []) @
     (if has_log_number e then [INumber 2 (log_number e)] else []) @
     (if has_prev_log_number e then [INumber 9 (prev_log_number e)] else []) @
     (if has_next_file_number e then [INumber 3 (next_file_number e)] else []) @
     (if has_last_sequence e then [INumber 4 (ve_last_sequence e)] else []) @
     map (\<lambda>(level, k). IPointer level k) (compact_pointers e) @
     map (\<lambda>(level, n). IDeleted level n) (deleted_files e) @
     map (\<lambda>(level, f). INew level f) (new_files e)"

text \<open>What can be written: fields that are not set are clear, levels exist, keys are keys, and files are
  as \<open>AddFile\<close> makes them.\<close>

definition edit_ok :: "VersionEdit \<Rightarrow> bool" where
  "edit_ok e \<longleftrightarrow> list_all item_ok (edit_items e) \<and> (\<not> has_comparator e \<longrightarrow> ve_comparator e = []) \<and> (\<not> has_log_number e \<longrightarrow> log_number e = 0) \<and>
     (\<not> has_prev_log_number e \<longrightarrow> prev_log_number e = 0) \<and> (\<not> has_next_file_number e \<longrightarrow> next_file_number e = 0) \<and>
     (\<not> has_last_sequence e \<longrightarrow> ve_last_sequence e = 0) \<and> sorted_wrt (<) (deleted_files e)"

lemma put_simps: "put_tag t dst = dst @ EncodeVarint32 (word_of_nat t)" "PutVarint32 dst v = dst @ EncodeVarint32 v"
    "PutVarint64 dst n = dst @ EncodeVarint64 n" "PutLengthPrefixedSlice dst x = dst @ PutLengthPrefixedSlice [] x"
  by (simp_all add: put_tag_def PutVarint32_def PutVarint64_def PutLengthPrefixedSlice_def)

lemma put_number_items: "put_number has t n dst = dst @ concat (map item_bytes (if has then [INumber t n] else []))"
  by (simp add: put_number_def put_simps(1,3))

lemma put_pointers_items:
  "list_all item_ok (map (\<lambda>(level, k). IPointer level k) ps) \<Longrightarrow>
   put_pointers ps dst = Some (dst @ concat (map item_bytes (map (\<lambda>(level, k). IPointer level k) ps)))"
proof (induction ps dst rule: put_pointers.induct)
  case (2 level k ps dst)
  then have k: "Key_Encode k = Some k" by (simp add: Key_Encode_def)
  show ?case using "2.IH" [OF k] "2.prems" by (simp add: k put_simps(1) put_simps(2) put_simps(4) [of "_ @ _"])
qed simp

lemma put_deleted_items: "put_deleted fs dst = dst @ concat (map item_bytes (map (\<lambda>(level, n). IDeleted level n) fs))"
  by (induction fs dst rule: put_deleted.induct) (simp_all add: put_simps(1-3))

lemma put_files_items:
  "list_all item_ok (map (\<lambda>(level, f). INew level f) fs) \<Longrightarrow>
   put_files fs dst = Some (dst @ concat (map item_bytes (map (\<lambda>(level, f). INew level f) fs)))"
proof (induction fs dst rule: put_files.induct)
  case (2 level f fs dst)
  then have k: "Key_Encode (smallest f) = Some (smallest f)" "Key_Encode (largest f) = Some (largest f)" by (simp_all add: Key_Encode_def)
  show ?case using "2.IH" [OF k refl refl] "2.prems"
    by (simp add: k Let_def put_simps(1-3) put_simps(4) [of "_ @ _"])
qed simp

lemma VE_EncodeTo_items:
  assumes "list_all item_ok (edit_items e)"
  shows "VE_EncodeTo e dst = Some (dst @ concat (map item_bytes (edit_items e)))"
proof -
  have ok: "list_all item_ok (map (\<lambda>(level, k). IPointer level k) (compact_pointers e))"
    "list_all item_ok (map (\<lambda>(level, f). INew level f) (new_files e))" using assms by (simp_all add: edit_items_def)
  have c: "(if has_comparator e then PutLengthPrefixedSlice (put_tag 1 dst) (ve_comparator e) else dst) =
      dst @ concat (map item_bytes (if has_comparator e then [IComparator (ve_comparator e)] else []))"
    by (simp add: put_simps(1) put_simps(4) [of "_ @ _"])
  show ?thesis
    unfolding VE_EncodeTo_def Let_def c put_number_items put_pointers_items [OF ok(1)] put_files_items [OF ok(2)] put_deleted_items Option.bind.simps
    by (simp add: edit_items_def)
qed

lemma GetLevel_Encode: "level < kNumLevels \<Longrightarrow> GetLevel (EncodeVarint32 (word_of_nat level) @ rest) = Some (level, rest)"
  by (simp add: GetLevel_def kNumLevels_def unat_of_nat take_bit_nat_eq_self)

lemma decode_item:
  assumes "item_ok i"
  shows "decode_loop e (item_bytes i @ rest) = decode_loop (item_apply i e) rest"
proof -
  have g: "GetVarint64 (EncodeVarint64 v @ r) = Some (v, r)" "GetVarint32 (EncodeVarint32 t @ r) = Some (t, r)" for v t r by simp_all
  have k: "GetInternalKey (PutLengthPrefixedSlice [] x @ r) = Some (x, r)" "GetLengthPrefixedSlice (PutLengthPrefixedSlice [] x @ r) = Some (x, r)"
    if "length x < 2 ^ 32" for x r using GetLengthPrefixedSlice_Put [OF that] by (simp_all add: GetInternalKey_def)
  note d = decode_loop.simps [of e] decode_tag_def or_message_def
  show ?thesis
  proof (cases i)
    case (IComparator x)
    then show ?thesis using assms k [of x] by (simp add: d g SetComparatorName_def)
  next
    case (INumber t n)
    then consider "t = 2" | "t = 9" | "t = 3" | "t = 4" using assms by auto
    then show ?thesis unfolding INumber
      by cases (simp_all add: d g SetLogNumber_def SetPrevLogNumber_def SetNextFile_def SetLastSequence_def)
  next
    case (IPointer level x)
    then show ?thesis using assms k [of x] by (simp add: d g GetLevel_Encode)
  next
    case (IDeleted level n)
    then show ?thesis using assms by (simp add: d g GetLevel_Encode)
  next
    case (INew level f)
    then show ?thesis using assms k [of "smallest f"] k [of "largest f"] by (simp add: d g GetLevel_Encode)
  qed
qed

lemma decode_items: "list_all item_ok is \<Longrightarrow> decode_loop e (concat (map item_bytes is)) = (None, fold item_apply is e, [])"
proof (induction "is" arbitrary: e)
  case Nil
  have "GetVarint32 [] = None" by (simp add: GetVarint32_def GetVarint32Ptr_def GetVarint32PtrFallback_def)
  then show ?case by (subst decode_loop.simps) simp
next
  case (Cons i "is")
  then show ?case by (simp add: decode_item)
qed

lemma fold_pointers: "fold item_apply (map (\<lambda>(level, k). IPointer level k) ps) e = e\<lparr>compact_pointers := compact_pointers e @ ps\<rparr>"
  by (induction ps arbitrary: e) (auto simp: SetCompactPointer_def)

lemma VE_AddFile_fresh:
  "fm_refs f = 0 \<Longrightarrow> allowed_seeks f = 2 ^ 30 \<Longrightarrow>
   VE_AddFile level (fm_number f) (fm_size f) (smallest f) (largest f) e = e\<lparr>new_files := new_files e @ [(level, f)]\<rparr>"
  by (cases f) (simp add: VE_AddFile_def new_FileMetaData_def)

lemma fold_files:
  "list_all item_ok (map (\<lambda>(level, f). INew level f) fs) \<Longrightarrow>
   fold item_apply (map (\<lambda>(level, f). INew level f) fs) e = e\<lparr>new_files := new_files e @ fs\<rparr>"
  by (induction fs arbitrary: e) (auto simp: VE_AddFile_fresh)

lemma insort_insert_last: "sorted_wrt (<) (ds @ [d]) \<Longrightarrow> insort_insert d ds = ds @ [d]" for d :: "nat \<times> u64"
proof -
  assume s: "sorted_wrt (<) (ds @ [d])"
  then have "d \<notin> set ds" by (auto simp: sorted_wrt_append)
  moreover have "insort d ds = ds @ [d]" using s by (induction ds) (auto simp: sorted_wrt_append)
  ultimately show ?thesis by (simp add: insort_insert_insort)
qed

lemma fold_deleted:
  "sorted_wrt (<) (deleted_files e @ ds) \<Longrightarrow>
   fold item_apply (map (\<lambda>(level, n). IDeleted level n) ds) e = e\<lparr>deleted_files := deleted_files e @ ds\<rparr>"
proof (induction ds arbitrary: e)
  case (Cons d ds)
  obtain level n where d: "d = (level, n)" by (cases d)
  have "sorted_wrt (<) (deleted_files e @ [d])" using Cons.prems by (simp add: sorted_wrt_append)
  then have "VE_DeleteFile level n e = e\<lparr>deleted_files := deleted_files e @ [d]\<rparr>"
    using insort_insert_last [of "deleted_files e" d] by (simp add: VE_DeleteFile_def d)
  then show ?case using Cons.IH [of "VE_DeleteFile level n e"] Cons.prems by (simp add: d)
qed simp

lemma fold_items:
  assumes "edit_ok e"
  shows "fold item_apply (edit_items e) (VE_Clear e0) = e\<lparr>compact_pointers := compact_pointers e0 @ compact_pointers e\<rparr>"
  using assms by (cases e)
    (simp add: edit_ok_def edit_items_def fold_pointers fold_files fold_deleted VE_Clear_def SetComparatorName_def SetLogNumber_def
      SetPrevLogNumber_def SetNextFile_def SetLastSequence_def)

text \<open>C36. An edit that was written to the manifest is read back: decoding the encoding of any well-formed edit succeeds
  and gives every field of it, whatever the edit held before, with one exception: the compaction
  pointers of the old contents stay in front of those that are read, because \<open>Clear\<close> does not clear them.\<close>
theorem version_edit_roundtrip:
  assumes "edit_ok e"
  shows "\<exists>b. VE_EncodeTo e [] = Some b \<and>
    VE_DecodeFrom b old = (OK, e\<lparr>compact_pointers := compact_pointers old @ compact_pointers e\<rparr>) \<and>
    VE_DecodeFrom b new_VersionEdit = (OK, e)"
proof -
  have i: "list_all item_ok (edit_items e)" using assms by (simp add: edit_ok_def)
  have "e\<lparr>compact_pointers := compact_pointers new_VersionEdit @ compact_pointers e\<rparr> = e" by (cases e) (simp add: new_VersionEdit_def)
  then show ?thesis by (simp add: VE_EncodeTo_items [OF i] VE_DecodeFrom_def decode_items [OF i] fold_items [OF assms] Let_def)
qed

text \<open>An edit with one of everything, read over an edit that has a pointer already.\<close>

definition sample_edit :: VersionEdit where
  "sample_edit = SetCompactPointer 1 [9] (VE_AddFile 2 7 4096 [1] [5] (VE_DeleteFile 0 3 (SetLastSequence 300 (SetLogNumber 4 (SetComparatorName [99] new_VersionEdit)))))"

theorem version_edit_roundtrip_witness:
  "\<exists>b. VE_EncodeTo sample_edit [] = Some b \<and> VE_DecodeFrom b new_VersionEdit = (OK, sample_edit) \<and>
    compact_pointers (snd (VE_DecodeFrom b sample_edit)) = [(1, [9]), (1, [9])]"
proof -
  have "edit_ok sample_edit"
    by (simp add: edit_ok_def edit_items_def new_FileMetaData_def sample_edit_def SetCompactPointer_def VE_AddFile_def VE_DeleteFile_def SetLastSequence_def SetLogNumber_def
        SetComparatorName_def new_VersionEdit_def kNumLevels_def insort_insert_key_def)
  from version_edit_roundtrip [OF this, of sample_edit] show ?thesis
    by (auto simp: sample_edit_def SetCompactPointer_def VE_AddFile_def VE_DeleteFile_def SetLastSequence_def SetLogNumber_def SetComparatorName_def new_VersionEdit_def)
qed

end
