(* ===== verification/Write_Batch.thy ===== *)
theory Write_Batch
  imports Memtable_Properties
begin

text \<open>
  Batches of updates (include/leveldb/write_batch.h, db/write_batch_internal.h, db/write_batch.cc): one string with a
  sequence number, a count and the records.  The count is the C type \<open>int\<close> in four bytes.  A batch
  shorter than its header, which only \<open>SetContents\<close> could make, is None where the code reads the header.
\<close>

definition batch_kHeader :: nat where
  "batch_kHeader = 12"

type_synonym WriteBatch = bytes

definition WB_Clear :: WriteBatch where
  "WB_Clear = replicate batch_kHeader 0"

definition new_WriteBatch :: WriteBatch where
  "new_WriteBatch = WB_Clear"

definition WB_Count :: "WriteBatch \<Rightarrow> int option" where
  "WB_Count b = map_option sint (DecodeFixed32 (drop 8 b))"

definition SetCount :: "WriteBatch \<Rightarrow> int \<Rightarrow> WriteBatch option" where
  "SetCount b n = (if length b < batch_kHeader then None else Some (take 8 b @ EncodeFixed32 (word_of_int n) @ drop 12 b))"

definition Sequence :: "WriteBatch \<Rightarrow> u64 option" where
  "Sequence b = DecodeFixed64 b"

definition SetSequence :: "WriteBatch \<Rightarrow> u64 \<Rightarrow> WriteBatch option" where
  "SetSequence b s = (if length b < 8 then None else Some (EncodeFixed64 s @ drop 8 b))"

definition Contents :: "WriteBatch \<Rightarrow> bytes" where
  "Contents b = b"

definition ByteSize :: "WriteBatch \<Rightarrow> nat" where
  "ByteSize b = length b"

definition WB_Put :: "bytes \<Rightarrow> bytes \<Rightarrow> WriteBatch \<Rightarrow> WriteBatch option" where
  "WB_Put key v b = do {
     n \<leftarrow> WB_Count b;
     b \<leftarrow> SetCount b (n + 1);
     let b = b @ [type_byte kTypeValue];
     Some (PutLengthPrefixedSlice (PutLengthPrefixedSlice b key) v) }"

definition WB_Delete :: "bytes \<Rightarrow> WriteBatch \<Rightarrow> WriteBatch option" where
  "WB_Delete key b = do {
     n \<leftarrow> WB_Count b;
     b \<leftarrow> SetCount b (n + 1);
     let b = b @ [type_byte kTypeDeletion];
     Some (PutLengthPrefixedSlice b key) }"

definition SetContents :: "bytes \<Rightarrow> WriteBatch option" where
  "SetContents c = (if length c \<ge> batch_kHeader then Some c else None)"

definition WB_Append :: "WriteBatch \<Rightarrow> WriteBatch \<Rightarrow> WriteBatch option" where
  "WB_Append dst src = do {
     m \<leftarrow> WB_Count dst;
     n \<leftarrow> WB_Count src;
     dst \<leftarrow> SetCount dst (m + n);
     if length src < batch_kHeader then None else Some (dst @ drop batch_kHeader src) }"

section \<open>Iteration\<close>

text \<open>A handler is a state with what it does for each record.\<close>

record 'h Handler =
  h_Put :: "bytes \<Rightarrow> bytes \<Rightarrow> 'h \<Rightarrow> 'h option"
  h_Delete :: "bytes \<Rightarrow> 'h \<Rightarrow> 'h option"

text \<open>The loop over the records: the number found, or the status with which it is left.\<close>

function records_loop :: "'h Handler \<Rightarrow> int \<Rightarrow> bytes \<Rightarrow> 'h \<Rightarrow> ((Status + int) \<times> 'h) option" where
  "records_loop H found input h =
     (case input of
        [] \<Rightarrow> Some (Inr found, h)
      | tag # input \<Rightarrow>
          (case type_of_byte tag of
             Some kTypeValue \<Rightarrow>
               (case GetLengthPrefixedSlice input of
                  Some (key, input) \<Rightarrow>
                    (case GetLengthPrefixedSlice input of
                       Some (v, input) \<Rightarrow> Option.bind (h_Put H key v h) (records_loop H (found + 1) input)
                     | None \<Rightarrow> Some (Inl (Corruption ''bad WriteBatch Put'' []), h))
                | None \<Rightarrow> Some (Inl (Corruption ''bad WriteBatch Put'' []), h))
           | Some kTypeDeletion \<Rightarrow>
               (case GetLengthPrefixedSlice input of
                  Some (key, input) \<Rightarrow> Option.bind (h_Delete H key h) (records_loop H (found + 1) input)
                | None \<Rightarrow> Some (Inl (Corruption ''bad WriteBatch Delete'' []), h))
           | None \<Rightarrow> Some (Inl (Corruption ''unknown WriteBatch tag'' []), h)))"
  by pat_completeness auto
termination
  by (relation "measure (\<lambda>(H, found, input, h). length input)") (auto dest!: GetLengthPrefixedSlice_consumes)

declare records_loop.simps [simp del]

definition Iterate :: "'h Handler \<Rightarrow> WriteBatch \<Rightarrow> 'h \<Rightarrow> (Status \<times> 'h) option" where
  "Iterate H b h =
     (if length b < batch_kHeader then Some (Corruption ''malformed WriteBatch (too small)'' [], h)
      else do {
        (r, h) \<leftarrow> records_loop H 0 (drop batch_kHeader b) h;
        case r of
          Inl s \<Rightarrow> Some (s, h)
        | Inr found \<Rightarrow> do {
            n \<leftarrow> WB_Count b;
            Some (if found \<noteq> n then Corruption ''WriteBatch has wrong count'' [] else OK, h) } })"

text \<open>Inserting into a memtable.\<close>

definition MemTableInserter :: "Comparator \<Rightarrow> (u64 \<times> MemTable) Handler" where
  "MemTableInserter U =
     \<lparr>h_Put = (\<lambda>key v (s, m). map_option (Pair (s + 1)) (MAdd U s kTypeValue key v m)),
      h_Delete = (\<lambda>key (s, m). map_option (Pair (s + 1)) (MAdd U s kTypeDeletion key [] m))\<rparr>"

definition InsertInto :: "Comparator \<Rightarrow> WriteBatch \<Rightarrow> MemTable \<Rightarrow> (Status \<times> MemTable) option" where
  "InsertInto U b m = do {
     s \<leftarrow> Sequence b;
     (st, (_, m)) \<leftarrow> Iterate (MemTableInserter U) b (s, m);
     Some (st, m) }"

section \<open>What a batch holds\<close>

datatype update = BPut bytes bytes | BDelete bytes

fun apply_update :: "update \<Rightarrow> WriteBatch \<Rightarrow> WriteBatch option" where
  "apply_update (BPut k v) b = WB_Put k v b"
| "apply_update (BDelete k) b = WB_Delete k b"

fun apply_updates :: "update list \<Rightarrow> WriteBatch \<Rightarrow> WriteBatch option" where
  "apply_updates [] b = Some b"
| "apply_updates (u # us) b = Option.bind (apply_update u b) (apply_updates us)"

fun handle :: "'h Handler \<Rightarrow> update list \<Rightarrow> 'h \<Rightarrow> 'h option" where
  "handle H [] h = Some h"
| "handle H (BPut k v # us) h = Option.bind (h_Put H k v h) (handle H us)"
| "handle H (BDelete k # us) h = Option.bind (h_Delete H k h) (handle H us)"

fun update_bytes :: "update \<Rightarrow> bytes" where
  "update_bytes (BPut k v) = type_byte kTypeValue # PutLengthPrefixedSlice (PutLengthPrefixedSlice [] k) v"
| "update_bytes (BDelete k) = type_byte kTypeDeletion # PutLengthPrefixedSlice [] k"

fun small_update :: "update \<Rightarrow> bool" where
  "small_update (BPut k v) \<longleftrightarrow> length k + 8 < 2 ^ 32 \<and> length v < 2 ^ 32"
| "small_update (BDelete k) \<longleftrightarrow> length k + 8 < 2 ^ 32"

text \<open>A batch with a sequence number and a list of updates.\<close>

definition batch_bytes :: "u64 \<Rightarrow> update list \<Rightarrow> bytes" where
  "batch_bytes s us = EncodeFixed64 s @ EncodeFixed32 (word_of_nat (length us)) @ concat (map update_bytes us)"

definition small_batch :: "update list \<Rightarrow> bool" where
  "small_batch us \<longleftrightarrow> list_all small_update us \<and> length us < 2 ^ 31"

lemma batch_bytes_new: "new_WriteBatch = batch_bytes 0 []"
  by (simp add: new_WriteBatch_def WB_Clear_def batch_kHeader_def batch_bytes_def EncodeFixed64_def EncodeFixed32_def numeral_eq_Suc)

lemma batch_parts [simp]:
  "Sequence (batch_bytes s us) = Some s"
  "SetSequence (batch_bytes s us) s' = Some (batch_bytes s' us)"
  "drop batch_kHeader (batch_bytes s us) = concat (map update_bytes us)"
  "batch_kHeader \<le> length (batch_bytes s us)"
  by (simp_all add: Sequence_def SetSequence_def batch_bytes_def batch_kHeader_def)

lemma batch_count:
  assumes "length us < 2 ^ 31"
  shows "WB_Count (batch_bytes s us) = Some (int (length us))"
proof -
  have "sint (word_of_nat (length us) :: u32) = int (length us)"
    using assms by (simp add: sint_word_ariths signed_of_nat signed_take_bit_int_eq_self)
  then show ?thesis by (simp add: WB_Count_def batch_bytes_def)
qed

lemma batch_set_count: "SetCount (batch_bytes s us) n =
    Some (EncodeFixed64 s @ EncodeFixed32 (word_of_int n) @ concat (map update_bytes us))"
  by (simp add: SetCount_def batch_bytes_def batch_kHeader_def)

lemma apply_update_bytes:
  assumes "length us < 2 ^ 31"
  shows "apply_update u (batch_bytes s us) = Some (batch_bytes s (us @ [u]))"
proof (cases u)
  case (BPut k v)
  show ?thesis unfolding BPut apply_update.simps WB_Put_def batch_count [OF assms] Option.bind.simps batch_set_count Let_def
    by (simp add: batch_bytes_def PutLengthPrefixedSlice_def PutVarint32_def of_nat_Suc add.commute)
next
  case (BDelete k)
  show ?thesis unfolding BDelete apply_update.simps WB_Delete_def batch_count [OF assms] Option.bind.simps batch_set_count Let_def
    by (simp add: batch_bytes_def PutLengthPrefixedSlice_def PutVarint32_def of_nat_Suc add.commute)
qed

lemma apply_updates_bytes:
  "length old + length us \<le> 2 ^ 31 \<Longrightarrow> apply_updates us (batch_bytes s old) = Some (batch_bytes s (old @ us))"
proof (induction us arbitrary: old)
  case (Cons u us)
  then have "apply_update u (batch_bytes s old) = Some (batch_bytes s (old @ [u]))" by (intro apply_update_bytes) simp
  then show ?case using Cons.IH [of "old @ [u]"] Cons.prems by simp
qed simp

lemma batch_append:
  assumes "length us < 2 ^ 31" "length vs < 2 ^ 31"
  shows "WB_Append (batch_bytes s us) (batch_bytes s' vs) = Some (batch_bytes s (us @ vs))"
  unfolding WB_Append_def batch_count [OF assms(1)] batch_count [OF assms(2)] Option.bind.simps batch_set_count
  by (simp add: batch_bytes_def batch_kHeader_def flip: of_nat_add)

lemma records_loop_bytes:
  "list_all small_update us \<Longrightarrow>
   records_loop H found (concat (map update_bytes us)) h = map_option (Pair (Inr (found + int (length us)))) (handle H us h)"
proof (induction us arbitrary: found h)
  case Nil
  then show ?case by (simp add: records_loop.simps)
next
  case (Cons u us)
  have IH: "records_loop H (found + 1) (concat (map update_bytes us)) h' =
      map_option (Pair (Inr (found + int (length (u # us))))) (handle H us h')" for h'
    using Cons.IH [of "found + 1" h'] Cons.prems by (simp add: algebra_simps)
  show ?case
  proof (cases u)
    case (BPut k v)
    then have l: "length k < 2 ^ 32" "length v < 2 ^ 32" using Cons.prems by simp_all
    have g: "GetLengthPrefixedSlice (PutLengthPrefixedSlice [] x @ rest) = Some (x, rest)" if "length x < 2 ^ 32" for x rest
      using that by (rule GetLengthPrefixedSlice_Put)
    have e: "concat (map update_bytes (u # us)) =
        type_byte kTypeValue # PutLengthPrefixedSlice [] k @ PutLengthPrefixedSlice [] v @ concat (map update_bytes us)"
      by (simp add: BPut PutLengthPrefixedSlice_append [of "PutLengthPrefixedSlice [] k"])
    show ?thesis unfolding e
      by (subst records_loop.simps)
        (simp only: list.case type_byte_inj option.case ValueType.case g [OF l(1)] g [OF l(2)] prod.case BPut handle.simps,
         cases "h_Put H k v h", simp_all add: IH [unfolded BPut])
  next
    case (BDelete k)
    then have l: "length k < 2 ^ 32" using Cons.prems by simp
    show ?thesis
      using GetLengthPrefixedSlice_Put [OF l] IH [unfolded BDelete]
      by (subst records_loop.simps) (simp add: BDelete del: type_byte.simps, cases "h_Delete H k h", simp_all)
  qed
qed

lemma Iterate_bytes:
  assumes "small_batch us"
  shows "Iterate H (batch_bytes s us) h = map_option (Pair OK) (handle H us h)"
proof -
  have l: "list_all small_update us" "length us < 2 ^ 31" using assms by (simp_all add: small_batch_def)
  show ?thesis unfolding Iterate_def batch_parts records_loop_bytes [OF l(1)] batch_count [OF l(2)]
    using batch_parts(4) [of s us] by (cases "handle H us h") (simp_all add: not_less del: batch_parts(4))
qed

end
