(* ===== verification/Db_Write.thy ===== *)
theory Db_Write
  imports Write_Batch Log_Properties Logging
begin

text \<open>
  The write path of the database (db/db_impl.cc): the queue of writers, group commit to log and
  memtable, lookups in the memtables, and the replay of a log.  A step of the model is what the
  writer at the front of the queue does while it holds the queue; the threads behind it only wait.
  Switching memtables and compaction belong to a background thread: a write that would have to
  wait for them is None.
\<close>

section \<open>The state\<close>

datatype AccessType = ReadType | WriteType

record Operation =
  op_access :: AccessType
  op_start :: int
  op_length :: int

record BWriter =
  w_batch :: "WriteBatch option"
  w_sync :: bool

text \<open>
  The members of \<open>DBImpl\<close> that the path uses, with the global variables of db_impl.cc: \<open>head\<close> and
  \<open>tail\<close>, and the tables that compaction fills with the place of each key in the flash memory.
\<close>

record 'f DbImpl =
  db_log :: "'f Writer"
  db_mem :: MemTable
  db_imm :: "MemTable option"
  last_sequence :: u64
  bg_error :: Status
  db_head :: int
  db_tail :: int
  KeySSTableMap :: "bytes \<rightharpoonup> u64"
  SSTableClusterMap :: "u64 \<rightharpoonup> int list"
  Operations :: "Operation list"
  snapshot_list :: "u64 list"

section \<open>Writing\<close>

text \<open>The writers behind the first one that join its group: the batch so far, its size, and how many
  writers are in the group; \<open>tmp\<close> tells whether the temporary batch is in use.\<close>

fun group_loop :: "bool \<Rightarrow> nat \<Rightarrow> BWriter list \<Rightarrow> bool \<Rightarrow> WriteBatch \<Rightarrow> nat \<Rightarrow> nat \<Rightarrow> (WriteBatch \<times> nat) option" where
  "group_loop first_sync max_size [] tmp r sz n = Some (r, n)"
| "group_loop first_sync max_size (w # ws) tmp r sz n =
     (if w_sync w \<and> \<not> first_sync then Some (r, n)
      else case w_batch w of
        None \<Rightarrow> group_loop first_sync max_size ws tmp r sz (n + 1)
      | Some b \<Rightarrow>
          let sz = sz + ByteSize b in
          if sz > max_size then Some (r, n)
          else do {
            r \<leftarrow> (if tmp then Some r else WB_Append new_WriteBatch r);
            r \<leftarrow> WB_Append r b;
            group_loop first_sync max_size ws True r sz (n + 1) })"

text \<open>The batch of the group and the number of its writers.\<close>

definition BuildBatchGroup :: "BWriter list \<Rightarrow> (WriteBatch \<times> nat) option" where
  "BuildBatchGroup writers = (case writers of
     [] \<Rightarrow> None
   | first # ws \<Rightarrow> do {
       r \<leftarrow> w_batch first;
       let sz = ByteSize r;
       let max_size = (if sz \<le> 128 * 1024 then sz + 128 * 1024 else 1024 * 1024);
       group_loop (w_sync first) max_size ws False r sz 1 })"

definition MakeRoomForWrite :: "nat \<Rightarrow> bool \<Rightarrow> 'f DbImpl \<Rightarrow> Status option" where
  "MakeRoomForWrite write_buffer_size force db =
     (if \<not> is_ok (bg_error db) then Some (bg_error db)
      else if \<not> force \<and> ApproximateMemoryUsage (db_mem db) \<le> write_buffer_size then Some OK
      else None)"

definition RecordBackgroundError :: "Status \<Rightarrow> 'f DbImpl \<Rightarrow> 'f DbImpl" where
  "RecordBackgroundError s db = (if is_ok (bg_error db) then db\<lparr>bg_error := s\<rparr> else db)"

text \<open>The writer at the front: its status, which is that of the whole group, and the size of the group.\<close>

definition DB_Write :: "Comparator \<Rightarrow> 'f WritableFile \<Rightarrow> ('f \<Rightarrow> (Status \<times> 'f) option) \<Rightarrow> nat \<Rightarrow> BWriter list \<Rightarrow> 'f DbImpl \<Rightarrow>
    (Status \<times> nat \<times> 'f DbImpl) option" where
  "DB_Write U W Sync write_buffer_size writers db = (case writers of [] \<Rightarrow> None | w # _ \<Rightarrow> do {
     status \<leftarrow> MakeRoomForWrite write_buffer_size (w_batch w = None) db;
     if is_ok status \<and> w_batch w \<noteq> None then do {
       (updates, n) \<leftarrow> BuildBatchGroup writers;
       updates \<leftarrow> SetSequence updates (last_sequence db + 1);
       count \<leftarrow> WB_Count updates;
       (status, lg) \<leftarrow> AddRecord W (Contents updates) (db_log db);
       (status, sync_error, lg) \<leftarrow> (if is_ok status \<and> w_sync w then do {
           (status, f) \<leftarrow> Sync (dest lg);
           Some (status, \<not> is_ok status, lg\<lparr>dest := f\<rparr>) }
         else Some (status, False, lg));
       (status, mem) \<leftarrow> (if is_ok status then InsertInto U updates (db_mem db) else Some (status, db_mem db));
       let db = db\<lparr>db_log := lg, db_mem := mem\<rparr>;
       let db = (if sync_error then RecordBackgroundError status db else db);
       let last = last_sequence db + word_of_int count;
       if last < last_sequence db then None else Some (status, n, db\<lparr>last_sequence := last\<rparr>) }
     else Some (status, 1, db) })"

text \<open>The writers of a queue are served in groups until none is left.\<close>

function serve_queue :: "Comparator \<Rightarrow> 'f WritableFile \<Rightarrow> ('f \<Rightarrow> (Status \<times> 'f) option) \<Rightarrow> nat \<Rightarrow> BWriter list \<Rightarrow> 'f DbImpl \<Rightarrow>
    (Status list \<times> 'f DbImpl) option" where
  "serve_queue U W Sync write_buffer_size writers db =
     (if writers = [] then Some ([], db)
      else Option.bind (DB_Write U W Sync write_buffer_size writers db) (\<lambda>(status, n, db).
        if n = 0 then None
        else map_option (\<lambda>(ss, db). (replicate n status @ ss, db))
          (serve_queue U W Sync write_buffer_size (drop n writers) db)))"
  by pat_completeness auto
termination
  by (relation "measure (\<lambda>(U, W, Sync, z, writers, db). length writers)") auto

declare serve_queue.simps [simp del]

text \<open>A string as C reads it: up to its first zero byte.\<close>

definition c_string :: "bytes \<Rightarrow> bytes" where
  "c_string s = takeWhile (\<lambda>c. c \<noteq> 0) s"

definition text_bytes :: "string \<Rightarrow> bytes" where
  "text_bytes = map (\<lambda>c. word_of_nat (of_char c))"

definition is_digit :: "byte \<Rightarrow> bool" where
  "is_digit c \<longleftrightarrow> 48 \<le> c \<and> c \<le> 57"

definition c_space :: "byte \<Rightarrow> bool" where
  "c_space c \<longleftrightarrow> c = 32 \<or> 9 \<le> c \<and> c \<le> 13"

text \<open>The conversion of text to a number; a number out of the range of \<open>int\<close> has no defined value.\<close>

definition atoi :: "bytes \<Rightarrow> int option" where
  "atoi s =
     (let s = dropWhile c_space (c_string s);
          (neg, s) = (case s of c # s' \<Rightarrow> if c = 45 then (True, s') else if c = 43 then (False, s') else (False, s) | [] \<Rightarrow> (False, s));
          n = foldl (\<lambda>v c. v * 10 + (uint c - 48)) 0 (takeWhile is_digit s);
          n = (if neg then - n else n)
      in if - (2 ^ 31) \<le> n \<and> n < 2 ^ 31 then Some n else None)"

text \<open>\<open>DB::Put\<close> before it writes: the globals \<open>head\<close> and \<open>tail\<close> follow the two reserved keys.\<close>

definition note_head_tail :: "bytes \<Rightarrow> bytes \<Rightarrow> 'f DbImpl \<Rightarrow> 'f DbImpl option" where
  "note_head_tail key v db =
     (if c_string key = text_bytes ''head'' then map_option (\<lambda>n. db\<lparr>db_head := n\<rparr>) (atoi v)
      else if c_string key = text_bytes ''tail'' then map_option (\<lambda>n. db\<lparr>db_tail := n\<rparr>) (atoi v)
      else Some db)"

definition DB_Put :: "Comparator \<Rightarrow> 'f WritableFile \<Rightarrow> ('f \<Rightarrow> (Status \<times> 'f) option) \<Rightarrow> nat \<Rightarrow> bool \<Rightarrow> bytes \<Rightarrow> bytes \<Rightarrow> 'f DbImpl \<Rightarrow>
    (Status \<times> 'f DbImpl) option" where
  "DB_Put U W Sync write_buffer_size sync key v db = do {
     db \<leftarrow> note_head_tail key v db;
     b \<leftarrow> WB_Put key v new_WriteBatch;
     (s, _, db) \<leftarrow> DB_Write U W Sync write_buffer_size [\<lparr>w_batch = Some b, w_sync = sync\<rparr>] db;
     Some (s, db) }"

definition DB_Delete :: "Comparator \<Rightarrow> 'f WritableFile \<Rightarrow> ('f \<Rightarrow> (Status \<times> 'f) option) \<Rightarrow> nat \<Rightarrow> bool \<Rightarrow> bytes \<Rightarrow> 'f DbImpl \<Rightarrow>
    (Status \<times> 'f DbImpl) option" where
  "DB_Delete U W Sync write_buffer_size sync key db = do {
     b \<leftarrow> WB_Delete key new_WriteBatch;
     (s, _, db) \<leftarrow> DB_Write U W Sync write_buffer_size [\<lparr>w_batch = Some b, w_sync = sync\<rparr>] db;
     Some (s, db) }"

section \<open>Reading\<close>

text \<open>The lookup in the two memtables; None for a key that neither knows, which the code then looks
  up in the tables on disk.\<close>

definition mem_lookup :: "Comparator \<Rightarrow> LookupKey \<Rightarrow> 'f DbImpl \<Rightarrow> bytes option option option" where
  "mem_lookup U lk db = do {
     r \<leftarrow> MGet U lk (db_mem db);
     case r of
       Some x \<Rightarrow> Some (Some x)
     | None \<Rightarrow> (case db_imm db of Some imm \<Rightarrow> MGet U lk imm | None \<Rightarrow> Some None) }"

text \<open>The request to the flash memory that a lookup leaves behind; a table without its two numbers is
  an access outside a vector.  Looking a key up enters it in the map.\<close>

definition push_read :: "bytes \<Rightarrow> 'f DbImpl \<Rightarrow> 'f DbImpl option" where
  "push_read key db =
     (let t = c_string key;
          SSTableNum = (case KeySSTableMap db t of Some n \<Rightarrow> n | None \<Rightarrow> 0);
          db = db\<lparr>KeySSTableMap := (KeySSTableMap db)(t \<mapsto> SSTableNum)\<rparr>
      in if SSTableNum \<noteq> 0 then
           (case SSTableClusterMap db SSTableNum of
              Some (a # b # _) \<Rightarrow> Some (db\<lparr>Operations := Operations db @ [\<lparr>op_access = ReadType, op_start = a, op_length = b\<rparr>]\<rparr>)
            | _ \<Rightarrow> None)
         else Some db)"

definition DB_Get :: "Comparator \<Rightarrow> u64 option \<Rightarrow> bytes \<Rightarrow> 'f DbImpl \<Rightarrow> (bytes option option \<times> 'f DbImpl) option" where
  "DB_Get U snap key db = do {
     let s = (case snap of Some s \<Rightarrow> s | None \<Rightarrow> last_sequence db);
     lk \<leftarrow> new_LookupKey key s;
     r \<leftarrow> mem_lookup U lk db;
     db \<leftarrow> push_read key db;
     Some (r, db) }"

definition GetSnapshot :: "'f DbImpl \<Rightarrow> u64 \<times> 'f DbImpl" where
  "GetSnapshot db = (last_sequence db, db\<lparr>snapshot_list := snapshot_list db @ [last_sequence db]\<rparr>)"

definition ReleaseSnapshot :: "u64 \<Rightarrow> 'f DbImpl \<Rightarrow> 'f DbImpl" where
  "ReleaseSnapshot s db = db\<lparr>snapshot_list := remove1 s (snapshot_list db)\<rparr>"

section \<open>Replaying a log\<close>

text \<open>
  The state of the replay: the status, the memtable, the largest sequence number, the memtables that
  grew too large and were written to tables.
\<close>

record Replay =
  rp_status :: Status
  rp_mem :: "MemTable option"
  rp_max :: u64
  rp_flushed :: "MemTable list"

definition MaybeIgnoreError :: "bool \<Rightarrow> Status \<Rightarrow> Status" where
  "MaybeIgnoreError paranoid s = (if is_ok s \<or> paranoid then s else OK)"

text \<open>With paranoid checks a report of the reader becomes the status, unless there is an error already.\<close>

definition note_report :: "bool \<Rightarrow> (u64 \<times> Status) list \<Rightarrow> Status \<Rightarrow> Status" where
  "note_report paranoid rs s = (if paranoid \<and> is_ok s then (case rs of [] \<Rightarrow> s | r # _ \<Rightarrow> snd r) else s)"

definition replay_record :: "Comparator \<Rightarrow> bool \<Rightarrow> nat \<Rightarrow> bytes \<Rightarrow> Replay \<Rightarrow> Replay option" where
  "replay_record U paranoid write_buffer_size rec p =
     (if length rec < 12 then
        Some (p\<lparr>rp_status := note_report paranoid [(word_of_nat (length rec), Corruption ''log record too small'' [])] (rp_status p)\<rparr>)
      else do {
        b \<leftarrow> SetContents rec;
        mem \<leftarrow> (case rp_mem p of Some m \<Rightarrow> Some m | None \<Rightarrow> map_option MRef new_MemTable);
        (s, mem) \<leftarrow> InsertInto U b mem;
        let s = MaybeIgnoreError paranoid s;
        let p = p\<lparr>rp_status := s, rp_mem := Some mem\<rparr>;
        if \<not> is_ok s then Some p
        else do {
          q \<leftarrow> Sequence b;
          n \<leftarrow> WB_Count b;
          let last_seq = q + word_of_int n - 1;
          let p = p\<lparr>rp_max := (if last_seq > rp_max p then last_seq else rp_max p)\<rparr>;
          Some (if ApproximateMemoryUsage mem > write_buffer_size
            then p\<lparr>rp_mem := None, rp_flushed := rp_flushed p @ [mem]\<rparr> else p) } })"

text \<open>The loop over the records; \<open>fuel\<close> bounds its rounds, and the steps of the reader.\<close>

fun replay_loop :: "Comparator \<Rightarrow> 'f SequentialFile \<Rightarrow> bool \<Rightarrow> nat \<Rightarrow> nat \<Rightarrow> nat \<Rightarrow> 'f Reader \<Rightarrow> Replay \<Rightarrow> Replay option" where
  "replay_loop U R paranoid write_buffer_size fuel 0 r p = None"
| "replay_loop U R paranoid write_buffer_size fuel (Suc k) r p = do {
     let seen = (case reporter r of Some l \<Rightarrow> length l | None \<Rightarrow> 0);
     (x, r) \<leftarrow> ReadRecord R fuel r;
     let reports = (case reporter r of Some l \<Rightarrow> drop seen l | None \<Rightarrow> []);
     let p = p\<lparr>rp_status := note_report paranoid reports (rp_status p)\<rparr>;
     case x of
       None \<Rightarrow> Some p
     | Some rec \<Rightarrow> if is_ok (rp_status p) then do {
           p \<leftarrow> replay_record U paranoid write_buffer_size rec p;
           if is_ok (rp_status p) \<or> length rec < 12 then replay_loop U R paranoid write_buffer_size fuel k r p else Some p }
         else Some p }"

text \<open>At the end the last memtable becomes that of the database, if the log is reused, or is written to
  a table as well.  \<open>reuse\<close> says that the option \<open>reuse_logs\<close> is set and the log is the last one; \<open>sized\<close> and
  \<open>appendable\<close> are what \<open>GetFileSize\<close> and \<open>NewAppendableFile\<close> answer for the name of the log.  The result has the
  writer that continues the log, if it is kept.\<close>

definition RecoverLogFile :: "Comparator \<Rightarrow> 'f SequentialFile \<Rightarrow> bool \<Rightarrow> nat \<Rightarrow> bool \<Rightarrow> Status \<times> nat \<Rightarrow> Status \<times> 'g \<Rightarrow>
    nat \<Rightarrow> nat \<Rightarrow> 'f \<Rightarrow> u64 \<Rightarrow> (Replay \<times> 'g Writer option) option" where
  "RecoverLogFile U R paranoid write_buffer_size reuse sized appendable fuel k f max_sequence = do {
     p \<leftarrow> replay_loop U R paranoid write_buffer_size fuel k (new_Reader f True True 0)
       \<lparr>rp_status = OK, rp_mem = None, rp_max = max_sequence, rp_flushed = []\<rparr>;
     if is_ok (rp_status p) \<and> reuse \<and> rp_flushed p = [] \<and> is_ok (fst sized) \<and> is_ok (fst appendable) then
       (let log = new_Writer_at (snd appendable) (snd sized) in
        case rp_mem p of
          Some m \<Rightarrow> Some (p, Some log)
        | None \<Rightarrow> map_option (\<lambda>m. (p\<lparr>rp_mem := Some (MRef m)\<rparr>, Some log)) new_MemTable)
     else Some (case rp_mem p of
          Some m \<Rightarrow> if is_ok (rp_status p) then p\<lparr>rp_mem := None, rp_flushed := rp_flushed p @ [m]\<rparr> else p\<lparr>rp_mem := None\<rparr>
        | None \<Rightarrow> p, None) }"

section \<open>A new database in memory\<close>

text \<open>What \<open>DB::Open\<close> sets up when there is nothing to recover: an empty log file and a memtable.\<close>

definition open_new :: "'f \<Rightarrow> 'f DbImpl option" where
  "open_new f = do {
     m \<leftarrow> new_MemTable;
     Some \<lparr>db_log = new_Writer f, db_mem = MRef m, db_imm = None, last_sequence = 0, bg_error = OK, db_head = 0, db_tail = 0,
       KeySSTableMap = Map.empty, SSTableClusterMap = Map.empty, Operations = [], snapshot_list = []\<rparr> }"

definition WritableFileImpl_Sync :: "InMemoryEnv \<times> nat \<Rightarrow> (Status \<times> InMemoryEnv \<times> nat) option" where
  "WritableFileImpl_Sync f = Some (OK, f)"

end
