(* ===== verification/Db_Recovery.thy ===== *)
theory Db_Recovery
  imports Db_Write
begin

text \<open>
  The write path and the replay: group commit keeps the log and the memtable in step, and a log cut
  by a crash gives back a prefix of the batches.
\<close>

section \<open>The memory of a memtable\<close>

lemma AllocateFallback_usage: "memory_usage (snd (AllocateFallback n A)) \<le> memory_usage A + n + 4104"
  by (simp add: AllocateFallback_def AllocateNewBlock_def MemoryUsage_def arena_kBlockSize_def)

lemma Allocate_usage: "Allocate n A = Some (p, A') \<Longrightarrow> memory_usage A' \<le> memory_usage A + n + 4104"
  using AllocateFallback_usage [of n A] by (auto simp: Allocate_def split: if_splits)

lemma AllocateAligned_usage: "AllocateAligned n A = Some (p, A') \<Longrightarrow> memory_usage A' \<le> memory_usage A + n + 4104"
  using AllocateFallback_usage [of n A] by (auto simp: AllocateAligned_def Let_def split: if_splits prod.splits)

definition op_cost :: "u64 \<times> ValueType \<times> bytes \<times> bytes \<Rightarrow> nat" where
  "op_cost = (\<lambda>(s, t, k, v). length k + length v + 10000)"

lemma MAdd_usage:
  assumes "MAdd U s t k v m = Some m'"
  shows "ApproximateMemoryUsage m' \<le> ApproximateMemoryUsage m + op_cost (s, t, k, v)"
proof -
  have l: "length (entry_bytes s t k v) \<le> length k + length v + 18"
    using EncodeVarint32_length [of "word_of_nat (length k + 8)"] EncodeVarint32_length [of "word_of_nat (length v)"]
    by (simp add: entry_bytes_def)
  obtain p A q A' tb where a: "Allocate (length (entry_bytes s t k v)) (arena m) = Some (p, A)"
      "AllocateAligned (16 + 8 * (fst (RandomHeight (rnd (mtable m))) - 1)) A = Some (q, A')" "m' = m\<lparr>arena := A', mtable := tb\<rparr>"
    using assms by (auto simp: MAdd_def Let_def split: bind_splits prod.splits)
  have "16 + 8 * (fst (RandomHeight (rnd (mtable m))) - 1) \<le> (104 :: nat)"
    using RandomHeight_bounds(2) [of "rnd (mtable m)"] by (simp add: kMaxHeight_def)
  then show ?thesis using Allocate_usage [OF a(1)] AllocateAligned_usage [OF a(2)] l a(3)
    by (simp add: ApproximateMemoryUsage_def MemoryUsage_def op_cost_def)
qed

lemma MAdd_all_usage: "MAdd_all U ops m = Some m' \<Longrightarrow> ApproximateMemoryUsage m' \<le> ApproximateMemoryUsage m + sum_list (map op_cost ops)"
proof (induction ops arbitrary: m)
  case (Cons op ops)
  obtain s t k v where op: "op = (s, t, k, v)" by (cases op)
  then obtain m1 where m1: "MAdd U s t k v m = Some m1" "MAdd_all U ops m1 = Some m'" using Cons.prems by (auto split: bind_splits)
  show ?case using Cons.IH [OF m1(2)] MAdd_usage [OF m1(1)] op by simp
qed simp

lemma new_MemTable_usage: "new_MemTable = Some m \<Longrightarrow> ApproximateMemoryUsage m \<le> 10000"
  using AllocateAligned_usage
  by (fastforce simp: new_MemTable_def ApproximateMemoryUsage_def MemoryUsage_def new_Arena_def kMaxHeight_def split: bind_splits prod.splits)

section \<open>Updates with sequence numbers\<close>

fun number :: "u64 \<Rightarrow> update list \<Rightarrow> (u64 \<times> ValueType \<times> bytes \<times> bytes) list" where
  "number s [] = []"
| "number s (BPut k v # us) = (s, kTypeValue, k, v) # number (s + 1) us"
| "number s (BDelete k # us) = (s, kTypeDeletion, k, []) # number (s + 1) us"

fun update_cost :: "update \<Rightarrow> nat" where
  "update_cost (BPut k v) = length k + length v + 10000"
| "update_cost (BDelete k) = length k + 10000"

lemma number_append: "number s (us @ vs) = number s us @ number (s + word_of_nat (length us)) vs"
  by (induction s us rule: number.induct) (simp_all add: algebra_simps)

lemma number_cost: "sum_list (map op_cost (number s us)) = sum_list (map update_cost us)"
  by (induction s us rule: number.induct) (simp_all add: op_cost_def)

lemma unat_Suc: "unat (s :: u64) < 2 ^ 56 \<Longrightarrow> unat (s + 1) = Suc (unat s)"
  by (simp add: unat_word_ariths)

lemma number_range:
  "unat s + length us \<le> 2 ^ 56 \<Longrightarrow> \<forall>op \<in> set (number s us). unat s \<le> unat (fst op) \<and> unat (fst op) < unat s + length us"
  by (induction s us rule: number.induct) (fastforce simp: unat_Suc)+

lemma number_sorted: "unat s + length us \<le> 2 ^ 56 \<Longrightarrow> sorted_wrt (\<lambda>a b. fst a < fst b) (number s us)"
proof (induction s us rule: number.induct)
  case (2 s k v us)
  have "unat (s + 1) = Suc (unat s)" using 2 by (intro unat_Suc) simp
  then show ?case using 2 number_range [of "s + 1" us] by (fastforce simp: word_less_nat_alt)
next
  case (3 s k us)
  have "unat (s + 1) = Suc (unat s)" using 3 by (intro unat_Suc) simp
  then show ?case using 3 number_range [of "s + 1" us] by (fastforce simp: word_less_nat_alt)
qed simp

lemma number_ok:
  assumes "list_all small_update us" "unat s + length us \<le> 2 ^ 56"
  shows "list_all op_ok (number s us)"
  using assms
proof (induction s us rule: number.induct)
  case (2 s k v us)
  have u: "unat (s + 1) = Suc (unat s)" using 2 by (intro unat_Suc) simp
  have "s \<le> kMaxSequenceNumber" using 2 by (simp add: word_le_nat_alt kMaxSequenceNumber_def)
  then show ?case using 2 u by (simp add: op_ok_def)
next
  case (3 s k us)
  have u: "unat (s + 1) = Suc (unat s)" using 3 by (intro unat_Suc) simp
  have "s \<le> kMaxSequenceNumber" using 3 by (simp add: word_le_nat_alt kMaxSequenceNumber_def)
  then show ?case using 3 u by (simp add: op_ok_def)
qed simp

lemma handle_inserter: "handle (MemTableInserter U) us (s, m) = map_option (Pair (s + word_of_nat (length us))) (MAdd_all U (number s us) m)"
proof (induction us arbitrary: s m)
  case (Cons u us)
  show ?case
  proof (cases u)
    case (BPut k v)
    then show ?thesis using Cons by (cases "MAdd U s kTypeValue k v m") (simp_all add: MemTableInserter_def algebra_simps)
  next
    case (BDelete k)
    then show ?thesis using Cons by (cases "MAdd U s kTypeDeletion k [] m") (simp_all add: MemTableInserter_def algebra_simps)
  qed
qed simp

lemma InsertInto_batch:
  assumes "small_batch us"
  shows "InsertInto U (batch_bytes s us) m = map_option (Pair OK) (MAdd_all U (number s us) m)"
  unfolding InsertInto_def batch_parts Option.bind.simps Iterate_bytes [OF assms] handle_inserter
  by (cases "MAdd_all U (number s us) m") simp_all

section \<open>Memtables and logs of groups\<close>

text \<open>The memtable after the first updates of a database.\<close>

definition mem_of :: "Comparator \<Rightarrow> update list \<Rightarrow> MemTable \<Rightarrow> bool" where
  "mem_of U us m \<longleftrightarrow> mem_holds U m (number 1 us) \<and> ApproximateMemoryUsage m \<le> 10000 + sum_list (map update_cost us)"

text \<open>The records of the log, one for each group.\<close>

fun group_records :: "u64 \<Rightarrow> update list list \<Rightarrow> bytes list" where
  "group_records s [] = []"
| "group_records s (g # gs) = batch_bytes s g # group_records (s + word_of_nat (length g)) gs"

lemma group_records_append: "group_records s (gs @ hs) = group_records s gs @ group_records (s + word_of_nat (length (concat gs))) hs"
  by (induction gs arbitrary: s) (simp_all add: algebra_simps)

lemma length_group_records [simp]: "length (group_records s gs) = length gs"
  by (induction gs arbitrary: s) simp_all

lemma take_group_records: "take n (group_records s gs) = group_records s (take n gs)"
  by (induction gs arbitrary: s n) (auto simp: take_Cons split: nat.splits)

lemma new_mem_of: "\<exists>m. new_MemTable = Some m \<and> mem_of U [] (MRef m)"
proof -
  obtain m where m: "new_MemTable = Some m" "mem_holds U m []" using new_MemTable_ok by blast
  then show ?thesis using new_MemTable_usage [OF m(1)] by (intro exI [of _ m]) (simp add: mem_of_def MRef_def mem_holds_def ApproximateMemoryUsage_def)
qed

context user_comparator
begin

lemma insert_group:
  assumes m: "mem_of C us m" and g: "small_batch g" "list_all small_update us" "length us + length g < 2 ^ 56"
  shows "\<exists>m'. InsertInto C (batch_bytes (word_of_nat (length us) + 1) g) m = Some (OK, m') \<and> mem_of C (us @ g) m'"
proof -
  have w: "unat (1 + word_of_nat (length us) :: u64) = Suc (length us)"
  proof -
    have "unat (word_of_nat (length us) :: u64) = length us" using g(3) by (simp add: unat_of_nat take_bit_nat_eq_self)
    then show ?thesis using unat_Suc [of "word_of_nat (length us)"] g(3) by (simp add: add.commute)
  qed
  let ?ops = "number (1 + word_of_nat (length us)) g"
  have e: "number 1 (us @ g) = number 1 us @ ?ops" by (simp add: number_append)
  have s: "sorted_wrt (\<lambda>a b. fst a < fst b) (number 1 us @ ?ops)" unfolding e [symmetric] using g(3) by (intro number_sorted) simp
  have o: "list_all op_ok ?ops" using g w by (intro number_ok) (simp_all add: small_batch_def)
  obtain m' where m': "MAdd_all C ?ops m = Some m'" "mem_holds C m' (number 1 us @ ?ops)"
    using MAdd_all_ok [OF _ o s] m by (auto simp: mem_of_def)
  have "mem_of C (us @ g) m'" using m' m MAdd_all_usage [OF m'(1)] by (simp add: mem_of_def e number_cost)
  then show ?thesis unfolding InsertInto_batch [OF g(1)] using m'(1) by (simp add: add.commute)
qed

lemma mem_of_lookup:
  assumes "mem_of C us m" "length us < 2 ^ 56" "s \<le> kMaxSequenceNumber" "length key + 8 < 2 ^ 32"
  shows "\<exists>lk. new_LookupKey key s = Some lk \<and> MGet C lk m = Some (lookup_result (newest C key s (number 1 us)))"
proof (rule MGet_ok)
  show "sorted_wrt (\<lambda>a b. fst a < fst b) (number 1 us)" using assms(2) by (intro number_sorted) simp
qed (use assms in \<open>simp_all add: mem_of_def\<close>)

end

section \<open>Group commit\<close>

text \<open>A writer with a list of updates of its own, and whether it wants the log synced.\<close>

definition writer_of :: "update list \<times> bool \<Rightarrow> BWriter" where
  "writer_of q = \<lparr>w_batch = apply_updates (fst q) new_WriteBatch, w_sync = snd q\<rparr>"

lemma writer_of_batch: "length (fst q) < 2 ^ 31 \<Longrightarrow> w_batch (writer_of q) = Some (batch_bytes 0 (fst q))"
  using apply_updates_bytes [of "[]" "fst q" 0] by (simp add: writer_of_def batch_bytes_new)

lemma sum_list_parts: "sum_list (map (length \<circ> fst) qs) = length (concat (map fst qs))"
  by (induction qs) simp_all

lemma group_loop_ok:
  "length us + length (concat (map fst qs)) < 2 ^ 31 \<Longrightarrow>
   \<exists>j \<le> length qs. group_loop first_sync max_size (map writer_of qs) tmp (batch_bytes 0 us) sz n =
     Some (batch_bytes 0 (us @ concat (map fst (take j qs))), n + j)"
proof (induction qs arbitrary: tmp us sz n)
  case (Cons q qs)
  have b: "w_batch (writer_of q) = Some (batch_bytes 0 (fst q))" using Cons.prems by (intro writer_of_batch) simp
  have stop: "\<exists>j \<le> length (q # qs). Some (batch_bytes 0 us, n) = Some (batch_bytes 0 (us @ concat (map fst (take j (q # qs)))), n + j)"
    by (rule exI [of _ 0]) simp
  have t: "(if tmp then Some (batch_bytes 0 us) else WB_Append new_WriteBatch (batch_bytes 0 us)) = Some (batch_bytes 0 us)"
    using batch_append [of "[]" us 0 0] Cons.prems by (simp add: batch_bytes_new)
  have a: "WB_Append (batch_bytes 0 us) (batch_bytes 0 (fst q)) = Some (batch_bytes 0 (us @ fst q))"
    using Cons.prems by (intro batch_append) simp_all
  show ?case
  proof (cases "w_sync (writer_of q) \<and> \<not> first_sync \<or> sz + ByteSize (batch_bytes 0 (fst q)) > max_size")
    case True
    then have "group_loop first_sync max_size (map writer_of (q # qs)) tmp (batch_bytes 0 us) sz n = Some (batch_bytes 0 us, n)"
      using b by (auto simp: Let_def)
    then show ?thesis using stop by simp
  next
    case False
    have "length (us @ fst q) + length (concat (map fst qs)) < 2 ^ 31" using Cons.prems by simp
    from Cons.IH [OF this, of True "sz + ByteSize (batch_bytes 0 (fst q))" "n + 1"] obtain j where
      j: "j \<le> length qs" "group_loop first_sync max_size (map writer_of qs) True (batch_bytes 0 (us @ fst q)) (sz + ByteSize (batch_bytes 0 (fst q))) (n + 1) =
        Some (batch_bytes 0 ((us @ fst q) @ concat (map fst (take j qs))), n + 1 + j)" by blast
    have "group_loop first_sync max_size (map writer_of (q # qs)) tmp (batch_bytes 0 us) sz n =
        Some (batch_bytes 0 (us @ concat (map fst (take (Suc j) (q # qs)))), n + Suc j)"
      using False b t a j(2) by (auto simp: Let_def)
    then show ?thesis using j(1) by (intro exI [of _ "Suc j"]) simp
  qed
qed simp

lemma BuildBatchGroup_ok:
  assumes "qs \<noteq> []" "length (concat (map fst qs)) < 2 ^ 31"
  shows "\<exists>n. 1 \<le> n \<and> n \<le> length qs \<and> BuildBatchGroup (map writer_of qs) = Some (batch_bytes 0 (concat (map fst (take n qs))), n)"
proof -
  obtain q qs' where q: "qs = q # qs'" using assms(1) by (cases qs) auto
  have b: "w_batch (writer_of q) = Some (batch_bytes 0 (fst q))" using assms(2) q by (intro writer_of_batch) simp
  let ?sz = "ByteSize (batch_bytes 0 (fst q))"
  let ?max = "if ?sz \<le> 128 * 1024 then ?sz + 128 * 1024 else 1024 * 1024"
  obtain j where j: "j \<le> length qs'" "group_loop (w_sync (writer_of q)) ?max (map writer_of qs') False (batch_bytes 0 (fst q)) ?sz 1 =
      Some (batch_bytes 0 (fst q @ concat (map fst (take j qs'))), 1 + j)"
  proof -
    have "length (fst q) + length (concat (map fst qs')) < 2 ^ 31" using assms(2) q by simp
    from group_loop_ok [OF this, of "w_sync (writer_of q)" ?max False ?sz 1] show ?thesis using that by blast
  qed
  then show ?thesis using b q by (intro exI [of _ "Suc j"]) (simp add: BuildBatchGroup_def Let_def)
qed

text \<open>No key was written to a table on disk.\<close>

definition no_tables :: "'f DbImpl \<Rightarrow> bool" where
  "no_tables db \<longleftrightarrow> (\<forall>t. KeySSTableMap db t = None \<or> KeySSTableMap db t = Some 0)"

lemma no_tables_same: "KeySSTableMap db' = KeySSTableMap db \<Longrightarrow> no_tables db \<Longrightarrow> no_tables db'"
  by (simp add: no_tables_def)

lemma push_read_no_tables:
  assumes "no_tables db"
  shows "\<exists>m. push_read key db = Some (db\<lparr>KeySSTableMap := m\<rparr>) \<and> no_tables (db\<lparr>KeySSTableMap := m\<rparr>)"
proof -
  let ?m = "(KeySSTableMap db)(c_string key \<mapsto> 0)"
  have "KeySSTableMap db (c_string key) = None \<or> KeySSTableMap db (c_string key) = Some 0" using assms by (simp add: no_tables_def)
  then have "push_read key db = Some (db\<lparr>KeySSTableMap := ?m\<rparr>)" by (auto simp: push_read_def Let_def)
  then show ?thesis using assms by (intro exI [of _ ?m]) (simp add: no_tables_def)
qed

text \<open>A database whose log and memtable hold the same updates, which went in in groups.\<close>

locale db_writer = user_comparator C + log_writer W written
  for C :: Comparator and W :: "'f WritableFile" and written +
  fixes Sync :: "'f \<Rightarrow> (Status \<times> 'f) option"
  assumes Sync_ok: "written f c \<Longrightarrow> \<exists>f'. Sync f = Some (OK, f') \<and> written f' c"
begin

definition db_holds :: "'f DbImpl \<Rightarrow> update list list \<Rightarrow> bool" where
  "db_holds db gs \<longleftrightarrow> writer_at (db_log db) (log_bytes 0 (group_records 1 gs)) \<and> mem_of C (concat gs) (db_mem db) \<and>
     last_sequence db = word_of_nat (length (concat gs)) \<and> bg_error db = OK \<and> db_imm db = None \<and> no_tables db"

lemma AddRecord_ok:
  "writer_at w (log_bytes 0 ds) \<Longrightarrow> \<exists>w'. AddRecord W d w = Some (OK, w') \<and> writer_at w' (log_bytes 0 (ds @ [d]))"
  using add_loop_ok [of w "log_bytes 0 ds" True d] by (auto simp: AddRecord_def log_bytes_append Let_def)

lemma DB_Write_ok:
  assumes db: "db_holds db gs" and qs: "qs \<noteq> []" "list_all small_update (concat gs @ concat (map fst qs))"
      "length (concat gs) + length (concat (map fst qs)) < 2 ^ 31"
    and room: "10000 + sum_list (map update_cost (concat gs)) \<le> write_buffer_size"
  shows "\<exists>n db'. 1 \<le> n \<and> n \<le> length qs \<and> DB_Write C W Sync write_buffer_size (map writer_of qs) db = Some (OK, n, db') \<and>
    db_holds db' (gs @ [concat (map fst (take n qs))])"
proof -
  let ?us = "concat gs"
  obtain n where n: "1 \<le> n" "n \<le> length qs" "BuildBatchGroup (map writer_of qs) = Some (batch_bytes 0 (concat (map fst (take n qs))), n)"
    using BuildBatchGroup_ok [OF qs(1)] qs(3) by auto
  let ?g = "concat (map fst (take n qs))"
  have sp: "concat (map fst qs) = ?g @ concat (map fst (drop n qs))" by (metis append_take_drop_id concat_append map_append)
  have g: "small_batch ?g" "list_all small_update ?us" "length ?us + length ?g < 2 ^ 31"
    using qs(2,3) unfolding sp by (simp_all add: small_batch_def)
  have l: "last_sequence db + 1 = word_of_nat (length ?us) + 1" using db by (simp add: db_holds_def)
  obtain m' where m': "InsertInto C (batch_bytes (word_of_nat (length ?us) + 1) ?g) (db_mem db) = Some (OK, m')" "mem_of C (?us @ ?g) m'"
    using insert_group [OF _ g(1,2)] db g(3) by (fastforce simp: db_holds_def)
  have gr: "group_records 1 (gs @ [?g]) = group_records 1 gs @ [batch_bytes (word_of_nat (length ?us) + 1) ?g]"
    by (simp add: group_records_append add.commute)
  obtain lg where lg: "AddRecord W (batch_bytes (word_of_nat (length ?us) + 1) ?g) (db_log db) = Some (OK, lg)"
      "writer_at lg (log_bytes 0 (group_records 1 (gs @ [?g])))"
    unfolding gr using AddRecord_ok [of "db_log db"] db by (auto simp: db_holds_def)
  obtain q qs' where q: "qs = q # qs'" using qs(1) by (cases qs) auto
  have b: "w_batch (writer_of q) = Some (batch_bytes 0 (fst q))" using qs(3) q by (intro writer_of_batch) simp
  obtain f where f: "Sync (dest lg) = Some (OK, f)" "written f (log_bytes 0 (group_records 1 (gs @ [?g])))"
    using Sync_ok [of "dest lg"] lg(2) by (auto simp: writer_at_def)
  define lg' where "lg' = (if w_sync (writer_of q) then lg\<lparr>dest := f\<rparr> else lg)"
  have sync: "(if is_ok OK \<and> w_sync (writer_of q) then do {
           (status, f) \<leftarrow> Sync (dest lg);
           Some (status, \<not> is_ok status, lg\<lparr>dest := f\<rparr>) }
         else Some (OK, False, lg)) = Some (OK, False, lg')" using f(1) by (simp add: lg'_def)
  have wl: "writer_at lg' (log_bytes 0 (group_records 1 (gs @ [?g])))" using lg(2) f(2) by (simp add: lg'_def writer_at_def)
  have room': "MakeRoomForWrite write_buffer_size False db = Some OK"
    using db room by (simp add: MakeRoomForWrite_def db_holds_def mem_of_def)
  have c: "WB_Count (batch_bytes (word_of_nat (length ?us) + 1) ?g) = Some (int (length ?g))" using g(3) by (intro batch_count) simp
  have last: "last_sequence db + word_of_int (int (length ?g)) = word_of_nat (length (?us @ ?g))" using db by (simp add: db_holds_def)
  have mono: "\<not> (word_of_nat (length (?us @ ?g)) :: u64) < last_sequence db"
  proof -
    have "unat (word_of_nat k :: u64) = k" if "k < 2 ^ 31" for k using that by (simp add: unat_of_nat take_bit_nat_eq_self)
    from this [of "length ?us"] this [of "length (?us @ ?g)"] show ?thesis using db g(3)
      by (simp add: db_holds_def word_less_nat_alt del: of_nat_add)
  qed
  let ?db = "db\<lparr>db_log := lg', db_mem := m', last_sequence := word_of_nat (length (?us @ ?g))\<rparr>"
  have "DB_Write C W Sync write_buffer_size (map writer_of qs) db = Some (OK, n, ?db)"
    using n(3) b room' m'(1) lg(1) sync c last mono unfolding q
    by (simp add: DB_Write_def l Contents_def batch_parts(2) Let_def)
  moreover have "db_holds ?db (gs @ [?g])" using db wl m'(2) no_tables_same [of ?db db] by (simp add: db_holds_def)
  ultimately show ?thesis using n(1,2) by blast
qed

lemma serve_queue_ok:
  assumes "db_holds db gs" "list_all small_update (concat gs @ concat (map fst qs))"
      "length (concat gs) + length (concat (map fst qs)) < 2 ^ 31"
      "10000 + sum_list (map update_cost (concat gs @ concat (map fst qs))) \<le> write_buffer_size"
  shows "\<exists>db' hs. serve_queue C W Sync write_buffer_size (map writer_of qs) db = Some (replicate (length qs) OK, db') \<and>
    db_holds db' (gs @ hs) \<and> concat hs = concat (map fst qs) \<and>
    (\<forall>k \<le> length hs. \<exists>n \<le> length qs. concat (take k hs) = concat (map fst (take n qs))) \<and> length hs \<le> length qs"
  using assms
proof (induction "length qs" arbitrary: qs db gs rule: less_induct)
  case less
  show ?case
  proof (cases "qs = []")
    case True
    then show ?thesis using less.prems(1) by (intro exI [of _ db] exI [of _ "[]"]) (simp add: serve_queue.simps)
  next
    case False
    obtain n db1 where n: "1 \<le> n" "n \<le> length qs" "DB_Write C W Sync write_buffer_size (map writer_of qs) db = Some (OK, n, db1)"
        "db_holds db1 (gs @ [concat (map fst (take n qs))])"
    proof -
      have "10000 + sum_list (map update_cost (concat gs)) \<le> write_buffer_size" using less.prems(4) by simp
      from DB_Write_ok [OF less.prems(1) False less.prems(2,3) this] show ?thesis using that by blast
    qed
    let ?g = "concat (map fst (take n qs))" and ?r = "drop n qs"
    have sp: "concat (map fst qs) = ?g @ concat (map fst ?r)" by (metis append_take_drop_id concat_append map_append)
    have l: "length ?r < length qs" using n(1) False by simp
    obtain db' hs where h: "serve_queue C W Sync write_buffer_size (map writer_of ?r) db1 = Some (replicate (length ?r) OK, db')"
        "db_holds db' ((gs @ [?g]) @ hs)" "concat hs = concat (map fst ?r)"
        "\<forall>k \<le> length hs. \<exists>i \<le> length ?r. concat (take k hs) = concat (map fst (take i ?r))" "length hs \<le> length ?r"
      using less.hyps [OF l n(4)] less.prems(2-4) unfolding sp by auto
    have "serve_queue C W Sync write_buffer_size (map writer_of qs) db = Some (replicate n OK @ replicate (length ?r) OK, db')"
      using n(1,3) h(1) False by (subst serve_queue.simps) (simp add: drop_map)
    moreover have "replicate n OK @ replicate (length ?r) OK = replicate (length qs) OK" using n(2) by (simp flip: replicate_add)
    moreover have "db_holds db' (gs @ (?g # hs))" using h(2) by simp
    moreover have "\<forall>k \<le> length (?g # hs). \<exists>i \<le> length qs. concat (take k (?g # hs)) = concat (map fst (take i qs))"
    proof (intro allI impI)
      fix k assume k: "k \<le> length (?g # hs)"
      show "\<exists>i \<le> length qs. concat (take k (?g # hs)) = concat (map fst (take i qs))"
      proof (cases k)
        case 0
        then show ?thesis by (intro exI [of _ 0]) simp
      next
        case (Suc j)
        then obtain i where i: "i \<le> length ?r" "concat (take j hs) = concat (map fst (take i ?r))" using h(4) k by auto
        then have "concat (take k (?g # hs)) = concat (map fst (take (n + i) qs))" using Suc by (simp add: take_add)
        then show ?thesis using i(1) n(2) by (intro exI [of _ "n + i"]) simp
      qed
    qed
    ultimately show ?thesis using h(3,5) n(1,2) sp
      by (intro exI [of _ db'] exI [of _ "?g # hs"]) simp
  qed
qed

lemma open_new_holds:
  assumes "written f []"
  shows "\<exists>db. open_new f = Some db \<and> db_holds db []"
proof -
  obtain m where m: "new_MemTable = Some m" "mem_of C [] (MRef m)" using new_mem_of by blast
  show ?thesis using m(2) writer_at_new(2) [OF assms] unfolding open_new_def m(1) Option.bind.simps by (simp add: db_holds_def no_tables_def)
qed

end

interpretation mem_db: db_writer BytewiseComparator mem_writable mem_written WritableFileImpl_Sync
  by unfold_locales (simp add: WritableFileImpl_Sync_def)

section \<open>Replay\<close>

text \<open>The replay after some updates.\<close>

definition replayed :: "Comparator \<Rightarrow> update list \<Rightarrow> Replay \<Rightarrow> bool" where
  "replayed U us p \<longleftrightarrow> rp_status p = OK \<and> rp_flushed p = [] \<and> rp_max p = word_of_nat (length us) \<and>
     (case rp_mem p of None \<Rightarrow> us = [] | Some m \<Rightarrow> mem_of U us m)"

lemma unat_u64: "k < 2 ^ 31 \<Longrightarrow> unat (word_of_nat k :: u64) = k"
  by (simp add: unat_of_nat take_bit_nat_eq_self)

context user_comparator
begin

lemma replay_record_ok:
  assumes p: "replayed C us p" and g: "small_batch g" "list_all small_update us" "length us + length g < 2 ^ 31"
    and room: "10000 + sum_list (map update_cost (us @ g)) \<le> write_buffer_size"
  shows "\<exists>p'. replay_record C paranoid write_buffer_size (batch_bytes (word_of_nat (length us) + 1) g) p = Some p' \<and> replayed C (us @ g) p'"
proof -
  let ?b = "batch_bytes (word_of_nat (length us) + 1) g"
  obtain m where m: "(case rp_mem p of Some m \<Rightarrow> Some m | None \<Rightarrow> map_option MRef new_MemTable) = Some m" "mem_of C us m"
    using p new_mem_of [of C] by (cases "rp_mem p") (auto simp: replayed_def)
  have "length us + length g < 2 ^ 56" using g(3) by simp
  from insert_group [OF m(2) g(1,2) this] obtain m' where m': "InsertInto C ?b m = Some (OK, m')" "mem_of C (us @ g) m'" by blast
  have u: "ApproximateMemoryUsage m' \<le> write_buffer_size" using m'(2) room by (simp add: mem_of_def)
  have c: "WB_Count ?b = Some (int (length g))" using g(3) by (intro batch_count) simp
  have last: "word_of_nat (length us) + 1 + word_of_int (int (length g)) - 1 = (word_of_nat (length (us @ g)) :: u64)" by simp
  have lt: "(word_of_nat (length us) :: u64) < word_of_nat (length (us @ g))" if "g \<noteq> []"
  proof -
    have "unat (word_of_nat (length us) :: u64) < unat (word_of_nat (length (us @ g)) :: u64)"
      using unat_u64 [of "length us"] unat_u64 [of "length (us @ g)"] g(3) that by (simp del: of_nat_add)
    then show ?thesis by (simp only: word_less_nat_alt)
  qed
  have l: "\<not> length ?b < 12" "SetContents ?b = Some ?b"
    using batch_parts(4) [of "word_of_nat (length us) + 1" g] by (simp_all add: SetContents_def batch_kHeader_def)
  let ?p = "p\<lparr>rp_status := OK, rp_mem := Some m', rp_max := word_of_nat (length (us @ g))\<rparr>"
  have "replay_record C paranoid write_buffer_size ?b p = Some ?p"
    unfolding replay_record_def l m(1) m'(1) c batch_parts Option.bind.simps prod.case Let_def last
    using p u l(1) lt by (cases "g = []") (simp_all add: MaybeIgnoreError_def replayed_def del: length_append of_nat_add)
  moreover have "replayed C (us @ g) ?p" using p m'(2) by (simp add: replayed_def)
  ultimately show ?thesis by blast
qed

end

locale db_reader = user_comparator C + log_reader R unread
  for C :: Comparator and R :: "'f SequentialFile" and unread
begin

lemma replay_loop_ok:
  assumes "reader_at off (take m (log_bytes off (group_records (word_of_nat (length us) + 1) gs))) (Some []) b r"
    and "length (log_bytes off (group_records (word_of_nat (length us) + 1) gs)) < fuel" "length gs < k"
    and "replayed C us p" "list_all small_update (us @ concat gs)" "length us + length (concat gs) < 2 ^ 31"
    and "10000 + sum_list (map update_cost (us @ concat gs)) \<le> write_buffer_size"
  shows "\<exists>p' n. n = complete off m (group_records (word_of_nat (length us) + 1) gs) \<and>
    replay_loop C R paranoid write_buffer_size fuel k r p = Some p' \<and> replayed C (us @ concat (take n gs)) p'"
  using assms
proof (induction gs arbitrary: off m us b r k p)
  case Nil
  obtain k' where k: "k = Suc k'" using Nil.prems(3) by (cases k) auto
  have "reader_at off [] (Some []) b r" "0 < fuel" using Nil.prems(1,2) by simp_all
  from ReadRecord_end [OF this] obtain r' where r': "ReadRecord R fuel r = Some (None, r')" "reporter r' = Some []" by blast
  have "p\<lparr>rp_status := note_report paranoid [] (rp_status p)\<rparr> = p" by (simp add: note_report_def)
  then have "replay_loop C R paranoid write_buffer_size fuel k r p = Some p"
    using r' reader_at_reporter [OF Nil.prems(1)] by (simp add: k Let_def)
  then show ?case using Nil.prems(4) by simp
next
  case (Cons g gs)
  let ?s = "word_of_nat (length us) + 1 :: u64"
  let ?d = "batch_bytes ?s g"
  let ?l = "length (place off (frags off True ?d))"
  let ?ds = "group_records (word_of_nat (length (us @ g)) + 1) gs"
  have ds: "group_records ?s (g # gs) = ?d # ?ds" by (simp add: add.commute add.left_commute)
  obtain k' where k: "k = Suc k'" using Cons.prems(3) by (cases k) auto
  have rep: "reporter r = Some []" using reader_at_reporter [OF Cons.prems(1)] .
  have np: "p\<lparr>rp_status := note_report paranoid [] (rp_status p)\<rparr> = p" by (simp add: note_report_def)
  have nr: "note_report paranoid [] st = st" "p\<lparr>rp_status := rp_status p\<rparr> = p" for st by (simp_all add: note_report_def)
  have ok: "is_ok (rp_status p)" using Cons.prems(4) by (simp add: replayed_def)
  note n = ReadRecord_next [OF Cons.prems(1) [unfolded ds] Cons.prems(2) [unfolded ds]]
  show ?case
  proof (cases "m < ?l")
    case True
    obtain r' where r': "ReadRecord R fuel r = Some (None, r')" "reporter r' = Some []" using n(1) [OF True] by blast
    then have "replay_loop C R paranoid write_buffer_size fuel k r p = Some p" using rep np by (simp add: k Let_def)
    moreover have "complete off m (group_records ?s (g # gs)) = 0" unfolding ds using True by (simp add: Let_def)
    ultimately show ?thesis using Cons.prems(4) by simp
  next
    case False
    obtain r1 b1 where r1: "ReadRecord R fuel r = Some (Some ?d, r1)" "reader_at (off + ?l) (take (m - ?l) (log_bytes (off + ?l) ?ds)) (Some []) b1 r1"
      using n(2) [OF False] by blast
    have g: "small_batch g" "list_all small_update us" "length us + length g < 2 ^ 31"
        "10000 + sum_list (map update_cost (us @ g)) \<le> write_buffer_size"
      using Cons.prems(5-7) by (simp_all add: small_batch_def)
    obtain p1 where p1: "replay_record C paranoid write_buffer_size ?d p = Some p1" "replayed C (us @ g) p1"
      using replay_record_ok [OF Cons.prems(4) g] by blast
    have "length (log_bytes (off + ?l) ?ds) < fuel" using Cons.prems(2) unfolding ds by (simp add: Let_def)
    moreover have "length gs < k'" using Cons.prems(3) k by simp
    moreover have "list_all small_update ((us @ g) @ concat gs)" "length (us @ g) + length (concat gs) < 2 ^ 31"
        "10000 + sum_list (map update_cost ((us @ g) @ concat gs)) \<le> write_buffer_size"
      using Cons.prems(5-7) by simp_all
    ultimately obtain p' where p': "replay_loop C R paranoid write_buffer_size fuel k' r1 p1 = Some p'"
        "replayed C ((us @ g) @ concat (take (complete (off + ?l) (m - ?l) ?ds) gs)) p'"
      using Cons.IH [OF r1(2) _ _ p1(2)] by blast
    have "is_ok (rp_status p1)" using p1(2) by (simp add: replayed_def)
    then have "replay_loop C R paranoid write_buffer_size fuel k r p = Some p'"
      using r1(1) reader_at_reporter [OF r1(2)] rep ok p1(1) p'(1) by (simp add: k Let_def nr)
    moreover have "complete off m (group_records ?s (g # gs)) = Suc (complete (off + ?l) (m - ?l) ?ds)"
      unfolding ds using False by (simp add: Let_def)
    ultimately show ?thesis using p'(2) by simp
  qed
qed

lemma RecoverLogFile_ok:
  assumes "unread f (take m (log_bytes 0 (group_records 1 gs)))" "length (log_bytes 0 (group_records 1 gs)) < fuel" "length gs < k"
    and "list_all small_update (concat gs)" "length (concat gs) < 2 ^ 31"
    and "10000 + sum_list (map update_cost (concat gs)) \<le> write_buffer_size"
  shows "\<exists>p mt us. RecoverLogFile C R paranoid write_buffer_size True (OK, sz) (OK, g) fuel k f 0 = Some (p, Some (new_Writer_at g sz)) \<and> rp_status p = OK \<and> rp_mem p = Some mt \<and> rp_flushed p = [] \<and>
    rp_max p = word_of_nat (length us) \<and> us = concat (take (complete 0 m (group_records 1 gs)) gs) \<and> mem_of C us mt"
proof -
  let ?p = "\<lparr>rp_status = OK, rp_mem = None, rp_max = 0, rp_flushed = []\<rparr>"
  have p: "replayed C [] ?p" by (simp add: replayed_def)
  have r: "reader_at 0 (take m (log_bytes 0 (group_records (word_of_nat (length ([] :: update list)) + 1) gs))) (Some []) 0 (new_Reader f True True 0)"
    using new_reader_at [OF assms(1), of True True] by simp
  obtain p' where p': "replay_loop C R paranoid write_buffer_size fuel k (new_Reader f True True 0) ?p = Some p'"
      "replayed C (concat (take (complete 0 m (group_records 1 gs)) gs)) p'"
  proof -
    have a: "length (log_bytes 0 (group_records (word_of_nat (length ([] :: update list)) + 1) gs)) < fuel" "list_all small_update ([] @ concat gs)"
        "length ([] :: update list) + length (concat gs) < 2 ^ 31" "10000 + sum_list (map update_cost ([] @ concat gs)) \<le> write_buffer_size"
      using assms(2,4-6) by simp_all
    from replay_loop_ok [OF r a(1) assms(3) p a(2-4)] show ?thesis using that by auto
  qed
  define us where "us = concat (take (complete 0 m (group_records 1 gs)) gs)"
  note p' = p' [folded us_def]
  have "\<exists>p mt. RecoverLogFile C R paranoid write_buffer_size True (OK, sz) (OK, g) fuel k f 0 = Some (p, Some (new_Writer_at g sz)) \<and> rp_status p = OK \<and> rp_mem p = Some mt \<and> rp_flushed p = [] \<and>
    rp_max p = word_of_nat (length us) \<and> mem_of C us mt"
  proof (cases "rp_mem p'")
    case (Some mt)
    then show ?thesis using p' by (simp add: RecoverLogFile_def replayed_def)
  next
    case None
    obtain mt where mt: "new_MemTable = Some mt" "mem_of C [] (MRef mt)" using new_mem_of by blast
    then show ?thesis using p' None unfolding RecoverLogFile_def mt(1) by (simp add: replayed_def)
  qed
  then show ?thesis using us_def by blast
qed

end

interpretation mem_db_reader: db_reader BytewiseComparator mem_sequential mem_unread
  by unfold_locales

end
