(* ===== verification/Db_Properties.thy ===== *)
theory Db_Properties
  imports Db_Recovery
begin

text \<open>The properties of batches and of the write path, over files in memory.\<close>

text \<open>The load that a memtable takes before it has to be written to a table: keys and values of less
  than 2^32 bytes, less than 2^31 updates, and no more memory than the write buffer.\<close>

definition fits_buffer :: "nat \<Rightarrow> (update list \<times> bool) list \<Rightarrow> bool" where
  "fits_buffer write_buffer_size qs \<longleftrightarrow> list_all small_update (concat (map fst qs)) \<and> length (concat (map fst qs)) < 2 ^ 31 \<and>
     10000 + sum_list (map update_cost (concat (map fst qs))) \<le> write_buffer_size"

text \<open>C31. A batch gives its updates back: after any updates were applied to a new batch, and a sequence
  number set, iteration calls the handler for exactly these updates in their order and reports
  success; the batch keeps its number, its count is the number of updates, and appending another
  batch appends its updates.\<close>
theorem write_batch_roundtrip:
  assumes "small_batch us" "small_batch vs" "length us + length vs < 2 ^ 31"
  shows "\<exists>b b' c. Option.bind (apply_updates us new_WriteBatch) (\<lambda>b. SetSequence b s) = Some b \<and>
    Sequence b = Some s \<and> WB_Count b = Some (int (length us)) \<and> Iterate H b h = map_option (Pair OK) (handle H us h) \<and>
    apply_updates vs new_WriteBatch = Some b' \<and> WB_Append b b' = Some c \<and> Sequence c = Some s \<and>
    Iterate H c h = map_option (Pair OK) (Option.bind (handle H us h) (handle H vs))"
proof -
  have l: "length us < 2 ^ 31" "length vs < 2 ^ 31" using assms(1,2) by (simp_all add: small_batch_def)
  have n: "apply_updates xs new_WriteBatch = Some (batch_bytes 0 xs)" if "length xs < 2 ^ 31" for xs
    using apply_updates_bytes [of "[]" xs 0] that by (simp add: batch_bytes_new)
  have uv: "small_batch (us @ vs)" using assms by (simp add: small_batch_def)
  have happ: "handle H (us @ vs) h = Option.bind (handle H us h) (handle H vs)" for h
    by (induction H us h rule: handle.induct) (simp_all add: bind_assoc split: bind_splits)
  show ?thesis
    unfolding n [OF l(1)] n [OF l(2)] Option.bind.simps batch_parts(2)
    by (rule exI [of _ "batch_bytes s us"], rule exI [of _ "batch_bytes 0 vs"], rule exI [of _ "batch_bytes s (us @ vs)"])
       (simp add: batch_append [OF l] batch_count [OF l(1)] Iterate_bytes [OF assms(1)] Iterate_bytes [OF uv] happ)
qed

text \<open>A handler that writes down what it is called for.\<close>

definition recorder :: "update list Handler" where
  "recorder = \<lparr>h_Put = (\<lambda>k v l. Some (l @ [BPut k v])), h_Delete = (\<lambda>k l. Some (l @ [BDelete k]))\<rparr>"

text \<open>Two batches through the recording handler.\<close>

theorem write_batch_roundtrip_witness:
  "\<exists>b b' c. Option.bind (apply_updates [BPut [1] [2], BDelete [3]] new_WriteBatch) (\<lambda>b. SetSequence b 7) = Some b \<and>
    apply_updates [BPut [4] []] new_WriteBatch = Some b' \<and> WB_Append b b' = Some c \<and>
    Iterate recorder b [] = Some (OK, [BPut [1] [2], BDelete [3]]) \<and>
    Iterate recorder c [] = Some (OK, [BPut [1] [2], BDelete [3], BPut [4] []])"
proof -
  have a: "small_batch [BPut [1] [2], BDelete [3]]" "small_batch [BPut [4] []]"
      "length [BPut [1] [2], BDelete [3]] + length [BPut [4] []] < 2 ^ 31" by (simp_all add: small_batch_def)
  have h: "handle recorder [BPut [1] [2], BDelete [3]] [] = Some [BPut [1] [2], BDelete [3]]"
    "handle recorder [BPut [4] []] l = Some (l @ [BPut [4] []])" for l by (simp_all add: recorder_def)
  from write_batch_roundtrip [OF a, of 7 recorder "[]"] show ?thesis unfolding h Option.bind.simps option.map by force
qed

lemma mem_db_writer: "user_comparator U \<Longrightarrow> db_writer U mem_writable mem_written WritableFileImpl_Sync"
  by (intro db_writer.intro mem_log_writer.log_writer_axioms db_writer_axioms.intro) (simp_all add: WritableFileImpl_Sync_def)

lemma mem_db_reader: "user_comparator U \<Longrightarrow> db_reader U mem_sequential mem_unread"
  by (intro db_reader.intro mem_log_reader.log_reader_axioms)

text \<open>The sequence number at which a lookup reads.\<close>

definition seen_at :: "u64 option \<Rightarrow> (update list \<times> bool) list \<Rightarrow> u64" where
  "seen_at snap qs = (case snap of Some s \<Rightarrow> s | None \<Rightarrow> word_of_nat (length (concat (map fst qs))))"

text \<open>C30. The database reads its writes: any queue of writers with batches that fit the write buffer is served
  with success, in groups, and afterwards a lookup at any snapshot gives the newest update up to
  that sequence number, where the updates of all batches are numbered from 1 in the order of the
  queue; without a snapshot it sees all of them.\<close>
theorem db_get_after_writes:
  assumes "user_comparator U" "mem_written f []" "fits_buffer write_buffer_size qs" "length key + 8 < 2 ^ 32"
    and "seen_at snap qs \<le> kMaxSequenceNumber"
  shows "\<exists>db db'. Option.bind (open_new f) (serve_queue U mem_writable WritableFileImpl_Sync write_buffer_size (map writer_of qs)) =
      Some (replicate (length qs) OK, db) \<and>
    DB_Get U snap key db = Some (lookup_result (newest U key (seen_at snap qs) (number 1 (concat (map fst qs)))), db') \<and> db_mem db' = db_mem db"
proof -
  have w: "db_writer U mem_writable mem_written WritableFileImpl_Sync"
    by (rule mem_db_writer [OF assms(1)])
  let ?us = "concat (map fst qs)"
  obtain db0 where db0: "open_new f = Some db0" "db_writer.db_holds U mem_written db0 []"
    using db_writer.open_new_holds [OF w assms(2)] by blast
  obtain db hs where db: "serve_queue U mem_writable WritableFileImpl_Sync write_buffer_size (map writer_of qs) db0 = Some (replicate (length qs) OK, db)"
      "db_writer.db_holds U mem_written db hs" "concat hs = ?us"
    using db_writer.serve_queue_ok [OF w db0(2), of qs write_buffer_size] assms(3) by (auto simp: fits_buffer_def)
  have h: "mem_of U ?us (db_mem db)" "last_sequence db = word_of_nat (length ?us)" "db_imm db = None" "no_tables db"
    using db(2,3) by (simp_all add: db_writer.db_holds_def [OF w])
  have l: "length ?us < 2 ^ 31" using assms(3) by (simp add: fits_buffer_def)
  define s where "s = seen_at snap qs"
  have s: "(case snap of Some s \<Rightarrow> s | None \<Rightarrow> last_sequence db) = s" "s \<le> kMaxSequenceNumber"
    using assms(5) h(2) by (auto simp: s_def seen_at_def split: option.splits)
  obtain lk where lk: "new_LookupKey key s = Some lk" "MGet U lk (db_mem db) = Some (lookup_result (newest U key s (number 1 ?us)))"
    using user_comparator.mem_of_lookup [OF assms(1) h(1) _ s(2) assms(4)] l by auto
  have "mem_lookup U lk db = Some (lookup_result (newest U key s (number 1 ?us)))"
    using lk(2) h(3) by (simp add: mem_lookup_def split: option.splits)
  moreover have "\<exists>db'. push_read key db = Some db' \<and> db_mem db' = db_mem db" using push_read_no_tables [OF h(4), of key] by fastforce
  ultimately have "\<exists>db'. DB_Get U snap key db = Some (lookup_result (newest U key s (number 1 ?us)), db') \<and> db_mem db' = db_mem db"
    unfolding DB_Get_def Let_def s(1) lk(1) Option.bind.simps by auto
  then show ?thesis unfolding db0(1) Option.bind.simps db(1) s_def [symmetric] by blast
qed

text \<open>Two writers; the second one deletes a key of the first.\<close>

theorem db_get_after_writes_witness:
  "\<exists>db db' db''. Option.bind (open_new (one_file [], 0)) (serve_queue BytewiseComparator mem_writable WritableFileImpl_Sync 100000
      (map writer_of [([BPut [1] [5], BPut [2] [6]], True), ([BDelete [1]], False)])) = Some ([OK, OK], db) \<and>
    DB_Get BytewiseComparator None [1] db = Some (Some None, db') \<and> DB_Get BytewiseComparator (Some 2) [1] db = Some (Some (Some [5]), db'')"
proof -
  let ?qs = "[([BPut [1] [5], BPut [2] [6]], True), ([BDelete [1]], False)]"
  have u: "user_comparator BytewiseComparator" by (rule bytewise_user.user_comparator_axioms)
  have f: "mem_written (one_file [], 0) []" by (simp add: mem_written_def file_holds_def one_file_def holds_def)
  have q: "fits_buffer 100000 ?qs" by (simp add: fits_buffer_def)
  have k: "length [1 :: byte] + 8 < 2 ^ 32" by simp
  have s: "seen_at None ?qs \<le> kMaxSequenceNumber" "seen_at (Some 2) ?qs \<le> kMaxSequenceNumber"
    by (simp_all add: seen_at_def kMaxSequenceNumber_def)
  have r: "lookup_result (newest BytewiseComparator [1] (seen_at None ?qs) (number 1 (concat (map fst ?qs)))) = Some None"
    "lookup_result (newest BytewiseComparator [1] (seen_at (Some 2) ?qs) (number 1 (concat (map fst ?qs)))) = Some (Some [5])" "length ?qs = 2"
    by (simp_all add: newest_def lookup_result_def BytewiseComparator_def seen_at_def)
  have rep: "replicate 2 OK = [OK, OK]" by (simp add: numeral_2_eq_2)
  from db_get_after_writes [OF u f q k s(1)] db_get_after_writes [OF u f q k s(2)]
  show ?thesis unfolding r rep by force
qed

text \<open>A replay ended with a memtable that answers every lookup as if exactly these batches had been written.\<close>

definition answers_as :: "Comparator \<Rightarrow> (update list \<times> bool) list \<Rightarrow> Replay \<Rightarrow> bool" where
  "answers_as U qs p \<longleftrightarrow> rp_status p = OK \<and> rp_max p = word_of_nat (length (concat (map fst qs))) \<and>
     (\<exists>mt. rp_mem p = Some mt \<and> (\<forall>key s. length key + 8 < 2 ^ 32 \<longrightarrow> s \<le> kMaxSequenceNumber \<longrightarrow>
       (\<exists>lk. new_LookupKey key s = Some lk \<and> MGet U lk mt = Some (lookup_result (newest U key s (number 1 (concat (map fst qs))))))))"

text \<open>C29. A crash loses no acknowledged write and splits no batch: after the queues \<open>q1\<close> and \<open>q2\<close> were served, let the
  file of the log be cut anywhere at or behind its end after \<open>q1\<close>.  The replay of the rest succeeds
  and gives a memtable that answers every lookup as if the batches of the first \<open>n\<close> writers had been
  written and nothing else, where these contain all of \<open>q1\<close>; the largest sequence number is
  the number of their updates.  If the size of the log can be read and it opens for appending, the log is kept,
  and its writer continues at that size.\<close>
theorem db_crash_recovery:
  assumes "user_comparator U" "mem_written f []" "fits_buffer write_buffer_size (q1 @ q2)"
  shows "\<exists>db1 db2 c1 c2. Option.bind (open_new f) (serve_queue U mem_writable WritableFileImpl_Sync write_buffer_size (map writer_of q1)) =
      Some (replicate (length q1) OK, db1) \<and>
    serve_queue U mem_writable WritableFileImpl_Sync write_buffer_size (map writer_of q2) db1 = Some (replicate (length q2) OK, db2) \<and>
    mem_written (dest (db_log db1)) c1 \<and> mem_written (dest (db_log db2)) c2 \<and>
    (\<forall>m fuel k e a paranoid sz (g :: InMemoryEnv \<times> nat). length c1 \<le> m \<and> length c2 < fuel \<and> length (q1 @ q2) < k \<and> file_holds e a (take m c2) \<longrightarrow>
      (\<exists>p n. length q1 \<le> n \<and> n \<le> length (q1 @ q2) \<and>
        RecoverLogFile U mem_sequential paranoid write_buffer_size True (OK, sz) (OK, g) fuel k
          (e, \<lparr>seq_file = a, pos = 0\<rparr>) 0 = Some (p, Some (new_Writer_at g sz)) \<and>
        answers_as U (take n (q1 @ q2)) p))"
proof -
  note w = mem_db_writer [OF assms(1)] and rd = mem_db_reader [OF assms(1)]
  let ?us1 = "concat (map fst q1)" and ?us2 = "concat (map fst q2)"
  have fit: "list_all small_update (?us1 @ ?us2)" "length ?us1 + length ?us2 < 2 ^ 31"
      "10000 + sum_list (map update_cost (?us1 @ ?us2)) \<le> write_buffer_size"
    using assms(3) by (simp_all add: fits_buffer_def)
  obtain db0 where db0: "open_new f = Some db0" "db_writer.db_holds U mem_written db0 []"
    using db_writer.open_new_holds [OF w assms(2)] by blast
  obtain db1 hs1 where d1: "serve_queue U mem_writable WritableFileImpl_Sync write_buffer_size (map writer_of q1) db0 = Some (replicate (length q1) OK, db1)"
      "db_writer.db_holds U mem_written db1 hs1" "concat hs1 = ?us1" "length hs1 \<le> length q1"
    using db_writer.serve_queue_ok [OF w db0(2), of q1 write_buffer_size] fit by auto
  obtain db2 hs2 where d2: "serve_queue U mem_writable WritableFileImpl_Sync write_buffer_size (map writer_of q2) db1 = Some (replicate (length q2) OK, db2)"
      "db_writer.db_holds U mem_written db2 (hs1 @ hs2)" "concat hs2 = ?us2" "length hs2 \<le> length q2"
      "\<forall>k \<le> length hs2. \<exists>n \<le> length q2. concat (take k hs2) = concat (map fst (take n q2))"
    using db_writer.serve_queue_ok [OF w d1(2), of q2 write_buffer_size] fit unfolding d1(3) by blast
  let ?c1 = "log_bytes 0 (group_records 1 hs1)" and ?c2 = "log_bytes 0 (group_records 1 (hs1 @ hs2))"
  have logs: "mem_written (dest (db_log db1)) ?c1" "mem_written (dest (db_log db2)) ?c2"
    using d1(2) d2(2) by (simp_all add: db_writer.db_holds_def [OF w] mem_log_writer.writer_at_def)
  have answers: "answers_as U (take n (q1 @ q2)) p"
    if "rp_status p = OK" "rp_mem p = Some mt" "rp_max p = word_of_nat (length us)" "us = concat (map fst (take n (q1 @ q2)))" "mem_of U us mt"
    for n p mt us
  proof -
    have "concat (map fst (q1 @ q2)) = us @ concat (map fst (drop n (q1 @ q2)))"
      unfolding that(4) by (metis append_take_drop_id concat_append map_append)
    then have "length us \<le> length (concat (map fst (q1 @ q2)))" by (metis le_add1 length_append)
    then have "length us < 2 ^ 56" using fit(2) by simp
    from user_comparator.mem_of_lookup [OF assms(1) that(5) this] show ?thesis
      using that(1-3) unfolding answers_as_def that(4) [symmetric] by blast
  qed
  have run: "\<exists>p n. length q1 \<le> n \<and> n \<le> length (q1 @ q2) \<and>
        RecoverLogFile U mem_sequential paranoid write_buffer_size True (OK, sz) (OK, g) fuel k
          (e, \<lparr>seq_file = a, pos = 0\<rparr>) 0 = Some (p, Some (new_Writer_at g sz)) \<and>
        answers_as U (take n (q1 @ q2)) p"
    if m: "length ?c1 \<le> m" and fuel: "length ?c2 < fuel" "length (q1 @ q2) < k" and e: "file_holds e a (take m ?c2)"
    for m fuel k e a paranoid sz and g :: "InMemoryEnv \<times> nat"
  proof -
    let ?n = "complete 0 m (group_records 1 (hs1 @ hs2))"
    have "mem_unread (e, \<lparr>seq_file = a, pos = 0\<rparr>) (take m ?c2)" using e by (auto simp: mem_unread_def)
    moreover have "length (hs1 @ hs2) < k" using fuel(2) d1(4) d2(4) by simp
    moreover have "list_all small_update (concat (hs1 @ hs2))" "length (concat (hs1 @ hs2)) < 2 ^ 31"
        "10000 + sum_list (map update_cost (concat (hs1 @ hs2))) \<le> write_buffer_size" using fit d1(3) d2(3) by simp_all
    ultimately obtain p mt us where p: "RecoverLogFile U mem_sequential paranoid write_buffer_size True (OK, sz) (OK, g) fuel k
          (e, \<lparr>seq_file = a, pos = 0\<rparr>) 0 = Some (p, Some (new_Writer_at g sz))"
        "rp_status p = OK" "rp_mem p = Some mt" "rp_max p = word_of_nat (length us)" "us = concat (take ?n (hs1 @ hs2))" "mem_of U us mt"
      using db_reader.RecoverLogFile_ok [OF rd _ fuel(1), where sz = sz and g = g] by blast
    have n1: "length hs1 \<le> ?n"
    proof (cases "hs1 = []")
      case False
      then have i: "length hs1 - 1 < length (group_records 1 (hs1 @ hs2))" "Suc (length hs1 - 1) = length hs1"
        by (cases hs1; simp)+
      have "take (length hs1) (group_records 1 (hs1 @ hs2)) = group_records 1 hs1" by (simp add: take_group_records)
      then have "length hs1 - 1 < ?n" using complete_iff [OF i(1), of 0 m] m unfolding i(2) by simp
      then show ?thesis using i(2) by linarith
    qed simp
    have n2: "?n - length hs1 \<le> length hs2" using complete_max [of 0 m "group_records 1 (hs1 @ hs2)"] by simp
    obtain j where j: "j \<le> length q2" "concat (take (?n - length hs1) hs2) = concat (map fst (take j q2))" using d2(5) n2 by blast
    have "us = concat (map fst (take (length q1 + j) (q1 @ q2)))" using p(5) n1 d1(3) j(2) by simp
    from answers [OF p(2,3,4) this p(6)] show ?thesis using p(1) j(1)
      by (intro exI [of _ p] exI [of _ "length q1 + j"]) simp
  qed
  show ?thesis unfolding db0(1) Option.bind.simps
  proof (intro exI conjI)
    show "\<forall>m fuel k e a paranoid sz (g :: InMemoryEnv \<times> nat). length ?c1 \<le> m \<and> length ?c2 < fuel \<and> length (q1 @ q2) < k \<and> file_holds e a (take m ?c2) \<longrightarrow>
      (\<exists>p n. length q1 \<le> n \<and> n \<le> length (q1 @ q2) \<and>
        RecoverLogFile U mem_sequential paranoid write_buffer_size True (OK, sz) (OK, g) fuel k
          (e, \<lparr>seq_file = a, pos = 0\<rparr>) 0 = Some (p, Some (new_Writer_at g sz)) \<and>
        answers_as U (take n (q1 @ q2)) p)"
      by (intro allI impI, elim conjE) (rule run)
  qed (rule d1(1) d2(1) logs)+
qed

text \<open>One writer is acknowledged, the batch of the next one is cut in the middle.\<close>

theorem db_crash_recovery_witness:
  "\<exists>db1 db2 c1 c2. Option.bind (open_new (one_file [], 0)) (serve_queue BytewiseComparator mem_writable WritableFileImpl_Sync 100000
      (map writer_of [([BPut [1] [5]], True)])) = Some ([OK], db1) \<and>
    serve_queue BytewiseComparator mem_writable WritableFileImpl_Sync 100000 (map writer_of [([BPut [2] [6], BDelete [1]], True)]) db1 = Some ([OK], db2) \<and>
    mem_written (dest (db_log db1)) c1 \<and> mem_written (dest (db_log db2)) c2 \<and>
    (\<exists>p. RecoverLogFile BytewiseComparator mem_sequential False 100000 True (OK, length c1) (OK, (one_file (take (length c1) c2), 0 :: nat)) (length c2 + 1) 3
        (one_file (take (length c1) c2), \<lparr>seq_file = 0, pos = 0\<rparr>) 0 = Some (p, Some (new_Writer_at (one_file (take (length c1) c2), 0 :: nat) (length c1))) \<and>
      (answers_as BytewiseComparator (take 1 [([BPut [1] [5]], True), ([BPut [2] [6], BDelete [1]], True)]) p \<or>
       answers_as BytewiseComparator [([BPut [1] [5]], True), ([BPut [2] [6], BDelete [1]], True)] p))"
proof -
  let ?q1 = "[([BPut [1] [5]], True)]" and ?q2 = "[([BPut [2] [6], BDelete [1]], True)]"
  have u: "user_comparator BytewiseComparator" by (rule bytewise_user.user_comparator_axioms)
  have h: "file_holds (one_file c) 0 c" for c by (simp add: file_holds_def one_file_def holds_def)
  then have f: "mem_written (one_file [], 0) []" by (simp add: mem_written_def)
  have q: "fits_buffer 100000 (?q1 @ ?q2)" by (simp add: fits_buffer_def)
  have l: "length (?q1 @ ?q2) < 3" "replicate (length ?q1) OK = [OK]" "replicate (length ?q2) OK = [OK]" by simp_all
  from db_crash_recovery [OF u f q, unfolded l(2,3)] obtain db1 db2 c1 c2 where
    d: "Option.bind (open_new (one_file [], 0)) (serve_queue BytewiseComparator mem_writable WritableFileImpl_Sync 100000 (map writer_of ?q1)) = Some ([OK], db1)"
      "serve_queue BytewiseComparator mem_writable WritableFileImpl_Sync 100000 (map writer_of ?q2) db1 = Some ([OK], db2)"
      "mem_written (dest (db_log db1)) c1" "mem_written (dest (db_log db2)) c2"
    and r: "\<forall>m fuel k e a paranoid sz (g :: InMemoryEnv \<times> nat). length c1 \<le> m \<and> length c2 < fuel \<and> length (?q1 @ ?q2) < k \<and> file_holds e a (take m c2) \<longrightarrow>
      (\<exists>p n. length ?q1 \<le> n \<and> n \<le> length (?q1 @ ?q2) \<and>
        RecoverLogFile BytewiseComparator mem_sequential paranoid 100000 True (OK, sz) (OK, g) fuel k
          (e, \<lparr>seq_file = a, pos = 0\<rparr>) 0 = Some (p, Some (new_Writer_at g sz)) \<and>
        answers_as BytewiseComparator (take n (?q1 @ ?q2)) p)"
    by (elim exE conjE) (rule that)
  have "length c1 \<le> length c1 \<and> length c2 < length c2 + 1 \<and> length (?q1 @ ?q2) < 3 \<and> file_holds (one_file (take (length c1) c2)) 0 (take (length c1) c2)"
    using l(1) h by simp
  from r [rule_format, OF this, of False "length c1" "(one_file (take (length c1) c2), 0 :: nat)"] obtain p n where p: "length ?q1 \<le> n" "n \<le> length (?q1 @ ?q2)"
      "RecoverLogFile BytewiseComparator mem_sequential False 100000 True (OK, length c1) (OK, (one_file (take (length c1) c2), 0 :: nat)) (length c2 + 1) 3
        (one_file (take (length c1) c2), \<lparr>seq_file = 0, pos = 0\<rparr>) 0 = Some (p, Some (new_Writer_at (one_file (take (length c1) c2), 0 :: nat) (length c1)))"
      "answers_as BytewiseComparator (take n (?q1 @ ?q2)) p"
    by (elim exE conjE) (rule that)
  have "n = 1 \<or> n = 2" using p(1,2) by auto
  then have "answers_as BytewiseComparator (take 1 (?q1 @ ?q2)) p \<or> answers_as BytewiseComparator (?q1 @ ?q2) p" using p(4) by auto
  then show ?thesis using d p(3) by (intro exI [of _ db1] exI [of _ db2] exI [of _ c1] exI [of _ c2]) simp
qed

end
