(* ===== verification/Merger.thy ===== *)
theory Merger
  imports Iterator
begin

text \<open>
  The merging iterator (table/merger.cc): an array of wrapped iterators, the one of them that is
  the current one, and the direction of the last move.  The classes of the children are the
  function \<open>cls\<close> on their indices; a pointer to a child is its index.
\<close>

datatype Direction = kForward | kReverse

record 's MergingIterator =
  mchildren :: "'s IteratorWrapper list"
  mcurrent :: "nat option"
  mdirection :: Direction

text \<open>A loop over all children.\<close>

fun each_child :: "(nat \<Rightarrow> 's IteratorWrapper \<Rightarrow> 's IteratorWrapper option) \<Rightarrow> nat \<Rightarrow> 's IteratorWrapper list \<Rightarrow> 's IteratorWrapper list option" where
  "each_child f i [] = Some []"
| "each_child f i (w # ws) = do { w \<leftarrow> f i w; ws \<leftarrow> each_child f (Suc i) ws; Some (w # ws) }"

text \<open>The choice of the current child: one step of the loops of FindSmallest and FindLargest.\<close>

definition pick :: "(bytes \<Rightarrow> bytes \<Rightarrow> bool) \<Rightarrow> 's IteratorWrapper list \<Rightarrow> nat option \<Rightarrow> nat \<Rightarrow> nat option" where
  "pick better ws best i =
     (if w_valid (ws ! i) then
        case best of None \<Rightarrow> Some i | Some b \<Rightarrow> if better (w_key (ws ! i)) (w_key (ws ! b)) then Some i else best
      else best)"

definition FindSmallest :: "Comparator \<Rightarrow> 's IteratorWrapper list \<Rightarrow> nat option" where
  "FindSmallest C ws = foldl (pick (\<lambda>a b. Compare C a b < 0) ws) None [0..<length ws]"

definition FindLargest :: "Comparator \<Rightarrow> 's IteratorWrapper list \<Rightarrow> nat option" where
  "FindLargest C ws = foldl (pick (\<lambda>a b. Compare C a b > 0) ws) None (rev [0..<length ws])"

definition settle :: "Comparator \<Rightarrow> Direction \<Rightarrow> 's IteratorWrapper list \<Rightarrow> 's MergingIterator" where
  "settle C d ws = \<lparr>mchildren = ws, mcurrent = (case d of kForward \<Rightarrow> FindSmallest C ws | kReverse \<Rightarrow> FindLargest C ws),
     mdirection = d\<rparr>"

section \<open>Operations\<close>

definition new_MergingIterator :: "(nat \<Rightarrow> 's Iterator) \<Rightarrow> 's list \<Rightarrow> 's MergingIterator option" where
  "new_MergingIterator cls list = do {
     ws \<leftarrow> each_child (\<lambda>i w. Set (cls i) (Some (list ! i)) w) 0 (replicate (length list) new_IteratorWrapper);
     Some \<lparr>mchildren = ws, mcurrent = None, mdirection = kForward\<rparr> }"

definition MValid :: "'s MergingIterator \<Rightarrow> bool" where
  "MValid m \<longleftrightarrow> mcurrent m \<noteq> None"

definition MSeekToFirst :: "Comparator \<Rightarrow> (nat \<Rightarrow> 's Iterator) \<Rightarrow> 's MergingIterator \<Rightarrow> 's MergingIterator option" where
  "MSeekToFirst C cls m = map_option (settle C kForward) (each_child (\<lambda>i. wSeekToFirst (cls i)) 0 (mchildren m))"

definition MSeekToLast :: "Comparator \<Rightarrow> (nat \<Rightarrow> 's Iterator) \<Rightarrow> 's MergingIterator \<Rightarrow> 's MergingIterator option" where
  "MSeekToLast C cls m = map_option (settle C kReverse) (each_child (\<lambda>i. wSeekToLast (cls i)) 0 (mchildren m))"

definition MSeek :: "Comparator \<Rightarrow> (nat \<Rightarrow> 's Iterator) \<Rightarrow> bytes \<Rightarrow> 's MergingIterator \<Rightarrow> 's MergingIterator option" where
  "MSeek C cls target m = map_option (settle C kForward) (each_child (\<lambda>i. wSeek (cls i) target) 0 (mchildren m))"

definition mkey :: "'s MergingIterator \<Rightarrow> bytes option" where
  "mkey m = Option.bind (mcurrent m) (\<lambda>c. wkey (mchildren m ! c))"

definition mvalue :: "(nat \<Rightarrow> 's Iterator) \<Rightarrow> 's MergingIterator \<Rightarrow> bytes option" where
  "mvalue cls m = Option.bind (mcurrent m) (\<lambda>c. wvalue (cls c) (mchildren m ! c))"

definition MNext :: "Comparator \<Rightarrow> (nat \<Rightarrow> 's Iterator) \<Rightarrow> 's MergingIterator \<Rightarrow> 's MergingIterator option" where
  "MNext C cls m = do {
     c \<leftarrow> mcurrent m;
     k \<leftarrow> mkey m;
     ws \<leftarrow> (if mdirection m \<noteq> kForward then
              each_child (\<lambda>i child. if i \<noteq> c then do {
                  child \<leftarrow> wSeek (cls i) k child;
                  if w_valid child \<and> Compare C k (w_key child) = 0 then wNext (cls i) child else Some child }
                else Some child) 0 (mchildren m)
            else Some (mchildren m));
     w \<leftarrow> wNext (cls c) (ws ! c);
     Some (settle C kForward (ws[c := w])) }"

definition MPrev :: "Comparator \<Rightarrow> (nat \<Rightarrow> 's Iterator) \<Rightarrow> 's MergingIterator \<Rightarrow> 's MergingIterator option" where
  "MPrev C cls m = do {
     c \<leftarrow> mcurrent m;
     k \<leftarrow> mkey m;
     ws \<leftarrow> (if mdirection m \<noteq> kReverse then
              each_child (\<lambda>i child. if i \<noteq> c then do {
                  child \<leftarrow> wSeek (cls i) k child;
                  if w_valid child then wPrev (cls i) child else wSeekToLast (cls i) child }
                else Some child) 0 (mchildren m)
            else Some (mchildren m));
     w \<leftarrow> wPrev (cls c) (ws ! c);
     Some (settle C kReverse (ws[c := w])) }"

text \<open>The first status of a child that is not OK; a wrapper without an iterator has none.\<close>

fun mstatus :: "(nat \<Rightarrow> 's Iterator) \<Rightarrow> nat \<Rightarrow> 's IteratorWrapper list \<Rightarrow> Status" where
  "mstatus cls i [] = OK"
| "mstatus cls i (w # ws) =
     (case wstatus (cls i) w of Some s \<Rightarrow> if \<not> is_ok s then s else mstatus cls (Suc i) ws | None \<Rightarrow> mstatus cls (Suc i) ws)"

definition MergingIter :: "Comparator \<Rightarrow> (nat \<Rightarrow> 's Iterator) \<Rightarrow> 's MergingIterator Iterator" where
  "MergingIter C cls =
     \<lparr>it_Valid = MValid, it_SeekToFirst = MSeekToFirst C cls, it_SeekToLast = MSeekToLast C cls, it_Seek = MSeek C cls,
      it_Next = MNext C cls, it_Prev = MPrev C cls, it_key = mkey, it_value = mvalue cls,
      it_status = (\<lambda>m. mstatus cls 0 (mchildren m))\<rparr>"

text \<open>NewMergingIterator: no merging for less than two children.\<close>

definition NewMergingIterator :: "(nat \<Rightarrow> 's Iterator) \<Rightarrow> 's list \<Rightarrow> (Status + 's + 's MergingIterator) option" where
  "NewMergingIterator cls list =
     (if list = [] then Some (Inl NewEmptyIterator)
      else if length list = 1 then Some (Inr (Inl (list ! 0)))
      else map_option (Inr \<circ> Inr) (new_MergingIterator cls list))"

definition MergedIter :: "Comparator \<Rightarrow> (nat \<Rightarrow> 's Iterator) \<Rightarrow> (Status + 's + 's MergingIterator) Iterator" where
  "MergedIter C cls = dispatch EmptyIterator (dispatch (cls 0) (MergingIter C cls))"

section \<open>The choice of the current child\<close>

lemma each_child_ok:
  assumes "\<forall>k < length ws. \<exists>w. f (i + k) (ws ! k) = Some w \<and> Q (i + k) w"
  shows "\<exists>ws'. each_child f i ws = Some ws' \<and> length ws' = length ws \<and> (\<forall>k < length ws. Q (i + k) (ws' ! k))"
  using assms
proof (induction ws arbitrary: i)
  case (Cons w ws)
  obtain w' where w': "f i w = Some w'" "Q i w'" using Cons.prems by force
  have "\<forall>k < length ws. \<exists>x. f (Suc i + k) (ws ! k) = Some x \<and> Q (Suc i + k) x"
    using Cons.prems by (metis Suc_less_eq add_Suc_shift length_Cons nth_Cons_Suc)
  from Cons.IH [OF this] obtain ws' where "each_child f (Suc i) ws = Some ws'" "length ws' = length ws"
    "\<forall>k < length ws. Q (Suc i + k) (ws' ! k)" by auto
  then show ?case using w' by (auto simp: nth_Cons split: nat.splits)
qed simp

lemmas each_child_0 = each_child_ok [where i = 0, simplified]

lemma foldl_pick:
  assumes "\<And>a b c. better a b \<Longrightarrow> \<not> better c b \<Longrightarrow> \<not> better c a" "\<And>a. \<not> better a a"
  shows "case foldl (pick better ws) None xs of
      None \<Rightarrow> \<forall>i \<in> set xs. \<not> w_valid (ws ! i)
    | Some b \<Rightarrow> b \<in> set xs \<and> w_valid (ws ! b) \<and> (\<forall>i \<in> set xs. w_valid (ws ! i) \<longrightarrow> \<not> better (w_key (ws ! i)) (w_key (ws ! b)))"
proof (induction xs rule: rev_induct)
  case (snoc x xs)
  show ?case
  proof (cases "foldl (pick better ws) None xs")
    case None
    then show ?thesis using snoc assms(2) by (simp add: pick_def [of better ws None])
  next
    case (Some b)
    then have b: "b \<in> set xs" "w_valid (ws ! b)" "\<And>i. i \<in> set xs \<Longrightarrow> w_valid (ws ! i) \<Longrightarrow> \<not> better (w_key (ws ! i)) (w_key (ws ! b))"
      using snoc by simp_all
    show ?thesis
    proof (cases "w_valid (ws ! x) \<and> better (w_key (ws ! x)) (w_key (ws ! b))")
      case True
      moreover have "\<not> better (w_key (ws ! i)) (w_key (ws ! x))" if "i \<in> set xs" "w_valid (ws ! i)" for i
        using assms(1) [of "w_key (ws ! x)"] b(3) [OF that] True by blast
      ultimately show ?thesis using Some assms(2) by (simp add: pick_def [of better ws "Some b"])
    next
      case False
      then show ?thesis using Some b by (auto simp: pick_def [of better ws "Some b"])
    qed
  qed
qed simp


lemma picked:
  assumes "\<forall>a b c. better a b \<longrightarrow> \<not> better c b \<longrightarrow> \<not> better c a" "\<forall>a. \<not> better a a" "foldl (pick better ws) None xs = r"
  shows "r = None \<Longrightarrow> k \<in> set xs \<Longrightarrow> \<not> w_valid (ws ! k)"
    "r = Some b \<Longrightarrow> b \<in> set xs \<and> w_valid (ws ! b)"
    "r = Some b \<Longrightarrow> k \<in> set xs \<Longrightarrow> w_valid (ws ! k) \<Longrightarrow> \<not> better (w_key (ws ! k)) (w_key (ws ! b))"
proof -
  have "better a b \<Longrightarrow> \<not> better c b \<Longrightarrow> \<not> better c a" "\<not> better a a" for a b c using assms(1,2) by blast+
  then have "case foldl (pick better ws) None xs of
      None \<Rightarrow> \<forall>i \<in> set xs. \<not> w_valid (ws ! i)
    | Some b \<Rightarrow> b \<in> set xs \<and> w_valid (ws ! b) \<and> (\<forall>i \<in> set xs. w_valid (ws ! i) \<longrightarrow> \<not> better (w_key (ws ! i)) (w_key (ws ! b)))"
    by (rule foldl_pick)
  then show "r = None \<Longrightarrow> k \<in> set xs \<Longrightarrow> \<not> w_valid (ws ! k)"
    "r = Some b \<Longrightarrow> b \<in> set xs \<and> w_valid (ws ! b)"
    "r = Some b \<Longrightarrow> k \<in> set xs \<Longrightarrow> w_valid (ws ! k) \<Longrightarrow> \<not> better (w_key (ws ! k)) (w_key (ws ! b))"
    unfolding assms(3) by auto
qed

section \<open>Positions in sorted sequences\<close>

text \<open>
  The entries \<open>es\<close> are those of \<open>n\<close> sources, each sorted, with no key in two of them.
\<close>

definition merges :: "Comparator \<Rightarrow> nat \<Rightarrow> (nat \<Rightarrow> entry list) \<Rightarrow> entry list \<Rightarrow> bool" where
  "merges C n ess es \<longleftrightarrow> increasing C es \<and> (\<forall>k < n. increasing C (ess k)) \<and> set es = (\<Union>k < n. set (ess k)) \<and>
     (\<forall>k < n. \<forall>j < n. k \<noteq> j \<longrightarrow> (\<forall>a \<in> set (ess k). \<forall>b \<in> set (ess j). Compare C (fst a) (fst b) \<noteq> 0))"

text \<open>The number of entries of a source among the first \<open>i\<close> of the merged ones.\<close>

definition below :: "entry list \<Rightarrow> nat \<Rightarrow> entry list \<Rightarrow> nat" where
  "below es i xs = length (takeWhile (\<lambda>e. e \<in> set (take i es)) xs)"

text \<open>The position before a position; there is none before the first, which is the end.\<close>

definition before :: "entry list \<Rightarrow> nat \<Rightarrow> nat" where
  "before xs b = (if b = 0 then length xs else b - 1)"

lemma below_le: "below es i xs \<le> length xs"
  by (simp add: below_def length_takeWhile_le)

lemma below_0 [simp]: "below es 0 xs = 0"
  by (cases xs) (simp_all add: below_def)

lemma below_eqI:
  assumes "b \<le> length xs" "\<And>j. j < b \<Longrightarrow> xs ! j \<in> set (take i es)" "b < length xs \<Longrightarrow> xs ! b \<notin> set (take i es)"
  shows "below es i xs = b"
  using takeWhile_eq_take_P_nth [of b xs "\<lambda>e. e \<in> set (take i es)"] assms by (simp add: below_def)

lemma below_in: "j < below es i xs \<Longrightarrow> xs ! j \<in> set (take i es)"
  using takeWhile_nth [of j "\<lambda>e. e \<in> set (take i es)" xs] set_takeWhileD nth_mem by (metis below_def)

lemma below_out: "below es i xs < length xs \<Longrightarrow> xs ! below es i xs \<notin> set (take i es)"
  using nth_length_takeWhile [of "\<lambda>e. e \<in> set (take i es)" xs] by (simp add: below_def)

context comparator
begin

lemma increasing_iff: "increasing C xs \<Longrightarrow> i < length xs \<Longrightarrow> j < length xs \<Longrightarrow> Compare C (fst (xs ! i)) (fst (xs ! j)) < 0 \<longleftrightarrow> i < j"
  using cmp_antisym [of "fst (xs ! i)" "fst (xs ! j)"] cmp_refl [of "fst (xs ! i)"] linorder_less_linear [of i j]
  by (auto simp: increasing_def sorted_wrt_iff_nth_less) (metis less_asym)

lemma increasing_distinct: "increasing C xs \<Longrightarrow> i < length xs \<Longrightarrow> j < length xs \<Longrightarrow> Compare C (fst (xs ! i)) (fst (xs ! j)) = 0 \<Longrightarrow> i = j"
  using increasing_iff [of xs i j] increasing_iff [of xs j i] cmp_antisym [of "fst (xs ! j)" "fst (xs ! i)"] by fastforce

lemma in_take: "increasing C es \<Longrightarrow> i < length es \<Longrightarrow> es ! i \<in> set (take n es) \<longleftrightarrow> i < n"
  using increasing_distinct [of es] cmp_refl by (fastforce simp: in_set_conv_nth)

lemma mergesD:
  assumes "merges C n ess es"
  shows "increasing C es" "k < n \<Longrightarrow> increasing C (ess k)" "e \<in> set es \<longleftrightarrow> (\<exists>k < n. e \<in> set (ess k))"
    "k < n \<Longrightarrow> j < n \<Longrightarrow> a \<in> set (ess k) \<Longrightarrow> b \<in> set (ess j) \<Longrightarrow> Compare C (fst a) (fst b) = 0 \<Longrightarrow> k = j"
proof -
  show "e \<in> set es \<longleftrightarrow> (\<exists>k < n. e \<in> set (ess k))" using assms by (simp add: merges_def) blast
  show "k < n \<Longrightarrow> j < n \<Longrightarrow> a \<in> set (ess k) \<Longrightarrow> b \<in> set (ess j) \<Longrightarrow> Compare C (fst a) (fst b) = 0 \<Longrightarrow> k = j"
    using assms unfolding merges_def by blast
qed (use assms in \<open>simp_all add: merges_def\<close>)

lemma merges_index:
  assumes "merges C n ess es" "k < n" "j < length (ess k)"
  obtains q where "q < length es" "es ! q = ess k ! j"
proof -
  have "ess k ! j \<in> set es" using assms mergesD(3) [OF assms(1)] by auto
  then show ?thesis using that by (auto simp: in_set_conv_nth)
qed

lemma merges_less:
  assumes m: "merges C n ess es" and k: "k < n" "j < length (ess k)" and i: "i < length es"
  shows "ess k ! j \<in> set (take i es) \<longleftrightarrow> Compare C (fst (ess k ! j)) (fst (es ! i)) < 0"
proof -
  obtain q where q: "q < length es" "es ! q = ess k ! j" using merges_index [OF m k] .
  have "increasing C es" using m by (simp add: merges_def)
  then show ?thesis using in_take [of es q i] increasing_iff [of es q i] q i by simp
qed

lemma below_owner:
  assumes m: "merges C n ess es" and i: "i < length es" and k: "k < n" "es ! i \<in> set (ess k)"
  shows "below es i (ess k) < length (ess k)" "ess k ! below es i (ess k) = es ! i" "below es (Suc i) (ess k) = Suc (below es i (ess k))"
proof -
  obtain p where p: "p < length (ess k)" "ess k ! p = es ! i" using k(2) by (metis in_set_conv_nth)
  have inc: "increasing C es" "increasing C (ess k)" using m k by (auto simp: merges_def)
  have low: "ess k ! j \<in> set (take i es)" if "j < p" for j
    using merges_less [OF m k(1) _ i, of j] increasing_iff [OF inc(2), of j p] that p by simp
  have b: "below es i (ess k) = p"
    using p in_take [OF inc(1) i, of i] by (intro below_eqI) (auto simp: low)
  have "below es (Suc i) (ess k) = Suc p"
  proof (rule below_eqI)
    show "ess k ! j \<in> set (take (Suc i) es)" if "j < Suc p" for j
      using low that p i by (cases "j = p") (auto simp: take_Suc_conv_app_nth)
    show "ess k ! Suc p \<notin> set (take (Suc i) es)" if l: "Suc p < length (ess k)"
    proof -
      obtain q where q: "q < length es" "es ! q = ess k ! Suc p" using merges_index [OF m k(1) l] .
      have "Compare C (fst (es ! i)) (fst (es ! q)) < 0" using increasing_iff [OF inc(2), of p "Suc p"] l p q by simp
      then show ?thesis using increasing_iff [OF inc(1) i q(1)] in_take [OF inc(1) q(1)] q(2) by simp
    qed
  qed (use p in simp)
  then show "below es i (ess k) < length (ess k)" "ess k ! below es i (ess k) = es ! i" "below es (Suc i) (ess k) = Suc (below es i (ess k))"
    using p b by auto
qed

lemma below_other: "i < length es \<Longrightarrow> es ! i \<notin> set xs \<Longrightarrow> below es (Suc i) xs = below es i xs"
  unfolding below_def by (rule arg_cong [where f = length], rule takeWhile_cong) (auto simp: take_Suc_conv_app_nth)

lemma below_all: "merges C n ess es \<Longrightarrow> k < n \<Longrightarrow> below es (length es) (ess k) = length (ess k)"
  using mergesD(3) [of n ess es] by (intro below_eqI) auto

lemma below_seek:
  assumes m: "merges C n ess es" and k: "k < n"
  shows "seek_pos C t (ess k) = below es (seek_pos C t es) (ess k)"
proof (rule below_eqI [symmetric])
  have inc: "increasing C es" using m by (simp add: merges_def)
  show "ess k ! j \<in> set (take (seek_pos C t es) es)" if j: "j < seek_pos C t (ess k)" for j
  proof -
    have l: "j < length (ess k)" using j seek_pos_le [of C t "ess k"] by simp
    then obtain q where q: "q < length es" "es ! q = ess k ! j" using merges_index [OF m k] by blast
    have c: "Compare C (fst (es ! q)) t < 0" using seek_pos_below [OF j] q(2) by simp
    have "q < seek_pos C t es"
    proof (rule ccontr)
      assume "\<not> q < seek_pos C t es"
      then have "seek_pos C t es \<le> q" "seek_pos C t es < length es" using q(1) by auto
      then show False using increasing_below [OF inc q(1) c] seek_pos_at by blast
    qed
    then show ?thesis using in_take [OF inc q(1)] q(2) by simp
  qed
  show "ess k ! seek_pos C t (ess k) \<notin> set (take (seek_pos C t es) es)" if "seek_pos C t (ess k) < length (ess k)"
  proof
    assume "ess k ! seek_pos C t (ess k) \<in> set (take (seek_pos C t es) es)"
    then obtain q where "q < seek_pos C t es" "es ! q = ess k ! seek_pos C t (ess k)" by (auto simp: in_set_conv_nth)
    then show False using seek_pos_below [of q C t es] seek_pos_at [OF that] by simp
  qed
qed (rule seek_pos_le)

lemma merges_owner:
  assumes "merges C n ess es" "i < length es"
  obtains k where "k < n" "es ! i \<in> set (ess k)"
  using mergesD(3) [OF assms(1), of "es ! i"] assms(2) that by auto

end

text \<open>
  The moves of the merging iterator: over sorted sources that share no key it is an iterator over
  the merged sequence.
\<close>

locale merging = comparator C for C :: Comparator +
  fixes cls :: "nat \<Rightarrow> 's Iterator" and n :: nat and ess :: "nat \<Rightarrow> entry list" and es :: "entry list"
    and cpos :: "nat \<Rightarrow> nat \<Rightarrow> 's \<Rightarrow> bool" and targets :: "bytes set"
  assumes child: "k < n \<Longrightarrow> iterator_on (cls k) C (ess k) (cpos k) targets"
begin

text \<open>A child stands at a position of its source.\<close>

definition at_child :: "nat \<Rightarrow> nat \<Rightarrow> 's IteratorWrapper \<Rightarrow> bool" where
  "at_child k = iterator_on.wpos (ess k) (cpos k)"

text \<open>All children stand behind, or before, the first \<open>i\<close> merged entries.\<close>

definition ahead :: "nat \<Rightarrow> 's IteratorWrapper list \<Rightarrow> bool" where
  "ahead i ws \<longleftrightarrow> length ws = n \<and> (\<forall>k < n. at_child k (below es i (ess k)) (ws ! k))"

definition behind :: "nat \<Rightarrow> 's IteratorWrapper list \<Rightarrow> bool" where
  "behind i ws \<longleftrightarrow> length ws = n \<and> (\<forall>k < n. at_child k (before (ess k) (below es i (ess k))) (ws ! k))"

definition somewhere :: "'s IteratorWrapper list \<Rightarrow> bool" where
  "somewhere ws \<longleftrightarrow> length ws = n \<and> (\<forall>k < n. \<exists>p. at_child k p (ws ! k))"

definition mpos :: "nat \<Rightarrow> 's MergingIterator \<Rightarrow> bool" where
  "mpos i m \<longleftrightarrow> merges C n ess es \<and> fst ` set es \<subseteq> targets \<and> i \<le> length es \<and> somewhere (mchildren m) \<and>
     (if i < length es then
        \<exists>c < n. mcurrent m = Some c \<and> es ! i \<in> set (ess c) \<and>
          (case mdirection m of kForward \<Rightarrow> ahead i (mchildren m) | kReverse \<Rightarrow> behind (Suc i) (mchildren m))
      else mcurrent m = None)"

lemma before_all: "before xs (length xs) = length xs - 1"
  by (simp add: before_def)

lemma ahead_somewhere: "ahead i ws \<Longrightarrow> somewhere ws" and behind_somewhere: "behind i ws \<Longrightarrow> somewhere ws"
  by (auto simp: ahead_def behind_def somewhere_def)

lemmas child_simps = iterator_on.wpos_simps [OF child, folded at_child_def]

lemma child_key: "k < n \<Longrightarrow> at_child k p w \<Longrightarrow> p < length (ess k) \<Longrightarrow> w_key w = fst (ess k ! p)"
  using child_simps(1,2) [of k p w] by (simp add: wkey_def)

subsection \<open>The current child\<close>

lemma FindSmallest_ok:
  assumes m: "merges C n ess es" and a: "ahead i ws" and i: "i \<le> length es"
  shows "if i < length es then \<exists>c < n. FindSmallest C ws = Some c \<and> es ! i \<in> set (ess c) else FindSmallest C ws = None"
proof -
  let ?b = "\<lambda>k. below es i (ess k)"
  let ?R = "\<lambda>a b. Compare C a b < 0"
  have len: "length ws = n" and w: "k < n \<Longrightarrow> at_child k (?b k) (ws ! k)" for k using a by (auto simp: ahead_def)
  have "?R a b \<Longrightarrow> \<not> ?R c b \<Longrightarrow> \<not> ?R c a" for a b c using cmp_less_trans [of c a b] by auto
  then have R: "\<forall>a b c. ?R a b \<longrightarrow> \<not> ?R c b \<longrightarrow> \<not> ?R c a" by blast
  have R': "\<forall>a. \<not> ?R a a" by (simp add: cmp_refl)
  note f = picked [where better = ?R and ws = ws, OF R R' FindSmallest_def [symmetric], unfolded len set_upt atLeastLessThan_iff]
  show ?thesis
  proof (cases "i < length es")
    case True
    obtain k where k: "k < n" "es ! i \<in> set (ess k)" using merges_owner [OF m True] .
    note o = below_owner [OF m True k]
    have v: "w_valid (ws ! k)" "w_key (ws ! k) = fst (es ! i)"
      using child_simps(1) [OF k(1) w [OF k(1)]] child_key [OF k(1) w [OF k(1)]] o(1,2) by simp_all
    obtain c where c: "FindSmallest C ws = Some c" using f(1) [of k] k(1) v(1) by (cases "FindSmallest C ws") auto
    note c = c f(2) [OF c, THEN conjunct1, THEN conjunct2] f(2) [OF c, THEN conjunct2] f(3) [OF c _ v(1)]
    have l: "?b c < length (ess c)" using child_simps(1) [OF c(2) w [OF c(2)]] c(3) by simp
    obtain q where q: "q < length es" "es ! q = ess c ! ?b c" using merges_index [OF m c(2) l] .
    have "\<not> q < i" using below_out [OF l] q in_take [OF mergesD(1) [OF m] q(1), of i] by simp
    moreover have "\<not> i < q"
      using c(4) k(1) v(2) child_key [OF c(2) w [OF c(2)] l] q increasing_iff [OF mergesD(1) [OF m] True q(1)] by simp
    ultimately have "es ! i \<in> set (ess c)" using q l by (metis linorder_neqE_nat nth_mem)
    then show ?thesis using True c by auto
  next
    case False
    then have "\<not> w_valid (ws ! k)" if "k < n" for k
      using i below_all [OF m that] child_simps(1) [OF that w [OF that]] by simp
    then show ?thesis using f(2) False by (cases "FindSmallest C ws") auto
  qed
qed

lemma FindLargest_ok:
  assumes m: "merges C n ess es" and a: "behind i ws" and i: "i \<le> length es"
  shows "if 0 < i then \<exists>c < n. FindLargest C ws = Some c \<and> es ! (i - 1) \<in> set (ess c) else FindLargest C ws = None"
proof -
  let ?b = "\<lambda>k. below es i (ess k)"
  let ?R = "\<lambda>a b. Compare C a b > 0"
  have len: "length ws = n" and w: "k < n \<Longrightarrow> at_child k (before (ess k) (?b k)) (ws ! k)" for k using a by (auto simp: behind_def)
  have val: "w_valid (ws ! k) \<longleftrightarrow> 0 < ?b k" if "k < n" for k
    using child_simps(1) [OF that w [OF that]] below_le [of es i "ess k"] by (auto simp: before_def)
  have "?R a b \<Longrightarrow> \<not> ?R c b \<Longrightarrow> \<not> ?R c a" for a b c
    using cmp_trans [of c b a] cmp_antisym [of a c] cmp_antisym [of b a] cmp_antisym [of b c] cmp_le_less_trans [of c b a] by auto
  then have R: "\<forall>a b c. ?R a b \<longrightarrow> \<not> ?R c b \<longrightarrow> \<not> ?R c a" by blast
  have R': "\<forall>a. \<not> ?R a a" by (simp add: cmp_refl)
  note f = picked [where better = ?R and ws = ws, OF R R' FindLargest_def [symmetric], unfolded len set_rev set_upt atLeastLessThan_iff]
  show ?thesis
  proof (cases "0 < i")
    case True
    then have i': "i - 1 < length es" "Suc (i - 1) = i" using i by auto
    obtain k where k: "k < n" "es ! (i - 1) \<in> set (ess k)" using merges_owner [OF m i'(1)] .
    note o = below_owner [OF m i'(1) k, unfolded i'(2)]
    have p: "before (ess k) (?b k) = below es (i - 1) (ess k)" using o(3) by (simp add: before_def)
    have v: "w_valid (ws ! k)" "w_key (ws ! k) = fst (es ! (i - 1))"
      using val [OF k(1)] o(3) child_key [OF k(1) w [OF k(1)]] p o(1,2) by simp_all
    obtain c where c: "FindLargest C ws = Some c" using f(1) [of k] k(1) v(1) by (cases "FindLargest C ws") auto
    note c = c f(2) [OF c, THEN conjunct1, THEN conjunct2] f(2) [OF c, THEN conjunct2] f(3) [OF c _ v(1)]
    have l: "?b c - 1 < length (ess c)" "0 < ?b c" "before (ess c) (?b c) = ?b c - 1"
      using val [OF c(2)] c(3) below_le [of es i "ess c"] by (auto simp: before_def)
    obtain q where q: "q < length es" "es ! q = ess c ! (?b c - 1)" using merges_index [OF m c(2) l(1)] .
    have "q < i" using below_in [of "?b c - 1" es i "ess c"] l(2) q in_take [OF mergesD(1) [OF m] q(1), of i] by simp
    moreover have "\<not> q < i - 1"
      using c(4) k(1) v(2) child_key [OF c(2) w [OF c(2)]] l q increasing_iff [OF mergesD(1) [OF m] q(1) i'(1)]
        cmp_antisym [of "fst (es ! q)" "fst (es ! (i - 1))"] by simp
    ultimately have "q = i - 1" by simp
    then have "es ! (i - 1) \<in> set (ess c)" using q l by simp
    then show ?thesis using True c by auto
  next
    case False
    then show ?thesis using f(2) val by (cases "FindLargest C ws") auto
  qed
qed

subsection \<open>Moves of all children\<close>

lemma settle_forward: "merges C n ess es \<Longrightarrow> fst ` set es \<subseteq> targets \<Longrightarrow> ahead i ws \<Longrightarrow> i \<le> length es \<Longrightarrow> mpos i (settle C kForward ws)"
  using FindSmallest_ok [of i ws] ahead_somewhere by (auto simp: mpos_def settle_def)

lemma settle_reverse:
  assumes "merges C n ess es" "fst ` set es \<subseteq> targets" "behind i ws" "i \<le> length es"
  shows "mpos (if i = 0 then length es else i - 1) (settle C kReverse ws)"
  using FindLargest_ok [OF assms(1,3,4)] behind_somewhere [OF assms(3)] assms by (auto simp: mpos_def settle_def)

lemma move_all:
  assumes "somewhere ws" "\<forall>k p w. k < n \<longrightarrow> at_child k p w \<longrightarrow> (\<exists>w'. f k w = Some w' \<and> at_child k (g k) w')"
  shows "\<exists>ws'. each_child f 0 ws = Some ws' \<and> length ws' = n \<and> (\<forall>k < n. at_child k (g k) (ws' ! k))"
proof -
  have "\<forall>k < length ws. \<exists>w. f k (ws ! k) = Some w \<and> at_child k (g k) w"
    using assms unfolding somewhere_def by metis
  from each_child_0 [where f = f and ws = ws and Q = "\<lambda>k. at_child k (g k)", OF this] show ?thesis using assms(1) by (auto simp: somewhere_def)
qed

lemma MSeekToFirst_ok:
  assumes "mpos i m"
  shows "\<exists>m'. MSeekToFirst C cls m = Some m' \<and> mpos 0 m'"
proof -
  have m: "merges C n ess es" "somewhere (mchildren m)" "fst ` set es \<subseteq> targets" using assms by (auto simp: mpos_def)
  have "\<exists>w'. wSeekToFirst (cls k) w = Some w' \<and> at_child k 0 w'" if "k < n" "at_child k p w" for k p w
    using iterator_on.wSeekToFirst_ok [OF child [OF that(1)]] that(2) by (auto simp: at_child_def)
  then have "\<forall>k p w. k < n \<longrightarrow> at_child k p w \<longrightarrow> (\<exists>w'. (\<lambda>i. wSeekToFirst (cls i)) k w = Some w' \<and> at_child k (0) w')" by blast
  from move_all [OF m(2) this] obtain ws where
    "each_child (\<lambda>i. wSeekToFirst (cls i)) 0 (mchildren m) = Some ws" "ahead 0 ws" by (auto simp: ahead_def)
  then show ?thesis using settle_forward [OF m(1,3), of 0 ws] by (simp add: MSeekToFirst_def)
qed

lemma MSeekToLast_ok:
  assumes "mpos i m"
  shows "\<exists>m'. MSeekToLast C cls m = Some m' \<and> mpos (length es - 1) m'"
proof -
  have m: "merges C n ess es" "somewhere (mchildren m)" "fst ` set es \<subseteq> targets" using assms by (auto simp: mpos_def)
  have "\<exists>w'. wSeekToLast (cls k) w = Some w' \<and> at_child k (length (ess k) - 1) w'" if "k < n" "at_child k p w" for k p w
    using iterator_on.wSeekToLast_ok [OF child [OF that(1)]] that(2) by (auto simp: at_child_def)
  then have "\<forall>k p w. k < n \<longrightarrow> at_child k p w \<longrightarrow> (\<exists>w'. (\<lambda>i. wSeekToLast (cls i)) k w = Some w' \<and> at_child k (length (ess k) - 1) w')" by blast
  from move_all [OF m(2) this] obtain ws where
    "each_child (\<lambda>i. wSeekToLast (cls i)) 0 (mchildren m) = Some ws" "behind (length es) ws"
    using below_all [OF m(1)] by (auto simp: behind_def before_all)
  then show ?thesis using settle_reverse [OF m(1,3), of "length es" ws] by (auto simp: MSeekToLast_def split: if_splits)
qed

lemma MSeek_ok:
  assumes "mpos i m" "t \<in> targets"
  shows "\<exists>m'. MSeek C cls t m = Some m' \<and> mpos (seek_pos C t es) m'"
proof -
  have m: "merges C n ess es" "somewhere (mchildren m)" "fst ` set es \<subseteq> targets" using assms(1) by (auto simp: mpos_def)
  have "\<exists>w'. wSeek (cls k) t w = Some w' \<and> at_child k (below es (seek_pos C t es) (ess k)) w'" if "k < n" "at_child k p w" for k p w
    using iterator_on.wSeek_ok [OF child [OF that(1)] _ mergesD(2) [OF m(1) that(1)] assms(2)] that below_seek [OF m(1) that(1)]
    by (auto simp: at_child_def)
  then have "\<forall>k p w. k < n \<longrightarrow> at_child k p w \<longrightarrow> (\<exists>w'. (\<lambda>i. wSeek (cls i) t) k w = Some w' \<and> at_child k (below es (seek_pos C t es) (ess k)) w')" by blast
  from move_all [OF m(2) this] obtain ws where
    "each_child (\<lambda>i. wSeek (cls i) t) 0 (mchildren m) = Some ws" "ahead (seek_pos C t es) ws" by (auto simp: ahead_def)
  then show ?thesis using settle_forward [OF m(1,3), of "seek_pos C t es" ws] seek_pos_le by (simp add: MSeek_def)
qed

subsection \<open>Next and Prev\<close>

text \<open>The current entry, and where the children stand in either direction.\<close>

lemma mpos_current:
  assumes "mpos i m" "i < length es"
  obtains c where "c < n" "mcurrent m = Some c" "es ! i \<in> set (ess c)" "at_child c (below es i (ess c)) (mchildren m ! c)"
    "below es i (ess c) < length (ess c)" "ess c ! below es i (ess c) = es ! i" "length (mchildren m) = n"
    "mkey m = Some (fst (es ! i))"
proof -
  obtain c where c: "c < n" "mcurrent m = Some c" "es ! i \<in> set (ess c)" and m: "merges C n ess es"
    and d: "case mdirection m of kForward \<Rightarrow> ahead i (mchildren m) | kReverse \<Rightarrow> behind (Suc i) (mchildren m)"
    using assms by (auto simp: mpos_def)
  note o = below_owner [OF m assms(2) c(1,3)]
  have a: "at_child c (below es i (ess c)) (mchildren m ! c)" "length (mchildren m) = n"
    using d c(1) o(3) by (auto simp: ahead_def behind_def before_def split: Direction.splits)
  have "mkey m = Some (fst (es ! i))" using child_simps(2) [OF c(1) a(1) o(1)] o(2) c(2) by (simp add: mkey_def)
  then show ?thesis using that c a o by blast
qed

lemma MNext_ok:
  assumes p: "mpos i m" and i: "i < length es"
  shows "\<exists>m'. MNext C cls m = Some m' \<and> mpos (Suc i) m'"
proof -
  obtain c where c: "c < n" "mcurrent m = Some c" "es ! i \<in> set (ess c)" "at_child c (below es i (ess c)) (mchildren m ! c)"
    "below es i (ess c) < length (ess c)" "ess c ! below es i (ess c) = es ! i" "length (mchildren m) = n"
    "mkey m = Some (fst (es ! i))" using mpos_current [OF p i] .
  have m: "merges C n ess es" "somewhere (mchildren m)" "fst ` set es \<subseteq> targets" using p by (auto simp: mpos_def)
  let ?k = "fst (es ! i)"
  have tk: "?k \<in> targets" using m(3) i by auto
  let ?f = "\<lambda>j child. if j \<noteq> c then do { child \<leftarrow> wSeek (cls j) ?k child;
                  if w_valid child \<and> Compare C ?k (w_key child) = 0 then wNext (cls j) child else Some child } else Some child"
  have "\<exists>w'. ?f j w = Some w' \<and> at_child j (below es i (ess j)) w'" if j: "j < n" "at_child j q w" "j \<noteq> c" for j q w
  proof -
    obtain w' where w': "wSeek (cls j) ?k w = Some w'" "at_child j (below es i (ess j)) w'"
      using iterator_on.wSeek_ok [OF child [OF j(1)] _ mergesD(2) [OF m(1) j(1)] tk] j(2) below_seek [OF m(1) j(1)]
        seek_pos_key [OF mergesD(1) [OF m(1)] i] by (force simp: at_child_def)
    have "Compare C ?k (w_key w') \<noteq> 0" if "w_valid w'"
    proof -
      have l: "below es i (ess j) < length (ess j)" using child_simps(1) [OF j(1) w'(2)] that by simp
      then show ?thesis using child_key [OF j(1) w'(2)] mergesD(4) [OF m(1) c(1) j(1) c(3) nth_mem [OF l]] j(3) by auto
    qed
    then show ?thesis using w' j(3) by auto
  qed
  note g = this
  have s: "\<forall>j < length (mchildren m). \<exists>w. ?f j (mchildren m ! j) = Some w \<and> at_child j (below es i (ess j)) w"
  proof (intro allI impI)
    fix j assume "j < length (mchildren m)"
    then obtain q where j: "j < n" "at_child j q (mchildren m ! j)" using m(2) c(7) by (auto simp: somewhere_def)
    show "\<exists>w. ?f j (mchildren m ! j) = Some w \<and> at_child j (below es i (ess j)) w"
    proof (cases "j = c")
      case True
      then show ?thesis using c(4) by simp
    qed (rule g [OF j])
  qed
  obtain ws where ws: "(if mdirection m \<noteq> kForward then each_child ?f 0 (mchildren m) else Some (mchildren m)) = Some ws" "ahead i ws"
  proof (cases "mdirection m")
    case kForward
    then show ?thesis using that p i by (auto simp: mpos_def)
  next
    case kReverse
    then show ?thesis using that each_child_0 [where f = ?f and Q = "\<lambda>j. at_child j (below es i (ess j))", OF s] c(7)
      by (auto simp: ahead_def)
  qed
  have "at_child c (below es i (ess c)) (ws ! c)" using ws(2) c(1) by (simp add: ahead_def)
  then obtain w where w: "wNext (cls c) (ws ! c) = Some w" "at_child c (Suc (below es i (ess c))) w"
    using iterator_on.wNext_ok [OF child [OF c(1)]] c(5) by (auto simp: at_child_def)
  have "at_child j (below es (Suc i) (ess j)) (ws[c := w] ! j)" if j: "j < n" for j
  proof (cases "j = c")
    case True
    then show ?thesis using w(2) below_owner(3) [OF m(1) i c(1,3)] ws(2) c(1) by (simp add: ahead_def)
  next
    case False
    then have "es ! i \<notin> set (ess j)" using mergesD(4) [OF m(1) c(1) j c(3), of "es ! i"] cmp_refl [of "fst (es ! i)"] by auto
    then show ?thesis using False below_other [OF i] ws(2) j by (simp add: ahead_def)
  qed
  then have "ahead (Suc i) (ws[c := w])" using ws(2) by (simp add: ahead_def)
  then show ?thesis using settle_forward [OF m(1,3), of "Suc i"] i c(2,8) ws(1) w(1) by (simp add: MNext_def)
qed

lemma MPrev_ok:
  assumes p: "mpos i m" and i: "i < length es"
  shows "\<exists>m'. MPrev C cls m = Some m' \<and> mpos (if i = 0 then length es else i - 1) m'"
proof -
  obtain c where c: "c < n" "mcurrent m = Some c" "es ! i \<in> set (ess c)" "at_child c (below es i (ess c)) (mchildren m ! c)"
    "below es i (ess c) < length (ess c)" "ess c ! below es i (ess c) = es ! i" "length (mchildren m) = n"
    "mkey m = Some (fst (es ! i))" using mpos_current [OF p i] .
  have m: "merges C n ess es" "somewhere (mchildren m)" "fst ` set es \<subseteq> targets" using p by (auto simp: mpos_def)
  let ?k = "fst (es ! i)"
  have tk: "?k \<in> targets" using m(3) i by auto
  let ?f = "\<lambda>j child. if j \<noteq> c then do { child \<leftarrow> wSeek (cls j) ?k child;
                  if w_valid child then wPrev (cls j) child else wSeekToLast (cls j) child } else Some child"
  let ?Q = "\<lambda>j. at_child j (if j = c then below es i (ess j) else before (ess j) (below es i (ess j)))"
  have "\<exists>w'. ?f j w = Some w' \<and> ?Q j w'" if j: "j < n" "at_child j q w" "j \<noteq> c" for j q w
  proof -
    obtain w' where w': "wSeek (cls j) ?k w = Some w'" "at_child j (below es i (ess j)) w'"
      using iterator_on.wSeek_ok [OF child [OF j(1)] _ mergesD(2) [OF m(1) j(1)] tk] j(2) below_seek [OF m(1) j(1)]
        seek_pos_key [OF mergesD(1) [OF m(1)] i] by (force simp: at_child_def)
    show ?thesis
    proof (cases "w_valid w'")
      case True
      then have "below es i (ess j) < length (ess j)" using child_simps(1) [OF j(1) w'(2)] by simp
      then show ?thesis using iterator_on.wPrev_ok [OF child [OF j(1)]] True w' j(3) by (auto simp: at_child_def before_def)
    next
      case False
      then have "below es i (ess j) = length (ess j)" using child_simps(1) [OF j(1) w'(2)] below_le [of es i "ess j"] by simp
      then show ?thesis using iterator_on.wSeekToLast_ok [OF child [OF j(1)]] False w' j(3) by (auto simp: at_child_def before_all)
    qed
  qed
  note g = this
  have s: "\<forall>j < length (mchildren m). \<exists>w. ?f j (mchildren m ! j) = Some w \<and> ?Q j w"
  proof (intro allI impI)
    fix j assume "j < length (mchildren m)"
    then obtain q where j: "j < n" "at_child j q (mchildren m ! j)" using m(2) c(7) by (auto simp: somewhere_def)
    show "\<exists>w. ?f j (mchildren m ! j) = Some w \<and> ?Q j w"
    proof (cases "j = c")
      case True
      then show ?thesis using c(4) by simp
    qed (rule g [OF j])
  qed
  have other: "below es (Suc i) (ess j) = below es i (ess j)" if j: "j < n" "j \<noteq> c" for j
    using mergesD(4) [OF m(1) c(1) j(1) c(3), of "es ! i"] cmp_refl [of "fst (es ! i)"] j(2) by (intro below_other [OF i]) auto
  obtain ws where ws: "(if mdirection m \<noteq> kReverse then each_child ?f 0 (mchildren m) else Some (mchildren m)) = Some ws"
    "length ws = n" "\<forall>j < n. ?Q j (ws ! j)"
  proof (cases "mdirection m")
    case kReverse
    then have "behind (Suc i) (mchildren m)" using p i by (auto simp: mpos_def)
    then have "\<forall>j < n. ?Q j (mchildren m ! j)"
      using other below_owner(3) [OF m(1) i c(1,3)] by (auto simp: behind_def before_def)
    then show ?thesis using that kReverse c(7) by simp
  next
    case kForward
    then show ?thesis using that each_child_0 [where f = ?f and Q = ?Q, OF s] c(7) by auto
  qed
  have "at_child c (below es i (ess c)) (ws ! c)" using ws(3) c(1) by auto
  then obtain w where w: "wPrev (cls c) (ws ! c) = Some w" "at_child c (before (ess c) (below es i (ess c))) w"
    using iterator_on.wPrev_ok [OF child [OF c(1)]] c(5) by (auto simp: at_child_def before_def)
  have "at_child j (before (ess j) (below es i (ess j))) (ws[c := w] ! j)" if j: "j < n" for j
    using ws(2,3) w(2) c(1) j by (cases "j = c") auto
  then have "behind i (ws[c := w])" using ws(2) by (simp add: behind_def)
  then show ?thesis using settle_reverse [OF m(1,3), of i] i c(2,8) ws(1) w(1) by (simp add: MPrev_def)
qed

subsection \<open>The contract\<close>

lemma mvalue_ok:
  assumes p: "mpos i m" and i: "i < length es"
  shows "mvalue cls m = Some (snd (es ! i))"
proof -
  obtain c where c: "c < n" "mcurrent m = Some c" "es ! i \<in> set (ess c)" "at_child c (below es i (ess c)) (mchildren m ! c)"
    "below es i (ess c) < length (ess c)" "ess c ! below es i (ess c) = es ! i" "length (mchildren m) = n"
    "mkey m = Some (fst (es ! i))" using mpos_current [OF p i] .
  then show ?thesis using child_simps(3) [OF c(1,4,5)] by (simp add: mvalue_def)
qed

lemma mstatus_ok:
  assumes "mpos i m"
  shows "mstatus cls 0 (mchildren m) = OK"
proof -
  have "\<forall>j < length ws. wstatus (cls (k + j)) (ws ! j) = Some OK \<Longrightarrow> mstatus cls k ws = OK" for k and ws :: "'s IteratorWrapper list"
  proof (induction ws arbitrary: k)
    case (Cons w ws)
    have "\<forall>j < length ws. wstatus (cls (Suc k + j)) (ws ! j) = Some OK" using Cons.prems by fastforce
    then show ?case using Cons by force
  qed simp
  moreover have "wstatus (cls j) (mchildren m ! j) = Some OK" if "j < n" for j
    using assms that child_simps(4) [OF that] by (auto simp: mpos_def somewhere_def)
  ultimately show ?thesis using assms by (simp add: mpos_def somewhere_def)
qed

lemma mpos_le: "mpos i m \<Longrightarrow> i \<le> length es"
  by (simp add: mpos_def)

lemma merging_iterator: "iterator_on (MergingIter C cls) C es mpos targets"
proof (unfold_locales, goal_cases)
  case (2 i s)
  then show ?case by (auto simp: MergingIter_def MValid_def mpos_def split: if_splits)
next
  case (3 i s)
  then show ?case using mpos_current [OF 3] by (auto simp: MergingIter_def)
qed (simp_all add: MergingIter_def mvalue_ok mstatus_ok MSeekToFirst_ok MSeekToLast_ok MSeek_ok MNext_ok MPrev_ok mpos_le del: One_nat_def)

lemma new_MergingIterator_ok:
  assumes m: "merges C n ess es" "fst ` set es \<subseteq> targets" and l: "length list = n" "\<forall>k < n. \<exists>p. cpos k p (list ! k)"
  shows "\<exists>m. new_MergingIterator cls list = Some m \<and> mpos (length es) m"
proof -
  have "\<forall>k < n. \<exists>w. Set (cls k) (Some (list ! k)) (replicate n new_IteratorWrapper ! k) = Some w \<and> (\<exists>p. at_child k p w)"
    using l(2) iterator_on.Set_ok [OF child] by (fastforce simp: at_child_def)
  then have "\<forall>k < length (replicate n new_IteratorWrapper). \<exists>w. (\<lambda>i w. Set (cls i) (Some (list ! i)) w) k (replicate n new_IteratorWrapper ! k) = Some w \<and>
      (\<exists>p. at_child k p w)" by simp
  from each_child_0 [where f = "\<lambda>i w. Set (cls i) (Some (list ! i)) w" and ws = "replicate n new_IteratorWrapper" and
      Q = "\<lambda>k w. \<exists>p. at_child k p w", OF this] show ?thesis
    using m l(1) by (auto simp: new_MergingIterator_def mpos_def somewhere_def)
qed

end

sublocale merging \<subseteq> merged: iterator_on "MergingIter C cls" C es mpos targets
  by (rule merging_iterator)

end
