(* ===== verification/Db_Iter.thy ===== *)
theory Db_Iter
  imports Merger Dbformat Random_Numbers
begin

text \<open>
  The iterator over user entries (db/db_iter.cc): it combines the entries of an internal iterator
  for one user key into one, as the snapshot \<open>s\<close> sees it.  The calls of RecordReadSample are the list
  \<open>di_samples\<close>; the capacity of a string is not modelled.  The loops run with fuel, one unit for each entry
  of the internal iterator.
\<close>

definition kReadBytesPeriod :: nat where
  "kReadBytesPeriod = 1048576"

record 's DBIter =
  di_iter :: 's
  di_status :: Status
  di_saved_key :: bytes
  di_saved_value :: bytes
  di_direction :: Direction
  di_valid :: bool
  di_rnd :: u32
  di_counter :: int
  di_samples :: "bytes list"

definition RandomPeriod :: "u32 \<Rightarrow> nat \<times> u32" where
  "RandomPeriod seed = Uniform (2 * kReadBytesPeriod) seed"

definition new_DBIter :: "'s \<Rightarrow> u32 \<Rightarrow> 's DBIter" where
  "new_DBIter it seed = (let (r, rnd) = RandomPeriod (new_Random seed) in
     \<lparr>di_iter = it, di_status = OK, di_saved_key = [], di_saved_value = [], di_direction = kForward, di_valid = False,
      di_rnd = rnd, di_counter = int r, di_samples = []\<rparr>)"

text \<open>ExtractUserKey with its assertion.\<close>

definition user_key_of :: "bytes \<Rightarrow> bytes option" where
  "user_key_of k = (if length k \<ge> 8 then Some (ExtractUserKey k) else None)"

definition Dkey :: "'s Iterator \<Rightarrow> 's DBIter \<Rightarrow> bytes option" where
  "Dkey I d =
     (if di_valid d then
        (if di_direction d = kForward then Option.bind (it_key I (di_iter d)) user_key_of else Some (di_saved_key d))
      else None)"

definition Dvalue :: "'s Iterator \<Rightarrow> 's DBIter \<Rightarrow> bytes option" where
  "Dvalue I d =
     (if di_valid d then (if di_direction d = kForward then it_value I (di_iter d) else Some (di_saved_value d)) else None)"

definition Dstatus :: "'s Iterator \<Rightarrow> 's DBIter \<Rightarrow> Status" where
  "Dstatus I d = (if is_ok (di_status d) then it_status I (di_iter d) else di_status d)"

text \<open>The loop of ParseKey: a sample for each period of bytes read.\<close>

fun sample_loop :: "nat \<Rightarrow> bytes \<Rightarrow> 's DBIter \<Rightarrow> 's DBIter option" where
  "sample_loop 0 k d = (if di_counter d < 0 then None else Some d)"
| "sample_loop (Suc n) k d =
     (if di_counter d < 0 then
        let (r, seed) = RandomPeriod (di_rnd d) in
        sample_loop n k (d\<lparr>di_counter := di_counter d + int r, di_rnd := seed, di_samples := di_samples d @ [k]\<rparr>)
      else Some d)"

definition ParseKey :: "'s Iterator \<Rightarrow> 's DBIter \<Rightarrow> (ParsedInternalKey option \<times> 's DBIter) option" where
  "ParseKey I d = do {
     k \<leftarrow> it_key I (di_iter d);
     v \<leftarrow> it_value I (di_iter d);
     let d = d\<lparr>di_counter := di_counter d - int (length k + length v)\<rparr>;
     d \<leftarrow> sample_loop (2 * nat (- di_counter d) + 1) k d;
     case ParseInternalKey k of
       None \<Rightarrow> Some (None, d\<lparr>di_status := Corruption ''corrupted internal key in DBIter'' []\<rparr>)
     | Some pk \<Rightarrow> Some (Some pk, d) }"

section \<open>Forwards\<close>

text \<open>The argument \<open>skip\<close> of FindNextUserEntry is \<open>saved_key_\<close> in all calls.\<close>

definition after_next :: "'s Iterator \<Rightarrow> ('s DBIter \<Rightarrow> 's DBIter option) \<Rightarrow> 's DBIter \<Rightarrow> 's DBIter option" where
  "after_next I loop d = do {
     it \<leftarrow> it_Next I (di_iter d);
     let d = d\<lparr>di_iter := it\<rparr>;
     if it_Valid I it then loop d else Some (d\<lparr>di_saved_key := [], di_valid := False\<rparr>) }"

fun FindNextUserEntry :: "Comparator \<Rightarrow> 's Iterator \<Rightarrow> u64 \<Rightarrow> nat \<Rightarrow> bool \<Rightarrow> 's DBIter \<Rightarrow> 's DBIter option" where
  "FindNextUserEntry U I s 0 skipping d = None"
| "FindNextUserEntry U I s (Suc n) skipping d = do {
     (pk, d) \<leftarrow> ParseKey I d;
     let advance = (\<lambda>skipping. after_next I (\<lambda>d. FindNextUserEntry U I s n skipping d));
     case pk of
       None \<Rightarrow> advance skipping d
     | Some p \<Rightarrow>
         if sequence p \<le> s then
           case vtype p of
             kTypeDeletion \<Rightarrow> advance True (d\<lparr>di_saved_key := user_key p\<rparr>)
           | kTypeValue \<Rightarrow>
               if skipping \<and> Compare U (user_key p) (di_saved_key d) \<le> 0 then advance skipping d
               else Some (d\<lparr>di_valid := True, di_saved_key := []\<rparr>)
         else advance skipping d }"

definition DNext :: "Comparator \<Rightarrow> 's Iterator \<Rightarrow> u64 \<Rightarrow> nat \<Rightarrow> 's DBIter \<Rightarrow> 's DBIter option" where
  "DNext U I s n d =
     (if \<not> di_valid d then None
      else if di_direction d = kReverse then do {
        it \<leftarrow> (if \<not> it_Valid I (di_iter d) then it_SeekToFirst I (di_iter d) else it_Next I (di_iter d));
        let d = d\<lparr>di_direction := kForward, di_iter := it\<rparr>;
        if \<not> it_Valid I it then Some (d\<lparr>di_valid := False, di_saved_key := []\<rparr>)
        else FindNextUserEntry U I s n True d }
      else do {
        k \<leftarrow> it_key I (di_iter d);
        u \<leftarrow> user_key_of k;
        FindNextUserEntry U I s n True (d\<lparr>di_saved_key := u\<rparr>) })"

definition DSeek :: "Comparator \<Rightarrow> 's Iterator \<Rightarrow> u64 \<Rightarrow> nat \<Rightarrow> bytes \<Rightarrow> 's DBIter \<Rightarrow> 's DBIter option" where
  "DSeek U I s n target d = do {
     k \<leftarrow> AppendInternalKey [] \<lparr>user_key = target, sequence = s, vtype = kValueTypeForSeek\<rparr>;
     it \<leftarrow> it_Seek I k (di_iter d);
     let d = d\<lparr>di_direction := kForward, di_saved_value := [], di_saved_key := k, di_iter := it\<rparr>;
     if it_Valid I it then FindNextUserEntry U I s n False d else Some (d\<lparr>di_valid := False\<rparr>) }"

definition DSeekToFirst :: "Comparator \<Rightarrow> 's Iterator \<Rightarrow> u64 \<Rightarrow> nat \<Rightarrow> 's DBIter \<Rightarrow> 's DBIter option" where
  "DSeekToFirst U I s n d = do {
     it \<leftarrow> it_SeekToFirst I (di_iter d);
     let d = d\<lparr>di_direction := kForward, di_saved_value := [], di_iter := it\<rparr>;
     if it_Valid I it then FindNextUserEntry U I s n False d else Some (d\<lparr>di_valid := False\<rparr>) }"

section \<open>Backwards\<close>

text \<open>The loop of FindPrevUserEntry, from a valid internal iterator.\<close>

definition after_prev :: "'s Iterator \<Rightarrow> (ValueType \<Rightarrow> 's DBIter \<Rightarrow> (ValueType \<times> 's DBIter) option) \<Rightarrow> ValueType \<Rightarrow> 's DBIter \<Rightarrow>
    (ValueType \<times> 's DBIter) option" where
  "after_prev I loop vt d = do {
     it \<leftarrow> it_Prev I (di_iter d);
     let d = d\<lparr>di_iter := it\<rparr>;
     if it_Valid I it then loop vt d else Some (vt, d) }"

fun prev_loop :: "Comparator \<Rightarrow> 's Iterator \<Rightarrow> u64 \<Rightarrow> nat \<Rightarrow> ValueType \<Rightarrow> 's DBIter \<Rightarrow> (ValueType \<times> 's DBIter) option" where
  "prev_loop U I s 0 vt d = None"
| "prev_loop U I s (Suc n) vt d = do {
     (pk, d) \<leftarrow> ParseKey I d;
     let advance = after_prev I (\<lambda>vt d. prev_loop U I s n vt d);
     case pk of
       None \<Rightarrow> advance vt d
     | Some p \<Rightarrow>
         if sequence p \<le> s then
           if vt \<noteq> kTypeDeletion \<and> Compare U (user_key p) (di_saved_key d) < 0 then Some (vt, d)
           else case vtype p of
             kTypeDeletion \<Rightarrow> advance kTypeDeletion (d\<lparr>di_saved_key := [], di_saved_value := []\<rparr>)
           | kTypeValue \<Rightarrow> do {
               k \<leftarrow> it_key I (di_iter d);
               u \<leftarrow> user_key_of k;
               v \<leftarrow> it_value I (di_iter d);
               advance kTypeValue (d\<lparr>di_saved_key := u, di_saved_value := v\<rparr>) }
         else advance vt d }"

definition FindPrevUserEntry :: "Comparator \<Rightarrow> 's Iterator \<Rightarrow> u64 \<Rightarrow> nat \<Rightarrow> 's DBIter \<Rightarrow> 's DBIter option" where
  "FindPrevUserEntry U I s n d = do {
     (vt, d) \<leftarrow> (if it_Valid I (di_iter d) then prev_loop U I s n kTypeDeletion d else Some (kTypeDeletion, d));
     Some (if vt = kTypeDeletion
       then d\<lparr>di_valid := False, di_saved_key := [], di_saved_value := [], di_direction := kForward\<rparr>
       else d\<lparr>di_valid := True\<rparr>) }"

text \<open>The loop of Prev that leaves the entries of the current key; True when it stopped before them.\<close>

fun back_loop :: "Comparator \<Rightarrow> 's Iterator \<Rightarrow> nat \<Rightarrow> 's DBIter \<Rightarrow> (bool \<times> 's DBIter) option" where
  "back_loop U I 0 d = None"
| "back_loop U I (Suc n) d = do {
     it \<leftarrow> it_Prev I (di_iter d);
     let d = d\<lparr>di_iter := it\<rparr>;
     if \<not> it_Valid I it then Some (False, d\<lparr>di_valid := False, di_saved_key := [], di_saved_value := []\<rparr>)
     else do {
       k \<leftarrow> it_key I it;
       u \<leftarrow> user_key_of k;
       if Compare U u (di_saved_key d) < 0 then Some (True, d) else back_loop U I n d } }"

definition DPrev :: "Comparator \<Rightarrow> 's Iterator \<Rightarrow> u64 \<Rightarrow> nat \<Rightarrow> 's DBIter \<Rightarrow> 's DBIter option" where
  "DPrev U I s n d =
     (if \<not> di_valid d then None
      else if di_direction d = kForward then do {
        k \<leftarrow> it_key I (di_iter d);
        u \<leftarrow> user_key_of k;
        (found, d) \<leftarrow> back_loop U I n (d\<lparr>di_saved_key := u\<rparr>);
        if found then FindPrevUserEntry U I s n (d\<lparr>di_direction := kReverse\<rparr>) else Some d }
      else FindPrevUserEntry U I s n d)"

definition DSeekToLast :: "Comparator \<Rightarrow> 's Iterator \<Rightarrow> u64 \<Rightarrow> nat \<Rightarrow> 's DBIter \<Rightarrow> 's DBIter option" where
  "DSeekToLast U I s n d = do {
     it \<leftarrow> it_SeekToLast I (di_iter d);
     FindPrevUserEntry U I s n (d\<lparr>di_direction := kReverse, di_saved_value := [], di_iter := it\<rparr>) }"

definition DBIterator :: "Comparator \<Rightarrow> 's Iterator \<Rightarrow> u64 \<Rightarrow> nat \<Rightarrow> 's DBIter Iterator" where
  "DBIterator U I s n =
     \<lparr>it_Valid = di_valid, it_SeekToFirst = DSeekToFirst U I s n, it_SeekToLast = DSeekToLast U I s n, it_Seek = DSeek U I s n,
      it_Next = DNext U I s n, it_Prev = DPrev U I s n, it_key = Dkey I, it_value = Dvalue I, it_status = Dstatus I\<rparr>"

definition NewDBIterator :: "'s \<Rightarrow> u32 \<Rightarrow> 's DBIter" where
  "NewDBIterator internal_iter seed = new_DBIter internal_iter seed"

end
