(* ===== verification/Db_Iter_Moves.thy ===== *)
theory Db_Iter_Moves
  imports Db_Iter Memtable
begin

text \<open>
  The moves of the iterator over user entries: over the internal entries of a list of operations in
  the order of internal keys it is an iterator over the user entries that the snapshot sees.
\<close>

section \<open>Samples\<close>

text \<open>Two numbers in a row that are zero for the period do not occur.\<close>

lemma no_two_zeros:
  assumes "seed_ok s" "unat s mod 2 ^ 21 = 0"
  shows "unat (Random_Next s) mod 2 ^ 21 \<noteq> 0"
proof
  assume "unat (Random_Next s) mod 2 ^ 21 = 0"
  then obtain y where y: "unat (Random_Next s) = 2 ^ 21 * y" by (auto simp: mod_eq_0_iff_dvd elim: dvdE)
  obtain x where x: "unat s = 2 ^ 21 * x" using assms(2) by (auto simp: mod_eq_0_iff_dvd elim: dvdE)
  note v = Random_Next_value [OF assms(1) [unfolded seed_ok_def, THEN conjunct1] assms(1) [unfolded seed_ok_def, THEN conjunct2]]
  have b: "1 \<le> x" "x < 1024" "y < 1024"
    using assms(1) v(2) by (simp_all add: seed_ok_def x y random_M_def)
  have "2 ^ 21 * y = 2 ^ 21 * (16807 * x) mod random_M" using v(1) by (simp add: x y mult.assoc mult.commute)
  then have "2 ^ 21 * (16807 * x) mod random_M = 2 ^ 21 * y mod random_M" by simp
  then have "random_M dvd 2 ^ 21 * (16807 * x) - 2 ^ 21 * y" using b by (subst (asm) mod_eq_dvd_iff_nat) auto
  then have "random_M dvd 2 ^ 21 * (16807 * x - y)" by (simp add: diff_mult_distrib2)
  moreover have "coprime random_M (2 ^ 21)" by (simp add: random_M_def coprime_iff_gcd_eq_1 gcd_non_0_nat)
  ultimately have "random_M dvd 16807 * x - y" by (simp only: coprime_dvd_mult_right_iff)
  moreover have "0 < 16807 * x - y" "16807 * x - y < random_M" using b by (simp_all add: random_M_def)
  ultimately show False by (auto dest: dvd_imp_le)
qed

definition sampled :: "'s DBIter \<Rightarrow> 's DBIter \<Rightarrow> bool" where
  "sampled d d' \<longleftrightarrow> (\<exists>c r ss. d' = d\<lparr>di_counter := c, di_rnd := r, di_samples := ss\<rparr> \<and> seed_ok r)"

lemma sampled_fields:
  assumes "sampled d d'"
  shows "di_iter d' = di_iter d" "di_status d' = di_status d" "di_saved_key d' = di_saved_key d" "di_saved_value d' = di_saved_value d"
    "di_direction d' = di_direction d" "di_valid d' = di_valid d" "seed_ok (di_rnd d')"
  using assms by (auto simp: sampled_def)

lemma sampled_refl: "seed_ok (di_rnd d) \<Longrightarrow> sampled d d"
  unfolding sampled_def by (rule exI [of _ "di_counter d"], rule exI [of _ "di_rnd d"], rule exI [of _ "di_samples d"]) simp

lemma sample_loop_ok:
  assumes "seed_ok (di_rnd d)" "2 * nat (- di_counter d) + (if unat (di_rnd d) mod 2 ^ 21 = 0 then 0 else 1) \<le> n"
  shows "\<exists>d'. sample_loop n k d = Some d' \<and> sampled d d'"
  using assms
proof (induction n arbitrary: d)
  case 0
  then show ?case using sampled_refl [of d] by (auto split: if_splits)
next
  case (Suc n)
  show ?case
  proof (cases "di_counter d < 0")
    case False
    then show ?thesis using sampled_refl [OF Suc.prems(1)] by auto
  next
    case True
    let ?s = "Random_Next (di_rnd d)" and ?r = "unat (Random_Next (di_rnd d)) mod 2 ^ 21"
    let ?d = "d\<lparr>di_counter := di_counter d + int ?r, di_rnd := ?s, di_samples := di_samples d @ [k]\<rparr>"
    have s: "seed_ok ?s" using Random_Next_value(2) Suc.prems(1) by (simp add: seed_ok_def)
    have e: "sample_loop (Suc n) k d = sample_loop n k ?d"
      using True by (simp add: RandomPeriod_def Uniform_def kReadBytesPeriod_def Let_def)
    have "2 * nat (- (di_counter d + int ?r)) + (if ?r = 0 then 0 else 1) \<le> n"
    proof (cases "?r = 0")
      case True
      then have "unat (di_rnd d) mod 2 ^ 21 \<noteq> 0" using no_two_zeros [OF Suc.prems(1)] by (rule contrapos_pn)
      then show ?thesis using Suc.prems(2) True by simp
    next
      case False
      then have "1 \<le> int ?r" by linarith
      then have "nat (- (di_counter d + int ?r)) + 1 \<le> nat (- di_counter d)" using \<open>di_counter d < 0\<close> by linarith
      then show ?thesis using Suc.prems(2) False by (simp split: if_splits)
    qed
    then obtain d' where "sample_loop n k ?d = Some d'" "sampled ?d d'" using Suc.IH [of ?d] s by auto
    then show ?thesis using e by (auto simp: sampled_def)
  qed
qed

section \<open>What the snapshot sees\<close>

type_synonym operation = "u64 \<times> ValueType \<times> bytes \<times> bytes"

definition op_seq :: "operation \<Rightarrow> u64" where "op_seq op = fst op"
definition op_type :: "operation \<Rightarrow> ValueType" where "op_type op = fst (snd op)"
definition op_key :: "operation \<Rightarrow> bytes" where "op_key op = fst (snd (snd op))"
definition op_value :: "operation \<Rightarrow> bytes" where "op_value op = snd (snd (snd op))"

text \<open>The entry that stands for its user key: the first one of the key that the snapshot sees, if it is a value.\<close>

definition visible :: "u64 \<Rightarrow> operation list \<Rightarrow> nat \<Rightarrow> bool" where
  "visible s ents j \<longleftrightarrow> j < length ents \<and> op_seq (ents ! j) \<le> s"

definition yields :: "Comparator \<Rightarrow> u64 \<Rightarrow> operation list \<Rightarrow> nat \<Rightarrow> bool" where
  "yields U s ents j \<longleftrightarrow> visible s ents j \<and> op_type (ents ! j) = kTypeValue \<and>
     (\<forall>i < j. visible s ents i \<longrightarrow> Compare U (op_key (ents ! i)) (op_key (ents ! j)) \<noteq> 0)"

definition user_entry :: "operation \<Rightarrow> entry" where
  "user_entry op = (op_key op, op_value op)"

definition user_entries :: "Comparator \<Rightarrow> u64 \<Rightarrow> operation list \<Rightarrow> entry list" where
  "user_entries U s ents = map (\<lambda>j. user_entry (ents ! j)) (filter (yields U s ents) [0..<length ents])"

definition rank :: "Comparator \<Rightarrow> u64 \<Rightarrow> operation list \<Rightarrow> nat \<Rightarrow> nat" where
  "rank U s ents j = length (filter (yields U s ents) [0..<j])"

text \<open>The operations are in the order of internal keys.\<close>

definition ordered :: "Comparator \<Rightarrow> operation list \<Rightarrow> bool" where
  "ordered U ents \<longleftrightarrow> increasing (InternalKeyComparator U) (map op_pair ents) \<and> (\<forall>op \<in> set ents. op_seq op \<le> kMaxSequenceNumber)"

lemma op_pair_fields: "op_pair op = (make_key (op_key op) (op_seq op) (op_type op), op_value op)"
  by (cases op) (simp add: op_pair_def op_key_def op_seq_def op_type_def op_value_def)

lemma user_key_of_make [simp]: "user_key_of (make_key k s t) = Some k"
  by (simp add: user_key_of_def make_key_def)

lemma rank_Suc: "rank U s ents (Suc j) = rank U s ents j + (if yields U s ents j then 1 else 0)"
  by (simp add: rank_def)

lemma rank_mono: "i \<le> j \<Longrightarrow> rank U s ents i \<le> rank U s ents j"
  by (induction j) (auto simp: rank_Suc le_Suc_eq)

lemma rank_same:
  assumes "i \<le> j" "\<And>m. i \<le> m \<Longrightarrow> m < j \<Longrightarrow> \<not> yields U s ents m"
  shows "rank U s ents j = rank U s ents i"
  using assms
proof (induction j)
  case (Suc j)
  show ?case
  proof (cases "i \<le> j")
    case True
    then show ?thesis using Suc by (simp add: rank_Suc)
  next
    case False
    then have "i = Suc j" using Suc.prems(1) by simp
    then show ?thesis by simp
  qed
qed simp

lemma yields_less: "yields U s ents j \<Longrightarrow> j < length ents"
  by (simp add: yields_def visible_def)

lemma rank_all: "rank U s ents (length ents) = length (user_entries U s ents)"
  by (simp add: rank_def user_entries_def)

lemma user_entries_split:
  assumes "j \<le> length ents"
  shows "user_entries U s ents = map (\<lambda>j. user_entry (ents ! j)) (filter (yields U s ents) [0..<j]) @
    map (\<lambda>j. user_entry (ents ! j)) (filter (yields U s ents) [j..<length ents])"
proof -
  have "[0..<length ents] = [0..<j] @ [j..<length ents]" using assms upt_add_eq_append [of 0 j "length ents - j"] by simp
  then show ?thesis by (simp add: user_entries_def)
qed

lemma user_entry_at:
  assumes "yields U s ents j"
  shows "rank U s ents j < length (user_entries U s ents)" "user_entries U s ents ! rank U s ents j = user_entry (ents ! j)"
proof -
  have j: "j < length ents" using assms by (rule yields_less)
  have c: "filter (yields U s ents) [j..<length ents] = j # filter (yields U s ents) [Suc j..<length ents]"
    using j assms by (simp add: upt_conv_Cons)
  have l: "rank U s ents j = length (map (\<lambda>j. user_entry (ents ! j)) (filter (yields U s ents) [0..<j]))" by (simp add: rank_def)
  show "rank U s ents j < length (user_entries U s ents)" "user_entries U s ents ! rank U s ents j = user_entry (ents ! j)"
    unfolding user_entries_split [OF less_imp_le [OF j], of U s] c l nth_append by simp_all
qed

lemma rank_index:
  assumes "i < length (user_entries U s ents)"
  obtains j where "yields U s ents j" "rank U s ents j = i"
proof -
  let ?m = "LEAST m. i < rank U s ents m"
  have e: "i < rank U s ents (length ents)" using assms by (simp add: rank_all)
  have m: "i < rank U s ents ?m" using e by (rule LeastI)
  then obtain j where j: "?m = Suc j" by (cases ?m) (auto simp: rank_def)
  have "\<not> i < rank U s ents j" using not_less_Least [of j "\<lambda>m. i < rank U s ents m"] j by simp
  then have "yields U s ents j" "rank U s ents j = i" using m unfolding j rank_Suc by (auto split: if_splits)
  then show ?thesis using that by blast
qed

lemma rank_inj: "yields U s ents i \<Longrightarrow> yields U s ents j \<Longrightarrow> rank U s ents i = rank U s ents j \<Longrightarrow> i = j"
  using rank_mono [of "Suc i" j U s ents] rank_mono [of "Suc j" i U s ents] rank_Suc [of U s ents i] rank_Suc [of U s ents j]
  by (cases i j rule: linorder_cases) simp_all

section \<open>The order\<close>

context user_comparator
begin

lemma ordered_keys:
  assumes "ordered C ents" "i < j" "j < length ents"
  shows "Compare C (op_key (ents ! i)) (op_key (ents ! j)) \<le> 0"
    and "Compare C (op_key (ents ! i)) (op_key (ents ! j)) = 0 \<Longrightarrow> op_seq (ents ! j) \<le> op_seq (ents ! i)"
proof -
  have "internal_compare C (fst (op_pair (ents ! i))) (fst (op_pair (ents ! j))) < 0"
    using assms by (simp add: ordered_def increasing_def sorted_wrt_iff_nth_less InternalKeyComparator_def)
  then have c: "Compare C (op_key (ents ! i)) (op_key (ents ! j)) < 0 \<or> Compare C (op_key (ents ! i)) (op_key (ents ! j)) = 0 \<and>
      push_bit 8 (op_seq (ents ! j)) OR ucast (type_byte (op_type (ents ! j))) < (push_bit 8 (op_seq (ents ! i)) OR ucast (type_byte (op_type (ents ! i))) :: u64)"
    unfolding internal_less op_pair_fields fst_conv make_key_def extract_append .
  then show "Compare C (op_key (ents ! i)) (op_key (ents ! j)) \<le> 0" by linarith
  assume z: "Compare C (op_key (ents ! i)) (op_key (ents ! j)) = 0"
  have k: "op_seq (ents ! i) \<le> kMaxSequenceNumber" "op_seq (ents ! j) \<le> kMaxSequenceNumber" using assms by (auto simp: ordered_def)
  show "op_seq (ents ! j) \<le> op_seq (ents ! i)"
  proof (rule ccontr)
    assume "\<not> op_seq (ents ! j) \<le> op_seq (ents ! i)"
    then show False using c z tag_less [OF k, of "op_type (ents ! i)" "op_type (ents ! j)"] by (simp add: not_le)
  qed
qed

lemma ordered_le:
  assumes "ordered C ents" "i \<le> j" "j < length ents"
  shows "Compare C (op_key (ents ! i)) (op_key (ents ! j)) \<le> 0"
  using ordered_keys(1) [OF assms(1), of i j] assms cmp_refl by (cases "i = j") auto

lemma user_entries_increasing:
  assumes "ordered C ents"
  shows "increasing C (user_entries C s ents)"
proof -
  have "Compare C (op_key (ents ! i)) (op_key (ents ! j)) < 0" if "i < j" "yields C s ents i" "yields C s ents j" for i j
    using ordered_keys(1) [OF assms that(1) yields_less [OF that(3)]] that by (force simp: yields_def)
  then have "sorted_wrt (\<lambda>i j. Compare C (op_key (ents ! i)) (op_key (ents ! j)) < 0) (filter (yields C s ents) [0..<length ents])"
    by (intro sorted_wrt_mono_rel [OF _ sorted_wrt_filter [OF sorted_wrt_upt]]) auto
  then show ?thesis by (simp add: increasing_def user_entries_def sorted_wrt_map user_entry_def)
qed

lemma yields_first:
  assumes "ordered C ents" "yields C s ents y" "visible s ents j" "j < y"
  shows "Compare C (op_key (ents ! j)) (op_key (ents ! y)) < 0"
  using ordered_keys(1) [OF assms(1,4) yields_less [OF assms(2)]] assms by (force simp: yields_def)

end

section \<open>The iterator\<close>

locale db_iter = user_comparator C + inner: iterator_on I "InternalKeyComparator C" "map op_pair ents" ipos targets
  for C :: Comparator and I :: "'s Iterator" and ents :: "operation list" and ipos :: "nat \<Rightarrow> 's \<Rightarrow> bool" and targets :: "bytes set" +
  fixes s :: u64 and fuel :: nat
begin

abbreviation vis :: "nat \<Rightarrow> bool" where "vis \<equiv> visible s ents"
abbreviation yld :: "nat \<Rightarrow> bool" where "yld \<equiv> yields C s ents"
abbreviation rnk :: "nat \<Rightarrow> nat" where "rnk \<equiv> rank C s ents"
abbreviation key_at :: "nat \<Rightarrow> bytes" where "key_at j \<equiv> op_key (ents ! j)"

definition usable :: "'s DBIter \<Rightarrow> bool" where
  "usable d \<longleftrightarrow> ordered C ents \<and> s \<le> kMaxSequenceNumber \<and> length ents < fuel \<and> di_status d = OK \<and> seed_ok (di_rnd d) \<and>
     (\<exists>p. ipos p (di_iter d))"

lemma usable_upd [simp]:
  "usable (d\<lparr>di_saved_key := k\<rparr>) = usable d" "usable (d\<lparr>di_saved_value := k\<rparr>) = usable d" "usable (d\<lparr>di_valid := b\<rparr>) = usable d"
  "usable (d\<lparr>di_direction := x\<rparr>) = usable d"
  by (simp_all add: usable_def)

lemma usable_iter: "usable d \<Longrightarrow> ipos p it \<Longrightarrow> usable (d\<lparr>di_iter := it\<rparr>)"
  by (auto simp: usable_def)

lemma usable_sampled: "usable d \<Longrightarrow> sampled d d' \<Longrightarrow> usable d'"
  using sampled_fields [of d d'] by (auto simp: usable_def)

text \<open>The entry \<open>p\<close> is the last one before \<open>y\<close> that the snapshot sees; \<open>p\<close> is the end when there is none.\<close>

definition prior :: "nat \<Rightarrow> nat \<Rightarrow> bool" where
  "prior y p \<longleftrightarrow> (p < y \<and> vis p \<or> p = length ents) \<and> (\<forall>j < y. vis j \<longrightarrow> p < y \<and> j \<le> p)"

definition dpos :: "nat \<Rightarrow> 's DBIter \<Rightarrow> bool" where
  "dpos i d \<longleftrightarrow> usable d \<and> i \<le> length (user_entries C s ents) \<and>
     (if i < length (user_entries C s ents) then
        di_valid d \<and> (\<exists>y. yld y \<and> rnk y = i \<and>
          (case di_direction d of
             kForward \<Rightarrow> ipos y (di_iter d)
           | kReverse \<Rightarrow> di_saved_key d = key_at y \<and> di_saved_value d = op_value (ents ! y) \<and> (\<exists>p. ipos p (di_iter d) \<and> prior y p)))
      else \<not> di_valid d)"

lemma inner_key: "ipos j it \<Longrightarrow> j < length ents \<Longrightarrow> it_key I it = Some (make_key (key_at j) (op_seq (ents ! j)) (op_type (ents ! j)))"
  and inner_value: "ipos j it \<Longrightarrow> j < length ents \<Longrightarrow> it_value I it = Some (op_value (ents ! j))"
  using inner.key_ok [of j it] inner.value_ok [of j it] by (simp_all add: op_pair_fields)

lemma inner_valid: "ipos j it \<Longrightarrow> it_Valid I it \<longleftrightarrow> j < length ents"
  using inner.Valid_ok [of j it] by simp

lemma inner_next: "ipos j it \<Longrightarrow> j < length ents \<Longrightarrow> \<exists>it'. it_Next I it = Some it' \<and> ipos (Suc j) it'"
  using inner.Next_ok [of j it] by simp

lemma inner_prev: "ipos j it \<Longrightarrow> j < length ents \<Longrightarrow> \<exists>it'. it_Prev I it = Some it' \<and> ipos (if j = 0 then length ents else j - 1) it'"
  by (rule inner.Prev_ok [unfolded length_map])

lemma ParseKey_ok:
  assumes "usable d" "ipos j (di_iter d)" "j < length ents"
  shows "\<exists>d'. ParseKey I d = Some (Some \<lparr>user_key = key_at j, sequence = op_seq (ents ! j), vtype = op_type (ents ! j)\<rparr>, d') \<and> sampled d d'"
proof -
  let ?k = "make_key (key_at j) (op_seq (ents ! j)) (op_type (ents ! j))"
  let ?d = "d\<lparr>di_counter := di_counter d - int (length ?k + length (op_value (ents ! j)))\<rparr>"
  have "seed_ok (di_rnd ?d)" using assms(1) by (simp add: usable_def)
  then have "\<exists>d'. sample_loop (2 * nat (- di_counter ?d) + 1) ?k ?d = Some d' \<and> sampled ?d d'"
    by (intro sample_loop_ok) auto
  then obtain d' where d': "sample_loop (2 * nat (- di_counter ?d) + 1) ?k ?d = Some d'" "sampled ?d d'" by blast
  have "sampled d d'" using d'(2) by (auto simp: sampled_def)
  moreover have "op_seq (ents ! j) \<le> kMaxSequenceNumber" using assms by (auto simp: usable_def ordered_def)
  ultimately show ?thesis using d'(1) inner_key [OF assms(2,3)] inner_value [OF assms(2,3)] ParseInternalKey_make
    by (simp add: ParseKey_def Let_def del: sample_loop.simps)
qed

subsection \<open>Forwards\<close>

text \<open>
  From the position \<open>j\<close> on the loop hides the entries of the keys that have a visible entry among
  the first \<open>m\<close>.
\<close>

definition hides :: "nat \<Rightarrow> bool \<Rightarrow> bytes \<Rightarrow> nat \<Rightarrow> bool" where
  "hides m skipping saved j \<longleftrightarrow> (\<forall>j' \<ge> j. vis j' \<longrightarrow>
     ((\<exists>i < m. vis i \<and> Compare C (key_at i) (key_at j') = 0) \<longleftrightarrow> skipping \<and> Compare C (key_at j') saved \<le> 0))"

lemma hides_invisible: "hides j skipping saved j \<Longrightarrow> \<not> vis j \<Longrightarrow> hides (Suc j) skipping saved (Suc j)"
  unfolding hides_def by (metis Suc_leD less_Suc_eq)

lemma hides_later: "hides m skipping saved j \<Longrightarrow> hides m skipping saved (Suc j)"
  by (auto simp: hides_def)

lemma hides_hidden:
  assumes h: "hides j skipping saved j" and v: "vis j" "skipping" "Compare C (key_at j) saved \<le> 0"
  shows "hides (Suc j) skipping saved (Suc j)"
  unfolding hides_def
proof (intro allI impI)
  fix j' assume j': "Suc j \<le> j'" "vis j'"
  then have e: "(\<exists>i < j. vis i \<and> Compare C (key_at i) (key_at j') = 0) \<longleftrightarrow> skipping \<and> Compare C (key_at j') saved \<le> 0"
    using h by (simp add: hides_def)
  moreover have "Compare C (key_at j') saved \<le> 0" if "Compare C (key_at j) (key_at j') = 0"
    using that cmp_zero_sym [of "key_at j" "key_at j'"] cmp_trans [of "key_at j'" "key_at j" saved] v(3) by linarith
  ultimately show "(\<exists>i < Suc j. vis i \<and> Compare C (key_at i) (key_at j') = 0) \<longleftrightarrow> skipping \<and> Compare C (key_at j') saved \<le> 0"
    using v(2) unfolding less_Suc_eq by blast
qed

lemma hides_deleted:
  assumes o: "ordered C ents" and v: "vis j"
  shows "hides (Suc j) True (key_at j) (Suc j)"
  unfolding hides_def
proof (intro allI impI)
  fix j' assume j': "Suc j \<le> j'" "vis j'"
  have l: "j' < length ents" using j'(2) by (simp add: visible_def)
  have a: "Compare C (key_at j) (key_at j') \<le> 0" using ordered_le [OF o _ l, of j] j'(1) by simp
  have "Compare C (key_at j') (key_at j) \<le> 0" if i: "i < Suc j" "Compare C (key_at i) (key_at j') = 0" for i
  proof -
    have "Compare C (key_at i) (key_at j) \<le> 0" using ordered_le [OF o _ _, of i j] i(1) v by (simp add: visible_def)
    then show ?thesis using i(2) cmp_zero_sym [of "key_at i" "key_at j'"] cmp_trans [of "key_at j'" "key_at i" "key_at j"] by linarith
  qed
  moreover have "Compare C (key_at j) (key_at j') = 0" if "Compare C (key_at j') (key_at j) \<le> 0"
    using a that cmp_antisym [of "key_at j" "key_at j'"] by linarith
  ultimately show "(\<exists>i < Suc j. vis i \<and> Compare C (key_at i) (key_at j') = 0) \<longleftrightarrow> True \<and> Compare C (key_at j') (key_at j) \<le> 0"
    using v by blast
qed

lemma FindNextUserEntry_ok:
  assumes "usable d" "ipos j (di_iter d)" "j < length ents" "length ents - j \<le> f" "j \<le> m" "m \<le> length ents"
    and "hides m skipping (di_saved_key d) j" "\<forall>i. j \<le> i \<and> i < m \<and> vis i \<longrightarrow> op_type (ents ! i) = kTypeValue"
  shows "\<exists>d' p. FindNextUserEntry C I s f skipping d = Some d' \<and> usable d' \<and> di_direction d' = di_direction d \<and>
    ipos p (di_iter d') \<and> p \<le> length ents \<and> di_valid d' = (p < length ents) \<and> (p < length ents \<longrightarrow> yld p) \<and> rnk p = rnk m"
  using assms
proof (induction f arbitrary: d j m skipping)
  case (Suc f)
  note o = Suc.prems(1) [unfolded usable_def, THEN conjunct1]
  obtain d1 where d1: "ParseKey I d = Some (Some \<lparr>user_key = key_at j, sequence = op_seq (ents ! j), vtype = op_type (ents ! j)\<rparr>, d1)"
    and sd: "sampled d d1" using ParseKey_ok [OF Suc.prems(1-3)] by blast
  note u1 = usable_sampled [OF Suc.prems(1) sd] and f1 = sampled_fields [OF sd]
  obtain it where it: "it_Next I (di_iter d1) = Some it" "ipos (Suc j) it" using inner_next [OF Suc.prems(2,3)] f1(1) by auto
  define adv where "adv = (\<lambda>skipping. after_next I (FindNextUserEntry C I s f skipping))"
  have adv: "\<exists>d' p. adv sk d2 = Some d' \<and> usable d' \<and> di_direction d' = di_direction d \<and>
    ipos p (di_iter d') \<and> p \<le> length ents \<and> di_valid d' = (p < length ents) \<and> (p < length ents \<longrightarrow> yld p) \<and> rnk p = rnk m"
    if "di_iter d2 = di_iter d1" "usable d2" "di_direction d2 = di_direction d" "hides m' sk (di_saved_key d2) (Suc j)"
      "Suc j \<le> m'" "m' \<le> length ents" "rnk m' = rnk m" "\<forall>i. Suc j \<le> i \<and> i < m' \<and> vis i \<longrightarrow> op_type (ents ! i) = kTypeValue"
    for sk d2 m'
  proof (cases "Suc j < length ents")
    case True
    let ?d = "d2\<lparr>di_iter := it\<rparr>"
    have "usable ?d" using usable_iter [OF that(2) it(2)] .
    from Suc.IH [OF this _ True _ that(5,6) _ that(8), of sk] that(3,4,7) it Suc.prems(4) inner_valid [OF it(2)] True show ?thesis
      by (simp add: adv_def after_next_def that(1) Let_def)
  next
    case False
    then have e: "Suc j = length ents" "m' = length ents" using Suc.prems(3) that(5,6) by auto
    have "usable (d2\<lparr>di_iter := it, di_saved_key := [], di_valid := False\<rparr>)" using usable_iter [OF that(2) it(2)] by simp
    then show ?thesis using False it inner_valid [OF it(2)] that(1,3,7) e
      by (intro exI [of _ "d2\<lparr>di_iter := it, di_saved_key := [], di_valid := False\<rparr>"] exI [of _ "Suc j"]) (simp add: adv_def after_next_def Let_def)
  qed
  let ?m = "max m (Suc j)"
  have m: "Suc j \<le> ?m" "?m \<le> length ents" "\<forall>i. Suc j \<le> i \<and> i < ?m \<and> vis i \<longrightarrow> op_type (ents ! i) = kTypeValue"
    using Suc.prems(3,5,6,8) by auto
  have mj: "j < m \<and> ?m = m \<or> m = j \<and> ?m = Suc j" using Suc.prems(5) by auto
  have rm: "rnk ?m = rnk m" if "\<not> yld j" using mj that rank_Suc [of C s ents j] by auto
  have run: "FindNextUserEntry C I s (Suc f) skipping d =
    (if op_seq (ents ! j) \<le> s then case op_type (ents ! j) of
        kTypeDeletion \<Rightarrow> adv True (d1\<lparr>di_saved_key := key_at j\<rparr>)
      | kTypeValue \<Rightarrow> if skipping \<and> Compare C (key_at j) (di_saved_key d1) \<le> 0 then adv skipping d1
          else Some (d1\<lparr>di_valid := True, di_saved_key := []\<rparr>)
     else adv skipping d1)"
    by (auto simp: d1 adv_def Let_def split: ValueType.split)
  have v: "vis j \<longleftrightarrow> op_seq (ents ! j) \<le> s" using Suc.prems(3) by (simp add: visible_def)
  consider (invisible) "\<not> vis j" | (deletion) "vis j" "op_type (ents ! j) = kTypeDeletion"
    | (hidden) "vis j" "op_type (ents ! j) = kTypeValue" "skipping" "Compare C (key_at j) (di_saved_key d1) \<le> 0"
    | (found) "vis j" "op_type (ents ! j) = kTypeValue" "\<not> (skipping \<and> Compare C (key_at j) (di_saved_key d1) \<le> 0)"
    by (cases "op_type (ents ! j)") auto
  then show ?case
  proof cases
    case invisible
    have "hides ?m skipping (di_saved_key d1) (Suc j)"
      using mj hides_invisible [OF _ invisible] hides_later Suc.prems(7) unfolding f1(3) by metis
    moreover have "\<not> yld j" using invisible by (simp add: yields_def)
    ultimately show ?thesis using adv [OF refl u1 f1(5) _ m(1,2) rm m(3)] run v invisible by simp
  next
    case deletion
    then have e: "m = j" "?m = Suc j" using Suc.prems(8) mj by auto
    have "hides ?m True (key_at j) (Suc j)" using hides_deleted [OF o deletion(1)] e(2) by simp
    moreover have "\<not> yld j" using deletion by (simp add: yields_def)
    ultimately show ?thesis using adv [of "d1\<lparr>di_saved_key := key_at j\<rparr>" ?m True] f1 u1 m rm run v deletion by simp
  next
    case hidden
    have "hides ?m skipping (di_saved_key d1) (Suc j)"
      using mj hides_hidden [OF _ hidden(1,3,4)] hides_later Suc.prems(7) unfolding f1(3) by metis
    moreover have "rnk ?m = rnk m"
    proof (cases "j < m")
      case False
      then have "m = j" using mj by simp
      then have "\<exists>i < j. vis i \<and> Compare C (key_at i) (key_at j) = 0" using Suc.prems(7) hidden f1(3) by (auto simp: hides_def)
      then show ?thesis using rm by (auto simp: yields_def)
    qed (use mj in auto)
    ultimately show ?thesis using adv [OF refl u1 f1(5) _ m(1,2) _ m(3)] run v hidden by simp
  next
    case found
    have h: "\<not> (\<exists>i < m. vis i \<and> Compare C (key_at i) (key_at j) = 0)" using Suc.prems(7) found f1(3) by (simp add: hides_def)
    have "\<not> j < m" using h found(1) cmp_refl by blast
    then have "m = j" using mj by simp
    moreover have "yld j" using h found \<open>m = j\<close> by (auto simp: yields_def)
    moreover have "usable (d1\<lparr>di_valid := True, di_saved_key := []\<rparr>)" using u1 by simp
    ultimately show ?thesis using run v found f1 Suc.prems(2,3)
      by (intro exI [of _ "d1\<lparr>di_valid := True, di_saved_key := []\<rparr>"] exI [of _ j]) auto
  qed
qed simp

lemma dpos_forward:
  assumes "usable d" "di_direction d = kForward" "ipos p (di_iter d)" "p \<le> length ents" "di_valid d = (p < length ents)"
    "p < length ents \<longrightarrow> yld p"
  shows "dpos (rnk p) d"
  using assms user_entry_at(1) [of C s ents p] rank_all [of C s ents] rank_mono [OF assms(4)]
  by (cases "p < length ents") (auto simp: dpos_def)

lemma forward_move:
  assumes "usable d" "ipos j (di_iter d)" "j \<le> length ents" "j \<le> m" "m \<le> length ents" "di_direction d = kForward"
    and "hides m skipping (di_saved_key d) j" "\<forall>i. j \<le> i \<and> i < m \<and> vis i \<longrightarrow> op_type (ents ! i) = kTypeValue"
  shows "\<exists>d'. (if j < length ents then FindNextUserEntry C I s fuel skipping d else Some (d\<lparr>di_valid := False\<rparr>)) = Some d' \<and> dpos (rnk m) d'"
proof (cases "j < length ents")
  case True
  have "length ents - j \<le> fuel" using assms(1) by (auto simp: usable_def)
  from FindNextUserEntry_ok [OF assms(1,2) True this assms(4,5,7,8)] obtain d' p where
    d': "FindNextUserEntry C I s fuel skipping d = Some d'" "usable d'" "di_direction d' = di_direction d"
    "ipos p (di_iter d')" "p \<le> length ents" "di_valid d' = (p < length ents)" "p < length ents \<longrightarrow> yld p" "rnk p = rnk m" by blast
  then show ?thesis using dpos_forward [of d' p] assms(6) True by auto
next
  case False
  then have "m = length ents" "j = length ents" using assms by auto
  then show ?thesis using dpos_forward [of "d\<lparr>di_valid := False\<rparr>" j] assms by simp
qed

lemma hides_nothing: "hides 0 False saved 0"
  by (simp add: hides_def)

lemma dpos_usable: "dpos i d \<Longrightarrow> usable d" "dpos i d \<Longrightarrow> i \<le> length (user_entries C s ents)"
  by (simp_all add: dpos_def)

lemma DSeekToFirst_ok:
  assumes "dpos i d"
  shows "\<exists>d'. DSeekToFirst C I s fuel d = Some d' \<and> dpos 0 d'"
proof -
  obtain q where q: "ipos q (di_iter d)" using dpos_usable(1) [OF assms] by (auto simp: usable_def)
  obtain it where it: "it_SeekToFirst I (di_iter d) = Some it" "ipos 0 it" using inner.SeekToFirst_ok [OF q] by blast
  let ?d = "d\<lparr>di_direction := kForward, di_saved_value := [], di_iter := it\<rparr>"
  have "usable ?d" using usable_iter [OF _ it(2), of "d\<lparr>di_direction := kForward, di_saved_value := []\<rparr>"] dpos_usable(1) [OF assms] by simp
  from forward_move [OF this, where j = 0 and m = 0 and skipping = False] it inner_valid [OF it(2)] show ?thesis
    by (simp add: DSeekToFirst_def hides_nothing Let_def rank_def)
qed

text \<open>The target with the number of the snapshot lies behind the entries of its key that are too new.\<close>

lemma seek_entry:
  assumes o: "ordered C ents" and s: "s \<le> kMaxSequenceNumber" and j: "j < length ents"
  shows "Compare (InternalKeyComparator C) (fst (op_pair (ents ! j))) (make_key target s kTypeValue) < 0 \<longleftrightarrow>
    Compare C (key_at j) target < 0 \<or> Compare C (key_at j) target = 0 \<and> s < op_seq (ents ! j)"
proof -
  have "op_seq (ents ! j) \<le> kMaxSequenceNumber" using o j by (auto simp: ordered_def)
  from tag_le [OF this s, of "op_type (ents ! j)"]
  have "push_bit 8 s OR ucast (type_byte kTypeValue) < (push_bit 8 (op_seq (ents ! j)) OR ucast (type_byte (op_type (ents ! j))) :: u64) \<longleftrightarrow>
      s < op_seq (ents ! j)" by (simp only: linorder_not_le [symmetric])
  then show ?thesis by (simp add: InternalKeyComparator_def internal_less op_pair_fields make_key_def)
qed

lemma DSeek_ok:
  assumes "dpos i d" and t: "make_key target s kTypeValue \<in> targets"
  shows "\<exists>d'. DSeek C I s fuel target d = Some d' \<and> dpos (seek_pos C target (user_entries C s ents)) d'"
proof -
  let ?k = "make_key target s kTypeValue"
  let ?j = "seek_pos (InternalKeyComparator C) ?k (map op_pair ents)"
  obtain q where q: "ipos q (di_iter d)" using dpos_usable(1) [OF assms(1)] by (auto simp: usable_def)
  have o: "ordered C ents" "s \<le> kMaxSequenceNumber" using dpos_usable(1) [OF assms(1)] by (auto simp: usable_def)
  have inc: "increasing (InternalKeyComparator C) (map op_pair ents)" using o(1) by (simp add: ordered_def)
  obtain it where it: "it_Seek I ?k (di_iter d) = Some it" "ipos ?j it" using inner.Seek_ok [OF q inc t] by blast
  have jl: "?j \<le> length ents" using seek_pos_le [of "InternalKeyComparator C" ?k "map op_pair ents"] by simp
  let ?d = "d\<lparr>di_direction := kForward, di_saved_value := [], di_saved_key := ?k, di_iter := it\<rparr>"
  have u: "usable ?d" using usable_iter [OF _ it(2), of "d\<lparr>di_direction := kForward, di_saved_value := [], di_saved_key := ?k\<rparr>"]
      dpos_usable(1) [OF assms(1)] by simp
  have low: "Compare C (key_at i) target < 0 \<or> Compare C (key_at i) target = 0 \<and> s < op_seq (ents ! i)" if "i < ?j" for i
    using seek_pos_below [OF that] that jl seek_entry [OF o, of i target] by simp
  have high: "0 \<le> Compare C (key_at i) target \<and> (Compare C (key_at i) target = 0 \<longrightarrow> op_seq (ents ! i) \<le> s)" if i: "?j \<le> i" "i < length ents" for i
  proof -
    have "\<not> Compare (InternalKeyComparator C) (fst (map op_pair ents ! i)) ?k < 0"
      using i internal.increasing_below [OF inc, of i ?k ?j] seek_pos_at [of "InternalKeyComparator C" ?k "map op_pair ents"] by auto
    then show ?thesis using i seek_entry [OF o i(2), of target] by simp (metis linorder_not_less)
  qed
  have "hides ?j False ?k ?j"
    unfolding hides_def
  proof (intro allI impI)
    fix j' assume j': "?j \<le> j'" "vis j'"
    have "Compare C (key_at i) (key_at j') \<noteq> 0" if "i < ?j" "vis i" for i
    proof
      assume "Compare C (key_at i) (key_at j') = 0"
      then show False using low [OF that(1)] that(2) high [OF j'(1)] j'(2) cmp_le_less_trans [of "key_at j'" "key_at i" target] cmp_zero_sym [of "key_at i" "key_at j'"]
        by (auto simp: visible_def)
    qed
    then show "(\<exists>i < ?j. vis i \<and> Compare C (key_at i) (key_at j') = 0) \<longleftrightarrow> False \<and> Compare C (key_at j') ?k \<le> 0" by blast
  qed
  then have "\<exists>d'. (if ?j < length ents then FindNextUserEntry C I s fuel False ?d else Some (?d\<lparr>di_valid := False\<rparr>)) = Some d' \<and> dpos (rnk ?j) d'"
    using it(2) by (intro forward_move u jl le_refl) auto
  then obtain d' where d': "(if ?j < length ents then FindNextUserEntry C I s fuel False ?d else Some (?d\<lparr>di_valid := False\<rparr>)) = Some d'"
    "dpos (rnk ?j) d'" by blast
  have rj: "rnk ?j \<le> length (user_entries C s ents)" using rank_mono [OF jl, of C s ents] by (simp add: rank_all)
  have "seek_pos C target (user_entries C s ents) = rnk ?j"
  proof (rule seek_pos_eqI)
    show "rnk ?j \<le> length (user_entries C s ents)" by (rule rj)
    show "Compare C (fst (user_entries C s ents ! r)) target < 0" if r: "r < rnk ?j" for r
    proof -
      have "r < length (user_entries C s ents)" using r rj by simp
      then obtain y where y: "yld y" "rnk y = r" by (rule rank_index)
      have "y < ?j" using r y(2) rank_mono [of ?j y C s ents] by (cases "y < ?j") auto
      then have "Compare C (key_at y) target < 0" using low [of y] y(1) by (auto simp: yields_def visible_def)
      then show ?thesis using user_entry_at(2) [OF y(1)] y(2) by (simp add: user_entry_def)
    qed
    show "\<not> Compare C (fst (user_entries C s ents ! rnk ?j)) target < 0" if r: "rnk ?j < length (user_entries C s ents)"
    proof -
      obtain y where y: "yld y" "rnk y = rnk ?j" using rank_index [OF r] .
      have "?j \<le> y" using y rank_Suc [of C s ents y] rank_mono [of "Suc y" ?j C s ents] by (cases "?j \<le> y") auto
      then have "0 \<le> Compare C (key_at y) target" using high yields_less [OF y(1)] by blast
      then show ?thesis using user_entry_at(2) [OF y(1)] y(2) by (simp add: user_entry_def)
    qed
  qed
  then show ?thesis using d' it AppendInternalKey_ok [of "\<lparr>user_key = target, sequence = s, vtype = kTypeValue\<rparr>" "[]"] o(2) inner_valid [OF it(2)]
    by (simp add: DSeek_def kValueTypeForSeek_def Let_def)
qed

lemma hides_from:
  assumes o: "ordered C ents" and y: "vis y" and n: "\<forall>i. j \<le> i \<and> i < y \<longrightarrow> \<not> vis i"
  shows "hides (Suc y) True (key_at y) j"
  unfolding hides_def
proof (intro allI impI)
  fix j' assume j': "j \<le> j'" "vis j'"
  consider "j' = y" | "Suc y \<le> j'" using n j' by (metis not_less_eq_eq le_neq_implies_less)
  then show "(\<exists>i < Suc y. vis i \<and> Compare C (key_at i) (key_at j') = 0) \<longleftrightarrow> True \<and> Compare C (key_at j') (key_at y) \<le> 0"
  proof cases
    case 1
    then show ?thesis using y cmp_refl by auto
  next
    case 2
    then show ?thesis using hides_deleted [OF o y] j'(2) by (simp add: hides_def)
  qed
qed

lemma dpos_current:
  assumes "dpos i d" "i < length (user_entries C s ents)"
  obtains y where "yld y" "rnk y = i" "y < length ents" "vis y" "op_type (ents ! y) = kTypeValue" "di_valid d"
    "di_direction d = kForward \<Longrightarrow> ipos y (di_iter d)"
    "di_direction d = kReverse \<Longrightarrow> di_saved_key d = key_at y \<and> di_saved_value d = op_value (ents ! y) \<and> (\<exists>p. ipos p (di_iter d) \<and> prior y p)"
proof -
  from assms obtain y where y: "yld y" "rnk y = i" "di_valid d" and d: "case di_direction d of kForward \<Rightarrow> ipos y (di_iter d)
      | kReverse \<Rightarrow> di_saved_key d = key_at y \<and> di_saved_value d = op_value (ents ! y) \<and> (\<exists>p. ipos p (di_iter d) \<and> prior y p)"
    unfolding dpos_def by (simp only: if_True) blast
  have "vis y" "op_type (ents ! y) = kTypeValue" using y(1) by (simp_all add: yields_def)
  note f = y(1,2) yields_less [OF y(1)] this y(3)
  show ?thesis by (rule that [OF f]) (use d in simp_all)
qed

lemma DNext_ok:
  assumes p: "dpos i d" and i: "i < length (user_entries C s ents)"
  shows "\<exists>d'. DNext C I s fuel d = Some d' \<and> dpos (Suc i) d'"
proof -
  obtain y where y: "yld y" "rnk y = i" "y < length ents" "vis y" "op_type (ents ! y) = kTypeValue" "di_valid d"
    "di_direction d = kForward \<Longrightarrow> ipos y (di_iter d)"
    "di_direction d = kReverse \<Longrightarrow> di_saved_key d = key_at y \<and> di_saved_value d = op_value (ents ! y) \<and> (\<exists>p. ipos p (di_iter d) \<and> prior y p)"
    using dpos_current [OF p i] by blast
  have u: "usable d" and o: "ordered C ents" using dpos_usable(1) [OF p] by (simp_all add: usable_def)
  have r: "rnk (Suc y) = Suc i" using y(1,2) by (simp add: rank_Suc)
  show ?thesis
  proof (cases "di_direction d")
    case kForward
    let ?d = "d\<lparr>di_saved_key := key_at y\<rparr>"
    have "\<forall>i. y \<le> i \<and> i < y \<longrightarrow> \<not> vis i" by auto
    from hides_from [OF o y(4) this] have "hides (Suc y) True (di_saved_key ?d) y" by simp
    moreover have "\<forall>i. y \<le> i \<and> i < Suc y \<and> vis i \<longrightarrow> op_type (ents ! i) = kTypeValue" using y(5) by (auto simp: less_Suc_eq)
    ultimately have "\<exists>d'. (if y < length ents then FindNextUserEntry C I s fuel True ?d else Some (?d\<lparr>di_valid := False\<rparr>)) = Some d' \<and> dpos (rnk (Suc y)) d'"
      using u y kForward by (intro forward_move) auto
    then show ?thesis using y(3,6) r kForward inner_key [OF y(7) [OF kForward] y(3)] by (simp add: DNext_def)
  next
    case kReverse
    obtain q where q: "ipos q (di_iter d)" "prior y q" and sk: "di_saved_key d = key_at y" using y(8) [OF kReverse] by blast
    let ?j = "if q < length ents then Suc q else 0"
    have "\<exists>it. (if \<not> it_Valid I (di_iter d) then it_SeekToFirst I (di_iter d) else it_Next I (di_iter d)) = Some it \<and> ipos ?j it"
      using inner_valid [OF q(1)] inner.SeekToFirst_ok [OF q(1)] inner_next [OF q(1)] by simp
    then obtain it where it: "(if \<not> it_Valid I (di_iter d) then it_SeekToFirst I (di_iter d) else it_Next I (di_iter d)) = Some it" "ipos ?j it" by blast
    have j: "?j \<le> y" "\<forall>i. ?j \<le> i \<and> i < y \<longrightarrow> \<not> vis i" using q(2) y(3) by (auto simp: prior_def)
    let ?d = "d\<lparr>di_direction := kForward, di_iter := it\<rparr>"
    have "usable ?d" using usable_iter [OF _ it(2), of "d\<lparr>di_direction := kForward\<rparr>"] u by simp
    moreover have "hides (Suc y) True (di_saved_key ?d) ?j" using hides_from [OF o y(4) j(2)] sk by simp
    moreover have "\<forall>i. ?j \<le> i \<and> i < Suc y \<and> vis i \<longrightarrow> op_type (ents ! i) = kTypeValue" using y(5) j(2) by (metis less_Suc_eq)
    ultimately have "\<exists>d'. (if ?j < length ents then FindNextUserEntry C I s fuel True ?d else Some (?d\<lparr>di_valid := False\<rparr>)) = Some d' \<and> dpos (rnk (Suc y)) d'"
      using it(2) j(1) y(3) by (intro forward_move) simp_all
    then show ?thesis using y(3,6) r kReverse it j(1) inner_valid [OF it(2)] by (simp add: DNext_def Let_def)
  qed
qed

end

text \<open>
  The backward moves of the iterator over user entries, and its contract.
\<close>

context db_iter
begin

text \<open>The state of the loop after the entries from \<open>q\<close> up to \<open>Q\<close> were examined.\<close>

definition scanned :: "nat \<Rightarrow> nat \<Rightarrow> ValueType \<Rightarrow> 's DBIter \<Rightarrow> bool" where
  "scanned Q q vt d \<longleftrightarrow>
     (case vt of
        kTypeDeletion \<Rightarrow> \<forall>y. q \<le> y \<and> y < Q \<longrightarrow> \<not> yld y
      | kTypeValue \<Rightarrow> \<exists>l. q \<le> l \<and> l < Q \<and> vis l \<and> op_type (ents ! l) = kTypeValue \<and> di_saved_key d = key_at l \<and>
          di_saved_value d = op_value (ents ! l) \<and> (\<forall>y. l < y \<and> y < Q \<longrightarrow> \<not> yld y) \<and> (\<forall>i. q \<le> i \<and> i < l \<longrightarrow> \<not> vis i))"

text \<open>The result of the loop: the last entry before \<open>Q\<close> that stands for its key, if there is one.\<close>

definition found_last :: "nat \<Rightarrow> ValueType \<Rightarrow> 's DBIter \<Rightarrow> bool" where
  "found_last Q vt d \<longleftrightarrow>
     (case vt of
        kTypeDeletion \<Rightarrow> \<forall>y < Q. \<not> yld y
      | kTypeValue \<Rightarrow> \<exists>y < Q. yld y \<and> (\<forall>z. y < z \<and> z < Q \<longrightarrow> \<not> yld z) \<and> di_saved_key d = key_at y \<and>
          di_saved_value d = op_value (ents ! y) \<and> (\<exists>p. ipos p (di_iter d) \<and> prior y p))"

lemma scanned_invisible:
  assumes "scanned Q (Suc j) vt d" "\<not> vis j"
  shows "scanned Q j vt d"
proof -
  have e: "j \<le> i \<longleftrightarrow> i = j \<or> Suc j \<le> i" for i by auto
  show ?thesis
  proof (cases vt)
    case kTypeDeletion
    then show ?thesis using assms unfolding scanned_def e by (auto simp: yields_def)
  next
    case kTypeValue
    show ?thesis using assms unfolding scanned_def kTypeValue ValueType.case(2) e by blast
  qed
qed

lemma scanned_none:
  assumes o: "ordered C ents" and c: "scanned Q (Suc j) vt d" and v: "vis j" "\<not> (vt \<noteq> kTypeDeletion \<and> Compare C (key_at j) (di_saved_key d) < 0)"
  shows "\<forall>y. j < y \<and> y < Q \<longrightarrow> \<not> yld y"
proof (cases vt)
  case kTypeDeletion
  then show ?thesis using c by (auto simp: scanned_def)
next
  case kTypeValue
  then obtain l where l: "Suc j \<le> l" "l < Q" "vis l" "di_saved_key d = key_at l" "\<forall>y. l < y \<and> y < Q \<longrightarrow> \<not> yld y" "\<forall>i. Suc j \<le> i \<and> i < l \<longrightarrow> \<not> vis i"
    using c by (auto simp: scanned_def)
  have "Compare C (key_at j) (key_at l) \<le> 0" using ordered_keys(1) [OF o, of j l] l(1,3) by (simp add: visible_def)
  then have "Compare C (key_at j) (key_at l) = 0" using v(2) kTypeValue l(4) by simp
  then have "\<not> yld l" using v(1) l(1) by (simp add: yields_def) (metis Suc_le_lessD)
  moreover have "\<not> yld y" if "j < y" "y < l" for y using l(6) that by (auto simp: yields_def)
  ultimately show ?thesis using l(5) by (metis linorder_neqE_nat)
qed

lemma scanned_end: "scanned Q 0 vt d \<Longrightarrow> ipos (length ents) (di_iter d) \<Longrightarrow> found_last Q vt d"
  by (cases vt) (auto simp: scanned_def found_last_def yields_def prior_def)

lemma prev_loop_ok:
  assumes "usable d" "ipos j (di_iter d)" "j < length ents" "j < f" "scanned Q (Suc j) vt d" "j < Q"
  shows "\<exists>vt' d'. prev_loop C I s f vt d = Some (vt', d') \<and> usable d' \<and> di_direction d' = di_direction d \<and> found_last Q vt' d'"
  using assms
proof (induction f arbitrary: d j vt)
  case (Suc f)
  note o = Suc.prems(1) [unfolded usable_def, THEN conjunct1]
  obtain d1 where d1: "ParseKey I d = Some (Some \<lparr>user_key = key_at j, sequence = op_seq (ents ! j), vtype = op_type (ents ! j)\<rparr>, d1)"
    and sd: "sampled d d1" using ParseKey_ok [OF Suc.prems(1-3)] by blast
  note u1 = usable_sampled [OF Suc.prems(1) sd] and f1 = sampled_fields [OF sd]
  have c1: "scanned Q (Suc j) vt d1" using Suc.prems(5) f1 by (cases vt) (simp_all add: scanned_def)
  obtain it where it: "it_Prev I (di_iter d1) = Some it" "ipos (if j = 0 then length ents else j - 1) it"
    using inner_prev [OF Suc.prems(2,3)] f1(1) by auto
  define adv where "adv = after_prev I (prev_loop C I s f)"
  have adv: "\<exists>vt' d'. adv vt2 d2 = Some (vt', d') \<and> usable d' \<and> di_direction d' = di_direction d \<and> found_last Q vt' d'"
    if "di_iter d2 = di_iter d1" "usable d2" "di_direction d2 = di_direction d" "scanned Q j vt2 d2" for vt2 d2
  proof -
    let ?d = "d2\<lparr>di_iter := it\<rparr>"
    have u: "usable ?d" using usable_iter [OF that(2) it(2)] .
    have c: "scanned Q j vt2 ?d" using that(4) by (cases vt2) (simp_all add: scanned_def)
    show ?thesis
    proof (cases "j = 0")
      case True
      have "found_last Q vt2 ?d" using scanned_end [of Q vt2 ?d] c it(2) True by simp
      then show ?thesis using u that(1,3) it True inner_valid [OF it(2)] by (simp add: adv_def after_prev_def Let_def)
    next
      case False
      then have j: "j - 1 < length ents" "j - 1 < f" "Suc (j - 1) = j" "j - 1 < Q" using Suc.prems(3,4,6) by auto
      have "\<exists>vt' d'. prev_loop C I s f vt2 ?d = Some (vt', d') \<and> usable d' \<and> di_direction d' = di_direction ?d \<and> found_last Q vt' d'"
        using it(2) False c j by (intro Suc.IH [OF u, where j = "j - 1"]) simp_all
      then show ?thesis using that(1,3) it False inner_valid [OF it(2)] j(1) by (simp add: adv_def after_prev_def Let_def)
    qed
  qed
  have run: "prev_loop C I s (Suc f) vt d =
    (if op_seq (ents ! j) \<le> s then
       if vt \<noteq> kTypeDeletion \<and> Compare C (key_at j) (di_saved_key d1) < 0 then Some (vt, d1)
       else case op_type (ents ! j) of
           kTypeDeletion \<Rightarrow> adv kTypeDeletion (d1\<lparr>di_saved_key := [], di_saved_value := []\<rparr>)
         | kTypeValue \<Rightarrow> adv kTypeValue (d1\<lparr>di_saved_key := key_at j, di_saved_value := op_value (ents ! j)\<rparr>)
     else adv vt d1)"
    using inner_key [OF Suc.prems(2,3)] inner_value [OF Suc.prems(2,3)] f1(1)
    by (auto simp: d1 adv_def Let_def split: ValueType.split)
  have v: "vis j \<longleftrightarrow> op_seq (ents ! j) \<le> s" using Suc.prems(3) by (simp add: visible_def)
  let ?stop = "vt \<noteq> kTypeDeletion \<and> Compare C (key_at j) (di_saved_key d1) < 0"
  consider (invisible) "\<not> vis j" | (stop) "vis j" ?stop | (deletion) "vis j" "\<not> ?stop" "op_type (ents ! j) = kTypeDeletion"
    | (val) "vis j" "\<not> ?stop" "op_type (ents ! j) = kTypeValue"
    by (cases "op_type (ents ! j)") auto
  then show ?case
  proof cases
    case invisible
    then have e: "prev_loop C I s (Suc f) vt d = adv vt d1" using run v by auto
    show ?thesis unfolding e by (rule adv [OF refl u1 f1(5) scanned_invisible [OF c1 invisible]])
  next
    case stop
    then have "vt = kTypeValue" by (cases vt) auto
    then obtain l where l: "Suc j \<le> l" "l < Q" "vis l" "op_type (ents ! l) = kTypeValue" "di_saved_key d1 = key_at l"
      "di_saved_value d1 = op_value (ents ! l)" "\<forall>y. l < y \<and> y < Q \<longrightarrow> \<not> yld y" "\<forall>i. Suc j \<le> i \<and> i < l \<longrightarrow> \<not> vis i"
      using c1 unfolding scanned_def by auto
    have low: "i \<le> j" if "i < l" "vis i" for i using l(8) that by (metis not_less_eq_eq)
    have "Compare C (key_at i) (key_at l) \<noteq> 0" if "i < l" "vis i" for i
      using ordered_le [OF o low [OF that] Suc.prems(3)] stop(2) l(5) cmp_le_less_trans [of "key_at i" "key_at j" "key_at l"] by simp
    then have "yld l" using l(3,4) by (auto simp: yields_def)
    moreover have "prior l j" using l(1) stop(1) low by (auto simp: prior_def)
    ultimately have "found_last Q vt d1" using l Suc.prems(2) f1(1) \<open>vt = kTypeValue\<close> by (auto simp: found_last_def)
    moreover have "prev_loop C I s (Suc f) vt d = Some (vt, d1)" using run v stop by auto
    ultimately show ?thesis using u1 f1(5) by blast
  next
    case deletion
    have "\<not> yld j" using deletion(3) by (simp add: yields_def)
    then have c: "scanned Q j kTypeDeletion (d1\<lparr>di_saved_key := [], di_saved_value := []\<rparr>)"
      using scanned_none [OF o c1 deletion(1,2)] by (auto simp: scanned_def le_less)
    have e: "prev_loop C I s (Suc f) vt d = adv kTypeDeletion (d1\<lparr>di_saved_key := [], di_saved_value := []\<rparr>)"
      using run v deletion by auto
    show ?thesis unfolding e by (rule adv [OF _ _ _ c]) (use u1 f1(5) in simp_all)
  next
    case val
    have c: "scanned Q j kTypeValue (d1\<lparr>di_saved_key := key_at j, di_saved_value := op_value (ents ! j)\<rparr>)"
      using scanned_none [OF o c1 val(1,2)] val(1,3) Suc.prems(6) by (auto simp: scanned_def)
    have e: "prev_loop C I s (Suc f) vt d = adv kTypeValue (d1\<lparr>di_saved_key := key_at j, di_saved_value := op_value (ents ! j)\<rparr>)"
      using run v val by auto
    show ?thesis unfolding e by (rule adv [OF _ _ _ c]) (use u1 f1(5) in simp_all)
  qed
qed simp

lemma FindPrevUserEntry_ok:
  assumes u: "usable d" and q: "ipos q (di_iter d)" and Q: "Q = (if q < length ents then Suc q else 0)" and d: "di_direction d = kReverse"
  shows "\<exists>d'. FindPrevUserEntry C I s fuel d = Some d' \<and> dpos (if rnk Q = 0 then length (user_entries C s ents) else rnk Q - 1) d'"
proof -
  have "\<exists>vt d'. (if it_Valid I (di_iter d) then prev_loop C I s fuel kTypeDeletion d else Some (kTypeDeletion, d)) = Some (vt, d') \<and>
      usable d' \<and> di_direction d' = kReverse \<and> found_last Q vt d'"
  proof (cases "q < length ents")
    case True
    have "scanned Q (Suc q) kTypeDeletion d" using True Q by (auto simp: scanned_def)
    moreover have "q < fuel" using u True by (simp add: usable_def)
    ultimately show ?thesis using prev_loop_ok [OF u q True, of fuel Q kTypeDeletion] True Q d inner_valid [OF q] by simp
  next
    case False
    then show ?thesis using u d Q inner_valid [OF q] by (simp add: found_last_def)
  qed
  then obtain vt d1 where r: "(if it_Valid I (di_iter d) then prev_loop C I s fuel kTypeDeletion d else Some (kTypeDeletion, d)) = Some (vt, d1)"
    and d1: "usable d1" "di_direction d1 = kReverse" "found_last Q vt d1" by blast
  show ?thesis
  proof (cases vt)
    case kTypeDeletion
    then have "rnk Q = 0" using d1(3) rank_same [of 0 Q C s ents] by (simp add: found_last_def rank_def)
    then show ?thesis using r kTypeDeletion d1(1) by (simp add: FindPrevUserEntry_def dpos_def)
  next
    case kTypeValue
    then obtain y where y: "y < Q" "yld y" "\<forall>z. y < z \<and> z < Q \<longrightarrow> \<not> yld z" "di_saved_key d1 = key_at y" "di_saved_value d1 = op_value (ents ! y)"
      "\<exists>p. ipos p (di_iter d1) \<and> prior y p" using d1(3) by (auto simp: found_last_def)
    have "rnk Q = rnk (Suc y)" using y(1,3) by (intro rank_same) (auto simp: Suc_le_eq)
    then have k: "rnk Q \<noteq> 0" "rnk Q - 1 = rnk y" using y(2) by (simp_all add: rank_Suc)
    have "dpos (rnk y) (d1\<lparr>di_valid := True\<rparr>)" using d1(1,2) y user_entry_at(1) [OF y(2)] by (auto simp: dpos_def)
    then show ?thesis using r kTypeValue k by (simp add: FindPrevUserEntry_def)
  qed
qed

lemma back_loop_ok:
  assumes "usable d" "ipos j (di_iter d)" "j \<le> y" "y < length ents" "j < f" "di_saved_key d = key_at y"
    and "\<forall>i. j \<le> i \<and> i \<le> y \<longrightarrow> Compare C (key_at i) (key_at y) = 0"
  shows "\<exists>found d'. back_loop C I f d = Some (found, d') \<and> usable d' \<and> di_direction d' = di_direction d \<and> di_valid d' = (found \<and> di_valid d) \<and>
    (\<exists>q. ipos q (di_iter d') \<and> (if found then q < y \<and> (\<forall>i. q < i \<and> i \<le> y \<longrightarrow> Compare C (key_at i) (key_at y) = 0)
      else \<forall>i \<le> y. Compare C (key_at i) (key_at y) = 0))"
  using assms
proof (induction f arbitrary: d j)
  case (Suc f)
  have o: "ordered C ents" using Suc.prems(1) by (simp add: usable_def)
  have l: "j < length ents" using Suc.prems(3,4) by simp
  obtain it where it: "it_Prev I (di_iter d) = Some it" "ipos (if j = 0 then length ents else j - 1) it"
    using inner_prev [OF Suc.prems(2) l] by blast
  have u: "usable (d\<lparr>di_iter := it\<rparr>)" using usable_iter [OF Suc.prems(1) it(2)] .
  show ?case
  proof (cases "j = 0")
    case True
    have "usable (d\<lparr>di_iter := it, di_valid := False, di_saved_key := [], di_saved_value := []\<rparr>)" using u by simp
    then show ?thesis using True it inner_valid [OF it(2)] Suc.prems(7) by auto
  next
    case False
    then have j: "j - 1 < length ents" using l by simp
    have p: "ipos (j - 1) it" using it(2) False by simp
    note k = inner_key [OF p j]
    show ?thesis
    proof (cases "Compare C (key_at (j - 1)) (key_at y) < 0")
      case True
      have "\<forall>i. j - 1 < i \<and> i \<le> y \<longrightarrow> Compare C (key_at i) (key_at y) = 0" using Suc.prems(7) False by auto
      then show ?thesis using True it(1) p k j inner_valid [OF p] u False Suc.prems(3,6)
        by (intro exI [of _ True] exI [of _ "d\<lparr>di_iter := it\<rparr>"]) (auto simp: Let_def intro!: exI [of _ "j - 1"])
    next
      case same: False
      have "Compare C (key_at (j - 1)) (key_at y) \<le> 0" using ordered_le [OF o _ Suc.prems(4), of "j - 1"] Suc.prems(3) by simp
      then have z: "Compare C (key_at (j - 1)) (key_at y) = 0" using same by simp
      have "\<forall>i. j - 1 \<le> i \<and> i \<le> y \<longrightarrow> Compare C (key_at i) (key_at y) = 0"
      proof (intro allI impI)
        fix i assume "j - 1 \<le> i \<and> i \<le> y"
        then show "Compare C (key_at i) (key_at y) = 0" using z Suc.prems(7) by (cases "i = j - 1") auto
      qed
      then have "\<exists>found d'. back_loop C I f (d\<lparr>di_iter := it\<rparr>) = Some (found, d') \<and> usable d' \<and> di_direction d' = di_direction (d\<lparr>di_iter := it\<rparr>) \<and>
          di_valid d' = (found \<and> di_valid (d\<lparr>di_iter := it\<rparr>)) \<and>
          (\<exists>q. ipos q (di_iter d') \<and> (if found then q < y \<and> (\<forall>i. q < i \<and> i \<le> y \<longrightarrow> Compare C (key_at i) (key_at y) = 0)
            else \<forall>i \<le> y. Compare C (key_at i) (key_at y) = 0))"
        using p False Suc.prems(3-6) by (intro Suc.IH [OF u, of "j - 1"]) simp_all
      then show ?thesis using same it(1) k j inner_valid [OF p] Suc.prems(6) by (simp add: Let_def)
    qed
  qed
qed simp

lemma DPrev_ok:
  assumes p: "dpos i d" and i: "i < length (user_entries C s ents)"
  shows "\<exists>d'. DPrev C I s fuel d = Some d' \<and> dpos (if i = 0 then length (user_entries C s ents) else i - 1) d'"
proof -
  obtain y where y: "yld y" "rnk y = i" "y < length ents" "vis y" "op_type (ents ! y) = kTypeValue" "di_valid d"
    "di_direction d = kForward \<Longrightarrow> ipos y (di_iter d)"
    "di_direction d = kReverse \<Longrightarrow> di_saved_key d = key_at y \<and> di_saved_value d = op_value (ents ! y) \<and> (\<exists>p. ipos p (di_iter d) \<and> prior y p)"
    using dpos_current [OF p i] by blast
  have u: "usable d" using dpos_usable(1) [OF p] .
  show ?thesis
  proof (cases "di_direction d")
    case kReverse
    obtain q where q: "ipos q (di_iter d)" "prior y q" using y(8) [OF kReverse] by blast
    define Q where "Q = (if q < length ents then Suc q else 0)"
    have "rnk y = rnk Q" using q(2) y(3) unfolding Q_def by (intro rank_same) (auto simp: prior_def yields_def)
    then have "rnk Q = i" using y(2) by simp
    from FindPrevUserEntry_ok [OF u q(1) Q_def kReverse, unfolded this] show ?thesis using y(6) kReverse by (simp add: DPrev_def)
  next
    case kForward
    let ?d = "d\<lparr>di_saved_key := key_at y\<rparr>"
    have same: "\<forall>j. y \<le> j \<and> j \<le> y \<longrightarrow> Compare C (key_at j) (key_at y) = 0" using cmp_refl by (metis le_antisym)
    have f: "y < fuel" using u y(3) by (simp add: usable_def)
    have ud: "usable ?d" "ipos y (di_iter ?d)" "di_saved_key ?d = key_at y" using u y(7) [OF kForward] by simp_all
    from back_loop_ok [OF ud(1,2) le_refl y(3) f ud(3) same] obtain found d1 q where
      b: "back_loop C I fuel ?d = Some (found, d1)" "usable d1" "di_direction d1 = kForward" "di_valid d1 = found" "ipos q (di_iter d1)"
      and q: "if found then q < y \<and> (\<forall>i. q < i \<and> i \<le> y \<longrightarrow> Compare C (key_at i) (key_at y) = 0) else \<forall>i \<le> y. Compare C (key_at i) (key_at y) = 0"
      using kForward y(6) by auto
    have ny: "\<not> yld j" if "j < y" "Compare C (key_at j) (key_at y) = 0" for j using y(1) that by (auto simp: yields_def)
    have run: "DPrev C I s fuel d = (if found then FindPrevUserEntry C I s fuel (d1\<lparr>di_direction := kReverse\<rparr>) else Some d1)"
      using b(1) y(6) kForward inner_key [OF y(7) [OF kForward] y(3)] by (simp add: DPrev_def)
    show ?thesis
    proof (cases found)
      case True
      then have q: "q < y" "\<forall>i. q < i \<and> i \<le> y \<longrightarrow> Compare C (key_at i) (key_at y) = 0" using q by auto
      have "rnk y = rnk (Suc q)" using q ny by (intro rank_same) (auto simp: Suc_le_eq)
      then have r: "rnk (Suc q) = i" using y(2) by simp
      have s: "Suc q = (if q < length ents then Suc q else 0)" using q(1) y(3) by simp
      have "usable (d1\<lparr>di_direction := kReverse\<rparr>)" "ipos q (di_iter (d1\<lparr>di_direction := kReverse\<rparr>))" using b by simp_all
      from FindPrevUserEntry_ok [OF this s _, unfolded r] show ?thesis using run True by simp
    next
      case False
      then have "rnk y = rnk 0" using q ny by (intro rank_same) auto
      then have "i = 0" using y(2) by (simp add: rank_def)
      then show ?thesis using run False b by (simp add: dpos_def)
    qed
  qed
qed

lemma DSeekToLast_ok:
  assumes "dpos i d"
  shows "\<exists>d'. DSeekToLast C I s fuel d = Some d' \<and> dpos (length (user_entries C s ents) - 1) d'"
proof -
  obtain q where q: "ipos q (di_iter d)" using dpos_usable(1) [OF assms] by (auto simp: usable_def)
  obtain it where it: "it_SeekToLast I (di_iter d) = Some it" "ipos (length ents - 1) it" using inner.SeekToLast_ok [OF q] by auto
  let ?d = "d\<lparr>di_direction := kReverse, di_saved_value := [], di_iter := it\<rparr>"
  have u: "usable ?d" using usable_iter [OF _ it(2), of "d\<lparr>di_direction := kReverse, di_saved_value := []\<rparr>"] dpos_usable(1) [OF assms] by simp
  have "length ents = (if length ents - 1 < length ents then Suc (length ents - 1) else 0)" by (cases ents) auto
  from FindPrevUserEntry_ok [OF u _ this] it show ?thesis by (auto simp: DSeekToLast_def rank_all Let_def split: if_splits)
qed

section \<open>The contract\<close>

lemma dpos_entry:
  assumes p: "dpos i d" and i: "i < length (user_entries C s ents)"
  shows "Dkey I d = Some (fst (user_entries C s ents ! i))" "Dvalue I d = Some (snd (user_entries C s ents ! i))"
proof -
  obtain y where y: "yld y" "rnk y = i" "y < length ents" "vis y" "op_type (ents ! y) = kTypeValue" "di_valid d"
    "di_direction d = kForward \<Longrightarrow> ipos y (di_iter d)"
    "di_direction d = kReverse \<Longrightarrow> di_saved_key d = key_at y \<and> di_saved_value d = op_value (ents ! y) \<and> (\<exists>p. ipos p (di_iter d) \<and> prior y p)"
    using dpos_current [OF p i] by blast
  have e: "user_entries C s ents ! i = (key_at y, op_value (ents ! y))" using user_entry_at(2) [OF y(1)] y(2) by (simp add: user_entry_def)
  show "Dkey I d = Some (fst (user_entries C s ents ! i))" "Dvalue I d = Some (snd (user_entries C s ents ! i))"
    using y(6) y(7) y(8) inner_key [OF _ y(3)] inner_value [OF _ y(3)] unfolding e
    by (cases "di_direction d"; simp add: Dkey_def Dvalue_def)+
qed

lemma dpos_valid: "dpos i d \<Longrightarrow> di_valid d \<longleftrightarrow> i < length (user_entries C s ents)"
  by (auto simp: dpos_def split: if_splits)

lemma dpos_status: "dpos i d \<Longrightarrow> Dstatus I d = OK"
  using inner.status_ok by (auto simp: dpos_def usable_def Dstatus_def)

lemma db_iterator: "iterator_on (DBIterator C I s fuel) C (user_entries C s ents) dpos {target. make_key target s kTypeValue \<in> targets}"
  by unfold_locales
    (simp_all add: DBIterator_def dpos_entry dpos_valid dpos_status dpos_usable DSeekToFirst_ok DSeekToLast_ok DSeek_ok DNext_ok DPrev_ok
      del: One_nat_def)

lemma new_DBIter_ok:
  assumes "ordered C ents" "s \<le> kMaxSequenceNumber" "length ents < fuel" "ipos p it"
  shows "dpos (length (user_entries C s ents)) (NewDBIterator it seed)"
proof -
  have "seed_ok (Random_Next (new_Random seed))"
    using Random_Next_value(2) new_Random_ok [of seed, unfolded seed_ok_def] by blast
  then show ?thesis using assms by (auto simp: NewDBIterator_def new_DBIter_def RandomPeriod_def Uniform_def Let_def dpos_def usable_def)
qed

end

sublocale db_iter \<subseteq> user: iterator_on "DBIterator C I s fuel" C "user_entries C s ents" dpos "{target. make_key target s kTypeValue \<in> targets}"
  by (rule db_iterator)

end
