(* ===== verification/Db_Iterators.thy ===== *)
theory Db_Iterators
  imports Merger Db_Iter_Moves Memtable_Properties Db_Recovery
begin

text \<open>
  The iterators of the database (db/db_impl.cc: NewInternalIterator, NewIterator): the merging
  iterator over the memtables and the tables, and the iterator over user entries above it.
\<close>

section \<open>The iterator of a memtable keeps the contract\<close>

text \<open>A memtable is asked to seek keys whose length fits in 32 bits.\<close>

definition short_keys :: "bytes set" where
  "short_keys = {k. length k < 2 ^ 32}"

definition mem_pos :: "Comparator \<Rightarrow> MemTable \<Rightarrow> operation list \<Rightarrow> nat \<Rightarrow> nat option \<Rightarrow> bool" where
  "mem_pos U m ents i it \<longleftrightarrow> skip_at (KeyComparator U) (mtable m) (map op_entry ents) i it \<and> (\<forall>op \<in> set ents. op_ok op)"

context user_comparator
begin

lemma memtable_slices:
  assumes "mem_pos C m ents i it" "i < length ents"
  shows "it_key (MemTableIterator C m) it = Some (fst (op_pair (ents ! i)))" "it_value (MemTableIterator C m) it = Some (snd (op_pair (ents ! i)))"
proof -
  obtain s t k v where e: "ents ! i = (s, t, k, v)" by (cases "ents ! i")
  have o: "op_ok (s, t, k, v)" using assms e by (metis mem_pos_def nth_mem)
  have "SLkey (mtable m) it = Some (entry_bytes s t k v)"
    using key_order.skip_at_key [OF memtable_order, of "mtable m" "map op_entry ents" i it] assms e by (simp add: mem_pos_def op_entry_def)
  then show "it_key (MemTableIterator C m) it = Some (fst (op_pair (ents ! i)))" "it_value (MemTableIterator C m) it = Some (snd (op_pair (ents ! i)))"
    using o by (simp_all add: MemTableIterator_def op_ok_def slice_at_entry slice_at_value e op_pair_def)
qed

lemma memtable_seek:
  assumes p: "mem_pos C m ents i it" and t: "length target < 2 ^ 32"
  shows "\<exists>it'. it_Seek (MemTableIterator C m) target it = Some it' \<and>
    mem_pos C m ents (seek_pos (InternalKeyComparator C) target (map op_pair ents)) it'"
proof -
  have ok: "\<forall>op \<in> set ents. op_ok op" and k: "skip_keys (KeyComparator C) (mtable m) (map op_entry ents)"
    using p key_order.skip_at_keys [OF memtable_order] by (auto simp: mem_pos_def)
  have t': "entry_slice (EncodeKey target) = target"
    using slice_at_encoded [OF t, of "[]"] by (simp add: entry_slice_def EncodeKey_def PutVarint32_def)
  have "takeWhile (\<lambda>e. KeyComparator C e (EncodeKey target) < 0) (map op_entry ents) =
      map op_entry (takeWhile (\<lambda>op. Compare (InternalKeyComparator C) (fst (op_pair op)) target < 0) ents)"
    using ok unfolding takeWhile_map
    by (intro arg_cong [where f = "map op_entry"] takeWhile_cong) (auto simp: KeyComparator_def entry_slice_op t')
  then have "length (takeWhile (\<lambda>e. KeyComparator C e (EncodeKey target) < 0) (map op_entry ents)) =
      seek_pos (InternalKeyComparator C) target (map op_pair ents)"
    by (simp add: seek_pos_def takeWhile_map comp_def)
  then show ?thesis using key_order.skip_Seek [OF memtable_order k, of "EncodeKey target"] ok by (auto simp: mem_pos_def MemTableIterator_def)
qed

lemma memtable_iterator: "iterator_on (MemTableIterator C m) (InternalKeyComparator C) (map op_pair ents) (mem_pos C m ents) short_keys"
proof (unfold_locales, goal_cases)
  case (1 i s)
  then show ?case using key_order.skip_at_le [OF memtable_order] by (fastforce simp: mem_pos_def)
next
  case (2 i s)
  then show ?case using key_order.skip_at_Valid [OF memtable_order] by (fastforce simp: mem_pos_def MemTableIterator_def)
next
  case (3 i s)
  then show ?case using memtable_slices by simp
next
  case (4 i s)
  then show ?case using memtable_slices by simp
next
  case (5 i s)
  then show ?case by (simp add: MemTableIterator_def)
next
  case (6 i s)
  then show ?case using key_order.skip_SeekToFirst [OF memtable_order key_order.skip_at_keys [OF memtable_order]]
    by (auto simp: mem_pos_def MemTableIterator_def)
next
  case (7 i s)
  then show ?case using key_order.skip_SeekToLast [OF memtable_order key_order.skip_at_keys [OF memtable_order], of "mtable m" "map op_entry ents" i s]
    by (auto simp: mem_pos_def MemTableIterator_def)
next
  case (8 i s target)
  then show ?case using memtable_seek by (simp add: short_keys_def)
next
  case (9 i s)
  then show ?case using key_order.skip_Next [OF memtable_order, of "mtable m" "map op_entry ents" i s] by (auto simp: mem_pos_def MemTableIterator_def)
next
  case (10 i s)
  then show ?case using key_order.skip_Prev [OF memtable_order, of "mtable m" "map op_entry ents" i s] by (auto simp: mem_pos_def MemTableIterator_def)
qed

end

interpretation bytewise_memtable: iterator_on "MemTableIterator BytewiseComparator m" "InternalKeyComparator BytewiseComparator"
  "map op_pair ents" "mem_pos BytewiseComparator m ents" short_keys for m ents
  by (rule bytewise_user.memtable_iterator)

section \<open>Merging\<close>

context comparator
begin

lemma increasing_unique:
  assumes "increasing C xs" "increasing C ys" "set xs = set ys"
  shows "xs = ys"
  using assms
proof (induction xs arbitrary: ys)
  case (Cons x xs)
  then obtain y zs where ys: "ys = y # zs" by (cases ys) auto
  have lx: "\<forall>e \<in> set xs. Compare C (fst x) (fst e) < 0" and lz: "\<forall>e \<in> set zs. Compare C (fst y) (fst e) < 0"
    using Cons.prems(1,2) ys by (auto simp: increasing_def)
  have irr: "\<not> (Compare C a b < 0 \<and> Compare C b a < 0)" for a b using cmp_antisym [of a b] by auto
  have "x = y"
  proof (rule ccontr)
    assume "x \<noteq> y"
    then have "x \<in> set zs" "y \<in> set xs" using Cons.prems(3) ys by auto
    then show False using lx lz irr by blast
  qed
  moreover have "x \<notin> set xs" "y \<notin> set zs" using lx lz irr by blast+
  ultimately have "set xs = set zs" using Cons.prems(3) ys by auto
  then show ?case using Cons.IH [of zs] Cons.prems(1,2) ys \<open>x = y\<close> by (simp add: increasing_def)
qed simp

lemma merges_few:
  assumes "merges C n ess es"
  shows "n = 0 \<Longrightarrow> es = []" "n = 1 \<Longrightarrow> es = ess 0"
proof -
  show "n = 0 \<Longrightarrow> es = []" using assms by (simp add: merges_def)
  show "n = 1 \<Longrightarrow> es = ess 0" using assms by (intro increasing_unique) (auto simp: merges_def)
qed

end

context merging
begin

lemma NewMergingIterator_ok:
  assumes m: "merges C n ess es" "fst ` set es \<subseteq> targets" and l: "length list = n" "\<forall>k < n. \<exists>p. cpos k p (list ! k)"
  shows "\<exists>it pos. NewMergingIterator cls list = Some it \<and> iterator_on (MergedIter C cls) C es pos targets \<and> (\<exists>i. pos i it)"
proof -
  consider "n = 0" | "n = 1" | "2 \<le> n" by linarith
  then show ?thesis
  proof cases
    case 1
    have "iterator_on EmptyIterator C [] (\<lambda>i s. i = 0 \<and> s = OK) targets" by unfold_locales (simp_all add: EmptyIterator_def seek_pos_def)
    then have "iterator_on (MergedIter C cls) C es (\<lambda>i s. \<exists>a. s = Inl a \<and> i = 0 \<and> a = OK) targets"
      unfolding MergedIter_def merges_few(1) [OF m(1) 1] by (rule iterator_on_dispatch_left)
    then show ?thesis using 1 l(1) by (auto simp: NewMergingIterator_def NewEmptyIterator_def)
  next
    case 2
    have "iterator_on (MergedIter C cls) C es (\<lambda>i s. \<exists>b. s = Inr b \<and> (\<exists>a. b = Inl a \<and> cpos 0 i a)) targets"
      unfolding MergedIter_def using child [of 0] 2 merges_few(2) [OF m(1) 2]
      by (intro iterator_on_dispatch iterator_on_dispatch_left) simp
    then show ?thesis using 2 l by (auto simp: NewMergingIterator_def)
  next
    case 3
    obtain s where "new_MergingIterator cls list = Some s" "mpos (length es) s" using new_MergingIterator_ok [OF m l] by blast
    moreover have "iterator_on (MergedIter C cls) C es (\<lambda>i s. \<exists>b. s = Inr b \<and> (\<exists>a. b = Inr a \<and> mpos i a)) targets"
      unfolding MergedIter_def by (intro iterator_on_dispatch merging_iterator)
    ultimately show ?thesis using 3 l(1) by (auto simp: NewMergingIterator_def)
  qed
qed

end

section \<open>The iterators of the database\<close>

text \<open>
  The children of the internal iterator: the memtable, the one that waits to be written, if there is
  one, and the iterators that the current version adds, whose classes are \<open>F\<close>.  The iterators keep
  references to the memtables, which are as they were when the iterator was made.
\<close>

definition memtables :: "'f DbImpl \<Rightarrow> MemTable list" where
  "memtables db = db_mem db # (case db_imm db of Some imm \<Rightarrow> [imm] | None \<Rightarrow> [])"

definition child_class :: "Comparator \<Rightarrow> (nat \<Rightarrow> 'x Iterator) \<Rightarrow> 'f DbImpl \<Rightarrow> nat \<Rightarrow> (nat option + 'x) Iterator" where
  "child_class U F db k =
     (if k < length (memtables db) then dispatch (MemTableIterator U (memtables db ! k)) (F 0)
      else dispatch (MemTableIterator U (db_mem db)) (F (k - length (memtables db))))"

text \<open>NewInternalIterator gives the iterator, the last sequence number, the seed and the state with
  its new references.\<close>

definition NewInternalIterator :: "Comparator \<Rightarrow> (nat \<Rightarrow> 'x Iterator) \<Rightarrow> 'x list \<Rightarrow> u32 \<Rightarrow> 'f DbImpl \<Rightarrow>
    ((Status + (nat option + 'x) + (nat option + 'x) MergingIterator) \<times> u64 \<times> u32 \<times> 'f DbImpl) option" where
  "NewInternalIterator U F files seed0 db = do {
     let list = map (\<lambda>_. Inl new_MemTableIterator) (memtables db) @ map Inr files;
     internal_iter \<leftarrow> NewMergingIterator (child_class U F db) list;
     Some (internal_iter, last_sequence db, seed0 + 1, db\<lparr>db_mem := MRef (db_mem db), db_imm := map_option MRef (db_imm db)\<rparr>) }"

definition NewIterator :: "Comparator \<Rightarrow> (nat \<Rightarrow> 'x Iterator) \<Rightarrow> 'x list \<Rightarrow> u32 \<Rightarrow> u64 option \<Rightarrow> 'f DbImpl \<Rightarrow>
    ((Status + (nat option + 'x) + (nat option + 'x) MergingIterator) DBIter \<times> u64 \<times> 'f DbImpl) option" where
  "NewIterator U F files seed0 snapshot db = do {
     (it, latest_snapshot, seed, db) \<leftarrow> NewInternalIterator U F files seed0 db;
     Some (NewDBIterator it seed, (case snapshot of Some s \<Rightarrow> s | None \<Rightarrow> latest_snapshot), db) }"

text \<open>The class of the iterator that NewIterator returns: user entries at the sequence number \<open>s\<close>.\<close>

definition DbIteratorClass :: "Comparator \<Rightarrow> (nat \<Rightarrow> 'x Iterator) \<Rightarrow> 'f DbImpl \<Rightarrow> u64 \<Rightarrow> nat \<Rightarrow>
    (Status + (nat option + 'x) + (nat option + 'x) MergingIterator) DBIter Iterator" where
  "DbIteratorClass U F db s fuel = DBIterator U (MergedIter (InternalKeyComparator U) (child_class U F db)) s fuel"

text \<open>
  What the sources of the database hold: the operations of each memtable and of each iterator of the
  version, in the order of internal keys, and all of them together.
\<close>

definition sources :: "Comparator \<Rightarrow> (nat \<Rightarrow> 'x Iterator) \<Rightarrow> 'x list \<Rightarrow> 'f DbImpl \<Rightarrow> (nat \<Rightarrow> operation list) \<Rightarrow> operation list \<Rightarrow> bool" where
  "sources U F files db held ents \<longleftrightarrow>
     ordered U ents \<and> fst ` set (map op_pair ents) \<subseteq> short_keys \<and>
     merges (InternalKeyComparator U) (length (memtables db) + length files) (\<lambda>k. map op_pair (held k)) (map op_pair ents) \<and>
     (\<forall>k < length (memtables db). skip_keys (KeyComparator U) (mtable (memtables db ! k)) (map op_entry (held k)) \<and> (\<forall>op \<in> set (held k). op_ok op)) \<and>
     (\<forall>j < length files. \<exists>pos. iterator_on (F j) (InternalKeyComparator U) (map op_pair (held (length (memtables db) + j))) pos short_keys \<and>
        (\<exists>i. pos i (files ! j)))"

context user_comparator
begin

lemma NewIterator_ok:
  assumes src: "sources C F files db held ents" and s: "(case snapshot of Some s \<Rightarrow> s | None \<Rightarrow> last_sequence db) = s" "s \<le> kMaxSequenceNumber"
    and f: "length ents < fuel"
  shows "\<exists>d db' pos i. NewIterator C F files seed0 snapshot db = Some (d, s, db') \<and>
    iterator_on (DbIteratorClass C F db s fuel) C (user_entries C s ents) pos {t. length t + 8 < 2 ^ 32} \<and> pos i d"
proof -
  let ?m = "length (memtables db)"
  have fp: "\<exists>pos. j < length files \<longrightarrow> iterator_on (F j) (InternalKeyComparator C) (map op_pair (held (?m + j))) pos short_keys \<and> (\<exists>i. pos i (files ! j))" for j
    using src by (cases "j < length files") (auto simp: sources_def)
  then obtain fpos where fpos: "\<And>j. j < length files \<Longrightarrow> iterator_on (F j) (InternalKeyComparator C) (map op_pair (held (?m + j))) (fpos j) short_keys"
    "\<And>j. j < length files \<Longrightarrow> \<exists>i. fpos j i (files ! j)" by metis
  define cpos where "cpos = (\<lambda>k i x. if k < ?m then (\<exists>a. x = Inl a \<and> mem_pos C (memtables db ! k) (held k) i a)
      else (\<exists>b. x = Inr b \<and> fpos (k - ?m) i b))"
  have mg: "merges (InternalKeyComparator C) (?m + length files) (\<lambda>k. map op_pair (held k)) (map op_pair ents)" using src by (simp add: sources_def)
  have mer: "merging (InternalKeyComparator C) (child_class C F db) (?m + length files) (\<lambda>k. map op_pair (held k)) cpos short_keys"
  proof (intro merging.intro merging_axioms.intro internal.comparator_axioms)
    fix k assume k: "k < ?m + length files"
    show "iterator_on (child_class C F db k) (InternalKeyComparator C) (map op_pair (held k)) (cpos k) short_keys"
    proof (cases "k < ?m")
      case True
      then show ?thesis using iterator_on_dispatch_left [OF memtable_iterator] by (simp add: child_class_def cpos_def)
    next
      case False
      then have "k - ?m < length files" using k by simp
      from iterator_on_dispatch [OF fpos(1) [OF this]] False show ?thesis by (simp add: child_class_def cpos_def)
    qed
  qed
  let ?list = "map (\<lambda>_. Inl new_MemTableIterator) (memtables db) @ map Inr files"
  have "\<exists>i. cpos k i (?list ! k)" if k: "k < ?m + length files" for k
  proof (cases "k < ?m")
    case True
    then have "skip_keys (KeyComparator C) (mtable (memtables db ! k)) (map op_entry (held k))" "\<forall>op \<in> set (held k). op_ok op"
      using src by (auto simp: sources_def)
    then show ?thesis using key_order.skip_at_end [OF memtable_order] True
      by (auto simp: cpos_def nth_append new_MemTableIterator_def mem_pos_def)
  next
    case False
    then show ?thesis using fpos(2) [of "k - ?m"] k by (auto simp: cpos_def nth_append)
  qed
  then have at: "\<forall>k < ?m + length files. \<exists>i. cpos k i (?list ! k)" by blast
  have sk: "fst ` set (map op_pair ents) \<subseteq> short_keys" using src unfolding sources_def by blast
  have len: "length ?list = ?m + length files" by simp
  from merging.NewMergingIterator_ok [OF mer mg sk len at] obtain it pos where it: "NewMergingIterator (child_class C F db) ?list = Some it"
    "iterator_on (MergedIter (InternalKeyComparator C) (child_class C F db)) (InternalKeyComparator C) (map op_pair ents) pos short_keys"
    "\<exists>i. pos i it" by blast
  have dbi: "db_iter C (MergedIter (InternalKeyComparator C) (child_class C F db)) ents pos short_keys"
    by (intro db_iter.intro user_comparator_axioms it(2))
  obtain i where i: "pos i it" using it(3) by blast
  have e: "{t. make_key t s kTypeValue \<in> short_keys} = {t. length t + 8 < 2 ^ 32}" by (simp add: short_keys_def make_key_def)
  have "ordered C ents" using src by (simp add: sources_def)
  from db_iter.new_DBIter_ok [OF dbi this s(2) f i] it(1) db_iter.db_iterator [OF dbi, of s fuel, unfolded e] s(1) show ?thesis
    by (auto simp: NewIterator_def NewInternalIterator_def DbIteratorClass_def)
qed

lemma op_fields: "(op_seq op, op_type op, op_key op, op_value op) = op"
  by (simp add: op_seq_def op_type_def op_key_def op_value_def)

lemma user_entries_newest:
  assumes o: "ordered C ents" and st: "set ents = set ops" and q: "sorted_wrt (\<lambda>a b. fst a < fst b) ops"
  shows "(k, v) \<in> set (user_entries C s ents) \<longleftrightarrow> (\<exists>n. newest C k s ops = Some (n, kTypeValue, k, v))"
proof -
  have inj: "x = y" if xy: "x \<in> set ops" "y \<in> set ops" "fst x = fst y" for x y
  proof -
    obtain i where "i < length ops" "ops ! i = x" using xy(1) unfolding in_set_conv_nth by blast
    moreover obtain j where "j < length ops" "ops ! j = y" using xy(2) unfolding in_set_conv_nth by blast
    ultimately show ?thesis using q xy(3) unfolding sorted_wrt_iff_nth_less by (cases i j rule: linorder_cases) (metis less_irrefl)+
  qed
  have idx: "i = j" if "ents ! i = ents ! j" "i < length ents" "j < length ents" for i j
  proof -
    have "increasing (InternalKeyComparator C) (map op_pair ents)" using o by (simp add: ordered_def)
    from internal.increasing_distinct [OF this, of i j] that internal.cmp_refl show ?thesis by simp
  qed
  show ?thesis
  proof
    assume "(k, v) \<in> set (user_entries C s ents)"
    then obtain y where y: "yields C s ents y" "op_key (ents ! y) = k" "op_value (ents ! y) = v"
      by (auto simp: user_entries_def user_entry_def)
    have l: "y < length ents" "op_seq (ents ! y) \<le> s" using y(1) by (simp_all add: yields_def visible_def)
    have oy: "ents ! y \<in> set ops" using l(1) st nth_mem by blast
    have "newest C k s ops \<noteq> None"
    proof
      assume "newest C k s ops = None"
      moreover have "(op_seq (ents ! y), op_type (ents ! y), k, v) \<in> set ops"
        using oy op_fields [of "ents ! y"] y(2,3) by simp
      ultimately have "Compare C k k \<noteq> 0" using newest_none l(2) by blast
      then show False using cmp_refl by simp
    qed
    then obtain op where op: "newest C k s ops = Some op" by blast
    note n = newest_first [OF op q]
    obtain j where j: "j < length ents" "ents ! j = op" using n(1) st by (metis in_set_conv_nth)
    have c: "Compare C (op_key (ents ! j)) (op_key (ents ! y)) = 0" using n(3) j(2) y(2) by (simp add: op_key_def)
    have le: "fst (ents ! y) \<le> fst op" using n(4) oy l(2) y(2) cmp_refl by (simp add: op_seq_def op_key_def)
    have "\<not> j < y" using y(1) c n(2) j by (auto simp: yields_def visible_def op_seq_def)
    have "fst op \<le> fst (ents ! y)"
    proof (cases "j = y")
      case False
      then have "y < j" using \<open>\<not> j < y\<close> by simp
      from ordered_keys(2) [OF o this j(1)] c cmp_zero_sym show ?thesis using j(2) by (simp add: op_seq_def)
    qed (use j in simp)
    then have "op = ents ! y" using inj [OF n(1) oy] le by simp
    then show "\<exists>m. newest C k s ops = Some (m, kTypeValue, k, v)"
      using op y by (intro exI [of _ "op_seq (ents ! y)"]) (simp add: yields_def op_seq_def op_type_def op_key_def op_value_def prod_eq_iff)
  next
    assume "\<exists>n. newest C k s ops = Some (n, kTypeValue, k, v)"
    then obtain m where op: "newest C k s ops = Some (m, kTypeValue, k, v)" by blast
    note n = newest_first [OF op q]
    obtain y where y: "y < length ents" "ents ! y = (m, kTypeValue, k, v)" using n(1) st by (metis in_set_conv_nth)
    have "Compare C (op_key (ents ! i)) (op_key (ents ! y)) \<noteq> 0" if i: "i < y" "visible s ents i" for i
    proof
      assume c: "Compare C (op_key (ents ! i)) (op_key (ents ! y)) = 0"
      have oi: "ents ! i \<in> set ops" using i y(1) st nth_mem by fastforce
      have "fst (ents ! i) \<le> m" using n(4) oi i(2) c y(2) by (auto simp: visible_def op_seq_def op_key_def)
      moreover have "m \<le> fst (ents ! i)" using ordered_keys(2) [OF o i(1) y(1) c] y(2) by (simp add: op_seq_def)
      ultimately have "ents ! i = ents ! y" using inj [OF oi n(1)] y(2) by simp
      then show False using idx [of i y] i(1) y(1) by simp
    qed
    then have "yields C s ents y" using y n(2) by (simp add: yields_def visible_def op_seq_def op_type_def)
    from user_entry_at [OF this] y(2) show "(k, v) \<in> set (user_entries C s ents)"
      by (metis (no_types, lifting) fst_conv nth_mem op_key_def op_value_def snd_conv user_entry_def)
  qed
qed

lemma one_source:
  assumes m: "mem_holds C (db_mem db) ops" "db_imm db = None" and q: "sorted_wrt (\<lambda>a b. fst a < fst b) ops"
  shows "\<exists>held ents. sources C F [] db held ents \<and> set ents = set ops \<and> length ents = length ops"
proof -
  obtain ents where e: "skip_keys (KeyComparator C) (mtable (db_mem db)) (map op_entry ents)" "set ents = set ops" "length ents = length ops"
    "increasing (InternalKeyComparator C) (map op_pair ents)" using mem_entries [OF m(1) q] by blast
  have ok: "\<forall>op \<in> set ents. op_ok op" using m(1) e(2) by (simp add: mem_holds_def list_all_iff)
  have "ordered C ents" using e(4) ok by (auto simp: ordered_def op_ok_def op_seq_def)
  moreover have "fst ` set (map op_pair ents) \<subseteq> short_keys" using ok by (auto simp: op_ok_def op_pair_def short_keys_def make_key_def)
  moreover have "merges (InternalKeyComparator C) 1 (\<lambda>_. map op_pair ents) (map op_pair ents)" using e(4) by (auto simp: merges_def)
  moreover have "memtables db = [db_mem db]" using m(2) by (simp add: memtables_def)
  ultimately have "sources C F [] db (\<lambda>_. ents) ents" using e(1) ok by (simp add: sources_def)
  then show ?thesis using e(2,3) by blast
qed

end

interpretation memtable_merge: merging "InternalKeyComparator BytewiseComparator" "\<lambda>k. MemTableIterator BytewiseComparator (ms ! k)" n
  "\<lambda>k. map op_pair (held k)" es "\<lambda>k. mem_pos BytewiseComparator (ms ! k) (held k)" short_keys for ms n held es
  by (intro merging.intro merging_axioms.intro bytewise_user.internal.comparator_axioms bytewise_user.memtable_iterator)

interpretation memtable_users: db_iter BytewiseComparator "MemTableIterator BytewiseComparator m" ents
  "mem_pos BytewiseComparator m ents" short_keys s fuel for m ents s fuel
  by (intro db_iter.intro bytewise_user.user_comparator_axioms bytewise_user.memtable_iterator)

end
