(* ===== verification/Db_Iter_Properties.thy ===== *)
theory Db_Iter_Properties
  imports Db_Iterators Db_Properties
begin

text \<open>
  The properties of the iterators: merging, the user entries of a snapshot, and the scan of a
  database after writes.
\<close>

text \<open>C32. Merging sorted iterators gives one sorted iterator: for any number of children (none, one, or more), each an
  iterator over its entries, with no key in two of them, NewMergingIterator builds an iterator over
  the merged sequence that keeps the whole contract of iterators (SeekToFirst, SeekToLast, Seek,
  Next and Prev in any order, with the turns between the directions); read from the first entry it
  gives the merged sequence.\<close>
theorem merging_iterator_merges:
  assumes "Comparator.comparator C" "\<forall>k < length list. iterator_on (cls k) C (ess k) (cpos k) targets"
    and "merges C (length list) ess es" "fst ` set es \<subseteq> targets" "\<forall>k < length list. \<exists>i. cpos k i (list ! k)"
  shows "\<exists>it pos i. NewMergingIterator cls list = Some it \<and> iterator_on (MergedIter C cls) C es pos targets \<and> pos i it \<and>
    Option.bind (it_SeekToFirst (MergedIter C cls) it) (collect (MergedIter C cls) (length es)) = Some es"
proof -
  have "merging C cls (length list) ess cpos targets"
    using assms(1,2) by (intro merging.intro merging_axioms.intro) auto
  from merging.NewMergingIterator_ok [OF this assms(3,4) refl assms(5)] obtain it pos i where
    it: "NewMergingIterator cls list = Some it" "iterator_on (MergedIter C cls) C es pos targets" "pos i it" by blast
  obtain s where "it_SeekToFirst (MergedIter C cls) it = Some s" "pos 0 s" using iterator_on.SeekToFirst_ok [OF it(2,3)] by blast
  then show ?thesis using it iterator_on.collect_ok [OF it(2), of 0 s "length es"] by auto
qed

text \<open>Two memtables with one operation each.\<close>

lemma memtable_one:
  assumes "op_ok op"
  shows "\<exists>m. mem_pos BytewiseComparator m [op] 1 None \<and> skip_keys (KeyComparator BytewiseComparator) (mtable m) [op_entry op] \<and>
    mem_holds BytewiseComparator m [op]"
proof -
  obtain m0 where m0: "new_MemTable = Some m0" "mem_holds BytewiseComparator m0 []" using new_MemTable_ok by blast
  obtain m where m: "MAdd_all BytewiseComparator [op] m0 = Some m" "mem_holds BytewiseComparator m [op]"
    using bytewise_user.MAdd_all_ok [OF m0(2), of "[op]"] assms by auto
  obtain ents where e: "skip_keys (KeyComparator BytewiseComparator) (mtable m) (map op_entry ents)" "set ents = {op}" "length ents = 1"
    using bytewise_user.mem_entries [OF m(2)] by auto
  have "ents = [op]" using e(2,3) by (cases ents) auto
  then have k: "skip_keys (KeyComparator BytewiseComparator) (mtable m) [op_entry op]" using e(1) by simp
  show ?thesis using bytewise_keys.skip_at_end [OF k] k m(2) assms by (auto simp: mem_pos_def)
qed

theorem merging_iterator_merges_witness:
  "\<exists>m1 m2 it pos i. NewMergingIterator (\<lambda>k. MemTableIterator BytewiseComparator ([m1, m2] ! k)) [None, None] = Some it \<and>
    iterator_on (MergedIter (InternalKeyComparator BytewiseComparator) (\<lambda>k. MemTableIterator BytewiseComparator ([m1, m2] ! k)))
      (InternalKeyComparator BytewiseComparator) [(make_key [3] 2 kTypeValue, [6]), (make_key [7] 1 kTypeValue, [5])] pos short_keys \<and> pos i it"
proof -
  let ?a = "(1, kTypeValue, [7], [5]) :: operation" and ?b = "(2, kTypeValue, [3], [6]) :: operation"
  obtain m1 where m1: "mem_pos BytewiseComparator m1 [?a] 1 None" using memtable_one [of ?a] by (auto simp: op_ok_def kMaxSequenceNumber_def)
  obtain m2 where m2: "mem_pos BytewiseComparator m2 [?b] 1 None" using memtable_one [of ?b] by (auto simp: op_ok_def kMaxSequenceNumber_def)
  let ?ess = "\<lambda>k. map op_pair ([[?a], [?b]] ! k)" and ?es = "[op_pair ?b, op_pair ?a]"
  let ?C = "InternalKeyComparator BytewiseComparator"
  have two: "k < length [None :: nat option, None] \<longleftrightarrow> k = 0 \<or> k = 1" for k by auto
  have c: "Compare ?C (fst (op_pair ?b)) (fst (op_pair ?a)) < 0" "Compare ?C (fst (op_pair ?a)) (fst (op_pair ?b)) \<noteq> 0"
    using extract_append(1) [of "[3]"] extract_append(1) [of "[7]"]
    by (simp_all add: op_pair_def InternalKeyComparator_def internal_compare_def make_key_def BytewiseComparator_def)
  have "merges ?C (length [None :: nat option, None]) ?ess ?es"
    using c unfolding merges_def two by (auto simp: increasing_def numeral_2_eq_2 lessThan_Suc)
  moreover have "fst ` set ?es \<subseteq> short_keys" by (simp add: op_pair_def short_keys_def make_key_def)
  moreover have "\<forall>k < length [None :: nat option, None]. \<exists>i. mem_pos BytewiseComparator ([m1, m2] ! k) ([[?a], [?b]] ! k) i ([None, None] ! k)"
    unfolding two using m1 m2 by auto
  moreover have "\<forall>k < length [None :: nat option, None]. iterator_on (MemTableIterator BytewiseComparator ([m1, m2] ! k)) ?C (?ess k)
      (mem_pos BytewiseComparator ([m1, m2] ! k) ([[?a], [?b]] ! k)) short_keys"
    by (simp add: bytewise_user.memtable_iterator)
  ultimately show ?thesis
    using merging_iterator_merges [OF bytewise_user.internal.comparator_axioms, of "[None, None]" "\<lambda>k. MemTableIterator BytewiseComparator ([m1, m2] ! k)"
        ?ess "\<lambda>k. mem_pos BytewiseComparator ([m1, m2] ! k) ([[?a], [?b]] ! k)" short_keys ?es]
    by (simp add: op_pair_def) blast
qed

text \<open>C33. An iterator of the database runs over what its snapshot sees: over memtables and tables whose entries are
  sorted, the iterator of NewIterator keeps the whole contract of iterators for the sequence of user
  entries, in which each user key occurs at most once, with the value of its first entry that is not
  newer than the snapshot, unless that entry is a deletion; it is strictly increasing for the user
  comparator.\<close>
theorem db_iterator_contract:
  assumes "user_comparator U" "sources U F files db held ents" "length ents < fuel"
    and "(case snapshot of Some s \<Rightarrow> s | None \<Rightarrow> last_sequence db) = s" "s \<le> kMaxSequenceNumber"
  shows "\<exists>d db' pos i. NewIterator U F files seed0 snapshot db = Some (d, s, db') \<and>
    iterator_on (DbIteratorClass U F db s fuel) U (user_entries U s ents) pos {t. length t + 8 < 2 ^ 32} \<and> pos i d \<and>
    increasing U (user_entries U s ents)"
proof -
  have "ordered U ents" using assms(2) by (simp add: sources_def)
  then show ?thesis
    using user_comparator.NewIterator_ok [OF assms(1,2,4,5,3), of seed0] user_comparator.user_entries_increasing [OF assms(1)] by blast
qed

text \<open>A database with one put in its memtable.\<close>

theorem db_iterator_contract_witness:
  "\<exists>db d db' pos i. NewIterator BytewiseComparator (\<lambda>_. EmptyIterator) [] 0 (Some 5) (db :: (InMemoryEnv \<times> nat) DbImpl) = Some (d, 5, db') \<and>
    iterator_on (DbIteratorClass BytewiseComparator (\<lambda>_. EmptyIterator) db 5 2) BytewiseComparator [([7], [1])] pos {t. length t + 8 < 2 ^ 32} \<and> pos i d"
proof -
  let ?a = "(1, kTypeValue, [7], [1]) :: operation"
  obtain m where m: "mem_holds BytewiseComparator m [?a]" using memtable_one [of ?a] by (auto simp: op_ok_def kMaxSequenceNumber_def)
  obtain db0 :: "(InMemoryEnv \<times> nat) DbImpl" where db0: "open_new (one_file [], 0) = Some db0" "db_imm db0 = None"
  proof -
    obtain m0 where m0: "new_MemTable = Some m0" using new_MemTable_ok by blast
    show ?thesis by (rule that, unfold open_new_def m0 Option.bind.simps, rule refl) simp
  qed
  let ?db = "db0\<lparr>db_mem := m\<rparr>"
  obtain held ents where h: "sources BytewiseComparator (\<lambda>_. EmptyIterator) [] ?db held ents" "set ents = {?a}" "length ents = 1"
    using bytewise_user.one_source [of ?db "[?a]" "\<lambda>_. EmptyIterator"] m db0(2) by auto
  have e: "ents = [?a]" using h(2,3) by (cases ents) auto
  have u: "user_entries BytewiseComparator 5 [?a] = [([7], [1])]"
    by (simp add: user_entries_def yields_def visible_def op_seq_def op_type_def user_entry_def op_key_def op_value_def)
  have "length [?a] < 2" "(case Some 5 of Some s \<Rightarrow> s | None \<Rightarrow> last_sequence ?db) = 5" "(5 :: u64) \<le> kMaxSequenceNumber"
    by (simp_all add: kMaxSequenceNumber_def)
  from db_iterator_contract [OF bytewise_user.user_comparator_axioms h(1) [unfolded e] this, of 0, unfolded u] show ?thesis by blast
qed

lemma number_length: "length (number n us) = length us"
  by (induction n us rule: number.induct) simp_all

text \<open>C34. A scan of the database after writes: any queue of writers with batches that fit the write buffer is served
  with success; the iterator made afterwards, at a snapshot or without one, reads from its first entry
  a list with strictly increasing user keys, which holds an entry exactly if the newest update of its
  key up to that sequence number is a put of that key and value.\<close>
theorem db_scan_after_writes:
  assumes "user_comparator U" "mem_written f []" "fits_buffer write_buffer_size qs" "seen_at snap qs \<le> kMaxSequenceNumber"
    and "length (concat (map fst qs)) < fuel"
  shows "\<exists>db d db' r. Option.bind (open_new f) (serve_queue U mem_writable WritableFileImpl_Sync write_buffer_size (map writer_of qs)) =
      Some (replicate (length qs) OK, db) \<and>
    NewIterator U F [] seed0 snap db = Some (d, seen_at snap qs, db') \<and>
    Option.bind (it_SeekToFirst (DbIteratorClass U F db (seen_at snap qs) fuel) d) (collect (DbIteratorClass U F db (seen_at snap qs) fuel) fuel) = Some r \<and>
    increasing U r \<and>
    (\<forall>k v. (k, v) \<in> set r \<longleftrightarrow> (\<exists>n. newest U k (seen_at snap qs) (number 1 (concat (map fst qs))) = Some (n, kTypeValue, k, v)))"
proof -
  have w: "db_writer U mem_writable mem_written WritableFileImpl_Sync" by (rule mem_db_writer [OF assms(1)])
  let ?us = "concat (map fst qs)"
  obtain db0 where db0: "open_new f = Some db0" "db_writer.db_holds U mem_written db0 []"
    using db_writer.open_new_holds [OF w assms(2)] by blast
  obtain db hs where db: "serve_queue U mem_writable WritableFileImpl_Sync write_buffer_size (map writer_of qs) db0 = Some (replicate (length qs) OK, db)"
      "db_writer.db_holds U mem_written db hs" "concat hs = ?us"
    using db_writer.serve_queue_ok [OF w db0(2), of qs write_buffer_size] assms(3) by (auto simp: fits_buffer_def)
  have h: "mem_of U ?us (db_mem db)" "last_sequence db = word_of_nat (length ?us)" "db_imm db = None"
    using db(2,3) by (simp_all add: db_writer.db_holds_def [OF w])
  have l: "length ?us < 2 ^ 31" using assms(3) by (simp add: fits_buffer_def)
  have q: "sorted_wrt (\<lambda>a b. fst a < fst b) (number 1 ?us)" by (rule number_sorted) (use l in simp)
  have mh: "mem_holds U (db_mem db) (number 1 ?us)" using h(1) by (simp add: mem_of_def)
  obtain held ents where src: "sources U F [] db held ents" "set ents = set (number 1 ?us)" "length ents = length (number 1 ?us)"
    using user_comparator.one_source [OF assms(1) mh h(3) q] by blast
  define s where "s = seen_at snap qs"
  have s: "(case snap of Some s \<Rightarrow> s | None \<Rightarrow> last_sequence db) = s" "s \<le> kMaxSequenceNumber"
    using assms(4) h(2) by (auto simp: s_def seen_at_def split: option.splits)
  have fu: "length ents < fuel" using src(3) assms(5) by (simp add: number_length)
  obtain d db' pos i where d: "NewIterator U F [] seed0 snap db = Some (d, s, db')"
    "iterator_on (DbIteratorClass U F db s fuel) U (user_entries U s ents) pos {t. length t + 8 < 2 ^ 32}" "pos i d"
    using user_comparator.NewIterator_ok [OF assms(1) src(1) s fu] by blast
  obtain d1 where d1: "it_SeekToFirst (DbIteratorClass U F db s fuel) d = Some d1" "pos 0 d1" using iterator_on.SeekToFirst_ok [OF d(2,3)] by blast
  have "length (user_entries U s ents) \<le> length ents" by (simp add: user_entries_def length_filter_le [THEN order_trans])
  then have "collect (DbIteratorClass U F db s fuel) fuel d1 = Some (user_entries U s ents)"
    using iterator_on.collect_ok [OF d(2) d1(2), of fuel] fu by simp
  moreover have o: "ordered U ents" using src(1) by (simp add: sources_def)
  moreover have "increasing U (user_entries U s ents)" by (rule user_comparator.user_entries_increasing [OF assms(1) o])
  moreover have "\<forall>k v. (k, v) \<in> set (user_entries U s ents) \<longleftrightarrow> (\<exists>n. newest U k s (number 1 ?us) = Some (n, kTypeValue, k, v))"
    using user_comparator.user_entries_newest [OF assms(1) o src(2) q] by blast
  ultimately show ?thesis using d(1) d1(1) unfolding db0(1) Option.bind.simps db(1) s_def [symmetric] by auto
qed

text \<open>Two writers; the second one deletes a key of the first.\<close>

theorem db_scan_after_writes_witness:
  "\<exists>db d r. Option.bind (open_new (one_file [], 0)) (serve_queue BytewiseComparator mem_writable WritableFileImpl_Sync 100000
      (map writer_of [([BPut [1] [5], BPut [2] [6]], True), ([BDelete [1]], False)])) = Some ([OK, OK], db) \<and>
    Option.bind (it_SeekToFirst (DbIteratorClass BytewiseComparator (\<lambda>_. EmptyIterator) db 3 10) d)
      (collect (DbIteratorClass BytewiseComparator (\<lambda>_. EmptyIterator) db 3 10) 10) = Some r \<and>
    ([2], [6]) \<in> set r \<and> ([1], [5]) \<notin> set r"
proof -
  let ?qs = "[([BPut [1] [5], BPut [2] [6]], True), ([BDelete [1]], False)]"
  have u: "user_comparator BytewiseComparator" by (rule bytewise_user.user_comparator_axioms)
  have f: "mem_written (one_file [], 0) []" by (simp add: mem_written_def file_holds_def one_file_def holds_def)
  have q: "fits_buffer 100000 ?qs" by (simp add: fits_buffer_def)
  have s: "seen_at None ?qs \<le> kMaxSequenceNumber" by (simp add: seen_at_def kMaxSequenceNumber_def)
  have n: "length (concat (map fst ?qs)) < 10" by simp
  have e: "seen_at None ?qs = 3" "replicate (length ?qs) OK = [OK, OK]" by (simp_all add: seen_at_def)
  have r: "newest BytewiseComparator [2] 3 (number 1 (concat (map fst ?qs))) = Some (2, kTypeValue, [2], [6])"
    "newest BytewiseComparator [1] 3 (number 1 (concat (map fst ?qs))) = Some (3, kTypeDeletion, [1], [])"
    by (simp_all add: newest_def BytewiseComparator_def)
  from db_scan_after_writes [OF u f q s n, of "\<lambda>_. EmptyIterator" 0, unfolded e] show ?thesis
    using r by (elim exE conjE) (rule exI, rule exI, rule exI, intro conjI, assumption, assumption, simp_all)
qed

end
