(* ===== verification/Spec2Isabelle.thy ===== *)
theory Spec2Isabelle
  imports FTL_Properties LRU_Properties BL_Properties Log_Properties MemEnv_Safety Filename Table_Properties Memtable_Properties Random_Numbers Version_Edit Db_Properties Db_Iter_Properties
begin

text \<open>
  Verification of WiscKey: the flash simulator (src/WiscKey/Flash) and the storage formats of the
  key-value store on top of it (src/WiscKey/util, db, helpers).  The simulator keeps the
  state of a NAND flash device in global variables; a translation layer maps the logical pages
  (clusters) of the host to pages of the flash memory, and the key-value store issues its
  requests through one function of the layer.

  \<^bold>\<open>Parts and theories of the simulator.\<close>

  \<^item> \<open>Flash_Prelude\<close>: programs as functions from the state to an error or a result with the new
    state, arrays with checked indices, C arithmetic, loops, weakest preconditions.
  \<^item> \<open>Flash_Memory\<close> (flash.h, flash.c): the globals as a record, statistics, page counters, the
    free block list and its refinement to a queue; \<open>Flash_Frame\<close>: what its functions leave alone.
  \<^item> \<open>FTL_Model\<close> (FTL.h, FTL.c): the page-level translation layer; \<open>FTL_Invariant\<close>, \<open>FTL_Erase\<close>,
    \<open>FTL_Reclaim\<close>, \<open>FTL_GC\<close>, \<open>FTL_Correct\<close>, \<open>FTL_Wear\<close>, \<open>FTL_Requests\<close>: its invariant and the
    behaviour of each function; \<open>FTL_Properties\<close>: the properties.
  \<^item> \<open>LRU_List\<close> (LRUList.h, LRUList.c) and \<open>LRU_List_DFTL\<close> (LRUListDFTL.h, LRUListDFTL.c): the
    doubly linked lists of cached keys; \<open>LRU_Refinement\<close>: the list of keys behind the links;
    \<open>LRU_Cache\<close>: the contract of a cache and its two providers; \<open>LRU_Properties\<close>.
  \<^item> \<open>Flash_Pages\<close>: erasing and the contents of pages, for the translation layers.
  \<^item> \<open>Trace\<close> (utility.h, utility.c): the reader of the trace file; \<open>Trace_Parse\<close>: the
    text of a trace and its parsing; \<open>Trace_Requests\<close>: the requests that a loop
    serves, in their order.

  \<^item> \<open>BL_Model\<close> (BL.h, BL.c): the block-level translation layer with its write buffer; \<open>BL_Update\<close>:
    its invariant and the rewriting of a block; \<open>BL_Requests\<close>: reading, the buffer, sequences of
    requests; \<open>BL_Properties\<close>.

  \<^bold>\<open>Parts and theories of the key-value store.\<close>

  \<^item> \<open>Coding\<close> (util/coding.h, coding.cc): fixed-width, variable-length and length-prefixed encodings,
    their round trips, and the contract \<open>codec\<close> of an encoding with its three providers.
  \<^item> \<open>CRC32C\<close> (util/crc32c.h, crc32c.cc): the table-driven checksum and its equality with the
    computation bit by bit, by linearity.
  \<^item> \<open>Status\<close> (include/leveldb/status.h, util/status.cc): results of operations; \<open>Logging\<close>
    (util/logging.cc), \<open>Filename\<close> (db/filename.h, filename.cc): numbers as text, names of files.
  \<^item> \<open>Files\<close> (include/leveldb/env.h): the contracts of files for reading and for writing; \<open>MemEnv\<close>
    (helpers/memenv/memenv.cc): files in memory, which provide them; \<open>MemEnv_Safety\<close>: the
    states that clients reach, whatever they do, which operations follow null pointers there, reference
    counts, and the map from names to bytes behind the environment.
  \<^item> \<open>Log_Writer\<close>, \<open>Log_Reader\<close> (db/log_format.h, log_writer.h, log_writer.cc, log_reader.h,
    log_reader.cc): the write-ahead log; \<open>Log_Recovery\<close>: records through any file that keeps the
    contracts; \<open>Log_Properties\<close>: recovery of a log in memory that was cut anywhere.

  \<^item> \<open>Bloom\<close> (util/hash.cc, util/bloom.cc, include/leveldb/filter_policy.h): Bloom filters, and the contract
    \<open>filter_policy\<close> that they keep; \<open>Filter_Block\<close> (table/filter_block.h, filter_block.cc): the filters of a
    table, which never reject a key of theirs; their size.
  \<^item> \<open>Comparator\<close> (include/leveldb/slice.h, comparator.h, util/comparator.cc): the order of keys as a contract,
    and the bytewise order.
  \<^item> \<open>Block\<close> (table/block_builder.h, block_builder.cc, block.h, block.cc): blocks with prefix compression and
    restart points, their builder and their iterator; \<open>Block_Format\<close>: the bytes of a block as a
    function of its entries; \<open>Block_Moves\<close>: every move of the iterator over them.
  \<^item> \<open>Iterator\<close> (include/leveldb/iterator.h, table/iterator.cc, iterator_wrapper.h): the contract of an iterator over
    a list of entries, and the wrapper; \<open>Two_Level\<close> (table/two_level_iterator.cc): the
    iterator over a list of blocks keeps the contract if index and blocks do.
  \<^item> \<open>Table_Format\<close> (table/format.h, format.cc): handles, footer, reading of a block; \<open>Table_Builder\<close>
    (table/table_builder.cc): writing a table; \<open>Table_Layout\<close>, \<open>Table_Finish\<close>: the file that results;
    \<open>Table\<close> (table/table.cc, include/leveldb/options.h): opening and reading; \<open>Table_Reader\<close>: iterators and
    lookups over any file of that layout; \<open>Table_Properties\<close> (util/options.cc): tables in memory.
  \<^item> \<open>Cache\<close> (include/leveldb/cache.h): the contract of a cache with handles; \<open>Sharded_Cache\<close> (util/cache.cc):
    the cache of sixteen shards; \<open>Sharded_Cache_Table\<close>, \<open>Sharded_Cache_Shard\<close>,
    \<open>Sharded_Cache_All\<close>: its hash table, its lists and reference counts, and the contract.

  \<^item> \<open>Dbformat\<close> (db/dbformat.h, dbformat.cc): internal keys, the locale \<open>user_comparator\<close> and the order of internal
    keys that it gives; \<open>Skip_List\<close> (util/random.h, db/skiplist.h), \<open>Skip_List_Insert\<close>, \<open>Skip_List_Keys\<close>: the
    skip list, its chains of links, and the sorted list of keys that it refines, under the locale
    \<open>key_order\<close>; \<open>Arena\<close> (util/arena.h, arena.cc): its memory.
  \<^item> \<open>Memtable\<close> (db/memtable.h, memtable.cc): entries in a skip list; \<open>Memtable_Properties\<close>: lookups and iteration
    after any operations with increasing sequence numbers.

  \<^item> \<open>Random_Numbers\<close>: the generator of util/random.h is the Lehmer generator; \<open>Version_Edit\<close> (db/version_edit.h,
    version_edit.cc): changes to the set of tables and their encoding.
  \<^item> \<open>Write_Batch\<close> (include/leveldb/write_batch.h, db/write_batch_internal.h, write_batch.cc): batches of updates;
    \<open>Db_Write\<close> (db/db_impl.cc, db/snapshot.h): group commit, lookups in the memtables, the replay of a log;
    \<open>Db_Recovery\<close>: log and memtable in step, under the locales \<open>db_writer\<close> and \<open>db_reader\<close>; \<open>Db_Properties\<close>: reading
    one's writes, and recovery after a crash, over files in memory.

  \<^item> \<open>Merger\<close> (table/merger.cc): the merging iterator, and its contract under the locale \<open>merging\<close>;
    \<open>Db_Iter\<close>, \<open>Db_Iter_Moves\<close> (db/db_iter.cc): the iterator over user entries, and its contract
    under the locale \<open>db_iter\<close>; \<open>Db_Iterators\<close> (db/db_impl.cc): NewInternalIterator and NewIterator over
    memtables and tables; \<open>Db_Iter_Properties\<close>: merging, and scans of a database.

  \<^bold>\<open>Conventions of the key-value store.\<close>  Binary data are lists of 8-bit words, file offsets of the
  reader are 64-bit words that wrap around, sizes of data in memory are natural numbers.  An
  operation that follows a null or dangling pointer or fails an assertion is None.  The loop of
  the reader takes fuel; more than the length of the file is enough.  Snappy is a parameter that
  restores what it compressed.  Tables are treated up to 2^30 bytes, counting 64 bytes for each
  entry beside key and value, so that offsets within a block, which the code keeps in 32 bits, and the
  filter block do not overflow; Bloom filters use at most 128 bits per key.  Locks are left out.

  \<^bold>\<open>Conventions of the simulator.\<close>  The C type \<open>int\<close> is \<open>int\<close>; overflow is modelled where the code can reach it
  (the divider of the garbage collector, the float conversion of the initialisation) and left
  out for counters and addresses.  Messages, memory management and the wall clock are left out.
  An index outside an array, a zero divisor, an overflow and \<open>exit\<close> are errors.  The loops of
  the garbage collector take fuel; the number of pages of the device, one block's pages and two
  are enough (\<open>enough_fuel\<close>).

  \<^bold>\<open>Not modelled.\<close>  Of the simulator, the layers NFTL, DFTL, STRIPE and BEYONDADDR, which are
  alternatives to the two layers here and share only the flash memory and the trace reader with them, the list of the
  SRAM cache, a copy of the list of keys, the initialisation of the device, which the properties replace by
  any device that keeps the invariants, and the output of results.  Of the key-value store,
  switching of memtables, compaction and versions, which a background thread drives, the POSIX
  environment, which works with system calls and threads, and the value log of wisckey_test.cc, which
  keeps pointers as text and reads over string objects.  A case of the
  keys of cache entries is left out as \<open>Sharded_Cache\<close> says; what the environment answers for a
  replayed log is an argument of \<open>RecoverLogFile\<close> (\<open>Db_Write\<close>).  A write that
  would have to wait for the background thread is None; the loads of the properties fit the write
  buffer, each update counted with 10000 bytes beside its key and value.
\<close>

end
